(* ===== verification/Prelude.thy ===== *)
theory Prelude
  imports Main "HOL-Library.Word"
begin

unbundle bit_operations_syntax

text \<open>
  Shared vocabulary of the development: the machine integer types of the C++ sources, the
  result type of code that may abort through the \<open>EXIT\<close> macros of
  \<open>src/common/assert.h\<close>, error numbers of \<open>src/libs/errno.h\<close>, and the
  generic lemmas on word intervals and lists that the component theories use.
\<close>

section \<open>Machine integers\<close>

type_synonym u8 = "8 word"
type_synonym u16 = "16 word"
type_synonym u32 = "32 word"
type_synonym u64 = "64 word"
type_synonym i32 = "32 word"

abbreviation UINT64_MAX :: u64 where "UINT64_MAX \<equiv> - 1"
abbreviation UINT32_MAX :: u32 where "UINT32_MAX \<equiv> - 1"

named_theorems iv_simps \<open>facts on the ends of word intervals that do not wrap around\<close>

text \<open>
  The guard \<open>size > UINT64_MAX - start\<close> of the sources says that an interval wraps
  around. \<open>fits\<close> is its negation: the end of the interval is a 64-bit address.
\<close>

definition fits :: "u64 \<Rightarrow> u64 \<Rightarrow> bool" where
  "fits s z \<longleftrightarrow> z \<le> UINT64_MAX - s"

lemma u64_less: "unat s < 2 ^ 64" for s :: u64
  using unsigned_less [of s] by simp

lemma unat_of_nat_u64: "n < 2 ^ 64 \<Longrightarrow> unat (of_nat n :: u64) = n"
  by (simp add: unsigned_of_nat take_bit_nat_eq_self)

lemma word_unat_eqI: "unat a = unat b \<Longrightarrow> a = b" for a b :: u64
  by (simp only: word_unat_eq_iff)

lemma unat_power: "k < 64 \<Longrightarrow> unat ((2 :: u64) ^ k) = 2 ^ k"
proof -
  assume "k < 64"
  then have "(2 :: nat) ^ k < 2 ^ 64" by (intro power_strict_increasing) simp_all
  then show ?thesis using unat_of_nat_u64 by (metis of_nat_numeral of_nat_power)
qed

lemma u64_max_minus: "unat (UINT64_MAX - s) = 2 ^ 64 - 1 - unat s" for s :: u64
proof -
  have "unat (UINT64_MAX - s) = unat UINT64_MAX - unat s"
    by (rule unat_sub) simp
  moreover have "unat UINT64_MAX = 2 ^ 64 - 1"
    by (simp add: unsigned_minus_1_eq_mask mask_eq_exp_minus_1)
  ultimately show ?thesis by simp
qed

lemma fits_unat: "fits s z \<longleftrightarrow> unat s + unat z < 2 ^ 64"
  using u64_less [of s] by (auto simp: fits_def word_le_nat_alt u64_max_minus simp del: unat_sub_if')

lemma not_fits: "UINT64_MAX - s < z \<longleftrightarrow> \<not> fits s z"
  by (auto simp: fits_def)

lemma unat_add_fits [iv_simps]: "fits s z \<Longrightarrow> unat (s + z) = unat s + unat z"
  by (simp add: fits_unat unat_add_lem [THEN iffD1])

lemma fits_le [iv_simps]: "fits s z \<Longrightarrow> s \<le> s + z"
  by (simp add: word_le_nat_alt unat_add_fits)

lemma fits_less [iv_simps]: "fits s z \<Longrightarrow> z \<noteq> 0 \<Longrightarrow> s < s + z"
  using unat_eq_0 [of z] by (auto simp: word_less_nat_alt unat_add_fits)

lemma fits_zero [simp]: "fits s 0"
  by (simp add: fits_def)

lemma fits_diff [iv_simps]: "s \<le> e \<Longrightarrow> fits s (e - s)"
  using u64_less [of e] by (simp add: fits_unat unat_sub word_le_nat_alt)

lemma fits_sub: "fits s z \<Longrightarrow> s \<le> a \<Longrightarrow> a \<le> e \<Longrightarrow> e \<le> s + z \<Longrightarrow> fits a (e - a)"
  by (rule fits_diff)

lemma fits_mono: "fits s z \<Longrightarrow> y \<le> z \<Longrightarrow> fits s y"
  by (simp add: fits_def)

lemma fits_chain: "fits s z \<Longrightarrow> fits (s + z) y \<Longrightarrow> fits s (z + y) \<and> s + (z + y) = s + z + y"
  by (auto simp: fits_unat unat_add_fits add.assoc unat_word_ariths)

lemma less_max [iv_simps]: "a < b \<Longrightarrow> a < UINT64_MAX" for a b :: u64
  by (rule order.strict_trans2) simp_all

lemma diff_le_iff [iv_simps]: "a \<le> b \<Longrightarrow> b - a \<le> c \<longleftrightarrow> unat b \<le> unat a + unat c" for a b c :: u64
  by (simp add: word_le_nat_alt unat_sub) arith

lemma word_diff_eq_0 [simp]: "b - a = 0 \<longleftrightarrow> a = b" for a b :: u64
  by auto

lemma size_le_room: "a \<le> e \<Longrightarrow> z \<le> e - a \<longleftrightarrow> fits a z \<and> a + z \<le> e" for a e z :: u64
proof
  assume a: "a \<le> e" and z: "z \<le> e - a"
  have f: "fits a z" using fits_diff[OF a] z by (rule fits_mono)
  show "fits a z \<and> a + z \<le> e"
    using f a z by (simp add: word_le_nat_alt unat_add_fits unat_sub)
next
  assume a: "a \<le> e" and "fits a z \<and> a + z \<le> e"
  then have "unat a + unat z \<le> unat e"
    by (simp add: word_le_nat_alt flip: unat_add_fits)
  with a show "z \<le> e - a"
    by (simp add: word_le_nat_alt unat_sub)
qed

text \<open>Lengths of word intervals as naturals, for counting arguments.\<close>

lemma unat_diff_le [iv_simps]: "a \<le> b \<Longrightarrow> unat (b - a) = unat b - unat a" for a b :: u64
  by (rule unat_sub)

lemma walk_measure: "current < e \<Longrightarrow> current < n \<Longrightarrow> unat (n - min n e) < unat (n - current)"
  for current :: u64
  by (auto simp: min_def iv_simps word_less_nat_alt word_le_nat_alt)

lemma all_from:
  fixes c :: u64
  assumes "c \<le> m" and "\<And>a. c \<le> a \<Longrightarrow> a < m \<Longrightarrow> P a"
  shows "(\<forall>a. c \<le> a \<and> a < e \<longrightarrow> P a) \<longleftrightarrow> (\<forall>a. m \<le> a \<and> a < e \<longrightarrow> P a)"
proof (intro iffI allI impI)
  fix a assume "\<forall>a. c \<le> a \<and> a < e \<longrightarrow> P a" "m \<le> a \<and> a < e"
  then show "P a" using assms(1) by (blast intro: order_trans)
next
  fix a assume "\<forall>a. m \<le> a \<and> a < e \<longrightarrow> P a" "c \<le> a \<and> a < e"
  then show "P a" using assms(2) by (cases "a < m") (auto simp: not_less)
qed

section \<open>Signed integers\<close>

text \<open>
  Signed C++ integers are integers. Overflow is undefined behaviour, so a definition that models code
  with an operation that can overflow tests its result with \<open>int32\<close> or \<open>int64\<close>. Division truncates.
\<close>

definition int32 :: "int \<Rightarrow> bool" where
  "int32 n \<longleftrightarrow> - (2 ^ 31) \<le> n \<and> n < 2 ^ 31"

definition int64 :: "int \<Rightarrow> bool" where
  "int64 n \<longleftrightarrow> - (2 ^ 63) \<le> n \<and> n < 2 ^ 63"

definition cdiv :: "int \<Rightarrow> int \<Rightarrow> int" where
  "cdiv a b = sgn a * sgn b * (\<bar>a\<bar> div \<bar>b\<bar>)"

definition cmod :: "int \<Rightarrow> int \<Rightarrow> int" where
  "cmod a b = a - b * cdiv a b"

lemma cdiv_pos: "0 \<le> a \<Longrightarrow> 0 < b \<Longrightarrow> cdiv a b = a div b"
  by (cases "a = 0") (simp_all add: cdiv_def)

lemma cmod_pos: "0 \<le> a \<Longrightarrow> 0 < b \<Longrightarrow> cmod a b = a mod b"
  by (simp add: cmod_def cdiv_pos minus_mult_div_eq_mod)

lemma cmod_eq_0: "cmod a b = 0 \<longleftrightarrow> b dvd a"
proof
  assume "cmod a b = 0"
  then have "a = b * cdiv a b" by (simp add: cmod_def)
  then show "b dvd a" by (rule dvdI)
next
  assume "b dvd a"
  then have d: "\<bar>b\<bar> * (\<bar>a\<bar> div \<bar>b\<bar>) = \<bar>a\<bar>" by simp
  have "b * cdiv a b = sgn a * (\<bar>b\<bar> * (\<bar>a\<bar> div \<bar>b\<bar>))" by (simp add: cdiv_def abs_sgn algebra_simps)
  then have "b * cdiv a b = a" unfolding d by (simp add: sgn_mult_abs)
  then show "cmod a b = 0" by (simp add: cmod_def)
qed

section \<open>Aborting code\<close>

text \<open>
  \<open>EXIT_IF\<close>, \<open>EXIT\<close> and \<open>EXIT_NOT_IMPLEMENTED\<close> end the process. A function that
  can reach one of them with non-null arguments returns \<open>Exit\<close> in that case.
\<close>

datatype 'a outcome = Exit | Done 'a

primrec obind :: "'a outcome \<Rightarrow> ('a \<Rightarrow> 'b outcome) \<Rightarrow> 'b outcome" where
  "obind Exit f = Exit"
| "obind (Done x) f = f x"

lemma obind_eq_Done: "obind m f = Done y \<longleftrightarrow> (\<exists>x. m = Done x \<and> f x = Done y)"
  by (cases m) auto

section \<open>Error numbers\<close>

text \<open>The integer results of the kernel entry points (\<open>src/libs/errno.h\<close>).\<close>

definition OK :: int where "OK = 0"
definition KERNEL_ERROR_EPERM :: int where "KERNEL_ERROR_EPERM = -2147352575"
definition KERNEL_ERROR_ENOENT :: int where "KERNEL_ERROR_ENOENT = -2147352574"
definition KERNEL_ERROR_ESRCH :: int where "KERNEL_ERROR_ESRCH = -2147352573"
definition KERNEL_ERROR_EBADF :: int where "KERNEL_ERROR_EBADF = -2147352567"
definition KERNEL_ERROR_EDEADLK :: int where "KERNEL_ERROR_EDEADLK = -2147352565"
definition KERNEL_ERROR_ENOMEM :: int where "KERNEL_ERROR_ENOMEM = -2147352564"
definition KERNEL_ERROR_EACCES :: int where "KERNEL_ERROR_EACCES = -2147352563"
definition KERNEL_ERROR_EFAULT :: int where "KERNEL_ERROR_EFAULT = -2147352562"
definition KERNEL_ERROR_EBUSY :: int where "KERNEL_ERROR_EBUSY = -2147352560"
definition KERNEL_ERROR_EINVAL :: int where "KERNEL_ERROR_EINVAL = -2147352554"
definition KERNEL_ERROR_EAGAIN :: int where "KERNEL_ERROR_EAGAIN = -2147352541"
definition KERNEL_ERROR_ENOTSUP :: int where "KERNEL_ERROR_ENOTSUP = -2147352531"
definition KERNEL_ERROR_ETIMEDOUT :: int where "KERNEL_ERROR_ETIMEDOUT = -2147352516"
definition KERNEL_ERROR_ENAMETOOLONG :: int where "KERNEL_ERROR_ENAMETOOLONG = -2147352513"
definition KERNEL_ERROR_ECANCELED :: int where "KERNEL_ERROR_ECANCELED = -2147352491"

lemmas errno_defs = OK_def KERNEL_ERROR_EPERM_def KERNEL_ERROR_ENOENT_def KERNEL_ERROR_ESRCH_def
  KERNEL_ERROR_EBADF_def KERNEL_ERROR_ENOMEM_def KERNEL_ERROR_EACCES_def KERNEL_ERROR_EFAULT_def
  KERNEL_ERROR_EBUSY_def KERNEL_ERROR_EINVAL_def KERNEL_ERROR_ETIMEDOUT_def
  KERNEL_ERROR_ENAMETOOLONG_def KERNEL_ERROR_ECANCELED_def KERNEL_ERROR_EDEADLK_def
  KERNEL_ERROR_EAGAIN_def KERNEL_ERROR_ENOTSUP_def

section \<open>Lists\<close>

lemma find_append: "find P (xs @ ys) = (case find P xs of None \<Rightarrow> find P ys | Some x \<Rightarrow> Some x)"
  by (induction xs) auto

end
