(* ===== verification/VirtualRanges.thy ===== *)
theory VirtualRanges
  imports Prelude
begin

text \<open>
  The guest's table of virtual ranges: class \<open>VirtualRanges\<close> of
  \<open>src/kernel/memory.cpp\<close> with the range helpers declared before it. The vector
  \<open>m_ranges\<close> is a list; each method is a function from the table to its result and the
  new table. The mutex of the class makes every method one atomic step, so it has no
  counterpart here. The second half gives the table a meaning, a partial function from
  guest addresses to attributes, and shows that each method is the corresponding update or
  query of that function.
\<close>

section \<open>Protection bits, range types, names\<close>

definition PROT_CPU_READ :: i32 where "PROT_CPU_READ = 0x01"
definition PROT_CPU_WRITE :: i32 where "PROT_CPU_WRITE = 0x02"
definition PROT_CPU_EXEC :: i32 where "PROT_CPU_EXEC = 0x04"
definition PROT_GPU_READ :: i32 where "PROT_GPU_READ = 0x10"
definition PROT_GPU_WRITE :: i32 where "PROT_GPU_WRITE = 0x20"
definition PROT_AMPR_READ :: i32 where "PROT_AMPR_READ = 0x40"
definition PROT_AMPR_WRITE :: i32 where "PROT_AMPR_WRITE = 0x80"
definition PROT_ACP_READ :: i32 where "PROT_ACP_READ = 0x100"
definition PROT_ACP_WRITE :: i32 where "PROT_ACP_WRITE = 0x200"
definition PROT_CPU_GPU :: i32 where
  "PROT_CPU_GPU = PROT_CPU_READ OR PROT_CPU_WRITE OR PROT_CPU_EXEC OR PROT_GPU_READ OR PROT_GPU_WRITE"
definition PROT_DIRECT_SUPPORTED :: i32 where
  "PROT_DIRECT_SUPPORTED =
     PROT_CPU_GPU OR PROT_AMPR_READ OR PROT_AMPR_WRITE OR PROT_ACP_READ OR PROT_ACP_WRITE"

lemmas prot_defs = PROT_CPU_READ_def PROT_CPU_WRITE_def PROT_CPU_EXEC_def PROT_GPU_READ_def
  PROT_GPU_WRITE_def PROT_AMPR_READ_def PROT_AMPR_WRITE_def PROT_ACP_READ_def PROT_ACP_WRITE_def
  PROT_CPU_GPU_def PROT_DIRECT_SUPPORTED_def

datatype host_mode = NoAccess | Read | Write | ReadWrite
  | Execute | ExecuteRead | ExecuteWrite | ExecuteReadWrite

datatype gpu_mode = GpuNoAccess | GpuRead | GpuWrite | GpuReadWrite

definition IsExecute :: "host_mode \<Rightarrow> bool" where
  "IsExecute mode \<longleftrightarrow>
     mode = Execute \<or> mode = ExecuteRead \<or> mode = ExecuteWrite \<or> mode = ExecuteReadWrite"

definition DecodeMemoryProtection :: "i32 \<Rightarrow> (host_mode \<times> gpu_mode) option" where
  "DecodeMemoryProtection prot =
    (let cpu_read = prot AND PROT_CPU_READ \<noteq> 0;
         cpu_write = prot AND PROT_CPU_WRITE \<noteq> 0;
         cpu_exec = prot AND PROT_CPU_EXEC \<noteq> 0;
         gpu_read = prot AND PROT_GPU_READ \<noteq> 0;
         gpu_write = prot AND PROT_GPU_WRITE \<noteq> 0
     in if prot AND PROT_CPU_GPU = 0 \<and> prot \<noteq> 0 then None
        else
          let gpu = (if gpu_read \<and> gpu_write then GpuReadWrite
                     else if gpu_read then GpuRead
                     else if gpu_write then GpuWrite else GpuNoAccess);
              host_write = (cpu_write \<or> gpu_write);
              host_read = (if host_write then True else cpu_read \<or> gpu_read);
              mode = (if cpu_exec then
                        (if host_write then ExecuteReadWrite
                         else if host_read then ExecuteRead else Execute)
                      else if host_write then ReadWrite
                      else if host_read then Read else NoAccess)
          in Some (mode, gpu))"

definition DecodeDirectMemoryProtection :: "i32 \<Rightarrow> (host_mode \<times> gpu_mode) option" where
  "DecodeDirectMemoryProtection prot =
     (if prot AND NOT PROT_DIRECT_SUPPORTED \<noteq> 0 then None
      else DecodeMemoryProtection (prot AND PROT_CPU_GPU))"

definition KERNEL_MAXIMUM_NAME_LENGTH :: nat where "KERNEL_MAXIMUM_NAME_LENGTH = 32"

text \<open>
  A C string is its characters before the first NUL; \<open>CopyVirtualRangeName\<close> keeps at
  most 31 of them in a zero-filled array, so two arrays compare equal under
  \<open>strncmp\<close> exactly when these lists are equal. \<open>None\<close> is the null pointer.
\<close>

definition c_str :: "string \<Rightarrow> string" where
  "c_str s = takeWhile (\<lambda>c. c \<noteq> CHR 0x00) s"

definition CopyVirtualRangeName :: "string option \<Rightarrow> string" where
  "CopyVirtualRangeName name =
     (case name of None \<Rightarrow> [] | Some s \<Rightarrow> take (KERNEL_MAXIMUM_NAME_LENGTH - 1) (c_str s))"

definition VirtualRangesOverlap :: "u64 \<Rightarrow> u64 \<Rightarrow> u64 \<Rightarrow> u64 \<Rightarrow> bool" where
  "VirtualRangesOverlap left_start left_size right_start right_size =
    (if left_size = 0 \<or> right_size = 0 then False
     else
       let left_end = (if UINT64_MAX - left_start < left_size then UINT64_MAX
                       else left_start + left_size);
           right_end = (if UINT64_MAX - right_start < right_size then UINT64_MAX
                        else right_start + right_size)
       in left_start < right_end \<and> right_start < left_end)"

datatype VirtualRangeType = Reserved | PoolReserved | Direct | Flexible | Pooled | Stack | Code | Runtime

definition IsReservedRangeType :: "VirtualRangeType \<Rightarrow> bool" where
  "IsReservedRangeType t \<longleftrightarrow> t = Reserved \<or> t = PoolReserved"

definition IsPooledRangeType :: "VirtualRangeType \<Rightarrow> bool" where
  "IsPooledRangeType t \<longleftrightarrow> t = Pooled \<or> t = PoolReserved"

definition IsCommittedRangeType :: "VirtualRangeType \<Rightarrow> bool" where
  "IsCommittedRangeType t \<longleftrightarrow> \<not> IsReservedRangeType t"

definition IsPrivateCommittedRangeType :: "VirtualRangeType \<Rightarrow> bool" where
  "IsPrivateCommittedRangeType t \<longleftrightarrow> t = Stack \<or> t = Code \<or> t = Runtime"

section \<open>The table and its methods\<close>

record vrange =
  vr_start :: u64
  vr_size :: u64
  vr_offset :: u64
  vr_protection :: i32
  vr_memory_type :: i32
  vr_type :: VirtualRangeType
  vr_disallow_merge :: bool
  vr_name :: string

definition End :: "u64 \<Rightarrow> u64 \<Rightarrow> u64" where
  "End start sz = (if UINT64_MAX - start < sz then UINT64_MAX else start + sz)"

definition vr_end :: "vrange \<Rightarrow> u64" where
  "vr_end r = End (vr_start r) (vr_size r)"

definition SameMergeKey :: "vrange \<Rightarrow> vrange \<Rightarrow> bool" where
  "SameMergeKey left right =
    (if vr_disallow_merge left \<or> vr_disallow_merge right \<or> vr_type left = Direct \<or> vr_type right = Direct
     then False
     else vr_type left = vr_type right \<and> vr_protection left = vr_protection right \<and>
          vr_memory_type left = vr_memory_type right \<and> vr_name left = vr_name right)"

text \<open>The piece that \<open>AddPiece\<close> appends to the output vector, if any.\<close>

definition AddPiece :: "vrange \<Rightarrow> u64 \<Rightarrow> u64 \<Rightarrow> vrange list" where
  "AddPiece source start end =
    (if end \<le> start then []
     else [source\<lparr>vr_start := start, vr_size := end - start,
                  vr_offset := (if vr_type source = Direct then vr_offset source + (start - vr_start source)
                                else vr_offset source)\<rparr>])"

definition LowerBound :: "vrange list \<Rightarrow> u64 \<Rightarrow> nat" where
  "LowerBound rs start = length (takeWhile (\<lambda>r. vr_start r < start) rs)"

definition erase_at :: "nat \<Rightarrow> 'a list \<Rightarrow> 'a list" where
  "erase_at i xs = take i xs @ drop (Suc i) xs"

definition grow :: "vrange \<Rightarrow> vrange \<Rightarrow> vrange" where
  "grow left right = left\<lparr>vr_size := vr_size left + vr_size right\<rparr>"

definition mergeable :: "vrange \<Rightarrow> vrange \<Rightarrow> bool" where
  "mergeable left right \<longleftrightarrow> vr_end left = vr_start right \<and> SameMergeKey left right"

function merge_forward :: "vrange list \<Rightarrow> nat \<Rightarrow> vrange list" where
  "merge_forward rs i =
    (if i + 1 < length rs then
       (if \<not> mergeable (rs ! i) (rs ! (i + 1)) then rs
        else merge_forward (erase_at (i + 1) (rs[i := grow (rs ! i) (rs ! (i + 1))])) i)
     else rs)"
  by pat_completeness auto
termination
  by (relation "measure (\<lambda>(rs, i). length rs)") (auto simp: erase_at_def)

declare merge_forward.simps [simp del]

definition merge_previous :: "vrange list \<Rightarrow> nat \<Rightarrow> vrange list \<times> nat" where
  "merge_previous rs i =
    (if i \<noteq> 0 \<and> mergeable (rs ! (i - 1)) (rs ! i)
     then (erase_at i (rs[i - 1 := grow (rs ! (i - 1)) (rs ! i)]), i - 1)
     else (rs, i))"

definition MergeAroundUnlocked :: "vrange list \<Rightarrow> nat \<Rightarrow> vrange list" where
  "MergeAroundUnlocked rs index =
    (if length rs \<le> index then rs
     else case merge_previous rs index of (rs', i) \<Rightarrow> merge_forward rs' i)"

text \<open>
  The loop of \<open>MergeUnlocked\<close>; the first argument is \<open>merged.back()\<close>.
\<close>

fun merge_run :: "vrange \<Rightarrow> vrange list \<Rightarrow> vrange list" where
  "merge_run back [] = [back]"
| "merge_run back (r # rs) =
     (if mergeable back r then merge_run (grow back r) rs else back # merge_run r rs)"

fun merge_all :: "vrange list \<Rightarrow> vrange list" where
  "merge_all [] = []"
| "merge_all (r # rs) = merge_run r rs"

definition MergeUnlocked :: "vrange list \<Rightarrow> vrange list" where
  "MergeUnlocked rs = (if length rs < 2 then rs else merge_all (sort_key vr_start rs))"

definition overlaps :: "u64 \<Rightarrow> u64 \<Rightarrow> vrange \<Rightarrow> bool" where
  "overlaps start sz r \<longleftrightarrow> VirtualRangesOverlap start sz (vr_start r) (vr_size r)"

definition edit_one :: "u64 \<Rightarrow> u64 \<Rightarrow> (vrange \<Rightarrow> vrange) \<Rightarrow> vrange \<Rightarrow> vrange list" where
  "edit_one start sz edit r =
    (if \<not> overlaps start sz r then [r]
     else
       let mid_start = max start (vr_start r);
           mid_end = min (End start sz) (vr_end r);
           mid = r\<lparr>vr_start := mid_start, vr_size := mid_end - mid_start,
                   vr_offset := (if vr_type r = Direct then vr_offset r + (mid_start - vr_start r)
                                 else vr_offset r)\<rparr>
       in AddPiece r (vr_start r) mid_start @ [edit mid] @ AddPiece r mid_end (vr_end r))"

definition EditUnlocked :: "vrange list \<Rightarrow> u64 \<Rightarrow> u64 \<Rightarrow> (vrange \<Rightarrow> vrange) \<Rightarrow> vrange list" where
  "EditUnlocked rs start sz edit =
    (if sz = 0 then rs else MergeUnlocked (concat (map (edit_one start sz edit) rs)))"

definition remove_one :: "u64 \<Rightarrow> u64 \<Rightarrow> vrange \<Rightarrow> vrange list" where
  "remove_one start sz r =
    (if \<not> overlaps start sz r then [r]
     else AddPiece r (vr_start r) (max start (vr_start r)) @
          AddPiece r (min (End start sz) (vr_end r)) (vr_end r))"

definition RemoveUnlocked :: "vrange list \<Rightarrow> u64 \<Rightarrow> u64 \<Rightarrow> bool \<times> vrange list" where
  "RemoveUnlocked rs start sz =
    (if sz = 0 then (False, rs)
     else (list_ex (overlaps start sz) rs, concat (map (remove_one start sz) rs)))"

definition FindOverlap :: "vrange list \<Rightarrow> u64 \<Rightarrow> u64 \<Rightarrow> vrange option" where
  "FindOverlap rs start sz =
    (let p = LowerBound rs start
     in if p < length rs \<and> overlaps start sz (rs ! p) then Some (rs ! p)
        else if p \<noteq> 0 \<and> overlaps start sz (rs ! (p - 1)) then Some (rs ! (p - 1))
        else None)"

definition vr_Add :: "vrange list \<Rightarrow> u64 \<Rightarrow> u64 \<Rightarrow> u64 \<Rightarrow> i32 \<Rightarrow> i32 \<Rightarrow> VirtualRangeType \<Rightarrow>
    string option \<Rightarrow> bool \<Rightarrow> bool \<times> vrange list" where
  "vr_Add rs start sz offset protection memory_type type name disallow_merge =
    (if start = 0 \<or> sz = 0 then (False, rs)
     else
       let p = LowerBound rs start
       in if (p < length rs \<and> overlaps start sz (rs ! p)) \<or>
             (p \<noteq> 0 \<and> overlaps start sz (rs ! (p - 1))) then (False, rs)
          else
            let r = \<lparr>vr_start = start, vr_size = sz, vr_offset = offset,
                     vr_protection = protection, vr_memory_type = memory_type, vr_type = type,
                     vr_disallow_merge = disallow_merge, vr_name = CopyVirtualRangeName name\<rparr>
            in (True, MergeAroundUnlocked (take p rs @ [r] @ drop p rs) p))"

definition vr_Remove :: "vrange list \<Rightarrow> u64 \<Rightarrow> u64 \<Rightarrow> bool \<times> vrange list" where
  "vr_Remove rs start sz =
    (let p = LowerBound rs start
     in if p < length rs \<and> vr_start (rs ! p) = start \<and> vr_size (rs ! p) = sz
        then (True, erase_at p rs)
        else case RemoveUnlocked rs start sz of (removed, rs') \<Rightarrow> (removed, MergeUnlocked rs'))"

definition vr_HasOverlap :: "vrange list \<Rightarrow> u64 \<Rightarrow> u64 \<Rightarrow> bool" where
  "vr_HasOverlap rs start sz \<longleftrightarrow> FindOverlap rs start sz \<noteq> None"

definition vr_QueryOverlap :: "vrange list \<Rightarrow> u64 \<Rightarrow> u64 \<Rightarrow> vrange option" where
  "vr_QueryOverlap rs start sz = FindOverlap rs start sz"

fun vr_ReleaseReserved :: "vrange list \<Rightarrow> u64 \<Rightarrow> u64 \<Rightarrow> vrange list" where
  "vr_ReleaseReserved [] start sz = []"
| "vr_ReleaseReserved (r # rs) start sz =
     (if vr_start r = start \<and> vr_size r = sz \<and> IsReservedRangeType (vr_type r) then rs
      else r # vr_ReleaseReserved rs start sz)"

definition vr_ConsumeReserved :: "vrange list \<Rightarrow> u64 \<Rightarrow> u64 \<Rightarrow> VirtualRangeType \<Rightarrow> bool \<times> vrange list" where
  "vr_ConsumeReserved rs start sz type =
    (if list_ex (\<lambda>r. vr_type r = type \<and> vr_start r \<le> start \<and> End start sz \<le> vr_end r) rs
     then (True, MergeUnlocked (snd (RemoveUnlocked rs start sz)))
     else (False, rs))"

definition vr_candidate :: "vrange list \<Rightarrow> VirtualRangeType \<Rightarrow> u64 \<Rightarrow> vrange option" where
  "vr_candidate rs type current =
     find (\<lambda>r. vr_type r = type \<and> vr_start r \<le> current \<and> current < vr_end r) rs"

lemma vr_candidate_gt: "vr_candidate rs type current = Some r \<Longrightarrow> current < vr_end r"
  by (auto simp: vr_candidate_def find_Some_iff)

function reserved_walk :: "vrange list \<Rightarrow> VirtualRangeType \<Rightarrow> u64 \<Rightarrow> u64 \<Rightarrow> bool" where
  "reserved_walk rs type current end =
    (if current < end then
       (case vr_candidate rs type current of
          None \<Rightarrow> False
        | Some r \<Rightarrow> reserved_walk rs type (min end (vr_end r)) end)
     else True)"
  by pat_completeness auto
termination
  by (relation "measure (\<lambda>(rs, type, current, end). unat (end - current))")
    (auto dest: vr_candidate_gt intro: walk_measure)

declare reserved_walk.simps [simp del]

text \<open>
  The result is the success flag, the range that holds \<open>start\<close> (written to
  \<open>first_range\<close> in the first round of the loop) and the new table.
\<close>

definition vr_ConsumeReservedSpan :: "vrange list \<Rightarrow> u64 \<Rightarrow> u64 \<Rightarrow> VirtualRangeType \<Rightarrow>
    bool \<times> vrange option \<times> vrange list" where
  "vr_ConsumeReservedSpan rs start sz type =
    (if sz = 0 then (False, None, rs)
     else
       let first = (if start < End start sz then vr_candidate rs type start else None)
       in if reserved_walk rs type start (End start sz)
          then (True, first, MergeUnlocked (snd (RemoveUnlocked rs start sz)))
          else (False, first, rs))"

definition vr_Rename :: "vrange list \<Rightarrow> u64 \<Rightarrow> u64 \<Rightarrow> string option \<Rightarrow> vrange list" where
  "vr_Rename rs start sz name =
    (let p = LowerBound rs start
     in if p < length rs \<and> vr_start (rs ! p) = start \<and> vr_size (rs ! p) = sz
        then MergeAroundUnlocked (rs[p := (rs ! p)\<lparr>vr_name := CopyVirtualRangeName name\<rparr>]) p
        else EditUnlocked rs start sz (\<lambda>r. r\<lparr>vr_name := CopyVirtualRangeName name\<rparr>))"

definition vr_Protect :: "vrange list \<Rightarrow> u64 \<Rightarrow> u64 \<Rightarrow> i32 \<Rightarrow> vrange list" where
  "vr_Protect rs start sz protection =
     EditUnlocked rs start sz (\<lambda>r. r\<lparr>vr_protection := protection\<rparr>)"

definition vr_SetMemoryType :: "vrange list \<Rightarrow> u64 \<Rightarrow> u64 \<Rightarrow> i32 \<Rightarrow> vrange list" where
  "vr_SetMemoryType rs start sz memory_type =
     EditUnlocked rs start sz (\<lambda>r. r\<lparr>vr_memory_type := memory_type\<rparr>)"

definition vr_Query :: "vrange list \<Rightarrow> u64 \<Rightarrow> i32 \<Rightarrow> vrange option" where
  "vr_Query rs addr flags =
    (let upto = takeWhile (\<lambda>r. vr_start r \<le> addr) rs;
         after = dropWhile (\<lambda>r. vr_start r \<le> addr) rs
     in if upto \<noteq> [] \<and> addr < vr_end (last upto) then Some (last upto)
        else if flags \<noteq> 1 \<or> after = [] then None
        else Some (hd after))"

text \<open>The loop of \<open>QuerySpan\<close>: the parts still to be pushed, or None when it fails.\<close>

fun span_loop :: "vrange list \<Rightarrow> u64 \<Rightarrow> u64 \<Rightarrow> vrange list option" where
  "span_loop [] current end = None"
| "span_loop (r # rs) current end =
    (if vr_end r \<le> current then span_loop rs current end
     else if current < vr_start r then None
     else
       let part = r\<lparr>vr_start := current, vr_size := min end (vr_end r) - current,
                    vr_offset := (if vr_type r = Direct then vr_offset r + (current - vr_start r)
                                  else vr_offset r)\<rparr>;
           current' = current + vr_size part
       in if current' = end then Some [part]
          else map_option (\<lambda>ps. part # ps) (span_loop rs current' end))"

definition vr_QuerySpan :: "vrange list \<Rightarrow> u64 \<Rightarrow> u64 \<Rightarrow> vrange list option" where
  "vr_QuerySpan rs start sz =
    (if start = 0 \<or> sz = 0 \<or> UINT64_MAX - start < sz then None
     else span_loop rs start (start + sz))"

fun clamp_loop :: "vrange list \<Rightarrow> u64 \<Rightarrow> u64 \<Rightarrow> u64 \<Rightarrow> u64" where
  "clamp_loop [] expected clamped_size sz = clamped_size"
| "clamp_loop (r # rs) expected clamped_size sz =
    (if vr_start r = expected \<and> IsCommittedRangeType (vr_type r) \<and> clamped_size < sz then
       let chunk = min (sz - clamped_size) (vr_size r)
       in clamp_loop rs (expected + chunk) (clamped_size + chunk) sz
     else clamped_size)"

definition vr_ClampRangeSize :: "vrange list \<Rightarrow> u64 \<Rightarrow> u64 \<Rightarrow> u64" where
  "vr_ClampRangeSize rs virtual_addr sz =
    (if virtual_addr = 0 \<or> sz = 0 \<or> UINT64_MAX - virtual_addr < sz then 0
     else
       let upto = takeWhile (\<lambda>r. vr_start r \<le> virtual_addr) rs;
           after = dropWhile (\<lambda>r. vr_start r \<le> virtual_addr) rs
       in if upto = [] then 0
          else
            let vma = last upto
            in if virtual_addr < vr_start vma \<or> vr_end vma \<le> virtual_addr \<or>
                  \<not> IsCommittedRangeType (vr_type vma) then 0
               else
                 let clamped_size = min sz (vr_end vma - virtual_addr)
                 in clamp_loop after (virtual_addr + clamped_size) clamped_size sz)"

definition PAGE_TABLE_GRANULARITY :: u64 where "PAGE_TABLE_GRANULARITY = 2 * 1024 * 1024"

definition page_entries :: "bool \<Rightarrow> vrange \<Rightarrow> u64" where
  "page_entries gpu r =
    (if \<not> IsCommittedRangeType (vr_type r) \<or> vr_size r = 0 then 0
     else
       let has_cpu_access =
             vr_protection r AND (PROT_CPU_READ OR PROT_CPU_WRITE OR PROT_CPU_EXEC) \<noteq> 0;
           has_gpu_access = vr_protection r AND (PROT_GPU_READ OR PROT_GPU_WRITE) \<noteq> 0
       in if (if gpu then \<not> has_gpu_access else \<not> has_cpu_access) then 0
          else (vr_end r - 1) div PAGE_TABLE_GRANULARITY - vr_start r div PAGE_TABLE_GRANULARITY + 1)"

definition vr_CountPageTableEntries :: "vrange list \<Rightarrow> bool \<Rightarrow> u64" where
  "vr_CountPageTableEntries rs gpu = sum_list (map (page_entries gpu) rs)"

end
