(* ===== verification/VirtualRangesSpec.thy ===== *)
theory VirtualRangesSpec
  imports VirtualRanges
begin

text \<open>
  What the virtual range table means: \<open>view\<close> maps a guest address to the attributes of
  the range that holds it. The invariant \<open>wf_table\<close> says that ranges are non-empty, do
  not wrap around, are sorted and disjoint, and that no two neighbours could be merged. Every
  method of the class keeps the invariant, and its effect on the view is the update that its
  name promises, at every single address.
\<close>

section \<open>Meaning and invariant\<close>

record vattr =
  va_type :: VirtualRangeType
  va_protection :: i32
  va_memory_type :: i32
  va_name :: string
  va_disallow_merge :: bool
  va_offset :: u64

definition covers :: "vrange \<Rightarrow> u64 \<Rightarrow> bool" where
  "covers r a \<longleftrightarrow> vr_start r \<le> a \<and> a < vr_end r"

definition attr_at :: "vrange \<Rightarrow> u64 \<Rightarrow> vattr" where
  "attr_at r a =
     \<lparr>va_type = vr_type r, va_protection = vr_protection r, va_memory_type = vr_memory_type r,
      va_name = vr_name r, va_disallow_merge = vr_disallow_merge r,
      va_offset = (if vr_type r = Direct then vr_offset r + (a - vr_start r) else 0)\<rparr>"

definition view :: "vrange list \<Rightarrow> u64 \<Rightarrow> vattr option" where
  "view rs a = map_option (\<lambda>r. attr_at r a) (find (\<lambda>r. covers r a) rs)"

definition wf_range :: "vrange \<Rightarrow> bool" where
  "wf_range r \<longleftrightarrow> vr_start r \<noteq> 0 \<and> vr_size r \<noteq> 0 \<and> fits (vr_start r) (vr_size r)"

definition before :: "vrange \<Rightarrow> vrange \<Rightarrow> bool" where
  "before l r \<longleftrightarrow> vr_end l \<le> vr_start r"

definition wf_ranges :: "vrange list \<Rightarrow> bool" where
  "wf_ranges rs \<longleftrightarrow> list_all wf_range rs \<and> sorted_wrt before rs"

definition coalesced :: "vrange list \<Rightarrow> bool" where
  "coalesced rs \<longleftrightarrow> successively (\<lambda>l r. \<not> mergeable l r) rs"

definition wf_table :: "vrange list \<Rightarrow> bool" where
  "wf_table rs \<longleftrightarrow> wf_ranges rs \<and> coalesced rs"

definition in_span :: "u64 \<Rightarrow> u64 \<Rightarrow> u64 \<Rightarrow> bool" where
  "in_span start sz a \<longleftrightarrow> start \<le> a \<and> a < End start sz"

section \<open>Ranges\<close>

lemma End_fits: "fits s z \<Longrightarrow> End s z = s + z"
  by (auto simp: End_def not_fits)

lemma End_diff [simp]: "s \<le> e \<Longrightarrow> End s (e - s) = e"
  by (simp add: End_fits fits_diff)

lemma wf_range_less: "wf_range r \<Longrightarrow> vr_start r < vr_end r"
  by (simp add: wf_range_def vr_end_def End_fits fits_less)

lemma wf_range_le: "wf_range r \<Longrightarrow> vr_start r \<le> vr_end r"
  by (rule less_imp_le) (rule wf_range_less)

lemma overlaps_iff: "overlaps s z r \<longleftrightarrow>
    z \<noteq> 0 \<and> vr_size r \<noteq> 0 \<and> s < vr_end r \<and> vr_start r < End s z"
  by (auto simp: overlaps_def VirtualRangesOverlap_def vr_end_def End_def Let_def)

lemma overlaps_covers:
  assumes "wf_range r"
  shows "overlaps s z r \<longleftrightarrow> (\<exists>a. covers r a \<and> in_span s z a)"
proof
  assume "overlaps s z r"
  then have "covers r (max s (vr_start r)) \<and> in_span s z (max s (vr_start r))"
    using assms wf_range_less [of r]
    by (auto simp: overlaps_iff covers_def in_span_def max_def End_def not_fits fits_less less_max)
  then show "\<exists>a. covers r a \<and> in_span s z a" ..
next
  assume "\<exists>a. covers r a \<and> in_span s z a"
  then show "overlaps s z r"
    using assms by (auto simp: overlaps_iff covers_def in_span_def wf_range_def End_def)
qed

lemma not_overlaps_span: "wf_range r \<Longrightarrow> \<not> overlaps s z r \<Longrightarrow> covers r a \<Longrightarrow> \<not> in_span s z a"
  by (auto simp: overlaps_iff covers_def in_span_def wf_range_def End_def)

lemma covers_before: "before l r \<Longrightarrow> covers l a \<Longrightarrow> \<not> covers r a"
  by (auto simp: before_def covers_def)

section \<open>Views of lists\<close>

lemma view_Nil [simp]: "view [] a = None"
  by (simp add: view_def)

lemma view_Cons [simp]: "view (r # rs) a = (if covers r a then Some (attr_at r a) else view rs a)"
  by (simp add: view_def)

lemma view_append: "view (xs @ ys) a = (case view xs a of None \<Rightarrow> view ys a | Some v \<Rightarrow> Some v)"
  by (induction xs) auto

lemma view_None_iff: "view rs a = None \<longleftrightarrow> (\<forall>r \<in> set rs. \<not> covers r a)"
  by (induction rs) auto

lemma view_None: "\<forall>r \<in> set rs. \<not> covers r a \<Longrightarrow> view rs a = None"
  by (simp add: view_None_iff)

lemma wf_ranges_Nil [simp]: "wf_ranges []"
  by (simp add: wf_ranges_def)

lemma wf_ranges_Cons: "wf_ranges (r # rs) \<longleftrightarrow> wf_range r \<and> (\<forall>x \<in> set rs. before r x) \<and> wf_ranges rs"
  by (auto simp: wf_ranges_def)

lemma wf_ranges_append: "wf_ranges (xs @ ys) \<longleftrightarrow>
    wf_ranges xs \<and> wf_ranges ys \<and> (\<forall>x \<in> set xs. \<forall>y \<in> set ys. before x y)"
  by (auto simp: wf_ranges_def sorted_wrt_append)

lemma wf_ranges_wf: "wf_ranges rs \<Longrightarrow> r \<in> set rs \<Longrightarrow> wf_range r"
  by (simp add: wf_ranges_def list_all_iff)

lemma view_member:
  assumes "wf_ranges rs" and "r \<in> set rs" and "covers r a"
  shows "view rs a = Some (attr_at r a)"
  using assms
proof (induction rs)
  case Nil
  then show ?case by simp
next
  case (Cons x rs)
  then show ?case
    by (auto simp: wf_ranges_Cons dest: covers_before)
qed

lemma view_Some: "view rs a = Some v \<Longrightarrow> \<exists>r \<in> set rs. covers r a \<and> v = attr_at r a"
  by (induction rs) (auto split: if_splits)

section \<open>Cutting every range\<close>

text \<open>
  \<open>EditUnlocked\<close> and \<open>RemoveUnlocked\<close> replace each range by pieces inside it. The
  next three facts lift what the pieces do from one range to the table.
\<close>

definition inside :: "vrange \<Rightarrow> vrange \<Rightarrow> bool" where
  "inside r p \<longleftrightarrow> vr_start r \<le> vr_start p \<and> vr_end p \<le> vr_end r"

lemma inside_covers: "inside r p \<Longrightarrow> covers p a \<Longrightarrow> covers r a"
  by (auto simp: inside_def covers_def)

lemma wf_ranges_concat:
  assumes "wf_ranges rs"
    and "\<And>r. r \<in> set rs \<Longrightarrow> wf_ranges (f r) \<and> (\<forall>p \<in> set (f r). inside r p)"
  shows "wf_ranges (concat (map f rs))"
  using assms
proof (induction rs)
  case Nil
  then show ?case by simp
next
  case (Cons r rs)
  have "before p q" if "p \<in> set (f r)" and "x \<in> set rs" and "q \<in> set (f x)" for p x q
  proof -
    from Cons.prems that have "inside r p" "inside x q" "before r x"
      by (auto simp: wf_ranges_Cons)
    then show ?thesis by (auto simp: inside_def before_def)
  qed
  then show ?case using Cons by (auto simp: wf_ranges_append wf_ranges_Cons)
qed

lemma view_concat:
  assumes "wf_ranges rs"
    and "\<And>r p. r \<in> set rs \<Longrightarrow> p \<in> set (f r) \<Longrightarrow> inside r p"
  shows "view (concat (map f rs)) a =
    (case find (\<lambda>r. covers r a) rs of None \<Rightarrow> None | Some r \<Rightarrow> view (f r) a)"
  using assms
proof (induction rs)
  case Nil
  then show ?case by simp
next
  case (Cons r rs)
  note IH = Cons.IH [OF conjunct2 [OF conjunct2 [OF Cons.prems(1) [unfolded wf_ranges_Cons]]]]
  have IH': "view (concat (map f rs)) a =
      (case find (\<lambda>r. covers r a) rs of None \<Rightarrow> None | Some r \<Rightarrow> view (f r) a)"
    by (rule IH) (use Cons.prems(2) in auto)
  show ?case
  proof (cases "covers r a")
    case True
    have "\<not> covers x a" if "x \<in> set rs" for x
      using Cons.prems(1) that True by (auto simp: wf_ranges_Cons dest: covers_before)
    then have "view (concat (map f rs)) a = None"
      using Cons.prems(2) by (auto simp: view_None_iff dest: inside_covers)
    then show ?thesis using True by (simp add: view_append split: option.split)
  next
    case False
    then have "view (f r) a = None"
      using Cons.prems(2) [of r] by (auto simp: view_None_iff dest: inside_covers)
    then show ?thesis using False IH' by (simp add: view_append)
  qed
qed

lemma AddPiece_props:
  assumes "wf_range r" and "vr_start r \<le> s" and "e \<le> vr_end r"
  shows "wf_ranges (AddPiece r s e)"
    and "\<forall>p \<in> set (AddPiece r s e). inside r p \<and> s \<le> vr_start p \<and> vr_end p \<le> e"
    and "view (AddPiece r s e) a = (if s \<le> a \<and> a < e then Some (attr_at r a) else None)"
proof -
  have "s \<noteq> 0" if "s < e"
    using assms wf_range_def word_neq_0_conv by fastforce
  then show "wf_ranges (AddPiece r s e)"
    by (auto simp: AddPiece_def wf_ranges_def wf_range_def fits_diff)
  show "\<forall>p \<in> set (AddPiece r s e). inside r p \<and> s \<le> vr_start p \<and> vr_end p \<le> e"
    using assms by (auto simp: AddPiece_def inside_def vr_end_def)
  show "view (AddPiece r s e) a = (if s \<le> a \<and> a < e then Some (attr_at r a) else None)"
    by (auto simp: AddPiece_def covers_def vr_end_def attr_at_def)
qed


lemma remove_one_props:
  assumes r: "wf_range r"
  shows "wf_ranges (remove_one s z r)"
    and "\<forall>p \<in> set (remove_one s z r). inside r p"
    and "covers r a \<Longrightarrow> view (remove_one s z r) a = (if in_span s z a then None else Some (attr_at r a))"
proof -
  let ?m = "max s (vr_start r)" and ?e = "min (End s z) (vr_end r)"
  have left: "vr_start r \<le> ?m" "vr_end r \<le> vr_end r" by auto
  have ord: "?m \<le> ?e \<and> vr_start r \<le> ?e \<and> ?m \<le> vr_end r" if "overlaps s z r"
    using that wf_range_less [OF r] by (auto simp: overlaps_iff End_def not_fits fits_le)
  note L = AddPiece_props [OF r, of "vr_start r" ?m] and R = AddPiece_props [OF r, of ?e "vr_end r"]
  show "wf_ranges (remove_one s z r)"
  proof (cases "overlaps s z r")
    case True
    have "before x y" if "x \<in> set (AddPiece r (vr_start r) ?m)" "y \<in> set (AddPiece r ?e (vr_end r))" for x y
    proof -
      have "vr_end x \<le> ?m" "?e \<le> vr_start y" using L(2) R(2) ord [OF True] that by auto
      then show ?thesis unfolding before_def using ord [OF True] by (meson order_trans)
    qed
    then show ?thesis
      using L R ord r True by (auto simp: remove_one_def wf_ranges_append)
  next
    case False
    then show ?thesis using r by (simp add: remove_one_def wf_ranges_def)
  qed
  show "\<forall>p \<in> set (remove_one s z r). inside r p"
    using L R ord by (cases "overlaps s z r") (auto simp: remove_one_def inside_def)
  show "view (remove_one s z r) a = (if in_span s z a then None else Some (attr_at r a))"
    if c: "covers r a"
  proof (cases "overlaps s z r")
    case True
    then show ?thesis
      using L(3) R(3) ord c
      by (auto simp: remove_one_def view_append in_span_def covers_def less_max_iff_disj min_le_iff_disj)
  next
    case False
    then show ?thesis
      using c not_overlaps_span [OF r False c] by (simp add: remove_one_def)
  qed
qed

text \<open>
  An edit changes attributes and leaves the interval and its offset alone. \<open>edits\<close> ties
  the edit of a range to the edit \<open>g\<close> of its attributes.
\<close>

definition edits :: "(vrange \<Rightarrow> vrange) \<Rightarrow> (vattr \<Rightarrow> vattr) \<Rightarrow> bool" where
  "edits f g \<longleftrightarrow> (\<forall>r. vr_start (f r) = vr_start r \<and> vr_size (f r) = vr_size r \<and>
                   (\<forall>a. attr_at (f r) a = g (attr_at r a)))"

lemma edits_D:
  assumes "edits f g"
  shows "vr_start (f r) = vr_start r" "vr_size (f r) = vr_size r" "vr_end (f r) = vr_end r"
    "attr_at (f r) a = g (attr_at r a)" "covers (f r) a = covers r a" "wf_range (f r) = wf_range r"
  using assms by (auto simp: edits_def vr_end_def covers_def wf_range_def)

lemma cut_range:
  assumes "wf_range r" and "m < e" and "vr_start r \<le> m" and "e \<le> vr_end r"
  shows "wf_range (r\<lparr>vr_start := m, vr_size := e - m, vr_offset := x\<rparr>) \<and>
    vr_end (r\<lparr>vr_start := m, vr_size := e - m, vr_offset := x\<rparr>) = e \<and>
    inside r (r\<lparr>vr_start := m, vr_size := e - m, vr_offset := x\<rparr>)"
proof -
  have "m \<noteq> 0" using assms(1,3) by (auto simp: wf_range_def)
  then show ?thesis
    using assms(2-4) by (auto simp: wf_range_def fits_diff vr_end_def inside_def)
qed

lemma edit_one_props:
  assumes r: "wf_range r" and f: "edits f g"
  shows "wf_ranges (edit_one s z f r)"
    and "\<forall>p \<in> set (edit_one s z f r). inside r p"
    and "covers r a \<Longrightarrow> view (edit_one s z f r) a =
           Some (if in_span s z a then g (attr_at r a) else attr_at r a)"
proof -
  define m e where "m = max s (vr_start r)" and "e = min (End s z) (vr_end r)"
  define mid where "mid = r\<lparr>vr_start := m, vr_size := e - m,
      vr_offset := (if vr_type r = Direct then vr_offset r + (m - vr_start r) else vr_offset r)\<rparr>"
  have "wf_ranges (edit_one s z f r) \<and> (\<forall>p \<in> set (edit_one s z f r). inside r p) \<and>
    (covers r a \<longrightarrow> view (edit_one s z f r) a =
       Some (if in_span s z a then g (attr_at r a) else attr_at r a))"
  proof (cases "overlaps s z r")
    case True
    have lt: "m < e" and le: "vr_start r \<le> m" "e \<le> vr_end r"
      using True wf_range_less [OF r]
      by (auto simp: overlaps_iff End_def not_fits fits_less less_max m_def e_def)
    have le': "vr_start r \<le> e" "m \<le> vr_end r"
      using lt le by (meson less_imp_le order_trans)+
    note L = AddPiece_props [OF r order_refl le'(2)] and R = AddPiece_props [OF r le'(1) order_refl]
    have mid: "wf_range mid" "vr_end mid = e" "inside r mid" "vr_start mid = m"
      using cut_range [OF r lt le] unfolding mid_def by simp_all
    have cov: "covers mid a \<longleftrightarrow> m \<le> a \<and> a < e" and at: "attr_at mid a = attr_at r a"
      using mid by (simp_all add: covers_def) (simp add: mid_def attr_at_def)
    have spl: "edit_one s z f r = AddPiece r (vr_start r) m @ [f mid] @ AddPiece r e (vr_end r)"
      using True by (simp add: edit_one_def Let_def mid_def m_def e_def)
    have b: "before x (f mid)" if "x \<in> set (AddPiece r (vr_start r) m)" for x
      using L(2) that mid by (simp add: before_def edits_D [OF f])
    moreover have "before (f mid) x" if "x \<in> set (AddPiece r e (vr_end r))" for x
      using R(2) that mid by (simp add: before_def edits_D [OF f])
    moreover have "before x y"
      if "x \<in> set (AddPiece r (vr_start r) m)" "y \<in> set (AddPiece r e (vr_end r))" for x y
    proof -
      have "vr_end x \<le> m" "e \<le> vr_start y" using L(2) R(2) that by auto
      then show ?thesis unfolding before_def using lt by (meson less_imp_le order_trans)
    qed
    ultimately have "wf_ranges (edit_one s z f r)"
      using L(1) R(1) mid(1) unfolding spl
      by (auto simp: wf_ranges_append wf_ranges_Cons edits_D [OF f])
    moreover have "\<forall>p \<in> set (edit_one s z f r). inside r p"
      using L(2) R(2) mid(3) unfolding spl by (auto simp: inside_def edits_D [OF f])
    moreover have "view (edit_one s z f r) a =
        Some (if in_span s z a then g (attr_at r a) else attr_at r a)" if c: "covers r a"
    proof -
      have "in_span s z a \<longleftrightarrow> m \<le> a \<and> a < e"
        using c by (auto simp: in_span_def covers_def m_def e_def)
      then show ?thesis
        using L(3) [of a] R(3) [of a] c cov unfolding spl
        by (auto simp: view_append covers_def at edits_D [OF f])
    qed
    ultimately show ?thesis by blast
  next
    case False
    then show ?thesis
      using r not_overlaps_span [OF r False]
      by (auto simp: edit_one_def wf_ranges_def inside_def)
  qed
  then show "wf_ranges (edit_one s z f r)"
    and "\<forall>p \<in> set (edit_one s z f r). inside r p"
    and "covers r a \<Longrightarrow> view (edit_one s z f r) a =
           Some (if in_span s z a then g (attr_at r a) else attr_at r a)"
    by blast+
qed

section \<open>Merging neighbours\<close>

lemma grow_simps [simp]:
  "vr_start (grow l r) = vr_start l" "attr_at (grow l r) = attr_at l"
  "SameMergeKey (grow l r) x = SameMergeKey l x" "SameMergeKey x (grow l r) = SameMergeKey x l"
  by (auto simp: grow_def attr_at_def SameMergeKey_def)

lemma mergeable_grow:
  assumes "wf_range l" "wf_range r" "mergeable l r"
  shows "vr_end (grow l r) = vr_end r" "wf_range (grow l r)"
    "covers (grow l r) a \<longleftrightarrow> covers l a \<or> covers r a"
    "attr_at l a = attr_at r a"
    "before x (grow l r) = before x l" "before (grow l r) x = before r x"
    "mergeable x (grow l r) = mergeable x l" "mergeable (grow l r) x = mergeable r x"
proof -
  have fl: "fits (vr_start l) (vr_size l)" and fr: "fits (vr_start l + vr_size l) (vr_size r)"
    and s: "vr_start r = vr_start l + vr_size l"
    using assms by (auto simp: wf_range_def mergeable_def vr_end_def End_fits)
  note ch = fits_chain [OF fl fr]
  show e: "vr_end (grow l r) = vr_end r"
    using ch fr s by (simp add: vr_end_def grow_def End_fits)
  show "wf_range (grow l r)"
  proof -
    have "vr_start l < vr_start l + (vr_size l + vr_size r)"
      using ch fits_less [OF fl] fits_le [OF fr] assms(1) unfolding wf_range_def
      by (metis order.strict_trans2)
    then have "vr_size l + vr_size r \<noteq> 0" by auto
    then show ?thesis using ch assms(1) by (simp add: wf_range_def grow_def)
  qed
  have ll: "vr_start l < vr_end l" "vr_start r < vr_end r" "vr_end l = vr_start r"
    using assms by (auto dest: wf_range_less simp: mergeable_def)
  then show "covers (grow l r) a \<longleftrightarrow> covers l a \<or> covers r a"
    by (auto simp: covers_def e)
  show "attr_at l a = attr_at r a"
    using assms(3) by (auto simp: mergeable_def SameMergeKey_def attr_at_def split: if_splits)
  show "before x (grow l r) = before x l" "before (grow l r) x = before r x"
    by (simp_all add: before_def e)
  show "mergeable x (grow l r) = mergeable x l"
    by (simp add: mergeable_def)
  have "SameMergeKey l x = SameMergeKey r x"
    using assms(3) by (auto simp: mergeable_def SameMergeKey_def split: if_splits)
  then show "mergeable (grow l r) x = mergeable r x"
    by (simp add: mergeable_def e)
qed

lemma merge_two:
  assumes "wf_ranges (xs @ l # r # ys)" and "mergeable l r"
  shows "wf_ranges (xs @ grow l r # ys)" and "view (xs @ grow l r # ys) = view (xs @ l # r # ys)"
proof -
  have w: "wf_range l" "wf_range r" using assms by (auto simp: wf_ranges_append wf_ranges_Cons)
  note g = mergeable_grow [OF w assms(2)]
  show "wf_ranges (xs @ grow l r # ys)"
    using assms by (auto simp: wf_ranges_append wf_ranges_Cons g)
  show "view (xs @ grow l r # ys) = view (xs @ l # r # ys)"
    using g by (auto simp: fun_eq_iff view_append split: option.split)
qed

lemma merge_run_props:
  "wf_ranges (b # rs) \<Longrightarrow> wf_ranges (merge_run b rs) \<and> view (merge_run b rs) = view (b # rs) \<and>
     coalesced (merge_run b rs) \<and> (\<forall>x. mergeable x (hd (merge_run b rs)) = mergeable x b) \<and>
     merge_run b rs \<noteq> []"
proof (induction b rs rule: merge_run.induct)
  case (1 b)
  then show ?case by (simp add: coalesced_def)
next
  case (2 b r rs)
  show ?case
  proof (cases "mergeable b r")
    case True
    have w: "wf_range b" "wf_range r" using "2.prems" by (auto simp: wf_ranges_Cons)
    note m = merge_two [of "[]" b r rs, simplified append_Nil, OF "2.prems" True]
    show ?thesis
      using "2.IH"(1) [OF True m(1)] True m(2) mergeable_grow(7) [OF w True] by simp
  next
    case False
    have w: "wf_ranges (r # rs)" using "2.prems" by (simp add: wf_ranges_Cons)
    note IH = "2.IH"(2) [OF False w]
    obtain h t where ht: "merge_run r rs = h # t" using IH by (cases "merge_run r rs") auto
    have "before b x" if "x \<in> set (merge_run r rs)" for x
    proof (rule ccontr)
      assume nb: "\<not> before b x"
      have wx: "wf_range x" using IH that by (auto intro: wf_ranges_wf)
      then have "covers x (vr_start x)" by (simp add: covers_def wf_range_less)
      then have "view (r # rs) (vr_start x) \<noteq> None"
        using IH that by (metis option.distinct(1) view_member)
      then obtain y where "y \<in> set (r # rs)" "covers y (vr_start x)"
        using view_None_iff [of "r # rs" "vr_start x"] by auto
      with "2.prems" nb show False
        by (auto simp: wf_ranges_Cons before_def covers_def)
    qed
    then show ?thesis
      using False IH "2.prems" ht
      by (auto simp: wf_ranges_Cons fun_eq_iff coalesced_def)
  qed
qed

lemma wf_ranges_sorted: "wf_ranges rs \<Longrightarrow> sorted (map vr_start rs)"
  by (induction rs) (auto simp: wf_ranges_Cons before_def dest: wf_range_le intro: order_trans)

lemma MergeUnlocked_props:
  assumes "wf_ranges rs"
  shows "wf_table (MergeUnlocked rs)" and "view (MergeUnlocked rs) = view rs"
proof -
  have "sort_key vr_start rs = rs"
    using assms by (simp add: wf_ranges_sorted sort_key_id_if_sorted)
  moreover have "coalesced rs" if "length rs < 2"
    using that by (cases rs) (auto simp: coalesced_def)
  ultimately have "wf_table (MergeUnlocked rs) \<and> view (MergeUnlocked rs) = view rs"
    using assms merge_run_props by (cases rs) (auto simp: MergeUnlocked_def wf_table_def)
  then show "wf_table (MergeUnlocked rs)" and "view (MergeUnlocked rs) = view rs" by auto
qed

lemma find_covers: "find (\<lambda>r. covers r a) rs = Some r \<Longrightarrow> r \<in> set rs \<and> covers r a"
  by (auto simp: find_Some_iff)

lemma RemoveUnlocked_props:
  assumes w: "wf_ranges rs"
  shows "wf_ranges (snd (RemoveUnlocked rs s z))"
    and "view (snd (RemoveUnlocked rs s z)) = (\<lambda>a. if in_span s z a then None else view rs a)"
    and "fst (RemoveUnlocked rs s z) \<longleftrightarrow> (\<exists>a. in_span s z a \<and> view rs a \<noteq> None)"
proof -
  have e: "\<not> in_span s 0 a" for a by (auto simp: in_span_def End_fits)
  have ins: "p \<in> set (remove_one s z r) \<Longrightarrow> inside r p" if "r \<in> set rs" for r p
    using remove_one_props(2) wf_ranges_wf [OF w that] by blast
  show "wf_ranges (snd (RemoveUnlocked rs s z))"
    using w remove_one_props wf_ranges_wf [OF w]
    by (auto simp: RemoveUnlocked_def intro!: wf_ranges_concat)
  show "view (snd (RemoveUnlocked rs s z)) = (\<lambda>a. if in_span s z a then None else view rs a)"
  proof (cases "z = 0")
    case True
    then show ?thesis by (simp add: RemoveUnlocked_def e)
  next
    case False
    then show ?thesis
      using view_concat [OF w, of "remove_one s z"] ins
      by (auto simp: RemoveUnlocked_def fun_eq_iff view_def [of rs] remove_one_props(3)
          wf_ranges_wf [OF w] dest!: find_covers split: option.split)
  qed
  have "list_ex (overlaps s z) rs \<longleftrightarrow> (\<exists>a. in_span s z a \<and> view rs a \<noteq> None)"
    using overlaps_covers wf_ranges_wf [OF w]
    by (auto simp: list_ex_iff view_None_iff simp del: not_None_eq)
  then show "fst (RemoveUnlocked rs s z) \<longleftrightarrow> (\<exists>a. in_span s z a \<and> view rs a \<noteq> None)"
    by (simp add: RemoveUnlocked_def e)
qed

lemma EditUnlocked_props:
  assumes w: "wf_table rs" and f: "edits f g"
  shows "wf_table (EditUnlocked rs s z f)"
    and "view (EditUnlocked rs s z f) =
           (\<lambda>a. map_option (if in_span s z a then g else id) (view rs a))"
proof -
  have e: "\<not> in_span s 0 a" for a by (auto simp: in_span_def End_fits)
  have wr: "wf_ranges rs" using w by (simp add: wf_table_def)
  have ins: "p \<in> set (edit_one s z f r) \<Longrightarrow> inside r p" if "r \<in> set rs" for r p
    using edit_one_props(2) [OF wf_ranges_wf [OF wr that] f] by blast
  have wc: "wf_ranges (concat (map (edit_one s z f) rs))"
    using edit_one_props [OF wf_ranges_wf [OF wr] f] by (intro wf_ranges_concat [OF wr]) auto
  show "wf_table (EditUnlocked rs s z f)"
    using w MergeUnlocked_props(1) [OF wc] by (simp add: EditUnlocked_def)
  show "view (EditUnlocked rs s z f) =
      (\<lambda>a. map_option (if in_span s z a then g else id) (view rs a))"
  proof (cases "z = 0")
    case True
    then show ?thesis by (simp add: EditUnlocked_def e option.map_id)
  next
    case False
    then show ?thesis
      using view_concat [OF wr, of "edit_one s z f"] ins MergeUnlocked_props(2) [OF wc]
      by (auto simp: EditUnlocked_def fun_eq_iff view_def [of rs] edit_one_props(3) [OF _ f]
          wf_ranges_wf [OF wr] dest!: find_covers split: option.split)
  qed
qed

lemma coalesced_append: "coalesced (xs @ ys) \<longleftrightarrow>
    coalesced xs \<and> coalesced ys \<and> (xs = [] \<or> ys = [] \<or> \<not> mergeable (last xs) (hd ys))"
  by (auto simp: coalesced_def successively_append_iff)

lemma coalesced_Nil [simp]: "coalesced []"
  by (simp add: coalesced_def)

lemma coalesced_Cons: "coalesced (x # xs) \<longleftrightarrow> (xs = [] \<or> \<not> mergeable x (hd xs)) \<and> coalesced xs"
  by (auto simp: coalesced_def successively_Cons)

lemma merge_forward_props:
  "wf_ranges (xs @ c # ys) \<Longrightarrow> coalesced (xs @ [c]) \<Longrightarrow> coalesced ys \<Longrightarrow>
     wf_table (merge_forward (xs @ c # ys) (length xs)) \<and>
     view (merge_forward (xs @ c # ys) (length xs)) = view (xs @ c # ys)"
proof (induction ys arbitrary: c)
  case Nil
  then show ?case by (simp add: merge_forward.simps wf_table_def)
next
  case (Cons y ys)
  show ?case
  proof (cases "mergeable c y")
    case True
    have w: "wf_range c" "wf_range y"
      using Cons.prems(1) by (auto simp: wf_ranges_append wf_ranges_Cons)
    have step: "merge_forward (xs @ c # y # ys) (length xs) = merge_forward (xs @ grow c y # ys) (length xs)"
      using True by (subst merge_forward.simps) (simp add: nth_append erase_at_def list_update_append)
    note m = merge_two [OF Cons.prems(1) True]
    have "coalesced (xs @ [grow c y])" "coalesced ys"
      using Cons.prems(2,3) mergeable_grow(7) [OF w True]
      by (auto simp: coalesced_append coalesced_Cons)
    then show ?thesis using Cons.IH [OF m(1)] m(2) by (simp add: step)
  next
    case False
    then have "coalesced (xs @ c # y # ys)"
      using Cons.prems(2,3) by (auto simp: coalesced_append coalesced_Cons)
    moreover have "merge_forward (xs @ c # y # ys) (length xs) = xs @ c # y # ys"
      using False by (subst merge_forward.simps) (simp add: nth_append)
    ultimately show ?thesis using Cons.prems(1) by (simp add: wf_table_def)
  qed
qed

lemma MergeAroundUnlocked_props:
  assumes w: "wf_ranges (xs @ c # ys)" and "coalesced xs" and "coalesced ys"
  shows "wf_table (MergeAroundUnlocked (xs @ c # ys) (length xs))"
    and "view (MergeAroundUnlocked (xs @ c # ys) (length xs)) = view (xs @ c # ys)"
proof -
  have "wf_table (MergeAroundUnlocked (xs @ c # ys) (length xs)) \<and>
    view (MergeAroundUnlocked (xs @ c # ys) (length xs)) = view (xs @ c # ys)"
  proof (cases "xs \<noteq> [] \<and> mergeable (last xs) c")
    case True
    then obtain xs' l where xs: "xs = xs' @ [l]" and m: "mergeable l c"
      by (metis append_butlast_last_id)
    have wlc: "wf_range l" "wf_range c" using w by (auto simp: xs wf_ranges_append wf_ranges_Cons)
    have w': "wf_ranges (xs' @ l # c # ys)" using w by (simp add: xs)
    note mt = merge_two [OF w' m]
    have "merge_previous (xs @ c # ys) (length xs) = (xs' @ grow l c # ys, length xs')"
      using m by (simp add: merge_previous_def xs nth_append erase_at_def list_update_append)
    moreover have "coalesced (xs' @ [grow l c])"
      using assms(2) mergeable_grow(7) [OF wlc m] by (auto simp: xs coalesced_append coalesced_Cons)
    ultimately show ?thesis
      using merge_forward_props [OF mt(1)] mt(2) assms(3) by (simp add: MergeAroundUnlocked_def xs)
  next
    case False
    then have "merge_previous (xs @ c # ys) (length xs) = (xs @ c # ys, length xs)"
      by (auto simp: merge_previous_def nth_append last_conv_nth)
    moreover have "coalesced (xs @ [c])"
      using assms(2) False by (auto simp: coalesced_append coalesced_Cons)
    ultimately show ?thesis
      using merge_forward_props [OF w] assms(3) by (simp add: MergeAroundUnlocked_def)
  qed
  then show "wf_table (MergeAroundUnlocked (xs @ c # ys) (length xs))"
    and "view (MergeAroundUnlocked (xs @ c # ys) (length xs)) = view (xs @ c # ys)" by auto
qed


section \<open>Looking up by address\<close>

lemma LowerBound_split:
  assumes "wf_ranges rs"
  obtains xs ys where "rs = xs @ ys" "LowerBound rs s = length xs"
    "\<forall>x \<in> set xs. vr_start x < s" "\<forall>y \<in> set ys. s \<le> vr_start y"
proof -
  let ?xs = "takeWhile (\<lambda>r. vr_start r < s) rs" and ?ys = "dropWhile (\<lambda>r. vr_start r < s) rs"
  have "s \<le> vr_start y" if "y \<in> set ?ys" for y
  proof -
    have w: "wf_ranges ?ys" using assms by (metis wf_ranges_append takeWhile_dropWhile_id)
    have "?ys \<noteq> []" using that by (metis empty_iff list.set(1))
    then obtain h t where ht: "?ys = h # t" unfolding neq_Nil_conv by blast
    then have "s \<le> vr_start h" by (metis dropWhile_eq_Cons_conv not_less)
    moreover have "y = h \<or> before h y" "wf_range h" using that w by (auto simp: ht wf_ranges_Cons)
    ultimately show ?thesis by (auto simp: before_def dest: wf_range_le)
  qed
  then have y: "\<forall>y \<in> set ?ys. s \<le> vr_start y" by blast
  have x: "\<forall>x \<in> set ?xs. vr_start x < s" by (auto dest: set_takeWhileD)
  show thesis by (rule that [OF _ _ x y]) (simp_all add: LowerBound_def)
qed

lemma overlaps_neighbour:
  assumes w: "wf_ranges (xs @ ys)" and x: "\<forall>x \<in> set xs. vr_start x < s"
    and y: "\<forall>y \<in> set ys. s \<le> vr_start y"
  shows "(\<exists>r \<in> set (xs @ ys). overlaps s z r) \<longleftrightarrow>
    (ys \<noteq> [] \<and> overlaps s z (hd ys)) \<or> (xs \<noteq> [] \<and> overlaps s z (last xs))"
proof
  assume "\<exists>r \<in> set (xs @ ys). overlaps s z r"
  then obtain r where r: "r \<in> set xs \<or> r \<in> set ys" and o: "overlaps s z r" by auto
  show "(ys \<noteq> [] \<and> overlaps s z (hd ys)) \<or> (xs \<noteq> [] \<and> overlaps s z (last xs))"
  proof (cases "r \<in> set xs")
    case True
    then obtain xs' l where xs: "xs = xs' @ [l]" by (metis append_butlast_last_id empty_iff list.set(1))
    have "r = l"
    proof (rule ccontr)
      assume "r \<noteq> l"
      with True w have "before r l" by (auto simp: xs wf_ranges_append)
      with x o show False by (auto simp: xs before_def overlaps_iff)
    qed
    with o show ?thesis by (simp add: xs)
  next
    case False
    with r obtain h t where ys: "ys = h # t" "r = h \<or> r \<in> set t" by (cases ys) auto
    have "overlaps s z h"
    proof (cases "r = h")
      case False
      with ys w have "before h r" and h: "wf_range h" by (auto simp: wf_ranges_append wf_ranges_Cons)
      moreover have "s \<le> vr_start h" "vr_start h < vr_end h"
        using y ys(1) wf_range_less [OF h] by auto
      ultimately show ?thesis
        using o h by (auto simp: overlaps_iff before_def wf_range_def)
    qed (use o in simp)
    then show ?thesis by (simp add: ys)
  qed
next
  assume "(ys \<noteq> [] \<and> overlaps s z (hd ys)) \<or> (xs \<noteq> [] \<and> overlaps s z (last xs))"
  then show "\<exists>r \<in> set (xs @ ys). overlaps s z r" by auto
qed

lemma neighbour_nth:
  "(length xs < length (xs @ ys) \<and> P ((xs @ ys) ! length xs)) \<longleftrightarrow> (ys \<noteq> [] \<and> P (hd ys))"
  "(length xs \<noteq> 0 \<and> P ((xs @ ys) ! (length xs - 1))) \<longleftrightarrow> (xs \<noteq> [] \<and> P (last xs))"
  by (auto simp: nth_append hd_conv_nth last_conv_nth)

text \<open>Some address of the span belongs to a range of the table.\<close>

definition taken :: "vrange list \<Rightarrow> u64 \<Rightarrow> u64 \<Rightarrow> bool" where
  "taken rs s z \<longleftrightarrow> (\<exists>a. in_span s z a \<and> view rs a \<noteq> None)"

lemma taken_overlaps: "wf_ranges rs \<Longrightarrow> taken rs s z \<longleftrightarrow> (\<exists>r \<in> set rs. overlaps s z r)"
  using overlaps_covers wf_ranges_wf [of rs]
  by (auto simp: taken_def view_None_iff simp del: not_None_eq)

lemma taken_LowerBound:
  assumes w: "wf_ranges rs"
  shows "taken rs s z \<longleftrightarrow>
    (LowerBound rs s < length rs \<and> overlaps s z (rs ! LowerBound rs s)) \<or>
    (LowerBound rs s \<noteq> 0 \<and> overlaps s z (rs ! (LowerBound rs s - 1)))"
proof -
  obtain xs ys where sp: "rs = xs @ ys" "LowerBound rs s = length xs"
    "\<forall>x \<in> set xs. vr_start x < s" "\<forall>y \<in> set ys. s \<le> vr_start y"
    using LowerBound_split [OF w] by blast
  show ?thesis
    unfolding taken_overlaps [OF w] sp(2) unfolding sp(1) overlaps_neighbour [OF w [unfolded sp(1)] sp(3,4)]
    by (simp only: neighbour_nth)
qed

lemma LowerBound_le: "LowerBound rs s \<le> length rs"
  by (simp add: LowerBound_def length_takeWhile_le)

lemma FindOverlap_props:
  assumes w: "wf_ranges rs"
  shows "FindOverlap rs s z = None \<longleftrightarrow> \<not> taken rs s z"
    and "FindOverlap rs s z = Some r \<Longrightarrow> r \<in> set rs \<and> overlaps s z r"
proof -
  show "FindOverlap rs s z = None \<longleftrightarrow> \<not> taken rs s z"
    by (simp add: FindOverlap_def Let_def taken_LowerBound [OF w] del: One_nat_def)
  have "LowerBound rs s \<noteq> 0 \<Longrightarrow> LowerBound rs s - 1 < length rs"
    using LowerBound_le [of rs s] by simp
  then show "FindOverlap rs s z = Some r \<Longrightarrow> r \<in> set rs \<and> overlaps s z r"
    by (auto simp: FindOverlap_def Let_def simp del: One_nat_def split: if_splits)
qed

section \<open>The methods\<close>

lemma vr_Add_props:
  assumes w: "wf_table rs" and f: "fits s z"
    and res: "vr_Add rs s z off prot mt t nm dm = (ok, rs')"
  shows "ok \<longleftrightarrow> s \<noteq> 0 \<and> z \<noteq> 0 \<and> \<not> taken rs s z"
    and "wf_table rs'"
    and "view rs' a = (if ok \<and> in_span s z a
           then Some \<lparr>va_type = t, va_protection = prot, va_memory_type = mt,
                       va_name = CopyVirtualRangeName nm, va_disallow_merge = dm,
                       va_offset = (if t = Direct then off + (a - s) else 0)\<rparr>
           else view rs a)"
proof -
  have wr: "wf_ranges rs" using w by (simp add: wf_table_def)
  obtain xs ys where sp: "rs = xs @ ys" "LowerBound rs s = length xs"
    "\<forall>x \<in> set xs. vr_start x < s" "\<forall>y \<in> set ys. s \<le> vr_start y"
    using LowerBound_split [OF wr] by blast
  let ?r = "\<lparr>vr_start = s, vr_size = z, vr_offset = off, vr_protection = prot, vr_memory_type = mt,
             vr_type = t, vr_disallow_merge = dm, vr_name = CopyVirtualRangeName nm\<rparr>"
  have add: "vr_Add rs s z off prot mt t nm dm =
      (if s = 0 \<or> z = 0 \<or> taken rs s z then (False, rs)
       else (True, MergeAroundUnlocked (xs @ ?r # ys) (length xs)))"
    unfolding vr_Add_def Let_def taken_LowerBound [OF wr] by (simp add: sp(1) sp(2) [unfolded sp(1)] del: One_nat_def)
  show ok: "ok \<longleftrightarrow> s \<noteq> 0 \<and> z \<noteq> 0 \<and> \<not> taken rs s z"
    using res unfolding add by (auto split: if_splits)
  have "wf_table rs' \<and> view rs' a = (if ok \<and> in_span s z a then Some (attr_at ?r a) else view rs a)"
  proof (cases ok)
    case True
    with ok have g: "s \<noteq> 0" "z \<noteq> 0" "\<not> taken rs s z" by auto
    have nov: "\<not> overlaps s z x" if "x \<in> set rs" for x
      using g(3) that by (simp add: taken_overlaps [OF wr])
    have r: "wf_range ?r" "vr_end ?r = s + z" using f g by (simp_all add: wf_range_def vr_end_def End_fits)
    have "before x ?r" if "x \<in> set xs" for x
    proof -
      have "wf_range x" using that wf_ranges_wf [OF wr] sp(1) by auto
      then show ?thesis
        using nov [of x] that sp f g fits_le [OF f] by (auto simp: overlaps_iff before_def End_fits wf_range_def)
    qed
    moreover have "before ?r y" if "y \<in> set ys" for y
    proof -
      have "wf_range y" using that wf_ranges_wf [OF wr] sp(1) by auto
      then show ?thesis
        using nov [of y] that sp f g r(2) wf_range_less [of y]
        by (auto simp: overlaps_iff before_def End_fits wf_range_def)
    qed
    ultimately have wn: "wf_ranges (xs @ ?r # ys)"
      using wr r(1) by (auto simp: sp(1) wf_ranges_append wf_ranges_Cons before_def intro: order_trans)
    have c: "coalesced xs" "coalesced ys" using w by (auto simp: sp(1) wf_table_def coalesced_append)
    have rs': "rs' = MergeAroundUnlocked (xs @ ?r # ys) (length xs)"
      using res ok True unfolding add by (auto split: if_splits)
    have cov: "covers ?r a = in_span s z a" by (simp add: covers_def in_span_def r(2) End_fits [OF f])
    have "view rs a = None" if "in_span s z a" using g(3) that by (auto simp: taken_def)
    then show ?thesis
      using MergeAroundUnlocked_props [OF wn c] True cov
      by (auto simp: rs' sp(1) view_append split: option.split)
  next
    case False
    then show ?thesis using res w unfolding add by (auto split: if_splits)
  qed
  then show "wf_table rs'" and "view rs' a = (if ok \<and> in_span s z a
           then Some \<lparr>va_type = t, va_protection = prot, va_memory_type = mt,
                       va_name = CopyVirtualRangeName nm, va_disallow_merge = dm,
                       va_offset = (if t = Direct then off + (a - s) else 0)\<rparr>
           else view rs a)"
    by (auto simp: attr_at_def)
qed


text \<open>Erasing one range: the exact-match path of \<open>Remove\<close> and \<open>ReleaseReserved\<close>.\<close>

lemma find_eq_view: "wf_ranges (xs @ r # ys) \<Longrightarrow>
    view (xs @ ys) a = (if covers r a then None else view (xs @ r # ys) a)"
proof (cases "covers r a")
  assume w: "wf_ranges (xs @ r # ys)" and c: "covers r a"
  then have "\<not> covers x a" if "x \<in> set xs \<or> x \<in> set ys" for x
    using that by (auto simp: wf_ranges_append wf_ranges_Cons dest: covers_before)
  then show ?thesis using c by (auto simp: view_None_iff)
qed (simp add: view_append split: option.split)

lemma wf_ranges_erase: "wf_ranges (xs @ r # ys) \<Longrightarrow> wf_ranges (xs @ ys)"
  by (auto simp: wf_ranges_append wf_ranges_Cons)

lemma coalesced_erase:
  assumes "wf_ranges (xs @ r # ys)" and "coalesced (xs @ r # ys)"
  shows "coalesced (xs @ ys)"
proof -
  have "\<not> mergeable (last xs) (hd ys)" if "xs \<noteq> []" "ys \<noteq> []"
  proof -
    have "before (last xs) r" "before r (hd ys)" "wf_range r"
      using assms(1) that by (auto simp: wf_ranges_append wf_ranges_Cons)
    then have "vr_end (last xs) \<noteq> vr_start (hd ys)"
      by (auto simp: before_def dest: wf_range_less)
    then show ?thesis by (simp add: mergeable_def)
  qed
  then show ?thesis using assms(2) by (auto simp: coalesced_append coalesced_Cons)
qed

lemma wf_table_erase: "wf_table (xs @ r # ys) \<Longrightarrow> wf_table (xs @ ys)"
  using wf_ranges_erase coalesced_erase by (auto simp: wf_table_def)

lemma span_of_range: "vr_start r = s \<Longrightarrow> vr_size r = z \<Longrightarrow> covers r a \<longleftrightarrow> in_span s z a"
  by (auto simp: covers_def in_span_def vr_end_def)

lemma vr_Remove_props:
  assumes w: "wf_table rs" and res: "vr_Remove rs s z = (removed, rs')"
  shows "removed \<longleftrightarrow> taken rs s z"
    and "wf_table rs'"
    and "view rs' = (\<lambda>a. if in_span s z a then None else view rs a)"
proof -
  have wr: "wf_ranges rs" using w by (simp add: wf_table_def)
  have "(removed \<longleftrightarrow> taken rs s z) \<and> wf_table rs' \<and> view rs' = (\<lambda>a. if in_span s z a then None else view rs a)"
  proof (cases "LowerBound rs s < length rs \<and> vr_start (rs ! LowerBound rs s) = s \<and> vr_size (rs ! LowerBound rs s) = z")
    case True
    let ?p = "LowerBound rs s"
    obtain xs ys where rs: "rs = xs @ rs ! ?p # ys" "length xs = ?p"
      using True id_take_nth_drop by (metis length_take min.absorb4)
    define r where "r = rs ! ?p"
    have e: "rs = xs @ r # ys" using rs(1) by (simp add: r_def)
    have c: "covers r a \<longleftrightarrow> in_span s z a" for a using True by (simp add: r_def span_of_range)
    have "erase_at ?p rs = xs @ ys" unfolding rs(2) [symmetric] by (simp add: erase_at_def e)
    then have res': "removed" "rs' = xs @ ys" using res True by (simp_all add: vr_Remove_def Let_def)
    have "wf_range r" using wr e by (auto intro: wf_ranges_wf)
    then have "covers r s" using True by (simp add: r_def covers_def wf_range_less [of "rs ! ?p"] flip: r_def)
        (metis wf_range_less)
    then have "in_span s z s" "view rs s \<noteq> None" using c e by (auto simp: view_None_iff)
    then have "taken rs s z" by (auto simp: taken_def)
    moreover have "view (xs @ ys) = (\<lambda>a. if in_span s z a then None else view rs a)"
      using find_eq_view [of xs r ys] wr by (auto simp: fun_eq_iff c e)
    moreover have "wf_table (xs @ ys)" using w by (auto simp: e dest: wf_table_erase)
    ultimately show ?thesis by (simp add: res')
  next
    case False
    then have "removed = fst (RemoveUnlocked rs s z)" "rs' = MergeUnlocked (snd (RemoveUnlocked rs s z))"
      using res by (auto simp: vr_Remove_def Let_def split: prod.splits)
    then show ?thesis
      using RemoveUnlocked_props [OF wr, of s z] MergeUnlocked_props by (simp add: taken_def)
  qed
  then show "removed \<longleftrightarrow> taken rs s z" and "wf_table rs'"
    and "view rs' = (\<lambda>a. if in_span s z a then None else view rs a)" by auto
qed

lemma vr_Protect_props:
  assumes "wf_table rs"
  shows "wf_table (vr_Protect rs s z prot)"
    and "view (vr_Protect rs s z prot) =
      (\<lambda>a. map_option (if in_span s z a then va_protection_update (\<lambda>_. prot) else id) (view rs a))"
  unfolding vr_Protect_def
proof -
  have e: "edits (\<lambda>r. r\<lparr>vr_protection := prot\<rparr>) (va_protection_update (\<lambda>_. prot))"
    by (simp add: edits_def attr_at_def fun_eq_iff)
  show "wf_table (EditUnlocked rs s z (\<lambda>r. r\<lparr>vr_protection := prot\<rparr>))"
    and "view (EditUnlocked rs s z (\<lambda>r. r\<lparr>vr_protection := prot\<rparr>)) =
      (\<lambda>a. map_option (if in_span s z a then va_protection_update (\<lambda>_. prot) else id) (view rs a))"
    by (rule EditUnlocked_props [OF assms e])+
qed

lemma vr_SetMemoryType_props:
  assumes "wf_table rs"
  shows "wf_table (vr_SetMemoryType rs s z mt)"
    and "view (vr_SetMemoryType rs s z mt) =
      (\<lambda>a. map_option (if in_span s z a then va_memory_type_update (\<lambda>_. mt) else id) (view rs a))"
  unfolding vr_SetMemoryType_def
proof -
  have e: "edits (\<lambda>r. r\<lparr>vr_memory_type := mt\<rparr>) (va_memory_type_update (\<lambda>_. mt))"
    by (simp add: edits_def attr_at_def fun_eq_iff)
  show "wf_table (EditUnlocked rs s z (\<lambda>r. r\<lparr>vr_memory_type := mt\<rparr>))"
    and "view (EditUnlocked rs s z (\<lambda>r. r\<lparr>vr_memory_type := mt\<rparr>)) =
      (\<lambda>a. map_option (if in_span s z a then va_memory_type_update (\<lambda>_. mt) else id) (view rs a))"
    by (rule EditUnlocked_props [OF assms e])+
qed


lemma edits_one:
  assumes "wf_ranges (xs @ r # ys)" and f: "edits f g"
  shows "wf_ranges (xs @ f r # ys)"
    and "view (xs @ f r # ys) a = map_option (if covers r a then g else id) (view (xs @ r # ys) a)"
proof -
  show "wf_ranges (xs @ f r # ys)"
    using assms(1) by (auto simp: wf_ranges_append wf_ranges_Cons before_def edits_D [OF f])
  show "view (xs @ f r # ys) a = map_option (if covers r a then g else id) (view (xs @ r # ys) a)"
  proof (cases "covers r a")
    case True
    with assms(1) have "view xs a = None"
      by (auto simp: view_None_iff wf_ranges_append dest: covers_before)
    with True show ?thesis by (simp add: view_append edits_D [OF f])
  qed (simp add: view_append edits_D [OF f] option.map_id split: option.split)
qed

lemma vr_Rename_props:
  assumes w: "wf_table rs"
  shows "wf_table (vr_Rename rs s z nm)"
    and "view (vr_Rename rs s z nm) = (\<lambda>a. map_option
      (if in_span s z a then va_name_update (\<lambda>_. CopyVirtualRangeName nm) else id) (view rs a))"
proof -
  let ?f = "\<lambda>r. r\<lparr>vr_name := CopyVirtualRangeName nm\<rparr>"
  let ?g = "va_name_update (\<lambda>_. CopyVirtualRangeName nm)"
  let ?p = "LowerBound rs s"
  have e: "edits ?f ?g" by (simp add: edits_def attr_at_def fun_eq_iff)
  have "wf_table (vr_Rename rs s z nm) \<and> view (vr_Rename rs s z nm) =
      (\<lambda>a. map_option (if in_span s z a then ?g else id) (view rs a))"
  proof (cases "?p < length rs \<and> vr_start (rs ! ?p) = s \<and> vr_size (rs ! ?p) = z")
    case True
    define xs r ys where "xs = take ?p rs" and "r = rs ! ?p" and "ys = drop (Suc ?p) rs"
    have rs: "rs = xs @ r # ys" "length xs = ?p"
      using True by (auto simp: xs_def r_def ys_def id_take_nth_drop [symmetric])
    have c: "covers r a \<longleftrightarrow> in_span s z a" for a using True by (simp add: r_def span_of_range)
    have "rs[?p := ?f r] = xs @ ?f r # ys"
      using True by (simp add: upd_conv_take_nth_drop xs_def ys_def)
    then have rn: "vr_Rename rs s z nm = MergeAroundUnlocked (xs @ ?f r # ys) (length xs)"
      using True by (simp add: vr_Rename_def Let_def rs(2) r_def)
    have co: "coalesced xs" "coalesced ys"
      using w by (auto simp: rs(1) wf_table_def coalesced_append coalesced_Cons)
    have wr: "wf_ranges (xs @ r # ys)" using w by (simp add: rs(1) wf_table_def)
    note ed = edits_one [OF wr e]
    show ?thesis
      using MergeAroundUnlocked_props [OF ed(1) co] ed(2) unfolding rn c rs(1) [symmetric] by auto
  next
    case False
    then have "vr_Rename rs s z nm = EditUnlocked rs s z ?f" by (simp only: vr_Rename_def Let_def if_False)
    then show ?thesis using EditUnlocked_props [OF w e, of s z] by simp
  qed
  then show "wf_table (vr_Rename rs s z nm)"
    and "view (vr_Rename rs s z nm) = (\<lambda>a. map_option
      (if in_span s z a then va_name_update (\<lambda>_. CopyVirtualRangeName nm) else id) (view rs a))" by auto
qed

lemma vr_ReleaseReserved_split:
  "(\<exists>r \<in> set rs. vr_start r = s \<and> vr_size r = z \<and> IsReservedRangeType (vr_type r)) \<Longrightarrow>
   \<exists>xs r ys. rs = xs @ r # ys \<and> vr_ReleaseReserved rs s z = xs @ ys \<and> vr_start r = s \<and> vr_size r = z"
proof (induction rs)
  case (Cons x rs)
  show ?case
  proof (cases "vr_start x = s \<and> vr_size x = z \<and> IsReservedRangeType (vr_type x)")
    case True
    then show ?thesis by (intro exI [of _ "[]"]) auto
  next
    case False
    then obtain xs r ys where "rs = xs @ r # ys" "vr_ReleaseReserved rs s z = xs @ ys"
      "vr_start r = s" "vr_size r = z" using Cons by auto
    with False show ?thesis by (intro exI [of _ "x # xs"]) auto
  qed
qed simp

lemma vr_ReleaseReserved_none:
  "\<not> (\<exists>r \<in> set rs. vr_start r = s \<and> vr_size r = z \<and> IsReservedRangeType (vr_type r)) \<Longrightarrow>
   vr_ReleaseReserved rs s z = rs"
  by (induction rs) auto

lemma vr_ReleaseReserved_props:
  assumes w: "wf_table rs"
  shows "wf_table (vr_ReleaseReserved rs s z)"
    and "view (vr_ReleaseReserved rs s z) = (\<lambda>a.
      if in_span s z a \<and> (\<exists>r \<in> set rs. vr_start r = s \<and> vr_size r = z \<and> IsReservedRangeType (vr_type r))
      then None else view rs a)"
proof -
  let ?E = "\<exists>r \<in> set rs. vr_start r = s \<and> vr_size r = z \<and> IsReservedRangeType (vr_type r)"
  have "wf_table (vr_ReleaseReserved rs s z) \<and>
    view (vr_ReleaseReserved rs s z) = (\<lambda>a. if in_span s z a \<and> ?E then None else view rs a)"
  proof (cases ?E)
    case True
    then obtain xs r ys where e: "rs = xs @ r # ys" "vr_ReleaseReserved rs s z = xs @ ys"
      and r: "vr_start r = s" "vr_size r = z" using vr_ReleaseReserved_split by blast
    have "wf_ranges (xs @ r # ys)" using w by (simp add: e(1) wf_table_def)
    then have "view (xs @ ys) = (\<lambda>a. if in_span s z a then None else view rs a)"
      using find_eq_view [of xs r ys] by (auto simp: fun_eq_iff e(1) span_of_range [OF r])
    then show ?thesis using True w by (auto simp: e(2)) (auto simp: e(1) dest: wf_table_erase)
  next
    case False
    then show ?thesis using w unfolding vr_ReleaseReserved_none [OF False] by (simp only: simp_thms if_False)
  qed
  then show "wf_table (vr_ReleaseReserved rs s z)" and "view (vr_ReleaseReserved rs s z) = (\<lambda>a.
      if in_span s z a \<and> ?E then None else view rs a)" by auto
qed


lemma vr_ConsumeReserved_props:
  assumes w: "wf_table rs" and res: "vr_ConsumeReserved rs s z t = (ok, rs')"
  shows "ok \<longleftrightarrow> (\<exists>r \<in> set rs. vr_type r = t \<and> vr_start r \<le> s \<and> End s z \<le> vr_end r)"
    and "wf_table rs'" and "view rs' = (\<lambda>a. if ok \<and> in_span s z a then None else view rs a)"
proof -
  have wr: "wf_ranges rs" using w by (simp add: wf_table_def)
  show "ok \<longleftrightarrow> (\<exists>r \<in> set rs. vr_type r = t \<and> vr_start r \<le> s \<and> End s z \<le> vr_end r)"
    using res by (auto simp: vr_ConsumeReserved_def list_ex_iff split: if_splits)
  show "wf_table rs'" and "view rs' = (\<lambda>a. if ok \<and> in_span s z a then None else view rs a)"
    using res w MergeUnlocked_props [OF RemoveUnlocked_props(1) [OF wr]] RemoveUnlocked_props(2) [OF wr]
    by (auto simp: vr_ConsumeReserved_def split: if_splits)
qed

lemma vr_candidate_None: "vr_candidate rs t c = None \<longleftrightarrow> \<not> (\<exists>r \<in> set rs. vr_type r = t \<and> covers r c)"
  by (auto simp: vr_candidate_def find_None_iff covers_def)

lemma vr_candidate_Some: "vr_candidate rs t c = Some r \<Longrightarrow> r \<in> set rs \<and> vr_type r = t \<and> covers r c"
  by (auto simp: vr_candidate_def find_Some_iff covers_def)

lemma reserved_walk_iff: "reserved_walk rs t c e \<longleftrightarrow>
    (\<forall>a. c \<le> a \<and> a < e \<longrightarrow> (\<exists>r \<in> set rs. vr_type r = t \<and> covers r a))"
proof (induction rs t c e rule: reserved_walk.induct)
  case (1 rs t c e)
  show ?case
  proof (cases "c < e")
    case False
    then show ?thesis by (subst reserved_walk.simps) auto
  next
    case True
    show ?thesis
    proof (cases "vr_candidate rs t c")
      case None
      then have "\<not> reserved_walk rs t c e" using True by (subst reserved_walk.simps) simp
      then show ?thesis using None True by (auto simp: vr_candidate_None)
    next
      case (Some r)
      note r = vr_candidate_Some [OF Some]
      have "\<exists>r \<in> set rs. vr_type r = t \<and> covers r a" if "c \<le> a" "a < min e (vr_end r)" for a
        using r that by (auto simp: covers_def intro!: bexI [of _ r])
      moreover have "c \<le> min e (vr_end r)" using True r by (auto simp: covers_def)
      ultimately have al: "(\<forall>a. c \<le> a \<and> a < e \<longrightarrow> (\<exists>r \<in> set rs. vr_type r = t \<and> covers r a)) \<longleftrightarrow>
          (\<forall>a. min e (vr_end r) \<le> a \<and> a < e \<longrightarrow> (\<exists>r \<in> set rs. vr_type r = t \<and> covers r a))"
        by (intro all_from) auto
      have "reserved_walk rs t c e = reserved_walk rs t (min e (vr_end r)) e"
        using True Some by (subst reserved_walk.simps) simp
      then show ?thesis using 1 [OF True Some] al by blast
    qed
  qed
qed

lemma view_typed: "wf_ranges rs \<Longrightarrow> (\<exists>r \<in> set rs. vr_type r = t \<and> covers r a) \<longleftrightarrow>
    map_option va_type (view rs a) = Some t"
  by (auto simp: view_member attr_at_def dest!: view_Some)

lemma vr_ConsumeReservedSpan_props:
  assumes w: "wf_table rs" and res: "vr_ConsumeReservedSpan rs s z t = (ok, first, rs')"
  shows "ok \<longleftrightarrow> z \<noteq> 0 \<and> (\<forall>a. in_span s z a \<longrightarrow> map_option va_type (view rs a) = Some t)"
    and "wf_table rs'" and "view rs' = (\<lambda>a. if ok \<and> in_span s z a then None else view rs a)"
    and "first = Some r \<Longrightarrow> r \<in> set rs \<and> vr_type r = t \<and> covers r s"
proof -
  have wr: "wf_ranges rs" using w by (simp add: wf_table_def)
  show "ok \<longleftrightarrow> z \<noteq> 0 \<and> (\<forall>a. in_span s z a \<longrightarrow> map_option va_type (view rs a) = Some t)"
    using res unfolding view_typed [OF wr, symmetric] in_span_def reserved_walk_iff [symmetric]
    by (auto simp: vr_ConsumeReservedSpan_def Let_def split: if_splits)
  show "wf_table rs'" and "view rs' = (\<lambda>a. if ok \<and> in_span s z a then None else view rs a)"
    using res w MergeUnlocked_props [OF RemoveUnlocked_props(1) [OF wr]] RemoveUnlocked_props(2) [OF wr]
    by (auto simp: vr_ConsumeReservedSpan_def Let_def split: if_splits)
  show "first = Some r \<Longrightarrow> r \<in> set rs \<and> vr_type r = t \<and> covers r s"
    using res by (auto simp: vr_ConsumeReservedSpan_def Let_def split: if_splits dest: vr_candidate_Some)
qed


lemma wf_ranges_takeWhile_last:
  assumes w: "wf_ranges rs" and "pre = takeWhile (\<lambda>r. vr_start r \<le> a) rs"
    and "r \<in> set rs" "covers r a"
  shows "pre \<noteq> [] \<and> last pre = r"
proof -
  define ys where "ys = dropWhile (\<lambda>r. vr_start r \<le> a) rs"
  have rs: "rs = pre @ ys" by (simp add: assms(2) ys_def)
  have "r \<in> set pre"
  proof (rule ccontr)
    assume "r \<notin> set pre"
    then have r: "r \<in> set ys" using assms(3) rs by auto
    then have "ys \<noteq> []" by auto
    then obtain h t where ht: "ys = h # t" unfolding neq_Nil_conv by blast
    then have "a < vr_start h" using ys_def by (metis dropWhile_eq_Cons_conv not_less)
    moreover have "r = h \<or> before h r" "wf_range h" using r w by (auto simp: rs ht wf_ranges_append wf_ranges_Cons)
    ultimately show False
      using assms(4) wf_range_less [of h] by (auto simp: covers_def before_def)
  qed
  then have "pre \<noteq> []" by auto
  then obtain xs l where u: "pre = xs @ [l]" by (metis append_butlast_last_id)
  have "l \<in> set pre" by (simp add: u)
  then have "vr_start l \<le> a" unfolding assms(2) by (auto dest: set_takeWhileD)
  moreover have "r = l \<or> before r l"
    using \<open>r \<in> set pre\<close> w by (auto simp: rs u wf_ranges_append)
  ultimately have "r = l" using assms(4) by (auto simp: covers_def before_def)
  with u show ?thesis by simp
qed

lemma vr_Query_props:
  assumes w: "wf_ranges rs"
  shows "vr_Query rs a fl = Some r \<longleftrightarrow>
    r \<in> set rs \<and> (covers r a \<or>
      (fl = 1 \<and> view rs a = None \<and> a < vr_start r \<and> (\<forall>x \<in> set rs. a < vr_start x \<longrightarrow> vr_start r \<le> vr_start x)))"
proof -
  define xs ys where "xs = takeWhile (\<lambda>r. vr_start r \<le> a) rs" and "ys = dropWhile (\<lambda>r. vr_start r \<le> a) rs"
  have rs: "rs = xs @ ys" by (simp add: xs_def ys_def)
  have q: "vr_Query rs a fl = (if xs \<noteq> [] \<and> a < vr_end (last xs) then Some (last xs)
      else if fl \<noteq> 1 \<or> ys = [] then None else Some (hd ys))"
    by (simp add: vr_Query_def xs_def ys_def)
  have x: "vr_start x \<le> a" if "x \<in> set xs" for x using that by (auto simp: xs_def dest: set_takeWhileD)
  have lc: "xs \<noteq> [] \<and> a < vr_end (last xs) \<longleftrightarrow> xs \<noteq> [] \<and> covers (last xs) a"
    using x by (auto simp: covers_def)
  have uniq: "xs \<noteq> [] \<and> last xs = x" if "x \<in> set rs" "covers x a" for x
    using wf_ranges_takeWhile_last [OF w xs_def that] by simp
  show ?thesis
  proof (cases "xs \<noteq> [] \<and> covers (last xs) a")
    case True
    then have "view rs a \<noteq> None" by (auto simp: view_None_iff rs)
    moreover have "vr_Query rs a fl = Some (last xs)" using True lc by (simp add: q)
    moreover have "last xs = r \<longleftrightarrow> r \<in> set rs \<and> covers r a"
      using True uniq by (auto simp: rs)
    ultimately show ?thesis by auto
  next
    case False
    then have none: "\<not> covers x a" if "x \<in> set rs" for x using uniq that by blast
    have y: "a < vr_start (hd ys) \<and> (\<forall>z \<in> set ys. vr_start (hd ys) \<le> vr_start z)" if ne: "ys \<noteq> []"
    proof -
      obtain h t where ht: "ys = h # t" using ne unfolding neq_Nil_conv by blast
      then have "a < vr_start h" using ys_def by (metis dropWhile_eq_Cons_conv not_less)
      moreover have "vr_start h \<le> vr_start z" if "z \<in> set t" for z
        using that w wf_range_le [of h] by (auto simp: rs ht wf_ranges_append wf_ranges_Cons before_def intro: order_trans)
      ultimately show ?thesis by (simp add: ht)
    qed
    have "vr_Query rs a fl = (if fl \<noteq> 1 \<or> ys = [] then None else Some (hd ys))"
      using False by (auto simp: q lc)
    moreover have "hd ys = r \<longleftrightarrow> r \<in> set rs \<and> a < vr_start r \<and>
        (\<forall>x \<in> set rs. a < vr_start x \<longrightarrow> vr_start r \<le> vr_start x)" if ne: "ys \<noteq> []"
    proof
      assume "hd ys = r"
      then show "r \<in> set rs \<and> a < vr_start r \<and> (\<forall>x \<in> set rs. a < vr_start x \<longrightarrow> vr_start r \<le> vr_start x)"
        using y [OF ne] ne by (auto simp: rs dest: x)
    next
      assume r: "r \<in> set rs \<and> a < vr_start r \<and> (\<forall>x \<in> set rs. a < vr_start x \<longrightarrow> vr_start r \<le> vr_start x)"
      then have "r \<in> set ys" using x [of r] by (auto simp: rs)
      moreover have "vr_start r = vr_start (hd ys)"
        using r y [OF ne] ne \<open>r \<in> set ys\<close> by (intro antisym) (auto simp: rs)
      moreover obtain h t where ht: "ys = h # t" using ne unfolding neq_Nil_conv by blast
      ultimately show "hd ys = r"
        using w wf_range_less [of h] by (auto simp: rs ht wf_ranges_append wf_ranges_Cons before_def)
    qed
    moreover have "r \<notin> set rs \<or> \<not> (a < vr_start r)" if "ys = []"
      using that x [of r] by (auto simp: rs)
    ultimately show ?thesis
      using none by (cases "ys = []") (auto simp: view_None_iff)
  qed
qed

lemma span_loop_props:
  "wf_ranges rs \<Longrightarrow> c < e \<Longrightarrow> c \<noteq> 0 \<Longrightarrow>
    (span_loop rs c e \<noteq> None \<longleftrightarrow> (\<forall>a. c \<le> a \<and> a < e \<longrightarrow> view rs a \<noteq> None)) \<and>
    (\<forall>ps. span_loop rs c e = Some ps \<longrightarrow> wf_ranges ps \<and> (\<forall>p \<in> set ps. c \<le> vr_start p) \<and>
       (\<forall>a. view ps a = (if c \<le> a \<and> a < e then view rs a else None)))"
proof (induction rs arbitrary: c)
  case Nil
  then show ?case by auto
next
  case (Cons r rs)
  have w: "wf_range r" "wf_ranges rs" "\<forall>x \<in> set rs. before r x"
    using Cons.prems(1) by (auto simp: wf_ranges_Cons)
  note lt = wf_range_less [OF w(1)]
  consider "vr_end r \<le> c" | "c < vr_start r" | "vr_start r \<le> c" "c < vr_end r" by force
  then show ?case
  proof cases
    case 1
    then have "covers r a \<Longrightarrow> \<not> c \<le> a" for a by (auto simp: covers_def)
    then have "view (r # rs) a = view rs a" if "c \<le> a" for a using that by auto
    then show ?thesis using Cons.IH [OF w(2) Cons.prems(2,3)] 1 by (auto simp del: view_Cons)
  next
    case 2
    have "view (r # rs) c = None"
      using 2 w(3) lt by (auto simp: view_None_iff covers_def before_def)
    then show ?thesis using 2 lt Cons.prems(2) by (auto simp del: view_Cons)
  next
    case 3
    define m where "m = min e (vr_end r)"
    define p where "p = r\<lparr>vr_start := c, vr_size := m - c,
      vr_offset := (if vr_type r = Direct then vr_offset r + (c - vr_start r) else vr_offset r)\<rparr>"
    have m: "c < m" "m \<le> vr_end r" "m \<le> e" using 3 Cons.prems(2) by (auto simp: m_def)
    have p: "wf_range p" "vr_end p = m" "vr_start p = c"
      using cut_range [OF w(1) m(1) 3(1) m(2)] unfolding p_def by simp_all
    have at: "attr_at p a = attr_at r a" for a by (simp add: p_def attr_at_def)
    have cov: "covers p a \<longleftrightarrow> c \<le> a \<and> a < m" for a by (simp add: covers_def p)
    have covr: "covers r a" if "c \<le> a" "a < m" for a using 3 m that by (auto simp: covers_def)
    have step: "span_loop (r # rs) c e =
        (if m = e then Some [p] else map_option (\<lambda>ps. p # ps) (span_loop rs m e))"
    proof -
      have "\<not> vr_end r \<le> c" "\<not> c < vr_start r" "c + (m - c) = m" using 3 by auto
      then show ?thesis by (simp add: p_def Let_def flip: m_def)
    qed
    show ?thesis
    proof (cases "m = e")
      case True
      then show ?thesis unfolding step using p covr at
        by (auto simp: wf_ranges_Cons cov)
    next
      case False
      then have m': "m < e" "m = vr_end r" using m by (auto simp: m_def min_def split: if_splits)
      have "m \<noteq> 0" using m(1) by auto
      note IH = Cons.IH [OF w(2) m'(1) this]
      have vr: "view (r # rs) a = view rs a" if "m \<le> a" for a
        using that by (auto simp: covers_def m'(2))
      have vp: "view (r # rs) a = Some (attr_at r a)" if "c \<le> a" "a < m" for a
        using covr [OF that] by simp
      have ex: "(\<forall>a. c \<le> a \<and> a < e \<longrightarrow> view (r # rs) a \<noteq> None) \<longleftrightarrow>
          (\<forall>a. m \<le> a \<and> a < e \<longrightarrow> view rs a \<noteq> None)"
        using all_from [of c m "\<lambda>a. view (r # rs) a \<noteq> None" e] vr vp m by (simp del: view_Cons)
      have "span_loop (r # rs) c e \<noteq> None \<longleftrightarrow> span_loop rs m e \<noteq> None"
        unfolding step using False by (simp del: span_loop.simps)
      then have 1: "span_loop (r # rs) c e \<noteq> None \<longleftrightarrow> (\<forall>a. c \<le> a \<and> a < e \<longrightarrow> view (r # rs) a \<noteq> None)"
        unfolding ex using IH by blast
      have "wf_ranges ps \<and> (\<forall>q \<in> set ps. c \<le> vr_start q) \<and>
         (\<forall>a. view ps a = (if c \<le> a \<and> a < e then view (r # rs) a else None))"
        if "span_loop (r # rs) c e = Some ps" for ps
      proof -
        from that obtain qs where qs: "span_loop rs m e = Some qs" "ps = p # qs"
          unfolding step by (auto simp: False simp del: span_loop.simps)
        note I = conjunct2 [OF IH, rule_format, OF qs(1)]
        have "view ps a = (if c \<le> a \<and> a < e then view (r # rs) a else None)" for a
        proof (cases "c \<le> a \<and> a < m")
          case True
          moreover from this have "view ps a = Some (attr_at r a)" by (simp add: qs(2) cov at)
          moreover have "a < e" using True m by auto
          ultimately show ?thesis using vp [of a] by (simp del: view_Cons)
        next
          case False
          then have "view ps a = view qs a" by (auto simp: qs(2) cov)
          then show ?thesis using I vr [of a] False m by (auto simp del: view_Cons)
        qed
        then show ?thesis
          using I p m by (auto simp: qs(2) wf_ranges_Cons before_def simp del: view_Cons)
      qed
      then show ?thesis using 1 by blast
    qed
  qed
qed

lemma vr_QuerySpan_props:
  assumes w: "wf_ranges rs"
  shows "vr_QuerySpan rs s z \<noteq> None \<longleftrightarrow>
      s \<noteq> 0 \<and> z \<noteq> 0 \<and> fits s z \<and> (\<forall>a. in_span s z a \<longrightarrow> view rs a \<noteq> None)"
    and "vr_QuerySpan rs s z = Some ps \<Longrightarrow>
      wf_ranges ps \<and> view ps = (\<lambda>a. if in_span s z a then view rs a else None)"
proof -
  have q: "vr_QuerySpan rs s z = (if s = 0 \<or> z = 0 \<or> \<not> fits s z then None else span_loop rs s (s + z))"
    by (simp add: vr_QuerySpan_def not_fits)
  note sp = span_loop_props [OF w, of s "s + z"]
  show "vr_QuerySpan rs s z \<noteq> None \<longleftrightarrow>
      s \<noteq> 0 \<and> z \<noteq> 0 \<and> fits s z \<and> (\<forall>a. in_span s z a \<longrightarrow> view rs a \<noteq> None)"
    using sp fits_less [of s z] by (auto simp: q in_span_def End_fits simp del: not_None_eq)
  show "vr_QuerySpan rs s z = Some ps \<Longrightarrow>
      wf_ranges ps \<and> view ps = (\<lambda>a. if in_span s z a then view rs a else None)"
    using sp fits_less [of s z] by (auto simp: q in_span_def End_fits fun_eq_iff split: if_splits)
qed


text \<open>\<open>ClampRangeSize\<close> finds the longest committed prefix of the requested span.\<close>

definition committed_at :: "vrange list \<Rightarrow> u64 \<Rightarrow> bool" where
  "committed_at rs a \<longleftrightarrow> (case view rs a of None \<Rightarrow> False | Some v \<Rightarrow> IsCommittedRangeType (va_type v))"

definition committed_prefix :: "vrange list \<Rightarrow> u64 \<Rightarrow> u64 \<Rightarrow> u64 \<Rightarrow> u64 \<Rightarrow> bool" where
  "committed_prefix rs v c n z \<longleftrightarrow> c \<le> n \<and> n \<le> z \<and>
     (\<forall>a. v + c \<le> a \<and> a < v + n \<longrightarrow> committed_at rs a) \<and> (n < z \<longrightarrow> \<not> committed_at rs (v + n))"

lemma clamp_loop_props:
  "wf_ranges rs \<Longrightarrow> fits v z \<Longrightarrow> c \<le> z \<Longrightarrow> \<forall>r \<in> set rs. v + c \<le> vr_start r \<Longrightarrow>
   committed_prefix rs v c (clamp_loop rs (v + c) c z) z"
proof (induction rs arbitrary: c)
  case Nil
  then show ?case by (auto simp: committed_prefix_def committed_at_def)
next
  case (Cons r rs)
  have w: "wf_range r" "wf_ranges rs" "\<forall>x \<in> set rs. before r x"
    using Cons.prems(1) by (auto simp: wf_ranges_Cons)
  note lt = wf_range_less [OF w(1)]
  have fc: "fits v c" by (rule fits_mono [OF Cons.prems(2,3)])
  consider (go) "vr_start r = v + c" "IsCommittedRangeType (vr_type r)" "c < z"
    | (full) "c = z" | (stop) "c < z" "vr_start r \<noteq> v + c \<or> \<not> IsCommittedRangeType (vr_type r)"
    using Cons.prems(3) by fastforce
  then show ?case
  proof cases
    case go
    define k where "k = min (z - c) (vr_size r)"
    have fr: "fits (v + c) (vr_size r)" and re: "vr_end r = v + c + vr_size r"
      using w(1) go(1) by (auto simp: wf_range_def vr_end_def End_fits)
    have un: "unat k = min (unat z - unat c) (unat (vr_size r))" "unat c < unat z"
      using go(3) by (auto simp: k_def min_def word_le_nat_alt word_less_nat_alt unat_diff_le)
    have uvc: "unat (v + c) = unat v + unat c" using fc by (rule unat_add_fits)
    have fk: "fits c k" using u64_less [of z] un by (simp add: fits_unat)
    have ck: "unat (c + k) = unat c + unat k" using fk by (rule unat_add_fits)
    have ckz: "c + k \<le> z" using ck un by (simp add: word_le_nat_alt)
    note fck = fits_mono [OF Cons.prems(2) ckz]
    have uck: "unat (v + (c + k)) = unat v + unat c + unat k"
      using unat_add_fits [OF fck] ck by simp
    have ure: "unat (vr_end r) = unat v + unat c + unat (vr_size r)"
      using unat_add_fits [OF fr] by (simp add: re uvc)
    have le: "v + (c + k) \<le> vr_end r" using uck ure un by (simp add: word_le_nat_alt)
    have ge: "\<forall>x \<in> set rs. v + (c + k) \<le> vr_start x"
      using w(3) le by (auto simp: before_def intro: order_trans)
    note IH = Cons.IH [OF w(2) Cons.prems(2) ckz ge]
    have step: "clamp_loop (r # rs) (v + c) c z = clamp_loop rs (v + (c + k)) (c + k) z"
      using go by (simp add: k_def Let_def add.assoc)
    define n where "n = clamp_loop rs (v + (c + k)) (c + k) z"
    have IH: "c + k \<le> n" "n \<le> z" "\<forall>a. v + (c + k) \<le> a \<and> a < v + n \<longrightarrow> committed_at rs a"
      "n < z \<longrightarrow> \<not> committed_at rs (v + n)"
      using IH by (auto simp: committed_prefix_def n_def)
    have comm: "committed_at (r # rs) a" if "v + c \<le> a" "a < v + (c + k)" for a
      using that le go(1,2) by (auto simp: committed_at_def covers_def attr_at_def)
    have same: "committed_at (r # rs) a = committed_at rs a" if "vr_end r \<le> a" for a
      using that by (auto simp: committed_at_def covers_def)
    have cases: "c + k = z \<or> v + (c + k) = vr_end r"
      using un ck uck ure by (auto simp: min_def word_unat_eq_iff split: if_splits)
    have cck: "c \<le> c + k" using fits_le [OF fk] .
    have vck: "v + c \<le> v + (c + k)" using uck uvc by (simp add: word_le_nat_alt)
    from cases show ?thesis
    proof
      assume e: "c + k = z"
      with IH have "n = z" by auto
      then show ?thesis
        unfolding step n_def [symmetric] committed_prefix_def using e comm cck by auto
    next
      assume e: "v + (c + k) = vr_end r"
      have fn: "fits v n" by (rule fits_mono [OF Cons.prems(2) IH(2)])
      have "v + (c + k) \<le> v + n"
        using IH(1) unat_add_fits [OF fn] unat_add_fits [OF fck] by (simp add: word_le_nat_alt)
      then have vn: "vr_end r \<le> v + n" by (simp add: e)
      have "committed_at (r # rs) a" if "v + c \<le> a" "a < v + n" for a
      proof (cases "a < v + (c + k)")
        case True
        then show ?thesis using comm that by blast
      next
        case False
        then have "v + (c + k) \<le> a" by simp
        then show ?thesis using IH(3) same [of a] that(2) e by simp
      qed
      then show ?thesis
        unfolding step n_def [symmetric] committed_prefix_def
        using IH same [OF vn] cck by (blast intro: order_trans)
    qed
  next
    case full
    then show ?thesis by (auto simp: committed_prefix_def)
  next
    case stop
    have "\<not> committed_at (r # rs) (v + c)"
    proof (cases "covers r (v + c)")
      case True
      then have "vr_start r = v + c" using Cons.prems(4) by (auto simp: covers_def intro: antisym)
      then show ?thesis using stop True by (simp add: committed_at_def attr_at_def)
    next
      case False
      have "v + c < vr_start r" using False Cons.prems(4) lt by (auto simp: covers_def)
      then have "view (r # rs) (v + c) = None"
        using w(3) lt by (auto simp: view_None_iff covers_def before_def)
      then show ?thesis by (simp add: committed_at_def del: view_Cons)
    qed
    moreover have "clamp_loop (r # rs) (v + c) c z = c" using stop by auto
    ultimately show ?thesis using stop by (auto simp: committed_prefix_def)
  qed
qed


lemma vr_ClampRangeSize_props:
  assumes w: "wf_ranges rs"
  shows "vr_ClampRangeSize rs v z = 0 \<longleftrightarrow> v = 0 \<or> z = 0 \<or> \<not> fits v z \<or> \<not> committed_at rs v"
    and "v \<noteq> 0 \<Longrightarrow> fits v z \<Longrightarrow> committed_prefix rs v 0 (vr_ClampRangeSize rs v z) z"
proof -
  define xs ys where "xs = takeWhile (\<lambda>r. vr_start r \<le> v) rs" and "ys = dropWhile (\<lambda>r. vr_start r \<le> v) rs"
  have rs: "rs = xs @ ys" by (simp add: xs_def ys_def)
  have x: "vr_start x \<le> v" if "x \<in> set xs" for x using that by (auto simp: xs_def dest: set_takeWhileD)
  define ok where "ok \<longleftrightarrow> xs \<noteq> [] \<and> covers (last xs) v \<and> IsCommittedRangeType (vr_type (last xs))"
  have cl: "vr_ClampRangeSize rs v z =
      (if v = 0 \<or> z = 0 \<or> \<not> fits v z \<or> \<not> ok then 0
       else let c = min z (vr_end (last xs) - v) in clamp_loop ys (v + c) c z)"
    by (auto simp: vr_ClampRangeSize_def not_fits ok_def covers_def xs_def ys_def Let_def not_less)
  have okc: "ok \<longleftrightarrow> committed_at rs v"
  proof (cases "xs \<noteq> [] \<and> covers (last xs) v")
    case True
    then have "view rs v = Some (attr_at (last xs) v)" by (intro view_member [OF w]) (auto simp: rs)
    then show ?thesis using True by (simp add: ok_def committed_at_def attr_at_def)
  next
    case False
    then have "view rs v = None" using wf_ranges_takeWhile_last [OF w xs_def] by (auto simp: view_None_iff)
    then show ?thesis using False by (auto simp: ok_def committed_at_def)
  qed
  have main: "committed_prefix rs v 0 (vr_ClampRangeSize rs v z) z \<and> vr_ClampRangeSize rs v z \<noteq> 0"
    if v: "v \<noteq> 0" "z \<noteq> 0" "fits v z" and ok: ok
  proof -
    define l c where "l = last xs" and "c = min z (vr_end l - v)"
    have l: "l \<in> set xs" "covers l v" "IsCommittedRangeType (vr_type l)" using ok by (auto simp: ok_def l_def)
    have wl: "wf_range l" using l w rs by (auto intro: wf_ranges_wf)
    have c: "c \<le> z" "c \<noteq> 0" "c \<le> vr_end l - v" using v l(2) by (auto simp: c_def min_def covers_def)
    have ule: "unat v \<le> unat (vr_end l)" using l(2) by (auto simp: covers_def word_less_nat_alt)
    have vc: "v + c \<le> vr_end l"
      using c(3) l(2) size_le_room [of v "vr_end l" c] by (auto simp: covers_def)
    have ge: "\<forall>y \<in> set ys. v + c \<le> vr_start y"
    proof
      fix y assume y: "y \<in> set ys"
      have "before l y" using w l(1) y by (auto simp: rs wf_ranges_append)
      then show "v + c \<le> vr_start y" using vc by (auto simp: before_def intro: order_trans)
    qed
    have wy: "wf_ranges ys" using w by (simp add: rs wf_ranges_append)
    define n where "n = clamp_loop ys (v + c) c z"
    have n: "c \<le> n" "n \<le> z" "\<forall>a. v + c \<le> a \<and> a < v + n \<longrightarrow> committed_at ys a"
      "n < z \<longrightarrow> \<not> committed_at ys (v + n)"
      using clamp_loop_props [OF wy v(3) c(1) ge] by (auto simp: committed_prefix_def n_def)
    have tail: "committed_at rs a = committed_at ys a" if "vr_end l \<le> a" for a
    proof -
      have "\<not> covers q a" if "q \<in> set xs" for q
      proof -
        have "xs \<noteq> []" using l(1) by auto
        then have xl: "xs = butlast xs @ [l]" by (simp add: l_def)
        have "wf_ranges (butlast xs @ [l])" using w by (simp add: rs wf_ranges_append flip: xl)
        moreover have "q = l \<or> q \<in> set (butlast xs)" using that by (subst (asm) xl) auto
        ultimately have "q = l \<or> before q l" by (auto simp: wf_ranges_append)
        then show ?thesis
          using \<open>vr_end l \<le> a\<close> wf_range_less [OF wl] by (auto simp: covers_def before_def)
      qed
      then have "view xs a = None" by (simp add: view_None_iff)
      then show ?thesis by (simp add: rs committed_at_def view_append)
    qed
    have first: "committed_at rs a" if "v \<le> a" "a < v + c" for a
    proof -
      have "covers l a" using that vc l(2) by (auto simp: covers_def)
      then have "view rs a = Some (attr_at l a)" using l(1) by (intro view_member [OF w]) (auto simp: rs)
      then show ?thesis using l(3) by (simp add: committed_at_def attr_at_def)
    qed
    have cn: "vr_ClampRangeSize rs v z = n"
      using v ok by (simp add: cl n_def c_def l_def Let_def)
    have "c = z \<or> v + c = vr_end l" by (auto simp: c_def min_def)
    then have "committed_prefix rs v 0 n z"
    proof
      assume "c = z"
      then show ?thesis using n(1,2) first by (auto simp: committed_prefix_def)
    next
      assume e: "v + c = vr_end l"
      have "v + c \<le> v + n"
        using n(1) unat_add_fits [OF fits_mono [OF v(3) n(2)]] unat_add_fits [OF fits_mono [OF v(3) c(1)]]
        by (simp add: word_le_nat_alt)
      moreover have "committed_at rs a" if "v \<le> a" "a < v + n" for a
        using first [of a] tail [of a] n(3) that e by (cases "a < v + c") (auto simp: not_less)
      ultimately show ?thesis
        using n(2,4) tail [of "v + n"] e by (auto simp: committed_prefix_def)
    qed
    moreover have "n \<noteq> 0" using n(1) c(2) by auto
    ultimately show ?thesis by (simp add: cn)
  qed
  show "vr_ClampRangeSize rs v z = 0 \<longleftrightarrow> v = 0 \<or> z = 0 \<or> \<not> fits v z \<or> \<not> committed_at rs v"
    using main by (auto simp: cl okc)
  show "committed_prefix rs v 0 (vr_ClampRangeSize rs v z) z" if "v \<noteq> 0" "fits v z"
    using main that okc by (cases "z = 0 \<or> \<not> ok") (auto simp: cl committed_prefix_def)
qed

end
