(* ===== verification/VirtualRangesProps.thy ===== *)
theory VirtualRangesProps
  imports VirtualRangesSpec
begin

text \<open>
  The properties of the virtual range table, each with an instance on a concrete table. The
  sample table holds a reserved range, a flexible range next to it and a direct range further up.
\<close>

definition sample :: "vrange list" where
  "sample =
    [\<lparr>vr_start = 0x10000, vr_size = 0x8000, vr_offset = 0, vr_protection = 0, vr_memory_type = 0,
      vr_type = Reserved, vr_disallow_merge = False, vr_name = ''r''\<rparr>,
     \<lparr>vr_start = 0x18000, vr_size = 0x4000, vr_offset = 0, vr_protection = 3, vr_memory_type = 0,
      vr_type = Flexible, vr_disallow_merge = False, vr_name = ''f''\<rparr>,
     \<lparr>vr_start = 0x20000, vr_size = 0x8000, vr_offset = 0x100000, vr_protection = 3,
      vr_memory_type = 1, vr_type = Direct, vr_disallow_merge = False, vr_name = ''d''\<rparr>]"

lemma sample_wf: "wf_table sample"
  by code_simp

text \<open>C1. \<open>Add\<close> succeeds exactly when start and size are non-zero and no address of the
  span is taken; then every address of the span has the new attributes (for direct memory, its own
  offset), every other address keeps what it had, and the table stays sorted, disjoint and
  coalesced. A refused call changes nothing.\<close>

theorem virtual_add_correct:
  assumes "wf_table rs" and "fits s z" and "vr_Add rs s z off prot mt t nm dm = (ok, rs')"
  shows "(ok \<longleftrightarrow> s \<noteq> 0 \<and> z \<noteq> 0 \<and> (\<forall>a. in_span s z a \<longrightarrow> view rs a = None)) \<and> wf_table rs' \<and>
    (\<forall>a. view rs' a = (if ok \<and> in_span s z a
       then Some \<lparr>va_type = t, va_protection = prot, va_memory_type = mt,
                  va_name = CopyVirtualRangeName nm, va_disallow_merge = dm,
                  va_offset = (if t = Direct then off + (a - s) else 0)\<rparr>
       else view rs a))"
  using vr_Add_props [OF assms] by (auto simp: taken_def)

theorem virtual_add_witness:
  "fst (vr_Add sample 0x1C000 0x4000 0 3 0 Flexible (Some ''f'') False) \<and>
   length (snd (vr_Add sample 0x1C000 0x4000 0 3 0 Flexible (Some ''f'') False)) = 3 \<and>
   map_option va_protection (view (snd (vr_Add sample 0x1C000 0x4000 0 3 0 Flexible (Some ''f'') False)) 0x1D000)
     = Some 3"
proof -
  let ?r = "vr_Add sample 0x1C000 0x4000 0 3 0 Flexible (Some ''f'') False"
  have f: "fits 0x1C000 0x4000" by code_simp
  note T = virtual_add_correct [OF sample_wf f surjective_pairing, where off = 0 and prot = 3
      and mt = 0 and t = Flexible and nm = "Some ''f''" and dm = False]
  have ok: "fst ?r" "length (snd ?r) = 3" by code_simp+
  have "in_span 0x1C000 0x4000 0x1D000" by code_simp
  then show ?thesis using T ok by simp
qed

text \<open>C2. \<open>Remove\<close> answers whether some address of the span was mapped, unmaps exactly
  the addresses of the span, splitting ranges that reach over its ends, and keeps the invariant.\<close>

theorem virtual_remove_correct:
  assumes "wf_table rs" and "vr_Remove rs s z = (removed, rs')"
  shows "(removed \<longleftrightarrow> (\<exists>a. in_span s z a \<and> view rs a \<noteq> None)) \<and> wf_table rs' \<and>
    view rs' = (\<lambda>a. if in_span s z a then None else view rs a)"
  using vr_Remove_props [OF assms] by (simp add: taken_def)

theorem virtual_remove_witness:
  "wf_table (snd (vr_Remove sample 0x14000 0x10000)) \<and>
   view (snd (vr_Remove sample 0x14000 0x10000)) 0x20000 = None \<and>
   view (snd (vr_Remove sample 0x14000 0x10000)) 0x24000 = view sample 0x24000"
proof -
  have "in_span 0x14000 0x10000 0x20000" "\<not> in_span 0x14000 0x10000 0x24000" by code_simp+
  then show ?thesis
    using virtual_remove_correct [OF sample_wf surjective_pairing, where s = "0x14000" and z = "0x10000"] by simp
qed

text \<open>\<open>Protect\<close>, \<open>SetMemoryType\<close> and \<open>Rename\<close> change one attribute
  of the mapped addresses of the span and nothing else, and leave a coalesced table.\<close>

lemma virtual_edit_correct:
  assumes "wf_table rs"
  shows "wf_table (vr_Protect rs s z prot) \<and> wf_table (vr_SetMemoryType rs s z mt) \<and>
    wf_table (vr_Rename rs s z nm) \<and>
    view (vr_Protect rs s z prot) =
      (\<lambda>a. map_option (if in_span s z a then va_protection_update (\<lambda>_. prot) else id) (view rs a)) \<and>
    view (vr_SetMemoryType rs s z mt) =
      (\<lambda>a. map_option (if in_span s z a then va_memory_type_update (\<lambda>_. mt) else id) (view rs a)) \<and>
    view (vr_Rename rs s z nm) = (\<lambda>a. map_option
      (if in_span s z a then va_name_update (\<lambda>_. CopyVirtualRangeName nm) else id) (view rs a))"
  using vr_Protect_props [OF assms] vr_SetMemoryType_props [OF assms] vr_Rename_props [OF assms] by simp

theorem virtual_edit_witness:
  "map_option va_protection (view (vr_Protect sample 0x1A000 0x8000 1) 0x21000) = Some 1 \<and>
   map_option va_protection (view (vr_Protect sample 0x1A000 0x8000 1) 0x22000) = Some 3"
proof -
  have v: "map_option va_protection (view sample 0x22000) = Some 3" "view sample 0x21000 \<noteq> None"
    by code_simp+
  have i: "in_span 0x1A000 0x8000 0x21000" "\<not> in_span 0x1A000 0x8000 0x22000" by code_simp+
  have "view (vr_Protect sample 0x1A000 0x8000 1) = (\<lambda>a. map_option
      (if in_span 0x1A000 0x8000 a then va_protection_update (\<lambda>_. 1) else id) (view sample a))"
    using virtual_edit_correct [OF sample_wf] by blast
  then show ?thesis using v i by auto
qed

text \<open>\<open>ConsumeReservedSpan\<close> succeeds exactly when the span is not empty and every
  one of its addresses has the given type, whatever number of ranges it stretches over; then it
  unmaps the whole span, and otherwise it changes nothing.\<close>

lemma virtual_consume_span_correct:
  assumes "wf_table rs" and "vr_ConsumeReservedSpan rs s z t = (ok, first, rs')"
  shows "(ok \<longleftrightarrow> z \<noteq> 0 \<and> (\<forall>a. in_span s z a \<longrightarrow> map_option va_type (view rs a) = Some t)) \<and>
    wf_table rs' \<and> view rs' = (\<lambda>a. if ok \<and> in_span s z a then None else view rs a) \<and>
    (\<forall>r. first = Some r \<longrightarrow> r \<in> set rs \<and> vr_type r = t \<and> covers r s)"
  using vr_ConsumeReservedSpan_props [OF assms] by blast

theorem virtual_consume_span_witness:
  "fst (vr_ConsumeReservedSpan sample 0x12000 0x4000 Reserved) \<and>
   view (snd (snd (vr_ConsumeReservedSpan sample 0x12000 0x4000 Reserved))) 0x13000 = None \<and>
   \<not> fst (vr_ConsumeReservedSpan sample 0x12000 0x8000 Reserved)"
proof -
  obtain ok first rs' where r: "vr_ConsumeReservedSpan sample 0x12000 0x4000 Reserved = (ok, first, rs')"
    by (metis prod_cases3)
  have ok: "fst (vr_ConsumeReservedSpan sample 0x12000 0x4000 Reserved)"
    "\<not> fst (vr_ConsumeReservedSpan sample 0x12000 0x8000 Reserved)" by code_simp+
  have "in_span 0x12000 0x4000 0x13000" by code_simp
  then show ?thesis using virtual_consume_span_correct [OF sample_wf r] ok r by simp
qed

text \<open>The two ways of giving up a reservation by exact or containing range:
  \<open>ReleaseReserved\<close> drops a reserved range that is exactly the span, \<open>ConsumeReserved\<close>
  unmaps the span when one range of the given type contains it. Neither changes other addresses.\<close>

lemma virtual_reservation_correct:
  assumes "wf_table rs" and "vr_ConsumeReserved rs s z t = (ok, rs')"
  shows "(ok \<longleftrightarrow> (\<exists>r \<in> set rs. vr_type r = t \<and> vr_start r \<le> s \<and> End s z \<le> vr_end r)) \<and>
    wf_table rs' \<and> view rs' = (\<lambda>a. if ok \<and> in_span s z a then None else view rs a) \<and>
    wf_table (vr_ReleaseReserved rs s z) \<and>
    view (vr_ReleaseReserved rs s z) = (\<lambda>a. if in_span s z a \<and>
      (\<exists>r \<in> set rs. vr_start r = s \<and> vr_size r = z \<and> IsReservedRangeType (vr_type r))
      then None else view rs a)"
  using vr_ConsumeReserved_props [OF assms] vr_ReleaseReserved_props [OF assms(1)] by blast

theorem virtual_reservation_witness:
  "fst (vr_ConsumeReserved sample 0x14000 0x4000 Reserved) \<and>
   view (snd (vr_ConsumeReserved sample 0x14000 0x4000 Reserved)) 0x15000 = None"
proof -
  have "fst (vr_ConsumeReserved sample 0x14000 0x4000 Reserved)" by code_simp
  moreover have "in_span 0x14000 0x4000 0x15000" by code_simp
  ultimately show ?thesis
    using virtual_reservation_correct [OF sample_wf surjective_pairing, where s = "0x14000" and z = "0x4000" and t = Reserved]
    by simp
qed

text \<open>\<open>Query\<close> returns the range that holds the address; with flag 1 and no such
  range it returns the next range above the address, and otherwise it finds nothing.
  \<open>HasOverlap\<close> answers whether some address of the span is mapped.\<close>

lemma virtual_query_correct:
  assumes "wf_table rs"
  shows "(vr_Query rs a fl = Some r \<longleftrightarrow>
      r \<in> set rs \<and> (covers r a \<or> (fl = 1 \<and> view rs a = None \<and> a < vr_start r \<and>
        (\<forall>x \<in> set rs. a < vr_start x \<longrightarrow> vr_start r \<le> vr_start x)))) \<and>
    (vr_HasOverlap rs s z \<longleftrightarrow> (\<exists>a. in_span s z a \<and> view rs a \<noteq> None))"
proof -
  have "wf_ranges rs" using assms by (simp add: wf_table_def)
  then show ?thesis
    using vr_Query_props FindOverlap_props(1) [of rs s z] by (simp add: vr_HasOverlap_def taken_def)
qed

theorem virtual_query_witness: "vr_Query sample 0x1D000 1 = Some (sample ! 2) \<and> vr_Query sample 0x1D000 0 = None"
proof -
  have "sample ! 2 \<in> set sample" by (simp add: sample_def)
  moreover have "view sample 0x1D000 = None" "0x1D000 < vr_start (sample ! 2)" by code_simp+
  moreover have "\<forall>x \<in> set sample. 0x1D000 < vr_start x \<longrightarrow> vr_start (sample ! 2) \<le> vr_start x" by code_simp
  moreover have "vr_Query sample 0x1D000 0 = None" by code_simp
  ultimately show ?thesis using virtual_query_correct [OF sample_wf, where a = "0x1D000" and fl = 1 and r = "sample ! 2"] by blast
qed

text \<open>\<open>QuerySpan\<close> succeeds exactly on non-empty spans that do not wrap around and
  are mapped at every address. The parts it returns are sorted and disjoint, and together say of
  every address of the span what the table says, and nothing outside it.\<close>

lemma virtual_query_span_correct:
  assumes "wf_table rs"
  shows "(vr_QuerySpan rs s z \<noteq> None \<longleftrightarrow>
      s \<noteq> 0 \<and> z \<noteq> 0 \<and> fits s z \<and> (\<forall>a. in_span s z a \<longrightarrow> view rs a \<noteq> None)) \<and>
    (\<forall>ps. vr_QuerySpan rs s z = Some ps \<longrightarrow>
      wf_ranges ps \<and> view ps = (\<lambda>a. if in_span s z a then view rs a else None))"
proof -
  have "wf_ranges rs" using assms by (simp add: wf_table_def)
  then show ?thesis using vr_QuerySpan_props by blast
qed

theorem virtual_query_span_witness:
  "map_option length (vr_QuerySpan sample 0x14000 0x6000) = Some 2 \<and>
   view sample 0x17FFF \<noteq> None \<and> vr_QuerySpan sample 0x14000 0x10000 = None"
proof -
  have 1: "map_option length (vr_QuerySpan sample 0x14000 0x6000) = Some 2"
    "vr_QuerySpan sample 0x14000 0x10000 = None" by code_simp+
  then have "vr_QuerySpan sample 0x14000 0x6000 \<noteq> None" by auto
  moreover have "in_span 0x14000 0x6000 0x17FFF" by code_simp
  ultimately show ?thesis
    using virtual_query_span_correct [OF sample_wf, where s = "0x14000" and z = "0x6000"] 1 by blast
qed

text \<open>\<open>ClampRangeSize\<close> is the length of the longest committed prefix of the span:
  at most the requested size, committed throughout, and followed by an address that is not
  committed when it is shorter.\<close>

lemma virtual_clamp_correct:
  assumes "wf_table rs"
  shows "(vr_ClampRangeSize rs v z = 0 \<longleftrightarrow> v = 0 \<or> z = 0 \<or> \<not> fits v z \<or> \<not> committed_at rs v) \<and>
    (v \<noteq> 0 \<and> fits v z \<longrightarrow>
      vr_ClampRangeSize rs v z \<le> z \<and>
      (\<forall>a. v \<le> a \<and> a < v + vr_ClampRangeSize rs v z \<longrightarrow> committed_at rs a) \<and>
      (vr_ClampRangeSize rs v z < z \<longrightarrow> \<not> committed_at rs (v + vr_ClampRangeSize rs v z)))"
proof -
  have "wf_ranges rs" using assms by (simp add: wf_table_def)
  then show ?thesis
    using vr_ClampRangeSize_props [of rs v z] by (auto simp: committed_prefix_def)
qed

theorem virtual_clamp_witness:
  "vr_ClampRangeSize sample 0x19000 0x8000 = 0x3000 \<and> \<not> committed_at sample (0x19000 + 0x3000)"
proof -
  have v: "vr_ClampRangeSize sample 0x19000 0x8000 = 0x3000" by code_simp
  have "(0x19000 :: u64) \<noteq> 0 \<and> fits 0x19000 0x8000" "(0x3000 :: u64) < 0x8000" by code_simp+
  then show ?thesis using virtual_clamp_correct [OF sample_wf, where v = "0x19000" and z = "0x8000"] v by auto
qed

end
