(* ===== verification/Spans.thy ===== *)
theory Spans
  imports Prelude
begin

text \<open>
  Containers of address ranges. A \<open>std::map\<close> keyed by addresses is the list of its
  entries in key order; the first section gives the map operations the sources use. The second
  reads a map from starts to sizes as a set of addresses. The third states the interface of an
  allocator's free list, which four classes of \<open>src/kernel\<close> provide, and proves the
  accounting facts that follow from it alone.
\<close>

section \<open>Ordered maps\<close>

type_synonym 'v omap = "(u64 \<times> 'v) list"

definition ordered :: "'v omap \<Rightarrow> bool" where
  "ordered m \<longleftrightarrow> sorted_wrt (<) (map fst m)"

definition om_upto :: "u64 \<Rightarrow> 'v omap \<Rightarrow> 'v omap" where
  "om_upto k m = takeWhile (\<lambda>e. fst e \<le> k) m"

definition om_above :: "u64 \<Rightarrow> 'v omap \<Rightarrow> 'v omap" where
  "om_above k m = dropWhile (\<lambda>e. fst e \<le> k) m"

definition om_below :: "u64 \<Rightarrow> 'v omap \<Rightarrow> 'v omap" where
  "om_below k m = takeWhile (\<lambda>e. fst e < k) m"

definition om_from :: "u64 \<Rightarrow> 'v omap \<Rightarrow> 'v omap" where
  "om_from k m = dropWhile (\<lambda>e. fst e < k) m"

text \<open>\<open>std::prev(m.upper_bound(k))\<close>, or None when \<open>upper_bound\<close> is \<open>begin()\<close>.\<close>

definition om_prev :: "u64 \<Rightarrow> 'v omap \<Rightarrow> (u64 \<times> 'v) option" where
  "om_prev k m = (if om_upto k m = [] then None else Some (last (om_upto k m)))"

definition om_emplace :: "u64 \<Rightarrow> 'v \<Rightarrow> 'v omap \<Rightarrow> 'v omap" where
  "om_emplace k v m =
     (if k \<in> set (map fst m) then m else om_below k m @ (k, v) # om_from k m)"

definition om_erase :: "u64 \<Rightarrow> 'v omap \<Rightarrow> 'v omap" where
  "om_erase k m = filter (\<lambda>e. fst e \<noteq> k) m"

definition om_assign :: "u64 \<Rightarrow> 'v \<Rightarrow> 'v omap \<Rightarrow> 'v omap" where
  "om_assign k v m = map (\<lambda>e. if fst e = k then (k, v) else e) m"

lemma ordered_Nil [simp]: "ordered []"
  by (simp add: ordered_def)

lemma ordered_Cons: "ordered (e # m) \<longleftrightarrow> (\<forall>x \<in> set m. fst e < fst x) \<and> ordered m"
  by (auto simp: ordered_def)

lemma ordered_append: "ordered (xs @ ys) \<longleftrightarrow>
    ordered xs \<and> ordered ys \<and> (\<forall>x \<in> set xs. \<forall>y \<in> set ys. fst x < fst y)"
  by (auto simp: ordered_def sorted_wrt_append)

lemma dropWhile_ordered:
  assumes "ordered m" and "y \<in> set (dropWhile P m)" and "\<And>x. P x \<longleftrightarrow> fst x < k \<or> (eq \<and> fst x = k)"
  shows "\<not> P y"
proof -
  have o: "ordered (dropWhile P m)"
    using assms(1) by (metis ordered_append takeWhile_dropWhile_id)
  have "dropWhile P m \<noteq> []" using assms(2) by (metis empty_iff list.set(1))
  then obtain h t where ht: "dropWhile P m = h # t" unfolding neq_Nil_conv by blast
  then have "\<not> P h" by (metis dropWhile_eq_Cons_conv)
  moreover have "y = h \<or> fst h < fst y" using assms(2) o by (auto simp: ht ordered_Cons)
  ultimately show ?thesis using assms(3) by auto
qed

lemma om_upto_above: "m = om_upto k m @ om_above k m"
  by (simp add: om_upto_def om_above_def)

lemma om_below_from: "m = om_below k m @ om_from k m"
  by (simp add: om_below_def om_from_def)

lemma om_upto_le: "e \<in> set (om_upto k m) \<Longrightarrow> fst e \<le> k"
  by (auto simp: om_upto_def dest: set_takeWhileD)

lemma om_below_less: "e \<in> set (om_below k m) \<Longrightarrow> fst e < k"
  by (auto simp: om_below_def dest: set_takeWhileD)

lemma om_above_gt: "ordered m \<Longrightarrow> e \<in> set (om_above k m) \<Longrightarrow> k < fst e"
  using dropWhile_ordered [of m e "\<lambda>e. fst e \<le> k" k True] by (auto simp: om_above_def le_less)

lemma om_from_ge: "ordered m \<Longrightarrow> e \<in> set (om_from k m) \<Longrightarrow> k \<le> fst e"
  using dropWhile_ordered [of m e "\<lambda>e. fst e < k" k False] by (auto simp: om_from_def)

lemma om_prev_split:
  assumes "ordered m" and "om_prev k m = Some e"
  shows "\<exists>xs ys. m = xs @ e # ys \<and> fst e \<le> k \<and> om_above k m = ys \<and> (\<forall>y \<in> set ys. k < fst y)"
proof -
  have ne: "om_upto k m \<noteq> []" and e: "e = last (om_upto k m)"
    using assms(2) by (auto simp: om_prev_def split: if_splits)
  then have "om_upto k m = butlast (om_upto k m) @ [e]" by simp
  then have "m = butlast (om_upto k m) @ e # om_above k m"
    using om_upto_above [of m k] by (metis append.assoc append_Cons append_Nil)
  moreover have "fst e \<le> k" using om_upto_le [OF last_in_set [OF ne]] e by simp
  ultimately show ?thesis using om_above_gt [OF assms(1)] by blast
qed

lemma om_prev_None: "ordered m \<Longrightarrow> om_prev k m = None \<longleftrightarrow> (\<forall>e \<in> set m. k < fst e)"
proof
  assume "ordered m" "om_prev k m = None"
  then have "om_above k m = m" using om_upto_above [of m k] by (auto simp: om_prev_def split: if_splits)
  then show "\<forall>e \<in> set m. k < fst e" using om_above_gt [OF \<open>ordered m\<close>] by metis
next
  assume "\<forall>e \<in> set m. k < fst e"
  then show "om_prev k m = None" by (cases m) (auto simp: om_prev_def om_upto_def)
qed

lemma om_prev_eq:
  assumes "ordered (xs @ e # ys)" and "fst e \<le> k" and "\<forall>y \<in> set ys. k < fst y"
  shows "om_prev k (xs @ e # ys) = Some e"
proof -
  have "takeWhile (\<lambda>y. fst y \<le> k) ys = []" using assms(3) by (cases ys) auto
  moreover have "\<forall>x \<in> set xs. fst x \<le> k" using assms(1,2) by (auto simp: ordered_append)
  ultimately have "om_upto k (xs @ e # ys) = xs @ [e]"
    using assms(2) by (simp add: om_upto_def)
  then show ?thesis by (simp add: om_prev_def)
qed

lemma takeWhile_mid:
  "\<forall>x \<in> set xs. P x \<Longrightarrow> ys = [] \<or> \<not> P (hd ys) \<Longrightarrow>
     takeWhile P (xs @ ys) = xs \<and> dropWhile P (xs @ ys) = ys"
  by (cases ys) auto

lemma om_emplace_eq:
  assumes "\<forall>x \<in> set xs. fst x < k" and "\<forall>y \<in> set ys. k < fst y"
  shows "om_emplace k v (xs @ ys) = xs @ (k, v) # ys"
proof -
  have "om_below k (xs @ ys) = xs \<and> om_from k (xs @ ys) = ys"
    unfolding om_below_def om_from_def by (rule takeWhile_mid) (use assms in \<open>cases ys; auto\<close>)+
  moreover have "k \<notin> set (map fst (xs @ ys))" using assms by auto
  ultimately show ?thesis by (simp add: om_emplace_def)
qed

lemma om_erase_eq: "ordered (xs @ e # ys) \<Longrightarrow> om_erase (fst e) (xs @ e # ys) = xs @ ys"
proof -
  assume o: "ordered (xs @ e # ys)"
  have "filter (\<lambda>x. fst x \<noteq> fst e) xs = xs" and "filter (\<lambda>x. fst x \<noteq> fst e) ys = ys"
    using o by (fastforce simp: ordered_append ordered_Cons intro!: filter_True)+
  then show ?thesis by (simp add: om_erase_def)
qed

lemma om_assign_eq: "ordered (xs @ e # ys) \<Longrightarrow> om_assign (fst e) v (xs @ e # ys) = xs @ (fst e, v) # ys"
  by (auto simp: om_assign_def ordered_append ordered_Cons intro!: map_idI)

section \<open>Sets of address ranges\<close>

type_synonym spans = "u64 omap"

definition in_range :: "u64 \<Rightarrow> u64 \<Rightarrow> u64 \<Rightarrow> bool" where
  "in_range s z a \<longleftrightarrow> s \<le> a \<and> a < s + z"

definition span_ok :: "u64 \<times> u64 \<Rightarrow> bool" where
  "span_ok e \<longleftrightarrow> snd e \<noteq> 0 \<and> fits (fst e) (snd e)"

definition sp_at :: "spans \<Rightarrow> u64 \<Rightarrow> bool" where
  "sp_at m a \<longleftrightarrow> (\<exists>e \<in> set m. in_range (fst e) (snd e) a)"

text \<open>Ranges in order without overlap; \<open>separate\<close> asks for a gap between neighbours.\<close>

definition disjoint :: "spans \<Rightarrow> bool" where
  "disjoint m \<longleftrightarrow> list_all span_ok m \<and> sorted_wrt (\<lambda>e f. fst e + snd e \<le> fst f) m"

definition separate :: "spans \<Rightarrow> bool" where
  "separate m \<longleftrightarrow> list_all span_ok m \<and> sorted_wrt (\<lambda>e f. fst e + snd e < fst f) m"

lemma span_less: "span_ok e \<Longrightarrow> fst e < fst e + snd e"
  by (auto simp: span_ok_def fits_less)

lemma separate_disjoint: "separate m \<Longrightarrow> disjoint m"
  unfolding separate_def disjoint_def
  by (auto elim!: sorted_wrt_mono_rel [rotated])

lemma disjoint_Nil [simp]: "disjoint []" "separate []"
  by (simp_all add: disjoint_def separate_def)

lemma disjoint_Cons: "disjoint (e # m) \<longleftrightarrow>
    span_ok e \<and> (\<forall>f \<in> set m. fst e + snd e \<le> fst f) \<and> disjoint m"
  by (auto simp: disjoint_def)

lemma separate_Cons: "separate (e # m) \<longleftrightarrow>
    span_ok e \<and> (\<forall>f \<in> set m. fst e + snd e < fst f) \<and> separate m"
  by (auto simp: separate_def)

lemma disjoint_append: "disjoint (xs @ ys) \<longleftrightarrow>
    disjoint xs \<and> disjoint ys \<and> (\<forall>e \<in> set xs. \<forall>f \<in> set ys. fst e + snd e \<le> fst f)"
  by (auto simp: disjoint_def sorted_wrt_append)

lemma separate_append: "separate (xs @ ys) \<longleftrightarrow>
    separate xs \<and> separate ys \<and> (\<forall>e \<in> set xs. \<forall>f \<in> set ys. fst e + snd e < fst f)"
  by (auto simp: separate_def sorted_wrt_append)

lemma disjoint_ordered: "disjoint m \<Longrightarrow> ordered m"
  by (induction m) (auto simp: disjoint_Cons ordered_Cons dest!: span_less intro: order.strict_trans2)

lemma disjoint_ok: "disjoint m \<Longrightarrow> e \<in> set m \<Longrightarrow> span_ok e"
  by (simp add: disjoint_def list_all_iff)

lemma sp_at_Nil [simp]: "\<not> sp_at [] a"
  by (simp add: sp_at_def)

lemma sp_at_Cons [simp]: "sp_at (e # m) a \<longleftrightarrow> in_range (fst e) (snd e) a \<or> sp_at m a"
  by (auto simp: sp_at_def)

lemma sp_at_append [simp]: "sp_at (xs @ ys) a \<longleftrightarrow> sp_at xs a \<or> sp_at ys a"
  by (auto simp: sp_at_def)

lemma in_range_card:
  assumes "fits s z"
  shows "finite {a. in_range s z a}" "card {a. in_range s z a} = unat z"
proof -
  show "finite {a. in_range s z a}" by simp
  have "{a. in_range s z a} = (\<lambda>n. s + of_nat n) ` {..< unat z}"
  proof (intro set_eqI iffI)
    fix a assume "a \<in> {a. in_range s z a}"
    then have "unat (a - s) < unat z" and "a = s + of_nat (unat (a - s))"
      using unat_add_fits [OF assms]
      by (auto simp: in_range_def unat_diff_le word_less_nat_alt word_le_nat_alt)
    then show "a \<in> (\<lambda>n. s + of_nat n) ` {..< unat z}" by blast
  next
    fix a assume "a \<in> (\<lambda>n. s + of_nat n) ` {..< unat z}"
    then obtain n where n: "n < unat z" "a = s + of_nat n" by auto
    have u: "unat (of_nat n :: u64) = n"
      using n(1) u64_less [of z] by (simp add: unat_of_nat take_bit_nat_eq_self)
    then have "fits s (of_nat n)"
      using assms n(1) by (simp add: fits_unat)
    then show "a \<in> {a. in_range s z a}"
      using n u unat_add_fits [OF assms]
      by (simp add: in_range_def word_less_nat_alt unat_add_fits fits_le)
  qed
  moreover have "inj_on (\<lambda>n. s + of_nat n :: u64) {..< unat z}"
  proof (rule inj_onI)
    fix x y assume "x \<in> {..< unat z}" "y \<in> {..< unat z}" "s + of_nat x = s + (of_nat y :: u64)"
    then have "unat (of_nat x :: u64) = unat (of_nat y :: u64)" "x < 2 ^ 64" "y < 2 ^ 64"
      using u64_less [of z] by auto
    then show "x = y" by (simp add: unat_of_nat take_bit_nat_eq_self)
  qed
  ultimately show "card {a. in_range s z a} = unat z" by (simp add: card_image)
qed


lemma span_sub:
  assumes "span_ok e" and "fst e \<le> s" and "s < t" and "t \<le> fst e + snd e"
  shows "span_ok (s, t - s)" and "s + (t - s) = t"
  using assms by (auto simp: span_ok_def fits_diff)

lemma sp_at_bound: "disjoint m \<Longrightarrow> sp_at m a \<Longrightarrow> \<exists>e \<in> set m. fst e \<le> a \<and> a < fst e + snd e"
  by (auto simp: sp_at_def in_range_def)

text \<open>Only one range of a disjoint list holds a given address.\<close>

lemma disjoint_unique:
  assumes "disjoint (xs @ e # ys)" and "in_range (fst e) (snd e) a"
  shows "\<not> sp_at xs a \<and> \<not> sp_at ys a"
proof -
  have "\<not> in_range (fst x) (snd x) a" if "x \<in> set xs \<or> x \<in> set ys" for x
    using assms that by (auto simp: disjoint_append disjoint_Cons in_range_def)
  then show ?thesis by (auto simp: sp_at_def)
qed

lemma sp_at_split: "sp_at m a \<Longrightarrow> \<exists>xs e ys. m = xs @ e # ys \<and> in_range (fst e) (snd e) a"
  unfolding sp_at_def by (metis in_set_conv_decomp)

lemma sp_card_finite [simp]: "finite {a. sp_at m a}"
  by simp

lemma card_disjoint: "disjoint m \<Longrightarrow> card {a. sp_at m a} = sum_list (map (unat \<circ> snd) m)"
proof (induction m)
  case Nil
  then show ?case by simp
next
  case (Cons e m)
  have "{a. sp_at (e # m) a} = {a. in_range (fst e) (snd e) a} \<union> {a. sp_at m a}" by auto
  moreover have "{a. in_range (fst e) (snd e) a} \<inter> {a. sp_at m a} = {}"
    using disjoint_unique [of "[]" e m] Cons.prems by auto
  moreover have "fits (fst e) (snd e)" using Cons.prems by (simp add: disjoint_Cons span_ok_def)
  ultimately show ?case
    using Cons by (simp add: card_Un_disjoint in_range_card disjoint_Cons)
qed

section \<open>Cutting a span out of a range\<close>

text \<open>
  \<open>m_free.erase(range)\<close> followed by up to two \<open>emplace\<close> calls for what is left
  of the range before and after the span: \<open>ConsumeFreeRange\<close> of
  \<open>PhysicalMemory\<close> and, with the same text, of \<open>FlexibleMemory\<close>.
\<close>

definition ConsumeFreeRange :: "u64 \<times> u64 \<Rightarrow> u64 \<Rightarrow> u64 \<Rightarrow> spans \<Rightarrow> spans" where
  "ConsumeFreeRange rng start sz free =
    (let range_start = fst rng;
         range_end = fst rng + snd rng;
         free1 = om_erase range_start free;
         free2 = (if range_start < start then om_emplace range_start (start - range_start) free1 else free1)
     in if start + sz < range_end then om_emplace (start + sz) (range_end - start - sz) free2 else free2)"

definition left_part :: "u64 \<times> u64 \<Rightarrow> u64 \<Rightarrow> spans" where
  "left_part e s = (if fst e < s then [(fst e, s - fst e)] else [])"

definition right_part :: "u64 \<times> u64 \<Rightarrow> u64 \<Rightarrow> spans" where
  "right_part e t = (if t < fst e + snd e then [(t, fst e + snd e - t)] else [])"

lemma parts_props:
  assumes "span_ok e" and "fst e \<le> s" and "s < t" and "t \<le> fst e + snd e"
  shows "separate (left_part e s @ right_part e t)"
    and "sp_at (left_part e s @ right_part e t) a \<longleftrightarrow>
           in_range (fst e) (snd e) a \<and> \<not> (s \<le> a \<and> a < t)"
    and "\<forall>p \<in> set (left_part e s @ right_part e t). fst e \<le> fst p \<and> fst p + snd p \<le> fst e + snd e"
proof -
  have l: "span_ok (fst e, s - fst e)" if "fst e < s"
    using span_sub [OF assms(1) order_refl that] assms by auto
  have r: "span_ok (t, fst e + snd e - t)" if "t < fst e + snd e"
    using span_sub [OF assms(1) _ that order_refl] assms by auto
  show "separate (left_part e s @ right_part e t)"
    using l r assms(3) by (auto simp: left_part_def right_part_def separate_Cons)
  show "sp_at (left_part e s @ right_part e t) a \<longleftrightarrow>
      in_range (fst e) (snd e) a \<and> \<not> (s \<le> a \<and> a < t)"
    using assms by (auto simp: left_part_def right_part_def in_range_def)
  show "\<forall>p \<in> set (left_part e s @ right_part e t). fst e \<le> fst p \<and> fst p + snd p \<le> fst e + snd e"
    using assms by (auto simp: left_part_def right_part_def)
qed

lemma cut_props:
  assumes m: "separate (xs @ e # ys)" and s: "fst e \<le> s" and f: "fits s z" "z \<noteq> 0"
    and t: "s + z \<le> fst e + snd e"
  shows "separate (xs @ (left_part e s @ right_part e (s + z)) @ ys)"
    and "sp_at (xs @ (left_part e s @ right_part e (s + z)) @ ys) a \<longleftrightarrow>
           sp_at (xs @ e # ys) a \<and> \<not> in_range s z a"
proof -
  have e: "span_ok e" using m by (simp add: separate_append separate_Cons)
  note p = parts_props [OF e s fits_less [OF f] t]
  show "separate (xs @ (left_part e s @ right_part e (s + z)) @ ys)"
  proof -
    let ?P = "left_part e s @ right_part e (s + z)"
    have "fst x + snd x < fst q" if "x \<in> set xs" "q \<in> set ?P" for x q
    proof -
      have "fst x + snd x < fst e" using m that(1) by (simp add: separate_append)
      then show ?thesis using p(3) that(2) by (blast intro: order.strict_trans2)
    qed
    moreover have "fst q + snd q < fst y" if "q \<in> set ?P" "y \<in> set ys" for q y
    proof -
      have "fst e + snd e < fst y" using m that(2) by (simp add: separate_append separate_Cons)
      then show ?thesis using p(3) that(1) by (blast intro: order.strict_trans1)
    qed
    ultimately show ?thesis
      using m p(1) unfolding separate_append [of xs] separate_append [of ?P] separate_Cons
      by (auto simp: separate_append)
  qed
  have "\<not> sp_at xs a \<and> \<not> sp_at ys a" if "in_range s z a"
    by (rule disjoint_unique [OF separate_disjoint [OF m]]) (use that s t in \<open>auto simp: in_range_def\<close>)
  then show "sp_at (xs @ (left_part e s @ right_part e (s + z)) @ ys) a \<longleftrightarrow>
      sp_at (xs @ e # ys) a \<and> \<not> in_range s z a"
    using p(2) by (auto simp: in_range_def)
qed

lemma cut_disjoint:
  assumes m: "disjoint (xs @ e # ys)" and s: "fst e \<le> s" and f: "fits s z" "z \<noteq> 0"
    and t: "s + z \<le> fst e + snd e"
  shows "disjoint (xs @ (left_part e s @ right_part e (s + z)) @ ys)"
    and "sp_at (xs @ (left_part e s @ right_part e (s + z)) @ ys) a \<longleftrightarrow>
           sp_at (xs @ e # ys) a \<and> \<not> in_range s z a"
proof -
  have e: "span_ok e" using m by (simp add: disjoint_append disjoint_Cons)
  note p = parts_props [OF e s fits_less [OF f] t]
  show "disjoint (xs @ (left_part e s @ right_part e (s + z)) @ ys)"
  proof -
    let ?P = "left_part e s @ right_part e (s + z)"
    have "fst x + snd x \<le> fst q" if "x \<in> set xs" "q \<in> set ?P" for x q
    proof -
      have "fst x + snd x \<le> fst e" using m that(1) by (simp add: disjoint_append)
      then show ?thesis using p(3) that(2) by (blast intro: order_trans)
    qed
    moreover have "fst q + snd q \<le> fst y" if "q \<in> set ?P" "y \<in> set ys" for q y
    proof -
      have "fst e + snd e \<le> fst y" using m that(2) by (simp add: disjoint_append disjoint_Cons)
      then show ?thesis using p(3) that(1) by (blast intro: order_trans)
    qed
    ultimately show ?thesis
      using m separate_disjoint [OF p(1)]
      unfolding disjoint_append [of xs] disjoint_append [of ?P] disjoint_Cons
      by (auto simp: disjoint_append)
  qed
  have "\<not> sp_at xs a \<and> \<not> sp_at ys a" if "in_range s z a"
    by (rule disjoint_unique [OF m]) (use that s t in \<open>auto simp: in_range_def\<close>)
  then show "sp_at (xs @ (left_part e s @ right_part e (s + z)) @ ys) a \<longleftrightarrow>
      sp_at (xs @ e # ys) a \<and> \<not> in_range s z a"
    using p(2) by (auto simp: in_range_def)
qed

lemma ConsumeFreeRange_eq:
  assumes m: "separate (xs @ e # ys)" and s: "fst e \<le> s" and f: "fits s z" "z \<noteq> 0"
    and t: "s + z \<le> fst e + snd e"
  shows "ConsumeFreeRange e s z (xs @ e # ys) = xs @ (left_part e s @ right_part e (s + z)) @ ys"
proof -
  note cp = cut_props(1) [OF assms]
  have o: "ordered (xs @ e # ys)" using m by (blast intro: disjoint_ordered separate_disjoint)
  have x: "fst x < fst e" if "x \<in> set xs" for x using o that by (auto simp: ordered_append)
  have y: "fst e + snd e < fst y" if "y \<in> set ys" for y
    using m that by (auto simp: separate_append separate_Cons)
  have y': "fst e < fst y" if "y \<in> set ys" for y using o that by (auto simp: ordered_append ordered_Cons)
  have lt: "s < s + z" using f by (rule fits_less)
  have 1: "om_erase (fst e) (xs @ e # ys) = xs @ ys" using o by (rule om_erase_eq)
  have 2: "(if fst e < s then om_emplace (fst e) (s - fst e) (xs @ ys) else xs @ ys) =
      (xs @ left_part e s) @ ys"
    using om_emplace_eq [of xs "fst e" ys] x y' by (simp add: left_part_def)
  have "(if s + z < fst e + snd e
      then om_emplace (s + z) (fst e + snd e - s - z) ((xs @ left_part e s) @ ys)
      else (xs @ left_part e s) @ ys) = (xs @ left_part e s) @ right_part e (s + z) @ ys"
  proof (cases "s + z < fst e + snd e")
    case True
    have "om_emplace (s + z) (fst e + snd e - s - z) ((xs @ left_part e s) @ ys) =
        (xs @ left_part e s) @ (s + z, fst e + snd e - s - z) # ys"
    proof (rule om_emplace_eq)
      show "\<forall>x \<in> set (xs @ left_part e s). fst x < s + z"
        using x s lt by (auto simp: left_part_def) (meson order.strict_trans order.strict_trans2)+
      show "\<forall>y \<in> set ys. s + z < fst y" using y True by (auto intro: order.strict_trans)
    qed
    then show ?thesis using True by (simp add: right_part_def diff_diff_eq)
  qed (simp add: right_part_def)
  then show ?thesis unfolding ConsumeFreeRange_def Let_def 1 2 by simp
qed

text \<open>In a separate list, a span whose addresses all belong to it lies within one range.\<close>

lemma span_in_one:
  assumes m: "separate m" and f: "fits s z" "z \<noteq> 0" and a: "\<And>a. in_range s z a \<Longrightarrow> sp_at m a"
  shows "\<exists>xs e ys. m = xs @ e # ys \<and> fst e \<le> s \<and> s + z \<le> fst e + snd e \<and> om_prev s m = Some e"
proof -
  have "in_range s z s" using fits_less [OF f] by (simp add: in_range_def)
  then obtain xs e ys where e: "m = xs @ e # ys" "in_range (fst e) (snd e) s"
    using sp_at_split [OF a] by blast
  have ys: "fst e + snd e < fst y" if "y \<in> set ys" for y
    using m that by (auto simp: e(1) separate_append separate_Cons)
  have "s + z \<le> fst e + snd e"
  proof (rule ccontr)
    assume n: "\<not> s + z \<le> fst e + snd e"
    let ?b = "fst e + snd e"
    have "in_range s z ?b" using n e(2) by (auto simp: in_range_def)
    then have "sp_at m ?b" by (rule a)
    moreover have "\<not> in_range (fst y) (snd y) ?b" if "y \<in> set ys" for y
      using ys [OF that] by (auto simp: in_range_def)
    moreover have "\<not> in_range (fst x) (snd x) ?b" if "x \<in> set xs" for x
    proof -
      have "fst x + snd x < fst e" using m that by (auto simp: e(1) separate_append)
      then show ?thesis using e(2) by (auto simp: in_range_def)
    qed
    ultimately show False by (auto simp: e(1) sp_at_def in_range_def)
  qed
  moreover have "om_prev s m = Some e"
    unfolding e(1)
  proof (rule om_prev_eq)
    show "ordered (xs @ e # ys)" using m e(1) by (auto intro: disjoint_ordered separate_disjoint)
    show "fst e \<le> s" using e(2) by (simp add: in_range_def)
    show "\<forall>y \<in> set ys. s < fst y"
      using ys e(2) unfolding in_range_def by (blast intro: order.strict_trans)
  qed
  moreover have "fst e \<le> s" using e(2) by (simp add: in_range_def)
  ultimately show ?thesis using e(1) by blast
qed


text \<open>Inserting a range into a disjoint list of ranges that leave it free.\<close>

lemma disjoint_insert:
  assumes d: "disjoint (xs @ ys)" and x: "\<forall>x \<in> set xs. fst x < p" and y: "\<forall>y \<in> set ys. p < fst y"
    and f: "fits p len" "len \<noteq> 0" and n: "\<And>a. in_range p len a \<Longrightarrow> \<not> sp_at (xs @ ys) a"
  shows "disjoint (xs @ (p, len) # ys)"
proof -
  have lt: "p < p + len" using f by (rule fits_less)
  have "fst e + snd e \<le> p" if e: "e \<in> set xs" for e
  proof (rule ccontr)
    assume "\<not> fst e + snd e \<le> p"
    then have "in_range (fst e) (snd e) p" using x e by (auto simp: in_range_def)
    then have "sp_at (xs @ ys) p" using e by (auto simp: sp_at_def)
    then show False using n [of p] lt by (simp add: in_range_def)
  qed
  moreover have "p + len \<le> fst e" if e: "e \<in> set ys" for e
  proof (rule ccontr)
    assume ne: "\<not> p + len \<le> fst e"
    have "span_ok e" using d e by (simp add: disjoint_append disjoint_def list_all_iff)
    then have "in_range (fst e) (snd e) (fst e)" by (simp add: in_range_def span_less)
    then have "sp_at (xs @ ys) (fst e)" using e by (auto simp: sp_at_def)
    moreover have "in_range p len (fst e)" using ne y e by (auto simp: in_range_def)
    ultimately show False using n by blast
  qed
  ultimately show ?thesis
    using d f by (auto simp: disjoint_append disjoint_Cons span_ok_def)
qed

section \<open>Adding a span\<close>

text \<open>\<open>AddFreeRange\<close> of \<open>PhysicalMemory\<close> and \<open>FlexibleMemory\<close>.\<close>

fun absorb :: "u64 \<Rightarrow> spans \<Rightarrow> u64 \<times> spans" where
  "absorb end [] = (end, [])"
| "absorb end (e # m) =
     (if fst e \<le> end then absorb (max end (fst e + snd e)) m else (end, e # m))"

definition AddFreeRange :: "u64 \<Rightarrow> u64 \<Rightarrow> spans \<Rightarrow> spans" where
  "AddFreeRange start sz free =
    (let end = start + sz;
         pre = om_below start free;
         (start', end', kept) =
           (if pre \<noteq> [] \<and> start \<le> fst (last pre) + snd (last pre)
            then (fst (last pre), max end (fst (last pre) + snd (last pre)), butlast pre)
            else (start, end, pre));
         (end'', rest) = absorb end' (om_from start free)
     in om_emplace start' (end'' - start') (kept @ rest))"

lemma absorb_props:
  assumes "separate m" and "s < e" and "absorb e m = (e', m')" and "\<forall>x \<in> set m. s \<le> fst x"
  shows "\<exists>xs. m = xs @ m' \<and> e \<le> e' \<and> (\<forall>y \<in> set m'. e' < fst y) \<and>
    (\<forall>a. s \<le> a \<and> a < e' \<longleftrightarrow> s \<le> a \<and> a < e \<or> sp_at xs a)"
  using assms
proof (induction m arbitrary: e)
  case Nil
  then show ?case by auto
next
  case (Cons x m)
  have sx: "fst x < fst x + snd x" and xm: "\<forall>y \<in> set m. fst x + snd x < fst y" and m: "separate m"
    using Cons.prems(1) span_less by (auto simp: separate_Cons)
  show ?case
  proof (cases "fst x \<le> e")
    case True
    define e1 where "e1 = max e (fst x + snd x)"
    have e1: "e \<le> e1" "s < e1" using Cons.prems(2) by (auto simp: e1_def less_max_iff_disj)
    have "absorb e1 m = (e', m')" using Cons.prems(3) True by (simp add: e1_def)
    moreover have "\<forall>y \<in> set m. s \<le> fst y" using Cons.prems(4) by simp
    ultimately obtain xs where xs: "m = xs @ m'" "e1 \<le> e'" "\<forall>y \<in> set m'. e' < fst y"
      "\<forall>a. s \<le> a \<and> a < e' \<longleftrightarrow> s \<le> a \<and> a < e1 \<or> sp_at xs a"
      using Cons.IH [OF m e1(2)] by blast
    have "s \<le> a \<and> a < e1 \<longleftrightarrow> s \<le> a \<and> a < e \<or> in_range (fst x) (snd x) a" for a
      using True Cons.prems(4) sx by (auto simp: e1_def in_range_def less_max_iff_disj)
    then have "\<forall>a. s \<le> a \<and> a < e' \<longleftrightarrow> s \<le> a \<and> a < e \<or> sp_at (x # xs) a"
      using xs(4) by auto
    then show ?thesis using xs e1 by (intro exI [of _ "x # xs"]) auto
  next
    case False
    then have "e' = e" "m' = x # m" using Cons.prems(3) by auto
    moreover have "\<forall>y \<in> set (x # m). e < fst y" using False xm sx by auto
    ultimately show ?thesis by (intro exI [of _ "[]"]) auto
  qed
qed

lemma AddFreeRange_props:
  assumes m: "separate m" and f: "fits s z" "z \<noteq> 0"
  shows "separate (AddFreeRange s z m)"
    and "sp_at (AddFreeRange s z m) a \<longleftrightarrow> sp_at m a \<or> in_range s z a"
proof -
  define pre fr where "pre = om_below s m" and "fr = om_from s m"
  have om: "ordered m" using m by (blast intro: disjoint_ordered separate_disjoint)
  have mm: "m = pre @ fr" unfolding pre_def fr_def by (rule om_below_from)
  have pre: "\<forall>x \<in> set pre. fst x < s" and fr: "\<forall>x \<in> set fr. s \<le> fst x"
    using om_below_less om_from_ge [OF om] by (auto simp: pre_def fr_def)
  define join where "join \<longleftrightarrow> pre \<noteq> [] \<and> s \<le> fst (last pre) + snd (last pre)"
  define s' where "s' = (if join then fst (last pre) else s)"
  define e where "e = (if join then max (s + z) (fst (last pre) + snd (last pre)) else s + z)"
  define kept where "kept = (if join then butlast pre else pre)"
  obtain e' rest where ab: "absorb e fr = (e', rest)" by force
  have res: "AddFreeRange s z m = om_emplace s' (e' - s') (kept @ rest)"
  proof (cases join)
    case True
    then show ?thesis using ab unfolding AddFreeRange_def pre_def [symmetric] fr_def [symmetric] Let_def
      by (simp add: s'_def e_def kept_def join_def)
  next
    case False
    have "(if pre \<noteq> [] \<and> s \<le> fst (last pre) + snd (last pre)
        then (fst (last pre), max (s + z) (fst (last pre) + snd (last pre)), butlast pre)
        else (s, s + z, pre)) = (s, s + z, pre)" using False unfolding join_def by argo
    moreover have "e = s + z" "s' = s" "kept = pre" using False by (simp_all add: e_def s'_def kept_def)
    ultimately show ?thesis
      using ab unfolding AddFreeRange_def pre_def [symmetric] fr_def [symmetric] Let_def by simp
  qed
  have lt: "s < s + z" using f by (rule fits_less)
  have lp: "pre \<noteq> [] \<Longrightarrow> fst (last pre) < s" using pre by simp
  have s': "s' \<le> s" "join \<Longrightarrow> s' < s" using lp by (auto simp: s'_def join_def)
  have e: "s + z \<le> e" by (auto simp: e_def)
  have se: "s' < e" using s' lt e by (meson order.strict_trans1 order.strict_trans2)
  have wf: "separate fr" "separate pre" using m by (auto simp: mm separate_append)
  have fr': "\<forall>x \<in> set fr. s' \<le> fst x" using fr s'(1) by (blast intro: order_trans)
  obtain xs where xs: "fr = xs @ rest" "e \<le> e'" "\<forall>y \<in> set rest. e' < fst y"
    "\<forall>a. s' \<le> a \<and> a < e' \<longleftrightarrow> s' \<le> a \<and> a < e \<or> sp_at xs a"
    using absorb_props [OF wf(1) se ab fr'] by blast
  have kept: "\<forall>x \<in> set kept. fst x + snd x < s'" "separate kept"
  proof -
    have "separate (butlast pre @ [last pre])" if "pre \<noteq> []" using that wf by simp
    then have "separate (butlast pre)" by (cases "pre = []") (auto simp: separate_append simp del: append_butlast_last_id)
    then show "separate kept" using wf by (simp add: kept_def)
    show "\<forall>x \<in> set kept. fst x + snd x < s'"
    proof
      fix x assume x: "x \<in> set kept"
      have b: "pre \<noteq> [] \<Longrightarrow> \<forall>x \<in> set (butlast pre). fst x + snd x < fst (last pre)"
        using \<open>pre \<noteq> [] \<Longrightarrow> separate (butlast pre @ [last pre])\<close> by (simp add: separate_append del: append_butlast_last_id)
      show "fst x + snd x < s'"
      proof (cases join)
        case True
        then show ?thesis using x b by (auto simp: kept_def s'_def join_def)
      next
        case False
        then have "x \<in> set pre" using x by (simp add: kept_def)
        then have ne: "pre \<noteq> []" by auto
        then have "x = last pre \<or> x \<in> set (butlast pre)"
          using \<open>x \<in> set pre\<close> by (metis append_butlast_last_id in_set_conv_decomp rotate1.simps(2) set_ConsD set_rotate1)
        moreover have "fst (last pre) + snd (last pre) < s" using False ne by (simp add: join_def)
        moreover have "span_ok (last pre)" using wf(2) ne by (auto simp: separate_def list_all_iff)
        ultimately show ?thesis
          using b [OF ne] False span_less [of "last pre"] by (auto simp: s'_def)
      qed
    qed
  qed
  have "om_emplace s' (e' - s') (kept @ rest) = kept @ (s', e' - s') # rest"
  proof (rule om_emplace_eq)
    have "fst x < fst x + snd x" if "x \<in> set kept" for x
      using kept(2) that by (intro span_less) (auto simp: separate_def list_all_iff)
    then show "\<forall>x \<in> set kept. fst x < s'" using kept(1) by (meson order.strict_trans)
    show "\<forall>y \<in> set rest. s' < fst y" using xs(2,3) se by (meson order.strict_trans order.strict_trans2)
  qed
  then have res: "AddFreeRange s z m = kept @ (s', e' - s') # rest" by (simp add: res)
  have se': "s' < e'" using se xs(2) by (rule order.strict_trans2)
  have new: "span_ok (s', e' - s')" "s' + (e' - s') = e'"
    using se' by (auto simp: span_ok_def fits_diff)
  show "separate (AddFreeRange s z m)"
  proof -
    have "separate rest" using wf(1) by (simp add: xs(1) separate_append)
    moreover have "fst x + snd x < fst y" if "x \<in> set kept" "y \<in> set rest" for x y
      using kept(1) xs(3) se' that by (meson order.strict_trans)
    ultimately show ?thesis
      using kept new xs(3) unfolding res by (simp add: separate_append separate_Cons)
  qed
  have join: "sp_at pre a \<or> s \<le> a \<and> a < s + z \<longleftrightarrow> sp_at kept a \<or> s' \<le> a \<and> a < e"
  proof (cases join)
    case True
    then have p: "pre = butlast pre @ [last pre]" and j: "s \<le> fst (last pre) + snd (last pre)"
      by (auto simp: join_def)
    have "sp_at pre a \<longleftrightarrow> sp_at kept a \<or> in_range (fst (last pre)) (snd (last pre)) a"
      using True by (subst p) (simp add: kept_def)
    then show ?thesis
      using True j s' by (auto simp: s'_def e_def in_range_def less_max_iff_disj)
  qed (simp add: kept_def s'_def e_def)
  have "sp_at (AddFreeRange s z m) a \<longleftrightarrow> sp_at kept a \<or> (s' \<le> a \<and> a < e') \<or> sp_at rest a"
    by (simp add: res in_range_def new(2))
  also have "\<dots> \<longleftrightarrow> (sp_at kept a \<or> s' \<le> a \<and> a < e) \<or> sp_at fr a"
    using xs(4) by (auto simp: xs(1))
  also have "\<dots> \<longleftrightarrow> sp_at m a \<or> in_range s z a"
    unfolding join [symmetric] by (auto simp: mm in_range_def)
  finally show "sp_at (AddFreeRange s z m) a \<longleftrightarrow> sp_at m a \<or> in_range s z a" .
qed


section \<open>The interface of a free list\<close>

text \<open>
  An allocator keeps a set of free addresses. Its clients only use two operations: taking a
  span out of it, and giving a span back. \<open>lo\<close> is the least address it accepts.
\<close>

locale free_space =
  fixes ok :: "'s \<Rightarrow> bool"
    and free_at :: "'s \<Rightarrow> u64 \<Rightarrow> bool"
    and take_span :: "u64 \<Rightarrow> u64 \<Rightarrow> 's \<Rightarrow> 's"
    and give_span :: "u64 \<Rightarrow> u64 \<Rightarrow> 's \<Rightarrow> 's"
    and lo :: u64
  assumes take_ok: "\<lbrakk>ok f; fits s z; z \<noteq> 0; \<And>a. in_range s z a \<Longrightarrow> free_at f a\<rbrakk>
      \<Longrightarrow> ok (take_span s z f)"
    and take_at: "\<lbrakk>ok f; fits s z; z \<noteq> 0; \<And>a. in_range s z a \<Longrightarrow> free_at f a\<rbrakk>
      \<Longrightarrow> free_at (take_span s z f) a \<longleftrightarrow> free_at f a \<and> \<not> in_range s z a"
    and give_ok: "\<lbrakk>ok f; fits s z; z \<noteq> 0; lo \<le> s; \<And>a. in_range s z a \<Longrightarrow> \<not> free_at f a\<rbrakk>
      \<Longrightarrow> ok (give_span s z f)"
    and give_at: "\<lbrakk>ok f; fits s z; z \<noteq> 0; lo \<le> s; \<And>a. in_range s z a \<Longrightarrow> \<not> free_at f a\<rbrakk>
      \<Longrightarrow> free_at (give_span s z f) a \<longleftrightarrow> free_at f a \<or> in_range s z a"
begin

definition free_bytes :: "'s \<Rightarrow> nat" where
  "free_bytes f = card {a. free_at f a}"

lemma take_bytes:
  assumes "ok f" "fits s z" "z \<noteq> 0" "\<And>a. in_range s z a \<Longrightarrow> free_at f a"
  shows "free_bytes f = free_bytes (take_span s z f) + unat z"
proof -
  have "{a. free_at f a} = {a. free_at (take_span s z f) a} \<union> {a. in_range s z a}"
    using assms(4) take_at [OF assms] by auto
  moreover have "{a. free_at (take_span s z f) a} \<inter> {a. in_range s z a} = {}"
    using take_at [OF assms] by auto
  ultimately show ?thesis
    using in_range_card [OF assms(2)] by (simp add: free_bytes_def card_Un_disjoint)
qed

lemma give_bytes:
  assumes "ok f" "fits s z" "z \<noteq> 0" "lo \<le> s" "\<And>a. in_range s z a \<Longrightarrow> \<not> free_at f a"
  shows "free_bytes (give_span s z f) = free_bytes f + unat z"
proof -
  have "{a. free_at (give_span s z f) a} = {a. free_at f a} \<union> {a. in_range s z a}"
    using give_at [OF assms] by auto
  moreover have "{a. free_at f a} \<inter> {a. in_range s z a} = {}" using assms(5) by auto
  ultimately show ?thesis
    using in_range_card [OF assms(2)] by (simp add: free_bytes_def card_Un_disjoint)
qed

lemma take_give:
  assumes "ok f" "fits s z" "z \<noteq> 0" "lo \<le> s" "\<And>a. in_range s z a \<Longrightarrow> free_at f a"
  shows "free_at (give_span s z (take_span s z f)) = free_at f"
proof -
  have n: "\<not> free_at (take_span s z f) a" if "in_range s z a" for a
    using take_at [OF assms(1-3,5)] that by simp
  have o: "ok (take_span s z f)" by (rule take_ok [OF assms(1-3,5)])
  show ?thesis
    using give_at [OF o assms(2-4) n] take_at [OF assms(1-3,5)] assms(5) by (auto simp: fun_eq_iff)
qed

end

definition take_range :: "u64 \<Rightarrow> u64 \<Rightarrow> spans \<Rightarrow> spans" where
  "take_range s z m = (case om_prev s m of None \<Rightarrow> m | Some e \<Rightarrow> ConsumeFreeRange e s z m)"

lemma take_range_props:
  assumes m: "separate m" and f: "fits s z" "z \<noteq> 0" and a: "\<And>a. in_range s z a \<Longrightarrow> sp_at m a"
  shows "separate (take_range s z m)"
    and "sp_at (take_range s z m) a \<longleftrightarrow> sp_at m a \<and> \<not> in_range s z a"
proof -
  obtain xs e ys where e: "m = xs @ e # ys" "fst e \<le> s" "s + z \<le> fst e + snd e" "om_prev s m = Some e"
    using span_in_one [OF m f a] by blast
  note w = m [unfolded e(1)]
  have "take_range s z m = xs @ (left_part e s @ right_part e (s + z)) @ ys"
    unfolding take_range_def e(4) using ConsumeFreeRange_eq [OF w e(2) f e(3)] by (simp add: e(1))
  then show "separate (take_range s z m)"
    and "sp_at (take_range s z m) a \<longleftrightarrow> sp_at m a \<and> \<not> in_range s z a"
    using cut_props [OF w e(2) f e(3)] by (simp_all add: e(1))
qed

interpretation free_ranges: free_space separate sp_at take_range AddFreeRange 0
  by unfold_locales (auto simp: take_range_props AddFreeRange_props)

end
