(* ===== verification/PhysicalMemory.thy ===== *)
theory PhysicalMemory
  imports VirtualRanges Spans
begin

text \<open>
  Direct memory of the guest: class \<open>PhysicalMemory\<close> of
  \<open>src/kernel/memory.cpp\<close>. \<open>m_physical\<close> holds the allocated blocks by physical
  address, \<open>m_free\<close> the free ranges, \<open>m_mappings\<close> the virtual mappings in creation
  order. The configured flexible memory size, which fixes the size of the store, is the argument
  \<open>flexible\<close>. The failure injection of the test build is not modelled.
\<close>

section \<open>State\<close>

record pm_block =
  pb_start_addr :: u64
  pb_size :: u64
  pb_map_vaddr :: u64
  pb_map_size :: u64
  pb_host_vaddr :: u64
  pb_host_size :: u64
  pb_prot :: i32
  pb_mode :: host_mode
  pb_gpu_mode :: gpu_mode
  pb_memory_type :: i32
  pb_pool_expansion :: bool
  pb_name :: string

record physical_memory =
  pm_physical :: "pm_block omap"
  pm_free :: spans
  pm_mappings :: "pm_block list"

definition TotalSize :: u64 where "TotalSize = 13824 * 1024 * 1024"

definition pm_Size :: "u64 \<Rightarrow> u64 outcome" where
  "pm_Size flexible = (if TotalSize \<le> flexible then Exit else Done (TotalSize - flexible))"

definition pm_init :: "u64 \<Rightarrow> physical_memory outcome" where
  "pm_init flexible = obind (pm_Size flexible) (\<lambda>sz.
     Done \<lparr>pm_physical = [], pm_free = om_emplace 0 sz [], pm_mappings = []\<rparr>)"

section \<open>Allocation\<close>

text \<open>The struct \<open>AlignedPos\<close>: None when its flag \<open>valid\<close> is false.\<close>

definition GetAlignedPos :: "u64 \<Rightarrow> u64 \<Rightarrow> u64 option" where
  "GetAlignedPos pos alignment =
    (if alignment = 0 then Some pos
     else
       let remainder = pos mod alignment;
           increment = (if remainder \<noteq> 0 then alignment - remainder else 0)
       in if UINT64_MAX - pos < increment then None else Some (pos + increment))"

definition alloc_fit :: "u64 \<Rightarrow> u64 \<Rightarrow> u64 \<Rightarrow> u64 \<Rightarrow> u64 \<times> u64 \<Rightarrow> u64 option" where
  "alloc_fit search_start search_end len alignment e =
    (let range_end = min (fst e + snd e) search_end;
         lower_bound = max (fst e) search_start
     in case GetAlignedPos lower_bound alignment of
          None \<Rightarrow> None
        | Some free_pos \<Rightarrow>
            if free_pos < lower_bound \<or> range_end < free_pos \<or> range_end - free_pos < len
            then None else Some free_pos)"

fun alloc_scan :: "u64 \<Rightarrow> u64 \<Rightarrow> u64 \<Rightarrow> u64 \<Rightarrow> spans \<Rightarrow> ((u64 \<times> u64) \<times> u64) option" where
  "alloc_scan search_start search_end len alignment [] = None"
| "alloc_scan search_start search_end len alignment (e # es) =
    (if search_end \<le> fst e then None
     else case alloc_fit search_start search_end len alignment e of
            None \<Rightarrow> alloc_scan search_start search_end len alignment es
          | Some p \<Rightarrow> Some (e, p))"

text \<open>\<open>upper_bound(k)\<close>, stepped back by one unless it is \<open>begin()\<close>.\<close>

definition om_from_prev :: "u64 \<Rightarrow> 'v omap \<Rightarrow> 'v omap" where
  "om_from_prev k m = (case om_prev k m of None \<Rightarrow> m | Some e \<Rightarrow> e # om_above k m)"

definition new_block :: "u64 \<Rightarrow> u64 \<Rightarrow> i32 \<Rightarrow> bool \<Rightarrow> pm_block" where
  "new_block start len memory_type pool_expansion =
     \<lparr>pb_start_addr = start, pb_size = len, pb_map_vaddr = 0, pb_map_size = 0, pb_host_vaddr = 0,
      pb_host_size = 0, pb_prot = 0, pb_mode = NoAccess, pb_gpu_mode = GpuNoAccess,
      pb_memory_type = memory_type, pb_pool_expansion = pool_expansion, pb_name = []\<rparr>"

definition pm_Alloc :: "u64 \<Rightarrow> physical_memory \<Rightarrow> u64 \<Rightarrow> u64 \<Rightarrow> u64 \<Rightarrow> u64 \<Rightarrow> i32 \<Rightarrow> bool \<Rightarrow>
    (u64 option \<times> physical_memory) outcome" where
  "pm_Alloc flexible pm search_start search_end len alignment memory_type pool_expansion =
    obind (pm_Size flexible) (\<lambda>sz.
      let search_end' = min search_end sz
      in if search_end' \<le> search_start then Done (None, pm)
         else case alloc_scan search_start search_end' len alignment
                     (om_from_prev search_start (pm_free pm)) of
                None \<Rightarrow> Done (None, pm)
              | Some (e, free_pos) \<Rightarrow>
                  if free_pos \<in> set (map fst (pm_physical pm)) then Exit
                  else Done (Some free_pos,
                    pm\<lparr>pm_free := ConsumeFreeRange e free_pos len (pm_free pm),
                       pm_physical := om_emplace free_pos
                         (new_block free_pos len memory_type pool_expansion) (pm_physical pm)\<rparr>))"

fun avail_scan :: "u64 \<Rightarrow> u64 \<Rightarrow> u64 \<Rightarrow> spans \<Rightarrow> u64 \<times> u64 \<Rightarrow> u64 \<times> u64" where
  "avail_scan search_start search_end alignment [] best = best"
| "avail_scan search_start search_end alignment (e # es) best =
    (if search_end \<le> fst e then best
     else
       let range_end = min (fst e + snd e) search_end;
           lower_bound = max (fst e) search_start
       in avail_scan search_start search_end alignment es
            (case GetAlignedPos lower_bound alignment of
               None \<Rightarrow> best
             | Some free_pos \<Rightarrow>
                 if lower_bound \<le> free_pos \<and> free_pos < range_end \<and> snd best < range_end - free_pos
                 then (free_pos, range_end - free_pos) else best))"

definition pm_Available :: "u64 \<Rightarrow> physical_memory \<Rightarrow> u64 \<Rightarrow> u64 \<Rightarrow> u64 \<Rightarrow> (u64 \<times> u64) option outcome" where
  "pm_Available flexible pm search_start search_end alignment =
    obind (pm_Size flexible) (\<lambda>sz.
      let search_end' = min search_end sz
      in if search_end' \<le> search_start then Done None
         else
           let best = avail_scan search_start search_end' alignment (pm_free pm) (0, 0)
           in if snd best = 0 then Done None else Done (Some best))"

section \<open>Release\<close>

definition pb_end :: "pm_block \<Rightarrow> u64" where
  "pb_end b = pb_start_addr b + pb_size b"

text \<open>
  The result is None for false, or the virtual range that was mapped to the released part and
  its GPU mode.
\<close>

definition pm_Release :: "physical_memory \<Rightarrow> u64 \<Rightarrow> u64 \<Rightarrow>
    (u64 \<times> u64 \<times> gpu_mode) option \<times> physical_memory" where
  "pm_Release pm start len =
    (case om_prev start (pm_physical pm) of
       None \<Rightarrow> (None, pm)
     | Some (key, b) \<Rightarrow>
         if pb_pool_expansion b \<or> start < pb_start_addr b \<or> pb_end b \<le> start \<or> pb_end b - start < len
         then (None, pm)
         else if start = pb_start_addr b \<and> len = pb_size b then
           (Some (pb_map_vaddr b, pb_map_size b, pb_gpu_mode b),
            pm\<lparr>pm_physical := om_erase key (pm_physical pm),
               pm_free := AddFreeRange start len (pm_free pm)\<rparr>)
         else if pb_start_addr b < start \<and> start + len < pb_end b then
           let right0 = b\<lparr>pb_start_addr := start + len, pb_size := pb_end b - (start + len)\<rparr>;
               right = (if pb_map_vaddr b \<noteq> 0
                        then right0\<lparr>pb_map_vaddr := pb_map_vaddr b + (start + len - pb_start_addr b),
                                    pb_map_size := pb_size right0\<rparr>
                        else right0);
               left0 = b\<lparr>pb_size := start - pb_start_addr b\<rparr>;
               left = (if pb_map_vaddr b \<noteq> 0 then left0\<lparr>pb_map_size := pb_size left0\<rparr> else left0)
           in (Some (if pb_map_vaddr b \<noteq> 0 then pb_map_vaddr b + (start - pb_start_addr b) else 0,
                     if pb_map_vaddr b \<noteq> 0 then len else 0, pb_gpu_mode b),
               pm\<lparr>pm_physical := om_emplace (start + len) right (om_assign key left (pm_physical pm)),
                  pm_free := AddFreeRange start len (pm_free pm)\<rparr>)
         else if start = pb_start_addr b \<and> len < pb_size b then
           let remaining0 = b\<lparr>pb_start_addr := pb_start_addr b + len, pb_size := pb_size b - len\<rparr>;
               remaining = (if pb_map_vaddr b \<noteq> 0
                            then remaining0\<lparr>pb_map_vaddr := pb_map_vaddr b + len,
                                            pb_map_size := pb_map_size b - len\<rparr>
                            else remaining0)
           in (Some (pb_map_vaddr b, if pb_map_vaddr b \<noteq> 0 then len else 0, pb_gpu_mode b),
               pm\<lparr>pm_physical := om_emplace (pb_start_addr remaining) remaining
                                  (om_erase key (pm_physical pm)),
                  pm_free := AddFreeRange start len (pm_free pm)\<rparr>)
         else if pb_start_addr b < start \<and> start + len = pb_end b then
           let left0 = b\<lparr>pb_size := start - pb_start_addr b\<rparr>;
               left = (if pb_map_vaddr b \<noteq> 0 then left0\<lparr>pb_map_size := pb_size left0\<rparr> else left0)
           in (Some (if pb_map_vaddr b \<noteq> 0 then pb_map_vaddr b + (start - pb_start_addr b) else 0,
                     if pb_map_vaddr b \<noteq> 0 then len else 0, pb_gpu_mode b),
               pm\<lparr>pm_physical := om_assign key left (pm_physical pm),
                  pm_free := AddFreeRange start len (pm_free pm)\<rparr>)
         else (None, pm))"

definition pm_ReleasePoolExpansion :: "physical_memory \<Rightarrow> u64 \<Rightarrow> u64 \<Rightarrow> bool \<times> physical_memory" where
  "pm_ReleasePoolExpansion pm phys_addr len =
    (case map_of (pm_physical pm) phys_addr of
       None \<Rightarrow> (False, pm)
     | Some b \<Rightarrow>
         if \<not> pb_pool_expansion b \<or> pb_size b \<noteq> len then (False, pm)
         else (True, pm\<lparr>pm_physical := om_erase phys_addr (pm_physical pm),
                        pm_free := AddFreeRange phys_addr len (pm_free pm)\<rparr>))"


section \<open>Mappings\<close>

text \<open>
  The loop that \<open>Map\<close>, \<open>CanMapDirect\<close> and \<open>GetAllocatedSpan\<close> run over
  \<open>m_physical\<close>, from \<open>current\<close> up to \<open>end\<close>. The first form only decides, the
  second collects the parts.
\<close>

definition walk_stop :: "pm_block omap \<Rightarrow> u64 \<Rightarrow> u64 \<Rightarrow> pm_block option" where
  "walk_stop m current end =
    (case om_prev current m of
       None \<Rightarrow> None
     | Some (key, b) \<Rightarrow>
         if pb_pool_expansion b \<or> current < pb_start_addr b \<or> pb_end b \<le> current then None
         else if min end (pb_end b) < end \<and>
                 (om_above current m = [] \<or>
                  pb_start_addr (snd (hd (om_above current m))) \<noteq> min end (pb_end b)) then None
         else Some b)"

lemma walk_stop_end: "walk_stop m current end = Some b \<Longrightarrow> current < pb_end b"
  by (auto simp: walk_stop_def split: option.splits if_splits prod.splits)

function direct_walk :: "pm_block omap \<Rightarrow> u64 \<Rightarrow> u64 \<Rightarrow> bool" where
  "direct_walk m current end =
    (if current < end then
       (case walk_stop m current end of
          None \<Rightarrow> False
        | Some b \<Rightarrow> direct_walk m (min end (pb_end b)) end)
     else True)"
  by pat_completeness auto
termination
  by (relation "measure (\<lambda>(m, current, end). unat (end - current))")
    (auto dest: walk_stop_end intro: walk_measure)

declare direct_walk.simps [simp del]

function span_parts :: "pm_block omap \<Rightarrow> u64 \<Rightarrow> u64 \<Rightarrow> pm_block list option" where
  "span_parts m current end =
    (if current < end then
       (case walk_stop m current end of
          None \<Rightarrow> None
        | Some b \<Rightarrow>
            map_option (\<lambda>ps. b\<lparr>pb_start_addr := current, pb_size := min end (pb_end b) - current\<rparr> # ps)
              (span_parts m (min end (pb_end b)) end))
     else Some [])"
  by pat_completeness auto
termination
  by (relation "measure (\<lambda>(m, current, end). unat (end - current))")
    (auto dest: walk_stop_end intro: walk_measure)

declare span_parts.simps [simp del]

definition pm_CanMapDirect :: "physical_memory \<Rightarrow> u64 \<Rightarrow> u64 \<Rightarrow> bool" where
  "pm_CanMapDirect pm phys_addr len \<longleftrightarrow>
     \<not> (len = 0 \<or> UINT64_MAX - phys_addr < len) \<and>
     direct_walk (pm_physical pm) phys_addr (phys_addr + len)"

definition pm_GetAllocatedSpan :: "physical_memory \<Rightarrow> u64 \<Rightarrow> u64 \<Rightarrow> pm_block list option" where
  "pm_GetAllocatedSpan pm phys_addr len =
    (if len = 0 \<or> UINT64_MAX - phys_addr < len then None
     else span_parts (pm_physical pm) phys_addr (phys_addr + len))"

definition pm_Map :: "physical_memory \<Rightarrow> u64 \<Rightarrow> u64 \<Rightarrow> u64 \<Rightarrow> i32 \<Rightarrow> host_mode \<Rightarrow> gpu_mode \<Rightarrow>
    bool \<times> physical_memory" where
  "pm_Map pm vaddr phys_addr len prot mode gpu =
    (if len = 0 \<or> UINT64_MAX - phys_addr < len then (False, pm)
     else case om_prev phys_addr (pm_physical pm) of
            None \<Rightarrow> (False, pm)
          | Some (key, first) \<Rightarrow>
              if \<not> direct_walk (pm_physical pm) phys_addr (phys_addr + len) then (False, pm)
              else
                let mapping = first\<lparr>pb_start_addr := phys_addr, pb_size := len,
                      pb_map_vaddr := vaddr, pb_map_size := len, pb_host_vaddr := vaddr,
                      pb_host_size := len, pb_prot := prot, pb_mode := mode, pb_gpu_mode := gpu\<rparr>
                in (True, pm\<lparr>pm_mappings := pm_mappings pm @ [mapping]\<rparr>))"

definition map_end :: "pm_block \<Rightarrow> u64" where
  "map_end b = pb_map_vaddr b + pb_map_size b"

text \<open>
  The loop of \<open>Unmap\<close>. The result holds the GPU mode, the host range to check for release
  when a whole mapping went away, the list with the changed element, and what is pushed to its end.
\<close>

fun unmap_scan :: "u64 \<Rightarrow> u64 \<Rightarrow> pm_block list \<Rightarrow>
    (gpu_mode \<times> (u64 \<times> u64) option \<times> pm_block list \<times> pm_block list) option" where
  "unmap_scan vaddr sz [] = None"
| "unmap_scan vaddr sz (b # bs) =
    (if pb_map_vaddr b = vaddr \<and> pb_map_size b = sz then
       Some (pb_gpu_mode b, Some (pb_host_vaddr b, pb_host_size b), bs, [])
     else if pb_map_vaddr b < vaddr \<and> vaddr + sz < map_end b then
       Some (pb_gpu_mode b, None,
         b\<lparr>pb_size := vaddr - pb_map_vaddr b, pb_map_size := vaddr - pb_map_vaddr b\<rparr> # bs,
         [b\<lparr>pb_start_addr := pb_start_addr b + ((vaddr + sz) - pb_map_vaddr b),
            pb_size := map_end b - (vaddr + sz), pb_map_size := map_end b - (vaddr + sz),
            pb_map_vaddr := vaddr + sz\<rparr>])
     else if vaddr = pb_map_vaddr b \<and> sz < pb_map_size b then
       Some (pb_gpu_mode b, None,
         b\<lparr>pb_start_addr := pb_start_addr b + sz, pb_size := pb_size b - sz,
           pb_map_vaddr := pb_map_vaddr b + sz, pb_map_size := pb_map_size b - sz\<rparr> # bs, [])
     else if pb_map_vaddr b < vaddr \<and> vaddr + sz = map_end b then
       Some (pb_gpu_mode b, None,
         b\<lparr>pb_size := vaddr - pb_map_vaddr b, pb_map_size := vaddr - pb_map_vaddr b\<rparr> # bs, [])
     else map_option (\<lambda>(g, h, bs', new). (g, h, b # bs', new)) (unmap_scan vaddr sz bs))"

text \<open>The result: None for false, or the GPU mode and \<open>host_vaddr_to_release\<close>.\<close>

definition pm_Unmap :: "physical_memory \<Rightarrow> u64 \<Rightarrow> u64 \<Rightarrow> (gpu_mode \<times> u64) option \<times> physical_memory" where
  "pm_Unmap pm vaddr sz =
    (case unmap_scan vaddr sz (pm_mappings pm) of
       None \<Rightarrow> (None, pm)
     | Some (g, host, bs, new) \<Rightarrow>
         let host_release =
               (case host of
                  None \<Rightarrow> 0
                | Some (host_vaddr, host_size) \<Rightarrow>
                    if host_vaddr = 0 \<or> host_size = 0 then 0
                    else if list_ex (\<lambda>b. pb_host_vaddr b = host_vaddr \<and> pb_host_size b = host_size) bs
                    then 0 else host_vaddr)
         in (Some (g, host_release), pm\<lparr>pm_mappings := bs @ new\<rparr>))"

definition protect_one :: "u64 \<Rightarrow> u64 \<Rightarrow> i32 \<Rightarrow> host_mode \<Rightarrow> gpu_mode \<Rightarrow> pm_block \<Rightarrow> pm_block list" where
  "protect_one vaddr sz prot mode gpu b =
    (if \<not> VirtualRangesOverlap vaddr sz (pb_map_vaddr b) (pb_map_size b) then [b]
     else
       let overlap_start = max vaddr (pb_map_vaddr b);
           overlap_end = min (vaddr + sz) (map_end b);
           middle = b\<lparr>pb_start_addr := pb_start_addr b + overlap_start - pb_map_vaddr b,
                      pb_size := overlap_end - overlap_start, pb_map_vaddr := overlap_start,
                      pb_map_size := overlap_end - overlap_start, pb_prot := prot,
                      pb_mode := mode, pb_gpu_mode := gpu\<rparr>
       in (if pb_map_vaddr b < overlap_start
           then [b\<lparr>pb_size := overlap_start - pb_map_vaddr b,
                   pb_map_size := overlap_start - pb_map_vaddr b\<rparr>] else []) @
          [middle] @
          (if overlap_end < map_end b
           then [b\<lparr>pb_start_addr := pb_start_addr b + overlap_end - pb_map_vaddr b,
                   pb_size := map_end b - overlap_end, pb_map_vaddr := overlap_end,
                   pb_map_size := map_end b - overlap_end\<rparr>] else []))"

definition pm_ProtectMapping :: "physical_memory \<Rightarrow> u64 \<Rightarrow> u64 \<Rightarrow> i32 \<Rightarrow> host_mode \<Rightarrow> gpu_mode \<Rightarrow>
    physical_memory" where
  "pm_ProtectMapping pm vaddr sz prot mode gpu =
    (if sz = 0 \<or> UINT64_MAX - vaddr < sz then pm
     else pm\<lparr>pm_mappings := concat (map (protect_one vaddr sz prot mode gpu) (pm_mappings pm))\<rparr>)"

section \<open>Queries\<close>

definition pm_FindPhys :: "physical_memory \<Rightarrow> u64 \<Rightarrow> bool \<Rightarrow> pm_block option" where
  "pm_FindPhys pm phys_addr next =
    (let following = om_above phys_addr (pm_physical pm)
     in case om_prev phys_addr (pm_physical pm) of
          Some (key, b) \<Rightarrow>
            if phys_addr < pb_end b then Some b
            else if next \<and> following \<noteq> [] then Some (snd (hd following)) else None
        | None \<Rightarrow> if next \<and> following \<noteq> [] then Some (snd (hd following)) else None)"

definition pm_FindMappings :: "physical_memory \<Rightarrow> u64 \<Rightarrow> u64 \<Rightarrow> pm_block list" where
  "pm_FindMappings pm phys_addr len =
    sort_key pb_map_vaddr
      (map (\<lambda>m. let overlap_start = max phys_addr (pb_start_addr m);
                    overlap_end = min (phys_addr + len) (pb_end m)
                in m\<lparr>pb_start_addr := overlap_start, pb_size := overlap_end - overlap_start,
                     pb_map_vaddr := pb_map_vaddr m + (overlap_start - pb_start_addr m),
                     pb_map_size := overlap_end - overlap_start\<rparr>)
        (filter (\<lambda>m. VirtualRangesOverlap phys_addr len (pb_start_addr m) (pb_size m))
          (pm_mappings pm)))"

definition pm_Find :: "physical_memory \<Rightarrow> u64 \<Rightarrow> (u64 \<times> u64 \<times> i32 \<times> host_mode \<times> gpu_mode) option" where
  "pm_Find pm vaddr =
     map_option (\<lambda>b. (pb_map_vaddr b, pb_map_size b, pb_prot b, pb_mode b, pb_gpu_mode b))
       (find (\<lambda>b. pb_map_vaddr b \<le> vaddr \<and> vaddr < map_end b) (pm_mappings pm))"

definition pm_SetVirtualRangeName :: "physical_memory \<Rightarrow> u64 \<Rightarrow> u64 \<Rightarrow> string option \<Rightarrow> physical_memory" where
  "pm_SetVirtualRangeName pm vaddr len name =
     pm\<lparr>pm_mappings := map (\<lambda>b. if VirtualRangesOverlap vaddr len (pb_map_vaddr b) (pb_map_size b)
                                then b\<lparr>pb_name := CopyVirtualRangeName name\<rparr> else b) (pm_mappings pm)\<rparr>"

definition pm_SetVirtualRangeMemoryType :: "physical_memory \<Rightarrow> u64 \<Rightarrow> u64 \<Rightarrow> i32 \<Rightarrow> physical_memory" where
  "pm_SetVirtualRangeMemoryType pm vaddr len memory_type =
     pm\<lparr>pm_mappings := map (\<lambda>b. if VirtualRangesOverlap vaddr len (pb_map_vaddr b) (pb_map_size b)
                                then b\<lparr>pb_memory_type := memory_type\<rparr> else b) (pm_mappings pm)\<rparr>"

end
