(* ===== verification/PhysicalMemorySpec.thy ===== *)
theory PhysicalMemorySpec
  imports PhysicalMemory
begin

text \<open>
  What direct memory guarantees. The invariant \<open>pm_inv\<close> says that free ranges and
  allocated blocks partition the store. Allocation is complete first fit: it fails only when no
  aligned position exists, and otherwise returns the least one. Release gives back exactly the
  released addresses, and mapping succeeds exactly on spans that are allocated throughout.
\<close>

section \<open>Invariant\<close>

definition block_spans :: "pm_block omap \<Rightarrow> spans" where
  "block_spans m = map (\<lambda>e. (fst e, pb_size (snd e))) m"

definition keyed :: "pm_block omap \<Rightarrow> bool" where
  "keyed m \<longleftrightarrow> (\<forall>e \<in> set m. pb_start_addr (snd e) = fst e)"

definition pm_inv :: "u64 \<Rightarrow> physical_memory \<Rightarrow> bool" where
  "pm_inv sz pm \<longleftrightarrow>
     separate (pm_free pm) \<and> disjoint (block_spans (pm_physical pm)) \<and> keyed (pm_physical pm) \<and>
     (\<forall>a. (sp_at (pm_free pm) a \<or> sp_at (block_spans (pm_physical pm)) a) = (a < sz)) \<and>
     (\<forall>a. \<not> (sp_at (pm_free pm) a \<and> sp_at (block_spans (pm_physical pm)) a))"

lemma block_spans_simps [simp]:
  "block_spans [] = []" "block_spans (e # m) = (fst e, pb_size (snd e)) # block_spans m"
  "block_spans (xs @ ys) = block_spans xs @ block_spans ys"
  "map fst (block_spans m) = map fst m"
  by (simp_all add: block_spans_def)

lemma keyed_simps [simp]: "keyed []" "keyed (e # m) \<longleftrightarrow> pb_start_addr (snd e) = fst e \<and> keyed m"
  "keyed (xs @ ys) \<longleftrightarrow> keyed xs \<and> keyed ys"
  by (auto simp: keyed_def)

lemma ordered_block_spans: "ordered (block_spans m) = ordered m"
  by (simp add: ordered_def)

lemma disjoint_blocks_ordered: "disjoint (block_spans m) \<Longrightarrow> ordered m"
  using disjoint_ordered [of "block_spans m"] by (simp add: ordered_block_spans)

lemma block_spans_set: "f \<in> set (block_spans m) \<longleftrightarrow> (\<exists>e \<in> set m. f = (fst e, pb_size (snd e)))"
  by (auto simp: block_spans_def)

lemma pm_init_inv: "pm_Size flexible = Done sz \<Longrightarrow> \<exists>pm. pm_init flexible = Done pm \<and> pm_inv sz pm"
  using u64_less [of sz]
  by (auto simp: pm_init_def pm_Size_def pm_inv_def om_emplace_def om_below_def om_from_def
      separate_Cons span_ok_def in_range_def fits_unat split: if_splits)

section \<open>Alignment\<close>

lemma nat_align_least:
  fixes x y n :: nat
  assumes "0 < n" and "x \<le> y" and "y mod n = 0" and "x mod n \<noteq> 0"
  shows "x + (n - x mod n) \<le> y"
proof -
  have y: "y = n * (y div n)" using assms(3) by auto
  have x: "x = n * (x div n) + x mod n" by simp
  have "n * (x div n) < n * (y div n)" using assms(2,4) x y by linarith
  then have "x div n + 1 \<le> y div n" using assms(1) by simp
  then have "n * (x div n + 1) \<le> n * (y div n)" by (rule mult_le_mono2)
  define d where "d = n * (x div n)"
  have "x = d + x mod n" "x mod n < n" using x mod_less_divisor [OF assms(1)] by (simp_all add: d_def)
  moreover have "d + n \<le> y" using \<open>n * (x div n + 1) \<le> n * (y div n)\<close> y by (simp add: d_def)
  ultimately show ?thesis by linarith
qed

definition aligned :: "u64 \<Rightarrow> u64 \<Rightarrow> bool" where
  "aligned alignment p \<longleftrightarrow> alignment = 0 \<or> p mod alignment = 0"

lemma GetAlignedPos_Some:
  assumes "GetAlignedPos pos al = Some p"
  shows "pos \<le> p" and "aligned al p" and "\<And>q. pos \<le> q \<Longrightarrow> aligned al q \<Longrightarrow> p \<le> q"
proof -
  have "pos \<le> p \<and> aligned al p \<and> (\<forall>q. pos \<le> q \<and> aligned al q \<longrightarrow> p \<le> q)"
  proof (cases "al = 0 \<or> pos mod al = 0")
    case True
    then have "p = pos"
      using assms by (cases "al = 0") (simp_all add: GetAlignedPos_def Let_def mod_eq_0_iff_dvd)
    then show ?thesis using True by (auto simp: aligned_def)
  next
    case False
    then have n: "0 < unat al" using unat_eq_0 [of al] by auto
    have r: "unat pos mod unat al \<noteq> 0"
      using False by (metis unat_mod unat_eq_0)
    have "pos mod al \<le> al" using n by (simp add: word_le_nat_alt unat_mod less_imp_le)
    then have inc: "unat (al - pos mod al) = unat al - unat pos mod unat al"
      by (simp add: unat_sub unat_mod)
    have f: "fits pos (al - pos mod al)" and p: "p = pos + (al - pos mod al)"
      using assms False by (auto simp: GetAlignedPos_def Let_def not_fits split: if_splits)
    have up: "unat p = unat pos + (unat al - unat pos mod unat al)"
      using unat_add_fits [OF f] p inc by simp
    have "unat p = unat al * (unat pos div unat al + 1)"
    proof -
      define d where "d = unat al * (unat pos div unat al)"
      have "unat pos = d + unat pos mod unat al" by (simp add: d_def)
      then have "unat p = d + unat al" using up mod_less_divisor [OF n, of "unat pos"] by linarith
      then show ?thesis by (simp add: d_def)
    qed
    then have "unat (p mod al) = 0" by (simp add: unat_mod)
    then have "p mod al = 0" using unat_eq_0 by blast
    moreover have "p \<le> q" if "pos \<le> q" "aligned al q" for q
    proof -
      have "unat q mod unat al = 0" using that(2) False by (metis aligned_def unat_0 unat_mod)
      then show ?thesis
        using nat_align_least [OF n _ _ r, of "unat q"] that(1) up by (simp add: word_le_nat_alt)
    qed
    moreover have "pos \<le> p" using up by (simp add: word_le_nat_alt)
    ultimately show ?thesis by (simp add: aligned_def)
  qed
  then show "pos \<le> p" "aligned al p" "\<And>q. pos \<le> q \<Longrightarrow> aligned al q \<Longrightarrow> p \<le> q" by auto
qed

lemma GetAlignedPos_None:
  assumes "GetAlignedPos pos al = None" and "pos \<le> q"
  shows "\<not> aligned al q"
proof
  assume a: "aligned al q"
  have c: "al \<noteq> 0" "pos mod al \<noteq> 0" and nf: "\<not> fits pos (al - pos mod al)"
    using assms(1) by (auto simp: GetAlignedPos_def Let_def not_fits split: if_splits)
  have n: "0 < unat al" using c(1) unat_eq_0 [of al] by auto
  have r: "unat pos mod unat al \<noteq> 0" using c(2) by (metis unat_mod unat_eq_0)
  have "pos mod al \<le> al" using n by (simp add: word_le_nat_alt unat_mod less_imp_le)
  then have "unat (al - pos mod al) = unat al - unat pos mod unat al"
    by (simp add: unat_sub unat_mod)
  then have "2 ^ 64 \<le> unat pos + (unat al - unat pos mod unat al)" using nf by (simp add: fits_unat)
  moreover have "unat q mod unat al = 0" using a c(1) by (metis aligned_def unat_0 unat_mod)
  ultimately have "2 ^ 64 \<le> unat q"
    using nat_align_least [OF n _ _ r, of "unat q"] assms(2) by (simp add: word_le_nat_alt)
  then show False using u64_less [of q] by simp
qed

section \<open>First fit\<close>

text \<open>A position where a block of the requested length and alignment could go.\<close>

definition candidate :: "u64 \<Rightarrow> u64 \<Rightarrow> u64 \<Rightarrow> u64 \<Rightarrow> (u64 \<Rightarrow> bool) \<Rightarrow> u64 \<Rightarrow> bool" where
  "candidate search_start search_end len alignment free q \<longleftrightarrow>
     search_start \<le> q \<and> fits q len \<and> q + len \<le> search_end \<and> aligned alignment q \<and>
     (\<forall>a. in_range q len a \<longrightarrow> free a)"

lemma alloc_fit_Some:
  assumes e: "span_ok e" and r: "alloc_fit ss se len al e = Some p"
  shows "fst e \<le> p" "ss \<le> p" "fits p len" "p + len \<le> se" "p + len \<le> fst e + snd e" "aligned al p"
    and "\<And>q. fst e \<le> q \<Longrightarrow> ss \<le> q \<Longrightarrow> aligned al q \<Longrightarrow> p \<le> q"
proof -
  define t where "t = min (fst e + snd e) se"
  define l where "l = max (fst e) ss"
  have g: "GetAlignedPos l al = Some p" and pt: "p \<le> t" "len \<le> t - p"
    using r by (auto simp: alloc_fit_def Let_def simp flip: t_def l_def split: option.splits if_splits)
  note a = GetAlignedPos_Some [OF g]
  have "fits p len \<and> p + len \<le> t" using size_le_room [OF pt(1)] pt(2) by simp
  then show "fits p len" "p + len \<le> se" "p + len \<le> fst e + snd e" by (auto simp: t_def)
  show "fst e \<le> p" "ss \<le> p" using a(1) by (auto simp: l_def)
  show "aligned al p" by (rule a(2))
  show "\<And>q. fst e \<le> q \<Longrightarrow> ss \<le> q \<Longrightarrow> aligned al q \<Longrightarrow> p \<le> q" using a(3) by (simp add: l_def)
qed

lemma alloc_fit_None:
  assumes e: "span_ok e" and r: "alloc_fit ss se len al e = None"
    and q: "fst e \<le> q" "ss \<le> q" "fits q len" "q + len \<le> se" "q + len \<le> fst e + snd e" "aligned al q"
  shows False
proof -
  define t where "t = min (fst e + snd e) se"
  define l where "l = max (fst e) ss"
  have lq: "l \<le> q" using q by (simp add: l_def)
  have qt: "q + len \<le> t" using q by (simp add: t_def)
  show False
  proof (cases "GetAlignedPos l al")
    case None
    then show ?thesis using GetAlignedPos_None [OF None lq] q(6) by simp
  next
    case (Some p)
    note a = GetAlignedPos_Some [OF Some]
    have pq: "p \<le> q" using a(3) lq q(6) by simp
    have fp: "fits p len" using q(3) pq by (simp add: fits_unat word_le_nat_alt)
    have pl: "p + len \<le> q + len"
      using pq unat_add_fits [OF fp] unat_add_fits [OF q(3)] by (simp add: word_le_nat_alt)
    then have "p + len \<le> t" using qt by (rule order_trans)
    moreover from this have "p \<le> t" using fits_le [OF fp] by (rule order_trans [rotated])
    ultimately have "len \<le> t - p" using size_le_room fp by blast
    then show ?thesis
      using r a(1) \<open>p \<le> t\<close> Some
      by (auto simp: alloc_fit_def Let_def simp flip: t_def l_def split: if_splits)
  qed
qed

lemma alloc_scan_Some:
  "disjoint es \<Longrightarrow> alloc_scan ss se len al es = Some (e, p) \<Longrightarrow>
    e \<in> set es \<and> alloc_fit ss se len al e = Some p \<and>
    (\<forall>x \<in> set es. fst x < fst e \<longrightarrow> alloc_fit ss se len al x = None)"
proof (induction es)
  case (Cons x es)
  have lt: "fst x < fst y" if "y \<in> set es" for y
    using disjoint_ordered [OF Cons.prems(1)] that by (simp add: ordered_Cons)
  have d: "disjoint es" using Cons.prems(1) by (simp add: disjoint_Cons)
  show ?case
  proof (cases "alloc_fit ss se len al x")
    case None
    then show ?thesis using Cons.prems(2) Cons.IH [OF d] by (auto split: if_splits)
  next
    case (Some q)
    then have "e = x \<and> p = q" using Cons.prems(2) by (auto split: if_splits)
    then show ?thesis using Some lt by (auto dest: lt)
  qed
qed simp

lemma alloc_scan_None:
  "disjoint es \<Longrightarrow> alloc_scan ss se len al es = None \<Longrightarrow> x \<in> set es \<Longrightarrow>
    alloc_fit ss se len al x = None \<or> se \<le> fst x"
proof (induction es)
  case (Cons y es)
  have lt: "fst y < fst z" if "z \<in> set es" for z
    using disjoint_ordered [OF Cons.prems(1)] that by (simp add: ordered_Cons)
  show ?case
  proof (cases "se \<le> fst y")
    case True
    have "fst y \<le> fst x" using Cons.prems(3) lt [of x] by (cases "x = y") auto
    with True show ?thesis by (blast intro: order_trans)
  next
    case False
    then show ?thesis using Cons by (auto simp: disjoint_Cons split: option.splits)
  qed
qed simp


lemma om_from_prev_split:
  assumes "ordered m"
  shows "\<exists>xs. m = xs @ om_from_prev k m \<and>
    (xs \<noteq> [] \<longrightarrow> om_from_prev k m \<noteq> [] \<and> fst (hd (om_from_prev k m)) \<le> k)"
proof (cases "om_prev k m")
  case None
  then show ?thesis by (simp add: om_from_prev_def)
next
  case (Some e)
  then show ?thesis
    using om_prev_split [OF assms Some] by (auto simp: om_from_prev_def)
qed

lemma disjoint_before:
  assumes "disjoint (xs @ es)" and "es \<noteq> []" and "fst (hd es) \<le> k" and "x \<in> set xs"
  shows "fst x + snd x \<le> k"
proof -
  have "fst x + snd x \<le> fst (hd es)" using assms(1,2,4) by (auto simp: disjoint_append)
  then show ?thesis using assms(3) by (rule order_trans)
qed

lemma candidate_entry:
  assumes m: "separate m" and len: "len \<noteq> 0" and c: "candidate ss se len al (sp_at m) q"
  shows "\<exists>x \<in> set (om_from_prev ss m). fst x \<le> q \<and> q + len \<le> fst x + snd x \<and> fst x < se"
proof -
  have q: "ss \<le> q" "fits q len" "q + len \<le> se" "\<And>a. in_range q len a \<Longrightarrow> sp_at m a"
    using c by (auto simp: candidate_def)
  have o: "ordered m" by (rule disjoint_ordered [OF separate_disjoint [OF m]])
  obtain xs e ys where e: "m = xs @ e # ys" "fst e \<le> q" "q + len \<le> fst e + snd e"
    using span_in_one [OF m q(2) len q(4)] by blast
  have lt: "q < q + len" using q(2) len by (rule fits_less)
  obtain zs where zs: "m = zs @ om_from_prev ss m"
    "zs \<noteq> [] \<longrightarrow> om_from_prev ss m \<noteq> [] \<and> fst (hd (om_from_prev ss m)) \<le> ss"
    using om_from_prev_split [OF o] by blast
  have "e \<in> set (om_from_prev ss m)"
  proof (rule ccontr)
    assume "e \<notin> set (om_from_prev ss m)"
    then have "e \<in> set zs" using zs(1) e(1) by (metis in_set_conv_decomp set_append Un_iff)
    moreover from this have "zs \<noteq> []" by auto
    moreover have "disjoint (zs @ om_from_prev ss m)" using m zs(1) by (simp add: separate_disjoint)
    ultimately have "fst e + snd e \<le> ss" using disjoint_before zs(2) by blast
    then show False using q(1) e(3) lt by (meson leD order.strict_trans2 order_trans)
  qed
  moreover have "fst e < se" using e(2) lt q(3) by (meson order.strict_trans1 order.strict_trans2)
  ultimately show ?thesis using e by blast
qed

lemma alloc_scan_props:
  assumes m: "separate m" and len: "len \<noteq> 0"
    and r: "r = alloc_scan ss se len al (om_from_prev ss m)"
  shows "r = None \<Longrightarrow> \<not> candidate ss se len al (sp_at m) q"
    and "r = Some (e, p) \<Longrightarrow> e \<in> set m \<and> fst e \<le> p \<and> p + len \<le> fst e + snd e \<and>
      candidate ss se len al (sp_at m) p \<and> (\<forall>q. candidate ss se len al (sp_at m) q \<longrightarrow> p \<le> q)"
proof -
  have o: "ordered m" by (rule disjoint_ordered [OF separate_disjoint [OF m]])
  define es where "es = om_from_prev ss m"
  obtain zs where zs: "m = zs @ es" using om_from_prev_split [OF o] es_def by blast
  have d: "disjoint es" using separate_disjoint [OF m] by (simp add: zs disjoint_append)
  have ok: "span_ok x" if "x \<in> set es" for x using disjoint_ok [OF d that] .
  have fit: "\<exists>x \<in> set es. fst x < se \<and> alloc_fit ss se len al x \<noteq> None \<and> fst x \<le> q \<and> q + len \<le> fst x + snd x"
    if c: "candidate ss se len al (sp_at m) q" for q
  proof -
    obtain x where x: "x \<in> set es" "fst x \<le> q" "q + len \<le> fst x + snd x" "fst x < se"
      using candidate_entry [OF m len c] es_def by blast
    have "alloc_fit ss se len al x \<noteq> None"
      using alloc_fit_None [OF ok [OF x(1)] _ x(2) _ _ _ x(3)] c by (auto simp: candidate_def)
    then show ?thesis using x by blast
  qed
  show "\<not> candidate ss se len al (sp_at m) q" if "r = None"
  proof
    assume "candidate ss se len al (sp_at m) q"
    then obtain x where x: "x \<in> set es" "fst x < se" "alloc_fit ss se len al x \<noteq> None"
      using fit by blast
    have "alloc_scan ss se len al es = None" using that by (simp add: r es_def)
    then have "alloc_fit ss se len al x = None \<or> se \<le> fst x" using alloc_scan_None [OF d] x(1) by blast
    then show False using x by auto
  qed
  assume "r = Some (e, p)"
  then have s: "e \<in> set es" "alloc_fit ss se len al e = Some p"
    "\<forall>x \<in> set es. fst x < fst e \<longrightarrow> alloc_fit ss se len al x = None"
    using alloc_scan_Some [OF d] by (auto simp: r es_def)
  note a = alloc_fit_Some [OF ok [OF s(1)] s(2)]
  have em: "e \<in> set m" using s(1) by (simp add: zs)
  have "sp_at m b" if "in_range p len b" for b
  proof -
    have "in_range (fst e) (snd e) b"
      using that a(1,5) unfolding in_range_def by (blast intro: order_trans order.strict_trans2)
    then show ?thesis using em by (auto simp: sp_at_def)
  qed
  then have "candidate ss se len al (sp_at m) p" using a by (simp add: candidate_def)
  moreover have "p \<le> q" if c: "candidate ss se len al (sp_at m) q" for q
  proof -
    have "\<exists>x. x \<in> set es \<and> alloc_fit ss se len al x \<noteq> None \<and> fst x \<le> q"
      using fit [OF c] by blast
    then obtain x where x: "x \<in> set es" "alloc_fit ss se len al x \<noteq> None" "fst x \<le> q"
      by (elim exE conjE) (rule that)
    have "fst e \<le> fst x" using s(3) x(1,2) by (meson not_le)
    then have "fst e \<le> q" using x(3) by (rule order_trans)
    then show ?thesis using a(7) c by (simp add: candidate_def)
  qed
  ultimately show "e \<in> set m \<and> fst e \<le> p \<and> p + len \<le> fst e + snd e \<and>
      candidate ss se len al (sp_at m) p \<and> (\<forall>q. candidate ss se len al (sp_at m) q \<longrightarrow> p \<le> q)"
    using em a by blast
qed


section \<open>Allocation and release keep the partition\<close>

definition phys_at :: "physical_memory \<Rightarrow> u64 \<Rightarrow> bool" where
  "phys_at pm a = sp_at (block_spans (pm_physical pm)) a"

definition phys_free :: "physical_memory \<Rightarrow> u64 \<Rightarrow> bool" where
  "phys_free pm a = sp_at (pm_free pm) a"

lemma pm_inv_D:
  assumes "pm_inv sz pm"
  shows "separate (pm_free pm)" "disjoint (block_spans (pm_physical pm))" "keyed (pm_physical pm)"
    "phys_free pm a \<or> phys_at pm a \<longleftrightarrow> a < sz" "\<not> (phys_free pm a \<and> phys_at pm a)"
    "ordered (pm_physical pm)"
  using assms disjoint_blocks_ordered by (auto simp: pm_inv_def phys_at_def phys_free_def)

lemma pm_invI:
  assumes "separate (pm_free pm)" "disjoint (block_spans (pm_physical pm))" "keyed (pm_physical pm)"
    "\<And>a. phys_free pm a \<or> phys_at pm a \<longleftrightarrow> a < sz" "\<And>a. \<not> (phys_free pm a \<and> phys_at pm a)"
  shows "pm_inv sz pm"
  using assms by (auto simp: pm_inv_def phys_at_def phys_free_def)

text \<open>Splitting the blocks at a key that no block has.\<close>

lemma om_split_key:
  assumes "ordered m" and "k \<notin> set (map fst m)"
  shows "\<exists>xs ys. m = xs @ ys \<and> (\<forall>x \<in> set xs. fst x < k) \<and> (\<forall>y \<in> set ys. k < fst y) \<and>
    (\<forall>v. om_emplace k v m = xs @ (k, v) # ys)"
proof -
  have x: "\<forall>x \<in> set (om_below k m). fst x < k" using om_below_less by blast
  have y: "\<forall>y \<in> set (om_from k m). k < fst y"
  proof
    fix y assume y: "y \<in> set (om_from k m)"
    then have "k \<le> fst y" using om_from_ge [OF assms(1)] by blast
    moreover have "y \<in> set m" using y om_below_from [of m k] by (metis Un_iff set_append)
    then have "fst y \<noteq> k" using assms(2) by auto
    ultimately show "k < fst y" by simp
  qed
  show ?thesis
    using om_below_from [of m k] om_emplace_eq [OF x y] x y by metis
qed

lemma pm_Alloc_props:
  assumes inv: "pm_inv sz pm" and sz: "pm_Size fl = Done sz" and len: "len \<noteq> 0"
  shows "\<exists>r pm'. pm_Alloc fl pm ss se len al mt pe = Done (r, pm') \<and> pm_inv sz pm' \<and>
    (case r of
       None \<Rightarrow> pm' = pm \<and> (\<forall>q. \<not> candidate ss (min se sz) len al (phys_free pm) q)
     | Some p \<Rightarrow>
         candidate ss (min se sz) len al (phys_free pm) p \<and>
         (\<forall>q. candidate ss (min se sz) len al (phys_free pm) q \<longrightarrow> p \<le> q) \<and>
         map_of (pm_physical pm') p = Some (new_block p len mt pe) \<and>
         (\<forall>a. phys_at pm' a \<longleftrightarrow> phys_at pm a \<or> in_range p len a) \<and>
         (\<forall>a. phys_free pm' a \<longleftrightarrow> phys_free pm a \<and> \<not> in_range p len a))"
proof -
  note I = pm_inv_D [OF inv]
  define t where "t = min se sz"
  have pf: "sp_at (pm_free pm) = phys_free pm" by (simp add: fun_eq_iff phys_free_def)
  define r where "r = alloc_scan ss t len al (om_from_prev ss (pm_free pm))"
  note sc = alloc_scan_props [OF I(1) len r_def, unfolded pf]
  have A: "pm_Alloc fl pm ss se len al mt pe = (if t \<le> ss then Done (None, pm)
      else case r of None \<Rightarrow> Done (None, pm)
           | Some (e, p) \<Rightarrow> if p \<in> set (map fst (pm_physical pm)) then Exit
               else Done (Some p, pm\<lparr>pm_free := ConsumeFreeRange e p len (pm_free pm),
                  pm_physical := om_emplace p (new_block p len mt pe) (pm_physical pm)\<rparr>))"
    by (simp add: pm_Alloc_def sz t_def r_def Let_def)
  show ?thesis
  proof (cases "t \<le> ss \<or> r = None")
    case True
    have "\<not> candidate ss t len al (phys_free pm) q" for q
    proof
      assume c: "candidate ss t len al (phys_free pm) q"
      then have "ss < t"
        using fits_less [of q len] len by (auto simp: candidate_def intro: order.strict_trans1 order.strict_trans2)
      then show False using True sc(1) c by auto
    qed
    then show ?thesis using True inv unfolding A t_def [symmetric] by auto
  next
    case False
    then obtain e p where rp: "r = Some (e, p)" and ts: "\<not> t \<le> ss" by (cases r) auto
    note s = sc(2) [OF rp]
    have c: "fits p len" "\<And>a. in_range p len a \<Longrightarrow> phys_free pm a"
      using s by (auto simp: candidate_def)
    have notp: "\<not> phys_at pm a" if "in_range p len a" for a using I(5) c(2) [OF that] by blast
    have pin: "in_range p len p" using fits_less [OF c(1) len] by (simp add: in_range_def)
    have nk: "p \<notin> set (map fst (pm_physical pm))"
    proof
      assume "p \<in> set (map fst (pm_physical pm))"
      then have "p \<in> fst ` set (block_spans (pm_physical pm))" by (auto simp: block_spans_def image_iff)
      then obtain f where "f \<in> set (block_spans (pm_physical pm))" "fst f = p" by blast
      then have "phys_at pm p"
        using disjoint_ok [OF I(2)] span_less unfolding phys_at_def sp_at_def in_range_def by blast
      then show False using notp pin by blast
    qed
    obtain xs ys where xy: "pm_physical pm = xs @ ys" "\<forall>x \<in> set xs. fst x < p" "\<forall>y \<in> set ys. p < fst y"
      "\<And>v. om_emplace p v (pm_physical pm) = xs @ (p, v) # ys"
      using om_split_key [OF I(6) nk] by blast
    define pm' where "pm' = pm\<lparr>pm_free := ConsumeFreeRange e p len (pm_free pm),
        pm_physical := xs @ (p, new_block p len mt pe) # ys\<rparr>"
    obtain us vs where uv: "pm_free pm = us @ e # vs" using s by (meson split_list)
    have fe: "fst e \<le> p" "p + len \<le> fst e + snd e" using s by auto
    note cf = ConsumeFreeRange_eq [OF I(1) [unfolded uv] fe(1) c(1) len fe(2)]
      and cp = cut_props [OF I(1) [unfolded uv] fe(1) c(1) len fe(2)]
    have free': "separate (pm_free pm')" "\<And>a. phys_free pm' a \<longleftrightarrow> phys_free pm a \<and> \<not> in_range p len a"
      using cf cp by (simp_all add: pm'_def phys_free_def uv)
    have at': "phys_at pm' a \<longleftrightarrow> phys_at pm a \<or> in_range p len a" for a
      by (auto simp: pm'_def phys_at_def xy(1) new_block_def)
    have "\<forall>x \<in> set (block_spans xs). fst x < p" "\<forall>y \<in> set (block_spans ys). p < fst y"
      using xy(2,3) by (simp_all add: block_spans_def)
    then have d': "disjoint (block_spans (pm_physical pm'))"
      using disjoint_insert [of "block_spans xs" "block_spans ys" p len] I(2) xy c(1) len notp
      by (simp add: pm'_def xy(1) new_block_def phys_at_def)
    have inv': "pm_inv sz pm'"
    proof (rule pm_invI [OF free'(1) d'])
      show "keyed (pm_physical pm')" using I(3) by (simp add: pm'_def xy(1) new_block_def)
      show "phys_free pm' a \<or> phys_at pm' a \<longleftrightarrow> a < sz" for a
        using I(4) [of a] c(2) [of a] free'(2) [of a] at' [of a] by blast
      show "\<not> (phys_free pm' a \<and> phys_at pm' a)" for a
        using I(5) [of a] free'(2) [of a] at' [of a] by blast
    qed
    have "map_of (pm_physical pm') p = Some (new_block p len mt pe)"
    proof -
      have "map_of xs p = None" using xy(2) by (auto simp: map_of_eq_None_iff)
      then show ?thesis by (simp add: pm'_def map_add_def)
    qed
    moreover have "pm_Alloc fl pm ss se len al mt pe = Done (Some p, pm')"
      using ts nk unfolding A rp by (simp add: pm'_def xy(4))
    ultimately show ?thesis
      using inv' s at' free'(2) unfolding t_def by simp
  qed
qed


lemma om_assign_emplace:
  assumes "ordered (xs @ (k, b) # ys)" and "k < j" and "\<forall>y \<in> set ys. j < fst y"
  shows "om_emplace j r (om_assign k l (xs @ (k, b) # ys)) = xs @ (k, l) # (j, r) # ys"
proof -
  have 1: "om_assign k l (xs @ (k, b) # ys) = xs @ (k, l) # ys"
    using om_assign_eq [OF assms(1)] by simp
  have "\<forall>x \<in> set (xs @ [(k, l)]). fst x < j"
    using assms(1,2) by (auto simp: ordered_append intro: order.strict_trans)
  then have "om_emplace j r ((xs @ [(k, l)]) @ ys) = (xs @ [(k, l)]) @ (j, r) # ys"
    by (rule om_emplace_eq) (rule assms(3))
  then show ?thesis unfolding 1 by simp
qed

lemma om_erase_emplace:
  assumes "ordered (xs @ (k, b) # ys)" and "k \<le> j" and "\<forall>y \<in> set ys. j < fst y"
  shows "om_emplace j r (om_erase k (xs @ (k, b) # ys)) = xs @ (j, r) # ys"
proof -
  have "om_erase k (xs @ (k, b) # ys) = xs @ ys" using om_erase_eq [OF assms(1)] by simp
  moreover have "\<forall>x \<in> set xs. fst x < j"
    using assms(1,2) by (auto simp: ordered_append intro: order.strict_trans2)
  ultimately show ?thesis using om_emplace_eq assms(3) by metis
qed

text \<open>A span inside one block that is not a pool expansion.\<close>

definition releasable :: "physical_memory \<Rightarrow> u64 \<Rightarrow> u64 \<Rightarrow> bool" where
  "releasable pm s len \<longleftrightarrow> (\<exists>e \<in> set (pm_physical pm). \<not> pb_pool_expansion (snd e) \<and>
     fst e \<le> s \<and> s < pb_end (snd e) \<and> fits s len \<and> s + len \<le> pb_end (snd e))"

lemma pm_Release_blocks:
  assumes o: "ordered (xs @ (k, b) # ys)" and ph: "pm_physical pm = xs @ (k, b) # ys"
    and kb: "pb_start_addr b = k" and np: "\<not> pb_pool_expansion b"
    and s: "k \<le> s" "fits s len" "len \<noteq> 0" "s + len \<le> k + pb_size b" "fits k (pb_size b)"
    and ys: "\<forall>y \<in> set ys. k + pb_size b \<le> fst y"
  shows "\<exists>ps. fst (pm_Release pm s len) \<noteq> None \<and>
    snd (pm_Release pm s len) = pm\<lparr>pm_physical := xs @ ps @ ys,
             pm_free := AddFreeRange s len (pm_free pm)\<rparr> \<and>
    block_spans ps = left_part (k, pb_size b) s @ right_part (k, pb_size b) (s + len) \<and> keyed ps \<and>
    (\<forall>p \<in> set ps. pb_memory_type (snd p) = pb_memory_type b \<and> \<not> pb_pool_expansion (snd p))"
proof -
  have e: "pb_end b = k + pb_size b" by (simp add: pb_end_def kb)
  have lt: "s < s + len" using s(2,3) by (rule fits_less)
  have sl: "s < k + pb_size b" using lt s(4) by (rule order.strict_trans2)
  have room: "len \<le> k + pb_size b - s"
    using size_le_room [of s "k + pb_size b" len] sl s(2,4) by simp
  have prev: "om_prev s (pm_physical pm) = Some (k, b)"
    unfolding ph by (rule om_prev_eq [OF o]) (use s ys sl in \<open>auto intro: order.strict_trans2\<close>)
  have g: "\<not> (pb_pool_expansion b \<or> s < pb_start_addr b \<or> pb_end b \<le> s \<or> pb_end b - s < len)"
    using np kb s(1) sl room by (auto simp: e not_less)
  have yl: "\<forall>y \<in> set ys. s + len < fst y" if "s + len < k + pb_size b"
    using ys that by (auto intro: order.strict_trans2)
  have yb: "\<forall>y \<in> set ys. k < fst y" using o by (auto simp: ordered_append ordered_Cons)
  have ex: "k + len = k + pb_size b \<longleftrightarrow> len = pb_size b" by simp
  have szd: "len < pb_size b \<longleftrightarrow> s + len < k + pb_size b" if "s = k"
    using unat_add_fits [OF s(5)] unat_add_fits [OF s(2)] that by (simp add: word_less_nat_alt)
  note R = pm_Release_def [of pm s len, unfolded prev option.case prod.case, unfolded if_not_P [OF g], unfolded kb e]
  consider (all) "s = k" "len = pb_size b" | (mid) "k < s" "s + len < k + pb_size b"
    | (front) "s = k" "s + len < k + pb_size b" "len < pb_size b" | (tail) "k < s" "s + len = k + pb_size b"
  proof (cases "s = k")
    case True
    then show ?thesis using that szd s(4) by (cases "s + len = k + pb_size b") auto
  next
    case False
    then show ?thesis using that s(1,4) by (cases "s + len = k + pb_size b") auto
  qed
  then show ?thesis
  proof cases
    case all
    then show ?thesis
      using om_erase_eq [OF o] unfolding R
      by (intro exI [of _ "[]"]) (simp add: ph left_part_def right_part_def)
  next
    case mid
    define right0 where "right0 = b\<lparr>pb_start_addr := s + len, pb_size := k + pb_size b - (s + len)\<rparr>"
    define right where "right = (if pb_map_vaddr b \<noteq> 0
      then right0\<lparr>pb_map_vaddr := pb_map_vaddr b + (s + len - k), pb_map_size := pb_size right0\<rparr> else right0)"
    define left where "left = (if pb_map_vaddr b \<noteq> 0
      then b\<lparr>pb_size := s - k, pb_map_size := s - k\<rparr> else b\<lparr>pb_size := s - k\<rparr>)"
    have ne: "s \<noteq> k" using mid by auto
    have "k < s + len" using mid lt by (auto intro: order.strict_trans)
    note om = om_assign_emplace [OF o this yl [OF mid(2)], of right left]
    have "snd (pm_Release pm s len) = pm\<lparr>pm_physical := om_emplace (s + len) right
          (om_assign k left (pm_physical pm)), pm_free := AddFreeRange s len (pm_free pm)\<rparr>"
      using mid ne unfolding R by (simp add: Let_def right_def right0_def left_def)
    moreover have "fst (pm_Release pm s len) \<noteq> None" using mid ne unfolding R by (simp add: Let_def)
    moreover have "pb_size left = s - k \<and> pb_start_addr left = k \<and> pb_size right = k + pb_size b - (s + len) \<and>
        pb_start_addr right = s + len \<and> pb_memory_type left = pb_memory_type b \<and>
        pb_memory_type right = pb_memory_type b \<and> \<not> pb_pool_expansion left \<and> \<not> pb_pool_expansion right"
      using np kb by (simp add: left_def right_def right0_def)
    ultimately show ?thesis using mid
      by (intro exI [of _ "[(k, left), (s + len, right)]"]) (simp add: ph om left_part_def right_part_def)
  next
    case front
    define rem0 where "rem0 = b\<lparr>pb_start_addr := k + len, pb_size := pb_size b - len\<rparr>"
    define rem where "rem = (if pb_map_vaddr b \<noteq> 0
      then rem0\<lparr>pb_map_vaddr := pb_map_vaddr b + len, pb_map_size := pb_map_size b - len\<rparr> else rem0)"
    have nm: "\<not> (k = s \<and> len = pb_size b)" using front(3) by auto
    have "k \<le> s + len" using front lt by simp
    note om = om_erase_emplace [OF o this yl [OF front(2)], of rem]
    have "snd (pm_Release pm s len) = pm\<lparr>pm_physical := om_emplace (s + len) rem
          (om_erase k (pm_physical pm)), pm_free := AddFreeRange s len (pm_free pm)\<rparr>"
      using front nm unfolding R by (simp add: Let_def rem_def rem0_def)
    moreover have "fst (pm_Release pm s len) \<noteq> None" using front nm unfolding R by (simp add: Let_def)
    moreover have "pb_size rem = k + pb_size b - (s + len) \<and> pb_start_addr rem = s + len \<and>
        pb_memory_type rem = pb_memory_type b \<and> \<not> pb_pool_expansion rem"
      using np front(1) by (simp add: rem_def rem0_def)
    ultimately show ?thesis using front
      by (intro exI [of _ "[(s + len, rem)]"]) (simp add: ph om [unfolded front(1)] left_part_def right_part_def)
  next
    case tail
    define left where "left = (if pb_map_vaddr b \<noteq> 0
      then b\<lparr>pb_size := s - k, pb_map_size := s - k\<rparr> else b\<lparr>pb_size := s - k\<rparr>)"
    have ne: "s \<noteq> k" using tail by auto
    have "snd (pm_Release pm s len) = pm\<lparr>pm_physical := om_assign k left (pm_physical pm),
        pm_free := AddFreeRange s len (pm_free pm)\<rparr>"
      using tail ne unfolding R by (simp add: Let_def left_def)
    moreover have "fst (pm_Release pm s len) \<noteq> None" using tail ne unfolding R by (simp add: Let_def)
    moreover have "pb_size left = s - k \<and> pb_start_addr left = k \<and>
        pb_memory_type left = pb_memory_type b \<and> \<not> pb_pool_expansion left"
      using np kb by (simp add: left_def)
    moreover have "om_assign k left (xs @ (k, b) # ys) = xs @ (k, left) # ys"
      using om_assign_eq [OF o] by simp
    ultimately show ?thesis using tail
      by (intro exI [of _ "[(k, left)]"]) (simp add: ph left_part_def right_part_def)
  qed
qed

text \<open>
  Attributes of an allocated address: its memory type and whether it belongs to the pool.
\<close>

definition phys_attr :: "pm_block omap \<Rightarrow> u64 \<Rightarrow> (i32 \<times> bool) option" where
  "phys_attr m a = map_option (\<lambda>e. (pb_memory_type (snd e), pb_pool_expansion (snd e)))
     (find (\<lambda>e. in_range (fst e) (pb_size (snd e)) a) m)"

lemma phys_attr_simps [simp]:
  "phys_attr [] a = None"
  "phys_attr (e # m) a = (if in_range (fst e) (pb_size (snd e)) a
     then Some (pb_memory_type (snd e), pb_pool_expansion (snd e)) else phys_attr m a)"
  by (simp_all add: phys_attr_def)

lemma phys_attr_append:
  "phys_attr (xs @ ys) a = (case phys_attr xs a of None \<Rightarrow> phys_attr ys a | Some v \<Rightarrow> Some v)"
  by (induction xs) auto

lemma phys_attr_None: "phys_attr m a = None \<longleftrightarrow> \<not> sp_at (block_spans m) a"
  by (induction m) auto

lemma phys_attr_same:
  assumes "\<forall>e \<in> set m. (pb_memory_type (snd e), pb_pool_expansion (snd e)) = v" and "sp_at (block_spans m) a"
  shows "phys_attr m a = Some v"
  using assms by (induction m) auto

lemma replace_blocks:
  assumes d: "disjoint (block_spans (xs @ e # ys))" and s: "fst e \<le> s" "fits s len" "len \<noteq> 0"
      "s + len \<le> fst e + pb_size (snd e)"
    and ps: "block_spans ps = left_part (fst e, pb_size (snd e)) s @ right_part (fst e, pb_size (snd e)) (s + len)"
  shows "disjoint (block_spans (xs @ ps @ ys))"
    and "sp_at (block_spans (xs @ ps @ ys)) a \<longleftrightarrow> sp_at (block_spans (xs @ e # ys)) a \<and> \<not> in_range s len a"
    and "\<forall>p \<in> set ps. (pb_memory_type (snd p), pb_pool_expansion (snd p)) =
           (pb_memory_type (snd e), pb_pool_expansion (snd e)) \<Longrightarrow>
         phys_attr (xs @ ps @ ys) a = (if in_range s len a then None else phys_attr (xs @ e # ys) a)"
proof -
  let ?e = "(fst e, pb_size (snd e))"
  have d': "disjoint (block_spans xs @ ?e # block_spans ys)" using d by simp
  note c = cut_disjoint [OF d' _ s(2,3), of, simplified fst_conv snd_conv, OF s(1,4)]
  show "disjoint (block_spans (xs @ ps @ ys))" using c(1) ps by simp
  show at: "sp_at (block_spans (xs @ ps @ ys)) a \<longleftrightarrow>
      sp_at (block_spans (xs @ e # ys)) a \<and> \<not> in_range s len a" for a
    using c(2) [of a] ps by (simp add: in_range_def)
  assume same: "\<forall>p \<in> set ps. (pb_memory_type (snd p), pb_pool_expansion (snd p)) =
      (pb_memory_type (snd e), pb_pool_expansion (snd e))"
  show "phys_attr (xs @ ps @ ys) a = (if in_range s len a then None else phys_attr (xs @ e # ys) a)"
  proof (cases "in_range s len a")
    case True
    then show ?thesis using at [of a] by (simp add: phys_attr_None)
  next
    case False
    show ?thesis
    proof (cases "in_range (fst e) (pb_size (snd e)) a")
      case True
      have "\<not> sp_at (block_spans xs) a" using disjoint_unique [OF d'] True by simp
      then have "phys_attr xs a = None" by (simp add: phys_attr_None)
      moreover have "sp_at (block_spans ps) a"
        using parts_props(2) [of ?e s "s + len" a] d' s fits_less [OF s(2,3)] True False ps
        by (simp add: disjoint_append disjoint_Cons in_range_def)
      ultimately show ?thesis
        using True False phys_attr_same [OF same] by (simp add: phys_attr_append split: option.split)
    next
      case 2: False
      have "\<not> sp_at (block_spans ps) a"
        using parts_props(2) [of ?e s "s + len" a] d' s fits_less [OF s(2,3)] 2 ps
        by (auto simp: disjoint_append disjoint_Cons)
      then have "phys_attr ps a = None" by (simp add: phys_attr_None)
      then show ?thesis using 2 False by (simp add: phys_attr_append split: option.split)
    qed
  qed
qed

lemma pm_give_back:
  assumes inv: "pm_inv sz pm" and ph: "pm_physical pm = xs @ e # ys"
    and s: "fst e \<le> s" "fits s len" "len \<noteq> 0" "s + len \<le> fst e + pb_size (snd e)"
    and ps: "block_spans ps = left_part (fst e, pb_size (snd e)) s @ right_part (fst e, pb_size (snd e)) (s + len)"
    and kp: "keyed ps"
    and pm': "pm' = pm\<lparr>pm_physical := xs @ ps @ ys, pm_free := AddFreeRange s len (pm_free pm)\<rparr>"
  shows "pm_inv sz pm'"
    and "phys_at pm' a \<longleftrightarrow> phys_at pm a \<and> \<not> in_range s len a"
    and "phys_free pm' a \<longleftrightarrow> phys_free pm a \<or> in_range s len a"
proof -
  note I = pm_inv_D [OF inv]
  note rb = replace_blocks(1,2) [OF I(2) [unfolded ph] s ps]
  have at: "phys_at pm' a \<longleftrightarrow> phys_at pm a \<and> \<not> in_range s len a" for a
    using rb(2) by (simp add: phys_at_def pm' ph)
  have fr: "phys_free pm' a \<longleftrightarrow> phys_free pm a \<or> in_range s len a" for a
    using AddFreeRange_props(2) [OF I(1) s(2,3)] by (simp add: phys_free_def pm')
  have ins: "phys_at pm a" if "in_range s len a" for a
  proof -
    have "in_range (fst e) (pb_size (snd e)) a"
      using that s(1,4) unfolding in_range_def by (blast intro: order_trans order.strict_trans2)
    then show ?thesis by (simp add: phys_at_def ph)
  qed
  show "pm_inv sz pm'"
  proof (rule pm_invI)
    show "separate (pm_free pm')" using AddFreeRange_props(1) [OF I(1) s(2,3)] by (simp add: pm')
    show "disjoint (block_spans (pm_physical pm'))" using rb(1) by (simp add: pm')
    show "keyed (pm_physical pm')" using I(3) kp by (simp add: pm' ph)
    show "phys_free pm' a \<or> phys_at pm' a \<longleftrightarrow> a < sz" for a
      using at [of a] fr [of a] ins [of a] I(4) [of a] by blast
    show "\<not> (phys_free pm' a \<and> phys_at pm' a)" for a
      using at [of a] fr [of a] I(5) [of a] by blast
  qed
  show "phys_at pm' a \<longleftrightarrow> phys_at pm a \<and> \<not> in_range s len a"
    and "phys_free pm' a \<longleftrightarrow> phys_free pm a \<or> in_range s len a" using at fr by auto
qed

lemma block_facts:
  assumes inv: "pm_inv sz pm" and ph: "pm_physical pm = xs @ (k, b) # ys"
  shows "ordered (xs @ (k, b) # ys)" "pb_start_addr b = k" "pb_end b = k + pb_size b" "fits k (pb_size b)"
    "pb_size b \<noteq> 0" "\<forall>y \<in> set ys. k + pb_size b \<le> fst y" "\<forall>x \<in> set xs. fst x + pb_size (snd x) \<le> k"
proof -
  note I = pm_inv_D [OF inv, unfolded ph]
  show "ordered (xs @ (k, b) # ys)" by (rule I(6))
  show kb: "pb_start_addr b = k" using I(3) by simp
  show "pb_end b = k + pb_size b" by (simp add: pb_end_def kb)
  show "fits k (pb_size b)" "pb_size b \<noteq> 0"
    using I(2) by (auto simp: disjoint_append disjoint_Cons span_ok_def)
  show "\<forall>y \<in> set ys. k + pb_size b \<le> fst y" "\<forall>x \<in> set xs. fst x + pb_size (snd x) \<le> k"
  proof -
    have "\<forall>y \<in> set (block_spans ys). k + pb_size b \<le> fst y" "\<forall>x \<in> set (block_spans xs). fst x + snd x \<le> k"
      using I(2) by (simp_all add: disjoint_append disjoint_Cons)
    then show "\<forall>y \<in> set ys. k + pb_size b \<le> fst y" "\<forall>x \<in> set xs. fst x + pb_size (snd x) \<le> k"
      by (simp_all add: block_spans_def)
  qed
qed

lemma pm_Release_props:
  assumes inv: "pm_inv sz pm" and len: "fits s len" "len \<noteq> 0"
    and res: "pm_Release pm s len = (r, pm')"
  shows "r \<noteq> None \<longleftrightarrow> releasable pm s len"
    and "r = None \<Longrightarrow> pm' = pm"
    and "pm_inv sz pm'"
    and "r \<noteq> None \<Longrightarrow> phys_free pm' a \<longleftrightarrow> phys_free pm a \<or> in_range s len a"
    and "r \<noteq> None \<Longrightarrow> phys_attr (pm_physical pm') a =
           (if in_range s len a then None else phys_attr (pm_physical pm) a)"
proof -
  have lt: "s < s + len" using len by (rule fits_less)
  have yes: "r \<noteq> None \<and> pm_inv sz pm' \<and> (\<forall>a. phys_free pm' a \<longleftrightarrow> phys_free pm a \<or> in_range s len a) \<and>
      (\<forall>a. phys_attr (pm_physical pm') a = (if in_range s len a then None else phys_attr (pm_physical pm) a))"
    if rl: "releasable pm s len"
  proof -
    obtain k b where kb: "(k, b) \<in> set (pm_physical pm)" "\<not> pb_pool_expansion b" "k \<le> s" "s + len \<le> pb_end b"
      using rl by (auto simp: releasable_def)
    obtain xs ys where ph: "pm_physical pm = xs @ (k, b) # ys" using kb(1) by (meson split_list)
    note bf = block_facts [OF inv ph]
    have e: "s + len \<le> k + pb_size b" using kb(4) by (simp add: bf(3))
    obtain ps where rel: "fst (pm_Release pm s len) \<noteq> None" "snd (pm_Release pm s len) =
        pm\<lparr>pm_physical := xs @ ps @ ys, pm_free := AddFreeRange s len (pm_free pm)\<rparr>"
      and ps: "block_spans ps = left_part (k, pb_size b) s @ right_part (k, pb_size b) (s + len)" "keyed ps"
        "\<forall>p \<in> set ps. pb_memory_type (snd p) = pb_memory_type b \<and> \<not> pb_pool_expansion (snd p)"
      using pm_Release_blocks [OF bf(1) ph bf(2) kb(2,3) len e bf(4,6)] by blast
    have s: "fst (k, b) \<le> s" "s + len \<le> fst (k, b) + pb_size (snd (k, b))" using kb(3) e by simp_all
    have ps': "block_spans ps = left_part (fst (k, b), pb_size (snd (k, b))) s @
        right_part (fst (k, b), pb_size (snd (k, b))) (s + len)" using ps(1) by simp
    have pm': "pm' = pm\<lparr>pm_physical := xs @ ps @ ys, pm_free := AddFreeRange s len (pm_free pm)\<rparr>"
      and r: "r \<noteq> None" using res rel by auto
    note gb = pm_give_back [OF inv ph s(1) len s(2) ps' ps(2) pm']
    have "\<forall>p \<in> set ps. (pb_memory_type (snd p), pb_pool_expansion (snd p)) =
        (pb_memory_type (snd (k, b)), pb_pool_expansion (snd (k, b)))" using ps(3) kb(2) by auto
    note rb = replace_blocks(3) [OF pm_inv_D(2) [OF inv, unfolded ph] s(1) len s(2) ps' this]
    show ?thesis using gb(1,3) rb r by (auto simp: pm' ph)
  qed
  have no: "r = None \<and> pm' = pm" if n: "\<not> releasable pm s len"
  proof (cases "om_prev s (pm_physical pm)")
    case None
    then show ?thesis using res by (simp add: pm_Release_def)
  next
    case (Some e)
    obtain k b where kb: "e = (k, b)" by force
    obtain xs ys where ph: "pm_physical pm = xs @ (k, b) # ys" "k \<le> s"
      using om_prev_split [OF pm_inv_D(6) [OF inv] Some] kb by auto
    note bf = block_facts [OF inv ph(1)]
    have "pb_pool_expansion b \<or> s < pb_start_addr b \<or> pb_end b \<le> s \<or> pb_end b - s < len"
    proof (rule ccontr)
      assume "\<not> ?thesis"
      then have "\<not> pb_pool_expansion b" "s < pb_end b" "len \<le> pb_end b - s" by auto
      then have "releasable pm s len"
        using size_le_room [of s "pb_end b" len] ph len(1) unfolding releasable_def
        by (intro bexI [of _ "(k, b)"]) auto
      then show False using n by contradiction
    qed
    then show ?thesis using res Some kb by (auto simp: pm_Release_def)
  qed
  show "r \<noteq> None \<longleftrightarrow> releasable pm s len" using yes no by blast
  show "r = None \<Longrightarrow> pm' = pm" using yes no by blast
  show "pm_inv sz pm'" using yes no inv by blast
  show "r \<noteq> None \<Longrightarrow> phys_free pm' a \<longleftrightarrow> phys_free pm a \<or> in_range s len a" using yes no by blast
  show "r \<noteq> None \<Longrightarrow> phys_attr (pm_physical pm') a =
      (if in_range s len a then None else phys_attr (pm_physical pm) a)" using yes no by blast
qed

end
