(* ===== verification/Regions.thy ===== *)
theory Regions
  imports Spans VirtualRanges
begin

text \<open>
  Lists of address regions that carry attributes: the mapping vectors of
  \<open>PhysicalMemory\<close>, \<open>FlexibleMemory\<close> and \<open>PooledMemory\<close>. The locale states what
  the classes rely on: a region can be cut to a smaller one that says the same about every address
  it keeps. Everything on looking up, removing and editing a span follows from that law.
\<close>

locale regions =
  fixes rstart :: "'b \<Rightarrow> u64"
    and rsize :: "'b \<Rightarrow> u64"
    and rattr :: "'b \<Rightarrow> u64 \<Rightarrow> 'v"
    and rcut :: "u64 \<Rightarrow> u64 \<Rightarrow> 'b \<Rightarrow> 'b"
  assumes cut_start: "rstart (rcut s t b) = s"
    and cut_size: "rsize (rcut s t b) = t - s"
    and cut_attr: "rattr (rcut s t b) a = rattr b a"
begin

definition rcov :: "'b \<Rightarrow> u64 \<Rightarrow> bool" where
  "rcov b a \<longleftrightarrow> in_range (rstart b) (rsize b) a"

definition rok :: "'b \<Rightarrow> bool" where
  "rok b \<longleftrightarrow> rsize b \<noteq> 0 \<and> fits (rstart b) (rsize b)"

definition rend :: "'b \<Rightarrow> u64" where
  "rend b = rstart b + rsize b"

definition apart :: "'b \<Rightarrow> 'b \<Rightarrow> bool" where
  "apart b c \<longleftrightarrow> (\<forall>a. \<not> (rcov b a \<and> rcov c a))"

definition rwf :: "'b list \<Rightarrow> bool" where
  "rwf bs \<longleftrightarrow> list_all rok bs \<and> sorted_wrt apart bs"

definition look :: "'b list \<Rightarrow> u64 \<Rightarrow> 'v option" where
  "look bs a = map_option (\<lambda>b. rattr b a) (find (\<lambda>b. rcov b a) bs)"

lemma look_Nil [simp]: "look [] a = None"
  by (simp add: look_def)

lemma look_Cons: "look (b # bs) a = (if rcov b a then Some (rattr b a) else look bs a)"
  by (simp add: look_def)

lemma look_append: "look (xs @ ys) a = (case look xs a of None \<Rightarrow> look ys a | Some v \<Rightarrow> Some v)"
  by (induction xs) (auto simp: look_Cons)

lemma look_None: "look bs a = None \<longleftrightarrow> (\<forall>b \<in> set bs. \<not> rcov b a)"
  by (induction bs) (auto simp: look_Cons)

lemma rwf_Nil [simp]: "rwf []"
  by (simp add: rwf_def)

lemma rwf_Cons: "rwf (b # bs) \<longleftrightarrow> rok b \<and> (\<forall>c \<in> set bs. apart b c) \<and> rwf bs"
  by (auto simp: rwf_def)

lemma rwf_append: "rwf (xs @ ys) \<longleftrightarrow> rwf xs \<and> rwf ys \<and> (\<forall>x \<in> set xs. \<forall>y \<in> set ys. apart x y)"
  by (auto simp: rwf_def sorted_wrt_append)

lemma rok_in: "rwf bs \<Longrightarrow> b \<in> set bs \<Longrightarrow> rok b"
  by (simp add: rwf_def list_all_iff)

lemma apart_sym: "apart b c \<Longrightarrow> apart c b"
  by (auto simp: apart_def)

lemma look_Some: "rwf bs \<Longrightarrow> look bs a = Some v \<longleftrightarrow> (\<exists>b \<in> set bs. rcov b a \<and> v = rattr b a)"
  by (induction bs) (auto simp: look_Cons rwf_Cons apart_def)

lemma look_member: "rwf bs \<Longrightarrow> b \<in> set bs \<Longrightarrow> rcov b a \<Longrightarrow> look bs a = Some (rattr b a)"
  using look_Some by blast

text \<open>The order of the regions does not matter.\<close>

lemma rwf_swap: "rwf (xs @ ys) \<Longrightarrow> rwf (ys @ xs)"
  by (auto simp: rwf_append dest: apart_sym)

lemma rwf_insort: "rwf (b # bs) \<Longrightarrow> rwf (insort_key f b bs)"
proof (induction bs)
  case (Cons c bs)
  then show ?case by (auto simp: rwf_Cons set_insort_key dest: apart_sym)
qed (simp add: rwf_Cons)

lemma rwf_sort: "rwf bs \<Longrightarrow> rwf (sort_key f bs)"
proof (induction bs)
  case (Cons b bs)
  then have "rwf (b # sort_key f bs)" by (simp add: rwf_Cons)
  then show ?case by (simp add: rwf_insort)
qed simp

lemma look_same_set: "rwf bs \<Longrightarrow> rwf cs \<Longrightarrow> set bs = set cs \<Longrightarrow> look bs = look cs"
proof
  fix a assume "rwf bs" "rwf cs" "set bs = set cs"
  then have "look bs a = Some v \<longleftrightarrow> look cs a = Some v" for v
    using look_Some [of bs a v] look_Some [of cs a v] by simp
  then show "look bs a = look cs a" by (metis not_None_eq)
qed

text \<open>Replacing every region by pieces of it.\<close>

definition within :: "'b \<Rightarrow> 'b \<Rightarrow> bool" where
  "within b p \<longleftrightarrow> (\<forall>a. rcov p a \<longrightarrow> rcov b a)"

lemma rwf_concat:
  "rwf bs \<Longrightarrow> (\<And>b. b \<in> set bs \<Longrightarrow> rwf (f b) \<and> (\<forall>p \<in> set (f b). within b p)) \<Longrightarrow>
    rwf (concat (map f bs))"
proof (induction bs)
  case (Cons b bs)
  have "apart p q" if "p \<in> set (f b)" "c \<in> set bs" "q \<in> set (f c)" for p c q
  proof -
    have "within b p" "within c q" "apart b c"
      using Cons.prems that by (auto simp: rwf_Cons)
    then show ?thesis by (auto simp: within_def apart_def)
  qed
  then show ?case using Cons by (auto simp: rwf_append rwf_Cons)
qed simp

lemma look_concat:
  "rwf bs \<Longrightarrow> (\<And>b. b \<in> set bs \<Longrightarrow> \<forall>p \<in> set (f b). within b p) \<Longrightarrow>
    look (concat (map f bs)) a =
      (case find (\<lambda>b. rcov b a) bs of None \<Rightarrow> None | Some b \<Rightarrow> look (f b) a)"
proof (induction bs)
  case (Cons b bs)
  have IH: "look (concat (map f bs)) a =
      (case find (\<lambda>b. rcov b a) bs of None \<Rightarrow> None | Some b \<Rightarrow> look (f b) a)"
    using Cons by (simp add: rwf_Cons)
  show ?case
  proof (cases "rcov b a")
    case True
    have "\<not> rcov p a" if "c \<in> set bs" "p \<in> set (f c)" for c p
    proof -
      have "within c p" "apart b c" using Cons.prems(1) Cons.prems(2) [of c] that by (auto simp: rwf_Cons)
      then show ?thesis using True by (auto simp: within_def apart_def)
    qed
    then have "look (concat (map f bs)) a = None" by (auto simp: look_None)
    then show ?thesis using True by (simp add: look_append split: option.split)
  next
    case False
    then have "look (f b) a = None"
      using Cons.prems(2) [of b] by (auto simp: look_None within_def)
    then show ?thesis using False IH by (simp add: look_append)
  qed
qed simp

text \<open>The pieces of a region that a span leaves, and the piece it takes.\<close>

definition before_span :: "u64 \<Rightarrow> 'b \<Rightarrow> 'b list" where
  "before_span m b = (if rstart b < m then [rcut (rstart b) m b] else [])"

definition after_span :: "u64 \<Rightarrow> 'b \<Rightarrow> 'b list" where
  "after_span e b = (if e < rend b then [rcut e (rend b) b] else [])"

lemma rok_less: "rok b \<Longrightarrow> rstart b < rend b"
  by (simp add: rok_def rend_def fits_less)

lemma rcov_iff: "rcov b a \<longleftrightarrow> rstart b \<le> a \<and> a < rend b"
  by (simp add: rcov_def in_range_def rend_def)

lemma rcut_props:
  assumes "s < t"
  shows "rok (rcut s t b)" "rend (rcut s t b) = t" "rcov (rcut s t b) a \<longleftrightarrow> s \<le> a \<and> a < t"
  using assms by (auto simp: rok_def rend_def rcov_def in_range_def cut_start cut_size fits_diff)

lemma pieces_props:
  assumes b: "rok b" and m: "rstart b \<le> m" "m < e" "e \<le> rend b"
  shows "rwf (before_span m b @ after_span e b)"
    and "\<forall>p \<in> set (before_span m b @ after_span e b). within b p"
    and "rcov b a \<Longrightarrow> look (before_span m b @ after_span e b) a =
           (if m \<le> a \<and> a < e then None else Some (rattr b a))"
proof -
  have me: "m < rend b" "rstart b < e"
    using m by (auto intro: order.strict_trans1 order.strict_trans2)
  show "rwf (before_span m b @ after_span e b)"
    using m me by (auto simp: before_span_def after_span_def rwf_Cons rcut_props apart_def)
  show "\<forall>p \<in> set (before_span m b @ after_span e b). within b p"
    using m me by (auto simp: before_span_def after_span_def within_def rcut_props rcov_iff [of b])
  show "look (before_span m b @ after_span e b) a =
      (if m \<le> a \<and> a < e then None else Some (rattr b a))" if "rcov b a"
    using m me that
    by (auto simp: before_span_def after_span_def look_Cons rcut_props cut_attr rcov_iff [of b])
qed

lemma edit_pieces_props:
  assumes b: "rok b" and m: "rstart b \<le> m" "m < e" "e \<le> rend b"
    and f: "rstart (f (rcut m e b)) = m" "rsize (f (rcut m e b)) = e - m"
      "\<And>a. rattr (f (rcut m e b)) a = g (rattr b a)"
  defines "ps \<equiv> before_span m b @ [f (rcut m e b)] @ after_span e b"
  shows "rwf ps" and "\<forall>p \<in> set ps. within b p"
    and "rcov b a \<Longrightarrow> look ps a = Some (if m \<le> a \<and> a < e then g (rattr b a) else rattr b a)"
proof -
  let ?c = "f (rcut m e b)"
  note P = pieces_props [OF b m]
  have me: "m < rend b" "rstart b < e"
    using m by (auto intro: order.strict_trans1 order.strict_trans2)
  have c: "rok ?c" "rcov ?c x \<longleftrightarrow> m \<le> x \<and> x < e" for x
    using f m(2) by (auto simp: rok_def rcov_def in_range_def fits_diff)
  have l: "rcov p x \<Longrightarrow> x < m" if "p \<in> set (before_span m b)" for p x
    using that by (auto simp: before_span_def rcut_props split: if_splits)
  have r: "rcov p x \<Longrightarrow> e \<le> x" if "p \<in> set (after_span e b)" for p x
    using that by (auto simp: after_span_def rcut_props split: if_splits)
  show "rwf ps"
    using P(1) c l r unfolding ps_def
    by (fastforce simp: rwf_append rwf_Cons apart_def)
  show "\<forall>p \<in> set ps. within b p"
    using P(2) c m by (auto simp: ps_def within_def rcov_iff [of b] intro: order_trans order.strict_trans2)
  show "look ps a = Some (if m \<le> a \<and> a < e then g (rattr b a) else rattr b a)" if "rcov b a"
    using that m me c f(3) unfolding ps_def
    by (auto simp: before_span_def after_span_def look_Cons look_append rcut_props cut_attr rcov_iff [of b])
qed

section \<open>Regions in a map keyed by their start\<close>

definition kspans :: "'b omap \<Rightarrow> spans" where
  "kspans m = map (\<lambda>e. (fst e, rsize (snd e))) m"

definition kok :: "'b omap \<Rightarrow> bool" where
  "kok m \<longleftrightarrow> (\<forall>e \<in> set m. rstart (snd e) = fst e) \<and> disjoint (kspans m)"

definition kview :: "'b omap \<Rightarrow> u64 \<Rightarrow> 'v option" where
  "kview m a = look (map snd m) a"

lemma kspans_simps [simp]: "kspans [] = []" "kspans (e # m) = (fst e, rsize (snd e)) # kspans m"
  "kspans (xs @ ys) = kspans xs @ kspans ys" "map fst (kspans m) = map fst m"
  by (simp_all add: kspans_def)

lemma kok_Nil [simp]: "kok []"
  by (simp add: kok_def)

lemma kok_ordered: "kok m \<Longrightarrow> ordered m"
  using disjoint_ordered [of "kspans m"] by (simp add: kok_def ordered_def)

lemma kok_entry:
  assumes "kok m" and "(k, r) \<in> set m"
  shows "rstart r = k" "rok r"
proof -
  have "span_ok (k, rsize r)"
    using assms disjoint_ok [of "kspans m" "(k, rsize r)"] by (force simp: kok_def kspans_def)
  then show "rstart r = k" "rok r" using assms by (auto simp: kok_def span_ok_def rok_def)
qed

lemma kview_sp: "kok m \<Longrightarrow> kview m a = None \<longleftrightarrow> \<not> sp_at (kspans m) a"
  by (auto simp: kview_def look_None sp_at_def kspans_def kok_def rcov_def)

lemma kview_at:
  assumes "kok (xs @ (k, r) # ys)"
  shows "rcov r a \<Longrightarrow> kview (xs @ (k, r) # ys) a = Some (rattr r a)"
    and "kview (xs @ ys) a = (if rcov r a then None else kview (xs @ (k, r) # ys) a)"
proof -
  have d: "disjoint (kspans xs @ (k, rsize r) # kspans ys)" and k: "rstart r = k"
    and xy: "\<forall>e \<in> set xs \<union> set ys. rstart (snd e) = fst e"
    using assms by (auto simp: kok_def)
  have none: "look (map snd xs) a = None \<and> look (map snd ys) a = None" if "rcov r a"
  proof -
    have "in_range (fst (k, rsize r)) (snd (k, rsize r)) a" using that k by (simp add: rcov_def)
    then have "\<not> sp_at (kspans xs) a \<and> \<not> sp_at (kspans ys) a" using disjoint_unique [OF d] by blast
    then show ?thesis using xy by (auto simp: look_None sp_at_def kspans_def rcov_def)
  qed
  show "rcov r a \<Longrightarrow> kview (xs @ (k, r) # ys) a = Some (rattr r a)"
    using none by (simp add: kview_def look_append look_Cons)
  show "kview (xs @ ys) a = (if rcov r a then None else kview (xs @ (k, r) # ys) a)"
    using none by (auto simp: kview_def look_append look_Cons split: option.split)
qed

lemma kok_erase: "kok (xs @ (k, r) # ys) \<Longrightarrow> kok (xs @ ys)"
  by (auto simp: kok_def disjoint_append disjoint_Cons)

text \<open>Looking up by \<open>upper_bound\<close>.\<close>

lemma kprev_Some:
  assumes m: "kok m" and p: "om_prev a m = Some (k, r)"
  shows "\<exists>xs ys. m = xs @ (k, r) # ys \<and> om_erase k m = xs @ ys \<and> k \<le> a \<and> rstart r = k \<and> rok r \<and>
    kview m a = (if a < rend r then Some (rattr r a) else None)"
proof -
  note o = kok_ordered [OF m]
  obtain xs ys where x: "m = xs @ (k, r) # ys" "k \<le> a" "\<forall>y \<in> set ys. a < fst y"
    using om_prev_split [OF o p] by auto
  have r: "rstart r = k" "rok r" using kok_entry [OF m] x(1) by auto
  have "kview m a = (if a < rend r then Some (rattr r a) else None)"
  proof (cases "a < rend r")
    case True
    then show ?thesis using kview_at(1) [OF m [unfolded x(1)]] x(2) r(1) by (simp add: x(1) rcov_iff)
  next
    case False
    have "\<not> in_range (fst e) (snd e) a" if e: "e \<in> set (kspans xs)" for e
    proof -
      have "fst e + snd e \<le> k" using m e by (auto simp: x(1) kok_def disjoint_append)
      moreover have "k < rend r" using rok_less [OF r(2)] r(1) by simp
      ultimately show ?thesis using False by (auto simp: in_range_def)
    qed
    moreover have "\<not> in_range (fst e) (snd e) a" if "e \<in> set (kspans ys)" for e
      using x(3) that by (auto simp: kspans_def in_range_def)
    moreover have "\<not> in_range k (rsize r) a" using False r(1) by (simp add: in_range_def rend_def)
    ultimately have "\<not> sp_at (kspans m) a" by (auto simp: x(1) sp_at_def)
    then show ?thesis using False kview_sp [OF m] by simp
  qed
  moreover have "om_erase k m = xs @ ys" using om_erase_eq [of xs "(k, r)" ys] o by (simp add: x(1))
  ultimately show ?thesis using x r by blast
qed

lemma kprev_None:
  assumes "kok m" and "om_prev a m = None"
  shows "kview m a = None"
proof -
  have "\<forall>e \<in> set m. a < fst e" using om_prev_None [OF kok_ordered [OF assms(1)]] assms(2) by blast
  then have "\<not> sp_at (kspans m) a" by (auto simp: sp_at_def kspans_def in_range_def)
  then show ?thesis using kview_sp [OF assms(1)] by blast
qed

lemma kinsert:
  assumes m: "kok m" and r: "rok r" and n: "\<And>a. rcov r a \<Longrightarrow> kview m a = None"
  shows "rstart r \<notin> set (map fst m)"
    and "kok (om_emplace (rstart r) r m)"
    and "kview (om_emplace (rstart r) r m) a = (if rcov r a then Some (rattr r a) else kview m a)"
proof -
  have st: "rcov r (rstart r)" using rok_less [OF r] by (simp add: rcov_iff)
  show nk: "rstart r \<notin> set (map fst m)"
  proof
    assume "rstart r \<in> set (map fst m)"
    then obtain q where q: "(rstart r, q) \<in> set m" by auto
    note e = kok_entry [OF m q]
    obtain xs ys where x: "m = xs @ (rstart r, q) # ys" using q by (meson split_list)
    have "rcov q (rstart r)" using rok_less [OF e(2)] e(1) by (simp add: rcov_iff)
    then have "kview m (rstart r) = Some (rattr q (rstart r))" using kview_at(1) [OF m [unfolded x]] x by simp
    then show False using n [OF st] by simp
  qed
  obtain xs ys where x: "m = xs @ ys" "\<forall>x \<in> set xs. fst x < rstart r" "\<forall>y \<in> set ys. rstart r < fst y"
    "om_emplace (rstart r) r m = xs @ (rstart r, r) # ys"
  proof -
    have b: "\<forall>x \<in> set (om_below (rstart r) m). fst x < rstart r" using om_below_less by blast
    have f: "\<forall>y \<in> set (om_from (rstart r) m). rstart r < fst y"
    proof
      fix y assume y: "y \<in> set (om_from (rstart r) m)"
      have "y \<in> set m" using y om_below_from [of m "rstart r"] by (metis Un_iff set_append)
      then have "fst y \<in> set (map fst m)" by simp
      then have "fst y \<noteq> rstart r" using nk by metis
      then show "rstart r < fst y"
        using om_from_ge [OF kok_ordered [OF m] y] by (simp add: order.strict_iff_order)
    qed
    show thesis
      by (rule that [OF om_below_from b f]) (simp add: om_emplace_def nk del: set_map)
  qed
  have nn: "\<not> sp_at (kspans xs @ kspans ys) a" if "in_range (rstart r) (rsize r) a" for a
    using n [of a] that kview_sp [OF m] by (simp add: rcov_def x(1))
  have "disjoint (kspans xs @ (rstart r, rsize r) # kspans ys)"
  proof (rule disjoint_insert)
    show "disjoint (kspans xs @ kspans ys)" using m by (simp add: kok_def x(1))
    show "\<forall>x \<in> set (kspans xs). fst x < rstart r" "\<forall>y \<in> set (kspans ys). rstart r < fst y"
      using x(2,3) by (auto simp: kspans_def)
    show "fits (rstart r) (rsize r)" "rsize r \<noteq> 0" using r by (auto simp: rok_def)
  qed (rule nn)
  then show k': "kok (om_emplace (rstart r) r m)"
    using m unfolding x(4) by (auto simp: x(1) kok_def)
  show "kview (om_emplace (rstart r) r m) a = (if rcov r a then Some (rattr r a) else kview m a)"
    using kview_at [OF k' [unfolded x(4)], of a] unfolding x(4) by (auto simp: x(1))
qed

text \<open>Disjoint regions in address order.\<close>

lemma rwf_sorted_kok:
  assumes "rwf bs" and "sorted (map rstart bs)"
  shows "kok (map (\<lambda>b. (rstart b, b)) bs)"
  using assms
proof (induction bs)
  case (Cons b bs)
  have b: "rok b" "\<And>c. c \<in> set bs \<Longrightarrow> apart b c" "rwf bs" using Cons.prems(1) by (auto simp: rwf_Cons)
  have "rend b \<le> rstart c" if c: "c \<in> set bs" for c
  proof (rule ccontr)
    assume "\<not> rend b \<le> rstart c"
    moreover have "rstart b \<le> rstart c" using Cons.prems(2) c by simp
    ultimately have "rcov b (rstart c)" by (simp add: rcov_iff not_le)
    moreover have "rcov c (rstart c)" using rok_less [OF rok_in [OF b(3) c]] by (simp add: rcov_iff)
    ultimately show False using b(2) [OF c] by (auto simp: apart_def)
  qed
  then show ?case
    using Cons b(1) b(3) by (auto simp: kok_def disjoint_Cons kspans_def span_ok_def rok_def rend_def)
qed simp

lemma rwf_sorted_less:
  assumes "rwf (b # bs)" and "sorted (map rstart (b # bs))" and "c \<in> set bs"
  shows "rend b \<le> rstart c"
proof -
  have "kok (map (\<lambda>b. (rstart b, b)) (b # bs))" by (rule rwf_sorted_kok [OF assms(1,2)])
  then show ?thesis using assms(3) by (force simp: kok_def disjoint_Cons kspans_def rend_def)
qed

text \<open>Pieces of ordered regions are ordered.\<close>

lemma sorted_pieces:
  assumes "rwf bs" and "sorted (map rstart bs)"
    and "\<And>b. b \<in> set bs \<Longrightarrow> rwf (f b) \<and> sorted (map rstart (f b)) \<and> (\<forall>p \<in> set (f b). within b p)"
  shows "sorted (map rstart (concat (map f bs)))"
  using assms
proof (induction bs)
  case (Cons b bs)
  have "rstart p \<le> rstart q" if p: "p \<in> set (f b)" and q: "q \<in> set (f c)" and c: "c \<in> set bs" for p q c
  proof -
    have wf: "rwf (f b)" "rwf (f c)" "within b p" "within c q" using Cons.prems(3) p q c by auto
    have "rcov p (rstart p)" "rcov q (rstart q)"
      using rok_less [OF rok_in [OF wf(1) p]] rok_less [OF rok_in [OF wf(2) q]] by (auto simp: rcov_iff)
    then have "rstart p < rend b" "rstart c \<le> rstart q" using wf(3,4) by (auto simp: within_def rcov_iff)
    moreover have "rend b \<le> rstart c" by (rule rwf_sorted_less [OF Cons.prems(1,2) c])
    ultimately show ?thesis by auto
  qed
  moreover have "sorted (map rstart (concat (map f bs)))" using Cons by (simp add: rwf_Cons)
  moreover have "sorted (map rstart (f b))" using Cons.prems(3) by simp
  ultimately show ?case by (auto simp: sorted_append)
qed simp

lemma kview_map [simp]: "kview (map (\<lambda>b. (rstart b, b)) bs) = look bs"
  by (simp add: fun_eq_iff kview_def comp_def)

definition covered :: "'b list \<Rightarrow> u64 \<Rightarrow> bool" where
  "covered bs a \<longleftrightarrow> (\<exists>b \<in> set bs. rcov b a)"

lemma covered_simps [simp]: "\<not> covered [] a" "covered (b # bs) a \<longleftrightarrow> rcov b a \<or> covered bs a"
  "covered (xs @ ys) a \<longleftrightarrow> covered xs a \<or> covered ys a"
  by (auto simp: covered_def)

lemma look_covered: "look bs a \<noteq> None \<longleftrightarrow> covered bs a"
  by (simp add: look_None covered_def)

text \<open>The covered addresses, counted by sizes.\<close>

lemma rcov_card: "rok b \<Longrightarrow> card {a. rcov b a} = unat (rsize b)"
  using in_range_card(2) [of "rstart b" "rsize b"] by (simp add: rcov_def rok_def)

lemma covered_card: "rwf bs \<Longrightarrow> card {a. covered bs a} = sum_list (map (unat \<circ> rsize) bs)"
proof (induction bs)
  case (Cons b bs)
  have "{a. covered (b # bs) a} = {a. rcov b a} \<union> {a. covered bs a}" by auto
  moreover have "{a. rcov b a} \<inter> {a. covered bs a} = {}"
    using Cons.prems by (auto simp: rwf_Cons apart_def covered_def)
  ultimately show ?case
    using Cons rcov_card [of b] by (simp add: card_Un_disjoint rwf_Cons)
qed simp

text \<open>Taking an entry out and putting it back.\<close>

lemma kerase_insert:
  assumes "kok (xs @ (k, r) # ys)"
  shows "om_emplace k r (xs @ ys) = xs @ (k, r) # ys"
proof -
  have "ordered (xs @ (k, r) # ys)" by (rule kok_ordered [OF assms])
  then show ?thesis by (intro om_emplace_eq) (auto simp: ordered_append ordered_Cons)
qed

end

lemma overlap_span:
  assumes "fits s z" "z \<noteq> 0" "fits b y" "y \<noteq> 0"
  shows "VirtualRangesOverlap s z b y \<longleftrightarrow> s < b + y \<and> b < s + z"
  using assms by (simp add: VirtualRangesOverlap_def not_fits)

text \<open>
  The cut points that the sources compute for an overlapping region:
  \<open>max(start, region start)\<close> and \<open>min(end, region end)\<close>.
\<close>

lemma cut_points:
  fixes s t b e :: u64
  assumes "s < e" "b < t" "s < t" "b < e"
  shows "b \<le> max s b" "max s b < min t e" "min t e \<le> e"
    "b \<le> a \<Longrightarrow> a < e \<Longrightarrow> max s b \<le> a \<and> a < min t e \<longleftrightarrow> s \<le> a \<and> a < t"
  using assms by auto

end
