(* ===== verification/PhysicalMappings.thy ===== *)
theory PhysicalMappings
  imports PhysicalMemorySpec Regions
begin

text \<open>
  The virtual mappings of direct memory. A mapping gives each of its virtual addresses a physical
  address and a protection; \<open>Map\<close>, \<open>Unmap\<close> and \<open>ProtectMapping\<close> are shown to
  be pointwise updates of that assignment, and the walks over the allocated blocks to succeed
  exactly on spans of ordinary (not pooled) allocated memory.
\<close>

section \<open>Mappings as regions\<close>

record mattr =
  ma_phys :: u64
  ma_prot :: i32
  ma_mode :: host_mode
  ma_gpu :: gpu_mode
  ma_memory_type :: i32
  ma_name :: string

definition map_attr :: "pm_block \<Rightarrow> u64 \<Rightarrow> mattr" where
  "map_attr b a =
     \<lparr>ma_phys = pb_start_addr b + (a - pb_map_vaddr b), ma_prot = pb_prot b, ma_mode = pb_mode b,
      ma_gpu = pb_gpu_mode b, ma_memory_type = pb_memory_type b, ma_name = pb_name b\<rparr>"

definition map_cut :: "u64 \<Rightarrow> u64 \<Rightarrow> pm_block \<Rightarrow> pm_block" where
  "map_cut s t b = b\<lparr>pb_start_addr := pb_start_addr b + (s - pb_map_vaddr b), pb_size := t - s,
                     pb_map_vaddr := s, pb_map_size := t - s\<rparr>"

interpretation pm_maps: regions pb_map_vaddr pb_map_size map_attr map_cut
  by unfold_locales (simp_all add: map_cut_def map_attr_def)

text \<open>\<open>maps_ok\<close>: mappings are disjoint in virtual space and record one size twice.\<close>

definition maps_ok :: "pm_block list \<Rightarrow> bool" where
  "maps_ok ms \<longleftrightarrow> pm_maps.rwf ms \<and> (\<forall>b \<in> set ms. pb_size b = pb_map_size b)"

definition map_view :: "pm_block list \<Rightarrow> u64 \<Rightarrow> mattr option" where
  "map_view ms a = map_option (\<lambda>b. map_attr b a)
     (find (\<lambda>b. pb_map_vaddr b \<le> a \<and> a < map_end b) ms)"

lemma map_view_look: "map_view = pm_maps.look"
  by (simp add: fun_eq_iff map_view_def pm_maps.look_def pm_maps.rcov_def in_range_def map_end_def)

lemma map_end_rend: "map_end = pm_maps.rend"
  by (simp add: fun_eq_iff map_end_def pm_maps.rend_def)

lemma maps_ok_simps: "maps_ok [] = True"
  "maps_ok (b # ms) \<longleftrightarrow> pm_maps.rok b \<and> pb_size b = pb_map_size b \<and>
     (\<forall>c \<in> set ms. pm_maps.apart b c) \<and> maps_ok ms"
  by (auto simp: maps_ok_def pm_maps.rwf_Cons)

section \<open>Unmap\<close>

definition holds_span :: "pm_block \<Rightarrow> u64 \<Rightarrow> u64 \<Rightarrow> bool" where
  "holds_span b vaddr sz \<longleftrightarrow> pb_map_vaddr b \<le> vaddr \<and> vaddr + sz \<le> map_end b"

lemma map_cut_whole:
  "pb_size b = pb_map_size b \<Longrightarrow> map_cut (pb_map_vaddr b) t b =
     b\<lparr>pb_size := t - pb_map_vaddr b, pb_map_size := t - pb_map_vaddr b\<rparr>"
  by (simp add: map_cut_def)

lemma unmap_scan_here:
  assumes ok: "pm_maps.rok b" "pb_size b = pb_map_size b" and f: "fits v z" "z \<noteq> 0"
  shows "(if holds_span b v z
     then \<exists>h L R. unmap_scan v z (b # bs) = Some (pb_gpu_mode b, h, L @ bs, R) \<and>
            L @ R = pm_maps.before_span v b @ pm_maps.after_span (v + z) b
     else unmap_scan v z (b # bs) = map_option (\<lambda>(g, h, bs', new). (g, h, b # bs', new)) (unmap_scan v z bs))"
proof -
  have e: "map_end b = pb_map_vaddr b + pb_map_size b" by (simp add: map_end_def)
  have lt: "v < v + z" using f by (rule fits_less)
  have eq: "map_end b = v + z \<longleftrightarrow> pb_map_size b = z" if "v = pb_map_vaddr b" using that by (auto simp: e)
  have le: "z < pb_map_size b \<longleftrightarrow> v + z < map_end b" if "v = pb_map_vaddr b"
  proof -
    have "fits (pb_map_vaddr b) (pb_map_size b)" using ok(1) by (simp add: pm_maps.rok_def)
    then show ?thesis
      using unat_add_fits [of "pb_map_vaddr b" "pb_map_size b"] unat_add_fits [OF f(1)] that
      by (simp add: e word_less_nat_alt)
  qed
  show ?thesis
  proof (cases "holds_span b v z")
    case True
    then consider (all) "v = pb_map_vaddr b" "v + z = map_end b"
      | (mid) "pb_map_vaddr b < v" "v + z < map_end b"
      | (front) "v = pb_map_vaddr b" "v + z < map_end b"
      | (tail) "pb_map_vaddr b < v" "v + z = map_end b"
      by (auto simp: holds_span_def le_less)
    then have "\<exists>h L R. unmap_scan v z (b # bs) = Some (pb_gpu_mode b, h, L @ bs, R) \<and>
            L @ R = pm_maps.before_span v b @ pm_maps.after_span (v + z) b"
    proof cases
      case all
      then show ?thesis using eq
        by (intro exI [of _ "Some (pb_host_vaddr b, pb_host_size b)"] exI [of _ "[]"])
          (simp add: pm_maps.before_span_def pm_maps.after_span_def flip: map_end_rend)
    next
      case mid
      have "pb_map_vaddr b \<noteq> v" using mid by auto
      moreover have "map_cut (v + z) (map_end b) b =
          b\<lparr>pb_start_addr := pb_start_addr b + ((v + z) - pb_map_vaddr b),
            pb_size := map_end b - (v + z), pb_map_size := map_end b - (v + z), pb_map_vaddr := v + z\<rparr>"
        by (simp add: map_cut_def)
      ultimately show ?thesis using mid
        by (intro exI [of _ None] exI [of _ "[map_cut (pb_map_vaddr b) v b]"] exI [of _ "[map_cut (v + z) (map_end b) b]"])
          (simp add: map_cut_whole [OF ok(2)] pm_maps.before_span_def pm_maps.after_span_def flip: map_end_rend)
    next
      case front
      have n: "\<not> (pb_map_vaddr b = v \<and> pb_map_size b = z)" using front eq by auto
      have "map_end b - (v + z) = pb_map_size b - z" using front(1) by (simp add: e)
      then have "map_cut (v + z) (map_end b) b =
          b\<lparr>pb_start_addr := pb_start_addr b + z, pb_size := pb_size b - z,
            pb_map_vaddr := pb_map_vaddr b + z, pb_map_size := pb_map_size b - z\<rparr>"
        using front(1) ok(2) by (simp add: map_cut_def)
      then show ?thesis using front n le
        by (intro exI [of _ None] exI [of _ "[map_cut (v + z) (map_end b) b]"] exI [of _ "[]"])
          (simp add: pm_maps.before_span_def pm_maps.after_span_def flip: map_end_rend)
    next
      case tail
      have "pb_map_vaddr b \<noteq> v" using tail by auto
      then show ?thesis using tail
        by (intro exI [of _ None] exI [of _ "[map_cut (pb_map_vaddr b) v b]"] exI [of _ "[]"])
          (simp add: map_cut_whole [OF ok(2)] pm_maps.before_span_def pm_maps.after_span_def flip: map_end_rend)
    qed
    then show ?thesis using True by simp
  next
    case False
    then have "\<not> (pb_map_vaddr b = v \<and> pb_map_size b = z)" "\<not> (pb_map_vaddr b < v \<and> v + z < map_end b)"
      "\<not> (v = pb_map_vaddr b \<and> z < pb_map_size b)" "\<not> (pb_map_vaddr b < v \<and> v + z = map_end b)"
      using eq le by (auto simp: holds_span_def)
    then have "unmap_scan v z (b # bs) =
        map_option (\<lambda>(g, h, bs', new). (g, h, b # bs', new)) (unmap_scan v z bs)"
      by (simp only: unmap_scan.simps if_False)
    then show ?thesis using False by simp
  qed
qed

lemma unmap_scan_props:
  assumes "maps_ok ms" and f: "fits v z" "z \<noteq> 0"
  shows "(if \<exists>b \<in> set ms. holds_span b v z
     then \<exists>xs b ys h L R. ms = xs @ b # ys \<and> holds_span b v z \<and>
            unmap_scan v z ms = Some (pb_gpu_mode b, h, xs @ L @ ys, R) \<and>
            L @ R = pm_maps.before_span v b @ pm_maps.after_span (v + z) b
     else unmap_scan v z ms = None)"
  using assms(1)
proof (induction ms)
  case Nil
  then show ?case by simp
next
  case (Cons b ms)
  have ok: "pm_maps.rok b" "pb_size b = pb_map_size b" "maps_ok ms"
    using Cons.prems by (auto simp: maps_ok_simps)
  note here = unmap_scan_here [OF ok(1,2) f, of ms]
  note IH = Cons.IH [OF ok(3)]
  show ?case
  proof (cases "holds_span b v z")
    case True
    then obtain h L R where "unmap_scan v z (b # ms) = Some (pb_gpu_mode b, h, L @ ms, R)"
      "L @ R = pm_maps.before_span v b @ pm_maps.after_span (v + z) b" using here by auto
    then have "\<exists>xs c ys h L R. b # ms = xs @ c # ys \<and> holds_span c v z \<and>
        unmap_scan v z (b # ms) = Some (pb_gpu_mode c, h, xs @ L @ ys, R) \<and>
        L @ R = pm_maps.before_span v c @ pm_maps.after_span (v + z) c"
      using True by (intro exI [of _ "[]"] exI [of _ b] exI [of _ ms] exI [of _ h] exI [of _ L] exI [of _ R]) simp
    then show ?thesis using True by simp
  next
    case False
    then have st: "unmap_scan v z (b # ms) =
        map_option (\<lambda>(g, h, bs', new). (g, h, b # bs', new)) (unmap_scan v z ms)" using here by simp
    show ?thesis
    proof (cases "\<exists>c \<in> set ms. holds_span c v z")
      case True
      then obtain xs c ys h L R where x: "ms = xs @ c # ys" "holds_span c v z"
        "unmap_scan v z ms = Some (pb_gpu_mode c, h, xs @ L @ ys, R)"
        "L @ R = pm_maps.before_span v c @ pm_maps.after_span (v + z) c"
        using IH by auto
      then have "\<exists>xs c ys h L R. b # ms = xs @ c # ys \<and> holds_span c v z \<and>
          unmap_scan v z (b # ms) = Some (pb_gpu_mode c, h, xs @ L @ ys, R) \<and>
          L @ R = pm_maps.before_span v c @ pm_maps.after_span (v + z) c"
        using st by (intro exI [of _ "b # xs"] exI [of _ c] exI [of _ ys] exI [of _ h] exI [of _ L] exI [of _ R]) simp
      then show ?thesis using True by simp
    next
      case no: False
      then show ?thesis using IH st False by simp
    qed
  qed
qed

lemma maps_ok_pieces:
  assumes "maps_ok (xs @ b # ys)" and "holds_span b v z" and f: "fits v z" "z \<noteq> 0"
    and lr: "L @ R = pm_maps.before_span v b @ pm_maps.after_span (v + z) b"
  shows "maps_ok ((xs @ L @ ys) @ R)"
    and "map_view ((xs @ L @ ys) @ R) a = (if in_range v z a then None else map_view (xs @ b # ys) a)"
proof -
  have w: "pm_maps.rwf (xs @ b # ys)" and szs: "\<forall>c \<in> set (xs @ b # ys). pb_size c = pb_map_size c"
    using assms(1) by (auto simp: maps_ok_def)
  have ok: "pm_maps.rok b" using w by (simp add: pm_maps.rwf_append pm_maps.rwf_Cons)
  have lt: "v < v + z" using f by (rule fits_less)
  have h: "pb_map_vaddr b \<le> v" "v + z \<le> pm_maps.rend b"
    using assms(2) by (auto simp: holds_span_def map_end_rend)
  note P = pm_maps.pieces_props [OF ok h(1) lt h(2), folded lr]
  have ap: "pm_maps.apart p c" if "p \<in> set (L @ R)" "c \<in> set xs \<or> c \<in> set ys" for p c
  proof -
    have "pm_maps.within b p" using P(2) that(1) by blast
    moreover have "pm_maps.apart b c"
      using w that(2) by (auto simp: pm_maps.rwf_append pm_maps.rwf_Cons dest: pm_maps.apart_sym)
    ultimately show ?thesis by (auto simp: pm_maps.within_def pm_maps.apart_def)
  qed
  have w1: "pm_maps.rwf (xs @ (L @ R) @ ys)"
    using w P(1) ap by (auto simp: pm_maps.rwf_append pm_maps.rwf_Cons dest: pm_maps.apart_sym)
  have w2: "pm_maps.rwf ((xs @ L @ ys) @ R)"
    using w P(1) ap by (auto simp: pm_maps.rwf_append pm_maps.rwf_Cons dest: pm_maps.apart_sym)
  have "pb_size p = pb_map_size p" if "p \<in> set (L @ R)" for p
    using that by (auto simp: lr pm_maps.before_span_def pm_maps.after_span_def map_cut_def split: if_splits)
  then show "maps_ok ((xs @ L @ ys) @ R)" using w2 szs by (auto simp: maps_ok_def)
  have "pm_maps.look ((xs @ L @ ys) @ R) = pm_maps.look (xs @ (L @ R) @ ys)"
    by (rule pm_maps.look_same_set [OF w2 w1]) auto
  moreover define Q where "Q = L @ R"
  moreover have "pm_maps.look (xs @ Q @ ys) a =
      (if in_range v z a then None else pm_maps.look (xs @ b # ys) a)"
  proof (cases "pm_maps.rcov b a")
    case True
    then have n: "pm_maps.look xs a = None" "pm_maps.look ys a = None"
      using w by (auto simp: pm_maps.look_None pm_maps.rwf_append pm_maps.rwf_Cons pm_maps.apart_def)
    then show ?thesis using P(3) [OF True] True
      by (auto simp: pm_maps.look_append pm_maps.look_Cons in_range_def simp flip: Q_def)
  next
    case False
    then have "pm_maps.look Q a = None"
      using P(2) by (auto simp: pm_maps.look_None pm_maps.within_def Q_def)
    moreover have "\<not> in_range v z a" using False h by (auto simp: pm_maps.rcov_iff in_range_def)
    ultimately show ?thesis using False
      by (simp add: pm_maps.look_append pm_maps.look_Cons split: option.split)
  qed
  ultimately show "map_view ((xs @ L @ ys) @ R) a = (if in_range v z a then None else map_view (xs @ b # ys) a)"
    by (simp add: map_view_look)
qed

lemma pm_Unmap_props:
  assumes ok: "maps_ok (pm_mappings pm)" and f: "fits v z" "z \<noteq> 0"
    and res: "pm_Unmap pm v z = (r, pm')"
  shows "r \<noteq> None \<longleftrightarrow> (\<exists>b \<in> set (pm_mappings pm). holds_span b v z)"
    and "r = None \<Longrightarrow> pm' = pm"
    and "maps_ok (pm_mappings pm')"
    and "r \<noteq> None \<Longrightarrow> map_view (pm_mappings pm') a =
           (if in_range v z a then None else map_view (pm_mappings pm) a)"
proof -
  note sp = unmap_scan_props [OF ok f]
  have "(r \<noteq> None \<longleftrightarrow> (\<exists>b \<in> set (pm_mappings pm). holds_span b v z)) \<and> (r = None \<longrightarrow> pm' = pm) \<and>
    maps_ok (pm_mappings pm') \<and> (r \<noteq> None \<longrightarrow> map_view (pm_mappings pm') a =
      (if in_range v z a then None else map_view (pm_mappings pm) a))"
  proof (cases "\<exists>b \<in> set (pm_mappings pm). holds_span b v z")
    case True
    then obtain xs b ys h L R where x: "pm_mappings pm = xs @ b # ys" "holds_span b v z"
        "unmap_scan v z (pm_mappings pm) = Some (pb_gpu_mode b, h, xs @ L @ ys, R)"
        "L @ R = pm_maps.before_span v b @ pm_maps.after_span (v + z) b"
      using sp by auto
    have "r \<noteq> None" and pm': "pm' = pm\<lparr>pm_mappings := (xs @ L @ ys) @ R\<rparr>"
      using res x(3) by (auto simp: pm_Unmap_def Let_def)
    then show ?thesis
      using maps_ok_pieces [OF ok [unfolded x(1)] x(2) f x(4)] True unfolding pm' by (auto simp: x(1))
  next
    case False
    then have "unmap_scan v z (pm_mappings pm) = None" using sp by simp
    then show ?thesis using res ok False by (auto simp: pm_Unmap_def)
  qed
  then show "r \<noteq> None \<longleftrightarrow> (\<exists>b \<in> set (pm_mappings pm). holds_span b v z)"
    "r = None \<Longrightarrow> pm' = pm" "maps_ok (pm_mappings pm')"
    "r \<noteq> None \<Longrightarrow> map_view (pm_mappings pm') a =
           (if in_range v z a then None else map_view (pm_mappings pm) a)" by blast+
qed


section \<open>ProtectMapping\<close>

definition set_prot :: "i32 \<Rightarrow> host_mode \<Rightarrow> gpu_mode \<Rightarrow> mattr \<Rightarrow> mattr" where
  "set_prot prot mode gpu v = v\<lparr>ma_prot := prot, ma_mode := mode, ma_gpu := gpu\<rparr>"

lemma protect_one_props:
  assumes ok: "pm_maps.rok b" "pb_size b = pb_map_size b" and f: "fits v z" "z \<noteq> 0"
  shows "pm_maps.rwf (protect_one v z prot mode gpu b)"
    and "\<forall>p \<in> set (protect_one v z prot mode gpu b). pm_maps.within b p \<and> pb_size p = pb_map_size p"
    and "pm_maps.rcov b a \<Longrightarrow> pm_maps.look (protect_one v z prot mode gpu b) a =
           Some (if in_range v z a then set_prot prot mode gpu (map_attr b a) else map_attr b a)"
proof -
  have fb: "fits (pb_map_vaddr b) (pb_map_size b)" "pb_map_size b \<noteq> 0"
    using ok(1) by (auto simp: pm_maps.rok_def)
  have lt: "v < v + z" "pb_map_vaddr b < map_end b"
    using fits_less [OF f] fits_less [OF fb] by (auto simp: map_end_def)
  have ov: "VirtualRangesOverlap v z (pb_map_vaddr b) (pb_map_size b) \<longleftrightarrow>
      v < map_end b \<and> pb_map_vaddr b < v + z"
    using overlap_span [OF f fb] by (simp add: map_end_def)
  let ?g = "\<lambda>b. b\<lparr>pb_prot := prot, pb_mode := mode, pb_gpu_mode := gpu\<rparr>"
  let ?ps = "protect_one v z prot mode gpu b"
  have "pm_maps.rwf ?ps \<and> (\<forall>p \<in> set ?ps. pm_maps.within b p \<and> pb_size p = pb_map_size p) \<and>
    (pm_maps.rcov b a \<longrightarrow> pm_maps.look ?ps a =
       Some (if in_range v z a then set_prot prot mode gpu (map_attr b a) else map_attr b a))"
  proof (cases "VirtualRangesOverlap v z (pb_map_vaddr b) (pb_map_size b)")
    case True
    define m where "m = max v (pb_map_vaddr b)"
    define e where "e = min (v + z) (map_end b)"
    have c: "pb_map_vaddr b \<le> m" "m < e" "e \<le> map_end b"
      "pb_map_vaddr b \<le> a \<Longrightarrow> a < map_end b \<Longrightarrow> m \<le> a \<and> a < e \<longleftrightarrow> v \<le> a \<and> a < v + z"
      using cut_points [of v "map_end b" "pb_map_vaddr b" "v + z"] True lt ov by (auto simp: m_def e_def)
    have ps: "?ps = pm_maps.before_span m b @ [?g (map_cut m e b)] @ pm_maps.after_span e b"
      using True
      by (simp add: protect_one_def Let_def pm_maps.before_span_def pm_maps.after_span_def
          map_cut_whole [OF ok(2)] map_cut_def add_diff_eq flip: m_def e_def map_end_rend)
    note E = pm_maps.edit_pieces_props [OF ok(1) c(1,2) c(3) [unfolded map_end_rend],
        where f = ?g and g = "set_prot prot mode gpu"]
    have at: "map_attr (?g (map_cut m e b)) a = set_prot prot mode gpu (map_attr b a)" for a
      by (simp add: map_attr_def map_cut_def set_prot_def)
    have st: "pb_map_vaddr (?g (map_cut m e b)) = m" "pb_map_size (?g (map_cut m e b)) = e - m"
      by (simp_all add: map_cut_def)
    have szs: "pb_size p = pb_map_size p" if "p \<in> set ?ps" for p
      using that by (auto simp: ps pm_maps.before_span_def pm_maps.after_span_def map_cut_def split: if_splits)
    show ?thesis
      using E [OF st at, folded ps] szs c(4)
      by (simp add: pm_maps.rcov_iff in_range_def flip: map_end_rend)
  next
    case False
    then have "in_range v z a \<Longrightarrow> \<not> pm_maps.rcov b a"
      using ov by (auto simp: in_range_def pm_maps.rcov_iff map_end_rend)
    then show ?thesis
      using False ok
      by (auto simp: protect_one_def pm_maps.rwf_Cons pm_maps.within_def pm_maps.look_Cons)
  qed
  then show "pm_maps.rwf ?ps" "\<forall>p \<in> set ?ps. pm_maps.within b p \<and> pb_size p = pb_map_size p"
    "pm_maps.rcov b a \<Longrightarrow> pm_maps.look ?ps a =
       Some (if in_range v z a then set_prot prot mode gpu (map_attr b a) else map_attr b a)" by blast+
qed

lemma pm_ProtectMapping_props:
  assumes ok: "maps_ok (pm_mappings pm)"
  shows "maps_ok (pm_mappings (pm_ProtectMapping pm v z prot mode gpu))"
    and "map_view (pm_mappings (pm_ProtectMapping pm v z prot mode gpu)) a =
      map_option (if fits v z \<and> in_range v z a then set_prot prot mode gpu else id)
        (map_view (pm_mappings pm) a)"
proof -
  let ?ms = "pm_mappings pm"
  have w: "pm_maps.rwf ?ms" and szs: "\<And>b. b \<in> set ?ms \<Longrightarrow> pb_size b = pb_map_size b"
    using ok by (auto simp: maps_ok_def)
  have "maps_ok (pm_mappings (pm_ProtectMapping pm v z prot mode gpu)) \<and>
    map_view (pm_mappings (pm_ProtectMapping pm v z prot mode gpu)) a =
      map_option (if fits v z \<and> in_range v z a then set_prot prot mode gpu else id) (map_view ?ms a)"
  proof (cases "z = 0 \<or> \<not> fits v z")
    case True
    then have "\<not> (fits v z \<and> in_range v z a)" by (auto simp: in_range_def)
    then show ?thesis using True ok by (auto simp: pm_ProtectMapping_def not_fits option.map_id)
  next
    case False
    then have f: "fits v z" "z \<noteq> 0" by auto
    let ?f = "protect_one v z prot mode gpu"
    have P: "pm_maps.rwf (?f b)" "\<forall>p \<in> set (?f b). pm_maps.within b p \<and> pb_size p = pb_map_size p"
      if "b \<in> set ?ms" for b
      using protect_one_props [OF pm_maps.rok_in [OF w that] szs [OF that] f] by auto
    have e: "pm_mappings (pm_ProtectMapping pm v z prot mode gpu) = concat (map ?f ?ms)"
      using f by (simp add: pm_ProtectMapping_def not_fits)
    have "pm_maps.rwf (concat (map ?f ?ms))" using P by (intro pm_maps.rwf_concat [OF w]) blast
    then have "maps_ok (concat (map ?f ?ms))" using P by (auto simp: maps_ok_def)
    moreover have "pm_maps.look (concat (map ?f ?ms)) a =
        map_option (if in_range v z a then set_prot prot mode gpu else id) (pm_maps.look ?ms a)"
    proof -
      have "pm_maps.look (?f b) a =
          Some (if in_range v z a then set_prot prot mode gpu (map_attr b a) else map_attr b a)"
        if "find (\<lambda>b. pm_maps.rcov b a) ?ms = Some b" for b
      proof -
        have "b \<in> set ?ms" "pm_maps.rcov b a" using that by (auto simp: find_Some_iff)
        then show ?thesis using protect_one_props(3) [OF pm_maps.rok_in [OF w] szs f] by blast
      qed
      then show ?thesis
        using pm_maps.look_concat [OF w, of ?f a] P
        by (auto simp: pm_maps.look_def [of ?ms] split: option.split)
    qed
    ultimately show ?thesis using f by (simp add: e map_view_look)
  qed
  then show "maps_ok (pm_mappings (pm_ProtectMapping pm v z prot mode gpu))"
    and "map_view (pm_mappings (pm_ProtectMapping pm v z prot mode gpu)) a =
      map_option (if fits v z \<and> in_range v z a then set_prot prot mode gpu else id)
        (map_view ?ms a)" by auto
qed

section \<open>Walks over the allocated blocks\<close>

text \<open>An address of ordinary direct memory: allocated, and not to the memory pool.\<close>

definition direct_at :: "pm_block omap \<Rightarrow> u64 \<Rightarrow> bool" where
  "direct_at m a \<longleftrightarrow> map_option snd (phys_attr m a) = Some False"

lemma phys_attr_block:
  assumes "disjoint (block_spans (xs @ (k, b) # ys))" and "k \<le> a" and "a < k + pb_size b"
  shows "phys_attr (xs @ (k, b) # ys) a = Some (pb_memory_type b, pb_pool_expansion b)"
proof -
  have "\<not> sp_at (block_spans xs) a"
    using disjoint_unique [of "block_spans xs" "(k, pb_size b)" "block_spans ys" a] assms
    by (simp add: in_range_def)
  then have "phys_attr xs a = None" by (simp add: phys_attr_None)
  then show ?thesis using assms(2,3) by (simp add: phys_attr_append in_range_def)
qed

lemma phys_attr_gap:
  assumes d: "disjoint (block_spans (xs @ (k, b) # ys))" and a: "k + pb_size b \<le> a"
    and y: "\<forall>y \<in> set ys. a < fst y"
  shows "phys_attr (xs @ (k, b) # ys) a = None"
proof -
  have "\<not> in_range (fst x) (pb_size (snd x)) a" if "x \<in> set xs" for x
  proof -
    have "(fst x, pb_size (snd x)) \<in> set (block_spans xs)" using that by (auto simp: block_spans_def)
    then have "fst x + pb_size (snd x) \<le> k" using d by (auto simp: disjoint_append)
    moreover have "k \<le> k + pb_size b"
      using d by (auto simp: disjoint_append disjoint_Cons span_ok_def intro: fits_le)
    ultimately show ?thesis using a by (auto simp: in_range_def)
  qed
  moreover have "\<not> in_range (fst y) (pb_size (snd y)) a" if "y \<in> set ys" for y
    using y that by (auto simp: in_range_def)
  ultimately show ?thesis
    using a by (auto simp: phys_attr_None sp_at_def block_spans_def in_range_def)
qed

lemma walk_stop_props:
  assumes d: "disjoint (block_spans m)" and kd: "keyed m" and ce: "c < e"
  shows "walk_stop m c e = None \<Longrightarrow> \<exists>a. c \<le> a \<and> a < e \<and> \<not> direct_at m a"
    and "walk_stop m c e = Some b \<Longrightarrow> c < pb_end b \<and> pb_start_addr b \<le> c \<and>
      (pb_start_addr b, b) \<in> set m \<and> (\<forall>a. c \<le> a \<and> a < min e (pb_end b) \<longrightarrow> direct_at m a)"
proof -
  have o: "ordered m" by (rule disjoint_blocks_ordered [OF d])
  have "(walk_stop m c e = None \<longrightarrow> (\<exists>a. c \<le> a \<and> a < e \<and> \<not> direct_at m a)) \<and>
    (walk_stop m c e = Some b \<longrightarrow> c < pb_end b \<and> pb_start_addr b \<le> c \<and>
      (pb_start_addr b, b) \<in> set m \<and> (\<forall>a. c \<le> a \<and> a < min e (pb_end b) \<longrightarrow> direct_at m a))"
  proof (cases "om_prev c m")
    case None
    then have "\<not> direct_at m c"
      using om_prev_None [OF o, of c]
      by (auto simp: direct_at_def phys_attr_None sp_at_def block_spans_def in_range_def)
        (metis leD fst_conv phys_attr_None option.simps(3) block_spans_set sp_at_def in_range_def)
    then show ?thesis using None ce by (auto simp: walk_stop_def)
  next
    case (Some p)
    obtain k v where p: "p = (k, v)" by force
    obtain xs ys where x: "m = xs @ (k, v) # ys" "k \<le> c" "om_above c m = ys" "\<forall>y \<in> set ys. c < fst y"
      using om_prev_split [OF o Some] p by auto
    have kv: "pb_start_addr v = k" "\<forall>y \<in> set ys. pb_start_addr (snd y) = fst y"
      using kd by (auto simp: x(1) keyed_def)
    have ev: "pb_end v = k + pb_size v" by (simp add: pb_end_def kv)
    note bl = phys_attr_block [OF d [unfolded x(1)]] and gp = phys_attr_gap [OF d [unfolded x(1)]]
    let ?n = "ys = [] \<or> pb_start_addr (snd (hd ys)) \<noteq> min e (pb_end v)"
    have ws: "walk_stop m c e = (if pb_pool_expansion v \<or> c < pb_start_addr v \<or> pb_end v \<le> c then None
        else if min e (pb_end v) < e \<and> ?n then None else Some v)"
      by (simp add: walk_stop_def Some p x(3))
    have nd: "\<not> direct_at m c" if "pb_pool_expansion v \<or> pb_end v \<le> c"
    proof (cases "pb_end v \<le> c")
      case True
      then show ?thesis using gp [of c] x(4) by (simp add: direct_at_def x(1) ev)
    next
      case False
      then show ?thesis using bl [of c] x(2) that by (simp add: direct_at_def x(1) ev)
    qed
    have good: "direct_at m a" if "\<not> pb_pool_expansion v" "c \<le> a" "a < pb_end v" for a
      using bl [of a] that x(2) by (simp add: direct_at_def x(1) ev)
    have gap: "\<not> direct_at m (pb_end v)" if n: ?n "pb_end v < e"
    proof -
      have le: "k + pb_size v \<le> fst y" if "y \<in> set ys" for y
      proof -
        have "(fst y, pb_size (snd y)) \<in> set (block_spans ys)" using that by (auto simp: block_spans_def)
        then show ?thesis using d by (auto simp: x(1) disjoint_append disjoint_Cons)
      qed
      have "k + pb_size v < fst y" if y: "y \<in> set ys" for y
      proof -
        have ne: "ys \<noteq> []" using y by auto
        have "fst (hd ys) \<noteq> k + pb_size v" using n ne kv(2) by (auto simp: ev)
        then have "k + pb_size v < fst (hd ys)" using le [of "hd ys"] ne by (simp add: order.strict_iff_order)
        moreover have "fst (hd ys) \<le> fst y"
          using o y ne by (cases ys) (auto simp: x(1) ordered_append ordered_Cons)
        ultimately show ?thesis by (rule order.strict_trans2)
      qed
      then show ?thesis using gp [of "k + pb_size v"] by (simp add: direct_at_def x(1) ev)
    qed
    have "\<exists>a. c \<le> a \<and> a < e \<and> \<not> direct_at m a" if "walk_stop m c e = None"
    proof (cases "pb_pool_expansion v \<or> pb_end v \<le> c")
      case True
      then show ?thesis using nd ce by blast
    next
      case False
      then have "\<not> c < pb_start_addr v" using x(2) kv(1) by simp
      then have "pb_end v < e" ?n using that False ws by (auto simp: min_less_iff_disj split: if_splits)
      then show ?thesis using gap False by (intro exI [of _ "pb_end v"]) auto
    qed
    then show ?thesis using ws good x(2) kv(1) by (auto simp: x(1) split: if_splits)
  qed
  then show "walk_stop m c e = None \<Longrightarrow> \<exists>a. c \<le> a \<and> a < e \<and> \<not> direct_at m a"
    and "walk_stop m c e = Some b \<Longrightarrow> c < pb_end b \<and> pb_start_addr b \<le> c \<and>
      (pb_start_addr b, b) \<in> set m \<and> (\<forall>a. c \<le> a \<and> a < min e (pb_end b) \<longrightarrow> direct_at m a)" by blast+
qed


lemma direct_walk_iff:
  "disjoint (block_spans m) \<Longrightarrow> keyed m \<Longrightarrow>
    direct_walk m c e \<longleftrightarrow> (\<forall>a. c \<le> a \<and> a < e \<longrightarrow> direct_at m a)"
proof (induction m c e rule: direct_walk.induct)
  case (1 m c e)
  show ?case
  proof (cases "c < e")
    case False
    then show ?thesis by (subst direct_walk.simps) auto
  next
    case True
    note W = walk_stop_props [OF "1.prems" True]
    show ?thesis
    proof (cases "walk_stop m c e")
      case None
      then have "\<not> direct_walk m c e" using True by (subst direct_walk.simps) simp
      then show ?thesis using W(1) [OF None] by blast
    next
      case (Some b)
      have "direct_walk m c e = direct_walk m (min e (pb_end b)) e"
        using True Some by (subst direct_walk.simps) simp
      moreover have "c \<le> min e (pb_end b)" using W(2) [OF Some] True by auto
      ultimately show ?thesis
        using 1 True Some W(2) [OF Some] all_from [of c "min e (pb_end b)" "direct_at m" e] by blast
    qed
  qed
qed

text \<open>The span the sources accept for a direct mapping.\<close>

definition direct_span :: "physical_memory \<Rightarrow> u64 \<Rightarrow> u64 \<Rightarrow> bool" where
  "direct_span pm phys_addr len \<longleftrightarrow> len \<noteq> 0 \<and> fits phys_addr len \<and>
     (\<forall>a. in_range phys_addr len a \<longrightarrow> direct_at (pm_physical pm) a)"

lemma pm_CanMapDirect_iff: "pm_inv sz pm \<Longrightarrow> pm_CanMapDirect pm p len \<longleftrightarrow> direct_span pm p len"
  using direct_walk_iff [OF pm_inv_D(2,3), of sz pm]
  by (auto simp: pm_CanMapDirect_def direct_span_def not_fits in_range_def)

lemma pm_Map_props:
  assumes inv: "pm_inv sz pm" and ok: "maps_ok (pm_mappings pm)"
    and fv: "fits v len" and nov: "\<And>a. in_range v len a \<Longrightarrow> map_view (pm_mappings pm) a = None"
    and res: "pm_Map pm v p len prot mode gpu = (done, pm')"
  shows "done \<longleftrightarrow> direct_span pm p len"
    and "\<not> done \<Longrightarrow> pm' = pm"
    and "pm_inv sz pm' \<and> maps_ok (pm_mappings pm')"
    and "done \<Longrightarrow> \<exists>mt nm. map_view (pm_mappings pm') a =
           (if in_range v len a
            then Some \<lparr>ma_phys = p + (a - v), ma_prot = prot, ma_mode = mode, ma_gpu = gpu,
                       ma_memory_type = mt, ma_name = nm\<rparr>
            else map_view (pm_mappings pm) a)"
proof -
  note dw = direct_walk_iff [OF pm_inv_D(2,3) [OF inv], of p "p + len"]
  have prev: "om_prev p (pm_physical pm) \<noteq> None" if ds: "direct_span pm p len"
  proof
    assume "om_prev p (pm_physical pm) = None"
    then have "\<forall>e \<in> set (pm_physical pm). p < fst e" using om_prev_None pm_inv_D(6) [OF inv] by blast
    then have "\<not> sp_at (block_spans (pm_physical pm)) p"
      by (auto simp: sp_at_def block_spans_def in_range_def)
    moreover have "in_range p len p" using ds fits_less [of p len] by (auto simp: direct_span_def in_range_def)
    ultimately show False using ds by (auto simp: direct_span_def direct_at_def simp flip: phys_attr_None)
  qed
  have "(done \<longleftrightarrow> direct_span pm p len) \<and> (\<not> done \<longrightarrow> pm' = pm) \<and>
    (pm_inv sz pm' \<and> maps_ok (pm_mappings pm')) \<and>
    (done \<longrightarrow> (\<exists>mt nm. \<forall>a. map_view (pm_mappings pm') a = (if in_range v len a
            then Some \<lparr>ma_phys = p + (a - v), ma_prot = prot, ma_mode = mode, ma_gpu = gpu,
                       ma_memory_type = mt, ma_name = nm\<rparr>
            else map_view (pm_mappings pm) a)))"
  proof (cases "direct_span pm p len")
    case False
    then have "done = False \<and> pm' = pm"
      using res dw by (auto simp: pm_Map_def not_fits direct_span_def in_range_def split: option.splits if_splits)
    then show ?thesis using False inv ok by auto
  next
    case True
    then obtain k b where kb: "om_prev p (pm_physical pm) = Some (k, b)" using prev by force
    define c where "c = b\<lparr>pb_start_addr := p, pb_size := len, pb_map_vaddr := v, pb_map_size := len,
        pb_host_vaddr := v, pb_host_size := len, pb_prot := prot, pb_mode := mode, pb_gpu_mode := gpu\<rparr>"
    have r: "done" "pm' = pm\<lparr>pm_mappings := pm_mappings pm @ [c]\<rparr>"
      using res True dw kb by (auto simp: pm_Map_def not_fits direct_span_def in_range_def c_def)
    have l: "len \<noteq> 0" using True by (simp add: direct_span_def)
    have cv: "pm_maps.rcov c a \<longleftrightarrow> in_range v len a" for a by (simp add: pm_maps.rcov_def c_def)
    have "pm_maps.apart d c" if "d \<in> set (pm_mappings pm)" for d
      using nov that by (auto simp: pm_maps.apart_def cv map_view_look pm_maps.look_None)
    then have "maps_ok (pm_mappings pm')"
      using ok l fv by (auto simp: r(2) maps_ok_def pm_maps.rwf_append pm_maps.rwf_Cons pm_maps.rok_def c_def)
    moreover have "pm_inv sz pm'" using inv by (simp add: r(2) pm_inv_def)
    moreover have "map_view (pm_mappings pm') a = (if in_range v len a
            then Some (map_attr c a) else map_view (pm_mappings pm) a)" for a
      using nov [of a] by (auto simp: r(2) map_view_look pm_maps.look_append pm_maps.look_Cons cv split: option.split)
    moreover have "map_attr c a = \<lparr>ma_phys = p + (a - v), ma_prot = prot, ma_mode = mode, ma_gpu = gpu,
        ma_memory_type = pb_memory_type b, ma_name = pb_name b\<rparr>" for a
      by (simp add: map_attr_def c_def)
    ultimately show ?thesis using True r(1) by auto
  qed
  then show "done \<longleftrightarrow> direct_span pm p len" "\<not> done \<Longrightarrow> pm' = pm"
    "pm_inv sz pm' \<and> maps_ok (pm_mappings pm')"
    "done \<Longrightarrow> \<exists>mt nm. map_view (pm_mappings pm') a =
           (if in_range v len a
            then Some \<lparr>ma_phys = p + (a - v), ma_prot = prot, ma_mode = mode, ma_gpu = gpu,
                       ma_memory_type = mt, ma_name = nm\<rparr>
            else map_view (pm_mappings pm) a)" by blast+
qed

text \<open>The parts that \<open>GetAllocatedSpan\<close> returns, keyed by their starts.\<close>

definition part_map :: "pm_block list \<Rightarrow> pm_block omap" where
  "part_map ps = map (\<lambda>b. (pb_start_addr b, b)) ps"

lemma span_parts_props:
  "disjoint (block_spans m) \<Longrightarrow> keyed m \<Longrightarrow> c \<le> e \<Longrightarrow>
    (span_parts m c e \<noteq> None \<longleftrightarrow> (\<forall>a. c \<le> a \<and> a < e \<longrightarrow> direct_at m a)) \<and>
    (\<forall>ps. span_parts m c e = Some ps \<longrightarrow> disjoint (block_spans (part_map ps)) \<and>
       (\<forall>x \<in> set ps. c \<le> pb_start_addr x) \<and>
       (\<forall>a. phys_attr (part_map ps) a = (if c \<le> a \<and> a < e then phys_attr m a else None)))"
proof (induction m c e rule: span_parts.induct)
  case (1 m c e)
  show ?case
  proof (cases "c < e")
    case False
    then have "span_parts m c e = Some []" by (subst span_parts.simps) simp
    then show ?thesis using False by (auto simp: part_map_def)
  next
    case True
    note W = walk_stop_props [OF "1.prems"(1,2) True]
    show ?thesis
    proof (cases "walk_stop m c e")
      case None
      then have "span_parts m c e = None" using True by (subst span_parts.simps) simp
      then show ?thesis using W(1) [OF None] by auto
    next
      case (Some b)
      note w = W(2) [OF Some]
      define t where "t = min e (pb_end b)"
      have t: "c < t" "t \<le> e" "t \<le> pb_end b" using w True by (auto simp: t_def)
      define q where "q = b\<lparr>pb_start_addr := c, pb_size := t - c\<rparr>"
      have st: "span_parts m c e = map_option (\<lambda>ps. q # ps) (span_parts m t e)"
        using True Some by (subst span_parts.simps) (simp add: q_def t_def)
      have IH: "(span_parts m t e \<noteq> None \<longleftrightarrow> (\<forall>a. t \<le> a \<and> a < e \<longrightarrow> direct_at m a)) \<and>
          (\<forall>ps. span_parts m t e = Some ps \<longrightarrow> disjoint (block_spans (part_map ps)) \<and>
             (\<forall>x \<in> set ps. t \<le> pb_start_addr x) \<and>
             (\<forall>a. phys_attr (part_map ps) a = (if t \<le> a \<and> a < e then phys_attr m a else None)))"
        using "1.IH" [OF True Some "1.prems"(1,2)] t(2) by (simp add: t_def)
      have iff: "span_parts m c e \<noteq> None \<longleftrightarrow> (\<forall>a. c \<le> a \<and> a < e \<longrightarrow> direct_at m a)"
        using IH w all_from [of c t "direct_at m" e] t by (simp add: st flip: t_def)
      obtain xs ys where xy: "m = xs @ (pb_start_addr b, b) # ys" using w by (meson split_list)
      have at: "phys_attr m a = Some (pb_memory_type b, pb_pool_expansion b)" if "c \<le> a" "a < t" for a
        using phys_attr_block [OF "1.prems"(1) [unfolded xy], of a] that w t
        by (simp add: xy pb_end_def) (meson order.strict_trans2 order_trans)
      have "disjoint (block_spans (part_map ps)) \<and> (\<forall>x \<in> set ps. c \<le> pb_start_addr x) \<and>
          (\<forall>a. phys_attr (part_map ps) a = (if c \<le> a \<and> a < e then phys_attr m a else None))"
        if some: "span_parts m c e = Some ps" for ps
      proof -
        obtain rs where rs: "span_parts m t e = Some rs" "ps = q # rs" using some by (auto simp: st)
        have I: "disjoint (block_spans (part_map rs))" "\<And>x. x \<in> set rs \<Longrightarrow> t \<le> pb_start_addr x"
          "\<And>a. phys_attr (part_map rs) a = (if t \<le> a \<and> a < e then phys_attr m a else None)"
          using IH rs(1) by auto
        have "disjoint (block_spans (part_map ps))"
          using I(1,2) t(1) by (auto simp: rs(2) part_map_def q_def disjoint_Cons span_ok_def fits_diff block_spans_def)
        moreover have "\<forall>x \<in> set ps. c \<le> pb_start_addr x"
          using I(2) t(1) by (auto simp: rs(2) q_def intro: order_trans less_imp_le)
        moreover have "phys_attr (part_map ps) a = (if c \<le> a \<and> a < e then phys_attr m a else None)" for a
        proof -
          have "phys_attr (part_map ps) a = (if c \<le> a \<and> a < t
              then Some (pb_memory_type b, pb_pool_expansion b) else phys_attr (part_map rs) a)"
            by (simp add: rs(2) part_map_def q_def in_range_def)
          then show ?thesis using I(3) [of a] at [of a] t by auto
        qed
        ultimately show ?thesis by blast
      qed
      then show ?thesis using iff by blast
    qed
  qed
qed

lemma pm_GetAllocatedSpan_props:
  assumes inv: "pm_inv sz pm"
  shows "pm_GetAllocatedSpan pm p len \<noteq> None \<longleftrightarrow> direct_span pm p len"
    and "pm_GetAllocatedSpan pm p len = Some ps \<Longrightarrow>
      disjoint (block_spans (part_map ps)) \<and>
      phys_attr (part_map ps) a = (if in_range p len a then phys_attr (pm_physical pm) a else None)"
proof -
  have g: "pm_GetAllocatedSpan pm p len =
      (if len = 0 \<or> \<not> fits p len then None else span_parts (pm_physical pm) p (p + len))"
    by (simp add: pm_GetAllocatedSpan_def not_fits)
  note sp = span_parts_props [OF pm_inv_D(2,3) [OF inv] fits_le [of p len]]
  show "pm_GetAllocatedSpan pm p len \<noteq> None \<longleftrightarrow> direct_span pm p len"
    using sp by (auto simp: g direct_span_def in_range_def simp del: not_None_eq)
  show "pm_GetAllocatedSpan pm p len = Some ps \<Longrightarrow>
      disjoint (block_spans (part_map ps)) \<and>
      phys_attr (part_map ps) a = (if in_range p len a then phys_attr (pm_physical pm) a else None)"
    using sp by (auto simp: g in_range_def split: if_splits)
qed

end
