(* ===== verification/PhysicalMemoryProps.thy ===== *)
theory PhysicalMemoryProps
  imports PhysicalMappings
begin

text \<open>
  The properties of direct memory, each with an instance. The sample store has one megabyte, one
  allocated block at 0x4000, and a mapping of that block at 0x200000.
\<close>

definition sample_flexible :: u64 where "sample_flexible = TotalSize - 0x100000"

definition sample_pm :: physical_memory where
  "sample_pm =
    \<lparr>pm_physical = [(0x4000, new_block 0x4000 0x8000 7 False)],
     pm_free = [(0, 0x4000), (0xC000, 0xF4000)],
     pm_mappings = [(new_block 0x4000 0x8000 7 False)
       \<lparr>pb_map_vaddr := 0x200000, pb_map_size := 0x8000, pb_host_vaddr := 0x200000,
        pb_host_size := 0x8000, pb_prot := 3\<rparr>]\<rparr>"

lemma sample_Size: "pm_Size sample_flexible = Done 0x100000"
  by code_simp

lemma sample_pm_inv: "pm_inv 0x100000 sample_pm"
proof (rule pm_invI)
  show "separate (pm_free sample_pm)" "disjoint (block_spans (pm_physical sample_pm))" by code_simp+
  show "keyed (pm_physical sample_pm)" by (simp add: sample_pm_def keyed_def new_block_def)
  show "phys_free sample_pm a \<or> phys_at sample_pm a \<longleftrightarrow> a < 0x100000" for a
    by (auto simp: sample_pm_def phys_free_def phys_at_def in_range_def new_block_def
        word_less_nat_alt word_le_nat_alt)
  show "\<not> (phys_free sample_pm a \<and> phys_at sample_pm a)" for a
    by (auto simp: sample_pm_def phys_free_def phys_at_def in_range_def new_block_def
        word_less_nat_alt word_le_nat_alt)
qed

lemma sample_maps_ok: "maps_ok (pm_mappings sample_pm)"
  by (simp add: sample_pm_def maps_ok_simps pm_maps.rok_def new_block_def fits_unat)

text \<open>C3. Allocation is complete first fit. On a store that keeps the invariant it never hits
  its internal assertion; it fails only when no aligned position of the search window is free for
  the whole length, and otherwise returns the least such position, moves exactly that span from
  free to allocated, and keeps free ranges and blocks a partition of the store.\<close>

theorem physical_alloc_correct:
  assumes "pm_inv sz pm" and "pm_Size fl = Done sz" and "len \<noteq> 0"
  shows "\<exists>r pm'. pm_Alloc fl pm ss se len al mt pe = Done (r, pm') \<and> pm_inv sz pm' \<and>
    (case r of
       None \<Rightarrow> pm' = pm \<and> (\<forall>q. \<not> candidate ss (min se sz) len al (phys_free pm) q)
     | Some p \<Rightarrow>
         candidate ss (min se sz) len al (phys_free pm) p \<and>
         (\<forall>q. candidate ss (min se sz) len al (phys_free pm) q \<longrightarrow> p \<le> q) \<and>
         map_of (pm_physical pm') p = Some (new_block p len mt pe) \<and>
         (\<forall>a. phys_at pm' a \<longleftrightarrow> phys_at pm a \<or> in_range p len a) \<and>
         (\<forall>a. phys_free pm' a \<longleftrightarrow> phys_free pm a \<and> \<not> in_range p len a))"
  using pm_Alloc_props [OF assms] .

theorem physical_alloc_witness:
  "\<exists>pm'. pm_Alloc sample_flexible sample_pm 0x1000 0x100000 0x4000 0x10000 1 False = Done (Some 0x10000, pm') \<and>
     pm_inv 0x100000 pm' \<and> phys_at pm' 0x11000 \<and> \<not> phys_free pm' 0x11000"
proof -
  have "map_option fst (case pm_Alloc sample_flexible sample_pm 0x1000 0x100000 0x4000 0x10000 1 False of
      Exit \<Rightarrow> None | Done x \<Rightarrow> Some x) = Some (Some 0x10000)" by code_simp
  moreover obtain r pm' where A: "pm_Alloc sample_flexible sample_pm 0x1000 0x100000 0x4000 0x10000 1 False = Done (r, pm')"
    and I: "pm_inv 0x100000 pm'"
    and C: "case r of None \<Rightarrow> pm' = sample_pm \<and> (\<forall>q. \<not> candidate 0x1000 (min 0x100000 0x100000) 0x4000 0x10000 (phys_free sample_pm) q)
     | Some p \<Rightarrow>
         candidate 0x1000 (min 0x100000 0x100000) 0x4000 0x10000 (phys_free sample_pm) p \<and>
         (\<forall>q. candidate 0x1000 (min 0x100000 0x100000) 0x4000 0x10000 (phys_free sample_pm) q \<longrightarrow> p \<le> q) \<and>
         map_of (pm_physical pm') p = Some (new_block p 0x4000 1 False) \<and>
         (\<forall>a. phys_at pm' a \<longleftrightarrow> phys_at sample_pm a \<or> in_range p 0x4000 a) \<and>
         (\<forall>a. phys_free pm' a \<longleftrightarrow> phys_free sample_pm a \<and> \<not> in_range p 0x4000 a)"
    using physical_alloc_correct [OF sample_pm_inv sample_Size, where len = "0x4000" and ss = "0x1000"
        and se = "0x100000" and al = "0x10000" and mt = 1 and pe = False] by auto
  ultimately have "r = Some 0x10000" by simp
  moreover have "in_range 0x10000 0x4000 0x11000" by code_simp
  ultimately show ?thesis using A I C by auto
qed

text \<open>C4. \<open>Release\<close> succeeds exactly when the span lies in one block that is not a
  pool expansion. Then the span, and nothing else, becomes free, every address outside it keeps its
  memory type, and the partition invariant holds; otherwise nothing changes.\<close>

theorem physical_release_correct:
  assumes "pm_inv sz pm" and "fits s len" and "len \<noteq> 0" and "pm_Release pm s len = (r, pm')"
  shows "(r \<noteq> None \<longleftrightarrow> releasable pm s len) \<and> pm_inv sz pm' \<and>
    (if r = None then pm' = pm
     else (\<forall>a. phys_free pm' a \<longleftrightarrow> phys_free pm a \<or> in_range s len a) \<and>
          (\<forall>a. phys_attr (pm_physical pm') a =
             (if in_range s len a then None else phys_attr (pm_physical pm) a)))"
  using pm_Release_props [OF assms] by auto

theorem physical_release_witness:
  "fst (pm_Release sample_pm 0x6000 0x2000) \<noteq> None \<and> pm_inv 0x100000 (snd (pm_Release sample_pm 0x6000 0x2000)) \<and>
   phys_free (snd (pm_Release sample_pm 0x6000 0x2000)) 0x6000"
proof -
  have f: "fits 0x6000 0x2000" "(0x2000 :: u64) \<noteq> 0" by code_simp+
  have s: "fst (pm_Release sample_pm 0x6000 0x2000) \<noteq> None" by code_simp
  have "in_range 0x6000 0x2000 0x6000" by code_simp
  then show ?thesis
    using physical_release_correct [OF sample_pm_inv f surjective_pairing] s by auto
qed

text \<open>\<open>Map\<close> succeeds exactly on non-empty spans of physical memory that are
  allocated, and not to the pool, at every address, however many blocks they cross. Each virtual
  address of the span then names its physical address with the given protection; other addresses,
  the blocks and the free ranges are untouched.\<close>

lemma physical_map_correct:
  assumes "pm_inv sz pm" and "maps_ok (pm_mappings pm)" and "fits v len"
    and "\<And>a. in_range v len a \<Longrightarrow> map_view (pm_mappings pm) a = None"
    and "pm_Map pm v p len prot mode gpu = (done, pm')"
  shows "(done \<longleftrightarrow> direct_span pm p len) \<and> pm_inv sz pm' \<and> maps_ok (pm_mappings pm') \<and>
    (if done then \<exists>mt nm. map_view (pm_mappings pm') a =
           (if in_range v len a
            then Some \<lparr>ma_phys = p + (a - v), ma_prot = prot, ma_mode = mode, ma_gpu = gpu,
                       ma_memory_type = mt, ma_name = nm\<rparr>
            else map_view (pm_mappings pm) a)
     else pm' = pm)"
  using pm_Map_props [OF assms] by auto

theorem physical_map_witness:
  "fst (pm_Map sample_pm 0x300000 0x6000 0x4000 1 Read GpuNoAccess) \<and>
   map_option ma_phys (map_view (pm_mappings (snd (pm_Map sample_pm 0x300000 0x6000 0x4000 1 Read GpuNoAccess))) 0x301000)
     = Some 0x7000"
proof -
  have f: "fits 0x300000 0x4000" by code_simp
  have n: "map_view (pm_mappings sample_pm) a = None" if "in_range 0x300000 0x4000 a" for a
    using that by (auto simp: sample_pm_def map_view_def new_block_def map_end_def in_range_def
        word_less_nat_alt word_le_nat_alt)
  have s: "fst (pm_Map sample_pm 0x300000 0x6000 0x4000 1 Read GpuNoAccess)" by code_simp
  have "in_range 0x300000 0x4000 0x301000" by code_simp
  then show ?thesis
    using physical_map_correct [OF sample_pm_inv sample_maps_ok f n surjective_pairing,
        where p = "0x6000" and prot = 1 and mode = Read and gpu = GpuNoAccess and a = "0x301000"] s
    by auto
qed

text \<open>\<open>Unmap\<close> succeeds exactly when one mapping contains the span, and then
  removes exactly the addresses of the span from the virtual mapping, cutting or splitting that
  mapping as needed; the remaining parts still name the same physical addresses.\<close>

lemma physical_unmap_correct:
  assumes "maps_ok (pm_mappings pm)" and "fits v z" and "z \<noteq> 0" and "pm_Unmap pm v z = (r, pm')"
  shows "(r \<noteq> None \<longleftrightarrow> (\<exists>b \<in> set (pm_mappings pm). holds_span b v z)) \<and> maps_ok (pm_mappings pm') \<and>
    (if r = None then pm' = pm
     else \<forall>a. map_view (pm_mappings pm') a =
            (if in_range v z a then None else map_view (pm_mappings pm) a))"
  using pm_Unmap_props [OF assms] by auto

theorem physical_unmap_witness:
  "fst (pm_Unmap sample_pm 0x202000 0x2000) \<noteq> None \<and>
   map_view (pm_mappings (snd (pm_Unmap sample_pm 0x202000 0x2000))) 0x203000 = None \<and>
   map_option ma_phys (map_view (pm_mappings (snd (pm_Unmap sample_pm 0x202000 0x2000))) 0x205000) = Some 0x9000"
proof -
  have f: "fits 0x202000 0x2000" "(0x2000 :: u64) \<noteq> 0" by code_simp+
  have s: "fst (pm_Unmap sample_pm 0x202000 0x2000) \<noteq> None" by code_simp
  have i: "in_range 0x202000 0x2000 0x203000" "\<not> in_range 0x202000 0x2000 0x205000" by code_simp+
  have "map_option ma_phys (map_view (pm_mappings sample_pm) 0x205000) = Some 0x9000" by code_simp
  then show ?thesis
    using physical_unmap_correct [OF sample_maps_ok f surjective_pairing] s i by simp
qed

text \<open>\<open>ProtectMapping\<close> changes the protection of exactly the mapped addresses of
  the span (of none when the span is empty or wraps around), keeps their physical addresses, and
  keeps the mappings disjoint.\<close>

lemma physical_protect_correct:
  assumes "maps_ok (pm_mappings pm)"
  shows "maps_ok (pm_mappings (pm_ProtectMapping pm v z prot mode gpu)) \<and>
    map_view (pm_mappings (pm_ProtectMapping pm v z prot mode gpu)) a =
      map_option (if fits v z \<and> in_range v z a then set_prot prot mode gpu else id)
        (map_view (pm_mappings pm) a)"
  using pm_ProtectMapping_props [OF assms] by simp

theorem physical_protect_witness:
  "map_option ma_prot (map_view (pm_mappings (pm_ProtectMapping sample_pm 0x1FF000 0x4000 1 Read GpuRead)) 0x202000) = Some 1 \<and>
   map_option ma_phys (map_view (pm_mappings (pm_ProtectMapping sample_pm 0x1FF000 0x4000 1 Read GpuRead)) 0x202000) = Some 0x6000"
proof -
  have i: "fits 0x1FF000 0x4000 \<and> in_range 0x1FF000 0x4000 0x202000" by code_simp
  have v: "map_option ma_phys (map_view (pm_mappings sample_pm) 0x202000) = Some 0x6000" by code_simp
  then obtain w where "map_view (pm_mappings sample_pm) 0x202000 = Some w" "ma_phys w = 0x6000" by auto
  then show ?thesis
    using physical_protect_correct [OF sample_maps_ok, where v = "0x1FF000" and z = "0x4000"
        and prot = 1 and mode = Read and gpu = GpuRead and a = "0x202000"] i
    by (simp add: set_prot_def)
qed

text \<open>\<open>CanMapDirect\<close> and \<open>GetAllocatedSpan\<close> accept the same spans,
  the ones that \<open>Map\<close> accepts. The parts that \<open>GetAllocatedSpan\<close> returns are
  disjoint, cover exactly the span, and keep the memory type of every address.\<close>

lemma physical_span_correct:
  assumes "pm_inv sz pm"
  shows "(pm_CanMapDirect pm p len \<longleftrightarrow> direct_span pm p len) \<and>
    (pm_GetAllocatedSpan pm p len \<noteq> None \<longleftrightarrow> direct_span pm p len) \<and>
    (\<forall>ps. pm_GetAllocatedSpan pm p len = Some ps \<longrightarrow> disjoint (block_spans (part_map ps)) \<and>
      (\<forall>a. phys_attr (part_map ps) a = (if in_range p len a then phys_attr (pm_physical pm) a else None)))"
  using pm_CanMapDirect_iff [OF assms] pm_GetAllocatedSpan_props [OF assms] by blast

theorem physical_span_witness:
  "pm_CanMapDirect sample_pm 0x5000 0x7000 \<and> direct_span sample_pm 0x5000 0x7000 \<and>
   \<not> direct_span sample_pm 0x5000 0x8000"
proof -
  have "pm_CanMapDirect sample_pm 0x5000 0x7000" "\<not> pm_CanMapDirect sample_pm 0x5000 0x8000" by code_simp+
  then show ?thesis using physical_span_correct [OF sample_pm_inv] by blast
qed

end
