(* ===== verification/GuestSpace.thy ===== *)
theory GuestSpace
  imports VirtualRanges Spans
begin

text \<open>
  The host side of guest memory: classes \<open>GuestBackingStore\<close> and
  \<open>GuestAddressSpace\<close> of \<open>src/kernel/memoryAddressSpace.inc\<close>, in their Linux
  branches. One record holds both, since the address space owns its store. A call of the host's
  \<open>mmap\<close> or \<open>mprotect\<close> can succeed or fail: the argument \<open>host\<close> gives the
  result of the n-th call, and \<open>gs_clock\<close> counts them.
\<close>

section \<open>State\<close>

record map_entry =
  me_vaddr :: u64
  me_size :: u64
  me_offset :: u64
  me_mode :: host_mode

datatype MappingType = Backing | Private

record mapped_region =
  mr_vaddr :: u64
  mr_size :: u64
  mr_type :: MappingType

datatype FailureReason = NoFailure | BackingUnavailable | PhysicalRangeOutOfBounds
  | FixedMapViewFailed | PlaceholderMapFailed | ProtectFailed | WrongHostAddress
  | AddressRangeUnavailable

record guest =
  gb_available :: bool
  gb_size :: u64
  gb_maps :: "map_entry omap"
  gs_free :: spans
  gs_mapped :: "mapped_region omap"
  gs_owned :: "(u64 \<times> u64) list"
  gs_clock :: nat

type_synonym host = "nat \<Rightarrow> bool"

definition host_call :: "host \<Rightarrow> guest \<Rightarrow> bool \<times> guest" where
  "host_call host g = (host (gs_clock g), g\<lparr>gs_clock := Suc (gs_clock g)\<rparr>)"

section \<open>The backing store\<close>

definition RangeOk :: "guest \<Rightarrow> u64 \<Rightarrow> u64 \<Rightarrow> bool" where
  "RangeOk g backing_offset sz \<longleftrightarrow>
     sz \<noteq> 0 \<and> backing_offset < gb_size g \<and> sz \<le> gb_size g - backing_offset"

text \<open>Whether \<open>ZeroRange\<close> clears the bytes; their values are not part of the model.\<close>

definition ZeroRange :: "guest \<Rightarrow> u64 \<Rightarrow> u64 \<Rightarrow> bool" where
  "ZeroRange g backing_offset sz \<longleftrightarrow> gb_available g \<and> RangeOk g backing_offset sz"

definition MapExistingPlaceholderFixed :: "host \<Rightarrow> guest \<Rightarrow> u64 \<Rightarrow> u64 \<Rightarrow> u64 \<Rightarrow> host_mode \<Rightarrow>
    (FailureReason \<times> guest) outcome" where
  "MapExistingPlaceholderFixed host g vaddr sz backing_offset mode =
    (if \<not> gb_available g then Done (BackingUnavailable, g)
     else if \<not> RangeOk g backing_offset sz then Done (PhysicalRangeOutOfBounds, g)
     else case host_call host g of (mapped, g') \<Rightarrow>
       if \<not> mapped then Done (FixedMapViewFailed, g')
       else if vaddr \<in> set (map fst (gb_maps g')) then Exit
       else Done (NoFailure, g'\<lparr>gb_maps := om_emplace vaddr
              \<lparr>me_vaddr = vaddr, me_size = sz, me_offset = backing_offset, me_mode = mode\<rparr>
              (gb_maps g')\<rparr>))"

definition FindContainingUnlocked :: "map_entry omap \<Rightarrow> u64 \<Rightarrow> u64 \<Rightarrow> map_entry option" where
  "FindContainingUnlocked maps vaddr sz =
    (if sz = 0 \<or> UINT64_MAX - vaddr < sz then None
     else case om_prev vaddr maps of
            None \<Rightarrow> None
          | Some (key, e) \<Rightarrow> if vaddr + sz \<le> me_vaddr e + me_size e then Some e else None)"

text \<open>
  The loop that walks the entries from \<open>current\<close> to \<open>end\<close>: the parts it meets, or
  None when some address has no entry. \<open>Unmap\<close> and \<open>Contains\<close> share it.
\<close>

function entry_parts :: "map_entry omap \<Rightarrow> u64 \<Rightarrow> u64 \<Rightarrow> map_entry list option" where
  "entry_parts maps current end =
    (if current < end then
       (case FindContainingUnlocked maps current 1 of
          None \<Rightarrow> None
        | Some e \<Rightarrow>
            if me_vaddr e + me_size e \<le> current then None
            else
              map_option (\<lambda>ps. \<lparr>me_vaddr = current,
                               me_size = min end (me_vaddr e + me_size e) - current,
                               me_offset = me_offset e + current - me_vaddr e, me_mode = me_mode e\<rparr> # ps)
                (entry_parts maps (min end (me_vaddr e + me_size e)) end))
     else Some [])"
  by pat_completeness auto
termination
  by (relation "measure (\<lambda>(maps, current, end). unat (end - current))")
    (auto simp: not_le intro: walk_measure)

declare entry_parts.simps [simp del]

definition Contains :: "guest \<Rightarrow> u64 \<Rightarrow> u64 \<Rightarrow> bool" where
  "Contains g vaddr sz \<longleftrightarrow>
     \<not> (sz = 0 \<or> UINT64_MAX - vaddr < sz) \<and> entry_parts (gb_maps g) vaddr (vaddr + sz) \<noteq> None"

text \<open>
  \<open>UnmapOne\<close> calls itself when putting a split back after a failure. Those calls name a
  whole entry, so they end in the exact branch: depth 2 is enough, and the bound 0 is the process
  exit that no run reaches.
\<close>

fun UnmapOne :: "nat \<Rightarrow> host \<Rightarrow> guest \<Rightarrow> u64 \<Rightarrow> u64 \<Rightarrow> (bool \<times> guest) outcome" where
  "UnmapOne 0 host g vaddr sz = Exit"
| "UnmapOne (Suc depth) host g vaddr sz =
    (case om_prev vaddr (gb_maps g) of
       None \<Rightarrow> Done (False, g)
     | Some (key, old) \<Rightarrow>
         if \<not> vaddr + sz \<le> me_vaddr old + me_size old then Done (False, g)
         else
           let g1 = g\<lparr>gb_maps := om_erase key (gb_maps g)\<rparr>
           in if me_size old = 0 then Done (False, g1)
              else case host_call host g1 of (unmapped, g2) \<Rightarrow>
                if \<not> unmapped then
                  Done (False, g2\<lparr>gb_maps := om_emplace (me_vaddr old) old (gb_maps g2)\<rparr>)
                else if vaddr = me_vaddr old \<and> sz = me_size old then Done (True, g2)
                else
                  let left_size = vaddr - me_vaddr old;
                      right_addr = vaddr + sz;
                      right_size = me_vaddr old + me_size old - right_addr;
                      right_offset = me_offset old + (right_addr - me_vaddr old)
                  in obind (if left_size \<noteq> 0
                            then MapExistingPlaceholderFixed host g2 (me_vaddr old) left_size
                                   (me_offset old) (me_mode old)
                            else Done (NoFailure, g2)) (\<lambda>(f1, g3).
                     obind (if right_size \<noteq> 0
                            then MapExistingPlaceholderFixed host g3 right_addr right_size
                                   right_offset (me_mode old)
                            else Done (NoFailure, g3)) (\<lambda>(f2, g4).
                     if f1 = NoFailure \<and> f2 = NoFailure then Done (True, g4)
                     else
                       obind (if left_size \<noteq> 0 \<and> Contains g4 (me_vaddr old) left_size
                              then obind (UnmapOne depth host g4 (me_vaddr old) left_size)
                                     (\<lambda>(ok, g). if ok then Done g else Exit)
                              else Done g4) (\<lambda>g5.
                       obind (if right_size \<noteq> 0 \<and> Contains g5 right_addr right_size
                              then obind (UnmapOne depth host g5 right_addr right_size)
                                     (\<lambda>(ok, g). if ok then Done g else Exit)
                              else Done g5) (\<lambda>g6.
                       obind (MapExistingPlaceholderFixed host g6 (me_vaddr old) (me_size old)
                                (me_offset old) (me_mode old)) (\<lambda>(f3, g7).
                       if f3 = NoFailure then Done (False, g7) else Exit))))))"

fun remap_all :: "host \<Rightarrow> map_entry list \<Rightarrow> guest \<Rightarrow> guest outcome" where
  "remap_all host [] g = Done g"
| "remap_all host (e # es) g =
     obind (MapExistingPlaceholderFixed host g (me_vaddr e) (me_size e) (me_offset e) (me_mode e))
       (\<lambda>(f, g'). if f = NoFailure then remap_all host es g' else Exit)"

fun unmap_targets :: "host \<Rightarrow> map_entry list \<Rightarrow> map_entry list \<Rightarrow> guest \<Rightarrow> (bool \<times> guest) outcome" where
  "unmap_targets host [] removed g = Done (True, g)"
| "unmap_targets host (e # es) removed g =
     obind (UnmapOne 2 host g (me_vaddr e) (me_size e)) (\<lambda>(ok, g').
       if ok then unmap_targets host es (e # removed) g'
       else obind (remap_all host removed g') (\<lambda>g''. Done (False, g'')))"

definition gb_Unmap :: "host \<Rightarrow> guest \<Rightarrow> u64 \<Rightarrow> u64 \<Rightarrow> (bool \<times> guest) outcome" where
  "gb_Unmap host g vaddr sz =
    (if sz = 0 \<or> UINT64_MAX - vaddr < sz then Done (False, g)
     else case entry_parts (gb_maps g) vaddr (vaddr + sz) of
            None \<Rightarrow> Done (False, g)
          | Some targets \<Rightarrow> unmap_targets host targets [] g)"


section \<open>Free guest addresses\<close>

definition HOST_SYSTEM_MANAGED_MIN :: u64 where "HOST_SYSTEM_MANAGED_MIN = 0x40000"
definition HOST_SYSTEM_MANAGED_MAX :: u64 where "HOST_SYSTEM_MANAGED_MAX = 0x7FFFFBFFF"
definition HOST_SYSTEM_RESERVED_MIN :: u64 where "HOST_SYSTEM_RESERVED_MIN = HOST_SYSTEM_MANAGED_MAX + 1"
definition HOST_SYSTEM_RESERVED_MAX :: u64 where "HOST_SYSTEM_RESERVED_MAX = 0xFFFFFFFFF"
definition HOST_USER_MIN :: u64 where "HOST_USER_MIN = 0x1000000000"
definition HOST_USER_MAX :: u64 where "HOST_USER_MAX = 0xFBFFFFFFFF"

definition GuestFreeRangeContains :: "u64 \<Rightarrow> u64 \<Rightarrow> u64 \<Rightarrow> u64 \<Rightarrow> bool" where
  "GuestFreeRangeContains base range_size candidate sz =
    (if UINT64_MAX - base < range_size \<or> candidate < base then False
     else let range_end = base + range_size
          in candidate \<le> range_end \<and> sz \<le> range_end - candidate)"

definition PageSize :: u64 where "PageSize = 0x4000"

definition AlignUp :: "u64 \<Rightarrow> u64 \<Rightarrow> u64" where
  "AlignUp v alignment =
    (if alignment = 0 then 0
     else
       let remainder = v mod alignment;
           increment = (if remainder \<noteq> 0 then alignment - remainder else 0)
       in if increment \<le> UINT64_MAX - v then v + increment else 0)"

definition AlignDown :: "u64 \<Rightarrow> u64 \<Rightarrow> u64" where
  "AlignDown v alignment = v AND NOT (alignment - 1)"

definition IsPageAligned :: "u64 \<Rightarrow> bool" where
  "IsPageAligned v \<longleftrightarrow> v AND (PageSize - 1) = 0"

definition FindContaining :: "spans \<Rightarrow> u64 \<Rightarrow> u64 \<Rightarrow> (u64 \<times> u64) option" where
  "FindContaining free vaddr sz =
    (case om_prev vaddr free of
       None \<Rightarrow> None
     | Some e \<Rightarrow> if fst e \<le> vaddr \<and> vaddr + sz \<le> fst e + snd e then Some e else None)"

definition SplitUnlocked :: "u64 \<times> u64 \<Rightarrow> u64 \<Rightarrow> u64 \<Rightarrow> spans \<Rightarrow> spans" where
  "SplitUnlocked it vaddr sz free =
    (let base = fst it;
         end = fst it + snd it
     in if base = vaddr \<and> end = vaddr + sz then free
        else
          let (cur, cur_size, free1) =
                (if base \<noteq> vaddr
                 then (vaddr, end - vaddr,
                       om_emplace vaddr (end - vaddr) (om_assign base (vaddr - base) free))
                 else (base, snd it, free))
          in if cur_size \<noteq> sz
             then om_emplace (cur + sz) (cur_size - sz) (om_assign cur sz free1)
             else free1)"

definition ConsumeUnlocked :: "spans \<Rightarrow> u64 \<Rightarrow> u64 \<Rightarrow> bool \<times> spans" where
  "ConsumeUnlocked free vaddr sz =
    (case FindContaining free vaddr sz of
       None \<Rightarrow> (False, free)
     | Some it \<Rightarrow>
         let free1 = SplitUnlocked it vaddr sz free
         in if map_of free1 vaddr = Some sz then (True, om_erase vaddr free1) else (False, free1))"

fun join_back :: "u64 \<Rightarrow> spans \<Rightarrow> u64 \<times> spans" where
  "join_back base [] = (base, [])"
| "join_back base (p # ps) =
     (if fst p + snd p \<noteq> base then (base, p # ps) else join_back (fst p) ps)"

fun join_next :: "u64 \<Rightarrow> spans \<Rightarrow> u64 \<times> spans" where
  "join_next end [] = (end, [])"
| "join_next end (n # ns) = (if end = fst n then join_next (fst n + snd n) ns else (end, n # ns))"

definition AddFreeUnlocked :: "u64 \<Rightarrow> u64 \<Rightarrow> spans \<Rightarrow> spans" where
  "AddFreeUnlocked vaddr sz free =
    (if vaddr = 0 \<or> sz = 0 then free
     else
       let free1 = (if vaddr \<in> set (map fst free) then om_assign vaddr sz free
                    else om_emplace vaddr sz free);
           (base, first) = join_back vaddr (rev (om_below vaddr free1));
           (end, last) = join_next (vaddr + sz) (om_above vaddr free1)
       in if base \<noteq> vaddr \<or> end \<noteq> vaddr + sz
          then om_emplace base (end - base) (rev first @ last)
          else free1)"

fun find_free :: "u64 \<Rightarrow> u64 \<Rightarrow> u64 \<Rightarrow> u64 \<Rightarrow> spans \<Rightarrow> u64" where
  "find_free search_start search_end sz alignment [] = 0"
| "find_free search_start search_end sz alignment (e # es) =
    (let candidate = AlignUp (max (fst e) search_start) alignment
     in if candidate < search_end \<and> sz \<le> search_end - candidate \<and>
           GuestFreeRangeContains (fst e) (snd e) candidate sz
        then candidate else find_free search_start search_end sz alignment es)"

definition FindFreeAlignedUnlocked :: "spans \<Rightarrow> u64 \<Rightarrow> u64 \<Rightarrow> u64 \<Rightarrow> u64 \<Rightarrow> u64" where
  "FindFreeAlignedUnlocked free search_start search_end sz alignment =
    (if search_end \<le> search_start \<or> search_end - search_start < sz then 0
     else find_free search_start search_end sz alignment free)"

definition gs_ReserveAligned :: "guest \<Rightarrow> u64 \<Rightarrow> u64 \<Rightarrow> u64 \<Rightarrow> u64" where
  "gs_ReserveAligned g search_addr sz alignment =
    (if sz = 0 then 0
     else
       let alignment' = max (if alignment \<noteq> 0 then alignment else PageSize) PageSize
       in if search_addr = 0 then
            let addr = FindFreeAlignedUnlocked (gs_free g) HOST_SYSTEM_MANAGED_MIN
                         (HOST_SYSTEM_MANAGED_MAX + 1) sz alignment'
            in if addr \<noteq> 0 then addr
               else FindFreeAlignedUnlocked (gs_free g) HOST_USER_MIN (HOST_USER_MAX + 1) sz alignment'
          else FindFreeAlignedUnlocked (gs_free g) search_addr (HOST_USER_MAX + 1) sz alignment')"

definition gs_FindFreeAligned :: "guest \<Rightarrow> u64 \<Rightarrow> u64 \<Rightarrow> u64 \<Rightarrow> u64 \<Rightarrow> u64" where
  "gs_FindFreeAligned g search_start search_end sz alignment =
    (if sz = 0 \<or> alignment = 0 then 0
     else FindFreeAlignedUnlocked (gs_free g) search_start search_end sz (max alignment PageSize))"

definition gs_ReserveFixed :: "guest \<Rightarrow> u64 \<Rightarrow> u64 \<Rightarrow> bool" where
  "gs_ReserveFixed g vaddr sz \<longleftrightarrow>
     \<not> (vaddr = 0 \<or> sz = 0 \<or> \<not> IsPageAligned vaddr \<or> \<not> IsPageAligned sz) \<and>
     FindContaining (gs_free g) vaddr sz \<noteq> None"

definition gs_ReleaseFree :: "guest \<Rightarrow> u64 \<Rightarrow> u64 \<Rightarrow> bool" where
  "gs_ReleaseFree g vaddr sz \<longleftrightarrow> FindContaining (gs_free g) vaddr sz \<noteq> None"

definition gs_Owns :: "guest \<Rightarrow> u64 \<Rightarrow> u64 \<Rightarrow> bool" where
  "gs_Owns g vaddr sz \<longleftrightarrow> \<not> (sz = 0 \<or> UINT64_MAX - vaddr < sz) \<and>
     list_ex (\<lambda>r. fst r \<le> vaddr \<and> vaddr + sz \<le> fst r + snd r) (gs_owned g)"

definition gs_OverlapsOwned :: "guest \<Rightarrow> u64 \<Rightarrow> u64 \<Rightarrow> bool" where
  "gs_OverlapsOwned g vaddr sz \<longleftrightarrow> \<not> (sz = 0 \<or> UINT64_MAX - vaddr < sz) \<and>
     list_ex (\<lambda>r. VirtualRangesOverlap vaddr sz (fst r) (snd r)) (gs_owned g)"

section \<open>Mapped guest addresses\<close>

definition FindMappedContainingUnlocked :: "mapped_region omap \<Rightarrow> u64 \<Rightarrow> (u64 \<times> mapped_region) option" where
  "FindMappedContainingUnlocked mapped vaddr =
    (case om_prev vaddr mapped of
       None \<Rightarrow> None
     | Some (key, r) \<Rightarrow> if vaddr < mr_vaddr r + mr_size r then Some (key, r) else None)"

lemma FindMapped_end: "FindMappedContainingUnlocked mapped vaddr = Some (key, r) \<Longrightarrow>
    vaddr < mr_vaddr r + mr_size r"
  by (auto simp: FindMappedContainingUnlocked_def split: option.splits if_splits)

function mapped_walk :: "mapped_region omap \<Rightarrow> MappingType \<Rightarrow> u64 \<Rightarrow> u64 \<Rightarrow> bool" where
  "mapped_walk mapped type current end =
    (if current < end then
       (case FindMappedContainingUnlocked mapped current of
          None \<Rightarrow> False
        | Some (key, r) \<Rightarrow>
            if mr_type r \<noteq> type then False
            else mapped_walk mapped type (min end (mr_vaddr r + mr_size r)) end)
     else True)"
  by pat_completeness auto
termination
  by (relation "measure (\<lambda>(mapped, type, current, end). unat (end - current))")
    (auto dest: FindMapped_end intro: walk_measure)

declare mapped_walk.simps [simp del]

definition ContainsMappedUnlocked :: "mapped_region omap \<Rightarrow> u64 \<Rightarrow> u64 \<Rightarrow> MappingType \<Rightarrow> bool" where
  "ContainsMappedUnlocked mapped vaddr sz type \<longleftrightarrow>
     \<not> (sz = 0 \<or> UINT64_MAX - vaddr < sz) \<and> mapped_walk mapped type vaddr (vaddr + sz)"

definition AddMappedUnlocked :: "mapped_region omap \<Rightarrow> u64 \<Rightarrow> u64 \<Rightarrow> MappingType \<Rightarrow>
    mapped_region omap option" where
  "AddMappedUnlocked mapped vaddr sz type =
    (if sz = 0 \<or> UINT64_MAX - vaddr < sz then None
     else
       let next = om_from vaddr mapped;
           pre = om_below vaddr mapped
       in if next \<noteq> [] \<and> mr_vaddr (snd (hd next)) < vaddr + sz then None
          else if pre \<noteq> [] \<and> vaddr < mr_vaddr (snd (last pre)) + mr_size (snd (last pre)) then None
          else if vaddr \<in> set (map fst mapped) then None
          else Some (om_emplace vaddr \<lparr>mr_vaddr = vaddr, mr_size = sz, mr_type = type\<rparr> mapped))"

definition add_part :: "mapped_region omap \<Rightarrow> u64 \<Rightarrow> u64 \<Rightarrow> MappingType \<Rightarrow> mapped_region omap outcome" where
  "add_part mapped start end type =
    (if start < end
     then (case AddMappedUnlocked mapped start (end - start) type of None \<Rightarrow> Exit | Some m \<Rightarrow> Done m)
     else Done mapped)"

function remove_walk :: "mapped_region omap \<Rightarrow> u64 \<Rightarrow> u64 \<Rightarrow> mapped_region omap outcome" where
  "remove_walk mapped current end =
    (if current < end then
       (case FindMappedContainingUnlocked mapped current of
          None \<Rightarrow> Exit
        | Some (key, r) \<Rightarrow>
            let part_end = min end (mr_vaddr r + mr_size r)
            in case add_part (om_erase key mapped) (mr_vaddr r) current (mr_type r) of
                 Exit \<Rightarrow> Exit
               | Done m1 \<Rightarrow>
                   (case add_part m1 part_end (mr_vaddr r + mr_size r) (mr_type r) of
                      Exit \<Rightarrow> Exit
                    | Done m2 \<Rightarrow> remove_walk m2 part_end end))
     else Done mapped)"
  by pat_completeness auto
termination
  by (relation "measure (\<lambda>(mapped, current, end). unat (end - current))")
    (auto dest: FindMapped_end intro: walk_measure)

declare remove_walk.simps [simp del]

definition RemoveMappedUnlocked :: "mapped_region omap \<Rightarrow> u64 \<Rightarrow> u64 \<Rightarrow> MappingType \<Rightarrow>
    mapped_region omap option outcome" where
  "RemoveMappedUnlocked mapped vaddr sz type =
    (if \<not> ContainsMappedUnlocked mapped vaddr sz type then Done None
     else obind (remove_walk mapped vaddr (vaddr + sz)) (\<lambda>m. Done (Some m)))"

definition host_mode_for :: "host_mode \<Rightarrow> host_mode" where
  "host_mode_for mode = (if IsExecute mode then ExecuteReadWrite else ReadWrite)"

definition gs_MapBacking :: "host \<Rightarrow> guest \<Rightarrow> u64 \<Rightarrow> u64 \<Rightarrow> u64 \<Rightarrow> host_mode \<Rightarrow>
    (FailureReason \<times> guest) outcome" where
  "gs_MapBacking host g vaddr sz backing_offset mode =
    (case ConsumeUnlocked (gs_free g) vaddr sz of (consumed, free) \<Rightarrow>
       let g1 = g\<lparr>gs_free := free\<rparr>
       in if \<not> consumed then Done (AddressRangeUnavailable, g1)
          else obind (MapExistingPlaceholderFixed host g1 vaddr sz backing_offset (host_mode_for mode))
            (\<lambda>(f, g2).
              if f = NoFailure then
                (case AddMappedUnlocked (gs_mapped g2) vaddr sz Backing of
                   None \<Rightarrow> Exit
                 | Some m \<Rightarrow> Done (NoFailure, g2\<lparr>gs_mapped := m\<rparr>))
              else Done (f, g2\<lparr>gs_free := AddFreeUnlocked vaddr sz (gs_free g2)\<rparr>)))"

definition gs_UnmapBacking :: "host \<Rightarrow> guest \<Rightarrow> u64 \<Rightarrow> u64 \<Rightarrow> (bool \<times> guest) outcome" where
  "gs_UnmapBacking host g vaddr sz =
    (if \<not> ContainsMappedUnlocked (gs_mapped g) vaddr sz Backing then Done (False, g)
     else obind (gb_Unmap host g vaddr sz) (\<lambda>(ok, g1).
       if \<not> ok then Done (False, g1)
       else obind (RemoveMappedUnlocked (gs_mapped g1) vaddr sz Backing) (\<lambda>r.
         case r of
           None \<Rightarrow> Exit
         | Some m \<Rightarrow> Done (True, g1\<lparr>gs_mapped := m, gs_free := AddFreeUnlocked vaddr sz (gs_free g1)\<rparr>))))"

definition gs_Commit :: "host \<Rightarrow> guest \<Rightarrow> u64 \<Rightarrow> u64 \<Rightarrow> (bool \<times> guest) outcome" where
  "gs_Commit host g vaddr sz =
    (case ConsumeUnlocked (gs_free g) vaddr sz of (consumed, free) \<Rightarrow>
       if \<not> consumed then Done (False, g\<lparr>gs_free := free\<rparr>)
       else case host_call host (g\<lparr>gs_free := free\<rparr>) of (ok, g1) \<Rightarrow>
         if ok then
           (case AddMappedUnlocked (gs_mapped g1) vaddr sz Private of
              None \<Rightarrow> Exit
            | Some m \<Rightarrow> Done (True, g1\<lparr>gs_mapped := m\<rparr>))
         else Done (False, g1\<lparr>gs_free := AddFreeUnlocked vaddr sz (gs_free g1)\<rparr>))"

text \<open>\<open>RestorePlaceholder\<close> exits when the host refuses; one call per mapped region.\<close>

function restore_parts :: "host \<Rightarrow> guest \<Rightarrow> u64 \<Rightarrow> u64 \<Rightarrow> guest outcome" where
  "restore_parts host g current end =
    (if current < end then
       (case FindMappedContainingUnlocked (gs_mapped g) current of
          None \<Rightarrow> Exit
        | Some (key, r) \<Rightarrow>
            (case host_call host g of (ok, g1) \<Rightarrow>
              if ok then restore_parts host g1 (min end (mr_vaddr r + mr_size r)) end else Exit))
     else Done g)"
  by pat_completeness auto
termination
  by (relation "measure (\<lambda>(host, g, current, end). unat (end - current))")
    (auto dest: FindMapped_end intro: walk_measure)

declare restore_parts.simps [simp del]

definition gs_ReleaseCommitted :: "host \<Rightarrow> guest \<Rightarrow> u64 \<Rightarrow> u64 \<Rightarrow> (bool \<times> guest) outcome" where
  "gs_ReleaseCommitted host g vaddr sz =
    (if vaddr = 0 \<or> sz = 0 \<or> \<not> IsPageAligned vaddr \<or> \<not> IsPageAligned sz then Done (False, g)
     else if \<not> ContainsMappedUnlocked (gs_mapped g) vaddr sz Private then Done (False, g)
     else obind (restore_parts host g vaddr (vaddr + sz)) (\<lambda>g1.
       obind (RemoveMappedUnlocked (gs_mapped g1) vaddr sz Private) (\<lambda>r.
         case r of
           None \<Rightarrow> Exit
         | Some m \<Rightarrow> Done (True, g1\<lparr>gs_mapped := m, gs_free := AddFreeUnlocked vaddr sz (gs_free g1)\<rparr>))))"

text \<open>The host calls of \<open>Protect\<close>: stops at the first one that fails.\<close>

fun protect_regions :: "host \<Rightarrow> guest \<Rightarrow> u64 \<Rightarrow> u64 \<Rightarrow> mapped_region omap \<Rightarrow> bool \<times> guest" where
  "protect_regions host g vaddr end [] = (True, g)"
| "protect_regions host g vaddr end (e # es) =
    (if \<not> mr_vaddr (snd e) < end then (True, g)
     else
       let range_start = max vaddr (mr_vaddr (snd e));
           range_end = min end (mr_vaddr (snd e) + mr_size (snd e))
       in if range_start < range_end
          then (case host_call host g of (ok, g1) \<Rightarrow>
                  if ok then protect_regions host g1 vaddr end es else (False, g1))
          else protect_regions host g vaddr end es)"

definition gs_Protect :: "host \<Rightarrow> guest \<Rightarrow> u64 \<Rightarrow> u64 \<Rightarrow> bool \<times> guest" where
  "gs_Protect host g vaddr sz =
    (if sz = 0 \<or> UINT64_MAX - vaddr < sz then (False, g)
     else protect_regions host g vaddr (vaddr + sz)
            (case om_prev vaddr (gs_mapped g) of
               None \<Rightarrow> gs_mapped g
             | Some e \<Rightarrow> e # om_above vaddr (gs_mapped g)))"

end
