(* ===== verification/GuestSpaceSpec.thy ===== *)
theory GuestSpaceSpec
  imports GuestSpace Regions
begin

text \<open>
  What the host side of guest memory guarantees. Unmapping a span of the backing store is
  all-or-nothing for every behaviour of the host: unless the process exits, either exactly the span
  lost its view or every address kept it. The free list is an instance of the free list interface,
  and owned addresses are free or mapped, never both.
\<close>

section \<open>The free list\<close>

lemma om_below_mid:
  "\<forall>x \<in> set xs. fst x < k \<Longrightarrow> om_below k (xs @ (k, v) # ys) = xs"
  "\<forall>x \<in> set xs. fst x < k \<Longrightarrow> \<forall>y \<in> set ys. k < fst y \<Longrightarrow> om_above k (xs @ (k, v) # ys) = ys"
proof -
  assume x: "\<forall>x \<in> set xs. fst x < k"
  then show "om_below k (xs @ (k, v) # ys) = xs" by (simp add: om_below_def)
  assume y: "\<forall>y \<in> set ys. k < fst y"
  have "\<forall>e \<in> set xs. fst e \<le> k" using x by (auto simp: less_imp_le)
  moreover have "dropWhile (\<lambda>e. fst e \<le> k) ys = ys" using y by (cases ys) auto
  ultimately show "om_above k (xs @ (k, v) # ys) = ys" by (simp add: om_above_def)
qed

lemma join_back_eq:
  assumes "separate xs"
  shows "join_back v (rev xs) =
    (if xs \<noteq> [] \<and> fst (last xs) + snd (last xs) = v then (fst (last xs), rev (butlast xs)) else (v, rev xs))"
proof (cases xs rule: rev_cases)
  case Nil
  then show ?thesis by simp
next
  case (snoc us e)
  show ?thesis
  proof (cases "fst e + snd e = v")
    case True
    have "join_back (fst e) (rev us) = (fst e, rev us)"
    proof (cases us rule: rev_cases)
      case (snoc ws d)
      have "fst d + snd d < fst e" using assms by (simp add: \<open>xs = us @ [e]\<close> snoc separate_append separate_Cons)
      then show ?thesis by (auto simp: snoc)
    qed simp
    then show ?thesis using True by (simp add: snoc)
  qed (simp add: snoc)
qed

lemma join_next_eq:
  assumes "separate ys"
  shows "join_next t ys = (if ys \<noteq> [] \<and> fst (hd ys) = t then (fst (hd ys) + snd (hd ys), tl ys) else (t, ys))"
proof (cases ys)
  case (Cons e us)
  show ?thesis
  proof (cases "fst e = t")
    case True
    have "join_next (fst e + snd e) us = (fst e + snd e, us)"
    proof (cases us)
      case (Cons d ws)
      have "fst e + snd e < fst d" using assms by (simp add: \<open>ys = e # us\<close> Cons separate_Cons)
      then show ?thesis by (auto simp: Cons)
    qed simp
    then show ?thesis using True by (simp add: Cons)
  qed (auto simp: Cons)
qed simp

lemma absorb_touching:
  assumes "separate ys" and "\<forall>y \<in> set ys. t \<le> fst y"
  shows "absorb t ys = (if ys \<noteq> [] \<and> fst (hd ys) = t then (fst (hd ys) + snd (hd ys), tl ys) else (t, ys))"
proof (cases ys)
  case (Cons e us)
  have e: "t \<le> fst e" "fst e < fst e + snd e"
    using assms span_less by (auto simp: Cons separate_Cons)
  show ?thesis
  proof (cases "fst e = t")
    case True
    have "absorb (fst e + snd e) us = (fst e + snd e, us)"
    proof (cases us)
      case (Cons d ws)
      have "fst e + snd e < fst d" using assms(1) by (simp add: \<open>ys = e # us\<close> Cons separate_Cons)
      then have "\<not> fst d \<le> fst e + snd e" by (simp add: not_le)
      then show ?thesis by (simp add: Cons)
    qed simp
    moreover have "max t (fst e + snd e) = fst e + snd e" using e(2) True by (simp add: max_absorb2 less_imp_le)
    ultimately show ?thesis using True by (simp add: Cons)
  next
    case False
    then have "\<not> fst e \<le> t" using e(1) by auto
    then show ?thesis using False by (simp add: Cons)
  qed
qed simp

text \<open>
  On a span that is not free yet, the neighbour-joining insertion of \<open>GuestAddressSpace\<close>
  computes the same list as \<open>AddFreeRange\<close>.
\<close>

lemma AddFreeUnlocked_eq:
  assumes m: "separate free" and f: "fits v z" "z \<noteq> 0" and v: "v \<noteq> 0"
    and n: "\<And>a. in_range v z a \<Longrightarrow> \<not> sp_at free a"
  shows "AddFreeUnlocked v z free = AddFreeRange v z free"
proof -
  have om: "ordered free" using m by (blast intro: disjoint_ordered separate_disjoint)
  define xs ys where "xs = om_below v free" and "ys = om_from v free"
  have xy: "free = xs @ ys" unfolding xs_def ys_def by (rule om_below_from)
  have x: "\<forall>x \<in> set xs. fst x < v" using om_below_less by (auto simp: xs_def)
  have s: "separate xs" "separate ys" using m by (auto simp: xy separate_append)
  have lt: "v < v + z" using f by (rule fits_less)
  have y: "\<forall>y \<in> set ys. v + z \<le> fst y"
  proof
    fix y assume y: "y \<in> set ys"
    have "v \<le> fst y" using om_from_ge [OF om] y by (simp add: ys_def)
    moreover have "span_ok y" using s(2) y by (simp add: separate_def list_all_iff)
    then have "sp_at free (fst y)"
      using y span_less by (auto simp: xy sp_at_def in_range_def)
    then have "\<not> in_range v z (fst y)" using n by blast
    ultimately show "v + z \<le> fst y" by (auto simp: in_range_def)
  qed
  have y': "\<forall>y \<in> set ys. v < fst y" using y lt by (auto intro: order.strict_trans2)
  have last: "fst (last xs) + snd (last xs) \<le> v" if "xs \<noteq> []"
  proof (rule ccontr)
    assume "\<not> ?thesis"
    then have "in_range (fst (last xs)) (snd (last xs)) v" using x that by (simp add: in_range_def less_imp_le)
    then have "sp_at free v" using that by (auto simp: xy sp_at_def)
    then show False using n [of v] lt by (simp add: in_range_def)
  qed
  have nk: "v \<notin> set (map fst free)"
  proof -
    have "fst e \<noteq> v" if "e \<in> set free" for e using that x y' by (auto simp: xy)
    then show ?thesis by auto
  qed
  define jb where "jb \<longleftrightarrow> xs \<noteq> [] \<and> fst (last xs) + snd (last xs) = v"
  define jn where "jn \<longleftrightarrow> ys \<noteq> [] \<and> fst (hd ys) = v + z"
  define base where "base = (if jb then fst (last xs) else v)"
  define kept where "kept = (if jb then butlast xs else xs)"
  define en where "en = (if jn then fst (hd ys) + snd (hd ys) else v + z)"
  define rest where "rest = (if jn then tl ys else ys)"
  have fr1: "om_emplace v z free = xs @ (v, z) # ys" using om_emplace_eq [OF x y'] by (simp add: xy)
  have "join_back v (rev xs) = (base, rev kept)"
    using join_back_eq [OF s(1), of v] by (simp add: base_def kept_def jb_def)
  moreover have "join_next (v + z) ys = (en, rest)"
    using join_next_eq [OF s(2), of "v + z"] by (simp add: en_def rest_def jn_def)
  ultimately have A: "AddFreeUnlocked v z free = (if base \<noteq> v \<or> en \<noteq> v + z
      then om_emplace base (en - base) (kept @ rest) else xs @ (v, z) # ys)"
    using v f(2) nk by (simp add: AddFreeUnlocked_def Let_def fr1 om_below_mid x y' del: set_map)
  have jb: "(xs \<noteq> [] \<and> v \<le> fst (last xs) + snd (last xs)) = jb"
    using last by (auto simp: jb_def)
  have mx: "max (v + z) (fst (last xs) + snd (last xs)) = v + z" if "xs \<noteq> []"
    using last [OF that] lt by (auto simp: max_def intro: antisym order_trans less_imp_le)
  have "AddFreeRange v z free = om_emplace base (en - base) (kept @ rest)"
    using absorb_touching [OF s(2) y] mx
    unfolding AddFreeRange_def Let_def xs_def [symmetric] ys_def [symmetric] jb
    by (auto simp: base_def kept_def en_def rest_def jb_def jn_def)
  moreover have "om_emplace base (en - base) (kept @ rest) = xs @ (v, z) # ys"
    if b: "base = v" and e: "en = v + z"
  proof -
    have "\<not> jb" using b x by (auto simp: base_def jb_def split: if_splits)
    moreover have "\<not> jn"
    proof
      assume j: "jn"
      then have "span_ok (hd ys)" using s(2) by (auto simp: jn_def separate_def list_all_iff)
      then show False using j e span_less [of "hd ys"] by (auto simp: en_def jn_def)
    qed
    ultimately show ?thesis using fr1 b e by (simp add: kept_def rest_def flip: xy)
  qed
  ultimately show ?thesis unfolding A by auto
qed

lemma ConsumeUnlocked_eq:
  assumes m: "separate free" and e: "FindContaining free v z = Some e" and f: "fits v z" "z \<noteq> 0"
  shows "ConsumeUnlocked free v z = (True, ConsumeFreeRange e v z free)"
proof -
  have om: "ordered free" using m by (blast intro: disjoint_ordered separate_disjoint)
  have p: "om_prev v free = Some e" and le: "fst e \<le> v" "v + z \<le> fst e + snd e"
    using e by (auto simp: FindContaining_def split: option.splits if_splits)
  obtain xs ys where x: "free = xs @ e # ys" using om_prev_split [OF om p] by blast
  note o = om [unfolded x]
  note C = ConsumeFreeRange_eq [OF m [unfolded x] le(1) f le(2)]
  note cp = cut_props(1) [OF m [unfolded x] le(1) f le(2)]
  have lt: "v < v + z" using f by (rule fits_less)
  have ys: "\<forall>y \<in> set ys. fst e + snd e < fst y" using m by (simp add: x separate_append separate_Cons)
  have xs: "\<forall>x \<in> set xs. fst x < fst e" using o by (simp add: ordered_append)
  have yv: "\<forall>y \<in> set ys. v < fst y" "\<forall>y \<in> set ys. v + z < fst y"
    using ys le lt by (auto intro: order.strict_trans2 order.strict_trans order.strict_trans1)
  define e' where "e' = fst e + snd e"
  have se: "e = (fst e, snd e)" by simp
  let ?L = "left_part e v" and ?R = "right_part e (v + z)"
  have S1: "(if fst e \<noteq> v
       then (v, e' - v, om_emplace v (e' - v) (om_assign (fst e) (v - fst e) free))
       else (fst e, snd e, free)) = (v, e' - v, (xs @ ?L) @ (v, e' - v) # ys)"
  proof (cases "fst e = v")
    case True
    then have "(v, e' - v) = e" by (auto simp: e'_def)
    then show ?thesis using True by (auto simp: left_part_def e'_def x)
  next
    case False
    then have l: "fst e < v" using le(1) by simp
    have "\<forall>x \<in> set (xs @ [(fst e, v - fst e)]). fst x < v" using xs l by (auto intro: order.strict_trans)
    then show ?thesis
      using om_emplace_eq [of "xs @ [(fst e, v - fst e)]" v ys "e' - v"] om_assign_eq [OF o, of "v - fst e"] l yv(1)
      by (simp add: left_part_def x)
  qed
  have o2: "ordered ((xs @ ?L) @ (v, e' - v) # ys)"
    using o xs yv(1) le(1) by (auto simp: left_part_def ordered_append ordered_Cons intro: order.strict_trans2 order.strict_trans)
  have S2: "(if e' - v \<noteq> z then om_emplace (v + z) (e' - v - z) (om_assign v z ((xs @ ?L) @ (v, e' - v) # ys))
       else (xs @ ?L) @ (v, e' - v) # ys) = (xs @ ?L) @ (v, z) # ?R @ ys"
  proof (cases "e' - v = z")
    case True
    then have "e' = v + z" by (metis add_diff_cancel_left' diff_add_cancel add.commute)
    then show ?thesis using True by (simp add: right_part_def e'_def)
  next
    case False
    have ne: "e' \<noteq> v + z" using False by auto
    have lt': "v + z < e'" using ne le(2) by (simp add: e'_def order.strict_iff_order)
    have "\<forall>x \<in> set ((xs @ ?L) @ [(v, z)]). fst x < v + z"
      using xs lt le(1) by (auto simp: left_part_def intro: order.strict_trans order.strict_trans1 order.strict_trans2)
    then show ?thesis
      using om_emplace_eq [of "(xs @ ?L) @ [(v, z)]" "v + z" ys "e' - v - z"] om_assign_eq [OF o2, of z] False yv(2) lt'
      by (simp add: right_part_def e'_def diff_diff_eq)
  qed
  have split: "SplitUnlocked e v z free = (xs @ ?L) @ (v, z) # ?R @ ys"
  proof (cases "fst e = v \<and> fst e + snd e = v + z")
    case True
    then have "snd e = z" by auto
    then have "e = (v, z)" using True by (metis prod.collapse)
    then show ?thesis using True by (simp add: SplitUnlocked_def x left_part_def right_part_def)
  next
    case False
    then have "SplitUnlocked e v z free = (let (cur, cur_size, free1) =
        (if fst e \<noteq> v then (v, e' - v, om_emplace v (e' - v) (om_assign (fst e) (v - fst e) free))
         else (fst e, snd e, free))
        in if cur_size \<noteq> z then om_emplace (cur + z) (cur_size - z) (om_assign cur z free1) else free1)"
      unfolding SplitUnlocked_def Let_def e'_def by (simp only: if_False)
    also have "\<dots> = (xs @ ?L) @ (v, z) # ?R @ ys"
      unfolding S1 Let_def prod.case S2 ..
    finally show ?thesis .
  qed
  have o3: "ordered ((xs @ ?L) @ (v, z) # ?R @ ys)"
  proof -
    have "\<forall>y \<in> set (?R @ ys). v < fst y" using yv(1) lt by (auto simp: right_part_def)
    moreover have "\<forall>x \<in> set (xs @ ?L). fst x < v" using xs le(1) by (auto simp: left_part_def intro: order.strict_trans2)
    moreover have "ordered ((xs @ ?L) @ ?R @ ys)"
      using disjoint_ordered [OF separate_disjoint [OF cp]] by simp
    ultimately show ?thesis
      unfolding ordered_append [of "xs @ ?L"] ordered_Cons by (metis (no_types, lifting) fst_conv set_ConsD)
  qed
  have "map_of (SplitUnlocked e v z free) v = Some z"
  proof -
    have "map_of (xs @ ?L) v = None"
    proof -
      have "fst e < v \<longrightarrow> fst e \<noteq> v" by auto
      then show ?thesis using xs le(1) by (auto simp: map_of_eq_None_iff left_part_def)
    qed
    then show ?thesis by (simp add: split map_add_def split: option.splits)
  qed
  moreover have "om_erase v (SplitUnlocked e v z free) = xs @ ?L @ ?R @ ys"
    using om_erase_eq [OF o3] by (simp add: split)
  ultimately have "ConsumeUnlocked free v z = (True, xs @ ?L @ ?R @ ys)"
    unfolding ConsumeUnlocked_def e option.case Let_def by simp
  then show ?thesis using C by (simp add: x)
qed


definition take_guest :: "u64 \<Rightarrow> u64 \<Rightarrow> spans \<Rightarrow> spans" where
  "take_guest v z free = snd (ConsumeUnlocked free v z)"

lemma FindContaining_props:
  assumes m: "separate free" and f: "fits v z" "z \<noteq> 0"
  shows "(\<forall>a. in_range v z a \<longrightarrow> sp_at free a) \<longleftrightarrow> FindContaining free v z \<noteq> None"
    and "FindContaining free v z = Some e \<Longrightarrow>
      \<exists>xs ys. free = xs @ e # ys \<and> fst e \<le> v \<and> v + z \<le> fst e + snd e"
proof -
  have om: "ordered free" using m by (blast intro: disjoint_ordered separate_disjoint)
  show two: "FindContaining free v z = Some e \<Longrightarrow>
      \<exists>xs ys. free = xs @ e # ys \<and> fst e \<le> v \<and> v + z \<le> fst e + snd e" for e
    using om_prev_split [OF om, of v]
    by (fastforce simp: FindContaining_def split: option.splits if_splits)
  show "(\<forall>a. in_range v z a \<longrightarrow> sp_at free a) \<longleftrightarrow> FindContaining free v z \<noteq> None"
  proof
    assume "\<forall>a. in_range v z a \<longrightarrow> sp_at free a"
    then show "FindContaining free v z \<noteq> None"
      using span_in_one [OF m f] by (auto simp: FindContaining_def)
  next
    assume "FindContaining free v z \<noteq> None"
    then obtain e xs ys where e: "free = xs @ e # ys" "fst e \<le> v" "v + z \<le> fst e + snd e"
      using two by blast
    then have "in_range (fst e) (snd e) a" if "in_range v z a" for a
      using that unfolding in_range_def by (blast intro: order_trans order.strict_trans2)
    then show "\<forall>a. in_range v z a \<longrightarrow> sp_at free a" by (auto simp: e(1))
  qed
qed

text \<open>\<open>ConsumeUnlocked\<close> succeeds exactly on free spans and takes them out.\<close>

lemma ConsumeUnlocked_props:
  assumes m: "separate free" and f: "fits v z" "z \<noteq> 0" and c: "ConsumeUnlocked free v z = (ok, free')"
  shows "ok \<longleftrightarrow> (\<forall>a. in_range v z a \<longrightarrow> sp_at free a)" and "separate free'"
    and "sp_at free' a \<longleftrightarrow> sp_at free a \<and> \<not> (ok \<and> in_range v z a)"
    and "\<not> ok \<Longrightarrow> free' = free"
proof -
  have "(ok \<longleftrightarrow> (\<forall>a. in_range v z a \<longrightarrow> sp_at free a)) \<and> separate free' \<and>
    (\<forall>a. sp_at free' a \<longleftrightarrow> sp_at free a \<and> \<not> (ok \<and> in_range v z a)) \<and> (\<not> ok \<longrightarrow> free' = free)"
  proof (cases "FindContaining free v z")
    case None
    then show ?thesis using c m FindContaining_props(1) [OF m f] by (auto simp: ConsumeUnlocked_def)
  next
    case (Some e)
    then obtain xs ys where e: "free = xs @ e # ys" "fst e \<le> v" "v + z \<le> fst e + snd e"
      using FindContaining_props(2) [OF m f] by blast
    note cp = cut_props [OF m [unfolded e(1)] e(2) f e(3)]
    have "ok" "free' = xs @ (left_part e v @ right_part e (v + z)) @ ys"
      using c ConsumeUnlocked_eq [OF m Some f] ConsumeFreeRange_eq [OF m [unfolded e(1)] e(2) f e(3)]
      by (auto simp: e(1))
    then show ?thesis using cp FindContaining_props(1) [OF m f] Some by (simp add: e(1))
  qed
  then show "ok \<longleftrightarrow> (\<forall>a. in_range v z a \<longrightarrow> sp_at free a)" "separate free'"
    "sp_at free' a \<longleftrightarrow> sp_at free a \<and> \<not> (ok \<and> in_range v z a)" "\<not> ok \<Longrightarrow> free' = free" by auto
qed

interpretation guest_free: free_space separate sp_at take_guest AddFreeUnlocked 1
proof unfold_locales
  fix f :: spans and s z :: u64
  assume a: "separate f" "fits s z" "z \<noteq> 0" "\<And>a. in_range s z a \<Longrightarrow> sp_at f a"
  note C = ConsumeUnlocked_props [OF a(1-3) surjective_pairing]
  show "separate (take_guest s z f)" using C(2) by (simp add: take_guest_def)
  show "sp_at (take_guest s z f) b \<longleftrightarrow> sp_at f b \<and> \<not> in_range s z b" for b
    using C(1) C(3) [of b] a(4) by (auto simp: take_guest_def)
next
  fix f :: spans and s z :: u64
  assume a: "separate f" "fits s z" "z \<noteq> 0" "1 \<le> s" "\<And>a. in_range s z a \<Longrightarrow> \<not> sp_at f a"
  have "s \<noteq> 0" using a(4) by auto
  note e = AddFreeUnlocked_eq [OF a(1-3) this a(5)]
  show "separate (AddFreeUnlocked s z f)" using AddFreeRange_props(1) [OF a(1-3)] by (simp add: e)
  show "sp_at (AddFreeUnlocked s z f) b \<longleftrightarrow> sp_at f b \<or> in_range s z b" for b
    using AddFreeRange_props(2) [OF a(1-3)] by (simp add: e)
qed

end
