(* ===== verification/GuestBackingSpec.thy ===== *)
theory GuestBackingSpec
  imports GuestSpaceSpec
begin

text \<open>
  The guarantee of \<open>GuestBackingStore::Unmap\<close>: for every behaviour of the host it is
  all-or-nothing. Unless the process exits, either exactly the span has lost its views or every
  address has the view it had, whatever entries were split and put back on the way.
\<close>

section \<open>The view that the entries give\<close>

definition entry_attr :: "map_entry \<Rightarrow> u64 \<Rightarrow> u64 \<times> host_mode" where
  "entry_attr e a = (me_offset e + (a - me_vaddr e), me_mode e)"

definition entry_cut :: "u64 \<Rightarrow> u64 \<Rightarrow> map_entry \<Rightarrow> map_entry" where
  "entry_cut s t e = e\<lparr>me_vaddr := s, me_size := t - s, me_offset := me_offset e + (s - me_vaddr e)\<rparr>"

interpretation gmaps: regions me_vaddr me_size entry_attr entry_cut
  by unfold_locales (simp_all add: entry_cut_def entry_attr_def)

definition backing_view :: "guest \<Rightarrow> u64 \<Rightarrow> (u64 \<times> host_mode) option" where
  "backing_view g a = map_option (\<lambda>e. entry_attr (snd e) a)
     (find (\<lambda>e. in_range (me_vaddr (snd e)) (me_size (snd e)) a) (gb_maps g))"

lemma backing_view_kview: "backing_view g = gmaps.kview (gb_maps g)"
proof
  fix a
  have "find (\<lambda>e. gmaps.rcov e a) (map snd m) = map_option snd (find (\<lambda>e. gmaps.rcov (snd e) a) m)"
    for m :: "map_entry omap"
    by (induction m) auto
  then show "backing_view g a = gmaps.kview (gb_maps g) a"
    by (simp add: backing_view_def gmaps.kview_def gmaps.look_def gmaps.rcov_def option.map_comp comp_def)
qed

definition entry_ok :: "guest \<Rightarrow> map_entry \<Rightarrow> bool" where
  "entry_ok g e \<longleftrightarrow> RangeOk g (me_offset e) (me_size e)"

definition backing_ok :: "guest \<Rightarrow> bool" where
  "backing_ok g \<longleftrightarrow> gb_available g \<and> gmaps.kok (gb_maps g) \<and> (\<forall>e \<in> set (gb_maps g). entry_ok g (snd e))"

text \<open>The backing store's operations change the entries and count host calls, nothing else.\<close>

definition only_maps :: "guest \<Rightarrow> guest \<Rightarrow> bool" where
  "only_maps g g' \<longleftrightarrow> g' = g\<lparr>gb_maps := gb_maps g', gs_clock := gs_clock g'\<rparr>"

lemma only_mapsD:
  assumes "only_maps g g'"
  shows "gb_available g' = gb_available g" "gb_size g' = gb_size g" "entry_ok g' e = entry_ok g e"
    "gs_free g' = gs_free g" "gs_mapped g' = gs_mapped g" "gs_owned g' = gs_owned g"
proof -
  obtain x y where "g' = g\<lparr>gb_maps := x, gs_clock := y\<rparr>" using assms by (auto simp: only_maps_def)
  then show "gb_available g' = gb_available g" "gb_size g' = gb_size g" "entry_ok g' e = entry_ok g e"
    "gs_free g' = gs_free g" "gs_mapped g' = gs_mapped g" "gs_owned g' = gs_owned g"
    by (auto simp: entry_ok_def RangeOk_def)
qed

lemma only_maps_refl [simp, intro]: "only_maps g g"
  by (simp add: only_maps_def)

lemma only_maps_upd [simp]: "only_maps g (g\<lparr>gb_maps := x, gs_clock := y\<rparr>)"
  "only_maps g (g\<lparr>gs_clock := y, gb_maps := x\<rparr>)" "only_maps g (g\<lparr>gb_maps := x\<rparr>)" "only_maps g (g\<lparr>gs_clock := y\<rparr>)"
  by (simp_all add: only_maps_def)

lemma only_maps_trans: "only_maps g g' \<Longrightarrow> only_maps g' g'' \<Longrightarrow> only_maps g g''"
  unfolding only_maps_def by (metis (no_types, lifting) guest.surjective guest.update_convs(3,7))

lemma backing_ok_maps:
  assumes "backing_ok g" "only_maps g g'" "gb_maps g' = gb_maps g"
  shows "backing_ok g'" "backing_view g' = backing_view g"
  using assms only_mapsD [OF assms(2)] by (auto simp: backing_ok_def backing_view_kview)

lemma entry_cut_ok:
  assumes e: "entry_ok g e" "gmaps.rok e" and s: "me_vaddr e \<le> s" "s < t" "t \<le> gmaps.rend e"
  shows "entry_ok g (entry_cut s t e)"
proof -
  have re: "unat (gmaps.rend e) = unat (me_vaddr e) + unat (me_size e)"
    using e(2) by (simp add: gmaps.rend_def gmaps.rok_def unat_add_fits)
  have o: "me_offset e < gb_size g" "me_size e \<le> gb_size g - me_offset e"
    using e(1) by (auto simp: entry_ok_def RangeOk_def)
  then have oz: "fits (me_offset e) (me_size e)" "me_offset e + me_size e \<le> gb_size g"
    using size_le_room [of "me_offset e" "gb_size g" "me_size e"] by auto
  have lt: "s - me_vaddr e < me_size e"
    using s re by (simp add: word_less_nat_alt word_le_nat_alt unat_sub)
  then have f: "fits (me_offset e) (s - me_vaddr e)" by (intro fits_mono [OF oz(1)]) (simp add: less_imp_le)
  have u: "unat (me_offset e + (s - me_vaddr e)) = unat (me_offset e) + (unat s - unat (me_vaddr e))"
    using f s(1) by (simp add: unat_add_fits unat_sub word_le_nat_alt)
  have o': "unat (me_offset e) + unat (me_size e) \<le> unat (gb_size g)"
    using oz by (simp add: word_le_nat_alt unat_add_fits)
  have "me_offset e + (s - me_vaddr e) < gb_size g"
    using u o' s re by (simp add: word_less_nat_alt word_le_nat_alt)
  moreover have "t - s \<le> gb_size g - (me_offset e + (s - me_vaddr e))"
    using calculation u o' s re by (simp add: word_less_nat_alt word_le_nat_alt unat_sub)
  moreover have "t - s \<noteq> 0" using s(2) by auto
  ultimately show ?thesis by (simp add: entry_ok_def RangeOk_def entry_cut_def)
qed

section \<open>Mapping one view\<close>

definition map_one :: "host \<Rightarrow> guest \<Rightarrow> map_entry \<Rightarrow> (FailureReason \<times> guest) outcome" where
  "map_one host g e =
     MapExistingPlaceholderFixed host g (me_vaddr e) (me_size e) (me_offset e) (me_mode e)"

lemma emplace_erase:
  assumes "k \<notin> fst ` set m"
  shows "om_erase k (om_emplace k v m) = m" "set (om_emplace k v m) = insert (k, v) (set m)"
proof -
  have m: "om_below k m @ om_from k m = m" by (simp flip: om_below_from)
  have x: "\<forall>e \<in> set m. fst e \<noteq> k" using assms by force
  have b: "\<forall>e \<in> set (om_below k m). fst e \<noteq> k" "\<forall>e \<in> set (om_from k m). fst e \<noteq> k"
    using x arg_cong [OF m, of set] by auto
  then have "filter (\<lambda>e. fst e \<noteq> k) (om_below k m) = om_below k m"
    "filter (\<lambda>e. fst e \<noteq> k) (om_from k m) = om_from k m"
    by (auto intro: filter_True)
  then show "om_erase k (om_emplace k v m) = m" using assms m by (simp add: om_emplace_def om_erase_def)
  show "set (om_emplace k v m) = insert (k, v) (set m)"
    using assms arg_cong [OF m, of set] by (simp add: om_emplace_def)
qed

lemma map_one_props:
  assumes ok: "backing_ok g" and e: "entry_ok g e" "gmaps.rok e"
    and n: "\<And>a. gmaps.rcov e a \<Longrightarrow> backing_view g a = None"
  shows "\<exists>f g'. map_one host g e = Done (f, g') \<and> only_maps g g' \<and> gs_clock g' = Suc (gs_clock g) \<and>
    (f = NoFailure \<longleftrightarrow> host (gs_clock g)) \<and>
    gb_maps g' = (if f = NoFailure then om_emplace (me_vaddr e) e (gb_maps g) else gb_maps g) \<and>
    me_vaddr e \<notin> fst ` set (gb_maps g) \<and> backing_ok g' \<and>
    backing_view g' = (\<lambda>a. if f = NoFailure \<and> gmaps.rcov e a then Some (entry_attr e a) else backing_view g a)"
proof -
  have k: "gmaps.kok (gb_maps g)" and av: "gb_available g" using ok by (auto simp: backing_ok_def)
  have n': "gmaps.rcov e a \<Longrightarrow> gmaps.kview (gb_maps g) a = None" for a using n by (simp add: backing_view_kview)
  note I = gmaps.kinsert [OF k e(2) n']
  have nk: "me_vaddr e \<notin> fst ` set (gb_maps g)" using I(1) by simp
  have ro: "RangeOk g (me_offset e) (me_size e)" using e(1) by (simp add: entry_ok_def)
  have rec: "\<lparr>me_vaddr = me_vaddr e, me_size = me_size e, me_offset = me_offset e, me_mode = me_mode e\<rparr> = e"
    by simp
  show ?thesis
  proof (cases "host (gs_clock g)")
    case True
    let ?g = "g\<lparr>gs_clock := Suc (gs_clock g), gb_maps := om_emplace (me_vaddr e) e (gb_maps g)\<rparr>"
    have r: "map_one host g e = Done (NoFailure, ?g)"
      using av ro nk True by (simp add: map_one_def MapExistingPlaceholderFixed_def host_call_def rec)
    have "set (gb_maps ?g) = insert (me_vaddr e, e) (set (gb_maps g))"
      using emplace_erase(2) [OF nk] by simp
    then have "backing_ok ?g"
      using ok I(2) e(1) by (auto simp: backing_ok_def entry_ok_def RangeOk_def)
    then show ?thesis using r True nk I(3)
      by (intro exI [of _ NoFailure] exI [of _ ?g]) (simp add: backing_view_kview fun_eq_iff)
  next
    case False
    let ?g = "g\<lparr>gs_clock := Suc (gs_clock g)\<rparr>"
    have "map_one host g e = Done (FixedMapViewFailed, ?g)"
      using av ro False by (simp add: map_one_def MapExistingPlaceholderFixed_def host_call_def)
    moreover have "backing_ok ?g" "backing_view ?g = backing_view g"
      using backing_ok_maps [OF ok, of ?g] by auto
    ultimately show ?thesis using False nk
      by (intro exI [of _ FixedMapViewFailed] exI [of _ ?g]) simp
  qed
qed

lemma remap_all_props:
  assumes "backing_ok g" "gmaps.rwf ps" "\<And>p. p \<in> set ps \<Longrightarrow> entry_ok g p"
    and "\<And>a. gmaps.look ps a \<noteq> None \<Longrightarrow> backing_view g a = None"
  shows "remap_all host ps g = Exit \<or> (\<exists>g'. remap_all host ps g = Done g' \<and> only_maps g g' \<and>
    backing_ok g' \<and> (\<forall>a. backing_view g' a = (case gmaps.look ps a of None \<Rightarrow> backing_view g a | Some x \<Rightarrow> Some x)))"
  using assms
proof (induction ps arbitrary: g)
  case Nil
  then show ?case by simp
next
  case (Cons p ps)
  have p: "gmaps.rok p" "gmaps.rwf ps" "\<forall>c \<in> set ps. gmaps.apart p c"
    using Cons.prems(2) by (auto simp: gmaps.rwf_Cons)
  have n: "backing_view g a = None" if "gmaps.rcov p a" for a
    using Cons.prems(4) [of a] that by (simp add: gmaps.look_Cons)
  obtain f g1 where m: "map_one host g p = Done (f, g1)" "only_maps g g1" "backing_ok g1"
    "backing_view g1 = (\<lambda>a. if f = NoFailure \<and> gmaps.rcov p a then Some (entry_attr p a) else backing_view g a)"
    using map_one_props [OF Cons.prems(1) Cons.prems(3) [of p] p(1) n, of host] by auto
  show ?case
  proof (cases "f = NoFailure")
    case True
    then have r: "remap_all host (p # ps) g = remap_all host ps g1"
      using m(1) by (simp add: map_one_def)
    have lk: "gmaps.look ps a = None" if "gmaps.rcov p a" for a
      using p(3) that by (auto simp: gmaps.look_None gmaps.apart_def)
    have "backing_view g1 a = None" if "gmaps.look ps a \<noteq> None" for a
      using Cons.prems(4) [of a] that lk [of a] m(4) by (auto simp: gmaps.look_Cons split: if_splits)
    then have "remap_all host ps g1 = Exit \<or> (\<exists>g'. remap_all host ps g1 = Done g' \<and> only_maps g1 g' \<and>
      backing_ok g' \<and> (\<forall>a. backing_view g' a = (case gmaps.look ps a of None \<Rightarrow> backing_view g1 a | Some x \<Rightarrow> Some x)))"
      using Cons.prems(3) by (intro Cons.IH [OF m(3) p(2)]) (auto simp: only_mapsD [OF m(2)])
    then show ?thesis
      using only_maps_trans [OF m(2)] True lk unfolding r m(4)
      by (fastforce simp: gmaps.look_Cons split: option.split)
  next
    case False
    then show ?thesis using m(1) by (simp add: map_one_def)
  qed
qed

section \<open>Walking the entries\<close>

lemma FindContaining_entry:
  assumes k: "gmaps.kok m" and lt: "c < e"
  shows "FindContainingUnlocked m c 1 = None \<longleftrightarrow> gmaps.kview m c = None"
    and "FindContainingUnlocked m c 1 = Some r \<Longrightarrow> (me_vaddr r, r) \<in> set m \<and> gmaps.rok r \<and> gmaps.rcov r c"
proof -
  have c: "c < UINT64_MAX" by (rule less_max [OF lt])
  then have f: "fits c 1" using fits_diff [of c "c + 1"] by (simp add: fits_unat word_less_nat_alt unsigned_minus_1_eq_mask mask_eq_exp_minus_1)
  have le: "c + 1 \<le> x \<longleftrightarrow> c < x" for x
    using unat_add_fits [OF f] by (simp add: word_le_nat_alt word_less_nat_alt) arith
  have "(FindContainingUnlocked m c 1 = None \<longleftrightarrow> gmaps.kview m c = None) \<and>
    (FindContainingUnlocked m c 1 = Some r \<longrightarrow> (me_vaddr r, r) \<in> set m \<and> gmaps.rok r \<and> gmaps.rcov r c)"
  proof (cases "om_prev c m")
    case None
    then show ?thesis using gmaps.kprev_None [OF k None] f by (simp add: FindContainingUnlocked_def not_fits)
  next
    case (Some p)
    obtain q r' where p: "p = (q, r')" by fastforce
    obtain xs ys where x: "m = xs @ (q, r') # ys" "q \<le> c" "me_vaddr r' = q" "gmaps.rok r'"
      "gmaps.kview m c = (if c < gmaps.rend r' then Some (entry_attr r' c) else None)"
      using gmaps.kprev_Some [OF k Some [unfolded p]] by blast
    show ?thesis using Some x(2-5) f le
      by (auto simp: FindContainingUnlocked_def not_fits p gmaps.rcov_iff gmaps.rend_def x(1))
  qed
  then show "FindContainingUnlocked m c 1 = None \<longleftrightarrow> gmaps.kview m c = None"
    and "FindContainingUnlocked m c 1 = Some r \<Longrightarrow> (me_vaddr r, r) \<in> set m \<and> gmaps.rok r \<and> gmaps.rcov r c" by auto
qed

text \<open>The parts of a span: pieces of the entries that say what the entries say.\<close>

definition parts_of :: "guest \<Rightarrow> u64 \<Rightarrow> u64 \<Rightarrow> map_entry list \<Rightarrow> bool" where
  "parts_of g c e ps \<longleftrightarrow> gmaps.rwf ps \<and> (\<forall>p \<in> set ps. entry_ok g p) \<and>
     (\<forall>a. gmaps.look ps a = (if c \<le> a \<and> a < e then backing_view g a else None)) \<and>
     (\<forall>a. c \<le> a \<and> a < e \<longrightarrow> backing_view g a \<noteq> None)"

lemma kview_entry:
  assumes "gmaps.kok m" "(k, r) \<in> set m" "gmaps.rcov r a"
  shows "gmaps.kview m a = Some (entry_attr r a)"
proof -
  obtain xs ys where x: "m = xs @ (k, r) # ys" using assms(2) by (meson split_list)
  show ?thesis using gmaps.kview_at(1) [OF assms(1) [unfolded x] assms(3)] by (simp add: x)
qed

lemma parts_cons:
  assumes ok: "backing_ok g" and r: "(me_vaddr r, r) \<in> set (gb_maps g)" "gmaps.rok r" "gmaps.rcov r c"
    and ps: "parts_of g (min e (gmaps.rend r)) e ps" and ce: "c < e"
  shows "parts_of g c e (entry_cut c (min e (gmaps.rend r)) r # ps)"
proof -
  define m where "m = min e (gmaps.rend r)"
  let ?p = "entry_cut c m r"
  have c: "me_vaddr r \<le> c" "c < m" "m \<le> gmaps.rend r" "m \<le> e"
    using r(3) ce by (auto simp: m_def gmaps.rcov_iff)
  have k: "gmaps.kok (gb_maps g)" and er: "entry_ok g r" using ok r(1) by (auto simp: backing_ok_def)
  note p = gmaps.rcut_props [OF c(2), of r]
  have v: "backing_view g a = Some (entry_attr r a)" if "c \<le> a" "a < m" for a
  proof -
    have "gmaps.rcov r a" using that c by (auto simp: gmaps.rcov_iff intro: order_trans order.strict_trans2)
    then show ?thesis using kview_entry [OF k r(1)] by (simp add: backing_view_kview)
  qed
  note P = ps [folded m_def, unfolded parts_of_def]
  have ap: "gmaps.apart ?p q" if q: "q \<in> set ps" for q
  proof -
    have "\<not> gmaps.rcov q a" if "a < m" for a
    proof
      assume "gmaps.rcov q a"
      then have "gmaps.look ps a \<noteq> None" using q by (auto simp: gmaps.look_None)
      then show False using P that by (auto split: if_splits)
    qed
    then show ?thesis using p(3) by (auto simp: gmaps.apart_def)
  qed
  have "gmaps.rwf (?p # ps)" using P ap p(1) by (simp add: gmaps.rwf_Cons)
  moreover have "\<forall>q \<in> set (?p # ps). entry_ok g q" using P entry_cut_ok [OF er r(2) c(1-3)] by simp
  moreover have "gmaps.look (?p # ps) a = (if c \<le> a \<and> a < e then backing_view g a else None)" for a
    using P v c(2,4) p(3) by (auto simp: gmaps.look_Cons gmaps.cut_attr not_less)
  moreover have "backing_view g a \<noteq> None" if "c \<le> a \<and> a < e" for a
    using v [of a] P that by (cases "a < m") auto
  ultimately show ?thesis unfolding m_def parts_of_def by blast
qed

lemma entry_parts_props:
  assumes ok: "backing_ok g" and ce: "c \<le> e"
  shows "case entry_parts (gb_maps g) c e of
      None \<Rightarrow> (\<exists>a. c \<le> a \<and> a < e \<and> backing_view g a = None)
    | Some ps \<Rightarrow> parts_of g c e ps"
  using assms
proof (induction "gb_maps g" c e rule: entry_parts.induct)
  case (1 c e)
  have k: "gmaps.kok (gb_maps g)" using ok by (simp add: backing_ok_def)
  show ?case
  proof (cases "c < e")
    case False
    then show ?thesis by (auto simp: entry_parts.simps parts_of_def)
  next
    case True
    note F = FindContaining_entry [OF k True]
    show ?thesis
    proof (cases "FindContainingUnlocked (gb_maps g) c 1")
      case None
      then show ?thesis using True F(1) by (auto simp: entry_parts.simps [of _ c] backing_view_kview)
    next
      case (Some r)
      have r: "(me_vaddr r, r) \<in> set (gb_maps g)" "gmaps.rok r" "gmaps.rcov r c" using F(2) [OF Some] by auto
      define m where "m = min e (gmaps.rend r)"
      have m: "\<not> gmaps.rend r \<le> c" "m \<le> e" "c < m" using r(3) True by (auto simp: m_def gmaps.rcov_iff)
      have p: "\<lparr>me_vaddr = c, me_size = m - c, me_offset = me_offset r + c - me_vaddr r, me_mode = me_mode r\<rparr> =
          entry_cut c m r" by (simp add: entry_cut_def add_diff_eq)
      have st: "entry_parts (gb_maps g) c e = map_option ((#) (entry_cut c m r)) (entry_parts (gb_maps g) m e)"
        using True Some m(1) by (simp add: entry_parts.simps [of _ c] m_def gmaps.rend_def p [unfolded m_def gmaps.rend_def])
      have IH: "case entry_parts (gb_maps g) m e of
          None \<Rightarrow> (\<exists>a. m \<le> a \<and> a < e \<and> backing_view g a = None) | Some ps \<Rightarrow> parts_of g m e ps"
        using "1.hyps" [OF True Some _ ok] m unfolding m_def gmaps.rend_def by blast
      show ?thesis
      proof (cases "entry_parts (gb_maps g) m e")
        case None
        then obtain a where "m \<le> a" "a < e" "backing_view g a = None" using IH by auto
        then have "c \<le> a \<and> a < e \<and> backing_view g a = None" using m(3) by auto
        then show ?thesis using st None by auto
      next
        case (Some ps)
        then show ?thesis
          using IH parts_cons [OF ok r _ True, of ps] st by (simp add: m_def)
      qed
    qed
  qed
qed

lemma Contains_iff:
  assumes ok: "backing_ok g" and f: "fits v z" "z \<noteq> 0"
  shows "Contains g v z \<longleftrightarrow> (\<forall>a. in_range v z a \<longrightarrow> backing_view g a \<noteq> None)"
  using entry_parts_props [OF ok fits_le [OF f(1)]] f
  by (auto simp: Contains_def not_fits in_range_def parts_of_def split: option.splits)

section \<open>Unmapping inside one entry\<close>

lemma kprev_entry:
  assumes k: "gmaps.kok m" and e: "(k, r) \<in> set m" and a: "gmaps.rcov r a"
  shows "om_prev a m = Some (k, r)"
proof -
  obtain xs ys where x: "m = xs @ (k, r) # ys" using e by (meson split_list)
  have r: "me_vaddr r = k" using gmaps.kok_entry [OF k e] by simp
  have d: "disjoint (gmaps.kspans xs @ (k, me_size r) # gmaps.kspans ys)" using k by (simp add: x gmaps.kok_def)
  have "\<forall>y \<in> set ys. k + me_size r \<le> fst y"
  proof
    fix y assume "y \<in> set ys"
    then have "(fst y, me_size (snd y)) \<in> set (gmaps.kspans ys)" by (auto simp: gmaps.kspans_def)
    then show "k + me_size r \<le> fst y" using d by (auto simp: disjoint_append disjoint_Cons)
  qed
  then have "\<forall>y \<in> set ys. a < fst y" using a r by (auto simp: gmaps.rcov_iff gmaps.rend_def)
  moreover have "k \<le> a" using a r by (simp add: gmaps.rcov_iff)
  ultimately show ?thesis using om_prev_eq [of xs "(k, r)" ys a] gmaps.kok_ordered [OF k] by (simp add: x)
qed

text \<open>A whole entry: one call of the host decides.\<close>

lemma UnmapOne_whole:
  assumes ok: "backing_ok g" and e: "(me_vaddr r, r) \<in> set (gb_maps g)"
  shows "UnmapOne (Suc d) host g (me_vaddr r) (me_size r) =
    Done (host (gs_clock g), g\<lparr>gs_clock := Suc (gs_clock g),
      gb_maps := (if host (gs_clock g) then om_erase (me_vaddr r) (gb_maps g) else gb_maps g)\<rparr>)"
proof -
  have k: "gmaps.kok (gb_maps g)" using ok by (simp add: backing_ok_def)
  have r: "gmaps.rok r" using gmaps.kok_entry [OF k e] by simp
  have z: "me_size r \<noteq> 0" using r by (simp add: gmaps.rok_def)
  have p: "om_prev (me_vaddr r) (gb_maps g) = Some (me_vaddr r, r)"
    using kprev_entry [OF k e] gmaps.rok_less [OF r] by (simp add: gmaps.rcov_iff)
  obtain xs ys where x: "gb_maps g = xs @ (me_vaddr r, r) # ys" using e by (meson split_list)
  have "om_emplace (me_vaddr r) r (om_erase (me_vaddr r) (gb_maps g)) = gb_maps g"
    using gmaps.kerase_insert [OF k [unfolded x]] om_erase_eq [of xs "(me_vaddr r, r)" ys] gmaps.kok_ordered [OF k]
    by (simp add: x)
  then show ?thesis using p z by (simp add: host_call_def)
qed

text \<open>What an unmapping may do: fail and change no view, or remove exactly the views of the span.\<close>

definition unmap_effect :: "guest \<Rightarrow> (u64 \<Rightarrow> bool) \<Rightarrow> (bool \<times> guest) outcome \<Rightarrow> bool" where
  "unmap_effect g S r \<longleftrightarrow> (case r of Exit \<Rightarrow> True
     | Done (ok, g') \<Rightarrow> only_maps g g' \<and> backing_ok g' \<and>
         backing_view g' = (\<lambda>a. if ok \<and> S a then None else backing_view g a))"

text \<open>After the entry is gone: its left and right parts are mapped again, or the entry as a whole.\<close>

definition remap_sides :: "nat \<Rightarrow> host \<Rightarrow> guest \<Rightarrow> map_entry \<Rightarrow> map_entry \<Rightarrow> map_entry \<Rightarrow> (bool \<times> guest) outcome" where
  "remap_sides d host g old L R =
     obind (if me_size L \<noteq> 0 then map_one host g L else Done (NoFailure, g)) (\<lambda>(f1, g3).
     obind (if me_size R \<noteq> 0 then map_one host g3 R else Done (NoFailure, g3)) (\<lambda>(f2, g4).
     if f1 = NoFailure \<and> f2 = NoFailure then Done (True, g4)
     else
       obind (if me_size L \<noteq> 0 \<and> Contains g4 (me_vaddr L) (me_size L)
              then obind (UnmapOne d host g4 (me_vaddr L) (me_size L)) (\<lambda>(ok, g). if ok then Done g else Exit)
              else Done g4) (\<lambda>g5.
       obind (if me_size R \<noteq> 0 \<and> Contains g5 (me_vaddr R) (me_size R)
              then obind (UnmapOne d host g5 (me_vaddr R) (me_size R)) (\<lambda>(ok, g). if ok then Done g else Exit)
              else Done g5) (\<lambda>g6.
       obind (map_one host g6 old) (\<lambda>(f3, g7). if f3 = NoFailure then Done (False, g7) else Exit)))))"

text \<open>An optional side: absent when its size is 0.\<close>

definition side_ok :: "guest \<Rightarrow> map_entry \<Rightarrow> bool" where
  "side_ok g S \<longleftrightarrow> me_size S \<noteq> 0 \<longrightarrow> gmaps.rok S \<and> entry_ok g S \<and>
     (\<forall>a. gmaps.rcov S a \<longrightarrow> backing_view g a = None)"

lemma rcov_empty: "me_size S = 0 \<Longrightarrow> \<not> gmaps.rcov S a"
  by (auto simp: gmaps.rcov_def in_range_def)

lemma map_side:
  assumes ok: "backing_ok g" and s: "side_ok g S"
  shows "\<exists>f g'. (if me_size S \<noteq> 0 then map_one host g S else Done (NoFailure, g)) = Done (f, g') \<and>
    only_maps g g' \<and> backing_ok g' \<and>
    gb_maps g' = (if f = NoFailure \<and> me_size S \<noteq> 0 then om_emplace (me_vaddr S) S (gb_maps g) else gb_maps g) \<and>
    (me_size S \<noteq> 0 \<longrightarrow> me_vaddr S \<notin> fst ` set (gb_maps g)) \<and> (me_size S = 0 \<longrightarrow> f = NoFailure) \<and>
    ((\<forall>n. host n) \<longrightarrow> f = NoFailure) \<and>
    backing_view g' = (\<lambda>a. if f = NoFailure \<and> gmaps.rcov S a then Some (entry_attr S a) else backing_view g a)"
proof (cases "me_size S = 0")
  case True
  then show ?thesis using ok rcov_empty [OF True] by auto
next
  case False
  then show ?thesis
    using map_one_props [OF ok, of S host] s unfolding side_ok_def by (elim impE conjE) (auto 0 3)
qed

text \<open>Taking a mapped side back leaves the entries as before it was mapped, if the host agrees.\<close>

lemma unmap_side:
  assumes ok: "backing_ok g" and z: "me_size S \<noteq> 0" and e: "gb_maps g = om_emplace (me_vaddr S) S m"
    and m: "me_vaddr S \<notin> fst ` set m"
  shows "(if me_size S \<noteq> 0 \<and> Contains g (me_vaddr S) (me_size S)
      then obind (UnmapOne (Suc d) host g (me_vaddr S) (me_size S)) (\<lambda>(ok, g). if ok then Done g else Exit)
      else Done g) =
    (if host (gs_clock g) then Done (g\<lparr>gs_clock := Suc (gs_clock g), gb_maps := m\<rparr>) else Exit)"
proof -
  have k: "gmaps.kok (gb_maps g)" using ok by (simp add: backing_ok_def)
  have i: "(me_vaddr S, S) \<in> set (gb_maps g)" using emplace_erase(2) [OF m] by (simp add: e)
  have r: "gmaps.rok S" using gmaps.kok_entry [OF k i] by simp
  have "Contains g (me_vaddr S) (me_size S)"
    using r Contains_iff [OF ok, of "me_vaddr S" "me_size S"] kview_entry [OF k i]
    by (auto simp: gmaps.rok_def gmaps.rcov_def backing_view_kview)
  then show ?thesis using z UnmapOne_whole [OF ok i, of d host] emplace_erase(1) [OF m] by (simp add: e)
qed

definition same_entries :: "guest \<Rightarrow> guest \<Rightarrow> bool" where
  "same_entries g g' \<longleftrightarrow> only_maps g g' \<and> gb_maps g' = gb_maps g"

lemma same_entriesD:
  assumes "backing_ok g" "same_entries g g'"
  shows "only_maps g g'" "gb_maps g' = gb_maps g" "backing_ok g'" "backing_view g' = backing_view g" "side_ok g' S = side_ok g S"
proof -
  show o: "only_maps g g'" "gb_maps g' = gb_maps g" using assms(2) by (auto simp: same_entries_def)
  show v: "backing_ok g'" "backing_view g' = backing_view g" using backing_ok_maps [OF assms(1) o] by auto
  show "side_ok g' S = side_ok g S" unfolding side_ok_def only_mapsD(3) [OF o(1)] v(2) ..
qed

text \<open>One step of the way back: the side is gone afterwards, whether it had been mapped or not.\<close>

lemma undo_side:
  assumes ok: "backing_ok g" "backing_ok g'" and o: "only_maps g g'" and s: "side_ok g S"
    and e: "gb_maps g' = (if b then om_emplace (me_vaddr S) S (gb_maps g) else gb_maps g)"
    and b: "b \<longrightarrow> me_size S \<noteq> 0 \<and> me_vaddr S \<notin> fst ` set (gb_maps g)"
    and x: "X = (if me_size S \<noteq> 0 \<and> Contains g' (me_vaddr S) (me_size S)
      then obind (UnmapOne (Suc d) host g' (me_vaddr S) (me_size S)) (\<lambda>(ok, g). if ok then Done g else Exit)
      else Done g')"
  shows "X = Exit \<or> (\<exists>g1. X = Done g1 \<and> same_entries g g1)"
proof (cases b)
  case True
  then have "X = (if host (gs_clock g') then Done (g'\<lparr>gs_clock := Suc (gs_clock g'), gb_maps := gb_maps g\<rparr>) else Exit)"
    using unmap_side [OF ok(2), of S "gb_maps g" d host] e b x by simp
  moreover have "only_maps g (g'\<lparr>gs_clock := Suc (gs_clock g'), gb_maps := gb_maps g\<rparr>)"
    by (rule only_maps_trans [OF o]) simp
  ultimately show ?thesis by (auto simp: same_entries_def)
next
  case False
  then have "same_entries g g'" using e o by (simp add: same_entries_def)
  moreover have "\<not> (me_size S \<noteq> 0 \<and> Contains g' (me_vaddr S) (me_size S))"
  proof
    assume c: "me_size S \<noteq> 0 \<and> Contains g' (me_vaddr S) (me_size S)"
    then have r: "gmaps.rok S" "\<forall>a. gmaps.rcov S a \<longrightarrow> backing_view g a = None" using s by (auto simp: side_ok_def)
    have "gmaps.rcov S (me_vaddr S)" using gmaps.rok_less [OF r(1)] by (simp add: gmaps.rcov_iff)
    then have "backing_view g' (me_vaddr S) \<noteq> None" "backing_view g (me_vaddr S) = None"
      using c r Contains_iff [OF ok(2), of "me_vaddr S" "me_size S"]
      by (auto simp: gmaps.rok_def gmaps.rcov_def)
    then show False using same_entriesD(4) [OF ok(1) calculation] by simp
  qed
  ultimately show ?thesis using x by auto
qed

lemma side_apart:
  assumes "side_ok g L" "only_maps g g'" "\<And>a. gmaps.rcov L a \<Longrightarrow> \<not> gmaps.rcov R a"
    and "backing_view g' = (\<lambda>a. if b \<and> gmaps.rcov R a then Some (entry_attr R a) else backing_view g a)"
  shows "side_ok g' L"
  using assms(1,3) only_mapsD(3) [OF assms(2)] unfolding assms(4) side_ok_def by auto

lemma remap_sides_props:
  fixes d :: nat and host :: host
  assumes ok: "backing_ok g" and s: "side_ok g L" "side_ok g R" "side_ok g old" "me_size old \<noteq> 0"
    and ap: "\<forall>a. gmaps.rcov L a \<longrightarrow> \<not> gmaps.rcov R a"
  defines "X \<equiv> remap_sides (Suc d) host g old L R"
  shows "X = Exit \<or>
    (\<exists>g'. X = Done (False, g') \<and> only_maps g g' \<and> gb_maps g' = om_emplace (me_vaddr old) old (gb_maps g)) \<or>
    (\<exists>g'. X = Done (True, g') \<and> only_maps g g' \<and> backing_ok g' \<and>
       backing_view g' = (\<lambda>a. if gmaps.rcov L a then Some (entry_attr L a)
         else if gmaps.rcov R a then Some (entry_attr R a) else backing_view g a))"
    and "(\<forall>n. host n) \<Longrightarrow> \<exists>g'. X = Done (True, g')"
proof -
  obtain f1 g3 where m1: "(if me_size L \<noteq> 0 then map_one host g L else Done (NoFailure, g)) = Done (f1, g3)"
    "only_maps g g3" "backing_ok g3"
    "gb_maps g3 = (if f1 = NoFailure \<and> me_size L \<noteq> 0 then om_emplace (me_vaddr L) L (gb_maps g) else gb_maps g)"
    "me_size L \<noteq> 0 \<longrightarrow> me_vaddr L \<notin> fst ` set (gb_maps g)" "me_size L = 0 \<longrightarrow> f1 = NoFailure" "(\<forall>n. host n) \<longrightarrow> f1 = NoFailure"
    "backing_view g3 = (\<lambda>a. if f1 = NoFailure \<and> gmaps.rcov L a then Some (entry_attr L a) else backing_view g a)"
    using map_side [OF ok s(1), of host] by blast
  have s2: "side_ok g3 R" using side_apart [OF s(2) m1(2) _ m1(8)] ap by blast
  obtain f2 g4 where m2: "(if me_size R \<noteq> 0 then map_one host g3 R else Done (NoFailure, g3)) = Done (f2, g4)"
    "only_maps g3 g4" "backing_ok g4"
    "gb_maps g4 = (if f2 = NoFailure \<and> me_size R \<noteq> 0 then om_emplace (me_vaddr R) R (gb_maps g3) else gb_maps g3)"
    "me_size R \<noteq> 0 \<longrightarrow> me_vaddr R \<notin> fst ` set (gb_maps g3)" "me_size R = 0 \<longrightarrow> f2 = NoFailure" "(\<forall>n. host n) \<longrightarrow> f2 = NoFailure"
    "backing_view g4 = (\<lambda>a. if f2 = NoFailure \<and> gmaps.rcov R a then Some (entry_attr R a) else backing_view g3 a)"
    using map_side [OF m1(3) s2, of host] by blast
  have o4: "only_maps g g4" by (rule only_maps_trans [OF m1(2) m2(2)])
  define U where "U g S = (if me_size S \<noteq> 0 \<and> Contains g (me_vaddr S) (me_size S)
      then obind (UnmapOne (Suc d) host g (me_vaddr S) (me_size S)) (\<lambda>(ok, g). if ok then Done g else Exit)
      else Done g)" for g and S :: map_entry
  have X: "X = (if f1 = NoFailure \<and> f2 = NoFailure then Done (True, g4) else
      obind (U g4 L) (\<lambda>g5. obind (U g5 R) (\<lambda>g6. obind (map_one host g6 old)
        (\<lambda>(f3, g7). if f3 = NoFailure then Done (False, g7) else Exit))))"
    unfolding X_def remap_sides_def m1(1) obind.simps prod.case m2(1) U_def ..
  show "\<exists>g'. X = Done (True, g')" if "\<forall>n. host n" using X m1(7) m2(7) that by simp
  show "X = Exit \<or>
    (\<exists>g'. X = Done (False, g') \<and> only_maps g g' \<and> gb_maps g' = om_emplace (me_vaddr old) old (gb_maps g)) \<or>
    (\<exists>g'. X = Done (True, g') \<and> only_maps g g' \<and> backing_ok g' \<and>
       backing_view g' = (\<lambda>a. if gmaps.rcov L a then Some (entry_attr L a)
         else if gmaps.rcov R a then Some (entry_attr R a) else backing_view g a))"
  proof (cases "f1 = NoFailure \<and> f2 = NoFailure")
    case True
    then have "backing_view g4 = (\<lambda>a. if gmaps.rcov L a then Some (entry_attr L a)
         else if gmaps.rcov R a then Some (entry_attr R a) else backing_view g a)"
      using m1(8) m2(8) ap by (auto simp: fun_eq_iff)
    then show ?thesis using X True o4 m2(3) by auto
  next
    case False
    have undone: "obind (U g4 L) (\<lambda>g5. U g5 R) = Exit \<or> (\<exists>g6. obind (U g4 L) (\<lambda>g5. U g5 R) = Done g6 \<and> same_entries g g6)"
    proof (cases "f2 = NoFailure \<and> me_size R \<noteq> 0")
      case True
      then have f1: "f1 \<noteq> NoFailure" using False by simp
      then have g3: "same_entries g g3" using m1 by (simp add: same_entries_def)
      have "side_ok g3 L" using same_entriesD(5) [OF ok g3] s(1) by simp
      then have "side_ok g4 L" using side_apart [OF _ m2(2) _ m2(8)] ap by blast
      then have "U g4 L = Exit \<or> (\<exists>g5. U g4 L = Done g5 \<and> same_entries g4 g5)"
        using undo_side [OF m2(3) m2(3) _ _ _ _ U_def, where b = False] by simp
      then consider "U g4 L = Exit" | g5 where "U g4 L = Done g5" "same_entries g4 g5" by blast
      then show ?thesis
      proof cases
        case 2
        note g5 = same_entriesD [OF m2(3) 2(2)]
        have "gb_maps g5 = om_emplace (me_vaddr R) R (gb_maps g)"
          using True g5(2) m2(4) g3 by (simp add: same_entries_def)
        moreover have "me_vaddr R \<notin> fst ` set (gb_maps g)" using m2(5) True g3 by (simp add: same_entries_def)
        ultimately have "U g5 R = Exit \<or> (\<exists>g6. U g5 R = Done g6 \<and> same_entries g g6)"
          using undo_side [OF ok g5(3) only_maps_trans [OF o4 g5(1)] s(2) _ _ U_def, where b = True] True by simp
        then show ?thesis using 2 by auto
      qed simp
    next
      case R: False
      have m4: "gb_maps g4 = gb_maps g3" unfolding m2(4) by (rule if_not_P [OF R])
      have "U g4 L = Exit \<or> (\<exists>g5. U g4 L = Done g5 \<and> same_entries g g5)"
        by (rule undo_side [OF ok m2(3) o4 s(1) m1(4) [folded m4] _ U_def]) (use m1(5) in blast)
      then consider "U g4 L = Exit" | g5 where "U g4 L = Done g5" "same_entries g g5" by blast
      then show ?thesis
      proof cases
        case 2
        note g5 = same_entriesD [OF ok 2(2)]
        have "U g5 R = Exit \<or> (\<exists>g6. U g5 R = Done g6 \<and> same_entries g g6)"
          using undo_side [OF ok g5(3) g5(1) s(2) _ _ U_def, where b = False] g5(2) by simp
        then show ?thesis using 2 by auto
      qed simp
    qed
    have Xb: "X = obind (obind (U g4 L) (\<lambda>g5. U g5 R)) (\<lambda>g6. obind (map_one host g6 old)
        (\<lambda>(f3, g7). if f3 = NoFailure then Done (False, g7) else Exit))"
      using X False by (cases "U g4 L") auto
    show ?thesis
    proof (cases "obind (U g4 L) (\<lambda>g5. U g5 R)")
      case (Done g6)
      then have g6: "same_entries g g6" using undone by simp
      note e6 = same_entriesD [OF ok g6]
      have "side_ok g6 old" using e6(5) s(3) by simp
      then obtain f3 g7 where m3: "map_one host g6 old = Done (f3, g7)" "only_maps g6 g7"
        "gb_maps g7 = (if f3 = NoFailure then om_emplace (me_vaddr old) old (gb_maps g6) else gb_maps g6)"
        using map_one_props [OF e6(3), of old host] s(4) unfolding side_ok_def by auto
      then show ?thesis
        using Xb Done e6(2) only_maps_trans [OF e6(1) m3(2)] by (cases "f3 = NoFailure") auto
    qed (simp add: Xb)
  qed
qed

lemma UnmapOne_unfold:
  assumes p: "om_prev v (gb_maps g) = Some (k, old)" and w: "v + z \<le> gmaps.rend old" and n: "me_size old \<noteq> 0"
  defines "g0 \<equiv> g\<lparr>gb_maps := om_erase k (gb_maps g), gs_clock := Suc (gs_clock g)\<rparr>"
  shows "UnmapOne (Suc d) host g v z =
    (if \<not> host (gs_clock g) then Done (False, g0\<lparr>gb_maps := om_emplace (me_vaddr old) old (gb_maps g0)\<rparr>)
     else if v = me_vaddr old \<and> z = me_size old then Done (True, g0)
     else remap_sides d host g0 old (entry_cut (me_vaddr old) v old) (entry_cut (v + z) (gmaps.rend old) old))"
proof -
  have g0: "host_call host (g\<lparr>gb_maps := om_erase k (gb_maps g)\<rparr>) = (host (gs_clock g), g0)"
    by (simp add: host_call_def g0_def)
  show ?thesis
    using p w n unfolding UnmapOne.simps remap_sides_def
    by (simp add: g0 gmaps.rend_def entry_cut_def map_one_def Let_def split del: if_split cong: if_cong)
qed

lemma UnmapOne_props:
  assumes ok: "backing_ok g" and f: "fits v z" "z \<noteq> 0"
  shows "unmap_effect g (in_range v z) (UnmapOne (Suc (Suc d)) host g v z)"
    and "(\<forall>n. host n) \<Longrightarrow> r \<in> set (map snd (gb_maps g)) \<Longrightarrow> gmaps.rcov r v \<Longrightarrow> v + z \<le> gmaps.rend r \<Longrightarrow>
      \<exists>g'. UnmapOne (Suc (Suc d)) host g v z = Done (True, g')"
proof -
  have k: "gmaps.kok (gb_maps g)" using ok by (simp add: backing_ok_def)
  let ?X = "UnmapOne (Suc (Suc d)) host g v z"
  have lt: "v < v + z" using f by (rule fits_less)
  have main: "unmap_effect g (in_range v z) ?X \<and> ((\<forall>n. host n) \<longrightarrow> (\<exists>g'. ?X = Done (True, g')))"
    if p: "om_prev v (gb_maps g) = Some (key, old)" and w: "v + z \<le> gmaps.rend old" for key old
  proof -
    obtain xs ys where x: "gb_maps g = xs @ (key, old) # ys" "om_erase key (gb_maps g) = xs @ ys" "key \<le> v"
      "me_vaddr old = key" "gmaps.rok old" using gmaps.kprev_Some [OF k p] by blast
    have n: "me_size old \<noteq> 0" using x(5) by (simp add: gmaps.rok_def)
    have eo: "entry_ok g old" using ok by (simp add: backing_ok_def x(1))
    define g0 where "g0 = g\<lparr>gb_maps := om_erase key (gb_maps g), gs_clock := Suc (gs_clock g)\<rparr>"
    have o0: "only_maps g g0" and m0: "gb_maps g0 = xs @ ys" by (simp_all add: g0_def x(2))
    have ok0: "backing_ok g0"
      using ok gmaps.kok_erase [OF k [unfolded x(1)]] only_mapsD [OF o0] by (auto simp: backing_ok_def m0 x(1))
    have v0: "backing_view g0 a = (if gmaps.rcov old a then None else backing_view g a)" for a
      using gmaps.kview_at(2) [OF k [unfolded x(1)], of a] by (simp add: backing_view_kview m0 x(1))
    have vo: "gmaps.rcov old a \<Longrightarrow> backing_view g a = Some (entry_attr old a)" for a
      using gmaps.kview_at(1) [OF k [unfolded x(1)], of a] by (simp add: backing_view_kview x(1))
    have again: "om_emplace (me_vaddr old) old (gb_maps g0) = gb_maps g"
      using gmaps.kerase_insert [OF k [unfolded x(1)]] by (simp add: m0 x(1,4))
    have eff: "unmap_effect g S (Done (False, g'))" if "only_maps g g'" "gb_maps g' = gb_maps g" for g' S
      using that backing_ok_maps [OF ok that] by (simp add: unmap_effect_def)
    define L R where "L = entry_cut (me_vaddr old) v old" and "R = entry_cut (v + z) (gmaps.rend old) old"
    have cov: "gmaps.rcov L a \<longleftrightarrow> gmaps.rcov old a \<and> a < v" "gmaps.rcov R a \<longleftrightarrow> gmaps.rcov old a \<and> v + z \<le> a" for a
    proof -
      have c: "gmaps.rcov (entry_cut s t old) a \<longleftrightarrow> s \<le> a \<and> a < t" for s t
        by (simp add: gmaps.rcov_def in_range_def gmaps.cut_start gmaps.cut_size)
      have "v < gmaps.rend old" "me_vaddr old \<le> v + z" using lt w x(3,4) by auto
      then show "gmaps.rcov L a \<longleftrightarrow> gmaps.rcov old a \<and> a < v" "gmaps.rcov R a \<longleftrightarrow> gmaps.rcov old a \<and> v + z \<le> a"
        unfolding L_def R_def c gmaps.rcov_iff [of old] by auto
    qed
    have sL: "side_ok g0 L"
    proof -
      have "gmaps.rok L \<and> entry_ok g0 L" if "me_size L \<noteq> 0"
      proof -
        have "me_vaddr old < v" using that x(3,4) by (auto simp: L_def entry_cut_def)
        moreover have "v \<le> gmaps.rend old" using lt w by auto
        ultimately show ?thesis
          using entry_cut_ok [OF eo x(5), of "me_vaddr old" v] gmaps.rcut_props(1) only_mapsD(3) [OF o0] by (simp add: L_def)
      qed
      then show ?thesis using cov v0 by (auto simp: side_ok_def)
    qed
    have sR: "side_ok g0 R"
    proof -
      have "gmaps.rok R \<and> entry_ok g0 R" if "me_size R \<noteq> 0"
      proof -
        have "v + z < gmaps.rend old" using that w by (auto simp: R_def entry_cut_def le_less)
        moreover have "me_vaddr old \<le> v + z" using x(3,4) lt by auto
        ultimately show ?thesis
          using entry_cut_ok [OF eo x(5), of "v + z" "gmaps.rend old"] gmaps.rcut_props(1) only_mapsD(3) [OF o0] by (simp add: R_def)
      qed
      then show ?thesis using cov v0 by (auto simp: side_ok_def)
    qed
    have so: "side_ok g0 old" using v0 x(5) eo only_mapsD(3) [OF o0] by (auto simp: side_ok_def)
    have ap: "\<forall>a. gmaps.rcov L a \<longrightarrow> \<not> gmaps.rcov R a" using cov lt by (auto simp: not_le intro: order.strict_trans)
    note RS = remap_sides_props [OF ok0 sL sR so n ap, where d = d and host = host]
    note U = UnmapOne_unfold [OF p w n, folded g0_def L_def R_def, where d = "Suc d" and host = host]
    have "unmap_effect g (in_range v z) (remap_sides (Suc d) host g0 old L R)"
      using RS(1)
    proof (elim disjE exE conjE)
      fix g' assume r: "remap_sides (Suc d) host g0 old L R = Done (False, g')" "only_maps g0 g'"
        "gb_maps g' = om_emplace (me_vaddr old) old (gb_maps g0)"
      then show ?thesis using eff [OF only_maps_trans [OF o0 r(2)]] again by simp
    next
      fix g' assume r: "remap_sides (Suc d) host g0 old L R = Done (True, g')" "only_maps g0 g'" "backing_ok g'"
        "backing_view g' = (\<lambda>a. if gmaps.rcov L a then Some (entry_attr L a)
         else if gmaps.rcov R a then Some (entry_attr R a) else backing_view g0 a)"
      have "backing_view g' a = (if in_range v z a then None else backing_view g a)" for a
      proof (cases "gmaps.rcov old a")
        case True
        moreover have "entry_attr L a = entry_attr old a" "entry_attr R a = entry_attr old a"
          by (simp_all add: L_def R_def gmaps.cut_attr)
        ultimately show ?thesis using vo [OF True] v0 [of a] unfolding r(4) cov
          by (auto simp: in_range_def not_less not_le)
      next
        case False
        have "\<not> in_range v z a"
          using False w x(3,4) by (auto simp: in_range_def gmaps.rcov_iff intro: order_trans order.strict_trans2)
        then show ?thesis using False v0 [of a] unfolding r(4) cov by simp
      qed
      then show ?thesis using r only_maps_trans [OF o0 r(2)] by (auto simp: unmap_effect_def)
    qed (simp add: unmap_effect_def)
    moreover have "unmap_effect g (in_range v z) (Done (True, g0))" if e: "v = me_vaddr old \<and> z = me_size old"
    proof -
      have "in_range v z = gmaps.rcov old" using e by (simp add: gmaps.rcov_def fun_eq_iff)
      then show ?thesis using o0 ok0 v0 by (auto simp: unmap_effect_def)
    qed
    moreover have "unmap_effect g (in_range v z) (Done (False, g0\<lparr>gb_maps := om_emplace (me_vaddr old) old (gb_maps g0)\<rparr>))"
      by (rule eff) (auto intro: only_maps_trans [OF o0] simp: again)
    ultimately show ?thesis using RS(2) unfolding U by auto
  qed
  show "unmap_effect g (in_range v z) ?X"
  proof (cases "om_prev v (gb_maps g)")
    case None
    then show ?thesis using ok by (simp add: unmap_effect_def)
  next
    case (Some p)
    obtain key old where e: "p = (key, old)" by fastforce
    show ?thesis
    proof (cases "v + z \<le> gmaps.rend old")
      case True
      then show ?thesis using main Some e by blast
    next
      case False
      then show ?thesis using Some e ok by (simp add: unmap_effect_def gmaps.rend_def)
    qed
  qed
  show "\<exists>g'. ?X = Done (True, g')"
    if h: "\<forall>n. host n" and r: "r \<in> set (map snd (gb_maps g))" "gmaps.rcov r v" "v + z \<le> gmaps.rend r"
  proof -
    obtain key where i: "(key, r) \<in> set (gb_maps g)" using r(1) by auto
    then have "om_prev v (gb_maps g) = Some (key, r)" using kprev_entry [OF k] r(2) by blast
    then show ?thesis using main r(3) h by blast
  qed
qed

section \<open>Unmapping a span\<close>

lemma only_maps_unmap: "unmap_effect g S (Done (ok, g')) \<Longrightarrow>
    only_maps g g' \<and> backing_ok g' \<and> backing_view g' = (\<lambda>a. if ok \<and> S a then None else backing_view g a)"
  by (simp add: unmap_effect_def)

definition parts_cover :: "map_entry list \<Rightarrow> u64 \<Rightarrow> bool" where
  "parts_cover ps a \<longleftrightarrow> (\<exists>p \<in> set ps. gmaps.rcov p a)"

lemma unmap_targets_props:
  assumes "backing_ok g" and "gmaps.rwf ps" and "gmaps.rwf removed"
    and "\<And>p q. p \<in> set ps \<Longrightarrow> q \<in> set removed \<Longrightarrow> gmaps.apart p q"
    and "\<And>p. p \<in> set ps \<union> set removed \<Longrightarrow> entry_ok g p"
    and "\<And>p a. p \<in> set ps \<Longrightarrow> gmaps.rcov p a \<Longrightarrow> backing_view g a = Some (entry_attr p a)"
    and "\<And>a. gmaps.look removed a \<noteq> None \<Longrightarrow> backing_view g a = None"
  shows "case unmap_targets host ps removed g of Exit \<Rightarrow> True
    | Done (ok, g') \<Rightarrow> only_maps g g' \<and> backing_ok g' \<and> backing_view g' = (\<lambda>a.
        if ok then (if parts_cover ps a then None else backing_view g a)
        else case gmaps.look removed a of None \<Rightarrow> backing_view g a | Some x \<Rightarrow> Some x)"
  using assms
proof (induction ps arbitrary: removed g)
  case Nil
  then show ?case by (simp add: parts_cover_def)
next
  case (Cons p ps)
  have pr: "gmaps.rok p" "gmaps.rwf ps" "\<forall>c \<in> set ps. gmaps.apart p c"
    using Cons.prems(2) by (auto simp: gmaps.rwf_Cons)
  have f: "fits (me_vaddr p) (me_size p)" "me_size p \<noteq> 0" using pr(1) by (auto simp: gmaps.rok_def)
  have e2: "UnmapOne 2 = UnmapOne (Suc (Suc 0))" by (simp add: numeral_2_eq_2)
  have cov: "in_range (me_vaddr p) (me_size p) = gmaps.rcov p" by (simp add: gmaps.rcov_def fun_eq_iff)
  have eff: "unmap_effect g (gmaps.rcov p) (UnmapOne 2 host g (me_vaddr p) (me_size p))"
    using UnmapOne_props(1) [OF Cons.prems(1) f, of 0 host] by (simp only: e2 cov)
  show ?case
  proof (cases "UnmapOne 2 host g (me_vaddr p) (me_size p)")
    case Exit
    then show ?thesis by simp
  next
    case (Done r)
    obtain ok g1 where r: "r = (ok, g1)" by fastforce
    have e1: "only_maps g g1" "backing_ok g1" "backing_view g1 = (\<lambda>a. if ok \<and> gmaps.rcov p a then None else backing_view g a)"
      using only_maps_unmap eff Done r by auto
    show ?thesis
    proof (cases ok)
      case False
      have v1: "backing_view g1 = backing_view g" using e1(3) False by simp
      have "remap_all host removed g1 = Exit \<or> (\<exists>g'. remap_all host removed g1 = Done g' \<and> only_maps g1 g' \<and>
        backing_ok g' \<and> (\<forall>a. backing_view g' a = (case gmaps.look removed a of None \<Rightarrow> backing_view g1 a | Some x \<Rightarrow> Some x)))"
        using Cons.prems(5,7) only_mapsD(3) [OF e1(1)] by (intro remap_all_props [OF e1(2) Cons.prems(3)]) (auto simp: v1)
      then show ?thesis
        using Done r False only_maps_trans [OF e1(1)] unfolding v1 by (auto simp: fun_eq_iff)
    next
      case True
      have lk: "gmaps.look (p # removed) a = (if gmaps.rcov p a then Some (entry_attr p a) else gmaps.look removed a)" for a
        by (rule gmaps.look_Cons)
      have IH: "case unmap_targets host ps (p # removed) g1 of Exit \<Rightarrow> True
        | Done (ok, g') \<Rightarrow> only_maps g1 g' \<and> backing_ok g' \<and> backing_view g' = (\<lambda>a.
            if ok then (if parts_cover ps a then None else backing_view g1 a)
            else case gmaps.look (p # removed) a of None \<Rightarrow> backing_view g1 a | Some x \<Rightarrow> Some x)"
      proof (rule Cons.IH [OF e1(2) pr(2)])
        show "gmaps.rwf (p # removed)" using Cons.prems(3,4) pr(1) by (simp add: gmaps.rwf_Cons)
        show "gmaps.apart q c" if "q \<in> set ps" "c \<in> set (p # removed)" for q c
          using that Cons.prems(4) pr(3) by (auto dest: gmaps.apart_sym)
        show "entry_ok g1 q" if "q \<in> set ps \<union> set (p # removed)" for q
          using that Cons.prems(5) only_mapsD(3) [OF e1(1)] by auto
        show "backing_view g1 a = Some (entry_attr q a)" if "q \<in> set ps" "gmaps.rcov q a" for q a
          using that Cons.prems(6) pr(3) e1(3) by (auto simp: gmaps.apart_def)
        show "backing_view g1 a = None" if "gmaps.look (p # removed) a \<noteq> None" for a
          using that Cons.prems(7) e1(3) True by (auto simp: lk split: if_splits)
      qed
      have st: "unmap_targets host (p # ps) removed g = unmap_targets host ps (p # removed) g1"
        using Done r True by simp
      have pv: "gmaps.rcov p a \<Longrightarrow> backing_view g a = Some (entry_attr p a)" for a using Cons.prems(6) by simp
      have nr: "gmaps.rcov p a \<Longrightarrow> gmaps.look removed a = None" for a
        using Cons.prems(4) [of p] by (auto simp: gmaps.look_None gmaps.apart_def)
      show ?thesis
      proof (cases "unmap_targets host ps (p # removed) g1")
        case (Done r2)
        obtain ok2 g2 where r2: "r2 = (ok2, g2)" by fastforce
        have i: "only_maps g1 g2" "backing_ok g2" "backing_view g2 = (\<lambda>a.
            if ok2 then (if parts_cover ps a then None else backing_view g1 a)
            else case gmaps.look (p # removed) a of None \<Rightarrow> backing_view g1 a | Some x \<Rightarrow> Some x)"
          using IH Done r2 by auto
        have "backing_view g2 a = (if ok2 then (if parts_cover (p # ps) a then None else backing_view g a)
            else case gmaps.look removed a of None \<Rightarrow> backing_view g a | Some x \<Rightarrow> Some x)" for a
          using pv nr True unfolding i(3) e1(3) lk by (auto simp: parts_cover_def split: option.split)
        then show ?thesis using Done r2 i(2) only_maps_trans [OF e1(1) i(1)] unfolding st by auto
      next
        case Exit
        then show ?thesis unfolding st by simp
      qed
    qed
  qed
qed

text \<open>All-or-nothing, for every host.\<close>

theorem gb_Unmap_props:
  assumes ok: "backing_ok g"
  shows "unmap_effect g (in_range v z) (gb_Unmap host g v z)"
    and "gb_Unmap host g v z = Done (True, g') \<Longrightarrow> fits v z \<and> z \<noteq> 0 \<and> (\<forall>a. in_range v z a \<longrightarrow> backing_view g a \<noteq> None)"
proof -
  have "unmap_effect g (in_range v z) (gb_Unmap host g v z) \<and> (gb_Unmap host g v z = Done (True, g') \<longrightarrow>
    fits v z \<and> z \<noteq> 0 \<and> (\<forall>a. in_range v z a \<longrightarrow> backing_view g a \<noteq> None))"
  proof (cases "z = 0 \<or> \<not> fits v z")
    case True
    then show ?thesis using ok by (auto simp: gb_Unmap_def not_fits unmap_effect_def)
  next
    case False
    then have f: "fits v z" "z \<noteq> 0" by auto
    note EP = entry_parts_props [OF ok fits_le [OF f(1)]]
    show ?thesis
    proof (cases "entry_parts (gb_maps g) v (v + z)")
      case None
      then show ?thesis using ok by (auto simp: gb_Unmap_def unmap_effect_def)
    next
      case (Some ps)
      then have ps: "parts_of g v (v + z) ps" using EP by simp
      then have w: "gmaps.rwf ps" and lk: "gmaps.look ps a = (if in_range v z a then backing_view g a else None)" for a
        by (auto simp: parts_of_def in_range_def)
      have c: "parts_cover ps a \<longleftrightarrow> in_range v z a" for a
      proof -
        have "parts_cover ps a \<longleftrightarrow> gmaps.look ps a \<noteq> None" by (auto simp: parts_cover_def gmaps.look_None)
        then show ?thesis using ps lk by (auto simp: parts_of_def in_range_def)
      qed
      have at: "backing_view g a = Some (entry_attr p a)" if "p \<in> set ps" "gmaps.rcov p a" for p a
        using gmaps.look_member [OF w that] lk [of a] by (auto split: if_splits)
      have "case unmap_targets host ps [] g of Exit \<Rightarrow> True
        | Done (ok, g') \<Rightarrow> only_maps g g' \<and> backing_ok g' \<and> backing_view g' = (\<lambda>a.
            if ok then (if parts_cover ps a then None else backing_view g a)
            else case gmaps.look [] a of None \<Rightarrow> backing_view g a | Some x \<Rightarrow> Some x)"
        using ps at by (intro unmap_targets_props [OF ok w]) (auto simp: parts_of_def)
      moreover have "gb_Unmap host g v z = unmap_targets host ps [] g" using Some f by (simp add: gb_Unmap_def not_fits)
      moreover have "\<forall>a. in_range v z a \<longrightarrow> backing_view g a \<noteq> None" using ps by (auto simp: parts_of_def in_range_def)
      ultimately show ?thesis using f
        by (auto simp: unmap_effect_def c fun_eq_iff split: outcome.splits)
    qed
  qed
  then show "unmap_effect g (in_range v z) (gb_Unmap host g v z)"
    and "gb_Unmap host g v z = Done (True, g') \<Longrightarrow> fits v z \<and> z \<noteq> 0 \<and> (\<forall>a. in_range v z a \<longrightarrow> backing_view g a \<noteq> None)"
    by auto
qed

section \<open>A host that never refuses\<close>

declare UnmapOne.simps(2) [simp del]

lemma om_emplace_mono: "set m \<subseteq> set (om_emplace k v m)"
  using arg_cong [OF om_below_from [of m k], of set] by (auto simp: om_emplace_def)

lemma map_one_mono: "map_one host g e = Done (f, g') \<Longrightarrow> set (gb_maps g) \<subseteq> set (gb_maps g')"
  using om_emplace_mono
  by (fastforce simp: map_one_def MapExistingPlaceholderFixed_def host_call_def split: if_splits)

lemma remap_sides_mono:
  assumes "remap_sides d host g old L R = Done (True, g')"
  shows "set (gb_maps g) \<subseteq> set (gb_maps g')"
proof -
  have side: "set (gb_maps h) \<subseteq> set (gb_maps h')"
    if "(if me_size S \<noteq> 0 then map_one host h S else Done (NoFailure, h)) = Done (f, h')" for h h' S f
    using that map_one_mono [of host h S f h'] by (cases "me_size S = 0") auto
  show ?thesis
  proof (cases "if me_size L \<noteq> 0 then map_one host g L else Done (NoFailure, g)")
    case Exit
    then show ?thesis using assms unfolding remap_sides_def Exit by simp
  next
    case (Done r1)
    obtain f1 g3 where r1: "r1 = (f1, g3)" by fastforce
    show ?thesis
    proof (cases "if me_size R \<noteq> 0 then map_one host g3 R else Done (NoFailure, g3)")
      case Exit
      then show ?thesis using assms unfolding remap_sides_def Done r1 obind.simps prod.case Exit by simp
    next
      case done2: (Done r2)
      obtain f2 g4 where r2: "r2 = (f2, g4)" by fastforce
      have "g' = g4"
        using assms unfolding remap_sides_def Done r1 obind.simps prod.case done2 r2
        by (cases "f1 = NoFailure \<and> f2 = NoFailure") (auto simp: obind_eq_Done split: if_splits)
      then show ?thesis using side [OF Done [unfolded r1]] side [OF done2 [unfolded r2]] by blast
    qed
  qed
qed

lemma UnmapOne_keeps:
  assumes ok: "backing_ok g" and h: "\<forall>n. host n"
    and r: "(k, r) \<in> set (gb_maps g)" "gmaps.rcov r v" "v + z \<le> gmaps.rend r"
    and d: "UnmapOne (Suc (Suc d)) host g v z = Done (True, g')"
    and q: "(j, q) \<in> set (gb_maps g)" "\<not> gmaps.rcov q v"
  shows "(j, q) \<in> set (gb_maps g')"
proof -
  have kk: "gmaps.kok (gb_maps g)" using ok by (simp add: backing_ok_def)
  have p: "om_prev v (gb_maps g) = Some (k, r)" by (rule kprev_entry [OF kk r(1,2)])
  have n: "me_size r \<noteq> 0" using gmaps.kok_entry [OF kk r(1)] by (simp add: gmaps.rok_def)
  have "j \<noteq> k"
  proof
    assume "j = k"
    moreover have "me_vaddr q = j" "gmaps.rok q" using gmaps.kok_entry [OF kk q(1)] by auto
    ultimately have "om_prev k (gb_maps g) = Some (k, q)"
      using kprev_entry [OF kk q(1)] gmaps.rok_less [of q] by (simp add: gmaps.rcov_iff)
    moreover have "me_vaddr r = k" "gmaps.rok r" using gmaps.kok_entry [OF kk r(1)] by auto
    then have "om_prev k (gb_maps g) = Some (k, r)"
      using kprev_entry [OF kk r(1)] gmaps.rok_less [of r] by (simp add: gmaps.rcov_iff)
    ultimately show False using q(2) r(2) by simp
  qed
  then have "(j, q) \<in> set (om_erase k (gb_maps g))" using q(1) by (simp add: om_erase_def)
  then show ?thesis
    using d h UnmapOne_unfold [OF p r(3) n, where d = "Suc d" and host = host] remap_sides_mono by (fastforce split: if_splits)
qed

text \<open>Each part lies in an entry of its own, and later entries do not reach earlier parts.\<close>

definition placed :: "map_entry omap \<Rightarrow> (map_entry \<times> map_entry) list \<Rightarrow> bool" where
  "placed m prs \<longleftrightarrow> (\<forall>(p, r) \<in> set prs. (\<exists>k. (k, r) \<in> set m) \<and> gmaps.rok p \<and>
       gmaps.rcov r (me_vaddr p) \<and> gmaps.rend p \<le> gmaps.rend r) \<and>
     sorted_wrt (\<lambda>(p, r) (q, s). \<not> gmaps.rcov s (me_vaddr p)) prs"

lemma unmap_targets_total:
  assumes h: "\<forall>n. host n" and "backing_ok g" and "placed (gb_maps g) prs"
  shows "\<exists>g'. unmap_targets host (map fst prs) removed g = Done (True, g')"
  using assms(2-)
proof (induction prs arbitrary: g removed)
  case (Cons pr prs)
  obtain p r where pr: "pr = (p, r)" by fastforce
  obtain k where r: "(k, r) \<in> set (gb_maps g)" "gmaps.rok p" "gmaps.rcov r (me_vaddr p)" "gmaps.rend p \<le> gmaps.rend r"
    using Cons.prems(2) by (auto simp: placed_def pr)
  have f: "fits (me_vaddr p) (me_size p)" "me_size p \<noteq> 0" using r(2) by (auto simp: gmaps.rok_def)
  have e: "me_vaddr p + me_size p \<le> gmaps.rend r" using r(4) by (simp add: gmaps.rend_def [of p])
  have "r \<in> set (map snd (gb_maps g))" using r(1) by force
  then obtain g1 where g1: "UnmapOne (Suc (Suc 0)) host g (me_vaddr p) (me_size p) = Done (True, g1)"
    using UnmapOne_props(2) [OF Cons.prems(1) f h _ r(3) e, where d = 0] by blast
  have ok1: "backing_ok g1"
    using only_maps_unmap UnmapOne_props(1) [OF Cons.prems(1) f, of 0 host] unfolding g1 by blast
  have pl: "placed (gb_maps g) prs" "\<forall>(q, s) \<in> set prs. (\<exists>j. (j, s) \<in> set (gb_maps g)) \<and> \<not> gmaps.rcov s (me_vaddr p)"
    using Cons.prems(2) by (auto simp: placed_def pr)
  have "\<exists>k. (k, s) \<in> set (gb_maps g1)" if "(q, s) \<in> set prs" for q s
    using pl(2) that UnmapOne_keeps [OF Cons.prems(1) h r(1,3) e g1] by fast
  then have "placed (gb_maps g1) prs" using pl(1) by (auto simp: placed_def)
  then show ?case using Cons.IH [OF ok1] g1 by (simp add: pr numeral_2_eq_2)
qed simp

lemma entry_parts_placed:
  assumes ok: "backing_ok g" and ce: "c \<le> e" and ps: "entry_parts (gb_maps g) c e = Some ps"
  shows "\<exists>prs. ps = map fst prs \<and> placed (gb_maps g) prs"
  using assms
proof (induction "gb_maps g" c e arbitrary: ps rule: entry_parts.induct)
  case (1 c e)
  have k: "gmaps.kok (gb_maps g)" using ok by (simp add: backing_ok_def)
  show ?case
  proof (cases "c < e")
    case False
    then show ?thesis using "1.prems"(3) by (auto simp: entry_parts.simps placed_def intro!: exI [of _ "[]"])
  next
    case True
    obtain r where F: "FindContainingUnlocked (gb_maps g) c 1 = Some r"
      using "1.prems"(3) True by (auto simp: entry_parts.simps [of _ c] split: option.splits)
    have r: "(me_vaddr r, r) \<in> set (gb_maps g)" "gmaps.rok r" "gmaps.rcov r c"
      using FindContaining_entry(2) [OF k True F] by auto
    define m where "m = min e (gmaps.rend r)"
    have m: "\<not> gmaps.rend r \<le> c" "m \<le> e" "c < m" "m \<le> gmaps.rend r" using r(3) True by (auto simp: m_def gmaps.rcov_iff)
    obtain p qs where p: "ps = p # qs" "me_vaddr p = c" "me_size p = m - c" and qs: "entry_parts (gb_maps g) m e = Some qs"
      using "1.prems"(3) True F m(1)
      by (auto simp: entry_parts.simps [of _ c] gmaps.rend_def m_def)
    have "\<exists>prs. qs = map fst prs \<and> placed (gb_maps g) prs"
      using "1.hyps" [OF True F _ ok _ qs [unfolded m_def gmaps.rend_def]] m unfolding m_def gmaps.rend_def by blast
    then obtain prs where prs: "qs = map fst prs" "placed (gb_maps g) prs" by blast
    have po: "parts_of g m e qs" using entry_parts_props [OF ok m(2)] qs by simp
    have rp: "gmaps.rok p" "gmaps.rend p = m" using p m(3) by (auto simp: gmaps.rok_def gmaps.rend_def fits_diff)
    have later: "\<not> gmaps.rcov s c" if i: "(q, s) \<in> set prs" for q s
    proof
      assume sc: "gmaps.rcov s c"
      obtain j where s: "(j, s) \<in> set (gb_maps g)" "gmaps.rok q" "gmaps.rcov s (me_vaddr q)"
        using prs(2) i by (force simp: placed_def)
      have "s = r" using kprev_entry [OF k s(1) sc] kprev_entry [OF k r(1,3)] by simp
      have "q \<in> set qs" using i by (force simp: prs(1))
      moreover have "gmaps.rcov q (me_vaddr q)" using gmaps.rok_less [OF s(2)] by (simp add: gmaps.rcov_iff)
      ultimately have "gmaps.look qs (me_vaddr q) \<noteq> None" by (auto simp: gmaps.look_None)
      then have "m \<le> me_vaddr q" "me_vaddr q < e" using po by (auto simp: parts_of_def split: if_splits)
      then have "gmaps.rend r \<le> me_vaddr q" by (auto simp: m_def min_def split: if_splits)
      then show False using s(3) unfolding \<open>s = r\<close> gmaps.rcov_iff by auto
    qed
    have "placed (gb_maps g) ((p, r) # prs)"
      using prs(2) rp r p(2) m(4) later by (fastforce simp: placed_def)
    then show ?thesis using p(1) prs(1) by (intro exI [of _ "(p, r) # prs"]) simp
  qed
qed

theorem gb_Unmap_total:
  assumes ok: "backing_ok g" and h: "\<forall>n. host n" and f: "fits v z" "z \<noteq> 0"
    and m: "\<And>a. in_range v z a \<Longrightarrow> backing_view g a \<noteq> None"
  shows "\<exists>g'. gb_Unmap host g v z = Done (True, g')"
proof -
  have "entry_parts (gb_maps g) v (v + z) \<noteq> None"
  proof
    assume "entry_parts (gb_maps g) v (v + z) = None"
    then have "\<exists>a. v \<le> a \<and> a < v + z \<and> backing_view g a = None"
      using entry_parts_props [OF ok fits_le [OF f(1)]] by (simp only: option.case)
    then show False using m unfolding in_range_def by blast
  qed
  then obtain ps where ps: "entry_parts (gb_maps g) v (v + z) = Some ps" by blast
  obtain prs where "ps = map fst prs" "placed (gb_maps g) prs"
    using entry_parts_placed [OF ok fits_le [OF f(1)] ps] by blast
  then show ?thesis using unmap_targets_total [OF h ok] f ps by (simp add: gb_Unmap_def not_fits)
qed

end
