(* ===== verification/GuestAddressSpec.thy ===== *)
theory GuestAddressSpec
  imports GuestBackingSpec
begin

text \<open>
  The guest address space above its backing store: the regions it has mapped, the search for free
  addresses, and the invariant that ties the free list, the mapped regions and the backing views
  together. Every operation keeps that invariant.
\<close>

section \<open>Mapped regions\<close>

definition region_type :: "mapped_region \<Rightarrow> u64 \<Rightarrow> MappingType" where
  "region_type r a = mr_type r"

definition region_cut :: "u64 \<Rightarrow> u64 \<Rightarrow> mapped_region \<Rightarrow> mapped_region" where
  "region_cut s t r = r\<lparr>mr_vaddr := s, mr_size := t - s\<rparr>"

interpretation gmapped: regions mr_vaddr mr_size region_type region_cut
  by unfold_locales (simp_all add: region_cut_def region_type_def)

definition mapped_view :: "guest \<Rightarrow> u64 \<Rightarrow> MappingType option" where
  "mapped_view g a = map_option (\<lambda>e. mr_type (snd e))
     (find (\<lambda>e. in_range (mr_vaddr (snd e)) (mr_size (snd e)) a) (gs_mapped g))"

lemma mapped_view_kview: "mapped_view g = gmapped.kview (gs_mapped g)"
proof
  fix a
  have "find (\<lambda>e. gmapped.rcov e a) (map snd m) = map_option snd (find (\<lambda>e. gmapped.rcov (snd e) a) m)"
    for m :: "mapped_region omap"
    by (induction m) auto
  then show "mapped_view g a = gmapped.kview (gs_mapped g) a"
    by (simp add: mapped_view_def gmapped.kview_def gmapped.look_def gmapped.rcov_def option.map_comp comp_def
        region_type_def)
qed

lemma FindMapped_props:
  assumes k: "gmapped.kok m"
  shows "case FindMappedContainingUnlocked m a of None \<Rightarrow> gmapped.kview m a = None
    | Some (key, r) \<Rightarrow> (\<exists>xs ys. m = xs @ (key, r) # ys \<and> om_erase key m = xs @ ys) \<and> mr_vaddr r = key \<and>
        gmapped.rok r \<and> gmapped.rcov r a \<and> gmapped.kview m a = Some (mr_type r)"
proof (cases "om_prev a m")
  case None
  then show ?thesis using gmapped.kprev_None [OF k None] by (simp add: FindMappedContainingUnlocked_def)
next
  case (Some p)
  obtain key r where p: "p = (key, r)" by fastforce
  show ?thesis
    using gmapped.kprev_Some [OF k Some [unfolded p]] Some p
    by (auto simp: FindMappedContainingUnlocked_def gmapped.rcov_iff gmapped.rend_def region_type_def)
qed

lemma region_run:
  assumes k: "gmapped.kok m" and r: "(key, r) \<in> set m" "gmapped.rcov r a"
  shows "gmapped.kview m a = Some (mr_type r)"
proof -
  obtain xs ys where x: "m = xs @ (key, r) # ys" using r(1) by (meson split_list)
  show ?thesis using gmapped.kview_at(1) [OF k [unfolded x] r(2)] by (simp add: x region_type_def)
qed

lemma mapped_walk_iff:
  assumes k: "gmapped.kok m" and "c \<le> e"
  shows "mapped_walk m type c e \<longleftrightarrow> (\<forall>a. c \<le> a \<and> a < e \<longrightarrow> gmapped.kview m a = Some type)"
  using assms
proof (induction m type c e rule: mapped_walk.induct)
  case (1 m type c e)
  show ?case
  proof (cases "c < e")
    case False
    then show ?thesis by (auto simp: mapped_walk.simps)
  next
    case True
    note F = FindMapped_props [OF "1.prems"(1), of c]
    show ?thesis
    proof (cases "FindMappedContainingUnlocked m c")
      case None
      then show ?thesis using F True by (auto simp: mapped_walk.simps [of _ _ c] intro!: exI [of _ c])
    next
      case (Some p)
      obtain key r where p: "p = (key, r)" by fastforce
      have r: "(key, r) \<in> set m" "gmapped.rcov r c" "gmapped.kview m c = Some (mr_type r)"
        using F Some p by auto
      define n where "n = min e (mr_vaddr r + mr_size r)"
      have n: "c < n" "n \<le> e" "n \<le> gmapped.rend r"
        using r(2) True by (auto simp: n_def gmapped.rcov_iff gmapped.rend_def)
      have run: "gmapped.kview m a = Some (mr_type r)" if "c \<le> a" "a < n" for a
      proof -
        have "gmapped.rcov r a"
          using that r(2) n(3) unfolding gmapped.rcov_iff by (blast intro: order_trans order.strict_trans2)
        then show ?thesis using region_run [OF "1.prems"(1) r(1)] by blast
      qed
      show ?thesis
      proof (cases "mr_type r = type")
        case False
        then show ?thesis using Some p True r(3) by (auto simp: mapped_walk.simps [of _ _ c] intro!: exI [of _ c])
      next
        case ty: True
        have "mapped_walk m type c e \<longleftrightarrow> mapped_walk m type n e"
          using Some p True ty by (simp add: mapped_walk.simps [of _ _ c] n_def)
        also have "\<dots> \<longleftrightarrow> (\<forall>a. n \<le> a \<and> a < e \<longrightarrow> gmapped.kview m a = Some type)"
          using "1.IH" [OF True Some p [symmetric]] ty "1.prems"(1) n(2) by (simp add: n_def)
        also have "\<dots> \<longleftrightarrow> (\<forall>a. c \<le> a \<and> a < e \<longrightarrow> gmapped.kview m a = Some type)"
          by (rule all_from [symmetric]) (use n(1) run ty in auto)
        finally show ?thesis .
      qed
    qed
  qed
qed

lemma ContainsMapped_iff:
  assumes k: "gmapped.kok m"
  shows "ContainsMappedUnlocked m v z type \<longleftrightarrow> z \<noteq> 0 \<and> fits v z \<and> (\<forall>a. in_range v z a \<longrightarrow> gmapped.kview m a = Some type)"
  using mapped_walk_iff [OF k fits_le, of v z type] by (auto simp: ContainsMappedUnlocked_def not_fits in_range_def)

lemma AddMapped_props:
  assumes k: "gmapped.kok m" and f: "fits v z" "z \<noteq> 0"
  shows "if \<exists>a. in_range v z a \<and> gmapped.kview m a \<noteq> None then AddMappedUnlocked m v z type = None
    else \<exists>m'. AddMappedUnlocked m v z type = Some m' \<and> gmapped.kok m' \<and>
      (\<forall>a. gmapped.kview m' a = (if in_range v z a then Some type else gmapped.kview m a))"
proof -
  define r where "r = \<lparr>mr_vaddr = v, mr_size = z, mr_type = type\<rparr>"
  have rok: "gmapped.rok r" "mr_vaddr r = v" and cov: "gmapped.rcov r a \<longleftrightarrow> in_range v z a" for a
    using f by (auto simp: r_def gmapped.rok_def gmapped.rcov_def)
  have om: "ordered m" by (rule gmapped.kok_ordered [OF k])
  have lt: "v < v + z" using f by (rule fits_less)
  define pre nx where "pre = om_below v m" and "nx = om_from v m"
  have m: "m = pre @ nx" unfolding pre_def nx_def by (rule om_below_from)
  have e: "mr_vaddr q = key \<and> gmapped.rok q" if "(key, q) \<in> set m" for key q
    using gmapped.kok_entry [OF k that] by simp
  have d: "disjoint (gmapped.kspans pre @ gmapped.kspans nx)" using k by (simp add: m gmapped.kok_def)
  define bad where "bad \<longleftrightarrow> (nx \<noteq> [] \<and> mr_vaddr (snd (hd nx)) < v + z) \<or>
     (pre \<noteq> [] \<and> v < mr_vaddr (snd (last pre)) + mr_size (snd (last pre)))"
  have bad1: "\<exists>a. in_range v z a \<and> gmapped.kview m a \<noteq> None" if bad
    using that unfolding bad_def
  proof
    assume b: "nx \<noteq> [] \<and> mr_vaddr (snd (hd nx)) < v + z"
    obtain key q where q: "hd nx = (key, q)" by fastforce
    have i: "(key, q) \<in> set m" using b q by (metis Un_iff hd_in_set m set_append)
    have "v \<le> key" using om_from_ge [OF om, of "(key, q)" v] b q by (metis fst_conv hd_in_set nx_def)
    then have "in_range v z key" using b q e [OF i] by (simp add: in_range_def)
    moreover have "gmapped.rcov q key" using e [OF i] gmapped.rok_less [of q] by (simp add: gmapped.rcov_iff)
    ultimately show ?thesis using region_run [OF k i] by blast
  next
    assume b: "pre \<noteq> [] \<and> v < mr_vaddr (snd (last pre)) + mr_size (snd (last pre))"
    obtain key q where q: "last pre = (key, q)" by fastforce
    have i: "(key, q) \<in> set m" using b q by (metis Un_iff last_in_set m set_append)
    have "key < v" using om_below_less [of "(key, q)" v m] b q by (metis fst_conv last_in_set pre_def)
    then have "gmapped.rcov q v" using b q e [OF i] by (simp add: gmapped.rcov_iff gmapped.rend_def less_imp_le)
    then show ?thesis using region_run [OF k i] lt by (auto simp: in_range_def)
  qed
  have bad2: "gmapped.kview m a = None" if n: "\<not> bad" and a: "in_range v z a" for a
  proof -
    have "\<not> in_range (fst y) (snd y) a" if y: "y \<in> set (gmapped.kspans nx)" for y
    proof -
      have ne: "nx \<noteq> []" using y by auto
      obtain key q rest where h: "nx = (key, q) # rest" using ne by (metis list.exhaust surj_pair)
      have "mr_vaddr q = key" using e [of key q] by (simp add: m h)
      then have "v + z \<le> key" using n by (simp add: bad_def h not_less)
      moreover have "key \<le> fst y"
        using y d gmapped.kok_ordered [OF k] by (auto simp: h m ordered_append ordered_Cons gmapped.kspans_def less_imp_le)
      ultimately show ?thesis using a by (auto simp: in_range_def)
    qed
    moreover have "\<not> in_range (fst x) (snd x) a" if x: "x \<in> set (gmapped.kspans pre)" for x
    proof -
      have ne: "pre \<noteq> []" using x by auto
      obtain key q us where h: "pre = us @ [(key, q)]" using ne by (metis rev_exhaust surj_pair)
      have q: "mr_vaddr q = key" "gmapped.rok q" using e [of key q] by (simp_all add: m h)
      then have kv: "key + mr_size q \<le> v" using n by (simp add: bad_def h not_less)
      have "fst x + snd x \<le> key + mr_size q"
      proof (cases "x = (key, mr_size q)")
        case False
        then have "fst x + snd x \<le> key" using x d by (auto simp: h disjoint_append)
        moreover have "key \<le> key + mr_size q" using q by (auto simp: gmapped.rok_def intro: fits_le)
        ultimately show ?thesis by (rule order_trans)
      qed simp
      then show ?thesis using kv a by (auto simp: in_range_def)
    qed
    ultimately have "\<not> sp_at (gmapped.kspans m) a" by (auto simp: m sp_at_def)
    then show ?thesis using gmapped.kview_sp [OF k] by simp
  qed
  show ?thesis
  proof (cases bad)
    case True
    then have "AddMappedUnlocked m v z type = None"
      unfolding AddMappedUnlocked_def Let_def pre_def [symmetric] nx_def [symmetric] bad_def by auto
    then show ?thesis using bad1 [OF True] by simp
  next
    case False
    have n: "gmapped.rcov r a \<Longrightarrow> gmapped.kview m a = None" for a using bad2 [OF False] cov by blast
    note I = gmapped.kinsert [OF k rok(1) n, unfolded rok(2)]
    have "AddMappedUnlocked m v z type = Some (om_emplace v r m)"
      using f False I(1) unfolding AddMappedUnlocked_def Let_def pre_def [symmetric] nx_def [symmetric]
      by (auto simp: bad_def not_fits r_def)
    then show ?thesis using I(2,3) cov bad2 [OF False] by (auto simp: region_type_def r_def)
  qed
qed

lemma add_part_props:
  assumes k: "gmapped.kok m" and n: "\<And>a. s \<le> a \<Longrightarrow> a < t \<Longrightarrow> gmapped.kview m a = None"
  shows "\<exists>m'. add_part m s t type = Done m' \<and> gmapped.kok m' \<and>
    (\<forall>a. gmapped.kview m' a = (if s \<le> a \<and> a < t then Some type else gmapped.kview m a))"
proof (cases "s < t")
  case True
  then have f: "fits s (t - s)" "t - s \<noteq> 0" by (auto intro: fits_diff)
  have i: "in_range s (t - s) a \<longleftrightarrow> s \<le> a \<and> a < t" for a by (simp add: in_range_def)
  have nn: "\<not> (\<exists>a. in_range s (t - s) a \<and> gmapped.kview m a \<noteq> None)" 
  proof (intro notI, elim exE conjE)
    fix a assume "in_range s (t - s) a" "gmapped.kview m a \<noteq> None"
    then show False using n [of a] i [of a] by simp
  qed
  obtain m' where "AddMappedUnlocked m s (t - s) type = Some m'" "gmapped.kok m'"
    "\<forall>a. gmapped.kview m' a = (if in_range s (t - s) a then Some type else gmapped.kview m a)"
    using AddMapped_props [OF k f, of type] unfolding if_not_P [OF nn] by (elim exE conjE)
  then show ?thesis using True by (simp add: add_part_def i)
next
  case False
  then have "(s \<le> a \<and> a < t) = False" for a by (auto simp: not_less)
  then show ?thesis using False k by (simp only:) (simp add: add_part_def)
qed

lemma remove_walk_props:
  assumes "gmapped.kok m" and "c \<le> e" and "\<And>a. c \<le> a \<Longrightarrow> a < e \<Longrightarrow> gmapped.kview m a \<noteq> None"
  shows "\<exists>m'. remove_walk m c e = Done m' \<and> gmapped.kok m' \<and>
    (\<forall>a. gmapped.kview m' a = (if c \<le> a \<and> a < e then None else gmapped.kview m a))"
  using assms
proof (induction m c e rule: remove_walk.induct)
  case (1 m c e)
  show ?case
  proof (cases "c < e")
    case False
    then have "(c \<le> a \<and> a < e) = False" for a by (auto simp: not_less)
    then show ?thesis using False "1.prems"(1) by (simp only:) (simp add: remove_walk.simps)
  next
    case True
    note F = FindMapped_props [OF "1.prems"(1), of c]
    have "FindMappedContainingUnlocked m c \<noteq> None"
      using F "1.prems"(3) [of c] True by (auto split: option.splits)
    then obtain key r where Fd: "FindMappedContainingUnlocked m c = Some (key, r)" by auto
    then obtain xs ys where r: "m = xs @ (key, r) # ys" "om_erase key m = xs @ ys" "mr_vaddr r = key"
      "gmapped.rok r" "gmapped.rcov r c" "gmapped.kview m c = Some (mr_type r)" using F by auto
    define n where "n = min e (mr_vaddr r + mr_size r)"
    have n: "c < n" "n \<le> e" "n \<le> gmapped.rend r" "key \<le> c"
      using r(3,5) True by (auto simp: n_def gmapped.rcov_iff gmapped.rend_def)
    note k0 = "1.prems"(1) [unfolded r(1)]
    have v0: "gmapped.kview (om_erase key m) a = (if gmapped.rcov r a then None else gmapped.kview m a)" for a
      unfolding r(2) using gmapped.kview_at(2) [OF k0, of a] by (simp add: r(1))
    have vr: "gmapped.rcov r a \<Longrightarrow> gmapped.kview m a = Some (mr_type r)" for a
      using region_run [OF "1.prems"(1), of key r a] r(1) by simp
    have k1: "gmapped.kok (om_erase key m)" unfolding r(2) by (rule gmapped.kok_erase [OF k0])
    have n1: "gmapped.kview (om_erase key m) a = None" if "mr_vaddr r \<le> a" "a < c" for a
      using that n r(3) by (auto simp: v0 gmapped.rcov_iff)
    obtain m1 where m1: "add_part (om_erase key m) (mr_vaddr r) c (mr_type r) = Done m1" "gmapped.kok m1"
      "\<forall>a. gmapped.kview m1 a = (if mr_vaddr r \<le> a \<and> a < c then Some (mr_type r) else gmapped.kview (om_erase key m) a)"
      using add_part_props [OF k1 n1, where type = "mr_type r"] by blast
    have n2: "gmapped.kview m1 a = None" if "n \<le> a" "a < mr_vaddr r + mr_size r" for a
    proof -
      have "\<not> a < c" using that n(1) by auto
      moreover have "gmapped.rcov r a" using that n r(3) by (auto simp: gmapped.rcov_iff gmapped.rend_def)
      ultimately show ?thesis using m1(3) v0 by simp
    qed
    obtain m2 where m2: "add_part m1 n (mr_vaddr r + mr_size r) (mr_type r) = Done m2" "gmapped.kok m2"
      "\<forall>a. gmapped.kview m2 a = (if n \<le> a \<and> a < mr_vaddr r + mr_size r then Some (mr_type r) else gmapped.kview m1 a)"
      using add_part_props [OF m1(2) n2, where type = "mr_type r"] by blast
    have v2: "gmapped.kview m2 a = (if c \<le> a \<and> a < n then None else gmapped.kview m a)" for a
    proof (cases "gmapped.rcov r a")
      case True
      then show ?thesis using m2(3) m1(3) v0 vr n by (auto simp: gmapped.rcov_iff gmapped.rend_def not_le not_less)
    next
      case False
      then have "\<not> (mr_vaddr r \<le> a \<and> a < c)" "\<not> (n \<le> a \<and> a < mr_vaddr r + mr_size r)" "\<not> (c \<le> a \<and> a < n)"
        using n r(3) by (auto simp: gmapped.rcov_iff gmapped.rend_def)
      then show ?thesis unfolding m2(3) [rule_format] m1(3) [rule_format] v0 by (simp only: False if_False)
    qed
    have st: "remove_walk m c e = remove_walk m2 n e"
      using True Fd m1(1) m2(1) by (simp add: remove_walk.simps [of m c] Let_def n_def [symmetric])
    have "gmapped.kview m2 a \<noteq> None" if "n \<le> a" "a < e" for a
      using that n(1) v2 [of a] "1.prems"(3) [of a] by auto
    then have "\<exists>m'. remove_walk m2 n e = Done m' \<and> gmapped.kok m' \<and>
        (\<forall>a. gmapped.kview m' a = (if n \<le> a \<and> a < e then None else gmapped.kview m2 a))"
      using "1.IH" [OF True Fd refl n_def m1(1) m2(1) m2(2) n(2)] by blast
    then show ?thesis using n v2 unfolding st by (elim exE conjE) (rule exI, auto)
  qed
qed

lemma RemoveMapped_props:
  assumes k: "gmapped.kok m"
  shows "if ContainsMappedUnlocked m v z type
    then \<exists>m'. RemoveMappedUnlocked m v z type = Done (Some m') \<and> gmapped.kok m' \<and>
      (\<forall>a. gmapped.kview m' a = (if in_range v z a then None else gmapped.kview m a))
    else RemoveMappedUnlocked m v z type = Done None"
proof (cases "ContainsMappedUnlocked m v z type")
  case True
  then have c: "z \<noteq> 0" "fits v z" "\<forall>a. in_range v z a \<longrightarrow> gmapped.kview m a = Some type"
    using ContainsMapped_iff [OF k] by auto
  have "gmapped.kview m a \<noteq> None" if "v \<le> a" "a < v + z" for a using c(3) that by (simp add: in_range_def)
  then obtain m' where "remove_walk m v (v + z) = Done m'" "gmapped.kok m'"
    "\<forall>a. gmapped.kview m' a = (if v \<le> a \<and> a < v + z then None else gmapped.kview m a)"
    using remove_walk_props [OF k fits_le [OF c(2)]] by blast
  then show ?thesis using True by (simp add: RemoveMappedUnlocked_def in_range_def)
next
  case False
  then show ?thesis by (simp add: RemoveMappedUnlocked_def)
qed

section \<open>The invariant\<close>

definition owned_at :: "guest \<Rightarrow> u64 \<Rightarrow> bool" where
  "owned_at g a \<longleftrightarrow> (\<exists>r \<in> set (gs_owned g). in_range (fst r) (snd r) a)"

definition guest_ok :: "guest \<Rightarrow> bool" where
  "guest_ok g \<longleftrightarrow> separate (gs_free g) \<and> gmapped.kok (gs_mapped g) \<and> backing_ok g \<and> \<not> owned_at g 0 \<and>
     (\<forall>a. \<not> (sp_at (gs_free g) a \<and> mapped_view g a \<noteq> None)) \<and>
     (\<forall>a. owned_at g a \<longleftrightarrow> sp_at (gs_free g) a \<or> mapped_view g a \<noteq> None) \<and>
     (\<forall>a. backing_view g a \<noteq> None \<longleftrightarrow> mapped_view g a = Some Backing)"

lemma guest_okD:
  assumes "guest_ok g"
  shows "separate (gs_free g)" "gmapped.kok (gs_mapped g)" "backing_ok g"
    "sp_at (gs_free g) a \<Longrightarrow> mapped_view g a = None" "sp_at (gs_free g) a \<or> mapped_view g a \<noteq> None \<Longrightarrow> a \<noteq> 0"
    "backing_view g a \<noteq> None \<longleftrightarrow> mapped_view g a = Some Backing"
  using assms by (auto simp: guest_ok_def)

text \<open>Moving a span between free and mapped keeps the invariant.\<close>

lemma guest_ok_move:
  assumes ok: "guest_ok g" and w: "gs_owned g' = gs_owned g"
    and p: "separate (gs_free g')" "gmapped.kok (gs_mapped g')" "backing_ok g'"
    and f: "\<And>a. sp_at (gs_free g') a \<longleftrightarrow> (if S a then t = None else sp_at (gs_free g) a)"
    and m: "\<And>a. mapped_view g' a = (if S a then t else mapped_view g a)"
    and b: "\<And>a. backing_view g' a \<noteq> None \<longleftrightarrow> (if S a then t = Some Backing else backing_view g a \<noteq> None)"
    and o: "\<And>a. S a \<Longrightarrow> sp_at (gs_free g) a \<or> mapped_view g a \<noteq> None"
  shows "guest_ok g'"
proof -
  have ow: "owned_at g' = owned_at g" using w by (simp add: fun_eq_iff owned_at_def)
  have g: "\<not> owned_at g 0" "\<And>a. \<not> (sp_at (gs_free g) a \<and> mapped_view g a \<noteq> None)"
    "\<And>a. owned_at g a \<longleftrightarrow> sp_at (gs_free g) a \<or> mapped_view g a \<noteq> None"
    "\<And>a. backing_view g a \<noteq> None \<longleftrightarrow> mapped_view g a = Some Backing"
    using ok by (auto simp: guest_ok_def)
  have "\<not> (sp_at (gs_free g') a \<and> mapped_view g' a \<noteq> None) \<and>
     (owned_at g' a \<longleftrightarrow> sp_at (gs_free g') a \<or> mapped_view g' a \<noteq> None) \<and>
     (backing_view g' a \<noteq> None \<longleftrightarrow> mapped_view g' a = Some Backing)" for a
  proof (cases "S a")
    case True
    then show ?thesis using f [of a] m [of a] b [of a] o [of a] g(3) [of a] unfolding ow by auto
  next
    case False
    then show ?thesis using f [of a] m [of a] b [of a] g(2,3,4) [of a] unfolding ow by auto
  qed
  then show ?thesis using p g(1) ow by (simp add: guest_ok_def)
qed

section \<open>The operations\<close>

lemma other_fields [simp]:
  "backing_ok (g\<lparr>gs_free := x\<rparr>) = backing_ok g" "backing_view (g\<lparr>gs_free := x\<rparr>) = backing_view g"
  "backing_ok (g\<lparr>gs_mapped := y\<rparr>) = backing_ok g" "backing_view (g\<lparr>gs_mapped := y\<rparr>) = backing_view g"
  "backing_ok (g\<lparr>gs_clock := n\<rparr>) = backing_ok g" "backing_view (g\<lparr>gs_clock := n\<rparr>) = backing_view g"
  by (simp_all add: backing_ok_def entry_ok_def RangeOk_def backing_view_def fun_eq_iff)

text \<open>What changes when a span becomes mapped with type \<open>t\<close>, or free when \<open>t\<close> is None.\<close>

definition becomes :: "guest \<Rightarrow> u64 \<Rightarrow> u64 \<Rightarrow> MappingType option \<Rightarrow> (u64 \<Rightarrow> (u64 \<times> host_mode) option) \<Rightarrow> guest \<Rightarrow> bool" where
  "becomes g v z t bv g' \<longleftrightarrow> guest_ok g' \<and> gb_size g' = gb_size g \<and>
     (\<forall>a. sp_at (gs_free g') a \<longleftrightarrow> (if in_range v z a then t = None else sp_at (gs_free g) a)) \<and>
     (\<forall>a. mapped_view g' a = (if in_range v z a then t else mapped_view g a)) \<and>
     (\<forall>a. backing_view g' a = (if in_range v z a then bv a else backing_view g a))"

definition unchanged :: "guest \<Rightarrow> guest \<Rightarrow> bool" where
  "unchanged g g' \<longleftrightarrow> guest_ok g' \<and> gb_size g' = gb_size g \<and> sp_at (gs_free g') = sp_at (gs_free g) \<and>
     mapped_view g' = mapped_view g \<and> backing_view g' = backing_view g"

lemma unchanged_refl: "guest_ok g \<Longrightarrow> unchanged g g"
  by (simp add: unchanged_def)

lemma owned_nonzero:
  assumes "guest_ok g" "fits v z" "z \<noteq> 0" "\<And>a. in_range v z a \<Longrightarrow> sp_at (gs_free g) a \<or> mapped_view g a \<noteq> None"
  shows "v \<noteq> 0"
proof -
  have "in_range v z v" using fits_less [OF assms(2,3)] by (simp add: in_range_def)
  then show ?thesis using guest_okD(5) [OF assms(1), of v] assms(4) by blast
qed

lemma give_back:
  assumes m: "separate free" and f: "fits v z" "z \<noteq> 0" "v \<noteq> 0" and n: "\<And>a. in_range v z a \<Longrightarrow> \<not> sp_at free a"
  shows "separate (AddFreeUnlocked v z free)"
    and "sp_at (AddFreeUnlocked v z free) a \<longleftrightarrow> sp_at free a \<or> in_range v z a"
proof -
  have "1 \<le> v" using f(3) by (simp add: word_le_nat_alt Suc_le_eq unat_gt_0)
  then show "separate (AddFreeUnlocked v z free)"
    and "sp_at (AddFreeUnlocked v z free) a \<longleftrightarrow> sp_at free a \<or> in_range v z a"
    using guest_free.give_ok [OF m f(1,2) _ n] guest_free.give_at [OF m f(1,2) _ n] by auto
qed

text \<open>The free span is taken; mapping it may still fail, and then it is given back.\<close>

lemma take_and_return:
  assumes ok: "guest_ok g" and f: "fits v z" "z \<noteq> 0" and c: "ConsumeUnlocked (gs_free g) v z = (True, free)"
    and g': "gs_free g' = AddFreeUnlocked v z free" "gs_mapped g' = gs_mapped g" "gs_owned g' = gs_owned g"
      "backing_ok g'" "backing_view g' = backing_view g" "gb_size g' = gb_size g"
  shows "unchanged g g'"
proof -
  note C = ConsumeUnlocked_props [OF guest_okD(1) [OF ok] f c]
  have fr: "sp_at (gs_free g) a" if "in_range v z a" for a using C(1) that by simp
  have v: "v \<noteq> 0" using owned_nonzero [OF ok f] fr by blast
  have n: "in_range v z a \<Longrightarrow> \<not> sp_at free a" for a using C(3) by simp
  note G = give_back [OF C(2) f v n]
  have sf: "sp_at (gs_free g') = sp_at (gs_free g)" using G(2) C(3) fr by (auto simp: g'(1) fun_eq_iff)
  have mv: "mapped_view g' = mapped_view g" by (simp add: mapped_view_kview g'(2))
  have "guest_ok g'"
    by (rule guest_ok_move [OF ok g'(3), where S = "\<lambda>_. False" and t = None])
      (use G(1) g' guest_okD(2) [OF ok] sf mv in simp_all)
  then show ?thesis using sf mv g'(5,6) by (simp add: unchanged_def)
qed

lemma gs_MapBacking_props:
  assumes ok: "guest_ok g" and f: "fits v z" "z \<noteq> 0"
  shows "\<exists>r g'. gs_MapBacking host g v z off mode = Done (r, g') \<and>
    (r = NoFailure \<longleftrightarrow> (\<forall>a. in_range v z a \<longrightarrow> sp_at (gs_free g) a) \<and> RangeOk g off z \<and> host (gs_clock g)) \<and>
    (if r = NoFailure then becomes g v z (Some Backing) (\<lambda>a. Some (off + (a - v), host_mode_for mode)) g' else unchanged g g')"
proof -
  obtain taken free where c: "ConsumeUnlocked (gs_free g) v z = (taken, free)" by fastforce
  note C = ConsumeUnlocked_props [OF guest_okD(1) [OF ok] f c]
  show ?thesis
  proof (cases taken)
    case False
    then show ?thesis using c C(1,4) ok by (simp add: gs_MapBacking_def unchanged_refl)
  next
    case True
    then have fr: "\<forall>a. in_range v z a \<longrightarrow> sp_at (gs_free g) a" using C(1) by simp
    define g1 where "g1 = g\<lparr>gs_free := free\<rparr>"
    define e where "e = \<lparr>me_vaddr = v, me_size = z, me_offset = off, me_mode = host_mode_for mode\<rparr>"
    have b1: "backing_ok g1" "backing_view g1 = backing_view g"
      using guest_okD(3) [OF ok] by (simp_all add: g1_def)
    have rcov: "gmaps.rcov e = in_range v z" and rok: "gmaps.rok e"
      using f by (auto simp: e_def gmaps.rcov_def gmaps.rok_def fun_eq_iff)
    have nb: "backing_view g a = None" if "in_range v z a" for a
      using guest_okD(4,6) [OF ok, of a] fr that by (metis option.discI)
    have res: "gs_MapBacking host g v z off mode =
      obind (map_one host g1 e) (\<lambda>(r, g2). if r = NoFailure then
                (case AddMappedUnlocked (gs_mapped g2) v z Backing of
                   None \<Rightarrow> Exit | Some m \<Rightarrow> Done (NoFailure, g2\<lparr>gs_mapped := m\<rparr>))
              else Done (r, g2\<lparr>gs_free := AddFreeUnlocked v z (gs_free g2)\<rparr>))"
      using c True by (simp add: gs_MapBacking_def map_one_def e_def g1_def)
    show ?thesis
    proof (cases "RangeOk g off z")
      case ro: False
      have "map_one host g1 e = Done (PhysicalRangeOutOfBounds, g1)"
        using ro guest_okD(3) [OF ok]
        by (simp add: map_one_def MapExistingPlaceholderFixed_def e_def g1_def RangeOk_def backing_ok_def)
      then have r: "gs_MapBacking host g v z off mode =
          Done (PhysicalRangeOutOfBounds, g1\<lparr>gs_free := AddFreeUnlocked v z (gs_free g1)\<rparr>)"
        unfolding res by simp
      have "unchanged g (g1\<lparr>gs_free := AddFreeUnlocked v z (gs_free g1)\<rparr>)"
        by (rule take_and_return [OF ok f c [unfolded True[THEN eqTrueI]]])
          (use guest_okD(3) [OF ok] in \<open>simp_all add: g1_def\<close>)
      then show ?thesis using r ro by simp
    next
      case ro: True
      have eo: "entry_ok g1 e" using ro by (simp add: entry_ok_def RangeOk_def e_def g1_def)
      have nb1: "gmaps.rcov e a \<Longrightarrow> backing_view g1 a = None" for a using nb by (simp add: b1 rcov)
      obtain r g2 where m: "map_one host g1 e = Done (r, g2)" "only_maps g1 g2" "backing_ok g2"
        "r = NoFailure \<longleftrightarrow> host (gs_clock g1)"
        "backing_view g2 = (\<lambda>a. if r = NoFailure \<and> gmaps.rcov e a then Some (entry_attr e a) else backing_view g1 a)"
        using map_one_props [OF b1(1) eo rok nb1, of host] by auto
      have g2: "gs_free g2 = free" "gs_mapped g2 = gs_mapped g" "gs_owned g2 = gs_owned g" "gb_size g2 = gb_size g"
        using only_mapsD [OF m(2)] by (auto simp: g1_def)
      have ck: "gs_clock g1 = gs_clock g" by (simp add: g1_def)
      show ?thesis
      proof (cases "r = NoFailure")
        case False
        let ?g = "g2\<lparr>gs_free := AddFreeUnlocked v z (gs_free g2)\<rparr>"
        have "unchanged g ?g"
          by (rule take_and_return [OF ok f c [unfolded True[THEN eqTrueI]]])
            (use m(3,5) b1(2) g2 False in simp_all)
        then show ?thesis using res m(1,4) False ck by simp
      next
        case nf: True
        have nm: "\<not> (\<exists>a. in_range v z a \<and> gmapped.kview (gs_mapped g) a \<noteq> None)"
          using guest_okD(4) [OF ok] fr by (auto simp: mapped_view_kview)
        obtain mm where mm: "AddMappedUnlocked (gs_mapped g) v z Backing = Some mm" "gmapped.kok mm"
          "\<forall>a. gmapped.kview mm a = (if in_range v z a then Some Backing else gmapped.kview (gs_mapped g) a)"
          using AddMapped_props [OF guest_okD(2) [OF ok] f, of Backing] unfolding if_not_P [OF nm] by (elim exE conjE)
        let ?g = "g2\<lparr>gs_mapped := mm\<rparr>"
        have fr': "sp_at (gs_free ?g) a \<longleftrightarrow> (if in_range v z a then Some Backing = None else sp_at (gs_free g) a)" for a
          using C(3) True by (simp add: g2)
        have mv: "mapped_view ?g a = (if in_range v z a then Some Backing else mapped_view g a)" for a
          using mm(3) by (simp add: mapped_view_kview)
        have bv: "backing_view ?g a = (if in_range v z a then Some (off + (a - v), host_mode_for mode) else backing_view g a)" for a
          using m(5) nf unfolding rcov b1 by (simp add: entry_attr_def e_def)
        have bo: "backing_ok ?g" using m(3) by simp
        have "guest_ok ?g"
          by (rule guest_ok_move [OF ok, where S = "in_range v z" and t = "Some Backing"])
            (use g2 C(2) mm(2) bo fr' mv bv fr in simp_all)
        then have "becomes g v z (Some Backing) (\<lambda>a. Some (off + (a - v), host_mode_for mode)) ?g"
          using fr' mv bv g2(4) by (simp add: becomes_def)
        then show ?thesis using res m(1,4) nf mm(1) g2 fr ro ck by simp
      qed
    qed
  qed
qed

lemma gs_UnmapBacking_props:
  assumes ok: "guest_ok g"
  shows "case gs_UnmapBacking host g v z of Exit \<Rightarrow> True
    | Done (did, g') \<Rightarrow> (if did then (z \<noteq> 0 \<and> fits v z \<and> (\<forall>a. in_range v z a \<longrightarrow> mapped_view g a = Some Backing)) \<and>
          becomes g v z None (\<lambda>a. None) g' else unchanged g g')"
    and "(\<forall>n. host n) \<Longrightarrow> z \<noteq> 0 \<Longrightarrow> fits v z \<Longrightarrow> (\<forall>a. in_range v z a \<longrightarrow> mapped_view g a = Some Backing) \<Longrightarrow>
      \<exists>g'. gs_UnmapBacking host g v z = Done (True, g')"
proof -
  note k = guest_okD(2) [OF ok]
  note CM = ContainsMapped_iff [OF k, of v z Backing, folded mapped_view_kview]
  let ?X = "gs_UnmapBacking host g v z"
  have "(case ?X of Exit \<Rightarrow> True
    | Done (did, g') \<Rightarrow> (if did then (z \<noteq> 0 \<and> fits v z \<and> (\<forall>a. in_range v z a \<longrightarrow> mapped_view g a = Some Backing)) \<and>
          becomes g v z None (\<lambda>a. None) g' else unchanged g g')) \<and>
    ((\<forall>n. host n) \<and> ContainsMappedUnlocked (gs_mapped g) v z Backing \<longrightarrow> (\<exists>g'. ?X = Done (True, g')))"
  proof (cases "ContainsMappedUnlocked (gs_mapped g) v z Backing")
    case False
    then show ?thesis using ok by (simp add: gs_UnmapBacking_def unchanged_refl)
  next
    case True
    then have f: "fits v z" "z \<noteq> 0" and mp: "\<forall>a. in_range v z a \<longrightarrow> mapped_view g a = Some Backing" using CM by auto
    have eff: "unmap_effect g (in_range v z) (gb_Unmap host g v z)" by (rule gb_Unmap_props(1) [OF guest_okD(3) [OF ok]])
    have bm: "in_range v z a \<Longrightarrow> backing_view g a \<noteq> None" for a using guest_okD(6) [OF ok, of a] mp by blast
    have tot: "(\<forall>n. host n) \<longrightarrow> (\<exists>g'. gb_Unmap host g v z = Done (True, g'))"
      using gb_Unmap_total [OF guest_okD(3) [OF ok] _ f bm] by blast
    show ?thesis
    proof (cases "gb_Unmap host g v z")
      case Exit
      then show ?thesis using True tot by (simp add: gs_UnmapBacking_def)
    next
      case (Done p)
      obtain did g1 where p: "p = (did, g1)" by fastforce
      have e: "only_maps g g1" "backing_ok g1" "backing_view g1 = (\<lambda>a. if did \<and> in_range v z a then None else backing_view g a)"
        using only_maps_unmap eff Done p by auto
      note g1 = only_mapsD [OF e(1)]
      have mv1: "mapped_view g1 = mapped_view g" by (simp add: mapped_view_kview g1)
      show ?thesis
      proof (cases did)
        case False
        have "guest_ok g1"
          by (rule guest_ok_move [OF ok, where S = "\<lambda>_. False" and t = None])
            (use g1 e False mv1 guest_okD(1,2) [OF ok] in simp_all)
        then have "unchanged g g1" using g1 e(3) mv1 False by (simp add: unchanged_def)
        moreover have "?X = Done (False, g1)" using True Done p False by (simp add: gs_UnmapBacking_def)
        moreover have "\<not> (\<forall>n. host n)" using tot Done p False by auto
        ultimately show ?thesis by simp
      next
        case dn: True
        have cm: "ContainsMappedUnlocked (gs_mapped g1) v z Backing" using True g1 by simp
        obtain mm where mm: "RemoveMappedUnlocked (gs_mapped g1) v z Backing = Done (Some mm)" "gmapped.kok mm"
          "\<forall>a. gmapped.kview mm a = (if in_range v z a then None else gmapped.kview (gs_mapped g) a)"
          using RemoveMapped_props [OF k, of v z Backing] True by (auto simp: g1)
        let ?g = "g1\<lparr>gs_mapped := mm, gs_free := AddFreeUnlocked v z (gs_free g1)\<rparr>"
        have X: "?X = Done (True, ?g)" using True Done p dn mm(1) by (simp add: gs_UnmapBacking_def)
        have v0: "v \<noteq> 0" using owned_nonzero [OF ok f] mp by auto
        have n: "in_range v z a \<Longrightarrow> \<not> sp_at (gs_free g) a" for a using guest_okD(4) [OF ok, of a] mp by auto
        note G = give_back [OF guest_okD(1) [OF ok] f v0 n]
        have fr: "sp_at (gs_free ?g) a \<longleftrightarrow> (if in_range v z a then (None :: MappingType option) = None else sp_at (gs_free g) a)" for a
          using G(2) by (auto simp: g1)
        have mv: "mapped_view ?g a = (if in_range v z a then None else mapped_view g a)" for a
          using mm(3) by (simp add: mapped_view_kview)
        have bv: "backing_view ?g a = (if in_range v z a then None else backing_view g a)" for a
          using e(3) dn by simp
        have "guest_ok ?g"
          by (rule guest_ok_move [OF ok, where S = "in_range v z" and t = None])
            (use g1 e(2) mm(2) G(1) fr mv bv mp in simp_all)
        then have "becomes g v z None (\<lambda>a. None) ?g" using fr mv bv g1 by (simp add: becomes_def)
        then show ?thesis using X f mp by simp
      qed
    qed
  qed
  then show "case ?X of Exit \<Rightarrow> True
    | Done (did, g') \<Rightarrow> (if did then (z \<noteq> 0 \<and> fits v z \<and> (\<forall>a. in_range v z a \<longrightarrow> mapped_view g a = Some Backing)) \<and>
          becomes g v z None (\<lambda>a. None) g' else unchanged g g')"
    and "(\<forall>n. host n) \<Longrightarrow> z \<noteq> 0 \<Longrightarrow> fits v z \<Longrightarrow> (\<forall>a. in_range v z a \<longrightarrow> mapped_view g a = Some Backing) \<Longrightarrow>
      \<exists>g'. ?X = Done (True, g')"
    using CM by blast+
qed

lemma gs_Commit_props:
  assumes ok: "guest_ok g" and f: "fits v z" "z \<noteq> 0"
  shows "\<exists>did g'. gs_Commit host g v z = Done (did, g') \<and>
    (did \<longleftrightarrow> (\<forall>a. in_range v z a \<longrightarrow> sp_at (gs_free g) a) \<and> host (gs_clock g)) \<and>
    (if did then becomes g v z (Some Private) (\<lambda>a. None) g' else unchanged g g')"
proof -
  obtain taken free where c: "ConsumeUnlocked (gs_free g) v z = (taken, free)" by fastforce
  note C = ConsumeUnlocked_props [OF guest_okD(1) [OF ok] f c]
  show ?thesis
  proof (cases taken)
    case False
    then show ?thesis using c C(1,4) ok by (auto simp: gs_Commit_def unchanged_refl)
  next
    case True
    then have fr: "\<forall>a. in_range v z a \<longrightarrow> sp_at (gs_free g) a" using C(1) by simp
    let ?g = "g\<lparr>gs_free := free, gs_clock := Suc (gs_clock g)\<rparr>"
    show ?thesis
    proof (cases "host (gs_clock g)")
      case False
      have "unchanged g (?g\<lparr>gs_free := AddFreeUnlocked v z free\<rparr>)"
        by (rule take_and_return [OF ok f c [unfolded True[THEN eqTrueI]]])
          (use guest_okD(3) [OF ok] in simp_all)
      then show ?thesis using c True False by (auto simp: gs_Commit_def host_call_def)
    next
      case h: True
      have nm: "\<not> (\<exists>a. in_range v z a \<and> gmapped.kview (gs_mapped g) a \<noteq> None)"
        using guest_okD(4) [OF ok] fr by (auto simp: mapped_view_kview)
      obtain mm where mm: "AddMappedUnlocked (gs_mapped g) v z Private = Some mm" "gmapped.kok mm"
        "\<forall>a. gmapped.kview mm a = (if in_range v z a then Some Private else gmapped.kview (gs_mapped g) a)"
        using AddMapped_props [OF guest_okD(2) [OF ok] f, of Private] unfolding if_not_P [OF nm] by (elim exE conjE)
      let ?g' = "?g\<lparr>gs_mapped := mm\<rparr>"
      have fr': "sp_at (gs_free ?g') a \<longleftrightarrow> (if in_range v z a then Some Private = None else sp_at (gs_free g) a)" for a
        using C(3) True by simp
      have mv: "mapped_view ?g' a = (if in_range v z a then Some Private else mapped_view g a)" for a
        using mm(3) by (simp add: mapped_view_kview)
      have nb: "in_range v z a \<Longrightarrow> backing_view g a = None" for a
        using guest_okD(4,6) [OF ok, of a] fr by (metis option.discI)
      then have bv: "backing_view ?g' a = (if in_range v z a then None else backing_view g a)" for a by simp
      have "guest_ok ?g'"
        by (rule guest_ok_move [OF ok, where S = "in_range v z" and t = "Some Private"])
          (use C(2) mm(2) guest_okD(3) [OF ok] fr' mv nb fr in simp_all)
      then have "becomes g v z (Some Private) (\<lambda>a. None) ?g'" using fr' mv bv by (simp add: becomes_def)
      moreover have "gs_Commit host g v z = Done (True, ?g')"
        using c True h mm(1) by (simp add: gs_Commit_def host_call_def)
      ultimately show ?thesis using fr h by auto
    qed
  qed
qed

lemma restore_parts_props:
  assumes "c \<le> e" and "\<And>a. c \<le> a \<Longrightarrow> a < e \<Longrightarrow> mapped_view g a \<noteq> None" and "gmapped.kok (gs_mapped g)"
  shows "case restore_parts host g c e of Exit \<Rightarrow> \<not> (\<forall>n. host n) | Done g' \<Rightarrow> g' = g\<lparr>gs_clock := gs_clock g'\<rparr>"
  using assms
proof (induction host g c e rule: restore_parts.induct)
  case (1 host g c e)
  show ?case
  proof (cases "c < e")
    case False
    then show ?thesis by (simp add: restore_parts.simps)
  next
    case True
    note F = FindMapped_props [OF "1.prems"(3), of c]
    have "FindMappedContainingUnlocked (gs_mapped g) c \<noteq> None"
      using F "1.prems"(2) [of c] True by (auto simp: mapped_view_kview split: option.splits)
    then obtain key r where Fd: "FindMappedContainingUnlocked (gs_mapped g) c = Some (key, r)" by auto
    then have r: "gmapped.rcov r c" using F by auto
    define n where "n = min e (mr_vaddr r + mr_size r)"
    have n: "c < n" "n \<le> e" using r True by (auto simp: n_def gmapped.rcov_iff gmapped.rend_def)
    define g1 where "g1 = g\<lparr>gs_clock := Suc (gs_clock g)\<rparr>"
    have hc: "host_call host g = (host (gs_clock g), g1)" by (simp add: host_call_def g1_def)
    have st: "restore_parts host g c e = (if host (gs_clock g) then restore_parts host g1 n e else Exit)"
      using True Fd hc by (simp add: restore_parts.simps [of host g c] n_def)
    show ?thesis
    proof (cases "host (gs_clock g)")
      case h: True
      have "mapped_view g1 a \<noteq> None" if "n \<le> a" "a < e" for a
        using "1.prems"(2) [of a] that n by (auto simp: g1_def mapped_view_def)
      then have "case restore_parts host g1 n e of Exit \<Rightarrow> \<not> (\<forall>n. host n) | Done g' \<Rightarrow> g' = g1\<lparr>gs_clock := gs_clock g'\<rparr>"
        using "1.IH" [OF True Fd refl hc [symmetric] h] n "1.prems"(3) by (simp add: n_def g1_def)
      then show ?thesis using h unfolding st by (simp add: g1_def split: outcome.splits)
    next
      case False
      then show ?thesis unfolding st by auto
    qed
  qed
qed

lemma gs_ReleaseCommitted_props:
  assumes ok: "guest_ok g"
  shows "case gs_ReleaseCommitted host g v z of Exit \<Rightarrow> \<not> (\<forall>n. host n)
    | Done (did, g') \<Rightarrow> (did \<longleftrightarrow> v \<noteq> 0 \<and> z \<noteq> 0 \<and> IsPageAligned v \<and> IsPageAligned z \<and> fits v z \<and>
          (\<forall>a. in_range v z a \<longrightarrow> mapped_view g a = Some Private)) \<and>
        (if did then becomes g v z None (\<lambda>a. None) g' else g' = g)"
proof -
  note k = guest_okD(2) [OF ok]
  note CM = ContainsMapped_iff [OF k, of v z Private, folded mapped_view_kview]
  show ?thesis
  proof (cases "v = 0 \<or> z = 0 \<or> \<not> IsPageAligned v \<or> \<not> IsPageAligned z \<or> \<not> ContainsMappedUnlocked (gs_mapped g) v z Private")
    case True
    then have "gs_ReleaseCommitted host g v z = Done (False, g)" by (auto simp: gs_ReleaseCommitted_def)
    then show ?thesis using True CM by auto
  next
    case False
    then have cm: "ContainsMappedUnlocked (gs_mapped g) v z Private" and al: "v \<noteq> 0" "z \<noteq> 0" "IsPageAligned v" "IsPageAligned z"
      by auto
    then have f: "fits v z" and mp: "\<forall>a. in_range v z a \<longrightarrow> mapped_view g a = Some Private" using CM by auto
    have RP: "case restore_parts host g v (v + z) of Exit \<Rightarrow> \<not> (\<forall>n. host n) | Done g' \<Rightarrow> g' = g\<lparr>gs_clock := gs_clock g'\<rparr>"
      using mp by (intro restore_parts_props [OF fits_le [OF f] _ k]) (simp add: in_range_def)
    show ?thesis
    proof (cases "restore_parts host g v (v + z)")
      case Exit
      then show ?thesis using RP al cm by (simp add: gs_ReleaseCommitted_def)
    next
      case (Done g1)
      then have g1: "g1 = g\<lparr>gs_clock := gs_clock g1\<rparr>" using RP by simp
      have e1: "gs_mapped g1 = gs_mapped g" "gs_free g1 = gs_free g" "gs_owned g1 = gs_owned g" "gb_size g1 = gb_size g"
        "backing_ok g1" "backing_view g1 = backing_view g"
        using guest_okD(3) [OF ok] by (subst g1, simp)+
      obtain mm where mm: "RemoveMappedUnlocked (gs_mapped g1) v z Private = Done (Some mm)" "gmapped.kok mm"
        "\<forall>a. gmapped.kview mm a = (if in_range v z a then None else gmapped.kview (gs_mapped g) a)"
        using RemoveMapped_props [OF k, of v z Private] cm by (auto simp: e1)
      let ?g = "g1\<lparr>gs_mapped := mm, gs_free := AddFreeUnlocked v z (gs_free g1)\<rparr>"
      have X: "gs_ReleaseCommitted host g v z = Done (True, ?g)"
        using al cm Done mm(1) by (simp add: gs_ReleaseCommitted_def)
      have n: "in_range v z a \<Longrightarrow> \<not> sp_at (gs_free g) a" for a using guest_okD(4) [OF ok, of a] mp by auto
      note G = give_back [OF guest_okD(1) [OF ok] f al(2,1) n]
      have fr: "sp_at (gs_free ?g) a \<longleftrightarrow> (if in_range v z a then (None :: MappingType option) = None else sp_at (gs_free g) a)" for a
        using G(2) by (auto simp: e1)
      have mv: "mapped_view ?g a = (if in_range v z a then None else mapped_view g a)" for a
        using mm(3) by (simp add: mapped_view_kview)
      have nb: "backing_view g a = None" if "in_range v z a" for a
      proof -
        have "mapped_view g a \<noteq> Some Backing" using mp that by simp
        then show ?thesis using guest_okD(6) [OF ok, of a] by blast
      qed
      then have bv: "backing_view ?g a = (if in_range v z a then None else backing_view g a)" for a by (simp add: e1)
      have "guest_ok ?g"
        by (rule guest_ok_move [OF ok, where S = "in_range v z" and t = None])
          (use e1 mm(2) G(1) fr mv nb mp in simp_all)
      then have "becomes g v z None (\<lambda>a. None) ?g" using fr mv bv e1(4) by (simp add: becomes_def)
      then show ?thesis using X f mp al by simp
    qed
  qed
qed

text \<open>\<open>Protect\<close> changes no bookkeeping, and fails only for a bad span or when the host refuses.\<close>

lemma protect_regions_props:
  "protect_regions host g v e ms = (ok, g') \<Longrightarrow> (\<exists>n. g' = g\<lparr>gs_clock := n\<rparr>) \<and> ((\<forall>n. host n) \<longrightarrow> ok)"
proof (induction ms arbitrary: g)
  case Nil
  have "\<exists>n. g = g\<lparr>gs_clock := n\<rparr>" by (rule exI [of _ "gs_clock g"]) simp
  moreover have "g' = g" "ok" using Nil by auto
  ultimately show ?case by blast
next
  case (Cons m ms)
  let ?A = "mr_vaddr (snd m) < e" and ?B = "max v (mr_vaddr (snd m)) < min e (mr_vaddr (snd m) + mr_size (snd m))"
  define g1 where "g1 = g\<lparr>gs_clock := Suc (gs_clock g)\<rparr>"
  have g1: "(\<exists>n. h = g1\<lparr>gs_clock := n\<rparr>) \<longrightarrow> (\<exists>n. h = g\<lparr>gs_clock := n\<rparr>)" for h by (auto simp: g1_def)
  have same: "\<exists>n. g = g\<lparr>gs_clock := n\<rparr>" "\<exists>n. g1 = g\<lparr>gs_clock := n\<rparr>"
    by (rule exI [of _ "gs_clock g"], simp) (auto simp: g1_def)
  have st: "protect_regions host g v e (m # ms) = (if \<not> ?A then (True, g)
      else if ?B then (if host (gs_clock g) then protect_regions host g1 v e ms else (False, g1))
      else protect_regions host g v e ms)"
    by (simp add: host_call_def Let_def g1_def)
  show ?case
  proof (cases "?A \<and> (\<not> ?B \<or> host (gs_clock g))")
    case True
    then have "protect_regions host (if ?B then g1 else g) v e ms = (ok, g')"
      using Cons.prems unfolding st by (simp only: if_True if_False not_True_eq_False simp_thms split: if_splits)
    then show ?thesis using Cons.IH [of "if ?B then g1 else g"] g1 [of g'] by (cases ?B) auto
  next
    case False
    then have "(ok, g') = (if \<not> ?A then (True, g) else (False, g1)) \<and> (?A \<longrightarrow> \<not> host (gs_clock g))"
      using Cons.prems unfolding st by (auto split: if_splits)
    then show ?thesis using same by (cases ?A) auto
  qed
qed

lemma gs_Protect_props:
  assumes "gs_Protect host g v z = (ok, g')"
  shows "\<exists>n. g' = g\<lparr>gs_clock := n\<rparr>" "(\<forall>n. host n) \<Longrightarrow> ok \<longleftrightarrow> z \<noteq> 0 \<and> fits v z"
proof -
  have "(\<exists>n. g' = g\<lparr>gs_clock := n\<rparr>) \<and> ((\<forall>n. host n) \<longrightarrow> (ok \<longleftrightarrow> z \<noteq> 0 \<and> fits v z))"
  proof (cases "z = 0 \<or> \<not> fits v z")
    case True
    then have "ok = False" "g' = g\<lparr>gs_clock := gs_clock g\<rparr>" using assms by (auto simp: gs_Protect_def not_fits)
    then show ?thesis using True by blast
  next
    case False
    then obtain ms where "protect_regions host g v (v + z) ms = (ok, g')"
      using assms by (auto simp: gs_Protect_def not_fits)
    then show ?thesis using False protect_regions_props by blast
  qed
  then show "\<exists>n. g' = g\<lparr>gs_clock := n\<rparr>" "(\<forall>n. host n) \<Longrightarrow> ok \<longleftrightarrow> z \<noteq> 0 \<and> fits v z" by auto
qed

text \<open>Sequences of operations change unions of spans.\<close>

definition became :: "guest \<Rightarrow> (u64 \<Rightarrow> bool) \<Rightarrow> MappingType option \<Rightarrow> (u64 \<Rightarrow> (u64 \<times> host_mode) option) \<Rightarrow> guest \<Rightarrow> bool" where
  "became g S t bv g' \<longleftrightarrow> guest_ok g' \<and> gb_size g' = gb_size g \<and>
     (\<forall>a. sp_at (gs_free g') a \<longleftrightarrow> (if S a then t = None else sp_at (gs_free g) a)) \<and>
     (\<forall>a. mapped_view g' a = (if S a then t else mapped_view g a)) \<and>
     (\<forall>a. backing_view g' a = (if S a then bv a else backing_view g a))"

lemma becomes_became: "becomes g v z t bv g' \<longleftrightarrow> became g (in_range v z) t bv g'"
  by (auto simp: becomes_def became_def)

lemma became_none: "unchanged g g' \<longleftrightarrow> became g (\<lambda>_. False) t bv g'"
  by (auto simp: unchanged_def became_def)

lemma became_trans:
  assumes "became g S t bv g1" and "became g1 S' t bv' g2" and "\<And>a. S a \<Longrightarrow> \<not> S' a"
  shows "became g (\<lambda>a. S a \<or> S' a) t (\<lambda>a. if S' a then bv' a else bv a) g2"
  using assms by (auto simp: became_def)

lemma became_cong: "became g S t bv g' \<Longrightarrow> S = S' \<Longrightarrow> (\<And>a. S a \<Longrightarrow> bv a = bv' a) \<Longrightarrow> became g S' t bv' g'"
  by (auto simp: became_def)

lemma became_undo:
  assumes ok: "guest_ok g" and 1: "became g S t bv g1" and 2: "became g1 (\<lambda>a. S a \<or> S' a) None (\<lambda>_. None) g2"
    and f: "\<And>a. S a \<Longrightarrow> sp_at (gs_free g) a" and d: "\<And>a. S a \<Longrightarrow> \<not> S' a"
  shows "became g S' None (\<lambda>_. None) g2"
proof -
  have n: "mapped_view g a = None \<and> backing_view g a = None" if "S a" for a
    using guest_okD(4,6) [OF ok, of a] f [OF that] by (metis option.discI)
  have "(sp_at (gs_free g2) a \<longleftrightarrow> (if S' a then (None :: MappingType option) = None else sp_at (gs_free g) a)) \<and>
     mapped_view g2 a = (if S' a then None else mapped_view g a) \<and>
     backing_view g2 a = (if S' a then None else backing_view g a)" for a
    using 1 2 n [of a] f [of a] d [of a] by (cases "S a") (auto simp: became_def)
  then show ?thesis using 1 2 by (simp add: became_def)
qed

section \<open>The search for free addresses\<close>

lemma AlignUp_props:
  assumes al: "al \<noteq> 0"
  shows "AlignUp v al \<noteq> 0 \<Longrightarrow> v \<le> AlignUp v al \<and> AlignUp v al mod al = 0"
    and "v \<le> c \<Longrightarrow> c mod al = 0 \<Longrightarrow> v \<noteq> 0 \<Longrightarrow> AlignUp v al \<noteq> 0 \<and> AlignUp v al \<le> c"
proof -
  let ?n = "unat v" and ?a = "unat al"
  have a: "?a \<noteq> 0" using al by (simp add: unat_eq_0)
  define i where "i = (if ?n mod ?a \<noteq> 0 then ?a - ?n mod ?a else 0)"
  have ml: "?n mod ?a < ?a" using a by simp
  have im: "(?n + i) mod ?a = 0" and least: "?n \<le> m \<Longrightarrow> m mod ?a = 0 \<Longrightarrow> ?n + i \<le> m" for m
  proof -
    have n: "?n = ?n div ?a * ?a + ?n mod ?a" by simp
    have up: "?n + i = ?n div ?a * ?a + ?a" if "?n mod ?a \<noteq> 0"
    proof -
      define d r where "d = ?n div ?a * ?a" and "r = ?n mod ?a"
      have "?n = d + r" "r < ?a" "i = ?a - r" using n ml that unfolding d_def r_def i_def by auto
      then show ?thesis unfolding d_def [symmetric] by linarith
    qed
    show "(?n + i) mod ?a = 0"
    proof (cases "?n mod ?a = 0")
      case False
      then show ?thesis using up by simp
    qed (simp add: i_def)
    assume m: "?n \<le> m" "m mod ?a = 0"
    show "?n + i \<le> m"
    proof (cases "?n mod ?a = 0")
      case False
      have "?n div ?a * ?a < m" using m(1) False n by linarith
      moreover obtain q where q: "m = q * ?a" using m(2) by (metis div_mult_mod_eq add_0_right)
      ultimately have "?n div ?a + 1 \<le> q" using a by simp
      then have "(?n div ?a + 1) * ?a \<le> m" unfolding q by (rule mult_le_mono1)
      then show ?thesis using up [OF False] by simp
    qed (use m in \<open>simp add: i_def\<close>)
  qed
  define inc where "inc = (if v mod al \<noteq> 0 then al - v mod al else 0)"
  have r: "unat (v mod al) = ?n mod ?a" by (simp add: unat_mod)
  have inc: "unat inc = i"
  proof (cases "v mod al = 0")
    case True
    then show ?thesis using r by (simp add: inc_def i_def)
  next
    case False
    then have "?n mod ?a \<noteq> 0" using r by (metis unat_eq_0)
    moreover have "v mod al \<le> al" using ml r by (simp add: word_le_nat_alt)
    ultimately show ?thesis using False r by (simp add: inc_def i_def unat_sub)
  qed
  have A: "AlignUp v al = (if fits v inc then v + inc else 0)"
    using al by (simp add: AlignUp_def Let_def inc_def fits_def)
  have u: "unat (v + inc) = ?n + i" if "fits v inc" using unat_add_fits [OF that] inc by simp
  show "AlignUp v al \<noteq> 0 \<Longrightarrow> v \<le> AlignUp v al \<and> AlignUp v al mod al = 0"
    using u im by (auto simp: A fits_le unat_mod simp flip: unat_eq_0 split: if_splits)
  assume c: "v \<le> c" "c mod al = 0" "v \<noteq> 0"
  have "unat c mod ?a = 0" using c(2) by (metis unat_0 unat_mod)
  then have le: "?n + i \<le> unat c" using least c(1) by (simp add: word_le_nat_alt)
  then have f: "fits v inc" using u64_less [of c] inc by (simp add: fits_unat)
  have "v + inc \<noteq> 0"
  proof
    assume "v + inc = 0"
    then have "unat (v + inc) = 0" by simp
    then have "?n = 0" unfolding u [OF f] by simp
    then show False using c(3) by (simp add: unat_eq_0)
  qed
  then show "AlignUp v al \<noteq> 0 \<and> AlignUp v al \<le> c" using f u le by (simp add: A word_le_nat_alt)
qed

text \<open>An address the search may return.\<close>

definition candidate_ok :: "spans \<Rightarrow> u64 \<Rightarrow> u64 \<Rightarrow> u64 \<Rightarrow> u64 \<Rightarrow> u64 \<Rightarrow> bool" where
  "candidate_ok free lo hi z al c \<longleftrightarrow> lo \<le> c \<and> fits c z \<and> c + z \<le> hi \<and> c mod al = 0 \<and>
     (\<forall>a. in_range c z a \<longrightarrow> sp_at free a)"

lemma find_free_props:
  assumes "separate free" and "\<forall>e \<in> set free. fst e \<noteq> 0" and f: "z \<noteq> 0" and al: "al \<noteq> 0"
  shows "(if find_free lo hi z al free = 0 then (\<forall>c. \<not> candidate_ok free lo hi z al c)
    else candidate_ok free lo hi z al (find_free lo hi z al free) \<and>
      (\<forall>c. candidate_ok free lo hi z al c \<longrightarrow> find_free lo hi z al free \<le> c))"
  using assms(1,2)
proof (induction free)
  case Nil
  have "\<not> candidate_ok [] lo hi z al c" for c
  proof
    assume c: "candidate_ok [] lo hi z al c"
    then have "in_range c z c" using f by (auto simp: candidate_ok_def in_range_def intro: fits_less)
    then show False using c by (auto simp: candidate_ok_def)
  qed
  then show ?case by simp
next
  case (Cons e es)
  have s: "span_ok e" "separate es" "\<forall>x \<in> set es. fst e + snd e < fst x" using Cons.prems(1) by (auto simp: separate_Cons)
  define b where "b = max (fst e) lo"
  define c where "c = AlignUp b al"
  have fe: "fits (fst e) (snd e)" "fst e < fst e + snd e" using s(1) span_less by (auto simp: span_ok_def)
  have b0: "b \<noteq> 0" using Cons.prems(2) by (auto simp: b_def max_def)
  define good where "good \<longleftrightarrow> c < hi \<and> z \<le> hi - c \<and> GuestFreeRangeContains (fst e) (snd e) c z"
  have inside: "fst e \<le> x \<and> x + z \<le> fst e + snd e"
    if x: "candidate_ok (e # es) lo hi z al x" "\<not> candidate_ok es lo hi z al x" for x
  proof -
    have fx: "fits x z" and at: "\<And>a. in_range x z a \<Longrightarrow> sp_at (e # es) a" using x(1) by (auto simp: candidate_ok_def)
    obtain us d ws where d: "e # es = us @ d # ws" "fst d \<le> x" "x + z \<le> fst d + snd d"
      using span_in_one [OF Cons.prems(1) fx f at] by blast
    have "d = e"
    proof (rule ccontr)
      assume "d \<noteq> e"
      then have "d \<in> set es" using d(1) by (cases us) auto
      moreover have "in_range (fst d) (snd d) a" if "in_range x z a" for a
        using that d(2,3) unfolding in_range_def by (blast intro: order_trans order.strict_trans2)
      ultimately have "\<forall>a. in_range x z a \<longrightarrow> sp_at es a" by (auto simp: sp_at_def)
      then show False using x by (auto simp: candidate_ok_def)
    qed
    then show ?thesis using d by simp
  qed
  have later: "fst e + snd e \<le> x" if x: "candidate_ok es lo hi z al x" for x
  proof -
    have "in_range x z x" using x f by (auto simp: candidate_ok_def in_range_def intro: fits_less)
    then have "sp_at es x" using x by (auto simp: candidate_ok_def)
    then show ?thesis using s(3) by (auto simp: sp_at_def in_range_def intro: order_trans less_imp_le)
  qed
  have mono: "candidate_ok (e # es) lo hi z al x" if "candidate_ok es lo hi z al x" for x
    using that by (auto simp: candidate_ok_def)
  show ?case
  proof (cases good)
    case True
    then have r: "find_free lo hi z al (e # es) = c" by (simp add: good_def c_def b_def Let_def)
    have g: "fst e \<le> c" "fits c z" "c + z \<le> fst e + snd e" "c + z \<le> hi"
      using True fe size_le_room [of c hi z] size_le_room [of c "fst e + snd e" z]
      by (auto simp: good_def GuestFreeRangeContains_def Let_def not_fits less_imp_le split: if_splits)
    have c0: "c \<noteq> 0" using g(1) Cons.prems(2) by auto
    have "b \<le> c" "c mod al = 0" using AlignUp_props(1) [OF al] c0 by (auto simp: c_def)
    then have "candidate_ok (e # es) lo hi z al c"
      using g by (auto simp: candidate_ok_def b_def in_range_def intro: order_trans order.strict_trans2)
    moreover have "c \<le> x" if x: "candidate_ok (e # es) lo hi z al x" for x
    proof (cases "candidate_ok es lo hi z al x")
      case True
      have "c \<le> c + z" using g(2) by (rule fits_le)
      then show ?thesis using later [OF True] g(3) by (auto intro: order_trans)
    next
      case False
      then have "b \<le> x" using inside [OF x] x by (auto simp: b_def candidate_ok_def)
      then show ?thesis using AlignUp_props(2) [OF al _ _ b0, of x] x by (simp add: c_def candidate_ok_def)
    qed
    ultimately show ?thesis using c0 unfolding r by simp
  next
    case False
    then have r: "find_free lo hi z al (e # es) = find_free lo hi z al es"
      by (auto simp: good_def c_def b_def Let_def)
    have "candidate_ok es lo hi z al x" if x: "candidate_ok (e # es) lo hi z al x" for x
    proof (rule ccontr)
      assume n: "\<not> candidate_ok es lo hi z al x"
      note i = inside [OF x n]
      have "b \<le> x" using i x by (auto simp: b_def candidate_ok_def)
      then have c: "c \<noteq> 0" "c \<le> x" using AlignUp_props(2) [OF al _ _ b0, of x] x by (auto simp: c_def candidate_ok_def)
      then have bc: "b \<le> c" using AlignUp_props(1) [OF al] by (simp add: c_def)
      have fx: "fits x z" "x + z \<le> hi" using x by (auto simp: candidate_ok_def)
      have xx: "x < x + z" using fx(1) f by (rule fits_less)
      have le: "unat c \<le> unat x" "unat x + unat z \<le> unat hi" "unat x + unat z \<le> unat (fst e + snd e)"
        using c(2) fx(2) i unat_add_fits [OF fx(1)] by (auto simp: word_le_nat_alt)
      have ch: "c < hi" using c(2) xx fx(2) by (auto intro: order.strict_trans1 order.strict_trans2)
      have ce: "c \<le> fst e + snd e" using c(2) xx i by (auto intro: order_trans less_imp_le)
      have "z \<le> hi - c" using le ch by (simp add: word_le_nat_alt unat_sub less_imp_le)
      moreover have "z \<le> fst e + snd e - c" using le ce by (simp add: word_le_nat_alt unat_sub)
      moreover have "\<not> c < fst e" using bc by (auto simp: b_def not_less)
      ultimately have good using ch ce fe(1) by (simp add: good_def GuestFreeRangeContains_def Let_def not_fits)
      then show False using False by simp
    qed
    then have "candidate_ok (e # es) lo hi z al x \<longleftrightarrow> candidate_ok es lo hi z al x" for x using mono by blast
    then show ?thesis using Cons.IH s(2) Cons.prems(2) unfolding r by simp
  qed
qed

lemma FindFreeAligned_props:
  assumes ok: "guest_ok g" and f: "z \<noteq> 0" "al \<noteq> 0"
  shows "(if FindFreeAlignedUnlocked (gs_free g) lo hi z al = 0
    then (\<forall>c. \<not> candidate_ok (gs_free g) lo hi z al c)
    else candidate_ok (gs_free g) lo hi z al (FindFreeAlignedUnlocked (gs_free g) lo hi z al) \<and>
      (\<forall>c. candidate_ok (gs_free g) lo hi z al c \<longrightarrow> FindFreeAlignedUnlocked (gs_free g) lo hi z al \<le> c))"
proof (cases "hi \<le> lo \<or> hi - lo < z")
  case True
  have "\<not> candidate_ok (gs_free g) lo hi z al c" for c
  proof
    assume c: "candidate_ok (gs_free g) lo hi z al c"
    then have c': "lo \<le> c" "fits c z" "c + z \<le> hi" by (auto simp: candidate_ok_def)
    have "c < c + z" using c'(2) f(1) by (rule fits_less)
    then have lh: "lo < hi" using c' by (auto intro: order.strict_trans1 order.strict_trans2)
    have "unat lo + unat z \<le> unat hi" using c' unat_add_fits [OF c'(2)] by (simp add: word_le_nat_alt)
    then have "z \<le> hi - lo" using lh by (simp add: word_le_nat_alt unat_sub less_imp_le)
    then show False using True lh by auto
  qed
  then show ?thesis using True by (simp add: FindFreeAlignedUnlocked_def)
next
  case False
  have "fst e \<noteq> 0" if e: "e \<in> set (gs_free g)" for e
  proof -
    have "span_ok e" using guest_okD(1) [OF ok] e by (simp add: separate_def list_all_iff)
    then have "sp_at (gs_free g) (fst e)" using e span_less by (auto simp: sp_at_def in_range_def)
    then show ?thesis using guest_okD(5) [OF ok] by blast
  qed
  then show ?thesis
    using find_free_props [OF guest_okD(1) [OF ok] _ f, of lo hi] False by (simp add: FindFreeAlignedUnlocked_def)
qed

end
