(* ===== verification/GuestSpaceProps.thy ===== *)
theory GuestSpaceProps
  imports GuestAddressSpec
begin

text \<open>
  The properties of the guest address space, each with an instance. The sample space owns one
  megabyte at 0x40000; its first 64 KiB are a view of the backing store, the next 64 KiB are
  private memory, the rest is free.
\<close>

definition sample_guest :: guest where
  "sample_guest =
    \<lparr>gb_available = True, gb_size = 0x100000,
     gb_maps = [(0x40000, \<lparr>me_vaddr = 0x40000, me_size = 0x10000, me_offset = 0x4000, me_mode = ReadWrite\<rparr>)],
     gs_free = [(0x60000, 0xE0000)],
     gs_mapped = [(0x40000, \<lparr>mr_vaddr = 0x40000, mr_size = 0x10000, mr_type = Backing\<rparr>),
                  (0x50000, \<lparr>mr_vaddr = 0x50000, mr_size = 0x10000, mr_type = Private\<rparr>)],
     gs_owned = [(0x40000, 0x100000)], gs_clock = 0\<rparr>"

lemma sample_backing_ok: "backing_ok sample_guest"
  by (simp add: backing_ok_def sample_guest_def gmaps.kok_def disjoint_Cons span_ok_def fits_unat
      entry_ok_def RangeOk_def word_less_nat_alt word_le_nat_alt)

lemma sample_guest_ok: "guest_ok sample_guest"
proof -
  have "separate (gs_free sample_guest)" by code_simp
  moreover have "gmapped.kok (gs_mapped sample_guest)"
    by (simp add: sample_guest_def gmapped.kok_def disjoint_Cons span_ok_def fits_unat word_less_nat_alt word_le_nat_alt)
  moreover have "\<not> owned_at sample_guest 0" by code_simp
  moreover have "\<not> (sp_at (gs_free sample_guest) a \<and> mapped_view sample_guest a \<noteq> None)" for a
    by (auto simp: sample_guest_def mapped_view_def in_range_def word_less_nat_alt word_le_nat_alt)
  moreover have "owned_at sample_guest a \<longleftrightarrow> sp_at (gs_free sample_guest) a \<or> mapped_view sample_guest a \<noteq> None" for a
    by (auto simp: sample_guest_def owned_at_def mapped_view_def in_range_def word_less_nat_alt word_le_nat_alt)
  moreover have "backing_view sample_guest a \<noteq> None \<longleftrightarrow> mapped_view sample_guest a = Some Backing" for a
    by (simp add: sample_guest_def backing_view_def mapped_view_def)
  ultimately show ?thesis using sample_backing_ok unfolding guest_ok_def by blast
qed

text \<open>C5. \<open>GuestBackingStore::Unmap\<close> is all-or-nothing against every host. It ends
  the process, or it reports success and exactly the span has lost its view, or it reports failure
  and every address has the view it had, although entries may have been split, unmapped and put
  back on the way. Success is only reported for a span that was mapped throughout, and a host that
  never refuses always makes such a span succeed.\<close>

theorem guest_unmap_all_or_nothing:
  assumes "backing_ok g"
  shows "(case gb_Unmap host g v z of
      Exit \<Rightarrow> True
    | Done (did, g') \<Rightarrow> backing_ok g' \<and> gs_free g' = gs_free g \<and> gs_mapped g' = gs_mapped g \<and>
        (did \<longrightarrow> fits v z \<and> z \<noteq> 0 \<and> (\<forall>a. in_range v z a \<longrightarrow> backing_view g a \<noteq> None)) \<and>
        backing_view g' = (\<lambda>a. if did \<and> in_range v z a then None else backing_view g a)) \<and>
    ((\<forall>n. host n) \<and> fits v z \<and> z \<noteq> 0 \<and> (\<forall>a. in_range v z a \<longrightarrow> backing_view g a \<noteq> None) \<longrightarrow>
      (\<exists>g'. gb_Unmap host g v z = Done (True, g')))"
proof -
  have "case gb_Unmap host g v z of Exit \<Rightarrow> True
    | Done (did, g') \<Rightarrow> backing_ok g' \<and> gs_free g' = gs_free g \<and> gs_mapped g' = gs_mapped g \<and>
        (did \<longrightarrow> fits v z \<and> z \<noteq> 0 \<and> (\<forall>a. in_range v z a \<longrightarrow> backing_view g a \<noteq> None)) \<and>
        backing_view g' = (\<lambda>a. if did \<and> in_range v z a then None else backing_view g a)"
  proof (cases "gb_Unmap host g v z")
    case (Done p)
    obtain did g' where p: "p = (did, g')" by fastforce
    have e: "only_maps g g'" "backing_ok g'" "backing_view g' = (\<lambda>a. if did \<and> in_range v z a then None else backing_view g a)"
      using only_maps_unmap gb_Unmap_props(1) [OF assms, where v = v and z = z and host = host] unfolding Done p by blast+
    have "did \<longrightarrow> fits v z \<and> z \<noteq> 0 \<and> (\<forall>a. in_range v z a \<longrightarrow> backing_view g a \<noteq> None)"
      using gb_Unmap_props(2) [OF assms, where v = v and z = z and host = host] unfolding Done p by blast
    then show ?thesis unfolding Done p outcome.case prod.case using e only_mapsD(4,5) [OF e(1)] by blast
  qed simp
  then show ?thesis using gb_Unmap_total [OF assms] by blast
qed

text \<open>The host unmaps the entry, maps the left part, refuses the right part, and lets the code
  take the left part back and map the whole entry again.\<close>

theorem guest_unmap_witness:
  "\<exists>g'. gb_Unmap (\<lambda>n. n \<noteq> 2) sample_guest 0x44000 0x4000 = Done (False, g') \<and> gs_clock g' = 5 \<and>
     backing_view g' = backing_view sample_guest"
proof -
  let ?X = "gb_Unmap (\<lambda>n. n \<noteq> 2) sample_guest 0x44000 0x4000"
  have "case ?X of Exit \<Rightarrow> False | Done (did, g') \<Rightarrow> \<not> did \<and> gs_clock g' = 5" by code_simp
  then show ?thesis
    using guest_unmap_all_or_nothing [OF sample_backing_ok, where host = "\<lambda>n. n \<noteq> 2" and v = "0x44000" and z = "0x4000"]
    by (cases ?X) auto
qed


text \<open>C6. \<open>MapBacking\<close> never hits its internal assertion. It succeeds exactly when the
  span is free, the backing range exists and the host agrees; then the span is mapped and each of
  its addresses views its own byte of the store. On any failure the free list, the mapped regions
  and the views are as before, address by address. The invariant holds either way.\<close>

theorem guest_map_backing_correct:
  assumes "guest_ok g" and "fits v z" and "z \<noteq> 0"
  shows "\<exists>r g'. gs_MapBacking host g v z off mode = Done (r, g') \<and>
    (r = NoFailure \<longleftrightarrow> (\<forall>a. in_range v z a \<longrightarrow> sp_at (gs_free g) a) \<and> RangeOk g off z \<and> host (gs_clock g)) \<and>
    (if r = NoFailure then becomes g v z (Some Backing) (\<lambda>a. Some (off + (a - v), host_mode_for mode)) g'
     else unchanged g g')"
  by (rule gs_MapBacking_props [OF assms])

theorem guest_map_backing_witness:
  "\<exists>g'. gs_MapBacking (\<lambda>_. True) sample_guest 0x80000 0x4000 0x20000 Read = Done (NoFailure, g') \<and>
     guest_ok g' \<and> backing_view g' 0x81000 = Some (0x21000, ReadWrite)"
proof -
  let ?X = "gs_MapBacking (\<lambda>_. True) sample_guest 0x80000 0x4000 0x20000 Read"
  have "fits 0x80000 0x4000" "(0x4000 :: u64) \<noteq> 0" by code_simp+
  note T = guest_map_backing_correct [OF sample_guest_ok this, where host = "\<lambda>_. True" and off = "0x20000" and mode = Read]
  have "case ?X of Exit \<Rightarrow> False | Done (r, g') \<Rightarrow> r = NoFailure" by code_simp
  moreover have "in_range 0x80000 0x4000 0x81000" "host_mode_for Read = ReadWrite" by code_simp+
  ultimately show ?thesis using T by (auto simp: becomes_def)
qed

text \<open>C7. \<open>UnmapBacking\<close>: when it reports success the whole span had been backed, and now
  it is free and has no view; when it reports failure nothing changed, address by address. If the
  span is backed and the host does not refuse, it succeeds.\<close>

theorem guest_unmap_backing_correct:
  assumes "guest_ok g"
  shows "(case gs_UnmapBacking host g v z of
      Exit \<Rightarrow> \<not> ((\<forall>n. host n) \<and> fits v z \<and> z \<noteq> 0 \<and> (\<forall>a. in_range v z a \<longrightarrow> mapped_view g a = Some Backing))
    | Done (did, g') \<Rightarrow>
        (if did then z \<noteq> 0 \<and> fits v z \<and> (\<forall>a. in_range v z a \<longrightarrow> mapped_view g a = Some Backing) \<and>
           becomes g v z None (\<lambda>a. None) g'
         else unchanged g g' \<and>
           \<not> ((\<forall>n. host n) \<and> fits v z \<and> z \<noteq> 0 \<and> (\<forall>a. in_range v z a \<longrightarrow> mapped_view g a = Some Backing))))"
  using gs_UnmapBacking_props(1) [OF assms, where host = host and v = v and z = z]
    gs_UnmapBacking_props(2) [OF assms, where host = host and v = v and z = z]
  by (cases "gs_UnmapBacking host g v z") (auto split: if_splits)

theorem guest_unmap_backing_witness:
  "\<exists>g'. gs_UnmapBacking (\<lambda>_. True) sample_guest 0x44000 0x4000 = Done (True, g') \<and> guest_ok g' \<and>
     sp_at (gs_free g') 0x45000 \<and> mapped_view g' 0x45000 = None"
proof -
  let ?X = "gs_UnmapBacking (\<lambda>_. True) sample_guest 0x44000 0x4000"
  have "case ?X of Exit \<Rightarrow> False | Done (did, g') \<Rightarrow> did" by code_simp
  moreover have "in_range 0x44000 0x4000 0x45000" by code_simp
  ultimately show ?thesis
    using guest_unmap_backing_correct [OF sample_guest_ok, where host = "\<lambda>_. True" and v = "0x44000" and z = "0x4000"]
    by (cases ?X) (auto simp: becomes_def)
qed

text \<open>\<open>Commit\<close> turns exactly a free span into private memory, or changes nothing;
  \<open>ReleaseCommitted\<close> turns exactly a page-aligned private span back into free addresses, or
  changes nothing. Neither hits an assertion unless the host refuses to restore a placeholder.\<close>

lemma guest_commit_release_correct:
  assumes "guest_ok g" and "fits v z" and "z \<noteq> 0"
  shows "(\<exists>did g'. gs_Commit host g v z = Done (did, g') \<and>
      (did \<longleftrightarrow> (\<forall>a. in_range v z a \<longrightarrow> sp_at (gs_free g) a) \<and> host (gs_clock g)) \<and>
      (if did then becomes g v z (Some Private) (\<lambda>a. None) g' else unchanged g g')) \<and>
    (case gs_ReleaseCommitted host g v z of Exit \<Rightarrow> \<not> (\<forall>n. host n)
     | Done (did, g') \<Rightarrow> (did \<longleftrightarrow> v \<noteq> 0 \<and> IsPageAligned v \<and> IsPageAligned z \<and>
           (\<forall>a. in_range v z a \<longrightarrow> mapped_view g a = Some Private)) \<and>
         (if did then becomes g v z None (\<lambda>a. None) g' else g' = g))"
  using gs_Commit_props [OF assms, where host = host]
    gs_ReleaseCommitted_props [OF assms(1), where host = host and v = v and z = z] assms(2,3)
  by (cases "gs_ReleaseCommitted host g v z") auto

theorem guest_commit_release_witness:
  "\<exists>g'. gs_Commit (\<lambda>_. True) sample_guest 0x60000 0x4000 = Done (True, g') \<and> guest_ok g' \<and>
     mapped_view g' 0x61000 = Some Private"
proof -
  let ?X = "gs_Commit (\<lambda>_. True) sample_guest 0x60000 0x4000"
  have f: "fits 0x60000 0x4000" "(0x4000 :: u64) \<noteq> 0" by code_simp+
  have "case ?X of Exit \<Rightarrow> False | Done (did, g') \<Rightarrow> did" by code_simp
  moreover have "in_range 0x60000 0x4000 0x61000" by code_simp
  ultimately show ?thesis
    using guest_commit_release_correct [OF sample_guest_ok f, where host = "\<lambda>_. True"]
    by (auto simp: becomes_def)
qed

text \<open>The search for free guest addresses is exact: it returns 0 only when no aligned span
  of the window is free, and otherwise the least address whose whole span is free.\<close>

lemma guest_search_least:
  assumes "guest_ok g" and "z \<noteq> 0" and "al \<noteq> 0"
  shows "(if FindFreeAlignedUnlocked (gs_free g) lo hi z al = 0
    then (\<forall>c. \<not> candidate_ok (gs_free g) lo hi z al c)
    else candidate_ok (gs_free g) lo hi z al (FindFreeAlignedUnlocked (gs_free g) lo hi z al) \<and>
      (\<forall>c. candidate_ok (gs_free g) lo hi z al c \<longrightarrow> FindFreeAlignedUnlocked (gs_free g) lo hi z al \<le> c))"
  by (rule FindFreeAligned_props [OF assms])

theorem guest_search_witness:
  "FindFreeAlignedUnlocked (gs_free sample_guest) 0x40000 0x200000 0x20000 0x40000 = 0x80000 \<and>
   candidate_ok (gs_free sample_guest) 0x40000 0x200000 0x20000 0x40000 0x80000"
proof -
  have r: "FindFreeAlignedUnlocked (gs_free sample_guest) 0x40000 0x200000 0x20000 0x40000 = 0x80000" by code_simp
  have z: "(0x20000 :: u64) \<noteq> 0" "(0x40000 :: u64) \<noteq> 0" by code_simp+
  show ?thesis using guest_search_least [OF sample_guest_ok z, where lo = "0x40000" and hi = "0x200000"] unfolding r by simp
qed

end
