(* ===== verification/FlexibleMemory.thy ===== *)
theory FlexibleMemory
  imports GuestSpace
begin

text \<open>
  Flexible memory: class \<open>FlexibleMemory\<close> of \<open>src/kernel/memory.cpp\<close>. It gives out
  ranges of the backing store above direct memory and maps them through the guest address space,
  which the operations take and return as \<open>g\<close>. \<open>flexible\<close> is the configured size
  \<open>g_flexible_memory_size\<close>; \<open>host\<close> answers the host calls. The class keeps its blocks
  sorted by address. Its \<open>ConsumeFreeRange\<close> and \<open>AddFreeRange\<close> are the ones of
  \<open>PhysicalMemory\<close>, word for word.
\<close>

section \<open>State\<close>

record fm_block =
  fb_map_vaddr :: u64
  fb_map_size :: u64
  fb_backing_offset :: u64
  fb_host_vaddr :: u64
  fb_host_size :: u64
  fb_prot :: i32
  fb_mode :: host_mode
  fb_gpu_mode :: gpu_mode
  fb_name :: string

record flexible_memory =
  fm_allocated :: "fm_block list"
  fm_free :: spans
  fm_total :: u64

definition fm_init :: "u64 \<Rightarrow> u64 \<Rightarrow> flexible_memory" where
  "fm_init physical_size flexible =
     \<lparr>fm_allocated = [], fm_free = om_emplace physical_size flexible [], fm_total = 0\<rparr>"

definition fm_Available :: "u64 \<Rightarrow> flexible_memory \<Rightarrow> u64" where
  "fm_Available flexible fm = (if fm_total fm \<le> flexible then flexible - fm_total fm else 0)"

definition fb_end :: "fm_block \<Rightarrow> u64" where
  "fb_end b = fb_map_vaddr b + fb_map_size b"

section \<open>Map\<close>

text \<open>The chunks of the free ranges that the new mapping takes, and what is still missing.\<close>

fun map_chunks :: "fm_block \<Rightarrow> u64 \<Rightarrow> u64 \<Rightarrow> spans \<Rightarrow> fm_block list \<times> u64" where
  "map_chunks tmpl current remaining [] = ([], remaining)"
| "map_chunks tmpl current remaining (e # es) =
    (if remaining = 0 then ([], remaining)
     else
       let chunk = min remaining (snd e);
           (bs, r) = map_chunks tmpl (current + chunk) (remaining - chunk) es
       in (tmpl\<lparr>fb_map_vaddr := current, fb_map_size := chunk, fb_backing_offset := fst e\<rparr> # bs, r))"

text \<open>The way back: every mapped block is unmapped, newest first.\<close>

fun unmap_mapped :: "host \<Rightarrow> fm_block list \<Rightarrow> guest \<Rightarrow> guest outcome" where
  "unmap_mapped host [] g = Done g"
| "unmap_mapped host (b # bs) g =
     obind (gs_UnmapBacking host g (fb_map_vaddr b) (fb_map_size b))
       (\<lambda>(ok, g'). if ok then unmap_mapped host bs g' else Exit)"

text \<open>\<open>zero\<close> is set in \<open>Map\<close>, which clears each range before mapping it.\<close>

fun map_blocks :: "host \<Rightarrow> bool \<Rightarrow> fm_block list \<Rightarrow> fm_block list \<Rightarrow> guest \<Rightarrow> (bool \<times> guest) outcome" where
  "map_blocks host zero [] mapped g = Done (True, g)"
| "map_blocks host zero (b # bs) mapped g =
    (if zero \<and> \<not> ZeroRange g (fb_backing_offset b) (fb_map_size b)
     then obind (unmap_mapped host mapped g) (\<lambda>g'. Done (False, g'))
     else obind (gs_MapBacking host g (fb_map_vaddr b) (fb_map_size b) (fb_backing_offset b) (fb_mode b))
       (\<lambda>(r, g'). if r = NoFailure then map_blocks host zero bs (b # mapped) g'
                  else obind (unmap_mapped host mapped g') (\<lambda>g''. Done (False, g''))))"

text \<open>\<open>Map\<close> checks again that the range holds the block; \<open>Restore\<close> does not.\<close>

fun consume_blocks :: "bool \<Rightarrow> fm_block list \<Rightarrow> spans \<Rightarrow> spans outcome" where
  "consume_blocks check [] free = Done free"
| "consume_blocks check (b # bs) free =
    (case om_prev (fb_backing_offset b) free of
       None \<Rightarrow> Exit
     | Some e \<Rightarrow>
         if check \<and> (fb_backing_offset b < fst e \<or> fst e + snd e - fb_backing_offset b < fb_map_size b) then Exit
         else consume_blocks check bs (ConsumeFreeRange e (fb_backing_offset b) (fb_map_size b) free))"

definition fm_Map :: "host \<Rightarrow> u64 \<Rightarrow> flexible_memory \<Rightarrow> guest \<Rightarrow> u64 \<Rightarrow> u64 \<Rightarrow> i32 \<Rightarrow> host_mode \<Rightarrow> gpu_mode \<Rightarrow>
    string option \<Rightarrow> (bool \<times> flexible_memory \<times> guest) outcome" where
  "fm_Map host flexible fm g vaddr len prot mode gpu_mode name =
    (let available = (if fm_total fm \<le> flexible then flexible - fm_total fm else 0)
     in if len = 0 \<or> available < len then Done (False, fm, g)
        else
          let tmpl = \<lparr>fb_map_vaddr = 0, fb_map_size = 0, fb_backing_offset = 0, fb_host_vaddr = vaddr,
                      fb_host_size = len, fb_prot = prot, fb_mode = mode, fb_gpu_mode = gpu_mode,
                      fb_name = CopyVirtualRangeName name\<rparr>;
              (blocks, remaining) = map_chunks tmpl vaddr len (fm_free fm)
          in if remaining \<noteq> 0 then Done (False, fm, g)
             else obind (map_blocks host True blocks [] g) (\<lambda>(ok, g').
               if \<not> ok then Done (False, fm, g')
               else obind (consume_blocks True blocks (fm_free fm)) (\<lambda>free.
                 Done (True,
                   \<lparr>fm_allocated = sort_key fb_map_vaddr (fm_allocated fm @ blocks), fm_free = free,
                    fm_total = fm_total fm + len\<rparr>, g'))))"

section \<open>Unmap\<close>

text \<open>The walk over the sorted blocks: the first block's GPU mode, and where it stopped.\<close>

fun cover_walk :: "u64 \<Rightarrow> fm_block list \<Rightarrow> u64 \<Rightarrow> gpu_mode option \<Rightarrow> gpu_mode option \<times> u64" where
  "cover_walk end [] current found = (found, current)"
| "cover_walk end (b # bs) current found =
    (if fb_end b \<le> current then cover_walk end bs current found
     else if current < fb_map_vaddr b \<or> end \<le> fb_map_vaddr b then (found, current)
     else
       let found' = (case found of None \<Rightarrow> Some (fb_gpu_mode b) | Some m \<Rightarrow> Some m);
           current' = min end (fb_end b)
       in if current' = end then (found', current') else cover_walk end bs current' found')"

text \<open>One block's share of an unmapping: the parts that stay, and the range that becomes free.\<close>

definition unmap_block :: "u64 \<Rightarrow> u64 \<Rightarrow> fm_block \<Rightarrow> fm_block list \<times> (u64 \<times> u64) option" where
  "unmap_block vaddr sz b =
    (if \<not> VirtualRangesOverlap vaddr sz (fb_map_vaddr b) (fb_map_size b) then ([b], None)
     else
       let overlap_start = max vaddr (fb_map_vaddr b);
           overlap_end = min (vaddr + sz) (fb_end b)
       in ((if fb_map_vaddr b < overlap_start
            then [b\<lparr>fb_map_size := overlap_start - fb_map_vaddr b\<rparr>] else []) @
           (if overlap_end < fb_end b
            then [b\<lparr>fb_map_vaddr := overlap_end, fb_map_size := fb_end b - overlap_end,
                    fb_backing_offset := fb_backing_offset b + overlap_end - fb_map_vaddr b\<rparr>] else []),
           Some (fb_backing_offset b + overlap_start - fb_map_vaddr b, overlap_end - overlap_start)))"

fun unmap_blocks :: "u64 \<Rightarrow> u64 \<Rightarrow> fm_block list \<Rightarrow> spans \<Rightarrow> u64 \<Rightarrow> fm_block list \<times> spans \<times> u64" where
  "unmap_blocks vaddr sz [] free removed = ([], free, removed)"
| "unmap_blocks vaddr sz (b # bs) free removed =
    (case unmap_block vaddr sz b of
       (kept, None) \<Rightarrow>
         (case unmap_blocks vaddr sz bs free removed of (rest, f, r) \<Rightarrow> (kept @ rest, f, r))
     | (kept, Some (offset, n)) \<Rightarrow>
         (case unmap_blocks vaddr sz bs (AddFreeRange offset n free) (removed + n) of
            (rest, f, r) \<Rightarrow> (kept @ rest, f, r)))"

text \<open>
  The results are the return value and the GPU mode written to the caller, which is also
  written when the call fails after it found a block. \<open>host_vaddr_to_release\<close> is always 0.
\<close>

definition fm_Unmap :: "host \<Rightarrow> flexible_memory \<Rightarrow> guest \<Rightarrow> u64 \<Rightarrow> u64 \<Rightarrow>
    (bool \<times> gpu_mode option \<times> flexible_memory \<times> guest) outcome" where
  "fm_Unmap host fm g vaddr sz =
    (if sz = 0 \<or> UINT64_MAX - vaddr < sz then Done (False, None, fm, g)
     else
       let (found, current) = cover_walk (vaddr + sz) (fm_allocated fm) vaddr None
       in if found = None \<or> current \<noteq> vaddr + sz then Done (False, found, fm, g)
          else obind (gs_UnmapBacking host g vaddr sz) (\<lambda>(ok, g').
            if \<not> ok then Done (False, found, fm, g')
            else
              let (remaining, free, removed) = unmap_blocks vaddr sz (fm_allocated fm) (fm_free fm) 0
              in if removed \<noteq> sz \<or> fm_total fm < removed then Exit
                 else Done (True, found, \<lparr>fm_allocated = remaining, fm_free = free,
                                    fm_total = fm_total fm - removed\<rparr>, g')))"

section \<open>Snapshot and Restore\<close>

fun snapshot_walk :: "u64 \<Rightarrow> fm_block list \<Rightarrow> u64 \<Rightarrow> fm_block list option" where
  "snapshot_walk end [] current = None"
| "snapshot_walk end (b # bs) current =
    (if fb_end b \<le> current then snapshot_walk end bs current
     else if current < fb_map_vaddr b \<or> end \<le> fb_map_vaddr b then None
     else
       let part_end = min end (fb_end b);
           part = b\<lparr>fb_map_vaddr := current, fb_map_size := part_end - current,
                    fb_backing_offset := fb_backing_offset b + (current - fb_map_vaddr b)\<rparr>
       in if part_end = end then Some [part]
          else map_option ((#) part) (snapshot_walk end bs part_end))"

definition fm_Snapshot :: "flexible_memory \<Rightarrow> u64 \<Rightarrow> u64 \<Rightarrow> fm_block list option" where
  "fm_Snapshot fm vaddr sz =
    (if sz = 0 \<or> UINT64_MAX - vaddr < sz then None
     else snapshot_walk (vaddr + sz) (fm_allocated fm) vaddr)"

definition block_free :: "spans \<Rightarrow> fm_block \<Rightarrow> bool" where
  "block_free free b \<longleftrightarrow>
    (case om_prev (fb_backing_offset b) free of
       None \<Rightarrow> False
     | Some e \<Rightarrow> \<not> (fb_backing_offset b < fst e \<or> fst e + snd e - fb_backing_offset b < fb_map_size b))"

definition fm_Restore :: "host \<Rightarrow> flexible_memory \<Rightarrow> guest \<Rightarrow> fm_block list \<Rightarrow>
    (bool \<times> flexible_memory \<times> guest) outcome" where
  "fm_Restore host fm g blocks =
    (if blocks = [] \<or> \<not> list_all (block_free (fm_free fm)) blocks then Done (False, fm, g)
     else obind (map_blocks host False blocks [] g) (\<lambda>(ok, g').
       if \<not> ok then Done (False, fm, g')
       else obind (consume_blocks False blocks (fm_free fm)) (\<lambda>free.
         Done (True,
           \<lparr>fm_allocated = sort_key fb_map_vaddr (fm_allocated fm @ blocks), fm_free = free,
            fm_total = fm_total fm + sum_list (map fb_map_size blocks)\<rparr>, g'))))"

section \<open>Protection and queries\<close>

definition protect_block :: "u64 \<Rightarrow> u64 \<Rightarrow> i32 \<Rightarrow> host_mode \<Rightarrow> gpu_mode \<Rightarrow> fm_block \<Rightarrow> fm_block list" where
  "protect_block vaddr sz prot mode gpu_mode b =
    (if \<not> VirtualRangesOverlap vaddr sz (fb_map_vaddr b) (fb_map_size b) then [b]
     else
       let overlap_start = max vaddr (fb_map_vaddr b);
           overlap_end = min (vaddr + sz) (fb_end b)
       in (if fb_map_vaddr b < overlap_start
           then [b\<lparr>fb_map_size := overlap_start - fb_map_vaddr b\<rparr>] else []) @
          [b\<lparr>fb_map_vaddr := overlap_start, fb_map_size := overlap_end - overlap_start,
             fb_backing_offset := fb_backing_offset b + overlap_start - fb_map_vaddr b,
             fb_prot := prot, fb_mode := mode, fb_gpu_mode := gpu_mode\<rparr>] @
          (if overlap_end < fb_end b
           then [b\<lparr>fb_map_vaddr := overlap_end, fb_map_size := fb_end b - overlap_end,
                   fb_backing_offset := fb_backing_offset b + overlap_end - fb_map_vaddr b\<rparr>] else []))"

definition fm_Protect :: "flexible_memory \<Rightarrow> u64 \<Rightarrow> u64 \<Rightarrow> i32 \<Rightarrow> host_mode \<Rightarrow> gpu_mode \<Rightarrow> flexible_memory" where
  "fm_Protect fm vaddr sz prot mode gpu_mode =
    (if sz = 0 \<or> UINT64_MAX - vaddr < sz then fm
     else fm\<lparr>fm_allocated := concat (map (protect_block vaddr sz prot mode gpu_mode) (fm_allocated fm))\<rparr>)"

definition fm_Find :: "flexible_memory \<Rightarrow> u64 \<Rightarrow> fm_block option" where
  "fm_Find fm vaddr = find (\<lambda>b. fb_map_vaddr b \<le> vaddr \<and> vaddr < fb_end b) (fm_allocated fm)"

definition fm_SetVirtualRangeName :: "flexible_memory \<Rightarrow> u64 \<Rightarrow> u64 \<Rightarrow> string option \<Rightarrow> flexible_memory" where
  "fm_SetVirtualRangeName fm vaddr len name =
    fm\<lparr>fm_allocated := map (\<lambda>b. if VirtualRangesOverlap vaddr len (fb_map_vaddr b) (fb_map_size b)
                             then b\<lparr>fb_name := CopyVirtualRangeName name\<rparr> else b) (fm_allocated fm)\<rparr>"

end
