(* ===== verification/FlexibleMemorySpec.thy ===== *)
theory FlexibleMemorySpec
  imports FlexibleMemory GuestAddressSpec
begin

text \<open>
  What flexible memory guarantees. A block is a region in two address spaces, the guest's and the
  backing store's; both readings are instances of the region interface, and the invariant says that
  the blocks are disjoint in both, that the rest of the store is free, and that the guest address
  space really maps them.
\<close>

section \<open>Blocks as regions, twice\<close>

definition block_cut :: "u64 \<Rightarrow> u64 \<Rightarrow> fm_block \<Rightarrow> fm_block" where
  "block_cut s t b = b\<lparr>fb_map_vaddr := s, fb_map_size := t - s,
     fb_backing_offset := fb_backing_offset b + (s - fb_map_vaddr b)\<rparr>"

text \<open>What a block says of one of its addresses: its backing byte and its other fields.\<close>

definition block_attr :: "fm_block \<Rightarrow> u64 \<Rightarrow> fm_block" where
  "block_attr b a = b\<lparr>fb_map_vaddr := 0, fb_map_size := 0,
     fb_backing_offset := fb_backing_offset b + (a - fb_map_vaddr b)\<rparr>"

definition back_cut :: "u64 \<Rightarrow> u64 \<Rightarrow> fm_block \<Rightarrow> fm_block" where
  "back_cut s t b = b\<lparr>fb_backing_offset := s, fb_map_size := t - s,
     fb_map_vaddr := fb_map_vaddr b + (s - fb_backing_offset b)\<rparr>"

definition back_attr :: "fm_block \<Rightarrow> u64 \<Rightarrow> u64" where
  "back_attr b p = fb_map_vaddr b + (p - fb_backing_offset b)"

interpretation fmaps: regions fb_map_vaddr fb_map_size block_attr block_cut
  by unfold_locales (simp_all add: block_cut_def block_attr_def)

interpretation fback: regions fb_backing_offset fb_map_size back_attr back_cut
  by unfold_locales (simp_all add: back_cut_def back_attr_def)

lemma fb_end_rend: "fb_end = fmaps.rend"
  by (simp add: fun_eq_iff fb_end_def fmaps.rend_def)

text \<open>A piece of a block covers the matching piece of its backing.\<close>

lemma block_cut_back:
  assumes b: "fmaps.rok b" "fback.rok b" and s: "fb_map_vaddr b \<le> s" "s < t" "t \<le> fmaps.rend b"
  shows "fback.rok (block_cut s t b)"
    and "fback.rcov (block_cut s t b) p \<longleftrightarrow> fback.rcov b p \<and> s \<le> back_attr b p \<and> back_attr b p < t"
    and "fback.rcov b p \<Longrightarrow> fmaps.rcov b (back_attr b p)"
proof -
  let ?v = "fb_map_vaddr b" and ?o = "fb_backing_offset b" and ?z = "fb_map_size b"
  have f: "fits ?v ?z" "fits ?o ?z" using b by (auto simp: fmaps.rok_def fback.rok_def)
  have e: "unat (fmaps.rend b) = unat ?v + unat ?z" "unat (fback.rend b) = unat ?o + unat ?z"
    using unat_add_fits [OF f(1)] unat_add_fits [OF f(2)] by (auto simp: fmaps.rend_def fback.rend_def)
  have sv: "unat (s - ?v) = unat s - unat ?v" "unat (t - s) = unat t - unat s"
    using s by (simp_all add: unat_sub less_imp_le)
  have n: "unat ?v \<le> unat s" "unat s < unat t" "unat t \<le> unat ?v + unat ?z"
    using s e(1) by (auto simp: word_less_nat_alt word_le_nat_alt)
  have fo: "fits ?o (s - ?v)" using f(2) n sv by (simp add: fits_unat)
  have uo: "unat (?o + (s - ?v)) = unat ?o + (unat s - unat ?v)" using unat_add_fits [OF fo] sv(1) by simp
  have fc: "fits (?o + (s - ?v)) (t - s)" using f(2) n sv uo by (simp add: fits_unat)
  show "fback.rok (block_cut s t b)" using fc s(2) by (auto simp: fback.rok_def block_cut_def)
  have r: "fback.rcov b p \<longleftrightarrow> unat ?o \<le> unat p \<and> unat p < unat ?o + unat ?z" for p
    using e(2) by (simp add: fback.rcov_iff word_less_nat_alt word_le_nat_alt)
  have at: "unat (back_attr b p) = unat ?v + (unat p - unat ?o)" if "fback.rcov b p"
  proof -
    have "unat (p - ?o) = unat p - unat ?o" using that by (simp add: r unat_sub word_le_nat_alt)
    moreover have "fits ?v (p - ?o)" using f(1) that calculation by (auto simp: fits_unat r)
    ultimately show ?thesis by (simp add: back_attr_def unat_add_fits)
  qed
  show "fback.rcov b p \<Longrightarrow> fmaps.rcov b (back_attr b p)"
    using at e(1) by (auto simp: fmaps.rcov_iff word_less_nat_alt word_le_nat_alt r)
  have c: "fback.rcov (block_cut s t b) p \<longleftrightarrow> unat ?o + (unat s - unat ?v) \<le> unat p \<and> unat p < unat ?o + (unat t - unat ?v)"
    using uo unat_add_fits [OF fc] sv n by (simp add: fback.rcov_def in_range_def block_cut_def word_less_nat_alt word_le_nat_alt)
  show "fback.rcov (block_cut s t b) p \<longleftrightarrow> fback.rcov b p \<and> s \<le> back_attr b p \<and> back_attr b p < t"
  proof (cases "fback.rcov b p")
    case True
    have q: "unat ?o \<le> unat p" using True by (simp add: r)
    have "fback.rcov (block_cut s t b) p \<longleftrightarrow> unat s \<le> unat (back_attr b p) \<and> unat (back_attr b p) < unat t"
      unfolding c at [OF True] using q n by linarith
    then show ?thesis using True by (simp add: word_less_nat_alt word_le_nat_alt)
  next
    case False
    then have "\<not> fback.rcov (block_cut s t b) p" unfolding c r using n by linarith
    then show ?thesis using False by simp
  qed
qed

section \<open>Choosing the chunks\<close>

lemma join_spans: "s \<le> m \<Longrightarrow> m \<le> t \<Longrightarrow> (s \<le> a \<and> a < m) \<or> (m \<le> a \<and> a < t) \<longleftrightarrow> s \<le> a \<and> a < t"
  for s m t a :: u64
  by auto

lemma map_chunks_props:
  assumes "separate free" and "fits cur rem" and "map_chunks tmpl cur rem free = (bs, r)"
  shows "unat r = unat rem - sum_list (map (unat \<circ> snd) free) \<and> r \<le> rem \<and> fmaps.rwf bs \<and>
    sorted (map fb_map_vaddr bs) \<and> (\<forall>a. fmaps.covered bs a \<longleftrightarrow> in_range cur (rem - r) a) \<and>
    fback.rwf bs \<and> (\<forall>p. fback.covered bs p \<longrightarrow> sp_at free p) \<and>
    (\<forall>b \<in> set bs. \<exists>v z o'. b = tmpl\<lparr>fb_map_vaddr := v, fb_map_size := z, fb_backing_offset := o'\<rparr>)"
  using assms
proof (induction free arbitrary: cur rem bs)
  case Nil
  then show ?case by (auto simp: in_range_def)
next
  case (Cons e es)
  show ?case
  proof (cases "rem = 0")
    case True
    then show ?thesis using Cons.prems(3) by (auto simp: in_range_def)
  next
    case False
    define chunk where "chunk = min rem (snd e)"
    obtain bs' where bs: "map_chunks tmpl (cur + chunk) (rem - chunk) es = (bs', r)"
      "bs = tmpl\<lparr>fb_map_vaddr := cur, fb_map_size := chunk, fb_backing_offset := fst e\<rparr> # bs'"
      using Cons.prems(3) False by (auto simp: chunk_def Let_def split: prod.splits)
    let ?b = "tmpl\<lparr>fb_map_vaddr := cur, fb_map_size := chunk, fb_backing_offset := fst e\<rparr>"
    have se: "snd e \<noteq> 0" "fits (fst e) (snd e)" "separate es" "\<forall>x \<in> set es. fst e + snd e < fst x"
      using Cons.prems(1) by (auto simp: separate_Cons span_ok_def)
    have ch: "chunk \<noteq> 0" "chunk \<le> rem" "chunk \<le> snd e" using False se(1) by (auto simp: chunk_def min_def)
    have fc: "fits cur chunk" by (rule fits_mono [OF Cons.prems(2) ch(2)])
    have fr: "fits (cur + chunk) (rem - chunk)"
      using Cons.prems(2) ch(2) unat_add_fits [OF fc] by (simp add: fits_unat unat_sub word_le_nat_alt)
    have IH: "unat r = unat (rem - chunk) - sum_list (map (unat \<circ> snd) es)" "r \<le> rem - chunk" "fmaps.rwf bs'"
      "sorted (map fb_map_vaddr bs')" "\<And>a. fmaps.covered bs' a \<longleftrightarrow> in_range (cur + chunk) (rem - chunk - r) a"
      "fback.rwf bs'" "\<And>p. fback.covered bs' p \<Longrightarrow> sp_at es p"
      "\<forall>b \<in> set bs'. \<exists>v z o'. b = tmpl\<lparr>fb_map_vaddr := v, fb_map_size := z, fb_backing_offset := o'\<rparr>"
      using Cons.IH [OF se(3) fr bs(1)] by blast+
    have rk: "fmaps.rok ?b" "fback.rok ?b" "fmaps.rcov ?b = in_range cur chunk" "fback.rcov ?b = in_range (fst e) chunk"
      using ch fc fits_mono [OF se(2) ch(3)]
      by (auto simp: fmaps.rok_def fback.rok_def fmaps.rcov_def fback.rcov_def fun_eq_iff)
    have "unat r = unat rem - sum_list (map (unat \<circ> snd) (e # es))"
    proof (cases "rem \<le> snd e")
      case True
      then have "chunk = rem" by (simp add: chunk_def min_def)
      then show ?thesis using IH(1) True by (simp add: word_le_nat_alt)
    next
      case n: False
      then have "chunk = snd e" by (simp add: chunk_def min_def)
      then show ?thesis using IH(1) n by (simp add: unat_sub word_le_nat_alt)
    qed
    moreover have rr: "r \<le> rem" using IH(2) ch(2) by (simp add: word_le_nat_alt unat_sub)
    moreover have cov: "fmaps.covered bs a \<longleftrightarrow> in_range cur (rem - r) a" for a
    proof -
      have u: "unat (cur + chunk) = unat cur + unat chunk" using unat_add_fits [OF fc] .
      have rl: "unat r \<le> unat rem" "unat r \<le> unat rem - unat chunk" "unat chunk \<le> unat rem"
        using IH(2) ch(2) rr by (simp_all add: word_le_nat_alt unat_sub)
      have ur: "unat (rem - r) = unat rem - unat r" using rr by (rule unat_sub)
      have f2: "fits cur (rem - r)" using Cons.prems(2) unfolding fits_unat ur by linarith
      have le: "cur + chunk \<le> cur + (rem - r)" using unat_add_fits [OF f2] u rl unfolding word_le_nat_alt ur by linarith
      have eq: "cur + chunk + (rem - chunk - r) = cur + (rem - r)" by simp
      show ?thesis
        unfolding bs(2) fmaps.covered_simps rk(3) IH(5) in_range_def eq by (rule join_spans [OF fits_le [OF fc] le])
    qed
    moreover have "fmaps.rwf bs"
    proof -
      have "fmaps.apart ?b c" if c: "c \<in> set bs'" for c
      proof -
        have "\<not> (in_range cur chunk a \<and> fmaps.rcov c a)" for a
        proof
          assume a: "in_range cur chunk a \<and> fmaps.rcov c a"
          then have "fmaps.covered bs' a" using c by (auto simp: fmaps.covered_def)
          then have "cur + chunk \<le> a" using IH(5) unfolding in_range_def by blast
          then show False using a unfolding in_range_def by (meson leD)
        qed
        then show ?thesis using rk(3) by (simp add: fmaps.apart_def)
      qed
      then show ?thesis using IH(3) rk(1) by (simp add: bs(2) fmaps.rwf_Cons)
    qed
    moreover have "sorted (map fb_map_vaddr bs)"
    proof -
      have "cur \<le> fb_map_vaddr c" if c: "c \<in> set bs'" for c
      proof -
        have "fmaps.rcov c (fb_map_vaddr c)"
          using fmaps.rok_less [OF fmaps.rok_in [OF IH(3) c]] by (simp add: fmaps.rcov_iff)
        then have "fmaps.covered bs' (fb_map_vaddr c)" using c by (auto simp: fmaps.covered_def)
        then have "cur + chunk \<le> fb_map_vaddr c" using IH(5) unfolding in_range_def by blast
        then show ?thesis using fits_le [OF fc] by (rule order_trans [rotated])
      qed
      then show ?thesis using IH(4) by (simp add: bs(2))
    qed
    moreover have be: "in_range (fst e) chunk p \<Longrightarrow> in_range (fst e) (snd e) p" for p
    proof -
      have "fst e + chunk \<le> fst e + snd e"
        using unat_add_fits [OF fits_mono [OF se(2) ch(3)]] unat_add_fits [OF se(2)] ch(3) by (simp add: word_le_nat_alt)
      then show "in_range (fst e) chunk p \<Longrightarrow> in_range (fst e) (snd e) p" by (auto simp: in_range_def)
    qed
    moreover have "fback.rwf bs"
    proof -
      have "fback.apart ?b c" if c: "c \<in> set bs'" for c
      proof -
        have "\<not> (in_range (fst e) chunk p \<and> fback.rcov c p)" for p
        proof
          assume a: "in_range (fst e) chunk p \<and> fback.rcov c p"
          then have "fback.covered bs' p" using c by (auto simp: fback.covered_def)
          then have "sp_at es p" by (rule IH(7))
          moreover have "in_range (fst e) (snd e) p" using be a by blast
          ultimately show False using se(4) by (auto simp: sp_at_def in_range_def)
        qed
        then show ?thesis using rk(4) by (simp add: fback.apart_def)
      qed
      then show ?thesis using IH(6) rk(2) by (simp add: bs(2) fback.rwf_Cons)
    qed
    moreover have "fback.covered bs p \<Longrightarrow> sp_at (e # es) p" for p
      using be IH(7) by (auto simp: bs(2) rk(4))
    moreover have "\<forall>b \<in> set bs. \<exists>v z o'. b = tmpl\<lparr>fb_map_vaddr := v, fb_map_size := z, fb_backing_offset := o'\<rparr>"
      using IH(8) by (auto simp: bs(2))
    ultimately show ?thesis by blast
  qed
qed

section \<open>Taking the backing of blocks\<close>

lemma fback_span:
  assumes "fback.rok b"
  shows "fits (fb_backing_offset b) (fb_map_size b)" "fb_map_size b \<noteq> 0" "fback.rcov b = in_range (fb_backing_offset b) (fb_map_size b)"
  using assms by (auto simp: fback.rok_def fback.rcov_def fun_eq_iff)

lemma consume_blocks_props:
  assumes "separate free" and "fback.rwf bs" and "\<And>p. fback.covered bs p \<Longrightarrow> sp_at free p"
  shows "\<exists>free'. consume_blocks check bs free = Done free' \<and> separate free' \<and>
    (\<forall>p. sp_at free' p \<longleftrightarrow> sp_at free p \<and> \<not> fback.covered bs p)"
  using assms
proof (induction bs arbitrary: free)
  case (Cons b bs)
  have b: "fback.rok b" "fback.rwf bs" "\<And>c. c \<in> set bs \<Longrightarrow> fback.apart b c"
    using Cons.prems(2) by (auto simp: fback.rwf_Cons)
  let ?o = "fb_backing_offset b" and ?z = "fb_map_size b"
  note sp = fback_span [OF b(1)]
  have at: "sp_at free p" if "in_range ?o ?z p" for p using Cons.prems(3) [of p] that by (simp add: sp(3))
  obtain xs e ys where e: "free = xs @ e # ys" "fst e \<le> ?o" "?o + ?z \<le> fst e + snd e" "om_prev ?o free = Some e"
    using span_in_one [OF Cons.prems(1) sp(1,2) at] by blast
  define free1 where "free1 = ConsumeFreeRange e ?o ?z free"
  have t: "take_range ?o ?z free = free1" using e(4) by (simp add: take_range_def free1_def)
  note T = take_range_props [OF Cons.prems(1) sp(1,2) at, unfolded t]
  have ck: "\<not> (?o < fst e \<or> fst e + snd e - ?o < ?z)"
  proof -
    have "?o \<le> fst e + snd e" using e(3) fits_le [OF sp(1)] by (rule order_trans [rotated])
    then show ?thesis using size_le_room [of ?o "fst e + snd e" ?z] e(2,3) sp(1) by (auto simp: not_less)
  qed
  have st: "consume_blocks check (b # bs) free = consume_blocks check bs free1"
    using e(4) ck by (simp add: free1_def)
  have n: "fback.rcov b p \<Longrightarrow> \<not> fback.covered bs p" for p using b(3) by (auto simp: fback.covered_def fback.apart_def)
  have "sp_at free1 p" if "fback.covered bs p" for p
    using Cons.prems(3) [of p] that n [of p] T(2) by (auto simp: sp(3))
  then obtain free' where f': "consume_blocks check bs free1 = Done free'" "separate free'"
    "\<forall>p. sp_at free' p \<longleftrightarrow> sp_at free1 p \<and> \<not> fback.covered bs p"
    using Cons.IH [OF T(1) b(2)] by blast
  then show ?case unfolding st using T(2) by (auto simp: sp(3))
qed simp

section \<open>Mapping and unmapping blocks\<close>

definition block_view :: "fm_block list \<Rightarrow> u64 \<Rightarrow> (u64 \<times> host_mode) option" where
  "block_view bs a = map_option (\<lambda>x. (fb_backing_offset x, host_mode_for (fb_mode x))) (fmaps.look bs a)"

lemma block_view_Cons:
  "block_view (b # bs) a = (if fmaps.rcov b a
     then Some (fb_backing_offset b + (a - fb_map_vaddr b), host_mode_for (fb_mode b)) else block_view bs a)"
  by (simp add: block_view_def fmaps.look_Cons block_attr_def)

lemma covered_apart: "(\<And>c. c \<in> set bs \<Longrightarrow> fmaps.apart b c) \<Longrightarrow> fmaps.rcov b a \<Longrightarrow> \<not> fmaps.covered bs a"
  by (auto simp: fmaps.covered_def fmaps.apart_def)

lemma fmaps_span:
  assumes "fmaps.rok b"
  shows "fits (fb_map_vaddr b) (fb_map_size b)" "fb_map_size b \<noteq> 0" "in_range (fb_map_vaddr b) (fb_map_size b) = fmaps.rcov b"
  using assms by (auto simp: fmaps.rok_def fmaps.rcov_def fun_eq_iff)

lemma unmap_mapped_props:
  assumes "guest_ok g" and "fmaps.rwf ms" and "\<And>a. fmaps.covered ms a \<Longrightarrow> mapped_view g a = Some Backing"
  shows "case unmap_mapped host ms g of Exit \<Rightarrow> \<not> (\<forall>n. host n)
    | Done g' \<Rightarrow> became g (fmaps.covered ms) None (\<lambda>_. None) g'"
  using assms
proof (induction ms arbitrary: g)
  case Nil
  then show ?case by (simp add: became_def)
next
  case (Cons b ms)
  have b: "fmaps.rok b" "fmaps.rwf ms" "\<And>c. c \<in> set ms \<Longrightarrow> fmaps.apart b c"
    using Cons.prems(2) by (auto simp: fmaps.rwf_Cons)
  note f = fmaps_span [OF b(1)]
  have mb: "\<forall>a. fmaps.rcov b a \<longrightarrow> mapped_view g a = Some Backing" using Cons.prems(3) by simp
  note U = gs_UnmapBacking_props [OF Cons.prems(1), where host = host and v = "fb_map_vaddr b" and z = "fb_map_size b", unfolded f(3)]
  show ?case
  proof (cases "gs_UnmapBacking host g (fb_map_vaddr b) (fb_map_size b)")
    case Exit
    then have "\<not> (\<forall>n. host n)" using U(2) f mb by auto
    then show ?thesis using Exit by simp
  next
    case (Done p)
    obtain ok g1 where p: "p = (ok, g1)" by fastforce
    show ?thesis
    proof (cases ok)
      case False
      then have "\<not> (\<forall>n. host n)" using U(2) f mb Done p by auto
      then show ?thesis using Done p False by simp
    next
      case True
      then have b1: "became g (fmaps.rcov b) None (\<lambda>_. None) g1"
        using U(1) Done p unfolding becomes_became f(3) by simp
      have cm: "mapped_view g1 a = Some Backing" if "fmaps.covered ms a" for a
      proof -
        have "\<not> fmaps.rcov b a" using covered_apart [OF b(3)] that by blast
        then show ?thesis using b1 Cons.prems(3) [of a] that by (simp add: became_def)
      qed
      have g1: "guest_ok g1" using b1 by (simp add: became_def)
      have IH: "case unmap_mapped host ms g1 of Exit \<Rightarrow> \<not> (\<forall>n. host n)
          | Done g' \<Rightarrow> became g1 (fmaps.covered ms) None (\<lambda>_. None) g'"
        by (rule Cons.IH [OF g1 b(2) cm])
      have "became g (fmaps.covered (b # ms)) None (\<lambda>_. None) g'" if "became g1 (fmaps.covered ms) None (\<lambda>_. None) g'" for g'
        by (rule became_cong [OF became_trans [OF b1 that]]) (use covered_apart [OF b(3)] in \<open>auto simp: fun_eq_iff\<close>)
      moreover have "unmap_mapped host (b # ms) g = unmap_mapped host ms g1" using Done p True by simp
      ultimately show ?thesis using IH by (cases "unmap_mapped host ms g1") (simp_all del: fmaps.covered_simps)
    qed
  qed
qed

lemma map_blocks_props:
  assumes "guest_ok g" and "fmaps.rwf bs" and "fmaps.rwf mapped"
    and "\<And>b c. b \<in> set bs \<Longrightarrow> c \<in> set mapped \<Longrightarrow> fmaps.apart b c"
    and "\<And>b. b \<in> set bs \<Longrightarrow> RangeOk g (fb_backing_offset b) (fb_map_size b)"
    and "\<And>a. fmaps.covered mapped a \<Longrightarrow> mapped_view g a = Some Backing"
  shows "case map_blocks host zero bs mapped g of Exit \<Rightarrow> \<not> (\<forall>n. host n)
    | Done (ok, g') \<Rightarrow>
        if ok then became g (fmaps.covered bs) (Some Backing) (block_view bs) g' \<and>
          (\<forall>a. fmaps.covered bs a \<longrightarrow> sp_at (gs_free g) a)
        else became g (fmaps.covered mapped) None (\<lambda>_. None) g' \<and>
          \<not> ((\<forall>n. host n) \<and> (\<forall>a. fmaps.covered bs a \<longrightarrow> sp_at (gs_free g) a))"
  using assms
proof (induction bs arbitrary: mapped g)
  case Nil
  then show ?case by (simp add: became_def)
next
  case (Cons b bs)
  have b: "fmaps.rok b" "fmaps.rwf bs" "\<And>c. c \<in> set bs \<Longrightarrow> fmaps.apart b c"
    using Cons.prems(2) by (auto simp: fmaps.rwf_Cons)
  note f = fmaps_span [OF b(1)]
  have ro: "RangeOk g (fb_backing_offset b) (fb_map_size b)" using Cons.prems(5) by simp
  have zr: "ZeroRange g (fb_backing_offset b) (fb_map_size b)"
    using ro guest_okD(3) [OF Cons.prems(1)] by (simp add: ZeroRange_def backing_ok_def)
  obtain r g1 where m: "gs_MapBacking host g (fb_map_vaddr b) (fb_map_size b) (fb_backing_offset b) (fb_mode b) = Done (r, g1)"
    "r = NoFailure \<longleftrightarrow> (\<forall>a. fmaps.rcov b a \<longrightarrow> sp_at (gs_free g) a) \<and> host (gs_clock g)"
    "if r = NoFailure then becomes g (fb_map_vaddr b) (fb_map_size b) (Some Backing)
       (\<lambda>a. Some (fb_backing_offset b + (a - fb_map_vaddr b), host_mode_for (fb_mode b))) g1 else unchanged g g1"
    using gs_MapBacking_props [OF Cons.prems(1) f(1,2), where host = host and off = "fb_backing_offset b" and mode = "fb_mode b"] ro
    unfolding f(3) by blast
  show ?case
  proof (cases "r = NoFailure")
    case False
    then have un: "unchanged g g1" using m(3) by simp
    then have g1: "guest_ok g1" "mapped_view g1 = mapped_view g" by (auto simp: unchanged_def)
    have "case unmap_mapped host mapped g1 of Exit \<Rightarrow> \<not> (\<forall>n. host n)
      | Done g' \<Rightarrow> became g1 (fmaps.covered mapped) None (\<lambda>_. None) g'"
      using Cons.prems(6) g1(2) by (intro unmap_mapped_props [OF g1(1) Cons.prems(3)]) simp
    moreover have "became g (fmaps.covered mapped) None (\<lambda>_. None) g'"
      if "became g1 (fmaps.covered mapped) None (\<lambda>_. None) g'" for g'
      using that un by (auto simp: became_def unchanged_def)
    moreover have "\<not> ((\<forall>n. host n) \<and> (\<forall>a. fmaps.covered (b # bs) a \<longrightarrow> sp_at (gs_free g) a))"
      using False m(2) by auto
    ultimately show ?thesis using m(1) False zr by (auto split: outcome.splits)
  next
    case True
    then have b1: "became g (fmaps.rcov b) (Some Backing)
       (\<lambda>a. Some (fb_backing_offset b + (a - fb_map_vaddr b), host_mode_for (fb_mode b))) g1"
      using m(3) unfolding becomes_became f(3) by simp
    have fr: "\<And>a. fmaps.rcov b a \<Longrightarrow> sp_at (gs_free g) a" using True m(2) by blast
    have g1: "guest_ok g1" "gb_size g1 = gb_size g" using b1 by (auto simp: became_def)
    have st: "map_blocks host zero (b # bs) mapped g = map_blocks host zero bs (b # mapped) g1"
      using m(1) True zr by simp
    have nm: "\<And>a. fmaps.rcov b a \<Longrightarrow> \<not> fmaps.covered mapped a"
      using covered_apart [of mapped b] Cons.prems(4) [of b] by auto
    have IH: "case map_blocks host zero bs (b # mapped) g1 of Exit \<Rightarrow> \<not> (\<forall>n. host n)
      | Done (ok, g') \<Rightarrow>
          if ok then became g1 (fmaps.covered bs) (Some Backing) (block_view bs) g' \<and>
            (\<forall>a. fmaps.covered bs a \<longrightarrow> sp_at (gs_free g1) a)
          else became g1 (fmaps.covered (b # mapped)) None (\<lambda>_. None) g' \<and>
            \<not> ((\<forall>n. host n) \<and> (\<forall>a. fmaps.covered bs a \<longrightarrow> sp_at (gs_free g1) a))"
    proof (rule Cons.IH [OF g1(1) b(2)])
      show "fmaps.rwf (b # mapped)" using Cons.prems(3,4) b(1) by (simp add: fmaps.rwf_Cons)
      show "fmaps.apart c d" if "c \<in> set bs" "d \<in> set (b # mapped)" for c d
        using that Cons.prems(4) b(3) by (auto dest: fmaps.apart_sym)
      show "RangeOk g1 (fb_backing_offset c) (fb_map_size c)" if "c \<in> set bs" for c
        using that Cons.prems(5) [of c] g1(2) by (simp add: RangeOk_def)
      show "mapped_view g1 a = Some Backing" if "fmaps.covered (b # mapped) a" for a
        using that Cons.prems(6) [of a] b1 by (auto simp: became_def)
    qed
    have nb: "\<And>a. fmaps.rcov b a \<Longrightarrow> \<not> fmaps.covered bs a" using covered_apart [OF b(3)] by blast
    have fr1: "(\<forall>a. fmaps.covered bs a \<longrightarrow> sp_at (gs_free g1) a) \<longleftrightarrow> (\<forall>a. fmaps.covered (b # bs) a \<longrightarrow> sp_at (gs_free g) a)"
    proof -
      have "sp_at (gs_free g1) a \<longleftrightarrow> \<not> fmaps.rcov b a \<and> sp_at (gs_free g) a" for a using b1 by (simp add: became_def)
      then show ?thesis using nb fr by auto
    qed
    have up: "became g (fmaps.covered (b # bs)) (Some Backing) (block_view (b # bs)) g'"
      if "became g1 (fmaps.covered bs) (Some Backing) (block_view bs) g'" for g'
      by (rule became_cong [OF became_trans [OF b1 that]]) (use nb in \<open>auto simp: fun_eq_iff block_view_Cons\<close>)
    have down: "became g (fmaps.covered mapped) None (\<lambda>_. None) g'"
      if "became g1 (fmaps.covered (b # mapped)) None (\<lambda>_. None) g'" for g'
      by (rule became_undo [OF Cons.prems(1) b1 _ fr nm])
        (use that in \<open>simp_all add: fmaps.covered_simps(2) [abs_def]\<close>)
    show ?thesis
    proof (cases "map_blocks host zero bs (b # mapped) g1")
      case Exit
      then show ?thesis using IH unfolding st by simp
    next
      case (Done p)
      obtain ok g2 where p: "p = (ok, g2)" by fastforce
      show ?thesis using IH up down unfolding st Done p outcome.case prod.case fr1 by (cases ok) simp_all
    qed
  qed
qed

section \<open>The invariant\<close>

definition flex_view :: "flexible_memory \<Rightarrow> u64 \<Rightarrow> fm_block option" where
  "flex_view fm a = map_option (\<lambda>b. block_attr b a)
     (find (\<lambda>b. fb_map_vaddr b \<le> a \<and> a < fb_end b) (fm_allocated fm))"

lemma flex_view_look: "flex_view fm = fmaps.look (fm_allocated fm)"
  by (simp add: fun_eq_iff flex_view_def fmaps.look_def fmaps.rcov_def in_range_def fb_end_def)

definition flex_ok :: "u64 \<Rightarrow> flexible_memory \<Rightarrow> guest \<Rightarrow> bool" where
  "flex_ok flexible fm g \<longleftrightarrow> separate (fm_free fm) \<and> fmaps.rwf (fm_allocated fm) \<and>
     sorted (map fb_map_vaddr (fm_allocated fm)) \<and> fback.rwf (fm_allocated fm) \<and>
     (\<forall>p. sp_at (fm_free fm) p \<longrightarrow> \<not> fback.covered (fm_allocated fm) p) \<and>
     (\<forall>p. sp_at (fm_free fm) p \<or> fback.covered (fm_allocated fm) p \<longrightarrow> p < gb_size g) \<and>
     card {p. sp_at (fm_free fm) p} + unat (fm_total fm) = unat flexible \<and>
     card {a. fmaps.covered (fm_allocated fm) a} = unat (fm_total fm) \<and>
     (\<forall>a. fmaps.covered (fm_allocated fm) a \<longrightarrow>
        map_option fst (backing_view g a) = map_option fb_backing_offset (flex_view fm a))"

lemma flex_okD:
  assumes "flex_ok flexible fm g"
  shows "separate (fm_free fm)" "fmaps.rwf (fm_allocated fm)" "sorted (map fb_map_vaddr (fm_allocated fm))"
    "fback.rwf (fm_allocated fm)" "sp_at (fm_free fm) p \<Longrightarrow> \<not> fback.covered (fm_allocated fm) p"
    "sp_at (fm_free fm) p \<or> fback.covered (fm_allocated fm) p \<Longrightarrow> p < gb_size g"
    "card {p. sp_at (fm_free fm) p} + unat (fm_total fm) = unat flexible"
    "card {a. fmaps.covered (fm_allocated fm) a} = unat (fm_total fm)"
    "fmaps.covered (fm_allocated fm) a \<Longrightarrow>
       map_option fst (backing_view g a) = map_option fb_backing_offset (flex_view fm a)"
  using assms by (auto simp: flex_ok_def)

lemma flex_mapped:
  assumes "guest_ok g" "flex_ok flexible fm g" "fmaps.covered (fm_allocated fm) a"
  shows "mapped_view g a = Some Backing" "\<not> sp_at (gs_free g) a"
proof -
  have "flex_view fm a \<noteq> None" using assms(3) by (simp only: flex_view_look fmaps.look_covered)
  then have "backing_view g a \<noteq> None" using flex_okD(9) [OF assms(2,3)] by auto
  then show "mapped_view g a = Some Backing" using guest_okD(6) [OF assms(1)] by blast
  then show "\<not> sp_at (gs_free g) a" using guest_okD(4) [OF assms(1), of a] by auto
qed

lemma flex_unchanged:
  assumes "flex_ok flexible fm g" "unchanged g g'"
  shows "flex_ok flexible fm g'"
  using assms unfolding flex_ok_def unchanged_def by simp

lemma RangeOk_points:
  assumes "fits s z" "z \<noteq> 0" "\<And>p. in_range s z p \<Longrightarrow> p < gb_size g"
  shows "RangeOk g s z"
proof -
  have lt: "s < s + z" using assms(1,2) by (rule fits_less)
  then have s: "s < gb_size g" using assms(3) [of s] by (simp add: in_range_def)
  have "s + z - 1 < gb_size g"
  proof (rule assms(3))
    have "unat (s + z - 1) = unat (s + z) - 1" using lt by (intro unat_minus_one) auto
    then show "in_range s z (s + z - 1)" using lt by (auto simp: in_range_def word_less_nat_alt word_le_nat_alt)
  qed
  moreover have "unat (s + z - 1) = unat (s + z) - 1" using lt by (intro unat_minus_one) auto
  ultimately have "s + z \<le> gb_size g" using lt by (simp add: word_less_nat_alt word_le_nat_alt)
  then have "z \<le> gb_size g - s" using size_le_room [of s "gb_size g" z] s assms(1) by (simp add: less_imp_le)
  then show ?thesis using s assms(2) by (simp add: RangeOk_def)
qed

section \<open>Map and Restore\<close>

text \<open>Adding mapped blocks, taken from free backing, keeps the invariant.\<close>

lemma flex_add:
  assumes g: "guest_ok g" and fx: "flex_ok flexible fm g"
    and bs: "fmaps.rwf bs" "fback.rwf bs" "\<And>p. fback.covered bs p \<Longrightarrow> sp_at (fm_free fm) p"
    and fr: "\<And>a. fmaps.covered bs a \<Longrightarrow> sp_at (gs_free g) a"
    and free: "separate free" "\<And>p. sp_at free p \<longleftrightarrow> sp_at (fm_free fm) p \<and> \<not> fback.covered bs p"
    and tot: "unat tot = unat (fm_total fm) + card {a. fmaps.covered bs a}"
    and g': "became g (fmaps.covered bs) (Some Backing) (block_view bs) g'"
  defines "fm' \<equiv> \<lparr>fm_allocated = sort_key fb_map_vaddr (fm_allocated fm @ bs), fm_free = free, fm_total = tot\<rparr>"
  shows "flex_ok flexible fm' g'" "guest_ok g'"
    and "flex_view fm' a = (if fmaps.covered bs a then fmaps.look bs a else flex_view fm a)"
proof -
  let ?xs = "fm_allocated fm"
  note F = flex_okD [OF fx]
  have vx: "\<not> (fmaps.covered ?xs a \<and> fmaps.covered bs a)" for a using flex_mapped(2) [OF g fx] fr by blast
  have px: "\<not> (fback.covered ?xs p \<and> fback.covered bs p)" for p using F(5) bs(3) by blast
  have w1: "fmaps.rwf (?xs @ bs)" using F(2) bs(1) vx by (auto simp: fmaps.rwf_append fmaps.apart_def fmaps.covered_def)
  have w2: "fback.rwf (?xs @ bs)" using F(4) bs(2) px by (auto simp: fback.rwf_append fback.apart_def fback.covered_def)
  have cs: "fmaps.covered (sort_key f (?xs @ bs)) = fmaps.covered (?xs @ bs)"
    "fback.covered (sort_key f (?xs @ bs)) = fback.covered (?xs @ bs)" for f :: "fm_block \<Rightarrow> u64"
    by (auto simp: fmaps.covered_def fback.covered_def fun_eq_iff)
  have lk: "fmaps.look (sort_key f (?xs @ bs)) = fmaps.look (?xs @ bs)" for f :: "fm_block \<Rightarrow> u64"
    by (rule fmaps.look_same_set [OF fmaps.rwf_sort [OF w1] w1]) simp
  show v: "flex_view fm' a = (if fmaps.covered bs a then fmaps.look bs a else flex_view fm a)" for a
  proof (cases "fmaps.covered bs a")
    case True
    then have "fmaps.look ?xs a = None" using vx [of a] fmaps.look_covered by blast
    then show ?thesis using True by (simp add: flex_view_look fm'_def lk fmaps.look_append)
  next
    case False
    then have "fmaps.look bs a = None" using fmaps.look_covered by blast
    then show ?thesis using False by (simp add: flex_view_look fm'_def lk fmaps.look_append split: option.split)
  qed
  show "guest_ok g'" using g' by (simp add: became_def)
  have gz: "gb_size g' = gb_size g" using g' by (simp add: became_def)
  have cf: "card {p. sp_at (fm_free fm) p} = card {p. sp_at free p} + card {a. fmaps.covered bs a}"
  proof -
    have "{p. sp_at (fm_free fm) p} = {p. sp_at free p} \<union> {p. fback.covered bs p}" using free(2) bs(3) by auto
    moreover have "{p. sp_at free p} \<inter> {p. fback.covered bs p} = {}" using free(2) by auto
    ultimately show ?thesis
      using fmaps.covered_card [OF bs(1)] fback.covered_card [OF bs(2)] by (simp add: card_Un_disjoint)
  qed
  have ca: "card {a. fmaps.covered ?xs a \<or> fmaps.covered bs a} = card {a. fmaps.covered ?xs a} + card {a. fmaps.covered bs a}"
  proof -
    have "{a. fmaps.covered ?xs a \<or> fmaps.covered bs a} = {a. fmaps.covered ?xs a} \<union> {a. fmaps.covered bs a}" by auto
    moreover have "{a. fmaps.covered ?xs a} \<inter> {a. fmaps.covered bs a} = {}" using vx by auto
    ultimately show ?thesis by (simp add: card_Un_disjoint)
  qed
  have bv: "map_option fst (backing_view g' a) = map_option fb_backing_offset (flex_view fm' a)"
    if "fmaps.covered ?xs a \<or> fmaps.covered bs a" for a
  proof (cases "fmaps.covered bs a")
    case True
    then show ?thesis using g' v [of a] by (simp add: became_def block_view_def option.map_comp comp_def)
  next
    case False
    then show ?thesis using g' v [of a] that F(9) [of a] by (simp add: became_def)
  qed
  show "flex_ok flexible fm' g'"
    unfolding flex_ok_def
  proof (intro conjI allI impI)
    show "fmaps.rwf (fm_allocated fm')" "fback.rwf (fm_allocated fm')"
      unfolding fm'_def by (simp_all add: fmaps.rwf_sort [OF w1] fback.rwf_sort [OF w2] del: sort_key_simps)
    show "sorted (map fb_map_vaddr (fm_allocated fm'))" by (simp add: fm'_def)
    show "separate (fm_free fm')" using free(1) by (simp add: fm'_def)
    fix p assume "sp_at (fm_free fm') p"
    then show "\<not> fback.covered (fm_allocated fm') p" using free(2) F(5) by (simp add: fm'_def cs)
  next
    fix p assume "sp_at (fm_free fm') p \<or> fback.covered (fm_allocated fm') p"
    then show "p < gb_size g'" using free(2) F(6) bs(3) by (auto simp: fm'_def cs gz)
  next
    show "card {p. sp_at (fm_free fm') p} + unat (fm_total fm') = unat flexible"
      using cf F(7) tot by (simp add: fm'_def)
    show "card {a. fmaps.covered (fm_allocated fm') a} = unat (fm_total fm')"
      using ca F(8) tot by (simp add: fm'_def cs)
    fix a assume "fmaps.covered (fm_allocated fm') a"
    then show "map_option fst (backing_view g' a) = map_option fb_backing_offset (flex_view fm' a)"
      using bv by (simp add: fm'_def cs)
  qed
qed

lemma flex_total:
  assumes "flex_ok flexible fm g"
  shows "fm_total fm \<le> flexible" "unat (flexible - fm_total fm) = card {p. sp_at (fm_free fm) p}"
    "fm_Available flexible fm = flexible - fm_total fm"
proof -
  show t: "fm_total fm \<le> flexible" using flex_okD(7) [OF assms] by (simp add: word_le_nat_alt)
  then show "unat (flexible - fm_total fm) = card {p. sp_at (fm_free fm) p}"
    using flex_okD(7) [OF assms] by (simp add: unat_sub)
  show "fm_Available flexible fm = flexible - fm_total fm" using t by (simp add: fm_Available_def)
qed

lemma range_ok_blocks:
  assumes fx: "flex_ok flexible fm g" and w: "fback.rwf bs" and f: "\<And>p. fback.covered bs p \<Longrightarrow> sp_at (fm_free fm) p" and b: "b \<in> set bs"
  shows "RangeOk g (fb_backing_offset b) (fb_map_size b)"
proof -
  note sp = fback_span [OF fback.rok_in [OF w b]]
  have "p < gb_size g" if "in_range (fb_backing_offset b) (fb_map_size b) p" for p
    using flex_okD(6) [OF fx, of p] f [of p] b that unfolding sp(3) [symmetric] by (auto simp: fback.covered_def)
  then show ?thesis by (rule RangeOk_points [OF sp(1,2)])
qed

lemma covered_none: "fmaps.covered [] = (\<lambda>_. False)"
  by (simp add: fun_eq_iff)

definition map_fields :: "fm_block \<Rightarrow> i32 \<times> host_mode \<times> gpu_mode \<times> string" where
  "map_fields b = (fb_prot b, fb_mode b, fb_gpu_mode b, fb_name b)"

lemma fm_Map_props:
  assumes g: "guest_ok g" and fx: "flex_ok flexible fm g" and f: "fits v len"
  shows "case fm_Map host flexible fm g v len prot mode gpu name of Exit \<Rightarrow> \<not> (\<forall>n. host n)
    | Done (ok, fm', g') \<Rightarrow> guest_ok g' \<and> flex_ok flexible fm' g' \<and>
        (if ok then (\<exists>bv. became g (in_range v len) (Some Backing) bv g') \<and> fm_total fm' = fm_total fm + len \<and>
            (\<forall>a. if in_range v len a
              then map_option map_fields (flex_view fm' a) = Some (prot, mode, gpu, CopyVirtualRangeName name)
              else flex_view fm' a = flex_view fm a)
         else fm' = fm \<and> unchanged g g') \<and>
        ((\<forall>n. host n) \<longrightarrow> (ok \<longleftrightarrow> len \<noteq> 0 \<and> len \<le> fm_Available flexible fm \<and>
           (\<forall>a. in_range v len a \<longrightarrow> sp_at (gs_free g) a)))"
proof -
  note F = flex_okD [OF fx] and T = flex_total [OF fx]
  let ?X = "fm_Map host flexible fm g v len prot mode gpu name"
  show ?thesis
  proof (cases "len = 0 \<or> fm_Available flexible fm < len")
    case True
    then have "?X = Done (False, fm, g)" by (auto simp: fm_Map_def Let_def fm_Available_def)
    then show ?thesis using True g fx by (auto simp: unchanged_refl)
  next
    case False
    define tmpl where "tmpl = \<lparr>fb_map_vaddr = 0, fb_map_size = 0, fb_backing_offset = 0, fb_host_vaddr = v,
      fb_host_size = len, fb_prot = prot, fb_mode = mode, fb_gpu_mode = gpu, fb_name = CopyVirtualRangeName name\<rparr>"
    obtain bs r where mc: "map_chunks tmpl v len (fm_free fm) = (bs, r)" by fastforce
    have MC: "unat r = unat len - sum_list (map (unat \<circ> snd) (fm_free fm))" "fmaps.rwf bs"
      "\<And>a. fmaps.covered bs a \<longleftrightarrow> in_range v (len - r) a" "fback.rwf bs"
      "\<And>p. fback.covered bs p \<Longrightarrow> sp_at (fm_free fm) p"
      "\<forall>b \<in> set bs. \<exists>v z o'. b = tmpl\<lparr>fb_map_vaddr := v, fb_map_size := z, fb_backing_offset := o'\<rparr>"
      using map_chunks_props [OF F(1) f mc] by blast+
    have "unat len \<le> sum_list (map (unat \<circ> snd) (fm_free fm))"
      using False T card_disjoint [OF separate_disjoint [OF F(1)]] by (simp add: word_le_nat_alt not_less)
    then have r: "r = 0" using MC(1) by (simp add: unat_eq_0)
    have cov: "fmaps.covered bs = in_range v len" using MC(3) by (simp add: r fun_eq_iff)
    have st: "?X = obind (map_blocks host True bs [] g) (\<lambda>(ok, g').
               if \<not> ok then Done (False, fm, g')
               else obind (consume_blocks True bs (fm_free fm)) (\<lambda>free.
                 Done (True, \<lparr>fm_allocated = sort_key fb_map_vaddr (fm_allocated fm @ bs), fm_free = free,
                    fm_total = fm_total fm + len\<rparr>, g')))"
      using False mc r by (simp add: fm_Map_def Let_def fm_Available_def tmpl_def [symmetric])
    have MB: "case map_blocks host True bs [] g of Exit \<Rightarrow> \<not> (\<forall>n. host n)
      | Done (ok, g') \<Rightarrow>
        if ok then became g (fmaps.covered bs) (Some Backing) (block_view bs) g' \<and>
          (\<forall>a. fmaps.covered bs a \<longrightarrow> sp_at (gs_free g) a)
        else became g (fmaps.covered []) None (\<lambda>_. None) g' \<and>
          \<not> ((\<forall>n. host n) \<and> (\<forall>a. fmaps.covered bs a \<longrightarrow> sp_at (gs_free g) a))"
      by (rule map_blocks_props [OF g MC(2)]) (use range_ok_blocks [OF fx MC(4,5)] in simp_all)
    show ?thesis
    proof (cases "map_blocks host True bs [] g")
      case Exit
      then show ?thesis using MB unfolding st by simp
    next
      case (Done q)
      obtain ok g1 where q: "q = (ok, g1)" by fastforce
      show ?thesis
      proof (cases ok)
        case no: False
        have "unchanged g g1"
          using MB no unfolding Done q became_none [where t = None and bv = "\<lambda>_. None"]
          by (simp add: covered_none)
        moreover have "?X = Done (False, fm, g1)" unfolding st Done q by (simp add: no)
        moreover have "\<not> ((\<forall>n. host n) \<and> (\<forall>a. in_range v len a \<longrightarrow> sp_at (gs_free g) a))"
          using MB no unfolding Done q cov by simp
        ultimately show ?thesis using flex_unchanged [OF fx] by (auto simp: unchanged_def)
      next
        case yes: True
        have b1: "became g (fmaps.covered bs) (Some Backing) (block_view bs) g1"
          and fr: "\<And>a. fmaps.covered bs a \<Longrightarrow> sp_at (gs_free g) a"
          using MB yes unfolding Done q by auto
        obtain free where c: "consume_blocks True bs (fm_free fm) = Done free" "separate free"
          "\<And>p. sp_at free p \<longleftrightarrow> sp_at (fm_free fm) p \<and> \<not> fback.covered bs p"
          using consume_blocks_props [OF F(1) MC(4,5), of True] by blast
        let ?fm = "\<lparr>fm_allocated = sort_key fb_map_vaddr (fm_allocated fm @ bs), fm_free = free,
                    fm_total = fm_total fm + len\<rparr>"
        have X: "?X = Done (True, ?fm, g1)" unfolding st Done q by (simp add: yes c(1))
        have lc: "card {a. fmaps.covered bs a} = unat len" unfolding cov by (rule in_range_card(2) [OF f])
        have tot: "unat (fm_total fm + len) = unat (fm_total fm) + card {a. fmaps.covered bs a}"
        proof -
          have "unat (fm_total fm) + unat len \<le> unat flexible"
            using False T F(7) by (simp add: word_le_nat_alt not_less)
          then have "fits (fm_total fm) len" using u64_less [of flexible] by (simp add: fits_unat)
          then show ?thesis by (simp add: unat_add_fits lc)
        qed
        note A = flex_add [OF g fx MC(2,4,5) fr c(2,3) tot b1]
        have "map_option map_fields (flex_view ?fm a) = Some (prot, mode, gpu, CopyVirtualRangeName name)" if a: "in_range v len a" for a
        proof -
          have "fmaps.covered bs a" using a cov by simp
          then obtain b where b: "b \<in> set bs" "fmaps.rcov b a" by (auto simp: fmaps.covered_def)
          then have "flex_view ?fm a = Some (block_attr b a)"
            using A(3) [of a] fmaps.look_member [OF MC(2) b] by (auto simp: fmaps.covered_def)
          moreover have "map_fields (block_attr b a) = (prot, mode, gpu, CopyVirtualRangeName name)"
            using MC(6) b(1) by (auto simp: map_fields_def block_attr_def tmpl_def)
          ultimately show ?thesis by simp
        qed
        moreover have "flex_view ?fm a = flex_view fm a" if "\<not> in_range v len a" for a
          using A(3) [of a] that cov by simp
        moreover have "\<exists>bv. became g (in_range v len) (Some Backing) bv g1" using b1 cov by auto
        ultimately show ?thesis using X A(1,2) fr False unfolding cov by (auto simp: not_less)
      qed
    qed
  qed
qed

section \<open>Cutting blocks\<close>

text \<open>The pieces that an operation makes of a block, read in the backing store.\<close>

lemma cuts_back:
  assumes b: "fmaps.rok b" "fback.rok b" and m: "fb_map_vaddr b \<le> m" "m < e" "e \<le> fmaps.rend b"
    and mid: "mid = [] \<or> (\<exists>c. mid = [c] \<and> fb_map_size c = e - m \<and>
      fb_backing_offset c = fb_backing_offset b + (m - fb_map_vaddr b))"
  defines "ps \<equiv> fmaps.before_span m b @ mid @ fmaps.after_span e b"
  shows "fback.rwf ps" "\<forall>p \<in> set ps. fback.within b p"
    "fback.covered ps p \<longleftrightarrow> fback.rcov b p \<and> (mid \<noteq> [] \<or> \<not> (m \<le> back_attr b p \<and> back_attr b p < e))"
proof -
  let ?v = "fb_map_vaddr b"
  have me: "m \<le> fmaps.rend b" "?v \<le> e" using m by (auto intro: order.strict_trans1 less_imp_le order_trans)
  note B = block_cut_back [OF b]
  have vb: "fback.rcov b p \<Longrightarrow> ?v \<le> back_attr b p \<and> back_attr b p < fmaps.rend b" for p
    using block_cut_back(3) [OF b m] by (simp add: fmaps.rcov_iff)
  have L: "fback.rok q \<and> (\<forall>p. fback.rcov q p \<longleftrightarrow> fback.rcov b p \<and> back_attr b p < m)" if "q \<in> set (fmaps.before_span m b)" for q
    using that B(1,2) [OF order_refl, of m] vb me(1) by (auto simp: fmaps.before_span_def split: if_splits)
  have R: "fback.rok q \<and> (\<forall>p. fback.rcov q p \<longleftrightarrow> fback.rcov b p \<and> e \<le> back_attr b p)" if "q \<in> set (fmaps.after_span e b)" for q
    using that B(1,2) [OF me(2) _ order_refl] vb by (auto simp: fmaps.after_span_def split: if_splits)
  have M: "fback.rok q \<and> (\<forall>p. fback.rcov q p \<longleftrightarrow> fback.rcov b p \<and> m \<le> back_attr b p \<and> back_attr b p < e)" if "q \<in> set mid" for q
  proof -
    have "fb_map_size q = e - m" "fb_backing_offset q = fb_backing_offset b + (m - ?v)" using mid that by auto
    then have "fback.rok q = fback.rok (block_cut m e b)" "fback.rcov q = fback.rcov (block_cut m e b)"
      by (simp_all add: fback.rok_def fback.rcov_def block_cut_def fun_eq_iff)
    then show ?thesis using B(1,2) [OF m] by auto
  qed
  have ml: "length (fmaps.before_span m b) \<le> 1" "length mid \<le> 1" "length (fmaps.after_span e b) \<le> 1"
    using mid by (auto simp: fmaps.before_span_def fmaps.after_span_def)
  have one: "fback.rwf xs" if "length xs \<le> 1" "\<And>x. x \<in> set xs \<Longrightarrow> fback.rok x" for xs
    using that by (cases xs) (auto simp: fback.rwf_Cons)
  have w: "fback.rwf (fmaps.before_span m b)" "fback.rwf mid" "fback.rwf (fmaps.after_span e b)"
    using one [OF ml(1)] one [OF ml(2)] one [OF ml(3)] L M R by blast+
  have lo: "back_attr b p < m" if "x \<in> set (fmaps.before_span m b)" "fback.rcov x p" for x p
    using L [OF that(1)] that(2) by blast
  have mi: "m \<le> back_attr b p \<and> back_attr b p < e" if "x \<in> set mid" "fback.rcov x p" for x p
    using M [OF that(1)] that(2) by blast
  have hi: "e \<le> back_attr b p" if "x \<in> set (fmaps.after_span e b)" "fback.rcov x p" for x p
    using R [OF that(1)] that(2) by blast
  have ap: "fback.apart x y" if x: "x \<in> set (fmaps.before_span m b)" and y: "y \<in> set mid \<union> set (fmaps.after_span e b)" for x y
    unfolding fback.apart_def
  proof (intro allI notI, elim conjE)
    fix p assume p: "fback.rcov x p" "fback.rcov y p"
    have "m \<le> back_attr b p"
      using y mi [OF _ p(2)] hi [OF _ p(2)] m(2) by (blast intro: order_trans less_imp_le)
    then show False using lo [OF x p(1)] by (meson leD)
  qed
  have ap2: "fback.apart x y" if x: "x \<in> set mid" and y: "y \<in> set (fmaps.after_span e b)" for x y
    unfolding fback.apart_def using mi [OF x] hi [OF y] by (meson leD)
  show "fback.rwf ps" using w ap ap2 unfolding ps_def by (auto simp: fback.rwf_append)
  show "\<forall>p \<in> set ps. fback.within b p" using L M R unfolding ps_def by (auto simp: fback.within_def)
  have l: "fback.covered (fmaps.before_span m b) p \<longleftrightarrow> fback.rcov b p \<and> back_attr b p < m"
  proof (cases "?v < m")
    case True
    then have "fmaps.before_span m b \<noteq> []" by (simp add: fmaps.before_span_def)
    then obtain q where "q \<in> set (fmaps.before_span m b)" by (cases "fmaps.before_span m b") auto
    then show ?thesis using L by (auto simp: fback.covered_def)
  next
    case False
    then show ?thesis using vb [of p] by (auto simp: fmaps.before_span_def)
  qed
  have r: "fback.covered (fmaps.after_span e b) p \<longleftrightarrow> fback.rcov b p \<and> e \<le> back_attr b p"
  proof (cases "e < fmaps.rend b")
    case True
    then have "fmaps.after_span e b \<noteq> []" by (simp add: fmaps.after_span_def)
    then obtain q where "q \<in> set (fmaps.after_span e b)" by (cases "fmaps.after_span e b") auto
    then show ?thesis using R by (auto simp: fback.covered_def)
  next
    case False
    then show ?thesis using vb [of p] by (auto simp: fmaps.after_span_def)
  qed
  have mm: "fback.covered mid p \<longleftrightarrow> mid \<noteq> [] \<and> fback.rcov b p \<and> m \<le> back_attr b p \<and> back_attr b p < e"
    using M by (cases mid) (auto simp: fback.covered_def)
  show "fback.covered ps p \<longleftrightarrow> fback.rcov b p \<and> (mid \<noteq> [] \<or> \<not> (m \<le> back_attr b p \<and> back_attr b p < e))"
    unfolding ps_def fback.covered_simps l r mm by (auto simp: not_le not_less)
qed

lemma overlap_block:
  assumes b: "fmaps.rok b" and f: "fits v z" "z \<noteq> 0"
  shows "VirtualRangesOverlap v z (fb_map_vaddr b) (fb_map_size b) \<longleftrightarrow> v < fb_end b \<and> fb_map_vaddr b < v + z"
  using overlap_span [OF f fmaps_span(1,2) [OF b]] by (simp add: fb_end_def)

lemma cut_whole: "block_cut (fb_map_vaddr b) t b = b\<lparr>fb_map_size := t - fb_map_vaddr b\<rparr>"
  by (simp add: block_cut_def)

lemma unmap_block_props:
  assumes b: "fmaps.rok b" "fback.rok b" and f: "fits v z" "z \<noteq> 0"
  defines "ps \<equiv> fst (unmap_block v z b)"
  shows "fmaps.rwf ps" "sorted (map fb_map_vaddr ps)" "\<forall>p \<in> set ps. fmaps.within b p"
    "fmaps.rcov b a \<Longrightarrow> fmaps.look ps a = (if in_range v z a then None else Some (block_attr b a))"
    "fback.rwf ps" "\<forall>p \<in> set ps. fback.within b p"
    "fback.covered ps p \<longleftrightarrow> fback.rcov b p \<and> \<not> in_range v z (back_attr b p)"
    "case snd (unmap_block v z b) of None \<Rightarrow> \<forall>a. fmaps.rcov b a \<longrightarrow> \<not> in_range v z a
     | Some (o', n) \<Rightarrow> fits o' n \<and> n \<noteq> 0 \<and> unat n = card {a. fmaps.rcov b a \<and> in_range v z a} \<and>
         (\<forall>p. in_range o' n p \<longleftrightarrow> fback.rcov b p \<and> in_range v z (back_attr b p))"
proof -
  have lt: "v < v + z" "fb_map_vaddr b < fb_end b"
    using fits_less [OF f] fmaps.rok_less [OF b(1)] by (auto simp: fb_end_rend)
  note ov = overlap_block [OF b(1) f]
  have vb: "fback.rcov b p \<Longrightarrow> fmaps.rcov b (back_attr b p)" for p
    using block_cut_back(3) [OF b order_refl fmaps.rok_less [OF b(1)] order_refl] .
  have "fmaps.rwf ps \<and> sorted (map fb_map_vaddr ps) \<and> (\<forall>p \<in> set ps. fmaps.within b p) \<and>
    (fmaps.rcov b a \<longrightarrow> fmaps.look ps a = (if in_range v z a then None else Some (block_attr b a))) \<and>
    fback.rwf ps \<and> (\<forall>p \<in> set ps. fback.within b p) \<and>
    (fback.covered ps p \<longleftrightarrow> fback.rcov b p \<and> \<not> in_range v z (back_attr b p)) \<and>
    (case snd (unmap_block v z b) of None \<Rightarrow> \<forall>a. fmaps.rcov b a \<longrightarrow> \<not> in_range v z a
     | Some (o', n) \<Rightarrow> fits o' n \<and> n \<noteq> 0 \<and> unat n = card {a. fmaps.rcov b a \<and> in_range v z a} \<and>
         (\<forall>p. in_range o' n p \<longleftrightarrow> fback.rcov b p \<and> in_range v z (back_attr b p)))"
  proof (cases "VirtualRangesOverlap v z (fb_map_vaddr b) (fb_map_size b)")
    case False
    then have no: "in_range v z x \<Longrightarrow> \<not> fmaps.rcov b x" for x
      using ov by (auto simp: in_range_def fmaps.rcov_iff fb_end_rend)
    have u: "unmap_block v z b = ([b], None)" using False by (simp add: unmap_block_def)
    show ?thesis
      unfolding ps_def u using no b vb
      by (auto simp: fmaps.rwf_Cons fback.rwf_Cons fmaps.within_def fback.within_def fmaps.look_Cons)
  next
    case True
    define m where "m = max v (fb_map_vaddr b)"
    define e where "e = min (v + z) (fb_end b)"
    have c: "fb_map_vaddr b \<le> m" "m < e" "e \<le> fmaps.rend b"
      "fmaps.rcov b x \<Longrightarrow> m \<le> x \<and> x < e \<longleftrightarrow> in_range v z x" for x
      using cut_points [of v "fb_end b" "fb_map_vaddr b" "v + z"] True lt ov
      by (auto simp: m_def e_def in_range_def fmaps.rcov_iff fb_end_rend)
    have ps: "ps = fmaps.before_span m b @ [] @ fmaps.after_span e b"
      "snd (unmap_block v z b) = Some (fb_backing_offset b + m - fb_map_vaddr b, e - m)"
      using True unfolding ps_def
      by (simp_all add: unmap_block_def Let_def fmaps.before_span_def fmaps.after_span_def cut_whole block_cut_def
          add_diff_eq flip: m_def e_def fb_end_rend)
    note P = fmaps.pieces_props [OF b(1) c(1-3)]
    note Q = cuts_back [OF b c(1-3), of "[]", folded ps(1)]
    let ?c = "block_cut m e b"
    note C = block_cut_back [OF b c(1-3)]
    have fc: "fits (fb_backing_offset ?c) (fb_map_size ?c)" "fb_map_size ?c \<noteq> 0"
      using C(1) by (auto simp: fback.rok_def)
    have co: "fb_backing_offset ?c = fb_backing_offset b + m - fb_map_vaddr b" "fb_map_size ?c = e - m"
      by (simp_all add: block_cut_def add_diff_eq)
    have cn: "unat (e - m) = card {x. fmaps.rcov b x \<and> in_range v z x}"
    proof -
      have "m \<le> x \<and> x < e \<Longrightarrow> fmaps.rcov b x" for x
        using c(1,3) unfolding fmaps.rcov_iff by (blast intro: order_trans order.strict_trans2)
      moreover have "in_range m (e - m) x \<longleftrightarrow> m \<le> x \<and> x < e" for x by (simp add: in_range_def)
      ultimately have "{x. fmaps.rcov b x \<and> in_range v z x} = {x. in_range m (e - m) x}"
        using c(4) by blast
      then show ?thesis using in_range_card(2) [OF fits_diff, of m e] c(2) by simp
    qed
    have "sorted (map fb_map_vaddr ps)"
      using c by (auto simp: ps(1) fmaps.before_span_def fmaps.after_span_def block_cut_def)
    moreover have "in_range (fb_backing_offset b + m - fb_map_vaddr b) (e - m) p \<longleftrightarrow> fback.rcov b p \<and> in_range v z (back_attr b p)" for p
      using C(2) [of p] c(4) vb unfolding fback.rcov_def [of ?c] co by blast
    moreover have "fback.covered ps p \<longleftrightarrow> fback.rcov b p \<and> \<not> in_range v z (back_attr b p)"
      using Q(3) [of p] c(4) [OF vb, of p] by blast
    moreover have "fmaps.look ps a = (if in_range v z a then None else Some (block_attr b a))" if "fmaps.rcov b a"
      using P(3) [OF that] c(4) [OF that] by (simp add: ps(1))
    moreover have "fmaps.rwf ps" "\<forall>p \<in> set ps. fmaps.within b p" using P(1,2) by (simp_all add: ps(1))
    moreover have "fback.rwf ps" "\<forall>p \<in> set ps. fback.within b p" using Q(1,2) by blast+
    ultimately show ?thesis using fc cn unfolding co ps(2) by simp
  qed
  then show "fmaps.rwf ps" "sorted (map fb_map_vaddr ps)" "\<forall>p \<in> set ps. fmaps.within b p"
    "fmaps.rcov b a \<Longrightarrow> fmaps.look ps a = (if in_range v z a then None else Some (block_attr b a))"
    "fback.rwf ps" "\<forall>p \<in> set ps. fback.within b p"
    "fback.covered ps p \<longleftrightarrow> fback.rcov b p \<and> \<not> in_range v z (back_attr b p)"
    "case snd (unmap_block v z b) of None \<Rightarrow> \<forall>a. fmaps.rcov b a \<longrightarrow> \<not> in_range v z a
     | Some (o', n) \<Rightarrow> fits o' n \<and> n \<noteq> 0 \<and> unat n = card {a. fmaps.rcov b a \<and> in_range v z a} \<and>
         (\<forall>p. in_range o' n p \<longleftrightarrow> fback.rcov b p \<and> in_range v z (back_attr b p))"
    by blast+
qed

section \<open>Unmap\<close>

text \<open>The backing bytes of the addresses in a span.\<close>

definition backing_of :: "u64 \<Rightarrow> u64 \<Rightarrow> fm_block list \<Rightarrow> u64 \<Rightarrow> bool" where
  "backing_of v z bs p \<longleftrightarrow> (\<exists>b \<in> set bs. fback.rcov b p \<and> in_range v z (back_attr b p))"

lemma unmap_blocks_props:
  assumes "fmaps.rwf bs" and "fback.rwf bs" and f: "fits v z" "z \<noteq> 0" and "separate free"
    and "unmap_blocks v z bs free removed = (rest, free', r)"
  shows "rest = concat (map (\<lambda>b. fst (unmap_block v z b)) bs) \<and> separate free' \<and>
    (\<forall>p. sp_at free' p \<longleftrightarrow> sp_at free p \<or> backing_of v z bs p) \<and>
    r = removed + of_nat (card {a. fmaps.covered bs a \<and> in_range v z a})"
  using assms(1,2,5,6)
proof (induction bs arbitrary: free removed rest free' r)
  case Nil
  then show ?case by (simp add: backing_of_def)
next
  case (Cons b bs)
  have b: "fmaps.rok b" "fback.rok b" "fmaps.rwf bs" "fback.rwf bs" "\<And>c. c \<in> set bs \<Longrightarrow> fmaps.apart b c"
    using Cons.prems(1,2) by (auto simp: fmaps.rwf_Cons fback.rwf_Cons)
  note U = unmap_block_props(8) [OF b(1,2) f]
  have fin: "finite {a. P a}" for P :: "u64 \<Rightarrow> bool" by simp
  have cc: "card {a. fmaps.covered (b # bs) a \<and> in_range v z a} =
      card {a. fmaps.rcov b a \<and> in_range v z a} + card {a. fmaps.covered bs a \<and> in_range v z a}"
  proof -
    have "{a. fmaps.covered (b # bs) a \<and> in_range v z a} =
      {a. fmaps.rcov b a \<and> in_range v z a} \<union> {a. fmaps.covered bs a \<and> in_range v z a}" by auto
    moreover have "{a. fmaps.rcov b a \<and> in_range v z a} \<inter> {a. fmaps.covered bs a \<and> in_range v z a} = {}"
      using covered_apart [OF b(5)] by auto
    ultimately show ?thesis by (simp add: card_Un_disjoint)
  qed
  obtain kept x where x: "unmap_block v z b = (kept, x)" by fastforce
  show ?case
  proof (cases x)
    case None
    obtain rest' f' r' where i: "unmap_blocks v z bs free removed = (rest', f', r')" by (metis prod_cases3)
    have eq: "rest = kept @ rest'" "free' = f'" "r = r'" using Cons.prems(4) x None i by auto
    have no: "\<forall>a. fmaps.rcov b a \<longrightarrow> \<not> in_range v z a" using U x None by simp
    then have "{a. fmaps.rcov b a \<and> in_range v z a} = {}" by auto
    then have c0: "card {a. fmaps.covered (b # bs) a \<and> in_range v z a} = card {a. fmaps.covered bs a \<and> in_range v z a}"
      unfolding cc by simp
    have "fback.rcov b p \<Longrightarrow> \<not> in_range v z (back_attr b p)" for p
      using no block_cut_back(3) [OF b(1,2) order_refl fmaps.rok_less [OF b(1)] order_refl] by blast
    then have "backing_of v z (b # bs) p \<longleftrightarrow> backing_of v z bs p" for p by (auto simp: backing_of_def)
    then show ?thesis using Cons.IH [OF b(3,4) Cons.prems(3) i] x unfolding eq c0 by simp
  next
    case (Some q)
    obtain o' n where q: "q = (o', n)" by fastforce
    have u: "fits o' n" "n \<noteq> 0" "unat n = card {a. fmaps.rcov b a \<and> in_range v z a}"
      "\<And>p. in_range o' n p \<longleftrightarrow> fback.rcov b p \<and> in_range v z (back_attr b p)"
      using U x Some q by auto
    note A = AddFreeRange_props [OF Cons.prems(3) u(1,2)]
    obtain rest' f' r' where i: "unmap_blocks v z bs (AddFreeRange o' n free) (removed + n) = (rest', f', r')"
      by (metis prod_cases3)
    have eq: "rest = kept @ rest'" "free' = f'" "r = r'" using Cons.prems(4) x Some q i by auto
    have I: "rest' = concat (map (\<lambda>b. fst (unmap_block v z b)) bs)" "separate f'"
      "\<And>p. sp_at f' p \<longleftrightarrow> sp_at (AddFreeRange o' n free) p \<or> backing_of v z bs p"
      "r' = removed + n + of_nat (card {a. fmaps.covered bs a \<and> in_range v z a})"
      using Cons.IH [OF b(3,4) A(1) i] by blast+
    have "n = of_nat (card {a. fmaps.rcov b a \<and> in_range v z a})" unfolding u(3) [symmetric] by simp
    then have "r' = removed + of_nat (card {a. fmaps.covered (b # bs) a \<and> in_range v z a})"
      unfolding I(4) cc of_nat_add by simp
    moreover have "sp_at f' p \<longleftrightarrow> sp_at free p \<or> backing_of v z (b # bs) p" for p
      using I(3) A(2) u(4) by (auto simp: backing_of_def)
    ultimately show ?thesis using I(1,2) x unfolding eq by simp
  qed
qed

lemma kept_props:
  assumes w: "fmaps.rwf bs" "fback.rwf bs" and f: "fits v z" "z \<noteq> 0"
  defines "rest \<equiv> concat (map (\<lambda>b. fst (unmap_block v z b)) bs)"
  shows "fmaps.rwf rest" "fback.rwf rest" "sorted (map fb_map_vaddr bs) \<Longrightarrow> sorted (map fb_map_vaddr rest)"
    and "fmaps.look rest a = (if in_range v z a then None else fmaps.look bs a)"
    and "fback.covered rest p \<longleftrightarrow> fback.covered bs p \<and> \<not> backing_of v z bs p"
proof -
  note P = unmap_block_props [OF fmaps.rok_in [OF w(1)] fback.rok_in [OF w(2)] f]
  show "fmaps.rwf rest" unfolding rest_def using P(1,3) by (intro fmaps.rwf_concat [OF w(1)]) blast
  show "fback.rwf rest" unfolding rest_def using P(5,6) by (intro fback.rwf_concat [OF w(2)]) blast
  show "sorted (map fb_map_vaddr rest)" if "sorted (map fb_map_vaddr bs)"
    unfolding rest_def using P(1,2,3) by (intro fmaps.sorted_pieces [OF w(1) that]) blast
  have "fmaps.look rest a = (case find (\<lambda>b. fmaps.rcov b a) bs of None \<Rightarrow> None | Some b \<Rightarrow> fmaps.look (fst (unmap_block v z b)) a)"
    unfolding rest_def using P(3) by (intro fmaps.look_concat [OF w(1)]) blast
  also have "\<dots> = (if in_range v z a then None else fmaps.look bs a)"
  proof (cases "find (\<lambda>b. fmaps.rcov b a) bs")
    case None
    then show ?thesis by (simp add: fmaps.look_def)
  next
    case (Some b)
    then have "b \<in> set bs" "fmaps.rcov b a" by (auto simp: find_Some_iff)
    then show ?thesis using P(4) [of b a] Some by (simp add: fmaps.look_def [of bs])
  qed
  finally show "fmaps.look rest a = (if in_range v z a then None else fmaps.look bs a)" .
  have "fback.covered rest p \<longleftrightarrow> (\<exists>b \<in> set bs. fback.rcov b p \<and> \<not> in_range v z (back_attr b p))"
    using P(7) by (auto simp: rest_def fback.covered_def)
  also have "\<dots> \<longleftrightarrow> fback.covered bs p \<and> \<not> backing_of v z bs p"
  proof -
    have "b = c" if b: "b \<in> set bs" and c: "c \<in> set bs" and bc: "fback.rcov b p" "fback.rcov c p" for b c
    proof (rule ccontr)
      assume ne: "b \<noteq> c"
      obtain us vs where bs: "bs = us @ b # vs" using split_list [OF b] by blast
      then have "c \<in> set us \<or> c \<in> set vs" using c ne by auto
      then have "fback.apart b c" using w(2) bs by (auto simp: fback.rwf_append fback.rwf_Cons dest: fback.apart_sym)
      then show False using bc by (auto simp: fback.apart_def)
    qed
    then show ?thesis by (auto simp: fback.covered_def backing_of_def)
  qed
  finally show "fback.covered rest p \<longleftrightarrow> fback.covered bs p \<and> \<not> backing_of v z bs p" .
qed

lemma cover_walk_props:
  assumes "fmaps.rwf bs" and "sorted (map fb_map_vaddr bs)" and "c < e" and "cover_walk e bs c f = (f', c')"
  shows "c \<le> c' \<and> c' \<le> e \<and> (\<forall>a. c \<le> a \<and> a < c' \<longrightarrow> fmaps.covered bs a) \<and> (c' < e \<longrightarrow> \<not> fmaps.covered bs c') \<and>
    (f' = None \<longleftrightarrow> f = None \<and> c' = c)"
  using assms
proof (induction bs arbitrary: c f)
  case Nil
  then show ?case by auto
next
  case (Cons b bs)
  have b: "fmaps.rok b" "fmaps.rwf bs" "sorted (map fb_map_vaddr bs)" using Cons.prems(1,2) by (auto simp: fmaps.rwf_Cons)
  have lt: "fb_map_vaddr b < fb_end b" using fmaps.rok_less [OF b(1)] by (simp add: fb_end_rend)
  have later: "fb_end b \<le> fb_map_vaddr c" if "c \<in> set bs" for c
    using fmaps.rwf_sorted_less [OF Cons.prems(1,2) that] by (simp add: fb_end_rend)
  have ncov: "\<not> fmaps.covered bs a" if "a < fb_end b" for a
    using later that by (auto simp: fmaps.covered_def fmaps.rcov_iff) (meson leD order_trans)
  have rc: "fmaps.rcov b a \<longleftrightarrow> fb_map_vaddr b \<le> a \<and> a < fb_end b" for a by (simp add: fmaps.rcov_iff fb_end_rend)
  consider (skip) "fb_end b \<le> c" | (stop) "c < fb_end b" "c < fb_map_vaddr b \<or> e \<le> fb_map_vaddr b"
    | (go) "fb_map_vaddr b \<le> c" "c < fb_end b"
    by (cases "fb_end b \<le> c"; cases "fb_map_vaddr b \<le> c") (auto simp: not_le)
  then show ?case
  proof cases
    case skip
    have "cover_walk e bs c f = (f', c')" using Cons.prems(4) skip by simp
    then have I: "c \<le> c' \<and> c' \<le> e \<and> (\<forall>a. c \<le> a \<and> a < c' \<longrightarrow> fmaps.covered bs a) \<and> (c' < e \<longrightarrow> \<not> fmaps.covered bs c') \<and>
      (f' = None \<longleftrightarrow> f = None \<and> c' = c)" by (rule Cons.IH [OF b(2,3) Cons.prems(3)])
    have "\<not> fmaps.rcov b c'" using skip I by (auto simp: rc)
    then show ?thesis using I by auto
  next
    case stop
    have "\<not> fb_end b \<le> c" using stop(1) by (simp add: not_le)
    then have r: "f' = f" "c' = c" using Cons.prems(4) stop(2) by simp_all
    have "c < fb_map_vaddr b" using stop(2) Cons.prems(3) by auto
    then have "\<not> fmaps.rcov b c" by (simp add: rc not_le)
    then show ?thesis using ncov [OF stop(1)] Cons.prems(3) unfolding r by auto
  next
    case go
    define n where "n = min e (fb_end b)"
    have n: "c < n" "n \<le> e" "n \<le> fb_end b" using go Cons.prems(3) by (auto simp: n_def)
    have in_b: "fmaps.covered (b # bs) a" if "c \<le> a" "a < n" for a
      using that go(1) n(3) by (auto simp: rc intro: order_trans order.strict_trans2)
    have ne: "\<not> fb_end b \<le> c" "\<not> (c < fb_map_vaddr b \<or> e \<le> fb_map_vaddr b)" using go Cons.prems(3) by auto
    define f1 where "f1 = (case f of None \<Rightarrow> Some (fb_gpu_mode b) | Some m \<Rightarrow> Some m)"
    have f1: "f1 \<noteq> None" by (simp add: f1_def split: option.split)
    have st: "cover_walk e (b # bs) c f = (if n = e then (f1, n) else cover_walk e bs n f1)"
      using ne by (simp add: n_def f1_def Let_def)
    show ?thesis
    proof (cases "n = e")
      case True
      then have "f' = f1" "c' = e" using Cons.prems(4) st by auto
      then show ?thesis using in_b True f1 Cons.prems(3) by auto
    next
      case False
      then have ne': "n < e" "n = fb_end b" using n(2) by (auto simp: n_def min_def split: if_splits)
      have "cover_walk e bs n f1 = (f', c')" using Cons.prems(4) st False by simp
      then have I: "n \<le> c' \<and> c' \<le> e \<and> (\<forall>a. n \<le> a \<and> a < c' \<longrightarrow> fmaps.covered bs a) \<and> (c' < e \<longrightarrow> \<not> fmaps.covered bs c') \<and>
        (f' = None \<longleftrightarrow> f1 = None \<and> c' = n)" by (rule Cons.IH [OF b(2,3) ne'(1)])
      have "\<not> fmaps.rcov b c'" using I ne'(2) by (auto simp: rc)
      moreover have "fmaps.covered (b # bs) a" if "c \<le> a" "a < c'" for a
        using in_b [OF that(1)] I that by (cases "a < n") (auto simp: not_less)
      ultimately show ?thesis using I f1 n(1) by auto
    qed
  qed
qed

lemma fm_Unmap_props:
  assumes g: "guest_ok g" and fx: "flex_ok flexible fm g"
  shows "case fm_Unmap host fm g v z of Exit \<Rightarrow> \<not> (\<forall>n. host n)
    | Done (ok, found, fm', g') \<Rightarrow> guest_ok g' \<and> flex_ok flexible fm' g' \<and>
        (if ok then became g (in_range v z) None (\<lambda>_. None) g' \<and> unat (fm_total fm') + unat z = unat (fm_total fm) \<and>
            (\<forall>a. flex_view fm' a = (if in_range v z a then None else flex_view fm a)) \<and>
            (\<forall>p. sp_at (fm_free fm') p \<longleftrightarrow> sp_at (fm_free fm) p \<or> backing_of v z (fm_allocated fm) p)
         else fm' = fm \<and> unchanged g g') \<and>
        (ok \<longrightarrow> z \<noteq> 0 \<and> fits v z \<and> (\<forall>a. in_range v z a \<longrightarrow> flex_view fm a \<noteq> None)) \<and>
        ((\<forall>n. host n) \<and> z \<noteq> 0 \<and> fits v z \<and> (\<forall>a. in_range v z a \<longrightarrow> flex_view fm a \<noteq> None) \<longrightarrow> ok)"
proof -
  note F = flex_okD [OF fx]
  let ?bs = "fm_allocated fm"
  have lc: "flex_view fm a \<noteq> None \<longleftrightarrow> fmaps.covered ?bs a" for a by (simp only: flex_view_look fmaps.look_covered)
  show ?thesis
  proof (cases "z = 0 \<or> \<not> fits v z")
    case True
    then have "fm_Unmap host fm g v z = Done (False, None, fm, g)" by (auto simp: fm_Unmap_def not_fits)
    then show ?thesis using True g fx by (auto simp: unchanged_refl)
  next
    case False
    then have f: "fits v z" "z \<noteq> 0" by auto
    obtain found c' where cw: "cover_walk (v + z) ?bs v None = (found, c')" by fastforce
    note W = cover_walk_props [OF F(2,3) fits_less [OF f] cw]
    have cov: "(found \<noteq> None \<and> c' = v + z) \<longleftrightarrow> (\<forall>a. in_range v z a \<longrightarrow> fmaps.covered ?bs a)"
    proof
      assume "found \<noteq> None \<and> c' = v + z"
      then show "\<forall>a. in_range v z a \<longrightarrow> fmaps.covered ?bs a" using W by (simp add: in_range_def)
    next
      assume a: "\<forall>a. in_range v z a \<longrightarrow> fmaps.covered ?bs a"
      have "\<not> c' < v + z"
      proof
        assume "c' < v + z"
        then have "fmaps.covered ?bs c'" using a W unfolding in_range_def by blast
        then show False using W \<open>c' < v + z\<close> by blast
      qed
      then have "c' = v + z" using W by (simp add: order.order_iff_strict)
      moreover have "c' \<noteq> v" using calculation fits_less [OF f] by auto
      ultimately show "found \<noteq> None \<and> c' = v + z" using W by simp
    qed
    show ?thesis
    proof (cases "\<forall>a. in_range v z a \<longrightarrow> fmaps.covered ?bs a")
      case no: False
      then have "found = None \<or> c' \<noteq> v + z" using cov by blast
      then have "fm_Unmap host fm g v z = Done (False, found, fm, g)" using f cw by (auto simp: fm_Unmap_def not_fits)
      then show ?thesis using no g fx lc by (auto simp: unchanged_refl)
    next
      case all: True
      then have fd: "found \<noteq> None" "c' = v + z" using cov by auto
      have mb: "\<forall>a. in_range v z a \<longrightarrow> mapped_view g a = Some Backing" using all flex_mapped(1) [OF g fx] by blast
      note U = gs_UnmapBacking_props [OF g, where host = host and v = v and z = z]
      have st: "fm_Unmap host fm g v z = obind (gs_UnmapBacking host g v z) (\<lambda>(ok, g').
            if \<not> ok then Done (False, found, fm, g')
            else
              let (remaining, free, removed) = unmap_blocks v z ?bs (fm_free fm) 0
              in if removed \<noteq> z \<or> fm_total fm < removed then Exit
                 else Done (True, found, \<lparr>fm_allocated = remaining, fm_free = free,
                                    fm_total = fm_total fm - removed\<rparr>, g'))"
      proof -
        obtain m where m: "found = Some m" using fd(1) by blast
        show ?thesis using f cw fd(2) unfolding m by (simp add: fm_Unmap_def not_fits)
      qed
      show ?thesis
      proof (cases "gs_UnmapBacking host g v z")
        case Exit
        then show ?thesis using U(2) f mb unfolding st by auto
      next
        case (Done q)
        obtain ok g1 where q: "q = (ok, g1)" by fastforce
        show ?thesis
        proof (cases ok)
          case n: False
          then have "unchanged g g1" using U(1) Done q by simp
          moreover have "\<not> (\<forall>n. host n)" using U(2) f mb Done q n by auto
          ultimately show ?thesis using Done q n flex_unchanged [OF fx] unfolding st by (simp add: unchanged_def)
        next
          case y: True
          have b1: "became g (in_range v z) None (\<lambda>_. None) g1" using U(1) Done q y unfolding becomes_became by simp
          obtain rest free r where ub: "unmap_blocks v z ?bs (fm_free fm) 0 = (rest, free, r)" by (metis prod_cases3)
          have UB: "rest = concat (map (\<lambda>b. fst (unmap_block v z b)) ?bs)" "separate free"
            "\<And>p. sp_at free p \<longleftrightarrow> sp_at (fm_free fm) p \<or> backing_of v z ?bs p"
            "r = of_nat (card {a. fmaps.covered ?bs a \<and> in_range v z a})"
            using unmap_blocks_props [OF F(2,4) f F(1) ub] by auto
          have "{a. fmaps.covered ?bs a \<and> in_range v z a} = {a. in_range v z a}" using all by auto
          then have r: "r = z" using UB(4) in_range_card(2) [OF f(1)] by simp
          note K = kept_props [OF F(2,4) f, folded UB(1)]
          have cr: "fmaps.covered rest a \<longleftrightarrow> fmaps.covered ?bs a \<and> \<not> in_range v z a" for a
          proof -
            have "fmaps.look rest a \<noteq> None \<longleftrightarrow> fmaps.look ?bs a \<noteq> None \<and> \<not> in_range v z a" using K(4) by simp
            then show ?thesis by (simp only: fmaps.look_covered)
          qed
          have c1: "card {a. fmaps.covered ?bs a} = card {a. fmaps.covered rest a} + unat z"
          proof -
            have "{a. fmaps.covered ?bs a} = {a. fmaps.covered rest a} \<union> {a. in_range v z a}" using cr all by auto
            moreover have "{a. fmaps.covered rest a} \<inter> {a. in_range v z a} = {}" using cr by auto
            ultimately show ?thesis using in_range_card(2) [OF f(1)] by (simp add: card_Un_disjoint)
          qed
          have bsub: "backing_of v z ?bs p \<Longrightarrow> fback.covered ?bs p" for p by (auto simp: backing_of_def fback.covered_def)
          have c2: "card {p. fback.covered ?bs p} = card {p. fback.covered rest p} + card {p. backing_of v z ?bs p}"
          proof -
            have "{p. fback.covered ?bs p} = {p. fback.covered rest p} \<union> {p. backing_of v z ?bs p}" using K(5) bsub by auto
            moreover have "{p. fback.covered rest p} \<inter> {p. backing_of v z ?bs p} = {}" using K(5) by auto
            ultimately show ?thesis by (simp add: card_Un_disjoint)
          qed
          have "card {p. fback.covered ?bs p} = card {a. fmaps.covered ?bs a}"
            using fmaps.covered_card [OF F(2)] fback.covered_card [OF F(4)] by simp
          moreover have "card {p. fback.covered rest p} = card {a. fmaps.covered rest a}"
            using fmaps.covered_card [OF K(1)] fback.covered_card [OF K(2)] by simp
          ultimately have cb: "card {p. backing_of v z ?bs p} = unat z" using c1 c2 by simp
          have c3: "card {p. sp_at free p} = card {p. sp_at (fm_free fm) p} + unat z"
          proof -
            have "{p. sp_at free p} = {p. sp_at (fm_free fm) p} \<union> {p. backing_of v z ?bs p}" using UB(3) by auto
            moreover have "{p. sp_at (fm_free fm) p} \<inter> {p. backing_of v z ?bs p} = {}" using F(5) bsub by auto
            ultimately show ?thesis using cb by (simp add: card_Un_disjoint)
          qed
          have zt: "unat z \<le> unat (fm_total fm)" using c1 F(8) by simp
          let ?fm = "\<lparr>fm_allocated = rest, fm_free = free, fm_total = fm_total fm - z\<rparr>"
          have X: "fm_Unmap host fm g v z = Done (True, found, ?fm, g1)"
            using Done q y ub r zt unfolding st by (simp add: word_less_nat_alt)
          have ut: "unat (fm_total fm - z) = unat (fm_total fm) - unat z" using zt by (simp add: unat_sub word_le_nat_alt)
          have vw: "flex_view ?fm a = (if in_range v z a then None else flex_view fm a)" for a
            using K(4) by (simp add: flex_view_look)
          have "flex_ok flexible ?fm g1"
            unfolding flex_ok_def
          proof (intro conjI allI impI)
            show "card {p. sp_at (fm_free ?fm) p} + unat (fm_total ?fm) = unat flexible" using c3 F(7) ut zt by simp
            show "card {a. fmaps.covered (fm_allocated ?fm) a} = unat (fm_total ?fm)" using c1 F(8) ut by simp
            fix a assume "fmaps.covered (fm_allocated ?fm) a"
            then have "fmaps.covered ?bs a" "\<not> in_range v z a" using cr by auto
            then show "map_option fst (backing_view g1 a) = map_option fb_backing_offset (flex_view ?fm a)"
              using F(9) b1 vw by (simp add: became_def)
          next
            fix p assume "sp_at (fm_free ?fm) p"
            then show "\<not> fback.covered (fm_allocated ?fm) p" using UB(3) K(5) F(5) by auto
          next
            fix p assume "sp_at (fm_free ?fm) p \<or> fback.covered (fm_allocated ?fm) p"
            then have "sp_at (fm_free fm) p \<or> fback.covered ?bs p" using UB(3) K(5) bsub by auto
            then show "p < gb_size g1" using F(6) b1 by (simp add: became_def)
          qed (use UB(2) K(1,2) K(3) [OF F(3)] in simp_all)
          then show ?thesis using X b1 vw ut zt f all lc UB(3) by (auto simp: became_def)
        qed
      qed
    qed
  qed
qed

end
