(* ===== verification/FlexibleMemoryEdit.thy ===== *)
theory FlexibleMemoryEdit
  imports FlexibleMemorySpec
begin

text \<open>
  Protection, snapshots and restoring in flexible memory. Protecting is a pointwise update. A
  snapshot of a span, taken before the span is unmapped, is enough to restore exactly the view and
  the backing bytes that it had.
\<close>

section \<open>Protect\<close>

definition set_fields :: "i32 \<Rightarrow> host_mode \<Rightarrow> gpu_mode \<Rightarrow> fm_block \<Rightarrow> fm_block" where
  "set_fields prot mode gpu b = b\<lparr>fb_prot := prot, fb_mode := mode, fb_gpu_mode := gpu\<rparr>"

lemma protect_block_props:
  fixes prot :: i32 and mode :: host_mode and gpu :: gpu_mode
  assumes b: "fmaps.rok b" "fback.rok b" and f: "fits v z" "z \<noteq> 0"
  defines "ps \<equiv> protect_block v z prot mode gpu b"
  shows "fmaps.rwf ps" "sorted (map fb_map_vaddr ps)" "\<forall>p \<in> set ps. fmaps.within b p"
    "fmaps.rcov b a \<Longrightarrow> fmaps.look ps a =
       Some (if in_range v z a then set_fields prot mode gpu (block_attr b a) else block_attr b a)"
    "fback.rwf ps" "\<forall>p \<in> set ps. fback.within b p" "fback.covered ps p \<longleftrightarrow> fback.rcov b p"
proof -
  have lt: "v < v + z" "fb_map_vaddr b < fb_end b"
    using fits_less [OF f] fmaps.rok_less [OF b(1)] by (auto simp: fb_end_rend)
  note ov = overlap_block [OF b(1) f]
  have "fmaps.rwf ps \<and> sorted (map fb_map_vaddr ps) \<and> (\<forall>p \<in> set ps. fmaps.within b p) \<and>
    (fmaps.rcov b a \<longrightarrow> fmaps.look ps a =
       Some (if in_range v z a then set_fields prot mode gpu (block_attr b a) else block_attr b a)) \<and>
    fback.rwf ps \<and> (\<forall>p \<in> set ps. fback.within b p) \<and> (fback.covered ps p \<longleftrightarrow> fback.rcov b p)"
  proof (cases "VirtualRangesOverlap v z (fb_map_vaddr b) (fb_map_size b)")
    case False
    then have no: "in_range v z x \<Longrightarrow> \<not> fmaps.rcov b x" for x
      using ov by (auto simp: in_range_def fmaps.rcov_iff fb_end_rend)
    have "ps = [b]" using False by (simp add: ps_def protect_block_def)
    then show ?thesis using no b
      by (auto simp: fmaps.rwf_Cons fback.rwf_Cons fmaps.within_def fback.within_def fmaps.look_Cons)
  next
    case True
    define m where "m = max v (fb_map_vaddr b)"
    define e where "e = min (v + z) (fb_end b)"
    have c: "fb_map_vaddr b \<le> m" "m < e" "e \<le> fmaps.rend b"
      "fmaps.rcov b x \<Longrightarrow> m \<le> x \<and> x < e \<longleftrightarrow> in_range v z x" for x
      using cut_points [of v "fb_end b" "fb_map_vaddr b" "v + z"] True lt ov
      by (auto simp: m_def e_def in_range_def fmaps.rcov_iff fb_end_rend)
    let ?g = "set_fields prot mode gpu"
    let ?c = "?g (block_cut m e b)"
    have ps: "ps = fmaps.before_span m b @ [?c] @ fmaps.after_span e b"
      using True unfolding ps_def
      by (simp add: protect_block_def Let_def fmaps.before_span_def fmaps.after_span_def cut_whole block_cut_def
          set_fields_def add_diff_eq flip: m_def e_def fb_end_rend)
    have st: "fb_map_vaddr ?c = m" "fb_map_size ?c = e - m" "fb_backing_offset ?c = fb_backing_offset b + (m - fb_map_vaddr b)"
      by (simp_all add: set_fields_def block_cut_def)
    have at: "block_attr ?c x = ?g (block_attr b x)" for x
      by (simp add: set_fields_def block_cut_def block_attr_def)
    note P = fmaps.edit_pieces_props [OF b(1) c(1-3), where f = ?g and g = ?g, OF st(1,2) at, folded ps]
    note Q = cuts_back [OF b c(1-3), of "[?c]", folded ps]
    have "sorted (map fb_map_vaddr ps)"
      using c st(1) by (auto simp: ps fmaps.before_span_def fmaps.after_span_def block_cut_def set_fields_def less_imp_le)
    then show ?thesis using P Q st c(4) by simp
  qed
  then show "fmaps.rwf ps" "sorted (map fb_map_vaddr ps)" "\<forall>p \<in> set ps. fmaps.within b p"
    "fmaps.rcov b a \<Longrightarrow> fmaps.look ps a =
       Some (if in_range v z a then set_fields prot mode gpu (block_attr b a) else block_attr b a)"
    "fback.rwf ps" "\<forall>p \<in> set ps. fback.within b p" "fback.covered ps p \<longleftrightarrow> fback.rcov b p"
    by blast+
qed

lemma fm_Protect_props:
  assumes fx: "flex_ok flexible fm g"
  shows "flex_ok flexible (fm_Protect fm v z prot mode gpu) g"
    and "flex_view (fm_Protect fm v z prot mode gpu) a =
      map_option (if fits v z \<and> in_range v z a then set_fields prot mode gpu else id) (flex_view fm a)"
proof -
  note F = flex_okD [OF fx]
  let ?bs = "fm_allocated fm" and ?fm = "fm_Protect fm v z prot mode gpu"
  have "flex_ok flexible ?fm g \<and> (\<forall>a. flex_view ?fm a =
      map_option (if fits v z \<and> in_range v z a then set_fields prot mode gpu else id) (flex_view fm a))"
  proof (cases "z = 0 \<or> \<not> fits v z")
    case True
    then have no: "(fits v z \<and> in_range v z a) = False" for a by (auto simp: in_range_def)
    have "?fm = fm" using True by (auto simp: fm_Protect_def not_fits)
    then show ?thesis using fx unfolding no by (simp add: option.map_id)
  next
    case False
    then have f: "fits v z" "z \<noteq> 0" by auto
    let ?f = "protect_block v z prot mode gpu"
    define rest where "rest = concat (map ?f ?bs)"
    have fm: "?fm = fm\<lparr>fm_allocated := rest\<rparr>" using f by (simp add: fm_Protect_def not_fits rest_def)
    note P = protect_block_props [OF fmaps.rok_in [OF F(2)] fback.rok_in [OF F(4)] f]
    have w: "fmaps.rwf rest" unfolding rest_def using P(1,3) by (intro fmaps.rwf_concat [OF F(2)]) blast
    have w2: "fback.rwf rest" unfolding rest_def using P(5,6) by (intro fback.rwf_concat [OF F(4)]) blast
    have s: "sorted (map fb_map_vaddr rest)"
      unfolding rest_def using P(1,2,3) by (intro fmaps.sorted_pieces [OF F(2,3)]) blast
    have lk: "fmaps.look rest a = map_option (if in_range v z a then set_fields prot mode gpu else id) (fmaps.look ?bs a)" for a
    proof -
      have "fmaps.look rest a = (case find (\<lambda>b. fmaps.rcov b a) ?bs of None \<Rightarrow> None | Some b \<Rightarrow> fmaps.look (?f b) a)"
        unfolding rest_def using P(3) by (intro fmaps.look_concat [OF F(2)]) blast
      also have "\<dots> = map_option (if in_range v z a then set_fields prot mode gpu else id) (fmaps.look ?bs a)"
      proof (cases "find (\<lambda>b. fmaps.rcov b a) ?bs")
        case None
        then show ?thesis by (simp add: fmaps.look_def)
      next
        case (Some b)
        then have "b \<in> set ?bs" "fmaps.rcov b a" by (auto simp: find_Some_iff)
        then show ?thesis using P(4) [of b] Some by (simp add: fmaps.look_def [of ?bs])
      qed
      finally show ?thesis .
    qed
    have cv: "fmaps.covered rest = fmaps.covered ?bs"
    proof (rule ext)
      fix a
      have "fmaps.look rest a \<noteq> None \<longleftrightarrow> fmaps.look ?bs a \<noteq> None" using lk by simp
      then show "fmaps.covered rest a = fmaps.covered ?bs a" by (simp only: fmaps.look_covered)
    qed
    have cb: "fback.covered rest = fback.covered ?bs"
      using P(7) by (auto simp: rest_def fback.covered_def fun_eq_iff)
    have vw: "flex_view ?fm a = map_option (if in_range v z a then set_fields prot mode gpu else id) (flex_view fm a)" for a
      by (simp add: flex_view_look fm lk)
    have off: "map_option fb_backing_offset (flex_view ?fm a) = map_option fb_backing_offset (flex_view fm a)" for a
      unfolding vw by (cases "flex_view fm a") (auto simp: set_fields_def)
    have "flex_ok flexible ?fm g"
      unfolding flex_ok_def off using F w w2 s cv cb by (simp add: fm)
    then show ?thesis using vw f by simp
  qed
  then show "flex_ok flexible ?fm g" and "flex_view ?fm a =
      map_option (if fits v z \<and> in_range v z a then set_fields prot mode gpu else id) (flex_view fm a)" by auto
qed

section \<open>Snapshot\<close>

lemma block_at_back:
  assumes "fmaps.rok b" "fback.rok b"
  shows "fback.rcov b p \<Longrightarrow> fmaps.rcov b (back_attr b p)"
  using block_cut_back(3) [OF assms order_refl fmaps.rok_less [OF assms(1)] order_refl] .

lemma snapshot_walk_props:
  assumes "fmaps.rwf bs" and "fback.rwf bs" and "sorted (map fb_map_vaddr bs)" and "c < e"
  shows "case snapshot_walk e bs c of
      None \<Rightarrow> \<exists>a. c \<le> a \<and> a < e \<and> \<not> fmaps.covered bs a
    | Some ps \<Rightarrow> ps \<noteq> [] \<and> fmaps.rwf ps \<and> fback.rwf ps \<and>
        (\<forall>a. fmaps.look ps a = (if c \<le> a \<and> a < e then fmaps.look bs a else None)) \<and>
        (\<forall>a. c \<le> a \<and> a < e \<longrightarrow> fmaps.covered bs a) \<and>
        (\<forall>p. fback.covered ps p \<longleftrightarrow> (\<exists>b \<in> set bs. fback.rcov b p \<and> c \<le> back_attr b p \<and> back_attr b p < e))"
  using assms
proof (induction bs arbitrary: c)
  case Nil
  then show ?case by auto
next
  case (Cons b bs)
  have b: "fmaps.rok b" "fback.rok b" "fmaps.rwf bs" "fback.rwf bs" "sorted (map fb_map_vaddr bs)"
    using Cons.prems(1-3) by (auto simp: fmaps.rwf_Cons fback.rwf_Cons)
  have lt: "fb_map_vaddr b < fb_end b" using fmaps.rok_less [OF b(1)] by (simp add: fb_end_rend)
  have later: "fb_end b \<le> fb_map_vaddr d" if "d \<in> set bs" for d
    using fmaps.rwf_sorted_less [OF Cons.prems(1,3) that] by (simp add: fb_end_rend)
  have rc: "fmaps.rcov b a \<longleftrightarrow> fb_map_vaddr b \<le> a \<and> a < fb_end b" for a by (simp add: fmaps.rcov_iff fb_end_rend)
  have ncov: "\<not> fmaps.covered bs a" if "a < fb_end b" for a
    using later that by (auto simp: fmaps.covered_def fmaps.rcov_iff) (meson leD order_trans)
  have nlook: "a < fb_end b \<Longrightarrow> fmaps.look bs a = None" for a using ncov fmaps.look_covered by blast
  have bb: "fback.rcov b p \<Longrightarrow> fb_map_vaddr b \<le> back_attr b p \<and> back_attr b p < fb_end b" for p
    using block_at_back [OF b(1,2)] by (simp add: rc)
  have bl: "fb_end b \<le> back_attr d p" if "d \<in> set bs" "fback.rcov d p" for d p
  proof -
    have "fmaps.rcov d (back_attr d p)"
      using block_at_back [OF fmaps.rok_in [OF b(3) that(1)] fback.rok_in [OF b(4) that(1)] that(2)] .
    then show ?thesis using later [OF that(1)] by (auto simp: fmaps.rcov_iff intro: order_trans)
  qed
  consider (skip) "fb_end b \<le> c" | (stop) "c < fb_end b" "c < fb_map_vaddr b" | (go) "fb_map_vaddr b \<le> c" "c < fb_end b"
    by (cases "fb_end b \<le> c"; cases "fb_map_vaddr b \<le> c") (auto simp: not_le)
  then show ?case
  proof cases
    case skip
    have st: "snapshot_walk e (b # bs) c = snapshot_walk e bs c" using skip by simp
    have no: "c \<le> a \<Longrightarrow> \<not> fmaps.rcov b a" for a using skip by (auto simp: rc)
    have nb: "fback.rcov b p \<Longrightarrow> \<not> c \<le> back_attr b p" for p using bb [of p] skip by auto
    note IH = Cons.IH [OF b(3,4,5) Cons.prems(4)]
    show ?thesis
    proof (cases "snapshot_walk e bs c")
      case None
      then show ?thesis using IH no unfolding st by (auto simp del: snapshot_walk.simps)
    next
      case (Some ps)
      then have lk: "\<And>a. fmaps.look ps a = (if c \<le> a \<and> a < e then fmaps.look bs a else None)" using IH by simp
      then have "fmaps.look ps a = (if c \<le> a \<and> a < e then fmaps.look (b # bs) a else None)" for a
        using no [of a] by (auto simp: fmaps.look_Cons)
      then show ?thesis using IH nb Some unfolding st by simp blast
    qed
  next
    case stop
    have ne: "\<not> fb_end b \<le> c" using stop(1) by (simp add: not_le)
    have "snapshot_walk e (b # bs) c = None" using ne stop(2) by simp
    moreover have "\<not> fmaps.covered (b # bs) c" using stop ncov [OF stop(1)] by (simp add: rc not_le)
    ultimately show ?thesis using Cons.prems(4) by (auto simp del: snapshot_walk.simps fmaps.covered_simps)
  next
    case go
    define n where "n = min e (fb_end b)"
    have n: "c < n" "n \<le> e" "n \<le> fmaps.rend b" "fb_map_vaddr b \<le> c"
      using go Cons.prems(4) by (auto simp: n_def fb_end_rend)
    have ne: "\<not> fb_end b \<le> c" "\<not> (c < fb_map_vaddr b \<or> e \<le> fb_map_vaddr b)" using go Cons.prems(4) by auto
    define p where "p = block_cut c n b"
    have p': "b\<lparr>fb_map_vaddr := c, fb_map_size := n - c, fb_backing_offset := fb_backing_offset b + (c - fb_map_vaddr b)\<rparr> = p"
      by (simp add: p_def block_cut_def)
    have st: "snapshot_walk e (b # bs) c = (if n = e then Some [p] else map_option ((#) p) (snapshot_walk e bs n))"
      unfolding p' [symmetric] using ne by (simp add: Let_def flip: n_def)
    have pr: "fmaps.rok p" "fmaps.rcov p a \<longleftrightarrow> c \<le> a \<and> a < n" for a
      unfolding p_def using fmaps.rcut_props [OF n(1), of b] by auto
    note C = block_cut_back [OF b(1,2) n(4,1,3), folded p_def]
    have at: "block_attr p a = block_attr b a" for a unfolding p_def by (rule fmaps.cut_attr)
    have inb: "c \<le> a \<Longrightarrow> a < n \<Longrightarrow> fmaps.rcov b a" for a
      using n unfolding fmaps.rcov_iff by (blast intro: order_trans order.strict_trans2)
    show ?thesis
    proof (cases "n = e")
      case True
      have "fmaps.look [p] a = (if c \<le> a \<and> a < e then fmaps.look (b # bs) a else None)" for a
        using pr(2) [of a] inb [of a] at by (simp add: fmaps.look_Cons True)
      moreover have "fback.covered [p] q \<longleftrightarrow> (\<exists>d \<in> set (b # bs). fback.rcov d q \<and> c \<le> back_attr d q \<and> back_attr d q < e)" for q
      proof -
        have "\<not> back_attr d q < e" if "d \<in> set bs" "fback.rcov d q" for d
          using bl [OF that] n(3) True unfolding fb_end_rend [symmetric] by auto
        then show ?thesis using C(2) [of q] by (auto simp: True)
      qed
      moreover have "fmaps.covered (b # bs) a" if "c \<le> a \<and> a < e" for a using inb that by (simp add: True)
      ultimately show ?thesis using pr(1) C(1) unfolding st
        by (simp add: True fmaps.rwf_Cons fback.rwf_Cons del: fmaps.covered_simps fback.covered_simps)
    next
      case False
      then have n2: "n < e" "n = fb_end b" using n(2) by (auto simp: n_def min_def split: if_splits)
      note IH = Cons.IH [OF b(3,4,5) n2(1)]
      show ?thesis
      proof (cases "snapshot_walk e bs n")
        case None
        then obtain a where a: "n \<le> a" "a < e" "\<not> fmaps.covered bs a" using IH by auto
        then have "\<not> fmaps.rcov b a" using n2(2) by (auto simp: rc)
        then have "c \<le> a \<and> a < e \<and> \<not> fmaps.covered (b # bs) a" using a n(1) by auto
        then show ?thesis using None False unfolding st by auto
      next
        case (Some ps)
        then have I: "fmaps.rwf ps" "fback.rwf ps" "\<And>a. fmaps.look ps a = (if n \<le> a \<and> a < e then fmaps.look bs a else None)"
          "\<And>a. n \<le> a \<and> a < e \<Longrightarrow> fmaps.covered bs a"
          "\<And>q. fback.covered ps q \<longleftrightarrow> (\<exists>d \<in> set bs. fback.rcov d q \<and> n \<le> back_attr d q \<and> back_attr d q < e)"
          using IH by auto
        have np: "\<not> (fmaps.rcov p a \<and> fmaps.covered ps a)" for a
        proof -
          have "fmaps.covered ps a \<Longrightarrow> n \<le> a" using I(3) [of a] fmaps.look_covered [of ps a] by (auto split: if_splits)
          then show ?thesis using pr(2) [of a] by auto
        qed
        have bp: "\<not> (fback.rcov p q \<and> fback.covered ps q)" for q
        proof
          assume a: "fback.rcov p q \<and> fback.covered ps q"
          then obtain d where d: "d \<in> set bs" "fback.rcov d q" using I(5) by auto
          have "fback.rcov b q" using a C(2) [of q] by blast
          moreover have "fback.apart b d" using Cons.prems(2) d(1) by (simp add: fback.rwf_Cons)
          ultimately show False using d(2) by (auto simp: fback.apart_def)
        qed
        have "fmaps.rwf (p # ps)" using pr(1) I(1) np by (auto simp: fmaps.rwf_Cons fmaps.apart_def fmaps.covered_def)
        moreover have "fback.rwf (p # ps)" using C(1) I(2) bp by (auto simp: fback.rwf_Cons fback.apart_def fback.covered_def)
        moreover have "fmaps.look (p # ps) a = (if c \<le> a \<and> a < e then fmaps.look (b # bs) a else None)" for a
        proof (cases "a < n")
          case True
          then show ?thesis using pr(2) [of a] inb [of a] at n(2) I(3) [of a] by (auto simp: fmaps.look_Cons)
        next
          case an: False
          have "\<not> fmaps.rcov b a" using an n2(2) by (simp add: rc)
          then show ?thesis using an pr(2) [of a] I(3) [of a] n(1) by (auto simp: fmaps.look_Cons not_less)
        qed
        moreover have "fmaps.covered (b # bs) a" if "c \<le> a \<and> a < e" for a
          using inb [of a] I(4) [of a] that by (cases "a < n") (auto simp: not_less)
        moreover have "fback.covered (p # ps) q \<longleftrightarrow> (\<exists>d \<in> set (b # bs). fback.rcov d q \<and> c \<le> back_attr d q \<and> back_attr d q < e)" for q
        proof -
          have "back_attr b q < n" if "fback.rcov b q" using bb [OF that] n2(2) by simp
          moreover have "n \<le> back_attr d q" if "d \<in> set bs" "fback.rcov d q" for d using bl [OF that] n2(2) by simp
          moreover have "c \<le> back_attr d q" if "d \<in> set bs" "fback.rcov d q" for d
            using calculation(2) [OF that] n(1) by simp
          moreover have "fback.rcov b q \<Longrightarrow> back_attr b q < e" using calculation(1) n(2) by auto
          ultimately show ?thesis unfolding fback.covered_simps C(2) I(5) by auto
        qed
        ultimately show ?thesis using Some False unfolding st
          by (simp del: fmaps.covered_simps fback.covered_simps)
      qed
    qed
  qed
qed

text \<open>A block whose backing is free passes the check of \<open>Restore\<close>; the converse does not hold.\<close>

lemma block_free_points:
  assumes "separate free" and "fback.rok b" and "\<And>p. fback.rcov b p \<Longrightarrow> sp_at free p"
  shows "block_free free b"
proof -
  let ?o = "fb_backing_offset b" and ?z = "fb_map_size b"
  note sp = fback_span [OF assms(2)]
  have at: "sp_at free p" if "in_range ?o ?z p" for p using assms(3) [of p] that by (simp add: sp(3))
  obtain xs e ys where e: "fst e \<le> ?o" "?o + ?z \<le> fst e + snd e" "om_prev ?o free = Some e"
    using span_in_one [OF assms(1) sp(1,2) at] by blast
  have "?o \<le> fst e + snd e" using e(2) fits_le [OF sp(1)] by (rule order_trans [rotated])
  then have "\<not> (?o < fst e \<or> fst e + snd e - ?o < ?z)"
    using size_le_room [of ?o "fst e + snd e" ?z] e(1,2) sp(1) by (auto simp: not_less)
  then show ?thesis using e(3) by (simp add: block_free_def)
qed

lemma om_prev_in:
  assumes "om_prev k m = Some e"
  shows "e \<in> set m" "fst e \<le> k"
proof -
  have "e \<in> set (om_upto k m)" using assms by (auto simp: om_prev_def split: if_splits)
  then show "e \<in> set m" "fst e \<le> k" by (auto simp: om_upto_def dest: set_takeWhileD)
qed

lemma wrapped_room: "e < a \<Longrightarrow> fits a z \<Longrightarrow> z \<le> e - a" for e a z :: u64
proof -
  assume e: "e < a" and f: "fits a z"
  have "unat (e - a) = 2 ^ 64 + unat e - unat a"
    using e u64_less [of a] unat_sub_if' [of e a] by (simp add: word_less_nat_alt)
  then show "z \<le> e - a" using f by (simp add: fits_unat word_le_nat_alt)
qed

lemma block_free_exact:
  assumes s: "separate free" and f: "fits (fb_backing_offset b) (fb_map_size b)" "fb_map_size b \<noteq> 0"
  shows "block_free free b \<longleftrightarrow>
    (\<forall>p. in_range (fb_backing_offset b) (fb_map_size b) p \<longrightarrow> sp_at free p) \<or>
    (\<exists>e. om_prev (fb_backing_offset b) free = Some e \<and> fst e + snd e < fb_backing_offset b)"
proof -
  let ?o = "fb_backing_offset b" and ?z = "fb_map_size b"
  have rk: "fback.rok b" using f by (simp add: fback.rok_def)
  have free: "block_free free b" if "\<forall>p. in_range ?o ?z p \<longrightarrow> sp_at free p"
    using block_free_points [OF s rk] that unfolding fback_span(3) [OF rk] by blast
  show ?thesis
  proof (cases "om_prev ?o free")
    case None
    then have "\<not> block_free free b" by (simp add: block_free_def)
    then show ?thesis using free None by auto
  next
    case (Some e)
    note E = om_prev_in [OF Some]
    have bf: "block_free free b \<longleftrightarrow> ?z \<le> fst e + snd e - ?o"
      using Some E(2) by (simp add: block_free_def not_less)
    show ?thesis
    proof (cases "fst e + snd e < ?o")
      case True
      then show ?thesis using wrapped_room [OF True f(1)] bf Some by auto
    next
      case False
      then have "block_free free b \<longleftrightarrow> ?o + ?z \<le> fst e + snd e"
        using size_le_room [of ?o "fst e + snd e" ?z] f(1) bf by (simp add: not_less)
      moreover have "sp_at free p" if "?o + ?z \<le> fst e + snd e" "in_range ?o ?z p" for p
        using that E unfolding sp_at_def in_range_def by (auto intro!: bexI [of _ e] elim: order_trans order.strict_trans2)
      ultimately show ?thesis using free False Some by auto
    qed
  qed
qed

lemma block_sizes:
  assumes "fmaps.rwf bs"
  shows "sum_list (map fb_map_size bs) = of_nat (card {a. fmaps.covered bs a})"
proof -
  have "sum_list (map fb_map_size bs) = of_nat (sum_list (map (unat \<circ> fb_map_size) bs))" by (induction bs) simp_all
  then show ?thesis using fmaps.covered_card [OF assms] by simp
qed

lemma fm_Restore_props:
  assumes g: "guest_ok g" and fx: "flex_ok flexible fm g" and ne: "bs \<noteq> []"
    and bs: "fmaps.rwf bs" "fback.rwf bs" "\<And>p. fback.covered bs p \<Longrightarrow> sp_at (fm_free fm) p"
  shows "case fm_Restore host fm g bs of Exit \<Rightarrow> \<not> (\<forall>n. host n)
    | Done (ok, fm', g') \<Rightarrow> guest_ok g' \<and> flex_ok flexible fm' g' \<and>
        (if ok then (\<exists>bv. became g (fmaps.covered bs) (Some Backing) bv g') \<and>
            unat (fm_total fm') = unat (fm_total fm) + card {a. fmaps.covered bs a} \<and>
            (\<forall>a. flex_view fm' a = (if fmaps.covered bs a then fmaps.look bs a else flex_view fm a))
         else fm' = fm \<and> unchanged g g') \<and>
        ((\<forall>n. host n) \<longrightarrow> (ok \<longleftrightarrow> (\<forall>a. fmaps.covered bs a \<longrightarrow> sp_at (gs_free g) a)))"
proof -
  note F = flex_okD [OF fx]
  let ?X = "fm_Restore host fm g bs"
  have "block_free (fm_free fm) b" if "b \<in> set bs" for b
    using bs(3) that by (intro block_free_points [OF F(1) fback.rok_in [OF bs(2) that]]) (auto simp: fback.covered_def)
  then have st: "?X = obind (map_blocks host False bs [] g) (\<lambda>(ok, g').
       if \<not> ok then Done (False, fm, g')
       else obind (consume_blocks False bs (fm_free fm)) (\<lambda>free.
         Done (True, \<lparr>fm_allocated = sort_key fb_map_vaddr (fm_allocated fm @ bs), fm_free = free,
            fm_total = fm_total fm + sum_list (map fb_map_size bs)\<rparr>, g')))"
    using ne by (simp add: fm_Restore_def list_all_iff)
  have MB: "case map_blocks host False bs [] g of Exit \<Rightarrow> \<not> (\<forall>n. host n)
    | Done (ok, g') \<Rightarrow>
      if ok then became g (fmaps.covered bs) (Some Backing) (block_view bs) g' \<and>
        (\<forall>a. fmaps.covered bs a \<longrightarrow> sp_at (gs_free g) a)
      else became g (fmaps.covered []) None (\<lambda>_. None) g' \<and>
        \<not> ((\<forall>n. host n) \<and> (\<forall>a. fmaps.covered bs a \<longrightarrow> sp_at (gs_free g) a))"
    by (rule map_blocks_props [OF g bs(1)]) (use range_ok_blocks [OF fx bs(2,3)] in simp_all)
  show ?thesis
  proof (cases "map_blocks host False bs [] g")
    case Exit
    then show ?thesis using MB unfolding st by simp
  next
    case (Done q)
    obtain ok g1 where q: "q = (ok, g1)" by fastforce
    show ?thesis
    proof (cases ok)
      case no: False
      have "unchanged g g1"
        using MB no unfolding Done q became_none [where t = None and bv = "\<lambda>_. None"] by (simp add: covered_none)
      moreover have "?X = Done (False, fm, g1)" unfolding st Done q by (simp add: no)
      moreover have "\<not> ((\<forall>n. host n) \<and> (\<forall>a. fmaps.covered bs a \<longrightarrow> sp_at (gs_free g) a))"
        using MB no unfolding Done q by simp
      ultimately show ?thesis using flex_unchanged [OF fx] by (auto simp: unchanged_def)
    next
      case yes: True
      have b1: "became g (fmaps.covered bs) (Some Backing) (block_view bs) g1"
        and fr: "\<And>a. fmaps.covered bs a \<Longrightarrow> sp_at (gs_free g) a"
        using MB yes unfolding Done q by auto
      obtain free where c: "consume_blocks False bs (fm_free fm) = Done free" "separate free"
        "\<And>p. sp_at free p \<longleftrightarrow> sp_at (fm_free fm) p \<and> \<not> fback.covered bs p"
        using consume_blocks_props [OF F(1) bs(2,3), of False] by blast
      define tot where "tot = fm_total fm + sum_list (map fb_map_size bs)"
      let ?fm = "\<lparr>fm_allocated = sort_key fb_map_vaddr (fm_allocated fm @ bs), fm_free = free, fm_total = tot\<rparr>"
      have X: "?X = Done (True, ?fm, g1)" unfolding st Done q by (simp add: yes c(1) tot_def)
      have tot: "unat tot = unat (fm_total fm) + card {a. fmaps.covered bs a}"
      proof -
        have "card {p. fback.covered bs p} \<le> card {p. sp_at (fm_free fm) p}" using bs(3) by (intro card_mono) auto
        then have "unat (fm_total fm) + card {a. fmaps.covered bs a} \<le> unat flexible"
          using fmaps.covered_card [OF bs(1)] fback.covered_card [OF bs(2)] F(7) by simp
        then have "unat (fm_total fm) + card {a. fmaps.covered bs a} < 2 ^ 64" using u64_less [of flexible] by simp
        moreover have "tot = of_nat (unat (fm_total fm) + card {a. fmaps.covered bs a})"
          by (simp add: tot_def block_sizes [OF bs(1)])
        ultimately show ?thesis by (simp only: unat_of_nat_u64)
      qed
      note A = flex_add [OF g fx bs(1,2,3) fr c(2,3) tot b1]
      have "\<exists>bv. became g (fmaps.covered bs) (Some Backing) bv g1" using b1 by auto
      then show ?thesis using X A tot fr by auto
    qed
  qed
qed

text \<open>Taking a snapshot, unmapping the span and restoring it.\<close>

lemma fm_round_trip:
  assumes g: "guest_ok g" and fx: "flex_ok flexible fm g" and h: "\<And>n. host n"
    and sn: "fm_Snapshot fm v z = Some ps" and un: "fm_Unmap host fm g v z = Done (True, found, fm1, g1)"
  shows "case fm_Restore host fm1 g1 ps of Exit \<Rightarrow> False
    | Done (ok, fm2, g2) \<Rightarrow> ok \<and> guest_ok g2 \<and> flex_ok flexible fm2 g2 \<and> flex_view fm2 = flex_view fm \<and>
        fm_total fm2 = fm_total fm \<and> mapped_view g2 = mapped_view g"
proof -
  note F = flex_okD [OF fx]
  let ?bs = "fm_allocated fm"
  have f: "fits v z" "z \<noteq> 0" and sw: "snapshot_walk (v + z) ?bs v = Some ps"
    using sn by (auto simp: fm_Snapshot_def not_fits split: if_splits)
  have U: "guest_ok g1" "flex_ok flexible fm1 g1" "became g (in_range v z) None (\<lambda>_. None) g1"
    "unat (fm_total fm1) + unat z = unat (fm_total fm)"
    "\<And>a. flex_view fm1 a = (if in_range v z a then None else flex_view fm a)"
    "\<And>p. sp_at (fm_free fm1) p \<longleftrightarrow> sp_at (fm_free fm) p \<or> backing_of v z ?bs p"
    using fm_Unmap_props [OF g fx, where host = host and v = v and z = z] unfolding un by auto
  have S: "ps \<noteq> []" "fmaps.rwf ps" "fback.rwf ps"
    "\<And>a. fmaps.look ps a = (if in_range v z a then fmaps.look ?bs a else None)"
    "\<And>a. in_range v z a \<Longrightarrow> fmaps.covered ?bs a" "\<And>p. fback.covered ps p \<longleftrightarrow> backing_of v z ?bs p"
    using snapshot_walk_props [OF F(2,4,3) fits_less [OF f]] sw by (auto simp: in_range_def backing_of_def)
  have cov: "fmaps.covered ps = in_range v z"
  proof (rule ext)
    fix a
    have "fmaps.look ps a \<noteq> None \<longleftrightarrow> in_range v z a"
      using S(4) [of a] S(5) [of a] fmaps.look_covered [of ?bs a] by auto
    then show "fmaps.covered ps a = in_range v z a" by (simp only: fmaps.look_covered)
  qed
  have R: "case fm_Restore host fm1 g1 ps of Exit \<Rightarrow> \<not> (\<forall>n. host n)
    | Done (ok, fm', g') \<Rightarrow> guest_ok g' \<and> flex_ok flexible fm' g' \<and>
        (if ok then (\<exists>bv. became g1 (fmaps.covered ps) (Some Backing) bv g') \<and>
            unat (fm_total fm') = unat (fm_total fm1) + card {a. fmaps.covered ps a} \<and>
            (\<forall>a. flex_view fm' a = (if fmaps.covered ps a then fmaps.look ps a else flex_view fm1 a))
         else fm' = fm1 \<and> unchanged g1 g') \<and>
        ((\<forall>n. host n) \<longrightarrow> (ok \<longleftrightarrow> (\<forall>a. fmaps.covered ps a \<longrightarrow> sp_at (gs_free g1) a)))"
    using U(6) S(6) by (intro fm_Restore_props [OF U(1,2) S(1-3)]) simp
  show ?thesis
  proof (cases "fm_Restore host fm1 g1 ps")
    case Exit
    then show ?thesis using R h by simp
  next
    case (Done q)
    obtain ok fm2 g2 where q: "q = (ok, fm2, g2)" by (metis prod_cases3)
    have "sp_at (gs_free g1) a" if "in_range v z a" for a using U(3) that by (simp add: became_def)
    moreover have "(\<forall>n. host n) \<longrightarrow> (ok \<longleftrightarrow> (\<forall>a. in_range v z a \<longrightarrow> sp_at (gs_free g1) a))"
      using R unfolding Done q cov by simp
    ultimately have ok: "ok" using h by blast
    then have R2: "guest_ok g2" "flex_ok flexible fm2 g2" "\<exists>bv. became g1 (in_range v z) (Some Backing) bv g2"
      "unat (fm_total fm2) = unat (fm_total fm1) + unat z"
      "\<And>a. flex_view fm2 a = (if in_range v z a then fmaps.look ps a else flex_view fm1 a)"
      using R in_range_card(2) [OF f(1)] unfolding Done q cov by (simp_all add: ok)
    have "flex_view fm2 = flex_view fm" using R2(5) U(5) S(4) by (auto simp: fun_eq_iff flex_view_look)
    moreover have "fm_total fm2 = fm_total fm" using R2(4) U(4) by (intro word_unat_eqI) simp
    moreover have "mapped_view g2 a = mapped_view g a" for a
    proof (cases "in_range v z a")
      case True
      then have "mapped_view g a = Some Backing" using flex_mapped(1) [OF g fx] S(5) by blast
      then show ?thesis using R2(3) True by (auto simp: became_def)
    next
      case False
      then show ?thesis using R2(3) U(3) by (auto simp: became_def)
    qed
    ultimately show ?thesis using Done q ok R2(1,2) by (auto simp: fun_eq_iff)
  qed
qed

end
