(* ===== verification/FlexibleMemoryProps.thy ===== *)
theory FlexibleMemoryProps
  imports FlexibleMemoryEdit GuestSpaceProps
begin

text \<open>
  The properties of flexible memory, each with an instance on the sample guest address space,
  whose backed 64 KiB are a flexible block; 192 KiB more are free.
\<close>

definition sample_flexible :: flexible_memory where
  "sample_flexible =
    \<lparr>fm_allocated = [\<lparr>fb_map_vaddr = 0x40000, fb_map_size = 0x10000, fb_backing_offset = 0x4000,
       fb_host_vaddr = 0x40000, fb_host_size = 0x10000, fb_prot = 3, fb_mode = ReadWrite,
       fb_gpu_mode = GpuNoAccess, fb_name = ''stack''\<rparr>],
     fm_free = [(0x14000, 0x30000)], fm_total = 0x10000\<rparr>"

lemma sample_flex_ok: "flex_ok 0x40000 sample_flexible sample_guest"
proof -
  let ?b = "hd (fm_allocated sample_flexible)"
  have f: "fits 0x4000 0x10000" "fits 0x40000 0x10000" "fits 0x14000 0x30000" by code_simp+
  have s: "separate (fm_free sample_flexible)" by code_simp
  have one: "fm_allocated sample_flexible = [?b]" by (simp add: sample_flexible_def)
  have cov: "fmaps.covered (fm_allocated sample_flexible) = in_range 0x40000 0x10000"
    "fback.covered (fm_allocated sample_flexible) = in_range 0x4000 0x10000"
    "sp_at (fm_free sample_flexible) = in_range 0x14000 0x30000"
    by (auto simp: fun_eq_iff sample_flexible_def fmaps.rcov_def fback.rcov_def sp_at_def)
  have w: "fmaps.rwf (fm_allocated sample_flexible)" "fback.rwf (fm_allocated sample_flexible)"
    using f by (simp_all add: sample_flexible_def fmaps.rwf_Cons fback.rwf_Cons fmaps.rok_def fback.rok_def)
  have c: "card {p. in_range 0x14000 0x30000 p} = 0x30000" "card {a. in_range 0x40000 0x10000 a} = 0x10000"
    using in_range_card(2) [OF f(3)] in_range_card(2) [OF f(2)] by simp_all
  have "in_range 0x14000 0x30000 p \<Longrightarrow> \<not> in_range 0x4000 0x10000 p" for p by (auto simp: in_range_def)
  moreover have "in_range 0x14000 0x30000 p \<or> in_range 0x4000 0x10000 p \<Longrightarrow> p < gb_size sample_guest" for p
    by (auto simp: in_range_def sample_guest_def word_less_nat_alt word_le_nat_alt)
  moreover have "map_option fst (backing_view sample_guest a) = map_option fb_backing_offset (flex_view sample_flexible a)" for a
    by (simp add: backing_view_def flex_view_def sample_guest_def sample_flexible_def in_range_def block_attr_def fb_end_def entry_attr_def)
  ultimately show ?thesis
    unfolding flex_ok_def cov c using s w by (simp add: sample_flexible_def)
qed



text \<open>Unmapping flexible memory, for every host. Success means that the span was mapped
  throughout, that exactly it became free, and that exactly its backing bytes went back to the free
  ranges; failure leaves everything as it was. A mapped span and a host that never refuses give
  success.\<close>

lemma flexible_unmap_correct:
  assumes "guest_ok g" and "flex_ok flexible fm g"
  shows "case fm_Unmap host fm g v z of Exit \<Rightarrow> \<not> (\<forall>n. host n)
    | Done (ok, found, fm', g') \<Rightarrow> guest_ok g' \<and> flex_ok flexible fm' g' \<and>
        (if ok then became g (in_range v z) None (\<lambda>_. None) g' \<and> unat (fm_total fm') + unat z = unat (fm_total fm) \<and>
            (\<forall>a. flex_view fm' a = (if in_range v z a then None else flex_view fm a)) \<and>
            (\<forall>p. sp_at (fm_free fm') p \<longleftrightarrow> sp_at (fm_free fm) p \<or> backing_of v z (fm_allocated fm) p)
         else fm' = fm \<and> unchanged g g') \<and>
        (ok \<longrightarrow> z \<noteq> 0 \<and> fits v z \<and> (\<forall>a. in_range v z a \<longrightarrow> flex_view fm a \<noteq> None)) \<and>
        ((\<forall>n. host n) \<and> z \<noteq> 0 \<and> fits v z \<and> (\<forall>a. in_range v z a \<longrightarrow> flex_view fm a \<noteq> None) \<longrightarrow> ok)"
  by (rule fm_Unmap_props [OF assms])

theorem flexible_unmap_witness:
  "\<exists>found fm' g'. fm_Unmap (\<lambda>_. True) sample_flexible sample_guest 0x44000 0x4000 = Done (True, found, fm', g') \<and>
      flex_ok 0x40000 fm' g' \<and> map fb_map_vaddr (fm_allocated fm') = [0x40000, 0x48000] \<and>
      map fb_backing_offset (fm_allocated fm') = [0x4000, 0xC000]"
proof -
  let ?X = "fm_Unmap (\<lambda>_. True) sample_flexible sample_guest 0x44000 0x4000"
  have x: "case ?X of Exit \<Rightarrow> False | Done (ok, found, fm', g') \<Rightarrow> ok \<and>
      map fb_map_vaddr (fm_allocated fm') = [0x40000, 0x48000] \<and>
      map fb_backing_offset (fm_allocated fm') = [0x4000, 0xC000]" by code_simp
  then obtain found fm' g' where X: "?X = Done (True, found, fm', g')"
    "map fb_map_vaddr (fm_allocated fm') = [0x40000, 0x48000]" "map fb_backing_offset (fm_allocated fm') = [0x4000, 0xC000]"
    by (auto split: outcome.splits prod.splits)
  show ?thesis
    using flexible_unmap_correct [OF sample_guest_ok sample_flex_ok, where host = "\<lambda>_. True" and v = "0x44000" and z = "0x4000"] X
    unfolding X(1) by auto
qed



text \<open>What the check of \<open>Restore\<close> (and the assertion of \<open>Map\<close>) really tests. A block
  passes exactly when its backing bytes are all free, or when the last free range that starts before
  it already ends before it: then the difference of the range's end and the block's offset wraps around
  and is never smaller than the block.\<close>

lemma flexible_restore_check:
  assumes "separate free" and "fits (fb_backing_offset b) (fb_map_size b)" and "fb_map_size b \<noteq> 0"
  shows "block_free free b \<longleftrightarrow>
    (\<forall>p. in_range (fb_backing_offset b) (fb_map_size b) p \<longrightarrow> sp_at free p) \<or>
    (\<exists>e. om_prev (fb_backing_offset b) free = Some e \<and> fst e + snd e < fb_backing_offset b)"
  by (rule block_free_exact [OF assms])

text \<open>The only free range is [0x14000, 0x44000); the block's backing at 0x50000 is not free.\<close>

theorem flexible_restore_check_witness:
  "block_free (fm_free sample_flexible) (hd (fm_allocated sample_flexible)\<lparr>fb_backing_offset := 0x50000\<rparr>) \<and>
   \<not> sp_at (fm_free sample_flexible) 0x50000"
proof -
  let ?b = "hd (fm_allocated sample_flexible)\<lparr>fb_backing_offset := 0x50000\<rparr>"
  have h: "separate (fm_free sample_flexible)" "fits (fb_backing_offset ?b) (fb_map_size ?b)" "fb_map_size ?b \<noteq> 0"
    by code_simp+
  have "om_prev (fb_backing_offset ?b) (fm_free sample_flexible) = Some (0x14000, 0x30000)" by code_simp
  moreover have "fst (0x14000, 0x30000) + snd (0x14000, 0x30000) < fb_backing_offset ?b" by code_simp
  moreover have "\<not> sp_at (fm_free sample_flexible) 0x50000" by code_simp
  ultimately show ?thesis using flexible_restore_check [OF h] by blast
qed

end
