(* ===== verification/PooledMemory.thy ===== *)
theory PooledMemory
  imports GuestSpace
begin

text \<open>
  Pooled memory: class \<open>PooledMemory\<close> of \<open>src/kernel/memory.cpp\<close>, with
  \<open>UnmapPooledBackingTransactional\<close> and the search for guest addresses \<open>FindGuestFreeRange\<close>.
  The pool is a set of physical ranges, the expansions, of which some are mapped and the rest are in
  \<open>m_free\<close>; \<open>m_mappings\<close> is in creation order, not sorted. \<open>std::sort\<close> is modelled by
  the stable sort; ranges with equal starts are merged, in either order.
\<close>

section \<open>State\<close>

record pool_mapping =
  pl_vaddr :: u64
  pl_size :: u64
  pl_phys :: u64
  pl_gpu_mode :: gpu_mode

record pooled_memory =
  pl_free :: spans
  pl_expansions :: spans
  pl_mappings :: "pool_mapping list"

definition pool_init :: pooled_memory where
  "pool_init = \<lparr>pl_free = [], pl_expansions = [], pl_mappings = []\<rparr>"

definition pl_end :: "pool_mapping \<Rightarrow> u64" where
  "pl_end m = pl_vaddr m + pl_size m"

section \<open>Free ranges\<close>

text \<open>One step of the merging loop; \<open>last merged\<close> is \<open>merged.back()\<close>.\<close>

definition merge_push :: "spans \<Rightarrow> u64 \<times> u64 \<Rightarrow> spans" where
  "merge_push merged e =
    (if merged \<noteq> [] \<and> fst e \<le> fst (last merged) + snd (last merged)
     then let end = max (fst (last merged) + snd (last merged)) (fst e + snd e)
          in butlast merged @ [(fst (last merged), end - fst (last merged))]
     else merged @ [e])"

definition pool_AddFreeUnlocked :: "u64 \<Rightarrow> u64 \<Rightarrow> spans \<Rightarrow> spans" where
  "pool_AddFreeUnlocked start sz free =
    (if sz = 0 then free
     else foldl merge_push [] (sort_key fst (free @ [(start, sz)])))"

definition pool_Expand :: "u64 \<Rightarrow> u64 \<Rightarrow> pooled_memory \<Rightarrow> pooled_memory" where
  "pool_Expand phys_addr sz pool =
    pool\<lparr>pl_expansions := pl_expansions pool @ [(phys_addr, sz)],
         pl_free := pool_AddFreeUnlocked phys_addr sz (pl_free pool)\<rparr>"

text \<open>The free range that contains the span is replaced by what is left of it.\<close>

definition pool_cut_free :: "u64 \<Rightarrow> u64 \<Rightarrow> spans \<Rightarrow> spans option" where
  "pool_cut_free phys_addr sz free =
    (let end = phys_addr + sz
     in case find (\<lambda>r. fst r \<le> phys_addr \<and> end \<le> fst r + snd r) free of
          None \<Rightarrow> None
        | Some old \<Rightarrow>
            let left_size = phys_addr - fst old;
                right_size = fst old + snd old - end
            in Some (sort_key fst (remove1 old free @
                 (if left_size \<noteq> 0 then [(fst old, left_size)] else []) @
                 (if right_size \<noteq> 0 then [(end, right_size)] else []))))"

definition pool_ReleaseExpansion :: "u64 \<Rightarrow> u64 \<Rightarrow> pooled_memory \<Rightarrow> bool \<times> pooled_memory" where
  "pool_ReleaseExpansion phys_addr sz pool =
    (if (phys_addr, sz) \<notin> set (pl_expansions pool) then (False, pool)
     else if list_ex (\<lambda>m. VirtualRangesOverlap phys_addr sz (pl_phys m) (pl_size m)) (pl_mappings pool)
     then (False, pool)
     else case pool_cut_free phys_addr sz (pl_free pool) of
            None \<Rightarrow> (False, pool)
          | Some free \<Rightarrow>
              (True, pool\<lparr>pl_free := free, pl_expansions := remove1 (phys_addr, sz) (pl_expansions pool)\<rparr>))"

section \<open>Allocation\<close>

fun pool_take :: "gpu_mode \<Rightarrow> u64 \<Rightarrow> u64 \<Rightarrow> spans \<Rightarrow> pool_mapping list \<times> spans \<times> u64" where
  "pool_take gpu_mode current remaining [] = ([], [], remaining)"
| "pool_take gpu_mode current remaining (e # es) =
    (if remaining = 0 \<or> snd e = 0
     then case pool_take gpu_mode current remaining es of (ms, free, r) \<Rightarrow> (ms, e # free, r)
     else
       let part_size = min (snd e) remaining
       in case pool_take gpu_mode (current + part_size) (remaining - part_size) es of (ms, free, r) \<Rightarrow>
            (\<lparr>pl_vaddr = current, pl_size = part_size, pl_phys = fst e, pl_gpu_mode = gpu_mode\<rparr> # ms,
             (fst e + part_size, snd e - part_size) # free, r))"

definition pool_Allocate :: "pooled_memory \<Rightarrow> u64 \<Rightarrow> u64 \<Rightarrow> gpu_mode \<Rightarrow>
    bool \<times> pool_mapping list \<times> pooled_memory" where
  "pool_Allocate pool vaddr sz gpu_mode =
    (if vaddr = 0 \<or> sz = 0 \<or> UINT64_MAX - vaddr < sz then (False, [], pool)
     else case pool_take gpu_mode vaddr sz (pl_free pool) of (ms, free, remaining) \<Rightarrow>
            if remaining \<noteq> 0 then (False, [], pool)
            else (True, ms, pool\<lparr>pl_free := filter (\<lambda>e. snd e \<noteq> 0) free,
                               pl_mappings := pl_mappings pool @ ms\<rparr>))"

section \<open>Queries and release\<close>

text \<open>The loop ends: each round moves \<open>current\<close> forward, inside a mapping that contains it.\<close>

function pool_walk :: "u64 \<Rightarrow> pool_mapping list \<Rightarrow> u64 \<Rightarrow> pool_mapping list option" where
  "pool_walk end ms current =
    (if current < end then
       case find (\<lambda>m. pl_vaddr m \<le> current \<and> current < pl_end m) ms of
         None \<Rightarrow> None
       | Some m \<Rightarrow>
           let part_size = min end (pl_end m) - current
           in map_option ((#) \<lparr>pl_vaddr = current, pl_size = part_size,
                               pl_phys = pl_phys m + (current - pl_vaddr m), pl_gpu_mode = pl_gpu_mode m\<rparr>)
                (pool_walk end ms (current + part_size))
     else Some [])"
  by pat_completeness auto
termination
proof (relation "measure (\<lambda>(end, ms, current). unat end - unat current)")
  fix end' :: u64 and ms :: "pool_mapping list" and current m x
  assume c: "current < end'" and f: "find (\<lambda>m. pl_vaddr m \<le> current \<and> current < pl_end m) ms = Some m"
    and x: "x = min end' (pl_end m) - current"
  have "current < min end' (pl_end m)" using c f by (auto simp: find_Some_iff)
  moreover have "current + x = min end' (pl_end m)" by (simp add: x)
  ultimately show "((end', ms, current + x), end', ms, current) \<in> measure (\<lambda>(end, ms, current). unat end - unat current)"
    using c by (simp add: word_less_nat_alt)
qed simp

declare pool_walk.simps [simp del]

definition pool_Query :: "pooled_memory \<Rightarrow> u64 \<Rightarrow> u64 \<Rightarrow> pool_mapping list option" where
  "pool_Query pool vaddr sz =
    (if vaddr = 0 \<or> sz = 0 \<or> UINT64_MAX - vaddr < sz then None
     else pool_walk (vaddr + sz) (pl_mappings pool) vaddr)"

definition pool_keep :: "u64 \<Rightarrow> u64 \<Rightarrow> pool_mapping \<Rightarrow> pool_mapping list" where
  "pool_keep vaddr sz m =
    (let cut_start = max vaddr (pl_vaddr m);
         cut_end = min (vaddr + sz) (pl_end m)
     in if cut_end \<le> cut_start then [m]
        else (if pl_vaddr m < cut_start then [m\<lparr>pl_size := cut_start - pl_vaddr m\<rparr>] else []) @
             (if cut_end < pl_end m
              then [m\<lparr>pl_vaddr := cut_end, pl_size := pl_end m - cut_end,
                      pl_phys := pl_phys m + (cut_end - pl_vaddr m)\<rparr>] else []))"

text \<open>The result is None for false, else the GPU mode written to the caller.\<close>

definition pool_Release :: "pooled_memory \<Rightarrow> u64 \<Rightarrow> u64 \<Rightarrow> gpu_mode option \<times> pooled_memory" where
  "pool_Release pool vaddr sz =
    (case pool_Query pool vaddr sz of
       None \<Rightarrow> (None, pool)
     | Some released \<Rightarrow>
         (Some (pl_gpu_mode (hd released)),
          pool\<lparr>pl_mappings := concat (map (pool_keep vaddr sz) (pl_mappings pool)),
               pl_free := foldl (\<lambda>free m. pool_AddFreeUnlocked (pl_phys m) (pl_size m) free)
                            (pl_free pool) released\<rparr>))"

definition pool_Available :: "pooled_memory \<Rightarrow> u64" where
  "pool_Available pool = foldl (\<lambda>available e. available + snd e) 0 (pl_free pool)"

definition pool_GetMappings :: "pooled_memory \<Rightarrow> pool_mapping list" where
  "pool_GetMappings pool = pl_mappings pool"

section \<open>Unmapping a pooled range from the guest\<close>

text \<open>The way back maps the removed parts again, newest first.\<close>

fun pool_remap :: "host \<Rightarrow> host_mode \<Rightarrow> pool_mapping list \<Rightarrow> guest \<Rightarrow> guest outcome" where
  "pool_remap host mode [] g = Done g"
| "pool_remap host mode (m # ms) g =
    obind (gs_MapBacking host g (pl_vaddr m) (pl_size m) (pl_phys m) mode)
      (\<lambda>(r, g'). if r = NoFailure then pool_remap host mode ms g' else Exit)"

fun pool_unmap_all :: "host \<Rightarrow> host_mode \<Rightarrow> pool_mapping list \<Rightarrow> pool_mapping list \<Rightarrow> guest \<Rightarrow>
    (bool \<times> guest) outcome" where
  "pool_unmap_all host mode [] removed g = Done (True, g)"
| "pool_unmap_all host mode (m # ms) removed g =
    obind (gs_UnmapBacking host g (pl_vaddr m) (pl_size m))
      (\<lambda>(ok, g'). if ok then pool_unmap_all host mode ms (m # removed) g'
                  else obind (pool_remap host mode removed g') (\<lambda>g''. Done (False, g'')))"

definition UnmapPooledBackingTransactional :: "host \<Rightarrow> pool_mapping list \<Rightarrow> host_mode \<Rightarrow> guest \<Rightarrow>
    (bool \<times> guest) outcome" where
  "UnmapPooledBackingTransactional host mappings mode g = pool_unmap_all host mode mappings [] g"

section \<open>Searching guest addresses\<close>

definition GUEST_DEFAULT_MAP_BASE :: u64 where "GUEST_DEFAULT_MAP_BASE = 0x200000000"

text \<open>The lambda \<open>find_in\<close>: it skips the virtual ranges that overlap a candidate.\<close>

function find_in :: "guest \<Rightarrow> vrange list \<Rightarrow> u64 \<Rightarrow> u64 \<Rightarrow> u64 \<Rightarrow> u64 \<Rightarrow> u64" where
  "find_in g rs sz alignment end current =
    (if current < end \<and> sz \<le> end - current then
       let candidate = gs_FindFreeAligned g current end sz alignment
       in if candidate = 0 then 0
          else case vr_QueryOverlap rs candidate sz of
                 None \<Rightarrow> candidate
               | Some overlap \<Rightarrow>
                   let overlap_end = vr_start overlap + vr_size overlap
                   in if overlap_end \<le> current then 0 else find_in g rs sz alignment end overlap_end
     else 0)"
  by pat_completeness auto
termination
  by (relation "measure (\<lambda>(g, rs, sz, alignment, end, current). unat end - unat current)")
    (auto simp: word_less_nat_alt word_le_nat_alt)

declare find_in.simps [simp del]

definition FindGuestFreeRange :: "guest \<Rightarrow> vrange list \<Rightarrow> u64 \<Rightarrow> u64 \<Rightarrow> u64 \<Rightarrow> u64" where
  "FindGuestFreeRange g rs search_addr sz alignment =
    (if search_addr \<noteq> 0 then find_in g rs sz alignment (HOST_USER_MAX + 1) search_addr
     else let addr = find_in g rs sz alignment (HOST_SYSTEM_MANAGED_MAX + 1) GUEST_DEFAULT_MAP_BASE
          in if addr = 0 then find_in g rs sz alignment (HOST_USER_MAX + 1) HOST_USER_MIN else addr)"

end
