(* ===== verification/PooledMemorySpec.thy ===== *)
theory PooledMemorySpec
  imports PooledMemory FlexibleMemoryEdit "HOL-Library.Multiset"
begin

text \<open>
  What the pool guarantees. Its merging of free ranges computes the same list as the one of direct
  memory, because a list of separated ranges is determined by its bytes. Its mappings are read as
  flexible blocks, so that the facts about cutting blocks carry over.
\<close>

section \<open>Free ranges\<close>

lemma separate_first:
  assumes "separate (e # m)" and "sp_at (e # m) a"
  shows "fst e \<le> a"
proof -
  have m: "span_ok e" "\<forall>f \<in> set m. fst e + snd e < fst f" using assms(1) by (auto simp: separate_Cons)
  consider "in_range (fst e) (snd e) a" | f where "f \<in> set m" "in_range (fst f) (snd f) a"
    using assms(2) by (auto simp: sp_at_def)
  then show ?thesis
  proof cases
    case 2
    then have "fst e + snd e < fst f" "fst f \<le> a" using m(2) by (auto simp: in_range_def)
    then show ?thesis using span_less [OF m(1)] by simp
  qed (simp add: in_range_def)
qed

lemma separate_gap:
  assumes "separate (e # m)"
  shows "\<not> sp_at (e # m) (fst e + snd e)" "fst e < fst e + snd e"
  using assms span_less [of e] by (auto simp: separate_Cons sp_at_def in_range_def)

lemma separate_unique:
  assumes "separate m" and "separate m'" and "\<And>a. sp_at m a \<longleftrightarrow> sp_at m' a"
  shows "m = m'"
  using assms
proof (induction m arbitrary: m')
  case Nil
  then show ?case
  proof (cases m')
    case (Cons d ds)
    have "sp_at m' (fst d)" using separate_gap(2) [of d ds] Nil.prems(2) by (simp add: Cons in_range_def)
    then show ?thesis using Nil.prems(3) by simp
  qed simp
next
  case (Cons e es)
  note E = separate_gap [OF Cons.prems(1)]
  have e0: "sp_at m' (fst e)" using E(2) Cons.prems(3) [of "fst e"] by (simp add: in_range_def)
  then obtain d ds where m': "m' = d # ds" by (cases m') auto
  note D = separate_gap [OF Cons.prems(2) [unfolded m']]
  have d0: "sp_at (e # es) (fst d)" using D(2) Cons.prems(3) [of "fst d"] by (simp add: m' in_range_def)
  have s: "fst e = fst d"
    using separate_first [OF Cons.prems(1) d0] separate_first [OF Cons.prems(2) [unfolded m'] e0 [unfolded m']] by simp
  have "\<not> fst e + snd e < fst d + snd d"
  proof
    assume "fst e + snd e < fst d + snd d"
    then have "in_range (fst d) (snd d) (fst e + snd e)" using E(2) by (auto simp: s in_range_def)
    then have "sp_at m' (fst e + snd e)" by (simp add: m')
    then show False using E(1) Cons.prems(3) by blast
  qed
  moreover have "\<not> fst d + snd d < fst e + snd e"
  proof
    assume "fst d + snd d < fst e + snd e"
    then have "in_range (fst e) (snd e) (fst d + snd d)" using D(2) by (auto simp: s in_range_def)
    then have "sp_at (e # es) (fst d + snd d)" by simp
    then show False using D(1) Cons.prems(3) [of "fst d + snd d"] by (simp add: m')
  qed
  ultimately have "fst e + snd e = fst d + snd d" by simp
  then have ed: "e = d" using s by (simp add: prod_eq_iff)
  have sub: "sp_at xs a \<longleftrightarrow> sp_at (e # xs) a \<and> \<not> in_range (fst e) (snd e) a" if "separate (e # xs)" for xs a
    using that by (auto simp: separate_Cons sp_at_def in_range_def)
  have "es = ds"
  proof (rule Cons.IH)
    show "separate es" "separate ds" using Cons.prems(1,2) by (auto simp: m' separate_Cons)
    show "sp_at es a \<longleftrightarrow> sp_at ds a" for a
      using sub [OF Cons.prems(1), of a] sub [of ds a] Cons.prems(2,3) by (simp add: m' ed)
  qed
  then show ?case by (simp add: m' ed)
qed

lemma join_two:
  assumes a: "span_ok a" and e: "span_ok e" and o: "fst a \<le> fst e" "fst e \<le> fst a + snd a"
  defines "n \<equiv> max (fst a + snd a) (fst e + snd e) - fst a"
  shows "span_ok (fst a, n)" and "in_range (fst a) n x \<longleftrightarrow> in_range (fst a) (snd a) x \<or> in_range (fst e) (snd e) x"
proof -
  have l: "fst a < fst a + snd a" "fst e < fst e + snd e" using a e by (auto intro: span_less)
  have s: "fst a + n = max (fst a + snd a) (fst e + snd e)" by (simp add: n_def)
  have lt: "fst a < fst a + n" unfolding s using l(1) by (rule order.strict_trans2) simp
  then have "fits (fst a) n" using fits_diff [of "fst a" "fst a + n"] by (simp add: less_imp_le)
  then show "span_ok (fst a, n)" using lt by (auto simp: span_ok_def)
  show "in_range (fst a) n x \<longleftrightarrow> in_range (fst a) (snd a) x \<or> in_range (fst e) (snd e) x"
    using o l unfolding in_range_def s by (auto simp: max_def)
qed

lemma merge_push_props:
  assumes m: "separate merged" and e: "span_ok e" and l: "merged \<noteq> [] \<Longrightarrow> fst (last merged) \<le> fst e"
  shows "separate (merge_push merged e)" "merge_push merged e \<noteq> []" "fst (last (merge_push merged e)) \<le> fst e"
    "sp_at (merge_push merged e) x \<longleftrightarrow> sp_at merged x \<or> in_range (fst e) (snd e) x"
proof -
  have "separate (merge_push merged e) \<and> merge_push merged e \<noteq> [] \<and> fst (last (merge_push merged e)) \<le> fst e \<and>
    (sp_at (merge_push merged e) x \<longleftrightarrow> sp_at merged x \<or> in_range (fst e) (snd e) x)"
  proof (cases "merged = []")
    case True
    then show ?thesis using e by (simp add: merge_push_def separate_Cons)
  next
    case False
    then obtain xs a where x: "merged = xs @ [a]" by (metis rev_exhaust)
    have a: "separate xs" "span_ok a" "\<forall>y \<in> set xs. fst y + snd y < fst a"
      using m by (auto simp: x separate_append separate_Cons)
    have le: "fst a \<le> fst e" using l False by (simp add: x)
    show ?thesis
    proof (cases "fst e \<le> fst a + snd a")
      case True
      note J = join_two [OF a(2) e le True]
      have "merge_push merged e = xs @ [(fst a, max (fst a + snd a) (fst e + snd e) - fst a)]"
        using True by (simp add: merge_push_def x Let_def)
      then show ?thesis using J(1) J(2) [of x] a le by (auto simp: x separate_append separate_Cons)
    next
      case n: False
      then have "merge_push merged e = xs @ [a, e]" by (simp add: merge_push_def x)
      moreover have "fst y + snd y < fst e" if "y \<in> set xs" for y
        using a(3) that n le by (auto intro: order.strict_trans2)
      ultimately show ?thesis using a e n m by (auto simp: x separate_append separate_Cons not_le)
    qed
  qed
  then show "separate (merge_push merged e)" "merge_push merged e \<noteq> []" "fst (last (merge_push merged e)) \<le> fst e"
    "sp_at (merge_push merged e) x \<longleftrightarrow> sp_at merged x \<or> in_range (fst e) (snd e) x" by blast+
qed

lemma merge_all:
  assumes "separate merged" and "\<forall>e \<in> set xs. span_ok e" and "sorted (map fst xs)"
    and "merged \<noteq> [] \<longrightarrow> (\<forall>e \<in> set xs. fst (last merged) \<le> fst e)"
  shows "separate (foldl merge_push merged xs) \<and> (\<forall>a. sp_at (foldl merge_push merged xs) a \<longleftrightarrow> sp_at merged a \<or> sp_at xs a)"
  using assms
proof (induction xs arbitrary: merged)
  case (Cons e xs)
  have P: "separate (merge_push merged e)" "fst (last (merge_push merged e)) \<le> fst e"
    "\<And>x. sp_at (merge_push merged e) x \<longleftrightarrow> sp_at merged x \<or> in_range (fst e) (snd e) x"
    using merge_push_props [of merged e] Cons.prems by auto
  have "\<forall>y \<in> set xs. fst (last (merge_push merged e)) \<le> fst y" using P(2) Cons.prems(3) by (auto intro: order_trans)
  then show ?case using Cons.IH [OF P(1)] P(3) Cons.prems(2,3) by simp
qed simp

lemma pool_add_props:
  assumes m: "separate free" and f: "fits s z" "z \<noteq> 0"
  shows "separate (pool_AddFreeUnlocked s z free)"
    and "sp_at (pool_AddFreeUnlocked s z free) a \<longleftrightarrow> sp_at free a \<or> in_range s z a"
proof -
  let ?xs = "sort_key fst (free @ [(s, z)])"
  have ok: "\<forall>e \<in> set ?xs. span_ok e" using f disjoint_ok [OF separate_disjoint [OF m]] by (auto simp: span_ok_def)
  have "sp_at ?xs a \<longleftrightarrow> sp_at free a \<or> in_range s z a" for a by (auto simp: sp_at_def)
  then show "separate (pool_AddFreeUnlocked s z free)"
    and "sp_at (pool_AddFreeUnlocked s z free) a \<longleftrightarrow> sp_at free a \<or> in_range s z a"
    using merge_all [of "[]" ?xs] ok f by (simp_all add: pool_AddFreeUnlocked_def del: sort_key_simps)
qed

lemma pool_add_eq: "separate free \<Longrightarrow> fits s z \<Longrightarrow> z \<noteq> 0 \<Longrightarrow> pool_AddFreeUnlocked s z free = AddFreeRange s z free"
  by (rule separate_unique) (simp_all add: pool_add_props AddFreeRange_props)

lemma sort_separate:
  assumes "separate m" and "mset xs = mset m"
  shows "sort_key fst xs = m"
proof -
  have o: "sorted_wrt (<) (map fst m)"
    using disjoint_ordered [OF separate_disjoint [OF assms(1)]] by (simp add: ordered_def)
  then have d: "distinct (map fst m)" "sorted (map fst m)" by (auto simp: strict_sorted_iff)
  have e: "mset (sort_key fst xs) = mset m" unfolding mset_sort by (rule assms(2))
  then have "mset (map fst (sort_key fst xs)) = mset (map fst m)" by (simp only: mset_map)
  then have "distinct (map fst (sort_key fst xs))" using d(1) mset_eq_imp_distinct_iff by blast
  moreover have "set (sort_key fst xs) = set m" using e by (rule mset_eq_setD)
  moreover have "inj_on fst (set m)" using d(1) by (simp add: distinct_map)
  ultimately show ?thesis using d by (intro map_sorted_distinct_set_unique [of fst]) (simp_all only: Un_absorb sorted_sort_key)
qed

definition pool_remove :: "u64 \<Rightarrow> u64 \<Rightarrow> spans \<Rightarrow> spans" where
  "pool_remove s z free = (case pool_cut_free s z free of None \<Rightarrow> free | Some free' \<Rightarrow> free')"

lemma pool_cut_props:
  assumes m: "separate free" and f: "fits s z" "z \<noteq> 0"
  shows "(pool_cut_free s z free = None) \<longleftrightarrow> \<not> (\<forall>a. in_range s z a \<longrightarrow> sp_at free a)"
    and "pool_cut_free s z free = Some free' \<Longrightarrow> separate free' \<and>
      (\<forall>a. sp_at free' a \<longleftrightarrow> sp_at free a \<and> \<not> in_range s z a)"
proof -
  let ?P = "\<lambda>r. fst r \<le> s \<and> s + z \<le> fst r + snd r"
  have sub: "sp_at free a" if "r \<in> set free" "?P r" "in_range s z a" for r a
    using that unfolding sp_at_def in_range_def by (blast intro: order_trans order.strict_trans2)
  have in1: "\<exists>r \<in> set free. ?P r" if "\<forall>a. in_range s z a \<longrightarrow> sp_at free a"
    using span_in_one [OF m f] that by force
  show "(pool_cut_free s z free = None) \<longleftrightarrow> \<not> (\<forall>a. in_range s z a \<longrightarrow> sp_at free a)"
  proof (cases "find ?P free")
    case None
    have "pool_cut_free s z free = None" using None by (simp add: pool_cut_free_def)
    moreover have "\<not> (\<exists>r \<in> set free. ?P r)" using None by (simp add: find_None_iff)
    ultimately show ?thesis using in1 by blast
  next
    case (Some r)
    then have "r \<in> set free" "?P r" by (auto simp: find_Some_iff)
    then show ?thesis using Some sub by (auto simp: pool_cut_free_def Let_def)
  qed
  assume c: "pool_cut_free s z free = Some free'"
  then obtain e where e: "find ?P free = Some e" by (cases "find ?P free") (auto simp: pool_cut_free_def Let_def)
  then have "?P e" "e \<in> set free" by (auto simp: find_Some_iff)
  then obtain xs ys where x: "free = xs @ e # ys" "?P e" "e \<notin> set xs" using split_list_first by metis
  have se: "s < s + z" by (rule fits_less [OF f])
  have "free' = sort_key fst ((xs @ ys) @ left_part e s @ right_part e (s + z))"
    using c e x(2,3) se
    by (simp add: pool_cut_free_def Let_def x(1) remove1_append left_part_def right_part_def)
      (auto simp: order.order_iff_strict)
  moreover have C: "separate (xs @ (left_part e s @ right_part e (s + z)) @ ys)"
    "\<And>a. sp_at (xs @ (left_part e s @ right_part e (s + z)) @ ys) a \<longleftrightarrow> sp_at free a \<and> \<not> in_range s z a"
    using cut_props [OF m [unfolded x(1)] _ f] x(2) by (simp_all add: x(1))
  moreover have "sort_key fst ((xs @ ys) @ left_part e s @ right_part e (s + z)) = xs @ (left_part e s @ right_part e (s + z)) @ ys"
    by (rule sort_separate [OF C(1)]) simp
  ultimately show "separate free' \<and> (\<forall>a. sp_at free' a \<longleftrightarrow> sp_at free a \<and> \<not> in_range s z a)" by simp
qed

interpretation pool_ranges: free_space separate sp_at pool_remove pool_AddFreeUnlocked 0
proof unfold_locales
  fix f s z a
  assume m: "separate f" "fits s z" "z \<noteq> 0"
  {
    assume "\<And>a. in_range s z a \<Longrightarrow> sp_at f a"
    then obtain f' where "pool_cut_free s z f = Some f'" using pool_cut_props(1) [OF m] by auto
    then show "separate (pool_remove s z f)" "sp_at (pool_remove s z f) a \<longleftrightarrow> sp_at f a \<and> \<not> in_range s z a"
      using pool_cut_props(2) [OF m] by (auto simp: pool_remove_def)
  }
  show "separate (pool_AddFreeUnlocked s z f)" "sp_at (pool_AddFreeUnlocked s z f) a \<longleftrightarrow> sp_at f a \<or> in_range s z a"
    using pool_add_props [OF m] by auto
qed

section \<open>Mappings as flexible blocks\<close>

definition to_block :: "pool_mapping \<Rightarrow> fm_block" where
  "to_block m = \<lparr>fb_map_vaddr = pl_vaddr m, fb_map_size = pl_size m, fb_backing_offset = pl_phys m,
     fb_host_vaddr = 0, fb_host_size = 0, fb_prot = 0, fb_mode = NoAccess, fb_gpu_mode = pl_gpu_mode m, fb_name = []\<rparr>"

abbreviation blocks :: "pool_mapping list \<Rightarrow> fm_block list" where
  "blocks \<equiv> map to_block"

lemma to_block_simps [simp]:
  "fb_map_vaddr (to_block m) = pl_vaddr m" "fb_map_size (to_block m) = pl_size m"
  "fb_backing_offset (to_block m) = pl_phys m" "fb_gpu_mode (to_block m) = pl_gpu_mode m"
  "fb_end (to_block m) = pl_end m" "fmaps.rend (to_block m) = pl_end m"
  by (simp_all add: to_block_def fb_end_def pl_end_def fmaps.rend_def)

lemma keep_block:
  assumes "fmaps.rok (to_block m)" and f: "fits v z" "z \<noteq> 0"
  shows "blocks (pool_keep v z m) = fst (unmap_block v z (to_block m))"
proof -
  have lt: "v < v + z" "pl_vaddr m < pl_end m"
    using fits_less [OF f] fmaps.rok_less [OF assms(1)] by auto
  have "min (v + z) (pl_end m) \<le> max v (pl_vaddr m) \<longleftrightarrow> \<not> (v < pl_end m \<and> pl_vaddr m < v + z)"
    using lt by (auto simp: min_def max_def not_less not_le)
  then show ?thesis
    using overlap_block [OF assms(1) f]
    by (simp add: pool_keep_def unmap_block_def Let_def) (simp add: to_block_def add_diff_eq)
qed

text \<open>A list of parts that tile a span of the blocks.\<close>

definition tiles :: "fm_block list \<Rightarrow> u64 \<Rightarrow> u64 \<Rightarrow> fm_block list \<Rightarrow> bool" where
  "tiles bs c e ps \<longleftrightarrow> fmaps.rwf ps \<and> fback.rwf ps \<and>
     (\<forall>a. fmaps.look ps a = (if c \<le> a \<and> a < e then fmaps.look bs a else None)) \<and>
     (\<forall>a. c \<le> a \<and> a < e \<longrightarrow> fmaps.covered bs a) \<and>
     (\<forall>p. fback.covered ps p \<longleftrightarrow> (\<exists>b \<in> set bs. fback.rcov b p \<and> c \<le> back_attr b p \<and> back_attr b p < e))"

lemma tiles_Nil: "tiles bs e e []"
  by (auto simp: tiles_def)

lemma rwf_unique:
  assumes "fmaps.rwf bs" "b \<in> set bs" "d \<in> set bs" "fmaps.rcov b a" "fmaps.rcov d a"
  shows "d = b"
proof (rule ccontr)
  assume ne: "d \<noteq> b"
  obtain us vs where bs: "bs = us @ b # vs" using split_list [OF assms(2)] by blast
  then have "d \<in> set us \<or> d \<in> set vs" using assms(3) ne by auto
  then have "fmaps.apart b d" using assms(1) bs by (auto simp: fmaps.rwf_append fmaps.rwf_Cons dest: fmaps.apart_sym)
  then show False using assms(4,5) by (auto simp: fmaps.apart_def)
qed

lemma tiles_Cons:
  assumes w: "fmaps.rwf bs" "fback.rwf bs" and b: "b \<in> set bs"
    and n: "fb_map_vaddr b \<le> c" "c < n" "n \<le> fmaps.rend b" "n \<le> e" and t: "tiles bs n e ps"
  shows "tiles bs c e (block_cut c n b # ps)"
proof -
  define p where "p = block_cut c n b"
  have bo: "fmaps.rok b" "fback.rok b" using fmaps.rok_in [OF w(1) b] fback.rok_in [OF w(2) b] .
  have T: "fmaps.rwf ps" "fback.rwf ps" "\<And>a. fmaps.look ps a = (if n \<le> a \<and> a < e then fmaps.look bs a else None)"
    "\<And>a. n \<le> a \<and> a < e \<Longrightarrow> fmaps.covered bs a"
    "\<And>q. fback.covered ps q \<longleftrightarrow> (\<exists>d \<in> set bs. fback.rcov d q \<and> n \<le> back_attr d q \<and> back_attr d q < e)"
    using t by (auto simp: tiles_def)
  have pr: "fmaps.rok p" "fmaps.rcov p a \<longleftrightarrow> c \<le> a \<and> a < n" for a
    unfolding p_def using fmaps.rcut_props [OF n(2), of b] by auto
  note C = block_cut_back [OF bo n(1,2,3), folded p_def]
  have at: "block_attr p a = block_attr b a" for a unfolding p_def by (rule fmaps.cut_attr)
  have inb: "fmaps.rcov b a" if "c \<le> a" "a < n" for a
    using n(1,3) that unfolding fmaps.rcov_iff by (blast intro: order_trans order.strict_trans2)
  have nc: "\<not> (fmaps.rcov p a \<and> fmaps.covered ps a)" for a
  proof -
    have "fmaps.covered ps a \<Longrightarrow> n \<le> a" using T(3) [of a] fmaps.look_covered [of ps a] by (auto split: if_splits)
    then show ?thesis using pr(2) [of a] by auto
  qed
  have bn: "back_attr d q < n \<Longrightarrow> c \<le> back_attr d q \<Longrightarrow> d = b" if "d \<in> set bs" "fback.rcov d q" for d q
    using rwf_unique [OF w(1) b that(1)] inb block_at_back [OF fmaps.rok_in [OF w(1) that(1)] fback.rok_in [OF w(2) that(1)] that(2)] by blast
  have uq: "d = b" if "d \<in> set bs" "fback.rcov d q" "fback.rcov b q" for d q
  proof (rule ccontr)
    assume ne: "d \<noteq> b"
    obtain us vs where bs: "bs = us @ b # vs" using split_list [OF b] by blast
    then have "d \<in> set us \<or> d \<in> set vs" using that(1) ne by auto
    then have "fback.apart b d" using w(2) bs by (auto simp: fback.rwf_append fback.rwf_Cons dest: fback.apart_sym)
    then show False using that by (auto simp: fback.apart_def)
  qed
  have bp: "\<not> (fback.rcov p q \<and> fback.covered ps q)" for q
    using C(2) [of q] T(5) [of q] uq by (metis leD)
  have "fmaps.rwf (p # ps)" using pr(1) T(1) nc by (auto simp: fmaps.rwf_Cons fmaps.apart_def fmaps.covered_def)
  moreover have "fback.rwf (p # ps)" using C(1) T(2) bp by (auto simp: fback.rwf_Cons fback.apart_def fback.covered_def)
  moreover have "fmaps.look (p # ps) a = (if c \<le> a \<and> a < e then fmaps.look bs a else None)" for a
  proof (cases "c \<le> a \<and> a < n")
    case True
    then have "fmaps.look bs a = Some (block_attr b a)" using fmaps.look_member [OF w(1) b inb] by blast
    then show ?thesis using True n(4) pr(2) [of a] at by (auto simp: fmaps.look_Cons)
  next
    case False
    then show ?thesis using pr(2) [of a] T(3) [of a] n(2) by (auto simp: fmaps.look_Cons not_less)
  qed
  moreover have "fmaps.covered bs a" if "c \<le> a \<and> a < e" for a
  proof (cases "a < n")
    case True
    then show ?thesis using inb [of a] that b by (auto simp: fmaps.covered_def)
  next
    case False
    then show ?thesis using T(4) [of a] that by (simp add: not_less)
  qed
  moreover have "fback.covered (p # ps) q \<longleftrightarrow> (\<exists>d \<in> set bs. fback.rcov d q \<and> c \<le> back_attr d q \<and> back_attr d q < e)"
    (is "?L \<longleftrightarrow> ?R") for q
  proof
    assume ?L
    then show ?R using C(2) [of q] T(5) [of q] b n(2,4) by (auto intro: less_imp_le order_trans order.strict_trans2)
  next
    assume ?R
    then obtain d where d: "d \<in> set bs" "fback.rcov d q" "c \<le> back_attr d q" "back_attr d q < e" by blast
    show ?L
    proof (cases "back_attr d q < n")
      case True
      then show ?thesis using bn [OF d(1,2)] d C(2) [of q] by auto
    next
      case False
      then show ?thesis using d T(5) [of q] by (auto simp: not_less)
    qed
  qed
  ultimately show ?thesis unfolding p_def [symmetric] tiles_def by blast
qed

lemma pool_walk_props:
  assumes "fmaps.rwf (blocks ms)" and "fback.rwf (blocks ms)" and "c \<le> e"
  shows "case pool_walk e ms c of
      None \<Rightarrow> \<exists>a. c \<le> a \<and> a < e \<and> \<not> fmaps.covered (blocks ms) a
    | Some ps \<Rightarrow> tiles (blocks ms) c e (blocks ps) \<and> (c < e \<longrightarrow> ps \<noteq> [])"
  using assms
proof (induction e ms c rule: pool_walk.induct)
  case (1 e ms c)
  show ?case
  proof (cases "c < e")
    case False
    then show ?thesis using "1.prems"(3) tiles_Nil [of "blocks ms" e] by (subst pool_walk.simps) simp
  next
    case True
    show ?thesis
    proof (cases "find (\<lambda>m. pl_vaddr m \<le> c \<and> c < pl_end m) ms")
      case None
      then have "\<not> fmaps.covered (blocks ms) c"
        by (auto simp: find_None_iff fmaps.covered_def fmaps.rcov_iff)
      then show ?thesis using None True by (subst pool_walk.simps) auto
    next
      case (Some m)
      then have m: "m \<in> set ms" "pl_vaddr m \<le> c" "c < pl_end m" by (auto simp: find_Some_iff)
      define n where "n = min e (pl_end m)"
      have n: "c < n" "n \<le> e" "n \<le> pl_end m" "c + (n - c) = n" using True m(3) by (auto simp: n_def)
      let ?p = "\<lparr>pl_vaddr = c, pl_size = n - c, pl_phys = pl_phys m + (c - pl_vaddr m), pl_gpu_mode = pl_gpu_mode m\<rparr>"
      have p: "to_block ?p = block_cut c n (to_block m)" by (simp add: to_block_def block_cut_def)
      have st: "pool_walk e ms c = map_option ((#) ?p) (pool_walk e ms n)"
        using Some True n(4) by (subst pool_walk.simps) (simp add: Let_def flip: n_def)
      have IH: "case pool_walk e ms n of
          None \<Rightarrow> \<exists>a. n \<le> a \<and> a < e \<and> \<not> fmaps.covered (blocks ms) a
        | Some ps \<Rightarrow> tiles (blocks ms) n e (blocks ps) \<and> (n < e \<longrightarrow> ps \<noteq> [])"
        using "1.IH" [OF True Some refl] "1.prems"(1,2) n(2) unfolding n_def [symmetric] n(4) by simp
      have mb: "to_block m \<in> set (blocks ms)" using m(1) by simp
      show ?thesis
      proof (cases "pool_walk e ms n")
        case None
        then show ?thesis using IH n(1) unfolding st by (auto intro: less_imp_le order_trans)
      next
        case (Some ps)
        then have "tiles (blocks ms) n e (blocks ps)" using IH by simp
        then have "tiles (blocks ms) c e (block_cut c n (to_block m) # blocks ps)"
          using m(2) n by (intro tiles_Cons [OF "1.prems"(1,2) mb]) simp_all
        then show ?thesis using Some unfolding st by (simp add: p)
      qed
    qed
  qed
qed

section \<open>Taking ranges\<close>

definition pool_tmpl :: "gpu_mode \<Rightarrow> fm_block" where
  "pool_tmpl gpu = to_block \<lparr>pl_vaddr = 0, pl_size = 0, pl_phys = 0, pl_gpu_mode = gpu\<rparr>"

lemma take_zero: "pool_take gpu cur 0 free = ([], free, 0)"
  by (induction free) simp_all

lemma no_empty: "separate free \<Longrightarrow> filter (\<lambda>e. snd e \<noteq> 0) free = free"
  by (auto simp: filter_id_conv span_ok_def dest: disjoint_ok [OF separate_disjoint])

lemma pool_take_props:
  assumes "separate free" and "fits cur rem" and "pool_take gpu cur rem free = (ms, free', r)"
  shows "map_chunks (pool_tmpl gpu) cur rem free = (blocks ms, r) \<and> separate (filter (\<lambda>e. snd e \<noteq> 0) free') \<and>
    (\<forall>p. sp_at (filter (\<lambda>e. snd e \<noteq> 0) free') p \<longleftrightarrow> sp_at free p \<and> \<not> fback.covered (blocks ms) p)"
  using assms
proof (induction free arbitrary: cur rem ms free' r)
  case Nil
  then show ?case by simp
next
  case (Cons e es)
  show ?case
  proof (cases "rem = 0")
    case True
    then have "ms = []" "free' = e # es" "r = 0" using Cons.prems(3) by (simp_all add: take_zero split: prod.splits)
    then show ?thesis using True Cons.prems(1) no_empty [OF Cons.prems(1)] by simp
  next
    case False
    have e: "snd e \<noteq> 0" "fits (fst e) (snd e)" "separate es" "\<forall>x \<in> set es. fst e + snd e < fst x"
      using Cons.prems(1) by (auto simp: separate_Cons span_ok_def)
    define part where "part = min rem (snd e)"
    have pt: "part \<noteq> 0" "part \<le> rem" "part \<le> snd e" using False e(1) by (auto simp: part_def min_def)
    obtain ms' f r' where t: "pool_take gpu (cur + part) (rem - part) es = (ms', f, r')" by (metis prod_cases3)
    let ?m = "\<lparr>pl_vaddr = cur, pl_size = part, pl_phys = fst e, pl_gpu_mode = gpu\<rparr>"
    have eq: "ms = ?m # ms'" "free' = (fst e + part, snd e - part) # f" "r = r'"
      using Cons.prems(3) False e(1) t by (auto simp: Let_def part_def min.commute split: prod.splits)
    have fc: "fits cur part" by (rule fits_mono [OF Cons.prems(2) pt(2)])
    have fr: "fits (cur + part) (rem - part)"
      using Cons.prems(2) pt(2) unat_add_fits [OF fc] by (simp add: fits_unat unat_sub word_le_nat_alt)
    let ?f = "filter (\<lambda>e. snd e \<noteq> 0) f"
    have IH: "map_chunks (pool_tmpl gpu) (cur + part) (rem - part) es = (blocks ms', r')" "separate ?f"
      "\<And>p. sp_at ?f p \<longleftrightarrow> sp_at es p \<and> \<not> fback.covered (blocks ms') p"
      using Cons.IH [OF e(3) fr t] by auto
    have mc: "map_chunks (pool_tmpl gpu) cur rem (e # es) = (blocks ms, r)"
      using False IH(1) by (simp add: eq Let_def part_def [symmetric]) (simp add: pool_tmpl_def to_block_def)
    have fp: "fst e \<le> fst e + part" "fst e + part \<le> fst e + snd e"
      using fits_le [OF fits_mono [OF e(2) pt(3)]] unat_add_fits [OF fits_mono [OF e(2) pt(3)]] unat_add_fits [OF e(2)] pt(3)
      by (simp_all add: word_le_nat_alt)
    have d: "fst e + snd e - (fst e + part) = snd e - part" by simp
    have rp: "filter (\<lambda>e. snd e \<noteq> 0) free' = right_part e (fst e + part) @ ?f"
      using fp(2) by (auto simp: eq right_part_def d order.order_iff_strict)
    have later: "fst e + snd e < fst x" if "x \<in> set ?f" for x
    proof -
      have "sp_at ?f (fst x)" using that disjoint_ok [OF separate_disjoint [OF IH(2)] that] span_less [of x]
        unfolding sp_at_def in_range_def by blast
      then obtain y where "y \<in> set es" "fst y \<le> fst x" using IH(3) by (auto simp: sp_at_def in_range_def)
      then show ?thesis using e(4) by (auto intro: order.strict_trans2)
    qed
    have rpo: "span_ok x \<and> fst x + snd x = fst e + snd e \<and> in_range (fst x) (snd x) = in_range (fst e + part) (snd e - part)"
      if "x \<in> set (right_part e (fst e + part))" for x
      using that fits_diff [of "fst e + part" "fst e + snd e"] fp by (auto simp: right_part_def span_ok_def d split: if_splits)
    have "separate (right_part e (fst e + part) @ ?f)"
      using IH(2) rpo later by (auto simp: separate_append right_part_def separate_Cons)
    moreover have "sp_at (filter (\<lambda>e. snd e \<noteq> 0) free') p \<longleftrightarrow> sp_at (e # es) p \<and> \<not> fback.covered (blocks ms) p" for p
    proof -
      have "sp_at (right_part e (fst e + part)) p \<longleftrightarrow> fst e + part \<le> p \<and> p < fst e + snd e"
        by (auto simp: right_part_def in_range_def)
      moreover have "sp_at es p \<Longrightarrow> \<not> (fst e \<le> p \<and> p < fst e + snd e)"
        using e(4) by (auto simp: sp_at_def in_range_def)
      moreover have "fback.covered (blocks ms') p \<Longrightarrow> sp_at es p"
        using map_chunks_props [OF e(3) fr IH(1)] by blast
      moreover have "p < fst e + part \<Longrightarrow> p < fst e + snd e" "fst e + part \<le> p \<Longrightarrow> fst e \<le> p"
        using fp by auto
      moreover have "fback.covered (blocks ms) p \<longleftrightarrow> fst e \<le> p \<and> p < fst e + part \<or> fback.covered (blocks ms') p"
        by (simp add: eq fback.rcov_def in_range_def)
      ultimately show ?thesis unfolding rp sp_at_append sp_at_Cons in_range_def IH(3) by (meson not_le)
    qed
    ultimately show ?thesis using mc unfolding rp by blast
  qed
qed

section \<open>The invariant\<close>

interpretation exps: regions fst snd "\<lambda>_ _. ()" "\<lambda>s t _. (s, t - s)"
  by unfold_locales simp_all

lemma exps_covered: "exps.covered xs = sp_at xs"
  by (auto simp: fun_eq_iff exps.covered_def exps.rcov_def sp_at_def)

definition pool_view :: "pooled_memory \<Rightarrow> u64 \<Rightarrow> (u64 \<times> gpu_mode) option" where
  "pool_view pool a = map_option (\<lambda>m. (pl_phys m + (a - pl_vaddr m), pl_gpu_mode m))
     (find (\<lambda>m. pl_vaddr m \<le> a \<and> a < pl_end m) (pl_mappings pool))"

definition pool_ok :: "pooled_memory \<Rightarrow> bool" where
  "pool_ok pool \<longleftrightarrow> separate (pl_free pool) \<and> fmaps.rwf (blocks (pl_mappings pool)) \<and>
     fback.rwf (blocks (pl_mappings pool)) \<and> exps.rwf (pl_expansions pool) \<and>
     (\<forall>p. sp_at (pl_free pool) p \<longrightarrow> \<not> fback.covered (blocks (pl_mappings pool)) p) \<and>
     (\<forall>p. sp_at (pl_expansions pool) p \<longleftrightarrow> sp_at (pl_free pool) p \<or> fback.covered (blocks (pl_mappings pool)) p)"

lemma pool_okD:
  assumes "pool_ok pool"
  shows "separate (pl_free pool)" "fmaps.rwf (blocks (pl_mappings pool))" "fback.rwf (blocks (pl_mappings pool))"
    "exps.rwf (pl_expansions pool)" "sp_at (pl_free pool) p \<Longrightarrow> \<not> fback.covered (blocks (pl_mappings pool)) p"
    "sp_at (pl_expansions pool) p \<longleftrightarrow> sp_at (pl_free pool) p \<or> fback.covered (blocks (pl_mappings pool)) p"
  using assms by (auto simp: pool_ok_def)

lemma find_map: "find P (map f xs) = map_option f (find (\<lambda>x. P (f x)) xs)"
  by (induction xs) simp_all

lemma pool_view_look: "pool_view pool a = map_option (\<lambda>b. (fb_backing_offset b, fb_gpu_mode b)) (fmaps.look (blocks (pl_mappings pool)) a)"
  by (simp add: pool_view_def fmaps.look_def find_map comp_def fmaps.rcov_iff option.map_comp)
    (auto simp: block_attr_def intro!: option.map_cong)

lemma pool_view_covered: "pool_view pool a \<noteq> None \<longleftrightarrow> fmaps.covered (blocks (pl_mappings pool)) a"
  using fmaps.look_covered [of "blocks (pl_mappings pool)" a] by (simp add: pool_view_look)

lemma free_card: "separate m \<Longrightarrow> unat (foldl (\<lambda>s e. s + snd e) 0 m) = card {a. sp_at m a}"
proof -
  assume m: "separate m"
  have fold: "foldl (\<lambda>s e. s + snd e) c m = c + of_nat (sum_list (map (unat \<circ> snd) m))" for c :: u64 and m :: spans
    by (induction m arbitrary: c) (simp_all add: add.assoc)
  have "{a. sp_at m a} \<subseteq> {a. in_range 0 UINT64_MAX a}"
  proof
    fix a assume "a \<in> {a. sp_at m a}"
    then obtain e where "fst e \<le> a" "a < fst e + snd e" using sp_at_bound [OF separate_disjoint [OF m]] by blast
    then show "a \<in> {a. in_range 0 UINT64_MAX a}" using less_max by (auto simp: in_range_def)
  qed
  then have "card {a. sp_at m a} \<le> card {a. in_range 0 UINT64_MAX a}" by (intro card_mono) simp_all
  also have "\<dots> = unat UINT64_MAX" by (rule in_range_card(2)) (simp add: fits_def)
  finally have "card {a. sp_at m a} < 2 ^ 64" using u64_less [of UINT64_MAX] by simp
  then show ?thesis unfolding fold card_disjoint [OF separate_disjoint [OF m]] by (simp only: add_0 unat_of_nat_u64)
qed

lemma pool_available: "pool_ok pool \<Longrightarrow> unat (pool_Available pool) = card {p. sp_at (pl_free pool) p}"
  by (simp add: pool_Available_def free_card pool_okD(1))

section \<open>Allocate\<close>

lemma pool_Allocate_props:
  assumes ok: "pool_ok pool" and n: "\<forall>a. fits v z \<and> in_range v z a \<longrightarrow> pool_view pool a = None"
  shows "case pool_Allocate pool v z gpu of (did, ms, pool') \<Rightarrow> pool_ok pool' \<and>
    (did \<longleftrightarrow> v \<noteq> 0 \<and> z \<noteq> 0 \<and> fits v z \<and> z \<le> pool_Available pool) \<and>
    (if did then pool_Available pool' = pool_Available pool - z \<and> pl_expansions pool' = pl_expansions pool \<and>
        pl_mappings pool' = pl_mappings pool @ ms \<and> fmaps.covered (blocks ms) = in_range v z \<and>
        fmaps.rwf (blocks ms) \<and> fback.rwf (blocks ms) \<and>
        (\<forall>p. sp_at (pl_free pool') p \<longleftrightarrow> sp_at (pl_free pool) p \<and> \<not> fback.covered (blocks ms) p) \<and>
        (\<forall>p. fback.covered (blocks ms) p \<longrightarrow> sp_at (pl_free pool) p) \<and>
        (\<forall>a. if in_range v z a then map_option snd (pool_view pool' a) = Some gpu else pool_view pool' a = pool_view pool a)
     else pool' = pool \<and> ms = [])"
proof (cases "v = 0 \<or> z = 0 \<or> \<not> fits v z")
  case True
  then have "pool_Allocate pool v z gpu = (False, [], pool)" by (auto simp: pool_Allocate_def not_fits)
  then show ?thesis using True ok by auto
next
  case False
  then have f: "v \<noteq> 0" "z \<noteq> 0" "fits v z" by auto
  have n': "in_range v z a \<Longrightarrow> pool_view pool a = None" for a using n f(3) by blast
  note P = pool_okD [OF ok]
  obtain ms free r where t: "pool_take gpu v z (pl_free pool) = (ms, free, r)" by (metis prod_cases3)
  have T: "map_chunks (pool_tmpl gpu) v z (pl_free pool) = (blocks ms, r)" "separate (filter (\<lambda>e. snd e \<noteq> 0) free)"
    "\<And>p. sp_at (filter (\<lambda>e. snd e \<noteq> 0) free) p \<longleftrightarrow> sp_at (pl_free pool) p \<and> \<not> fback.covered (blocks ms) p"
    using pool_take_props [OF P(1) f(3) t] by auto
  have M: "unat r = unat z - sum_list (map (unat \<circ> snd) (pl_free pool))" "fmaps.rwf (blocks ms)"
    "\<And>a. fmaps.covered (blocks ms) a \<longleftrightarrow> in_range v (z - r) a" "fback.rwf (blocks ms)"
    "\<And>p. fback.covered (blocks ms) p \<Longrightarrow> sp_at (pl_free pool) p"
    "\<forall>b \<in> set (blocks ms). \<exists>v z o'. b = pool_tmpl gpu\<lparr>fb_map_vaddr := v, fb_map_size := z, fb_backing_offset := o'\<rparr>"
    using map_chunks_props [OF P(1) f(3) T(1)] by blast+
  have r: "r = 0 \<longleftrightarrow> z \<le> pool_Available pool"
    using M(1) pool_available [OF ok] card_disjoint [OF separate_disjoint [OF P(1)]]
    by (simp add: unat_eq_0 [symmetric] word_le_nat_alt)
  show ?thesis
  proof (cases "r = 0")
    case n: False
    then have "pool_Allocate pool v z gpu = (False, [], pool)" using f t by (simp add: pool_Allocate_def not_fits)
    then show ?thesis using n r ok by auto
  next
    case y: True
    let ?pool = "pool\<lparr>pl_free := filter (\<lambda>e. snd e \<noteq> 0) free, pl_mappings := pl_mappings pool @ ms\<rparr>"
    have X: "pool_Allocate pool v z gpu = (True, ms, ?pool)" using y f t by (simp add: pool_Allocate_def not_fits)
    have cov: "fmaps.covered (blocks ms) = in_range v z" using M(3) y by (simp add: fun_eq_iff)
    have nv: "\<not> (fmaps.covered (blocks (pl_mappings pool)) a \<and> fmaps.covered (blocks ms) a)" for a
      using n' pool_view_covered [of pool a] cov by auto
    have nb: "\<not> (fback.covered (blocks (pl_mappings pool)) p \<and> fback.covered (blocks ms) p)" for p
      using P(5) M(5) by blast
    have w: "fmaps.rwf (blocks (pl_mappings pool) @ blocks ms)" "fback.rwf (blocks (pl_mappings pool) @ blocks ms)"
      using P(2,3) M(2,4) nv nb
      by (auto simp: fmaps.rwf_append fback.rwf_append fmaps.apart_def fback.apart_def fmaps.covered_def fback.covered_def)
    have o': "pool_ok ?pool"
    proof -
      have "fback.covered (blocks (pl_mappings ?pool)) p \<longleftrightarrow>
          fback.covered (blocks (pl_mappings pool)) p \<or> fback.covered (blocks ms) p" for p
        by (auto simp: fback.covered_def)
      then show ?thesis unfolding pool_ok_def using T(2,3) w P(4,5,6) M(5) by simp blast
    qed
    have "card {p. sp_at (pl_free pool) p} = card {p. sp_at (pl_free ?pool) p} + unat z"
    proof -
      have "{p. sp_at (pl_free pool) p} = {p. sp_at (pl_free ?pool) p} \<union> {p. fback.covered (blocks ms) p}"
        using T(3) M(5) by auto
      moreover have "{p. sp_at (pl_free ?pool) p} \<inter> {p. fback.covered (blocks ms) p} = {}" using T(3) by auto
      moreover have "card {p. fback.covered (blocks ms) p} = unat z"
        using fback.covered_card [OF M(4)] fmaps.covered_card [OF M(2)] in_range_card(2) [OF f(3)] by (simp add: cov)
      ultimately show ?thesis by (simp add: card_Un_disjoint)
    qed
    then have av: "pool_Available ?pool = pool_Available pool - z"
      using pool_available [OF ok] pool_available [OF o'] by (intro word_unat_eqI) (simp add: unat_sub word_le_nat_alt)
    have lk: "fmaps.look (blocks (pl_mappings ?pool)) a = (case fmaps.look (blocks (pl_mappings pool)) a of None \<Rightarrow> fmaps.look (blocks ms) a | Some v \<Rightarrow> Some v)" for a
      by (simp add: fmaps.look_append)
    have vw: "if in_range v z a then map_option snd (pool_view ?pool a) = Some gpu else pool_view ?pool a = pool_view pool a" for a
    proof (cases "in_range v z a")
      case True
      then have "fmaps.covered (blocks ms) a" by (simp add: cov)
      then obtain b where b: "b \<in> set (blocks ms)" "fmaps.rcov b a" by (auto simp: fmaps.covered_def)
      have "fmaps.look (blocks (pl_mappings pool)) a = None"
        using n' [OF True] pool_view_look [of pool a] by simp
      then have "fmaps.look (blocks (pl_mappings ?pool)) a = Some (block_attr b a)"
        using fmaps.look_member [OF M(2) b] unfolding lk by simp
      then show ?thesis using M(6) b(1) True
        by (auto simp: pool_view_look block_attr_def pool_tmpl_def to_block_def simp del: map_append)
    next
      case False
      then have "fmaps.look (blocks ms) a = None" using cov fmaps.look_covered by metis
      then show ?thesis using False unfolding pool_view_look lk by (simp split: option.split)
    qed
    show ?thesis using X o' f r y av cov M(2,4,5) T(3) vw by simp
  qed
qed

end
