(* ===== verification/PooledMemoryRelease.thy ===== *)
theory PooledMemoryRelease
  imports PooledMemorySpec VirtualRangesSpec
begin

text \<open>
  Queries and release of pooled memory, the expansions, the transactional unmapping from the guest,
  and the search for guest addresses.
\<close>

section \<open>Query and Release\<close>

lemma pool_Query_props:
  assumes ok: "pool_ok pool"
  shows "case pool_Query pool v z of
      None \<Rightarrow> \<not> (v \<noteq> 0 \<and> z \<noteq> 0 \<and> fits v z \<and> (\<forall>a. in_range v z a \<longrightarrow> pool_view pool a \<noteq> None))
    | Some ps \<Rightarrow> v \<noteq> 0 \<and> z \<noteq> 0 \<and> fits v z \<and> (\<forall>a. in_range v z a \<longrightarrow> pool_view pool a \<noteq> None) \<and>
        tiles (blocks (pl_mappings pool)) v (v + z) (blocks ps) \<and> ps \<noteq> []"
proof (cases "v = 0 \<or> z = 0 \<or> \<not> fits v z")
  case True
  then have "pool_Query pool v z = None" by (auto simp: pool_Query_def not_fits)
  then show ?thesis using True by auto
next
  case False
  then have f: "v \<noteq> 0" "z \<noteq> 0" "fits v z" by auto
  have q: "pool_Query pool v z = pool_walk (v + z) (pl_mappings pool) v" using f by (simp add: pool_Query_def not_fits)
  note W = pool_walk_props [OF pool_okD(2,3) [OF ok] fits_le [OF f(3)]]
  show ?thesis
  proof (cases "pool_walk (v + z) (pl_mappings pool) v")
    case None
    then obtain a where "in_range v z a" "\<not> fmaps.covered (blocks (pl_mappings pool)) a"
      using W by (auto simp: in_range_def)
    then show ?thesis using None q pool_view_covered [of pool a] by auto
  next
    case (Some ps)
    then have t: "tiles (blocks (pl_mappings pool)) v (v + z) (blocks ps)" "ps \<noteq> []"
      using W fits_less [OF f(3,2)] by auto
    then have "pool_view pool a \<noteq> None" if "in_range v z a" for a
      using that pool_view_covered [of pool a] unfolding tiles_def in_range_def by blast
    then show ?thesis using Some q f t by simp
  qed
qed

lemma add_all:
  assumes "separate free" and "\<forall>m \<in> set ms. fback.rok (to_block m)"
  shows "separate (foldl (\<lambda>free m. pool_AddFreeUnlocked (pl_phys m) (pl_size m) free) free ms) \<and>
    (\<forall>p. sp_at (foldl (\<lambda>free m. pool_AddFreeUnlocked (pl_phys m) (pl_size m) free) free ms) p \<longleftrightarrow>
       sp_at free p \<or> fback.covered (blocks ms) p)"
  using assms
proof (induction ms arbitrary: free)
  case (Cons m ms)
  have r: "fits (pl_phys m) (pl_size m)" "pl_size m \<noteq> 0" "fback.rcov (to_block m) = in_range (pl_phys m) (pl_size m)"
    using fback_span [of "to_block m"] Cons.prems(2) by simp_all
  note A = pool_add_props [OF Cons.prems(1) r(1,2)]
  show ?case using Cons.IH [OF A(1)] Cons.prems(2) A(2) r(3) by auto
qed simp

lemma kept_blocks:
  assumes "fmaps.rwf (blocks ms)" and f: "fits v z" "z \<noteq> 0"
  shows "blocks (concat (map (pool_keep v z) ms)) = concat (map (\<lambda>b. fst (unmap_block v z b)) (blocks ms))"
  using assms(1) keep_block [OF _ f] by (induction ms) (simp_all add: fmaps.rwf_Cons)

lemma tiles_backing: "tiles bs v (v + z) ps \<Longrightarrow> fback.covered ps p \<longleftrightarrow> backing_of v z bs p"
  by (auto simp: tiles_def backing_of_def in_range_def)

lemma pool_Release_props:
  assumes ok: "pool_ok pool"
  shows "case pool_Release pool v z of (mode, pool') \<Rightarrow> pool_ok pool' \<and>
    (mode \<noteq> None \<longleftrightarrow> v \<noteq> 0 \<and> z \<noteq> 0 \<and> fits v z \<and> (\<forall>a. in_range v z a \<longrightarrow> pool_view pool a \<noteq> None)) \<and>
    (if mode \<noteq> None then
        pl_expansions pool' = pl_expansions pool \<and> unat (pool_Available pool') = unat (pool_Available pool) + unat z \<and>
        (\<forall>p. sp_at (pl_free pool') p \<longleftrightarrow> sp_at (pl_free pool) p \<or> backing_of v z (blocks (pl_mappings pool)) p) \<and>
        (\<forall>a. pool_view pool' a = (if in_range v z a then None else pool_view pool a))
     else pool' = pool)"
proof (cases "pool_Query pool v z")
  case None
  then have "pool_Release pool v z = (None, pool)" by (simp add: pool_Release_def)
  then show ?thesis using pool_Query_props [OF ok, of v z] None ok by auto
next
  case (Some ps)
  note P = pool_okD [OF ok]
  let ?bs = "blocks (pl_mappings pool)"
  have Q: "v \<noteq> 0" "z \<noteq> 0" "fits v z" "\<forall>a. in_range v z a \<longrightarrow> pool_view pool a \<noteq> None" "tiles ?bs v (v + z) (blocks ps)"
    using pool_Query_props [OF ok, of v z] Some by auto
  define free where "free = foldl (\<lambda>free m. pool_AddFreeUnlocked (pl_phys m) (pl_size m) free) (pl_free pool) ps"
  define ms where "ms = concat (map (pool_keep v z) (pl_mappings pool))"
  have X: "pool_Release pool v z = (Some (pl_gpu_mode (hd ps)), pool\<lparr>pl_mappings := ms, pl_free := free\<rparr>)"
    using Some by (simp add: pool_Release_def ms_def free_def)
  let ?pool = "pool\<lparr>pl_mappings := ms, pl_free := free\<rparr>"
  have w: "fmaps.rwf (blocks ps)" "fback.rwf (blocks ps)" using Q(5) by (auto simp: tiles_def)
  have "\<forall>m \<in> set ps. fback.rok (to_block m)" using fback.rok_in [OF w(2)] by simp
  then have A: "separate free" "\<And>p. sp_at free p \<longleftrightarrow> sp_at (pl_free pool) p \<or> backing_of v z ?bs p"
    using add_all [OF P(1), of ps] tiles_backing [OF Q(5)] by (auto simp: free_def)
  note K = kept_props [OF P(2,3) Q(3,2), folded kept_blocks [OF P(2) Q(3,2)] ms_def]
  have bs: "backing_of v z ?bs p \<Longrightarrow> fback.covered ?bs p" for p by (auto simp: backing_of_def fback.covered_def)
  have o': "pool_ok ?pool"
    unfolding pool_ok_def using A K(1,2,5) P(4,5,6) bs by simp blast
  have vw: "pool_view ?pool a = (if in_range v z a then None else pool_view pool a)" for a
    using K(4) [of a] by (simp add: pool_view_look)
  have "card {p. sp_at free p} = card {p. sp_at (pl_free pool) p} + unat z"
  proof -
    have "{p. sp_at free p} = {p. sp_at (pl_free pool) p} \<union> {p. fback.covered (blocks ps) p}"
      using A(2) tiles_backing [OF Q(5)] by auto
    moreover have "{p. sp_at (pl_free pool) p} \<inter> {p. fback.covered (blocks ps) p} = {}"
      using tiles_backing [OF Q(5)] bs P(5) by auto
    moreover have "card {p. fback.covered (blocks ps) p} = unat z"
    proof -
      have "fmaps.covered (blocks ps) a \<longleftrightarrow> in_range v z a" for a
        using Q(5) fmaps.look_covered [of "blocks ps" a] fmaps.look_covered [of ?bs a]
        by (auto simp: tiles_def in_range_def split: if_splits)
      then show ?thesis using fback.covered_card [OF w(2)] fmaps.covered_card [OF w(1)] in_range_card(2) [OF Q(3)] by simp
    qed
    ultimately show ?thesis by (simp add: card_Un_disjoint)
  qed
  then have "unat (pool_Available ?pool) = unat (pool_Available pool) + unat z"
    using pool_available [OF ok] pool_available [OF o'] by simp
  then show ?thesis using X o' Q(1-4) A(2) vw by simp
qed

lemma concat_single: "(\<And>x. x \<in> set xs \<Longrightarrow> f x = [x]) \<Longrightarrow> concat (map f xs) = xs"
  by (induction xs) simp_all

text \<open>Releasing what was just allocated gives back the same state, list by list.\<close>

lemma pool_round_trip:
  assumes ok: "pool_ok pool" and n0: "\<forall>a. fits v z \<and> in_range v z a \<longrightarrow> pool_view pool a = None"
    and al: "pool_Allocate pool v z gpu = (True, ms, pool1)"
  shows "pool_Release pool1 v z = (Some gpu, pool)"
proof -
  have A: "pool_ok pool1" "v \<noteq> 0" "z \<noteq> 0" "fits v z" "pl_expansions pool1 = pl_expansions pool"
    "pl_mappings pool1 = pl_mappings pool @ ms" "fmaps.covered (blocks ms) = in_range v z"
    "\<And>p. sp_at (pl_free pool1) p \<longleftrightarrow> sp_at (pl_free pool) p \<and> \<not> fback.covered (blocks ms) p"
    "\<And>p. fback.covered (blocks ms) p \<Longrightarrow> sp_at (pl_free pool) p"
    "\<And>a. in_range v z a \<Longrightarrow> map_option snd (pool_view pool1 a) = Some gpu"
    using pool_Allocate_props [OF ok n0, where gpu = gpu] unfolding al by (auto split: if_splits)
  have n: "fits v z \<Longrightarrow> in_range v z a \<Longrightarrow> pool_view pool a = None" for a using n0 by blast
  note P = pool_okD [OF ok] and P1 = pool_okD [OF A(1)]
  have R: "case pool_Release pool1 v z of (mode, pool') \<Rightarrow> pool_ok pool' \<and>
    (mode \<noteq> None \<longleftrightarrow> v \<noteq> 0 \<and> z \<noteq> 0 \<and> fits v z \<and> (\<forall>a. in_range v z a \<longrightarrow> pool_view pool1 a \<noteq> None)) \<and>
    (if mode \<noteq> None then
        pl_expansions pool' = pl_expansions pool1 \<and> unat (pool_Available pool') = unat (pool_Available pool1) + unat z \<and>
        (\<forall>p. sp_at (pl_free pool') p \<longleftrightarrow> sp_at (pl_free pool1) p \<or> backing_of v z (blocks (pl_mappings pool1)) p) \<and>
        (\<forall>a. pool_view pool' a = (if in_range v z a then None else pool_view pool1 a))
     else pool' = pool1)" by (rule pool_Release_props [OF A(1)])
  have all: "\<forall>a. in_range v z a \<longrightarrow> pool_view pool1 a \<noteq> None"
  proof (intro allI impI)
    fix a assume "in_range v z a"
    then show "pool_view pool1 a \<noteq> None" using A(10) [of a] by (cases "pool_view pool1 a") simp_all
  qed
  obtain ps where q: "pool_Query pool1 v z = Some ps" "ps \<noteq> []" "tiles (blocks (pl_mappings pool1)) v (v + z) (blocks ps)"
    using pool_Query_props [OF A(1), of v z] A(2-4) all by (auto split: option.splits)
  define free where "free = foldl (\<lambda>free m. pool_AddFreeUnlocked (pl_phys m) (pl_size m) free) (pl_free pool1) ps"
  have X: "pool_Release pool1 v z = (Some (pl_gpu_mode (hd ps)),
      pool1\<lparr>pl_mappings := concat (map (pool_keep v z) (pl_mappings pool @ ms)), pl_free := free\<rparr>)"
    using q(1) by (simp add: pool_Release_def A(6) free_def)
  have lt: "v < v + z" by (rule fits_less [OF A(4,3)])
  have cv: "fmaps.rcov (to_block m) (pl_vaddr m)" "pl_vaddr m < pl_end m" if "fmaps.rok (to_block m)" for m
    using fmaps.rok_less [OF that] by (auto simp: fmaps.rcov_iff)
  have old: "pool_keep v z m = [m]" if m: "m \<in> set (pl_mappings pool)" for m
  proof -
    have rk: "fmaps.rok (to_block m)" using fmaps.rok_in [OF P(2)] m by simp
    have no: "\<not> (in_range v z a \<and> fmaps.rcov (to_block m) a)" for a
      using n [OF A(4)] pool_view_covered [of pool a] m by (auto simp: fmaps.covered_def)
    have "\<not> max v (pl_vaddr m) < min (v + z) (pl_end m)"
    proof
      assume "max v (pl_vaddr m) < min (v + z) (pl_end m)"
      then have "in_range v z (max v (pl_vaddr m)) \<and> fmaps.rcov (to_block m) (max v (pl_vaddr m))"
        by (auto simp: in_range_def fmaps.rcov_iff)
      then show False using no by blast
    qed
    then have le: "min (v + z) (pl_end m) \<le> max v (pl_vaddr m)" by (simp only: not_less)
    show ?thesis unfolding pool_keep_def Let_def if_P [OF le] ..
  qed
  have new: "pool_keep v z m = []" if m: "m \<in> set ms" for m
  proof -
    have rk: "fmaps.rok (to_block m)" using fmaps.rok_in [OF P1(2)] m A(6) by simp
    have sub: "v \<le> a \<and> a < v + z" if "fmaps.rcov (to_block m) a" for a
      using A(7) m that by (auto simp: fmaps.covered_def fun_eq_iff in_range_def)
    have "v \<le> pl_vaddr m" "pl_vaddr m < pl_end m" using sub cv [OF rk] by auto
    moreover have "pl_end m \<le> v + z"
    proof -
      have e: "unat (pl_end m - 1) = unat (pl_end m) - 1" using calculation(2) by (intro unat_minus_one) auto
      then have "fmaps.rcov (to_block m) (pl_end m - 1)"
        using calculation(2) by (auto simp: fmaps.rcov_iff word_less_nat_alt word_le_nat_alt)
      then show ?thesis using sub e calculation(2) by (force simp: word_less_nat_alt word_le_nat_alt)
    qed
    ultimately show ?thesis by (simp add: pool_keep_def Let_def max_def min_def)
  qed
  have maps: "concat (map (pool_keep v z) (pl_mappings pool @ ms)) = pl_mappings pool"
  proof -
    have "concat (map (pool_keep v z) (pl_mappings pool)) = pl_mappings pool"
      using old by (intro concat_single) blast
    moreover have "concat (map (pool_keep v z) ms) = []" using new by simp
    ultimately show ?thesis by simp
  qed
  have bk: "backing_of v z (blocks (pl_mappings pool1)) p \<longleftrightarrow> fback.covered (blocks ms) p" for p
  proof
    assume "backing_of v z (blocks (pl_mappings pool1)) p"
    then obtain m where m: "m \<in> set (pl_mappings pool1)" "fback.rcov (to_block m) p" "in_range v z (back_attr (to_block m) p)"
      by (auto simp: backing_of_def)
    have "fmaps.rcov (to_block m) (back_attr (to_block m) p)"
      using m(1) by (intro block_at_back [OF fmaps.rok_in [OF P1(2)] fback.rok_in [OF P1(3)] m(2)]) simp_all
    then have "m \<notin> set (pl_mappings pool)"
      using n [OF A(4) m(3)] pool_view_covered [of pool "back_attr (to_block m) p"] by (auto simp: fmaps.covered_def)
    then show "fback.covered (blocks ms) p" using m A(6) by (auto simp: fback.covered_def)
  next
    assume "fback.covered (blocks ms) p"
    then obtain m where m: "m \<in> set ms" "fback.rcov (to_block m) p" by (auto simp: fback.covered_def)
    have "fmaps.rcov (to_block m) (back_attr (to_block m) p)"
      using m(1) by (intro block_at_back [OF fmaps.rok_in [OF P1(2)] fback.rok_in [OF P1(3)] m(2)]) (simp_all add: A(6))
    then have "in_range v z (back_attr (to_block m) p)" using A(7) m(1) by (auto simp: fmaps.covered_def fun_eq_iff)
    then show "backing_of v z (blocks (pl_mappings pool1)) p" using m by (auto simp: backing_of_def A(6))
  qed
  have fr: "free = pl_free pool"
  proof (rule separate_unique)
    have "pool_ok (pool1\<lparr>pl_mappings := concat (map (pool_keep v z) (pl_mappings pool @ ms)), pl_free := free\<rparr>)"
      using R unfolding X by simp
    then show "separate free" using pool_okD(1) by fastforce
    show "separate (pl_free pool)" by (rule P(1))
    show "sp_at free p \<longleftrightarrow> sp_at (pl_free pool) p" for p
      using R A(8,9) [of p] bk [of p] unfolding X by auto
  qed
  have mode: "pl_gpu_mode (hd ps) = gpu"
  proof -
    let ?m = "hd ps" and ?bs = "blocks (pl_mappings pool1)"
    have i: "to_block ?m \<in> set (blocks ps)" using q(2) by simp
    have w: "fmaps.rwf (blocks ps)" using q(3) by (simp add: tiles_def)
    have l: "fmaps.look (blocks ps) (pl_vaddr ?m) = Some (block_attr (to_block ?m) (pl_vaddr ?m))"
      using fmaps.look_member [OF w i] cv [OF fmaps.rok_in [OF w i]] by simp
    then have "v \<le> pl_vaddr ?m \<and> pl_vaddr ?m < v + z" "fmaps.look ?bs (pl_vaddr ?m) = Some (block_attr (to_block ?m) (pl_vaddr ?m))"
      using q(3) by (auto simp: tiles_def split: if_splits)
    then show ?thesis using A(10) [of "pl_vaddr ?m"] by (simp add: pool_view_look in_range_def block_attr_def)
  qed
  show ?thesis unfolding X maps fr mode
    by (intro prod_eqI pooled_memory.equality) (simp_all add: A(5))
qed

section \<open>Expansions\<close>

lemma pool_Expand_props:
  assumes ok: "pool_ok pool" and f: "fits s z" "z \<noteq> 0" and n: "\<And>p. in_range s z p \<Longrightarrow> \<not> sp_at (pl_expansions pool) p"
  shows "pool_ok (pool_Expand s z pool)" "pool_view (pool_Expand s z pool) = pool_view pool"
    "sp_at (pl_free (pool_Expand s z pool)) p \<longleftrightarrow> sp_at (pl_free pool) p \<or> in_range s z p"
proof -
  note P = pool_okD [OF ok] and A = pool_add_props [OF P(1) f]
  have "exps.rok (s, z)" using f by (simp add: exps.rok_def)
  moreover have "exps.rcov (s, z) = in_range s z" by (auto simp: exps.rcov_def fun_eq_iff)
  moreover have "exps.apart e (s, z)" if "e \<in> set (pl_expansions pool)" for e
    using that n exps_covered [of "pl_expansions pool"] calculation(2)
    unfolding exps.apart_def exps.covered_def fun_eq_iff by auto
  ultimately have e: "exps.rwf (pl_expansions pool @ [(s, z)])" using P(4) by (simp add: exps.rwf_append exps.rwf_Cons)
  show "pool_ok (pool_Expand s z pool)"
    using A P(2-6) e n by (auto simp: pool_ok_def pool_Expand_def)
  show "pool_view (pool_Expand s z pool) = pool_view pool" by (simp add: pool_view_def pool_Expand_def fun_eq_iff)
  show "sp_at (pl_free (pool_Expand s z pool)) p \<longleftrightarrow> sp_at (pl_free pool) p \<or> in_range s z p"
    using A by (simp add: pool_Expand_def)
qed

lemma pool_ReleaseExpansion_props:
  assumes ok: "pool_ok pool"
  shows "case pool_ReleaseExpansion s z pool of (did, pool') \<Rightarrow> pool_ok pool' \<and> pool_view pool' = pool_view pool \<and>
    (did \<longleftrightarrow> (s, z) \<in> set (pl_expansions pool) \<and> (\<forall>p. in_range s z p \<longrightarrow> sp_at (pl_free pool) p)) \<and>
    (if did then pl_expansions pool' = remove1 (s, z) (pl_expansions pool) \<and>
       (\<forall>p. sp_at (pl_free pool') p \<longleftrightarrow> sp_at (pl_free pool) p \<and> \<not> in_range s z p)
     else pool' = pool)"
proof (cases "(s, z) \<in> set (pl_expansions pool)")
  case False
  then show ?thesis using ok by (simp add: pool_ReleaseExpansion_def)
next
  case True
  note P = pool_okD [OF ok]
  have f: "fits s z" "z \<noteq> 0" using exps.rok_in [OF P(4) True] by (auto simp: exps.rok_def)
  have ov: "list_ex (\<lambda>m. VirtualRangesOverlap s z (pl_phys m) (pl_size m)) (pl_mappings pool) \<Longrightarrow>
      \<exists>p. in_range s z p \<and> \<not> sp_at (pl_free pool) p"
  proof -
    assume "list_ex (\<lambda>m. VirtualRangesOverlap s z (pl_phys m) (pl_size m)) (pl_mappings pool)"
    then obtain m where m: "m \<in> set (pl_mappings pool)" "VirtualRangesOverlap s z (pl_phys m) (pl_size m)"
      by (auto simp: list_ex_iff)
    have rk: "fback.rok (to_block m)" using fback.rok_in [OF P(3)] m(1) by simp
    note r = fback_span [OF rk, simplified]
    have "s < pl_phys m + pl_size m" "pl_phys m < s + z"
      using m(2) overlap_span [OF f r(1,2)] by auto
    then have "in_range s z (max s (pl_phys m))" "in_range (pl_phys m) (pl_size m) (max s (pl_phys m))"
      using fits_less [OF f] fits_less [OF r(1,2)] by (auto simp: in_range_def)
    then show ?thesis using P(5) m(1) r(3) by (metis fback.covered_def image_eqI list.set_map)
  qed
  show ?thesis
  proof (cases "pool_cut_free s z (pl_free pool)")
    case None
    then show ?thesis using True ok pool_cut_props(1) [OF P(1) f] by (auto simp: pool_ReleaseExpansion_def)
  next
    case (Some free)
    note C = pool_cut_props(2) [OF P(1) f Some]
    have all: "\<forall>p. in_range s z p \<longrightarrow> sp_at (pl_free pool) p" using pool_cut_props(1) [OF P(1) f] Some by simp
    then have no: "\<not> list_ex (\<lambda>m. VirtualRangesOverlap s z (pl_phys m) (pl_size m)) (pl_mappings pool)"
      using ov by blast
    let ?pool = "pool\<lparr>pl_free := free, pl_expansions := remove1 (s, z) (pl_expansions pool)\<rparr>"
    have X: "pool_ReleaseExpansion s z pool = (True, ?pool)"
      using True no Some by (simp add: pool_ReleaseExpansion_def)
    obtain xs ys where x: "pl_expansions pool = xs @ (s, z) # ys" "(s, z) \<notin> set xs" using True split_list_first by metis
    have r: "remove1 (s, z) (pl_expansions pool) = xs @ ys" using x by (simp add: remove1_append)
    have e: "exps.rwf (xs @ ys)" using P(4) x(1) by (simp add: exps.rwf_append exps.rwf_Cons)
    have se: "sp_at (xs @ ys) p \<longleftrightarrow> sp_at (pl_expansions pool) p \<and> \<not> in_range s z p" for p
    proof -
      have "\<not> (in_range s z p \<and> sp_at (xs @ ys) p)"
      proof
        assume a: "in_range s z p \<and> sp_at (xs @ ys) p"
        then have "exps.covered (xs @ ys) p" by (simp only: exps_covered)
        then obtain d where d: "d \<in> set xs \<union> set ys" "exps.rcov d p" unfolding exps.covered_def set_append by blast
        have "exps.apart d (s, z)" using d(1) P(4) x(1) by (auto simp: exps.rwf_append exps.rwf_Cons dest: exps.apart_sym)
        then show False using a d(2) by (auto simp: exps.apart_def exps.rcov_def)
      qed
      then show ?thesis by (auto simp: x(1))
    qed
    have "pool_ok ?pool"
      unfolding pool_ok_def using C P(2,3,5,6) e se all by (simp add: r) blast
    moreover have "pool_view ?pool = pool_view pool" by (simp add: pool_view_def fun_eq_iff)
    ultimately show ?thesis using X True all C by simp
  qed
qed

section \<open>Unmapping a pooled range from the guest\<close>

lemma pool_remap_props:
  assumes "guest_ok g" and "fmaps.rwf (blocks ms)" and "\<And>a. fmaps.covered (blocks ms) a \<Longrightarrow> sp_at (gs_free g) a"
    and "\<And>m. m \<in> set ms \<Longrightarrow> RangeOk g (pl_phys m) (pl_size m)"
  shows "case pool_remap host mode ms g of Exit \<Rightarrow> \<not> (\<forall>n. host n)
    | Done g' \<Rightarrow> \<exists>bv. became g (fmaps.covered (blocks ms)) (Some Backing) bv g' \<and>
        (\<forall>a. fmaps.covered (blocks ms) a \<longrightarrow> map_option fst (bv a) = map_option fb_backing_offset (fmaps.look (blocks ms) a))"
  using assms
proof (induction ms arbitrary: g)
  case Nil
  then show ?case by (auto simp: became_def)
next
  case (Cons m ms)
  have b: "fmaps.rok (to_block m)" "fmaps.rwf (blocks ms)" "\<And>c. c \<in> set (blocks ms) \<Longrightarrow> fmaps.apart (to_block m) c"
    using Cons.prems(2) by (auto simp: fmaps.rwf_Cons)
  note f = fmaps_span [OF b(1), simplified]
  have ro: "RangeOk g (pl_phys m) (pl_size m)" using Cons.prems(4) by simp
  obtain r g1 where M: "gs_MapBacking host g (pl_vaddr m) (pl_size m) (pl_phys m) mode = Done (r, g1)"
    "r = NoFailure \<longleftrightarrow> (\<forall>a. fmaps.rcov (to_block m) a \<longrightarrow> sp_at (gs_free g) a) \<and> host (gs_clock g)"
    "if r = NoFailure then becomes g (pl_vaddr m) (pl_size m) (Some Backing)
       (\<lambda>a. Some (pl_phys m + (a - pl_vaddr m), host_mode_for mode)) g1 else unchanged g g1"
    using gs_MapBacking_props [OF Cons.prems(1) f(1,2), where host = host and off = "pl_phys m" and mode = mode] ro
    unfolding f(3) by blast
  show ?case
  proof (cases "r = NoFailure")
    case False
    then have "\<not> host (gs_clock g)" using M(2) Cons.prems(3) by auto
    then show ?thesis using M(1) False by auto
  next
    case True
    define bv0 where "bv0 = (\<lambda>a. Some (pl_phys m + (a - pl_vaddr m), host_mode_for mode))"
    have b1: "became g (fmaps.rcov (to_block m)) (Some Backing) bv0 g1"
      using M(3) True unfolding becomes_became f(3) bv0_def by simp
    have nb: "\<And>a. fmaps.rcov (to_block m) a \<Longrightarrow> \<not> fmaps.covered (blocks ms) a" using covered_apart [OF b(3)] by blast
    have g1: "guest_ok g1" "gb_size g1 = gb_size g" using b1 by (auto simp: became_def)
    have IH: "case pool_remap host mode ms g1 of Exit \<Rightarrow> \<not> (\<forall>n. host n)
      | Done g' \<Rightarrow> \<exists>bv. became g1 (fmaps.covered (blocks ms)) (Some Backing) bv g' \<and>
        (\<forall>a. fmaps.covered (blocks ms) a \<longrightarrow> map_option fst (bv a) = map_option fb_backing_offset (fmaps.look (blocks ms) a))"
    proof (rule Cons.IH [OF g1(1) b(2)])
      show "sp_at (gs_free g1) a" if "fmaps.covered (blocks ms) a" for a
        using that Cons.prems(3) [of a] b1 nb by (auto simp: became_def)
      show "RangeOk g1 (pl_phys c) (pl_size c)" if "c \<in> set ms" for c
        using that Cons.prems(4) [of c] g1(2) by (simp add: RangeOk_def)
    qed
    have st: "pool_remap host mode (m # ms) g = pool_remap host mode ms g1" using M(1) True by simp
    show ?thesis
    proof (cases "pool_remap host mode ms g1")
      case Exit
      then show ?thesis using IH st by simp
    next
      case (Done g')
      then obtain bv where B: "became g1 (fmaps.covered (blocks ms)) (Some Backing) bv g'"
        "\<And>a. fmaps.covered (blocks ms) a \<Longrightarrow> map_option fst (bv a) = map_option fb_backing_offset (fmaps.look (blocks ms) a)"
        using IH by auto
      let ?bv = "\<lambda>a. if fmaps.covered (blocks ms) a then bv a else bv0 a"
      have "became g (\<lambda>a. fmaps.rcov (to_block m) a \<or> fmaps.covered (blocks ms) a) (Some Backing) ?bv g'"
        by (rule became_trans [OF b1 B(1) nb])
      moreover have "map_option fst (?bv a) = map_option fb_backing_offset (fmaps.look (blocks (m # ms)) a)"
        if "fmaps.covered (blocks (m # ms)) a" for a
        using that B(2) [of a] nb [of a] by (auto simp: fmaps.look_Cons bv0_def block_attr_def simp del: fmaps.covered_simps split: if_splits)
          (auto simp: fmaps.covered_simps(2))
      moreover have "fmaps.covered (blocks (m # ms)) = (\<lambda>a. fmaps.rcov (to_block m) a \<or> fmaps.covered (blocks ms) a)"
        by (auto simp: fun_eq_iff)
      ultimately show ?thesis using Done st by auto
    qed
  qed
qed

text \<open>The same guest, address by address, up to the protection of the views.\<close>

definition same_guest :: "guest \<Rightarrow> guest \<Rightarrow> bool" where
  "same_guest g g' \<longleftrightarrow> guest_ok g' \<and> sp_at (gs_free g') = sp_at (gs_free g) \<and> mapped_view g' = mapped_view g \<and>
     (\<forall>a. map_option fst (backing_view g' a) = map_option fst (backing_view g a))"

lemma unmap_exit:
  assumes "guest_ok g" and "gs_UnmapBacking host g v z = Exit"
  shows "\<not> (\<forall>n. host n)"
proof
  assume h: "\<forall>n. host n"
  have "ContainsMappedUnlocked (gs_mapped g) v z Backing" using assms(2) by (auto simp: gs_UnmapBacking_def split: if_splits)
  then have "fits v z" "z \<noteq> 0" "\<forall>a. in_range v z a \<longrightarrow> mapped_view g a = Some Backing"
    using ContainsMapped_iff [OF guest_okD(2) [OF assms(1)], of v z Backing, folded mapped_view_kview] by auto
  then show False using gs_UnmapBacking_props(2) [OF assms(1) h] assms(2) by force
qed

lemma fmaps_rwf_rev: "fmaps.rwf (rev bs) \<longleftrightarrow> fmaps.rwf bs"
  by (induction bs) (auto simp: fmaps.rwf_append fmaps.rwf_Cons dest: fmaps.apart_sym)

lemma pool_unmap_all_props:
  assumes "guest_ok g0" and "all = rev removed @ ms" and w: "fmaps.rwf (blocks all)"
    and ro: "\<And>m. m \<in> set all \<Longrightarrow> RangeOk g0 (pl_phys m) (pl_size m)"
    and ag: "\<And>a. fmaps.covered (blocks all) a \<Longrightarrow> mapped_view g0 a = Some Backing \<Longrightarrow>
      map_option fst (backing_view g0 a) = map_option fb_backing_offset (fmaps.look (blocks all) a)"
    and "became g0 (fmaps.covered (blocks removed)) None (\<lambda>_. None) g"
    and "\<And>a. fmaps.covered (blocks removed) a \<Longrightarrow> mapped_view g0 a = Some Backing"
  shows "case pool_unmap_all host mode ms removed g of Exit \<Rightarrow> \<not> (\<forall>n. host n)
    | Done (ok, g') \<Rightarrow>
        if ok then became g0 (fmaps.covered (blocks all)) None (\<lambda>_. None) g' \<and>
          (\<forall>a. fmaps.covered (blocks all) a \<longrightarrow> mapped_view g0 a = Some Backing)
        else same_guest g0 g' \<and>
          \<not> ((\<forall>n. host n) \<and> (\<forall>a. fmaps.covered (blocks all) a \<longrightarrow> mapped_view g0 a = Some Backing))"
  using assms(2,6,7)
proof (induction ms arbitrary: removed g)
  case Nil
  have "fmaps.covered (blocks removed) = fmaps.covered (blocks all)"
    using Nil.prems(1) by (auto simp: fmaps.covered_def fun_eq_iff)
  then show ?case using Nil.prems(2,3) by simp
next
  case (Cons m ms)
  have g: "guest_ok g" "gb_size g = gb_size g0" using Cons.prems(2) by (auto simp: became_def)
  have wa: "fmaps.rwf (blocks (rev removed) @ to_block m # blocks ms)" using w Cons.prems(1) by simp
  have b: "fmaps.rok (to_block m)" "fmaps.rwf (blocks (rev removed))" "m \<in> set all" "set removed \<subseteq> set all"
    using wa Cons.prems(1) by (auto simp: fmaps.rwf_append fmaps.rwf_Cons)
  have wr: "fmaps.rwf (blocks removed)"
    using b(2) by (simp add: rev_map [symmetric] fmaps_rwf_rev)
  have nb: "fmaps.covered (blocks removed) a \<Longrightarrow> \<not> fmaps.rcov (to_block m) a" for a
    using wa by (auto simp: fmaps.rwf_append fmaps.covered_def fmaps.apart_def)
  note f = fmaps_span [OF b(1), simplified]
  note U = gs_UnmapBacking_props [OF g(1), where host = host and v = "pl_vaddr m" and z = "pl_size m", unfolded f(3)]
  have mg: "mapped_view g a = mapped_view g0 a" if "fmaps.rcov (to_block m) a" for a
    using Cons.prems(2) nb that by (auto simp: became_def)
  show ?case
  proof (cases "gs_UnmapBacking host g (pl_vaddr m) (pl_size m)")
    case Exit
    then show ?thesis using unmap_exit [OF g(1) Exit] by simp
  next
    case (Done p)
    obtain ok g1 where p: "p = (ok, g1)" by fastforce
    show ?thesis
    proof (cases ok)
      case True
      then have b1: "became g (fmaps.rcov (to_block m)) None (\<lambda>_. None) g1"
        and mb: "\<And>a. fmaps.rcov (to_block m) a \<Longrightarrow> mapped_view g a = Some Backing"
        using U(1) unfolding Done p becomes_became f(3) by simp_all
      have st: "pool_unmap_all host mode (m # ms) removed g = pool_unmap_all host mode ms (m # removed) g1"
        using Done p True by simp
      show ?thesis
        unfolding st
      proof (rule Cons.IH)
        show "all = rev (m # removed) @ ms" using Cons.prems(1) by simp
        show "became g0 (fmaps.covered (blocks (m # removed))) None (\<lambda>_. None) g1"
          by (rule became_cong [OF became_trans [OF Cons.prems(2) b1 nb]]) (auto simp: fun_eq_iff)
        show "mapped_view g0 a = Some Backing" if "fmaps.covered (blocks (m # removed)) a" for a
          using that Cons.prems(3) [of a] mb mg by auto
      qed
    next
      case False
      then have un: "unchanged g g1" using U(1) unfolding Done p by simp
      have no: "\<not> ((\<forall>n. host n) \<and> (\<forall>a. fmaps.covered (blocks all) a \<longrightarrow> mapped_view g0 a = Some Backing))"
      proof
        assume h: "(\<forall>n. host n) \<and> (\<forall>a. fmaps.covered (blocks all) a \<longrightarrow> mapped_view g0 a = Some Backing)"
        then have "\<forall>a. fmaps.rcov (to_block m) a \<longrightarrow> mapped_view g a = Some Backing"
          using mg b(3) by (auto simp: fmaps.covered_def)
        then show False using U(2) f h False unfolding Done p by auto
      qed
      have g1: "guest_ok g1" "sp_at (gs_free g1) = sp_at (gs_free g)" "mapped_view g1 = mapped_view g"
        "backing_view g1 = backing_view g" "gb_size g1 = gb_size g0"
        using un g by (auto simp: unchanged_def fun_eq_iff)
      have R: "case pool_remap host mode removed g1 of Exit \<Rightarrow> \<not> (\<forall>n. host n)
        | Done g' \<Rightarrow> \<exists>bv. became g1 (fmaps.covered (blocks removed)) (Some Backing) bv g' \<and>
            (\<forall>a. fmaps.covered (blocks removed) a \<longrightarrow> map_option fst (bv a) = map_option fb_backing_offset (fmaps.look (blocks removed) a))"
      proof (rule pool_remap_props [OF g1(1) wr])
        show "sp_at (gs_free g1) a" if "fmaps.covered (blocks removed) a" for a
          using that Cons.prems(2) unfolding g1(2) by (simp add: became_def)
        show "RangeOk g1 (pl_phys c) (pl_size c)" if "c \<in> set removed" for c
          using ro [of c] that b(4) g1(5) by (auto simp: RangeOk_def)
      qed
      have st: "pool_unmap_all host mode (m # ms) removed g = obind (pool_remap host mode removed g1) (\<lambda>g''. Done (False, g''))"
        using Done p False by simp
      show ?thesis
      proof (cases "pool_remap host mode removed g1")
        case Exit
        then show ?thesis using R unfolding st by simp
      next
        case (Done g')
        then obtain bv where B: "became g1 (fmaps.covered (blocks removed)) (Some Backing) bv g'"
          "\<And>a. fmaps.covered (blocks removed) a \<Longrightarrow> map_option fst (bv a) = map_option fb_backing_offset (fmaps.look (blocks removed) a)"
          using R by auto
        have "same_guest g0 g'"
          unfolding same_guest_def
        proof (intro conjI ext allI)
          show "guest_ok g'" using B(1) by (simp add: became_def)
          fix a
          show "sp_at (gs_free g') a = sp_at (gs_free g0) a"
            using B(1) Cons.prems(2) Cons.prems(3) [of a] guest_okD(4) [OF assms(1), of a] unfolding became_def g1(2)
            by (cases "fmaps.covered (blocks removed) a") auto
          show "mapped_view g' a = mapped_view g0 a"
            using B(1) Cons.prems(2) Cons.prems(3) [of a] unfolding became_def g1(3) by simp
          show "map_option fst (backing_view g' a) = map_option fst (backing_view g0 a)"
          proof (cases "fmaps.covered (blocks removed) a")
            case True
            then obtain c where c: "c \<in> set removed" "fmaps.rcov (to_block c) a" by (auto simp: fmaps.covered_def)
            have ca: "to_block c \<in> set (blocks all)" "to_block c \<in> set (blocks removed)" using c(1) b(4) by auto
            have "fmaps.look (blocks removed) a = fmaps.look (blocks all) a"
              unfolding fmaps.look_member [OF wr ca(2) c(2)] fmaps.look_member [OF w ca(1) c(2)] ..
            moreover have "fmaps.covered (blocks all) a" using ca(1) c(2) unfolding fmaps.covered_def by blast
            ultimately show ?thesis using B ag [of a] Cons.prems(3) [OF True] True by (simp add: became_def)
          next
            case n: False
            then show ?thesis using B(1) Cons.prems(2) by (simp add: became_def g1(4))
          qed
        qed
        then show ?thesis using no Done unfolding st by simp
      qed
    qed
  qed
qed

text \<open>All or nothing, against every host.\<close>

lemma pool_transactional:
  assumes "guest_ok g" and "fmaps.rwf (blocks ms)"
    and "\<And>m. m \<in> set ms \<Longrightarrow> RangeOk g (pl_phys m) (pl_size m)"
    and "\<And>a. fmaps.covered (blocks ms) a \<Longrightarrow> mapped_view g a = Some Backing \<Longrightarrow>
      map_option fst (backing_view g a) = map_option fb_backing_offset (fmaps.look (blocks ms) a)"
  shows "case UnmapPooledBackingTransactional host ms mode g of Exit \<Rightarrow> \<not> (\<forall>n. host n)
    | Done (ok, g') \<Rightarrow>
        if ok then became g (fmaps.covered (blocks ms)) None (\<lambda>_. None) g' \<and>
          (\<forall>a. fmaps.covered (blocks ms) a \<longrightarrow> mapped_view g a = Some Backing)
        else same_guest g g' \<and>
          \<not> ((\<forall>n. host n) \<and> (\<forall>a. fmaps.covered (blocks ms) a \<longrightarrow> mapped_view g a = Some Backing))"
  unfolding UnmapPooledBackingTransactional_def
proof (rule pool_unmap_all_props [OF assms(1) _ assms(2-4)])
  show "became g (fmaps.covered (blocks [])) None (\<lambda>_. None) g" using assms(1) by (simp add: became_def)
qed simp_all

section \<open>Searching guest addresses\<close>

definition place_ok :: "guest \<Rightarrow> vrange list \<Rightarrow> u64 \<Rightarrow> u64 \<Rightarrow> u64 \<Rightarrow> u64 \<Rightarrow> u64 \<Rightarrow> bool" where
  "place_ok g rs lo hi z al c \<longleftrightarrow> candidate_ok (gs_free g) lo hi z (max al PageSize) c \<and> \<not> taken rs c z"

lemma find_in_props:
  assumes "guest_ok g" and "wf_ranges rs" and "z \<noteq> 0" and "al \<noteq> 0"
  shows "if find_in g rs z al hi cur = 0 then (\<forall>c. \<not> place_ok g rs cur hi z al c)
    else place_ok g rs cur hi z al (find_in g rs z al hi cur) \<and>
      (\<forall>c. place_ok g rs cur hi z al c \<longrightarrow> find_in g rs z al hi cur \<le> c)"
  using assms
proof (induction g rs z al hi cur rule: find_in.induct)
  case (1 g rs z al hi cur)
  note g = "1.prems"(1) and w = "1.prems"(2) and z = "1.prems"(3) and al = "1.prems"(4)
  have al': "max al PageSize \<noteq> 0" using al by (auto simp: max_def PageSize_def split: if_splits)
  show ?case
  proof (cases "cur < hi \<and> z \<le> hi - cur")
    case False
    have "\<not> place_ok g rs cur hi z al c" for c
    proof
      assume "place_ok g rs cur hi z al c"
      then have c: "cur \<le> c" "fits c z" "c + z \<le> hi" by (auto simp: place_ok_def candidate_ok_def)
      have "c < c + z" using c(2) z by (rule fits_less)
      then have "cur < hi" using c by (auto intro: order.strict_trans1 order.strict_trans2)
      moreover have "z \<le> hi - cur"
        using c calculation unat_add_fits [OF c(2)] by (simp add: word_le_nat_alt unat_sub less_imp_le)
      ultimately show False using False by simp
    qed
    moreover have "find_in g rs z al hi cur = 0" using False by (subst find_in.simps) (simp only: if_False)
    ultimately show ?thesis by simp
  next
    case True
    define cand where "cand = gs_FindFreeAligned g cur hi z al"
    have L: "if cand = 0 then (\<forall>c. \<not> candidate_ok (gs_free g) cur hi z (max al PageSize) c)
        else candidate_ok (gs_free g) cur hi z (max al PageSize) cand \<and>
          (\<forall>c. candidate_ok (gs_free g) cur hi z (max al PageSize) c \<longrightarrow> cand \<le> c)"
      using FindFreeAligned_props [OF g z al', of cur hi] z al by (simp add: cand_def gs_FindFreeAligned_def)
    show ?thesis
    proof (cases "cand = 0")
      case c0: True
      then have "find_in g rs z al hi cur = 0" using True by (subst find_in.simps) (simp add: cand_def)
      then show ?thesis using L c0 by (simp add: place_ok_def)
    next
      case c: False
      then have ck: "candidate_ok (gs_free g) cur hi z (max al PageSize) cand"
        and least: "\<And>c. candidate_ok (gs_free g) cur hi z (max al PageSize) c \<Longrightarrow> cand \<le> c" using L by auto
      have F: "fits cand z" "cur \<le> cand" using ck by (auto simp: candidate_ok_def)
      show ?thesis
      proof (cases "vr_QueryOverlap rs cand z")
        case None
        then have "\<not> taken rs cand z" using FindOverlap_props(1) [OF w] by (simp add: vr_QueryOverlap_def)
        moreover have "find_in g rs z al hi cur = cand" using True c None by (subst find_in.simps) (simp add: Let_def flip: cand_def)
        ultimately show ?thesis using c ck least by (simp add: place_ok_def)
      next
        case (Some r)
        have r: "r \<in> set rs" "overlaps cand z r" using FindOverlap_props(2) [OF w] Some by (auto simp: vr_QueryOverlap_def)
        define oe where "oe = vr_start r + vr_size r"
        have wr: "wf_range r" using w r(1) by (simp add: wf_ranges_def list_all_iff)
        then have ve: "vr_end r = oe" by (simp add: vr_end_def oe_def End_fits wf_range_def)
        have o: "cand < oe" "vr_start r < cand + z" "vr_size r \<noteq> 0"
          using r(2) F(1) by (auto simp: overlaps_iff ve End_fits)
        have oc: "\<not> oe \<le> cur" using o(1) F(2) by (auto intro: order.strict_trans1)
        have st: "find_in g rs z al hi cur = find_in g rs z al hi oe"
          using True c Some oc by (subst find_in.simps) (simp add: Let_def oe_def flip: cand_def)
        have same: "place_ok g rs cur hi z al x \<longleftrightarrow> place_ok g rs oe hi z al x" for x
        proof
          assume a: "place_ok g rs cur hi z al x"
          then have cx: "cand \<le> x" "fits x z" "\<not> taken rs x z" using least by (auto simp: place_ok_def candidate_ok_def)
          have "\<not> x < oe"
          proof
            assume "x < oe"
            moreover have "cand + z \<le> x + z"
              using cx(1) unat_add_fits [OF F(1)] unat_add_fits [OF cx(2)] by (simp add: word_le_nat_alt)
            ultimately have "overlaps x z r" using o z cx(2) by (simp add: overlaps_iff ve End_fits)
            then show False using cx(3) taken_overlaps [OF w] r(1) by blast
          qed
          then show "place_ok g rs oe hi z al x" using a by (simp add: place_ok_def candidate_ok_def)
        next
          assume "place_ok g rs oe hi z al x"
          then show "place_ok g rs cur hi z al x" using oc by (auto simp: place_ok_def candidate_ok_def)
        qed
        have "if find_in g rs z al hi oe = 0 then (\<forall>c. \<not> place_ok g rs oe hi z al c)
          else place_ok g rs oe hi z al (find_in g rs z al hi oe) \<and>
            (\<forall>c. place_ok g rs oe hi z al c \<longrightarrow> find_in g rs z al hi oe \<le> c)"
          using "1.IH" [OF True cand_def c Some oe_def oc g w z al] .
        then show ?thesis unfolding st same .
      qed
    qed
  qed
qed

end
