(* ===== verification/PooledMemoryProps.thy ===== *)
theory PooledMemoryProps
  imports PooledMemoryRelease GuestSpaceProps
begin

text \<open>
  The properties of pooled memory and of the search for guest addresses, each with an instance. The
  sample pool owns two expansions; the first is mapped in two parts onto the backed 64 KiB of the
  sample guest, the second is free.
\<close>

definition sample_pool :: pooled_memory where
  "sample_pool =
    \<lparr>pl_free = [(0x20000, 0x8000)], pl_expansions = [(0x4000, 0x10000), (0x20000, 0x8000)],
     pl_mappings =
       [\<lparr>pl_vaddr = 0x48000, pl_size = 0x8000, pl_phys = 0xC000, pl_gpu_mode = GpuRead\<rparr>,
        \<lparr>pl_vaddr = 0x40000, pl_size = 0x8000, pl_phys = 0x4000, pl_gpu_mode = GpuRead\<rparr>]\<rparr>"

lemma sample_pool_ok: "pool_ok sample_pool"
proof -
  have f: "fits 0x48000 0x8000" "fits 0x40000 0x8000" "fits 0xC000 0x8000" "fits 0x4000 0x8000" "fits 0x4000 0x10000" "fits 0x20000 0x8000"
    by code_simp+
  have s: "separate (pl_free sample_pool)" by code_simp
  have w: "fmaps.rwf (blocks (pl_mappings sample_pool))" "fback.rwf (blocks (pl_mappings sample_pool))"
    "exps.rwf (pl_expansions sample_pool)"
    using f by (auto simp: sample_pool_def fmaps.rwf_Cons fback.rwf_Cons exps.rwf_Cons fmaps.rok_def fback.rok_def exps.rok_def
        fmaps.apart_def fback.apart_def exps.apart_def fmaps.rcov_def fback.rcov_def exps.rcov_def in_range_def
        word_less_nat_alt word_le_nat_alt)
  have c: "fback.covered (blocks (pl_mappings sample_pool)) p \<longleftrightarrow> in_range 0x4000 0x10000 p"
    "sp_at (pl_free sample_pool) p \<longleftrightarrow> in_range 0x20000 0x8000 p"
    "sp_at (pl_expansions sample_pool) p \<longleftrightarrow> in_range 0x4000 0x10000 p \<or> in_range 0x20000 0x8000 p" for p
    by (auto simp: sample_pool_def fback.rcov_def in_range_def word_less_nat_alt word_le_nat_alt)
  have "in_range 0x20000 0x8000 p \<Longrightarrow> \<not> in_range 0x4000 0x10000 p" for p
    by (auto simp: in_range_def word_less_nat_alt word_le_nat_alt)
  then show ?thesis unfolding pool_ok_def c using s w by blast
qed

text \<open>Pooled allocation succeeds exactly when the address and the size are non-zero, the span
  does not wrap and the pool has that many free bytes. Then exactly the span is mapped with the
  requested mode, each address to a byte of its own that was free, and the free bytes shrink by the
  size. Otherwise nothing changes. The invariant of the pool holds either way.\<close>

lemma pooled_allocate_correct:
  assumes "pool_ok pool" and "\<forall>a. fits v z \<and> in_range v z a \<longrightarrow> pool_view pool a = None"
  shows "case pool_Allocate pool v z gpu of (did, ms, pool') \<Rightarrow> pool_ok pool' \<and>
    (did \<longleftrightarrow> v \<noteq> 0 \<and> z \<noteq> 0 \<and> fits v z \<and> z \<le> pool_Available pool) \<and>
    (if did then pool_Available pool' = pool_Available pool - z \<and> pl_expansions pool' = pl_expansions pool \<and>
        pl_mappings pool' = pl_mappings pool @ ms \<and> fmaps.covered (blocks ms) = in_range v z \<and>
        fmaps.rwf (blocks ms) \<and> fback.rwf (blocks ms) \<and>
        (\<forall>p. sp_at (pl_free pool') p \<longleftrightarrow> sp_at (pl_free pool) p \<and> \<not> fback.covered (blocks ms) p) \<and>
        (\<forall>p. fback.covered (blocks ms) p \<longrightarrow> sp_at (pl_free pool) p) \<and>
        (\<forall>a. if in_range v z a then map_option snd (pool_view pool' a) = Some gpu else pool_view pool' a = pool_view pool a)
     else pool' = pool \<and> ms = [])"
  by (rule pool_Allocate_props [OF assms])

lemma sample_pool_clear: "\<forall>a. fits 0x80000 0x4000 \<and> in_range 0x80000 0x4000 a \<longrightarrow> pool_view sample_pool a = None"
  by (auto simp: pool_view_def sample_pool_def in_range_def pl_end_def word_less_nat_alt word_le_nat_alt)

theorem pooled_allocate_witness:
  "\<exists>ms pool'. pool_Allocate sample_pool 0x80000 0x4000 GpuWrite = (True, ms, pool') \<and> pool_ok pool' \<and>
     pl_free pool' = [(0x24000, 0x4000)]"
proof -
  let ?X = "pool_Allocate sample_pool 0x80000 0x4000 GpuWrite"
  have "case ?X of (did, ms, pool') \<Rightarrow> did \<and> pl_free pool' = [(0x24000, 0x4000)]" by code_simp
  then show ?thesis using pooled_allocate_correct [OF sample_pool_ok sample_pool_clear, where gpu = GpuWrite] by auto
qed

text \<open>C10. Releasing pooled memory succeeds exactly for a span that is mapped throughout, however
  many mappings it crosses and in whatever order they were made. Then exactly the span is unmapped and
  exactly its bytes are free again; otherwise nothing changes.\<close>

theorem pooled_release_correct:
  assumes "pool_ok pool"
  shows "case pool_Release pool v z of (mode, pool') \<Rightarrow> pool_ok pool' \<and>
    (mode \<noteq> None \<longleftrightarrow> v \<noteq> 0 \<and> z \<noteq> 0 \<and> fits v z \<and> (\<forall>a. in_range v z a \<longrightarrow> pool_view pool a \<noteq> None)) \<and>
    (if mode \<noteq> None then
        pl_expansions pool' = pl_expansions pool \<and> unat (pool_Available pool') = unat (pool_Available pool) + unat z \<and>
        (\<forall>p. sp_at (pl_free pool') p \<longleftrightarrow> sp_at (pl_free pool) p \<or> backing_of v z (blocks (pl_mappings pool)) p) \<and>
        (\<forall>a. pool_view pool' a = (if in_range v z a then None else pool_view pool a))
     else pool' = pool)"
  by (rule pool_Release_props [OF assms])

theorem pooled_release_witness:
  "\<exists>pool'. pool_Release sample_pool 0x44000 0x8000 = (Some GpuRead, pool') \<and> pool_ok pool' \<and>
     pl_free pool' = [(0x8000, 0x8000), (0x20000, 0x8000)]"
proof -
  let ?X = "pool_Release sample_pool 0x44000 0x8000"
  have "case ?X of (mode, pool') \<Rightarrow> mode = Some GpuRead \<and> pl_free pool' = [(0x8000, 0x8000), (0x20000, 0x8000)]" by code_simp
  then show ?thesis using pooled_release_correct [OF sample_pool_ok, of "0x44000" "0x8000"] by auto
qed

text \<open>C11. Releasing what was just allocated reports the mode of the allocation and gives back the
  very state there was before: the same lists of free ranges, expansions and mappings.\<close>

theorem pooled_allocate_release:
  assumes "pool_ok pool" and "\<forall>a. fits v z \<and> in_range v z a \<longrightarrow> pool_view pool a = None"
    and "pool_Allocate pool v z gpu = (True, ms, pool1)"
  shows "pool_Release pool1 v z = (Some gpu, pool)"
  by (rule pool_round_trip [OF assms])

theorem pooled_allocate_release_witness:
  "\<exists>ms pool1. pool_Allocate sample_pool 0x80000 0x4000 GpuWrite = (True, ms, pool1) \<and>
     pool_Release pool1 0x80000 0x4000 = (Some GpuWrite, sample_pool)"
proof -
  obtain ms pool1 where X: "pool_Allocate sample_pool 0x80000 0x4000 GpuWrite = (True, ms, pool1)"
  proof -
    have "fst (pool_Allocate sample_pool 0x80000 0x4000 GpuWrite)" by code_simp
    then show thesis using that by (metis prod.collapse)
  qed
  then show ?thesis using pooled_allocate_release [OF sample_pool_ok sample_pool_clear X] by blast
qed

text \<open>The two ways in which the sources add a free range, pushing, sorting and merging a
  vector in the pool, and absorbing neighbours in an ordered map in direct and flexible memory, compute
  the same list.\<close>

lemma pooled_merge_equivalent:
  assumes "separate free" and "fits s z" and "z \<noteq> 0"
  shows "pool_AddFreeUnlocked s z free = AddFreeRange s z free"
  by (rule pool_add_eq [OF assms])

theorem pooled_merge_witness:
  "pool_AddFreeUnlocked 0x8000 0x4000 [(0x4000, 0x4000), (0xC000, 0x4000)] = [(0x4000, 0xC000)] \<and>
   AddFreeRange 0x8000 0x4000 [(0x4000, 0x4000), (0xC000, 0x4000)] = [(0x4000, 0xC000)]"
proof -
  have h: "separate [(0x4000, 0x4000), (0xC000, 0x4000)]" "fits 0x8000 0x4000" "(0x4000 :: u64) \<noteq> 0" by code_simp+
  have "AddFreeRange 0x8000 0x4000 [(0x4000, 0x4000), (0xC000, 0x4000)] = [(0x4000, 0xC000)]" by code_simp
  then show ?thesis using pooled_merge_equivalent [OF h] by simp
qed

text \<open>C12. Unmapping a list of pooled parts from the guest is all or nothing against every host. The
  parts are disjoint and, where they are mapped, mapped as the pool says. Success means that all of them
  were mapped and are now free addresses; failure means that every address is free or mapped, to the
  same byte, as before. Only a host that refuses a call can end the process.\<close>

theorem pooled_unmap_all_or_nothing:
  assumes "guest_ok g" and "fmaps.rwf (blocks ms)"
    and "\<And>m. m \<in> set ms \<Longrightarrow> RangeOk g (pl_phys m) (pl_size m)"
    and "\<And>a. fmaps.covered (blocks ms) a \<Longrightarrow> mapped_view g a = Some Backing \<Longrightarrow>
      map_option fst (backing_view g a) = map_option fb_backing_offset (fmaps.look (blocks ms) a)"
  shows "case UnmapPooledBackingTransactional host ms mode g of Exit \<Rightarrow> \<not> (\<forall>n. host n)
    | Done (ok, g') \<Rightarrow>
        if ok then became g (fmaps.covered (blocks ms)) None (\<lambda>_. None) g' \<and>
          (\<forall>a. fmaps.covered (blocks ms) a \<longrightarrow> mapped_view g a = Some Backing)
        else same_guest g g' \<and>
          \<not> ((\<forall>n. host n) \<and> (\<forall>a. fmaps.covered (blocks ms) a \<longrightarrow> mapped_view g a = Some Backing))"
  by (rule pool_transactional [OF assms])

text \<open>The host unmaps the first part and the whole view that the second part leaves, then refuses
  to map the right half of it; the first part is mapped again.\<close>

theorem pooled_unmap_witness:
  "\<exists>g'. UnmapPooledBackingTransactional (\<lambda>n. n \<noteq> 2) (pl_mappings sample_pool) ReadWrite sample_guest = Done (False, g') \<and>
     mapped_view g' = mapped_view sample_guest"
proof -
  let ?ms = "pl_mappings sample_pool"
  let ?X = "UnmapPooledBackingTransactional (\<lambda>n. n \<noteq> 2) ?ms ReadWrite sample_guest"
  have x: "case ?X of Exit \<Rightarrow> False | Done (ok, g') \<Rightarrow> \<not> ok" by code_simp
  have w: "fmaps.rwf (blocks ?ms)" using pool_okD(2) [OF sample_pool_ok] .
  have r: "RangeOk sample_guest (pl_phys m) (pl_size m)" if "m \<in> set ?ms" for m
    using that by (auto simp: sample_pool_def RangeOk_def sample_guest_def)
  have a: "map_option fst (backing_view sample_guest a) = map_option fb_backing_offset (fmaps.look (blocks ?ms) a)"
    if "fmaps.covered (blocks ?ms) a" for a
    using that by (auto simp: sample_pool_def sample_guest_def backing_view_def entry_attr_def fmaps.look_Cons fmaps.rcov_def
        in_range_def block_attr_def word_less_nat_alt word_le_nat_alt)
  show ?thesis
    using pooled_unmap_all_or_nothing [OF sample_guest_ok w r a, where host = "\<lambda>n. n \<noteq> 2" and mode = ReadWrite] x
    by (cases ?X) (auto simp: same_guest_def)
qed

definition sample_ranges :: "vrange list" where
  "sample_ranges =
    [\<lparr>vr_start = 0x60000, vr_size = 0x8000, vr_offset = 0, vr_protection = 3, vr_memory_type = 0,
      vr_type = Reserved, vr_disallow_merge = False, vr_name = []\<rparr>]"

definition least_place :: "guest \<Rightarrow> vrange list \<Rightarrow> u64 \<Rightarrow> u64 \<Rightarrow> u64 \<Rightarrow> u64 \<Rightarrow> u64 \<Rightarrow> bool" where
  "least_place g rs lo hi z al r \<longleftrightarrow>
    (if r = 0 then (\<forall>c. \<not> place_ok g rs lo hi z al c)
     else place_ok g rs lo hi z al r \<and> (\<forall>c. place_ok g rs lo hi z al c \<longrightarrow> r \<le> c))"

text \<open>The search for guest addresses is exact. From a given address it returns the least aligned
  address, up to the end of the user range, whose span is free in the guest and met by no virtual
  range, and 0 only if there is none. Without an address it does the same in the window from the
  default base to the end of the system-managed range, and only if that has no such span in the whole
  user range.\<close>

lemma guest_free_range_least:
  assumes "guest_ok g" and "wf_ranges rs" and "z \<noteq> 0" and "al \<noteq> 0"
  shows "if s \<noteq> 0 then least_place g rs s (HOST_USER_MAX + 1) z al (FindGuestFreeRange g rs s z al)
    else \<exists>r. least_place g rs GUEST_DEFAULT_MAP_BASE (HOST_SYSTEM_MANAGED_MAX + 1) z al r \<and>
      (if r \<noteq> 0 then FindGuestFreeRange g rs s z al = r
       else least_place g rs HOST_USER_MIN (HOST_USER_MAX + 1) z al (FindGuestFreeRange g rs s z al))"
proof -
  note L = find_in_props [OF assms, folded least_place_def]
  show ?thesis
  proof (cases "s = 0")
    case True
    let ?r = "find_in g rs z al (HOST_SYSTEM_MANAGED_MAX + 1) GUEST_DEFAULT_MAP_BASE"
    have "if ?r \<noteq> 0 then FindGuestFreeRange g rs s z al = ?r
       else least_place g rs HOST_USER_MIN (HOST_USER_MAX + 1) z al (FindGuestFreeRange g rs s z al)"
      using L True by (simp add: FindGuestFreeRange_def Let_def)
    then show ?thesis using L True by (metis (no_types))
  next
    case False
    then show ?thesis using L by (simp add: FindGuestFreeRange_def)
  qed
qed

text \<open>The first free address is taken by a virtual range of 32 KiB.\<close>

theorem guest_free_range_witness:
  "FindGuestFreeRange sample_guest sample_ranges 0x40000 0x4000 0x4000 = 0x68000 \<and>
   least_place sample_guest sample_ranges 0x40000 (HOST_USER_MAX + 1) 0x4000 0x4000 0x68000"
proof -
  have r: "FindGuestFreeRange sample_guest sample_ranges 0x40000 0x4000 0x4000 = 0x68000" by code_simp
  have h: "wf_ranges sample_ranges" "(0x4000 :: u64) \<noteq> 0" "(0x4000 :: u64) \<noteq> 0" "(0x40000 :: u64) \<noteq> 0" by code_simp+
  show ?thesis using guest_free_range_least [OF sample_guest_ok h(1-3), where s = "0x40000"] h(4) unfolding r by simp
qed

end
