(* ===== verification/LinkerBounds.thy ===== *)
theory LinkerBounds
  imports Prelude
begin

text \<open>
  The checks of the dynamic loader: \<open>src/loader/runtimeLinkerBounds.h\<close>, which decides whether
  addresses and sizes read from an untrusted ELF image may be used, and
  \<open>src/loader/runtimeLinkerLifecycle.h\<close>, which counts module references. A function that returns
  false and leaves its out parameter alone is an option; the out parameters are never null here. A
  pointer to bytes is None when null, otherwise a function from offsets to bytes.
\<close>

unbundle bit_operations_syntax

type_synonym i64 = "64 word"
type_synonym bytes = "(u64 \<Rightarrow> u8) option"

section \<open>Constants\<close>

definition ELF64_RELA_SIZE :: u64 where "ELF64_RELA_SIZE = 24"
definition ELF64_RELA_ALIGNMENT :: u64 where "ELF64_RELA_ALIGNMENT = 8"
definition ELF64_RELOCATION_TARGET_SIZE :: u64 where "ELF64_RELOCATION_TARGET_SIZE = 8"
definition ELF64_PLTGOT_RESOLVER_SIZE :: u64 where "ELF64_PLTGOT_RESOLVER_SIZE = 24"
definition ELF64_PLTGOT_ALIGNMENT :: u64 where "ELF64_PLTGOT_ALIGNMENT = 8"
definition ELF64_SYM_SIZE :: u64 where "ELF64_SYM_SIZE = 24"
definition ELF64_SYM_ALIGNMENT :: u64 where "ELF64_SYM_ALIGNMENT = 8"
definition ELF64_ADDR_SIZE :: u64 where "ELF64_ADDR_SIZE = 8"
definition RELRO_PAGE_SIZE :: u64 where "RELRO_PAGE_SIZE = 0x4000"
definition ELF64_R_X86_64_64 :: u32 where "ELF64_R_X86_64_64 = 1"
definition ELF64_R_X86_64_GLOB_DAT :: u32 where "ELF64_R_X86_64_GLOB_DAT = 6"
definition ELF64_R_X86_64_JUMP_SLOT :: u32 where "ELF64_R_X86_64_JUMP_SLOT = 7"
definition ELF64_R_X86_64_RELATIVE :: u32 where "ELF64_R_X86_64_RELATIVE = 8"
definition ELF64_R_X86_64_DTPMOD64 :: u32 where "ELF64_R_X86_64_DTPMOD64 = 16"
definition SYSV_HASH_HEADER_SIZE :: u64 where "SYSV_HASH_HEADER_SIZE = 8"
definition SYSV_HASH_WORD_SIZE :: u64 where "SYSV_HASH_WORD_SIZE = 4"
definition SYSV_HASH_ALIGNMENT :: u64 where "SYSV_HASH_ALIGNMENT = SYSV_HASH_WORD_SIZE"
definition TLS_TCB_SIZE :: u64 where "TLS_TCB_SIZE = 0x40"
definition TLS_TCB_ALIGNMENT :: u64 where "TLS_TCB_ALIGNMENT = 0x20"
definition ELF64_SHN_UNDEF :: u16 where "ELF64_SHN_UNDEF = 0"
definition ELF64_SHN_LORESERVE :: u16 where "ELF64_SHN_LORESERVE = 0xff00"
definition ELF64_SHN_ABS :: u16 where "ELF64_SHN_ABS = 0xfff1"
definition ELF64_STB_LOCAL :: u8 where "ELF64_STB_LOCAL = 0"
definition ELF64_STB_GLOBAL :: u8 where "ELF64_STB_GLOBAL = 1"
definition ELF64_STB_WEAK :: u8 where "ELF64_STB_WEAK = 2"
definition ELF64_STT_NOTYPE :: u8 where "ELF64_STT_NOTYPE = 0"
definition ELF64_STT_OBJECT :: u8 where "ELF64_STT_OBJECT = 1"
definition ELF64_STT_FUNC :: u8 where "ELF64_STT_FUNC = 2"

lemmas elf_sizes = ELF64_RELA_SIZE_def ELF64_RELA_ALIGNMENT_def ELF64_RELOCATION_TARGET_SIZE_def
  ELF64_PLTGOT_RESOLVER_SIZE_def ELF64_PLTGOT_ALIGNMENT_def ELF64_SYM_SIZE_def ELF64_SYM_ALIGNMENT_def
  ELF64_ADDR_SIZE_def RELRO_PAGE_SIZE_def SYSV_HASH_HEADER_SIZE_def SYSV_HASH_WORD_SIZE_def
  SYSV_HASH_ALIGNMENT_def TLS_TCB_SIZE_def TLS_TCB_ALIGNMENT_def

lemmas elf_codes = ELF64_R_X86_64_64_def ELF64_R_X86_64_GLOB_DAT_def ELF64_R_X86_64_JUMP_SLOT_def
  ELF64_R_X86_64_RELATIVE_def ELF64_R_X86_64_DTPMOD64_def ELF64_SHN_UNDEF_def ELF64_SHN_LORESERVE_def
  ELF64_SHN_ABS_def ELF64_STB_LOCAL_def ELF64_STB_GLOBAL_def ELF64_STB_WEAK_def ELF64_STT_NOTYPE_def
  ELF64_STT_OBJECT_def ELF64_STT_FUNC_def

record TlsLayout =
  tl_init_size :: u64
  tl_image_size :: u64
  tl_tcb_offset :: u64
  tl_allocation_size :: u64

record TlsAllocationLayout =
  ta_tcb_offset :: u64
  ta_allocation_size :: u64

record SysvHashLayout =
  sh_table_size :: u64
  sh_symbol_count :: u64

section \<open>Addresses\<close>

definition IsSysvHashAddressAligned :: "u64 \<Rightarrow> bool" where
  "IsSysvHashAddressAligned table_vaddr \<longleftrightarrow> table_vaddr mod SYSV_HASH_ALIGNMENT = 0"

definition DecodeRelocatedRange :: "u64 \<Rightarrow> u64 \<Rightarrow> u64 \<Rightarrow> u64 option" where
  "DecodeRelocatedRange base_vaddr relative_vaddr sz =
    (if UINT64_MAX - base_vaddr < relative_vaddr then None
     else let vaddr = base_vaddr + relative_vaddr
          in if UINT64_MAX - vaddr < sz then None else Some vaddr)"

text \<open>The signed addend is read through \<open>sint\<close>; \<open>-(addend + 1)\<close> does not overflow.\<close>

definition DecodeRelativeRelocationValue :: "u64 \<Rightarrow> i64 \<Rightarrow> u64 option" where
  "DecodeRelativeRelocationValue base_vaddr addend =
    (if 0 \<le> sint addend then
       let amount = addend
       in if UINT64_MAX - base_vaddr < amount then None else Some (base_vaddr + amount)
     else
       let magnitude = - (addend + 1) + 1
       in if base_vaddr < magnitude then None else Some (base_vaddr - magnitude))"

definition DecodeSymbolRelocationValue :: "u64 \<Rightarrow> i64 \<Rightarrow> u64 option" where
  "DecodeSymbolRelocationValue symbol_vaddr addend = DecodeRelativeRelocationValue symbol_vaddr addend"

definition DecodeDynamicSymbolAddress :: "u16 \<Rightarrow> u64 \<Rightarrow> u64 \<Rightarrow> u64 option" where
  "DecodeDynamicSymbolAddress section_index symbol_value base_vaddr =
    (if section_index = ELF64_SHN_UNDEF then None
     else if section_index = ELF64_SHN_ABS then Some symbol_value
     else DecodeRelocatedRange base_vaddr symbol_value 0)"

definition IsRegularDynamicFunctionDefinition :: "u16 \<Rightarrow> u8 \<Rightarrow> bool" where
  "IsRegularDynamicFunctionDefinition section_index symbol_type \<longleftrightarrow>
     symbol_type = ELF64_STT_FUNC \<and> section_index \<noteq> ELF64_SHN_UNDEF \<and> section_index < ELF64_SHN_LORESERVE"

definition IsRegularDynamicObjectDefinition :: "u16 \<Rightarrow> u8 \<Rightarrow> u64 \<Rightarrow> bool" where
  "IsRegularDynamicObjectDefinition section_index symbol_type object_size \<longleftrightarrow>
     object_size \<noteq> 0 \<and> symbol_type = ELF64_STT_OBJECT \<and>
     section_index \<noteq> ELF64_SHN_UNDEF \<and> section_index < ELF64_SHN_LORESERVE"

definition IsDynamicSymbolResolutionComplete :: "u16 \<Rightarrow> u8 \<Rightarrow> u64 \<Rightarrow> bool" where
  "IsDynamicSymbolResolutionComplete section_index binding resolved_address \<longleftrightarrow>
     resolved_address \<noteq> 0 \<or> (section_index = ELF64_SHN_UNDEF \<and> binding = ELF64_STB_WEAK)"

section \<open>Sizes of tables\<close>

text \<open>A declared size is None when it is not known.\<close>

definition DecodeSysvHashLayout :: "u64 \<Rightarrow> u64 \<Rightarrow> u64 option \<Rightarrow> SysvHashLayout option" where
  "DecodeSysvHashLayout bucket_count chain_count declared =
    (if UINT64_MAX - chain_count < bucket_count then None
     else let word_count = bucket_count + chain_count
          in if (UINT64_MAX - SYSV_HASH_HEADER_SIZE) div SYSV_HASH_WORD_SIZE < word_count then None
             else let table_size = SYSV_HASH_HEADER_SIZE + word_count * SYSV_HASH_WORD_SIZE
                  in if declared \<noteq> None \<and> declared \<noteq> Some table_size then None
                     else Some \<lparr>sh_table_size = table_size, sh_symbol_count = chain_count\<rparr>)"

definition DecodeDynamicSymbolTableSize :: "u64 \<Rightarrow> u64 \<Rightarrow> u64 option \<Rightarrow> u64 option" where
  "DecodeDynamicSymbolTableSize symbol_count entry_size declared =
    (if entry_size \<noteq> ELF64_SYM_SIZE \<or> UINT64_MAX div ELF64_SYM_SIZE < symbol_count then None
     else let table_size = symbol_count * ELF64_SYM_SIZE
          in if declared \<noteq> None \<and> declared \<noteq> Some table_size then None else Some table_size)"

definition IsNullDynamicSymbolEntryValid :: "bytes \<Rightarrow> u64 \<Rightarrow> bool" where
  "IsNullDynamicSymbolEntryValid symbol_table table_size =
    (case symbol_table of
       None \<Rightarrow> False
     | Some t \<Rightarrow> \<not> table_size < ELF64_SYM_SIZE \<and>
                 list_all (\<lambda>i. t (of_nat i) = 0) [0..<unat ELF64_SYM_SIZE])"

definition IsDynamicSymbolTableAddressAligned :: "u64 \<Rightarrow> bool" where
  "IsDynamicSymbolTableAddressAligned table_vaddr \<longleftrightarrow> table_vaddr mod ELF64_SYM_ALIGNMENT = 0"

section \<open>Thread-local storage\<close>

definition DecodeTlsAllocationLayout :: "u64 \<Rightarrow> TlsAllocationLayout option" where
  "DecodeTlsAllocationLayout image_size =
    (if UINT64_MAX - (TLS_TCB_ALIGNMENT - 1) - TLS_TCB_SIZE < image_size then None
     else let tcb_offset = (image_size + TLS_TCB_ALIGNMENT - 1) AND NOT (TLS_TCB_ALIGNMENT - 1)
          in Some \<lparr>ta_tcb_offset = tcb_offset, ta_allocation_size = tcb_offset + TLS_TCB_SIZE\<rparr>)"

definition DecodeTlsLayout :: "u64 \<Rightarrow> u64 \<Rightarrow> u64 \<Rightarrow> u64 \<Rightarrow> u64 \<Rightarrow> TlsLayout option" where
  "DecodeTlsLayout file_offset virtual_address file_size memory_size alignment =
    (if memory_size < file_size \<or> (1 < alignment \<and> alignment AND (alignment - 1) \<noteq> 0) then None
     else if 1 < alignment \<and>
        (file_offset mod alignment \<noteq> virtual_address mod alignment \<or>
         UINT64_MAX - (alignment - 1) < memory_size) then None
     else
       let image_size = (if 1 < alignment then (memory_size + alignment - 1) AND NOT (alignment - 1) else memory_size)
       in case DecodeTlsAllocationLayout image_size of
            None \<Rightarrow> None
          | Some allocation \<Rightarrow>
              Some \<lparr>tl_init_size = file_size, tl_image_size = image_size,
                    tl_tcb_offset = ta_tcb_offset allocation,
                    tl_allocation_size = ta_allocation_size allocation\<rparr>)"

section \<open>Ranges inside segments\<close>

definition IsTableRangeValid :: "u64 \<Rightarrow> u64 \<Rightarrow> u64 \<Rightarrow> u64 \<Rightarrow> bool" where
  "IsTableRangeValid table_vaddr table_size storage_vaddr storage_size =
    (if UINT64_MAX - storage_size < storage_vaddr \<or> table_vaddr < storage_vaddr then False
     else let table_offset = table_vaddr - storage_vaddr
          in table_offset \<le> storage_size \<and> table_size \<le> storage_size - table_offset)"

definition IsRelroRangeInMappedLoadSegment :: "u64 \<Rightarrow> u64 \<Rightarrow> u64 \<Rightarrow> u64 \<Rightarrow> bool" where
  "IsRelroRangeInMappedLoadSegment relro_vaddr relro_size load_vaddr mapped_load_size \<longleftrightarrow>
     relro_size = 0 \<or>
     (relro_vaddr mod RELRO_PAGE_SIZE = 0 \<and> relro_size mod RELRO_PAGE_SIZE = 0 \<and>
      IsTableRangeValid relro_vaddr relro_size load_vaddr mapped_load_size)"

definition IsDynamicObjectRangeInSegment :: "u64 \<Rightarrow> u64 \<Rightarrow> u64 \<Rightarrow> u64 \<Rightarrow> bool" where
  "IsDynamicObjectRangeInSegment object_vaddr object_size segment_vaddr segment_mem_size \<longleftrightarrow>
     object_size \<noteq> 0 \<and> IsTableRangeValid object_vaddr object_size segment_vaddr segment_mem_size"

definition IsExecutableEntryInSegment :: "u64 \<Rightarrow> u64 \<Rightarrow> u64 \<Rightarrow> bool \<Rightarrow> bool" where
  "IsExecutableEntryInSegment entry_vaddr segment_vaddr segment_file_size segment_is_executable \<longleftrightarrow>
     segment_is_executable \<and> IsTableRangeValid entry_vaddr 1 segment_vaddr segment_file_size"

definition IsLifecycleArrayRangeValid :: "u64 \<Rightarrow> u64 \<Rightarrow> u64 \<Rightarrow> u64 \<Rightarrow> bool" where
  "IsLifecycleArrayRangeValid array_vaddr array_size storage_vaddr storage_size \<longleftrightarrow>
     array_size = 0 \<or>
     (array_size mod ELF64_ADDR_SIZE = 0 \<and> IsTableRangeValid array_vaddr array_size storage_vaddr storage_size)"

definition IsRelaTableRangeValid :: "u64 \<Rightarrow> u64 \<Rightarrow> u64 \<Rightarrow> u64 \<Rightarrow> u64 \<Rightarrow> bool" where
  "IsRelaTableRangeValid table_vaddr table_size entry_size storage_vaddr storage_size =
    (if entry_size \<noteq> ELF64_RELA_SIZE \<or> table_vaddr mod ELF64_RELA_ALIGNMENT \<noteq> 0 \<or>
        table_size mod ELF64_RELA_SIZE \<noteq> 0 then False
     else IsTableRangeValid table_vaddr table_size storage_vaddr storage_size)"

definition IsRelaIndexValid :: "u64 \<Rightarrow> u64 \<Rightarrow> bool" where
  "IsRelaIndexValid record_index table_size \<longleftrightarrow> record_index < table_size div ELF64_RELA_SIZE"

definition IsJmprelExtentMetadataComplete :: "bool \<Rightarrow> bool \<Rightarrow> bool" where
  "IsJmprelExtentMetadataComplete table_address_present table_size_present \<longleftrightarrow>
     \<not> table_address_present \<or> table_size_present"

definition IsStandardStringExtentMetadataComplete :: "bool \<Rightarrow> bool \<Rightarrow> bool" where
  "IsStandardStringExtentMetadataComplete table_address_present table_size_present \<longleftrightarrow>
     \<not> table_address_present \<or> table_size_present"

definition IsStandardSymbolTableBoundAvailable :: "bool \<Rightarrow> bool \<Rightarrow> bool" where
  "IsStandardSymbolTableBoundAvailable symbol_table_present sysv_hash_present \<longleftrightarrow>
     \<not> symbol_table_present \<or> sysv_hash_present"

definition IsRelaExtentMetadataComplete :: "bool \<Rightarrow> bool \<Rightarrow> bool" where
  "IsRelaExtentMetadataComplete table_address_present table_size_present \<longleftrightarrow>
     \<not> table_address_present \<or> table_size_present"

section \<open>Relocation records\<close>

definition IsRelativeRelocationSymbolValid :: "u32 \<Rightarrow> u32 \<Rightarrow> bool" where
  "IsRelativeRelocationSymbolValid relocation_type symbol_index \<longleftrightarrow>
     relocation_type \<noteq> ELF64_R_X86_64_RELATIVE \<or> symbol_index = 0"

definition IsSupportedRelocationType :: "u32 \<Rightarrow> bool" where
  "IsSupportedRelocationType relocation_type \<longleftrightarrow>
     relocation_type = ELF64_R_X86_64_64 \<or> relocation_type = ELF64_R_X86_64_GLOB_DAT \<or>
     relocation_type = ELF64_R_X86_64_JUMP_SLOT \<or> relocation_type = ELF64_R_X86_64_RELATIVE \<or>
     relocation_type = ELF64_R_X86_64_DTPMOD64"

definition IsSupportedRelocationRecord :: "u32 \<Rightarrow> u32 \<Rightarrow> bool" where
  "IsSupportedRelocationRecord relocation_type symbol_index \<longleftrightarrow>
     IsSupportedRelocationType relocation_type \<and> IsRelativeRelocationSymbolValid relocation_type symbol_index"

definition IsSupportedRelocationSymbolEntry :: "u32 \<Rightarrow> u8 \<Rightarrow> u8 \<Rightarrow> bool" where
  "IsSupportedRelocationSymbolEntry relocation_type binding symbol_type =
    (let consumes_symbol =
           (relocation_type = ELF64_R_X86_64_64 \<or> relocation_type = ELF64_R_X86_64_GLOB_DAT \<or>
            relocation_type = ELF64_R_X86_64_JUMP_SLOT)
     in if \<not> consumes_symbol then True
        else
          let supported_binding =
                (binding = ELF64_STB_LOCAL \<or> binding = ELF64_STB_GLOBAL \<or> binding = ELF64_STB_WEAK);
              supported_type =
                (symbol_type = ELF64_STT_NOTYPE \<or> symbol_type = ELF64_STT_OBJECT \<or> symbol_type = ELF64_STT_FUNC)
          in supported_binding \<and> supported_type)"

definition IsRelocationTargetRangeValid :: "u64 \<Rightarrow> u64 \<Rightarrow> u64 \<Rightarrow> bool" where
  "IsRelocationTargetRangeValid target_vaddr segment_vaddr segment_memory_size \<longleftrightarrow>
     IsTableRangeValid target_vaddr ELF64_RELOCATION_TARGET_SIZE segment_vaddr segment_memory_size"

definition IsPltGotResolverRangeValid :: "u64 \<Rightarrow> u64 \<Rightarrow> u64 \<Rightarrow> bool" where
  "IsPltGotResolverRangeValid pltgot_vaddr segment_vaddr segment_memory_size \<longleftrightarrow>
     pltgot_vaddr mod ELF64_PLTGOT_ALIGNMENT = 0 \<and>
     IsTableRangeValid pltgot_vaddr ELF64_PLTGOT_RESOLVER_SIZE segment_vaddr segment_memory_size"

definition IsSymbolIndexValid :: "u64 \<Rightarrow> u64 \<Rightarrow> u64 \<Rightarrow> bool" where
  "IsSymbolIndexValid symbol_index symbol_table_size symbol_entry_size \<longleftrightarrow>
     symbol_entry_size = ELF64_SYM_SIZE \<and> symbol_index < symbol_table_size div ELF64_SYM_SIZE"

section \<open>Strings\<close>

text \<open>
  A string pointer into the table is its offset. \<open>size_t\<close> has 64 bits, so the comparison with its
  maximum never holds. \<open>memchr\<close> looks at the remaining bytes.
\<close>

definition GetBoundedString :: "bytes \<Rightarrow> u64 \<Rightarrow> u64 \<Rightarrow> u64 option" where
  "GetBoundedString table table_size string_offset =
    (case table of
       None \<Rightarrow> None
     | Some t \<Rightarrow>
         if table_size \<le> string_offset then None
         else
           let remaining = table_size - string_offset
           in if UINT64_MAX < remaining then None
              else if list_ex (\<lambda>i. t (string_offset + of_nat i) = 0) [0..<unat remaining]
              then Some string_offset else None)"

definition IsDynamicStringTableShapeValid :: "bytes \<Rightarrow> u64 \<Rightarrow> bool" where
  "IsDynamicStringTableShapeValid table table_size =
    (case table of
       None \<Rightarrow> False
     | Some t \<Rightarrow> table_size \<noteq> 0 \<and> table_size \<le> UINT64_MAX \<and> t 0 = 0 \<and> t (table_size - 1) = 0)"

definition GetDynamicString :: "bytes \<Rightarrow> u64 \<Rightarrow> bool \<Rightarrow> u64 \<Rightarrow> u64 option" where
  "GetDynamicString table table_size table_size_known string_offset =
    (if table = None then None
     else if \<not> table_size_known then Some string_offset
     else GetBoundedString table table_size string_offset)"

definition IsRelocationSymbolNameValid :: "u8 \<Rightarrow> bytes \<Rightarrow> u64 \<Rightarrow> bool \<Rightarrow> u64 \<Rightarrow> bool" where
  "IsRelocationSymbolNameValid binding string_table string_table_size string_table_size_known string_offset =
    (if binding = ELF64_STB_LOCAL then True
     else if binding \<noteq> ELF64_STB_GLOBAL \<and> binding \<noteq> ELF64_STB_WEAK then False
     else GetDynamicString string_table string_table_size string_table_size_known string_offset \<noteq> None)"

definition GetPlatformStringOffset :: "u64 \<Rightarrow> u64" where
  "GetPlatformStringOffset dynamic_value = dynamic_value AND 0xFFFFFFFF"

section \<open>Module references\<close>

datatype ModuleReleaseAction = Untracked | Retained | Final

text \<open>\<open>state->count\<close>; None is the null pointer.\<close>

definition InvokeOptionalModuleLifecycleEntry :: "u64 \<Rightarrow> (u64 \<Rightarrow> 's \<Rightarrow> int \<times> 's) \<Rightarrow> 's \<Rightarrow> int \<times> 's" where
  "InvokeOptionalModuleLifecycleEntry entry_vaddr callback s =
    (if entry_vaddr = 0 then (0, s) else callback entry_vaddr s)"

definition RunRelocationProtectionLifecycle ::
  "bool \<Rightarrow> ('s \<Rightarrow> bool \<times> 's) \<Rightarrow> ('s \<Rightarrow> bool \<times> 's) \<Rightarrow> ('s \<Rightarrow> bool \<times> 's) \<Rightarrow> 's \<Rightarrow> bool \<times> 's" where
  "RunRelocationProtectionLifecycle already_relocated restore relocate protect s =
    (case (if already_relocated then restore s else (True, s)) of (restored, s1) \<Rightarrow>
       if \<not> restored then (False, s1)
       else case relocate s1 of (relocated, s2) \<Rightarrow>
         if \<not> relocated then (False, s2) else protect s2)"

definition TryAddReference :: "u64 option \<Rightarrow> bool \<times> u64 option" where
  "TryAddReference state =
    (case state of
       None \<Rightarrow> (False, None)
     | Some count \<Rightarrow> if count = UINT64_MAX then (False, Some count) else (True, Some (count + 1)))"

definition PrepareRelease :: "u64 option \<Rightarrow> ModuleReleaseAction \<times> u64 option" where
  "PrepareRelease state =
    (case state of
       None \<Rightarrow> (Untracked, None)
     | Some count \<Rightarrow>
         if count = 0 then (Untracked, Some count)
         else if count = 1 then (Final, Some count)
         else (Retained, Some (count - 1)))"

end
