(* ===== verification/LinkerBoundsProps.thy ===== *)
theory LinkerBoundsProps
  imports LinkerBounds
begin

text \<open>
  What the checks of the loader accept, stated over natural numbers and integers, where nothing
  wraps, with an instance of each property.
\<close>

section \<open>Masks and powers of two\<close>

lemma nat_and_pred_zero: "n \<noteq> 0 \<Longrightarrow> n AND (n - 1) = 0 \<Longrightarrow> \<exists>k. n = 2 ^ k" for n :: nat
proof (induction n rule: less_induct)
  case (less n)
  have r: "n AND (n - 1) = of_bool (odd n \<and> odd (n - 1)) + 2 * ((n div 2) AND ((n - 1) div 2))" by (rule and_rec)
  show ?case
  proof (cases "odd n")
    case True
    then have "(n - 1) div 2 = n div 2" by (elim oddE) simp
    then have "n div 2 = 0" using r less.prems True by simp
    then have "n = 2 ^ 0" using less.prems(1) by simp
    then show ?thesis ..
  next
    case False
    then obtain m where m: "n = 2 * m" by (auto elim!: evenE)
    then have m0: "m \<noteq> 0" using less.prems by simp
    have "(n - 1) div 2 = m - 1" using m m0 by simp
    then have "m AND (m - 1) = 0" using r less.prems(2) m by simp
    then obtain k where "m = 2 ^ k" using less.IH [of m] m m0 by auto
    then have "n = 2 ^ Suc k" using m by simp
    then show ?thesis ..
  qed
qed

lemma word_and_pred_zero:
  fixes w :: u64
  assumes "w \<noteq> 0"
  shows "w AND (w - 1) = 0 \<longleftrightarrow> (\<exists>k < 64. w = 2 ^ k)"
proof
  assume a: "w AND (w - 1) = 0"
  have u: "unat (w - 1) = unat w - 1" using assms by (intro unat_minus_one) simp
  have "unat (w AND (w - 1)) = 0" using a by simp
  then have "unat w AND (unat w - 1) = 0" by (simp add: unsigned_and_eq u)
  then obtain k where k: "unat w = 2 ^ k" using nat_and_pred_zero [of "unat w"] assms by (auto simp: unat_eq_0)
  have "(2::nat) ^ k < 2 ^ 64" using u64_less [of w] by (simp add: k)
  have "k < 64"
  proof (rule power_less_imp_less_exp)
    show "1 < (2 :: nat)" by simp
    show "(2 :: nat) ^ k < 2 ^ 64" by fact
  qed
  moreover have "w = 2 ^ k" using k unat_power [OF calculation] by (intro word_unat_eqI) simp
  ultimately show "\<exists>k < 64. w = 2 ^ k" by blast
next
  assume "\<exists>k < 64. w = 2 ^ k"
  then obtain k where k: "k < 64" "w = 2 ^ k" by blast
  have "(2 :: u64) ^ k AND mask k = 0" by (rule bit_eqI) (auto simp: bit_simps)
  moreover have "w - 1 = mask k" by (simp only: k(2) mask_eq_exp_minus_1)
  ultimately show "w AND (w - 1) = 0" by (simp only: k(2))
qed

lemma unat_round:
  fixes x :: u64
  assumes "k < 64"
  shows "unat (x AND NOT (2 ^ k - 1)) = unat x div 2 ^ k * 2 ^ k"
proof -
  have "x AND NOT (2 ^ k - 1) = push_bit k (drop_bit k x)"
    by (rule bit_eqI) (auto simp: mask_eq_exp_minus_1 [symmetric] bit_simps)
  moreover have "unat (push_bit k (drop_bit k x)) = unat x div 2 ^ k * 2 ^ k"
  proof -
    have "unat x div 2 ^ k * 2 ^ k \<le> unat x" by simp
    then have "unat x div 2 ^ k * 2 ^ k < 2 ^ 64" using u64_less [of x] by linarith
    then have "take_bit 64 (unat x) = unat x" "take_bit 64 (unat x div 2 ^ k * 2 ^ k) = unat x div 2 ^ k * 2 ^ k"
      using u64_less [of x] by (simp_all only: take_bit_nat_eq_self)
    then show ?thesis unfolding unsigned_push_bit_eq unsigned_drop_bit_eq by (simp add: push_bit_eq_mult drop_bit_eq_div)
  qed
  ultimately show ?thesis by simp
qed

definition round_up :: "nat \<Rightarrow> nat \<Rightarrow> nat" where
  "round_up n a = (n + (a - 1)) div a * a"

lemma round_up_props:
  assumes "a \<noteq> 0"
  shows "a dvd round_up n a" "n \<le> round_up n a" "round_up n a < n + a"
proof -
  have m: "(n + (a - 1)) div a * a + (n + (a - 1)) mod a = n + (a - 1)" by simp
  have "(n + (a - 1)) mod a < a" using assms by simp
  then show "n \<le> round_up n a" "round_up n a < n + a" using m assms unfolding round_up_def by linarith+
  show "a dvd round_up n a" by (simp add: round_up_def)
qed

lemma unat_round_up:
  fixes x :: u64
  assumes "k < 64" and "unat x + (2 ^ k - 1) < 2 ^ 64"
  shows "unat ((x + 2 ^ k - 1) AND NOT (2 ^ k - 1)) = round_up (unat x) (2 ^ k)"
proof -
  note p = unat_power [OF assms(1)]
  have "(2 :: u64) ^ k \<noteq> 0" using p by (metis power_not_zero unat_0 zero_neq_numeral)
  then have u1: "unat ((2 :: u64) ^ k - 1) = 2 ^ k - 1" using unat_minus_one [of "(2 :: u64) ^ k"] p by metis
  have "fits x (2 ^ k - 1)" using assms(2) by (simp add: fits_unat u1)
  then have "unat (x + (2 ^ k - 1)) = unat x + (2 ^ k - 1)" by (simp add: unat_add_fits u1)
  then show ?thesis by (simp add: unat_round [OF assms(1)] round_up_def add_diff_eq)
qed

section \<open>Relocations\<close>

lemma sint_split: "uint a = (if 0 \<le> sint a then sint a else sint a + 2 ^ 64)" for a :: u64
proof -
  have s: "uint a = sint a mod 2 ^ 64" by (simp add: uint_sint take_bit_eq_mod)
  have b: "- (2 ^ 63) \<le> sint a" "sint a < 2 ^ 63" using sint_ge [of a] sint_lt [of a] by simp_all
  show ?thesis
  proof (cases "0 \<le> sint a")
    case True
    then show ?thesis unfolding s using b by (simp add: mod_pos_pos_trivial)
  next
    case False
    have "sint a mod 2 ^ 64 = (sint a + 2 ^ 64) mod 2 ^ 64" by simp
    also have "\<dots> = sint a + 2 ^ 64" using False b by (intro mod_pos_pos_trivial) simp_all
    finally show ?thesis unfolding s using False by simp
  qed
qed

lemma relocation_exact:
  "DecodeRelativeRelocationValue base addend =
    (if 0 \<le> uint base + sint addend \<and> uint base + sint addend < 2 ^ 64
     then Some (word_of_int (uint base + sint addend)) else None)"
proof -
  have b: "0 \<le> uint base" "uint base < 2 ^ 64" using uint_bounded [of base] by simp_all
  have w: "word_of_int (uint base + sint addend) = base + addend" by simp
  show ?thesis
  proof (cases "0 \<le> sint addend")
    case True
    then have u: "uint addend = sint addend" using sint_split [of addend] by simp
    have "(unat base + unat addend < 2 ^ 64) = (uint base + uint addend < 2 ^ 64)"
      using of_nat_less_iff [of "unat base + unat addend" "2 ^ 64", where 'a = int]
      unfolding uint_nat by (simp only: of_nat_add of_nat_power of_nat_numeral)
    then have "UINT64_MAX - base < addend \<longleftrightarrow> \<not> uint base + uint addend < 2 ^ 64"
      unfolding not_fits fits_unat by (simp only:)
    then have e: "(UINT64_MAX - base < addend) = (\<not> uint base + sint addend < 2 ^ 64)" unfolding u .
    have c: "0 \<le> uint base + sint addend" using True b by linarith
    show ?thesis
      by (cases "uint base + sint addend < 2 ^ 64")
        (simp_all only: DecodeRelativeRelocationValue_def Let_def True e c w if_True if_False simp_thms)
  next
    case False
    then have u: "uint addend = sint addend + 2 ^ 64" using sint_split [of addend] by simp
    have "uint (word_of_int (- sint addend) :: u64) = - sint addend"
      unfolding uint_word_of_int_eq using False sint_ge [of addend] by (intro take_bit_int_eq_self) simp_all
    then have m: "uint (- addend) = - sint addend" by simp
    have e: "- (addend + 1) + 1 = - addend" by simp
    have "base < - addend \<longleftrightarrow> uint base < - sint addend" by (simp add: word_less_def m)
    moreover have "uint base + sint addend < 2 ^ 64" using b False by linarith
    moreover have "(\<not> uint base < - sint addend) = (0 \<le> uint base + sint addend)" by linarith
    ultimately show ?thesis
      by (cases "uint base < - sint addend")
        (simp_all only: DecodeRelativeRelocationValue_def Let_def False e w diff_minus_eq_add if_True if_False simp_thms)
  qed
qed

text \<open>The value of a relocation is the exact sum of the base address and the signed addend, and
  it is refused exactly when that sum is not a 64-bit address.\<close>

lemma loader_relocation_exact:
  "DecodeRelativeRelocationValue base addend =
    (if 0 \<le> uint base + sint addend \<and> uint base + sint addend < 2 ^ 64
     then Some (word_of_int (uint base + sint addend)) else None)"
  by (rule relocation_exact)

section \<open>Ranges\<close>

text \<open>A table is accepted in a segment exactly when the segment does not reach past the last address
  and the table lies inside it, with sums taken in the natural numbers. In particular every byte of an
  accepted table is a byte of the segment.\<close>

lemma loader_table_range_exact:
  "IsTableRangeValid t n s k \<longleftrightarrow>
    unat s + unat k < 2 ^ 64 \<and> unat s \<le> unat t \<and> unat t + unat n \<le> unat s + unat k"
proof (cases "fits s k \<and> s \<le> t")
  case True
  have g: "\<not> (UINT64_MAX - k < s \<or> t < s)" using True not_fits [of k s] by (auto simp: fits_unat add.commute)
  have "unat (t - s) = unat t - unat s" using True by (simp add: unat_sub)
  moreover have "t - s \<le> k \<Longrightarrow> unat (k - (t - s)) = unat k - unat (t - s)" by (rule unat_sub)
  ultimately show ?thesis using True g
    by (auto simp: IsTableRangeValid_def Let_def fits_unat word_le_nat_alt)
next
  case False
  then have "UINT64_MAX - k < s \<or> t < s" using not_fits [of k s] by (auto simp: fits_unat add.commute not_le)
  then show ?thesis using False by (auto simp: IsTableRangeValid_def fits_unat word_le_nat_alt)
qed

text \<open>Strings. Reading a name from a table of known size gives the requested offset exactly when
  the offset lies in the table and the name is terminated inside it; a caller that follows the string to
  its terminator never leaves the table.\<close>

lemma loader_bounded_string:
  "GetDynamicString (Some t) n True off =
    (if off < n \<and> (\<exists>p. off \<le> p \<and> p < n \<and> t p = 0) then Some off else None)"
proof (cases "off < n")
  case False
  then show ?thesis by (simp add: GetDynamicString_def GetBoundedString_def)
next
  case True
  have u: "unat (n - off) = unat n - unat off" using True by (simp add: unat_sub less_imp_le)
  have "(\<exists>i \<in> set [0..<unat (n - off)]. t (off + of_nat i) = 0) \<longleftrightarrow> (\<exists>p. off \<le> p \<and> p < n \<and> t p = 0)"
  proof
    assume "\<exists>i \<in> set [0..<unat (n - off)]. t (off + of_nat i) = 0"
    then obtain i where i: "i < unat n - unat off" "t (off + of_nat i) = 0" by (auto simp: u)
    have ui: "unat (of_nat i :: u64) = i" using i(1) u64_less [of n] by (intro unat_of_nat_u64) linarith
    then have "fits off (of_nat i)" using i(1) u64_less [of n] by (simp add: fits_unat)
    then have "unat (off + of_nat i) = unat off + i" by (simp add: unat_add_fits ui)
    then have "off \<le> off + of_nat i" "off + of_nat i < n" using i(1) by (auto simp: word_le_nat_alt word_less_nat_alt)
    then show "\<exists>p. off \<le> p \<and> p < n \<and> t p = 0" using i(2) by blast
  next
    assume "\<exists>p. off \<le> p \<and> p < n \<and> t p = 0"
    then obtain p where p: "off \<le> p" "p < n" "t p = 0" by blast
    have "unat p - unat off < unat (n - off)" using p by (simp add: u word_le_nat_alt word_less_nat_alt)
    moreover have "off + of_nat (unat p - unat off) = p"
    proof -
      have "of_nat (unat p - unat off) = p - off" using p(1) by (simp add: word_le_nat_alt)
      then show ?thesis by simp
    qed
    ultimately show "\<exists>i \<in> set [0..<unat (n - off)]. t (off + of_nat i) = 0"
      using p(3) by (intro bexI [of _ "unat p - unat off"]) simp_all
  qed
  then have e: "list_ex (\<lambda>i. t (off + of_nat i) = 0) [0..<unat (n - off)] \<longleftrightarrow> (\<exists>p. off \<le> p \<and> p < n \<and> t p = 0)"
    unfolding list_ex_iff .
  have x: "\<not> UINT64_MAX < n - off" "\<not> n \<le> off" using True by (simp_all add: not_less)
  show ?thesis
    by (simp only: GetDynamicString_def GetBoundedString_def Let_def option.case option.distinct x e True
        if_True if_False simp_thms)
qed

section \<open>Thread-local storage\<close>

text \<open>The segments that the loader accepts.\<close>

definition tls_ok :: "u64 \<Rightarrow> u64 \<Rightarrow> u64 \<Rightarrow> u64 \<Rightarrow> u64 \<Rightarrow> bool" where
  "tls_ok fo va fs ms al \<longleftrightarrow> unat fs \<le> unat ms \<and>
     (1 < unat al \<longrightarrow> (\<exists>k < 64. unat al = 2 ^ k) \<and> unat fo mod unat al = unat va mod unat al \<and>
        unat ms + (unat al - 1) < 2 ^ 64) \<and>
     round_up (unat ms) (max 1 (unat al)) + 95 < 2 ^ 64"

lemma tls_image:
  assumes "1 < al \<Longrightarrow> al AND (al - 1) = 0 \<and> \<not> UINT64_MAX - (al - 1) < ms"
  shows "unat (if 1 < al then (ms + al - 1) AND NOT (al - 1) else ms) = round_up (unat ms) (max 1 (unat al))"
proof (cases "1 < al")
  case True
  then have "al \<noteq> 0" by auto
  then obtain k where k: "k < 64" "al = 2 ^ k" using assms True word_and_pred_zero by blast
  have p: "unat al = 2 ^ k" using unat_power [OF k(1)] k(2) by simp
  have "unat (al - 1) = 2 ^ k - 1" using unat_minus_one [OF \<open>al \<noteq> 0\<close>] p by simp
  then have "unat ms + (2 ^ k - 1) < 2 ^ 64" using assms True not_fits [of "al - 1" ms] by (simp add: fits_unat)
  then have "unat ((ms + 2 ^ k - 1) AND NOT (2 ^ k - 1)) = round_up (unat ms) (2 ^ k)" by (rule unat_round_up [OF k(1)])
  moreover have "max 1 (unat al) = 2 ^ k" by (simp add: p)
  ultimately show ?thesis using True unfolding k(2) by simp
next
  case False
  then have "unat al \<le> 1" by (simp add: word_less_nat_alt)
  then show ?thesis using False by (simp add: round_up_def max_def)
qed

lemma tls_guard:
  "tls_ok fo va fs ms al \<longleftrightarrow>
     fs \<le> ms \<and> (1 < al \<longrightarrow> al AND (al - 1) = 0 \<and> fo mod al = va mod al \<and> \<not> UINT64_MAX - (al - 1) < ms) \<and>
     round_up (unat ms) (max 1 (unat al)) + 95 < 2 ^ 64"
proof (cases "1 < al")
  case True
  then have z: "al \<noteq> 0" by auto
  have u: "unat (al - 1) = unat al - 1" using z by (intro unat_minus_one) simp
  have m: "(fo mod al = va mod al) = (unat fo mod unat al = unat va mod unat al)"
    by (simp only: word_unat_eq_iff unat_mod)
  have "(\<exists>k < 64. unat al = 2 ^ k) = (al AND (al - 1) = 0)"
    unfolding word_and_pred_zero [OF z] using unat_power by (metis word_unat_eqI)
  moreover have "1 < unat al" using True by (simp add: word_less_nat_alt)
  ultimately show ?thesis using True
    by (simp only: tls_ok_def not_fits fits_unat u m add.commute [of "unat al - 1"] word_le_nat_alt simp_thms)
next
  case False
  then have "\<not> 1 < unat al" by (simp add: word_less_nat_alt)
  then show ?thesis using False by (simp only: tls_ok_def word_le_nat_alt) (simp add: add.assoc)
qed

lemma tls_allocation_exact:
  "case DecodeTlsAllocationLayout im of
     None \<Rightarrow> 2 ^ 64 \<le> unat im + 95
   | Some l \<Rightarrow> unat im + 95 < 2 ^ 64 \<and> unat (ta_tcb_offset l) = round_up (unat im) 32 \<and>
       unat (ta_allocation_size l) = unat (ta_tcb_offset l) + 64"
proof (cases "unat im + 95 < 2 ^ 64")
  case True
  have "(UINT64_MAX - (TLS_TCB_ALIGNMENT - 1) - TLS_TCB_SIZE < im) = (UINT64_MAX - 95 < im)"
    by (simp add: elf_sizes)
  then have g: "\<not> UINT64_MAX - (TLS_TCB_ALIGNMENT - 1) - TLS_TCB_SIZE < im"
    unfolding not_fits fits_unat using True by simp
  define t where "t = (im + TLS_TCB_ALIGNMENT - 1) AND NOT (TLS_TCB_ALIGNMENT - 1)"
  have "t = (im + 2 ^ 5 - 1) AND NOT (2 ^ 5 - 1)" by (simp add: t_def elf_sizes)
  then have t: "unat t = round_up (unat im) 32" using unat_round_up [of 5 im] True by simp
  then have "unat t < unat im + 32" using round_up_props(3) [of 32 "unat im"] by simp
  then have "fits t 64" using True by (simp add: fits_unat)
  then have "unat (t + 64) = unat t + 64" by (simp add: unat_add_fits)
  then show ?thesis using True g t
    by (simp add: DecodeTlsAllocationLayout_def t_def [symmetric] TLS_TCB_SIZE_def)
next
  case False
  have "(UINT64_MAX - (TLS_TCB_ALIGNMENT - 1) - TLS_TCB_SIZE < im) = (UINT64_MAX - 95 < im)"
    by (simp add: elf_sizes)
  then have "UINT64_MAX - (TLS_TCB_ALIGNMENT - 1) - TLS_TCB_SIZE < im"
    unfolding not_fits fits_unat using False by simp
  then show ?thesis using False by (simp add: DecodeTlsAllocationLayout_def)
qed

text \<open>Thread-local storage. A segment is accepted exactly when its sizes are consistent, its alignment
  is a power of two that its file offset and address agree on, and nothing wraps around. The image is then
  the least multiple of the alignment that holds the segment, the thread control block follows at the next
  multiple of 32 and has 64 bytes.\<close>

lemma loader_tls_layout_exact:
  "case DecodeTlsLayout fo va fs ms al of
     None \<Rightarrow> \<not> tls_ok fo va fs ms al
   | Some l \<Rightarrow> tls_ok fo va fs ms al \<and> tl_init_size l = fs \<and>
       unat (tl_image_size l) = round_up (unat ms) (max 1 (unat al)) \<and>
       unat (tl_tcb_offset l) = round_up (unat (tl_image_size l)) 32 \<and>
       unat (tl_allocation_size l) = unat (tl_tcb_offset l) + 64"
proof (cases "fs \<le> ms \<and> (1 < al \<longrightarrow> al AND (al - 1) = 0 \<and> fo mod al = va mod al \<and> \<not> UINT64_MAX - (al - 1) < ms)")
  case False
  then have "DecodeTlsLayout fo va fs ms al = None"
    unfolding DecodeTlsLayout_def by (auto simp: not_le)
  then show ?thesis using False by (simp add: tls_guard)
next
  case True
  define im where "im = (if 1 < al then (ms + al - 1) AND NOT (al - 1) else ms)"
  have i: "unat im = round_up (unat ms) (max 1 (unat al))" unfolding im_def using True by (intro tls_image) blast
  have ok: "tls_ok fo va fs ms al = (unat im + 95 < 2 ^ 64)" using True by (simp add: tls_guard i)
  have d: "DecodeTlsLayout fo va fs ms al = (case DecodeTlsAllocationLayout im of None \<Rightarrow> None
     | Some a \<Rightarrow> Some \<lparr>tl_init_size = fs, tl_image_size = im, tl_tcb_offset = ta_tcb_offset a,
                    tl_allocation_size = ta_allocation_size a\<rparr>)"
    unfolding DecodeTlsLayout_def im_def Let_def using True by (auto simp: not_less)
  show ?thesis unfolding d ok using tls_allocation_exact [of im] i
    by (cases "DecodeTlsAllocationLayout im") simp_all
qed

end
