(* ===== verification/Machine.thy ===== *)
theory Machine
  imports Prelude
begin

text \<open>
  Threads that share an object guarded by a mutex. A state holds the object and, for every thread, the
  place in the code where it is outside the mutex; a step is one critical section of one thread. This
  theory has what the synchronisation objects share: reachable states, counting threads at a place,
  invariants kept by every step, and phases in which a number goes down until it is zero.
\<close>

section \<open>Counting threads\<close>

definition cnt :: "('a \<Rightarrow> bool) \<Rightarrow> 'a list \<Rightarrow> int" where
  "cnt P xs = int (length (filter P xs))"

lemma cnt_nonneg [simp]: "0 \<le> cnt P xs"
  by (simp add: cnt_def)

lemma cnt_replicate: "\<not> P x \<Longrightarrow> cnt P (replicate n x) = 0"
  by (simp add: cnt_def)

lemma cnt_update:
  "t < length xs \<Longrightarrow> cnt P (xs[t := c]) = cnt P xs - of_bool (P (xs ! t)) + of_bool (P c)"
proof (induction xs arbitrary: t)
  case (Cons x xs)
  then show ?case by (cases t) (auto simp: cnt_def)
qed simp

lemma cnt_pos: "0 < cnt P xs \<longleftrightarrow> (\<exists>t < length xs. P (xs ! t))"
  unfolding cnt_def by (simp add: filter_empty_conv) (metis in_set_conv_nth)

lemma cnt_zero: "cnt P xs = 0 \<longleftrightarrow> (\<forall>t < length xs. \<not> P (xs ! t))"
  unfolding cnt_def by (simp add: filter_empty_conv) (metis in_set_conv_nth)

lemma cnt_le_one:
  assumes "cnt P xs \<le> 1" "i < length xs" "j < length xs" "P (xs ! i)" "P (xs ! j)"
  shows "i = j"
proof (rule ccontr)
  assume "i \<noteq> j"
  have "card {i, j} \<le> card {t. t < length xs \<and> P (xs ! t)}" using assms by (intro card_mono) auto
  then show False using assms(1) \<open>i \<noteq> j\<close> by (simp add: cnt_def length_filter_conv_card)
qed

section \<open>Reachable states\<close>

inductive reach :: "('s \<Rightarrow> bool) \<Rightarrow> ('s \<Rightarrow> 's \<Rightarrow> bool) \<Rightarrow> 's \<Rightarrow> bool"
  for start :: "'s \<Rightarrow> bool" and step :: "'s \<Rightarrow> 's \<Rightarrow> bool" where
  reach_start: "start s \<Longrightarrow> reach start step s"
| reach_step: "reach start step s \<Longrightarrow> step s t \<Longrightarrow> reach start step t"

text \<open>An invariant: it holds at the start and every step keeps it.\<close>

locale kept =
  fixes start :: "'s \<Rightarrow> bool" and step :: "'s \<Rightarrow> 's \<Rightarrow> bool" and inv :: "'s \<Rightarrow> bool"
  assumes kept_start: "start s \<Longrightarrow> inv s"
    and kept_step: "inv s \<Longrightarrow> step s t \<Longrightarrow> inv t"
begin

lemma reach_inv: "reach start step s \<Longrightarrow> inv s"
  by (induction rule: reach.induct) (auto intro: kept_start kept_step)

lemma steps_inv: "step\<^sup>*\<^sup>* s t \<Longrightarrow> inv s \<Longrightarrow> inv t"
  by (induction rule: rtranclp_induct) (auto intro: kept_step)

end

text \<open>A phase in which some step lowers a number as long as it is not zero.\<close>

locale draining = kept +
  fixes phase :: "'a \<Rightarrow> bool" and left :: "'a \<Rightarrow> nat"
  assumes lower: "inv s \<Longrightarrow> phase s \<Longrightarrow> left s \<noteq> 0 \<Longrightarrow> \<exists>t. step s t \<and> phase t \<and> left t < left s"
begin

lemma drained: "inv s \<Longrightarrow> phase s \<Longrightarrow> \<exists>t. step\<^sup>*\<^sup>* s t \<and> phase t \<and> left t = 0"
proof (induction "left s" arbitrary: s rule: less_induct)
  case less
  show ?case
  proof (cases "left s = 0")
    case True
    then show ?thesis using less.prems by blast
  next
    case False
    then obtain u where u: "step s u" "phase u" "left u < left s" using lower less.prems by blast
    then obtain t where "step\<^sup>*\<^sup>* u t" "phase t" "left t = 0"
      using less.hyps [of u] kept_step less.prems(1) by blast
    then show ?thesis using u(1) converse_rtranclp_into_rtranclp [of step s u t] by blast
  qed
qed

end

end
