(* ===== verification/EventFlag.thy ===== *)
theory EventFlag
  imports Machine
begin

text \<open>
  Event flags, \<open>src/kernel/eventFlag.cpp\<close>. The first part has the critical sections of
  \<open>KernelEventFlagPrivate\<close>: what one thread does between taking and releasing \<open>m_mutex\<close>, as a
  function from the object to the new object and the place where the thread continues. Waiting on the
  condition variable and the pauses of ten microseconds release the mutex, so each of them ends a
  critical section; \<open>WaitFor\<close> may return at any time, with or without a signal. The second part is the
  step relation of any number of threads on one object, the third the registry of named flags and the
  entry points of the kernel.
\<close>

unbundle bit_operations_syntax

section \<open>State\<close>

datatype EfResult = EfOk | EfAlreadyWaiting | EfTimedOut | EfCanceled | EfDeleted
datatype EfClearMode = EfClearNone | EfClearAll | EfClearBits
datatype EfWaitMode = EfAnd | EfOr
datatype EfStatus = EfStSet | EfStCanceled | EfStDeleted

record KernelEventFlagPrivate =
  ef_status :: EfStatus
  ef_waiting_threads :: int
  ef_name :: string
  ef_reported_long_wait :: bool
  ef_single_thread :: bool
  ef_bits :: u64
  ef_open_references :: int

definition new_event_flag :: "string \<Rightarrow> bool \<Rightarrow> bool \<Rightarrow> u64 \<Rightarrow> KernelEventFlagPrivate" where
  "new_event_flag nm single fifo bits =
    \<lparr>ef_status = EfStSet, ef_waiting_threads = 0, ef_name = nm, ef_reported_long_wait = False,
     ef_single_thread = single, ef_bits = bits, ef_open_references = 1\<rparr>"

text \<open>
  The place of a thread. A call of \<open>Wait\<close> carries its pattern, modes and time limit (None is the null
  pointer). \<open>EfWaited\<close> holds what \<open>Wait\<close> returned: the result, the value written through \<open>result\<close>
  (None when it writes none) and the remaining time.
\<close>

datatype ef_pc =
  EfIdle
| EfInWait u64 EfWaitMode EfClearMode "u32 option"
| EfSpinSet u64
| EfSpinClear u64
| EfSpinCancel u64
| EfDrainCancel int
| EfSpinDelete
| EfDrainDelete
| EfWaited EfResult "u64 option" "u32 option"
| EfSetDone
| EfClearDone
| EfCancelDone int
| EfDeleteDone

section \<open>Critical sections\<close>

definition wait_satisfied :: "KernelEventFlagPrivate \<Rightarrow> u64 \<Rightarrow> EfWaitMode \<Rightarrow> bool" where
  "wait_satisfied f bits wait_mode \<longleftrightarrow>
     (wait_mode = EfAnd \<and> ef_bits f AND bits = bits) \<or> (wait_mode = EfOr \<and> ef_bits f AND bits \<noteq> 0)"

definition update_timeout :: "u32 option \<Rightarrow> u32 \<Rightarrow> u32 option" where
  "update_timeout tmo elapsed = map_option (\<lambda>micros. if micros \<le> elapsed then 0 else micros - elapsed) tmo"

definition apply_clear :: "KernelEventFlagPrivate \<Rightarrow> u64 \<Rightarrow> EfClearMode \<Rightarrow> KernelEventFlagPrivate" where
  "apply_clear f bits clear_mode =
    (case clear_mode of
       EfClearAll \<Rightarrow> f\<lparr>ef_bits := 0\<rparr>
     | EfClearBits \<Rightarrow> f\<lparr>ef_bits := ef_bits f AND NOT bits\<rparr>
     | EfClearNone \<Rightarrow> f)"

text \<open>The head of the loop of \<open>Wait\<close>, up to the next call of \<open>WaitFor\<close> or the return.\<close>

definition wait_loop ::
  "KernelEventFlagPrivate \<Rightarrow> u64 \<Rightarrow> EfWaitMode \<Rightarrow> EfClearMode \<Rightarrow> u32 option \<Rightarrow> u32 \<Rightarrow> KernelEventFlagPrivate \<times> ef_pc" where
  "wait_loop f bits wait_mode clear_mode tmo elapsed =
    (if \<not> wait_satisfied f bits wait_mode then
       if (case tmo of None \<Rightarrow> False | Some micros \<Rightarrow> micros \<le> elapsed)
       then (f, EfWaited EfTimedOut (Some (ef_bits f)) (update_timeout tmo elapsed))
       else (f\<lparr>ef_waiting_threads := ef_waiting_threads f + 1\<rparr>, EfInWait bits wait_mode clear_mode tmo)
     else (apply_clear f bits clear_mode, EfWaited EfOk (Some (ef_bits f)) (update_timeout tmo elapsed)))"

definition Wait_begin ::
  "KernelEventFlagPrivate \<Rightarrow> u64 \<Rightarrow> EfWaitMode \<Rightarrow> EfClearMode \<Rightarrow> u32 option \<Rightarrow> KernelEventFlagPrivate \<times> ef_pc" where
  "Wait_begin f bits wait_mode clear_mode tmo =
    (if ef_single_thread f \<and> 0 < ef_waiting_threads f then (f, EfWaited EfAlreadyWaiting None tmo)
     else wait_loop f bits wait_mode clear_mode tmo 0)"

text \<open>
  After \<open>WaitFor\<close>: the clock gives the microseconds that have passed, and whether an unlimited wait has
  lasted longer than five seconds, which is reported once.
\<close>

definition Wait_wake ::
  "KernelEventFlagPrivate \<Rightarrow> u64 \<Rightarrow> EfWaitMode \<Rightarrow> EfClearMode \<Rightarrow> u32 option \<Rightarrow> u32 \<Rightarrow> bool \<Rightarrow>
     KernelEventFlagPrivate \<times> ef_pc" where
  "Wait_wake f bits wait_mode clear_mode tmo elapsed late =
    (let f1 = (if tmo = None \<and> \<not> ef_reported_long_wait f \<and> late then f\<lparr>ef_reported_long_wait := True\<rparr> else f);
         f2 = f1\<lparr>ef_waiting_threads := ef_waiting_threads f1 - 1\<rparr>
     in case ef_status f2 of
          EfStCanceled \<Rightarrow> (f2, EfWaited EfCanceled (Some (ef_bits f2)) (update_timeout tmo elapsed))
        | EfStDeleted \<Rightarrow> (f2, EfWaited EfDeleted (Some (ef_bits f2)) (update_timeout tmo elapsed))
        | EfStSet \<Rightarrow> wait_loop f2 bits wait_mode clear_mode tmo elapsed)"

definition Poll :: "KernelEventFlagPrivate \<Rightarrow> u64 \<Rightarrow> EfWaitMode \<Rightarrow> EfClearMode \<Rightarrow> KernelEventFlagPrivate \<times> ef_pc" where
  "Poll f bits wait_mode clear_mode = Wait_begin f bits wait_mode clear_mode (Some 0)"

text \<open>
  \<open>Set\<close>, \<open>Clear\<close> and \<open>Cancel\<close> end the process on a deleted flag when they begin; then they test the status,
  pausing as long as it is not \<open>Set\<close>.
\<close>

definition Set_try :: "KernelEventFlagPrivate \<Rightarrow> u64 \<Rightarrow> KernelEventFlagPrivate \<times> ef_pc" where
  "Set_try f bits =
    (if ef_status f \<noteq> EfStSet then (f, EfSpinSet bits) else (f\<lparr>ef_bits := ef_bits f OR bits\<rparr>, EfSetDone))"

definition Set_begin :: "KernelEventFlagPrivate \<Rightarrow> u64 \<Rightarrow> (KernelEventFlagPrivate \<times> ef_pc) outcome" where
  "Set_begin f bits = (if ef_status f = EfStDeleted then Exit else Done (Set_try f bits))"

definition Clear_try :: "KernelEventFlagPrivate \<Rightarrow> u64 \<Rightarrow> KernelEventFlagPrivate \<times> ef_pc" where
  "Clear_try f bits =
    (if ef_status f \<noteq> EfStSet then (f, EfSpinClear bits) else (f\<lparr>ef_bits := ef_bits f AND bits\<rparr>, EfClearDone))"

definition Clear_begin :: "KernelEventFlagPrivate \<Rightarrow> u64 \<Rightarrow> (KernelEventFlagPrivate \<times> ef_pc) outcome" where
  "Clear_begin f bits = (if ef_status f = EfStDeleted then Exit else Done (Clear_try f bits))"

definition Cancel_drain :: "KernelEventFlagPrivate \<Rightarrow> int \<Rightarrow> KernelEventFlagPrivate \<times> ef_pc" where
  "Cancel_drain f num_waiting =
    (if 0 < ef_waiting_threads f then (f, EfDrainCancel num_waiting)
     else (f\<lparr>ef_status := EfStSet\<rparr>, EfCancelDone num_waiting))"

definition Cancel_try :: "KernelEventFlagPrivate \<Rightarrow> u64 \<Rightarrow> KernelEventFlagPrivate \<times> ef_pc" where
  "Cancel_try f bits =
    (if ef_status f \<noteq> EfStSet then (f, EfSpinCancel bits)
     else Cancel_drain (f\<lparr>ef_status := EfStCanceled, ef_bits := bits\<rparr>) (ef_waiting_threads f))"

definition Cancel_begin :: "KernelEventFlagPrivate \<Rightarrow> u64 \<Rightarrow> (KernelEventFlagPrivate \<times> ef_pc) outcome" where
  "Cancel_begin f bits = (if ef_status f = EfStDeleted then Exit else Done (Cancel_try f bits))"

text \<open>The destructor.\<close>

definition Delete_drain :: "KernelEventFlagPrivate \<Rightarrow> KernelEventFlagPrivate \<times> ef_pc" where
  "Delete_drain f = (if 0 < ef_waiting_threads f then (f, EfDrainDelete) else (f, EfDeleteDone))"

definition Delete_try :: "KernelEventFlagPrivate \<Rightarrow> KernelEventFlagPrivate \<times> ef_pc" where
  "Delete_try f =
    (if ef_status f \<noteq> EfStSet then (f, EfSpinDelete) else Delete_drain (f\<lparr>ef_status := EfStDeleted\<rparr>))"

section \<open>Threads on one event flag\<close>

text \<open>The places where a thread may make a new call.\<close>

fun ef_free :: "ef_pc \<Rightarrow> bool" where
  "ef_free EfIdle = True"
| "ef_free (EfWaited _ _ _) = True"
| "ef_free EfSetDone = True"
| "ef_free EfClearDone = True"
| "ef_free (EfCancelDone _) = True"
| "ef_free _ = False"

inductive ef_local :: "KernelEventFlagPrivate \<Rightarrow> ef_pc \<Rightarrow> KernelEventFlagPrivate \<Rightarrow> ef_pc \<Rightarrow> bool" where
  ef_wait_begin: "ef_free c \<Longrightarrow> Wait_begin f bits wm cm tmo = (f', c') \<Longrightarrow> ef_local f c f' c'"
| ef_wait_wake: "Wait_wake f bits wm cm tmo elapsed late = (f', c') \<Longrightarrow> ef_local f (EfInWait bits wm cm tmo) f' c'"
| ef_set_begin: "ef_free c \<Longrightarrow> Set_begin f bits = Done (f', c') \<Longrightarrow> ef_local f c f' c'"
| ef_set_try: "Set_try f bits = (f', c') \<Longrightarrow> ef_local f (EfSpinSet bits) f' c'"
| ef_clear_begin: "ef_free c \<Longrightarrow> Clear_begin f bits = Done (f', c') \<Longrightarrow> ef_local f c f' c'"
| ef_clear_try: "Clear_try f bits = (f', c') \<Longrightarrow> ef_local f (EfSpinClear bits) f' c'"
| ef_cancel_begin: "ef_free c \<Longrightarrow> Cancel_begin f bits = Done (f', c') \<Longrightarrow> ef_local f c f' c'"
| ef_cancel_try: "Cancel_try f bits = (f', c') \<Longrightarrow> ef_local f (EfSpinCancel bits) f' c'"
| ef_cancel_drain: "Cancel_drain f n = (f', c') \<Longrightarrow> ef_local f (EfDrainCancel n) f' c'"
| ef_delete_begin: "ef_free c \<Longrightarrow> Delete_try f = (f', c') \<Longrightarrow> ef_local f c f' c'"
| ef_delete_try: "Delete_try f = (f', c') \<Longrightarrow> ef_local f EfSpinDelete f' c'"
| ef_delete_drain: "Delete_drain f = (f', c') \<Longrightarrow> ef_local f EfDrainDelete f' c'"

text \<open>
  Nothing runs once a destructor has returned: the memory of the flag is released and any later use
  of it is outside the model.
\<close>

inductive ef_step :: "KernelEventFlagPrivate \<times> ef_pc list \<Rightarrow> KernelEventFlagPrivate \<times> ef_pc list \<Rightarrow> bool" where
  ef_step_intro: "EfDeleteDone \<notin> set cs \<Longrightarrow> t < length cs \<Longrightarrow> ef_local f (cs ! t) f' c' \<Longrightarrow>
    ef_step (f, cs) (f', cs[t := c'])"

definition ef_start :: "KernelEventFlagPrivate \<times> ef_pc list \<Rightarrow> bool" where
  "ef_start s \<longleftrightarrow> (\<exists>nm single fifo bits n. s = (new_event_flag nm single fifo bits, replicate n EfIdle))"

section \<open>Registry and entry points\<close>

type_synonym KernelEventFlag = u64

record ef_registry =
  g_named_event_flags :: "string \<rightharpoonup> KernelEventFlag"
  g_event_flags :: "KernelEventFlag set"
  ef_heap :: "KernelEventFlag \<rightharpoonup> KernelEventFlagPrivate"

definition RemovePublishedName :: "ef_registry \<Rightarrow> KernelEventFlagPrivate \<Rightarrow> KernelEventFlag \<Rightarrow> ef_registry" where
  "RemovePublishedName r f event_flag =
    (case g_named_event_flags r (ef_name f) of
       None \<Rightarrow> r
     | Some found \<Rightarrow>
         if found = event_flag
         then r\<lparr>g_named_event_flags := (g_named_event_flags r)(ef_name f := None)\<rparr> else r)"

definition DecodeEventFlagWaitMode :: "u32 \<Rightarrow> (EfWaitMode \<times> EfClearMode) option" where
  "DecodeEventFlagWaitMode wait_mode =
    (if wait_mode AND NOT 0x33 \<noteq> 0 then None
     else
       let wait = (if wait_mode AND 0xf = 0x01 then Some EfAnd
                   else if wait_mode AND 0xf = 0x02 then Some EfOr else None)
       in case wait of
            None \<Rightarrow> None
          | Some w \<Rightarrow>
              if wait_mode AND 0xf0 = 0x00 then Some (w, EfClearNone)
              else if wait_mode AND 0xf0 = 0x10 then Some (w, EfClearAll)
              else if wait_mode AND 0xf0 = 0x20 then Some (w, EfClearBits)
              else None)"

text \<open>The pointers are tested for null; \<open>handle\<close> is the address that \<open>new\<close> returns.\<close>

definition KernelCreateEventFlag ::
  "ef_registry \<Rightarrow> bool \<Rightarrow> string option \<Rightarrow> u32 \<Rightarrow> u64 \<Rightarrow> bool \<Rightarrow> KernelEventFlag \<Rightarrow> int \<times> KernelEventFlag option \<times> ef_registry" where
  "KernelCreateEventFlag r ef_null nm attr init_pattern param_null handle =
    (case nm of
       None \<Rightarrow> (KERNEL_ERROR_EINVAL, None, r)
     | Some n \<Rightarrow>
         if ef_null then (KERNEL_ERROR_EINVAL, None, r)
         else if \<not> param_null \<or> attr AND NOT 0x133 \<noteq> 0 then (KERNEL_ERROR_EINVAL, None, r)
         else if attr AND 0x0f \<notin> {0x00, 0x01, 0x02} then (KERNEL_ERROR_EINVAL, None, r)
         else if attr AND 0xf0 \<notin> {0x00, 0x10, 0x20} then (KERNEL_ERROR_EINVAL, None, r)
         else
           let fifo = (attr AND 0x0f \<noteq> 0x02);
               single = (attr AND 0xf0 \<noteq> 0x20);
               f = new_event_flag n single fifo init_pattern;
               named = (case g_named_event_flags r n of
                          None \<Rightarrow> (g_named_event_flags r)(n \<mapsto> handle)
                        | Some _ \<Rightarrow> g_named_event_flags r)
           in (OK, Some handle,
               \<lparr>g_named_event_flags = named, g_event_flags = insert handle (g_event_flags r),
                ef_heap = (ef_heap r)(handle \<mapsto> f)\<rparr>))"

definition ef_add_reference :: "KernelEventFlagPrivate \<Rightarrow> KernelEventFlagPrivate" where
  "ef_add_reference f = f\<lparr>ef_open_references := ef_open_references f + 1\<rparr>"

definition KernelOpenEventFlag ::
  "ef_registry \<Rightarrow> bool \<Rightarrow> string option \<Rightarrow> int \<times> KernelEventFlag option \<times> ef_registry" where
  "KernelOpenEventFlag r ef_null nm =
    (case nm of
       None \<Rightarrow> (KERNEL_ERROR_EINVAL, None, r)
     | Some n \<Rightarrow>
         if ef_null then (KERNEL_ERROR_EINVAL, None, r)
         else case g_named_event_flags r n of
           None \<Rightarrow> (KERNEL_ERROR_ESRCH, None, r)
         | Some found \<Rightarrow>
             if found \<notin> g_event_flags r then (KERNEL_ERROR_ESRCH, None, r)
             else (OK, Some found,
                   r\<lparr>ef_heap := (ef_heap r)(found := map_option ef_add_reference (ef_heap r found))\<rparr>))"

text \<open>
  A flag that is in \<open>g_event_flags\<close> has an object in the heap. The third component of the result is the
  object that the destructor still has to drain.
\<close>

definition KernelCloseEventFlag ::
  "ef_registry \<Rightarrow> KernelEventFlag \<Rightarrow> int \<times> KernelEventFlagPrivate option \<times> ef_registry" where
  "KernelCloseEventFlag r ef =
    (if ef = 0 then (KERNEL_ERROR_ESRCH, None, r)
     else if ef \<notin> g_event_flags r then (KERNEL_ERROR_ESRCH, None, r)
     else case ef_heap r ef of
       None \<Rightarrow> (KERNEL_ERROR_ESRCH, None, r)
     | Some f \<Rightarrow>
         let f1 = f\<lparr>ef_open_references := ef_open_references f - 1\<rparr>
         in if ef_open_references f1 = 0 then
              let r1 = RemovePublishedName r f1 ef
              in (OK, Some f1, r1\<lparr>g_event_flags := g_event_flags r1 - {ef}, ef_heap := (ef_heap r1)(ef := None)\<rparr>)
            else (OK, None, r\<lparr>ef_heap := (ef_heap r)(ef \<mapsto> f1)\<rparr>))"

definition KernelDeleteEventFlag ::
  "ef_registry \<Rightarrow> KernelEventFlag \<Rightarrow> int \<times> KernelEventFlagPrivate option \<times> ef_registry" where
  "KernelDeleteEventFlag r ef =
    (if ef = 0 then (KERNEL_ERROR_ESRCH, None, r)
     else if ef \<notin> g_event_flags r then (KERNEL_ERROR_ESRCH, None, r)
     else case ef_heap r ef of
       None \<Rightarrow> (KERNEL_ERROR_ESRCH, None, r)
     | Some f \<Rightarrow>
         let r1 = RemovePublishedName r f ef
         in (OK, Some f, r1\<lparr>g_event_flags := g_event_flags r1 - {ef}, ef_heap := (ef_heap r1)(ef := None)\<rparr>))"

text \<open>
  The entry points on one object, None for the null pointer. \<open>Inl\<close> is an error that is returned before the
  object is touched. The result code of a finished wait is \<open>wait_result_code\<close> or \<open>poll_result_code\<close>.
\<close>

definition KernelWaitEventFlag ::
  "KernelEventFlagPrivate option \<Rightarrow> u64 \<Rightarrow> u32 \<Rightarrow> u32 option \<Rightarrow> int + (KernelEventFlagPrivate \<times> ef_pc)" where
  "KernelWaitEventFlag ef bit_pattern wait_mode timeout =
    (case ef of
       None \<Rightarrow> Inl KERNEL_ERROR_ESRCH
     | Some f \<Rightarrow>
         if bit_pattern = 0 then Inl KERNEL_ERROR_EINVAL
         else case DecodeEventFlagWaitMode wait_mode of
           None \<Rightarrow> Inl KERNEL_ERROR_EINVAL
         | Some (w, c) \<Rightarrow> Inr (Wait_begin f bit_pattern w c timeout))"

fun wait_result_code :: "EfResult \<Rightarrow> int" where
  "wait_result_code EfOk = OK"
| "wait_result_code EfAlreadyWaiting = KERNEL_ERROR_EPERM"
| "wait_result_code EfTimedOut = KERNEL_ERROR_ETIMEDOUT"
| "wait_result_code EfCanceled = KERNEL_ERROR_ECANCELED"
| "wait_result_code EfDeleted = KERNEL_ERROR_EACCES"

definition KernelPollEventFlag ::
  "KernelEventFlagPrivate option \<Rightarrow> u64 \<Rightarrow> u32 \<Rightarrow> int + (KernelEventFlagPrivate \<times> ef_pc)" where
  "KernelPollEventFlag ef bit_pattern wait_mode =
    (case ef of
       None \<Rightarrow> Inl KERNEL_ERROR_ESRCH
     | Some f \<Rightarrow>
         if bit_pattern = 0 then Inl KERNEL_ERROR_EINVAL
         else case DecodeEventFlagWaitMode wait_mode of
           None \<Rightarrow> Inl KERNEL_ERROR_EINVAL
         | Some (w, c) \<Rightarrow> Inr (Poll f bit_pattern w c))"

fun poll_result_code :: "EfResult \<Rightarrow> int" where
  "poll_result_code EfOk = OK"
| "poll_result_code EfAlreadyWaiting = KERNEL_ERROR_EPERM"
| "poll_result_code EfTimedOut = KERNEL_ERROR_EBUSY"
| "poll_result_code EfCanceled = KERNEL_ERROR_EBUSY"
| "poll_result_code EfDeleted = KERNEL_ERROR_EBUSY"

definition KernelSetEventFlag ::
  "KernelEventFlagPrivate option \<Rightarrow> u64 \<Rightarrow> int + (KernelEventFlagPrivate \<times> ef_pc) outcome" where
  "KernelSetEventFlag ef bit_pattern =
    (case ef of None \<Rightarrow> Inl KERNEL_ERROR_ESRCH | Some f \<Rightarrow> Inr (Set_begin f bit_pattern))"

definition KernelClearEventFlag ::
  "KernelEventFlagPrivate option \<Rightarrow> u64 \<Rightarrow> int + (KernelEventFlagPrivate \<times> ef_pc) outcome" where
  "KernelClearEventFlag ef bit_pattern =
    (case ef of None \<Rightarrow> Inl KERNEL_ERROR_ESRCH | Some f \<Rightarrow> Inr (Clear_begin f bit_pattern))"

definition KernelCancelEventFlag ::
  "KernelEventFlagPrivate option \<Rightarrow> u64 \<Rightarrow> int + (KernelEventFlagPrivate \<times> ef_pc) outcome" where
  "KernelCancelEventFlag ef set_pattern =
    (case ef of None \<Rightarrow> Inl KERNEL_ERROR_ESRCH | Some f \<Rightarrow> Inr (Cancel_begin f set_pattern))"

lemmas ef_sections = Wait_begin_def Wait_wake_def wait_loop_def Set_begin_def Set_try_def Clear_begin_def
  Clear_try_def Cancel_begin_def Cancel_try_def Cancel_drain_def Delete_try_def Delete_drain_def apply_clear_def

end
