(* ===== verification/EventFlagProps.thy ===== *)
theory EventFlagProps
  imports EventFlag
begin

text \<open>
  Properties of event flags: the invariant of the threads on one flag, the completion of cancellation,
  the exact answers of the entry points, and the references of named flags.
\<close>

section \<open>Invariant\<close>

fun ef_sleeps :: "ef_pc \<Rightarrow> bool" where
  "ef_sleeps (EfInWait _ _ _ _) = True"
| "ef_sleeps _ = False"

fun ef_cancels :: "ef_pc \<Rightarrow> bool" where
  "ef_cancels (EfDrainCancel _) = True"
| "ef_cancels _ = False"

fun ef_deletes :: "ef_pc \<Rightarrow> bool" where
  "ef_deletes EfDrainDelete = True"
| "ef_deletes EfDeleteDone = True"
| "ef_deletes _ = False"

definition ef_inv :: "KernelEventFlagPrivate \<times> ef_pc list \<Rightarrow> bool" where
  "ef_inv s = (case s of (f, cs) \<Rightarrow>
     ef_waiting_threads f = cnt ef_sleeps cs \<and>
     cnt ef_cancels cs = of_bool (ef_status f = EfStCanceled) \<and>
     cnt ef_deletes cs = of_bool (ef_status f = EfStDeleted) \<and>
     (ef_single_thread f \<longrightarrow> ef_waiting_threads f \<le> 1))"

lemma ef_free_cases: "ef_free c \<Longrightarrow> \<not> ef_sleeps c \<and> \<not> ef_cancels c \<and> \<not> ef_deletes c"
  by (cases c) simp_all

lemma ef_local_counts:
  assumes "ef_local f c f' c'"
    and "ef_cancels c \<longrightarrow> ef_status f = EfStCanceled" "ef_deletes c \<longrightarrow> ef_status f = EfStDeleted"
    and "ef_sleeps c \<longrightarrow> 0 < ef_waiting_threads f"
  shows "ef_waiting_threads f' = ef_waiting_threads f - of_bool (ef_sleeps c) + of_bool (ef_sleeps c')"
    and "(of_bool (ef_status f' = EfStCanceled) :: int) =
      of_bool (ef_status f = EfStCanceled) - of_bool (ef_cancels c) + of_bool (ef_cancels c')"
    and "c \<noteq> EfDeleteDone \<Longrightarrow> (of_bool (ef_status f' = EfStDeleted) :: int) =
      of_bool (ef_status f = EfStDeleted) - of_bool (ef_deletes c) + of_bool (ef_deletes c')"
    and "ef_single_thread f' = ef_single_thread f"
    and "ef_single_thread f \<Longrightarrow> ef_waiting_threads f \<le> 1 \<Longrightarrow> ef_waiting_threads f' \<le> 1"
  using assms
  by (cases rule: ef_local.cases;
      auto simp: ef_sections Let_def dest!: ef_free_cases split: if_splits EfStatus.splits EfClearMode.splits)+

lemma ef_inv_step:
  assumes "ef_inv s" and "ef_step s s'"
  shows "ef_inv s'"
  using assms(2)
proof (cases rule: ef_step.cases)
  case (ef_step_intro cs t f f' c')
  let ?c = "cs ! t"
  have i: "ef_waiting_threads f = cnt ef_sleeps cs" "cnt ef_cancels cs = of_bool (ef_status f = EfStCanceled)"
    "cnt ef_deletes cs = of_bool (ef_status f = EfStDeleted)" "ef_single_thread f \<longrightarrow> ef_waiting_threads f \<le> 1"
    using assms(1) ef_step_intro(1) by (auto simp: ef_inv_def)
  have p: "P ?c \<Longrightarrow> 0 < cnt P cs" for P using ef_step_intro(4) cnt_pos by blast
  have c: "ef_cancels ?c \<longrightarrow> ef_status f = EfStCanceled" using p [of ef_cancels] i(2) by (simp split: if_splits)
  have d: "ef_deletes ?c \<longrightarrow> ef_status f = EfStDeleted" using p [of ef_deletes] i(3) by (simp split: if_splits)
  have w: "ef_sleeps ?c \<longrightarrow> 0 < ef_waiting_threads f" using p [of ef_sleeps] i(1) by simp
  have "?c \<noteq> EfDeleteDone" using ef_step_intro(3,4) by (metis nth_mem)
  note l = ef_local_counts [OF ef_step_intro(5) c d w]
  show ?thesis
    unfolding ef_step_intro(2) ef_inv_def prod.case cnt_update [OF ef_step_intro(4)]
    using l(1,2,4,5) l(3) [OF \<open>?c \<noteq> EfDeleteDone\<close>] i by simp
qed

lemma ef_inv_start: "ef_start s \<Longrightarrow> ef_inv s"
  by (auto simp: ef_start_def ef_inv_def new_event_flag_def cnt_replicate)

section \<open>Draining\<close>

text \<open>
  The states that follow \<open>(f0, cs0)\<close> while its cancellation drains: some sleepers have returned, nothing
  else has moved.
\<close>

definition ef_draining :: "KernelEventFlagPrivate \<times> ef_pc list \<Rightarrow> KernelEventFlagPrivate \<times> ef_pc list \<Rightarrow> bool" where
  "ef_draining s0 s = (case (s0, s) of ((f0, cs0), (f, cs)) \<Rightarrow>
     ef_status f = EfStCanceled \<and> ef_bits f = ef_bits f0 \<and> length cs = length cs0 \<and>
     (\<forall>w < length cs0. cs ! w = cs0 ! w \<or>
        ef_sleeps (cs0 ! w) \<and> (\<exists>tmo. cs ! w = EfWaited EfCanceled (Some (ef_bits f0)) tmo)))"

definition ef_left :: "KernelEventFlagPrivate \<times> ef_pc list \<Rightarrow> nat" where
  "ef_left s = nat (ef_waiting_threads (fst s))"

lemma Wait_wake_canceled:
  "ef_status f = EfStCanceled \<Longrightarrow>
   Wait_wake f bits wm cm tmo elapsed False =
     (f\<lparr>ef_waiting_threads := ef_waiting_threads f - 1\<rparr>, EfWaited EfCanceled (Some (ef_bits f)) (update_timeout tmo elapsed))"
  by (simp add: Wait_wake_def)

lemma ef_drain_lower:
  assumes "ef_inv s" "ef_draining s0 s" "ef_left s \<noteq> 0"
  shows "\<exists>s'. ef_step s s' \<and> ef_draining s0 s' \<and> ef_left s' < ef_left s"
proof -
  obtain f0 cs0 f cs where s: "s0 = (f0, cs0)" "s = (f, cs)" by (metis surj_pair)
  have i: "ef_waiting_threads f = cnt ef_sleeps cs" "cnt ef_deletes cs = of_bool (ef_status f = EfStDeleted)"
    using assms(1) s(2) by (simp_all add: ef_inv_def)
  have st: "ef_status f = EfStCanceled" using assms(2) s by (simp add: ef_draining_def)
  have "EfDeleteDone \<notin> set cs"
  proof
    assume "EfDeleteDone \<in> set cs"
    then have "0 < cnt ef_deletes cs" unfolding cnt_pos in_set_conv_nth using ef_deletes.simps(2) by metis
    then show False using i(2) st by simp
  qed
  have "0 < cnt ef_sleeps cs" using assms(3) i(1) s(2) by (simp add: ef_left_def)
  then obtain t where t: "t < length cs" "ef_sleeps (cs ! t)" using cnt_pos by blast
  then obtain bits wm cm tmo where c: "cs ! t = EfInWait bits wm cm tmo" by (cases "cs ! t") simp_all
  let ?f = "f\<lparr>ef_waiting_threads := ef_waiting_threads f - 1\<rparr>"
  let ?c = "EfWaited EfCanceled (Some (ef_bits f)) (update_timeout tmo 0)"
  have "ef_local f (cs ! t) ?f ?c" unfolding c
    by (rule ef_wait_wake) (rule Wait_wake_canceled [OF st])
  with \<open>EfDeleteDone \<notin> set cs\<close> t(1) have "ef_step s (?f, cs[t := ?c])" unfolding s(2) by (rule ef_step_intro)
  moreover have "ef_draining s0 (?f, cs[t := ?c])"
    using assms(2) t c unfolding s by (auto simp: ef_draining_def nth_list_update)
  moreover have "ef_left (?f, cs[t := ?c]) < ef_left s" using \<open>0 < cnt ef_sleeps cs\<close> i(1) by (simp add: ef_left_def s(2))
  ultimately show ?thesis by blast
qed

interpretation ef: draining ef_start ef_step ef_inv "ef_draining s0" ef_left for s0
  by unfold_locales (blast intro: ef_inv_start ef_inv_step ef_drain_lower)+

text \<open>C16. In every state that the threads of a flag can reach, \<open>m_waiting_threads\<close> is the number of
  threads asleep in \<open>Wait\<close>, a flag made for a single thread has at most one of them, and the status says
  exactly whether a cancellation or a deletion is under way, of which there is at most one.\<close>

theorem event_flag_invariant:
  assumes "reach ef_start ef_step (f, cs)"
  shows "ef_waiting_threads f = cnt ef_sleeps cs \<and>
    (ef_single_thread f \<longrightarrow> cnt ef_sleeps cs \<le> 1) \<and>
    cnt ef_cancels cs + cnt ef_deletes cs \<le> 1 \<and>
    (ef_status f = EfStCanceled \<longleftrightarrow> (\<exists>t < length cs. ef_cancels (cs ! t))) \<and>
    (ef_status f = EfStDeleted \<longleftrightarrow> (\<exists>t < length cs. ef_deletes (cs ! t)))"
  using ef.reach_inv [OF assms] unfolding cnt_pos [symmetric] by (auto simp: ef_inv_def)

text \<open>C17. Cancellation completes. From every reachable state in which a cancellation drains, waking the
  sleepers lets it return: each of them returns \<open>Canceled\<close> with the pattern of the cancellation, nobody is
  left asleep, and the flag is usable again with that pattern.\<close>

theorem event_flag_cancel_completes:
  assumes "reach ef_start ef_step (f, cs)" and "t < length cs" and "cs ! t = EfDrainCancel n"
  shows "\<exists>f' cs'. ef_step\<^sup>*\<^sup>* (f, cs) (f', cs') \<and> length cs' = length cs \<and>
    ef_status f' = EfStSet \<and> ef_bits f' = ef_bits f \<and> ef_waiting_threads f' = 0 \<and> cs' ! t = EfCancelDone n \<and>
    (\<forall>w < length cs. ef_sleeps (cs ! w) \<longrightarrow> (\<exists>tmo. cs' ! w = EfWaited EfCanceled (Some (ef_bits f)) tmo))"
proof -
  have i: "ef_inv (f, cs)" by (rule ef.reach_inv [OF assms(1)])
  have "0 < cnt ef_cancels cs" unfolding cnt_pos using assms(2,3) ef_cancels.simps(1) by metis
  then have "ef_status f = EfStCanceled" using i by (simp add: ef_inv_def split: if_splits)
  then have "ef_draining (f, cs) (f, cs)" by (simp add: ef_draining_def)
  then obtain f1 cs1 where r: "ef_step\<^sup>*\<^sup>* (f, cs) (f1, cs1)" "ef_draining (f, cs) (f1, cs1)" "ef_left (f1, cs1) = 0"
    using ef.drained [OF i] by (metis surj_pair)
  have i1: "ef_inv (f1, cs1)" by (rule ef.steps_inv [OF r(1) i])
  have z: "cnt ef_sleeps cs1 = 0" "ef_waiting_threads f1 = 0"
    using i1 r(3) cnt_nonneg [of ef_sleeps cs1] by (simp_all add: ef_inv_def ef_left_def)
  have d: "ef_status f1 = EfStCanceled" "ef_bits f1 = ef_bits f" "length cs1 = length cs"
    "w < length cs \<Longrightarrow> cs1 ! w = cs ! w \<or>
      ef_sleeps (cs ! w) \<and> (\<exists>tmo. cs1 ! w = EfWaited EfCanceled (Some (ef_bits f)) tmo)" for w
    using r(2) by (simp_all add: ef_draining_def)
  have t: "cs1 ! t = EfDrainCancel n" using d(4) [OF assms(2)] assms(3) by simp
  have "EfDeleteDone \<notin> set cs1"
  proof
    assume "EfDeleteDone \<in> set cs1"
    then have "0 < cnt ef_deletes cs1" unfolding cnt_pos in_set_conv_nth using ef_deletes.simps(2) by metis
    then show False using i1 d(1) by (simp add: ef_inv_def)
  qed
  moreover have "ef_local f1 (cs1 ! t) (f1\<lparr>ef_status := EfStSet\<rparr>) (EfCancelDone n)"
    unfolding t by (rule ef_cancel_drain) (simp add: Cancel_drain_def z)
  ultimately have "ef_step (f1, cs1) (f1\<lparr>ef_status := EfStSet\<rparr>, cs1[t := EfCancelDone n])"
    using assms(2) d(3) by (intro ef_step_intro) simp_all
  with r(1) have "ef_step\<^sup>*\<^sup>* (f, cs) (f1\<lparr>ef_status := EfStSet\<rparr>, cs1[t := EfCancelDone n])" by simp
  moreover have "\<exists>tmo. cs1[t := EfCancelDone n] ! w = EfWaited EfCanceled (Some (ef_bits f)) tmo"
    if "w < length cs" "ef_sleeps (cs ! w)" for w
  proof -
    have "w \<noteq> t" using that(2) assms(3) by auto
    moreover have "cs1 ! w \<noteq> cs ! w" using z(1) that d(3) unfolding cnt_zero by auto
    ultimately show ?thesis using d(4) [OF that(1)] by simp
  qed
  ultimately show ?thesis using d z(2) assms(2) by (intro exI [of _ "f1\<lparr>ef_status := EfStSet\<rparr>"] exI [of _ "cs1[t := EfCancelDone n]"]) simp
qed

text \<open>A run: thread 0 waits for bit 0, thread 1 cancels with the pattern 2.\<close>

definition ef_demo :: KernelEventFlagPrivate where
  "ef_demo = new_event_flag ''flag'' True True 0"

lemma ef_demo_reach:
  "reach ef_start ef_step
     (ef_demo\<lparr>ef_waiting_threads := 1, ef_status := EfStCanceled, ef_bits := 2\<rparr>,
      [EfInWait 1 EfAnd EfClearNone None, EfDrainCancel 1])"
proof -
  have "reach ef_start ef_step (ef_demo, [EfIdle, EfIdle])"
    by (rule reach_start) (auto simp: ef_start_def ef_demo_def numeral_2_eq_2 intro!: exI [of _ "2::nat"])
  moreover have "ef_step (ef_demo, [EfIdle, EfIdle])
      (ef_demo\<lparr>ef_waiting_threads := 1\<rparr>, [EfIdle, EfIdle][0 := EfInWait 1 EfAnd EfClearNone None])"
    by (rule ef_step_intro, simp, simp, rule ef_wait_begin [of _ _ 1 EfAnd EfClearNone None])
      (simp_all add: ef_demo_def new_event_flag_def ef_sections wait_satisfied_def)
  ultimately have r: "reach ef_start ef_step (ef_demo\<lparr>ef_waiting_threads := 1\<rparr>, [EfInWait 1 EfAnd EfClearNone None, EfIdle])"
    using reach_step by fastforce
  moreover have "ef_step (ef_demo\<lparr>ef_waiting_threads := 1\<rparr>, [EfInWait 1 EfAnd EfClearNone None, EfIdle])
      (ef_demo\<lparr>ef_waiting_threads := 1, ef_status := EfStCanceled, ef_bits := 2\<rparr>,
       [EfInWait 1 EfAnd EfClearNone None, EfIdle][1 := EfDrainCancel 1])"
    by (rule ef_step_intro, simp, simp, rule ef_cancel_begin [of _ _ 2])
      (simp_all add: ef_demo_def new_event_flag_def ef_sections)
  ultimately show ?thesis using reach_step by fastforce
qed

lemma event_flag_invariant_witness:
  "cnt ef_sleeps [EfInWait 1 EfAnd EfClearNone None, EfDrainCancel 1] = 1"
  using event_flag_invariant [OF ef_demo_reach] by simp

lemma event_flag_cancel_completes_witness:
  "\<exists>(f' :: KernelEventFlagPrivate) cs' tmo. ef_bits f' = 2 \<and> cs' ! 1 = EfCancelDone 1 \<and> cs' ! 0 = EfWaited EfCanceled (Some 2) tmo"
proof -
  let ?cs = "[EfInWait 1 EfAnd EfClearNone None, EfDrainCancel 1]"
  have p: "1 < length ?cs" "?cs ! 1 = EfDrainCancel 1" by simp_all
  from event_flag_cancel_completes [OF ef_demo_reach p] show ?thesis
  proof (elim exE conjE)
    fix f' :: KernelEventFlagPrivate and cs' :: "ef_pc list"
    assume b: "ef_bits f' = ef_bits (ef_demo\<lparr>ef_waiting_threads := 1, ef_status := EfStCanceled, ef_bits := 2\<rparr>)"
      and c: "cs' ! 1 = EfCancelDone 1"
      and d: "\<forall>w<length ?cs. ef_sleeps (?cs ! w) \<longrightarrow> (\<exists>tmo. cs' ! w = EfWaited EfCanceled
        (Some (ef_bits (ef_demo\<lparr>ef_waiting_threads := 1, ef_status := EfStCanceled, ef_bits := 2\<rparr>))) tmo)"
    from d have "\<exists>tmo. cs' ! 0 = EfWaited EfCanceled (Some 2) tmo" by (simp del: ex_simps)
    then obtain tmo where "cs' ! 0 = EfWaited EfCanceled (Some 2) tmo" by blast
    moreover have "ef_bits f' = 2" using b by simp
    ultimately show ?thesis using c by blast
  qed
qed

section \<open>Entry points\<close>

lemma small_u32:
  fixes w :: u32
  assumes "w AND NOT 0x33 = 0"
  shows "w \<in> of_nat ` set [0..<52]"
proof -
  have "w = w AND 0x33" using assms by (metis (no_types) and.commute and.right_neutral bit.conj_disj_distrib bit.disj_cancel_right or.right_neutral)
  then have "w \<le> 0x33" by (metis and.commute word_and_le1)
  then have "unat w < 52" by (simp add: word_le_nat_alt)
  then show ?thesis by (intro image_eqI [of _ _ "unat w"]) simp_all
qed

lemma decode_mode:
  "DecodeEventFlagWaitMode wm =
    (if wm \<in> {0x01, 0x02, 0x11, 0x12, 0x21, 0x22}
     then Some (if wm AND 0x02 = 0 then EfAnd else EfOr,
                if wm < 0x10 then EfClearNone else if wm < 0x20 then EfClearAll else EfClearBits)
     else None)"
proof (cases "wm AND NOT 0x33 = 0")
  case False
  then have "wm \<notin> {0x01, 0x02, 0x11, 0x12, 0x21, 0x22}" by auto
  then show ?thesis using False by (simp only: DecodeEventFlagWaitMode_def if_True if_False not_False_eq_True)
next
  case True
  have "\<forall>n \<in> set [0..<52]. DecodeEventFlagWaitMode (of_nat n) =
    (if of_nat n \<in> {0x01, 0x02, 0x11, 0x12, 0x21, 0x22 :: u32}
     then Some (if of_nat n AND 0x02 = (0 :: u32) then EfAnd else EfOr,
                if of_nat n < (0x10 :: u32) then EfClearNone else if of_nat n < (0x20 :: u32) then EfClearAll else EfClearBits)
     else None)"
    by code_simp
  then show ?thesis using small_u32 [OF True] by blast
qed

text \<open>Polling. The wait mode is one of six values, and a poll never sleeps: it answers at once whether
  all or any of the wanted bits are set, reports the bits before it clears them, and clears nothing, all
  bits or the wanted bits as the mode says.\<close>

lemma event_flag_poll_exact:
  "KernelPollEventFlag (Some f) bits wm =
    (if bits = 0 \<or> wm \<notin> {0x01, 0x02, 0x11, 0x12, 0x21, 0x22} then Inl KERNEL_ERROR_EINVAL
     else if ef_single_thread f \<and> 0 < ef_waiting_threads f then Inr (f, EfWaited EfAlreadyWaiting None (Some 0))
     else if (if wm AND 0x02 = 0 then ef_bits f AND bits = bits else ef_bits f AND bits \<noteq> 0)
     then Inr (f\<lparr>ef_bits := if wm < 0x10 then ef_bits f else if wm < 0x20 then 0 else ef_bits f AND NOT bits\<rparr>,
               EfWaited EfOk (Some (ef_bits f)) (Some 0))
     else Inr (f, EfWaited EfTimedOut (Some (ef_bits f)) (Some 0)))"
  by (simp add: KernelPollEventFlag_def decode_mode Poll_def Wait_begin_def wait_loop_def wait_satisfied_def
      update_timeout_def apply_clear_def)

lemma event_flag_poll_exact_witness:
  "KernelPollEventFlag (Some (ef_demo\<lparr>ef_bits := 5\<rparr>)) 4 0x22 =
     Inr (ef_demo\<lparr>ef_bits := 1\<rparr>, EfWaited EfOk (Some 5) (Some 0))"
  using event_flag_poll_exact [of "ef_demo\<lparr>ef_bits := 5\<rparr>" 4 "0x22"]
  by (simp add: ef_demo_def new_event_flag_def word_less_nat_alt)

section \<open>Named flags\<close>

text \<open>What threads do to the registry; \<open>reg_use\<close> is a critical section on one of its objects.\<close>

inductive reg_step :: "ef_registry \<Rightarrow> ef_registry \<Rightarrow> bool" where
  reg_create: "handle \<noteq> 0 \<Longrightarrow> ef_heap r handle = None \<Longrightarrow>
    KernelCreateEventFlag r ef_null nm attr init_pattern param_null handle = (code, h, r') \<Longrightarrow> reg_step r r'"
| reg_open: "KernelOpenEventFlag r ef_null nm = (code, h, r') \<Longrightarrow> reg_step r r'"
| reg_close: "KernelCloseEventFlag r ef = (code, d, r') \<Longrightarrow> reg_step r r'"
| reg_delete: "KernelDeleteEventFlag r ef = (code, d, r') \<Longrightarrow> reg_step r r'"
| reg_use: "ef_heap r ef = Some f \<Longrightarrow> ef_local f c f' c' \<Longrightarrow> reg_step r (r\<lparr>ef_heap := (ef_heap r)(ef \<mapsto> f')\<rparr>)"

definition reg_start :: "ef_registry \<Rightarrow> bool" where
  "reg_start r \<longleftrightarrow> r = \<lparr>g_named_event_flags = Map.empty, g_event_flags = {}, ef_heap = Map.empty\<rparr>"

definition reg_inv :: "ef_registry \<Rightarrow> bool" where
  "reg_inv r \<longleftrightarrow> g_event_flags r = dom (ef_heap r) \<and> ef_heap r 0 = None \<and>
     (\<forall>h f. ef_heap r h = Some f \<longrightarrow> 1 \<le> ef_open_references f) \<and>
     (\<forall>nm h. g_named_event_flags r nm = Some h \<longrightarrow> (\<exists>f. ef_heap r h = Some f \<and> ef_name f = nm))"

lemma reg_named: "reg_inv r \<Longrightarrow> g_named_event_flags r nm = Some h \<Longrightarrow> \<exists>f. ef_heap r h = Some f \<and> ef_name f = nm"
  by (simp add: reg_inv_def)

lemma ef_local_name:
  "ef_local f c f' c' \<Longrightarrow> ef_name f' = ef_name f \<and> ef_open_references f' = ef_open_references f"
  by (erule ef_local.cases) (auto simp: ef_sections Let_def split: if_splits EfStatus.splits EfClearMode.splits)

text \<open>Registries that differ in one object, in no name.\<close>

lemma reg_inv_object:
  assumes "reg_inv r" "ef_heap r h = Some f" "ef_name f' = ef_name f" "1 \<le> ef_open_references f'"
  shows "reg_inv (r\<lparr>ef_heap := (ef_heap r)(h \<mapsto> f')\<rparr>)"
proof -
  have "h \<noteq> 0" using assms(1,2) by (auto simp: reg_inv_def)
  moreover have "\<exists>g. ((ef_heap r)(h \<mapsto> f')) k = Some g \<and> ef_name g = nm" if n: "g_named_event_flags r nm = Some k" for nm k
  proof -
    obtain g where "ef_heap r k = Some g" "ef_name g = nm" using reg_named [OF assms(1) n] by blast
    then show ?thesis using assms(2,3) by (metis fun_upd_apply option.inject)
  qed
  moreover have "g_event_flags r = dom (ef_heap r)" "ef_heap r 0 = None"
    "\<forall>k g. ef_heap r k = Some g \<longrightarrow> 1 \<le> ef_open_references g"
    using assms(1) unfolding reg_inv_def by blast+
  ultimately show ?thesis using assms(2,4) by (simp add: reg_inv_def insert_absorb domI)
qed

lemma reg_inv_create:
  assumes "reg_inv r" "h \<noteq> 0" "ef_heap r h = None" "ef_name f = nm" "1 \<le> ef_open_references f"
    and "named = g_named_event_flags r \<or> named = (g_named_event_flags r)(nm \<mapsto> h)"
  shows "reg_inv \<lparr>g_named_event_flags = named, g_event_flags = insert h (g_event_flags r), ef_heap = (ef_heap r)(h \<mapsto> f)\<rparr>"
proof -
  have "\<exists>g. ((ef_heap r)(h \<mapsto> f)) k = Some g \<and> ef_name g = m" if "named m = Some k" for m k
  proof (cases "named = (g_named_event_flags r)(nm \<mapsto> h) \<and> m = nm")
    case True
    then show ?thesis using that assms(4) by simp
  next
    case False
    then have "g_named_event_flags r m = Some k" using that assms(6) by auto
    then obtain g where "ef_heap r k = Some g" "ef_name g = m" using reg_named [OF assms(1)] by blast
    then show ?thesis using assms(3) by (cases "k = h") simp_all
  qed
  moreover have "g_event_flags r = dom (ef_heap r)" "ef_heap r 0 = None"
    "\<forall>k g. ef_heap r k = Some g \<longrightarrow> 1 \<le> ef_open_references g"
    using assms(1) unfolding reg_inv_def by blast+
  ultimately show ?thesis using assms(2,5) by (simp add: reg_inv_def)
qed

lemma RemovePublishedName_simps [simp]:
  "g_event_flags (RemovePublishedName r f h) = g_event_flags r"
  "ef_heap (RemovePublishedName r f h) = ef_heap r"
  "g_named_event_flags (RemovePublishedName r f h) =
    (if g_named_event_flags r (ef_name f) = Some h then (g_named_event_flags r)(ef_name f := None) else g_named_event_flags r)"
  by (auto simp: RemovePublishedName_def split: option.splits)

lemma reg_inv_drop:
  assumes "reg_inv r" and "ef_heap r h = Some f" "ef_name f' = ef_name f"
  shows "reg_inv ((RemovePublishedName r f' h)\<lparr>g_event_flags := g_event_flags r - {h}, ef_heap := (ef_heap r)(h := None)\<rparr>)"
proof -
  have "\<exists>g. ((ef_heap r)(h := None)) k = Some g \<and> ef_name g = nm"
    if "g_named_event_flags (RemovePublishedName r f' h) nm = Some k" for nm k
  proof -
    have n: "g_named_event_flags r nm = Some k" using that by (auto split: if_splits)
    then obtain g where g: "ef_heap r k = Some g" "ef_name g = nm" using reg_named [OF assms(1) n] by blast
    have "k \<noteq> h" using that n g assms(2,3) by (auto split: if_splits)
    then show ?thesis using g by simp
  qed
  moreover have "g_event_flags r = dom (ef_heap r)" "ef_heap r 0 = None"
    "\<forall>k g. ef_heap r k = Some g \<longrightarrow> 1 \<le> ef_open_references g"
    using assms(1) unfolding reg_inv_def by blast+
  ultimately show ?thesis by (simp add: reg_inv_def)
qed

lemma reg_inv_step:
  assumes "reg_inv r" "reg_step r r'"
  shows "reg_inv r'"
  using assms(2)
proof cases
  case (reg_create handle ef_null nm attr init_pattern param_null code h)
  have "\<And>single fifo nm. reg_inv \<lparr>g_named_event_flags = (case g_named_event_flags r nm of
        None \<Rightarrow> (g_named_event_flags r)(nm \<mapsto> handle) | Some _ \<Rightarrow> g_named_event_flags r),
      g_event_flags = insert handle (g_event_flags r), ef_heap = (ef_heap r)(handle \<mapsto> new_event_flag nm single fifo init_pattern)\<rparr>"
    using assms(1) reg_create(1,2)
    by (intro reg_inv_create) (auto simp: new_event_flag_def split: option.splits)
  then show ?thesis using reg_create(3) assms(1)
    unfolding KernelCreateEventFlag_def Let_def by (cases nm) (auto simp only: option.case prod.inject split: if_splits)
next
  case (reg_open ef_null nm code h)
  have "reg_inv (r\<lparr>ef_heap := (ef_heap r)(k := map_option ef_add_reference (ef_heap r k))\<rparr>)" if k: "k \<in> g_event_flags r" for k
  proof -
    obtain f where f: "ef_heap r k = Some f" using k assms(1) by (auto simp: reg_inv_def)
    then have "1 \<le> ef_open_references f" using assms(1) by (simp add: reg_inv_def)
    then show ?thesis using reg_inv_object [OF assms(1) f, of "ef_add_reference f"] f by (simp add: ef_add_reference_def)
  qed
  then show ?thesis using reg_open assms(1)
    unfolding KernelOpenEventFlag_def by (auto simp only: prod.inject not_not split: option.splits if_splits)
next
  case (reg_close ef code d)
  show ?thesis
  proof (cases "ef_heap r ef")
    case None
    then show ?thesis using reg_close assms(1) by (auto simp: KernelCloseEventFlag_def split: if_splits)
  next
    case (Some f)
    let ?f = "f\<lparr>ef_open_references := ef_open_references f - 1\<rparr>"
    have "1 \<le> ef_open_references f" using Some assms(1) by (simp add: reg_inv_def)
    then have "reg_inv (r\<lparr>ef_heap := (ef_heap r)(ef \<mapsto> ?f)\<rparr>)" if "ef_open_references f \<noteq> 1"
      using that reg_inv_object [OF assms(1) Some, of ?f] by simp
    then show ?thesis using reg_close assms(1) Some reg_inv_drop [OF assms(1) Some, of ?f]
      by (auto simp: KernelCloseEventFlag_def Let_def split: if_splits)
  qed
next
  case (reg_delete ef code d)
  then show ?thesis using assms(1) reg_inv_drop [OF assms(1)]
    by (cases "ef_heap r ef") (auto simp: KernelDeleteEventFlag_def Let_def simp del: split_paired_All dest: sym split: if_splits)
next
  case (reg_use ef f c f' c')
  have "1 \<le> ef_open_references f" using reg_use(2) assms(1) by (simp add: reg_inv_def)
  then show ?thesis using reg_inv_object [OF assms(1) reg_use(2), of f'] ef_local_name [OF reg_use(3)] reg_use(1) by simp
qed

interpretation reg: kept reg_start reg_step reg_inv
proof unfold_locales
  show "reg_start r \<Longrightarrow> reg_inv r" for r by (simp add: reg_start_def reg_inv_def)
qed (rule reg_inv_step)

text \<open>References. Whatever has been created, opened, closed, deleted and used before, closing a flag
  that was just opened by its name gives back the registry as it was: the flag stays published, no other
  flag is touched and nothing is destroyed.\<close>

lemma event_flag_open_close:
  assumes "reach reg_start reg_step r"
    and "KernelOpenEventFlag r False (Some nm) = (OK, Some h, r')"
  shows "KernelCloseEventFlag r' h = (OK, None, r)"
proof -
  have i: "reg_inv r" by (rule reg.reach_inv [OF assms(1)])
  have o1: "g_named_event_flags r nm = Some h"
    and r': "r' = r\<lparr>ef_heap := (ef_heap r)(h := map_option ef_add_reference (ef_heap r h))\<rparr>"
    using assms(2) by (auto simp: KernelOpenEventFlag_def split: option.splits if_splits)
  obtain f where f: "ef_heap r h = Some f" using reg_named [OF i o1] by blast
  have "h \<noteq> 0" "h \<in> g_event_flags r" "1 \<le> ef_open_references f" using f i by (auto simp: reg_inv_def)
  then show ?thesis using f
    by (auto simp: KernelCloseEventFlag_def Let_def r' ef_add_reference_def fun_upd_idem)
qed

definition reg_demo :: ef_registry where
  "reg_demo = \<lparr>g_named_event_flags = [''flag'' \<mapsto> 0x1000], g_event_flags = {0x1000}, ef_heap = [0x1000 \<mapsto> ef_demo]\<rparr>"

lemma event_flag_open_close_witness:
  "KernelCloseEventFlag (reg_demo\<lparr>ef_heap := [0x1000 \<mapsto> ef_demo\<lparr>ef_open_references := 2\<rparr>]\<rparr>) 0x1000 = (OK, None, reg_demo)"
proof (rule event_flag_open_close)
  have "reach reg_start reg_step \<lparr>g_named_event_flags = Map.empty, g_event_flags = {}, ef_heap = Map.empty\<rparr>"
    by (rule reach_start) (simp add: reg_start_def)
  then show "reach reg_start reg_step reg_demo"
  proof (rule reach_step)
    show "reg_step \<lparr>g_named_event_flags = Map.empty, g_event_flags = {}, ef_heap = Map.empty\<rparr> reg_demo"
      by (rule reg_create [where handle = "0x1000" and ef_null = False and nm = "Some ''flag''" and attr = "0x11"
            and init_pattern = 0 and param_null = True and code = OK and h = "Some 0x1000"])
        (simp_all add: KernelCreateEventFlag_def reg_demo_def ef_demo_def)
  qed
  show "KernelOpenEventFlag reg_demo False (Some ''flag'') =
      (OK, Some 0x1000, reg_demo\<lparr>ef_heap := [0x1000 \<mapsto> ef_demo\<lparr>ef_open_references := 2\<rparr>]\<rparr>)"
    by (simp add: KernelOpenEventFlag_def reg_demo_def ef_demo_def new_event_flag_def ef_add_reference_def)
qed

end
