(* ===== verification/Semaphore.thy ===== *)
theory Semaphore
  imports Machine
begin

text \<open>
  Counting semaphores of the kernel: \<open>KernelSemaPrivate\<close> of \<open>src/kernel/semaphore.cpp\<close> and its entry
  points. As for event flags, a critical section is a function from the object to the new object and the
  place where the thread continues, and the step relation runs any number of threads. The vector of
  pointers to waiters is a list of their records; a waiter lives on the stack of its thread, so its
  address is the number of the thread (\<open>wt_self\<close>), and it is in the vector exactly while the thread is
  inside the loop of \<open>Wait\<close>. Counts are C++ \<open>int\<close>s; the one addition that can overflow is undefined
  behaviour, which is None.
\<close>

section \<open>State\<close>

datatype SemaResult = SmOk | SmTimedOut | SmCanceled | SmDeleted | SmInvalCount
datatype SemaStatus = SmStSet | SmStDeleted
datatype KernelSemaQueueOrder = Fifo | ThreadPriority

record WaitingThread =
  wt_self :: nat
  wt_id :: int
  wt_priority :: int
  wt_need_count :: int
  wt_result :: SemaResult
  wt_ready :: bool

record KernelSemaPrivate =
  sm_name :: string
  sm_status :: SemaStatus
  sm_waiting_threads :: "WaitingThread list"
  sm_fifo_order :: bool
  sm_count :: int
  sm_init_count :: int
  sm_max_count :: int

definition new_sema :: "string \<Rightarrow> bool \<Rightarrow> int \<Rightarrow> int \<Rightarrow> KernelSemaPrivate" where
  "new_sema nm fifo init_count max_count =
    \<lparr>sm_name = nm, sm_status = SmStSet, sm_waiting_threads = [], sm_fifo_order = fifo,
     sm_count = init_count, sm_init_count = init_count, sm_max_count = max_count\<rparr>"

datatype sm_pc =
  SmIdle
| SmInWait "u32 option"
| SmSpinDelete
| SmDrainDelete
| SmWaited SemaResult "u32 option"
| SmSignaled SemaResult
| SmCancelDone SemaResult "int option"
| SmDeleteDone

section \<open>Waiters\<close>

fun add_by_priority :: "WaitingThread list \<Rightarrow> WaitingThread \<Rightarrow> WaitingThread list" where
  "add_by_priority [] waiter = [waiter]"
| "add_by_priority (x # xs) waiter =
    (if wt_priority x \<le> wt_priority waiter then x # add_by_priority xs waiter else waiter # x # xs)"

definition AddWaiter :: "KernelSemaPrivate \<Rightarrow> WaitingThread \<Rightarrow> KernelSemaPrivate" where
  "AddWaiter s waiter =
    (if sm_fifo_order s then s\<lparr>sm_waiting_threads := sm_waiting_threads s @ [waiter]\<rparr>
     else s\<lparr>sm_waiting_threads := add_by_priority (sm_waiting_threads s) waiter\<rparr>)"

fun remove_waiter :: "nat \<Rightarrow> WaitingThread list \<Rightarrow> WaitingThread list" where
  "remove_waiter self [] = []"
| "remove_waiter self (x # xs) = (if wt_self x = self then xs else x # remove_waiter self xs)"

definition RemoveWaiter :: "KernelSemaPrivate \<Rightarrow> nat \<Rightarrow> KernelSemaPrivate" where
  "RemoveWaiter s self = s\<lparr>sm_waiting_threads := remove_waiter self (sm_waiting_threads s)\<rparr>"

fun wake_list :: "WaitingThread list \<Rightarrow> int \<Rightarrow> WaitingThread list \<times> int" where
  "wake_list [] c = ([], c)"
| "wake_list (w # ws) c =
    (if \<not> wt_ready w \<and> wt_need_count w \<le> c
     then case wake_list ws (c - wt_need_count w) of (ws', c') \<Rightarrow> (w\<lparr>wt_result := SmOk, wt_ready := True\<rparr> # ws', c')
     else case wake_list ws c of (ws', c') \<Rightarrow> (w # ws', c'))"

definition WakeWaiters :: "KernelSemaPrivate \<Rightarrow> KernelSemaPrivate" where
  "WakeWaiters s =
    (case wake_list (sm_waiting_threads s) (sm_count s) of (ws, c) \<Rightarrow> s\<lparr>sm_waiting_threads := ws, sm_count := c\<rparr>)"

text \<open>The loops of \<open>Cancel\<close> and of the destructor.\<close>

definition release_all :: "SemaResult \<Rightarrow> WaitingThread list \<Rightarrow> WaitingThread list" where
  "release_all r ws = map (\<lambda>w. if \<not> wt_ready w then w\<lparr>wt_result := r, wt_ready := True\<rparr> else w) ws"

definition waiting_now :: "KernelSemaPrivate \<Rightarrow> int" where
  "waiting_now s = int (length (filter (\<lambda>w. \<not> wt_ready w) (sm_waiting_threads s)))"

section \<open>Critical sections\<close>

definition Cancel :: "KernelSemaPrivate \<Rightarrow> int \<Rightarrow> KernelSemaPrivate \<times> sm_pc" where
  "Cancel s set_count =
    (if sm_max_count s < set_count then (s, SmCancelDone SmInvalCount None)
     else if sm_status s = SmStDeleted then (s, SmCancelDone SmDeleted None)
     else (s\<lparr>sm_count := if set_count < 0 then sm_init_count s else set_count,
             sm_waiting_threads := release_all SmCanceled (sm_waiting_threads s)\<rparr>,
           SmCancelDone SmOk (Some (waiting_now s))))"

definition Signal :: "KernelSemaPrivate \<Rightarrow> int \<Rightarrow> (KernelSemaPrivate \<times> sm_pc) option" where
  "Signal s signal_count =
    (if sm_status s = SmStDeleted then Some (s, SmSignaled SmDeleted)
     else if \<not> int32 (sm_count s + signal_count) then None
     else if sm_max_count s < sm_count s + signal_count then Some (s, SmSignaled SmInvalCount)
     else Some (WakeWaiters (s\<lparr>sm_count := sm_count s + signal_count\<rparr>), SmSignaled SmOk))"

text \<open>
  \<open>Wait\<close> up to the first \<open>WaitFor\<close>: its own thread, its thread id and its priority (read only by
  semaphores that are not first-in first-out) come from outside.
\<close>

definition Sema_Wait_begin ::
  "KernelSemaPrivate \<Rightarrow> nat \<Rightarrow> int \<Rightarrow> int \<Rightarrow> int \<Rightarrow> u32 option \<Rightarrow> KernelSemaPrivate \<times> sm_pc" where
  "Sema_Wait_begin s self tid priority need_count tmo =
    (if need_count < 1 \<or> sm_max_count s < need_count then (s, SmWaited SmInvalCount tmo)
     else if sm_status s = SmStDeleted then (s, SmWaited SmDeleted tmo)
     else if need_count \<le> sm_count s then (s\<lparr>sm_count := sm_count s - need_count\<rparr>, SmWaited SmOk tmo)
     else if tmo = Some 0 then (s, SmWaited SmTimedOut tmo)
     else
       let waiter = \<lparr>wt_self = self, wt_id = tid, wt_priority = if sm_fifo_order s then 0 else priority,
                     wt_need_count = need_count, wt_result = SmTimedOut, wt_ready = False\<rparr>
       in (AddWaiter s waiter, SmInWait tmo))"

text \<open>
  After \<open>WaitFor\<close> the mutex is given up once more while pending signals are dispatched, so this section
  begins when it has been taken again. The elapsed time is read from the clock.
\<close>

definition Sema_Wait_wake :: "KernelSemaPrivate \<Rightarrow> nat \<Rightarrow> u32 option \<Rightarrow> u32 \<Rightarrow> KernelSemaPrivate \<times> sm_pc" where
  "Sema_Wait_wake s self tmo elapsed =
    (case find (\<lambda>w. wt_self w = self) (sm_waiting_threads s) of
       None \<Rightarrow> (s, SmInWait tmo)
     | Some waiter \<Rightarrow>
         if wt_ready waiter then
           (RemoveWaiter s self,
            SmWaited (wt_result waiter) (map_option (\<lambda>micros. if micros \<le> elapsed then 0 else micros - elapsed) tmo))
         else case tmo of
           None \<Rightarrow> (s, SmInWait tmo)
         | Some micros \<Rightarrow>
             if micros \<le> elapsed then (RemoveWaiter s self, SmWaited SmTimedOut (Some 0)) else (s, SmInWait tmo))"

definition Sema_Delete_drain :: "KernelSemaPrivate \<Rightarrow> KernelSemaPrivate \<times> sm_pc" where
  "Sema_Delete_drain s = (if sm_waiting_threads s \<noteq> [] then (s, SmDrainDelete) else (s, SmDeleteDone))"

definition Sema_Delete_try :: "KernelSemaPrivate \<Rightarrow> KernelSemaPrivate \<times> sm_pc" where
  "Sema_Delete_try s =
    (if sm_status s \<noteq> SmStSet then (s, SmSpinDelete)
     else Sema_Delete_drain
       (s\<lparr>sm_status := SmStDeleted, sm_waiting_threads := release_all SmDeleted (sm_waiting_threads s)\<rparr>))"

section \<open>Threads on one semaphore\<close>

fun sm_free :: "sm_pc \<Rightarrow> bool" where
  "sm_free SmIdle = True"
| "sm_free (SmWaited _ _) = True"
| "sm_free (SmSignaled _) = True"
| "sm_free (SmCancelDone _ _) = True"
| "sm_free _ = False"

inductive sm_local :: "nat \<Rightarrow> KernelSemaPrivate \<Rightarrow> sm_pc \<Rightarrow> KernelSemaPrivate \<Rightarrow> sm_pc \<Rightarrow> bool" for t :: nat where
  sm_wait_begin: "sm_free c \<Longrightarrow> Sema_Wait_begin s t tid priority need tmo = (s', c') \<Longrightarrow> sm_local t s c s' c'"
| sm_wait_wake: "Sema_Wait_wake s t tmo elapsed = (s', c') \<Longrightarrow> sm_local t s (SmInWait tmo) s' c'"
| sm_signal: "sm_free c \<Longrightarrow> Signal s n = Some (s', c') \<Longrightarrow> sm_local t s c s' c'"
| sm_cancel: "sm_free c \<Longrightarrow> Cancel s n = (s', c') \<Longrightarrow> sm_local t s c s' c'"
| sm_delete_begin: "sm_free c \<Longrightarrow> Sema_Delete_try s = (s', c') \<Longrightarrow> sm_local t s c s' c'"
| sm_delete_try: "Sema_Delete_try s = (s', c') \<Longrightarrow> sm_local t s SmSpinDelete s' c'"
| sm_delete_drain: "Sema_Delete_drain s = (s', c') \<Longrightarrow> sm_local t s SmDrainDelete s' c'"

inductive sm_step :: "KernelSemaPrivate \<times> sm_pc list \<Rightarrow> KernelSemaPrivate \<times> sm_pc list \<Rightarrow> bool" where
  sm_step_intro: "SmDeleteDone \<notin> set cs \<Longrightarrow> t < length cs \<Longrightarrow> sm_local t s (cs ! t) s' c' \<Longrightarrow>
    sm_step (s, cs) (s', cs[t := c'])"

section \<open>Entry points\<close>

definition DecodeKernelSemaQueueOrder :: "u32 \<Rightarrow> KernelSemaQueueOrder" where
  "DecodeKernelSemaQueueOrder attr = (if attr = 0x02 then ThreadPriority else Fifo)"

definition KernelCreateSema :: "string option \<Rightarrow> u32 \<Rightarrow> int \<Rightarrow> int \<Rightarrow> int \<times> KernelSemaPrivate option" where
  "KernelCreateSema nm attr init mx =
    (case nm of
       None \<Rightarrow> (KERNEL_ERROR_EINVAL, None)
     | Some n \<Rightarrow>
         if 2 < attr \<or> init < 0 \<or> mx \<le> 0 \<or> mx < init then (KERNEL_ERROR_EINVAL, None)
         else
           let fifo = (DecodeKernelSemaQueueOrder attr = Fifo)
           in (OK, Some (new_sema n fifo init mx)))"

definition KernelDeleteSema :: "KernelSemaPrivate option \<Rightarrow> int + (KernelSemaPrivate \<times> sm_pc)" where
  "KernelDeleteSema sem = (case sem of None \<Rightarrow> Inl KERNEL_ERROR_ESRCH | Some s \<Rightarrow> Inr (Sema_Delete_try s))"

definition KernelWaitSema ::
  "KernelSemaPrivate option \<Rightarrow> nat \<Rightarrow> int \<Rightarrow> int \<Rightarrow> int \<Rightarrow> u32 option \<Rightarrow> int + (KernelSemaPrivate \<times> sm_pc)" where
  "KernelWaitSema sem self tid priority need tmo =
    (case sem of None \<Rightarrow> Inl KERNEL_ERROR_ESRCH | Some s \<Rightarrow> Inr (Sema_Wait_begin s self tid priority need tmo))"

fun sema_wait_code :: "SemaResult \<Rightarrow> int" where
  "sema_wait_code SmOk = OK"
| "sema_wait_code SmInvalCount = KERNEL_ERROR_EINVAL"
| "sema_wait_code SmTimedOut = KERNEL_ERROR_ETIMEDOUT"
| "sema_wait_code SmCanceled = KERNEL_ERROR_ECANCELED"
| "sema_wait_code SmDeleted = KERNEL_ERROR_EACCES"

definition KernelPollSema ::
  "KernelSemaPrivate option \<Rightarrow> nat \<Rightarrow> int \<Rightarrow> int \<Rightarrow> int \<Rightarrow> int + (KernelSemaPrivate \<times> sm_pc)" where
  "KernelPollSema sem self tid priority need =
    (case sem of None \<Rightarrow> Inl KERNEL_ERROR_ESRCH | Some s \<Rightarrow> Inr (Sema_Wait_begin s self tid priority need (Some 0)))"

fun sema_poll_code :: "SemaResult \<Rightarrow> int" where
  "sema_poll_code SmOk = OK"
| "sema_poll_code SmInvalCount = KERNEL_ERROR_EINVAL"
| "sema_poll_code SmTimedOut = KERNEL_ERROR_EBUSY"
| "sema_poll_code SmCanceled = KERNEL_ERROR_EBUSY"
| "sema_poll_code SmDeleted = KERNEL_ERROR_EBUSY"

definition KernelSignalSema :: "KernelSemaPrivate option \<Rightarrow> int \<Rightarrow> int + (KernelSemaPrivate \<times> sm_pc) option" where
  "KernelSignalSema sem count =
    (case sem of None \<Rightarrow> Inl KERNEL_ERROR_ESRCH | Some s \<Rightarrow> Inr (Signal s count))"

fun sema_signal_code :: "SemaResult \<Rightarrow> int" where
  "sema_signal_code SmOk = OK"
| "sema_signal_code _ = KERNEL_ERROR_EINVAL"

definition KernelCancelSema :: "KernelSemaPrivate option \<Rightarrow> int \<Rightarrow> int + (KernelSemaPrivate \<times> sm_pc)" where
  "KernelCancelSema sem count =
    (case sem of None \<Rightarrow> Inl KERNEL_ERROR_ESRCH | Some s \<Rightarrow> Inr (Cancel s count))"

fun sema_cancel_code :: "SemaResult \<Rightarrow> int" where
  "sema_cancel_code SmOk = OK"
| "sema_cancel_code _ = KERNEL_ERROR_EINVAL"

text \<open>A semaphore that \<open>KernelCreateSema\<close> made, and threads that have not called it.\<close>

definition sm_start :: "KernelSemaPrivate \<times> sm_pc list \<Rightarrow> bool" where
  "sm_start s \<longleftrightarrow> (\<exists>nm attr init mx sem n. KernelCreateSema nm attr init mx = (OK, Some sem) \<and> s = (sem, replicate n SmIdle))"

end
