(* ===== verification/SemaphoreProps.thy ===== *)
theory SemaphoreProps
  imports Semaphore
begin

text \<open>
  Properties of kernel semaphores: the invariant of the threads on one semaphore, what \<open>Signal\<close> grants,
  and the completion of a deletion.
\<close>

section \<open>Lists of waiters\<close>

lemma set_add_by_priority [simp]: "set (add_by_priority ws w) = insert w (set ws)"
  by (induction ws) auto

lemma distinct_add_by_priority:
  "distinct (map wt_self (add_by_priority ws w)) \<longleftrightarrow> wt_self w \<notin> wt_self ` set ws \<and> distinct (map wt_self ws)"
  by (induction ws) auto

lemma sorted_add_by_priority:
  "sorted (map wt_priority ws) \<Longrightarrow> sorted (map wt_priority (add_by_priority ws w))"
  by (induction ws) auto

lemma remove_waiter_filter:
  "distinct (map wt_self ws) \<Longrightarrow> remove_waiter self ws = filter (\<lambda>w. wt_self w \<noteq> self) ws"
proof (induction ws)
  case (Cons x ws)
  then show ?case by (auto simp: image_iff intro!: filter_True [symmetric])
qed simp

lemma wake_list_maps:
  "wake_list ws c = (ws', c') \<Longrightarrow>
   map wt_self ws' = map wt_self ws \<and> map wt_priority ws' = map wt_priority ws \<and> map wt_need_count ws' = map wt_need_count ws"
  by (induction ws arbitrary: c ws') (auto split: if_splits prod.splits)

lemma wake_list_count:
  "wake_list ws c = (ws', c') \<Longrightarrow> \<forall>w \<in> set ws. 0 \<le> wt_need_count w \<Longrightarrow>
   c' \<le> c \<and> (\<forall>w \<in> set ws'. \<not> wt_ready w \<longrightarrow> c' < wt_need_count w)"
proof (induction ws arbitrary: c ws')
  case (Cons w ws)
  show ?case
  proof (cases "\<not> wt_ready w \<and> wt_need_count w \<le> c")
    case True
    then obtain vs where v: "wake_list ws (c - wt_need_count w) = (vs, c')" "ws' = w\<lparr>wt_result := SmOk, wt_ready := True\<rparr> # vs"
      using Cons.prems(1) by (auto split: prod.splits)
    then show ?thesis using Cons.IH [OF v(1)] Cons.prems(2) by auto
  next
    case False
    then obtain vs where v: "wake_list ws c = (vs, c')" "ws' = w # vs"
      using Cons.prems(1) by (auto split: prod.splits)
    then show ?thesis using Cons.IH [OF v(1)] Cons.prems(2) False by auto
  qed
qed simp

lemma release_all_maps [simp]:
  "map wt_self (release_all r ws) = map wt_self ws" "map wt_priority (release_all r ws) = map wt_priority ws"
  "map wt_need_count (release_all r ws) = map wt_need_count ws"
  by (simp_all add: release_all_def)

lemma release_all_ready: "w \<in> set (release_all r ws) \<Longrightarrow> wt_ready w"
  by (auto simp: release_all_def)

lemma all_of_map: "map f ws' = map f ws \<Longrightarrow> (\<forall>w \<in> set ws'. P (f w)) \<longleftrightarrow> (\<forall>w \<in> set ws. P (f w))"
  by (metis (no_types, lifting) image_iff list.set_map)

section \<open>Invariant\<close>

fun sm_sleeps :: "sm_pc \<Rightarrow> bool" where
  "sm_sleeps (SmInWait _) = True"
| "sm_sleeps _ = False"

definition sema_ok :: "KernelSemaPrivate \<Rightarrow> nat set \<Rightarrow> bool" where
  "sema_ok s T \<longleftrightarrow>
     distinct (map wt_self (sm_waiting_threads s)) \<and> set (map wt_self (sm_waiting_threads s)) = T \<and>
     sorted (map wt_priority (sm_waiting_threads s)) \<and>
     (\<forall>w \<in> set (sm_waiting_threads s). sm_fifo_order s \<longrightarrow> wt_priority w = 0) \<and>
     (\<forall>w \<in> set (sm_waiting_threads s). 1 \<le> wt_need_count w \<and> wt_need_count w \<le> sm_max_count s) \<and>
     (\<forall>w \<in> set (sm_waiting_threads s). \<not> wt_ready w \<longrightarrow> sm_count s < wt_need_count w \<and> sm_status s = SmStSet) \<and>
     sm_count s \<le> sm_max_count s"

definition sm_inv :: "KernelSemaPrivate \<times> sm_pc list \<Rightarrow> bool" where
  "sm_inv s = (case s of (sem, cs) \<Rightarrow>
     0 \<le> sm_init_count sem \<and> sm_init_count sem \<le> sm_max_count sem \<and>
     sema_ok sem {t. t < length cs \<and> sm_sleeps (cs ! t)})"

lemma sema_ok_add:
  assumes "sema_ok s T" "wt_self w \<notin> T" "sm_status s = SmStSet" "sm_count s < wt_need_count w"
    "1 \<le> wt_need_count w" "wt_need_count w \<le> sm_max_count s" "sm_fifo_order s \<longrightarrow> wt_priority w = 0"
  shows "sema_ok (AddWaiter s w) (insert (wt_self w) T)"
proof (cases "sm_fifo_order s")
  case True
  have "sorted (map wt_priority (sm_waiting_threads s @ [w]))"
    using assms(1,7) True by (auto simp: sema_ok_def sorted_append)
  then show ?thesis using assms True by (auto simp: sema_ok_def AddWaiter_def)
next
  case False
  then show ?thesis using assms sorted_add_by_priority
    by (auto simp: sema_ok_def AddWaiter_def distinct_add_by_priority)
qed

lemma sema_ok_remove:
  assumes "sema_ok s T"
  shows "sema_ok (RemoveWaiter s t) (T - {t})"
proof -
  have "remove_waiter t (sm_waiting_threads s) = filter (\<lambda>w. wt_self w \<noteq> t) (sm_waiting_threads s)"
    using assms by (intro remove_waiter_filter) (simp add: sema_ok_def)
  then show ?thesis using assms
    by (auto simp: sema_ok_def RemoveWaiter_def distinct_map_filter sorted_filter)
qed

lemma sema_ok_relist:
  assumes "sema_ok s T" "map wt_self ws = map wt_self (sm_waiting_threads s)"
    and "map wt_priority ws = map wt_priority (sm_waiting_threads s)"
    and "map wt_need_count ws = map wt_need_count (sm_waiting_threads s)"
    and "\<forall>w \<in> set ws. \<not> wt_ready w \<longrightarrow> c < wt_need_count w \<and> st = SmStSet" "c \<le> sm_max_count s"
  shows "sema_ok (s\<lparr>sm_status := st, sm_count := c, sm_waiting_threads := ws\<rparr>) T"
proof -
  have "\<forall>w \<in> set ws. sm_fifo_order s \<longrightarrow> wt_priority w = 0"
    using all_of_map [OF assms(3), of "\<lambda>p. sm_fifo_order s \<longrightarrow> p = 0"] assms(1) by (simp add: sema_ok_def)
  moreover have "\<forall>w \<in> set ws. 1 \<le> wt_need_count w \<and> wt_need_count w \<le> sm_max_count s"
    using all_of_map [OF assms(4), of "\<lambda>n. 1 \<le> n \<and> n \<le> sm_max_count s"] assms(1) by (simp add: sema_ok_def)
  moreover have "set (map wt_self ws) = T" "distinct (map wt_self ws)" "sorted (map wt_priority ws)"
    unfolding assms(2,3) using assms(1) by (simp_all add: sema_ok_def)
  ultimately show ?thesis using assms(5,6) by (simp add: sema_ok_def)
qed

lemma sema_ok_wake:
  assumes "sema_ok s T" "sm_status s = SmStSet" "c \<le> sm_max_count s"
  shows "sema_ok (WakeWaiters (s\<lparr>sm_count := c\<rparr>)) T"
proof -
  obtain ws' c' where r: "wake_list (sm_waiting_threads s) c = (ws', c')" by (metis surj_pair)
  note m = wake_list_maps [OF r]
  have n: "\<forall>w \<in> set (sm_waiting_threads s). 0 \<le> wt_need_count w" using assms(1) by (auto simp: sema_ok_def)
  have "WakeWaiters (s\<lparr>sm_count := c\<rparr>) = s\<lparr>sm_status := SmStSet, sm_count := c', sm_waiting_threads := ws'\<rparr>"
    using assms(2) by (simp add: WakeWaiters_def r)
  then show ?thesis
    using sema_ok_relist [OF assms(1), of ws' c' SmStSet] m wake_list_count [OF r n] assms(3) by simp
qed

lemma sema_ok_release:
  assumes "sema_ok s T" "c \<le> sm_max_count s"
  shows "sema_ok (s\<lparr>sm_status := st, sm_count := c, sm_waiting_threads := release_all r (sm_waiting_threads s)\<rparr>) T"
  using release_all_ready assms by (intro sema_ok_relist) auto

lemma sema_ok_cancel:
  assumes "sema_ok s T" "c \<le> sm_max_count s"
  shows "sema_ok (s\<lparr>sm_count := c, sm_waiting_threads := release_all r (sm_waiting_threads s)\<rparr>) T"
  using sema_ok_release [OF assms, where st = "sm_status s" and r = r] by simp

lemma sema_ok_delete:
  assumes "sema_ok s T" "Sema_Delete_try s = (s', c')"
  shows "sema_ok s' T \<and> \<not> sm_sleeps c' \<and> sm_init_count s' = sm_init_count s \<and> sm_max_count s' = sm_max_count s"
proof -
  define r where "r = s\<lparr>sm_status := SmStDeleted, sm_waiting_threads := release_all SmDeleted (sm_waiting_threads s)\<rparr>"
  have "sm_count s \<le> sm_max_count s" using assms(1) by (simp add: sema_ok_def)
  then have "sema_ok r T" using sema_ok_release [OF assms(1), where c = "sm_count s" and st = SmStDeleted and r = SmDeleted] by (simp add: r_def)
  moreover have "(s' = r \<or> s' = s) \<and> \<not> sm_sleeps c'"
    using assms(2) unfolding Sema_Delete_try_def Sema_Delete_drain_def r_def [symmetric] by (auto split: if_splits)
  moreover have "sm_init_count r = sm_init_count s" "sm_max_count r = sm_max_count s" by (simp_all add: r_def)
  ultimately show ?thesis using assms(1) by auto
qed

lemma find_self:
  assumes "sema_ok s T" "t \<in> T"
  shows "\<exists>w. find (\<lambda>w. wt_self w = t) (sm_waiting_threads s) = Some w \<and> w \<in> set (sm_waiting_threads s) \<and> wt_self w = t"
proof -
  have "find (\<lambda>w. wt_self w = t) (sm_waiting_threads s) \<noteq> None" using assms by (auto simp: sema_ok_def find_None_iff)
  then show ?thesis by (auto simp: find_Some_iff in_set_conv_nth)
qed

lemma sm_local_ok:
  assumes "sm_local t s c s' c'" "sema_ok s T" "t \<in> T \<longleftrightarrow> sm_sleeps c" "0 \<le> sm_init_count s" "sm_init_count s \<le> sm_max_count s"
  shows "sema_ok s' (if sm_sleeps c' then insert t T else T - {t}) \<and>
    sm_init_count s' = sm_init_count s \<and> sm_max_count s' = sm_max_count s"
  using assms(1)
proof cases
  case (sm_wait_begin tid priority need tmo)
  have "t \<notin> T" using sm_wait_begin(1) assms(3) by (cases c) simp_all
  have mx: "sm_count s \<le> sm_max_count s" using assms(2) by (simp add: sema_ok_def)
  let ?w = "\<lparr>wt_self = t, wt_id = tid, wt_priority = if sm_fifo_order s then 0 else priority,
                     wt_need_count = need, wt_result = SmTimedOut, wt_ready = False\<rparr>"
  show ?thesis
  proof (cases "need < 1 \<or> sm_max_count s < need \<or> sm_status s = SmStDeleted \<or> (sm_count s < need \<and> tmo = Some 0)")
    case True
    then show ?thesis using sm_wait_begin(2) assms(2) \<open>t \<notin> T\<close> by (auto simp: Sema_Wait_begin_def split: if_splits)
  next
    case False
    then have f: "1 \<le> need" "need \<le> sm_max_count s" "sm_status s = SmStSet" by (auto intro: SemaStatus.exhaust)
    show ?thesis
    proof (cases "need \<le> sm_count s")
      case True
      have "sema_ok (s\<lparr>sm_count := sm_count s - need\<rparr>) T" using assms(2) f(1) by (auto simp: sema_ok_def)
      then show ?thesis using sm_wait_begin(2) f True \<open>t \<notin> T\<close> by (auto simp: Sema_Wait_begin_def)
    next
      case False
      have "sema_ok (AddWaiter s ?w) (insert (wt_self ?w) T)"
        using assms(2) f False \<open>t \<notin> T\<close> by (intro sema_ok_add) simp_all
      moreover have "s' = AddWaiter s ?w" "c' = SmInWait tmo"
        using sm_wait_begin(2) f False \<open>\<not> (need < 1 \<or> _)\<close> by (auto simp: Sema_Wait_begin_def)
      ultimately show ?thesis by (simp add: AddWaiter_def)
    qed
  qed
next
  case (sm_wait_wake tmo elapsed)
  have "t \<in> T" using sm_wait_wake(1) assms(3) by simp
  then obtain w where w: "find (\<lambda>w. wt_self w = t) (sm_waiting_threads s) = Some w" using find_self [OF assms(2)] by blast
  have "(s' = s \<and> sm_sleeps c') \<or> (s' = RemoveWaiter s t \<and> \<not> sm_sleeps c')"
    using sm_wait_wake(2) by (auto simp: Sema_Wait_wake_def w split: option.splits if_splits)
  then show ?thesis using sema_ok_remove [OF assms(2), of t] assms(2) \<open>t \<in> T\<close>
    by (auto simp: RemoveWaiter_def insert_absorb)
next
  case (sm_signal n)
  have "t \<notin> T" using sm_signal(1) assms(3) by (cases c) simp_all
  show ?thesis
  proof (cases "s' = s")
    case True
    then show ?thesis using sm_signal(2) assms(2) \<open>t \<notin> T\<close> by (auto simp: Signal_def split: if_splits)
  next
    case False
    then have r: "sm_status s = SmStSet" "sm_count s + n \<le> sm_max_count s"
      "s' = WakeWaiters (s\<lparr>sm_count := sm_count s + n\<rparr>)" "c' = SmSignaled SmOk"
      using sm_signal(2) by (auto simp: Signal_def not_less split: if_splits intro: SemaStatus.exhaust)
    then show ?thesis using sema_ok_wake [OF assms(2) r(1,2)] \<open>t \<notin> T\<close>
      by (simp add: WakeWaiters_def split: prod.splits)
  qed
next
  case (sm_cancel n)
  have "t \<notin> T" using sm_cancel(1) assms(3) by (cases c) simp_all
  have "(if n < 0 then sm_init_count s else n) \<le> sm_max_count s" if "n \<le> sm_max_count s" using that assms(5) by simp
  then show ?thesis using sm_cancel(2) assms(2) sema_ok_cancel [OF assms(2)] \<open>t \<notin> T\<close>
    by (auto simp: Cancel_def not_less split: if_splits)
next
  case sm_delete_begin
  have "t \<notin> T" using sm_delete_begin(1) assms(3) by (cases c) simp_all
  then show ?thesis using sema_ok_delete [OF assms(2) sm_delete_begin(2)] by simp
next
  case sm_delete_try
  then have "t \<notin> T" using assms(3) by simp
  then show ?thesis using sema_ok_delete [OF assms(2) sm_delete_try(2)] by simp
next
  case sm_delete_drain
  then have "t \<notin> T" using assms(3) by simp
  then show ?thesis using sm_delete_drain(2) assms(2) by (auto simp: Sema_Delete_drain_def split: if_splits)
qed

lemma sm_inv_step:
  assumes "sm_inv s" "sm_step s s'"
  shows "sm_inv s'"
  using assms(2)
proof cases
  case (sm_step_intro cs t sem sem' c')
  let ?T = "{t. t < length cs \<and> sm_sleeps (cs ! t)}"
  have i: "0 \<le> sm_init_count sem" "sm_init_count sem \<le> sm_max_count sem" "sema_ok sem ?T"
    using assms(1) sm_step_intro(1) by (simp_all add: sm_inv_def)
  have "sema_ok sem' (if sm_sleeps c' then insert t ?T else ?T - {t}) \<and>
      sm_init_count sem' = sm_init_count sem \<and> sm_max_count sem' = sm_max_count sem"
    using sm_step_intro(4) i by (intro sm_local_ok [OF sm_step_intro(5)]) simp_all
  moreover have "(if sm_sleeps c' then insert t ?T else ?T - {t}) =
      {k. k < length (cs[t := c']) \<and> sm_sleeps (cs[t := c'] ! k)}"
    using sm_step_intro(4) by (auto simp: nth_list_update)
  ultimately show ?thesis using i unfolding sm_step_intro(2) sm_inv_def by simp
qed

lemma create_sema:
  "KernelCreateSema nm attr init mx = (OK, Some sem) \<Longrightarrow>
   0 \<le> init \<and> init \<le> mx \<and> (\<exists>n fifo. sem = new_sema n fifo init mx)"
  by (cases nm) (auto simp: KernelCreateSema_def Let_def simp del: not_less split: if_splits)

lemma sm_inv_start:
  assumes "sm_start s"
  shows "sm_inv s"
proof -
  obtain nm attr init mx sem n where s: "s = (sem, replicate n SmIdle)"
    "KernelCreateSema nm attr init mx = (OK, Some sem)" using assms unfolding sm_start_def by blast
  obtain m fifo where "sem = new_sema m fifo init mx" "0 \<le> init" "init \<le> mx" using create_sema [OF s(2)] by blast
  moreover have "{t. t < length (replicate n SmIdle) \<and> sm_sleeps (replicate n SmIdle ! t)} = {}" by auto
  ultimately show ?thesis unfolding s(1) sm_inv_def by (simp add: new_sema_def sema_ok_def)
qed

section \<open>Deletion\<close>

definition sm_draining :: "KernelSemaPrivate \<times> sm_pc list \<Rightarrow> KernelSemaPrivate \<times> sm_pc list \<Rightarrow> bool" where
  "sm_draining s0 s = (case (s0, s) of ((sem0, cs0), (sem, cs)) \<Rightarrow>
     sm_status sem = SmStDeleted \<and> SmDeleteDone \<notin> set cs \<and> length cs = length cs0 \<and>
     set (sm_waiting_threads sem) \<subseteq> set (sm_waiting_threads sem0) \<and>
     (\<forall>k < length cs0. cs ! k = cs0 ! k \<or>
        sm_sleeps (cs0 ! k) \<and> (\<exists>w \<in> set (sm_waiting_threads sem0). wt_self w = k \<and> (\<exists>tmo. cs ! k = SmWaited (wt_result w) tmo))))"

definition sm_left :: "KernelSemaPrivate \<times> sm_pc list \<Rightarrow> nat" where
  "sm_left s = length (sm_waiting_threads (fst s))"

lemma sm_drain_lower:
  assumes "sm_inv s" "sm_draining s0 s" "sm_left s \<noteq> 0"
  shows "\<exists>s'. sm_step s s' \<and> sm_draining s0 s' \<and> sm_left s' < sm_left s"
proof -
  obtain sem0 cs0 sem cs where s: "s0 = (sem0, cs0)" "s = (sem, cs)" by (metis surj_pair)
  let ?T = "{t. t < length cs \<and> sm_sleeps (cs ! t)}"
  have ok: "sema_ok sem ?T" using assms(1) s(2) by (simp add: sm_inv_def)
  have d: "sm_status sem = SmStDeleted" "SmDeleteDone \<notin> set cs" "length cs = length cs0"
    "set (sm_waiting_threads sem) \<subseteq> set (sm_waiting_threads sem0)"
    using assms(2) s by (simp_all add: sm_draining_def)
  obtain v where "v \<in> set (sm_waiting_threads sem)"
    using assms(3) s(2) by (metis fst_conv list.set_intros(1) list.size(3) neq_Nil_conv sm_left_def)
  then have "wt_self v \<in> ?T" using ok unfolding sema_ok_def by auto
  then obtain t where t: "t \<in> ?T" by blast
  then obtain tmo where c: "cs ! t = SmInWait tmo" by (cases "cs ! t") simp_all
  obtain w where w: "find (\<lambda>w. wt_self w = t) (sm_waiting_threads sem) = Some w"
    "w \<in> set (sm_waiting_threads sem)" "wt_self w = t" using find_self [OF ok t] by blast
  have "wt_ready w" using ok w(2) d(1) by (auto simp: sema_ok_def)
  define c' where "c' = SmWaited (wt_result w) (map_option (\<lambda>micros. if micros \<le> 0 then 0 else micros - 0) tmo)"
  have "sm_local t sem (cs ! t) (RemoveWaiter sem t) c'"
    unfolding c by (rule sm_wait_wake [where elapsed = 0]) (simp add: Sema_Wait_wake_def w \<open>wt_ready w\<close> c'_def)
  then have "sm_step s (RemoveWaiter sem t, cs[t := c'])" unfolding s(2) using d(2) t by (intro sm_step_intro) auto
  moreover have f: "remove_waiter t (sm_waiting_threads sem) = filter (\<lambda>w. wt_self w \<noteq> t) (sm_waiting_threads sem)"
    using ok by (intro remove_waiter_filter) (simp add: sema_ok_def)
  moreover have "sm_draining s0 (RemoveWaiter sem t, cs[t := c'])"
    using assms(2) d t w c unfolding s
    by (auto simp: sm_draining_def RemoveWaiter_def f nth_list_update c'_def dest: set_update_subset_insert [THEN subsetD])
  moreover have "sm_left (RemoveWaiter sem t, cs[t := c']) < sm_left s"
    unfolding sm_left_def s(2) using w by (auto simp: RemoveWaiter_def f intro!: length_filter_less)
  ultimately show ?thesis by blast
qed

interpretation sm: draining sm_start sm_step sm_inv "sm_draining s0" sm_left for s0
  by unfold_locales (blast intro: sm_inv_start sm_inv_step sm_drain_lower)+

text \<open>C18. No lost wake-up. In every state that the threads of a semaphore can reach, the vector of waiters
  names each thread that is asleep exactly once, sorted by priority (in order of arrival among equals), the
  count is within the maximum, and a waiter that has not been released wants more than is available.\<close>

theorem sema_invariant:
  assumes "reach sm_start sm_step (s, cs)"
  shows "distinct (map wt_self (sm_waiting_threads s)) \<and>
    wt_self ` set (sm_waiting_threads s) = {t. t < length cs \<and> sm_sleeps (cs ! t)} \<and>
    sorted (map wt_priority (sm_waiting_threads s)) \<and> sm_count s \<le> sm_max_count s \<and>
    (\<forall>w \<in> set (sm_waiting_threads s). \<not> wt_ready w \<longrightarrow> sm_count s < wt_need_count w \<and> wt_need_count w \<le> sm_max_count s)"
  using sm.reach_inv [OF assms] by (simp add: sm_inv_def sema_ok_def)

text \<open>C19. Deletion completes. From every reachable state in which a deletion drains, waking the sleepers
  lets it return, and each of them returns the result it was released with.\<close>

theorem sema_delete_completes:
  assumes "reach sm_start sm_step (s, cs)" and "sm_status s = SmStDeleted" "SmDeleteDone \<notin> set cs"
    and "t < length cs" and "cs ! t = SmDrainDelete"
  shows "\<exists>s' cs'. sm_step\<^sup>*\<^sup>* (s, cs) (s', cs') \<and> sm_waiting_threads s' = [] \<and> cs' ! t = SmDeleteDone \<and>
    (\<forall>w \<in> set (sm_waiting_threads s). \<exists>tmo. cs' ! wt_self w = SmWaited (wt_result w) tmo)"
proof -
  have i: "sm_inv (s, cs)" by (rule sm.reach_inv [OF assms(1)])
  have "sm_draining (s, cs) (s, cs)" using assms(2,3) by (simp add: sm_draining_def)
  then obtain s1 cs1 where r: "sm_step\<^sup>*\<^sup>* (s, cs) (s1, cs1)" "sm_draining (s, cs) (s1, cs1)" "sm_left (s1, cs1) = 0"
    using sm.drained [OF i] by (metis surj_pair)
  have i1: "sm_inv (s1, cs1)" by (rule sm.steps_inv [OF r(1) i])
  have z: "sm_waiting_threads s1 = []" using r(3) by (simp add: sm_left_def)
  have d: "SmDeleteDone \<notin> set cs1" "length cs1 = length cs"
    "k < length cs \<Longrightarrow> cs1 ! k = cs ! k \<or>
      sm_sleeps (cs ! k) \<and> (\<exists>w \<in> set (sm_waiting_threads s). wt_self w = k \<and> (\<exists>tmo. cs1 ! k = SmWaited (wt_result w) tmo))" for k
    using r(2) by (simp_all add: sm_draining_def)
  have t: "cs1 ! t = SmDrainDelete" using d(3) [OF assms(4)] assms(5) by simp
  have "sm_local t s1 (cs1 ! t) s1 SmDeleteDone"
    unfolding t by (rule sm_delete_drain) (simp add: Sema_Delete_drain_def z)
  then have "sm_step (s1, cs1) (s1, cs1[t := SmDeleteDone])" using assms(4) d by (intro sm_step_intro) simp_all
  with r(1) have "sm_step\<^sup>*\<^sup>* (s, cs) (s1, cs1[t := SmDeleteDone])" by simp
  moreover have "\<exists>tmo. cs1[t := SmDeleteDone] ! wt_self w = SmWaited (wt_result w) tmo"
    if w: "w \<in> set (sm_waiting_threads s)" for w
  proof -
    let ?T = "{t. t < length cs \<and> sm_sleeps (cs ! t)}"
    have k: "wt_self w \<in> ?T" "distinct (map wt_self (sm_waiting_threads s))"
      using i w by (auto simp: sm_inv_def sema_ok_def)
    have "\<not> sm_sleeps (cs1 ! wt_self w)" using i1 z k(1) d(2) by (auto simp: sm_inv_def sema_ok_def)
    then obtain v tmo where v: "v \<in> set (sm_waiting_threads s)" "wt_self v = wt_self w" "cs1 ! wt_self w = SmWaited (wt_result v) tmo"
      using d(3) [of "wt_self w"] k(1) by auto
    have "v = w" using v(1,2) w k(2) by (simp add: distinct_map inj_on_def)
    moreover have "wt_self w \<noteq> t" using k(1) assms(5) by auto
    ultimately show ?thesis using v(3) by simp
  qed
  ultimately show ?thesis using z assms(4) d(2) by (intro exI [of _ s1] exI [of _ "cs1[t := SmDeleteDone]"]) simp
qed

section \<open>Signal\<close>

text \<open>The units handed out between two states of the vector of waiters.\<close>

definition granted :: "WaitingThread list \<Rightarrow> WaitingThread list \<Rightarrow> int" where
  "granted ws ws' = (\<Sum>(w, w') \<leftarrow> zip ws ws'. if wt_ready w' \<and> \<not> wt_ready w then wt_need_count w else 0)"

lemma granted_simps [simp]:
  "granted [] [] = 0"
  "granted (w # ws) (w' # ws') = (if wt_ready w' \<and> \<not> wt_ready w then wt_need_count w else 0) + granted ws ws'"
  by (simp_all add: granted_def)

lemma wake_list_greedy:
  "wake_list ws c = (ws', c') \<Longrightarrow>
   length ws' = length ws \<and> c' + granted ws ws' = c \<and>
   (\<forall>i < length ws. ws' ! i =
      (if \<not> wt_ready (ws ! i) \<and> wt_need_count (ws ! i) \<le> c - granted (take i ws) (take i ws')
       then (ws ! i)\<lparr>wt_result := SmOk, wt_ready := True\<rparr> else ws ! i))"
proof (induction ws arbitrary: c ws')
  case (Cons w ws)
  let ?g = "\<not> wt_ready w \<and> wt_need_count w \<le> c"
  let ?w = "if ?g then w\<lparr>wt_result := SmOk, wt_ready := True\<rparr> else w"
  let ?c = "if ?g then c - wt_need_count w else c"
  obtain vs where v: "wake_list ws ?c = (vs, c')" "ws' = ?w # vs"
    using Cons.prems by (auto split: if_splits prod.splits)
  note ih = Cons.IH [OF v(1)]
  have h: "?c = c - (if wt_ready ?w \<and> \<not> wt_ready w then wt_need_count w else 0)" by auto
  have "ws' ! i = (if \<not> wt_ready ((w # ws) ! i) \<and> wt_need_count ((w # ws) ! i) \<le> c - granted (take i (w # ws)) (take i ws')
       then ((w # ws) ! i)\<lparr>wt_result := SmOk, wt_ready := True\<rparr> else (w # ws) ! i)" if "i < length (w # ws)" for i
  proof (cases i)
    case 0
    then show ?thesis by (simp add: v(2))
  next
    case (Suc j)
    have "c - granted (take i (w # ws)) (take i ws') = ?c - granted (take j ws) (take j vs)"
      unfolding h by (simp add: Suc v(2))
    then show ?thesis using ih that Suc by (simp add: v(2))
  qed
  moreover have "c' + granted (w # ws) ws' = c" using ih h by (simp add: v(2))
  ultimately show ?case using ih by (simp add: v(2))
qed simp

text \<open>Signal. A deleted semaphore and a count above the maximum are refused without any change.
  Otherwise the units of the semaphore and the new ones are handed out from the front of the vector: a waiter
  is released, with the result \<open>Ok\<close>, exactly when what is left at its turn is enough for it, and the rest
  stays in the count, so that no unit is lost or made.\<close>

lemma sema_signal_exact:
  assumes "Signal s n = Some (s', pc)"
  shows "(sm_status s = SmStDeleted \<and> s' = s \<and> pc = SmSignaled SmDeleted) \<or>
    (sm_status s = SmStSet \<and> sm_max_count s < sm_count s + n \<and> s' = s \<and> pc = SmSignaled SmInvalCount) \<or>
    (sm_status s = SmStSet \<and> sm_count s + n \<le> sm_max_count s \<and> pc = SmSignaled SmOk \<and>
     length (sm_waiting_threads s') = length (sm_waiting_threads s) \<and>
     sm_count s' + granted (sm_waiting_threads s) (sm_waiting_threads s') = sm_count s + n \<and>
     (\<forall>i < length (sm_waiting_threads s).
        sm_waiting_threads s' ! i =
          (if \<not> wt_ready (sm_waiting_threads s ! i) \<and>
              wt_need_count (sm_waiting_threads s ! i) \<le>
                sm_count s + n - granted (take i (sm_waiting_threads s)) (take i (sm_waiting_threads s'))
           then (sm_waiting_threads s ! i)\<lparr>wt_result := SmOk, wt_ready := True\<rparr>
           else sm_waiting_threads s ! i)))"
proof (cases "sm_status s = SmStDeleted \<or> sm_max_count s < sm_count s + n")
  case True
  then show ?thesis using assms by (cases "sm_status s") (auto simp: Signal_def split: if_splits)
next
  case False
  then have st: "sm_status s = SmStSet" by (cases "sm_status s") simp_all
  obtain ws' c' where r: "wake_list (sm_waiting_threads s) (sm_count s + n) = (ws', c')" by (metis surj_pair)
  have "s' = s\<lparr>sm_waiting_threads := ws', sm_count := c'\<rparr> \<and> pc = SmSignaled SmOk"
    using assms False st by (simp add: Signal_def WakeWaiters_def r split: if_splits)
  then show ?thesis using wake_list_greedy [OF r] False st by simp
qed

text \<open>A run: thread 0 waits for two units, then thread 1 deletes the semaphore.\<close>

definition sm_demo :: KernelSemaPrivate where
  "sm_demo = new_sema ''sema'' True 0 4"

definition sm_demo_waiter :: WaitingThread where
  "sm_demo_waiter = \<lparr>wt_self = 0, wt_id = 7, wt_priority = 0, wt_need_count = 2, wt_result = SmTimedOut, wt_ready = False\<rparr>"

lemma sm_demo_wait:
  "reach sm_start sm_step (sm_demo\<lparr>sm_waiting_threads := [sm_demo_waiter]\<rparr>, [SmInWait None, SmIdle])"
proof -
  have "sm_start (sm_demo, replicate 2 SmIdle)"
    unfolding sm_start_def
    by (intro exI [of _ "Some ''sema''"] exI [of _ 1] exI [of _ 0] exI [of _ 4] exI [of _ sm_demo] exI [of _ 2])
      (simp add: KernelCreateSema_def sm_demo_def DecodeKernelSemaQueueOrder_def word_less_nat_alt)
  then have "reach sm_start sm_step (sm_demo, replicate 2 SmIdle)" by (rule reach_start)
  moreover have "sm_step (sm_demo, replicate 2 SmIdle)
      (sm_demo\<lparr>sm_waiting_threads := [sm_demo_waiter]\<rparr>, (replicate 2 SmIdle)[0 := SmInWait None])"
    by (rule sm_step_intro, simp, simp, rule sm_wait_begin [where need = 2 and tid = 7 and priority = 700 and tmo = None])
      (simp_all add: sm_demo_def new_sema_def sm_demo_waiter_def Sema_Wait_begin_def AddWaiter_def)
  ultimately show ?thesis using reach_step by (fastforce simp: numeral_2_eq_2)
qed

lemma sm_demo_delete:
  "reach sm_start sm_step
     (sm_demo\<lparr>sm_status := SmStDeleted, sm_waiting_threads := [sm_demo_waiter\<lparr>wt_result := SmDeleted, wt_ready := True\<rparr>]\<rparr>,
      [SmInWait None, SmDrainDelete])"
proof -
  have "sm_step (sm_demo\<lparr>sm_waiting_threads := [sm_demo_waiter]\<rparr>, [SmInWait None, SmIdle])
      (sm_demo\<lparr>sm_status := SmStDeleted, sm_waiting_threads := [sm_demo_waiter\<lparr>wt_result := SmDeleted, wt_ready := True\<rparr>]\<rparr>,
       [SmInWait None, SmIdle][1 := SmDrainDelete])"
    by (rule sm_step_intro, simp, simp, rule sm_delete_begin)
      (simp_all add: sm_demo_def new_sema_def sm_demo_waiter_def Sema_Delete_try_def Sema_Delete_drain_def release_all_def)
  then show ?thesis using reach_step [OF sm_demo_wait] by fastforce
qed

lemma sema_invariant_witness:
  "wt_self ` set [sm_demo_waiter] = {t. t < length [SmInWait None, SmIdle] \<and> sm_sleeps ([SmInWait None, SmIdle] ! t)}"
  using sema_invariant [OF sm_demo_wait] by simp

lemma sema_delete_completes_witness:
  "\<exists>s' cs' tmo. sm_waiting_threads (s' :: KernelSemaPrivate) = [] \<and> cs' ! 1 = SmDeleteDone \<and> cs' ! 0 = SmWaited SmDeleted tmo"
proof -
  let ?s = "sm_demo\<lparr>sm_status := SmStDeleted, sm_waiting_threads := [sm_demo_waiter\<lparr>wt_result := SmDeleted, wt_ready := True\<rparr>]\<rparr>"
  let ?cs = "[SmInWait None, SmDrainDelete]"
  have p: "sm_status ?s = SmStDeleted" "SmDeleteDone \<notin> set ?cs" "1 < length ?cs" "?cs ! 1 = SmDrainDelete" by simp_all
  from sema_delete_completes [OF sm_demo_delete p] show ?thesis
  proof (elim exE conjE)
    fix s' :: KernelSemaPrivate and cs' :: "sm_pc list"
    assume b: "sm_waiting_threads s' = []" "cs' ! 1 = SmDeleteDone"
      and d: "\<forall>w \<in> set (sm_waiting_threads ?s). \<exists>tmo. cs' ! wt_self w = SmWaited (wt_result w) tmo"
    from d obtain tmo where "cs' ! 0 = SmWaited SmDeleted tmo" by (auto simp: sm_demo_waiter_def)
    then show ?thesis using b by blast
  qed
qed

lemma sema_signal_exact_witness:
  "Signal (sm_demo\<lparr>sm_waiting_threads := [sm_demo_waiter]\<rparr>) 3 =
     Some (sm_demo\<lparr>sm_count := 1, sm_waiting_threads := [sm_demo_waiter\<lparr>wt_result := SmOk, wt_ready := True\<rparr>]\<rparr>, SmSignaled SmOk) \<and>
   1 + granted [sm_demo_waiter] [sm_demo_waiter\<lparr>wt_result := SmOk, wt_ready := True\<rparr>] = 3"
proof -
  have e: "Signal (sm_demo\<lparr>sm_waiting_threads := [sm_demo_waiter]\<rparr>) 3 =
     Some (sm_demo\<lparr>sm_count := 1, sm_waiting_threads := [sm_demo_waiter\<lparr>wt_result := SmOk, wt_ready := True\<rparr>]\<rparr>, SmSignaled SmOk)"
    by (simp add: Signal_def int32_def WakeWaiters_def sm_demo_def new_sema_def sm_demo_waiter_def)
  have "sm_status sm_demo = SmStSet" "sm_count sm_demo = 0" "sm_max_count sm_demo = 4"
    by (simp_all add: sm_demo_def new_sema_def)
  note f = this
  let ?s = "sm_demo\<lparr>sm_waiting_threads := [sm_demo_waiter]\<rparr>"
  let ?s' = "sm_demo\<lparr>sm_count := 1, sm_waiting_threads := [sm_demo_waiter\<lparr>wt_result := SmOk, wt_ready := True\<rparr>]\<rparr>"
  from sema_signal_exact [OF e]
  have "1 + granted [sm_demo_waiter] [sm_demo_waiter\<lparr>wt_result := SmOk, wt_ready := True\<rparr>] = 3"
  proof (elim disjE conjE)
    assume "sm_status ?s = SmStDeleted" then show ?thesis using f by simp
  next
    assume "sm_max_count ?s < sm_count ?s + 3" then show ?thesis using f by simp
  next
    assume "sm_count ?s' + granted (sm_waiting_threads ?s) (sm_waiting_threads ?s') = sm_count ?s + 3"
    then show ?thesis using f by (simp del: granted_simps)
  qed
  then show ?thesis using e by blast
qed

text \<open>\<open>Signal\<close> also takes a negative count: the semaphore then holds fewer than zero units.\<close>

lemma sema_signal_negative:
  "KernelSignalSema (Some (new_sema nm fifo 0 1)) (- 1) =
     Inr (Some ((new_sema nm fifo 0 1)\<lparr>sm_count := - 1\<rparr>, SmSignaled SmOk))"
  by (simp add: KernelSignalSema_def Signal_def int32_def WakeWaiters_def new_sema_def)

end
