(* ===== verification/PosixSemaphore.thy ===== *)
theory PosixSemaphore
  imports Machine
begin

text \<open>
  POSIX semaphores, the second half of \<open>src/kernel/semaphore.cpp\<close>. The host object counts; after every
  critical section it copies its state into the structure that the guest sees (\<open>SyncGuest\<close>). The
  guest structure is the key of the host object, so it is never the null pointer here, and the memory of
  the guest is a function from addresses to structures. The last part has the entry points with the two
  conventions for errors.
\<close>

section \<open>State\<close>

definition POSIX_ENOENT :: int where "POSIX_ENOENT = 2"
definition POSIX_EINVAL :: int where "POSIX_EINVAL = 22"
definition POSIX_EAGAIN :: int where "POSIX_EAGAIN = 35"
definition POSIX_ETIMEDOUT :: int where "POSIX_ETIMEDOUT = 60"
definition POSIX_EOVERFLOW :: int where "POSIX_EOVERFLOW = 84"
definition POSIX_SEM_MAGIC :: u16 where "POSIX_SEM_MAGIC = 0x09fa"
definition POSIX_SEM_VALUE_MAX :: int where "POSIX_SEM_VALUE_MAX = 0x7fffffff"

lemmas posix_codes = POSIX_ENOENT_def POSIX_EINVAL_def POSIX_EAGAIN_def POSIX_ETIMEDOUT_def POSIX_EOVERFLOW_def

record PosixSemGuest =
  gs_magic :: u16
  gs_nameid :: u16
  gs_has_waiters :: u32
  gs_count :: u32
  gs_flags :: u32

record PosixSemPrivate =
  ps_count :: int
  ps_waiters :: u32

datatype ps_pc = PsIdle | PsInWait "u32 option" | PsDone int

section \<open>Critical sections\<close>

definition SyncGuest :: "PosixSemPrivate \<Rightarrow> u32 \<Rightarrow> PosixSemGuest \<Rightarrow> PosixSemGuest" where
  "SyncGuest s flags g =
    \<lparr>gs_magic = POSIX_SEM_MAGIC, gs_nameid = 0, gs_has_waiters = if 0 < ps_waiters s then 1 else 0,
     gs_count = of_int (ps_count s), gs_flags = if flags \<noteq> UINT32_MAX then flags else gs_flags g\<rparr>"

abbreviation sync :: "PosixSemPrivate \<Rightarrow> PosixSemGuest \<Rightarrow> PosixSemGuest" where
  "sync s g \<equiv> SyncGuest s UINT32_MAX g"

definition new_posix_sem :: "u32 \<Rightarrow> u32 \<Rightarrow> PosixSemGuest \<Rightarrow> PosixSemPrivate \<times> PosixSemGuest" where
  "new_posix_sem v flags g = (let s = \<lparr>ps_count = sint v, ps_waiters = 0\<rparr> in (s, SyncGuest s flags g))"

definition psem_loop ::
  "PosixSemPrivate \<times> PosixSemGuest \<Rightarrow> u32 option \<Rightarrow> u32 \<Rightarrow> (PosixSemPrivate \<times> PosixSemGuest) \<times> ps_pc" where
  "psem_loop x micros elapsed = (case x of (s, g) \<Rightarrow>
    if ps_count s \<le> 0 then
      if (case micros of None \<Rightarrow> False | Some m \<Rightarrow> m \<le> elapsed) then ((s, sync s g), PsDone POSIX_ETIMEDOUT)
      else let s1 = s\<lparr>ps_waiters := ps_waiters s + 1\<rparr> in ((s1, sync s1 g), PsInWait micros)
    else let s1 = s\<lparr>ps_count := ps_count s - 1\<rparr> in ((s1, sync s1 g), PsDone OK))"

definition psem_Wait_begin ::
  "PosixSemPrivate \<times> PosixSemGuest \<Rightarrow> u32 option \<Rightarrow> (PosixSemPrivate \<times> PosixSemGuest) \<times> ps_pc" where
  "psem_Wait_begin x micros = psem_loop x micros 0"

definition psem_Wait_wake ::
  "PosixSemPrivate \<times> PosixSemGuest \<Rightarrow> u32 option \<Rightarrow> u32 \<Rightarrow> (PosixSemPrivate \<times> PosixSemGuest) \<times> ps_pc" where
  "psem_Wait_wake x micros elapsed = (case x of (s, g) \<Rightarrow> psem_loop (s\<lparr>ps_waiters := ps_waiters s - 1\<rparr>, g) micros elapsed)"

definition psem_TryWait :: "PosixSemPrivate \<times> PosixSemGuest \<Rightarrow> (PosixSemPrivate \<times> PosixSemGuest) \<times> ps_pc" where
  "psem_TryWait x = (case x of (s, g) \<Rightarrow>
    if ps_count s \<le> 0 then ((s, sync s g), PsDone POSIX_EAGAIN)
    else let s1 = s\<lparr>ps_count := ps_count s - 1\<rparr> in ((s1, sync s1 g), PsDone OK))"

definition psem_Post :: "PosixSemPrivate \<times> PosixSemGuest \<Rightarrow> (PosixSemPrivate \<times> PosixSemGuest) \<times> ps_pc" where
  "psem_Post x = (case x of (s, g) \<Rightarrow>
    if ps_count s = POSIX_SEM_VALUE_MAX then ((s, g), PsDone POSIX_EOVERFLOW)
    else let s1 = s\<lparr>ps_count := ps_count s + 1\<rparr> in ((s1, sync s1 g), PsDone OK))"

definition psem_GetValue :: "PosixSemPrivate \<Rightarrow> int" where
  "psem_GetValue s = ps_count s"

section \<open>Threads on one semaphore\<close>

fun ps_free :: "ps_pc \<Rightarrow> bool" where
  "ps_free (PsInWait _) = False"
| "ps_free _ = True"

inductive ps_step ::
  "(PosixSemPrivate \<times> PosixSemGuest) \<times> ps_pc list \<Rightarrow> (PosixSemPrivate \<times> PosixSemGuest) \<times> ps_pc list \<Rightarrow> bool" where
  ps_wait: "t < length cs \<Longrightarrow> ps_free (cs ! t) \<Longrightarrow> psem_Wait_begin x micros = (x', c) \<Longrightarrow> ps_step (x, cs) (x', cs[t := c])"
| ps_wake: "t < length cs \<Longrightarrow> cs ! t = PsInWait micros \<Longrightarrow> psem_Wait_wake x micros elapsed = (x', c) \<Longrightarrow>
    ps_step (x, cs) (x', cs[t := c])"
| ps_trywait: "t < length cs \<Longrightarrow> ps_free (cs ! t) \<Longrightarrow> psem_TryWait x = (x', c) \<Longrightarrow> ps_step (x, cs) (x', cs[t := c])"
| ps_post: "t < length cs \<Longrightarrow> ps_free (cs ! t) \<Longrightarrow> psem_Post x = (x', c) \<Longrightarrow> ps_step (x, cs) (x', cs[t := c])"

section \<open>Entry points\<close>

record posix_state =
  g_posix_sems :: "u64 \<rightharpoonup> PosixSemPrivate"
  px_guest :: "u64 \<Rightarrow> PosixSemGuest"
  px_errno :: int

definition PosixToKernel :: "int \<Rightarrow> int" where
  "PosixToKernel posix_errno =
    (if 0 \<le> posix_errno \<and> posix_errno \<le> 102 then posix_errno - 2147352576 else KERNEL_ERROR_EINVAL)"

definition GetSem :: "posix_state \<Rightarrow> u64 \<Rightarrow> PosixSemPrivate option" where
  "GetSem st sem = (if sem = 0 then None else g_posix_sems st sem)"

definition SetErrnoReturn :: "posix_state \<Rightarrow> int \<Rightarrow> int \<times> posix_state" where
  "SetErrnoReturn st posix_errno = (- 1, st\<lparr>px_errno := posix_errno\<rparr>)"

definition SemInitImpl :: "posix_state \<Rightarrow> u64 \<Rightarrow> i32 \<Rightarrow> u32 \<Rightarrow> int \<times> posix_state" where
  "SemInitImpl st sem pshared v =
    (if sem = 0 \<or> POSIX_SEM_VALUE_MAX < uint v then (POSIX_EINVAL, st)
     else case new_posix_sem v pshared (px_guest st sem) of (obj, g) \<Rightarrow>
       (OK, st\<lparr>g_posix_sems := (g_posix_sems st)(sem \<mapsto> obj), px_guest := (px_guest st)(sem := g)\<rparr>))"

definition SemDestroyImpl :: "posix_state \<Rightarrow> u64 \<Rightarrow> int \<times> posix_state" where
  "SemDestroyImpl st sem =
    (if sem = 0 then (POSIX_EINVAL, st)
     else case g_posix_sems st sem of
       None \<Rightarrow> (POSIX_EINVAL, st)
     | Some obj \<Rightarrow>
         (OK, st\<lparr>g_posix_sems := (g_posix_sems st)(sem := None),
                 px_guest := (px_guest st)(sem := (px_guest st sem)
                   \<lparr>gs_magic := 0, gs_has_waiters := 0, gs_count := 0, gs_flags := 0\<rparr>)\<rparr>))"

text \<open>A critical section of the object of an address.\<close>

definition on_sem ::
  "posix_state \<Rightarrow> u64 \<Rightarrow> (PosixSemPrivate \<times> PosixSemGuest \<Rightarrow> (PosixSemPrivate \<times> PosixSemGuest) \<times> ps_pc) \<Rightarrow> ps_pc \<times> posix_state" where
  "on_sem st sem section =
    (case GetSem st sem of
       None \<Rightarrow> (PsDone POSIX_EINVAL, st)
     | Some obj \<Rightarrow>
         case section (obj, px_guest st sem) of ((obj', g), c) \<Rightarrow>
           (c, st\<lparr>g_posix_sems := (g_posix_sems st)(sem \<mapsto> obj'), px_guest := (px_guest st)(sem := g)\<rparr>))"

definition SemTimedwaitImpl :: "posix_state \<Rightarrow> u64 \<Rightarrow> u32 option \<Rightarrow> ps_pc \<times> posix_state" where
  "SemTimedwaitImpl st sem micros = on_sem st sem (\<lambda>x. psem_Wait_begin x micros)"

text \<open>The two ways of returning a result; a call that sleeps returns when it is woken.\<close>

definition posix_return :: "ps_pc \<times> posix_state \<Rightarrow> ps_pc \<times> posix_state" where
  "posix_return r = (case r of (c, st) \<Rightarrow> case c of
      PsDone result \<Rightarrow>
        if result = OK then (PsDone 0, st) else (case SetErrnoReturn st result of (code, st') \<Rightarrow> (PsDone code, st'))
    | _ \<Rightarrow> (c, st))"

definition kernel_return :: "ps_pc \<times> posix_state \<Rightarrow> ps_pc \<times> posix_state" where
  "kernel_return r = (case r of (c, st) \<Rightarrow> case c of
      PsDone result \<Rightarrow> (PsDone (if result = OK then OK else PosixToKernel result), st)
    | _ \<Rightarrow> (c, st))"

text \<open>
  A 64-bit signed sum or product that overflows is undefined behaviour, the outer
  None; the inner None is the result \<open>false\<close>. \<open>now\<close> is what \<open>KernelClockGettime\<close> gives, None when it fails.
\<close>

definition AbsTimespecToMicros :: "(int \<times> int) option \<Rightarrow> (int \<times> int) option \<Rightarrow> u32 option option" where
  "AbsTimespecToMicros abstime now =
    (case abstime of
       None \<Rightarrow> Some None
     | Some (sec, nsec) \<Rightarrow>
         if sec < 0 \<or> nsec < 0 \<or> 1000000000 \<le> nsec then Some None
         else case now of
           None \<Rightarrow> Some None
         | Some (now_sec, now_nsec) \<Rightarrow>
             let sec_delta = sec - now_sec;
                 nsec_delta = nsec - now_nsec;
                 usec_delta = sec_delta * 1000000 + cdiv nsec_delta 1000
             in if \<not> int64 sec_delta \<or> \<not> int64 (sec_delta * 1000000) \<or> \<not> int64 usec_delta then None
                else if usec_delta \<le> 0 then Some (Some 0)
                else if 2 ^ 32 - 1 < usec_delta then Some (Some UINT32_MAX)
                else Some (Some (of_int usec_delta)))"

definition sem_init :: "posix_state \<Rightarrow> u64 \<Rightarrow> i32 \<Rightarrow> u32 \<Rightarrow> int \<times> posix_state" where
  "sem_init st sem pshared v =
    (case SemInitImpl st sem pshared v of (result, st') \<Rightarrow> if result = OK then (0, st') else SetErrnoReturn st' result)"

definition sem_destroy :: "posix_state \<Rightarrow> u64 \<Rightarrow> int \<times> posix_state" where
  "sem_destroy st sem =
    (case SemDestroyImpl st sem of (result, st') \<Rightarrow> if result = OK then (0, st') else SetErrnoReturn st' result)"

definition sem_wait :: "posix_state \<Rightarrow> u64 \<Rightarrow> ps_pc \<times> posix_state" where
  "sem_wait st sem = posix_return (SemTimedwaitImpl st sem None)"

definition sem_trywait :: "posix_state \<Rightarrow> u64 \<Rightarrow> ps_pc \<times> posix_state" where
  "sem_trywait st sem = posix_return (on_sem st sem psem_TryWait)"

definition sem_reltimedwait_np :: "posix_state \<Rightarrow> u64 \<Rightarrow> u32 \<Rightarrow> ps_pc \<times> posix_state" where
  "sem_reltimedwait_np st sem usec = posix_return (SemTimedwaitImpl st sem (Some usec))"

definition sem_timedwait ::
  "posix_state \<Rightarrow> u64 \<Rightarrow> (int \<times> int) option \<Rightarrow> (int \<times> int) option \<Rightarrow> (ps_pc \<times> posix_state) option" where
  "sem_timedwait st sem abstime now =
    (case AbsTimespecToMicros abstime now of
       None \<Rightarrow> None
     | Some None \<Rightarrow> Some (posix_return (PsDone POSIX_EINVAL, st))
     | Some (Some micros) \<Rightarrow> Some (posix_return (SemTimedwaitImpl st sem (Some micros))))"

definition sem_post :: "posix_state \<Rightarrow> u64 \<Rightarrow> ps_pc \<times> posix_state" where
  "sem_post st sem = posix_return (on_sem st sem psem_Post)"

text \<open>\<open>value_null\<close> says that the pointer for the result is null; the value is the second component.\<close>

definition sem_getvalue :: "posix_state \<Rightarrow> u64 \<Rightarrow> bool \<Rightarrow> int \<times> int option \<times> posix_state" where
  "sem_getvalue st sem value_null =
    (case GetSem st sem of
       None \<Rightarrow> (case SetErrnoReturn st POSIX_EINVAL of (code, st') \<Rightarrow> (code, None, st'))
     | Some obj \<Rightarrow>
         if value_null then (case SetErrnoReturn st POSIX_EINVAL of (code, st') \<Rightarrow> (code, None, st'))
         else (0, Some (psem_GetValue obj), st))"

definition PthreadSemInit :: "posix_state \<Rightarrow> u64 \<Rightarrow> i32 \<Rightarrow> u32 \<Rightarrow> int \<times> posix_state" where
  "PthreadSemInit st sem flag v =
    (if flag \<noteq> 0 then (KERNEL_ERROR_EINVAL, st)
     else case SemInitImpl st sem 0 v of (result, st') \<Rightarrow> (if result = OK then OK else PosixToKernel result, st'))"

definition PthreadSemDestroy :: "posix_state \<Rightarrow> u64 \<Rightarrow> int \<times> posix_state" where
  "PthreadSemDestroy st sem =
    (case SemDestroyImpl st sem of (result, st') \<Rightarrow> (if result = OK then OK else PosixToKernel result, st'))"

definition PthreadSemWait :: "posix_state \<Rightarrow> u64 \<Rightarrow> ps_pc \<times> posix_state" where
  "PthreadSemWait st sem = kernel_return (SemTimedwaitImpl st sem None)"

definition PthreadSemTrywait :: "posix_state \<Rightarrow> u64 \<Rightarrow> ps_pc \<times> posix_state" where
  "PthreadSemTrywait st sem =
    (case GetSem st sem of
       None \<Rightarrow> (PsDone KERNEL_ERROR_EINVAL, st)
     | Some _ \<Rightarrow> kernel_return (on_sem st sem psem_TryWait))"

definition PthreadSemTimedwait :: "posix_state \<Rightarrow> u64 \<Rightarrow> u32 \<Rightarrow> ps_pc \<times> posix_state" where
  "PthreadSemTimedwait st sem usec = kernel_return (SemTimedwaitImpl st sem (Some usec))"

definition PthreadSemPost :: "posix_state \<Rightarrow> u64 \<Rightarrow> ps_pc \<times> posix_state" where
  "PthreadSemPost st sem =
    (case GetSem st sem of
       None \<Rightarrow> (PsDone KERNEL_ERROR_EINVAL, st)
     | Some _ \<Rightarrow> kernel_return (on_sem st sem psem_Post))"

definition PthreadSemGetvalue :: "posix_state \<Rightarrow> u64 \<Rightarrow> bool \<Rightarrow> int \<times> int option" where
  "PthreadSemGetvalue st sem value_null =
    (case GetSem st sem of
       None \<Rightarrow> (KERNEL_ERROR_EINVAL, None)
     | Some obj \<Rightarrow> if value_null then (KERNEL_ERROR_EINVAL, None) else (OK, Some (psem_GetValue obj)))"

end
