(* ===== verification/PosixSemaphoreProps.thy ===== *)
theory PosixSemaphoreProps
  imports PosixSemaphore
begin

text \<open>Properties of POSIX semaphores: the guest structure is an exact copy of the host object.\<close>

fun ps_sleeps :: "ps_pc \<Rightarrow> bool" where
  "ps_sleeps (PsInWait _) = True"
| "ps_sleeps _ = False"

definition ps_mirror :: "PosixSemPrivate \<Rightarrow> PosixSemGuest \<Rightarrow> bool" where
  "ps_mirror s g \<longleftrightarrow> gs_magic g = POSIX_SEM_MAGIC \<and> gs_nameid g = 0 \<and>
     gs_has_waiters g = (if 0 < ps_waiters s then 1 else 0) \<and> gs_count g = of_int (ps_count s)"

definition ps_start :: "(PosixSemPrivate \<times> PosixSemGuest) \<times> ps_pc list \<Rightarrow> bool" where
  "ps_start s \<longleftrightarrow> (\<exists>v flags g n. uint v \<le> POSIX_SEM_VALUE_MAX \<and> n < 2 ^ 32 \<and>
     s = (new_posix_sem v flags g, replicate n PsIdle))"

definition ps_inv :: "(PosixSemPrivate \<times> PosixSemGuest) \<times> ps_pc list \<Rightarrow> bool" where
  "ps_inv s = (case s of ((s, g), cs) \<Rightarrow>
     ps_mirror s g \<and> 0 \<le> ps_count s \<and> ps_count s \<le> POSIX_SEM_VALUE_MAX \<and>
     ps_waiters s = of_int (cnt ps_sleeps cs) \<and> length cs < 2 ^ 32)"

lemma ps_mirror_sync [simp]: "ps_mirror s (SyncGuest s flags g)"
  by (simp add: ps_mirror_def SyncGuest_def)

text \<open>What one critical section does to the count, the waiters and the place of the thread.\<close>

definition ps_moves ::
  "PosixSemPrivate \<times> PosixSemGuest \<Rightarrow> bool \<Rightarrow> PosixSemPrivate \<times> PosixSemGuest \<Rightarrow> ps_pc \<Rightarrow> bool" where
  "ps_moves x slept x' c' \<longleftrightarrow> ps_mirror (fst x') (snd x') \<and>
     0 \<le> ps_count (fst x') \<and> ps_count (fst x') \<le> POSIX_SEM_VALUE_MAX \<and>
     ps_waiters (fst x') = ps_waiters (fst x) - of_bool slept + of_bool (ps_sleeps c')"

lemma psem_loop_moves:
  "psem_loop x m e = (x', c') \<Longrightarrow> 0 \<le> ps_count (fst x) \<Longrightarrow> ps_count (fst x) \<le> POSIX_SEM_VALUE_MAX \<Longrightarrow> ps_moves x False x' c'"
  by (cases x) (auto simp: psem_loop_def ps_moves_def Let_def split: if_splits)

lemma ps_inv_move:
  assumes "ps_inv (x, cs)" "t < length cs" "ps_moves x (ps_sleeps (cs ! t)) x' c'"
  shows "ps_inv (x', cs[t := c'])"
proof -
  obtain s g s' g' where x: "x = (s, g)" "x' = (s', g')" by (metis surj_pair)
  show ?thesis using assms unfolding x by (auto simp: ps_inv_def ps_moves_def cnt_update)
qed

lemma ps_inv_step:
  assumes "ps_inv s" "ps_step s s'"
  shows "ps_inv s'"
  using assms(2)
proof cases
  case (ps_wait t cs x micros x' c)
  have "ps_moves x False x' c" using assms(1) ps_wait(1,5)
    by (intro psem_loop_moves [of _ micros 0]) (auto simp: psem_Wait_begin_def ps_inv_def)
  moreover have "\<not> ps_sleeps (cs ! t)" using ps_wait(4) by (cases "cs ! t") simp_all
  ultimately show ?thesis using assms(1) ps_wait by (auto intro: ps_inv_move)
next
  case (ps_wake t cs micros x elapsed x' c)
  obtain s g where x: "x = (s, g)" by (metis surj_pair)
  have "ps_moves (s\<lparr>ps_waiters := ps_waiters s - 1\<rparr>, g) False x' c" using assms(1) ps_wake(1,5)
    by (intro psem_loop_moves [of _ micros elapsed]) (auto simp: psem_Wait_wake_def ps_inv_def x)
  then have "ps_moves x True x' c" by (simp add: ps_moves_def x)
  then show ?thesis using assms(1) ps_wake by (auto intro: ps_inv_move)
next
  case (ps_trywait t cs x x' c)
  have "ps_moves x False x' c" using assms(1) ps_trywait(1,5)
    by (cases x) (auto simp: psem_TryWait_def ps_inv_def ps_moves_def Let_def split: if_splits)
  moreover have "\<not> ps_sleeps (cs ! t)" using ps_trywait(4) by (cases "cs ! t") simp_all
  ultimately show ?thesis using assms(1) ps_trywait by (auto intro: ps_inv_move)
next
  case (ps_post t cs x x' c)
  have "ps_moves x False x' c" using assms(1) ps_post(1,5)
    by (cases x) (auto simp: psem_Post_def ps_inv_def ps_moves_def Let_def split: if_splits)
  moreover have "\<not> ps_sleeps (cs ! t)" using ps_post(4) by (cases "cs ! t") simp_all
  ultimately show ?thesis using assms(1) ps_post by (auto intro: ps_inv_move)
qed

lemma sint_small: "uint v \<le> 0x7fffffff \<Longrightarrow> sint v = uint v" for v :: u32
proof -
  assume v: "uint v \<le> 0x7fffffff"
  have b: "- (2 ^ 31) \<le> uint v" by (rule order_trans [of _ 0]) simp_all
  have "sint v = signed_take_bit 31 (uint v)" by (simp add: sint_uint)
  also have "\<dots> = uint v" using v b by (intro signed_take_bit_int_eq_self) simp_all
  finally show ?thesis .
qed

lemma ps_inv_start: "ps_start s \<Longrightarrow> ps_inv s"
  by (auto simp: ps_start_def ps_inv_def new_posix_sem_def Let_def sint_small POSIX_SEM_VALUE_MAX_def cnt_replicate
      split: prod.splits)

interpretation ps: kept ps_start ps_step ps_inv
  by unfold_locales (blast intro: ps_inv_start ps_inv_step)+

text \<open>In every state that fewer than 2^32 threads can reach on a semaphore that was initialised with a
  valid value, the count is between zero and the maximum, and the guest reads exactly that count, and that
  there are waiters exactly when some thread is asleep.\<close>

lemma posix_sem_mirror_exact:
  assumes "reach ps_start ps_step ((s, g), cs)"
  shows "gs_magic g = POSIX_SEM_MAGIC \<and> 0 \<le> ps_count s \<and> ps_count s \<le> POSIX_SEM_VALUE_MAX \<and>
    uint (gs_count g) = ps_count s \<and> (gs_has_waiters g = 1 \<longleftrightarrow> (\<exists>t < length cs. ps_sleeps (cs ! t)))"
proof -
  have i: "ps_mirror s g" "0 \<le> ps_count s" "ps_count s \<le> POSIX_SEM_VALUE_MAX"
    "ps_waiters s = of_int (cnt ps_sleeps cs)" "length cs < 2 ^ 32"
    using ps.reach_inv [OF assms] by (simp_all add: ps_inv_def)
  have c: "uint (of_int (ps_count s) :: u32) = ps_count s"
    using i(2,3) by (simp add: POSIX_SEM_VALUE_MAX_def take_bit_int_eq_self unsigned_of_int)
  have "length (filter ps_sleeps cs) < 2 ^ 32" using i(5) length_filter_le le_less_trans by blast
  then have "cnt ps_sleeps cs < 2 ^ 32" by (simp add: cnt_def)
  then have "uint (of_int (cnt ps_sleeps cs) :: u32) = cnt ps_sleeps cs"
    by (simp add: take_bit_int_eq_self unsigned_of_int)
  then have "0 < ps_waiters s \<longleftrightarrow> 0 < cnt ps_sleeps cs" by (simp add: i(4) word_less_def)
  then show ?thesis using i c unfolding cnt_pos by (auto simp: ps_mirror_def)
qed

lemma posix_sem_mirror_witness:
  "uint (gs_count (snd (new_posix_sem 3 0 \<lparr>gs_magic = 0, gs_nameid = 0, gs_has_waiters = 0, gs_count = 0, gs_flags = 0\<rparr>))) = 3"
proof -
  let ?g = "\<lparr>gs_magic = 0, gs_nameid = 0, gs_has_waiters = 0, gs_count = 0, gs_flags = 0\<rparr> :: PosixSemGuest"
  let ?x = "new_posix_sem 3 0 ?g"
  have "ps_start (?x, replicate 1 PsIdle)" unfolding ps_start_def
    by (intro exI [of _ 3] exI [of _ 0] exI [of _ ?g] exI [of _ 1]) (simp add: POSIX_SEM_VALUE_MAX_def)
  then have "reach ps_start ps_step ((fst ?x, snd ?x), replicate 1 PsIdle)" by (simp add: reach_start)
  from posix_sem_mirror_exact [OF this] show ?thesis by (simp add: new_posix_sem_def Let_def sint_small)
qed

text \<open>A deadline far in the future makes the multiplication of \<open>AbsTimespecToMicros\<close> overflow.\<close>

lemma posix_deadline_overflow: "AbsTimespecToMicros (Some (2 ^ 62, 0)) (Some (0, 0)) = None"
  by (simp add: AbsTimespecToMicros_def Let_def int64_def cdiv_pos)

end
