(* ===== verification/DateTime.thy ===== *)
theory DateTime
  imports Prelude
begin

text \<open>
  Dates and times, \<open>src/common/dateTime.cpp\<close> and \<open>dateTime.h\<close>: conversion between the calendar and Julian
  day numbers, times of a day, arithmetic, comparison and formatting. An \<open>Exit\<close> stands for an \<open>EXIT_IF\<close> or
  for a signed overflow, which is undefined. The formatting of decimal numbers belongs to the library fmt:
  the argument \<open>fmt\<close> gives the text of a number with at least so many digits. \<open>FromMacros\<close>, \<open>FromSystem\<close>
  and the conversion to a floating-point Unix time are not modelled.
\<close>

section \<open>Calendar\<close>

datatype Date = Date (m_jd: int)
datatype Time = Time (m_ms: int)
record DateTime =
  m_date :: Date
  m_time :: Time

definition DATE_JD_INVALID :: int where "DATE_JD_INVALID = - (2 ^ 31)"
definition TIME_MS_INVALID :: int where "TIME_MS_INVALID = - 1"
definition TIME_MS_IN_DAY :: int where "TIME_MS_IN_DAY = 24 * 3600 * 1000"

definition FloorDiv :: "int \<Rightarrow> int \<Rightarrow> int" where
  "FloorDiv a b =
    (if b < 0 \<and> a < 0 then cdiv a b
     else let b1 = (if b < 0 then - b else b);
              a1 = (if b < 0 then - a else a)
          in cdiv (a1 - (if a1 < 0 then b1 - 1 else 0)) b1)"

definition YmdToJd :: "int \<Rightarrow> int \<Rightarrow> int \<Rightarrow> int outcome" where
  "YmdToJd year month day =
    (let t_year = (if year < 0 then year + 1 else year);
         a = FloorDiv (14 - month) 12;
         y = t_year + 4800 - a;
         m = month + 12 * a - 3;
         s1 = day + FloorDiv (153 * m + 2) 5;
         s2 = s1 + 365 * y;
         s3 = s2 + FloorDiv y 4;
         s4 = s3 - FloorDiv y 100;
         s5 = s4 + FloorDiv y 400;
         jd = s5 - 32045
     in if list_all int32 [t_year + 4800, y, 365 * y, s2, s3, s4, s5, jd] then Done jd else Exit)"

definition JdToYmd :: "int \<Rightarrow> (int \<times> int \<times> int) outcome" where
  "JdToYmd jd =
    (let a = jd + 32044;
         b = FloorDiv (4 * a + 3) 146097;
         c = a - FloorDiv (146097 * b) 4;
         d = FloorDiv (4 * c + 3) 1461;
         e = c - FloorDiv (1461 * d) 4;
         m = FloorDiv (5 * e + 2) 153;
         t_day = e - FloorDiv (153 * m + 2) 5 + 1;
         t_month = m + 3 - 12 * FloorDiv m 10;
         t_year = 100 * b + d - 4800 + FloorDiv m 10
     in if list_all int32 [a, 4 * a, 4 * a + 3, 146097 * b]
        then Done (if t_year \<le> 0 then t_year - 1 else t_year, t_month, t_day) else Exit)"

section \<open>Dates\<close>

definition IsLeapYearOf :: "int \<Rightarrow> bool" where
  "IsLeapYearOf year =
    (let year = (if year < 1 then year + 1 else year)
     in (cmod year 4 = 0 \<and> cmod year 100 \<noteq> 0) \<or> cmod year 400 = 0)"

definition DaysInMonthOf :: "int \<Rightarrow> int" where
  "DaysInMonthOf month =
    (let month = (if month < 1 \<or> 12 < month then 0 else month)
     in [0, 31, 28, 31, 30, 31, 30, 31, 31, 30, 31, 30, 31] ! nat month)"

definition DaysInYearOf :: "int \<Rightarrow> int" where
  "DaysInYearOf year = (if IsLeapYearOf year then 366 else 365)"

definition Date_IsValid :: "int \<Rightarrow> int \<Rightarrow> int \<Rightarrow> bool" where
  "Date_IsValid year month day =
    (if year = 0 then False
     else 1 \<le> day \<and> (day \<le> DaysInMonthOf month \<or> (day = 29 \<and> month = 2 \<and> IsLeapYearOf year)))"

definition Date_IsInvalid :: "Date \<Rightarrow> bool" where
  "Date_IsInvalid d \<longleftrightarrow> m_jd d = DATE_JD_INVALID"

definition Date_Set :: "int \<Rightarrow> int \<Rightarrow> int \<Rightarrow> Date outcome" where
  "Date_Set year month day =
    (if Date_IsValid year month day then obind (YmdToJd year month day) (\<lambda>jd. Done (Date jd))
     else Done (Date DATE_JD_INVALID))"

definition Date_Get :: "Date \<Rightarrow> (int \<times> int \<times> int) outcome" where
  "Date_Get d = (if Date_IsInvalid d then Done (0, 0, 0) else JdToYmd (m_jd d))"

definition Year :: "Date \<Rightarrow> int outcome" where
  "Year d = (if Date_IsInvalid d then Done 0 else obind (JdToYmd (m_jd d)) (\<lambda>(year, _, _). Done year))"

definition Month :: "Date \<Rightarrow> int outcome" where
  "Month d = (if Date_IsInvalid d then Done 0 else obind (JdToYmd (m_jd d)) (\<lambda>(_, month, _). Done month))"

definition Day :: "Date \<Rightarrow> int outcome" where
  "Day d = (if Date_IsInvalid d then Done 0 else obind (JdToYmd (m_jd d)) (\<lambda>(_, _, day). Done day))"

definition DaysInMonth :: "Date \<Rightarrow> int outcome" where
  "DaysInMonth d =
    (if Date_IsInvalid d then Done 0
     else obind (JdToYmd (m_jd d)) (\<lambda>(year, month, _).
       if month = 2 \<and> IsLeapYearOf year then Done 29 else Done (DaysInMonthOf month)))"

definition IsLeapYear :: "Date \<Rightarrow> bool outcome" where
  "IsLeapYear d =
    (if Date_IsInvalid d then Done False
     else obind (JdToYmd (m_jd d)) (\<lambda>(year, _, _). Done (IsLeapYearOf year)))"

definition DaysInYear :: "Date \<Rightarrow> int outcome" where
  "DaysInYear d =
    (if Date_IsInvalid d then Done 0 else obind (IsLeapYear d) (\<lambda>l. Done (if l then 366 else 365)))"

definition DayOfWeek :: "Date \<Rightarrow> int" where
  "DayOfWeek d =
    (if Date_IsInvalid d then 0
     else if 0 \<le> m_jd d then cmod (m_jd d) 7 + 1
     else cmod (m_jd d + 1) 7 + 7)"

definition DayOfYear :: "Date \<Rightarrow> int outcome" where
  "DayOfYear d =
    (if Date_IsInvalid d then Done 0
     else obind (Year d) (\<lambda>y. obind (YmdToJd y 1 1) (\<lambda>d1. Done (m_jd d - d1 + 1))))"

definition QuarterOfYear :: "Date \<Rightarrow> int outcome" where
  "QuarterOfYear d =
    (if Date_IsInvalid d then Done 0 else obind (Month d) (\<lambda>m. Done (cdiv (m - 1) 3 + 1)))"

definition Date_plus :: "Date \<Rightarrow> int \<Rightarrow> Date outcome" where
  "Date_plus d days = (if int32 (m_jd d + days) then Done (Date (m_jd d + days)) else Exit)"

definition Date_minus :: "Date \<Rightarrow> int \<Rightarrow> Date outcome" where
  "Date_minus d days = (if int32 (m_jd d - days) then Done (Date (m_jd d - days)) else Exit)"

section \<open>Times\<close>

definition HmsToMs :: "int \<Rightarrow> int \<Rightarrow> int \<Rightarrow> int \<Rightarrow> int" where
  "HmsToMs hour minute second msec = hour * 60 * 60 * 1000 + minute * 60 * 1000 + second * 1000 + msec"

definition MsToHms :: "int \<Rightarrow> int \<times> int \<times> int \<times> int" where
  "MsToHms ms =
    (cdiv ms (60 * 60 * 1000), cdiv (cmod ms (60 * 60 * 1000)) (60 * 1000), cmod (cdiv ms 1000) 60, cmod ms 1000)"

definition Time_of_ms :: "int \<Rightarrow> Time" where
  "Time_of_ms msec = (if msec < 0 \<or> TIME_MS_IN_DAY \<le> msec then Time TIME_MS_INVALID else Time msec)"

definition Time_IsValid :: "int \<Rightarrow> int \<Rightarrow> int \<Rightarrow> int \<Rightarrow> bool" where
  "Time_IsValid hour minute second msec \<longleftrightarrow>
     (0 \<le> hour \<and> hour \<le> 23) \<and> (0 \<le> minute \<and> minute \<le> 59) \<and> (0 \<le> second \<and> second \<le> 59) \<and> (0 \<le> msec \<and> msec \<le> 999)"

definition Time_IsInvalid :: "Time \<Rightarrow> bool" where
  "Time_IsInvalid t \<longleftrightarrow> m_ms t < 0 \<or> TIME_MS_IN_DAY \<le> m_ms t"

definition Time_Set :: "int \<Rightarrow> int \<Rightarrow> int \<Rightarrow> int \<Rightarrow> Time" where
  "Time_Set hour minute second msec =
    (if Time_IsValid hour minute second msec then Time (HmsToMs hour minute second msec) else Time TIME_MS_INVALID)"

definition Time_Get :: "Time \<Rightarrow> int \<times> int \<times> int \<times> int" where
  "Time_Get t = (if Time_IsInvalid t then (- 1, - 1, - 1, - 1) else MsToHms (m_ms t))"

definition Hour24 :: "Time \<Rightarrow> int" where
  "Hour24 t = (if Time_IsInvalid t then - 1 else fst (MsToHms (m_ms t)))"

definition Hour12 :: "Time \<Rightarrow> int" where
  "Hour12 t = (if Time_IsInvalid t then - 1
     else let h = cmod (fst (MsToHms (m_ms t))) 12 in if h = 0 then 12 else h)"

definition Minute :: "Time \<Rightarrow> int" where
  "Minute t = (if Time_IsInvalid t then - 1 else fst (snd (MsToHms (m_ms t))))"

definition Second :: "Time \<Rightarrow> int" where
  "Second t = (if Time_IsInvalid t then - 1 else fst (snd (snd (MsToHms (m_ms t)))))"

definition Msec :: "Time \<Rightarrow> int" where
  "Msec t = (if Time_IsInvalid t then - 1 else snd (snd (snd (MsToHms (m_ms t)))))"

definition IsAM :: "Time \<Rightarrow> bool" where
  "IsAM t = (if Time_IsInvalid t then False else fst (MsToHms (m_ms t)) < 12)"

definition IsPM :: "Time \<Rightarrow> bool" where
  "IsPM t = (if Time_IsInvalid t then False else 12 \<le> fst (MsToHms (m_ms t)))"

definition wrap_day :: "int \<Rightarrow> int" where
  "wrap_day r =
    (let r1 = (if r < 0 then r + TIME_MS_IN_DAY else r)
     in if TIME_MS_IN_DAY \<le> r1 then r1 - TIME_MS_IN_DAY else r1)"

definition Time_plus :: "Time \<Rightarrow> int \<Rightarrow> Time outcome" where
  "Time_plus t secs =
    (let ms_secs = secs * 1000
     in if \<not> int32 ms_secs \<or> TIME_MS_IN_DAY < ms_secs \<or> ms_secs < - TIME_MS_IN_DAY then Exit
        else if Time_IsInvalid t then Done (Time TIME_MS_INVALID)
        else Done (Time_of_ms (wrap_day (m_ms t + ms_secs))))"

definition Time_minus :: "Time \<Rightarrow> int \<Rightarrow> Time outcome" where
  "Time_minus t secs =
    (let ms_secs = secs * 1000
     in if \<not> int32 ms_secs \<or> TIME_MS_IN_DAY < ms_secs \<or> ms_secs < - TIME_MS_IN_DAY then Exit
        else if Time_IsInvalid t then Done (Time TIME_MS_INVALID)
        else Done (Time_of_ms (wrap_day (m_ms t - ms_secs))))"

text \<open>The operators that change the time in place leave an invalid time alone.\<close>

definition Time_plus_assign :: "Time \<Rightarrow> int \<Rightarrow> Time outcome" where
  "Time_plus_assign t secs =
    (let ms_secs = secs * 1000
     in if \<not> int32 ms_secs \<or> TIME_MS_IN_DAY < ms_secs \<or> ms_secs < - TIME_MS_IN_DAY then Exit
        else if \<not> Time_IsInvalid t then Done (Time (wrap_day (m_ms t + ms_secs))) else Done t)"

definition Time_minus_assign :: "Time \<Rightarrow> int \<Rightarrow> Time outcome" where
  "Time_minus_assign t secs =
    (let ms_secs = secs * 1000
     in if \<not> int32 ms_secs \<or> TIME_MS_IN_DAY < ms_secs \<or> ms_secs < - TIME_MS_IN_DAY then Exit
        else if \<not> Time_IsInvalid t then Done (Time (wrap_day (m_ms t - ms_secs))) else Done t)"

section \<open>Comparison\<close>

text \<open>The comparison operators of the classes are instances of the linear orders of the library.\<close>

instantiation Date :: linorder
begin

definition less_eq_Date :: "Date \<Rightarrow> Date \<Rightarrow> bool" where "less_eq_Date a b \<longleftrightarrow> m_jd a \<le> m_jd b"
definition less_Date :: "Date \<Rightarrow> Date \<Rightarrow> bool" where "less_Date a b \<longleftrightarrow> m_jd a < m_jd b"

instance
  by standard (auto simp: less_eq_Date_def less_Date_def intro: Date.expand)

end

instantiation Time :: linorder
begin

definition less_eq_Time :: "Time \<Rightarrow> Time \<Rightarrow> bool" where "less_eq_Time a b \<longleftrightarrow> m_ms a \<le> m_ms b"
definition less_Time :: "Time \<Rightarrow> Time \<Rightarrow> bool" where "less_Time a b \<longleftrightarrow> m_ms a < m_ms b"

instance
  by standard (auto simp: less_eq_Time_def less_Time_def intro: Time.expand)

end

definition DateTime_IsInvalid :: "DateTime \<Rightarrow> bool" where
  "DateTime_IsInvalid dt \<longleftrightarrow> Date_IsInvalid (m_date dt) \<or> Time_IsInvalid (m_time dt)"

definition DateTime_less :: "DateTime \<Rightarrow> DateTime \<Rightarrow> bool" where
  "DateTime_less a b \<longleftrightarrow> m_date a < m_date b \<or> (m_date a = m_date b \<and> m_time a < m_time b)"

section \<open>Formatting\<close>

text \<open>\<open>f\<close> is the format from the current index on; the result is how far the index moves beyond the usual
  step, and the text that is appended.\<close>

definition at :: "string \<Rightarrow> string \<Rightarrow> bool" where
  "at f pat \<longleftrightarrow> take (length pat) f = pat"

definition Mid :: "string \<Rightarrow> nat \<Rightarrow> string" where
  "Mid text first = (if length text \<le> first then [] else drop first text)"

definition month_short :: "string list" where
  "month_short = [''Jan'', ''Feb'', ''Mar'', ''Apr'', ''May'', ''Jun'', ''Jul'', ''Aug'', ''Sep'', ''Oct'', ''Nov'', ''Dec'']"

definition month_long :: "string list" where
  "month_long = [''January'', ''February'', ''March'', ''April'', ''May'', ''June'', ''July'', ''August'',
    ''September'', ''October'', ''November'', ''December'']"

definition day_short :: "string list" where
  "day_short = [''Mon'', ''Tue'', ''Wed'', ''Thu'', ''Fri'', ''Sat'', ''Sun'']"

definition day_long :: "string list" where
  "day_long = [''Monday'', ''Tuesday'', ''Wednesday'', ''Thursday'', ''Friday'', ''Saturday'', ''Sunday'']"

definition year_text :: "(nat \<Rightarrow> int \<Rightarrow> string) \<Rightarrow> Date \<Rightarrow> string outcome" where
  "year_text fmt d = obind (Year d) (\<lambda>y. if y < 0 \<or> 9999 < y then Exit else Done (fmt 4 y))"

definition FormatDate :: "(nat \<Rightarrow> int \<Rightarrow> string) \<Rightarrow> Date \<Rightarrow> string \<Rightarrow> (nat \<times> string) option outcome" where
  "FormatDate fmt d f =
    (if at f ''YYYY'' then obind (year_text fmt d) (\<lambda>y. Done (Some (3, y)))
     else if at f ''YYY'' then obind (year_text fmt d) (\<lambda>y. Done (Some (2, Mid y 1)))
     else if at f ''YY'' then obind (year_text fmt d) (\<lambda>y. Done (Some (1, Mid y 2)))
     else if at f ''Y'' then obind (year_text fmt d) (\<lambda>y. Done (Some (0, Mid y 3)))
     else if at f ''Q'' then obind (QuarterOfYear d) (\<lambda>q. Done (Some (0, fmt 0 q)))
     else if at f ''MM'' then obind (Month d) (\<lambda>m. Done (Some (1, fmt 2 m)))
     else if at f ''MONTH'' then obind (Month d) (\<lambda>m. Done (Some (4, month_long ! nat (m - 1))))
     else if at f ''MON'' then obind (Month d) (\<lambda>m. Done (Some (2, month_short ! nat (m - 1))))
     else if at f ''DDD'' then obind (DayOfYear d) (\<lambda>n. Done (Some (2, fmt 3 n)))
     else if at f ''DD'' then obind (Day d) (\<lambda>n. Done (Some (1, fmt 2 n)))
     else if at f ''DY'' then Done (Some (1, day_short ! nat (DayOfWeek d - 1)))
     else if at f ''DAY'' then Done (Some (2, day_long ! nat (DayOfWeek d - 1)))
     else if at f ''D'' then Done (Some (0, fmt 0 (DayOfWeek d)))
     else if at f ''J'' then Done (Some (0, fmt 0 (m_jd d)))
     else Done None)"

definition FormatTime :: "(nat \<Rightarrow> int \<Rightarrow> string) \<Rightarrow> Time \<Rightarrow> string \<Rightarrow> (nat \<times> string) option" where
  "FormatTime fmt t f =
    (if at f ''HH24'' then Some (3, fmt 2 (Hour24 t))
     else if at f ''HH12'' then Some (3, fmt 2 (Hour12 t))
     else if at f ''HH'' then Some (1, fmt 2 (Hour12 t))
     else if at f ''MI'' then Some (1, fmt 2 (Minute t))
     else if at f ''SSSSS'' then Some (4, fmt 5 (cdiv (m_ms t) 1000))
     else if at f ''SS'' then Some (1, fmt 2 (Second t))
     else if at f ''FFF'' then Some (2, fmt 3 (Msec t))
     else if at f ''AM'' then Some (1, if IsAM t then ''AM'' else ''PM'')
     else if at f ''A.M.'' then Some (3, if IsAM t then ''A.M.'' else ''P.M.'')
     else None)"

text \<open>The loop over the format; \<open>field\<close> formats at the current position or declines.\<close>

function format_loop :: "(string \<Rightarrow> (nat \<times> string) option outcome) \<Rightarrow> string \<Rightarrow> string outcome" where
  "format_loop field [] = Done []"
| "format_loop field (c # cs) =
    (case field (c # cs) of
       Exit \<Rightarrow> Exit
     | Done None \<Rightarrow> obind (format_loop field cs) (\<lambda>r. Done (c # r))
     | Done (Some (k, t)) \<Rightarrow> obind (format_loop field (drop k cs)) (\<lambda>r. Done (t @ r)))"
  by pat_completeness auto
termination by (relation "measure (length o snd)") auto

definition Date_ToString :: "(nat \<Rightarrow> int \<Rightarrow> string) \<Rightarrow> Date \<Rightarrow> string \<Rightarrow> string outcome" where
  "Date_ToString fmt d f = (if Date_IsInvalid d then Done [] else format_loop (FormatDate fmt d) f)"

definition Time_ToString :: "(nat \<Rightarrow> int \<Rightarrow> string) \<Rightarrow> Time \<Rightarrow> string \<Rightarrow> string outcome" where
  "Time_ToString fmt t f = (if Time_IsInvalid t then Done [] else format_loop (\<lambda>x. Done (FormatTime fmt t x)) f)"

definition DateTime_ToString :: "(nat \<Rightarrow> int \<Rightarrow> string) \<Rightarrow> DateTime \<Rightarrow> string \<Rightarrow> string outcome" where
  "DateTime_ToString fmt dt f =
    (if DateTime_IsInvalid dt then Done []
     else format_loop (\<lambda>x. obind (FormatDate fmt (m_date dt) x) (\<lambda>r. case r of
       Some p \<Rightarrow> Done (Some p)
     | None \<Rightarrow> Done (FormatTime fmt (m_time dt) x))) f)"

end
