(* ===== verification/DateTimeProps.thy ===== *)
theory DateTimeProps
  imports DateTime
begin

text \<open>
  Properties of dates and times: the conversions are inverse to each other, the order of dates is the
  order of the calendar, and arithmetic on times is arithmetic modulo a day.
\<close>

section \<open>Division\<close>

lemma div_int_eq: "0 \<le> x - n * q \<Longrightarrow> x - n * q < n \<Longrightarrow> x div n = q" for x n q :: int
  by (intro int_div_pos_eq [of x n q "x - n * q"]) simp_all

lemma FloorDiv_div: "0 < b \<Longrightarrow> FloorDiv a b = a div b"
proof (cases "a < 0")
  case True
  assume b: "0 < b"
  have "- a + (b - 1) = b * ((- a + (b - 1)) div b) + (- a + (b - 1)) mod b" by simp
  moreover have "0 \<le> (- a + (b - 1)) mod b" "(- a + (b - 1)) mod b < b" using b by simp_all
  ultimately have "a div b = - ((- a + (b - 1)) div b)"
    by (intro div_int_eq) (simp_all add: algebra_simps)
  moreover have "\<bar>a - (b - 1)\<bar> = - a + (b - 1)" using True b by simp
  moreover have "sgn (a - (b - 1)) = - 1" using True b by simp
  ultimately show ?thesis using True b by (simp add: FloorDiv_def cdiv_def Let_def)
qed (simp add: FloorDiv_def cdiv_pos Let_def)

section \<open>Julian days\<close>

text \<open>
  The calendar counts from March: \<open>y\<close> is the year that begins in March, \<open>m\<close> its month from 0 to 11, and
  \<open>march_day\<close> the number of the day in that year. In its last month, February, the year has 29 days when the
  next calendar year is a leap year.
\<close>

definition march_day :: "int \<Rightarrow> int \<Rightarrow> int" where
  "march_day m d = (153 * m + 2) div 5 + d - 1"

definition day_number :: "int \<Rightarrow> int \<Rightarrow> int" where
  "day_number y e = 365 * y + y div 4 - y div 100 + y div 400 + e"

definition leap :: "int \<Rightarrow> bool" where
  "leap y \<longleftrightarrow> (4 dvd y \<and> \<not> 100 dvd y) \<or> 400 dvd y"

definition month_days :: "int \<Rightarrow> int \<Rightarrow> int" where
  "month_days y m = (if m = 11 then if leap (y + 1) then 29 else 28 else if m \<in> {1, 3, 6, 8} then 30 else 31)"

lemma month_cases: "0 \<le> m \<Longrightarrow> m \<le> 11 \<Longrightarrow>
  m = 0 \<or> m = 1 \<or> m = 2 \<or> m = 3 \<or> m = 4 \<or> m = 5 \<or> m = 6 \<or> m = 7 \<or> m = 8 \<or> m = 9 \<or> m = 10 \<or> m = 11" for m :: int
  by presburger

lemma march_day_bounds:
  assumes "0 \<le> m" "m \<le> 11" "1 \<le> d" "d \<le> month_days y m"
  shows "0 \<le> march_day m d" "march_day m d \<le> (if leap (y + 1) then 365 else 364)"
    "(5 * march_day m d + 2) div 153 = m"
  using month_cases [OF assms(1,2)] assms(3,4)
  by (auto simp: march_day_def month_days_def split: if_splits)

text \<open>Centuries, years and days of a day number.\<close>

lemma day_number_split:
  assumes "0 \<le> e" "e \<le> (if leap (y + 1) then 365 else 364)"
  defines "a \<equiv> day_number y e"
  defines "c \<equiv> a - 146097 * (y div 100) div 4"
  shows "(4 * a + 3) div 146097 = y div 100" "(4 * c + 3) div 1461 = y mod 100"
    "c - 1461 * (y mod 100) div 4 = e"
proof -
  define q r where "q = y div 100" and "r = y mod 100"
  have y: "y = 100 * q + r" "0 \<le> r" "r < 100" by (simp_all add: q_def r_def)
  define k j where "k = q div 4" and "j = q mod 4"
  have q: "q = 4 * k + j" "0 \<le> j" "j < 4" by (simp_all add: k_def j_def)
  define u v where "u = r div 4" and "v = r mod 4"
  have r: "r = 4 * u + v" "0 \<le> v" "v < 4" "0 \<le> u" using y(2) by (simp_all add: u_def v_def)
  have "y div 4 = 25 * q + u" using y(1) r by (intro div_int_eq) simp_all
  moreover have "y div 400 = k" using y q by (intro div_int_eq) simp_all
  ultimately have a: "a = 36524 * q + k + 365 * r + u + e" unfolding a_def day_number_def q_def [symmetric]
    using y(1) by linarith
  have "146097 * q div 4 = 36524 * q + k" using q by (intro div_int_eq) simp_all
  then have c: "c = 365 * r + u + e" by (simp add: c_def q_def [symmetric] a)
  have e: "e \<le> 365" using assms(2) by (simp split: if_splits)
  have l: "v = 3 \<and> (r = 99 \<longrightarrow> j = 3)" if "e = 365"
  proof -
    have "leap (y + 1)" using that assms(2) by (simp split: if_splits)
    then have "4 dvd y + 1" unfolding leap_def by (auto intro: dvd_trans [of 4 400])
    then have "v = 3" using y(1) r by presburger
    moreover have "j = 3" if "r = 99"
    proof -
      have y1: "y + 1 = 100 * (q + 1)" using y(1) that by simp
      then have "100 dvd y + 1" by simp
      then have "400 dvd y + 1" using \<open>leap (y + 1)\<close> by (simp add: leap_def)
      then obtain z where "y + 1 = 400 * z" by (auto elim: dvdE)
      then have "4 * k + j + 1 = 4 * z" using y1 q(1) by presburger
      then show "j = 3" using q(2,3) by presburger
    qed
    ultimately show ?thesis by blast
  qed
  have u24: "u \<le> 24" using r(1,2) y(3) by presburger
  have "0 \<le> 4 * a + 3 - 146097 * q" using a q(1,3) r(4) y(2) assms(1) by linarith
  moreover have "4 * a + 3 - 146097 * q < 146097"
  proof (cases "e = 365 \<and> r = 99")
    case True
    then have "j = 3" using l by blast
    then show ?thesis using a q(1) u24 y(3) e by linarith
  next
    case False
    then have "1460 * r + 4 * e \<le> 1460 * 99 + 4 * 364 \<or> r \<le> 98" using e y(3) by linarith
    then show ?thesis using a q(1,2) u24 y(3) e by linarith
  qed
  ultimately show "(4 * a + 3) div 146097 = y div 100" unfolding q_def [symmetric] by (intro div_int_eq)
  have "0 \<le> 4 * c + 3 - 1461 * r" using c r assms(1) by linarith
  moreover have "4 * c + 3 - 1461 * r < 1461"
  proof (cases "e = 365")
    case True
    then show ?thesis using l c r by linarith
  next
    case False
    then show ?thesis using e c r by linarith
  qed
  ultimately show "(4 * c + 3) div 1461 = y mod 100" unfolding r_def [symmetric] by (intro div_int_eq)
  have "1461 * r div 4 = 365 * r + u" using r by (intro div_int_eq) simp_all
  then show "c - 1461 * (y mod 100) div 4 = e" unfolding r_def [symmetric] using c by simp
qed

lemma div_bounds: "0 < n \<Longrightarrow> n * (x div n) \<le> x \<and> x < n * (x div n) + n" for x n :: int
  using mult_div_mod_eq [of n x] pos_mod_sign [of n x] pos_mod_bound [of n x] by linarith

text \<open>The year as a plain integer, without the gap at zero, and the year and month counted from March.\<close>

definition plain_year :: "int \<Rightarrow> int" where
  "plain_year y = (if y < 0 then y + 1 else y)"

definition march_year :: "int \<Rightarrow> int \<Rightarrow> int" where
  "march_year y m = plain_year y + 4800 - (if m \<le> 2 then 1 else 0)"

definition march_month :: "int \<Rightarrow> int" where
  "march_month m = (if m \<le> 2 then m + 9 else m - 3)"

lemma leap_shift: "leap (x + 4800) = leap x"
proof -
  have "n dvd x + 4800 \<longleftrightarrow> n dvd x" if "n \<in> {4, 100, 400}" for n :: int
    using that by (intro dvd_add_left_iff) auto
  then show ?thesis by (simp add: leap_def)
qed

lemma IsLeapYearOf_leap: "y \<noteq> 0 \<Longrightarrow> IsLeapYearOf y = leap (plain_year y)"
  by (auto simp: IsLeapYearOf_def leap_def plain_year_def cmod_eq_0 Let_def)

lemma valid_month: "Date_IsValid y m d \<Longrightarrow> 1 \<le> m \<and> m \<le> 12"
  by (auto simp: Date_IsValid_def DaysInMonthOf_def Let_def not_less split: if_splits)

lemma valid_march:
  assumes "Date_IsValid y m d"
  shows "y \<noteq> 0" "0 \<le> march_month m" "march_month m \<le> 11" "1 \<le> d" "d \<le> month_days (march_year y m) (march_month m)"
proof -
  show y: "y \<noteq> 0" and "1 \<le> d" using assms by (auto simp: Date_IsValid_def split: if_splits)
  have m: "m = 1 \<or> m = 2 \<or> m = 3 \<or> m = 4 \<or> m = 5 \<or> m = 6 \<or> m = 7 \<or> m = 8 \<or> m = 9 \<or> m = 10 \<or> m = 11 \<or> m = 12"
    using valid_month [OF assms] by presburger
  then show "0 \<le> march_month m" "march_month m \<le> 11" by (auto simp: march_month_def)
  have l: "leap (march_year y 2 + 1) = IsLeapYearOf y"
    using leap_shift [of "plain_year y"] IsLeapYearOf_leap [OF y] by (simp add: march_year_def add.commute)
  have dd: "d \<le> DaysInMonthOf m \<or> (d = 29 \<and> m = 2 \<and> IsLeapYearOf y)"
    using assms by (auto simp: Date_IsValid_def split: if_splits)
  show "d \<le> month_days (march_year y m) (march_month m)"
    using m dd by (elim disjE) (auto simp: march_month_def month_days_def DaysInMonthOf_def l eval_nat_numeral)
qed

lemma YmdToJd_exact:
  assumes "1 \<le> m" "m \<le> 12" "1 \<le> d" "d \<le> 31" "- 1000000 \<le> y" "y \<le> 1000000"
  shows "YmdToJd y m d = Done (day_number (march_year y m) (march_day (march_month m) d) - 32044)"
proof -
  let ?y = "march_year y m"
  have a: "FloorDiv (14 - m) 12 = (if m \<le> 2 then 1 else 0)" 
  proof -
    have "(14 - m) div 12 = (if m \<le> 2 then 1 else 0)" using assms(1,2) by (auto intro!: div_int_eq)
    then show ?thesis by (simp add: FloorDiv_div)
  qed
  have mm: "m + 12 * (if m \<le> 2 then 1 else 0) - 3 = march_month m" by (simp add: march_month_def)
  have yb: "- 995201 \<le> ?y" "?y \<le> 1004800" using assms(5,6) by (auto simp: march_year_def plain_year_def)
  have mb: "0 \<le> march_month m" "march_month m \<le> 11" using assms(1,2) by (auto simp: march_month_def)
  have "0 \<le> (153 * march_month m + 2) div 5" "(153 * march_month m + 2) div 5 \<le> 337" using mb by simp_all
  moreover note div_bounds [of 4 ?y] div_bounds [of 100 ?y] div_bounds [of 400 ?y]
  moreover have "plain_year y + 4800 = ?y + (if m \<le> 2 then 1 else 0)" by (simp add: march_year_def)
  ultimately have l: "list_all int32
     [plain_year y + 4800, ?y, 365 * ?y, d + (153 * march_month m + 2) div 5 + 365 * ?y,
      d + (153 * march_month m + 2) div 5 + 365 * ?y + ?y div 4,
      d + (153 * march_month m + 2) div 5 + 365 * ?y + ?y div 4 - ?y div 100,
      d + (153 * march_month m + 2) div 5 + 365 * ?y + ?y div 4 - ?y div 100 + ?y div 400,
      d + (153 * march_month m + 2) div 5 + 365 * ?y + ?y div 4 - ?y div 100 + ?y div 400 - 32045]"
    unfolding list.pred_inject int32_def using yb assms(3,4) by (auto split: if_splits)
  have e: "d + (153 * march_month m + 2) div 5 + 365 * ?y + ?y div 4 - ?y div 100 + ?y div 400 - 32045 =
      day_number ?y (march_day (march_month m) d) - 32044" by (simp add: day_number_def march_day_def)
  show ?thesis
    unfolding YmdToJd_def Let_def a mm plain_year_def [symmetric] march_year_def [symmetric]
    by (simp only: FloorDiv_div [OF zero_less_numeral] l if_True) (simp only: e)
qed

lemma JdToYmd_exact:
  assumes "- 995201 \<le> y" "y \<le> 1004800" "0 \<le> m" "m \<le> 11" "1 \<le> d" "d \<le> month_days y m"
  shows "JdToYmd (day_number y (march_day m d) - 32044) =
    (let t = y - 4800 + (if 10 \<le> m then 1 else 0)
     in Done (if t \<le> 0 then t - 1 else t, if 10 \<le> m then m - 9 else m + 3, d))"
proof -
  note e = march_day_bounds [OF assms(3-6)]
  note s = day_number_split [OF e(1,2)]
  have m10: "m div 10 = (if 10 \<le> m then 1 else 0)" using assms(3,4) by (auto intro!: div_int_eq)
  have i: "int32 (day_number y (march_day m d))" "int32 (4 * day_number y (march_day m d))"
    "int32 (4 * day_number y (march_day m d) + 3)" "int32 (146097 * (y div 100))"
    using div_bounds [of 4 y] div_bounds [of 100 y] div_bounds [of 400 y] assms(1,2) e(1,2)
    unfolding int32_def day_number_def by (auto split: if_splits)
  have yd: "100 * (y div 100) + y mod 100 = y" by simp
  have dd: "march_day m d - (153 * m + 2) div 5 + 1 = d" by (simp add: march_day_def)
  have y: "100 * (y div 100) + y mod 100 - 4800 + (if 10 \<le> m then 1 else 0) = y - 4800 + (if 10 \<le> m then 1 else 0)"
    by (simp only: yd)
  have mm: "m + 3 - 12 * (if 10 \<le> m then 1 else 0) = (if 10 \<le> m then m - 9 else m + 3)" by simp
  show ?thesis
    unfolding JdToYmd_def Let_def diff_add_cancel FloorDiv_div [OF zero_less_numeral] s e(3) m10 dd y mm
    by (simp only: list.pred_inject i if_True simp_thms)
qed

lemma date_exact:
  assumes "Date_IsValid y m d" "- 1000000 \<le> y" "y \<le> 1000000"
  defines "jd \<equiv> day_number (march_year y m) (march_day (march_month m) d) - 32044"
  shows "YmdToJd y m d = Done jd" "JdToYmd jd = Done (y, m, d)" "int32 jd" "jd \<noteq> DATE_JD_INVALID"
proof -
  note v = valid_march [OF assms(1)]
  note mo = valid_month [OF assms(1)]
  have d31: "d \<le> 31" using v(5) by (simp add: month_days_def split: if_splits)
  show "YmdToJd y m d = Done jd" unfolding jd_def using YmdToJd_exact mo v(4) d31 assms(2,3) by blast
  have yb: "- 995201 \<le> march_year y m" "march_year y m \<le> 1004800"
    using assms(2,3) by (auto simp: march_year_def plain_year_def)
  show "JdToYmd jd = Done (y, m, d)"
    unfolding jd_def JdToYmd_exact [OF yb v(2,3,4,5)]
    using mo v(1) by (auto simp: march_month_def march_year_def plain_year_def Let_def)
  show "int32 jd" "jd \<noteq> DATE_JD_INVALID"
    using div_bounds [of 4 "march_year y m"] div_bounds [of 100 "march_year y m"] div_bounds [of 400 "march_year y m"]
      yb march_day_bounds(1,2) [OF v(2-5)]
    unfolding jd_def int32_def day_number_def DATE_JD_INVALID_def by (auto split: if_splits)
qed

section \<open>The order of the calendar\<close>

lemma div_succ: "0 < n \<Longrightarrow> (x + 1) div n = x div n + of_bool (n dvd x + 1)" for x n :: int
proof (cases "n dvd x + 1")
  case True
  assume n: "0 < n"
  obtain z where z: "x + 1 = n * z" using True by (auto elim: dvdE)
  then have "x = n * z - 1" by simp
  then have "x div n = z - 1" using n by (intro div_int_eq) (simp_all add: algebra_simps)
  then show ?thesis using z n True by simp
next
  case False
  assume n: "0 < n"
  have "(x + 1) mod n \<noteq> 0" using False by (simp add: dvd_eq_mod_eq_0)
  moreover have "0 \<le> (x + 1) mod n" "(x + 1) mod n < n" using n by simp_all
  ultimately have "0 < (x + 1) mod n" "(x + 1) mod n < n" by linarith+
  then have "x div n = (x + 1) div n"
    using minus_mult_div_eq_mod [of "x + 1" n] by (intro div_int_eq) linarith+
  then show ?thesis using False by simp
qed

lemma day_number_year: "day_number (y + 1) 0 = day_number y (if leap (y + 1) then 366 else 365)"
proof -
  have "400 dvd y + 1 \<Longrightarrow> 100 dvd y + 1" "100 dvd y + 1 \<Longrightarrow> 4 dvd y + 1"
    by (auto intro: dvd_trans [of 100 400] dvd_trans [of 4 100])
  then show ?thesis by (auto simp: day_number_def div_succ leap_def)
qed

lemma day_number_mono: "y \<le> y' \<Longrightarrow> day_number y 0 \<le> day_number y' 0"
proof (induction rule: int_ge_induct)
  case (step i)
  then show ?case unfolding day_number_year by (simp add: day_number_def split: if_splits)
qed simp

lemma day_number_less:
  assumes "y < y'" "e \<le> (if leap (y + 1) then 365 else 364)" "0 \<le> e'"
  shows "day_number y e < day_number y' e'"
proof -
  have "day_number y e < day_number (y + 1) 0" unfolding day_number_year using assms(2) by (simp add: day_number_def split: if_splits)
  also have "\<dots> \<le> day_number y' 0" using assms(1) by (intro day_number_mono) simp
  also have "\<dots> \<le> day_number y' e'" using assms(3) by (simp add: day_number_def)
  finally show ?thesis .
qed

lemma march_day_less:
  assumes "0 \<le> m" "m < m'" "m' \<le> 11" "d \<le> month_days y m" "1 \<le> d'"
  shows "march_day m d < march_day m' d'"
proof -
  have "m + 1 \<le> m'" using assms(2) by simp
  then have "(153 * (m + 1) + 2) div 5 \<le> (153 * m' + 2) div 5" by (intro zdiv_mono1) simp_all
  moreover have "(153 * m + 2) div 5 + d \<le> (153 * (m + 1) + 2) div 5"
    using month_cases [of m] assms(1-4) by (auto simp: month_days_def split: if_splits)
  ultimately show ?thesis using assms(5) by (simp add: march_day_def)
qed

definition calendar_less :: "int \<times> int \<times> int \<Rightarrow> int \<times> int \<times> int \<Rightarrow> bool" where
  "calendar_less a b = (case (a, b) of ((y, m, d), (y', m', d')) \<Rightarrow>
     y < y' \<or> (y = y' \<and> (m < m' \<or> (m = m' \<and> d < d'))))"

lemma jd_less:
  assumes "Date_IsValid y m d" "Date_IsValid y' m' d'" "calendar_less (y, m, d) (y', m', d')"
  shows "day_number (march_year y m) (march_day (march_month m) d) < day_number (march_year y' m') (march_day (march_month m') d')"
proof -
  note v = valid_march [OF assms(1)] and v' = valid_march [OF assms(2)]
  note e = march_day_bounds [OF v(2-5)] and e' = march_day_bounds [OF v'(2-5)]
  note mo = valid_month [OF assms(1)] valid_month [OF assms(2)]
  have "march_year y m < march_year y' m' \<or>
      (march_year y m = march_year y' m' \<and> (march_month m < march_month m' \<or> (march_month m = march_month m' \<and> d < d')))"
    using assms(3) mo v(1) v'(1)
    by (auto simp: calendar_less_def march_year_def march_month_def plain_year_def split: if_splits)
  then show ?thesis
  proof (elim disjE conjE)
    assume "march_year y m < march_year y' m'"
    then show ?thesis using e(2) e'(1) by (rule day_number_less)
  next
    assume "march_year y m = march_year y' m'" "march_month m < march_month m'"
    then show ?thesis using march_day_less [OF v(2) _ v'(3) v(5) v'(4)] by (simp add: day_number_def)
  next
    assume "march_year y m = march_year y' m'" "march_month m = march_month m'" "d < d'"
    then show ?thesis by (simp add: day_number_def march_day_def)
  qed
qed

text \<open>C36. Dates. Every valid date of the years from one million BC to one million AD gets a Julian day
  without an overflow, and reading the date back gives the same year, month and day.\<close>

theorem date_roundtrip:
  assumes "Date_IsValid y m d" and "- 1000000 \<le> y" "y \<le> 1000000"
  shows "\<exists>jd. Date_Set y m d = Done (Date jd) \<and> int32 jd \<and> Date_Get (Date jd) = Done (y, m, d)"
  using date_exact [OF assms] assms(1) by (auto simp: Date_Set_def Date_Get_def Date_IsInvalid_def)

lemma date_roundtrip_witness:
  "\<exists>jd. Date_Set 2024 2 29 = Done (Date jd) \<and> int32 jd \<and> Date_Get (Date jd) = Done (2024, 2, 29)"
  by (rule date_roundtrip) (simp_all add: Date_IsValid_def DaysInMonthOf_def IsLeapYearOf_def cmod_def cdiv_def Let_def)

text \<open>Order. The comparison of dates, which compares Julian days, is the order of the calendar: by year,
  then month, then day, also across the missing year zero.\<close>

lemma date_order:
  assumes "Date_IsValid y m d" "- 1000000 \<le> y" "y \<le> 1000000"
    and "Date_IsValid y' m' d'" "- 1000000 \<le> y'" "y' \<le> 1000000"
    and "Date_Set y m d = Done a" "Date_Set y' m' d' = Done b"
  shows "a < b \<longleftrightarrow> calendar_less (y, m, d) (y', m', d')"
proof -
  note x = date_exact [OF assms(1-3)] and x' = date_exact [OF assms(4-6)]
  have ab: "a = Date (day_number (march_year y m) (march_day (march_month m) d) - 32044)"
    "b = Date (day_number (march_year y' m') (march_day (march_month m') d') - 32044)"
    using assms(1,4,7,8) x(1) x'(1) by (auto simp: Date_Set_def)
  have "calendar_less (y, m, d) (y', m', d') \<or> (y, m, d) = (y', m', d') \<or> calendar_less (y', m', d') (y, m, d)"
    by (auto simp: calendar_less_def)
  then show ?thesis
    using jd_less [OF assms(1,4)] jd_less [OF assms(4,1)]
    by (elim disjE) (auto simp: ab less_Date_def calendar_less_def)
qed

lemma date_order_witness: "Date 1721425 < Date 1721426"
proof -
  have v: "Date_IsValid (- 1) 12 31" "Date_IsValid 1 1 1"
    by (simp_all add: Date_IsValid_def DaysInMonthOf_def Let_def)
  have s: "Date_Set (- 1) 12 31 = Done (Date 1721425)" "Date_Set 1 1 1 = Done (Date 1721426)"
    using v by (simp_all add: Date_Set_def YmdToJd_def Let_def FloorDiv_div int32_def)
  show ?thesis using date_order [OF v(1) _ _ v(2) _ _ s] by (simp add: calendar_less_def)
qed

section \<open>Times\<close>

lemma MsToHms_pos:
  "0 \<le> ms \<Longrightarrow> MsToHms ms = (ms div 3600000, ms mod 3600000 div 60000, ms div 1000 mod 60, ms mod 1000)"
  by (simp add: MsToHms_def cdiv_pos cmod_pos)

lemma wrap_day_mod:
  "- TIME_MS_IN_DAY \<le> r \<Longrightarrow> r < 2 * TIME_MS_IN_DAY \<Longrightarrow> wrap_day r = r mod TIME_MS_IN_DAY"
proof -
  assume r: "- TIME_MS_IN_DAY \<le> r" "r < 2 * TIME_MS_IN_DAY"
  have "wrap_day r = r - TIME_MS_IN_DAY * (r div TIME_MS_IN_DAY)"
  proof (cases "r < 0 \<or> TIME_MS_IN_DAY \<le> r")
    case True
    then show ?thesis
    proof
      assume n: "r < 0"
      then have "r div TIME_MS_IN_DAY = - 1" using r by (intro div_int_eq) simp_all
      then show ?thesis using n r by (simp add: wrap_day_def Let_def TIME_MS_IN_DAY_def)
    next
      assume n: "TIME_MS_IN_DAY \<le> r"
      then have "r div TIME_MS_IN_DAY = 1" using r by (intro div_int_eq) simp_all
      then show ?thesis using n r by (simp add: wrap_day_def Let_def TIME_MS_IN_DAY_def)
    qed
  next
    case False
    then have "r div TIME_MS_IN_DAY = 0" by (intro div_int_eq) simp_all
    then show ?thesis using False by (simp add: wrap_day_def Let_def)
  qed
  then show ?thesis by (simp add: minus_mult_div_eq_mod)
qed

text \<open>Times. Adding seconds to a time, at most a day forward or back, is addition modulo a day: the
  hour, minute, second and millisecond that are read back are those of the sum; a longer step ends the
  process.\<close>

lemma time_plus_exact:
  assumes "Time_IsValid h mi se ms"
  shows "Time_plus (Time_Set h mi se ms) secs =
    (if \<bar>secs\<bar> \<le> 86400
     then let r = (((h * 60 + mi) * 60 + se + secs) * 1000 + ms) mod 86400000
          in Done (Time_Set (r div 3600000) (r div 60000 mod 60) (r div 1000 mod 60) (r mod 1000))
     else Exit)"
proof (cases "\<bar>secs\<bar> \<le> 86400")
  case False
  then have "TIME_MS_IN_DAY < secs * 1000 \<or> secs * 1000 < - TIME_MS_IN_DAY" by (auto simp: TIME_MS_IN_DAY_def)
  then show ?thesis using False by (auto simp: Time_plus_def Let_def)
next
  case True
  let ?t = "h * 60 * 60 * 1000 + mi * 60 * 1000 + se * 1000 + ms"
  have t: "0 \<le> ?t" "?t < TIME_MS_IN_DAY" using assms by (auto simp: Time_IsValid_def TIME_MS_IN_DAY_def)
  have g: "\<not> (\<not> int32 (secs * 1000) \<or> TIME_MS_IN_DAY < secs * 1000 \<or> secs * 1000 < - TIME_MS_IN_DAY)"
    using True by (auto simp: int32_def TIME_MS_IN_DAY_def)
  define r where "r = (?t + secs * 1000) mod TIME_MS_IN_DAY"
  have rb: "0 \<le> r" "r < TIME_MS_IN_DAY" by (simp_all add: r_def TIME_MS_IN_DAY_def)
  have "wrap_day (?t + secs * 1000) = r"
    unfolding r_def using t g by (intro wrap_day_mod) (auto simp: TIME_MS_IN_DAY_def)
  then have p: "Time_plus (Time_Set h mi se ms) secs = Done (Time r)"
    using assms g t rb
    by (simp add: Time_plus_def Let_def Time_Set_def HmsToMs_def Time_IsInvalid_def Time_of_ms_def not_less not_le)
  have hr: "HmsToMs (r div 3600000) (r div 60000 mod 60) (r div 1000 mod 60) (r mod 1000) = r"
  proof -
    have "r = 1000 * (r div 1000) + r mod 1000" by simp
    moreover have "r div 1000 = 60 * (r div 60000) + r div 1000 mod 60"
      using mult_div_mod_eq [of 60 "r div 1000"] zdiv_zmult2_eq [of 60 r 1000] by simp
    moreover have "r div 60000 = 60 * (r div 3600000) + r div 60000 mod 60"
      using mult_div_mod_eq [of 60 "r div 60000"] zdiv_zmult2_eq [of 60 r 60000] by simp
    ultimately show ?thesis unfolding HmsToMs_def by linarith
  qed
  have v: "Time_IsValid (r div 3600000) (r div 60000 mod 60) (r div 1000 mod 60) (r mod 1000)"
  proof -
    have "0 \<le> r div 3600000" "0 \<le> r div 60000 mod 60" "0 \<le> r div 1000 mod 60" "0 \<le> r mod 1000"
      "r div 60000 mod 60 < 60" "r div 1000 mod 60 < 60" "r mod 1000 < 1000" using rb(1) by simp_all
    moreover have "r div 3600000 < 24" using div_bounds [of 3600000 r] rb(2) by (simp add: TIME_MS_IN_DAY_def)
    ultimately show ?thesis unfolding Time_IsValid_def by (intro conjI) linarith+
  qed
  have "?t + secs * 1000 = ((h * 60 + mi) * 60 + se + secs) * 1000 + ms" by (simp add: distrib_right)
  moreover have "TIME_MS_IN_DAY = 86400000" by (simp add: TIME_MS_IN_DAY_def)
  ultimately have r: "(((h * 60 + mi) * 60 + se + secs) * 1000 + ms) mod 86400000 = r" by (simp only: r_def)
  have s: "Time_Set (r div 3600000) (r div 60000 mod 60) (r div 1000 mod 60) (r mod 1000) = Time r"
    using v by (simp only: Time_Set_def hr if_True)
  show ?thesis unfolding p r Let_def s using True by (simp only: if_True)
qed

lemma time_plus_exact_witness: "Time_plus (Time_Set 23 59 50 7) 15 = Done (Time_Set 0 0 5 7)"
  using time_plus_exact [of 23 59 50 7 15] by (simp add: Time_IsValid_def Let_def)

end
