(* ===== verification/RangeSet.thy ===== *)
theory RangeSet
  imports Prelude
begin

text \<open>
  Sets of address ranges, \<open>src/graphics/host_gpu/rangeSet.h\<close>. The map from the beginning of a range to
  its end is a list of pairs in the order of the map; an iterator is a split of that list. \<open>End\<close> ends the
  process on an empty, null or wrapping range.
\<close>

type_synonym ranges = "(u64 \<times> u64) list"

definition range_End :: "u64 \<Rightarrow> u64 \<Rightarrow> u64 outcome" where
  "range_End address sz =
    (if address = 0 \<or> sz = 0 \<or> UINT64_MAX - address < sz then Exit else Done (address + sz))"

text \<open>\<open>lower_bound\<close>, then one step back when the range before satisfies the test on its end.\<close>

definition lower_split :: "(u64 \<Rightarrow> bool) \<Rightarrow> ranges \<Rightarrow> u64 \<Rightarrow> ranges \<times> ranges" where
  "lower_split test m address =
    (let before = takeWhile (\<lambda>r. fst r < address) m;
         after = dropWhile (\<lambda>r. fst r < address) m
     in if before \<noteq> [] \<and> test (snd (last before)) then (butlast before, last before # after) else (before, after))"

fun range_absorb :: "u64 \<Rightarrow> u64 \<Rightarrow> ranges \<Rightarrow> u64 \<times> u64 \<times> ranges" where
  "range_absorb bg stop [] = (bg, stop, [])"
| "range_absorb bg stop ((b, e) # it) =
    (if b \<le> stop then range_absorb (min bg b) (max stop e) it else (bg, stop, (b, e) # it))"

definition range_Add :: "ranges \<Rightarrow> u64 \<Rightarrow> u64 \<Rightarrow> ranges outcome" where
  "range_Add m address sz =
    obind (range_End address sz) (\<lambda>fin.
      case lower_split (\<lambda>e. address \<le> e) m address of (before, it) \<Rightarrow>
      case range_absorb address fin it of (bg, stop, rest) \<Rightarrow> Done (before @ (bg, stop) # rest))"

fun subtract_loop :: "u64 \<Rightarrow> u64 \<Rightarrow> ranges \<Rightarrow> ranges" where
  "subtract_loop address fin [] = []"
| "subtract_loop address fin ((bg, stop) # it) =
    (if bg < fin then
       (if bg < address then [(bg, address)] else []) @
       (if fin < stop then (fin, stop) # it else subtract_loop address fin it)
     else (bg, stop) # it)"

definition range_Subtract :: "ranges \<Rightarrow> u64 \<Rightarrow> u64 \<Rightarrow> ranges outcome" where
  "range_Subtract m address sz =
    obind (range_End address sz) (\<lambda>fin.
      case lower_split (\<lambda>e. address < e) m address of (before, it) \<Rightarrow> Done (before @ subtract_loop address fin it))"

text \<open>\<open>upper_bound\<close>.\<close>

definition upper_split :: "ranges \<Rightarrow> u64 \<Rightarrow> ranges \<times> ranges" where
  "upper_split m address = (takeWhile (\<lambda>r. fst r \<le> address) m, dropWhile (\<lambda>r. fst r \<le> address) m)"

definition range_Contains :: "ranges \<Rightarrow> u64 \<Rightarrow> u64 \<Rightarrow> bool outcome" where
  "range_Contains m address sz =
    obind (range_End address sz) (\<lambda>fin.
      case upper_split m address of (before, it) \<Rightarrow>
        Done (if before = [] then False else fst (last before) \<le> address \<and> fin \<le> snd (last before)))"

definition range_Intersects :: "ranges \<Rightarrow> u64 \<Rightarrow> u64 \<Rightarrow> bool outcome" where
  "range_Intersects m address sz =
    obind (range_End address sz) (\<lambda>fin.
      case upper_split m address of (before, it) \<Rightarrow>
        Done (if before \<noteq> [] \<and> address < snd (last before) then True else it \<noteq> [] \<and> fst (hd it) < fin))"

fun intersect_loop :: "u64 \<Rightarrow> u64 \<Rightarrow> ranges \<Rightarrow> (u64 \<times> u64) list" where
  "intersect_loop address fin [] = []"
| "intersect_loop address fin ((b, e) # it) =
    (if b < fin then
       (let bg = max address b; stop = min fin e
        in (if bg < stop then [(bg, stop - bg)] else []) @ intersect_loop address fin it)
     else [])"

text \<open>The ranges, address and size, that \<open>ForEachIntersection\<close> visits, which is what \<open>Intersections\<close> returns.\<close>

definition range_Intersections :: "ranges \<Rightarrow> u64 \<Rightarrow> u64 \<Rightarrow> (u64 \<times> u64) list outcome" where
  "range_Intersections m address sz =
    obind (range_End address sz) (\<lambda>fin.
      case upper_split m address of (before, it) \<Rightarrow>
        Done (intersect_loop address fin (if before = [] then it else last before # it)))"

definition range_Empty :: "ranges \<Rightarrow> bool" where
  "range_Empty m \<longleftrightarrow> m = []"

end
