(* ===== verification/RangeSetProps.thy ===== *)
theory RangeSetProps
  imports RangeSet
begin

text \<open>
  Range sets represent sets of addresses: the canonical form, in which ranges are sorted and do not
  touch, is kept, adding and subtracting are union and difference, and the queries are exact.
\<close>

section \<open>Canonical lists\<close>

definition addresses :: "ranges \<Rightarrow> u64 set" where
  "addresses m = (\<Union>r \<in> set m. {fst r..<snd r})"

definition canonical :: "ranges \<Rightarrow> bool" where
  "canonical m \<longleftrightarrow> sorted_wrt (\<lambda>r q. snd r < fst q) m \<and> (\<forall>r \<in> set m. fst r < snd r)"

lemma addresses_simps [simp]:
  "addresses [] = {}" "addresses (r # m) = {fst r..<snd r} \<union> addresses m" "addresses (m @ n) = addresses m \<union> addresses n"
  by (simp_all add: addresses_def)

lemma canonical_Nil [simp]: "canonical []"
  by (simp add: canonical_def)

lemma canonical_append:
  "canonical (m @ n) \<longleftrightarrow> canonical m \<and> canonical n \<and> (\<forall>r \<in> set m. \<forall>q \<in> set n. snd r < fst q)"
  unfolding canonical_def sorted_wrt_append by auto

lemma canonical_Cons:
  "canonical (r # m) \<longleftrightarrow> fst r < snd r \<and> (\<forall>q \<in> set m. snd r < fst q) \<and> canonical m"
  unfolding canonical_def by auto

lemma canonical_less: "canonical m \<Longrightarrow> r \<in> set m \<Longrightarrow> fst r < snd r"
  by (simp add: canonical_def)

lemma canonical_last: "canonical m \<Longrightarrow> r \<in> set m \<Longrightarrow> snd r \<le> snd (last m)"
proof -
  assume c: "canonical m" and r: "r \<in> set m"
  then have e: "butlast m @ [last m] = m" by (cases "m = []") simp_all
  have "r \<in> set (butlast m @ [last m])" using r unfolding e .
  then have o: "r = last m \<or> r \<in> set (butlast m)" by auto
  have "canonical (butlast m @ [last m])" using c unfolding e .
  then have l: "fst (last m) < snd (last m)" "\<forall>q \<in> set (butlast m). snd q < fst (last m)"
    by (simp_all add: canonical_append canonical_Cons)
  show ?thesis using o
  proof
    assume "r \<in> set (butlast m)"
    then have "snd r < fst (last m)" using l(2) by blast
    then show ?thesis using l(1) by simp
  qed simp
qed

lemma canonical_first: "canonical (q # m) \<Longrightarrow> r \<in> set m \<Longrightarrow> fst q < fst r"
  by (auto simp: canonical_Cons intro: less_trans)

text \<open>What the two ways of placing an iterator give.\<close>

lemma dropWhile_from:
  "canonical m \<Longrightarrow> r \<in> set (dropWhile (\<lambda>r. fst r < a) m) \<Longrightarrow> a \<le> fst r"
proof (induction m)
  case (Cons q m)
  then show ?case using canonical_first [OF Cons.prems(1), of r]
    by (cases "fst q < a") (auto simp: canonical_Cons intro: less_imp_le order_trans)
qed simp

lemma dropWhile_beyond:
  "canonical m \<Longrightarrow> r \<in> set (dropWhile (\<lambda>r. fst r \<le> a) m) \<Longrightarrow> a < fst r"
proof (induction m)
  case (Cons q m)
  then show ?case using canonical_first [OF Cons.prems(1), of r]
    by (cases "fst q \<le> a") (auto simp: canonical_Cons intro: less_trans)
qed simp

lemma lower_split_spec:
  assumes "canonical m" "lower_split test m a = (before, it)"
    and t: "\<And>e. e < a \<Longrightarrow> \<not> test e" "\<And>e e'. e \<le> e' \<Longrightarrow> test e \<Longrightarrow> test e'"
  shows "m = before @ it" "\<forall>r \<in> set before. fst r < a \<and> \<not> test (snd r)"
    "\<forall>r \<in> set it. a \<le> fst r \<or> test (snd r)"
proof -
  define bs where "bs = takeWhile (\<lambda>r. fst r < a) m"
  define as where "as = dropWhile (\<lambda>r. fst r < a) m"
  have m: "m = bs @ as" by (simp add: bs_def as_def)
  have b: "fst r < a" if "r \<in> set bs" for r using that by (auto simp: bs_def dest: set_takeWhileD)
  have a: "a \<le> fst r" if "r \<in> set as" for r using that dropWhile_from [OF assms(1)] by (simp add: as_def)
  have c: "canonical bs" using assms(1) by (simp add: m canonical_append)
  have "m = before @ it \<and> (\<forall>r \<in> set before. fst r < a \<and> \<not> test (snd r)) \<and> (\<forall>r \<in> set it. a \<le> fst r \<or> test (snd r))"
  proof (cases "bs \<noteq> [] \<and> test (snd (last bs))")
    case True
    then have s: "before = butlast bs" "it = last bs # as" using assms(2) by (simp_all add: lower_split_def Let_def bs_def as_def)
    have e: "bs = butlast bs @ [last bs]" using True by simp
    have "\<forall>r \<in> set (butlast bs). snd r < fst (last bs)" using c canonical_append [of "butlast bs" "[last bs]"] e by simp
    moreover have "fst (last bs) < a" using True b by simp
    ultimately have "\<forall>r \<in> set before. fst r < a \<and> \<not> test (snd r)"
      unfolding s using b t(1) by (blast intro: less_trans dest: in_set_butlastD)
    moreover have "m = before @ it" unfolding m s using e by (metis append.assoc append_Cons append_Nil)
    ultimately show ?thesis using True a by (simp add: s)
  next
    case False
    then have s: "before = bs" "it = as" using assms(2) by (auto simp: lower_split_def Let_def bs_def as_def split: if_splits)
    have "\<not> test (snd r)" if r: "r \<in> set bs" for r
    proof
      assume "test (snd r)"
      then have "test (snd (last bs))" using t(2) canonical_last [OF c r] by blast
      then show False using False r by auto
    qed
    then show ?thesis using b a m unfolding s by blast
  qed
  then show "m = before @ it" "\<forall>r \<in> set before. fst r < a \<and> \<not> test (snd r)"
    "\<forall>r \<in> set it. a \<le> fst r \<or> test (snd r)" by blast+
qed

section \<open>Adding\<close>

lemma absorb_spec:
  "\<forall>r \<in> set it. b \<le> snd r \<Longrightarrow> canonical it \<Longrightarrow> b < e \<Longrightarrow> range_absorb b e it = (b', e', it') \<Longrightarrow>
   canonical ((b', e') # it') \<and> {b'..<e'} \<union> addresses it' = {b..<e} \<union> addresses it \<and> (b' = b \<or> b' \<in> fst ` set it)"
proof (induction b e it rule: range_absorb.induct)
  case (2 b e x y it)
  have xy: "x < y" "canonical it" "\<forall>q \<in> set it. y < fst q" using "2.prems"(2) by (simp_all add: canonical_Cons)
  show ?case
  proof (cases "x \<le> e")
    case True
    have p: "\<forall>r \<in> set it. min b x \<le> snd r" using xy canonical_less [OF xy(2)] by (meson less_imp_le less_trans min.coboundedI2)
    have n: "min b x < max e y" using "2.prems"(3) by (simp add: less_max_iff_disj min_less_iff_disj)
    have "{min b x..<max e y} = {b..<e} \<union> {x..<y}" using True "2.prems"(1,3) xy(1) by (auto simp: min_def max_def)
    moreover have "min b x = b \<or> min b x = x" by (simp add: min_def)
    ultimately show ?thesis using "2.IH" [OF True p xy(2) n] "2.prems"(4) True by auto
  next
    case False
    then have "e < x" by simp
    moreover from this have "\<forall>q \<in> set it. e < fst q" using xy(1,3) by (meson less_trans)
    ultimately show ?thesis using False "2.prems" by (auto simp: canonical_Cons)
  qed
qed (auto simp: canonical_Cons)

text \<open>The interval of an accepted call.\<close>

lemma range_End_Done: "range_End a z = Done e \<longleftrightarrow> a \<noteq> 0 \<and> z \<noteq> 0 \<and> fits a z \<and> e = a + z"
  by (auto simp: range_End_def not_fits not_less fits_def split: if_splits)

lemma range_End_less: "range_End a z = Done e \<Longrightarrow> a < e"
  by (auto simp: range_End_Done intro: fits_less)

lemma Add_spec:
  assumes "canonical m" "range_End a z = Done e" "range_Add m a z = Done m'"
  shows "canonical m' \<and> addresses m' = addresses m \<union> {a..<e}"
proof -
  obtain before it where s: "lower_split (\<lambda>e. a \<le> e) m a = (before, it)" by (metis surj_pair)
  obtain b' e' it' where r: "range_absorb a e it = (b', e', it')" by (metis surj_pair)
  have m': "m' = before @ (b', e') # it'" using assms(2,3) by (simp add: range_Add_def s r)
  note sp = lower_split_spec [OF assms(1) s]
  have m: "m = before @ it" "\<forall>r \<in> set before. fst r < a \<and> \<not> a \<le> snd r" "\<forall>r \<in> set it. a \<le> fst r \<or> a \<le> snd r"
    using sp by auto
  have c: "canonical before" "canonical it" "\<forall>r \<in> set before. \<forall>q \<in> set it. snd r < fst q"
    using assms(1) by (simp_all add: m(1) canonical_append)
  have "\<forall>r \<in> set it. a \<le> snd r" using m(3) canonical_less [OF c(2)] by (meson less_imp_le order_trans)
  note ab = absorb_spec [OF this c(2) range_End_less [OF assms(2)] r]
  have "\<forall>r \<in> set before. snd r < b'" using ab m(2) c(3) by (auto simp: not_le)
  moreover have "\<forall>q \<in> set it'. e' < fst q" "b' < e'" using ab by (auto simp: canonical_Cons)
  moreover from calculation have "\<forall>r \<in> set before. \<forall>q \<in> set it'. snd r < fst q" by (meson less_trans)
  ultimately have "canonical m'" unfolding m' canonical_append using c(1) ab by simp
  then show ?thesis using ab by (auto simp: m' m(1))
qed

section \<open>Subtracting\<close>

lemma subtract_spec:
  "canonical it \<Longrightarrow> \<forall>r \<in> set it. a < snd r \<Longrightarrow> a < e \<Longrightarrow>
   canonical (subtract_loop a e it) \<and> addresses (subtract_loop a e it) = addresses it - {a..<e} \<and>
   (\<forall>q \<in> set (subtract_loop a e it). \<exists>r \<in> set it. fst r \<le> fst q)"
proof (induction a e it rule: subtract_loop.induct)
  case (2 a e x y it)
  have xy: "x < y" "canonical it" "\<forall>q \<in> set it. y < fst q" "a < y" "\<forall>r \<in> set it. a < snd r"
    using "2.prems" by (simp_all add: canonical_Cons)
  have late: "addresses it \<inter> {a..<e} = {}" if "e \<le> y" using that xy(3) by (fastforce simp: addresses_def)
  show ?case
  proof (cases "x < e")
    case False
    then have "addresses ((x, y) # it) \<inter> {a..<e} = {}"
      using xy by (fastforce simp: addresses_def)
    then show ?thesis using False "2.prems"(1) by auto
  next
    case xe: True
    show ?thesis
    proof (cases "e < y")
      case True
      have "canonical ((e, y) # it)" using True xy by (simp add: canonical_Cons)
      then have "canonical (subtract_loop a e ((x, y) # it))" using True xe "2.prems"(3) by (auto simp: canonical_Cons intro: less_trans)
      moreover have "addresses it \<inter> {a..<e} = {}" using late True by simp
      ultimately show ?thesis using True xe xy(1) "2.prems"(3) by (auto simp: not_less)
    next
      case False
      have ih: "canonical (subtract_loop a e it)" "addresses (subtract_loop a e it) = addresses it - {a..<e}"
        "\<forall>q \<in> set (subtract_loop a e it). \<exists>r \<in> set it. fst r \<le> fst q"
        using "2.IH" [OF xe False xy(2,5) "2.prems"(3)] by blast+
      have "a < fst q" if "q \<in> set (subtract_loop a e it)" for q
        using ih(3) that xy(3,4) by (meson less_le_trans less_trans)
      then have "canonical (subtract_loop a e ((x, y) # it))" using ih(1) xe False by (auto simp: canonical_Cons)
      moreover have "x < fst q" if "q \<in> set (subtract_loop a e it)" for q
        using ih(3) that xy(1,3) by (meson less_le_trans less_trans)
      ultimately show ?thesis using ih(2) xe False xy(4) by (auto intro: less_imp_le)
    qed
  qed
qed simp

lemma Subtract_spec:
  assumes "canonical m" "range_End a z = Done e" "range_Subtract m a z = Done m'"
  shows "canonical m' \<and> addresses m' = addresses m - {a..<e}"
proof -
  obtain before it where s: "lower_split (\<lambda>e. a < e) m a = (before, it)" by (metis surj_pair)
  have m': "m' = before @ subtract_loop a e it" using assms(2,3) by (simp add: range_Subtract_def s)
  note sp = lower_split_spec [OF assms(1) s]
  have m: "m = before @ it" "\<forall>r \<in> set before. fst r < a \<and> \<not> a < snd r" "\<forall>r \<in> set it. a \<le> fst r \<or> a < snd r"
    using sp by auto
  have c: "canonical before" "canonical it" "\<forall>r \<in> set before. \<forall>q \<in> set it. snd r < fst q"
    using assms(1) by (simp_all add: m(1) canonical_append)
  have "\<forall>r \<in> set it. a < snd r" using m(3) canonical_less [OF c(2)] by (meson le_less_trans)
  note sb = subtract_spec [OF c(2) this range_End_less [OF assms(2)]]
  have "\<forall>r \<in> set before. \<forall>q \<in> set (subtract_loop a e it). snd r < fst q" using sb c(3) by (meson less_le_trans)
  then have "canonical m'" unfolding m' canonical_append using c(1) sb by blast
  moreover have "addresses before \<inter> {a..<e} = {}" using m(2) by (fastforce simp: addresses_def not_less)
  ultimately show ?thesis using sb by (auto simp: m' m(1))
qed

lemma range_updates_total:
  "range_End a z = Done e \<Longrightarrow> \<exists>m1 m2. range_Add m a z = Done m1 \<and> range_Subtract m a z = Done m2"
  by (cases "lower_split (\<lambda>e. a \<le> e) m a"; cases "range_absorb a e (snd (lower_split (\<lambda>e. a \<le> e) m a))";
      cases "lower_split (\<lambda>e. a < e) m a") (simp add: range_Add_def range_Subtract_def)

lemma range_Intersections_total: "range_End a z = Done e \<Longrightarrow> \<exists>rs. range_Intersections m a z = Done rs"
  by (cases "upper_split m a") (simp add: range_Intersections_def)

section \<open>Queries\<close>

lemma upper_split_spec:
  assumes "canonical m" "upper_split m a = (before, it)"
  shows "m = before @ it" "\<forall>r \<in> set before. fst r \<le> a" "\<forall>r \<in> set it. a < fst r"
    "before \<noteq> [] \<Longrightarrow> \<forall>r \<in> set (butlast before). snd r < fst (last before)"
proof -
  have s: "before = takeWhile (\<lambda>r. fst r \<le> a) m" "it = dropWhile (\<lambda>r. fst r \<le> a) m"
    using assms(2) by (simp_all add: upper_split_def)
  show m: "m = before @ it" by (simp add: s)
  show "\<forall>r \<in> set before. fst r \<le> a" unfolding s by (meson set_takeWhileD)
  show "\<forall>r \<in> set it. a < fst r" unfolding s using dropWhile_beyond [OF assms(1)] by blast
  assume "before \<noteq> []"
  then have e: "butlast before @ [last before] = before" by simp
  have "canonical before" using assms(1) unfolding m canonical_append by blast
  then have "canonical (butlast before @ [last before])" unfolding e .
  then show "\<forall>r \<in> set (butlast before). snd r < fst (last before)" by (simp add: canonical_append)
qed

text \<open>Only the last range that begins at or before an address can hold it or anything after it.\<close>

lemma before_only_last:
  assumes "canonical m" "upper_split m a = (before, it)" "before \<noteq> []"
  shows "addresses m \<inter> {a..} = ({fst (last before)..<snd (last before)} \<union> addresses it) \<inter> {a..}"
proof -
  note sp = upper_split_spec [OF assms(1,2)]
  have e: "before = butlast before @ [last before]" using assms(3) by simp
  have "fst (last before) \<le> a" using sp(2) assms(3) by simp
  then have "addresses (butlast before) \<inter> {a..} = {}"
    using sp(4) [OF assms(3)] by (fastforce simp: addresses_def)
  moreover have "addresses before = addresses (butlast before) \<union> {fst (last before)..<snd (last before)}"
    by (subst e) simp
  ultimately show ?thesis unfolding sp(1) by auto
qed

lemma Contains_spec:
  assumes "canonical m" "range_End a z = Done e"
  shows "range_Contains m a z = Done ({a..<e} \<subseteq> addresses m)"
proof -
  obtain before it where s: "upper_split m a = (before, it)" by (metis surj_pair)
  note sp = upper_split_spec [OF assms(1) s]
  have ae: "a < e" by (rule range_End_less [OF assms(2)])
  show ?thesis
  proof (cases "before = []")
    case True
    then have "a \<notin> addresses m" using sp(1,3) by (auto simp: addresses_def)
    then have "\<not> {a..<e} \<subseteq> addresses m" using ae by auto
    then show ?thesis using True assms(2) by (simp add: range_Contains_def s)
  next
    case False
    let ?l = "last before"
    note on = before_only_last [OF assms(1) s False]
    have l: "fst ?l \<le> a" using sp(2) False by simp
    have "canonical (before @ it)" using assms(1) unfolding sp(1) .
    then have gap: "\<forall>q \<in> set it. snd ?l < fst q" using False unfolding canonical_append by simp
    have "{a..<e} \<subseteq> addresses m \<longleftrightarrow> e \<le> snd ?l"
    proof
      assume sub: "{a..<e} \<subseteq> addresses m"
      show "e \<le> snd ?l"
      proof (rule ccontr)
        assume "\<not> e \<le> snd ?l"
        then have x: "max a (snd ?l) \<in> {a..<e}" using ae by auto
        then have "max a (snd ?l) \<in> addresses m \<inter> {a..}" using sub by auto
        then have "max a (snd ?l) \<in> addresses it" unfolding on by auto
        then obtain r where r: "r \<in> set it" "fst r \<le> max a (snd ?l)" by (auto simp: addresses_def)
        have "a < fst r" "snd ?l < fst r" using gap sp(3) r(1) by auto
        then show False using r(2) by (auto simp: max_def split: if_splits)
      qed
    next
      assume "e \<le> snd ?l"
      then have "{a..<e} \<subseteq> {fst ?l..<snd ?l}" using l by auto
      also have "\<dots> \<subseteq> addresses m" unfolding sp(1) using False by (auto simp: addresses_def intro!: bexI [of _ ?l])
      finally show "{a..<e} \<subseteq> addresses m" .
    qed
    then show ?thesis using False l assms(2) by (simp add: range_Contains_def s)
  qed
qed

lemma later_meets:
  assumes "canonical it" "\<forall>r \<in> set it. a < fst r" "a < e"
  shows "addresses it \<inter> {a..<e} \<noteq> {} \<longleftrightarrow> it \<noteq> [] \<and> fst (hd it) < e"
proof (cases it)
  case (Cons q rest)
  have q: "fst q < snd q" "a < fst q" "\<forall>r \<in> set rest. fst q < fst r"
    using assms(1,2) canonical_first [of q rest] unfolding Cons by (auto simp: canonical_Cons)
  show ?thesis
  proof (cases "fst q < e")
    case True
    then have "fst q \<in> addresses it \<inter> {a..<e}" using q Cons by auto
    then show ?thesis using True Cons by auto
  next
    case False
    then have "addresses it \<inter> {a..<e} = {}" using q Cons by (fastforce simp: addresses_def)
    then show ?thesis using False Cons by simp
  qed
qed simp

lemma Intersects_spec:
  assumes "canonical m" "range_End a z = Done e"
  shows "range_Intersects m a z = Done (addresses m \<inter> {a..<e} \<noteq> {})"
proof -
  obtain before it where s: "upper_split m a = (before, it)" by (metis surj_pair)
  note sp = upper_split_spec [OF assms(1) s]
  have ae: "a < e" by (rule range_End_less [OF assms(2)])
  have "canonical it" using assms(1) unfolding sp(1) canonical_append by blast
  note lm = later_meets [OF this sp(3) ae]
  have "addresses m \<inter> {a..<e} \<noteq> {} \<longleftrightarrow> (before \<noteq> [] \<and> a < snd (last before)) \<or> (it \<noteq> [] \<and> fst (hd it) < e)"
  proof (cases "before = []")
    case True
    then show ?thesis using lm sp(1) by simp
  next
    case False
    let ?l = "last before"
    have "fst ?l \<le> a" using sp(2) False by simp
    have "addresses m \<inter> {a..<e} = addresses m \<inter> {a..} \<inter> {a..<e}" by auto
    also have "\<dots> = ({fst ?l..<snd ?l} \<inter> {a..<e}) \<union> (addresses it \<inter> {a..<e})"
      unfolding before_only_last [OF assms(1) s False] by auto
    finally have "addresses m \<inter> {a..<e} \<noteq> {} \<longleftrightarrow> {fst ?l..<snd ?l} \<inter> {a..<e} \<noteq> {} \<or> addresses it \<inter> {a..<e} \<noteq> {}"
      by auto
    moreover have "{fst ?l..<snd ?l} \<inter> {a..<e} \<noteq> {} \<longleftrightarrow> a < snd ?l" using \<open>fst ?l \<le> a\<close> ae by auto
    ultimately show ?thesis using lm False by blast
  qed
  then show ?thesis using assms(2) by (simp add: range_Intersects_def s)
qed

lemma intersect_loop_spec:
  "canonical it \<Longrightarrow> a < e \<Longrightarrow>
   (\<Union>(x, n) \<in> set (intersect_loop a e it). {x..<x + n}) = addresses it \<inter> {a..<e} \<and>
   (\<forall>(x, n) \<in> set (intersect_loop a e it). n \<noteq> 0 \<and> fits x n)"
proof (induction a e it rule: intersect_loop.induct)
  case (2 a e x y it)
  have xy: "x < y" "canonical it" "\<forall>q \<in> set it. y < fst q" using "2.prems" by (simp_all add: canonical_Cons)
  show ?case
  proof (cases "x < e")
    case True
    have ih: "(\<Union>(x, n) \<in> set (intersect_loop a e it). {x..<x + n}) = addresses it \<inter> {a..<e}"
      "\<forall>(x, n) \<in> set (intersect_loop a e it). n \<noteq> 0 \<and> fits x n"
      using "2.IH" [OF True] xy(2) "2.prems"(2) by blast+
    show ?thesis
    proof (cases "max a x < min e y")
      case s: True
      have "max a x + (min e y - max a x) = min e y" by simp
      moreover have "{max a x..<min e y} = {x..<y} \<inter> {a..<e}" by auto
      moreover have "fits (max a x) (min e y - max a x)" using s by (intro fits_diff less_imp_le)
      moreover have "min e y \<noteq> max a x" using s by (metis less_irrefl)
      ultimately show ?thesis using True s ih by (auto simp: Let_def)
    next
      case s: False
      then have "{x..<y} \<inter> {a..<e} = {}" by auto
      then show ?thesis using True s ih by (auto simp: Let_def)
    qed
  next
    case False
    then have "addresses ((x, y) # it) \<inter> {a..<e} = {}" using xy by (fastforce simp: addresses_def)
    then show ?thesis using False by simp
  qed
qed simp

lemma Intersections_spec:
  assumes "canonical m" "range_End a z = Done e" "range_Intersections m a z = Done rs"
  shows "(\<Union>(x, n) \<in> set rs. {x..<x + n}) = addresses m \<inter> {a..<e} \<and> (\<forall>(x, n) \<in> set rs. n \<noteq> 0 \<and> fits x n)"
proof -
  obtain before it where s: "upper_split m a = (before, it)" by (metis surj_pair)
  note sp = upper_split_spec [OF assms(1) s]
  define l where "l = (if before = [] then it else last before # it)"
  have rs: "rs = intersect_loop a e l" using assms(2,3) by (auto simp: range_Intersections_def s l_def)
  have "canonical (before @ it)" using assms(1) unfolding sp(1) .
  have "canonical l"
  proof (cases "before = []")
    case False
    then have "(butlast before @ [last before]) @ it = before @ it" by simp
    then have "canonical (butlast before @ (last before # it))"
      using \<open>canonical (before @ it)\<close> by (metis append.assoc append_Cons append_Nil)
    then show ?thesis using False by (simp add: l_def canonical_append)
  qed (use \<open>canonical (before @ it)\<close> in \<open>simp add: l_def\<close>)
  moreover have "addresses m \<inter> {a..<e} = addresses l \<inter> {a..<e}"
  proof (cases "before = []")
    case False
    have "addresses m \<inter> {a..<e} = addresses m \<inter> {a..} \<inter> {a..<e}" by auto
    also have "\<dots> = addresses l \<inter> {a..<e}" unfolding before_only_last [OF assms(1) s False] using False by (auto simp: l_def)
    finally show ?thesis .
  qed (simp add: l_def sp(1))
  ultimately show ?thesis using intersect_loop_spec [of l a e] range_End_less [OF assms(2)] unfolding rs by simp
qed

text \<open>C37. Updates. On a canonical list, \<open>Add\<close> and \<open>Subtract\<close> end the process exactly for an empty, null or
  wrapping range; otherwise they give a canonical list again, for the union and the difference with the
  interval.\<close>

theorem range_set_updates:
  assumes "canonical m"
  shows "(if a = 0 \<or> z = 0 \<or> 2 ^ 64 \<le> unat a + unat z
          then range_Add m a z = Exit \<and> range_Subtract m a z = Exit
          else \<exists>m1 m2. range_Add m a z = Done m1 \<and> range_Subtract m a z = Done m2 \<and> canonical m1 \<and> canonical m2 \<and>
            addresses m1 = addresses m \<union> {a..<a + z} \<and> addresses m2 = addresses m - {a..<a + z})"
proof (cases "a = 0 \<or> z = 0 \<or> 2 ^ 64 \<le> unat a + unat z")
  case True
  then have "range_End a z = Exit" using not_fits [of a z] by (auto simp: range_End_def fits_unat not_less)
  then show ?thesis using True by (simp add: range_Add_def range_Subtract_def)
next
  case False
  then have e: "range_End a z = Done (a + z)" by (simp add: range_End_Done fits_unat)
  then obtain m1 m2 where m: "range_Add m a z = Done m1" "range_Subtract m a z = Done m2"
    using range_updates_total by blast
  show ?thesis using Add_spec [OF assms e m(1)] Subtract_spec [OF assms e m(2)] m False by simp
qed

text \<open>Queries. On a canonical list the three queries agree with the set of addresses: \<open>Contains\<close> is
  inclusion of the whole interval, \<open>Intersects\<close> says whether the interval meets the set, and
  \<open>Intersections\<close> returns non-empty ranges that cover exactly the common part.\<close>

lemma range_set_queries:
  assumes "canonical m" and "a \<noteq> 0" "z \<noteq> 0" "unat a + unat z < 2 ^ 64"
  shows "range_Contains m a z = Done ({a..<a + z} \<subseteq> addresses m) \<and>
    range_Intersects m a z = Done (addresses m \<inter> {a..<a + z} \<noteq> {}) \<and>
    (\<exists>rs. range_Intersections m a z = Done rs \<and>
      (\<Union>(x, n) \<in> set rs. {x..<x + n}) = addresses m \<inter> {a..<a + z} \<and> (\<forall>(x, n) \<in> set rs. n \<noteq> 0))"
proof -
  have e: "range_End a z = Done (a + z)" using assms(2-4) by (simp add: range_End_Done fits_unat)
  obtain rs where rs: "range_Intersections m a z = Done rs" using range_Intersections_total [OF e] by blast
  have "(\<Union>(x, n) \<in> set rs. {x..<x + n}) = addresses m \<inter> {a..<a + z} \<and> (\<forall>(x, n) \<in> set rs. n \<noteq> 0)"
    using Intersections_spec [OF assms(1) e rs] by fastforce
  then show ?thesis using Contains_spec [OF assms(1) e] Intersects_spec [OF assms(1) e] rs by blast
qed

text \<open>Two ranges, and one between them that touches both.\<close>

lemma demo_canonical: "canonical [(0x1000, 0x2000), (0x3000, 0x4000)]"
  by (simp add: canonical_Cons)

lemma range_set_updates_witness:
  "\<exists>m1 m2. range_Add [(0x1000, 0x2000), (0x3000, 0x4000)] 0x2000 0x1000 = Done m1 \<and>
     range_Subtract [(0x1000, 0x2000), (0x3000, 0x4000)] 0x2000 0x1000 = Done m2 \<and> canonical m1 \<and> canonical m2 \<and>
     addresses m1 = addresses [(0x1000, 0x2000), (0x3000, 0x4000)] \<union> {0x2000..<0x2000 + 0x1000} \<and>
     addresses m2 = addresses [(0x1000, 0x2000), (0x3000, 0x4000)] - {0x2000..<0x2000 + 0x1000}"
  using range_set_updates [OF demo_canonical, of "0x2000" "0x1000"] by (simp del: addresses_simps)

lemma range_set_queries_witness:
  "range_Contains [(0x1000, 0x2000), (0x3000, 0x4000)] 0x1000 0x2000 =
     Done ({0x1000..<0x1000 + 0x2000} \<subseteq> addresses [(0x1000, 0x2000), (0x3000, 0x4000)])"
  using range_set_queries [OF demo_canonical, of "0x1000" "0x2000"] by (simp del: addresses_simps)

end
