(* ===== verification/BitArray.thy ===== *)
theory BitArray
  imports Prelude
begin

text \<open>
  Bit arrays, \<open>src/common/bitArray.h\<close>: the array of 64-bit words is a list of words, its length times 64
  is the number of bits. \<open>std::countr_zero\<close> and its relatives count by looking at the bits one after
  the other. The second half proves that the range operations, which work on whole words, do to the
  list of bits what their bit-by-bit descriptions do.
\<close>

unbundle bit_operations_syntax

section \<open>Operations\<close>

definition ba_size :: "u64 list \<Rightarrow> nat" where
  "ba_size ws = 64 * length ws"

definition countr_zero :: "u64 \<Rightarrow> nat" where
  "countr_zero w = length (takeWhile (\<lambda>i. \<not> bit w i) [0..<64])"

definition countr_one :: "u64 \<Rightarrow> nat" where
  "countr_one w = length (takeWhile (bit w) [0..<64])"

definition countl_zero :: "u64 \<Rightarrow> nat" where
  "countl_zero w = length (takeWhile (\<lambda>i. \<not> bit w i) (rev [0..<64]))"

definition countl_one :: "u64 \<Rightarrow> nat" where
  "countl_one w = length (takeWhile (bit w) (rev [0..<64]))"

definition ba_Get :: "u64 list \<Rightarrow> nat \<Rightarrow> bool" where
  "ba_Get ws index \<longleftrightarrow> ws ! (index div 64) AND push_bit (index mod 64) 1 \<noteq> 0"

definition ba_Set :: "u64 list \<Rightarrow> nat \<Rightarrow> u64 list" where
  "ba_Set ws index = ws[index div 64 := ws ! (index div 64) OR push_bit (index mod 64) 1]"

definition ba_Unset :: "u64 list \<Rightarrow> nat \<Rightarrow> u64 list" where
  "ba_Unset ws index = ws[index div 64 := ws ! (index div 64) AND NOT (push_bit (index mod 64) 1)]"

text \<open>The mask of the bits up to and including \<open>end_bit\<close>.\<close>

definition upto_mask :: "nat \<Rightarrow> u64" where
  "upto_mask end_bit = (if end_bit = 63 then NOT 0 else push_bit (end_bit + 1) 1 - 1)"

definition fill_words :: "u64 \<Rightarrow> nat \<Rightarrow> nat \<Rightarrow> u64 list \<Rightarrow> u64 list" where
  "fill_words v i0 i1 ws = fold (\<lambda>i m. m[i := v]) [i0..<i1] ws"

text \<open>The constructor that copies a range of another array into an array of zeros.\<close>

definition ba_copy :: "u64 list \<Rightarrow> nat \<Rightarrow> nat \<Rightarrow> u64 list" where
  "ba_copy other start end =
    (let zero = replicate (length other) 0
     in if end \<le> start \<or> ba_size other < end then zero
        else
          let first_word = start div 64; last_word = (end - 1) div 64;
              start_mask = push_bit (start mod 64) (NOT 0); end_mask = upto_mask ((end - 1) mod 64)
          in if first_word = last_word then zero[first_word := other ! first_word AND start_mask AND end_mask]
             else
               let m1 = zero[first_word := other ! first_word AND start_mask];
                   m2 = fold (\<lambda>i m. m[i := other ! i]) [first_word + 1..<last_word] m1
               in m2[last_word := other ! last_word AND end_mask])"

definition ba_SetRange :: "u64 list \<Rightarrow> nat \<Rightarrow> nat \<Rightarrow> u64 list" where
  "ba_SetRange ws start end =
    (if end \<le> start \<or> ba_size ws < end then ws
     else
       let first_word = start div 64; last_word = (end - 1) div 64;
           start_mask = push_bit (start mod 64) (NOT 0); end_mask = upto_mask ((end - 1) mod 64)
       in if first_word = last_word then ws[first_word := ws ! first_word OR (start_mask AND end_mask)]
          else
            let m1 = ws[first_word := ws ! first_word OR start_mask];
                m2 = fill_words (NOT 0) (first_word + 1) last_word m1
            in m2[last_word := m2 ! last_word OR end_mask])"

definition ba_UnsetRange :: "u64 list \<Rightarrow> nat \<Rightarrow> nat \<Rightarrow> u64 list" where
  "ba_UnsetRange ws start end =
    (if end \<le> start \<or> ba_size ws < end then ws
     else
       let first_word = start div 64; last_word = (end - 1) div 64; end_bit = (end - 1) mod 64;
           start_mask = push_bit (start mod 64) 1 - 1;
           end_mask = (if end_bit = 63 then 0 else NOT (push_bit (end_bit + 1) 1 - 1))
       in if first_word = last_word then ws[first_word := ws ! first_word AND (start_mask OR end_mask)]
          else
            let m1 = ws[first_word := ws ! first_word AND start_mask];
                m2 = fill_words 0 (first_word + 1) last_word m1
            in m2[last_word := m2 ! last_word AND end_mask])"

definition ba_Clear :: "u64 list \<Rightarrow> u64 list" where
  "ba_Clear ws = replicate (length ws) 0"

definition ba_Fill :: "u64 list \<Rightarrow> u64 list" where
  "ba_Fill ws = replicate (length ws) (NOT 0)"

definition ba_None :: "u64 list \<Rightarrow> bool" where
  "ba_None ws \<longleftrightarrow> fold (\<lambda>w combined. combined OR w) ws 0 = 0"

definition ba_Any :: "u64 list \<Rightarrow> bool" where
  "ba_Any ws \<longleftrightarrow> \<not> ba_None ws"

definition ba_xor :: "u64 list \<Rightarrow> u64 list \<Rightarrow> u64 list" where
  "ba_xor ws other = map2 (\<lambda>a b. a XOR b) ws other"

definition ba_not :: "u64 list \<Rightarrow> u64 list" where
  "ba_not ws = map (\<lambda>w. NOT w) ws"

text \<open>
  The loops of \<open>FirstRangeFrom\<close>: the words after the current one are the last argument. The first loop
  gives the index and the value of the first word that is not zero, the second the end of the run of ones.
\<close>

fun first_word :: "nat \<Rightarrow> u64 \<Rightarrow> u64 list \<Rightarrow> (nat \<times> u64) option" where
  "first_word word_index word [] = (if word = 0 then None else Some (word_index, word))"
| "first_word word_index word (w # ws) =
    (if word = 0 then first_word (word_index + 1) w ws else Some (word_index, word))"

fun ones_end :: "nat \<Rightarrow> u64 list \<Rightarrow> nat" where
  "ones_end word_index [] = 64 * word_index"
| "ones_end word_index (w # ws) =
    (if w \<noteq> NOT 0 then word_index * 64 + countr_one w else ones_end (word_index + 1) ws)"

definition FirstRangeFrom :: "u64 list \<Rightarrow> nat \<Rightarrow> nat \<times> nat" where
  "FirstRangeFrom ws start =
    (let n = ba_size ws
     in if n \<le> start then (n, n)
        else
          let word_index = start div 64
          in case first_word word_index (ws ! word_index AND push_bit (start mod 64) (NOT 0)) (drop (word_index + 1) ws) of
               None \<Rightarrow> (n, n)
             | Some (i, word) \<Rightarrow>
                 let first = i * 64 + countr_zero word;
                     first_bit = first mod 64;
                     first_ones = countr_one (drop_bit first_bit (ws ! i))
                 in if first_bit + first_ones < 64 then (first, first + first_ones)
                    else (first, ones_end (i + 1) (drop (i + 1) ws)))"

definition FirstRange :: "u64 list \<Rightarrow> nat \<times> nat" where
  "FirstRange ws = FirstRangeFrom ws 0"

text \<open>The loops of \<open>LastRangeFrom\<close> go down; the last argument holds the words before the current one,
  nearest first, and \<open>word_index\<close> is the index of the current one.\<close>

fun last_word :: "nat \<Rightarrow> u64 \<Rightarrow> u64 list \<Rightarrow> (nat \<times> u64) option" where
  "last_word word_index word [] = (if word = 0 then None else Some (word_index, word))"
| "last_word word_index word (w # ws) =
    (if word = 0 then last_word (word_index - 1) w ws else Some (word_index, word))"

fun ones_start :: "nat \<Rightarrow> u64 list \<Rightarrow> nat" where
  "ones_start word_index [] = 0"
| "ones_start word_index (w # ws) =
    (if w \<noteq> NOT 0 then word_index * 64 - countl_one w else ones_start (word_index - 1) ws)"

definition LastRangeFrom :: "u64 list \<Rightarrow> nat \<Rightarrow> nat \<times> nat" where
  "LastRangeFrom ws end =
    (if end = 0 then (0, 0)
     else
       let end = min end (ba_size ws);
           word_index = (end - 1) div 64
       in case last_word word_index (ws ! word_index AND upto_mask ((end - 1) mod 64)) (rev (take word_index ws)) of
            None \<Rightarrow> (0, 0)
          | Some (i, word) \<Rightarrow>
              let empty_bits = countl_zero word;
                  ones = countl_one (push_bit empty_bits word);
                  last = (i + 1) * 64 - empty_bits
              in if empty_bits + ones < 64 then (last - ones, last)
                 else (ones_start i (rev (take i ws)), last))"

definition LastRange :: "u64 list \<Rightarrow> nat \<times> nat" where
  "LastRange ws = LastRangeFrom ws (ba_size ws)"

section \<open>The list of bits\<close>

definition wbits :: "u64 \<Rightarrow> bool list" where
  "wbits w = map (bit w) [0..<64]"

definition bits_of :: "u64 list \<Rightarrow> bool list" where
  "bits_of ws = concat (map wbits ws)"

lemma length_wbits [simp]: "length (wbits w) = 64"
  by (simp add: wbits_def)

lemma nth_wbits [simp]: "i < 64 \<Longrightarrow> wbits w ! i = bit w i"
  by (simp add: wbits_def)

lemma bits_of_simps [simp]: "bits_of [] = []" "bits_of (w # ws) = wbits w @ bits_of ws"
  "bits_of (ws @ vs) = bits_of ws @ bits_of vs"
  by (simp_all add: bits_of_def)

lemma length_bits_of [simp]: "length (bits_of ws) = ba_size ws"
  by (induction ws) (simp_all add: ba_size_def)

lemma nth_bits_of: "i < ba_size ws \<Longrightarrow> bits_of ws ! i = bit (ws ! (i div 64)) (i mod 64)"
proof (induction ws arbitrary: i)
  case (Cons w ws)
  show ?case
  proof (cases "i < 64")
    case False
    then have "i div 64 = Suc ((i - 64) div 64)" "(i - 64) mod 64 = i mod 64"
      by (simp_all add: le_div_geq le_mod_geq)
    then show ?thesis using False Cons by (simp add: nth_append ba_size_def)
  qed (simp add: nth_append)
qed (simp add: ba_size_def)

lemma ba_Get_bits: "i < ba_size ws \<Longrightarrow> ba_Get ws i = bits_of ws ! i"
  by (auto simp: ba_Get_def nth_bits_of bit_iff_and_push_bit_not_eq_0)

section \<open>Ranges\<close>

lemma fold_update:
  "length (fold (\<lambda>i m. m[i := g i]) [a..<b] ws) = length ws"
  "j < length ws \<Longrightarrow> fold (\<lambda>i m. m[i := g i]) [a..<b] ws ! j = (if a \<le> j \<and> j < b then g j else ws ! j)"
proof -
  show l: "length (fold (\<lambda>i m. m[i := g i]) [a..<b] ws) = length ws" for b
    by (induction b) auto
  show "j < length ws \<Longrightarrow> fold (\<lambda>i m. m[i := g i]) [a..<b] ws ! j = (if a \<le> j \<and> j < b then g j else ws ! j)"
    by (induction b) (auto simp: l nth_list_update less_Suc_eq)
qed

lemma mask_push: "push_bit n 1 - 1 = (mask n :: u64)"
  by (simp only: mask_eq_exp_minus_1 push_bit_of_1)

lemma bit_full: "k < 64 \<Longrightarrow> bit (NOT 0 :: u64) k"
  by (simp add: bit_simps)

lemma bit_upto_mask: "e < 64 \<Longrightarrow> k < 64 \<Longrightarrow> bit (upto_mask e) k \<longleftrightarrow> k \<le> e"
  unfolding upto_mask_def mask_push by (auto simp: bit_simps)

lemma bit_from_mask: "k < 64 \<Longrightarrow> bit (push_bit s (NOT 0 :: u64)) k \<longleftrightarrow> s \<le> k"
  by (auto simp: bit_simps)

lemma bit_below_mask: "s < 64 \<Longrightarrow> k < 64 \<Longrightarrow> bit (push_bit s 1 - 1 :: u64) k \<longleftrightarrow> k < s"
  unfolding mask_push by (auto simp: bit_simps)

lemma bit_above_mask:
  "e < 64 \<Longrightarrow> k < 64 \<Longrightarrow> bit (if e = 63 then 0 else NOT (push_bit (e + 1) 1 - 1) :: u64) k \<longleftrightarrow> e < k"
  unfolding mask_push by (auto simp: bit_simps)

lemma le_words: "s \<le> i \<longleftrightarrow> s div 64 < i div 64 \<or> (s div 64 = i div 64 \<and> s mod 64 \<le> i mod 64)" for s i :: nat
proof -
  have "s = 64 * (s div 64) + s mod 64" "i = 64 * (i div 64) + i mod 64" "s mod 64 < 64" "i mod 64 < 64" by simp_all
  then show ?thesis by linarith
qed

lemma word_index: "i < ba_size ws \<longleftrightarrow> i div 64 < length ws"
  by (auto simp: ba_size_def less_mult_imp_div_less div_less_iff_less_mult mult.commute)

text \<open>An operation on words that acts on the bits of an interval.\<close>

lemma words_interval:
  assumes "s < e" "e \<le> ba_size ws" "length vs = length ws" "i < ba_size ws"
    and "\<And>j k. j < length ws \<Longrightarrow> k < 64 \<Longrightarrow>
      bit (vs ! j) k = (if (s div 64 < j \<or> (s div 64 = j \<and> s mod 64 \<le> k)) \<and>
          (j < (e - 1) div 64 \<or> (j = (e - 1) div 64 \<and> k \<le> (e - 1) mod 64)) then p j k else q j k)"
  shows "bits_of vs ! i = (if s \<le> i \<and> i < e then p (i div 64) (i mod 64) else q (i div 64) (i mod 64))"
proof -
  have "i < ba_size vs" using assms(3,4) by (simp add: ba_size_def)
  then have "bits_of vs ! i = bit (vs ! (i div 64)) (i mod 64)" by (rule nth_bits_of)
  moreover have "i div 64 < length ws" using assms(4) by (simp add: word_index)
  moreover have "s \<le> i \<and> i < e \<longleftrightarrow>
      (s div 64 < i div 64 \<or> (s div 64 = i div 64 \<and> s mod 64 \<le> i mod 64)) \<and>
      (i div 64 < (e - 1) div 64 \<or> (i div 64 = (e - 1) div 64 \<and> i mod 64 \<le> (e - 1) mod 64))"
    unfolding le_words [of s i, symmetric] le_words [of i "e - 1", symmetric] using assms(1) by linarith
  ultimately show ?thesis using assms(5) [of "i div 64" "i mod 64"] by (simp only: mod_less_divisor zero_less_numeral)
qed

lemma first_le_last_word: "s < e \<Longrightarrow> s div 64 \<le> (e - 1) div 64" for s e :: nat
  by (intro div_le_mono) simp

lemma same_word_mod: "s < e \<Longrightarrow> s div 64 = (e - 1) div 64 \<Longrightarrow> s mod 64 \<le> (e - 1) mod 64" for s e :: nat
  using le_words [of s "e - 1"] by auto

lemma last_word_index: "s < e \<Longrightarrow> e \<le> ba_size ws \<Longrightarrow> (e - 1) div 64 < length ws" for s e :: nat
proof -
  assume "s < e" "e \<le> ba_size ws"
  then have "e - 1 < ba_size ws" by linarith
  then show ?thesis by (simp only: word_index)
qed

lemma length_ranges [simp]:
  "length (ba_SetRange ws s e) = length ws" "length (ba_UnsetRange ws s e) = length ws" "length (ba_copy ws s e) = length ws"
  by (simp_all add: ba_SetRange_def ba_UnsetRange_def ba_copy_def fill_words_def Let_def fold_update)

lemma SetRange_bits:
  assumes "s < e" "e \<le> ba_size ws" "i < ba_size ws"
  shows "bits_of (ba_SetRange ws s e) ! i \<longleftrightarrow> (s \<le> i \<and> i < e) \<or> bits_of ws ! i"
proof -
  note w = first_le_last_word [OF assms(1)] same_word_mod [OF assms(1)] last_word_index [OF assms(1,2)]
  have "bits_of (ba_SetRange ws s e) ! i = (if s \<le> i \<and> i < e then True else bit (ws ! (i div 64)) (i mod 64))"
  proof (rule words_interval [OF assms(1,2) _ assms(3)])
    fix j k :: nat
    assume "j < length ws" "k < 64"
    then show "bit (ba_SetRange ws s e ! j) k = (if (s div 64 < j \<or> (s div 64 = j \<and> s mod 64 \<le> k)) \<and>
          (j < (e - 1) div 64 \<or> (j = (e - 1) div 64 \<and> k \<le> (e - 1) mod 64)) then True else bit (ws ! j) k)"
      using assms(1,2) w
      by (auto simp: ba_SetRange_def Let_def fill_words_def nth_list_update fold_update bit_or_iff bit_and_iff
          bit_upto_mask bit_from_mask bit_full simp del: push_bit_minus_one_eq_not_mask bit.compl_zero)
  qed simp
  then show ?thesis using nth_bits_of [OF assms(3)] by auto
qed

lemma UnsetRange_bits:
  assumes "s < e" "e \<le> ba_size ws" "i < ba_size ws"
  shows "bits_of (ba_UnsetRange ws s e) ! i \<longleftrightarrow> \<not> (s \<le> i \<and> i < e) \<and> bits_of ws ! i"
proof -
  note w = first_le_last_word [OF assms(1)] same_word_mod [OF assms(1)] last_word_index [OF assms(1,2)]
  define sm where "sm = push_bit (s mod 64) 1 - (1 :: u64)"
  define em where "em = (if (e - 1) mod 64 = 63 then 0 else NOT (push_bit ((e - 1) mod 64 + 1) 1 - 1) :: u64)"
  have m: "k < 64 \<Longrightarrow> bit sm k \<longleftrightarrow> k < s mod 64" "k < 64 \<Longrightarrow> bit em k \<longleftrightarrow> (e - 1) mod 64 < k" for k
    unfolding sm_def em_def by (rule bit_below_mask bit_above_mask; simp)+
  have u: "ba_UnsetRange ws s e =
      (if s div 64 = (e - 1) div 64 then ws[s div 64 := ws ! (s div 64) AND (sm OR em)]
       else let m2 = fill_words 0 (s div 64 + 1) ((e - 1) div 64) (ws[s div 64 := ws ! (s div 64) AND sm])
            in m2[(e - 1) div 64 := m2 ! ((e - 1) div 64) AND em])"
    unfolding ba_UnsetRange_def Let_def sm_def [symmetric] em_def [symmetric] using assms(1,2) by simp
  have "bits_of (ba_UnsetRange ws s e) ! i = (if s \<le> i \<and> i < e then False else bit (ws ! (i div 64)) (i mod 64))"
  proof (rule words_interval [OF assms(1,2) _ assms(3)])
    fix j k :: nat
    assume "j < length ws" "k < 64"
    then show "bit (ba_UnsetRange ws s e ! j) k = (if (s div 64 < j \<or> (s div 64 = j \<and> s mod 64 \<le> k)) \<and>
          (j < (e - 1) div 64 \<or> (j = (e - 1) div 64 \<and> k \<le> (e - 1) mod 64)) then False else bit (ws ! j) k)"
      using assms(1,2) w
      by (auto simp: u Let_def fill_words_def nth_list_update fold_update bit_or_iff bit_and_iff m)
  qed simp
  then show ?thesis using nth_bits_of [OF assms(3)] by auto
qed

lemma copy_bits:
  assumes "s < e" "e \<le> ba_size ws" "i < ba_size ws"
  shows "bits_of (ba_copy ws s e) ! i \<longleftrightarrow> (s \<le> i \<and> i < e) \<and> bits_of ws ! i"
proof -
  note w = first_le_last_word [OF assms(1)] same_word_mod [OF assms(1)] last_word_index [OF assms(1,2)]
  have "bits_of (ba_copy ws s e) ! i = (if s \<le> i \<and> i < e then bit (ws ! (i div 64)) (i mod 64) else False)"
  proof (rule words_interval [OF assms(1,2) _ assms(3)])
    fix j k :: nat
    assume "j < length ws" "k < 64"
    then show "bit (ba_copy ws s e ! j) k = (if (s div 64 < j \<or> (s div 64 = j \<and> s mod 64 \<le> k)) \<and>
          (j < (e - 1) div 64 \<or> (j = (e - 1) div 64 \<and> k \<le> (e - 1) mod 64)) then bit (ws ! j) k else False)"
      using assms(1,2) w
      by (auto simp: ba_copy_def Let_def nth_list_update fold_update bit_and_iff
          bit_upto_mask bit_from_mask simp del: push_bit_minus_one_eq_not_mask bit.compl_zero)
  qed simp
  then show ?thesis using nth_bits_of [OF assms(3)] by auto
qed

lemma None_bits: "ba_None ws \<longleftrightarrow> (\<forall>i < ba_size ws. \<not> bits_of ws ! i)"
proof -
  have f: "fold (\<lambda>w c. c OR w) ws c = 0 \<longleftrightarrow> c = 0 \<and> (\<forall>w \<in> set ws. w = 0)" for c :: u64
    by (induction ws arbitrary: c) (auto simp: or_eq_0_iff)
  have z: "w = 0 \<longleftrightarrow> (\<forall>k < 64. \<not> bit w k)" for w :: u64
    by (auto simp: bit_eq_iff dest: bit_imp_le_length)
  have "(\<forall>i < ba_size ws. \<not> bits_of ws ! i) \<longleftrightarrow> (\<forall>x \<in> set (bits_of ws). \<not> x)"
    by (auto simp: in_set_conv_nth)
  also have "\<dots> \<longleftrightarrow> (\<forall>w \<in> set ws. w = 0)" by (auto simp: bits_of_def wbits_def z)
  finally show ?thesis by (simp add: ba_None_def f)
qed

section \<open>Runs\<close>

definition run :: "(bool \<Rightarrow> bool) \<Rightarrow> bool list \<Rightarrow> nat" where
  "run P bs = length (takeWhile P bs)"

lemma run_le [simp]: "run P bs \<le> length bs"
  by (simp add: run_def length_takeWhile_le)

lemma run_append: "run P (xs @ ys) = (if run P xs = length xs then length xs + run P ys else run P xs)"
proof (induction xs)
  case (Cons x xs)
  then show ?case by (auto simp: run_def)
qed (simp add: run_def)

lemma run_replicate [simp]: "run Not (replicate n False) = n" "run (\<lambda>x. x) (replicate n False) = 0"
  by (induction n) (simp_all add: run_def)

lemma run_drop: "n \<le> run P xs \<Longrightarrow> run P (drop n xs) = run P xs - n"
proof (induction n arbitrary: xs)
  case (Suc n)
  then show ?case by (cases xs) (auto simp: run_def split: if_splits)
qed simp

lemma countr_zero_run: "countr_zero w = run Not (wbits w)"
  by (simp add: countr_zero_def run_def wbits_def takeWhile_map o_def)

lemma countr_one_run: "countr_one w = run (\<lambda>x. x) (wbits w)"
  by (simp add: countr_one_def run_def wbits_def takeWhile_map o_def)

lemma countl_zero_run: "countl_zero w = run Not (rev (wbits w))"
  by (simp add: countl_zero_def run_def wbits_def rev_map takeWhile_map o_def)

lemma countl_one_run: "countl_one w = run (\<lambda>x. x) (rev (wbits w))"
  by (simp add: countl_one_def run_def wbits_def rev_map takeWhile_map o_def)

lemma run_all: "run P xs = length xs \<longleftrightarrow> (\<forall>x \<in> set xs. P x)"
proof (induction xs)
  case (Cons x xs)
  then show ?case by (auto simp: run_def)
qed (simp add: run_def)

lemma wbits_zero: "(\<forall>x \<in> set (wbits w). \<not> x) \<longleftrightarrow> w = 0"
  by (auto simp: wbits_def bit_eq_iff dest: bit_imp_le_length)

lemma wbits_full: "(\<forall>x \<in> set (wbits w). x) \<longleftrightarrow> w = NOT 0"
proof -
  have "w = NOT 0 \<longleftrightarrow> (\<forall>k < 64. bit w k)" by (auto simp: bit_eq_iff bit_not_iff)
  then show ?thesis by (auto simp: wbits_def)
qed

lemma run_wbits_zero: "run Not (wbits w) = 64 \<longleftrightarrow> w = 0"
  using run_all [of Not "wbits w"] wbits_zero [of w] by simp

lemma run_wbits_full: "run (\<lambda>x. x) (wbits w) = 64 \<longleftrightarrow> w = NOT 0"
  using run_all [of "\<lambda>x. x" "wbits w"] wbits_full [of w] by simp

lemma run_rwbits_zero: "run Not (rev (wbits w)) = 64 \<longleftrightarrow> w = 0"
  using run_all [of Not "rev (wbits w)"] wbits_zero [of w] by simp

lemma run_rwbits_full: "run (\<lambda>x. x) (rev (wbits w)) = 64 \<longleftrightarrow> w = NOT 0"
  using run_all [of "\<lambda>x. x" "rev (wbits w)"] wbits_full [of w] by simp

section \<open>First ranges\<close>

lemma first_word_run:
  "case first_word i w rest of
     None \<Rightarrow> run Not (wbits w @ bits_of rest) = 64 + ba_size rest
   | Some (j, v) \<Rightarrow> run Not (wbits w @ bits_of rest) = 64 * (j - i) + countr_zero v \<and> countr_zero v < 64 \<and> i \<le> j \<and>
       j - i \<le> length rest \<and> v = (w # rest) ! (j - i)"
proof (induction i w rest rule: first_word.induct)
  case (1 i w)
  have "run Not (wbits w) \<le> 64" using run_le [of Not "wbits w"] by simp
  then show ?case using run_wbits_zero [of w] by (auto simp: countr_zero_run ba_size_def run_def)
next
  case (2 i w v rest)
  show ?case
  proof (cases "w = 0")
    case True
    then have r: "run Not (wbits w @ bits_of (v # rest)) = 64 + run Not (bits_of (v # rest))"
      using run_wbits_zero [of w] by (simp add: run_append)
    show ?thesis
    proof (cases "first_word (i + 1) v rest")
      case None
      then show ?thesis using "2.IH" [OF True] True r by (simp add: ba_size_def)
    next
      case (Some jv)
      obtain j x where jv: "jv = (j, x)" by (cases jv)
      have ih: "run Not (wbits v @ bits_of rest) = 64 * (j - (i + 1)) + countr_zero x" "countr_zero x < 64" "i + 1 \<le> j"
        "j - (i + 1) \<le> length rest" "x = (v # rest) ! (j - (i + 1))"
        using "2.IH" [OF True] unfolding Some jv option.case prod.case by blast+
      obtain t where t: "j = i + 1 + t" using ih(3) le_Suc_ex by blast
      have "first_word i w (v # rest) = Some (j, x)" using True Some jv by simp
      then show ?thesis using r ih unfolding t by (simp del: first_word.simps)
    qed
  next
    case False
    have "run Not (wbits w) < 64" using run_le [of Not "wbits w"] run_wbits_zero [of w] False by simp
    then show ?thesis using False by (simp add: run_append countr_zero_run)
  qed
qed

lemma ones_end_run: "ones_end i ws = 64 * i + run (\<lambda>x. x) (bits_of ws)"
proof (induction i ws rule: ones_end.induct)
  case (2 i w ws)
  have "run (\<lambda>x. x) (wbits w) \<le> 64" using run_le [of _ "wbits w"] by simp
  then show ?case using 2 run_wbits_full [of w] by (auto simp: run_append countr_one_run)
qed (simp add: run_def)

lemma wbits_masked: "s \<le> 64 \<Longrightarrow> wbits (w AND push_bit s (NOT 0)) = replicate s False @ drop s (wbits w)"
proof (rule nth_equalityI)
  fix k assume "s \<le> 64" "k < length (wbits (w AND push_bit s (NOT 0)))"
  then show "wbits (w AND push_bit s (NOT 0)) ! k = (replicate s False @ drop s (wbits w)) ! k"
    using bit_from_mask [of k s]
    by (auto simp: nth_append bit_and_iff simp del: push_bit_minus_one_eq_not_mask bit.compl_zero)
qed simp

lemma wbits_shifted: "n \<le> 64 \<Longrightarrow> wbits (drop_bit n w) = drop n (wbits w) @ replicate n False"
proof (rule nth_equalityI)
  fix k assume "n \<le> 64" "k < length (wbits (drop_bit n w))"
  then show "wbits (drop_bit n w) ! k = (drop n (wbits w) @ replicate n False) ! k"
    using bit_imp_le_length [of w "n + k"] by (auto simp: nth_append bit_drop_bit_eq less_diff_conv add.commute)
qed simp

lemma bits_of_split:
  "j < length ws \<Longrightarrow> bits_of ws = bits_of (take j ws) @ wbits (ws ! j) @ bits_of (drop (j + 1) ws)"
  by (subst id_take_nth_drop [of j ws]) simp_all

lemma drop_bits_of:
  assumes "j < length ws" "n \<le> 64"
  shows "drop (64 * j + n) (bits_of ws) = drop n (wbits (ws ! j)) @ bits_of (drop (j + 1) ws)"
proof -
  have l: "length (bits_of (take j ws)) = 64 * j" using assms(1) by (simp add: ba_size_def)
  show ?thesis by (subst bits_of_split [OF assms(1)]) (simp add: l[unfolded length_bits_of] assms(2))
qed

text \<open>The run of ones that begins at a given bit of a word.\<close>

lemma ones_from:
  assumes "j < length ws" "b < 64"
  shows "(if b + countr_one (drop_bit b (ws ! j)) < 64 then 64 * j + b + countr_one (drop_bit b (ws ! j))
      else ones_end (j + 1) (drop (j + 1) ws)) = 64 * j + b + run (\<lambda>x. x) (drop (64 * j + b) (bits_of ws))"
proof -
  let ?d = "drop b (wbits (ws ! j))"
  have c: "countr_one (drop_bit b (ws ! j)) = run (\<lambda>x. x) ?d"
    using assms(2) by (simp add: countr_one_run wbits_shifted run_append)
  have "run (\<lambda>x. x) ?d \<le> 64 - b" using run_le [of "\<lambda>x. x" ?d] by simp
  then show ?thesis using assms
    by (auto simp: c drop_bits_of run_append ones_end_run)
qed

definition scan_first :: "bool list \<Rightarrow> nat \<Rightarrow> nat \<times> nat" where
  "scan_first bs start =
    (let a = start + run Not (drop start bs) in (a, a + run (\<lambda>x. x) (drop a bs)))"

lemma FirstRangeFrom_scan:
  assumes "start < ba_size ws"
  shows "FirstRangeFrom ws start = scan_first (bits_of ws) start"
proof -
  define i s where "i = start div 64" and "s = start mod 64"
  have st: "start = 64 * i + s" "s < 64" by (simp_all add: i_def s_def)
  have i: "i < length ws" using assms by (simp add: i_def word_index)
  let ?w = "ws ! i AND push_bit s (NOT 0)" and ?rest = "drop (i + 1) ws"
  have B: "wbits ?w @ bits_of ?rest = replicate s False @ drop start (bits_of ws)"
    using st i by (simp add: wbits_masked drop_bits_of del: push_bit_minus_one_eq_not_mask bit.compl_zero)
  then have r: "run Not (wbits ?w @ bits_of ?rest) = s + run Not (drop start (bits_of ws))"
    by (simp only: run_append) simp
  have n: "64 + ba_size ?rest = s + (ba_size ws - start)"
    using arg_cong [OF B, of length] st by (simp add: ba_size_def)
  note f = first_word_run [where i = i and w = ?w and rest = ?rest]
  show ?thesis
  proof (cases "first_word i ?w ?rest")
    case None
    then have "run Not (drop start (bits_of ws)) = ba_size ws - start" using f r n by simp
    then have a: "start + run Not (drop start (bits_of ws)) = ba_size ws" using assms by simp
    have "FirstRangeFrom ws start = (ba_size ws, ba_size ws)"
      using None assms unfolding FirstRangeFrom_def Let_def i_def [symmetric] s_def [symmetric] by simp
    then show ?thesis unfolding scan_first_def Let_def a by (simp add: run_def)
  next
    case (Some jv)
    obtain j v where jv: "jv = (j, v)" by (cases jv)
    have j: "s + run Not (drop start (bits_of ws)) = 64 * (j - i) + countr_zero v" "countr_zero v < 64" "i \<le> j"
      "j - i \<le> length ?rest" using f unfolding Some jv option.case prod.case r by blast+
    have jl: "j < length ws" using j(3,4) i by simp
    have a: "start + run Not (drop start (bits_of ws)) = 64 * j + countr_zero v" using j(1,3) st(1) by simp
    have m: "(j * 64 + countr_zero v) mod 64 = countr_zero v" using j(2) by simp
    have "FirstRangeFrom ws start = (64 * j + countr_zero v,
        if countr_zero v + countr_one (drop_bit (countr_zero v) (ws ! j)) < 64
        then 64 * j + countr_zero v + countr_one (drop_bit (countr_zero v) (ws ! j))
        else ones_end (j + 1) (drop (j + 1) ws))"
      using Some jv assms unfolding FirstRangeFrom_def Let_def i_def [symmetric] s_def [symmetric]
      by (simp add: m j(2) add.commute [of _ "countr_zero v"] mult.commute [of j])
    then show ?thesis unfolding scan_first_def Let_def a ones_from [OF jl j(2)] .
  qed
qed


section \<open>Last ranges\<close>

text \<open>The bits from the last to the first, for the words before the current one, nearest first.\<close>

definition rbits_of :: "u64 list \<Rightarrow> bool list" where
  "rbits_of ws = concat (map (\<lambda>w. rev (wbits w)) ws)"

lemma rbits_of_simps [simp]: "rbits_of [] = []" "rbits_of (w # ws) = rev (wbits w) @ rbits_of ws"
  by (simp_all add: rbits_of_def)

lemma rev_bits_of: "rev (bits_of ws) = rbits_of (rev ws)"
  by (simp add: bits_of_def rbits_of_def rev_concat rev_map o_def)

lemma length_rbits_of [simp]: "length (rbits_of ws) = 64 * length ws"
  by (induction ws) simp_all

lemma drop_rbits_of:
  "k < length ws \<Longrightarrow> n \<le> 64 \<Longrightarrow> drop (64 * k + n) (rbits_of ws) = drop n (rev (wbits (ws ! k))) @ rbits_of (drop (k + 1) ws)"
proof (induction ws arbitrary: k)
  case (Cons w ws)
  then show ?case by (cases k) simp_all
qed simp

lemma last_word_run:
  "length rest = i \<Longrightarrow>
   case last_word i w rest of
     None \<Rightarrow> run Not (rbits_of (w # rest)) = 64 * (i + 1)
   | Some (j, v) \<Rightarrow> run Not (rbits_of (w # rest)) = 64 * (i - j) + countl_zero v \<and> countl_zero v < 64 \<and> j \<le> i \<and>
       v = (w # rest) ! (i - j)"
proof (induction i w rest rule: last_word.induct)
  case (1 i w)
  have "run Not (rev (wbits w)) \<le> 64" using run_le [of Not "rev (wbits w)"] by simp
  then show ?case using run_rwbits_zero [of w] 1 by (auto simp: countl_zero_run)
next
  case (2 i w v rest)
  obtain n where n: "i = Suc n" using 2(2) by (cases i) simp_all
  show ?case
  proof (cases "w = 0")
    case True
    then have r: "run Not (rbits_of (w # v # rest)) = 64 + run Not (rbits_of (v # rest))"
      using run_rwbits_zero [of w] by (simp add: run_append)
    have l: "length rest = i - 1" using 2(2) by simp
    show ?thesis
    proof (cases "last_word (i - 1) v rest")
      case None
      then show ?thesis using "2.IH" [OF True l] True r n by simp
    next
      case (Some jv)
      obtain j x where jv: "jv = (j, x)" by (cases jv)
      have ih: "run Not (rbits_of (v # rest)) = 64 * (n - j) + countl_zero x" "countl_zero x < 64" "j \<le> n"
        "x = (v # rest) ! (n - j)"
        using "2.IH" [OF True l, unfolded n diff_Suc_1, unfolded Some [unfolded n diff_Suc_1] jv option.case prod.case] by blast+
      have "last_word i w (v # rest) = Some (j, x)" using True Some jv by simp
      moreover have "i - j = Suc (n - j)" using ih(3) n by simp
      ultimately show ?thesis using r ih n by (simp del: last_word.simps rbits_of_simps)
    qed
  next
    case False
    have "run Not (rev (wbits w)) < 64" using run_le [of Not "rev (wbits w)"] run_rwbits_zero [of w] False by simp
    then show ?thesis using False by (simp add: run_append countl_zero_run)
  qed
qed

lemma ones_start_run: "length ws = i \<Longrightarrow> ones_start i ws = 64 * i - run (\<lambda>x. x) (rbits_of ws)"
proof (induction i ws rule: ones_start.induct)
  case (2 i w ws)
  have "run (\<lambda>x. x) (rev (wbits w)) \<le> 64" using run_le [of _ "rev (wbits w)"] by simp
  then show ?case using 2 run_rwbits_full [of w] by (auto simp: run_append countl_one_run)
qed simp

lemma wbits_upto: "e < 64 \<Longrightarrow> rev (wbits (w AND upto_mask e)) = replicate (63 - e) False @ rev (take (e + 1) (wbits w))"
proof -
  assume e: "e < 64"
  have "wbits (w AND upto_mask e) = take (e + 1) (wbits w) @ replicate (63 - e) False"
    using e by (intro nth_equalityI) (auto simp: nth_append bit_and_iff bit_upto_mask)
  then show ?thesis by simp
qed

lemma wbits_left: "n \<le> 64 \<Longrightarrow> rev (wbits (push_bit n w)) = drop n (rev (wbits w)) @ replicate n False"
proof -
  assume n: "n \<le> 64"
  have "wbits (push_bit n w) = replicate n False @ take (64 - n) (wbits w)"
    using n by (intro nth_equalityI) (auto simp: nth_append bit_push_bit_iff)
  then show ?thesis by (simp add: drop_rev)
qed

definition scan_last :: "bool list \<Rightarrow> nat \<Rightarrow> nat \<times> nat" where
  "scan_last bs e =
    (let l = e - run Not (rev (take e bs)) in (l - run (\<lambda>x. x) (rev (take l bs)), l))"

lemma take_bits_of:
  assumes "i < length ws" "n \<le> 64"
  shows "take (64 * i + n) (bits_of ws) = bits_of (take i ws) @ take n (wbits (ws ! i))"
proof -
  have l: "length (bits_of (take i ws)) = 64 * i" using assms(1) by (simp add: ba_size_def)
  show ?thesis by (subst bits_of_split [OF assms(1)]) (simp add: l[unfolded length_bits_of] assms(2))
qed

lemma LastRangeFrom_scan:
  assumes "ws \<noteq> []"
  shows "LastRangeFrom ws e = scan_last (bits_of ws) (min e (ba_size ws))"
proof (cases "min e (ba_size ws) = 0")
  case True
  then have "e = 0" using assms by (simp add: ba_size_def min_def split: if_splits)
  then show ?thesis by (simp add: LastRangeFrom_def scan_last_def run_def)
next
  case nz: False
  define E i b where "E = min e (ba_size ws)" and "i = (E - 1) div 64" and "b = (E - 1) mod 64"
  have z: "0 < E" "e \<noteq> 0" "E \<le> ba_size ws" using nz unfolding E_def by simp_all
  moreover have "E - 1 = 64 * i + b" "b < 64" by (simp_all add: i_def b_def)
  ultimately have E: "E = 64 * i + (b + 1)" "b < 64" "e \<noteq> 0" "E \<le> ba_size ws" by linarith+
  have i: "i < length ws" unfolding i_def using z(1,3) by (rule last_word_index)
  let ?w = "ws ! i AND upto_mask b" and ?rest = "rev (take i ws)" and ?T = "rev (take E (bits_of ws))"
  have B: "rbits_of (?w # ?rest) = replicate (63 - b) False @ ?T"
    using take_bits_of [OF i, of "b + 1"] E(1,2) by (simp add: wbits_upto rev_bits_of)
  have r: "run Not (rbits_of (?w # ?rest)) = 63 - b + run Not ?T" unfolding B run_append by simp
  have lr: "length ?rest = i" using i by simp
  note f = last_word_run [OF lr, of ?w]
  have U: "LastRangeFrom ws e = (case last_word i ?w ?rest of None \<Rightarrow> (0, 0)
      | Some (i, word) \<Rightarrow>
         let empty_bits = countl_zero word; ones = countl_one (push_bit empty_bits word); last = (i + 1) * 64 - empty_bits
         in if empty_bits + ones < 64 then (last - ones, last) else (ones_start i (rev (take i ws)), last))"
    using E(3) unfolding LastRangeFrom_def by (simp only: Let_def E_def [symmetric] i_def [symmetric] b_def [symmetric] if_False)
  show ?thesis unfolding E_def [symmetric]
  proof (cases "last_word i ?w ?rest")
    case None
    then have "run Not ?T = E" using f r E(1,2) by simp
    then show "LastRangeFrom ws e = scan_last (bits_of ws) E" using U None by (simp add: scan_last_def run_def)
  next
    case (Some jv)
    obtain j v where jv: "jv = (j, v)" by (cases jv)
    have j: "63 - b + run Not ?T = 64 * (i - j) + countl_zero v" "countl_zero v < 64" "j \<le> i" "v = (?w # ?rest) ! (i - j)"
      using f unfolding Some jv option.case prod.case r by blast+
    let ?c = "countl_zero v" and ?o = "countl_one (push_bit (countl_zero v) v)"
    let ?l = "E - run Not ?T" and ?d = "drop (countl_zero v) (rev (wbits v))"
    have l: "?l = (j + 1) * 64 - ?c" using j(1-3) E(1,2) by (simp add: diff_mult_distrib2)
    have len: "length (take E (bits_of ws)) = E" using E(4) by simp
    have "rev (take ?l (bits_of ws)) = drop (run Not ?T) ?T"
      unfolding drop_rev len by simp
    also have "\<dots> = drop (64 * (i - j) + ?c) (rbits_of (?w # ?rest))" unfolding j(1) [symmetric] B by simp
    also have "\<dots> = ?d @ rbits_of (drop (i - j) ?rest)"
      using drop_rbits_of [of "i - j" "?w # ?rest" ?c] j lr by (simp del: rbits_of_simps)
    also have "drop (i - j) ?rest = rev (take j ws)" using j(3) i by (simp add: drop_rev min_def)
    finally have R: "rev (take ?l (bits_of ws)) = ?d @ rbits_of (rev (take j ws))" .
    have o: "?o = run (\<lambda>x. x) ?d" using j(2) by (simp add: countl_one_run wbits_left run_append)
    have le: "run (\<lambda>x. x) ?d \<le> 64 - ?c" using run_le [of "\<lambda>x. x" ?d] by simp
    have os: "ones_start j (rev (take j ws)) = 64 * j - run (\<lambda>x. x) (rbits_of (rev (take j ws)))"
      using i j(3) by (intro ones_start_run) simp
    have "(if ?c + ?o < 64 then ?l - ?o else ones_start j (rev (take j ws))) = ?l - run (\<lambda>x. x) (rev (take ?l (bits_of ws)))"
      unfolding R run_append o os using le j(2) by (auto simp: l)
    then show "LastRangeFrom ws e = scan_last (bits_of ws) E"
      unfolding U Some jv option.case prod.case Let_def scan_last_def l [symmetric] by (simp split: if_splits)
  qed
qed

end
