(* ===== verification/BitArrayProps.thy ===== *)
theory BitArrayProps
  imports BitArray
begin

text \<open>
  The word-at-a-time operations of the bit array are equivalent to bit-by-bit descriptions on the list of
  bits, and the range-based \<open>for\<close> over an array ends after visiting exactly its maximal runs of ones.
\<close>

unbundle bit_operations_syntax

section \<open>Reference definitions on the list of bits\<close>

definition mark :: "bool \<Rightarrow> bool list \<Rightarrow> nat \<Rightarrow> nat \<Rightarrow> bool list" where
  "mark v bs s e = (if s < e \<and> e \<le> length bs then take s bs @ replicate (e - s) v @ drop e bs else bs)"

definition excerpt :: "bool list \<Rightarrow> nat \<Rightarrow> nat \<Rightarrow> bool list" where
  "excerpt bs s e =
    (if s < e \<and> e \<le> length bs then replicate s False @ take (e - s) (drop s bs) @ replicate (length bs - e) False
     else replicate (length bs) False)"

lemma length_mark [simp]: "length (mark v bs s e) = length bs"
  by (simp add: mark_def)

lemma length_excerpt [simp]: "length (excerpt bs s e) = length bs"
  by (auto simp: excerpt_def)

lemma nth_mark:
  "s < e \<Longrightarrow> e \<le> length bs \<Longrightarrow> i < length bs \<Longrightarrow> mark v bs s e ! i = (if s \<le> i \<and> i < e then v else bs ! i)"
  by (auto simp: mark_def nth_append)

lemma nth_excerpt:
  "s < e \<Longrightarrow> e \<le> length bs \<Longrightarrow> i < length bs \<Longrightarrow> excerpt bs s e ! i = ((s \<le> i \<and> i < e) \<and> bs ! i)"
  by (auto simp: excerpt_def nth_append)

lemma size_ranges [simp]:
  "ba_size (ba_SetRange ws s e) = ba_size ws" "ba_size (ba_UnsetRange ws s e) = ba_size ws" "ba_size (ba_copy ws s e) = ba_size ws"
  by (simp_all add: ba_size_def)

lemma bits_of_replicate: "bits_of (replicate n w) = concat (replicate n (wbits w))"
  by (simp add: bits_of_def)

lemma wbits_const: "wbits 0 = replicate 64 False" "wbits (NOT 0) = replicate 64 True"
  by (rule nth_equalityI; simp add: bit_simps)+

lemma concat_replicate_const: "concat (replicate n (replicate k x)) = replicate (k * n) x"
  by (induction n) (simp_all add: replicate_add)

lemma bits_const:
  "bits_of (ba_Clear ws) = replicate (ba_size ws) False" "bits_of (ba_Fill ws) = replicate (ba_size ws) True"
  by (simp_all only: ba_Clear_def ba_Fill_def bits_of_replicate wbits_const concat_replicate_const ba_size_def)

lemma SetRange_mark: "bits_of (ba_SetRange ws s e) = mark True (bits_of ws) s e"
proof (cases "s < e \<and> e \<le> ba_size ws")
  case True
  then show ?thesis by (intro nth_equalityI) (auto simp: SetRange_bits nth_mark)
qed (auto simp: ba_SetRange_def mark_def)

lemma UnsetRange_mark: "bits_of (ba_UnsetRange ws s e) = mark False (bits_of ws) s e"
proof (cases "s < e \<and> e \<le> ba_size ws")
  case True
  then show ?thesis by (intro nth_equalityI) (auto simp: UnsetRange_bits nth_mark)
qed (auto simp: ba_UnsetRange_def mark_def)

lemma copy_excerpt: "bits_of (ba_copy ws s e) = excerpt (bits_of ws) s e"
proof (cases "s < e \<and> e \<le> ba_size ws")
  case True
  then show ?thesis by (intro nth_equalityI) (simp_all add: copy_bits nth_excerpt)
next
  case False
  then show ?thesis using bits_const(1) [of ws] by (auto simp: ba_copy_def excerpt_def ba_Clear_def)
qed

text \<open>Single bits.\<close>

lemma update_bit:
  assumes "i < ba_size ws" "\<And>k. k < 64 \<Longrightarrow> bit v k = (if k = i mod 64 then x else bit (ws ! (i div 64)) k)"
  shows "bits_of (ws[i div 64 := v]) = (bits_of ws)[i := x]"
proof (rule nth_equalityI)
  fix j assume "j < length (bits_of (ws[i div 64 := v]))"
  then have j: "j < ba_size ws" by (simp add: ba_size_def)
  have eq: "j = i \<longleftrightarrow> j div 64 = i div 64 \<and> j mod 64 = i mod 64" by (metis div_mod_decomp)
  have "bits_of (ws[i div 64 := v]) ! j = bit (ws[i div 64 := v] ! (j div 64)) (j mod 64)"
    using j by (intro nth_bits_of) (simp add: ba_size_def)
  also have "\<dots> = (if j = i then x else bit (ws ! (j div 64)) (j mod 64))"
    using j assms by (auto simp: word_index nth_list_update eq)
  also have "\<dots> = (bits_of ws)[i := x] ! j" using j assms(1) by (simp add: nth_list_update nth_bits_of)
  finally show "bits_of (ws[i div 64 := v]) ! j = (bits_of ws)[i := x] ! j" .
qed (simp add: ba_size_def)

lemma Set_Unset_bit:
  assumes "i < ba_size ws"
  shows "bits_of (ba_Set ws i) = (bits_of ws)[i := True]" "bits_of (ba_Unset ws i) = (bits_of ws)[i := False]"
  unfolding ba_Set_def ba_Unset_def using assms by (auto intro!: update_bit simp: bit_simps split: if_splits)

lemma xor_not_bits:
  "length vs = length ws \<Longrightarrow> bits_of (ba_xor ws vs) = map2 (\<noteq>) (bits_of ws) (bits_of vs)"
  "bits_of (ba_not ws) = map Not (bits_of ws)"
proof -
  have x: "wbits (a XOR b) = map2 (\<noteq>) (wbits a) (wbits b)" for a b
    by (rule nth_equalityI) (simp_all add: bit_simps)
  have n: "wbits (NOT a) = map Not (wbits a)" for a
    by (rule nth_equalityI) (simp_all add: bit_simps)
  show "length vs = length ws \<Longrightarrow> bits_of (ba_xor ws vs) = map2 (\<noteq>) (bits_of ws) (bits_of vs)"
    unfolding ba_xor_def by (induction vs ws rule: list_induct2) (simp_all add: x)
  show "bits_of (ba_not ws) = map Not (bits_of ws)"
    unfolding ba_not_def by (induction ws) (simp_all add: n)
qed

section \<open>Iteration\<close>

text \<open>
  The loop \<open>for (auto [first, last] : bits)\<close>: \<open>begin\<close> scans from 0, each step from the end of the range
  before, until the iterator equals \<open>end\<close>. The first argument bounds the number of steps.
\<close>

fun ba_iterate :: "nat \<Rightarrow> u64 list \<Rightarrow> nat \<times> nat \<Rightarrow> (nat \<times> nat) list option" where
  "ba_iterate fuel ws r =
    (if r = FirstRangeFrom ws (ba_size ws) then Some []
     else case fuel of
       0 \<Rightarrow> None
     | Suc n \<Rightarrow> map_option ((#) r) (ba_iterate n ws (FirstRangeFrom ws (snd r))))"

declare ba_iterate.simps [simp del]

definition ba_ranges :: "u64 list \<Rightarrow> (nat \<times> nat) list option" where
  "ba_ranges ws = ba_iterate (ba_size ws) ws (FirstRangeFrom ws 0)"

lemma FirstRangeFrom_end: "FirstRangeFrom ws (ba_size ws) = (ba_size ws, ba_size ws)"
  by (simp add: FirstRangeFrom_def Let_def)

lemma run_nth: "i < run P xs \<Longrightarrow> P (xs ! i)"
  unfolding run_def by (metis nth_mem set_takeWhileD takeWhile_nth)

lemma run_stop: "run P xs < length xs \<Longrightarrow> \<not> P (xs ! run P xs)"
  unfolding run_def by (rule nth_length_takeWhile)

text \<open>What one scan finds.\<close>

lemma FirstRangeFrom_spec:
  assumes "s \<le> ba_size ws" "FirstRangeFrom ws s = (a, b)"
  shows "s \<le> a \<and> a \<le> b \<and> b \<le> ba_size ws \<and> (a < ba_size ws \<longrightarrow> a < b) \<and>
    (\<forall>i. s \<le> i \<and> i < a \<longrightarrow> \<not> bits_of ws ! i) \<and> (\<forall>i. a \<le> i \<and> i < b \<longrightarrow> bits_of ws ! i) \<and>
    (b < ba_size ws \<longrightarrow> \<not> bits_of ws ! b)"
proof (cases "s = ba_size ws")
  case True
  then show ?thesis using assms FirstRangeFrom_end by auto
next
  case False
  then have s: "s < ba_size ws" using assms(1) by simp
  let ?z = "run Not (drop s (bits_of ws))" and ?o = "run (\<lambda>x. x) (drop a (bits_of ws))"
  have ab: "a = s + ?z" "b = a + ?o"
    using assms(2) FirstRangeFrom_scan [OF s] unfolding scan_first_def Let_def by auto
  have l: "?z \<le> ba_size ws - s" "?o \<le> ba_size ws - a" using run_le [of Not "drop s (bits_of ws)"]
      run_le [of "\<lambda>x. x" "drop a (bits_of ws)"] by simp_all
  have 1: "\<not> bits_of ws ! i" if "s \<le> i" "i < a" for i
    using run_nth [of "i - s" Not "drop s (bits_of ws)"] that ab(1) l(1) s by simp
  have 2: "bits_of ws ! i" if "a \<le> i" "i < b" for i
    using run_nth [of "i - a" "\<lambda>x. x" "drop a (bits_of ws)"] that ab(2) l(2) by simp
  have 3: "bits_of ws ! a" if "a < ba_size ws"
    using run_stop [of Not "drop s (bits_of ws)"] that ab(1) by simp
  have 4: "\<not> bits_of ws ! b" if "b < ba_size ws"
    using run_stop [of "\<lambda>x. x" "drop a (bits_of ws)"] that ab(2) by simp
  have 5: "a < b" if "a < ba_size ws"
  proof (rule ccontr)
    assume "\<not> a < b"
    then have "b = a" using ab(2) by simp
    then show False using 3 4 that by simp
  qed
  show ?thesis using ab l s 1 2 4 5 by auto
qed

lemma ba_iterate_runs:
  "s \<le> ba_size ws \<Longrightarrow> ba_size ws - s \<le> fuel \<Longrightarrow>
   \<exists>rs. ba_iterate fuel ws (FirstRangeFrom ws s) = Some rs \<and> sorted_wrt (\<lambda>r q. snd r < fst q) rs \<and>
     (\<forall>(a, b) \<in> set rs. s \<le> a \<and> a < b \<and> b \<le> ba_size ws) \<and>
     (\<Union>(a, b) \<in> set rs. {a..<b}) = {i. s \<le> i \<and> i < ba_size ws \<and> bits_of ws ! i}"
proof (induction fuel arbitrary: s)
  case 0
  then have "s = ba_size ws" by simp
  then show ?case by (auto simp: ba_iterate.simps)
next
  case (Suc fuel)
  obtain a b where r: "FirstRangeFrom ws s = (a, b)" by (cases "FirstRangeFrom ws s")
  note f = FirstRangeFrom_spec [OF Suc.prems(1) r]
  show ?case
  proof (cases "a < ba_size ws")
    case False
    then have "a = ba_size ws" "b = ba_size ws" using f by auto
    then show ?thesis using f r FirstRangeFrom_end [of ws] by (intro exI [of _ "[]"]) (auto simp: ba_iterate.simps)
  next
    case True
    then have ab: "a < b" "b \<le> ba_size ws" "s \<le> a" using f by auto
    then have "ba_size ws - b \<le> fuel" using Suc.prems(2) by linarith
    from Suc.IH [OF ab(2) this] obtain rs where
      rs: "ba_iterate fuel ws (FirstRangeFrom ws b) = Some rs" "sorted_wrt (\<lambda>r q. snd r < fst q) rs"
        "\<forall>(c, d) \<in> set rs. b \<le> c \<and> c < d \<and> d \<le> ba_size ws"
        "(\<Union>(c, d) \<in> set rs. {c..<d}) = {i. b \<le> i \<and> i < ba_size ws \<and> bits_of ws ! i}" by blast
    have i: "ba_iterate (Suc fuel) ws (a, b) = Some ((a, b) # rs)"
      using True rs(1) by (subst ba_iterate.simps) (simp add: FirstRangeFrom_end)
    have gap: "b < fst q" if "q \<in> set rs" for q
    proof -
      obtain c d where q: "q = (c, d)" by (cases q)
      have c: "b \<le> c" "c < d" "d \<le> ba_size ws" using rs(3) that q by auto
      then have "c \<in> (\<Union>(c, d) \<in> set rs. {c..<d})" using that q by force
      then have "bits_of ws ! c" unfolding rs(4) by simp
      then have "c \<noteq> b" using f c by auto
      then show ?thesis using c(1) q by simp
    qed
    have "{i. s \<le> i \<and> i < ba_size ws \<and> bits_of ws ! i} = {a..<b} \<union> {i. b \<le> i \<and> i < ba_size ws \<and> bits_of ws ! i}"
      using f ab by (auto simp: not_le)
    then have u: "(\<Union>(c, d) \<in> set ((a, b) # rs). {c..<d}) = {i. s \<le> i \<and> i < ba_size ws \<and> bits_of ws ! i}"
      using rs(4) by simp
    show ?thesis unfolding r
      using i rs(2,3) gap ab u by (intro exI [of _ "(a, b) # rs"]) fastforce
  qed
qed

section \<open>Properties\<close>

text \<open>The operations that work on whole words do to the list of bits what they promise bit by bit:
  setting, clearing and copying a range (with an empty or overlong range ignored), filling and clearing,
  exclusive or, negation and the test for emptiness, and, for an index inside the array, reading, setting
  and clearing one bit.\<close>

lemma bit_array_ranges:
  assumes "length vs = length ws" "i < ba_size ws"
  shows "bits_of (ba_SetRange ws s e) = mark True (bits_of ws) s e \<and>
   bits_of (ba_UnsetRange ws s e) = mark False (bits_of ws) s e \<and>
   bits_of (ba_copy ws s e) = excerpt (bits_of ws) s e \<and>
   bits_of (ba_Clear ws) = replicate (ba_size ws) False \<and> bits_of (ba_Fill ws) = replicate (ba_size ws) True \<and>
   bits_of (ba_not ws) = map Not (bits_of ws) \<and> bits_of (ba_xor ws vs) = map2 (\<noteq>) (bits_of ws) (bits_of vs) \<and>
   ba_None ws = (bits_of ws = replicate (ba_size ws) False) \<and>
   ba_Get ws i = bits_of ws ! i \<and> bits_of (ba_Set ws i) = (bits_of ws)[i := True] \<and>
   bits_of (ba_Unset ws i) = (bits_of ws)[i := False]"
proof -
  have "ba_None ws \<longleftrightarrow> bits_of ws = replicate (ba_size ws) False"
    unfolding None_bits by (auto simp: list_eq_iff_nth_eq)
  then show ?thesis
    using SetRange_mark UnsetRange_mark copy_excerpt bits_const xor_not_bits assms ba_Get_bits Set_Unset_bit by simp
qed

text \<open>The scans. The word-at-a-time loops of \<open>FirstRangeFrom\<close> and \<open>LastRangeFrom\<close> return what a scan of
  the bits in increasing and in decreasing order finds: the nearest run of ones and where it ends.\<close>

lemma bit_array_scans:
  assumes "ws \<noteq> []"
  shows "FirstRangeFrom ws start = scan_first (bits_of ws) (min start (ba_size ws)) \<and>
    LastRangeFrom ws end = scan_last (bits_of ws) (min end (ba_size ws))"
proof -
  have "FirstRangeFrom ws start = scan_first (bits_of ws) (min start (ba_size ws))"
  proof (cases "start < ba_size ws")
    case True
    then show ?thesis using FirstRangeFrom_scan by simp
  next
    case False
    then show ?thesis by (simp add: FirstRangeFrom_def Let_def scan_first_def run_def min_def)
  qed
  then show ?thesis using LastRangeFrom_scan [OF assms] by simp
qed

text \<open>C38. Termination of the iteration. The loop over an array ends within as many steps as the array has
  bits; the ranges it visits are non-empty, in increasing order with a gap between any two, and cover
  exactly the bits that are set: they are the maximal runs.\<close>

theorem bit_array_iteration:
  "\<exists>rs. ba_ranges ws = Some rs \<and> sorted_wrt (\<lambda>r q. snd r < fst q) rs \<and> (\<Union>(a, b) \<in> set rs. {a..<b}) = {i. ba_size ws > i \<and> bits_of ws ! i} \<and>
    list_all (\<lambda>(a, b). a < b \<and> b \<le> ba_size ws) rs"
  using ba_iterate_runs [of 0 ws "ba_size ws"] unfolding ba_ranges_def list_all_iff by fastforce

lemma bit_array_ranges_witness:
  "bits_of (ba_xor [0xF0, 1] [2, 3]) = map2 (\<noteq>) (bits_of [0xF0, 1]) (bits_of [2, 3]) \<and>
   bits_of (ba_SetRange [0xF0, 1] 7 70) = mark True (bits_of [0xF0, 1]) 7 70 \<and>
   bits_of (ba_Set [0xF0, 1] 64) = (bits_of [0xF0, 1])[64 := True]"
  using bit_array_ranges [of "[2, 3]" "[0xF0, 1]" 64 7 70] by (simp add: ba_size_def del: bits_of_simps)

lemma bit_array_scans_witness:
  "FirstRangeFrom [0xF0, 0] 3 = scan_first (bits_of [0xF0, 0]) (min 3 (ba_size [0xF0, 0])) \<and>
   LastRangeFrom [0xF0, 0] 200 = scan_last (bits_of [0xF0, 0]) (min 200 (ba_size [0xF0, 0]))"
  by (rule bit_array_scans) simp

end
