(* ===== verification/PthreadSync.thy ===== *)
theory PthreadSync
  imports Machine
begin

text \<open>
  Mutexes and condition variables of \<open>src/kernel/pthread.cpp\<close>. A thread is its number; the null pointer is
  None. The first two sections have the critical sections of the two objects as functions, the third the
  step relation of any number of threads that share one mutex and one condition variable. Between two
  critical sections of a wait the source polls pending signals every ten milliseconds; the handlers this may run are
  guest code and not part of the model. \<open>wait_for\<close> may return at any time, and whether a deadline has
  passed is an argument.
\<close>

section \<open>Mutexes\<close>

datatype host_errno = HostOk | EAGAIN | EBUSY | EDEADLK | EPERM | ETIMEDOUT

record PthreadMutexPrivate =
  mx_owner :: "nat option"
  mx_count :: u32
  mx_type :: int
  mx_pprotocol :: int

definition new_mutex :: "int \<Rightarrow> int \<Rightarrow> PthreadMutexPrivate" where
  "new_mutex type pprotocol = \<lparr>mx_owner = None, mx_count = 0, mx_type = type, mx_pprotocol = pprotocol\<rparr>"

text \<open>
  Where a call of \<open>NativeMutexLock\<close> is: returned, in the single wait of a thread that already owns the mutex,
  in the wait of the loop, or between that wait and the next test of the owner. The time limit is None
  for the null pointer.
\<close>

datatype mx_place = MxRet host_errno | MxSelfSleep | MxSleep "u32 option" | MxPoll "u32 option"

definition mx_acquire :: "PthreadMutexPrivate \<Rightarrow> nat \<Rightarrow> PthreadMutexPrivate \<times> mx_place" where
  "mx_acquire m self = (m\<lparr>mx_owner := Some self, mx_count := 1\<rparr>, MxRet HostOk)"

definition mx_loop :: "PthreadMutexPrivate \<Rightarrow> nat \<Rightarrow> u32 option \<Rightarrow> bool \<Rightarrow> PthreadMutexPrivate \<times> mx_place" where
  "mx_loop m self timeout_us expired =
    (if mx_owner m \<noteq> None then
       if timeout_us \<noteq> None \<and> expired then (m, MxRet ETIMEDOUT) else (m, MxSleep timeout_us)
     else mx_acquire m self)"

definition mx_wake :: "PthreadMutexPrivate \<Rightarrow> nat \<Rightarrow> u32 option \<Rightarrow> PthreadMutexPrivate \<times> mx_place" where
  "mx_wake m self timeout_us = (if mx_owner m \<noteq> None then (m, MxPoll timeout_us) else mx_acquire m self)"

definition NativeMutexLock ::
  "PthreadMutexPrivate \<Rightarrow> nat \<Rightarrow> u32 option \<Rightarrow> bool \<Rightarrow> PthreadMutexPrivate \<times> mx_place" where
  "NativeMutexLock m self timeout_us expired =
    (if mx_owner m = Some self then
       if mx_type m = 2 then
         if mx_count m = UINT32_MAX then (m, MxRet EAGAIN) else (m\<lparr>mx_count := mx_count m + 1\<rparr>, MxRet HostOk)
       else case timeout_us of
         Some us \<Rightarrow> if 0 < us then (m, MxSelfSleep) else (m, MxRet ETIMEDOUT)
       | None \<Rightarrow> (m, MxRet EDEADLK)
     else if timeout_us = Some 0 then
       if mx_owner m \<noteq> None then (m, MxRet ETIMEDOUT) else mx_acquire m self
     else mx_loop m self timeout_us expired)"

definition NativeMutexTrylock :: "PthreadMutexPrivate \<Rightarrow> nat \<Rightarrow> PthreadMutexPrivate \<times> host_errno" where
  "NativeMutexTrylock m self =
    (if mx_owner m = Some self then
       if mx_type m = 2 then
         if mx_count m = UINT32_MAX then (m, EAGAIN) else (m\<lparr>mx_count := mx_count m + 1\<rparr>, HostOk)
       else (m, EBUSY)
     else if mx_owner m \<noteq> None then (m, EBUSY)
     else (m\<lparr>mx_owner := Some self, mx_count := 1\<rparr>, HostOk))"

text \<open>The flag says whether the pointer \<open>recurse\<close> is given; the last component is what is written through it.\<close>

definition NativeMutexUnlock ::
  "PthreadMutexPrivate \<Rightarrow> nat \<Rightarrow> bool \<Rightarrow> PthreadMutexPrivate \<times> host_errno \<times> u32" where
  "NativeMutexUnlock m self recurse =
    (if mx_owner m \<noteq> Some self then (m, EPERM, 0)
     else
       let m1 = (if recurse then m\<lparr>mx_count := 1\<rparr> else m)
       in if mx_type m1 = 2 \<and> 1 < mx_count m1 then (m1\<lparr>mx_count := mx_count m1 - 1\<rparr>, HostOk, mx_count m)
          else (m1\<lparr>mx_owner := None, mx_count := 0\<rparr>, HostOk, mx_count m))"

text \<open>The second critical section of \<open>NativeMutexLockRecurse\<close>.\<close>

definition mx_recount :: "PthreadMutexPrivate \<Rightarrow> u32 \<Rightarrow> PthreadMutexPrivate" where
  "mx_recount m recurse = m\<lparr>mx_count := max recurse 1\<rparr>"

text \<open>The results of the entry points.\<close>

fun lock_code :: "host_errno \<Rightarrow> int" where
  "lock_code HostOk = OK"
| "lock_code EAGAIN = KERNEL_ERROR_EAGAIN"
| "lock_code EDEADLK = KERNEL_ERROR_EDEADLK"
| "lock_code _ = KERNEL_ERROR_EINVAL"

fun timedlock_code :: "host_errno \<Rightarrow> int" where
  "timedlock_code HostOk = OK"
| "timedlock_code ETIMEDOUT = KERNEL_ERROR_ETIMEDOUT"
| "timedlock_code EAGAIN = KERNEL_ERROR_EAGAIN"
| "timedlock_code EDEADLK = KERNEL_ERROR_EDEADLK"
| "timedlock_code _ = KERNEL_ERROR_EINVAL"

fun trylock_code :: "host_errno \<Rightarrow> int" where
  "trylock_code HostOk = OK"
| "trylock_code EAGAIN = KERNEL_ERROR_EAGAIN"
| "trylock_code EBUSY = KERNEL_ERROR_EBUSY"
| "trylock_code _ = KERNEL_ERROR_EINVAL"

fun unlock_code :: "host_errno \<Rightarrow> int" where
  "unlock_code HostOk = OK"
| "unlock_code EPERM = KERNEL_ERROR_EPERM"
| "unlock_code _ = KERNEL_ERROR_EINVAL"

text \<open>Destroying: None is the null pointer, the second component the object that is left.\<close>

definition PthreadMutexDestroy :: "PthreadMutexPrivate option \<Rightarrow> int \<times> PthreadMutexPrivate option" where
  "PthreadMutexDestroy mutex =
    (case mutex of
       None \<Rightarrow> (KERNEL_ERROR_EINVAL, None)
     | Some m \<Rightarrow> if mx_owner m \<noteq> None then (KERNEL_ERROR_EBUSY, Some m) else (OK, None))"

text \<open>
  The time limit that the POSIX call makes of an absolute time, both times as seconds and nanoseconds.
  None is the error for an invalid time.
\<close>

definition posix_timedlock_usec :: "int \<times> int \<Rightarrow> int \<times> int \<Rightarrow> u32 option" where
  "posix_timedlock_usec abstime now =
    (if fst abstime < 0 \<or> snd abstime < 0 \<or> 1000000000 \<le> snd abstime then None
     else
       let sec = fst abstime - fst now; nsec = snd abstime - snd now;
           sec_delta = (if nsec < 0 then sec - 1 else sec);
           nsec_delta = (if nsec < 0 then nsec + 1000000000 else nsec)
       in if 0 < sec_delta \<or> (sec_delta = 0 \<and> 0 < nsec_delta) then
            let usec = (if uint UINT32_MAX div 1000000 < sec_delta then uint UINT32_MAX else sec_delta * 1000000)
            in Some (word_of_int (min (uint UINT32_MAX) (usec + nsec_delta div 1000)))
          else Some 0)"

section \<open>Condition variables\<close>

record PthreadCondPrivate =
  cv_sequence :: u64
  cv_waiters :: "nat list"

text \<open>What a condition variable uses of a thread: \<open>cond_sequence\<close>, and whether \<open>waiting_cond\<close> points to it.\<close>

record PthreadPrivate =
  pt_cond_sequence :: u64
  pt_waiting_cond :: bool

definition CondAddWaiter ::
  "PthreadCondPrivate \<times> PthreadPrivate list \<Rightarrow> nat \<Rightarrow> PthreadCondPrivate \<times> PthreadPrivate list" where
  "CondAddWaiter w thread =
    (case w of (c, ts) \<Rightarrow>
      (c\<lparr>cv_waiters := cv_waiters c @ [thread]\<rparr>, ts[thread := (ts ! thread)\<lparr>pt_waiting_cond := True\<rparr>]))"

definition CondRemoveWaiter ::
  "PthreadCondPrivate \<times> PthreadPrivate list \<Rightarrow> nat \<Rightarrow> PthreadCondPrivate \<times> PthreadPrivate list" where
  "CondRemoveWaiter w thread =
    (case w of (c, ts) \<Rightarrow>
      if thread \<notin> set (cv_waiters c) then (c, ts)
      else (c\<lparr>cv_waiters := remove1 thread (cv_waiters c)\<rparr>, ts[thread := (ts ! thread)\<lparr>pt_waiting_cond := False\<rparr>]))"

definition CondWakeWaiter ::
  "PthreadCondPrivate \<times> PthreadPrivate list \<Rightarrow> nat option \<Rightarrow> bool \<times> PthreadCondPrivate \<times> PthreadPrivate list" where
  "CondWakeWaiter w thread =
    (case w of (c, ts) \<Rightarrow>
      if thread = None \<and> cv_waiters c = [] then (False, c, ts)
      else
        let t = (case thread of None \<Rightarrow> hd (cv_waiters c) | Some t \<Rightarrow> t)
        in if t \<notin> set (cv_waiters c) then (False, c, ts)
           else (True, c\<lparr>cv_waiters := remove1 t (cv_waiters c)\<rparr>,
             ts[t := \<lparr>pt_cond_sequence = pt_cond_sequence (ts ! t) + 1, pt_waiting_cond = False\<rparr>]))"

definition CondClearWaiters ::
  "PthreadCondPrivate \<times> PthreadPrivate list \<Rightarrow> PthreadCondPrivate \<times> PthreadPrivate list" where
  "CondClearWaiters w =
    (case w of (c, ts) \<Rightarrow>
      (c\<lparr>cv_waiters := []\<rparr>, fold (\<lambda>t ts. ts[t := (ts ! t)\<lparr>pt_waiting_cond := False\<rparr>]) (cv_waiters c) ts))"

definition PthreadCondBroadcast ::
  "PthreadCondPrivate \<times> PthreadPrivate list \<Rightarrow> int \<times> PthreadCondPrivate \<times> PthreadPrivate list" where
  "PthreadCondBroadcast w =
    (case w of (c, ts) \<Rightarrow>
      (OK, if cv_waiters c \<noteq> [] then CondClearWaiters (c\<lparr>cv_sequence := cv_sequence c + 1\<rparr>, ts) else (c, ts)))"

definition PthreadCondSignal ::
  "PthreadCondPrivate \<times> PthreadPrivate list \<Rightarrow> int \<times> PthreadCondPrivate \<times> PthreadPrivate list" where
  "PthreadCondSignal w = (OK, snd (CondWakeWaiter w None))"

definition PthreadCondSignaltoResult :: "bool \<Rightarrow> int" where
  "PthreadCondSignaltoResult waiter_woken = (if waiter_woken then 0 else -2147352575)"

definition PthreadCondSignalto ::
  "PthreadCondPrivate \<times> PthreadPrivate list \<Rightarrow> nat option \<Rightarrow> int \<times> PthreadCondPrivate \<times> PthreadPrivate list" where
  "PthreadCondSignalto w thread =
    (if thread = None then (KERNEL_ERROR_EINVAL, w)
     else case CondWakeWaiter w thread of (notify, w') \<Rightarrow> (PthreadCondSignaltoResult notify, w'))"

text \<open>Without a limit, for some microseconds, or until a given time.\<close>

datatype cv_limit = CvForever | CvFor u32 | CvUntil

text \<open>
  Where a waiting call is: in the wait, between it and the next test, about to lock the mutex again or
  doing so, or holding it with the count not yet restored. The first numbers are the sequences that were read
  at the beginning.
\<close>

datatype cv_place =
  CvSleep u64 u64 u32 cv_limit
| CvPoll u64 u64 u32 cv_limit
| CvRelock u32 cv_limit host_errno "mx_place option"
| CvRecount u32 cv_limit host_errno
| CvRet int

definition cond_ready :: "PthreadCondPrivate \<times> PthreadPrivate list \<Rightarrow> nat \<Rightarrow> u64 \<Rightarrow> u64 \<Rightarrow> bool" where
  "cond_ready w self seq thread_seq \<longleftrightarrow> cv_sequence (fst w) \<noteq> seq \<or> pt_cond_sequence (snd w ! self) \<noteq> thread_seq"

definition cond_loop ::
  "PthreadCondPrivate \<times> PthreadPrivate list \<Rightarrow> nat \<Rightarrow> u64 \<Rightarrow> u64 \<Rightarrow> u32 \<Rightarrow> cv_limit \<Rightarrow> bool \<Rightarrow>
    (PthreadCondPrivate \<times> PthreadPrivate list) \<times> cv_place" where
  "cond_loop w self seq thread_seq recurse limit expired =
    (if cond_ready w self seq thread_seq then (CondRemoveWaiter w self, CvRelock recurse limit HostOk None)
     else if limit \<noteq> CvForever \<and> expired then (CondRemoveWaiter w self, CvRelock recurse limit ETIMEDOUT None)
     else (w, CvSleep seq thread_seq recurse limit))"

definition cond_wake ::
  "PthreadCondPrivate \<times> PthreadPrivate list \<Rightarrow> nat \<Rightarrow> u64 \<Rightarrow> u64 \<Rightarrow> u32 \<Rightarrow> cv_limit \<Rightarrow>
    (PthreadCondPrivate \<times> PthreadPrivate list) \<times> cv_place" where
  "cond_wake w self seq thread_seq recurse limit =
    (if cond_ready w self seq thread_seq then (CondRemoveWaiter w self, CvRelock recurse limit HostOk None)
     else (w, CvPoll seq thread_seq recurse limit))"

fun unlock_wait_code :: "host_errno \<Rightarrow> int" where
  "unlock_wait_code EPERM = KERNEL_ERROR_EPERM"
| "unlock_wait_code _ = KERNEL_ERROR_EINVAL"

text \<open>
  The three waiting calls up to their first release of the lock of the condition variable. The flag
  \<open>deadline_ok\<close> is the answer of \<open>NativeCondDeadlineFromAbs\<close>.
\<close>

definition cond_wait_begin ::
  "PthreadMutexPrivate \<Rightarrow> PthreadCondPrivate \<times> PthreadPrivate list \<Rightarrow> nat \<Rightarrow> cv_limit \<Rightarrow> bool \<Rightarrow> bool \<Rightarrow>
    PthreadMutexPrivate \<times> (PthreadCondPrivate \<times> PthreadPrivate list) \<times> cv_place" where
  "cond_wait_begin m w self limit deadline_ok expired =
    (if limit = CvUntil \<and> \<not> deadline_ok then (m, w, CvRet KERNEL_ERROR_EINVAL)
     else if mx_owner m \<noteq> Some self then (m, w, CvRet KERNEL_ERROR_EPERM)
     else
       let seq = cv_sequence (fst w); thread_seq = pt_cond_sequence (snd w ! self); w1 = CondAddWaiter w self
       in case NativeMutexUnlock m self True of (m1, result, recurse) \<Rightarrow>
         if result \<noteq> HostOk then (m1, CondRemoveWaiter w1 self, CvRet (unlock_wait_code result))
         else if limit = CvFor 0 then (m1, CondRemoveWaiter w1 self, CvRelock recurse limit ETIMEDOUT None)
         else (m1, cond_loop w1 self seq thread_seq recurse limit expired))"

definition NativeCondDeadlineValid :: "int \<times> int \<Rightarrow> bool" where
  "NativeCondDeadlineValid abstime \<longleftrightarrow> \<not> (fst abstime < 0 \<or> snd abstime < 0 \<or> 1000000000 \<le> snd abstime)"

fun wait_code :: "cv_limit \<Rightarrow> host_errno \<Rightarrow> int" where
  "wait_code limit HostOk = OK"
| "wait_code limit EPERM = KERNEL_ERROR_EPERM"
| "wait_code limit ETIMEDOUT = (if limit = CvForever then KERNEL_ERROR_EINVAL else KERNEL_ERROR_ETIMEDOUT)"
| "wait_code limit _ = KERNEL_ERROR_EINVAL"

text \<open>After a step of \<open>NativeMutexLock\<close> at the end of a wait.\<close>

fun relock_place :: "u32 \<Rightarrow> cv_limit \<Rightarrow> host_errno \<Rightarrow> mx_place \<Rightarrow> cv_place" where
  "relock_place recurse limit result (MxRet HostOk) = CvRecount recurse limit result"
| "relock_place recurse limit result (MxRet e) = CvRet (wait_code limit (if result = HostOk then e else result))"
| "relock_place recurse limit result p = CvRelock recurse limit result (Some p)"

section \<open>Threads on one mutex and one condition variable\<close>

datatype th_place = Free int | Locking bool mx_place | InCond cv_place

text \<open>
  \<open>cf_depth\<close> is not a variable of the program: it counts, for every thread, the successful locking calls
  that it has not yet undone, so that the properties can speak of what the calls returned.
\<close>

record config =
  cf_mutex :: PthreadMutexPrivate
  cf_cond :: PthreadCondPrivate
  cf_threads :: "PthreadPrivate list"
  cf_places :: "th_place list"
  cf_depth :: "nat list"

fun lock_place :: "bool \<Rightarrow> mx_place \<Rightarrow> th_place" where
  "lock_place timed (MxRet e) = Free (if timed then timedlock_code e else lock_code e)"
| "lock_place timed p = Locking timed p"

fun lock_depth :: "mx_place \<Rightarrow> nat \<Rightarrow> nat" where
  "lock_depth (MxRet HostOk) d = d + 1"
| "lock_depth p d = d"

fun wait_place :: "cv_place \<Rightarrow> th_place" where
  "wait_place (CvRet n) = Free n"
| "wait_place p = InCond p"

text \<open>
  One step of thread \<open>t\<close>: from mutex, condition variable with threads, its place and its depth to the new ones.
\<close>

type_synonym pt_cond_state = "PthreadCondPrivate \<times> PthreadPrivate list"

inductive pt_local ::
  "nat \<Rightarrow> PthreadMutexPrivate \<Rightarrow> pt_cond_state \<Rightarrow> th_place \<Rightarrow> nat \<Rightarrow>
    PthreadMutexPrivate \<Rightarrow> pt_cond_state \<Rightarrow> th_place \<Rightarrow> nat \<Rightarrow> bool" where
  pt_lock: "NativeMutexLock m t tmo expired = (m', p) \<Longrightarrow>
    pt_local t m w (Free n) d m' w (lock_place (tmo \<noteq> None) p) (lock_depth p d)"
| pt_lock_wake: "mx_wake m t tmo = (m', p) \<Longrightarrow>
    pt_local t m w (Locking timed (MxSleep tmo)) d m' w (lock_place timed p) (lock_depth p d)"
| pt_lock_poll: "mx_loop m t tmo expired = (m', p) \<Longrightarrow>
    pt_local t m w (Locking timed (MxPoll tmo)) d m' w (lock_place timed p) (lock_depth p d)"
| pt_lock_self: "pt_local t m w (Locking timed MxSelfSleep) d m w (lock_place timed (MxRet ETIMEDOUT)) d"
| pt_trylock: "NativeMutexTrylock m t = (m', e) \<Longrightarrow>
    pt_local t m w (Free n) d m' w (Free (trylock_code e)) (lock_depth (MxRet e) d)"
| pt_unlock: "NativeMutexUnlock m t False = (m', e, r) \<Longrightarrow>
    pt_local t m w (Free n) d m' w (Free (unlock_code e)) (if e = HostOk then d - 1 else d)"
| pt_broadcast: "PthreadCondBroadcast w = (r, w') \<Longrightarrow> pt_local t m w (Free n) d m w' (Free r) d"
| pt_signal: "PthreadCondSignal w = (r, w') \<Longrightarrow> pt_local t m w (Free n) d m w' (Free r) d"
| pt_signalto: "PthreadCondSignalto w u = (r, w') \<Longrightarrow> pt_local t m w (Free n) d m w' (Free r) d"
| pt_wait: "cond_wait_begin m w t limit ok expired = (m', w', p) \<Longrightarrow>
    pt_local t m w (Free n) d m' w' (wait_place p) d"
| pt_wait_wake: "cond_wake w t seq tseq recurse limit = (w', p) \<Longrightarrow>
    pt_local t m w (InCond (CvSleep seq tseq recurse limit)) d m w' (wait_place p) d"
| pt_wait_poll: "cond_loop w t seq tseq recurse limit expired = (w', p) \<Longrightarrow>
    pt_local t m w (InCond (CvPoll seq tseq recurse limit)) d m w' (wait_place p) d"
| pt_relock: "NativeMutexLock m t None False = (m', p) \<Longrightarrow>
    pt_local t m w (InCond (CvRelock recurse limit e None)) d m' w (wait_place (relock_place recurse limit e p)) d"
| pt_relock_wake: "mx_wake m t None = (m', p) \<Longrightarrow>
    pt_local t m w (InCond (CvRelock recurse limit e (Some (MxSleep None)))) d m' w (wait_place (relock_place recurse limit e p)) d"
| pt_relock_poll: "mx_loop m t None False = (m', p) \<Longrightarrow>
    pt_local t m w (InCond (CvRelock recurse limit e (Some (MxPoll None)))) d m' w (wait_place (relock_place recurse limit e p)) d"
| pt_recount: "pt_local t m w (InCond (CvRecount recurse limit e)) d (mx_recount m recurse) w (Free (wait_code limit e)) d"

inductive pt_step :: "config \<Rightarrow> config \<Rightarrow> bool" where
  pt_step_intro: "t < length (cf_places s) \<Longrightarrow>
    pt_local t (cf_mutex s) (cf_cond s, cf_threads s) (cf_places s ! t) (cf_depth s ! t) m' (c', ts') p' d' \<Longrightarrow>
    pt_step s \<lparr>cf_mutex = m', cf_cond = c', cf_threads = ts', cf_places = (cf_places s)[t := p'], cf_depth = (cf_depth s)[t := d']\<rparr>"

definition pt_start :: "config \<Rightarrow> bool" where
  "pt_start s \<longleftrightarrow> (\<exists>type proto n seqs. length seqs = n \<and>
     s = \<lparr>cf_mutex = new_mutex type proto, cf_cond = \<lparr>cv_sequence = 0, cv_waiters = []\<rparr>,
          cf_threads = map (\<lambda>q. \<lparr>pt_cond_sequence = q, pt_waiting_cond = False\<rparr>) seqs,
          cf_places = replicate n (Free OK), cf_depth = replicate n 0\<rparr>)"

end
