(* ===== verification/PthreadSyncProps.thy ===== *)
theory PthreadSyncProps
  imports PthreadSync
begin

text \<open>
  Properties of mutexes and condition variables, for any number of threads: mutual exclusion in terms of
  what the calls returned, waits that give the mutex back with its depth, and signals that wake exactly the
  threads they should.
\<close>

lemmas mx_sections = NativeMutexLock_def mx_loop_def mx_wake_def mx_acquire_def NativeMutexTrylock_def
  NativeMutexUnlock_def mx_recount_def

lemmas cv_sections = cond_wait_begin_def cond_loop_def cond_wake_def Let_def

section \<open>The mutex\<close>

text \<open>What holds of a thread at a place with a depth.\<close>

definition depth_ok :: "PthreadMutexPrivate \<Rightarrow> nat \<Rightarrow> u32 \<Rightarrow> bool" where
  "depth_ok m d n \<longleftrightarrow> 0 < d \<and> unat n = d \<and> (mx_type m \<noteq> 2 \<longrightarrow> d = 1)"

definition wait_result :: "cv_limit \<Rightarrow> host_errno \<Rightarrow> bool" where
  "wait_result limit e \<longleftrightarrow> e = HostOk \<or> (e = ETIMEDOUT \<and> limit \<noteq> CvForever)"

fun m_ok :: "nat \<Rightarrow> PthreadMutexPrivate \<Rightarrow> th_place \<Rightarrow> nat \<Rightarrow> bool" where
  "m_ok t m (Free n) d = (if mx_owner m = Some t then depth_ok m d (mx_count m) else d = 0)"
| "m_ok t m (Locking timed MxSelfSleep) d = (mx_owner m = Some t \<and> depth_ok m d (mx_count m))"
| "m_ok t m (Locking timed (MxSleep tmo)) d = (mx_owner m \<noteq> Some t \<and> d = 0)"
| "m_ok t m (Locking timed (MxPoll tmo)) d = (mx_owner m \<noteq> Some t \<and> d = 0)"
| "m_ok t m (Locking timed (MxRet e)) d = False"
| "m_ok t m (InCond (CvSleep seq tseq recurse limit)) d = (mx_owner m \<noteq> Some t \<and> depth_ok m d recurse)"
| "m_ok t m (InCond (CvPoll seq tseq recurse limit)) d = (mx_owner m \<noteq> Some t \<and> depth_ok m d recurse)"
| "m_ok t m (InCond (CvRelock recurse limit e p)) d =
    (mx_owner m \<noteq> Some t \<and> depth_ok m d recurse \<and> wait_result limit e \<and> p \<in> {None, Some (MxSleep None), Some (MxPoll None)})"
| "m_ok t m (InCond (CvRecount recurse limit e)) d = (mx_owner m = Some t \<and> depth_ok m d recurse \<and> wait_result limit e)"
| "m_ok t m (InCond (CvRet n)) d = False"

text \<open>What a step of thread \<open>t\<close> may do to the mutex.\<close>

definition m_frame :: "nat \<Rightarrow> PthreadMutexPrivate \<Rightarrow> PthreadMutexPrivate \<Rightarrow> bool" where
  "m_frame t m m' \<longleftrightarrow> mx_type m' = mx_type m \<and>
    (m' = m \<or> (mx_owner m \<in> {None, Some t} \<and> mx_owner m' \<in> {None, Some t}))"

lemma m_ok_frame: "m_frame t m m' \<Longrightarrow> u \<noteq> t \<Longrightarrow> m_ok u m p d \<Longrightarrow> m_ok u m' p d"
  by (cases "(u, m, p, d)" rule: m_ok.cases) (auto simp: m_frame_def depth_ok_def split: if_splits)

lemma depth_one [simp]: "depth_ok m (Suc 0) 1"
  by (simp add: depth_ok_def)

lemma depth_Suc: "depth_ok m d n \<Longrightarrow> n \<noteq> UINT32_MAX \<Longrightarrow> mx_type m = 2 \<Longrightarrow> depth_ok m (Suc d) (n + 1)"
proof -
  assume a: "depth_ok m d n" "n \<noteq> UINT32_MAX" "mx_type m = 2"
  have "n + 1 \<noteq> 0" using a(2) by (metis add_eq_0_iff2)
  then have "unat (n + 1) = Suc (unat n)" by (simp add: unatSuc add.commute)
  then show ?thesis using a by (simp add: depth_ok_def)
qed

lemma depth_pred: "depth_ok m d n \<Longrightarrow> 1 < n \<Longrightarrow> depth_ok m (d - 1) (n - 1)"
proof -
  assume a: "depth_ok m d n" "1 < n"
  then have "unat (n - 1) = unat n - 1" "1 < unat n" by (simp_all add: unat_sub word_le_nat_alt word_less_nat_alt)
  then show ?thesis using a by (simp add: depth_ok_def)
qed

lemma depth_last: "depth_ok m d n \<Longrightarrow> \<not> (mx_type m = 2 \<and> 1 < n) \<Longrightarrow> d = 1"
  by (cases "mx_type m = 2") (auto simp: depth_ok_def word_less_nat_alt)

lemma depth_ok_cong [simp]:
  "depth_ok (m\<lparr>mx_owner := o'\<rparr>) d n = depth_ok m d n" "depth_ok (m\<lparr>mx_count := k\<rparr>) d n = depth_ok m d n"
  by (simp_all add: depth_ok_def)

lemma mx_acquire_ok:
  "mx_owner m = None \<Longrightarrow> m_frame t m (m\<lparr>mx_owner := Some t, mx_count := 1\<rparr>)"
  by (simp add: m_frame_def)

lemma lock_result:
  assumes "NativeMutexLock m t tmo ex = (m', p)"
  shows "m_frame t m m' \<and>
    (p = MxRet HostOk \<and> (mx_owner m = None \<and> m' = m\<lparr>mx_owner := Some t, mx_count := 1\<rparr> \<or>
        mx_owner m = Some t \<and> mx_type m = 2 \<and> mx_count m \<noteq> UINT32_MAX \<and> m' = m\<lparr>mx_count := mx_count m + 1\<rparr>) \<or>
     m' = m \<and> (\<exists>e. p = MxRet e \<and> e \<noteq> HostOk \<and> (tmo = None \<longrightarrow> mx_owner m = Some t)) \<or>
     m' = m \<and> p = MxSelfSleep \<and> mx_owner m = Some t \<and> tmo \<noteq> None \<or>
     m' = m \<and> p = MxSleep tmo \<and> mx_owner m \<noteq> Some t)"
  using assms by (auto simp: mx_sections m_frame_def split: if_splits option.splits)

lemma wake_result:
  assumes "mx_wake m t tmo = (m', p)"
  shows "m_frame t m m' \<and>
    (p = MxRet HostOk \<and> mx_owner m = None \<and> m' = m\<lparr>mx_owner := Some t, mx_count := 1\<rparr> \<or> m' = m \<and> p = MxPoll tmo)"
  using assms by (auto simp: mx_sections m_frame_def split: if_splits)

lemma loop_result:
  assumes "mx_loop m t tmo ex = (m', p)"
  shows "m_frame t m m' \<and>
    (p = MxRet HostOk \<and> mx_owner m = None \<and> m' = m\<lparr>mx_owner := Some t, mx_count := 1\<rparr> \<or>
     m' = m \<and> p = MxSleep tmo \<or> m' = m \<and> p = MxRet ETIMEDOUT \<and> tmo \<noteq> None)"
  using assms by (auto simp: mx_sections m_frame_def split: if_splits)

lemma unlock_result:
  assumes "NativeMutexUnlock m t rec = (m', e, r)"
  shows "m_frame t m m' \<and>
    (e = EPERM \<and> m' = m \<and> mx_owner m \<noteq> Some t \<or>
     e = HostOk \<and> mx_owner m = Some t \<and> r = mx_count m \<and>
      (if \<not> rec \<and> mx_type m = 2 \<and> 1 < mx_count m then m' = m\<lparr>mx_count := mx_count m - 1\<rparr>
       else m' = m\<lparr>mx_owner := None, mx_count := 0\<rparr>))"
  using assms by (auto simp: NativeMutexUnlock_def Let_def m_frame_def split: if_splits)

lemma m_frame_refl [simp]: "m_frame t m m"
  by (simp add: m_frame_def)

lemma cond_wait_begin_mutex:
  assumes "cond_wait_begin m w t limit ok ex = (m', w', p)" "m_ok t m (Free n) d"
  shows "m_frame t m m' \<and> m_ok t m' (wait_place p) d"
proof (cases "limit = CvUntil \<and> \<not> ok \<or> mx_owner m \<noteq> Some t")
  case True
  then show ?thesis using assms by (auto simp: cond_wait_begin_def split: if_splits)
next
  case False
  obtain m1 e r where u: "NativeMutexUnlock m t True = (m1, e, r)" by (metis surj_pair)
  then have m1: "m1 = m\<lparr>mx_owner := None, mx_count := 0\<rparr>" "e = HostOk" "r = mx_count m" "m_frame t m m1"
    using unlock_result [OF u] False by auto
  have d: "depth_ok m d (mx_count m)" using assms(2) False by simp
  have "m' = m1 \<and> m_ok t m1 (wait_place p) d"
    using assms(1) False u m1 d by (auto simp: cv_sections wait_result_def split: if_splits)
  then show ?thesis using m1 by simp
qed

lemma relock_ok:
  assumes "m_ok t m (InCond (CvRelock recurse limit e q)) d" "m_frame t m m'"
    and "p = MxRet HostOk \<and> mx_owner m' = Some t \<or> p \<in> {MxSleep None, MxPoll None} \<and> m' = m"
  shows "m_ok t m' (wait_place (relock_place recurse limit e p)) d"
  using assms by (auto simp: m_frame_def depth_ok_def)

lemma lock_depth_error [simp]: "e \<noteq> HostOk \<Longrightarrow> lock_depth (MxRet e) d = d"
  by (cases e) simp_all

lemma m_ok_step:
  assumes "pt_local t m w p d m' w' p' d'" "m_ok t m p d"
  shows "m_frame t m m' \<and> m_ok t m' p' d'"
  using assms
proof (cases rule: pt_local.cases)
  case (pt_lock tmo ex q n)
  then show ?thesis using lock_result [OF pt_lock(5)] assms(2) depth_one [of m] depth_Suc
    by (auto simp: depth_one split: if_splits)
next
  case (pt_lock_wake tmo q timed)
  then show ?thesis using wake_result [OF pt_lock_wake(5)] assms(2) by (auto simp: depth_one)
next
  case (pt_lock_poll tmo ex q timed)
  then show ?thesis using loop_result [OF pt_lock_poll(5)] assms(2) by (auto simp: depth_one)
next
  case (pt_trylock e n)
  then show ?thesis using assms(2) depth_one [of m] depth_Suc
    by (cases e) (auto simp: NativeMutexTrylock_def m_frame_def split: if_splits)
next
  case (pt_unlock e r n)
  have o: "e = EPERM \<or> e = HostOk" using unlock_result [OF pt_unlock(5)] by auto
  then show ?thesis using unlock_result [OF pt_unlock(5)] assms(2) pt_unlock depth_pred depth_last
    by (auto split: if_splits)
next
  case (pt_wait limit ok ex q n)
  then show ?thesis using cond_wait_begin_mutex [OF pt_wait(4)] assms(2) by simp
next
  case (pt_wait_wake seq tseq recurse limit q)
  then show ?thesis using assms(2) by (auto simp: cv_sections wait_result_def split: if_splits)
next
  case (pt_wait_poll seq tseq recurse limit ex q)
  then show ?thesis using assms(2) by (auto simp: cv_sections wait_result_def split: if_splits)
next
  case (pt_relock q recurse limit e)
  have "mx_owner m \<noteq> Some t" using assms(2) pt_relock by simp
  then show ?thesis using lock_result [OF pt_relock(5)] relock_ok [of t m recurse limit e None d m' q] assms(2) pt_relock by auto
next
  case (pt_relock_wake q recurse limit e)
  have r: "m_frame t m m'" "q = MxRet HostOk \<and> mx_owner m' = Some t \<or> q \<in> {MxSleep None, MxPoll None} \<and> m' = m"
    using wake_result [OF pt_relock_wake(5)] by auto
  show ?thesis using r(1) relock_ok [OF assms(2) [unfolded pt_relock_wake(1)] r] unfolding pt_relock_wake(3,4) by blast
next
  case (pt_relock_poll q recurse limit e)
  have r: "m_frame t m m'" "q = MxRet HostOk \<and> mx_owner m' = Some t \<or> q \<in> {MxSleep None, MxPoll None} \<and> m' = m"
    using loop_result [OF pt_relock_poll(5)] by auto
  show ?thesis using r(1) relock_ok [OF assms(2) [unfolded pt_relock_poll(1)] r] unfolding pt_relock_poll(3,4) by blast
next
  case (pt_recount recurse limit e)
  have "max recurse 1 = recurse" if "depth_ok m d recurse" 
    using that by (intro max.absorb1) (simp add: depth_ok_def word_le_nat_alt)
  then show ?thesis using assms(2) pt_recount by (auto simp: mx_recount_def m_frame_def)
qed simp_all

section \<open>The condition variable\<close>

fun cv_waits :: "th_place \<Rightarrow> (u64 \<times> u64) option" where
  "cv_waits (InCond (CvSleep seq tseq recurse limit)) = Some (seq, tseq)"
| "cv_waits (InCond (CvPoll seq tseq recurse limit)) = Some (seq, tseq)"
| "cv_waits p = None"

text \<open>
  A waiting thread is in the list exactly as long as it has not been woken; one that is not in the list any more will find
  that a sequence has moved.
\<close>

definition c_ok :: "pt_cond_state \<Rightarrow> nat \<Rightarrow> th_place \<Rightarrow> bool" where
  "c_ok w t p \<longleftrightarrow> pt_waiting_cond (snd w ! t) = (t \<in> set (cv_waiters (fst w))) \<and>
    (case cv_waits p of
       None \<Rightarrow> t \<notin> set (cv_waiters (fst w))
     | Some (seq, tseq) \<Rightarrow>
         if t \<in> set (cv_waiters (fst w)) then seq = cv_sequence (fst w) \<and> tseq = pt_cond_sequence (snd w ! t)
         else seq < cv_sequence (fst w) \<or> (seq \<le> cv_sequence (fst w) \<and> pt_cond_sequence (snd w ! t) = tseq + 1))"

lemma c_ok_waiting: "c_ok w t p \<Longrightarrow> t \<in> set (cv_waiters (fst w)) \<Longrightarrow> cv_waits p \<noteq> None"
  by (auto simp: c_ok_def split: option.splits)

text \<open>What a step of another thread may do: leave a thread alone, or wake it.\<close>

definition c_frame :: "pt_cond_state \<Rightarrow> pt_cond_state \<Rightarrow> nat \<Rightarrow> bool" where
  "c_frame w w' u \<longleftrightarrow>
    pt_waiting_cond (snd w' ! u) = (pt_waiting_cond (snd w ! u) \<and> u \<in> set (cv_waiters (fst w'))) \<and>
    (u \<in> set (cv_waiters (fst w')) \<and> u \<in> set (cv_waiters (fst w)) \<and> cv_sequence (fst w') = cv_sequence (fst w) \<and>
       pt_cond_sequence (snd w' ! u) = pt_cond_sequence (snd w ! u) \<or>
     u \<notin> set (cv_waiters (fst w')) \<and> u \<in> set (cv_waiters (fst w)) \<and>
       (cv_sequence (fst w) < cv_sequence (fst w') \<or>
        cv_sequence (fst w) \<le> cv_sequence (fst w') \<and> pt_cond_sequence (snd w' ! u) = pt_cond_sequence (snd w ! u) + 1) \<or>
     u \<notin> set (cv_waiters (fst w')) \<and> u \<notin> set (cv_waiters (fst w)) \<and> cv_sequence (fst w) \<le> cv_sequence (fst w') \<and>
       pt_cond_sequence (snd w' ! u) = pt_cond_sequence (snd w ! u))"

lemma c_ok_frame: "c_frame w w' u \<Longrightarrow> c_ok w u p \<Longrightarrow> c_ok w' u p"
  unfolding c_ok_def c_frame_def by (cases "cv_waits p") (auto split: if_splits)

lemma c_frame_refl [simp]: "u \<in> set (cv_waiters (fst w)) \<or> \<not> pt_waiting_cond (snd w ! u) \<Longrightarrow> c_frame w w u"
  by (auto simp: c_frame_def)

text \<open>The operations, on lists without duplicates.\<close>

definition w_ok :: "pt_cond_state \<Rightarrow> bool" where
  "w_ok w \<longleftrightarrow> distinct (cv_waiters (fst w)) \<and> (\<forall>t < length (snd w). pt_waiting_cond (snd w ! t) = (t \<in> set (cv_waiters (fst w)))) \<and>
    set (cv_waiters (fst w)) \<subseteq> {..<length (snd w)}"

lemma add_frame:
  assumes "w_ok w" "t < length (snd w)" "t \<notin> set (cv_waiters (fst w))" "CondAddWaiter w t = w'"
  shows "w_ok w' \<and> length (snd w') = length (snd w) \<and> (\<forall>u < length (snd w). u \<noteq> t \<longrightarrow> c_frame w w' u) \<and>
    cv_waiters (fst w') = cv_waiters (fst w) @ [t] \<and> cv_sequence (fst w') = cv_sequence (fst w) \<and>
    pt_cond_sequence (snd w' ! t) = pt_cond_sequence (snd w ! t)"
  using assms by (cases w) (auto simp: CondAddWaiter_def w_ok_def c_frame_def nth_list_update split: if_splits)

lemma remove_frame:
  assumes "w_ok w" "t < length (snd w)" "CondRemoveWaiter w t = w'"
  shows "w_ok w' \<and> length (snd w') = length (snd w) \<and> (\<forall>u < length (snd w). u \<noteq> t \<longrightarrow> c_frame w w' u) \<and>
    cv_waiters (fst w') = remove1 t (cv_waiters (fst w)) \<and> cv_sequence (fst w') = cv_sequence (fst w) \<and>
    t \<notin> set (cv_waiters (fst w')) \<and> \<not> pt_waiting_cond (snd w' ! t)"
  using assms by (cases w) (auto simp: CondRemoveWaiter_def w_ok_def c_frame_def nth_list_update remove1_idem split: if_splits)

lemma wake_frame:
  assumes "w_ok w" "CondWakeWaiter w thread = (b, w')"
  shows "w_ok w' \<and> length (snd w') = length (snd w) \<and> (\<forall>u < length (snd w). c_frame w w' u) \<and>
    cv_sequence (fst w') = cv_sequence (fst w)"
  using assms by (cases w) (auto simp: CondWakeWaiter_def w_ok_def c_frame_def nth_list_update Let_def split: if_splits)

lemma clear_threads:
  "length (fold (\<lambda>t ts. ts[t := (ts ! t)\<lparr>pt_waiting_cond := False\<rparr>]) xs ts) = length ts"
  "u < length ts \<Longrightarrow> fold (\<lambda>t ts. ts[t := (ts ! t)\<lparr>pt_waiting_cond := False\<rparr>]) xs ts ! u =
    (if u \<in> set xs then (ts ! u)\<lparr>pt_waiting_cond := False\<rparr> else ts ! u)"
proof -
  show l: "length (fold (\<lambda>t ts. ts[t := (ts ! t)\<lparr>pt_waiting_cond := False\<rparr>]) xs ts) = length ts" for ts xs
    by (induction xs arbitrary: ts) simp_all
  show "u < length ts \<Longrightarrow> fold (\<lambda>t ts. ts[t := (ts ! t)\<lparr>pt_waiting_cond := False\<rparr>]) xs ts ! u =
    (if u \<in> set xs then (ts ! u)\<lparr>pt_waiting_cond := False\<rparr> else ts ! u)"
  proof (induction xs arbitrary: ts)
    case (Cons a xs)
    then show ?case by (cases "a = u") auto
  qed simp
qed

lemma broadcast_frame:
  assumes "w_ok w" "PthreadCondBroadcast w = (r, w')" "cv_sequence (fst w) \<le> cv_sequence (fst w')"
  shows "w_ok w' \<and> length (snd w') = length (snd w) \<and> (\<forall>u < length (snd w). c_frame w w' u)"
proof -
  have "cv_sequence (fst w) < cv_sequence (fst w) + 1" if "cv_sequence (fst w) \<le> cv_sequence (fst w) + 1"
    using that by (simp add: less_le)
  then show ?thesis using assms
    by (cases w) (auto simp: PthreadCondBroadcast_def CondClearWaiters_def w_ok_def c_frame_def clear_threads split: if_splits)
qed

text \<open>All waits end by removing the thread.\<close>

lemma c_ok_ended:
  "t \<notin> set (cv_waiters (fst w)) \<Longrightarrow> \<not> pt_waiting_cond (snd w ! t) \<Longrightarrow> cv_waits p = None \<Longrightarrow> c_ok w t p"
  by (simp add: c_ok_def)

definition c_moves :: "nat \<Rightarrow> pt_cond_state \<Rightarrow> pt_cond_state \<Rightarrow> th_place \<Rightarrow> bool" where
  "c_moves t w w' p \<longleftrightarrow> w_ok w' \<and> length (snd w') = length (snd w) \<and>
    (\<forall>u < length (snd w). u \<noteq> t \<longrightarrow> c_frame w w' u) \<and> c_ok w' t p"

lemma ended_moves:
  assumes "w_ok w" "t < length (snd w)" "cv_waits p = None"
  shows "c_moves t w (CondRemoveWaiter w t) p"
proof -
  note r = remove_frame [OF assms(1,2) refl]
  have "c_ok (CondRemoveWaiter w t) t p" using r assms(3) by (intro c_ok_ended) blast+
  then show ?thesis using r unfolding c_moves_def by blast
qed

lemma same_frame: "w_ok w \<Longrightarrow> u < length (snd w) \<Longrightarrow> c_frame w w u"
  by (auto simp: w_ok_def)

lemma stay_moves: "w_ok w \<Longrightarrow> c_ok w t p \<Longrightarrow> c_moves t w w p"
  unfolding c_moves_def using same_frame by blast

lemma c_ok_waits: "c_ok w t p \<Longrightarrow> cv_waits q = cv_waits p \<Longrightarrow> c_ok w t q"
  by (simp add: c_ok_def)

lemma loop_moves:
  assumes "w_ok w" "t < length (snd w)" "c_ok w t (InCond (CvSleep seq tseq recurse limit))"
  shows "cond_loop w t seq tseq recurse limit ex = (w', p) \<Longrightarrow> c_moves t w w' (wait_place p)"
    and "cond_wake w t seq tseq recurse limit = (w', p) \<Longrightarrow> c_moves t w w' (wait_place p)"
  using ended_moves [OF assms(1,2)] stay_moves [OF assms(1,3)] stay_moves [OF assms(1) c_ok_waits [OF assms(3)]]
  unfolding cond_loop_def cond_wake_def by (auto split: if_splits)

lemma c_frame_trans:
  assumes "c_frame w w1 u" "c_frame w1 w2 u"
  shows "c_frame w w2 u"
  using assms unfolding c_frame_def by auto

lemma cond_wait_begin_moves:
  assumes "w_ok w" "t < length (snd w)" "c_ok w t (Free n)" "cond_wait_begin m w t limit ok ex = (m', w', p)"
  shows "c_moves t w w' (wait_place p)"
proof (cases "limit = CvUntil \<and> \<not> ok \<or> mx_owner m \<noteq> Some t")
  case True
  then have "w' = w" "\<exists>n. p = CvRet n" using assms(4) by (auto simp: cond_wait_begin_def split: if_splits)
  then show ?thesis using stay_moves [OF assms(1)] assms(3) c_ok_waits [OF assms(3)] by auto
next
  case False
  have nt: "t \<notin> set (cv_waiters (fst w))" using assms(3) by (simp add: c_ok_def)
  define w1 where "w1 = CondAddWaiter w t"
  note a = add_frame [OF assms(1,2) nt w1_def [symmetric]]
  obtain m1 e r where u: "NativeMutexUnlock m t True = (m1, e, r)" by (metis surj_pair)
  then have e: "e = HostOk" using unlock_result [OF u] False by auto
  let ?seq = "cv_sequence (fst w)" and ?tseq = "pt_cond_sequence (snd w ! t)"
  have l1: "t < length (snd w1)" "w_ok w1" using a assms(2) by simp_all
  have c1: "c_ok w1 t (InCond (CvSleep ?seq ?tseq r limit))" using a l1 by (auto simp: c_ok_def w_ok_def)
  have "c_moves t w1 w' (wait_place p)"
  proof (cases "limit = CvFor 0")
    case True
    then have p: "w' = CondRemoveWaiter w1 t" "p = CvRelock r limit ETIMEDOUT None"
      using assms(4) False u e by (simp_all add: cond_wait_begin_def Let_def w1_def)
    then show ?thesis using ended_moves [OF l1(2,1)] by simp
  next
    case nz: False
    then have "cond_loop w1 t ?seq ?tseq r limit ex = (w', p)"
      using assms(4) unfolding cond_wait_begin_def Let_def u prod.case w1_def [symmetric] using False e nz by auto
    then show ?thesis by (rule loop_moves(1) [OF l1(2,1) c1])
  qed
  then show ?thesis using a c_frame_trans [of w w1 _ w'] by (simp add: c_moves_def)
qed

lemma cv_waits_places [simp]: "cv_waits (lock_place timed q) = None" "cv_waits (wait_place (relock_place r l e q)) = None"
  by (cases q; simp) (cases "(r, l, e, q)" rule: relock_place.cases; simp)

lemma c_ok_step:
  assumes "pt_local t m w p d m' w' p' d'" "w_ok w" "t < length (snd w)" "c_ok w t p"
    and "cv_sequence (fst w) \<le> cv_sequence (fst w')"
  shows "c_moves t w w' p'"
proof -
  have stay: ?thesis if "w' = w" "cv_waits p = None" "cv_waits p' = None"
    using that stay_moves [OF assms(2)] c_ok_waits [OF assms(4)] by simp
  have all: ?thesis if "w_ok w' \<and> length (snd w') = length (snd w) \<and> (\<forall>u < length (snd w). c_frame w w' u)"
    "cv_waits p = None" "cv_waits p' = None"
  proof -
    have "c_ok w' t p" using that(1) assms(3,4) c_ok_frame by blast
    then have "c_ok w' t p'" using that(2,3) c_ok_waits by metis
    then show ?thesis using that(1) unfolding c_moves_def by blast
  qed
  show ?thesis using assms(1)
  proof (cases rule: pt_local.cases)
    case (pt_broadcast r n)
    then show ?thesis using all [OF broadcast_frame [OF assms(2) pt_broadcast(5) assms(5)]] by simp
  next
    case (pt_signal r n)
    then have "CondWakeWaiter w None = (fst (CondWakeWaiter w None), w')" by (cases "CondWakeWaiter w None") (simp add: PthreadCondSignal_def)
    from wake_frame [OF assms(2) this] show ?thesis using pt_signal all by simp
  next
    case (pt_signalto u r n)
    show ?thesis
    proof (cases "u = None")
      case True
      then show ?thesis using pt_signalto stay by (simp add: PthreadCondSignalto_def)
    next
      case False
      obtain b w1 where b: "CondWakeWaiter w u = (b, w1)" by (metis surj_pair)
      then have "w1 = w'" using pt_signalto False by (simp add: PthreadCondSignalto_def)
      then show ?thesis using wake_frame [OF assms(2) b] pt_signalto all by simp
    qed
  next
    case (pt_wait limit ok ex q n)
    then show ?thesis using cond_wait_begin_moves [OF assms(2,3) _ pt_wait(4)] assms(4) by simp
  next
    case (pt_wait_wake seq tseq recurse limit q)
    then show ?thesis using loop_moves(2) [OF assms(2,3) _ pt_wait_wake(5)] assms(4) by simp
  next
    case (pt_wait_poll seq tseq recurse limit ex q)
    then show ?thesis using loop_moves(1) [OF assms(2,3) c_ok_waits [OF assms(4)] pt_wait_poll(5)] by simp
  qed (use stay in simp)+
qed

section \<open>Reachable states\<close>

text \<open>
  The invariant of a state: the lists have one length, every thread is as it should be at its place, the owner is a
  thread, and the list of waiters has no duplicates.
\<close>

definition pt_inv :: "config \<Rightarrow> bool" where
  "pt_inv s \<longleftrightarrow>
    (let w = (cf_cond s, cf_threads s); n = length (cf_places s)
     in length (cf_depth s) = n \<and> length (cf_threads s) = n \<and> w_ok w \<and>
       (\<forall>t < n. m_ok t (cf_mutex s) (cf_places s ! t) (cf_depth s ! t) \<and> c_ok w t (cf_places s ! t)) \<and>
       (\<forall>t. mx_owner (cf_mutex s) = Some t \<longrightarrow> t < n))"

text \<open>Runs in which the 64-bit sequence of the condition variable does not wrap around.\<close>

definition pt_run :: "config \<Rightarrow> config \<Rightarrow> bool" where
  "pt_run s s' \<longleftrightarrow> pt_step s s' \<and> cv_sequence (cf_cond s) \<le> cv_sequence (cf_cond s')"

lemma pt_inv_start: "pt_start s \<Longrightarrow> pt_inv s"
  by (auto simp: pt_start_def pt_inv_def Let_def w_ok_def c_ok_def new_mutex_def)

lemma owner_frame: "m_frame t m m' \<Longrightarrow> t < n \<Longrightarrow> \<forall>u. mx_owner m = Some u \<longrightarrow> u < n \<Longrightarrow> \<forall>u. mx_owner m' = Some u \<longrightarrow> u < n"
  by (auto simp: m_frame_def)

lemma pt_inv_step:
  assumes "pt_inv s" "pt_run s s'"
  shows "pt_inv s'"
  using assms(2) unfolding pt_run_def
proof (elim conjE pt_step.cases)
  fix t s1 m' c' ts' p' d'
  let ?w = "(cf_cond s, cf_threads s)" and ?n = "length (cf_places s)"
  assume "cv_sequence (cf_cond s) \<le> cv_sequence (cf_cond s')" and eq: "s = s1"
    "s' = \<lparr>cf_mutex = m', cf_cond = c', cf_threads = ts', cf_places = (cf_places s1)[t := p'], cf_depth = (cf_depth s1)[t := d']\<rparr>"
    and "t < length (cf_places s1)"
    and "pt_local t (cf_mutex s1) (cf_cond s1, cf_threads s1) (cf_places s1 ! t) (cf_depth s1 ! t) m' (c', ts') p' d'"
  then have a: "cv_sequence (fst ?w) \<le> cv_sequence (fst (c', ts'))" "t < ?n"
    "pt_local t (cf_mutex s) ?w (cf_places s ! t) (cf_depth s ! t) m' (c', ts') p' d'" by simp_all
  have i: "length (cf_depth s) = ?n" "length (cf_threads s) = ?n" "w_ok ?w"
    "\<And>u. u < ?n \<Longrightarrow> m_ok u (cf_mutex s) (cf_places s ! u) (cf_depth s ! u)" "\<And>u. u < ?n \<Longrightarrow> c_ok ?w u (cf_places s ! u)"
    "\<forall>u. mx_owner (cf_mutex s) = Some u \<longrightarrow> u < ?n"
    using assms(1) by (auto simp: pt_inv_def Let_def)
  note m = m_ok_step [OF a(3) i(4) [OF a(2)]]
  have tl: "t < length (snd ?w)" using a(2) i(2) by simp
  note c = c_ok_step [OF a(3) i(3) tl i(5) [OF a(2)] a(1), unfolded c_moves_def]
  have "m_ok u m' ((cf_places s)[t := p'] ! u) ((cf_depth s)[t := d'] ! u)" if "u < ?n" for u
    using that m i(1,4) m_ok_frame [of t "cf_mutex s" m' u] by (cases "u = t") auto
  moreover have "c_ok (c', ts') u ((cf_places s)[t := p'] ! u)" if "u < ?n" for u
    using that c i(2,5) c_ok_frame [of ?w "(c', ts')" u] by (cases "u = t") auto
  moreover have "\<forall>u. mx_owner m' = Some u \<longrightarrow> u < ?n" using owner_frame [OF _ a(2) i(6)] m by blast
  ultimately show "pt_inv s'" using c m i(1,2) unfolding eq(2) eq(1) [symmetric]
    by (simp add: pt_inv_def)
qed

interpretation pt: kept pt_start pt_run pt_inv
  by unfold_locales (auto intro: pt_inv_start pt_inv_step)

section \<open>Properties\<close>

lemma reach_facts:
  assumes "reach pt_start pt_run s" "t < length (cf_places s)"
  shows "m_ok t (cf_mutex s) (cf_places s ! t) (cf_depth s ! t) \<and> c_ok (cf_cond s, cf_threads s) t (cf_places s ! t) \<and>
    t < length (cf_threads s) \<and> w_ok (cf_cond s, cf_threads s) \<and> length (cf_depth s) = length (cf_places s)"
  using pt.reach_inv [OF assms(1)] assms(2) by (auto simp: pt_inv_def Let_def)

lemma waiting_ready:
  assumes "c_ok w t p" "cv_waits p = Some (seq, tseq)"
  shows "cond_ready w t seq tseq \<longleftrightarrow> t \<notin> set (cv_waiters (fst w))"
proof -
  have "x + 1 \<noteq> x" for x :: u64 by simp
  then show ?thesis using assms by (auto simp: c_ok_def cond_ready_def split: if_splits)
qed

text \<open>C20. Mutual exclusion, in terms of what the calls returned. In every reachable state, a thread outside
  the calls that has more successful locking calls than unlocking ones owns the mutex, the recursion count is
  that difference, which is 1 for every type but the recursive one, and no other thread outside
  the calls has any.\<close>

theorem mutex_exclusion:
  assumes "reach pt_start pt_run s" "t < length (cf_places s)" "cf_places s ! t = Free r" "0 < cf_depth s ! t"
    and "u < length (cf_places s)" "cf_places s ! u = Free q" "u \<noteq> t"
  shows "mx_owner (cf_mutex s) = Some t \<and> unat (mx_count (cf_mutex s)) = cf_depth s ! t \<and>
    (mx_type (cf_mutex s) = 2 \<or> cf_depth s ! t = 1) \<and> cf_depth s ! u = 0"
  using reach_facts [OF assms(1,2)] reach_facts [OF assms(1,5)] assms(3,4,6,7)
  by (auto simp: depth_ok_def split: if_splits)

text \<open>C21. The three waiting calls give the mutex back. In every run, when a call that waits on the condition variable
  returns, the thread owns the mutex again, with the recursion count that it had before, and the result is success or,
  for a call with a time limit, the time-out.\<close>

theorem cond_wait_keeps_mutex:
  assumes "reach pt_start pt_run s" "pt_run s s'" "t < length (cf_places s)"
    and "cf_places s ! t = InCond p" "cf_places s' ! t = Free r"
  shows "mx_owner (cf_mutex s') = Some t \<and> unat (mx_count (cf_mutex s')) = cf_depth s ! t \<and>
    cf_depth s' ! t = cf_depth s ! t \<and> r \<in> {OK, KERNEL_ERROR_ETIMEDOUT}"
proof -
  have "pt_step s s'" using assms(2) by (simp add: pt_run_def)
  then show ?thesis
  proof (cases rule: pt_step.cases)
    case (pt_step_intro v m' c' ts' p' d')
    note f = reach_facts [OF assms(1,3)]
    have "v = t"
    proof (rule ccontr)
      assume "v \<noteq> t"
      then show False using assms(4,5) pt_step_intro by simp
    qed
    then have l: "pt_local t (cf_mutex s) (cf_cond s, cf_threads s) (InCond p) (cf_depth s ! t) m' (c', ts') (Free r) d'"
      using pt_step_intro assms(3-5) by simp
    have m: "m_ok t (cf_mutex s) (InCond p) (cf_depth s ! t)" using f assms(4) by simp
    have "mx_owner m' = Some t \<and> unat (mx_count m') = cf_depth s ! t \<and> d' = cf_depth s ! t \<and> r \<in> {OK, KERNEL_ERROR_ETIMEDOUT}"
      using l m m_ok_step [OF l m]
      by (cases rule: pt_local.cases) (auto simp: cv_sections wait_result_def depth_ok_def split: if_splits
          dest!: lock_result wake_result loop_result)
    then show ?thesis using pt_step_intro \<open>v = t\<close> f assms(3) by simp
  qed
qed

lemma wake_list:
  assumes "w_ok w" "CondWakeWaiter w thread = (b, w')"
  shows "b = (case thread of None \<Rightarrow> cv_waiters (fst w) \<noteq> [] | Some t \<Rightarrow> t \<in> set (cv_waiters (fst w)))"
    "u \<in> set (cv_waiters (fst w')) \<longleftrightarrow> u \<in> set (cv_waiters (fst w)) \<and>
      \<not> (b \<and> u = (case thread of None \<Rightarrow> hd (cv_waiters (fst w)) | Some t \<Rightarrow> t))"
  using assms by (cases w; auto simp: CondWakeWaiter_def w_ok_def Let_def split: if_splits option.splits)+

lemma broadcast_list: "cv_waiters (fst (snd (PthreadCondBroadcast w))) = []"
  by (cases w) (simp add: PthreadCondBroadcast_def CondClearWaiters_def)

lemma broadcast_sequence: "cv_sequence (fst w) \<noteq> UINT64_MAX \<Longrightarrow> cv_sequence (fst w) \<le> cv_sequence (fst (snd (PthreadCondBroadcast w)))"
proof -
  assume "cv_sequence (fst w) \<noteq> UINT64_MAX"
  then have "cv_sequence (fst w) \<le> cv_sequence (fst w) + 1" 
    by (metis add.commute add_eq_0_iff2 lessI less_imp_le unatSuc word_less_nat_alt)
  then show ?thesis by (cases w) (simp add: PthreadCondBroadcast_def CondClearWaiters_def)
qed

text \<open>Signals. In every reachable state, a waiting thread is released exactly when it is no longer in the list. A
  signal releases the thread that has waited longest and no other; a signal to a thread releases that
  thread and no other, and says whether it was waiting; a broadcast releases all, as long as the 64-bit
  sequence does not wrap.\<close>

lemma cond_signal_exact:
  assumes "reach pt_start pt_run s" "u < length (cf_places s)" "cv_waits (cf_places s ! u) = Some (seq, tseq)"
    and "w = (cf_cond s, cf_threads s)" "cv_sequence (cf_cond s) \<noteq> UINT64_MAX"
  shows "cond_ready w u seq tseq = (u \<notin> set (cv_waiters (cf_cond s))) \<and>
    cond_ready (snd (PthreadCondSignal w)) u seq tseq =
      (cond_ready w u seq tseq \<or> (cv_waiters (cf_cond s) \<noteq> [] \<and> u = hd (cv_waiters (cf_cond s)))) \<and>
    cond_ready (snd (PthreadCondSignalto w (Some v))) u seq tseq = (cond_ready w u seq tseq \<or> u = v) \<and>
    fst (PthreadCondSignalto w (Some v)) = (if v \<in> set (cv_waiters (cf_cond s)) then OK else KERNEL_ERROR_EPERM) \<and>
    cond_ready (snd (PthreadCondBroadcast w)) u seq tseq"
proof -
  note f = reach_facts [OF assms(1,2)]
  have w: "w_ok w" "u < length (snd w)" "c_ok w u (cf_places s ! u)" using f by (simp_all add: assms(4))
  have kept: "cond_ready w' u seq tseq \<longleftrightarrow> u \<notin> set (cv_waiters (fst w'))" if "c_frame w w' u" for w'
    by (rule waiting_ready [OF c_ok_frame [OF that w(3)] assms(3)])
  obtain b1 w1 where s1: "CondWakeWaiter w None = (b1, w1)" by (metis surj_pair)
  obtain b2 w2 where s2: "CondWakeWaiter w (Some v) = (b2, w2)" by (metis surj_pair)
  obtain r3 w3 where s3: "PthreadCondBroadcast w = (r3, w3)" by (metis surj_pair)
  have "c_frame w w1 u" "c_frame w w2 u" "c_frame w w3 u"
    using wake_frame [OF w(1) s1] wake_frame [OF w(1) s2] broadcast_frame [OF w(1) s3] broadcast_sequence [of w] s3 w(2) assms(4,5)
    by auto
  note k = kept [OF same_frame [OF w(1,2)]] this [THEN kept]
  have "cond_ready w1 u seq tseq = (cond_ready w u seq tseq \<or> (cv_waiters (fst w) \<noteq> [] \<and> u = hd (cv_waiters (fst w))))"
    using k(1,2) wake_list [OF w(1) s1] by auto
  moreover have "cond_ready w2 u seq tseq = (cond_ready w u seq tseq \<or> u = v)"
    using k(1,3) wake_list [OF w(1) s2] by auto
  moreover have "cond_ready w3 u seq tseq" using k(4) broadcast_list [of w] s3 by simp
  ultimately show ?thesis using k(1) s1 s2 s3 wake_list(1) [OF w(1) s2] assms(4)
    by (simp add: PthreadCondSignal_def PthreadCondSignalto_def PthreadCondSignaltoResult_def errno_defs)
qed

text \<open>One step of a run that changes places and depth of one thread.\<close>

lemma pt_go:
  assumes "t < length (cf_places s)"
    and "pt_local t (cf_mutex s) (cf_cond s, cf_threads s) (cf_places s ! t) (cf_depth s ! t) m' (c', ts') p' d'"
    and "cv_sequence (cf_cond s) \<le> cv_sequence c'"
  shows "pt_run s \<lparr>cf_mutex = m', cf_cond = c', cf_threads = ts', cf_places = (cf_places s)[t := p'], cf_depth = (cf_depth s)[t := d']\<rparr>"
  unfolding pt_run_def using pt_step_intro [OF assms(1,2)] assms(3) by simp


section \<open>Concrete runs\<close>

text \<open>
  Two threads and a recursive mutex. Thread 0 locks; then either it waits with a limit of zero, gets the mutex
  back and returns; or it waits without a limit and thread 1 wakes it.
\<close>

definition demo :: "PthreadMutexPrivate \<Rightarrow> nat list \<Rightarrow> u64 \<Rightarrow> bool \<Rightarrow> th_place \<Rightarrow> nat \<Rightarrow> config" where
  "demo m ws q b p d =
    \<lparr>cf_mutex = m, cf_cond = \<lparr>cv_sequence = 0, cv_waiters = ws\<rparr>,
     cf_threads = [\<lparr>pt_cond_sequence = q, pt_waiting_cond = b\<rparr>, \<lparr>pt_cond_sequence = 0, pt_waiting_cond = False\<rparr>],
     cf_places = [p, Free OK], cf_depth = [d, 0]\<rparr>"

abbreviation "demo_free \<equiv> new_mutex 2 0"
abbreviation "demo_held \<equiv> demo_free\<lparr>mx_owner := Some 0, mx_count := 1\<rparr>"

lemmas demo_steps = mx_sections cv_sections new_mutex_def CondAddWaiter_def CondRemoveWaiter_def cond_ready_def
  PthreadCondSignal_def CondWakeWaiter_def

lemma demo_start: "reach pt_start pt_run (demo demo_free [] 0 False (Free OK) 0)"
  by (rule reach_start) (auto simp: pt_start_def demo_def new_mutex_def numeral_2_eq_2 intro!: exI [of _ 2] exI [of _ 0] exI [of _ "[0, 0]"])

lemma demo_go:
  assumes "reach pt_start pt_run (demo m ws q b p d)"
    and "pt_local 0 m (\<lparr>cv_sequence = 0, cv_waiters = ws\<rparr>,
       [\<lparr>pt_cond_sequence = q, pt_waiting_cond = b\<rparr>, \<lparr>pt_cond_sequence = 0, pt_waiting_cond = False\<rparr>]) p d
      m' (\<lparr>cv_sequence = 0, cv_waiters = ws'\<rparr>,
       [\<lparr>pt_cond_sequence = q', pt_waiting_cond = b'\<rparr>, \<lparr>pt_cond_sequence = 0, pt_waiting_cond = False\<rparr>]) p' d'"
  shows "pt_run (demo m ws q b p d) (demo m' ws' q' b' p' d')" "reach pt_start pt_run (demo m' ws' q' b' p' d')"
proof -
  show r: "pt_run (demo m ws q b p d) (demo m' ws' q' b' p' d')"
    using pt_go [of 0 "demo m ws q b p d", OF _ _ , of m' "\<lparr>cv_sequence = 0, cv_waiters = ws'\<rparr>"] assms(2)
    by (simp add: demo_def)
  show "reach pt_start pt_run (demo m' ws' q' b' p' d')" by (rule reach_step [OF assms(1) r])
qed

lemma demo_locked: "reach pt_start pt_run (demo demo_held [] 0 False (Free OK) 1)"
proof -
  have "NativeMutexLock demo_free 0 None False = (demo_held, MxRet HostOk)" by (simp add: demo_steps)
  from pt_lock [OF this, of _ OK 0] show ?thesis by (intro demo_go(2) [OF demo_start]) simp
qed

lemma demo_ended: "reach pt_start pt_run (demo demo_free [] 0 False (InCond (CvRelock 1 (CvFor 0) ETIMEDOUT None)) 1)"
proof -
  let ?w = "(\<lparr>cv_sequence = 0, cv_waiters = []\<rparr>, [\<lparr>pt_cond_sequence = 0, pt_waiting_cond = False\<rparr>, \<lparr>pt_cond_sequence = 0, pt_waiting_cond = False\<rparr>])"
  have "cond_wait_begin demo_held ?w 0 (CvFor 0) True False = (demo_free, ?w, CvRelock 1 (CvFor 0) ETIMEDOUT None)"
    by (simp add: demo_steps)
  from pt_wait [OF this, of OK 1] show ?thesis by (intro demo_go(2) [OF demo_locked]) simp
qed

lemma demo_recount: "reach pt_start pt_run (demo demo_held [] 0 False (InCond (CvRecount 1 (CvFor 0) ETIMEDOUT)) 1)"
proof -
  have "NativeMutexLock demo_free 0 None False = (demo_held, MxRet HostOk)" by (simp add: demo_steps)
  from pt_relock [OF this, of _ 1 "CvFor 0" ETIMEDOUT 1] show ?thesis by (intro demo_go(2) [OF demo_ended]) simp
qed

lemma demo_returned: "pt_run (demo demo_held [] 0 False (InCond (CvRecount 1 (CvFor 0) ETIMEDOUT)) 1)
    (demo demo_held [] 0 False (Free KERNEL_ERROR_ETIMEDOUT) 1)"
proof -
  have "mx_recount demo_held 1 = demo_held" by (simp add: demo_steps)
  with pt_recount [of 0 demo_held _ 1 "CvFor 0" ETIMEDOUT 1] show ?thesis by (intro demo_go(1) [OF demo_recount]) simp
qed

lemma demo_waiting: "reach pt_start pt_run (demo demo_free [0] 0 True (InCond (CvSleep 0 0 1 CvForever)) 1)"
proof -
  have "cond_wait_begin demo_held (\<lparr>cv_sequence = 0, cv_waiters = []\<rparr>,
      [\<lparr>pt_cond_sequence = 0, pt_waiting_cond = False\<rparr>, \<lparr>pt_cond_sequence = 0, pt_waiting_cond = False\<rparr>]) 0 CvForever True False =
    (demo_free, (\<lparr>cv_sequence = 0, cv_waiters = [0]\<rparr>,
      [\<lparr>pt_cond_sequence = 0, pt_waiting_cond = True\<rparr>, \<lparr>pt_cond_sequence = 0, pt_waiting_cond = False\<rparr>]), CvSleep 0 0 1 CvForever)"
    by (simp add: demo_steps)
  from pt_wait [OF this, of OK 1] show ?thesis by (intro demo_go(2) [OF demo_locked]) simp
qed


lemma mutex_exclusion_witness:
  "mx_owner (cf_mutex (demo demo_held [] 0 False (Free OK) 1)) = Some 0 \<and> cf_depth (demo demo_held [] 0 False (Free OK) 1) ! 1 = 0"
  using mutex_exclusion [OF demo_locked, of 0 OK 1 OK] by (simp add: demo_def)

lemma cond_wait_keeps_mutex_witness:
  "mx_owner (cf_mutex (demo demo_held [] 0 False (Free KERNEL_ERROR_ETIMEDOUT) 1)) = Some 0 \<and>
   KERNEL_ERROR_ETIMEDOUT \<in> {OK, KERNEL_ERROR_ETIMEDOUT}"
  using cond_wait_keeps_mutex [OF demo_recount demo_returned, of 0] by (simp add: demo_def)

lemma cond_signal_exact_witness:
  "cond_ready (snd (PthreadCondSignal (cf_cond (demo demo_free [0] 0 True (InCond (CvSleep 0 0 1 CvForever)) 1),
     cf_threads (demo demo_free [0] 0 True (InCond (CvSleep 0 0 1 CvForever)) 1)))) 0 0 0"
  using cond_signal_exact [OF demo_waiting, of 0 0 0 _ 1] by (simp add: demo_def)


end
