(* ===== verification/PthreadRwlock.thy ===== *)
theory PthreadRwlock
  imports Machine
begin

text \<open>
  Read-write locks of \<open>src/kernel/pthread.cpp\<close>: the critical sections of one lock, and the step relation of
  any number of threads on it. A waiting call tests the lock, sleeps for at most ten milliseconds, polls
  signals and tests again; the time that has passed is an argument of the test.
\<close>

section \<open>Critical sections\<close>

record PthreadRwlockPrivate =
  rw_writer :: "nat option"
  rw_writer_count :: u32
  rw_reader_count :: u32
  rw_waiting_writers :: u32
  rw_readers :: "(nat \<times> u32) list"

definition new_rwlock :: PthreadRwlockPrivate where
  "new_rwlock = \<lparr>rw_writer = None, rw_writer_count = 0, rw_reader_count = 0, rw_waiting_writers = 0, rw_readers = []\<rparr>"

definition RwlockFindReader :: "PthreadRwlockPrivate \<Rightarrow> nat \<Rightarrow> u32 option" where
  "RwlockFindReader rw thread = map_of (rw_readers rw) thread"

fun count_reader :: "nat \<Rightarrow> (nat \<times> u32) list \<Rightarrow> (nat \<times> u32) list" where
  "count_reader thread [] = []"
| "count_reader thread (r # rs) = (if fst r = thread then (thread, snd r + 1) # rs else r # count_reader thread rs)"

definition RwlockAddReader :: "PthreadRwlockPrivate \<Rightarrow> nat \<Rightarrow> PthreadRwlockPrivate" where
  "RwlockAddReader rw thread =
    (let rw1 = (if RwlockFindReader rw thread \<noteq> None then rw\<lparr>rw_readers := count_reader thread (rw_readers rw)\<rparr>
                else rw\<lparr>rw_readers := rw_readers rw @ [(thread, 1)]\<rparr>)
     in rw1\<lparr>rw_reader_count := rw_reader_count rw1 + 1\<rparr>)"

text \<open>The loop of \<open>RwlockRemoveReader\<close>, None when the thread is not in the list.\<close>

fun uncount_reader :: "nat \<Rightarrow> (nat \<times> u32) list \<Rightarrow> (nat \<times> u32) list option" where
  "uncount_reader thread [] = None"
| "uncount_reader thread (r # rs) =
    (if fst r = thread then Some (if snd r - 1 = 0 then rs else (thread, snd r - 1) # rs)
     else map_option ((#) r) (uncount_reader thread rs))"

definition RwlockRemoveReader :: "PthreadRwlockPrivate \<Rightarrow> nat \<Rightarrow> bool \<times> PthreadRwlockPrivate" where
  "RwlockRemoveReader rw thread =
    (case uncount_reader thread (rw_readers rw) of
       Some rs \<Rightarrow> (True, rw\<lparr>rw_readers := rs, rw_reader_count := rw_reader_count rw - 1\<rparr>)
     | None \<Rightarrow> (False, rw))"

definition may_read :: "PthreadRwlockPrivate \<Rightarrow> nat \<Rightarrow> bool" where
  "may_read rw self \<longleftrightarrow>
    (rw_writer rw = None \<and> (rw_waiting_writers rw = 0 \<or> RwlockFindReader rw self \<noteq> None)) \<or> rw_writer rw = Some self"

definition unregister_writer_wait :: "bool \<Rightarrow> PthreadRwlockPrivate \<Rightarrow> PthreadRwlockPrivate" where
  "unregister_writer_wait registered rw =
    (if registered then rw\<lparr>rw_waiting_writers := rw_waiting_writers rw - 1\<rparr> else rw)"

text \<open>
  Where a call is: returned, or asleep with the flags \<open>write\<close> and \<open>writer_wait_registered\<close> and the time limit.
\<close>

datatype rw_place = RwRet int | RwSleep bool bool "u32 option"

text \<open>One pass of the loop of \<open>RwlockLockCooperative\<close>.\<close>

definition rw_pass ::
  "PthreadRwlockPrivate \<Rightarrow> nat \<Rightarrow> bool \<Rightarrow> bool \<Rightarrow> u32 option \<Rightarrow> bool \<Rightarrow> PthreadRwlockPrivate \<times> rw_place" where
  "rw_pass rw self write registered timeout_us expired =
    (if write \<and> (rw_writer rw = Some self \<or> RwlockFindReader rw self \<noteq> None)
     then (unregister_writer_wait registered rw, RwRet KERNEL_ERROR_EDEADLK)
     else if write \<and> rw_writer rw = None \<and> rw_reader_count rw = 0
     then ((unregister_writer_wait registered rw)\<lparr>rw_writer := Some self, rw_writer_count := 1\<rparr>, RwRet OK)
     else if \<not> write \<and> may_read rw self then (RwlockAddReader rw self, RwRet OK)
     else
       let rw1 = (if write \<and> \<not> registered then rw\<lparr>rw_waiting_writers := rw_waiting_writers rw + 1\<rparr> else rw);
           registered1 = (write \<or> registered)
       in if timeout_us \<noteq> None \<and> (timeout_us = Some 0 \<or> expired)
          then (unregister_writer_wait registered1 rw1, RwRet KERNEL_ERROR_ETIMEDOUT)
          else (rw1, RwSleep write registered1 timeout_us))"

definition PthreadRwlockTryrdlock :: "PthreadRwlockPrivate \<Rightarrow> nat \<Rightarrow> PthreadRwlockPrivate \<times> int" where
  "PthreadRwlockTryrdlock rw self =
    (if may_read rw self then (RwlockAddReader rw self, OK) else (rw, KERNEL_ERROR_EBUSY))"

definition PthreadRwlockTrywrlock :: "PthreadRwlockPrivate \<Rightarrow> nat \<Rightarrow> PthreadRwlockPrivate \<times> int" where
  "PthreadRwlockTrywrlock rw self =
    (if rw_writer rw = Some self \<or> RwlockFindReader rw self \<noteq> None then (rw, KERNEL_ERROR_EDEADLK)
     else if rw_writer rw = None \<and> rw_reader_count rw = 0
     then (rw\<lparr>rw_writer := Some self, rw_writer_count := 1\<rparr>, OK)
     else (rw, KERNEL_ERROR_EBUSY))"

definition PthreadRwlockUnlock :: "PthreadRwlockPrivate \<Rightarrow> nat \<Rightarrow> (PthreadRwlockPrivate \<times> int) outcome" where
  "PthreadRwlockUnlock rw self =
    (case RwlockRemoveReader rw self of
       (True, rw1) \<Rightarrow> Done (rw1, OK)
     | (False, _) \<Rightarrow>
         if rw_writer rw = Some self then
           if rw_writer_count rw = 0 then Exit
           else
             let rw1 = rw\<lparr>rw_writer_count := rw_writer_count rw - 1\<rparr>
             in Done (if rw_writer_count rw1 = 0 then rw1\<lparr>rw_writer := None\<rparr> else rw1, OK)
         else Done (rw, KERNEL_ERROR_EPERM))"

definition PthreadRwlockDestroy :: "PthreadRwlockPrivate option \<Rightarrow> int \<times> PthreadRwlockPrivate option" where
  "PthreadRwlockDestroy rwlock =
    (case rwlock of
       None \<Rightarrow> (KERNEL_ERROR_EINVAL, None)
     | Some rw \<Rightarrow>
         if rw_writer rw \<noteq> None \<or> rw_reader_count rw \<noteq> 0 then (KERNEL_ERROR_EBUSY, Some rw) else (OK, None))"

section \<open>Threads on one lock\<close>

text \<open>
  \<open>rc_reads\<close> and \<open>rc_writes\<close> are not variables of the program: they count, for every thread, the read
  and write locks it was given and has not yet returned.
\<close>

record rw_config =
  rc_lock :: PthreadRwlockPrivate
  rc_places :: "rw_place list"
  rc_reads :: "nat list"
  rc_writes :: "nat list"

text \<open>The counters of a thread after a call that returned a code.\<close>

definition granted :: "rw_place \<Rightarrow> nat" where
  "granted p = of_bool (p = RwRet OK)"

inductive rw_local ::
  "nat \<Rightarrow> PthreadRwlockPrivate \<Rightarrow> rw_place \<Rightarrow> nat \<times> nat \<Rightarrow> PthreadRwlockPrivate \<Rightarrow> rw_place \<Rightarrow> nat \<times> nat \<Rightarrow> bool" where
  rw_rdlock: "rw_pass rw t False False tmo ex = (rw', p) \<Longrightarrow> rw_local t rw (RwRet n) (r, w) rw' p (r + granted p, w)"
| rw_wrlock: "rw_pass rw t True False tmo ex = (rw', p) \<Longrightarrow> rw_local t rw (RwRet n) (r, w) rw' p (r, w + granted p)"
| rw_retry_rd: "rw_pass rw t False reg tmo ex = (rw', p) \<Longrightarrow> rw_local t rw (RwSleep False reg tmo) (r, w) rw' p (r + granted p, w)"
| rw_retry_wr: "rw_pass rw t True reg tmo ex = (rw', p) \<Longrightarrow> rw_local t rw (RwSleep True reg tmo) (r, w) rw' p (r, w + granted p)"
| rw_tryrdlock: "PthreadRwlockTryrdlock rw t = (rw', e) \<Longrightarrow> rw_local t rw (RwRet n) (r, w) rw' (RwRet e) (r + granted (RwRet e), w)"
| rw_trywrlock: "PthreadRwlockTrywrlock rw t = (rw', e) \<Longrightarrow> rw_local t rw (RwRet n) (r, w) rw' (RwRet e) (r, w + granted (RwRet e))"
| rw_unlock: "PthreadRwlockUnlock rw t = Done (rw', e) \<Longrightarrow>
    rw_local t rw (RwRet n) (r, w) rw' (RwRet e) (if e \<noteq> OK then (r, w) else if r \<noteq> 0 then (r - 1, w) else (r, w - 1))"

inductive rw_step :: "rw_config \<Rightarrow> rw_config \<Rightarrow> bool" where
  rw_step_intro: "t < length (rc_places s) \<Longrightarrow>
    rw_local t (rc_lock s) (rc_places s ! t) (rc_reads s ! t, rc_writes s ! t) rw' p' (r', w') \<Longrightarrow>
    rw_step s \<lparr>rc_lock = rw', rc_places = (rc_places s)[t := p'], rc_reads = (rc_reads s)[t := r'], rc_writes = (rc_writes s)[t := w']\<rparr>"

definition rw_start :: "rw_config \<Rightarrow> bool" where
  "rw_start s \<longleftrightarrow> (\<exists>n < 2 ^ 32. s = \<lparr>rc_lock = new_rwlock, rc_places = replicate n (RwRet OK),
     rc_reads = replicate n 0, rc_writes = replicate n 0\<rparr>)"

end
