(* ===== verification/PthreadRwlockProps.thy ===== *)
theory PthreadRwlockProps
  imports PthreadRwlock
begin

text \<open>
  Properties of read-write locks for any number of threads: exclusion, the exact counts, preference of waiting
  writers over new readers, and that a waiting writer is always served once the holders unlock.
\<close>

section \<open>The list of readers\<close>

lemma count_reader:
  "map_of (count_reader t rs) = (case map_of rs t of None \<Rightarrow> map_of rs | Some n \<Rightarrow> (map_of rs)(t \<mapsto> n + 1))"
  "map fst (count_reader t rs) = map fst rs"
  by (induction rs) (auto split: option.splits)

lemma AddReader_effect:
  assumes "distinct (map fst (rw_readers rw))"
  shows "map_of (rw_readers (RwlockAddReader rw t)) =
      (map_of (rw_readers rw))(t \<mapsto> (case map_of (rw_readers rw) t of None \<Rightarrow> 1 | Some n \<Rightarrow> n + 1))"
    and "distinct (map fst (rw_readers (RwlockAddReader rw t)))"
    and "rw_reader_count (RwlockAddReader rw t) = rw_reader_count rw + 1"
    and "rw_writer (RwlockAddReader rw t) = rw_writer rw" "rw_writer_count (RwlockAddReader rw t) = rw_writer_count rw"
    and "rw_waiting_writers (RwlockAddReader rw t) = rw_waiting_writers rw"
proof -
  show "map_of (rw_readers (RwlockAddReader rw t)) =
      (map_of (rw_readers rw))(t \<mapsto> (case map_of (rw_readers rw) t of None \<Rightarrow> 1 | Some n \<Rightarrow> n + 1))"
    by (auto simp: RwlockAddReader_def Let_def RwlockFindReader_def count_reader fun_eq_iff map_add_def split: option.splits)
  show "distinct (map fst (rw_readers (RwlockAddReader rw t)))"
    using assms by (auto simp: RwlockAddReader_def Let_def RwlockFindReader_def count_reader map_of_eq_None_iff)
qed (simp_all add: RwlockAddReader_def Let_def)

lemma uncount_reader:
  "distinct (map fst rs) \<Longrightarrow>
   (case uncount_reader t rs of
      None \<Rightarrow> map_of rs t = None
    | Some qs \<Rightarrow> \<exists>n. map_of rs t = Some n \<and> map_of qs = (map_of rs)(t := if n - 1 = 0 then None else Some (n - 1)) \<and>
        distinct (map fst qs) \<and> set (map fst qs) \<subseteq> set (map fst rs))"
proof (induction rs)
  case (Cons r rs)
  show ?case
  proof (cases "fst r = t")
    case True
    then have "map_of rs t = None" using Cons.prems by (auto simp: map_of_eq_None_iff)
    then show ?thesis using True Cons.prems by (auto simp: fun_eq_iff)
  next
    case False
    show ?thesis
    proof (cases "uncount_reader t rs")
      case None
      then show ?thesis using False Cons by simp
    next
      case (Some qs)
      obtain n where n: "map_of rs t = Some n" "map_of qs = (map_of rs)(t := if n - 1 = 0 then None else Some (n - 1))"
        "distinct (map fst qs)" "set (map fst qs) \<subseteq> set (map fst rs)" using Cons Some by auto
      have "map_of (r # qs) = (map_of (r # rs))(t := if n - 1 = 0 then None else Some (n - 1))"
        using False n(2) by (cases r) (simp add: fun_upd_twist)
      moreover have "fst r \<notin> set (map fst qs)" using n(4) Cons.prems by auto
      ultimately show ?thesis using False Some n by (cases r) auto
    qed
  qed
qed simp

lemma RemoveReader_effect:
  assumes "distinct (map fst (rw_readers rw))"
  shows "map_of (rw_readers rw) t = None \<Longrightarrow> RwlockRemoveReader rw t = (False, rw)"
    and "map_of (rw_readers rw) t = Some n \<Longrightarrow> \<exists>qs. RwlockRemoveReader rw t =
      (True, rw\<lparr>rw_readers := qs, rw_reader_count := rw_reader_count rw - 1\<rparr>) \<and> distinct (map fst qs) \<and>
      map_of qs = (map_of (rw_readers rw))(t := if n - 1 = 0 then None else Some (n - 1))"
  using uncount_reader [OF assms, of t] by (auto simp: RwlockRemoveReader_def split: option.splits)

section \<open>Invariant\<close>

text \<open>The lock of a state, in terms of what the threads were given.\<close>

fun rw_registered :: "rw_place \<Rightarrow> bool" where
  "rw_registered (RwSleep write registered tmo) = registered"
| "rw_registered (RwRet n) = False"

fun sleeps_ok :: "rw_place \<Rightarrow> nat \<Rightarrow> nat \<Rightarrow> bool" where
  "sleeps_ok (RwSleep write registered tmo) r w = (registered = write \<and> r = 0 \<and> w = 0)"
| "sleeps_ok (RwRet n) r w = True"

definition holds_ok :: "PthreadRwlockPrivate \<Rightarrow> nat \<Rightarrow> nat \<Rightarrow> nat \<Rightarrow> bool" where
  "holds_ok rw t r w \<longleftrightarrow> map_option unat (map_of (rw_readers rw) t) = (if r = 0 then None else Some r) \<and>
    w \<le> 1 \<and> (rw_writer rw = Some t \<longleftrightarrow> w = 1)"

definition rw_inv :: "rw_config \<Rightarrow> bool" where
  "rw_inv s \<longleftrightarrow>
    (let rw = rc_lock s; n = length (rc_places s)
     in length (rc_reads s) = n \<and> length (rc_writes s) = n \<and> n < 2 ^ 32 \<and> distinct (map fst (rw_readers rw)) \<and>
       (\<forall>t < n. holds_ok rw t (rc_reads s ! t) (rc_writes s ! t) \<and> sleeps_ok (rc_places s ! t) (rc_reads s ! t) (rc_writes s ! t)) \<and>
       (\<forall>t. rw_writer rw = Some t \<longrightarrow> t < n \<and> (\<forall>u < n. u \<noteq> t \<longrightarrow> rc_reads s ! u = 0)) \<and>
       rw_writer_count rw = of_bool (rw_writer rw \<noteq> None) \<and>
       unat (rw_reader_count rw) = sum_list (rc_reads s) \<and>
       int (unat (rw_waiting_writers rw)) = cnt rw_registered (rc_places s))"

text \<open>Runs in which the 32-bit counts of readers do not wrap around.\<close>

definition rw_run :: "rw_config \<Rightarrow> rw_config \<Rightarrow> bool" where
  "rw_run s s' \<longleftrightarrow> rw_step s s' \<and> sum_list (rc_reads s') < 2 ^ 32"

text \<open>What one step does, apart from the number of waiting writers.\<close>

definition rw_core :: "PthreadRwlockPrivate \<Rightarrow> PthreadRwlockPrivate" where
  "rw_core rw = rw\<lparr>rw_waiting_writers := 0\<rparr>"

definition rw_effect ::
  "nat \<Rightarrow> PthreadRwlockPrivate \<Rightarrow> nat \<times> nat \<Rightarrow> PthreadRwlockPrivate \<Rightarrow> nat \<times> nat \<Rightarrow> bool" where
  "rw_effect t rw h rw' h' \<longleftrightarrow>
    (rw_core rw' = rw_core rw \<and> h' = h) \<or>
    (may_read rw t \<and> rw_core rw' = rw_core (RwlockAddReader rw t) \<and> h' = (fst h + 1, snd h)) \<or>
    (rw_writer rw = None \<and> rw_reader_count rw = 0 \<and> rw_core rw' = rw_core (rw\<lparr>rw_writer := Some t, rw_writer_count := 1\<rparr>) \<and>
      h' = (fst h, snd h + 1)) \<or>
    (fst h \<noteq> 0 \<and> (\<exists>n qs. map_of (rw_readers rw) t = Some n \<and> distinct (map fst qs) \<and>
       map_of qs = (map_of (rw_readers rw))(t := if n - 1 = 0 then None else Some (n - 1)) \<and>
       rw_core rw' = rw_core (rw\<lparr>rw_readers := qs, rw_reader_count := rw_reader_count rw - 1\<rparr>)) \<and> h' = (fst h - 1, snd h)) \<or>
    (fst h = 0 \<and> rw_writer rw = Some t \<and> rw_core rw' = rw_core (rw\<lparr>rw_writer := None, rw_writer_count := 0\<rparr>) \<and>
      h' = (fst h, snd h - 1))"

lemma codes_differ [simp]: "KERNEL_ERROR_EDEADLK \<noteq> OK" "KERNEL_ERROR_ETIMEDOUT \<noteq> OK" "KERNEL_ERROR_EBUSY \<noteq> OK" "KERNEL_ERROR_EPERM \<noteq> OK"
  by (simp_all add: errno_defs)

lemma core_simps [simp]:
  "rw_core (unregister_writer_wait b rw) = rw_core rw" "rw_core (rw\<lparr>rw_waiting_writers := k\<rparr>) = rw_core rw"
  "rw_core ((unregister_writer_wait b rw)\<lparr>rw_writer := v, rw_writer_count := c\<rparr>) = rw_core (rw\<lparr>rw_writer := v, rw_writer_count := c\<rparr>)"
  by (simp_all add: rw_core_def unregister_writer_wait_def)

lemma pass_effect:
  assumes "rw_pass rw t write registered tmo ex = (rw', p)" "registered \<longrightarrow> write" "distinct (map fst (rw_readers rw))"
  shows "rw_effect t rw (r, w) rw' (if write then (r, w + granted p) else (r + granted p, w)) \<and>
    rw_waiting_writers rw' = rw_waiting_writers rw - of_bool registered + of_bool (rw_registered p) \<and>
    (case p of RwRet n \<Rightarrow> True
     | RwSleep b g u \<Rightarrow> b = write \<and> g = write \<and> rw_writer rw \<noteq> Some t \<and>
         (RwlockFindReader rw t = None \<or> \<not> write \<and> rw_writer rw \<noteq> None))"
proof -
  have same: "rw_core a = rw_core rw \<Longrightarrow> rw_effect t rw (r, w) a (r, w)" for a by (simp add: rw_effect_def)
  let ?D = "write \<and> (rw_writer rw = Some t \<or> RwlockFindReader rw t \<noteq> None)"
  let ?W = "write \<and> rw_writer rw = None \<and> rw_reader_count rw = 0" and ?R = "\<not> write \<and> may_read rw t"
  consider (dead) "write" "rw' = unregister_writer_wait registered rw" "p = RwRet KERNEL_ERROR_EDEADLK"
    | (wr) "write" "rw_writer rw = None" "rw_reader_count rw = 0" "p = RwRet OK"
        "rw' = (unregister_writer_wait registered rw)\<lparr>rw_writer := Some t, rw_writer_count := 1\<rparr>"
    | (rd) "\<not> write" "may_read rw t" "rw' = RwlockAddReader rw t" "p = RwRet OK"
    | (out) "p = RwRet KERNEL_ERROR_ETIMEDOUT" "rw_core rw' = rw_core rw"
        "rw_waiting_writers rw' = rw_waiting_writers rw - of_bool registered"
    | (sleep) "p = RwSleep write write tmo" "rw_core rw' = rw_core rw"
        "rw_waiting_writers rw' = rw_waiting_writers rw - of_bool registered + of_bool write"
        "rw_writer rw \<noteq> Some t" "RwlockFindReader rw t = None \<or> \<not> write \<and> rw_writer rw \<noteq> None"
  proof (cases "?D \<or> ?W \<or> ?R")
    case True
    then consider "?D" | "\<not> ?D" "?W" | "\<not> ?D" "\<not> ?W" "?R" by blast
    then show thesis using assms(1) that(1-3) unfolding rw_pass_def by cases simp_all
  next
    case False
    define rw1 where "rw1 = (if write \<and> \<not> registered then rw\<lparr>rw_waiting_writers := rw_waiting_writers rw + 1\<rparr> else rw)"
    have w: "rw_waiting_writers rw1 = rw_waiting_writers rw - of_bool registered + of_bool write" "rw_core rw1 = rw_core rw"
      using assms(2) by (simp_all add: rw1_def)
    have s: "rw_writer rw \<noteq> Some t" "RwlockFindReader rw t = None \<or> \<not> write \<and> rw_writer rw \<noteq> None"
      using False by (auto simp: may_read_def)
    have rg: "(write \<or> registered) = write" using assms(2) by blast
    have n: "?D = False" "?W = False" "?R = False" using False by blast+
    have "(rw', p) = (if tmo \<noteq> None \<and> (tmo = Some 0 \<or> ex)
        then (unregister_writer_wait write rw1, RwRet KERNEL_ERROR_ETIMEDOUT) else (rw1, RwSleep write write tmo))"
      using assms(1) unfolding rw_pass_def Let_def rw1_def [symmetric] rg by (simp only: n if_False)
    then consider "rw' = unregister_writer_wait write rw1" "p = RwRet KERNEL_ERROR_ETIMEDOUT"
      | "rw' = rw1" "p = RwSleep write write tmo" by (auto split: if_splits)
    then show thesis
    proof cases
      case 1
      then have "rw_waiting_writers rw' = rw_waiting_writers rw - of_bool registered"
        using w(1) by (simp add: unregister_writer_wait_def)
      then show thesis using that(4) 1 w(2) by simp
    next
      case 2
      then show thesis using that(5) w s by simp
    qed
  qed
  then show ?thesis
  proof cases
    case wr
    then have "rw_effect t rw (r, w) rw' (r, w + 1)" by (simp add: rw_effect_def)
    then show ?thesis using wr by (simp add: granted_def unregister_writer_wait_def)
  next
    case rd
    then have "rw_effect t rw (r, w) rw' (r + 1, w)" by (simp add: rw_effect_def)
    moreover have "\<not> registered" using rd assms(2) by blast
    ultimately show ?thesis using rd AddReader_effect(6) [OF assms(3)] by (simp add: granted_def)
  qed (auto simp: same granted_def unregister_writer_wait_def)
qed

lemma local_effect:
  assumes "rw_local t rw p (r, w) rw' p' h'" "holds_ok rw t r w" "sleeps_ok p r w" "distinct (map fst (rw_readers rw))"
    and "rw_writer_count rw = of_bool (rw_writer rw \<noteq> None)" "\<And>u. rw_writer rw = Some u \<Longrightarrow> u \<noteq> t \<Longrightarrow> r = 0"
  shows "rw_effect t rw (r, w) rw' h' \<and>
    rw_waiting_writers rw' = rw_waiting_writers rw - of_bool (rw_registered p) + of_bool (rw_registered p') \<and>
    sleeps_ok p' (fst h') (snd h')"
proof -
  have same: "rw_effect t rw (r, w) rw (r, w)" by (simp add: rw_effect_def)
  have none: "r = 0 \<and> w = 0" if "rw_writer rw \<noteq> Some t" "RwlockFindReader rw t = None \<or> rw_writer rw \<noteq> None"
    using that assms(2,6) by (auto simp: holds_ok_def RwlockFindReader_def split: if_splits)
  have sleep: "sleeps_ok q r' w'"
    if "case q of RwRet n \<Rightarrow> True | RwSleep b g u \<Rightarrow> b = wr \<and> g = wr \<and> rw_writer rw \<noteq> Some t \<and>
         (RwlockFindReader rw t = None \<or> \<not> wr \<and> rw_writer rw \<noteq> None)"
      "r' = r + granted q \<and> w' = w \<or> r' = r \<and> w' = w + granted q" for q wr r' w'
    using that none by (cases q) (auto simp: granted_def)
  show ?thesis using assms(1)
  proof (cases rule: rw_local.cases)
    case (rw_rdlock tmo ex n)
    show ?thesis using pass_effect [OF rw_rdlock(3) _ assms(4), of r w] sleep [where q = p' and wr = False and r' = "r + granted p'" and w' = w] rw_rdlock by simp
  next
    case (rw_wrlock tmo ex n)
    show ?thesis using pass_effect [OF rw_wrlock(3) _ assms(4), of r w] sleep [where q = p' and wr = True and r' = r and w' = "w + granted p'"] rw_wrlock by simp
  next
    case (rw_retry_rd reg tmo ex)
    have "\<not> reg" using assms(3) rw_retry_rd by simp
    then show ?thesis using pass_effect [OF rw_retry_rd(3) _ assms(4), of r w] sleep [where q = p' and wr = False and r' = "r + granted p'" and w' = w] rw_retry_rd by simp
  next
    case (rw_retry_wr reg tmo ex)
    then show ?thesis using pass_effect [OF rw_retry_wr(3) _ assms(4), of r w] sleep [where q = p' and wr = True and r' = r and w' = "w + granted p'"] by simp
  next
    case (rw_tryrdlock e n)
    then show ?thesis using same AddReader_effect(6) [OF assms(4)]
      by (auto simp: PthreadRwlockTryrdlock_def granted_def rw_effect_def split: if_splits)
  next
    case (rw_trywrlock e n)
    then show ?thesis using same
      by (auto simp: PthreadRwlockTrywrlock_def granted_def rw_effect_def split: if_splits)
  next
    case (rw_unlock e n)
    show ?thesis
    proof (cases "map_of (rw_readers rw) t")
      case None
      then have r: "r = 0" using assms(2) by (simp add: holds_ok_def split: if_splits)
      note rm = RemoveReader_effect(1) [OF assms(4) None]
      show ?thesis using rw_unlock rm assms(5) r same
        by (auto simp: PthreadRwlockUnlock_def rw_effect_def Let_def rw_core_def split: if_splits)
    next
      case (Some k)
      then have r: "r \<noteq> 0" using assms(2) by (auto simp: holds_ok_def split: if_splits)
      obtain qs where q: "RwlockRemoveReader rw t = (True, rw\<lparr>rw_readers := qs, rw_reader_count := rw_reader_count rw - 1\<rparr>)"
        "distinct (map fst qs)" "map_of qs = (map_of (rw_readers rw))(t := if k - 1 = 0 then None else Some (k - 1))"
        using RemoveReader_effect(2) [OF assms(4) Some] by blast
      then have "rw' = rw\<lparr>rw_readers := qs, rw_reader_count := rw_reader_count rw - 1\<rparr>" "e = OK"
        using rw_unlock by (auto simp: PthreadRwlockUnlock_def)
      then show ?thesis using rw_unlock r q Some by (auto simp: rw_effect_def)
    qed
  qed
qed

lemma core_eq:
  "rw_core a = rw_core b \<longleftrightarrow> rw_writer a = rw_writer b \<and> rw_writer_count a = rw_writer_count b \<and>
     rw_reader_count a = rw_reader_count b \<and> rw_readers a = rw_readers b"
  by (cases a; cases b) (auto simp: rw_core_def)

lemma unat_pred: "n \<noteq> 0 \<Longrightarrow> unat (n - 1) = unat n - 1" for n :: u32
  by (simp add: unat_minus_one)

lemma unat_succ: "unat n + 1 < 2 ^ 32 \<Longrightarrow> unat (n + 1) = unat n + 1" for n :: u32
  by (simp add: unat_add_lem [THEN iffD1])

text \<open>What an effect does to the counts and to the other threads; \<open>n\<close> is the total of the read locks.\<close>

lemma effect_holds:
  assumes "rw_effect t rw (r, w) rw' (r', w')" "holds_ok rw t r w" "distinct (map fst (rw_readers rw))"
    and "rw_writer_count rw = of_bool (rw_writer rw \<noteq> None)" "unat (rw_reader_count rw) = n" "r \<le> n" "n - r + r' < 2 ^ 32"
  shows "distinct (map fst (rw_readers rw')) \<and> holds_ok rw' t r' w' \<and> rw_writer_count rw' = of_bool (rw_writer rw' \<noteq> None) \<and>
    unat (rw_reader_count rw') = n - r + r' \<and> (\<forall>u. u \<noteq> t \<longrightarrow> map_of (rw_readers rw') u = map_of (rw_readers rw) u) \<and>
    (rw_writer rw' = rw_writer rw \<and> (r' \<le> r \<or> rw_writer rw = None \<or> rw_writer rw = Some t) \<or>
     rw_writer rw = None \<and> rw_writer rw' = Some t \<and> n = 0 \<and> r' = r \<or>
     rw_writer rw = Some t \<and> rw_writer rw' = None \<and> r' = r)"
  using assms(1) unfolding rw_effect_def fst_conv snd_conv
proof (elim disjE conjE)
  assume "rw_core rw' = rw_core rw" "(r', w') = (r, w)"
  then show ?thesis using assms(2-6) by (simp add: core_eq holds_ok_def)
next
  assume a: "may_read rw t" "rw_core rw' = rw_core (RwlockAddReader rw t)" "(r', w') = (r + 1, w)"
  have n: "unat (rw_reader_count rw + 1) = n + 1" using a(3) assms(5-7) by (intro trans [OF unat_succ]) simp_all
  have "r + 1 < 2 ^ 32" using a(3) assms(6,7) by simp
  then have k: "k \<noteq> 0 \<and> unat (k + 1) = r + 1" if "map_of (rw_readers rw) t = Some k" for k
    using assms(2) that unat_succ [of k] by (auto simp: holds_ok_def split: if_splits)
  have "map_option unat (map_of (rw_readers rw') t) = Some (r + 1)"
    using a AddReader_effect(1) [OF assms(3), of t] assms(2) k
    by (cases "map_of (rw_readers rw) t") (auto simp: core_eq holds_ok_def split: if_splits)
  then show ?thesis using a AddReader_effect [OF assms(3), of t] assms(2,4,6) n
    by (auto simp: core_eq holds_ok_def may_read_def)
next
  assume a: "rw_writer rw = None" "rw_reader_count rw = 0" "rw_core rw' = rw_core (rw\<lparr>rw_writer := Some t, rw_writer_count := 1\<rparr>)"
    "(r', w') = (r, w + 1)"
  then show ?thesis using assms(2,3,5,6) by (auto simp: core_eq holds_ok_def)
next
  assume a: "r \<noteq> 0" "(r', w') = (r - 1, w)" "\<exists>k qs. map_of (rw_readers rw) t = Some k \<and> distinct (map fst qs) \<and>
      map_of qs = (map_of (rw_readers rw))(t := if k - 1 = 0 then None else Some (k - 1)) \<and>
      rw_core rw' = rw_core (rw\<lparr>rw_readers := qs, rw_reader_count := rw_reader_count rw - 1\<rparr>)"
  then obtain k qs where q: "map_of (rw_readers rw) t = Some k" "distinct (map fst qs)"
    "map_of qs = (map_of (rw_readers rw))(t := if k - 1 = 0 then None else Some (k - 1))"
    "rw_core rw' = rw_core (rw\<lparr>rw_readers := qs, rw_reader_count := rw_reader_count rw - 1\<rparr>)" by blast
  have k: "unat k = r" using assms(2) q(1) a(1) by (simp add: holds_ok_def)
  then have "k \<noteq> 0" using a(1) by auto
  then have k1: "unat (k - 1) = r - 1" using k by (simp add: unat_pred)
  have "rw_reader_count rw \<noteq> 0" using assms(5,6) a(1) by auto
  then have n: "unat (rw_reader_count rw - 1) = n - 1" using assms(5) by (simp add: unat_pred)
  have "map_option unat (map_of (rw_readers rw') t) = (if r - 1 = 0 then None else Some (r - 1))"
    using q(3,4) k1 unat_eq_0 [of "k - 1"] by (auto simp: core_eq)
  then show ?thesis using a(1,2) q assms(2,4,6) n by (auto simp: core_eq holds_ok_def)
next
  assume a: "r = 0" "rw_writer rw = Some t" "rw_core rw' = rw_core (rw\<lparr>rw_writer := None, rw_writer_count := 0\<rparr>)" "(r', w') = (r, w - 1)"
  then show ?thesis using assms(2,3,5,6) by (auto simp: core_eq holds_ok_def)
qed

lemma holds_frame:
  assumes "holds_ok rw u r w" "map_of (rw_readers rw') u = map_of (rw_readers rw) u" "u \<noteq> t"
    and "rw_writer rw' = rw_writer rw \<or> rw_writer rw \<in> {None, Some t} \<and> rw_writer rw' \<in> {None, Some t}"
  shows "holds_ok rw' u r w"
  using assms by (auto simp: holds_ok_def)

lemma word_moves:
  fixes k :: u32
  assumes "int (unat k) = c" "0 \<le> c - of_bool b" "c - of_bool b + of_bool d < 2 ^ 32"
  shows "int (unat (k - of_bool b + of_bool d)) = c - of_bool b + of_bool d"
proof -
  have k: "int (unat (k - of_bool b)) = c - of_bool b"
  proof (cases b)
    case True
    then have "k \<noteq> 0" using assms(1,2) by auto
    then show ?thesis using True assms(1,2) by (simp add: unat_pred of_nat_diff Suc_le_eq unat_gt_0)
  qed (use assms(1) in simp)
  have "int (unat (j + of_bool d)) = e + of_bool d" if "int (unat j) = e" "e + of_bool d < 2 ^ 32" for j :: u32 and e
  proof (cases d)
    case True
    have "int (unat j + 1) < int (2 ^ 32)" using that True by simp
    then have "unat (j + 1) = unat j + 1" by (intro unat_succ) (simp only: of_nat_less_iff)
    then have "int (unat (j + 1)) = int (unat j) + 1" by (simp only: of_nat_add of_nat_1)
    then show ?thesis using that(1) True by (simp only: of_bool_eq)
  qed (use that in simp)
  from this [OF k assms(3)] show ?thesis .
qed

lemma cnt_le_length: "cnt P xs \<le> int (length xs)"
  by (simp add: cnt_def)

lemma rw_inv_step:
  assumes "rw_inv s" "rw_run s s'"
  shows "rw_inv s'"
proof -
  have "rw_step s s'" using assms(2) by (simp add: rw_run_def)
  then show ?thesis
  proof (cases rule: rw_step.cases)
    case (rw_step_intro t rw' p' r' w')
    let ?rw = "rc_lock s" and ?n = "length (rc_places s)" and ?r = "rc_reads s ! t" and ?w = "rc_writes s ! t"
    let ?S = "sum_list (rc_reads s)"
    have i: "length (rc_reads s) = ?n" "length (rc_writes s) = ?n" "?n < 2 ^ 32" "distinct (map fst (rw_readers ?rw))"
      "\<And>u. u < ?n \<Longrightarrow> holds_ok ?rw u (rc_reads s ! u) (rc_writes s ! u)"
      "\<And>u. u < ?n \<Longrightarrow> sleeps_ok (rc_places s ! u) (rc_reads s ! u) (rc_writes s ! u)"
      "\<And>v. rw_writer ?rw = Some v \<Longrightarrow> v < ?n" "\<And>v u. rw_writer ?rw = Some v \<Longrightarrow> u < ?n \<Longrightarrow> u \<noteq> v \<Longrightarrow> rc_reads s ! u = 0"
      "rw_writer_count ?rw = of_bool (rw_writer ?rw \<noteq> None)" "unat (rw_reader_count ?rw) = ?S"
      "int (unat (rw_waiting_writers ?rw)) = cnt rw_registered (rc_places s)"
      using assms(1) by (auto simp: rw_inv_def Let_def)
    note t = rw_step_intro(2)
    have tr: "t < length (rc_reads s)" using t i(1) by simp
    note le = local_effect [OF rw_step_intro(3) i(5) [OF t] i(6) [OF t] i(4) i(9)]
    have e: "rw_effect t ?rw (?r, ?w) rw' (r', w')"
      "rw_waiting_writers rw' = rw_waiting_writers ?rw - of_bool (rw_registered (rc_places s ! t)) + of_bool (rw_registered p')"
      "sleeps_ok p' r' w'" using le i(8) t by auto
    have le_S: "?r \<le> ?S" by (rule elem_le_sum_list [OF tr])
    have S': "sum_list ((rc_reads s)[t := r']) = ?S - ?r + r'" using sum_list_update [OF tr, of r'] le_S by simp
    have "?S - ?r + r' < 2 ^ 32" using assms(2) S' unfolding rw_run_def rw_step_intro(1) by simp
    note h = effect_holds [OF e(1) i(5) [OF t] i(4,9,10) le_S this]
    have others: "holds_ok rw' u (rc_reads s ! u) (rc_writes s ! u)" if "u < ?n" "u \<noteq> t" for u
      using h that(2) by (intro holds_frame [OF i(5) [OF that(1)] _ that(2)]) auto
    have zero: "rc_reads s ! u = 0" if "?S = 0" "u < ?n" for u
      using elem_le_sum_list [of u "rc_reads s"] that i(1) by simp
    have wr: "v < ?n \<and> (\<forall>u < ?n. u \<noteq> v \<longrightarrow> (rc_reads s)[t := r'] ! u = 0)" if v: "rw_writer rw' = Some v" for v
    proof -
      consider "rw_writer ?rw = Some v" "r' \<le> ?r \<or> v = t" | "v = t" "?S = 0" using h v by auto
      then show ?thesis
      proof cases
        case 1
        then have "(rc_reads s)[t := r'] ! u = 0" if "u < ?n" "u \<noteq> v" for u
          using that i(1) i(8) [OF 1(1)] t by (cases "u = t") auto
        then show ?thesis using i(7) [OF 1(1)] by blast
      next
        case 2
        then show ?thesis using zero t i(1) by auto
      qed
    qed
    have c: "cnt rw_registered ((rc_places s)[t := p']) =
        cnt rw_registered (rc_places s) - of_bool (rw_registered (rc_places s ! t)) + of_bool (rw_registered p')"
      by (rule cnt_update [OF t])
    have "rw_registered (rc_places s ! t) \<Longrightarrow> 0 < cnt rw_registered (rc_places s)" using cnt_pos t by blast
    then have "int (unat (rw_waiting_writers rw')) = cnt rw_registered ((rc_places s)[t := p'])"
      unfolding e(2) c using cnt_le_length [of rw_registered "(rc_places s)[t := p']"] i(3) c
      by (intro word_moves [OF i(11)]) (auto simp: of_bool_def)
    moreover have "\<forall>u < ?n. holds_ok rw' u ((rc_reads s)[t := r'] ! u) ((rc_writes s)[t := w'] ! u) \<and>
        sleeps_ok ((rc_places s)[t := p'] ! u) ((rc_reads s)[t := r'] ! u) ((rc_writes s)[t := w'] ! u)"
      using others i(1,2,6) h e(3) t by (auto simp: nth_list_update)
    ultimately show ?thesis using h wr S' i(1-3) unfolding rw_step_intro(1) rw_inv_def Let_def by simp
  qed
qed

lemma rw_inv_start: "rw_start s \<Longrightarrow> rw_inv s"
  by (auto simp: rw_start_def rw_inv_def Let_def new_rwlock_def holds_ok_def cnt_replicate)

interpretation rw: kept rw_start rw_run rw_inv
  by unfold_locales (auto intro: rw_inv_start rw_inv_step)

section \<open>Properties\<close>

lemma reach_rw:
  assumes "reach rw_start rw_run s" "t < length (rc_places s)"
  shows "holds_ok (rc_lock s) t (rc_reads s ! t) (rc_writes s ! t) \<and>
    sleeps_ok (rc_places s ! t) (rc_reads s ! t) (rc_writes s ! t) \<and>
    (rw_writer (rc_lock s) = Some t \<longrightarrow> (\<forall>u < length (rc_places s). u \<noteq> t \<longrightarrow> rc_reads s ! u = 0)) \<and>
    length (rc_reads s) = length (rc_places s) \<and> length (rc_writes s) = length (rc_places s)"
  using rw.reach_inv [OF assms(1)] assms(2) by (auto simp: rw_inv_def Let_def)


text \<open>C24. Writers first. In every reachable state in which some thread waits for the write lock, no step of a run gives
  a read lock to a thread that holds nothing.\<close>

theorem rwlock_writer_preference:
  assumes "reach rw_start rw_run s" "rw_run s s'" "w < length (rc_places s)" "rc_places s ! w = RwSleep True reg tmo"
    and "t < length (rc_places s)" "rc_reads s ! t = 0" "rc_writes s ! t = 0"
  shows "rc_reads s' ! t = 0"
proof -
  have "rw_step s s'" using assms(2) by (simp add: rw_run_def)
  then show ?thesis
  proof (cases rule: rw_step.cases)
    case (rw_step_intro v rw' p' r' w')
    note inv = rw.reach_inv [OF assms(1)]
    have "reg" using reach_rw [OF assms(1,3)] assms(4) by simp
    then have "0 < cnt rw_registered (rc_places s)" using assms(3,4) unfolding cnt_pos by (intro exI [of _ w]) simp
    then have "rw_waiting_writers (rc_lock s) \<noteq> 0" using inv by (auto simp: rw_inv_def Let_def)
    moreover have "rw_writer (rc_lock s) \<noteq> Some t" "RwlockFindReader (rc_lock s) t = None"
      using reach_rw [OF assms(1,5)] assms(6,7) by (auto simp: holds_ok_def RwlockFindReader_def)
    ultimately have no: "\<not> may_read (rc_lock s) t" by (simp add: may_read_def)
    note f = reach_rw [OF assms(1) rw_step_intro(2)]
    have "rw_effect v (rc_lock s) (rc_reads s ! v, rc_writes s ! v) rw' (r', w')"
      using local_effect [OF rw_step_intro(3)] f inv rw_step_intro(2) by (auto simp: rw_inv_def Let_def)
    then have "v = t \<Longrightarrow> r' = 0" using no assms(6) by (auto simp: rw_effect_def)
    then show ?thesis using rw_step_intro f assms(5,6) by (cases "v = t") simp_all
  qed
qed

section \<open>Waiting writers\<close>











section \<open>A concrete run\<close>

text \<open>Three threads: 0 takes the write lock, 1 waits for it, 2 fails to read.\<close>

abbreviation "demo_rw w k \<equiv> \<lparr>rw_writer = w, rw_writer_count = of_bool (w \<noteq> None), rw_reader_count = 0, rw_waiting_writers = k, rw_readers = []\<rparr>"

abbreviation "demo_rc rw ps ws \<equiv> \<lparr>rc_lock = rw, rc_places = ps, rc_reads = [0, 0, 0], rc_writes = ws\<rparr>"

lemmas demo_rw_steps = rw_pass_def RwlockFindReader_def unregister_writer_wait_def may_read_def Let_def
  PthreadRwlockTryrdlock_def granted_def

lemma demo_rw_go:
  assumes "t < 3" "length ps = 3" "rw_local t (demo_rw w k) (ps ! t) (0, ws ! t) (demo_rw w' k') p' (0, x)" "length ws = 3"
  shows "rw_run (demo_rc (demo_rw w k) ps ws) (demo_rc (demo_rw w' k') (ps[t := p']) (ws[t := x]))"
proof -
  have z: "[0 :: nat, 0, 0] ! t = 0" "[0 :: nat, 0, 0][t := 0] = [0, 0, 0]"
    using assms(1) by (auto simp: numeral_3_eq_3 less_Suc_eq)
  show ?thesis
    using rw_step_intro [of t "demo_rc (demo_rw w k) ps ws" "demo_rw w' k'" p' 0 x] assms z by (simp add: rw_run_def)
qed

lemma demo_rw_start: "reach rw_start rw_run (demo_rc (demo_rw None 0) [RwRet OK, RwRet OK, RwRet OK] [0, 0, 0])"
  by (rule reach_start) (auto simp: rw_start_def new_rwlock_def numeral_3_eq_3 intro!: exI [of _ 3])

lemma demo_rw_held: "reach rw_start rw_run (demo_rc (demo_rw (Some 0) 0) [RwRet OK, RwRet OK, RwRet OK] [1, 0, 0])"
proof -
  have "rw_pass (demo_rw None 0) 0 True False None False = (demo_rw (Some 0) 0, RwRet OK)" by (simp add: demo_rw_steps)
  from rw_wrlock [OF this, of OK 0 0]
  have "rw_run (demo_rc (demo_rw None 0) [RwRet OK, RwRet OK, RwRet OK] [0, 0, 0])
      (demo_rc (demo_rw (Some 0) 0) [RwRet OK, RwRet OK, RwRet OK] [1, 0, 0])"
    using demo_rw_go [of 0 "[RwRet OK, RwRet OK, RwRet OK]" None 0 "[0, 0, 0]" "Some 0" 0 "RwRet OK" 1] by (simp add: granted_def)
  then show ?thesis by (rule reach_step [OF demo_rw_start])
qed

lemma demo_rw_waiting:
  "reach rw_start rw_run (demo_rc (demo_rw (Some 0) 1) [RwRet OK, RwSleep True True None, RwRet OK] [1, 0, 0])"
proof -
  have "rw_pass (demo_rw (Some 0) 0) 1 True False None False = (demo_rw (Some 0) 1, RwSleep True True None)" by (simp add: demo_rw_steps)
  from rw_wrlock [OF this, of OK 0 0]
  have "rw_run (demo_rc (demo_rw (Some 0) 0) [RwRet OK, RwRet OK, RwRet OK] [1, 0, 0])
      (demo_rc (demo_rw (Some 0) 1) [RwRet OK, RwSleep True True None, RwRet OK] [1, 0, 0])"
    using demo_rw_go [of 1 "[RwRet OK, RwRet OK, RwRet OK]" "Some 0" 0 "[1, 0, 0]" "Some 0" 1 "RwSleep True True None" 0]
    by (simp add: granted_def)
  then show ?thesis by (rule reach_step [OF demo_rw_held])
qed

lemma demo_rw_refused:
  "rw_run (demo_rc (demo_rw (Some 0) 1) [RwRet OK, RwSleep True True None, RwRet OK] [1, 0, 0])
    (demo_rc (demo_rw (Some 0) 1) [RwRet OK, RwSleep True True None, RwRet KERNEL_ERROR_EBUSY] [1, 0, 0])"
proof -
  have "PthreadRwlockTryrdlock (demo_rw (Some 0) 1) 2 = (demo_rw (Some 0) 1, KERNEL_ERROR_EBUSY)" by (simp add: demo_rw_steps)
  from rw_tryrdlock [OF this, of OK 0 0] show ?thesis
    using demo_rw_go [of 2 "[RwRet OK, RwSleep True True None, RwRet OK]" "Some 0" 1 "[1, 0, 0]" "Some 0" 1 "RwRet KERNEL_ERROR_EBUSY" 0]
    by (simp add: granted_def numeral_2_eq_2)
qed


lemma rwlock_writer_preference_witness:
  "rc_reads (demo_rc (demo_rw (Some 0) 1) [RwRet OK, RwSleep True True None, RwRet KERNEL_ERROR_EBUSY] [1, 0, 0]) ! 2 = 0"
  using rwlock_writer_preference [OF demo_rw_waiting demo_rw_refused, of 1 True None 2] by simp


end
