(* ===== verification/PthreadAttr.thy ===== *)
theory PthreadAttr
  imports Prelude
begin

text \<open>
  Thread attributes and thread-specific data of \<open>src/kernel/pthread.cpp\<close>. An attribute object is None when the
  pointer, or the object it points to, is null or invalid. The host's own attribute object is opaque: what
  its operations answer is an argument.
\<close>

section \<open>Attributes\<close>

record PthreadAttrPrivate =
  pa_affinity :: u64
  pa_guard_size :: u64
  pa_stack_addr :: u64
  pa_stack_size :: u64
  pa_stack_user :: bool
  pa_stack_map_addr :: u64
  pa_stack_map_size :: u64
  pa_policy :: int
  pa_sched_priority :: int
  pa_inherit_sched :: int
  pa_solosched :: int
  pa_detached :: bool

definition GUEST_PTHREAD_STACK_MIN :: u64 where "GUEST_PTHREAD_STACK_MIN = 0x4000"
definition PTHREAD_STACK_DEFAULT :: u64 where "PTHREAD_STACK_DEFAULT = 0x100000"

text \<open>The zero-initialised object.\<close>

definition zero_attr :: PthreadAttrPrivate where
  "zero_attr = \<lparr>pa_affinity = 0, pa_guard_size = 0, pa_stack_addr = 0, pa_stack_size = 0, pa_stack_user = False,
     pa_stack_map_addr = 0, pa_stack_map_size = 0, pa_policy = 0, pa_sched_priority = 0, pa_inherit_sched = 0,
     pa_solosched = 0, pa_detached = False\<rparr>"

text \<open>Reading: an error, a value, or the end of the process for a value that should not be there.\<close>

definition PthreadAttrGetaffinity :: "PthreadAttrPrivate option \<Rightarrow> int + u64" where
  "PthreadAttrGetaffinity attr = (case attr of None \<Rightarrow> Inl KERNEL_ERROR_EINVAL | Some a \<Rightarrow> Inr (pa_affinity a))"

definition PthreadAttrGetdetachstate :: "PthreadAttrPrivate option \<Rightarrow> int + int" where
  "PthreadAttrGetdetachstate attr =
    (case attr of None \<Rightarrow> Inl KERNEL_ERROR_EINVAL | Some a \<Rightarrow> Inr (if pa_detached a then 1 else 0))"

definition PthreadAttrGetguardsize :: "PthreadAttrPrivate option \<Rightarrow> int + u64" where
  "PthreadAttrGetguardsize attr = (case attr of None \<Rightarrow> Inl KERNEL_ERROR_EINVAL | Some a \<Rightarrow> Inr (pa_guard_size a))"

definition PthreadAttrGetinheritsched :: "PthreadAttrPrivate option \<Rightarrow> (int + int) outcome" where
  "PthreadAttrGetinheritsched attr =
    (case attr of
       None \<Rightarrow> Done (Inl KERNEL_ERROR_EINVAL)
     | Some a \<Rightarrow> if pa_inherit_sched a \<in> {0, 4} then Done (Inr (pa_inherit_sched a)) else Exit)"

definition PthreadAttrGetschedparam :: "PthreadAttrPrivate option \<Rightarrow> int + int" where
  "PthreadAttrGetschedparam attr =
    (case attr of None \<Rightarrow> Inl KERNEL_ERROR_EINVAL | Some a \<Rightarrow> Inr (pa_sched_priority a))"

text \<open>The answer of the host's \<open>pthread_attr_getschedpolicy\<close>: whether it succeeds, and the policy.\<close>

datatype host_policy = SchedOther | SchedFifo | SchedRr | SchedUnknown

definition PthreadAttrGetschedpolicy :: "bool \<Rightarrow> host_policy \<Rightarrow> PthreadAttrPrivate option \<Rightarrow> (int + int) outcome" where
  "PthreadAttrGetschedpolicy host_ok native attr =
    (case attr of
       None \<Rightarrow> Done (Inl KERNEL_ERROR_EINVAL)
     | Some a \<Rightarrow>
         obind (case native of SchedOther \<Rightarrow> Done (pa_policy a) | SchedFifo \<Rightarrow> Done 1 | SchedRr \<Rightarrow> Done 3 | SchedUnknown \<Rightarrow> Exit)
           (\<lambda>policy. Done (if host_ok then Inr policy else Inl KERNEL_ERROR_EINVAL)))"

definition PthreadAttrGetsolosched :: "PthreadAttrPrivate option \<Rightarrow> int + int" where
  "PthreadAttrGetsolosched attr = (case attr of None \<Rightarrow> Inl KERNEL_ERROR_EINVAL | Some a \<Rightarrow> Inr (pa_solosched a))"

definition PthreadAttrGetstack :: "PthreadAttrPrivate option \<Rightarrow> int + (u64 \<times> u64)" where
  "PthreadAttrGetstack attr =
    (case attr of None \<Rightarrow> Inl KERNEL_ERROR_EINVAL | Some a \<Rightarrow> Inr (pa_stack_addr a, pa_stack_size a))"

definition PthreadAttrGetstackaddr :: "PthreadAttrPrivate option \<Rightarrow> int + u64" where
  "PthreadAttrGetstackaddr attr = (case attr of None \<Rightarrow> Inl KERNEL_ERROR_EINVAL | Some a \<Rightarrow> Inr (pa_stack_addr a))"

definition PthreadAttrGetstacksize :: "PthreadAttrPrivate option \<Rightarrow> int + u64" where
  "PthreadAttrGetstacksize attr = (case attr of None \<Rightarrow> Inl KERNEL_ERROR_EINVAL | Some a \<Rightarrow> Inr (pa_stack_size a))"

text \<open>Writing: the result and the object.\<close>

type_synonym attr_result = "int \<times> PthreadAttrPrivate option"

definition PthreadAttrSetaffinity :: "PthreadAttrPrivate option \<Rightarrow> u64 \<Rightarrow> attr_result" where
  "PthreadAttrSetaffinity attr cpumask =
    (case attr of None \<Rightarrow> (KERNEL_ERROR_EINVAL, None) | Some a \<Rightarrow> (OK, Some (a\<lparr>pa_affinity := cpumask\<rparr>)))"

definition PthreadAttrSetdetachstate :: "PthreadAttrPrivate option \<Rightarrow> int \<Rightarrow> attr_result" where
  "PthreadAttrSetdetachstate attr state =
    (case attr of
       None \<Rightarrow> (KERNEL_ERROR_EINVAL, None)
     | Some a \<Rightarrow> if state \<in> {0, 1} then (OK, Some (a\<lparr>pa_detached := (state = 1)\<rparr>)) else (KERNEL_ERROR_EINVAL, attr))"

definition PthreadAttrSetguardsize :: "PthreadAttrPrivate option \<Rightarrow> u64 \<Rightarrow> attr_result" where
  "PthreadAttrSetguardsize attr guard_size =
    (case attr of None \<Rightarrow> (KERNEL_ERROR_EINVAL, None) | Some a \<Rightarrow> (OK, Some (a\<lparr>pa_guard_size := guard_size\<rparr>)))"

definition PthreadAttrSetinheritsched :: "PthreadAttrPrivate option \<Rightarrow> int \<Rightarrow> attr_result" where
  "PthreadAttrSetinheritsched attr inherit_sched =
    (case attr of
       None \<Rightarrow> (KERNEL_ERROR_EINVAL, None)
     | Some a \<Rightarrow>
         if inherit_sched \<in> {0, 4} then (OK, Some (a\<lparr>pa_inherit_sched := inherit_sched\<rparr>)) else (KERNEL_ERROR_ENOTSUP, attr))"

definition PthreadAttrSetschedparam :: "bool \<Rightarrow> PthreadAttrPrivate option \<Rightarrow> int option \<Rightarrow> attr_result" where
  "PthreadAttrSetschedparam host_ok attr param =
    (case (attr, param) of
       (Some a, Some sched_priority) \<Rightarrow>
         if sched_priority < 256 \<or> 767 < sched_priority then (KERNEL_ERROR_ENOTSUP, attr)
         else if host_ok then (OK, Some (a\<lparr>pa_sched_priority := sched_priority\<rparr>))
         else (KERNEL_ERROR_EINVAL, attr)
     | _ \<Rightarrow> (KERNEL_ERROR_EINVAL, attr))"

definition PthreadAttrSetschedpolicy :: "bool \<Rightarrow> PthreadAttrPrivate option \<Rightarrow> int \<Rightarrow> attr_result" where
  "PthreadAttrSetschedpolicy host_ok attr policy =
    (case attr of
       None \<Rightarrow> (KERNEL_ERROR_EINVAL, None)
     | Some a \<Rightarrow>
         if policy \<noteq> 1 \<and> policy \<noteq> 3 then (KERNEL_ERROR_ENOTSUP, attr)
         else if host_ok then (OK, Some (a\<lparr>pa_policy := policy, pa_sched_priority := 700\<rparr>))
         else (KERNEL_ERROR_EINVAL, attr))"

definition PthreadAttrSetsolosched :: "PthreadAttrPrivate option \<Rightarrow> int \<Rightarrow> attr_result" where
  "PthreadAttrSetsolosched attr solosched =
    (case attr of
       None \<Rightarrow> (KERNEL_ERROR_EINVAL, None)
     | Some a \<Rightarrow>
         if solosched \<noteq> 0 \<and> solosched \<noteq> 0x10 then (KERNEL_ERROR_ENOTSUP, attr) else (OK, Some (a\<lparr>pa_solosched := solosched\<rparr>)))"

definition PthreadAttrSetstack :: "PthreadAttrPrivate option \<Rightarrow> u64 \<Rightarrow> u64 \<Rightarrow> attr_result" where
  "PthreadAttrSetstack attr addr sz =
    (case attr of
       None \<Rightarrow> (KERNEL_ERROR_EINVAL, None)
     | Some a \<Rightarrow>
         if addr = 0 \<or> sz < GUEST_PTHREAD_STACK_MIN then (KERNEL_ERROR_EINVAL, attr)
         else (OK, Some (a\<lparr>pa_stack_addr := addr, pa_stack_size := sz, pa_stack_user := True,
                pa_stack_map_addr := 0, pa_stack_map_size := 0\<rparr>)))"

definition PthreadAttrSetstackaddr :: "PthreadAttrPrivate option \<Rightarrow> u64 \<Rightarrow> attr_result" where
  "PthreadAttrSetstackaddr attr addr =
    (case attr of
       None \<Rightarrow> (KERNEL_ERROR_EINVAL, None)
     | Some a \<Rightarrow>
         if addr = 0 then (KERNEL_ERROR_EINVAL, attr)
         else (OK, Some (a\<lparr>pa_stack_addr := addr, pa_stack_user := True, pa_stack_map_addr := 0, pa_stack_map_size := 0\<rparr>)))"

definition PthreadAttrSetstacksize :: "PthreadAttrPrivate option \<Rightarrow> u64 \<Rightarrow> attr_result" where
  "PthreadAttrSetstacksize attr stack_size =
    (case attr of
       None \<Rightarrow> (KERNEL_ERROR_EINVAL, None)
     | Some a \<Rightarrow>
         if stack_size < GUEST_PTHREAD_STACK_MIN then (KERNEL_ERROR_EINVAL, attr)
         else (OK, Some (a\<lparr>pa_stack_size := stack_size\<rparr>)))"

text \<open>The chains \<open>result = (result == 0 ? f(attr) : result)\<close>.\<close>

definition attr_chain :: "attr_result \<Rightarrow> (PthreadAttrPrivate option \<Rightarrow> attr_result) \<Rightarrow> attr_result" where
  "attr_chain r f = (if fst r = 0 then f (snd r) else r)"

definition PthreadAttrInit :: "bool \<Rightarrow> bool \<Rightarrow> attr_result" where
  "PthreadAttrInit init_ok host_ok =
    (let a = zero_attr\<lparr>pa_affinity := 0x7f, pa_guard_size := 0x1000, pa_stack_size := PTHREAD_STACK_DEFAULT\<rparr>;
         r0 = (if init_ok then 0 else KERNEL_ERROR_EINVAL, Some a);
         r1 = attr_chain r0 (\<lambda>attr. PthreadAttrSetinheritsched attr 4);
         r2 = attr_chain r1 (\<lambda>attr. PthreadAttrSetschedparam host_ok attr (Some 700));
         r3 = attr_chain r2 (\<lambda>attr. PthreadAttrSetschedpolicy host_ok attr 1);
         r4 = attr_chain r3 (\<lambda>attr. PthreadAttrSetdetachstate attr 0);
         r5 = attr_chain r4 (\<lambda>attr. PthreadAttrSetstacksize attr PTHREAD_STACK_DEFAULT)
     in (if fst r5 = 0 then OK else KERNEL_ERROR_EINVAL, snd r5))"

text \<open>Reading fails for none of the attributes of an object that exists, unless the process ends.\<close>

definition PthreadAttrCopy ::
  "bool \<Rightarrow> host_policy \<Rightarrow> PthreadAttrPrivate option \<Rightarrow> PthreadAttrPrivate option \<Rightarrow> attr_result outcome" where
  "PthreadAttrCopy host_ok native dst src =
    (case (dst, src) of
       (Some d, Some s) \<Rightarrow>
         obind (PthreadAttrGetinheritsched src) (\<lambda>inherit_sched.
         obind (PthreadAttrGetschedpolicy host_ok native src) (\<lambda>policy.
           case (PthreadAttrGetaffinity src, PthreadAttrGetdetachstate src, PthreadAttrGetguardsize src, inherit_sched,
               PthreadAttrGetschedparam src, policy, PthreadAttrGetsolosched src, PthreadAttrGetstackaddr src,
               PthreadAttrGetstacksize src) of
             (Inr cpumask, Inr state, Inr guard_size, Inr inherit, Inr param, Inr pol, Inr solo, Inr stack_addr, Inr stack_size) \<Rightarrow>
               let r1 = PthreadAttrSetaffinity dst cpumask;
                   r2 = attr_chain r1 (\<lambda>a. PthreadAttrSetdetachstate a state);
                   r3 = attr_chain r2 (\<lambda>a. PthreadAttrSetguardsize a guard_size);
                   r4 = attr_chain r3 (\<lambda>a. PthreadAttrSetinheritsched a inherit);
                   r5 = attr_chain r4 (\<lambda>a. PthreadAttrSetschedparam host_ok a (Some param));
                   r6 = attr_chain r5 (\<lambda>a. PthreadAttrSetschedpolicy host_ok a pol);
                   r7 = attr_chain r6 (\<lambda>a. PthreadAttrSetsolosched a solo);
                   r8 = (if stack_addr \<noteq> 0 then attr_chain r7 (\<lambda>a. PthreadAttrSetstackaddr a stack_addr) else r7);
                   r9 = (if stack_size \<noteq> 0 then attr_chain r8 (\<lambda>a. PthreadAttrSetstacksize a stack_size) else r8)
               in Done r9
           | _ \<Rightarrow> Done (KERNEL_ERROR_EINVAL, dst)))
     | _ \<Rightarrow> Done (KERNEL_ERROR_EINVAL, dst))"

lemmas attr_sets = PthreadAttrSetaffinity_def PthreadAttrSetdetachstate_def PthreadAttrSetguardsize_def
  PthreadAttrSetinheritsched_def PthreadAttrSetschedparam_def PthreadAttrSetschedpolicy_def PthreadAttrSetsolosched_def
  PthreadAttrSetstack_def PthreadAttrSetstackaddr_def PthreadAttrSetstacksize_def

lemmas attr_gets = PthreadAttrGetaffinity_def PthreadAttrGetdetachstate_def PthreadAttrGetguardsize_def
  PthreadAttrGetinheritsched_def PthreadAttrGetschedparam_def PthreadAttrGetschedpolicy_def PthreadAttrGetsolosched_def
  PthreadAttrGetstack_def PthreadAttrGetstackaddr_def PthreadAttrGetstacksize_def

section \<open>Properties of attributes\<close>

text \<open>What the setters let through.\<close>

definition attr_ok :: "PthreadAttrPrivate \<Rightarrow> bool" where
  "attr_ok a \<longleftrightarrow> pa_policy a \<in> {1, 3} \<and> 256 \<le> pa_sched_priority a \<and> pa_sched_priority a \<le> 767 \<and>
    pa_inherit_sched a \<in> {0, 4} \<and> pa_solosched a \<in> {0, 0x10} \<and> GUEST_PTHREAD_STACK_MIN \<le> pa_stack_size a"

text \<open>One call of a setter; the flags are the answers of the host.\<close>

inductive attr_call :: "PthreadAttrPrivate option \<Rightarrow> attr_result \<Rightarrow> bool" where
  "attr_call a (PthreadAttrSetaffinity a m)"
| "attr_call a (PthreadAttrSetdetachstate a n)"
| "attr_call a (PthreadAttrSetguardsize a z)"
| "attr_call a (PthreadAttrSetinheritsched a n)"
| "attr_call a (PthreadAttrSetschedparam h a p)"
| "attr_call a (PthreadAttrSetschedpolicy h a n)"
| "attr_call a (PthreadAttrSetsolosched a n)"
| "attr_call a (PthreadAttrSetstack a z y)"
| "attr_call a (PthreadAttrSetstackaddr a z)"
| "attr_call a (PthreadAttrSetstacksize a z)"

text \<open>C26. Well-formedness of attributes. A new attribute object is well formed, its creation succeeds exactly when the host
  accepts it, and every call of a setter keeps an object well formed and leaves it alone when it reports an error; the
  readers never end the process on a well-formed object.\<close>

theorem attr_wellformed:
  assumes "attr_ok a" "attr_call (Some a) (e, b)"
  shows "(case b of Some a' \<Rightarrow> attr_ok a' \<and> (e = OK \<or> a' = a) | None \<Rightarrow> False) \<and>
    PthreadAttrGetinheritsched (Some a) = Done (Inr (pa_inherit_sched a)) \<and>
    PthreadAttrGetschedpolicy True SchedOther (Some a) = Done (Inr (pa_policy a)) \<and>
    (case PthreadAttrInit i h of (c, Some a0) \<Rightarrow> (c = OK) = (i \<and> h) \<and> (c \<noteq> OK \<or> attr_ok a0) | (_, None) \<Rightarrow> False)"
proof -
  have "case b of Some a' \<Rightarrow> attr_ok a' \<and> (e = OK \<or> a' = a) | None \<Rightarrow> False"
    using assms(2,1) by cases (auto simp: attr_sets attr_ok_def split: if_splits option.splits)
  moreover have "case PthreadAttrInit i h of (c, Some a0) \<Rightarrow> (c = OK) = (i \<and> h) \<and> (c \<noteq> OK \<or> attr_ok a0) | (_, None) \<Rightarrow> False"
    by (cases i; cases h) (simp_all add: PthreadAttrInit_def attr_chain_def attr_sets attr_ok_def errno_defs
        GUEST_PTHREAD_STACK_MIN_def PTHREAD_STACK_DEFAULT_def zero_attr_def)
  ultimately show ?thesis using assms(1) by (auto simp: attr_gets attr_ok_def)
qed

lemma attr_wellformed_witness:
  "PthreadAttrGetschedpolicy True SchedOther (Some (the (snd (PthreadAttrInit True True)))) = Done (Inr 1)"
proof -
  have a: "attr_ok (the (snd (PthreadAttrInit True True)))"
    by (simp add: PthreadAttrInit_def attr_chain_def attr_sets attr_ok_def errno_defs GUEST_PTHREAD_STACK_MIN_def PTHREAD_STACK_DEFAULT_def zero_attr_def)
  have "attr_call (Some (the (snd (PthreadAttrInit True True)))) (OK, Some ((the (snd (PthreadAttrInit True True)))\<lparr>pa_affinity := 1\<rparr>))"
    using attr_call.intros(1) [of "Some (the (snd (PthreadAttrInit True True)))" 1] by (simp add: attr_sets)
  from attr_wellformed [OF a this] show ?thesis
    by (simp add: PthreadAttrInit_def attr_chain_def attr_sets errno_defs GUEST_PTHREAD_STACK_MIN_def PTHREAD_STACK_DEFAULT_def zero_attr_def)
qed

lemma chain_OK [simp]: "attr_chain (OK, b) f = f b"
  by (simp add: attr_chain_def OK_def)

text \<open>The values of a well-formed object are accepted.\<close>

lemma set_accepts:
  assumes "attr_ok s"
  shows "PthreadAttrSetaffinity (Some a) m = (OK, Some (a\<lparr>pa_affinity := m\<rparr>))"
    and "PthreadAttrSetdetachstate (Some a) (if pa_detached s then 1 else 0) = (OK, Some (a\<lparr>pa_detached := pa_detached s\<rparr>))"
    and "PthreadAttrSetguardsize (Some a) m = (OK, Some (a\<lparr>pa_guard_size := m\<rparr>))"
    and "PthreadAttrSetinheritsched (Some a) (pa_inherit_sched s) = (OK, Some (a\<lparr>pa_inherit_sched := pa_inherit_sched s\<rparr>))"
    and "PthreadAttrSetschedparam True (Some a) (Some (pa_sched_priority s)) = (OK, Some (a\<lparr>pa_sched_priority := pa_sched_priority s\<rparr>))"
    and "PthreadAttrSetschedpolicy True (Some a) (pa_policy s) = (OK, Some (a\<lparr>pa_policy := pa_policy s, pa_sched_priority := 700\<rparr>))"
    and "PthreadAttrSetsolosched (Some a) (pa_solosched s) = (OK, Some (a\<lparr>pa_solosched := pa_solosched s\<rparr>))"
    and "m \<noteq> 0 \<Longrightarrow> PthreadAttrSetstackaddr (Some a) m =
      (OK, Some (a\<lparr>pa_stack_addr := m, pa_stack_user := True, pa_stack_map_addr := 0, pa_stack_map_size := 0\<rparr>))"
    and "PthreadAttrSetstacksize (Some a) (pa_stack_size s) = (OK, Some (a\<lparr>pa_stack_size := pa_stack_size s\<rparr>))"
  using assms by (auto simp: attr_sets attr_ok_def)

text \<open>Copying attributes. Copying a well-formed object succeeds and copies everything but the priority, which becomes
  700 whatever the source has, because the policy is set after it and resets it; a stack address of zero in the source leaves the address of
  the destination in place.\<close>

lemma attr_copy_exact:
  assumes "attr_ok s"
  shows "PthreadAttrCopy True SchedOther (Some d) (Some s) =
    Done (OK, Some (s\<lparr>pa_sched_priority := 700,
      pa_stack_addr := (if pa_stack_addr s = 0 then pa_stack_addr d else pa_stack_addr s),
      pa_stack_user := (if pa_stack_addr s = 0 then pa_stack_user d else True),
      pa_stack_map_addr := (if pa_stack_addr s = 0 then pa_stack_map_addr d else 0),
      pa_stack_map_size := (if pa_stack_addr s = 0 then pa_stack_map_size d else 0)\<rparr>))"
proof -
  have g: "PthreadAttrGetinheritsched (Some s) = Done (Inr (pa_inherit_sched s))"
    "PthreadAttrGetschedpolicy True SchedOther (Some s) = Done (Inr (pa_policy s))"
    using assms by (auto simp: attr_gets attr_ok_def)
  have b: "pa_stack_size s \<noteq> 0" "(if pa_detached s then 1 else 0 :: int) \<in> {0, 1}"
    using assms by (auto simp: attr_ok_def GUEST_PTHREAD_STACK_MIN_def)
  note st = set_accepts [OF assms]
  show ?thesis
    unfolding PthreadAttrCopy_def option.case prod.case g obind.simps sum.case
      PthreadAttrGetaffinity_def PthreadAttrGetdetachstate_def PthreadAttrGetguardsize_def PthreadAttrGetschedparam_def
      PthreadAttrGetsolosched_def PthreadAttrGetstackaddr_def PthreadAttrGetstacksize_def Let_def
    using b(1) by (cases "pa_stack_addr s = 0") (simp_all add: st)
qed

lemma attr_copy_exact_witness:
  "PthreadAttrCopy True SchedOther (Some zero_attr)
     (Some ((the (snd (PthreadAttrInit True True)))\<lparr>pa_sched_priority := 300\<rparr>)) \<noteq>
   Done (OK, Some ((the (snd (PthreadAttrInit True True)))\<lparr>pa_sched_priority := 300\<rparr>))"
proof -
  have "attr_ok ((the (snd (PthreadAttrInit True True)))\<lparr>pa_sched_priority := 300\<rparr>)"
    by (simp add: PthreadAttrInit_def attr_chain_def attr_sets attr_ok_def errno_defs GUEST_PTHREAD_STACK_MIN_def PTHREAD_STACK_DEFAULT_def zero_attr_def)
  from attr_copy_exact [OF this, of zero_attr] show ?thesis
    by (simp add: PthreadAttrInit_def attr_chain_def attr_sets errno_defs GUEST_PTHREAD_STACK_MIN_def PTHREAD_STACK_DEFAULT_def zero_attr_def)
qed

end
