(* ===== verification/PthreadKeys.thy ===== *)
theory PthreadKeys
  imports Prelude
begin

text \<open>
  Thread-specific data, the class \<open>PthreadKeys\<close> of \<open>src/kernel/pthread.cpp\<close>. A key slot has its destructor, zero when
  there is none, and the values by thread in the order in which the threads first set one. The destructors
  are guest code: what a call of one does to the keys is an argument.
\<close>

section \<open>Operations\<close>

record key_slot =
  k_used :: bool
  k_destructor :: u64
  k_values :: "(int \<times> u64) list"

definition free_slot :: key_slot where
  "free_slot = \<lparr>k_used = False, k_destructor = 0, k_values = []\<rparr>"

definition KEYS_MAX :: nat where "KEYS_MAX = 256"
definition DESTRUCTOR_ITERATIONS :: nat where "DESTRUCTOR_ITERATIONS = 4"

definition new_keys :: "key_slot list" where
  "new_keys = replicate KEYS_MAX free_slot"

text \<open>The loop of \<open>Create\<close>: the first free slot from an index on, and the slots after taking it.\<close>

fun create_loop :: "nat \<Rightarrow> u64 \<Rightarrow> key_slot list \<Rightarrow> (nat \<times> key_slot list) option" where
  "create_loop index destructor [] = None"
| "create_loop index destructor (k # ks) =
    (if \<not> k_used k then Some (index, \<lparr>k_used = True, k_destructor = destructor, k_values = []\<rparr> # ks)
     else map_option (map_prod (\<lambda>n. n) ((#) k)) (create_loop (index + 1) destructor ks))"

definition key_Create :: "key_slot list \<Rightarrow> u64 \<Rightarrow> (nat \<times> key_slot list) option" where
  "key_Create ks destructor = create_loop 0 destructor ks"

definition key_valid :: "key_slot list \<Rightarrow> int \<Rightarrow> bool" where
  "key_valid ks key \<longleftrightarrow> \<not> (key < 0 \<or> int (length ks) \<le> key \<or> \<not> k_used (ks ! nat key))"

definition key_Delete :: "key_slot list \<Rightarrow> int \<Rightarrow> bool \<times> key_slot list" where
  "key_Delete ks key = (if \<not> key_valid ks key then (False, ks) else (True, ks[nat key := free_slot]))"

fun set_value :: "int \<Rightarrow> u64 \<Rightarrow> (int \<times> u64) list \<Rightarrow> (int \<times> u64) list" where
  "set_value thread_id data [] = [(thread_id, data)]"
| "set_value thread_id data (v # vs) = (if fst v = thread_id then (thread_id, data) # vs else v # set_value thread_id data vs)"

definition key_Set :: "key_slot list \<Rightarrow> int \<Rightarrow> int \<Rightarrow> u64 \<Rightarrow> bool \<times> key_slot list" where
  "key_Set ks key thread_id data =
    (if \<not> key_valid ks key then (False, ks)
     else (True, ks[nat key := (ks ! nat key)\<lparr>k_values := set_value thread_id data (k_values (ks ! nat key))\<rparr>]))"

definition get_value :: "int \<Rightarrow> (int \<times> u64) list \<Rightarrow> u64" where
  "get_value thread_id vs = (case map_of vs thread_id of Some data \<Rightarrow> data | None \<Rightarrow> 0)"

definition key_Get :: "key_slot list \<Rightarrow> int \<Rightarrow> int \<Rightarrow> u64 option" where
  "key_Get ks key thread_id = (if \<not> key_valid ks key then None else Some (get_value thread_id (k_values (ks ! nat key))))"

text \<open>One pass of \<open>Destruct\<close>: the calls to make, and the slots with the values to destroy set to null.\<close>

definition due :: "int \<Rightarrow> key_slot \<Rightarrow> (u64 \<times> u64) list" where
  "due thread_id k =
    (if k_used k \<and> k_destructor k \<noteq> 0
     then map (\<lambda>v. (k_destructor k, snd v)) (filter (\<lambda>v. fst v = thread_id \<and> snd v \<noteq> 0) (k_values k)) else [])"

definition taken :: "int \<Rightarrow> key_slot \<Rightarrow> key_slot" where
  "taken thread_id k =
    (if k_used k \<and> k_destructor k \<noteq> 0
     then k\<lparr>k_values := map (\<lambda>v. if fst v = thread_id \<and> snd v \<noteq> 0 then (fst v, 0) else v) (k_values k)\<rparr> else k)"

definition erase_thread :: "int \<Rightarrow> key_slot \<Rightarrow> key_slot" where
  "erase_thread thread_id k = k\<lparr>k_values := filter (\<lambda>v. fst v \<noteq> thread_id) (k_values k)\<rparr>"

text \<open>The calls that were made, and the slots at the end.\<close>

fun destruct_loop ::
  "nat \<Rightarrow> (u64 \<Rightarrow> u64 \<Rightarrow> key_slot list \<Rightarrow> key_slot list) \<Rightarrow> int \<Rightarrow> key_slot list \<Rightarrow> (u64 \<times> u64) list \<times> key_slot list" where
  "destruct_loop 0 call thread_id ks = ([], map (erase_thread thread_id) ks)"
| "destruct_loop (Suc n) call thread_id ks =
    (let delete_list = concat (map (due thread_id) ks); ks1 = map (taken thread_id) ks
     in if delete_list = [] then ([], ks1)
        else
          case destruct_loop n call thread_id (fold (\<lambda>d. call (fst d) (snd d)) delete_list ks1) of
            (calls, ks2) \<Rightarrow> (delete_list @ calls, ks2))"

definition key_Destruct ::
  "(u64 \<Rightarrow> u64 \<Rightarrow> key_slot list \<Rightarrow> key_slot list) \<Rightarrow> int \<Rightarrow> key_slot list \<Rightarrow> (u64 \<times> u64) list \<times> key_slot list" where
  "key_Destruct call thread_id ks = destruct_loop DESTRUCTOR_ITERATIONS call thread_id ks"

text \<open>The entry points.\<close>

definition PthreadKeyCreate :: "key_slot list \<Rightarrow> u64 \<Rightarrow> (int + nat) \<times> key_slot list" where
  "PthreadKeyCreate ks destructor =
    (case key_Create ks destructor of None \<Rightarrow> (Inl KERNEL_ERROR_EAGAIN, ks) | Some (key, ks') \<Rightarrow> (Inr key, ks'))"

definition PthreadKeyDelete :: "key_slot list \<Rightarrow> int \<Rightarrow> int \<times> key_slot list" where
  "PthreadKeyDelete ks key = (case key_Delete ks key of (ok, ks') \<Rightarrow> (if ok then OK else KERNEL_ERROR_EINVAL, ks'))"

definition PthreadSetspecific :: "key_slot list \<Rightarrow> int \<Rightarrow> int \<Rightarrow> u64 \<Rightarrow> int \<times> key_slot list" where
  "PthreadSetspecific ks key thread_id val =
    (case key_Set ks key thread_id val of (ok, ks') \<Rightarrow> (if ok then OK else KERNEL_ERROR_EINVAL, ks'))"

definition PthreadGetspecific :: "key_slot list \<Rightarrow> int \<Rightarrow> int \<Rightarrow> u64" where
  "PthreadGetspecific ks key thread_id = (case key_Get ks key thread_id of None \<Rightarrow> 0 | Some val \<Rightarrow> val)"

section \<open>Values\<close>

lemma get_set_value: "get_value u (set_value t d vs) = (if u = t then d else get_value u vs)"
  by (induction vs) (auto simp: get_value_def)

lemma valid_update: "k_used (f (ks ! i)) = k_used (ks ! i) \<Longrightarrow> i < length ks \<Longrightarrow> key_valid (ks[i := f (ks ! i)]) key = key_valid ks key"
  by (auto simp: key_valid_def nth_list_update)

lemma create_loop_spec:
  "case create_loop i d ks of
     None \<Rightarrow> \<forall>k \<in> set ks. k_used k
   | Some (key, ks') \<Rightarrow> \<exists>j < length ks. key = i + j \<and> \<not> k_used (ks ! j) \<and> (\<forall>l < j. k_used (ks ! l)) \<and>
       ks' = ks[j := \<lparr>k_used = True, k_destructor = d, k_values = []\<rparr>]"
proof (induction i d ks rule: create_loop.induct)
  case (2 i d k ks)
  show ?case
  proof (cases "k_used k")
    case False
    then show ?thesis by (auto intro!: exI [of _ 0])
  next
    case True
    then show ?thesis
    proof (cases "create_loop (i + 1) d ks")
      case None
      then show ?thesis using 2 True by simp
    next
      case (Some r)
      then obtain j where "j < length ks" "fst r = i + 1 + j" "\<not> k_used (ks ! j)" "\<forall>l < j. k_used (ks ! l)"
        "snd r = ks[j := \<lparr>k_used = True, k_destructor = d, k_values = []\<rparr>]"
        using 2 True by (cases r) auto
      then show ?thesis using True Some by (cases r) (auto simp: less_Suc_eq_0_disj intro!: exI [of _ "Suc j"])
    qed
  qed
qed simp

text \<open>Keys as a two-dimensional store. Creating gives the least free key, and fails exactly when there is none; the new
  key reads as null for every thread. Setting fails exactly for a key that is not in use; otherwise the thread reads the value back and
  every other thread and key reads what it read before. A deleted key is not in use.\<close>

lemma keys_store:
  "(case key_Create ks d of
      None \<Rightarrow> list_all k_used ks
    | Some (key, ks') \<Rightarrow> key < length ks \<and> \<not> key_valid ks (int key) \<and> list_all k_used (take key ks) \<and>
        key_Get ks' (int key) t = Some 0 \<and> (k = int key \<or> key_Get ks' k t = key_Get ks k t)) \<and>
   (case key_Set ks key t v of
      (ok, ks') \<Rightarrow> ok = key_valid ks key \<and>
        key_Get ks' k u = (if ok \<and> k = key \<and> u = t then Some v else key_Get ks k u)) \<and>
   (case key_Delete ks key of
      (ok, ks') \<Rightarrow> ok = key_valid ks key \<and> key_Get ks' k u = (if k = key then None else key_Get ks k u))"
proof -
  have c: "case key_Create ks d of
      None \<Rightarrow> list_all k_used ks
    | Some (key, ks') \<Rightarrow> key < length ks \<and> \<not> key_valid ks (int key) \<and> list_all k_used (take key ks) \<and>
        key_Get ks' (int key) t = Some 0 \<and> (k = int key \<or> key_Get ks' k t = key_Get ks k t)"
  proof (cases "key_Create ks d")
    case None
    then show ?thesis using create_loop_spec [where i = 0 and d = d and ks = ks] by (simp add: key_Create_def list_all_iff)
  next
    case (Some r)
    then obtain j where j: "j < length ks" "r = (j, ks[j := \<lparr>k_used = True, k_destructor = d, k_values = []\<rparr>])"
      "\<not> k_used (ks ! j)" "\<forall>l < j. k_used (ks ! l)"
      using create_loop_spec [where i = 0 and d = d and ks = ks] by (cases r) (auto simp: key_Create_def)
    have "list_all k_used (take j ks)" using j(1,4) by (auto simp: list_all_length)
    moreover have "nat k \<noteq> j" if "k \<noteq> int j" "\<not> k < 0" using that by linarith
    ultimately show ?thesis using Some j by (auto simp: key_Get_def key_valid_def get_value_def nth_list_update)
  qed
  have n: "nat k = nat key \<longleftrightarrow> k = key" if "key_valid ks k" "key_valid ks key" using that by (auto simp: key_valid_def)
  have s: "case key_Set ks key t v of
      (ok, ks') \<Rightarrow> ok = key_valid ks key \<and> key_Get ks' k u = (if ok \<and> k = key \<and> u = t then Some v else key_Get ks k u)"
  proof (cases "key_valid ks key")
    case True
    then have l: "nat key < length ks" by (auto simp: key_valid_def)
    let ?f = "\<lambda>s. s\<lparr>k_values := set_value t v (k_values s)\<rparr>"
    have "key_valid (ks[nat key := ?f (ks ! nat key)]) k = key_valid ks k" by (rule valid_update) (simp_all add: l)
    then have "key_Get (ks[nat key := ?f (ks ! nat key)]) k u = (if k = key \<and> u = t then Some v else key_Get ks k u)"
      using True l n get_set_value [of u t v] by (cases "key_valid ks k") (auto simp: key_Get_def)
    then show ?thesis using True by (simp add: key_Set_def)
  qed (simp add: key_Set_def)
  have "case key_Delete ks key of
      (ok, ks') \<Rightarrow> ok = key_valid ks key \<and> key_Get ks' k u = (if k = key then None else key_Get ks k u)"
  proof (cases "key_valid ks key")
    case True
    then have l: "nat key < length ks" by (auto simp: key_valid_def)
    have "key_valid (ks[nat key := free_slot]) k \<longleftrightarrow> key_valid ks k \<and> k \<noteq> key"
      using True l by (cases "nat k = nat key") (auto simp: key_valid_def free_slot_def)
    moreover have "ks[nat key := free_slot] ! nat k = ks ! nat k" if "key_valid ks k" "k \<noteq> key"
      using n [OF that(1) True] that(2) by simp
    ultimately show ?thesis using True by (simp add: key_Delete_def key_Get_def)
  qed (auto simp: key_Delete_def key_Get_def)
  with c s show ?thesis by blast
qed

section \<open>Destructors\<close>

text \<open>Slots in which every thread has at most one value, as the operations keep them.\<close>

lemma set_value_distinct: "distinct (map fst vs) \<Longrightarrow> distinct (map fst (set_value t d vs))"
proof (induction vs)
  case (Cons v vs)
  have "set (map fst (set_value t d ws)) = insert t (set (map fst ws))" for ws by (induction ws) auto
  then show ?case using Cons by auto
qed simp

lemma taken_idle: "due t (taken t k) = []"
  by (auto simp: due_def taken_def filter_empty_conv)

lemma get_taken:
  "get_value u (k_values (taken t k)) = (if u = t \<and> k_destructor k \<noteq> 0 \<and> k_used k then 0 else get_value u (k_values k))"
proof -
  have "map_of (map (\<lambda>v. if fst v = t \<and> snd v \<noteq> 0 then (fst v, 0) else v) vs) u =
      (if u = t then map_option (\<lambda>_. 0) (map_of vs u) else map_of vs u)" for vs :: "(int \<times> u64) list"
    by (induction vs) auto
  then show ?thesis by (auto simp: taken_def get_value_def split: option.splits)
qed

lemma taken_fields [simp]: "k_used (taken t k) = k_used k" "k_destructor (taken t k) = k_destructor k"
  by (simp_all add: taken_def)

lemma taken_nothing: "due t k = [] \<Longrightarrow> taken t k = k"
proof -
  assume d: "due t k = []"
  have "map (\<lambda>v. if fst v = t \<and> snd v \<noteq> 0 then (fst v, 0) else v) (k_values k) = k_values k"
    if "k_used k" "k_destructor k \<noteq> 0"
    using that d by (intro map_idI) (auto simp: due_def filter_empty_conv)
  then show ?thesis by (simp add: taken_def)
qed

text \<open>Destruction. When the destructors leave the keys alone, the calls are exactly one for each value of the thread that is not null and whose key has a destructor, in the order of the
  keys; afterwards these read as null, while the values of other threads, and values without destructor, are kept.\<close>

lemma keys_destruct_exact:
  assumes "\<And>d x s. call d x s = s"
  shows "fst (key_Destruct call t ks) = concat (map (due t) ks) \<and>
    key_Get (snd (key_Destruct call t ks)) k u =
      (if u = t \<and> key_valid ks k \<and> k_destructor (ks ! nat k) \<noteq> 0 then Some 0 else key_Get ks k u)"
proof -
  have f: "fold (\<lambda>d. call (fst d) (snd d)) xs s = s" for xs s using assms by (induction xs) auto
  have i: "concat (map (due t) (map (taken t) ks)) = []" by (simp add: taken_idle)
  have tt: "map (taken t) (map (taken t) ks) = map (taken t) ks" by (simp add: taken_nothing taken_idle)
  have r: "key_Destruct call t ks = (concat (map (due t) ks), map (taken t) ks)"
    unfolding key_Destruct_def DESTRUCTOR_ITERATIONS_def
    using i tt f by (simp add: numeral_eq_Suc Let_def del: map_map)
  have v: "key_valid (map (taken t) ks) k = key_valid ks k"
    by (auto simp: key_valid_def)
  have "nat k < length ks" if "key_valid ks k" using that by (auto simp: key_valid_def)
  then show ?thesis using r v get_taken [of u t "ks ! nat k"] by (auto simp: key_Get_def key_valid_def)
qed

lemma keys_destruct_exact_witness:
  "fst (key_Destruct (\<lambda>d x s. s) 7 [\<lparr>k_used = True, k_destructor = 0x1000, k_values = [(7, 5), (8, 6)]\<rparr>]) = [(0x1000, 5)]"
  using keys_destruct_exact [of "\<lambda>d x s. s" 7 "[\<lparr>k_used = True, k_destructor = 0x1000, k_values = [(7, 5), (8, 6)]\<rparr>]"]
  by (simp add: due_def)

end
