(* ===== verification/PageManager.thy ===== *)
theory PageManager
  imports BitArrayProps
begin

text \<open>
  Page watchers, \<open>src/graphics/host_gpu/pageManager.cpp\<close>: for every page of 4 KiB the number of those
  who want its writes, and its reads, to trap, and the protection that the host has for it. Addresses are naturals: they
  are tested to lie below \<open>2 ^ 40\<close> before anything is computed from them. The lock of a region makes the update of
  its pages one step. \<open>FailFast\<close> and \<open>Fatal\<close> end the process.
\<close>

section \<open>Pages\<close>

definition TRACKER_PAGE_SIZE :: nat where "TRACKER_PAGE_SIZE = 4 * 1024"
definition TRACKER_REGION_SIZE :: nat where "TRACKER_REGION_SIZE = 4 * 1024 * 1024"
definition TRACKER_ADDRESS_SIZE :: nat where "TRACKER_ADDRESS_SIZE = 1099511627776"
definition TRACKER_REGION_PAGES :: nat where "TRACKER_REGION_PAGES = TRACKER_REGION_SIZE div TRACKER_PAGE_SIZE"

lemmas tracker_sizes = TRACKER_PAGE_SIZE_def TRACKER_REGION_SIZE_def TRACKER_ADDRESS_SIZE_def TRACKER_REGION_PAGES_def

datatype page_protection = NO_ACCESS_PROTECTION | READ_ONLY_PROTECTION | READ_WRITE_PROTECTION

text \<open>The modes of \<open>Common::VirtualMemory::Mode\<close> that are used.\<close>

datatype memory_mode = ModeNoAccess | ModeRead | ModeReadWrite | ModeExecuteRead | ModeExecuteReadWrite

fun ToMemoryMode :: "page_protection \<Rightarrow> memory_mode" where
  "ToMemoryMode NO_ACCESS_PROTECTION = ModeNoAccess"
| "ToMemoryMode READ_ONLY_PROTECTION = ModeExecuteRead"
| "ToMemoryMode READ_WRITE_PROTECTION = ModeExecuteReadWrite"

fun ToMemoryModeNoExec :: "page_protection \<Rightarrow> memory_mode" where
  "ToMemoryModeNoExec NO_ACCESS_PROTECTION = ModeNoAccess"
| "ToMemoryModeNoExec READ_ONLY_PROTECTION = ModeRead"
| "ToMemoryModeNoExec READ_WRITE_PROTECTION = ModeReadWrite"

definition page_range_ok :: "bool \<Rightarrow> nat \<Rightarrow> nat \<Rightarrow> bool" where
  "page_range_ok allow_zero vaddr sz \<longleftrightarrow>
    \<not> ((\<not> allow_zero \<and> vaddr = 0) \<or> sz = 0 \<or> TRACKER_ADDRESS_SIZE \<le> vaddr \<or> TRACKER_ADDRESS_SIZE - vaddr < sz)"

definition PageStart :: "nat \<Rightarrow> nat" where
  "PageStart vaddr = vaddr - vaddr mod TRACKER_PAGE_SIZE"

definition PageEnd :: "nat \<Rightarrow> nat \<Rightarrow> nat" where
  "PageEnd vaddr sz = PageStart (vaddr + sz - 1) + TRACKER_PAGE_SIZE"

record PageState =
  write_watchers :: "7 word"
  access_watchers :: "1 word"

definition new_page :: PageState where
  "new_page = \<lparr>write_watchers = 0, access_watchers = 0\<rparr>"

definition Perms :: "PageState \<Rightarrow> page_protection" where
  "Perms page =
    (if access_watchers page \<noteq> 0 then NO_ACCESS_PROTECTION
     else if write_watchers page \<noteq> 0 then READ_ONLY_PROTECTION
     else READ_WRITE_PROTECTION)"

definition AddDelta :: "int \<Rightarrow> bool \<Rightarrow> PageState \<Rightarrow> (nat \<times> PageState) outcome" where
  "AddDelta delta is_read page =
    (if is_read then
       if delta = 1 then
         if access_watchers page \<noteq> 0 then Exit
         else let c = access_watchers page + 1 in Done (unat c, page\<lparr>access_watchers := c\<rparr>)
       else if delta = -1 then
         if access_watchers page = 0 then Exit
         else let c = access_watchers page - 1 in Done (unat c, page\<lparr>access_watchers := c\<rparr>)
       else Done (unat (access_watchers page), page)
     else
       if delta = 1 then
         if write_watchers page = 0x7f then Exit
         else let c = write_watchers page + 1 in Done (unat c, page\<lparr>write_watchers := c\<rparr>)
       else if delta = -1 then
         if write_watchers page = 0 then Exit
         else let c = write_watchers page - 1 in Done (unat c, page\<lparr>write_watchers := c\<rparr>)
       else Done (unat (write_watchers page), page))"

section \<open>Protecting\<close>

text \<open>
  The host: the mode of every page, by its number. An answer of the host to \<open>ProtectGuestHostMemory\<close> is
  an argument; after a success all pages of the range have the mode.
\<close>

type_synonym host_pages = "nat \<Rightarrow> memory_mode"
type_synonym protect_answer = "nat \<Rightarrow> nat \<Rightarrow> memory_mode \<Rightarrow> bool"

definition protect_pages :: "nat \<Rightarrow> nat \<Rightarrow> memory_mode \<Rightarrow> host_pages \<Rightarrow> host_pages" where
  "protect_pages vaddr sz mode host =
    (\<lambda>p. if vaddr \<le> p * TRACKER_PAGE_SIZE \<and> p * TRACKER_PAGE_SIZE < vaddr + sz then mode else host p)"

definition page_Protect :: "protect_answer \<Rightarrow> nat \<Rightarrow> nat \<Rightarrow> page_protection \<Rightarrow> host_pages \<Rightarrow> host_pages outcome" where
  "page_Protect ans vaddr sz protection host =
    (if ans vaddr sz (ToMemoryMode protection) then Done (protect_pages vaddr sz (ToMemoryMode protection) host)
     else if ans vaddr sz (ToMemoryModeNoExec protection) then Done (protect_pages vaddr sz (ToMemoryModeNoExec protection) host)
     else Exit)"

section \<open>Updating the watchers of a region\<close>

text \<open>The variables of \<open>UpdateRegionWatchers\<close>, with the pages of the region and the host.\<close>

record watch_vars =
  wv_pages :: "PageState list"
  wv_host :: host_pages
  wv_perms :: page_protection
  wv_begin :: nat
  wv_bytes :: nat
  wv_potential :: nat

definition release_pending :: "protect_answer \<Rightarrow> nat \<Rightarrow> watch_vars \<Rightarrow> watch_vars outcome" where
  "release_pending ans base_addr w =
    (if wv_bytes w \<noteq> 0 then
       obind (page_Protect ans (base_addr + wv_begin w * TRACKER_PAGE_SIZE) (wv_bytes w) (wv_perms w) (wv_host w))
         (\<lambda>h. Done (w\<lparr>wv_host := h, wv_bytes := 0, wv_potential := 0\<rparr>))
     else Done w)"

text \<open>The two halves of the loop: ending or extending the pending range, and counting a page in it.\<close>

definition close_range :: "protect_answer \<Rightarrow> nat \<Rightarrow> page_protection \<Rightarrow> watch_vars \<Rightarrow> watch_vars outcome" where
  "close_range ans base_addr new_perms w =
    (if new_perms \<noteq> wv_perms w
     then obind (release_pending ans base_addr w) (\<lambda>w1. Done (w1\<lparr>wv_perms := new_perms\<rparr>))
     else if wv_bytes w \<noteq> 0 then Done (w\<lparr>wv_potential := wv_potential w + TRACKER_PAGE_SIZE\<rparr>)
     else Done w)"

definition count_page :: "nat \<Rightarrow> watch_vars \<Rightarrow> watch_vars" where
  "count_page page_index w =
    (let w1 = (if wv_bytes w = 0 then w\<lparr>wv_begin := page_index, wv_potential := TRACKER_PAGE_SIZE\<rparr> else w)
     in w1\<lparr>wv_bytes := wv_potential w1\<rparr>)"

text \<open>One pass of the loop. Without a mask every page is updated.\<close>

definition wanted :: "u64 list option \<Rightarrow> nat \<Rightarrow> bool" where
  "wanted msk page_index = (case msk of None \<Rightarrow> True | Some m \<Rightarrow> ba_Get m page_index)"

definition watch_page ::
  "protect_answer \<Rightarrow> bool \<Rightarrow> bool \<Rightarrow> u64 list option \<Rightarrow> nat \<Rightarrow> nat \<Rightarrow> watch_vars \<Rightarrow> watch_vars outcome" where
  "watch_page ans track is_read msk base_addr page_index w =
    (let page = wv_pages w ! page_index; update = wanted msk page_index; old_perms = Perms page
     in obind (AddDelta (if update then if track then 1 else -1 else 0) is_read page) (\<lambda>(new_count, page1).
          obind (close_range ans base_addr (Perms page1) (w\<lparr>wv_pages := (wv_pages w)[page_index := page1]\<rparr>)) (\<lambda>w1.
            let watcher_edge = (track \<and> new_count = 1) \<or> (\<not> track \<and> new_count = 0)
            in Done (if update \<and> watcher_edge \<and> old_perms \<noteq> Perms page1 then count_page page_index w1 else w1))))"

fun ofold :: "('a \<Rightarrow> 's \<Rightarrow> 's outcome) \<Rightarrow> 'a list \<Rightarrow> 's \<Rightarrow> 's outcome" where
  "ofold f [] s = Done s"
| "ofold f (x # xs) s = obind (f x s) (ofold f xs)"

definition UpdateRegionWatchers ::
  "protect_answer \<Rightarrow> bool \<Rightarrow> bool \<Rightarrow> u64 list option \<Rightarrow> nat \<Rightarrow> nat \<Rightarrow> nat \<Rightarrow> PageState list \<times> host_pages \<Rightarrow>
    (PageState list \<times> host_pages) outcome" where
  "UpdateRegionWatchers ans track is_read msk base_addr first_page last_page r =
    (case r of (pages, host) \<Rightarrow>
      obind (ofold (watch_page ans track is_read msk base_addr) [first_page..<last_page]
          \<lparr>wv_pages = pages, wv_host = host, wv_perms = Perms (pages ! first_page), wv_begin = 0, wv_bytes = 0, wv_potential = 0\<rparr>)
        (\<lambda>w. obind (release_pending ans base_addr w) (\<lambda>w1. Done (wv_pages w1, wv_host w1))))"

section \<open>The page manager\<close>

record PageManager =
  pg_regions :: "nat \<Rightarrow> PageState list option"
  pg_host :: host_pages

definition FindRegion :: "PageManager \<Rightarrow> nat \<Rightarrow> PageState list option" where
  "FindRegion pm vaddr = (if vaddr < TRACKER_ADDRESS_SIZE then pg_regions pm (vaddr div TRACKER_REGION_SIZE) else None)"

definition pg_GetOrCreateRegion :: "PageManager \<Rightarrow> nat \<Rightarrow> PageState list" where
  "pg_GetOrCreateRegion pm vaddr =
    (case pg_regions pm (vaddr div TRACKER_REGION_SIZE) of
       Some region \<Rightarrow> region
     | None \<Rightarrow> replicate TRACKER_REGION_PAGES new_page)"

text \<open>Updating the pages of one region, which is created first when tracking and must exist otherwise.\<close>

definition update_region ::
  "protect_answer \<Rightarrow> bool \<Rightarrow> bool \<Rightarrow> u64 list option \<Rightarrow> nat \<Rightarrow> nat \<Rightarrow> nat \<Rightarrow> nat \<Rightarrow> PageManager \<Rightarrow> PageManager outcome" where
  "update_region ans track is_read msk vaddr base_addr first_page last_page pm =
    (case (if track then Some (pg_GetOrCreateRegion pm vaddr) else FindRegion pm vaddr) of
       None \<Rightarrow> Exit
     | Some region \<Rightarrow>
         obind (UpdateRegionWatchers ans track is_read msk base_addr first_page last_page (region, pg_host pm))
           (\<lambda>(region1, host1). Done \<lparr>pg_regions = (pg_regions pm)(vaddr div TRACKER_REGION_SIZE := Some region1), pg_host = host1\<rparr>))"

text \<open>The loop of \<open>Impl::UpdatePageWatchers\<close>.\<close>

function watch_chunks :: "protect_answer \<Rightarrow> bool \<Rightarrow> bool \<Rightarrow> nat \<Rightarrow> nat \<Rightarrow> PageManager \<Rightarrow> PageManager outcome" where
  "watch_chunks ans track is_read chunk_begin end_addr pm =
    (if end_addr \<le> chunk_begin then Done pm
     else
       let chunk_end = min end_addr ((chunk_begin div TRACKER_REGION_SIZE + 1) * TRACKER_REGION_SIZE);
           region_base = chunk_begin div TRACKER_REGION_SIZE * TRACKER_REGION_SIZE
       in obind (update_region ans track is_read None chunk_begin region_base
             ((chunk_begin - region_base) div TRACKER_PAGE_SIZE) ((chunk_end - region_base) div TRACKER_PAGE_SIZE) pm)
           (watch_chunks ans track is_read chunk_end end_addr))"
  by pat_completeness auto
termination
  by (relation "measure (\<lambda>(ans, track, is_read, chunk_begin, end_addr, pm). end_addr - chunk_begin)")
    (auto simp: tracker_sizes)

declare watch_chunks.simps [simp del]

definition Impl_UpdatePageWatchers ::
  "protect_answer \<Rightarrow> bool \<Rightarrow> bool \<Rightarrow> nat \<Rightarrow> nat \<Rightarrow> PageManager \<Rightarrow> PageManager outcome" where
  "Impl_UpdatePageWatchers ans track is_read vaddr sz pm =
    (if \<not> page_range_ok True vaddr sz then Exit
     else watch_chunks ans track is_read (PageStart vaddr) (PageEnd vaddr sz) pm)"

definition UpdatePageWatchers :: "protect_answer \<Rightarrow> bool \<Rightarrow> nat \<Rightarrow> nat \<Rightarrow> PageManager \<Rightarrow> PageManager outcome" where
  "UpdatePageWatchers ans track vaddr sz pm =
    (if track \<and> \<not> page_range_ok False vaddr sz then Exit else Impl_UpdatePageWatchers ans track False vaddr sz pm)"

definition UpdatePageWatchersForRegion ::
  "protect_answer \<Rightarrow> bool \<Rightarrow> bool \<Rightarrow> nat \<Rightarrow> u64 list \<Rightarrow> PageManager \<Rightarrow> PageManager outcome" where
  "UpdatePageWatchersForRegion ans track is_read base_addr msk pm =
    (if base_addr mod TRACKER_REGION_SIZE \<noteq> 0 \<or> TRACKER_ADDRESS_SIZE \<le> base_addr \<or>
        TRACKER_ADDRESS_SIZE - base_addr < TRACKER_REGION_SIZE then Exit
     else
       let start_range = FirstRange msk; end_range = LastRange msk
       in if fst start_range = TRACKER_REGION_PAGES then Exit
          else
            let first_page = fst start_range; last_page = snd end_range
            in if snd start_range = snd end_range then
                 Impl_UpdatePageWatchers ans track is_read (base_addr + first_page * TRACKER_PAGE_SIZE)
                   ((last_page - first_page) * TRACKER_PAGE_SIZE) pm
               else update_region ans track is_read (Some msk) base_addr base_addr first_page last_page pm)"

end
