(* ===== verification/PageManagerProps.thy ===== *)
theory PageManagerProps
  imports PageManager
begin

text \<open>
  What updating watchers does: exactly the wanted pages count one watcher more or less, and the host's
  protection follows the counts of every page, although it is asked for whole ranges of pages.
\<close>

section \<open>One page\<close>

definition shifted :: "bool \<Rightarrow> bool \<Rightarrow> PageState \<Rightarrow> PageState" where
  "shifted track is_read page =
    (if is_read then page\<lparr>access_watchers := access_watchers page + (if track then 1 else -1)\<rparr>
     else page\<lparr>write_watchers := write_watchers page + (if track then 1 else -1)\<rparr>)"

definition shift_ok :: "bool \<Rightarrow> bool \<Rightarrow> PageState \<Rightarrow> bool" where
  "shift_ok track is_read page \<longleftrightarrow>
    (if is_read then (access_watchers page = 0) = track
     else if track then write_watchers page \<noteq> 0x7f else write_watchers page \<noteq> 0)"

lemma seven_bits: "unat (c + 1) = unat c + 1" if "c \<noteq> 0x7f" for c :: "7 word"
proof -
  have "c = 0x7f" if "unat c = 127" using that by (simp add: word_unat_eq_iff)
  then have "unat c \<noteq> 127" using that by blast
  moreover have "unat c < 2 ^ 7" using unsigned_less [of c] by simp
  ultimately show ?thesis by (simp add: unat_word_ariths)
qed

lemma AddDelta_none: "AddDelta 0 is_read page = Done (if is_read then unat (access_watchers page) else unat (write_watchers page), page)"
  by (simp add: AddDelta_def)

lemma AddDelta_shift:
  "AddDelta (if track then 1 else -1) is_read page =
    (if shift_ok track is_read page
     then Done (if is_read then unat (access_watchers (shifted track is_read page)) else unat (write_watchers (shifted track is_read page)),
       shifted track is_read page)
     else Exit)"
  by (simp add: AddDelta_def shift_ok_def shifted_def Let_def)

text \<open>The protection changes only when the first watcher of a kind comes or the last one goes.\<close>

lemma one_bit: "c \<noteq> 0 \<longleftrightarrow> c = (1 :: 1 word)"
proof -
  have "unat c < 2" using unsigned_less [of c] by simp
  then show ?thesis by (auto simp: word_unat_eq_iff)
qed

lemma edge:
  assumes "shift_ok track is_read page" "Perms (shifted track is_read page) \<noteq> Perms page"
    and "n = (if is_read then unat (access_watchers (shifted track is_read page)) else unat (write_watchers (shifted track is_read page)))"
  shows "(track \<and> n = 1) \<or> (\<not> track \<and> n = 0)"
proof (cases is_read)
  case True
  then show ?thesis using assms one_bit [of "access_watchers page"] by (auto simp: shift_ok_def shifted_def)
next
  case False
  show ?thesis
  proof (cases track)
    case True
    then have n: "n = unat (write_watchers page) + 1" "write_watchers page + 1 \<noteq> 0"
      using False assms(1,3) seven_bits [of "write_watchers page"] by (auto simp: shift_ok_def shifted_def)
    have "write_watchers page = 0"
    proof (rule ccontr)
      assume "write_watchers page \<noteq> 0"
      then have "Perms (shifted track is_read page) = Perms page" using False True n(2) by (simp add: Perms_def shifted_def)
      then show False using assms(2) by simp
    qed
    then show ?thesis using n True by simp
  next
    case nt: False
    then have "write_watchers page - 1 = 0"
      using False assms(1,2) by (auto simp: Perms_def shifted_def shift_ok_def split: if_splits)
    then show ?thesis using False nt assms(3) by (simp add: shifted_def)
  qed
qed

section \<open>The loop over the pages of a region\<close>

definition mode_ok :: "memory_mode \<Rightarrow> page_protection \<Rightarrow> bool" where
  "mode_ok m p \<longleftrightarrow> m = ToMemoryMode p \<or> m = ToMemoryModeNoExec p"

text \<open>
  Before page \<open>i\<close>: the pages outside the pending range, which is a run of pages with the current protection,
  are protected as their counts say. The region begins at page \<open>b\<close>.
\<close>

definition loop_ok :: "nat \<Rightarrow> host_pages \<Rightarrow> nat \<Rightarrow> watch_vars \<Rightarrow> bool" where
  "loop_ok b h0 i w \<longleftrightarrow> length (wv_pages w) = 1024 \<and>
    (\<forall>p. p < b \<or> b + 1024 \<le> p \<longrightarrow> wv_host w p = h0 p) \<and>
    (\<exists>n. wv_bytes w = n * 4096 \<and>
      (n \<noteq> 0 \<longrightarrow> wv_begin w + n \<le> i \<and> wv_potential w = (i - wv_begin w) * 4096 \<and>
        (\<forall>q. wv_begin w \<le> q \<and> q < i \<longrightarrow> Perms (wv_pages w ! q) = wv_perms w)) \<and>
      (\<forall>q < 1024. \<not> (wv_begin w \<le> q \<and> q < wv_begin w + n) \<longrightarrow> mode_ok (wv_host w (b + q)) (Perms (wv_pages w ! q))))"

lemma loop_okI:
  assumes "length (wv_pages w) = 1024" "\<And>p. p < b \<or> b + 1024 \<le> p \<Longrightarrow> wv_host w p = h0 p"
    and "wv_bytes w = n * 4096" "n \<noteq> 0 \<Longrightarrow> wv_begin w + n \<le> i" "n \<noteq> 0 \<Longrightarrow> wv_potential w = (i - wv_begin w) * 4096"
    and "\<And>q. n \<noteq> 0 \<Longrightarrow> wv_begin w \<le> q \<Longrightarrow> q < i \<Longrightarrow> Perms (wv_pages w ! q) = wv_perms w"
    and "\<And>q. q < 1024 \<Longrightarrow> \<not> (wv_begin w \<le> q \<and> q < wv_begin w + n) \<Longrightarrow> mode_ok (wv_host w (b + q)) (Perms (wv_pages w ! q))"
  shows "loop_ok b h0 i w"
  unfolding loop_ok_def using assms by blast

lemma protect_pages_at:
  "protect_pages (b * 4096 + s * TRACKER_PAGE_SIZE) (n * 4096) m h p = (if b + s \<le> p \<and> p < b + s + n then m else h p)"
  unfolding protect_pages_def TRACKER_PAGE_SIZE_def by (auto simp: algebra_simps)

lemma page_Protect_Done:
  "page_Protect ans a z p h = Done h1 \<Longrightarrow> \<exists>m. mode_ok m p \<and> h1 = protect_pages a z m h"
  by (auto simp: page_Protect_def mode_ok_def split: if_splits)

lemma release_ok:
  assumes "loop_ok b h0 i w" "i \<le> 1024" "release_pending ans (b * 4096) w = Done w1"
  shows "loop_ok b h0 i w1 \<and> wv_bytes w1 = 0 \<and> wv_pages w1 = wv_pages w \<and> wv_perms w1 = wv_perms w"
proof (cases "wv_bytes w = 0")
  case True
  then show ?thesis using assms by (simp add: release_pending_def)
next
  case False
  obtain n where n: "wv_bytes w = n * 4096" "n \<noteq> 0" "wv_begin w + n \<le> i"
    "\<forall>q. wv_begin w \<le> q \<and> q < i \<longrightarrow> Perms (wv_pages w ! q) = wv_perms w"
    "\<forall>q < 1024. \<not> (wv_begin w \<le> q \<and> q < wv_begin w + n) \<longrightarrow> mode_ok (wv_host w (b + q)) (Perms (wv_pages w ! q))"
    and l: "length (wv_pages w) = 1024" "\<forall>p. p < b \<or> b + 1024 \<le> p \<longrightarrow> wv_host w p = h0 p"
    using assms(1) False unfolding loop_ok_def by auto
  obtain h1 where h1: "page_Protect ans (b * 4096 + wv_begin w * TRACKER_PAGE_SIZE) (n * 4096) (wv_perms w) (wv_host w) = Done h1"
    and w1: "w1 = w\<lparr>wv_host := h1, wv_bytes := 0, wv_potential := 0\<rparr>"
    using assms(3) False n(1) by (auto simp: release_pending_def obind_eq_Done)
  obtain m where m: "mode_ok m (wv_perms w)" "h1 = protect_pages (b * 4096 + wv_begin w * TRACKER_PAGE_SIZE) (n * 4096) m (wv_host w)"
    using page_Protect_Done [OF h1] by blast
  have h: "h1 p = (if b + wv_begin w \<le> p \<and> p < b + wv_begin w + n then m else wv_host w p)" for p
    by (simp add: m(2) protect_pages_at)
  have "mode_ok (h1 (b + q)) (Perms (wv_pages w ! q))" if "q < 1024" for q
    using that n(3-5) m(1) by (auto simp: h)
  moreover have "h1 p = h0 p" if "p < b \<or> b + 1024 \<le> p" for p
    using that l(2) n(3) assms(2) by (auto simp: h)
  ultimately show ?thesis using l(1) by (simp add: loop_ok_def w1)
qed

text \<open>After the pending range has been handled, before page \<open>i\<close> is counted in it.\<close>

definition mid_ok :: "nat \<Rightarrow> host_pages \<Rightarrow> nat \<Rightarrow> page_protection \<Rightarrow> watch_vars \<Rightarrow> bool" where
  "mid_ok b h0 i old w \<longleftrightarrow> length (wv_pages w) = 1024 \<and>
    (\<forall>p. p < b \<or> b + 1024 \<le> p \<longrightarrow> wv_host w p = h0 p) \<and> wv_perms w = Perms (wv_pages w ! i) \<and>
    (\<exists>n. wv_bytes w = n * 4096 \<and>
      (n \<noteq> 0 \<longrightarrow> wv_begin w + n \<le> i \<and> wv_potential w = (i + 1 - wv_begin w) * 4096 \<and>
        (\<forall>q. wv_begin w \<le> q \<and> q \<le> i \<longrightarrow> Perms (wv_pages w ! q) = wv_perms w)) \<and>
      (\<forall>q < 1024. \<not> (wv_begin w \<le> q \<and> q < wv_begin w + n) \<longrightarrow> mode_ok (wv_host w (b + q)) (if q = i then old else Perms (wv_pages w ! q))))"

lemma mid_okI:
  assumes "length (wv_pages w) = 1024" "\<And>p. p < b \<or> b + 1024 \<le> p \<Longrightarrow> wv_host w p = h0 p" "wv_perms w = Perms (wv_pages w ! i)"
    and "wv_bytes w = n * 4096" "n \<noteq> 0 \<Longrightarrow> wv_begin w + n \<le> i" "n \<noteq> 0 \<Longrightarrow> wv_potential w = (i + 1 - wv_begin w) * 4096"
    and "\<And>q. n \<noteq> 0 \<Longrightarrow> wv_begin w \<le> q \<Longrightarrow> q \<le> i \<Longrightarrow> Perms (wv_pages w ! q) = wv_perms w"
    and "\<And>q. q < 1024 \<Longrightarrow> \<not> (wv_begin w \<le> q \<and> q < wv_begin w + n) \<Longrightarrow>
      mode_ok (wv_host w (b + q)) (if q = i then old else Perms (wv_pages w ! q))"
  shows "mid_ok b h0 i old w"
  unfolding mid_ok_def using assms by blast

lemma release_pages:
  "release_pending ans base (w\<lparr>wv_pages := x\<rparr>) = obind (release_pending ans base w) (\<lambda>w1. Done (w1\<lparr>wv_pages := x\<rparr>))"
  by (cases "page_Protect ans (base + wv_begin w * TRACKER_PAGE_SIZE) (wv_bytes w) (wv_perms w) (wv_host w)")
    (simp_all add: release_pending_def)

lemma mid_fresh:
  assumes "loop_ok b h0 i w" "wv_bytes w = 0" "i < 1024"
  shows "mid_ok b h0 i (Perms (wv_pages w ! i)) (w\<lparr>wv_pages := (wv_pages w)[i := page1], wv_perms := Perms page1\<rparr>)"
  using assms by (auto simp: mid_ok_def loop_ok_def nth_list_update intro!: exI [of _ 0])

lemma mid_extend:
  assumes "loop_ok b h0 i w" "wv_bytes w \<noteq> 0" "i < 1024" "Perms page1 = wv_perms w"
  shows "mid_ok b h0 i (Perms (wv_pages w ! i))
    (w\<lparr>wv_pages := (wv_pages w)[i := page1], wv_potential := wv_potential w + TRACKER_PAGE_SIZE\<rparr>)"
proof -
  obtain n where n: "wv_bytes w = n * 4096" "n \<noteq> 0" "wv_begin w + n \<le> i" "wv_potential w = (i - wv_begin w) * 4096"
    "\<And>q. wv_begin w \<le> q \<Longrightarrow> q < i \<Longrightarrow> Perms (wv_pages w ! q) = wv_perms w"
    "\<And>q. q < 1024 \<Longrightarrow> \<not> (wv_begin w \<le> q \<and> q < wv_begin w + n) \<Longrightarrow> mode_ok (wv_host w (b + q)) (Perms (wv_pages w ! q))"
    and l: "length (wv_pages w) = 1024" "\<And>p. p < b \<or> b + 1024 \<le> p \<Longrightarrow> wv_host w p = h0 p"
    using assms(1,2) unfolding loop_ok_def by (metis mult_is_0)
  show ?thesis
  proof (rule mid_okI [where n = n], goal_cases)
    case (2 p)
    then show ?case using l(2) by simp
  next
    case (7 q)
    then show ?case using n(5) assms(3,4) l(1) by (cases "q = i") simp_all
  next
    case (8 q)
    then have "mode_ok (wv_host w (b + q)) (Perms (wv_pages w ! q))" using n(6) by simp
    then show ?case by (cases "q = i") simp_all
  qed (use n(1,3,4) l(1) assms(3,4) in \<open>simp_all add: TRACKER_PAGE_SIZE_def Suc_diff_le\<close>)
qed

lemma mid_done:
  assumes "mid_ok b h0 i old w" "i < 1024"
  shows "Perms (wv_pages w ! i) = old \<Longrightarrow> loop_ok b h0 (i + 1) w" and "loop_ok b h0 (i + 1) (count_page i w)"
proof -
  obtain n where n: "wv_bytes w = n * 4096" "n \<noteq> 0 \<Longrightarrow> wv_begin w + n \<le> i" "n \<noteq> 0 \<Longrightarrow> wv_potential w = (i + 1 - wv_begin w) * 4096"
    "\<And>q. n \<noteq> 0 \<Longrightarrow> wv_begin w \<le> q \<Longrightarrow> q \<le> i \<Longrightarrow> Perms (wv_pages w ! q) = wv_perms w"
    "\<And>q. q < 1024 \<Longrightarrow> \<not> (wv_begin w \<le> q \<and> q < wv_begin w + n) \<Longrightarrow> mode_ok (wv_host w (b + q)) (if q = i then old else Perms (wv_pages w ! q))"
    and l: "length (wv_pages w) = 1024" "\<And>p. p < b \<or> b + 1024 \<le> p \<Longrightarrow> wv_host w p = h0 p" "wv_perms w = Perms (wv_pages w ! i)"
    using assms(1) unfolding mid_ok_def by blast
  show "Perms (wv_pages w ! i) = old \<Longrightarrow> loop_ok b h0 (i + 1) w"
  proof (rule loop_okI [where n = n], goal_cases)
    case (2 p)
    then show ?case using l(2) by blast
  next
    case (4)
    then show ?case using n(2) by simp
  next
    case (6 q)
    then show ?case using n(4) by simp
  next
    case (7 q)
    then have "mode_ok (wv_host w (b + q)) (if q = i then old else Perms (wv_pages w ! q))" using n(5) by blast
    then show ?case using 7(1) by (cases "q = i") simp_all
  qed (use n(1,3) l(1) in simp_all)
  show "loop_ok b h0 (i + 1) (count_page i w)"
  proof (cases "n = 0")
    case True
    then have z: "wv_bytes w = 0" using n(1) by simp
    show ?thesis
    proof (rule loop_okI [where n = 1], goal_cases)
      case (2 p)
      then show ?case using l(2) z by (simp add: count_page_def)
    next
      case (6 q)
      then have "q = i" using z by (simp add: count_page_def)
      then show ?case using z l(3) by (simp add: count_page_def)
    next
      case (7 q)
      then have "q \<noteq> i" using z by (auto simp: count_page_def)
      moreover have "mode_ok (wv_host w (b + q)) (if q = i then old else Perms (wv_pages w ! q))"
        using n(5) [OF 7(1)] True by simp
      ultimately show ?case using z by (simp add: count_page_def)
    qed (use z l(1) in \<open>simp_all add: count_page_def TRACKER_PAGE_SIZE_def\<close>)
  next
    case False
    have c: "count_page i w = w\<lparr>wv_bytes := wv_potential w\<rparr>" using n(1) False by (simp add: count_page_def)
    show ?thesis unfolding c
    proof (rule loop_okI [where n = "i + 1 - wv_begin w"], goal_cases)
      case (2 p)
      then show ?case using l(2) by simp
    next
      case (6 q)
      then show ?case using n(4) [OF False] by simp
    next
      case (7 q)
      then have "q \<noteq> i" "\<not> (wv_begin w \<le> q \<and> q < wv_begin w + n)" using n(2) [OF False] by auto
      then have "mode_ok (wv_host w (b + q)) (if q = i then old else Perms (wv_pages w ! q))" using n(5) 7(1) by blast
      then show ?case using \<open>q \<noteq> i\<close> by simp
    qed (use n(2,3) [OF False] l(1) in simp_all)
  qed
qed

lemma watch_page_ok:
  assumes "loop_ok b h0 i w" "i < 1024" "watch_page ans track is_read msk (b * 4096) i w = Done w'"
  shows "loop_ok b h0 (i + 1) w' \<and> (wanted msk i \<longrightarrow> shift_ok track is_read (wv_pages w ! i)) \<and>
    wv_pages w' = (if wanted msk i then (wv_pages w)[i := shifted track is_read (wv_pages w ! i)] else wv_pages w)"
proof -
  let ?page = "wv_pages w ! i"
  obtain c page1 where d: "AddDelta (if wanted msk i then if track then 1 else -1 else 0) is_read ?page = Done (c, page1)"
    using assms(3) by (auto simp: watch_page_def Let_def obind_eq_Done)
  have page1: "page1 = (if wanted msk i then shifted track is_read ?page else ?page)"
    and sok: "wanted msk i \<Longrightarrow> shift_ok track is_read ?page"
    and edg: "Perms page1 \<noteq> Perms ?page \<Longrightarrow> wanted msk i \<and> ((track \<and> c = 1) \<or> (\<not> track \<and> c = 0))"
    using d edge [of track is_read ?page c] by (auto simp: AddDelta_none AddDelta_shift split: if_splits)
  let ?w1 = "w\<lparr>wv_pages := (wv_pages w)[i := page1]\<rparr>"
  obtain w3 where w3: "close_range ans (b * 4096) (Perms page1) ?w1 = Done w3"
    and w': "w' = (if wanted msk i \<and> ((track \<and> c = 1) \<or> (\<not> track \<and> c = 0)) \<and> Perms ?page \<noteq> Perms page1 then count_page i w3 else w3)"
    using assms(3) d by (auto simp: watch_page_def Let_def obind_eq_Done)
  have m: "mid_ok b h0 i (Perms ?page) w3 \<and> wv_pages w3 = (wv_pages w)[i := page1]"
  proof -
    consider "Perms page1 \<noteq> wv_perms w" | "Perms page1 = wv_perms w" "wv_bytes w \<noteq> 0" | "Perms page1 = wv_perms w" "wv_bytes w = 0" by blast
    then show ?thesis
    proof cases
      case 1
      then obtain w2 where w2: "release_pending ans (b * 4096) w = Done w2"
        "w3 = w2\<lparr>wv_pages := (wv_pages w)[i := page1], wv_perms := Perms page1\<rparr>"
        using w3 1 by (auto simp: close_range_def release_pages obind_eq_Done)
      have "loop_ok b h0 i w2" "wv_bytes w2 = 0" "wv_pages w2 = wv_pages w"
        using release_ok [OF assms(1) less_imp_le [OF assms(2)] w2(1)] by auto
      then show ?thesis using mid_fresh [of b h0 i w2 page1] assms(2) w2(2) by simp
    next
      case 2
      then show ?thesis using mid_extend [OF assms(1) 2(2) assms(2) 2(1)] w3 2 by (auto simp: close_range_def)
    next
      case 3
      then have "w3 = ?w1" using w3 by (simp add: close_range_def)
      also have "?w1 = w\<lparr>wv_pages := (wv_pages w)[i := page1], wv_perms := Perms page1\<rparr>" using 3 by simp
      finally have "w3 = w\<lparr>wv_pages := (wv_pages w)[i := page1], wv_perms := Perms page1\<rparr>" .
      then show ?thesis using mid_fresh [OF assms(1) 3(2) assms(2)] by simp
    qed
  qed
  have l: "i < length (wv_pages w)" using assms(1,2) by (simp add: loop_ok_def)
  have at: "wv_pages w3 ! i = page1" using m l by simp
  have "loop_ok b h0 (i + 1) w' \<and> wv_pages w' = wv_pages w3"
  proof (cases "Perms page1 = Perms ?page")
    case True
    then have "w' = w3" using w' by simp
    then show ?thesis using mid_done(1) [OF conjunct1 [OF m] assms(2)] at True by simp
  next
    case False
    then have "w' = count_page i w3" using w' edg by simp
    then show ?thesis using mid_done(2) [OF conjunct1 [OF m] assms(2)] by (simp add: count_page_def Let_def)
  qed
  then show ?thesis using m page1 sok by simp
qed

lemma watch_pages_ok:
  assumes "loop_ok b h0 i w" "i \<le> j" "j \<le> 1024"
    and "ofold (watch_page ans track is_read msk (b * 4096)) [i..<j] w = Done w'"
  shows "loop_ok b h0 j w' \<and>
    (\<forall>q < 1024. wv_pages w' ! q =
      (if i \<le> q \<and> q < j \<and> wanted msk q then shifted track is_read (wv_pages w ! q) else wv_pages w ! q)) \<and>
    (\<forall>q. i \<le> q \<and> q < j \<and> wanted msk q \<longrightarrow> shift_ok track is_read (wv_pages w ! q))"
  using assms
proof (induction "j - i" arbitrary: i w)
  case 0
  then have "i = j" by simp
  then show ?case using 0 by auto
next
  case (Suc n)
  then have ij: "i < j" "i < 1024" "[i..<j] = i # [Suc i..<j]" by (auto simp: upt_conv_Cons)
  then obtain w1 where w1: "watch_page ans track is_read msk (b * 4096) i w = Done w1"
    "ofold (watch_page ans track is_read msk (b * 4096)) [Suc i..<j] w1 = Done w'"
    using Suc.prems(4) by (auto simp: obind_eq_Done)
  have f: "loop_ok b h0 (Suc i) w1" "wanted msk i \<longrightarrow> shift_ok track is_read (wv_pages w ! i)"
    "wv_pages w1 = (if wanted msk i then (wv_pages w)[i := shifted track is_read (wv_pages w ! i)] else wv_pages w)"
    using watch_page_ok [OF Suc.prems(1) ij(2) w1(1)] by simp_all
  have l: "i < length (wv_pages w)" using Suc.prems(1) ij(2) by (simp add: loop_ok_def)
  have at: "wv_pages w1 ! q = (if q = i \<and> wanted msk i then shifted track is_read (wv_pages w ! i) else wv_pages w ! q)" for q
    using f(3) l by simp
  have ih: "loop_ok b h0 j w'"
    "\<forall>q < 1024. wv_pages w' ! q =
      (if Suc i \<le> q \<and> q < j \<and> wanted msk q then shifted track is_read (wv_pages w1 ! q) else wv_pages w1 ! q)"
    "\<forall>q. Suc i \<le> q \<and> q < j \<and> wanted msk q \<longrightarrow> shift_ok track is_read (wv_pages w1 ! q)"
    using Suc.hyps(1) [OF _ f(1) _ Suc.prems(3) w1(2)] Suc.hyps(2) ij(1) by auto
  have "wv_pages w' ! q = (if i \<le> q \<and> q < j \<and> wanted msk q then shifted track is_read (wv_pages w ! q) else wv_pages w ! q)"
    if "q < 1024" for q
    using ih(2) that at [of q] ij(1) by (cases "q = i") (simp_all add: Suc_le_eq)
  moreover have "shift_ok track is_read (wv_pages w ! q)" if "i \<le> q" "q < j" "wanted msk q" for q
    using ih(3) [rule_format, of q] that at [of q] f(2) by (cases "q = i") (simp_all add: Suc_le_eq)
  ultimately show ?case using ih(1) by blast
qed

lemma UpdateRegionWatchers_ok:
  assumes "length pages = 1024" "i < j" "j \<le> 1024" "\<And>q. q < 1024 \<Longrightarrow> mode_ok (host (b + q)) (Perms (pages ! q))"
    and "UpdateRegionWatchers ans track is_read msk (b * 4096) i j (pages, host) = Done (pages1, host1)"
  shows "length pages1 = 1024 \<and> (\<forall>p. p < b \<or> b + 1024 \<le> p \<longrightarrow> host1 p = host p) \<and>
    (\<forall>q < 1024. mode_ok (host1 (b + q)) (Perms (pages1 ! q))) \<and>
    (\<forall>q < 1024. pages1 ! q = (if i \<le> q \<and> q < j \<and> wanted msk q then shifted track is_read (pages ! q) else pages ! q)) \<and>
    (\<forall>q. i \<le> q \<and> q < j \<and> wanted msk q \<longrightarrow> shift_ok track is_read (pages ! q))"
proof -
  let ?w = "\<lparr>wv_pages = pages, wv_host = host, wv_perms = Perms (pages ! i), wv_begin = 0, wv_bytes = 0, wv_potential = 0\<rparr>"
  obtain w w1 where w: "ofold (watch_page ans track is_read msk (b * 4096)) [i..<j] ?w = Done w"
    "release_pending ans (b * 4096) w = Done w1" "pages1 = wv_pages w1" "host1 = wv_host w1"
    using assms(5) by (auto simp: UpdateRegionWatchers_def obind_eq_Done)
  have "loop_ok b host i ?w" using assms(1,4) by (intro loop_okI [where n = 0]) simp_all
  note f = watch_pages_ok [OF this less_imp_le [OF assms(2)] assms(3) w(1)]
  have r: "loop_ok b host j w1" "wv_bytes w1 = 0" "wv_pages w1 = wv_pages w"
    using release_ok [OF conjunct1 [OF f] assms(3) w(2)] by simp_all
  have "mode_ok (wv_host w1 (b + q)) (Perms (wv_pages w1 ! q))" if "q < 1024" for q
    using r(1,2) that unfolding loop_ok_def by auto
  moreover have "length (wv_pages w1) = 1024" "\<forall>p. p < b \<or> b + 1024 \<le> p \<longrightarrow> wv_host w1 p = host p"
    using r(1) unfolding loop_ok_def by blast+
  ultimately show ?thesis using f r(3) w(3,4) by simp
qed

section \<open>The page manager\<close>

text \<open>The state of a page by its number; the pages of a region that does not exist have no watchers.\<close>

definition page_at :: "PageManager \<Rightarrow> nat \<Rightarrow> PageState" where
  "page_at pm p = (case pg_regions pm (p div 1024) of None \<Rightarrow> new_page | Some pages \<Rightarrow> pages ! (p mod 1024))"

definition pages_ok :: "PageManager \<Rightarrow> bool" where
  "pages_ok pm \<longleftrightarrow> (\<forall>r pages. pg_regions pm r = Some pages \<longrightarrow> length pages = 1024) \<and>
    (\<forall>p. mode_ok (pg_host pm p) (Perms (page_at pm p)))"

definition watch_done :: "bool \<Rightarrow> bool \<Rightarrow> nat set \<Rightarrow> PageManager \<Rightarrow> PageManager \<Rightarrow> bool" where
  "watch_done track is_read P pm pm' \<longleftrightarrow> pages_ok pm' \<and>
    (\<forall>p. page_at pm' p = (if p \<in> P then shifted track is_read (page_at pm p) else page_at pm p)) \<and>
    (\<forall>p \<in> P. shift_ok track is_read (page_at pm p))"

lemma watch_done_trans:
  assumes "watch_done track is_read P pm pm1" "watch_done track is_read Q pm1 pm2" "P \<inter> Q = {}"
  shows "watch_done track is_read (P \<union> Q) pm pm2"
  using assms unfolding watch_done_def by (simp add: disjoint_iff) (metis Un_iff)

lemma page_split: "p div 1024 = r \<Longrightarrow> p = r * 1024 + p mod 1024" for p r :: nat
  by (metis div_mod_decomp)

lemma update_region_ok:
  assumes "pages_ok pm" "i < j" "j \<le> 1024" "vaddr div TRACKER_REGION_SIZE = r"
    and "update_region ans track is_read msk vaddr (r * 1024 * 4096) i j pm = Done pm'"
  shows "watch_done track is_read {p. p div 1024 = r \<and> i \<le> p mod 1024 \<and> p mod 1024 < j \<and> wanted msk (p mod 1024)} pm pm'"
proof -
  obtain region region1 host1 where
    g: "(if track then Some (pg_GetOrCreateRegion pm vaddr) else FindRegion pm vaddr) = Some region"
    and u: "UpdateRegionWatchers ans track is_read msk (r * 1024 * 4096) i j (region, pg_host pm) = Done (region1, host1)"
    and pm': "pm' = \<lparr>pg_regions = (pg_regions pm)(r := Some region1), pg_host = host1\<rparr>"
    using assms(4,5) by (auto simp: update_region_def obind_eq_Done split: option.splits if_splits)
  have c: "pg_regions pm r = Some region \<or> (pg_regions pm r = None \<and> region = replicate 1024 new_page)"
    using g assms(4) by (auto simp: pg_GetOrCreateRegion_def FindRegion_def TRACKER_REGION_PAGES_def
      TRACKER_PAGE_SIZE_def TRACKER_REGION_SIZE_def split: if_splits option.splits)
  then have lr: "length region = 1024" using assms(1) by (auto simp: pages_ok_def)
  have at: "region ! q = page_at pm (r * 1024 + q)" if "q < 1024" for q
    using c that by (auto simp: page_at_def)
  have m: "mode_ok (pg_host pm (r * 1024 + q)) (Perms (region ! q))" if "q < 1024" for q
    using assms(1) at [OF that] by (simp add: pages_ok_def)
  have R: "length region1 = 1024" "\<And>p. p < r * 1024 \<or> r * 1024 + 1024 \<le> p \<Longrightarrow> host1 p = pg_host pm p"
    "\<And>q. q < 1024 \<Longrightarrow> mode_ok (host1 (r * 1024 + q)) (Perms (region1 ! q))"
    "\<And>q. q < 1024 \<Longrightarrow> region1 ! q = (if i \<le> q \<and> q < j \<and> wanted msk q then shifted track is_read (region ! q) else region ! q)"
    "\<And>q. i \<le> q \<Longrightarrow> q < j \<Longrightarrow> wanted msk q \<Longrightarrow> shift_ok track is_read (region ! q)"
    using UpdateRegionWatchers_ok [OF lr assms(2,3) m u] by blast+
  have P: "page_at pm' p = (if p div 1024 = r then region1 ! (p mod 1024) else page_at pm p)" for p
    by (simp add: page_at_def pm')
  have old: "region ! (p mod 1024) = page_at pm p" if "p div 1024 = r" for p
    using at [of "p mod 1024"] page_split [OF that] by simp
  have "mode_ok (pg_host pm' p) (Perms (page_at pm' p))" for p
  proof (cases "p div 1024 = r")
    case True
    then show ?thesis using R(3) [of "p mod 1024"] page_split [OF True] P [of p] by (simp add: pm')
  next
    case False
    then have "p < r * 1024 \<or> r * 1024 + 1024 \<le> p" by (auto simp: not_le not_less dest!: div_nat_eqI [of _ 1024 p, rotated])
    then show ?thesis using R(2) P [of p] False assms(1) by (simp add: pm' pages_ok_def)
  qed
  moreover have "length pages = 1024" if "pg_regions pm' k = Some pages" for k pages
    using that R(1) assms(1) by (auto simp: pm' pages_ok_def split: if_splits)
  ultimately have "pages_ok pm'" by (simp add: pages_ok_def)
  moreover have "page_at pm' p = (if p div 1024 = r \<and> i \<le> p mod 1024 \<and> p mod 1024 < j \<and> wanted msk (p mod 1024)
      then shifted track is_read (page_at pm p) else page_at pm p)" for p
    using P [of p] R(4) [of "p mod 1024"] old [of p] by simp
  moreover have "shift_ok track is_read (page_at pm p)"
    if "p div 1024 = r" "i \<le> p mod 1024" "p mod 1024 < j" "wanted msk (p mod 1024)" for p
    using R(5) [OF that(2-4)] old [OF that(1)] by simp
  ultimately show ?thesis unfolding watch_done_def by (intro conjI allI ballI) simp_all
qed

lemma region_of_page: "p * 4096 div TRACKER_REGION_SIZE = p div 1024"
proof -
  have "p * 4096 div (1024 * 4096) = p div 1024" by (rule div_mult_mult2) simp
  then show ?thesis by (simp add: TRACKER_REGION_SIZE_def)
qed

lemma page_window:
  fixes r i k :: nat
  assumes "r * 1024 \<le> i" "k \<le> r * 1024 + 1024"
  shows "{p. p div 1024 = r \<and> i - r * 1024 \<le> p mod 1024 \<and> p mod 1024 < k - r * 1024} = {i..<k}"
proof (rule set_eqI)
  fix p show "p \<in> {p. p div 1024 = r \<and> i - r * 1024 \<le> p mod 1024 \<and> p mod 1024 < k - r * 1024} \<longleftrightarrow> p \<in> {i..<k}"
  proof -
    define d m where "d = p div 1024" and "m = p mod 1024"
    have p: "p = d * 1024 + m" "m < 1024" unfolding d_def m_def by simp_all
    have "d = r" if "r * 1024 \<le> d * 1024 + m" "d * 1024 + m < r * 1024 + 1024"
      using that p(2) by (cases d r rule: linorder_cases) linarith+
    then have "i \<le> p \<Longrightarrow> p < k \<Longrightarrow> d = r" using assms unfolding p(1) by linarith
    then show ?thesis using assms p unfolding mem_Collect_eq atLeastLessThan_iff d_def [symmetric] m_def [symmetric]
      by (cases "d = r") auto
  qed
qed

lemma last_page_of: "0 < x \<Longrightarrow> (x * 4096 - 1) div 4096 + 1 = x" for x :: nat
proof -
  assume "0 < x"
  then obtain y where "x = Suc y" by (cases x) auto
  moreover have "(Suc y * 4096 - 1) div 4096 = y" by (rule div_nat_eqI) simp_all
  ultimately show ?thesis by simp
qed

lemma chunk_of:
  fixes i j :: nat
  assumes "\<not> j \<le> i"
  shows "i < min j ((i div 1024 + 1) * 1024)" "min j ((i div 1024 + 1) * 1024) \<le> j"
    "min j ((i div 1024 + 1) * 1024) \<le> i div 1024 * 1024 + 1024" "i div 1024 * 1024 \<le> i"
  using assms by auto

lemma watch_chunks_step:
  assumes "\<not> j \<le> i"
  shows "watch_chunks ans track is_read (i * 4096) (j * 4096) pm =
    obind (update_region ans track is_read None (i * 4096) (i div 1024 * 1024 * 4096) (i - i div 1024 * 1024)
        (min j ((i div 1024 + 1) * 1024) - i div 1024 * 1024) pm)
      (watch_chunks ans track is_read (min j ((i div 1024 + 1) * 1024) * 4096) (j * 4096))"
proof -
  define r where "r = i div 1024"
  define k where "k = min j ((r + 1) * 1024)"
  have base: "r * TRACKER_REGION_SIZE = r * 1024 * 4096" by (simp add: TRACKER_REGION_SIZE_def)
  have ce: "min (j * 4096) ((r + 1) * TRACKER_REGION_SIZE) = k * 4096"
    by (simp add: k_def TRACKER_REGION_SIZE_def min_def)
  have idx: "(i * 4096 - r * 1024 * 4096) div TRACKER_PAGE_SIZE = i - r * 1024"
    "(k * 4096 - r * 1024 * 4096) div TRACKER_PAGE_SIZE = k - r * 1024"
    unfolding TRACKER_PAGE_SIZE_def by (simp_all add: diff_mult_distrib [symmetric] del: diff_mult_distrib)
  show ?thesis using assms
    unfolding watch_chunks.simps [of ans track is_read "i * 4096" "j * 4096" pm] Let_def region_of_page
      r_def [symmetric] base ce k_def [symmetric] idx by simp
qed

lemma chunk_ok:
  assumes "pages_ok pm" "\<not> j \<le> i"
    and "update_region ans track is_read None (i * 4096) (i div 1024 * 1024 * 4096) (i - i div 1024 * 1024)
        (min j ((i div 1024 + 1) * 1024) - i div 1024 * 1024) pm = Done pm1"
  shows "watch_done track is_read {i..<min j ((i div 1024 + 1) * 1024)} pm pm1"
  using update_region_ok [OF assms(1) _ _ region_of_page assms(3)] chunk_of [OF assms(2)] page_window [OF chunk_of(4,3) [OF assms(2)]]
  by (simp add: wanted_def less_diff_conv le_diff_conv)

lemma watch_chunks_ok:
  assumes "pages_ok pm" "watch_chunks ans track is_read (i * 4096) (j * 4096) pm = Done pm'"
  shows "watch_done track is_read {i..<j} pm pm'"
  using assms
proof (induction "j - i" arbitrary: i pm rule: less_induct)
  case less
  show ?case
  proof (cases "j \<le> i")
    case True
    then show ?thesis using less.prems by (subst (asm) watch_chunks.simps) (simp add: watch_done_def)
  next
    case False
    let ?k = "min j ((i div 1024 + 1) * 1024)"
    note C = chunk_of [OF False]
    obtain pm1 where pm1: "update_region ans track is_read None (i * 4096) (i div 1024 * 1024 * 4096) (i - i div 1024 * 1024)
        (?k - i div 1024 * 1024) pm = Done pm1"
      "watch_chunks ans track is_read (?k * 4096) (j * 4096) pm1 = Done pm'"
      using less.prems(2) unfolding watch_chunks_step [OF False] obind_eq_Done by blast
    have d: "watch_done track is_read {i..<?k} pm pm1" by (rule chunk_ok [OF less.prems(1) False pm1(1)])
    then have "pages_ok pm1" by (simp add: watch_done_def)
    moreover have "j - ?k < j - i" using C(1) False by linarith
    ultimately have "watch_done track is_read {?k..<j} pm1 pm'"
      using less.hyps pm1(2) by blast
    then have "watch_done track is_read ({i..<?k} \<union> {?k..<j}) pm pm'" by (rule watch_done_trans [OF d]) auto
    then show ?thesis using C by (metis ivl_disj_un_two(3) less_imp_le)
  qed
qed

lemma Impl_UpdatePageWatchers_ok:
  assumes "pages_ok pm" "Impl_UpdatePageWatchers ans track is_read vaddr sz pm = Done pm'"
  shows "watch_done track is_read {vaddr div 4096..<(vaddr + sz - 1) div 4096 + 1} pm pm'"
proof -
  have "PageStart vaddr = vaddr div 4096 * 4096" "PageEnd vaddr sz = ((vaddr + sz - 1) div 4096 + 1) * 4096"
    unfolding PageStart_def PageEnd_def TRACKER_PAGE_SIZE_def by (simp_all add: minus_mod_eq_div_mult)
  then show ?thesis using assms watch_chunks_ok [OF assms(1)] unfolding Impl_UpdatePageWatchers_def
    by (metis outcome.distinct(1))
qed

lemma LastRange_spec:
  assumes "ws \<noteq> []" "LastRange ws = (a, b)"
  shows "a \<le> b \<and> b \<le> ba_size ws \<and> (\<forall>i. b \<le> i \<and> i < ba_size ws \<longrightarrow> \<not> bits_of ws ! i) \<and>
    (\<forall>i. a \<le> i \<and> i < b \<longrightarrow> bits_of ws ! i)"
proof -
  let ?bs = "bits_of ws" and ?n = "ba_size ws"
  let ?z = "run Not (rev ?bs)"
  have ab: "b = ?n - ?z" "a = b - run (\<lambda>x. x) (rev (take b ?bs))"
    using assms(2) LastRangeFrom_scan [OF assms(1), of ?n] by (auto simp: LastRange_def scan_last_def Let_def)
  have z: "?z \<le> ?n" using run_le [of Not "rev ?bs"] by simp
  have b: "b \<le> ?n" using ab(1) by simp
  have r: "run (\<lambda>x. x) (rev (take b ?bs)) = b - a" "a \<le> b"
    using ab(2) run_le [of "\<lambda>x. x" "rev (take b ?bs)"] b by auto
  have "\<not> ?bs ! i" if "b \<le> i" "i < ?n" for i
    using run_nth [of "?n - 1 - i" Not "rev ?bs"] that ab(1) z by (simp add: rev_nth)
  moreover have "?bs ! i" if "a \<le> i" "i < b" for i
  proof -
    have "rev (take b ?bs) ! (b - 1 - i)"
      using run_nth [of "b - 1 - i" "\<lambda>x. x" "rev (take b ?bs)"] that unfolding r(1) by linarith
    then show ?thesis using that b by (simp add: rev_nth)
  qed
  ultimately show ?thesis using ab by auto
qed

definition mask_pages :: "nat \<Rightarrow> u64 list \<Rightarrow> nat set" where
  "mask_pages r msk = {p. p div 1024 = r \<and> bits_of msk ! (p mod 1024)}"

text \<open>What the two scans of a mask find.\<close>

lemma mask_scans:
  assumes "ba_size msk = 1024" "FirstRange msk = (a, e)" "LastRange msk = (c, l)" "a \<noteq> 1024"
  shows "a < e" "e \<le> 1024" "a < l" "l \<le> 1024" "bits_of msk ! a"
    "e = l \<Longrightarrow> mask_pages r msk = {r * 1024 + a..<r * 1024 + l}"
    "{p. p div 1024 = r \<and> a \<le> p mod 1024 \<and> p mod 1024 < l \<and> wanted (Some msk) (p mod 1024)} = mask_pages r msk"
proof -
  have ne: "msk \<noteq> []" using assms(1) by (auto simp: ba_size_def)
  have F: "a < e" "e \<le> 1024" "\<And>i. i < a \<Longrightarrow> \<not> bits_of msk ! i" "\<And>i. a \<le> i \<Longrightarrow> i < e \<Longrightarrow> bits_of msk ! i"
    using FirstRangeFrom_spec [of 0 msk a e] assms by (auto simp: FirstRange_def)
  have L: "l \<le> 1024" "\<And>i. l \<le> i \<Longrightarrow> i < 1024 \<Longrightarrow> \<not> bits_of msk ! i" "a < l"
    using LastRange_spec [OF ne assms(3)] assms(1) F(1,2) F(4) [of a] by (auto simp: not_less [symmetric])
  have m: "p mod 1024 < 1024" for p :: nat by simp
  show "a < e" "e \<le> 1024" "a < l" "l \<le> 1024" "bits_of msk ! a" using F L by auto
  have w: "wanted (Some msk) (p mod 1024) = bits_of msk ! (p mod 1024)" for p
    using m [of p] assms(1) by (simp add: wanted_def ba_Get_bits)
  show M: "{p. p div 1024 = r \<and> a \<le> p mod 1024 \<and> p mod 1024 < l \<and> wanted (Some msk) (p mod 1024)} = mask_pages r msk"
    using F(3) L(2) m unfolding mask_pages_def w by (force simp: not_less [symmetric])
  show "mask_pages r msk = {r * 1024 + a..<r * 1024 + l}" if "e = l"
  proof -
    have "bits_of msk ! (p mod 1024)" if "a \<le> p mod 1024" "p mod 1024 < l" for p
      using F(4) that \<open>e = l\<close> by simp
    then have "mask_pages r msk = {p. p div 1024 = r \<and> r * 1024 + a - r * 1024 \<le> p mod 1024 \<and> p mod 1024 < r * 1024 + l - r * 1024}"
      unfolding M [symmetric] w by auto
    also have "\<dots> = {r * 1024 + a..<r * 1024 + l}" using L(1) by (intro page_window) simp_all
    finally show ?thesis .
  qed
qed

lemma UpdatePageWatchersForRegion_unfold:
  assumes "ba_size msk = 1024" "FirstRange msk = (a, e)" "LastRange msk = (c, l)"
  shows "UpdatePageWatchersForRegion ans track is_read (r * TRACKER_REGION_SIZE) msk pm =
    (if 2 ^ 18 \<le> r \<or> a = 1024 then Exit
     else if e = l then Impl_UpdatePageWatchers ans track is_read ((r * 1024 + a) * 4096) ((l - a) * 4096) pm
     else update_region ans track is_read (Some msk) (r * 1024 * 4096) (r * 1024 * 4096) a l pm)"
proof -
  have base: "r * TRACKER_REGION_SIZE = r * 1024 * 4096" by (simp add: TRACKER_REGION_SIZE_def)
  have "r * TRACKER_REGION_SIZE mod TRACKER_REGION_SIZE \<noteq> 0 \<or> TRACKER_ADDRESS_SIZE \<le> r * TRACKER_REGION_SIZE \<or>
      TRACKER_ADDRESS_SIZE - r * TRACKER_REGION_SIZE < TRACKER_REGION_SIZE \<longleftrightarrow> 2 ^ 18 \<le> r"
    unfolding TRACKER_REGION_SIZE_def TRACKER_ADDRESS_SIZE_def by auto
  moreover have "r * 1024 * 4096 + a * 4096 = (r * 1024 + a) * 4096" by simp
  ultimately show ?thesis
    unfolding UpdatePageWatchersForRegion_def assms(2,3) Let_def fst_conv snd_conv base
    by (simp add: TRACKER_PAGE_SIZE_def TRACKER_REGION_PAGES_def TRACKER_REGION_SIZE_def)
qed

lemma run_end: "a < l \<Longrightarrow> ((r * 1024 + a) * 4096 + (l - a) * 4096 - 1) div 4096 + 1 = r * 1024 + l" for a l r :: nat
proof -
  assume "a < l"
  then have "(r * 1024 + a) * 4096 + (l - a) * 4096 = (r * 1024 + l) * 4096" by (simp add: diff_mult_distrib)
  then show ?thesis using last_page_of [of "r * 1024 + l"] \<open>a < l\<close> by simp
qed

lemma UpdatePageWatchersForRegion_ok:
  assumes "pages_ok pm" "ba_size msk = 1024"
    and "UpdatePageWatchersForRegion ans track is_read (r * TRACKER_REGION_SIZE) msk pm = Done pm'"
  shows "watch_done track is_read (mask_pages r msk) pm pm'"
proof -
  obtain a e where f: "FirstRange msk = (a, e)" by (cases "FirstRange msk")
  obtain c l where g: "LastRange msk = (c, l)" by (cases "LastRange msk")
  note U = assms(3) [unfolded UpdatePageWatchersForRegion_unfold [OF assms(2) f g]]
  have a: "a \<noteq> 1024" using U by (auto split: if_splits)
  note S = mask_scans [OF assms(2) f g a]
  show ?thesis
  proof (cases "e = l")
    case True
    then have "Impl_UpdatePageWatchers ans track is_read ((r * 1024 + a) * 4096) ((l - a) * 4096) pm = Done pm'"
      using U by (auto split: if_splits)
    then have w: "watch_done track is_read {(r * 1024 + a) * 4096 div 4096..<((r * 1024 + a) * 4096 + (l - a) * 4096 - 1) div 4096 + 1} pm pm'"
      by (rule Impl_UpdatePageWatchers_ok [OF assms(1)])
    have d: "(r * 1024 + a) * 4096 div 4096 = r * 1024 + a" by simp
    show ?thesis unfolding S(6) [OF True] by (rule w [unfolded d run_end [OF S(3)]])
  next
    case False
    then have u: "update_region ans track is_read (Some msk) (r * 1024 * 4096) (r * 1024 * 4096) a l pm = Done pm'"
      using U by (auto split: if_splits)
    have rd: "r * 1024 * 4096 div TRACKER_REGION_SIZE = r" by (simp add: TRACKER_REGION_SIZE_def)
    show ?thesis using update_region_ok [OF assms(1) S(3,4) rd u] unfolding S(7) .
  qed
qed

section \<open>When the process does not end\<close>

definition grants :: "protect_answer \<Rightarrow> bool" where
  "grants ans \<longleftrightarrow> (\<forall>vaddr sz mode. ans vaddr sz mode)"

lemma release_total: "grants ans \<Longrightarrow> \<exists>w1. release_pending ans base w = Done w1"
  by (simp add: release_pending_def page_Protect_def grants_def)

lemma watch_page_total:
  assumes "grants ans" "wanted msk i \<Longrightarrow> shift_ok track is_read (wv_pages w ! i)"
  shows "\<exists>w'. watch_page ans track is_read msk base i w = Done w'"
proof -
  have "\<exists>w1. close_range ans base p v = Done w1" for p v
    using release_total [of ans base v] assms(1) by (auto simp: close_range_def)
  then show ?thesis using assms(2) unfolding watch_page_def Let_def
    by (cases "wanted msk i") (auto simp: AddDelta_none AddDelta_shift obind_eq_Done intro!: exI)
qed

lemma watch_pages_total:
  assumes "grants ans" "loop_ok b h0 i w" "j \<le> 1024"
    and "\<And>q. i \<le> q \<Longrightarrow> q < j \<Longrightarrow> wanted msk q \<Longrightarrow> shift_ok track is_read (wv_pages w ! q)"
  shows "\<exists>w'. ofold (watch_page ans track is_read msk (b * 4096)) [i..<j] w = Done w'"
  using assms(2,4)
proof (induction "j - i" arbitrary: i w)
  case (Suc n)
  then have ij: "i < j" "i < 1024" "[i..<j] = i # [Suc i..<j]" using assms(3) by (auto simp: upt_conv_Cons)
  obtain w1 where w1: "watch_page ans track is_read msk (b * 4096) i w = Done w1"
    using watch_page_total [OF assms(1), where msk = msk and i = i and w = w] Suc.prems(2) ij(1) by blast
  note f = watch_page_ok [OF Suc.prems(1) ij(2) w1]
  have "shift_ok track is_read (wv_pages w1 ! q)" if "Suc i \<le> q" "q < j" "wanted msk q" for q
    using f that Suc.prems(2) [of q] by auto
  then have "\<exists>w'. ofold (watch_page ans track is_read msk (b * 4096)) [Suc i..<j] w1 = Done w'"
    using Suc.hyps(1) [of "Suc i" w1] Suc.hyps(2) f by auto
  then show ?case using w1 ij(3) by simp
qed auto

lemma update_region_total:
  assumes "grants ans" "pages_ok pm" "i < j" "j \<le> 1024" "vaddr div TRACKER_REGION_SIZE = r" "vaddr < TRACKER_ADDRESS_SIZE"
    and "\<And>q. i \<le> q \<Longrightarrow> q < j \<Longrightarrow> wanted msk q \<Longrightarrow> shift_ok track is_read (page_at pm (r * 1024 + q))"
    and "wanted msk i"
  shows "\<exists>pm'. update_region ans track is_read msk vaddr (r * 1024 * 4096) i j pm = Done pm'"
proof -
  have "pg_regions pm r \<noteq> None" if "\<not> track"
  proof
    assume "pg_regions pm r = None"
    then have "page_at pm (r * 1024 + i) = new_page" using assms(3,4) by (simp add: page_at_def)
    then show False using assms(7) [of i] assms(3,8) that by (simp add: new_page_def shift_ok_def split: if_splits)
  qed
  then obtain region where g: "(if track then Some (pg_GetOrCreateRegion pm vaddr) else FindRegion pm vaddr) = Some region"
    "pg_regions pm r = Some region \<or> (pg_regions pm r = None \<and> region = replicate 1024 new_page)"
    using assms(5,6) by (cases track; cases "pg_regions pm r") (auto simp: pg_GetOrCreateRegion_def FindRegion_def TRACKER_REGION_PAGES_def
      TRACKER_PAGE_SIZE_def TRACKER_REGION_SIZE_def)
  have at: "region ! q = page_at pm (r * 1024 + q)" if "q < 1024" for q
    using g(2) that by (auto simp: page_at_def)
  have l: "length region = 1024" using g(2) assms(2) by (auto simp: pages_ok_def)
  let ?w = "\<lparr>wv_pages = region, wv_host = pg_host pm, wv_perms = Perms (region ! i), wv_begin = 0, wv_bytes = 0, wv_potential = 0\<rparr>"
  have L: "loop_ok (r * 1024) (pg_host pm) i ?w"
    using assms(2) at l by (intro loop_okI [where n = 0]) (simp_all add: pages_ok_def)
  have "\<exists>w. ofold (watch_page ans track is_read msk (r * 1024 * 4096)) [i..<j] ?w = Done w"
    by (rule watch_pages_total [OF assms(1) L assms(4)]) (use assms(4,7) at in simp)
  then obtain w where "ofold (watch_page ans track is_read msk (r * 1024 * 4096)) [i..<j] ?w = Done w" by blast
  moreover obtain w1 where "release_pending ans (r * 1024 * 4096) w = Done w1" using release_total [OF assms(1)] by blast
  ultimately show ?thesis unfolding update_region_def UpdateRegionWatchers_def g(1) by simp
qed

lemma watch_chunks_total:
  assumes "grants ans" "pages_ok pm" "j \<le> 2 ^ 28" "\<And>p. i \<le> p \<Longrightarrow> p < j \<Longrightarrow> shift_ok track is_read (page_at pm p)"
  shows "\<exists>pm'. watch_chunks ans track is_read (i * 4096) (j * 4096) pm = Done pm'"
  using assms(2,4)
proof (induction "j - i" arbitrary: i pm rule: less_induct)
  case less
  show ?case
  proof (cases "j \<le> i")
    case True
    then show ?thesis by (subst watch_chunks.simps) simp
  next
    case False
    note C = chunk_of [OF False]
    have "\<exists>pm1. update_region ans track is_read None (i * 4096) (i div 1024 * 1024 * 4096) (i - i div 1024 * 1024)
        (min j ((i div 1024 + 1) * 1024) - i div 1024 * 1024) pm = Done pm1"
    proof (rule update_region_total [OF assms(1) less.prems(1)])
      show "i * 4096 < TRACKER_ADDRESS_SIZE" using False assms(3) by (simp add: TRACKER_ADDRESS_SIZE_def)
      show "shift_ok track is_read (page_at pm (i div 1024 * 1024 + q))"
        if "i - i div 1024 * 1024 \<le> q" "q < min j ((i div 1024 + 1) * 1024) - i div 1024 * 1024" for q
      proof (rule less.prems(2))
        show "i \<le> i div 1024 * 1024 + q" using that(1) by (simp add: le_diff_conv add.commute)
        show "i div 1024 * 1024 + q < j" using that(2) C(2) by (simp add: less_diff_conv add.commute)
      qed
    qed (use C diff_less_mono [OF C(1,4)] in \<open>auto simp: region_of_page wanted_def le_diff_conv\<close>)
    then obtain pm1 where pm1: "update_region ans track is_read None (i * 4096) (i div 1024 * 1024 * 4096) (i - i div 1024 * 1024)
        (min j ((i div 1024 + 1) * 1024) - i div 1024 * 1024) pm = Done pm1" by blast
    have d: "watch_done track is_read {i..<min j ((i div 1024 + 1) * 1024)} pm pm1"
      by (rule chunk_ok [OF less.prems(1) False pm1])
    have "\<exists>pm'. watch_chunks ans track is_read (min j ((i div 1024 + 1) * 1024) * 4096) (j * 4096) pm1 = Done pm'"
    proof (rule less.hyps)
      show "j - min j ((i div 1024 + 1) * 1024) < j - i" using C False by auto
      show "pages_ok pm1" using d by (simp add: watch_done_def)
      show "shift_ok track is_read (page_at pm1 p)" if "min j ((i div 1024 + 1) * 1024) \<le> p" "p < j" for p
        using that d less.prems(2) [of p] C by (simp add: watch_done_def)
    qed
    then show ?thesis using pm1 by (simp only: watch_chunks_step [OF False] obind.simps)
  qed
qed

lemma UpdatePageWatchersForRegion_total:
  assumes "grants ans" "pages_ok pm" "ba_size msk = 1024" "r < 2 ^ 18" "i < 1024" "bits_of msk ! i"
    and "\<And>p. p \<in> mask_pages r msk \<Longrightarrow> shift_ok track is_read (page_at pm p)"
  shows "\<exists>pm'. UpdatePageWatchersForRegion ans track is_read (r * TRACKER_REGION_SIZE) msk pm = Done pm'"
proof -
  obtain a e where f: "FirstRange msk = (a, e)" by (cases "FirstRange msk")
  obtain c l where g: "LastRange msk = (c, l)" by (cases "LastRange msk")
  have a: "a \<noteq> 1024"
  proof
    assume "a = 1024"
    then show False using FirstRangeFrom_spec [of 0 msk a e] f assms(3,5,6) by (auto simp: FirstRange_def)
  qed
  note S = mask_scans [OF assms(3) f g a]
  show ?thesis
  proof (cases "e = l")
    case True
    have v: "page_range_ok True ((r * 1024 + a) * 4096) ((l - a) * 4096)"
      using assms(4) S(3,4) by (auto simp: page_range_ok_def TRACKER_ADDRESS_SIZE_def)
    have p: "PageStart ((r * 1024 + a) * 4096) = (r * 1024 + a) * 4096"
      "PageEnd ((r * 1024 + a) * 4096) ((l - a) * 4096) = (r * 1024 + l) * 4096"
      using run_end [OF S(3), of r] unfolding PageStart_def PageEnd_def TRACKER_PAGE_SIZE_def
      by (simp_all add: minus_mod_eq_div_mult)
    have "\<exists>pm'. watch_chunks ans track is_read ((r * 1024 + a) * 4096) ((r * 1024 + l) * 4096) pm = Done pm'"
      using assms(4,7) S(4) unfolding S(6) [OF True] by (intro watch_chunks_total [OF assms(1,2)]) auto
    then show ?thesis using assms(4) a True v
      unfolding UpdatePageWatchersForRegion_unfold [OF assms(3) f g] Impl_UpdatePageWatchers_def p by simp
  next
    case False
    have "\<exists>pm'. update_region ans track is_read (Some msk) (r * 1024 * 4096) (r * 1024 * 4096) a l pm = Done pm'"
    proof (rule update_region_total [OF assms(1,2) S(3,4)])
      show "wanted (Some msk) a" using S(3-5) assms(3) by (simp add: wanted_def ba_Get_bits)
      show "shift_ok track is_read (page_at pm (r * 1024 + q))" if "a \<le> q" "q < l" "wanted (Some msk) q" for q
      proof (rule assms(7))
        have "q < 1024" using that(2) S(4) by linarith
        then show "r * 1024 + q \<in> mask_pages r msk" using that(3) assms(3) by (simp add: mask_pages_def wanted_def ba_Get_bits)
      qed
    qed (use assms(4) in \<open>simp_all add: TRACKER_REGION_SIZE_def TRACKER_ADDRESS_SIZE_def\<close>)
    then show ?thesis using assms(4) a False unfolding UpdatePageWatchersForRegion_unfold [OF assms(3) f g] by simp
  qed
qed

section \<open>The property\<close>

text \<open>C35. Watching the pages of a mask, or ceasing to. If the host grants protections and every page of the mask can count
  one watcher more or less, the call returns; if it returns, exactly the pages of the mask count one watcher more or less, and the host
  again protects every page as its counts say: no access with an access watcher, reading only with a write
  watcher, everything without. The masked loop merges pages into one call to the host, also across
  pages that the mask leaves out.\<close>

theorem page_watchers_exact:
  assumes "pages_ok pm" "ba_size msk = 1024" "r < 2 ^ 18" "i < 1024" "bits_of msk ! i"
  shows "(case UpdatePageWatchersForRegion ans track is_read (r * TRACKER_REGION_SIZE) msk pm of
      Done pm' \<Rightarrow> (\<forall>p. mode_ok (pg_host pm' p) (Perms (page_at pm' p))) \<and>
        (\<forall>p. page_at pm' p = (if p \<in> mask_pages r msk then shifted track is_read (page_at pm p) else page_at pm p))
    | Exit \<Rightarrow> grants ans \<longrightarrow> (\<exists>p \<in> mask_pages r msk. \<not> shift_ok track is_read (page_at pm p)))"
proof (cases "UpdatePageWatchersForRegion ans track is_read (r * TRACKER_REGION_SIZE) msk pm")
  case Exit
  then show ?thesis using UpdatePageWatchersForRegion_total [OF _ assms, of ans track is_read] by auto
next
  case (Done pm')
  show ?thesis using UpdatePageWatchersForRegion_ok [OF assms(1,2) Done]
    unfolding Done watch_done_def pages_ok_def outcome.case by blast
qed

lemma page_watchers_exact_witness:
  "case UpdatePageWatchersForRegion (\<lambda>_ _ _. True) True False TRACKER_REGION_SIZE (5 # replicate 15 0)
      \<lparr>pg_regions = (\<lambda>_. None), pg_host = (\<lambda>_. ModeReadWrite)\<rparr> of
    Done pm' \<Rightarrow> write_watchers (page_at pm' 1026) = 1 \<and> write_watchers (page_at pm' 1025) = 0
  | Exit \<Rightarrow> False"
proof -
  let ?pm = "\<lparr>pg_regions = (\<lambda>_. None), pg_host = (\<lambda>_. ModeReadWrite)\<rparr> :: PageManager"
  let ?m = "5 # replicate 15 (0 :: u64)"
  have b: "bits_of ?m ! i = bit (?m ! (i div 64)) (i mod 64)" if "i < 1024" for i
    using that by (intro nth_bits_of) (simp add: ba_size_def)
  have ok: "pages_ok ?pm" by (simp add: pages_ok_def page_at_def mode_ok_def Perms_def new_page_def)
  have "bits_of ?m ! 2 = bit (5 :: u64) 2" "bits_of ?m ! 1 = bit (5 :: u64) 1" using b [of 2] b [of 1] by (simp_all del: bits_of_simps)
  then have b2: "bits_of ?m ! 2" "\<not> bits_of ?m ! 1" by (simp_all only: bit_numeral_simps) simp_all
  have sz: "ba_size ?m = 1024" by (simp add: ba_size_def)
  have n: "1026 \<in> mask_pages 1 ?m" "1025 \<notin> mask_pages 1 ?m" using b2 by (simp_all add: mask_pages_def del: bits_of_simps)
  have z: "page_at ?pm p = new_page" for p by (simp add: page_at_def)
  have so: "shift_ok True False new_page" by (simp add: shift_ok_def new_page_def)
  note T = page_watchers_exact [OF ok sz _ _ b2(1), of 1 "\<lambda>_ _ _. True" True False, unfolded z]
  show ?thesis
  proof (cases "UpdatePageWatchersForRegion (\<lambda>_ _ _. True) True False TRACKER_REGION_SIZE ?m ?pm")
    case Exit
    then show ?thesis using T so by (simp add: grants_def)
  next
    case (Done pm')
    then have "page_at pm' p = (if p \<in> mask_pages 1 ?m then shifted True False new_page else new_page)" for p
      using T by simp
    then show ?thesis using Done n by (simp add: shifted_def new_page_def)
  qed
qed

end
