(* ===== verification/MemoryTracker.thy ===== *)
theory MemoryTracker
  imports PageManagerProps Machine
begin

text \<open>
  Which pages the CPU and the GPU have modified: \<open>src/graphics/host_gpu/regionManager.h\<close> for a region of
  4 MiB, \<open>memoryTracker.h\<close> and \<open>memoryTracker.cpp\<close> for the address space. Every operation of the
  tracker holds its mutex, so the locks of the regions have no counterpart here; \<open>InvalidateRegion\<close> gives the mutex up for the
  time of its callback. The callbacks that are given ranges cannot call the tracker, so an
  operation returns the ranges in the order in which they are passed on.
\<close>

section \<open>Regions\<close>

datatype DirtySource = CpuDirty | GpuDirty

record RegionManager =
  rg_cpu_dirty :: "u64 list"
  rg_gpu_dirty :: "u64 list"
  rg_writable :: "u64 list"
  rg_readable :: "u64 list"

definition new_region :: RegionManager where
  "new_region =
    (let zero = replicate (TRACKER_REGION_PAGES div 64) 0
     in \<lparr>rg_cpu_dirty = ba_Fill zero, rg_gpu_dirty = zero, rg_writable = ba_Fill zero, rg_readable = ba_Fill zero\<rparr>)"

fun GetBits :: "DirtySource \<Rightarrow> RegionManager \<Rightarrow> u64 list" where
  "GetBits CpuDirty rg = rg_cpu_dirty rg"
| "GetBits GpuDirty rg = rg_gpu_dirty rg"

fun put_bits :: "DirtySource \<Rightarrow> u64 list \<Rightarrow> RegionManager \<Rightarrow> RegionManager" where
  "put_bits CpuDirty bs rg = rg\<lparr>rg_cpu_dirty := bs\<rparr>"
| "put_bits GpuDirty bs rg = rg\<lparr>rg_gpu_dirty := bs\<rparr>"

text \<open>The region with index \<open>r\<close> begins at \<open>r * TRACKER_REGION_SIZE\<close>.\<close>

definition GetPageRange :: "nat \<Rightarrow> nat \<Rightarrow> nat \<Rightarrow> (nat \<times> nat) outcome" where
  "GetPageRange r vaddr sz =
    (let cpu_addr = r * TRACKER_REGION_SIZE
     in if sz = 0 \<or> vaddr < cpu_addr \<or> cpu_addr + TRACKER_REGION_SIZE \<le> vaddr \<or> cpu_addr + TRACKER_REGION_SIZE - vaddr < sz then Exit
        else
          let offset = vaddr - cpu_addr
          in Done (offset div TRACKER_PAGE_SIZE, (offset + sz + TRACKER_PAGE_SIZE - 1) div TRACKER_PAGE_SIZE))"

definition IsModified :: "DirtySource \<Rightarrow> nat \<Rightarrow> nat \<Rightarrow> nat \<Rightarrow> RegionManager \<Rightarrow> bool outcome" where
  "IsModified source r offset sz rg =
    obind (GetPageRange r (r * TRACKER_REGION_SIZE + offset) sz) (\<lambda>(s, e). Done (ba_Any (ba_copy (GetBits source rg) s e)))"

type_synonym region_state = "RegionManager \<times> PageManager"

definition UpdateCpuProtection :: "protect_answer \<Rightarrow> bool \<Rightarrow> nat \<Rightarrow> region_state \<Rightarrow> region_state outcome" where
  "UpdateCpuProtection ans track r st =
    (case st of (rg, pm) \<Rightarrow>
      let msk = ba_xor (rg_cpu_dirty rg) (rg_writable rg); rg1 = rg\<lparr>rg_writable := rg_cpu_dirty rg\<rparr>
      in if ba_None msk then Done (rg1, pm)
         else obind (UpdatePageWatchersForRegion ans track False (r * TRACKER_REGION_SIZE) msk pm) (\<lambda>pm1. Done (rg1, pm1)))"

definition UpdateGpuProtection :: "protect_answer \<Rightarrow> bool \<Rightarrow> nat \<Rightarrow> region_state \<Rightarrow> region_state outcome" where
  "UpdateGpuProtection ans track r st =
    (case st of (rg, pm) \<Rightarrow>
      let readable = ba_not (rg_gpu_dirty rg); msk = ba_xor readable (rg_readable rg); rg1 = rg\<lparr>rg_readable := readable\<rparr>
      in if ba_None msk then Done (rg1, pm)
         else obind (UpdatePageWatchersForRegion ans track True (r * TRACKER_REGION_SIZE) msk pm) (\<lambda>pm1. Done (rg1, pm1)))"

fun other_source :: "DirtySource \<Rightarrow> DirtySource" where
  "other_source CpuDirty = GpuDirty"
| "other_source GpuDirty = CpuDirty"

definition ChangeState ::
  "protect_answer \<Rightarrow> DirtySource \<Rightarrow> bool \<Rightarrow> nat \<Rightarrow> nat \<Rightarrow> nat \<Rightarrow> region_state \<Rightarrow> region_state outcome" where
  "ChangeState ans source enable r vaddr sz st =
    (case st of (rg, pm) \<Rightarrow>
      obind (GetPageRange r vaddr sz) (\<lambda>(s, e).
        if enable \<and> ba_Any (ba_copy (GetBits (other_source source) rg) s e) then Exit
        else
          let bs = (if enable then ba_SetRange (GetBits source rg) s e else ba_UnsetRange (GetBits source rg) s e);
              rg1 = put_bits source bs rg
          in if source = CpuDirty then UpdateCpuProtection ans (\<not> enable) r (rg1, pm)
             else UpdateGpuProtection ans enable r (rg1, pm)))"

text \<open>The ranges of \<open>ForEachRange\<close>, as addresses and sizes.\<close>

definition region_ranges :: "nat \<Rightarrow> u64 list \<Rightarrow> (nat \<times> nat) list" where
  "region_ranges r bits =
    map (\<lambda>(s, e). (r * TRACKER_REGION_SIZE + s * TRACKER_PAGE_SIZE, (e - s) * TRACKER_PAGE_SIZE)) (the (ba_ranges bits))"

definition ForEachModifiedRange ::
  "protect_answer \<Rightarrow> DirtySource \<Rightarrow> bool \<Rightarrow> nat \<Rightarrow> nat \<Rightarrow> nat \<Rightarrow> region_state \<Rightarrow> ((nat \<times> nat) list \<times> region_state) outcome" where
  "ForEachModifiedRange ans source clear r vaddr sz st =
    (case st of (rg, pm) \<Rightarrow>
      obind (GetPageRange r vaddr sz) (\<lambda>(s, e).
        let msk = ba_copy (GetBits source rg) s e;
            rg1 = (if clear then put_bits source (ba_UnsetRange (GetBits source rg) s e) rg else rg)
        in obind (if \<not> clear then Done (rg1, pm)
                  else if source = CpuDirty then UpdateCpuProtection ans True r (rg1, pm)
                  else UpdateGpuProtection ans False r (rg1, pm)) (\<lambda>st1. Done (region_ranges r msk, st1))))"

section \<open>The tracker\<close>

record MemoryTracker =
  mt_regions :: "nat \<Rightarrow> RegionManager option"
  mt_pages :: PageManager

definition tracker_range_ok :: "nat \<Rightarrow> nat \<Rightarrow> bool" where
  "tracker_range_ok vaddr sz \<longleftrightarrow>
    \<not> (vaddr = 0 \<or> sz = 0 \<or> TRACKER_ADDRESS_SIZE \<le> vaddr \<or> TRACKER_ADDRESS_SIZE - vaddr < sz)"

definition mt_GetOrCreateRegion :: "nat \<Rightarrow> MemoryTracker \<Rightarrow> MemoryTracker" where
  "mt_GetOrCreateRegion index t =
    (if mt_regions t index \<noteq> None then t else t\<lparr>mt_regions := (mt_regions t)(index := Some new_region)\<rparr>)"

text \<open>
  \<open>Iterate\<close>: the function is given the index of a region, the offset and the number of bytes there, the
  region with the pages, and what it has collected so far; its flag ends the loop.
\<close>

type_synonym 'a region_fun = "nat \<Rightarrow> nat \<Rightarrow> nat \<Rightarrow> region_state \<Rightarrow> 'a \<Rightarrow> (bool \<times> region_state \<times> 'a) outcome"

definition visit :: "bool \<Rightarrow> 'a region_fun \<Rightarrow> nat \<times> nat \<times> nat \<Rightarrow> MemoryTracker \<Rightarrow> 'a \<Rightarrow> (bool \<times> MemoryTracker \<times> 'a) outcome" where
  "visit create f c t a =
    (case c of (index, offset, bytes) \<Rightarrow>
      let t1 = (if create then mt_GetOrCreateRegion index t else t)
      in case mt_regions t1 index of
           None \<Rightarrow> Done (False, t1, a)
         | Some manager \<Rightarrow>
             obind (f index offset bytes (manager, mt_pages t1) a) (\<lambda>(stop, (manager1, pages1), a1).
               Done (stop, t1\<lparr>mt_regions := (mt_regions t1)(index := Some manager1), mt_pages := pages1\<rparr>, a1)))"

function Iterate_loop ::
  "bool \<Rightarrow> 'a region_fun \<Rightarrow> nat \<Rightarrow> nat \<Rightarrow> nat \<Rightarrow> MemoryTracker \<Rightarrow> 'a \<Rightarrow> (bool \<times> MemoryTracker \<times> 'a) outcome" where
  "Iterate_loop create f index offset remaining t a =
    (if remaining = 0 then Done (False, t, a)
     else
       let bytes = min (TRACKER_REGION_SIZE - offset) remaining
       in obind (visit create f (index, offset, bytes) t a) (\<lambda>(stop, t1, a1).
            if stop then Done (True, t1, a1) else Iterate_loop create f (index + 1) 0 (remaining - bytes) t1 a1))"
  by pat_completeness auto
termination
  by (relation "measure (\<lambda>(create, f, index, offset, remaining, t, a). 2 * remaining + (if offset = 0 then 0 else 1))")
    (auto simp: TRACKER_REGION_SIZE_def)

declare Iterate_loop.simps [simp del]

definition Iterate ::
  "bool \<Rightarrow> 'a region_fun \<Rightarrow> nat \<Rightarrow> nat \<Rightarrow> MemoryTracker \<Rightarrow> 'a \<Rightarrow> (bool \<times> MemoryTracker \<times> 'a) outcome" where
  "Iterate create f vaddr sz t a =
    (if \<not> tracker_range_ok vaddr sz then Exit
     else Iterate_loop create f (vaddr div TRACKER_REGION_SIZE) (vaddr mod TRACKER_REGION_SIZE) sz t a)"

text \<open>The functions that the operations give to \<open>Iterate\<close>.\<close>

definition ask :: "DirtySource \<Rightarrow> unit region_fun" where
  "ask source r offset bytes st a = obind (IsModified source r offset bytes (fst st)) (\<lambda>b. Done (b, st, a))"

definition ask_both :: "unit region_fun" where
  "ask_both r offset bytes st a =
    obind (IsModified CpuDirty r offset bytes (fst st)) (\<lambda>b.
      if b then Done (True, st, a) else obind (IsModified GpuDirty r offset bytes (fst st)) (\<lambda>b. Done (b, st, a)))"

definition change :: "protect_answer \<Rightarrow> DirtySource \<Rightarrow> bool \<Rightarrow> unit region_fun" where
  "change ans source enable r offset bytes st a =
    obind (ChangeState ans source enable r (r * TRACKER_REGION_SIZE + offset) bytes st) (\<lambda>st1. Done (False, st1, a))"

definition add_bytes :: "nat region_fun" where
  "add_bytes r offset bytes st covered = Done (False, st, covered + bytes)"

definition each_range :: "protect_answer \<Rightarrow> DirtySource \<Rightarrow> bool \<Rightarrow> (nat \<times> nat) list region_fun" where
  "each_range ans source clear r offset bytes st ranges =
    obind (ForEachModifiedRange ans source clear r (r * TRACKER_REGION_SIZE + offset) bytes st)
      (\<lambda>(rs, st1). Done (False, st1, ranges @ rs))"

definition no_function :: "unit region_fun" where
  "no_function r offset bytes st a = Done (False, st, a)"

definition IsRegionCpuModified :: "nat \<Rightarrow> nat \<Rightarrow> MemoryTracker \<Rightarrow> (bool \<times> MemoryTracker) outcome" where
  "IsRegionCpuModified vaddr sz t = obind (Iterate True (ask CpuDirty) vaddr sz t ()) (\<lambda>(b, t1, _). Done (b, t1))"

definition IsRegionGpuModified :: "nat \<Rightarrow> nat \<Rightarrow> MemoryTracker \<Rightarrow> (bool \<times> MemoryTracker) outcome" where
  "IsRegionGpuModified vaddr sz t = obind (Iterate False (ask GpuDirty) vaddr sz t ()) (\<lambda>(b, t1, _). Done (b, t1))"

definition TryMarkCleanRegionAsCpuModified :: "protect_answer \<Rightarrow> nat \<Rightarrow> nat \<Rightarrow> MemoryTracker \<Rightarrow> (bool \<times> MemoryTracker) outcome" where
  "TryMarkCleanRegionAsCpuModified ans vaddr sz t =
    obind (Iterate False add_bytes vaddr sz t 0) (\<lambda>(_, t1, covered).
      if covered \<noteq> sz then Done (False, t1)
      else obind (Iterate False ask_both vaddr sz t1 ()) (\<lambda>(modified, t2, _).
        if modified then Done (False, t2)
        else obind (Iterate False (change ans CpuDirty True) vaddr sz t2 ()) (\<lambda>(_, t3, _). Done (True, t3))))"

definition MarkRegionAsCpuModified :: "protect_answer \<Rightarrow> nat \<Rightarrow> nat \<Rightarrow> MemoryTracker \<Rightarrow> MemoryTracker outcome" where
  "MarkRegionAsCpuModified ans vaddr sz t = obind (Iterate True (change ans CpuDirty True) vaddr sz t ()) (\<lambda>(_, t1, _). Done t1)"

definition MarkRegionAsGpuModified :: "protect_answer \<Rightarrow> nat \<Rightarrow> nat \<Rightarrow> MemoryTracker \<Rightarrow> MemoryTracker outcome" where
  "MarkRegionAsGpuModified ans vaddr sz t = obind (Iterate True (change ans GpuDirty True) vaddr sz t ()) (\<lambda>(_, t1, _). Done t1)"

definition UnmarkRegionAsGpuModified :: "protect_answer \<Rightarrow> nat \<Rightarrow> nat \<Rightarrow> MemoryTracker \<Rightarrow> MemoryTracker outcome" where
  "UnmarkRegionAsGpuModified ans vaddr sz t =
    obind (Iterate False (change ans GpuDirty False) vaddr sz t ()) (\<lambda>(_, t1, _). Done t1)"

definition UntrackMemory :: "protect_answer \<Rightarrow> nat \<Rightarrow> nat \<Rightarrow> MemoryTracker \<Rightarrow> MemoryTracker outcome" where
  "UntrackMemory ans vaddr sz t =
    obind (Iterate False (ask GpuDirty) vaddr sz t ()) (\<lambda>(modified, t1, _).
      if modified then Exit
      else obind (Iterate False (change ans CpuDirty True) vaddr sz t1 ()) (\<lambda>(_, t2, _). Done t2))"

text \<open>\<open>update_cpu_state\<close> in \<open>InvalidateRegion\<close>, and the whole, with what the callback does as an argument.\<close>

definition update_cpu_state :: "protect_answer \<Rightarrow> nat \<Rightarrow> nat \<Rightarrow> MemoryTracker \<Rightarrow> (bool \<times> MemoryTracker) outcome" where
  "update_cpu_state ans vaddr sz t =
    obind (Iterate False (ask GpuDirty) vaddr sz t ()) (\<lambda>(gpu_modified, t1, _).
      if gpu_modified then Done (True, t1)
      else obind (Iterate False (change ans CpuDirty True) vaddr sz t1 ()) (\<lambda>(_, t2, _). Done (False, t2)))"

definition InvalidateRegion ::
  "protect_answer \<Rightarrow> (MemoryTracker \<Rightarrow> MemoryTracker outcome) \<Rightarrow> nat \<Rightarrow> nat \<Rightarrow> MemoryTracker \<Rightarrow> MemoryTracker outcome" where
  "InvalidateRegion ans on_flush vaddr sz t =
    obind (update_cpu_state ans vaddr sz t) (\<lambda>(retry, t1).
      if \<not> retry then Done t1
      else obind (on_flush t1) (\<lambda>t2. obind (update_cpu_state ans vaddr sz t2) (\<lambda>(left, t3). if left then Exit else Done t3)))"

text \<open>The ranges for \<open>preflight\<close>, those for \<open>func\<close>, and the tracker.\<close>

definition ForEachDownloadRange ::
  "protect_answer \<Rightarrow> bool \<Rightarrow> nat \<Rightarrow> nat \<Rightarrow> MemoryTracker \<Rightarrow> ((nat \<times> nat) list \<times> (nat \<times> nat) list \<times> MemoryTracker) outcome" where
  "ForEachDownloadRange ans clear vaddr sz t =
    obind (Iterate False (each_range ans GpuDirty False) vaddr sz t []) (\<lambda>(_, t1, preflight).
    obind (Iterate False (each_range ans GpuDirty False) vaddr sz t1 []) (\<lambda>(_, t2, ranges).
      if \<not> clear then Done (preflight, ranges, t2)
      else obind (Iterate False (each_range ans GpuDirty True) vaddr sz t2 []) (\<lambda>(_, t3, _). Done (preflight, ranges, t3))))"

definition ForEachUploadRange ::
  "protect_answer \<Rightarrow> bool \<Rightarrow> nat \<Rightarrow> nat \<Rightarrow> MemoryTracker \<Rightarrow> ((nat \<times> nat) list \<times> MemoryTracker) outcome" where
  "ForEachUploadRange ans is_written vaddr sz t =
    obind (Iterate True no_function vaddr sz t ()) (\<lambda>(_, t1, _).
    obind (Iterate False (each_range ans CpuDirty True) vaddr sz t1 []) (\<lambda>(_, t2, ranges).
      if \<not> is_written then Done (ranges, t2)
      else obind (Iterate False (change ans GpuDirty True) vaddr sz t2 ()) (\<lambda>(_, t3, _). Done (ranges, t3))))"

end
