(* ===== verification/MemoryTrackerSpec.thy ===== *)
theory MemoryTrackerSpec
  imports MemoryTracker
begin

text \<open>
  What the tracker means. It stands for two sets of pages, those that the CPU and those that the
  GPU has modified; its operations are the obvious operations on these sets, a page is never in both, and
  the protection of the pages makes the guest's accesses trap exactly when the tracker has to know of them.
\<close>

section \<open>Regions as sets of pages\<close>

definition page_bits :: "nat \<Rightarrow> u64 list \<Rightarrow> nat set" where
  "page_bits r bs = {p. p div 1024 = r \<and> bits_of bs ! (p mod 1024)}"

lemma mask_pages_bits: "mask_pages r bs = page_bits r bs"
  by (simp add: mask_pages_def page_bits_def)

definition region_window :: "nat \<Rightarrow> nat \<Rightarrow> nat \<Rightarrow> nat set" where
  "region_window r s e = {r * 1024 + s..<r * 1024 + e}"

lemma in_window: "e \<le> 1024 \<Longrightarrow> p \<in> region_window r s e \<longleftrightarrow> p div 1024 = r \<and> s \<le> p mod 1024 \<and> p mod 1024 < e"
proof -
  assume "e \<le> 1024"
  then have "{p. p div 1024 = r \<and> r * 1024 + s - r * 1024 \<le> p mod 1024 \<and> p mod 1024 < r * 1024 + e - r * 1024} = region_window r s e"
    unfolding region_window_def by (intro page_window) simp_all
  then show ?thesis unfolding add_diff_cancel_left' by blast
qed

lemma mod_1024 [simp]: "p mod 1024 < (1024 :: nat)"
  by simp

lemma page_bits_ops:
  assumes "ba_size bs = 1024" "s < e" "e \<le> 1024"
  shows "page_bits r (ba_SetRange bs s e) = page_bits r bs \<union> region_window r s e"
    "page_bits r (ba_UnsetRange bs s e) = page_bits r bs - region_window r s e"
    "page_bits r (ba_copy bs s e) = page_bits r bs \<inter> region_window r s e"
  using assms in_window [OF assms(3)]
  by (auto simp: page_bits_def SetRange_bits UnsetRange_bits copy_bits)

lemma page_bits_xor:
  assumes "ba_size as = 1024" "ba_size bs = 1024"
  shows "page_bits r (ba_xor as bs) = (page_bits r as - page_bits r bs) \<union> (page_bits r bs - page_bits r as)"
proof -
  have "length as = length bs" using assms by (simp add: ba_size_def)
  then show ?thesis using assms by (auto simp: page_bits_def xor_not_bits)
qed

lemma page_bits_not: "ba_size bs = 1024 \<Longrightarrow> page_bits r (ba_not bs) = {p. p div 1024 = r} - page_bits r bs"
  by (auto simp: page_bits_def xor_not_bits)

lemma size_bits [simp]: "ba_size (ba_not bs) = ba_size bs" "ba_size (ba_xor as bs) = min (ba_size as) (ba_size bs)"
  by (simp_all add: ba_size_def ba_not_def ba_xor_def)

lemma page_bits_None: "ba_size bs = 1024 \<Longrightarrow> ba_None bs \<longleftrightarrow> page_bits r bs = {}"
proof -
  assume b: "ba_size bs = 1024"
  have "r * 1024 + i \<in> page_bits r bs" if "i < 1024" "bits_of bs ! i" for i using that by (simp add: page_bits_def)
  then have "page_bits r bs = {} \<Longrightarrow> ba_None bs" unfolding None_bits b by blast
  moreover have "ba_None bs \<Longrightarrow> page_bits r bs = {}" unfolding None_bits b page_bits_def by simp
  ultimately show ?thesis by blast
qed

lemma page_bits_Any: "ba_size bs = 1024 \<Longrightarrow> s < e \<Longrightarrow> e \<le> 1024 \<Longrightarrow>
    ba_Any (ba_copy bs s e) \<longleftrightarrow> page_bits r bs \<inter> region_window r s e \<noteq> {}"
  using page_bits_None [of "ba_copy bs s e" r] by (simp add: ba_Any_def page_bits_ops)


definition region_ok :: "nat \<Rightarrow> RegionManager \<Rightarrow> bool" where
  "region_ok r rg \<longleftrightarrow> r < 2 ^ 18 \<and> ba_size (rg_cpu_dirty rg) = 1024 \<and> ba_size (rg_gpu_dirty rg) = 1024 \<and>
    ba_size (rg_writable rg) = 1024 \<and> ba_size (rg_readable rg) = 1024 \<and>
    page_bits r (rg_writable rg) = page_bits r (rg_cpu_dirty rg) \<and>
    page_bits r (rg_readable rg) = {p. p div 1024 = r} - page_bits r (rg_gpu_dirty rg) \<and>
    page_bits r (rg_cpu_dirty rg) \<inter> page_bits r (rg_gpu_dirty rg) = {}"

section \<open>The tracker as two sets\<close>

definition cpu_pages :: "MemoryTracker \<Rightarrow> nat set" where
  "cpu_pages t = {p. case mt_regions t (p div 1024) of None \<Rightarrow> True | Some rg \<Rightarrow> p \<in> page_bits (p div 1024) (rg_cpu_dirty rg)}"

definition gpu_pages :: "MemoryTracker \<Rightarrow> nat set" where
  "gpu_pages t = {p. case mt_regions t (p div 1024) of None \<Rightarrow> False | Some rg \<Rightarrow> p \<in> page_bits (p div 1024) (rg_gpu_dirty rg)}"

text \<open>
  The invariant. \<open>ext\<close> is how often others, which is the texture cache, watch a page for writing.
\<close>

definition counts_ok :: "(nat \<Rightarrow> nat) \<Rightarrow> nat set \<Rightarrow> nat set \<Rightarrow> PageManager \<Rightarrow> bool" where
  "counts_ok ext C G pm \<longleftrightarrow>
    (\<forall>p. unat (write_watchers (page_at pm p)) = ext p + of_bool (p \<notin> C) \<and> (access_watchers (page_at pm p) \<noteq> 0) = (p \<in> G))"

definition tracker_inv :: "(nat \<Rightarrow> nat) \<Rightarrow> MemoryTracker \<Rightarrow> bool" where
  "tracker_inv ext t \<longleftrightarrow> pages_ok (mt_pages t) \<and> (\<forall>r rg. mt_regions t r = Some rg \<longrightarrow> region_ok r rg) \<and>
    counts_ok ext (cpu_pages t) (gpu_pages t) (mt_pages t)"

section \<open>Bringing the protection in line\<close>

abbreviation region_pages :: "nat \<Rightarrow> nat set" where
  "region_pages r \<equiv> {p. p div 1024 = r}"

lemma page_bits_in: "page_bits r bs \<subseteq> region_pages r"
  by (auto simp: page_bits_def)

lemma mask_some: "ba_size m = 1024 \<Longrightarrow> \<not> ba_None m \<Longrightarrow> \<exists>i < 1024. bits_of m ! i"
  by (auto simp: None_bits)

lemma write_shift:
  "shift_ok track False page \<Longrightarrow> unat (write_watchers (shifted track False page)) =
    (if track then unat (write_watchers page) + 1 else unat (write_watchers page) - 1)"
  by (simp add: shift_ok_def shifted_def seven_bits unat_minus_one)

lemma access_shift: "shift_ok track True page \<Longrightarrow> access_watchers (shifted track True page) \<noteq> 0 \<longleftrightarrow> track"
  using one_bit [of "access_watchers page"] by (auto simp: shift_ok_def shifted_def)

lemma shift_other [simp]: "write_watchers (shifted track True page) = write_watchers page"
  "access_watchers (shifted track False page) = access_watchers page"
  by (simp_all add: shifted_def)

lemma cpu_counts:
  assumes "counts_ok ext C G pm" "watch_done track False M pm pm1"
    and "M = (if track then C - C1 else C1 - C)" "if track then C1 \<subseteq> C else C \<subseteq> C1"
  shows "counts_ok ext C1 G pm1"
  unfolding counts_ok_def
proof
  fix p
  have c: "unat (write_watchers (page_at pm p)) = ext p + of_bool (p \<notin> C)" "(access_watchers (page_at pm p) \<noteq> 0) = (p \<in> G)"
    using assms(1) by (simp_all add: counts_ok_def)
  have d: "page_at pm1 p = (if p \<in> M then shifted track False (page_at pm p) else page_at pm p)"
    "p \<in> M \<Longrightarrow> shift_ok track False (page_at pm p)"
    using assms(2) by (simp_all add: watch_done_def)
  show "unat (write_watchers (page_at pm1 p)) = ext p + of_bool (p \<notin> C1) \<and> (access_watchers (page_at pm1 p) \<noteq> 0) = (p \<in> G)"
  proof (cases "p \<in> M")
    case True
    then show ?thesis using c d write_shift [OF d(2) [OF True]] assms(3) by (cases track) auto
  next
    case False
    then show ?thesis using c d(1) assms(3,4) by (cases track) auto
  qed
qed

lemma gpu_counts:
  assumes "counts_ok ext C G pm" "watch_done track True M pm pm1"
    and "M = (if track then G1 - G else G - G1)" "if track then G \<subseteq> G1 else G1 \<subseteq> G"
  shows "counts_ok ext C G1 pm1"
  unfolding counts_ok_def
proof
  fix p
  have c: "unat (write_watchers (page_at pm p)) = ext p + of_bool (p \<notin> C)" "(access_watchers (page_at pm p) \<noteq> 0) = (p \<in> G)"
    using assms(1) by (simp_all add: counts_ok_def)
  have d: "page_at pm1 p = (if p \<in> M then shifted track True (page_at pm p) else page_at pm p)"
    "p \<in> M \<Longrightarrow> shift_ok track True (page_at pm p)"
    using assms(2) by (simp_all add: watch_done_def)
  show "unat (write_watchers (page_at pm1 p)) = ext p + of_bool (p \<notin> C) \<and> (access_watchers (page_at pm1 p) \<noteq> 0) = (p \<in> G1)"
  proof (cases "p \<in> M")
    case True
    then show ?thesis using c d access_shift [OF d(2) [OF True]] assms(3) by (cases track) auto
  next
    case False
    then show ?thesis using c d(1) assms(3,4) by (cases track) auto
  qed
qed

lemma cpu_sync:
  assumes "pages_ok pm" "counts_ok ext C G pm" "r < 2 ^ 18" "ba_size (rg_cpu_dirty rg) = 1024" "ba_size (rg_writable rg) = 1024"
    and "page_bits r (rg_writable rg) = C \<inter> region_pages r" "page_bits r (rg_cpu_dirty rg) = C1 \<inter> region_pages r"
    and "C - region_pages r = C1 - region_pages r" "if track then C1 \<subseteq> C else C \<subseteq> C1"
  shows "UpdateCpuProtection ans track r (rg, pm) = Done (rg1, pm1) \<Longrightarrow>
      rg1 = rg\<lparr>rg_writable := rg_cpu_dirty rg\<rparr> \<and> pages_ok pm1 \<and> counts_ok ext C1 G pm1"
    and "grants ans \<Longrightarrow> (\<And>p. ext p < 127) \<Longrightarrow> UpdateCpuProtection ans track r (rg, pm) \<noteq> Exit"
proof -
  let ?m = "ba_xor (rg_cpu_dirty rg) (rg_writable rg)"
  have sz: "ba_size ?m = 1024" using assms(4,5) by simp
  have M: "page_bits r ?m = (if track then C - C1 else C1 - C)"
    using assms(6-9) unfolding page_bits_xor [OF assms(4,5)] by (cases track) auto
  show "rg1 = rg\<lparr>rg_writable := rg_cpu_dirty rg\<rparr> \<and> pages_ok pm1 \<and> counts_ok ext C1 G pm1"
    if u: "UpdateCpuProtection ans track r (rg, pm) = Done (rg1, pm1)"
  proof (cases "ba_None ?m")
    case True
    then have "C = C1" using M assms(9) page_bits_None [OF sz, of r] by (cases track) auto
    then show ?thesis using u True assms(1,2) by (auto simp: UpdateCpuProtection_def Let_def)
  next
    case False
    then have w: "UpdatePageWatchersForRegion ans track False (r * TRACKER_REGION_SIZE) ?m pm = Done pm1"
      and rg1: "rg1 = rg\<lparr>rg_writable := rg_cpu_dirty rg\<rparr>"
      using u by (auto simp: UpdateCpuProtection_def Let_def obind_eq_Done)
    have d: "watch_done track False (if track then C - C1 else C1 - C) pm pm1"
      using UpdatePageWatchersForRegion_ok [OF assms(1) sz w] unfolding mask_pages_bits M .
    show ?thesis using rg1 cpu_counts [OF assms(2) d refl assms(9)] d by (simp add: watch_done_def)
  qed
  show "UpdateCpuProtection ans track r (rg, pm) \<noteq> Exit" if g: "grants ans" and e: "\<And>p. ext p < 127"
  proof (cases "ba_None ?m")
    case True
    then show ?thesis by (simp add: UpdateCpuProtection_def Let_def)
  next
    case False
    have "shift_ok track False (page_at pm p)" if "p \<in> mask_pages r ?m" for p
    proof -
      have "unat (write_watchers (page_at pm p)) = ext p + of_bool (p \<notin> C)" using assms(2) by (simp add: counts_ok_def)
      moreover have "if track then p \<in> C else p \<notin> C" using that M unfolding mask_pages_bits by (cases track) auto
      ultimately show ?thesis using e [of p] by (cases track) (auto simp: shift_ok_def)
    qed
    then show ?thesis using UpdatePageWatchersForRegion_total [OF g assms(1) sz assms(3)] mask_some [OF sz False] False
      by (fastforce simp: UpdateCpuProtection_def Let_def)
  qed
qed

lemma gpu_sync:
  assumes "pages_ok pm" "counts_ok ext C G pm" "r < 2 ^ 18" "ba_size (rg_gpu_dirty rg) = 1024" "ba_size (rg_readable rg) = 1024"
    and "page_bits r (rg_readable rg) = region_pages r - G" "page_bits r (rg_gpu_dirty rg) = G1 \<inter> region_pages r"
    and "G - region_pages r = G1 - region_pages r" "if track then G \<subseteq> G1 else G1 \<subseteq> G"
  shows "UpdateGpuProtection ans track r (rg, pm) = Done (rg1, pm1) \<Longrightarrow>
      rg1 = rg\<lparr>rg_readable := ba_not (rg_gpu_dirty rg)\<rparr> \<and> pages_ok pm1 \<and> counts_ok ext C G1 pm1"
    and "grants ans \<Longrightarrow> UpdateGpuProtection ans track r (rg, pm) \<noteq> Exit"
proof -
  let ?n = "ba_not (rg_gpu_dirty rg)"
  let ?m = "ba_xor ?n (rg_readable rg)"
  have n: "ba_size ?n = 1024" using assms(4) by simp
  have sz: "ba_size ?m = 1024" using assms(4,5) by simp
  have M: "page_bits r ?m = (if track then G1 - G else G - G1)"
    using assms(6-9) unfolding page_bits_xor [OF n assms(5)] page_bits_not [OF assms(4)] by (cases track) auto
  show "rg1 = rg\<lparr>rg_readable := ?n\<rparr> \<and> pages_ok pm1 \<and> counts_ok ext C G1 pm1"
    if u: "UpdateGpuProtection ans track r (rg, pm) = Done (rg1, pm1)"
  proof (cases "ba_None ?m")
    case True
    then have "G = G1" using M assms(9) page_bits_None [OF sz, of r] by (cases track) auto
    then show ?thesis using u True assms(1,2) by (auto simp: UpdateGpuProtection_def Let_def)
  next
    case False
    then have w: "UpdatePageWatchersForRegion ans track True (r * TRACKER_REGION_SIZE) ?m pm = Done pm1"
      and rg1: "rg1 = rg\<lparr>rg_readable := ?n\<rparr>"
      using u by (auto simp: UpdateGpuProtection_def Let_def obind_eq_Done)
    have d: "watch_done track True (if track then G1 - G else G - G1) pm pm1"
      using UpdatePageWatchersForRegion_ok [OF assms(1) sz w] unfolding mask_pages_bits M .
    show ?thesis using rg1 gpu_counts [OF assms(2) d refl assms(9)] d by (simp add: watch_done_def)
  qed
  show "UpdateGpuProtection ans track r (rg, pm) \<noteq> Exit" if g: "grants ans"
  proof (cases "ba_None ?m")
    case True
    then show ?thesis by (simp add: UpdateGpuProtection_def Let_def)
  next
    case False
    have "shift_ok track True (page_at pm p)" if "p \<in> mask_pages r ?m" for p
    proof -
      have "(access_watchers (page_at pm p) \<noteq> 0) = (p \<in> G)" using assms(2) by (simp add: counts_ok_def)
      moreover have "if track then p \<notin> G else p \<in> G" using that M unfolding mask_pages_bits by (cases track) auto
      ultimately show ?thesis by (cases track) (auto simp: shift_ok_def)
    qed
    then show ?thesis using UpdatePageWatchersForRegion_total [OF g assms(1) sz assms(3)] mask_some [OF sz False] False
      by (fastforce simp: UpdateGpuProtection_def Let_def)
  qed
qed

section \<open>One region of the tracker\<close>

fun dirty_pages :: "DirtySource \<Rightarrow> MemoryTracker \<Rightarrow> nat set" where
  "dirty_pages CpuDirty t = cpu_pages t"
| "dirty_pages GpuDirty t = gpu_pages t"

definition put :: "nat \<Rightarrow> region_state \<Rightarrow> MemoryTracker \<Rightarrow> MemoryTracker" where
  "put r st t = t\<lparr>mt_regions := (mt_regions t)(r := Some (fst st)), mt_pages := snd st\<rparr>"

lemma put_pages:
  "cpu_pages (put r (rg, pm) t) = (cpu_pages t - region_pages r) \<union> page_bits r (rg_cpu_dirty rg)"
  "gpu_pages (put r (rg, pm) t) = (gpu_pages t - region_pages r) \<union> page_bits r (rg_gpu_dirty rg)"
  using page_bits_in by (auto simp: cpu_pages_def gpu_pages_def put_def)

lemma bits_of_tracker:
  "mt_regions t r = Some rg \<Longrightarrow> page_bits r (rg_cpu_dirty rg) = cpu_pages t \<inter> region_pages r"
  "mt_regions t r = Some rg \<Longrightarrow> page_bits r (rg_gpu_dirty rg) = gpu_pages t \<inter> region_pages r"
  by (auto simp: cpu_pages_def gpu_pages_def page_bits_def)

lemma dirty_bits: "mt_regions t r = Some rg \<Longrightarrow> page_bits r (GetBits source rg) = dirty_pages source t \<inter> region_pages r"
  by (cases source) (simp_all add: bits_of_tracker)

lemma put_inv:
  assumes "tracker_inv ext t" "pages_ok pm" "region_ok r rg" "counts_ok ext (cpu_pages (put r (rg, pm) t)) (gpu_pages (put r (rg, pm) t)) pm"
  shows "tracker_inv ext (put r (rg, pm) t)"
  using assms unfolding tracker_inv_def put_def by (auto split: if_splits)

text \<open>The pages that a piece of a region touches.\<close>

definition piece :: "nat \<Rightarrow> nat \<Rightarrow> nat \<Rightarrow> nat set" where
  "piece r offset bytes = region_window r (offset div 4096) ((offset + bytes + 4095) div 4096)"

definition piece_ok :: "nat \<Rightarrow> nat \<Rightarrow> bool" where
  "piece_ok offset bytes \<longleftrightarrow> 0 < bytes \<and> offset + bytes \<le> TRACKER_REGION_SIZE"

lemma GetPageRange_piece:
  assumes "piece_ok offset bytes"
  shows "GetPageRange r (r * TRACKER_REGION_SIZE + offset) bytes = Done (offset div 4096, (offset + bytes + 4095) div 4096)"
    and "offset div 4096 < (offset + bytes + 4095) div 4096" "(offset + bytes + 4095) div 4096 \<le> 1024"
proof -
  show "GetPageRange r (r * TRACKER_REGION_SIZE + offset) bytes = Done (offset div 4096, (offset + bytes + 4095) div 4096)"
    using assms by (auto simp: GetPageRange_def piece_ok_def TRACKER_PAGE_SIZE_def Let_def)
  have "offset + 4096 \<le> offset + bytes + 4095" using assms by (simp add: piece_ok_def)
  then have "(offset + 4096) div 4096 \<le> (offset + bytes + 4095) div 4096" by (rule div_le_mono)
  then show "offset div 4096 < (offset + bytes + 4095) div 4096" by simp
  have "offset + bytes + 4095 \<le> 4194304 + 4095" using assms by (simp add: piece_ok_def TRACKER_REGION_SIZE_def)
  then have "(offset + bytes + 4095) div 4096 \<le> (4194304 + 4095) div 4096" by (rule div_le_mono)
  then show "(offset + bytes + 4095) div 4096 \<le> 1024" by simp
qed

lemma piece_in: "piece_ok offset bytes \<Longrightarrow> piece r offset bytes \<subseteq> region_pages r"
  using in_window [OF GetPageRange_piece(3)] by (auto simp: piece_def)

lemma region_sizes: "region_ok r rg \<Longrightarrow> ba_size (GetBits source rg) = 1024"
  by (cases source) (simp_all add: region_ok_def)

lemma IsModified_piece:
  assumes "tracker_inv ext t" "mt_regions t r = Some rg" "piece_ok offset bytes"
  shows "IsModified source r offset bytes rg = Done (dirty_pages source t \<inter> piece r offset bytes \<noteq> {})"
proof -
  have "region_ok r rg" using assms(1,2) by (auto simp: tracker_inv_def)
  then have "ba_Any (ba_copy (GetBits source rg) (offset div 4096) ((offset + bytes + 4095) div 4096)) =
      (dirty_pages source t \<inter> piece r offset bytes \<noteq> {})"
    using page_bits_Any [OF region_sizes GetPageRange_piece(2,3) [OF assms(3)], of r rg source r] dirty_bits [OF assms(2), of source]
      piece_in [OF assms(3), of r] by (auto simp: piece_def)
  then show ?thesis by (simp add: IsModified_def GetPageRange_piece(1) [OF assms(3)])
qed

definition changed :: "(nat \<Rightarrow> nat) \<Rightarrow> DirtySource \<Rightarrow> bool \<Rightarrow> nat set \<Rightarrow> MemoryTracker \<Rightarrow> MemoryTracker \<Rightarrow> bool" where
  "changed ext source enable W t t1 \<longleftrightarrow> tracker_inv ext t1 \<and>
    dirty_pages source t1 = (if enable then dirty_pages source t \<union> W else dirty_pages source t - W) \<and>
    dirty_pages (other_source source) t1 = dirty_pages (other_source source) t"

text \<open>The common part of all changes: writing new bits and bringing the protection in line.\<close>

lemma write_bits:
  assumes inv: "tracker_inv ext t" and rg: "mt_regions t r = Some rg"
    and W: "W \<subseteq> region_pages r" and bs: "ba_size bs = 1024"
    and pb: "page_bits r bs = (if enable then dirty_pages source t \<union> W else dirty_pages source t - W) \<inter> region_pages r"
    and free: "enable \<Longrightarrow> W \<inter> dirty_pages (other_source source) t = {}"
  shows "(if source = CpuDirty then UpdateCpuProtection ans (\<not> enable) r (put_bits source bs rg, mt_pages t)
      else UpdateGpuProtection ans enable r (put_bits source bs rg, mt_pages t)) = Done st \<Longrightarrow> changed ext source enable W t (put r st t)"
    and "grants ans \<Longrightarrow> (\<And>p. ext p < 127) \<Longrightarrow>
      (if source = CpuDirty then UpdateCpuProtection ans (\<not> enable) r (put_bits source bs rg, mt_pages t)
      else UpdateGpuProtection ans enable r (put_bits source bs rg, mt_pages t)) \<noteq> Exit"
proof -
  have ok: "region_ok r rg" and pok: "pages_ok (mt_pages t)" and cok: "counts_ok ext (cpu_pages t) (gpu_pages t) (mt_pages t)"
    using inv rg by (auto simp: tracker_inv_def)
  note B = bits_of_tracker [OF rg]
  let ?D = "if enable then dirty_pages source t \<union> W else dirty_pages source t - W"
  have keep: "dirty_pages source t - region_pages r = ?D - region_pages r" using W by auto
  have mono: "if enable then dirty_pages source t \<subseteq> ?D else ?D \<subseteq> dirty_pages source t" by auto
  have disj: "cpu_pages t \<inter> gpu_pages t \<inter> region_pages r = {}" using ok B by (auto simp: region_ok_def)
  show "changed ext source enable W t (put r st t)"
    if u: "(if source = CpuDirty then UpdateCpuProtection ans (\<not> enable) r (put_bits source bs rg, mt_pages t)
      else UpdateGpuProtection ans enable r (put_bits source bs rg, mt_pages t)) = Done st"
  proof (cases source)
    case CpuDirty
    obtain rg1 pm1 where st: "st = (rg1, pm1)" by (cases st)
    have R: "rg1 = rg\<lparr>rg_cpu_dirty := bs, rg_writable := bs\<rparr>" "pages_ok pm1" "counts_ok ext ?D (gpu_pages t) pm1"
      using cpu_sync(1) [OF pok cok, of r "put_bits source bs rg" ?D "\<not> enable" ans rg1 pm1] u ok bs pb keep mono B
      by (auto simp: st CpuDirty region_ok_def split: if_splits)
    have P: "cpu_pages (put r st t) = ?D" "gpu_pages (put r st t) = gpu_pages t"
      using pb keep B W unfolding st put_pages R(1) by (auto simp: CpuDirty)
    have "region_ok r rg1" using ok bs pb B disj free R(1) by (auto simp: region_ok_def CpuDirty split: if_splits)
    then have "tracker_inv ext (put r st t)" using put_inv [OF inv R(2)] P R(3) unfolding st by simp
    then show ?thesis using P by (simp add: changed_def CpuDirty)
  next
    case GpuDirty
    obtain rg1 pm1 where st: "st = (rg1, pm1)" by (cases st)
    have R: "rg1 = rg\<lparr>rg_gpu_dirty := bs, rg_readable := ba_not bs\<rparr>" "pages_ok pm1" "counts_ok ext (cpu_pages t) ?D pm1"
      using gpu_sync(1) [OF pok cok, of r "put_bits source bs rg" ?D enable ans rg1 pm1] u ok bs pb keep mono B
      by (auto simp: st GpuDirty region_ok_def split: if_splits)
    have P: "gpu_pages (put r st t) = ?D" "cpu_pages (put r st t) = cpu_pages t"
      using pb keep B W unfolding st put_pages R(1) by (auto simp: GpuDirty)
    have "region_ok r rg1" using ok bs pb B disj free R(1)
      by (auto simp: region_ok_def GpuDirty page_bits_not [OF bs] split: if_splits)
    then have "tracker_inv ext (put r st t)" using put_inv [OF inv R(2)] P R(3) unfolding st by simp
    then show ?thesis using P by (simp add: changed_def GpuDirty)
  qed
  show "(if source = CpuDirty then UpdateCpuProtection ans (\<not> enable) r (put_bits source bs rg, mt_pages t)
      else UpdateGpuProtection ans enable r (put_bits source bs rg, mt_pages t)) \<noteq> Exit"
    if g: "grants ans" and e: "\<And>p. ext p < 127"
  proof (cases source)
    case CpuDirty
    then show ?thesis
      using cpu_sync(2) [OF pok cok, of r "put_bits source bs rg" ?D "\<not> enable" ans] ok bs pb keep mono B g e
      by (auto simp: region_ok_def split: if_splits)
  next
    case GpuDirty
    then show ?thesis
      using gpu_sync(2) [OF pok cok, of r "put_bits source bs rg" ?D enable ans] ok bs pb keep mono B g
      by (auto simp: region_ok_def split: if_splits)
  qed
qed

lemma ChangeState_piece:
  assumes inv: "tracker_inv ext t" and rg: "mt_regions t r = Some rg" and p: "piece_ok offset bytes"
  shows "ChangeState ans source enable r (r * TRACKER_REGION_SIZE + offset) bytes (rg, mt_pages t) = Done st \<Longrightarrow>
      changed ext source enable (piece r offset bytes) t (put r st t) \<and>
      (enable \<longrightarrow> piece r offset bytes \<inter> dirty_pages (other_source source) t = {})"
    and "grants ans \<Longrightarrow> (\<And>p. ext p < 127) \<Longrightarrow> (enable \<Longrightarrow> piece r offset bytes \<inter> dirty_pages (other_source source) t = {}) \<Longrightarrow>
      ChangeState ans source enable r (r * TRACKER_REGION_SIZE + offset) bytes (rg, mt_pages t) \<noteq> Exit"
proof -
  let ?W = "piece r offset bytes" and ?s = "offset div 4096" and ?e = "(offset + bytes + 4095) div 4096"
  let ?bs = "if enable then ba_SetRange (GetBits source rg) ?s ?e else ba_UnsetRange (GetBits source rg) ?s ?e"
  have sz: "ba_size (GetBits s rg) = 1024" for s using inv rg by (auto simp: tracker_inv_def intro: region_sizes)
  note P = GetPageRange_piece(2,3) [OF p]
  have any: "ba_Any (ba_copy (GetBits (other_source source) rg) ?s ?e) \<longleftrightarrow> ?W \<inter> dirty_pages (other_source source) t \<noteq> {}"
    using page_bits_Any [OF sz [of "other_source source"] P, of r] dirty_bits [OF rg, of "other_source source"] piece_in [OF p, of r] by (auto simp: piece_def)
  have bs: "ba_size ?bs = 1024" using sz [of source] by simp
  have pb: "page_bits r ?bs = (if enable then dirty_pages source t \<union> ?W else dirty_pages source t - ?W) \<inter> region_pages r"
    using page_bits_ops(1,2) [OF sz [of source] P, of r] dirty_bits [OF rg, of source] piece_in [OF p, of r] by (auto simp: piece_def)
  have C: "ChangeState ans source enable r (r * TRACKER_REGION_SIZE + offset) bytes (rg, mt_pages t) =
    (if enable \<and> ?W \<inter> dirty_pages (other_source source) t \<noteq> {} then Exit
     else if source = CpuDirty then UpdateCpuProtection ans (\<not> enable) r (put_bits source ?bs rg, mt_pages t)
     else UpdateGpuProtection ans enable r (put_bits source ?bs rg, mt_pages t))"
    unfolding ChangeState_def GetPageRange_piece(1) [OF p] obind.simps prod.case any Let_def by (cases enable) simp_all
  show "changed ext source enable ?W t (put r st t) \<and> (enable \<longrightarrow> ?W \<inter> dirty_pages (other_source source) t = {})"
    if "ChangeState ans source enable r (r * TRACKER_REGION_SIZE + offset) bytes (rg, mt_pages t) = Done st"
    using write_bits(1) [OF inv rg piece_in [OF p] bs pb] that unfolding C by (auto split: if_splits)
  show "ChangeState ans source enable r (r * TRACKER_REGION_SIZE + offset) bytes (rg, mt_pages t) \<noteq> Exit"
    if "grants ans" "\<And>p. ext p < 127" "enable \<Longrightarrow> ?W \<inter> dirty_pages (other_source source) t = {}"
    using write_bits(2) [OF inv rg piece_in [OF p] bs pb _ that(1,2)] that(3) unfolding C by (auto split: if_splits)
qed

text \<open>Ranges of addresses that are whole pages, in order.\<close>

definition range_pages :: "(nat \<times> nat) list \<Rightarrow> nat set" where
  "range_pages rs = (\<Union>(a, z) \<in> set rs. {a div 4096..<(a + z) div 4096})"

definition ranges_ok :: "nat \<Rightarrow> nat \<Rightarrow> (nat \<times> nat) list \<Rightarrow> bool" where
  "ranges_ok lo hi rs \<longleftrightarrow> sorted_wrt (\<lambda>(a, z) (b, y). a + z \<le> b) rs \<and>
    list_all (\<lambda>(a, z). lo \<le> a \<and> a + z \<le> hi \<and> 0 < z \<and> 4096 dvd a \<and> 4096 dvd z) rs"

lemma region_ranges_ok:
  assumes "ba_size bs = 1024"
  shows "range_pages (region_ranges r bs) = page_bits r bs \<and>
    ranges_ok (r * TRACKER_REGION_SIZE) ((r + 1) * TRACKER_REGION_SIZE) (region_ranges r bs)"
proof -
  obtain rs where rs: "ba_ranges bs = Some rs" "sorted_wrt (\<lambda>r q. snd r < fst q) rs"
    "(\<Union>(a, b) \<in> set rs. {a..<b}) = {i. i < 1024 \<and> bits_of bs ! i}"
    "\<And>a b. (a, b) \<in> set rs \<Longrightarrow> a < b \<and> b \<le> 1024"
    using ba_iterate_runs [of 0 bs "ba_size bs"] assms unfolding ba_ranges_def by fastforce
  let ?f = "\<lambda>(s, e). (r * TRACKER_REGION_SIZE + s * TRACKER_PAGE_SIZE, (e - s) * TRACKER_PAGE_SIZE)"
  have R: "region_ranges r bs = map ?f rs" by (simp add: region_ranges_def rs(1))
  have one: "{fst (?f (s, e)) div 4096..<(fst (?f (s, e)) + snd (?f (s, e))) div 4096} = {r * 1024 + s..<r * 1024 + e}"
    if "s < e" for s e
  proof -
    have "r * 4194304 + s * 4096 = (r * 1024 + s) * 4096" "r * 4194304 + s * 4096 + (e - s) * 4096 = (r * 1024 + e) * 4096"
      using that by (simp_all add: diff_mult_distrib)
    then have "(r * 4194304 + s * 4096) div 4096 = r * 1024 + s" "(r * 4194304 + s * 4096 + (e - s) * 4096) div 4096 = r * 1024 + e"
      by (simp_all only: nonzero_mult_div_cancel_right)
    moreover have "TRACKER_REGION_SIZE = 4194304" "TRACKER_PAGE_SIZE = 4096" by (simp_all add: tracker_sizes)
    ultimately show ?thesis by (simp only: prod.case fst_conv snd_conv)
  qed
  have "range_pages (region_ranges r bs) = (\<Union>(s, e) \<in> set rs. {r * 1024 + s..<r * 1024 + e})"
    unfolding R range_pages_def using one rs(4) by (auto 4 4 simp: split_beta)
  also have "\<dots> = (+) (r * 1024) ` (\<Union>(a, b) \<in> set rs. {a..<b})" by (auto simp: image_UN image_add_atLeastLessThan)
  also have "\<dots> = page_bits r bs"
  proof (rule set_eqI)
    fix p show "p \<in> (+) (r * 1024) ` (\<Union>(a, b) \<in> set rs. {a..<b}) \<longleftrightarrow> p \<in> page_bits r bs"
      unfolding rs(3) page_bits_def using page_split [of p r] by force
  qed
  finally have 1: "range_pages (region_ranges r bs) = page_bits r bs" .
  have b: "r * 4194304 + s * 4096 + (e - s) * 4096 = r * 4194304 + e * 4096" if "s < e" for s e
    using that by (simp add: diff_mult_distrib)
  have "sorted_wrt (\<lambda>(a, z) (b, y). a + z \<le> b) (map ?f rs)"
    unfolding sorted_wrt_map
    using rs(2)
  proof (rule sorted_wrt_mono_rel [rotated])
    fix x y assume xy: "x \<in> set rs" "y \<in> set rs" "snd x < fst y"
    obtain s e s' e' where p: "x = (s, e)" "y = (s', e')" by fastforce
    then have "s < e" "e < s'" using xy rs(4) [of s e] by auto
    then show "(\<lambda>(a, z) (b, y). a + z \<le> b) (?f x) (?f y)"
      using b [of s e] unfolding p by (simp add: TRACKER_REGION_SIZE_def TRACKER_PAGE_SIZE_def)
  qed
  moreover have "list_all (\<lambda>(a, z). r * TRACKER_REGION_SIZE \<le> a \<and> a + z \<le> (r + 1) * TRACKER_REGION_SIZE \<and> 0 < z \<and> 4096 dvd a \<and> 4096 dvd z) (map ?f rs)"
    unfolding list_all_iff
  proof
    fix x assume "x \<in> set (map ?f rs)"
    then obtain s e where x: "x = ?f (s, e)" "(s, e) \<in> set rs" by auto
    then show "case x of (a, z) \<Rightarrow> r * TRACKER_REGION_SIZE \<le> a \<and> a + z \<le> (r + 1) * TRACKER_REGION_SIZE \<and> 0 < z \<and> 4096 dvd a \<and> 4096 dvd z"
      using rs(4) [of s e] b [of s e] by (simp add: TRACKER_REGION_SIZE_def TRACKER_PAGE_SIZE_def)
  qed
  ultimately show ?thesis using 1 unfolding R ranges_ok_def by blast
qed

lemma ForEachModifiedRange_piece:
  assumes inv: "tracker_inv ext t" and rg: "mt_regions t r = Some rg" and p: "piece_ok offset bytes"
  shows "ForEachModifiedRange ans source clear r (r * TRACKER_REGION_SIZE + offset) bytes (rg, mt_pages t) = Done (rs, st) \<Longrightarrow>
      (if clear then changed ext source False (piece r offset bytes) t (put r st t) else st = (rg, mt_pages t)) \<and>
      range_pages rs = dirty_pages source t \<inter> piece r offset bytes \<and>
      ranges_ok (r * TRACKER_REGION_SIZE) ((r + 1) * TRACKER_REGION_SIZE) rs"
    and "grants ans \<Longrightarrow> (\<And>p. ext p < 127) \<Longrightarrow>
      ForEachModifiedRange ans source clear r (r * TRACKER_REGION_SIZE + offset) bytes (rg, mt_pages t) \<noteq> Exit"
proof -
  let ?W = "piece r offset bytes" and ?s = "offset div 4096" and ?e = "(offset + bytes + 4095) div 4096"
  let ?bs = "ba_UnsetRange (GetBits source rg) ?s ?e" and ?m = "ba_copy (GetBits source rg) ?s ?e"
  have sz: "ba_size (GetBits source rg) = 1024" using inv rg by (auto simp: tracker_inv_def intro: region_sizes)
  note P = GetPageRange_piece(2,3) [OF p]
  have bs: "ba_size ?bs = 1024" using sz by simp
  have pb: "page_bits r ?bs = (if False then dirty_pages source t \<union> ?W else dirty_pages source t - ?W) \<inter> region_pages r"
    using page_bits_ops(2) [OF sz P, of r] dirty_bits [OF rg, of source] piece_in [OF p, of r] by (auto simp: piece_def)
  have m: "page_bits r ?m = dirty_pages source t \<inter> ?W"
    using page_bits_ops(3) [OF sz P, of r] dirty_bits [OF rg, of source] piece_in [OF p, of r] by (auto simp: piece_def)
  let ?u = "if source = CpuDirty then UpdateCpuProtection ans (\<not> False) r (put_bits source ?bs rg, mt_pages t)
     else UpdateGpuProtection ans False r (put_bits source ?bs rg, mt_pages t)"
  have C: "ForEachModifiedRange ans source clear r (r * TRACKER_REGION_SIZE + offset) bytes (rg, mt_pages t) =
    (if \<not> clear then Done (region_ranges r ?m, (rg, mt_pages t)) else obind ?u (\<lambda>st1. Done (region_ranges r ?m, st1)))"
    unfolding ForEachModifiedRange_def GetPageRange_piece(1) [OF p] obind.simps prod.case Let_def by (cases clear) simp_all
  have R: "range_pages (region_ranges r ?m) = dirty_pages source t \<inter> ?W"
    "ranges_ok (r * TRACKER_REGION_SIZE) ((r + 1) * TRACKER_REGION_SIZE) (region_ranges r ?m)"
    using region_ranges_ok [of ?m r] sz m by simp_all
  show "(if clear then changed ext source False ?W t (put r st t) else st = (rg, mt_pages t)) \<and>
      range_pages rs = dirty_pages source t \<inter> ?W \<and> ranges_ok (r * TRACKER_REGION_SIZE) ((r + 1) * TRACKER_REGION_SIZE) rs"
    if d: "ForEachModifiedRange ans source clear r (r * TRACKER_REGION_SIZE + offset) bytes (rg, mt_pages t) = Done (rs, st)"
  proof (cases clear)
    case True
    then have "?u = Done st" "rs = region_ranges r ?m" using d unfolding C by (auto simp: obind_eq_Done simp del: if_split)
    then show ?thesis using write_bits(1) [OF inv rg piece_in [OF p] bs pb] True R by simp
  next
    case False
    then show ?thesis using d R unfolding C by simp
  qed
  show "ForEachModifiedRange ans source clear r (r * TRACKER_REGION_SIZE + offset) bytes (rg, mt_pages t) \<noteq> Exit"
    if g: "grants ans" and e: "\<And>p. ext p < 127"
  proof (cases clear)
    case True
    have "?u \<noteq> Exit" using write_bits(2) [OF inv rg piece_in [OF p] bs pb _ g e] by simp
    then show ?thesis unfolding C using True by (cases ?u) simp_all
  next
    case False
    then show ?thesis unfolding C by simp
  qed
qed

section \<open>The loop over the regions\<close>

definition touched :: "nat \<Rightarrow> nat \<Rightarrow> nat set" where
  "touched vaddr sz = {vaddr div 4096..<(vaddr + sz + 4095) div 4096}"

lemma region_offset: "(i * TRACKER_REGION_SIZE + n) div 4096 = i * 1024 + n div 4096"
proof -
  have "i * TRACKER_REGION_SIZE = i * 1024 * 4096" by (simp add: TRACKER_REGION_SIZE_def)
  then show ?thesis by (simp only: div_mult_self3 [of 4096] zero_neq_numeral not_False_eq_True add.commute [of "i * 1024 * 4096"])
qed

lemma piece_touched: "piece r offset bytes = touched (r * TRACKER_REGION_SIZE + offset) bytes"
  using region_offset [of r offset] region_offset [of r "offset + bytes + 4095"]
  by (simp add: piece_def region_window_def touched_def add.assoc)

lemma touched_split:
  assumes "offset < TRACKER_REGION_SIZE" "TRACKER_REGION_SIZE - offset < n"
  shows "touched (i * TRACKER_REGION_SIZE + offset) n =
    piece i offset (TRACKER_REGION_SIZE - offset) \<union> touched ((i + 1) * TRACKER_REGION_SIZE) (n - (TRACKER_REGION_SIZE - offset))"
proof -
  let ?b = "TRACKER_REGION_SIZE - offset"
  have e: "(i + 1) * TRACKER_REGION_SIZE + (n - ?b) = i * TRACKER_REGION_SIZE + offset + n" using assms by simp
  have l: "(offset + ?b + 4095) div 4096 = 1024" using assms(1) by (simp add: TRACKER_REGION_SIZE_def)
  have "piece i offset ?b = {i * 1024 + offset div 4096..<(i + 1) * 1024}"
    unfolding piece_def region_window_def l by (simp add: algebra_simps)
  moreover have "touched ((i + 1) * TRACKER_REGION_SIZE) (n - ?b) = {(i + 1) * 1024..<(i * TRACKER_REGION_SIZE + offset + n + 4095) div 4096}"
    unfolding touched_def e [symmetric] using region_offset [of "i + 1" 0] by simp
  moreover have "(i + 1) * TRACKER_REGION_SIZE div 4096 \<le> (i * TRACKER_REGION_SIZE + offset + n + 4095) div 4096"
    using assms by (intro div_le_mono) simp
  moreover have "offset div 4096 \<le> TRACKER_REGION_SIZE div 4096" using assms(1) by (intro div_le_mono) simp
  ultimately show ?thesis
    using region_offset [of i offset] region_offset [of "i + 1" 0]
    by (simp add: touched_def ivl_disj_un_two(3) TRACKER_REGION_SIZE_def)
qed

text \<open>
  A rule for loops: \<open>I\<close> holds after the pages \<open>W\<close> have been handled, \<open>S\<close> when the loop ends early, and \<open>E\<close>
  says that the process may end.
\<close>

lemma Iterate_loop_rule:
  assumes step: "\<And>W r off bytes t a. I W t a \<Longrightarrow> piece_ok off bytes \<Longrightarrow> r < 2 ^ 18 \<Longrightarrow> W \<union> piece r off bytes \<subseteq> T \<Longrightarrow>
      (\<forall>p \<in> W. p < r * 1024) \<Longrightarrow>
      (case visit create f (r, off, bytes) t a of
         Exit \<Rightarrow> E | Done (stop, t1, a1) \<Rightarrow> if stop then S t1 a1 else I (W \<union> piece r off bytes) t1 a1)"
    and "I W t a" "off < TRACKER_REGION_SIZE" "i * TRACKER_REGION_SIZE + off + n \<le> TRACKER_ADDRESS_SIZE"
    and "n \<noteq> 0 \<Longrightarrow> W \<union> touched (i * TRACKER_REGION_SIZE + off) n = T" "n = 0 \<Longrightarrow> W = T" "\<forall>p \<in> W. p < i * 1024"
  shows "case Iterate_loop create f i off n t a of Exit \<Rightarrow> E | Done (stop, t1, a1) \<Rightarrow> if stop then S t1 a1 else I T t1 a1"
  using assms(2-)
proof (induction n arbitrary: W i off t a rule: less_induct)
  case (less n)
  show ?case
  proof (cases "n = 0")
    case True
    then show ?thesis using less.prems by (subst Iterate_loop.simps) simp
  next
    case False
    let ?b = "min (TRACKER_REGION_SIZE - off) n"
    have b: "piece_ok off ?b" "0 < ?b" "?b \<le> n" using False less.prems(2) by (auto simp: piece_ok_def)
    have i: "i < 2 ^ 18" using less.prems(3) False by (simp add: TRACKER_REGION_SIZE_def TRACKER_ADDRESS_SIZE_def)
    have T: "W \<union> touched (i * TRACKER_REGION_SIZE + off) n = T" using less.prems(4) False .
    have sp: "touched (i * TRACKER_REGION_SIZE + off) n =
        piece i off ?b \<union> (if ?b = n then {} else touched ((i + 1) * TRACKER_REGION_SIZE) (n - ?b))"
      using touched_split [OF less.prems(2), of n i] by (auto simp: min_def piece_touched)
    have sub: "W \<union> piece i off ?b \<subseteq> T" using T sp by auto
    note st = step [OF less.prems(1) b(1) i sub less.prems(6)]
    show ?thesis
    proof (cases "visit create f (i, off, ?b) t a")
      case Exit
      then show ?thesis using st False by (subst Iterate_loop.simps) (simp add: Let_def)
    next
      case (Done x)
      obtain stop t1 a1 where x: "x = (stop, t1, a1)" by (cases x)
      have u: "Iterate_loop create f i off n t a = (if stop then Done (True, t1, a1) else Iterate_loop create f (i + 1) 0 (n - ?b) t1 a1)"
        using False Done x by (subst Iterate_loop.simps) (simp add: Let_def)
      show ?thesis
      proof (cases stop)
        case True
        then show ?thesis using st Done x u by simp
      next
        case ns: False
        have "case Iterate_loop create f (i + 1) 0 (n - ?b) t1 a1 of
            Exit \<Rightarrow> E | Done (stop, t1, a1) \<Rightarrow> if stop then S t1 a1 else I T t1 a1"
        proof (rule less.IH)
          show "n - ?b < n" using b(2) False by linarith
          show "I (W \<union> piece i off ?b) t1 a1" using st Done x ns by simp
          show "(i + 1) * TRACKER_REGION_SIZE + 0 + (n - ?b) \<le> TRACKER_ADDRESS_SIZE"
            using less.prems(2,3) i by (cases "n \<le> TRACKER_REGION_SIZE - off")
              (auto simp: min_def TRACKER_REGION_SIZE_def TRACKER_ADDRESS_SIZE_def)
          show "W \<union> piece i off ?b \<union> touched ((i + 1) * TRACKER_REGION_SIZE + 0) (n - ?b) = T" if "n - ?b \<noteq> 0"
            using T sp that by auto
          show "W \<union> piece i off ?b = T" if "n - ?b = 0"
            using T sp that b(3) by auto
          show "\<forall>p \<in> W \<union> piece i off ?b. p < (i + 1) * 1024"
            using less.prems(6) piece_in [OF b(1), of i] by (auto simp: div_less_iff_less_mult)
        qed (simp add: TRACKER_REGION_SIZE_def)
        then show ?thesis using u ns by simp
      qed
    qed
  qed
qed

lemma Iterate_rule:
  assumes "\<And>W r off bytes t a. I W t a \<Longrightarrow> piece_ok off bytes \<Longrightarrow> r < 2 ^ 18 \<Longrightarrow> W \<union> piece r off bytes \<subseteq> touched vaddr sz \<Longrightarrow>
      (\<forall>p \<in> W. p < r * 1024) \<Longrightarrow>
      (case visit create f (r, off, bytes) t a of
         Exit \<Rightarrow> E | Done (stop, t1, a1) \<Rightarrow> if stop then S t1 a1 else I (W \<union> piece r off bytes) t1 a1)"
    and "tracker_range_ok vaddr sz" "I {} t a"
  shows "case Iterate create f vaddr sz t a of Exit \<Rightarrow> E | Done (stop, t1, a1) \<Rightarrow> if stop then S t1 a1 else I (touched vaddr sz) t1 a1"
proof -
  have d: "vaddr div TRACKER_REGION_SIZE * TRACKER_REGION_SIZE + vaddr mod TRACKER_REGION_SIZE = vaddr" by simp
  have "case Iterate_loop create f (vaddr div TRACKER_REGION_SIZE) (vaddr mod TRACKER_REGION_SIZE) sz t a of
      Exit \<Rightarrow> E | Done (stop, t1, a1) \<Rightarrow> if stop then S t1 a1 else I (touched vaddr sz) t1 a1"
    by (rule Iterate_loop_rule [where I = I and W = "{}" and T = "touched vaddr sz", OF assms(1) assms(3)])
      (use assms(2) in \<open>auto simp: d tracker_range_ok_def TRACKER_REGION_SIZE_def\<close>)
  then show ?thesis using assms(2) by (simp add: Iterate_def)
qed

section \<open>One visit\<close>

definition same :: "(nat \<Rightarrow> nat) \<Rightarrow> MemoryTracker \<Rightarrow> MemoryTracker \<Rightarrow> bool" where
  "same ext t t1 \<longleftrightarrow> tracker_inv ext t1 \<and> cpu_pages t1 = cpu_pages t \<and> gpu_pages t1 = gpu_pages t"

text \<open>The only reasons for a change to end the process other than a conflict of the two sources.\<close>

definition may_end :: "protect_answer \<Rightarrow> (nat \<Rightarrow> nat) \<Rightarrow> bool" where
  "may_end ans ext \<longleftrightarrow> \<not> grants ans \<or> (\<exists>p. 127 \<le> ext p)"

lemma not_may_end: "\<not> may_end ans ext \<longleftrightarrow> grants ans \<and> (\<forall>p. ext p < 127)"
  by (auto simp: may_end_def not_le)

lemma new_region_ok: "r < 2 ^ 18 \<Longrightarrow> region_ok r new_region \<and> page_bits r (rg_cpu_dirty new_region) = region_pages r \<and>
    page_bits r (rg_gpu_dirty new_region) = {}"
proof -
  have z: "ba_size (replicate 16 0) = 1024" by (simp add: ba_size_def)
  have f: "page_bits r (ba_Fill (replicate 16 0)) = region_pages r" "page_bits r (replicate 16 0) = {}"
    using bits_const [of "replicate 16 0"] z by (auto simp: page_bits_def ba_Clear_def)
  have s: "ba_size (ba_Fill (replicate 16 0)) = 1024" by (simp add: ba_size_def ba_Fill_def)
  assume "r < 2 ^ 18"
  then show ?thesis using f s z by (simp add: region_ok_def new_region_def tracker_sizes Let_def)
qed

lemma create_same:
  assumes "tracker_inv ext t" "r < 2 ^ 18"
  shows "same ext t (mt_GetOrCreateRegion r t) \<and> mt_regions (mt_GetOrCreateRegion r t) r \<noteq> None"
proof (cases "mt_regions t r")
  case None
  let ?t1 = "put r (new_region, mt_pages t) t"
  have e: "mt_GetOrCreateRegion r t = ?t1" by (simp add: mt_GetOrCreateRegion_def None put_def)
  have "cpu_pages ?t1 = cpu_pages t" "gpu_pages ?t1 = gpu_pages t"
    using None new_region_ok [OF assms(2)] unfolding put_pages by (auto simp: cpu_pages_def gpu_pages_def)
  moreover from this have "tracker_inv ext ?t1"
    using assms new_region_ok [OF assms(2)] by (intro put_inv) (auto simp: tracker_inv_def)
  ultimately show ?thesis unfolding e by (simp add: same_def put_def)
next
  case Some
  then show ?thesis using assms by (simp add: mt_GetOrCreateRegion_def same_def)
qed

lemma visit_cases:
  assumes "tracker_inv ext t" "r < 2 ^ 18"
  obtains t1 where "same ext t t1" "create \<longrightarrow> mt_regions t1 r \<noteq> None" "\<not> create \<longrightarrow> t1 = t" "\<And>rg. mt_regions t r = Some rg \<Longrightarrow> t1 = t"
    "mt_regions t1 r = None \<Longrightarrow> visit create f (r, off, bytes) t a = Done (False, t1, a)"
    "\<And>rg. mt_regions t1 r = Some rg \<Longrightarrow> visit create f (r, off, bytes) t a =
       obind (f r off bytes (rg, mt_pages t1) a) (\<lambda>(stop, st, a1). Done (stop, put r st t1, a1))"
proof
  let ?t1 = "if create then mt_GetOrCreateRegion r t else t"
  show "same ext t ?t1" "create \<longrightarrow> mt_regions ?t1 r \<noteq> None" "\<not> create \<longrightarrow> ?t1 = t"
    using create_same [OF assms] assms(1) by (auto simp: same_def)
  show "mt_regions ?t1 r = None \<Longrightarrow> visit create f (r, off, bytes) t a = Done (False, ?t1, a)"
    by (simp add: visit_def Let_def)
  show "mt_regions t r = Some rg \<Longrightarrow> ?t1 = t" for rg by (simp add: mt_GetOrCreateRegion_def)
  show "visit create f (r, off, bytes) t a = obind (f r off bytes (rg, mt_pages ?t1) a) (\<lambda>(stop, st, a1). Done (stop, put r st ?t1, a1))"
    if "mt_regions ?t1 r = Some rg" for rg
    unfolding visit_def Let_def prod.case that option.case
    by (cases "f r off bytes (rg, mt_pages ?t1) a") (simp_all add: put_def split: prod.splits)
qed

text \<open>A region that does not exist counts as modified by the CPU.\<close>

lemma absent_pages: "mt_regions t r = None \<Longrightarrow> region_pages r \<subseteq> cpu_pages t \<and> region_pages r \<inter> gpu_pages t = {}"
  by (auto simp: cpu_pages_def gpu_pages_def)

lemma same_dirty: "same ext t t1 \<Longrightarrow> dirty_pages source t1 = dirty_pages source t"
  by (cases source) (simp_all add: same_def)

lemma same_changed: "same ext t t1 \<Longrightarrow> changed ext source enable W t1 t2 \<Longrightarrow> changed ext source enable W t t2"
  by (simp add: changed_def same_dirty)

lemma visit_change:
  assumes "tracker_inv ext t" "r < 2 ^ 18" "piece_ok off bytes"
  shows "case visit create (change ans source enable) (r, off, bytes) t () of
      Exit \<Rightarrow> may_end ans ext \<or> (enable \<and> piece r off bytes \<inter> dirty_pages (other_source source) t \<noteq> {})
    | Done (stop, t1, _) \<Rightarrow> \<not> stop \<and>
        (if create \<or> mt_regions t r \<noteq> None \<or> (source = CpuDirty) = enable
         then changed ext source enable (piece r off bytes) t t1 \<and> (enable \<longrightarrow> piece r off bytes \<inter> dirty_pages (other_source source) t = {})
         else same ext t t1)"
proof (rule visit_cases [OF assms(1,2), of create "change ans source enable" off bytes "()"])
  fix t1
  assume s: "same ext t t1" "create \<longrightarrow> mt_regions t1 r \<noteq> None" "\<not> create \<longrightarrow> t1 = t"
    and n: "mt_regions t1 r = None \<Longrightarrow> visit create (change ans source enable) (r, off, bytes) t () = Done (False, t1, ())"
    and v: "\<And>rg. mt_regions t1 r = Some rg \<Longrightarrow> visit create (change ans source enable) (r, off, bytes) t () =
       obind (change ans source enable r off bytes (rg, mt_pages t1) ()) (\<lambda>(stop, st, a1). Done (stop, put r st t1, a1))"
  note sd = same_dirty [OF s(1)]
  show ?thesis
  proof (cases "mt_regions t1 r")
    case None
    then have "\<not> create" "t1 = t" "mt_regions t r = None" using s by auto
    moreover from this have "changed ext source enable (piece r off bytes) t t \<and>
        (enable \<longrightarrow> piece r off bytes \<inter> dirty_pages (other_source source) t = {})" if "(source = CpuDirty) = enable"
      using absent_pages [of t r] piece_in [OF assms(3), of r] assms(1) that by (cases source; auto simp: changed_def)
    moreover have "visit create (change ans source enable) (r, off, bytes) t () = Done (False, t1, ())" by (rule n [OF None])
    ultimately show ?thesis using assms(1) by (simp add: same_def)
  next
    case (Some rg)
    have i: "tracker_inv ext t1" using s(1) by (simp add: same_def)
    note C = ChangeState_piece [OF i Some assms(3), where ans = ans and source = source and enable = enable]
    show ?thesis
    proof (cases "ChangeState ans source enable r (r * TRACKER_REGION_SIZE + off) bytes (rg, mt_pages t1)")
      case Exit
      have "may_end ans ext \<or> (enable \<and> piece r off bytes \<inter> dirty_pages (other_source source) t \<noteq> {})"
      proof (rule ccontr)
        assume "\<not> (may_end ans ext \<or> (enable \<and> piece r off bytes \<inter> dirty_pages (other_source source) t \<noteq> {}))"
        then show False using C(2) Exit unfolding sd de_Morgan_disj not_may_end by blast
      qed
      then show ?thesis using v [OF Some] Exit by (simp add: change_def)
    next
      case (Done st)
      moreover have "create \<or> mt_regions t r \<noteq> None" using Some s(3) by auto
      ultimately show ?thesis using v [OF Some] C(1) [OF Done] same_changed [OF s(1)] unfolding sd
        by (auto simp: change_def)
    qed
  qed
qed

lemma visit_ask:
  assumes "tracker_inv ext t" "r < 2 ^ 18" "piece_ok off bytes" "source = GpuDirty \<or> create \<or> mt_regions t r \<noteq> None"
  shows "\<exists>t1. visit create (ask source) (r, off, bytes) t () = Done (dirty_pages source t \<inter> piece r off bytes \<noteq> {}, t1, ()) \<and>
    same ext t t1 \<and> (create \<or> t1 = t)"
proof (rule visit_cases [OF assms(1,2), of create "ask source" off bytes "()"])
  fix t1
  assume s: "same ext t t1" "create \<longrightarrow> mt_regions t1 r \<noteq> None" "\<not> create \<longrightarrow> t1 = t" "\<And>rg. mt_regions t r = Some rg \<Longrightarrow> t1 = t"
    and n: "mt_regions t1 r = None \<Longrightarrow> visit create (ask source) (r, off, bytes) t () = Done (False, t1, ())"
    and v: "\<And>rg. mt_regions t1 r = Some rg \<Longrightarrow> visit create (ask source) (r, off, bytes) t () =
       obind (ask source r off bytes (rg, mt_pages t1) ()) (\<lambda>(stop, st, a1). Done (stop, put r st t1, a1))"
  show ?thesis
  proof (cases "mt_regions t1 r")
    case None
    then have z: "\<not> create" "t1 = t" "mt_regions t r = None" using s by auto
    then have "dirty_pages source t \<inter> piece r off bytes = {}"
      using assms(4) absent_pages [of t r] piece_in [OF assms(3), of r] by auto
    then show ?thesis using n [OF None] z assms(1) by (auto simp: same_def)
  next
    case (Some rg)
    have i: "tracker_inv ext t1" using s(1) by (simp add: same_def)
    have "put r (rg, mt_pages t1) t1 = t1" using Some by (simp add: put_def fun_upd_idem)
    then show ?thesis using v [OF Some] IsModified_piece [OF i Some assms(3), of source] s same_dirty [OF s(1), of source]
      by (auto simp: ask_def)
  qed
qed

lemma visit_each:
  assumes "tracker_inv ext t" "r < 2 ^ 18" "piece_ok off bytes" "source = GpuDirty \<or> mt_regions t r \<noteq> None"
  shows "case visit False (each_range ans source clear) (r, off, bytes) t rs of
      Exit \<Rightarrow> clear \<and> may_end ans ext
    | Done (stop, t1, rs1) \<Rightarrow> \<not> stop \<and> (if clear then changed ext source False (piece r off bytes) t t1 else t1 = t) \<and>
        (\<forall>k. mt_regions t1 k = None \<longleftrightarrow> mt_regions t k = None) \<and>
        (\<exists>qs. rs1 = rs @ qs \<and> range_pages qs = dirty_pages source t \<inter> piece r off bytes \<and>
          ranges_ok (r * TRACKER_REGION_SIZE) ((r + 1) * TRACKER_REGION_SIZE) qs)"
proof (rule visit_cases [OF assms(1,2), of False "each_range ans source clear" off bytes rs])
  fix t1
  assume s: "\<not> False \<longrightarrow> t1 = t"
    and n: "mt_regions t1 r = None \<Longrightarrow> visit False (each_range ans source clear) (r, off, bytes) t rs = Done (False, t1, rs)"
    and v: "\<And>rg. mt_regions t1 r = Some rg \<Longrightarrow> visit False (each_range ans source clear) (r, off, bytes) t rs =
       obind (each_range ans source clear r off bytes (rg, mt_pages t1) rs) (\<lambda>(stop, st, a1). Done (stop, put r st t1, a1))"
  have t1: "t1 = t" using s by simp
  show ?thesis
  proof (cases "mt_regions t r")
    case None
    then have g: "source = GpuDirty" using assms(4) by simp
    have "gpu_pages t \<inter> piece r off bytes = {}"
      using absent_pages [OF None] piece_in [OF assms(3), of r] by auto
    moreover have "changed ext GpuDirty False (piece r off bytes) t t" using calculation assms(1) by (auto simp: changed_def)
    moreover have "range_pages [] = {}" "ranges_ok lo hi []" for lo hi by (simp_all add: range_pages_def ranges_ok_def)
    moreover have "visit False (each_range ans source clear) (r, off, bytes) t rs = Done (False, t, rs)" using n None t1 by simp
    ultimately show ?thesis using g by auto
  next
    case (Some rg)
    note F = ForEachModifiedRange_piece [OF assms(1) Some assms(3), where ans = ans and source = source and clear = clear]
    show ?thesis
    proof (cases "ForEachModifiedRange ans source clear r (r * TRACKER_REGION_SIZE + off) bytes (rg, mt_pages t)")
      case Exit
      moreover have "clear"
      proof (rule ccontr)
        assume "\<not> clear"
        then show False using Exit by (simp add: ForEachModifiedRange_def GetPageRange_piece(1) [OF assms(3)] Let_def)
      qed
      moreover have "may_end ans ext" using F(2) Exit not_may_end by blast
      ultimately show ?thesis using v [of rg] Some t1 by (simp add: each_range_def)
    next
      case (Done x)
      obtain qs st where x: "x = (qs, st)" by (cases x)
      have "put r (rg, mt_pages t) t = t" using Some by (simp add: put_def fun_upd_idem)
      moreover have "\<forall>k. mt_regions (put r st t) k = None \<longleftrightarrow> mt_regions t k = None" using Some by (simp add: put_def)
      ultimately show ?thesis using F(1) [OF Done [unfolded x]] v [of rg] Some t1 Done x by (auto simp: each_range_def)
    qed
  qed
qed

section \<open>The operations\<close>

lemma changed_trans: "changed ext source enable W t t1 \<Longrightarrow> changed ext source enable V t1 t2 \<Longrightarrow> changed ext source enable (W \<union> V) t t2"
  by (auto simp: changed_def)

lemma changed_none: "tracker_inv ext t \<Longrightarrow> changed ext source enable {} t t"
  by (simp add: changed_def)

lemma changed_inv: "changed ext source enable W t t1 \<Longrightarrow> tracker_inv ext t1"
  by (simp add: changed_def)

lemma visit_regions:
  "visit create f c t a = Done (stop, t1, a1) \<Longrightarrow> mt_regions t k \<noteq> None \<Longrightarrow> mt_regions t1 k \<noteq> None"
  by (auto simp: visit_def mt_GetOrCreateRegion_def Let_def obind_eq_Done split: prod.splits option.splits if_splits)

lemma loop_regions:
  "Iterate_loop create f i off n t a = Done (stop, t1, a1) \<Longrightarrow> mt_regions t k \<noteq> None \<Longrightarrow> mt_regions t1 k \<noteq> None"
proof (induction create f i off n t a rule: Iterate_loop.induct)
  case (1 create f i off n t a)
  show ?case
  proof (cases "n = 0")
    case True
    then show ?thesis using 1(2,3) by (subst (asm) Iterate_loop.simps) simp
  next
    case False
    let ?b = "min (TRACKER_REGION_SIZE - off) n"
    obtain s t2 a2 where v: "visit create f (i, off, ?b) t a = Done (s, t2, a2)"
      "(if s then Done (True, t2, a2) else Iterate_loop create f (i + 1) 0 (n - ?b) t2 a2) = Done (stop, t1, a1)"
      using 1(2) False by (subst (asm) Iterate_loop.simps) (auto simp: Let_def obind_eq_Done)
    have "mt_regions t2 k \<noteq> None" using visit_regions [OF v(1) 1(3)] .
    then show ?thesis using v 1(1) [OF False refl] by (cases s) auto
  qed
qed

lemma Iterate_regions:
  "Iterate create f vaddr sz t a = Done (stop, t1, a1) \<Longrightarrow> mt_regions t k \<noteq> None \<Longrightarrow> mt_regions t1 k \<noteq> None"
  by (auto simp: Iterate_def dest: loop_regions split: if_splits)

text \<open>All regions of a range exist.\<close>

definition all_regions :: "nat \<Rightarrow> nat \<Rightarrow> MemoryTracker \<Rightarrow> bool" where
  "all_regions vaddr sz t \<longleftrightarrow> (\<forall>p \<in> touched vaddr sz. mt_regions t (p div 1024) \<noteq> None)"

lemma piece_region:
  assumes "piece_ok off bytes" "piece r off bytes \<subseteq> touched vaddr sz" "all_regions vaddr sz t"
  shows "mt_regions t r \<noteq> None"
proof -
  have "piece r off bytes \<noteq> {}" using GetPageRange_piece(2) [OF assms(1)] by (simp add: piece_def region_window_def)
  then obtain x where "x \<in> piece r off bytes" by blast
  then have "x div 1024 = r" "x \<in> touched vaddr sz" using piece_in [OF assms(1), of r] assms(2) by auto
  then show ?thesis using assms(3) unfolding all_regions_def by blast
qed

lemma Iterate_change:
  assumes "tracker_inv ext t" "tracker_range_ok vaddr sz" "create \<or> (source = CpuDirty) = enable \<or> all_regions vaddr sz t"
  shows "case Iterate create (change ans source enable) vaddr sz t () of
      Exit \<Rightarrow> may_end ans ext \<or> (enable \<and> touched vaddr sz \<inter> dirty_pages (other_source source) t \<noteq> {})
    | Done (stop, t1, _) \<Rightarrow> \<not> stop \<and> changed ext source enable (touched vaddr sz) t t1 \<and>
        (enable \<longrightarrow> touched vaddr sz \<inter> dirty_pages (other_source source) t = {})"
proof -
  let ?O = "dirty_pages (other_source source) t"
  let ?E = "may_end ans ext \<or> (enable \<and> touched vaddr sz \<inter> ?O \<noteq> {})"
  let ?I = "\<lambda>W t1 (a :: unit). changed ext source enable W t t1 \<and> (enable \<longrightarrow> W \<inter> ?O = {}) \<and>
      (all_regions vaddr sz t \<longrightarrow> all_regions vaddr sz t1)"
  have "case Iterate create (change ans source enable) vaddr sz t () of
      Exit \<Rightarrow> ?E | Done (stop, t1, a1) \<Rightarrow> if stop then False else ?I (touched vaddr sz) t1 a1"
  proof (rule Iterate_rule [where I = ?I and S = "\<lambda>_ _. False"])
    fix W r off bytes t1 and a :: unit
    assume I: "?I W t1 a" and p: "piece_ok off bytes" and r: "r < 2 ^ 18" and T: "W \<union> piece r off bytes \<subseteq> touched vaddr sz"
    have O: "dirty_pages (other_source source) t1 = ?O" using I by (simp add: changed_def)
    note V = visit_change [OF changed_inv [OF conjunct1 [OF I]] r p, where create = create and ans = ans and source = source and enable = enable, unfolded O]
    show "case visit create (change ans source enable) (r, off, bytes) t1 a of
        Exit \<Rightarrow> ?E | Done (stop, t1, a1) \<Rightarrow> if stop then False else ?I (W \<union> piece r off bytes) t1 a1"
    proof (cases "visit create (change ans source enable) (r, off, bytes) t1 a")
      case Exit
      then show ?thesis using V T by auto
    next
      case (Done x)
      obtain stop t2 u where x: "x = (stop, t2, u)" by (cases x)
      have "create \<or> mt_regions t1 r \<noteq> None \<or> (source = CpuDirty) = enable"
        using assms(3) piece_region [OF p, of r vaddr sz t1] T I by auto
      then have "\<not> stop" "changed ext source enable (piece r off bytes) t1 t2" "enable \<longrightarrow> piece r off bytes \<inter> ?O = {}"
        using V Done x by (auto split: if_splits)
      moreover have "all_regions vaddr sz t1 \<longrightarrow> all_regions vaddr sz t2"
        using visit_regions [OF Done [unfolded x]] unfolding all_regions_def by blast
      ultimately show ?thesis using Done x I changed_trans [of ext source enable W t t1 "piece r off bytes" t2] by auto
    qed
  qed (use assms(1,2) changed_none in auto)
  then show ?thesis by (auto split: outcome.splits if_splits)
qed

lemma Iterate_ask:
  assumes "tracker_inv ext t" "tracker_range_ok vaddr sz" "source = GpuDirty \<or> create"
  shows "\<exists>t1. Iterate create (ask source) vaddr sz t () = Done (touched vaddr sz \<inter> dirty_pages source t \<noteq> {}, t1, ()) \<and> same ext t t1 \<and> (create \<or> t1 = t)"
proof -
  let ?D = "dirty_pages source t"
  let ?S = "\<lambda>t1 (a :: unit). same ext t t1 \<and> (create \<or> t1 = t) \<and> touched vaddr sz \<inter> ?D \<noteq> {}"
  let ?I = "\<lambda>W t1 (a :: unit). same ext t t1 \<and> (create \<or> t1 = t) \<and> W \<inter> ?D = {}"
  have "case Iterate create (ask source) vaddr sz t () of
      Exit \<Rightarrow> False | Done (stop, t1, a1) \<Rightarrow> if stop then ?S t1 a1 else ?I (touched vaddr sz) t1 a1"
  proof (rule Iterate_rule [where I = ?I and S = ?S])
    fix W r off bytes t1 and a :: unit
    assume I: "?I W t1 a" and p: "piece_ok off bytes" and r: "r < 2 ^ 18" and T: "W \<union> piece r off bytes \<subseteq> touched vaddr sz"
    have i: "tracker_inv ext t1" using I by (simp add: same_def)
    obtain t2 where t2: "visit create (ask source) (r, off, bytes) t1 a = Done (dirty_pages source t1 \<inter> piece r off bytes \<noteq> {}, t2, ())"
      "same ext t1 t2" "create \<or> t2 = t1"
      using visit_ask [OF i r p, of source create] assms(3) by auto
    have "same ext t t2" using t2(2) I by (simp add: same_def)
    moreover have "dirty_pages source t1 = ?D" using I same_dirty by blast
    ultimately show "case visit create (ask source) (r, off, bytes) t1 a of
        Exit \<Rightarrow> False | Done (stop, t1, a1) \<Rightarrow> if stop then ?S t1 a1 else ?I (W \<union> piece r off bytes) t1 a1"
      using t2(1,3) I T by auto
  qed (use assms(1,2) in \<open>auto simp: same_def\<close>)
  then show ?thesis by (auto split: outcome.splits if_splits)
qed

lemma ranges_append:
  "ranges_ok lo mid rs \<Longrightarrow> ranges_ok mid' hi qs \<Longrightarrow> mid \<le> mid' \<Longrightarrow> lo \<le> mid' \<Longrightarrow> mid \<le> hi \<Longrightarrow> ranges_ok lo hi (rs @ qs)"
  unfolding ranges_ok_def list_all_iff by (fastforce simp: sorted_wrt_append)

lemma range_pages_append: "range_pages (rs @ qs) = range_pages rs \<union> range_pages qs"
  by (auto simp: range_pages_def)

text \<open>Ranges that cover exactly the given pages.\<close>

definition ranges_of :: "nat set \<Rightarrow> (nat \<times> nat) list \<Rightarrow> bool" where
  "ranges_of P rs \<longleftrightarrow> range_pages rs = P \<and> ranges_ok 0 TRACKER_ADDRESS_SIZE rs"

lemma ranges_narrow:
  assumes "ranges_ok lo hi rs" "range_pages rs \<subseteq> P" "\<And>p. p \<in> P \<Longrightarrow> p < k"
  shows "ranges_ok lo (k * 4096) rs"
proof -
  have "a + z \<le> k * 4096" if "(a, z) \<in> set rs" for a z
  proof -
    have z: "0 < z" "4096 dvd a" "4096 dvd z" using assms(1) that by (auto simp: ranges_ok_def list_all_iff)
    then obtain x y where xy: "a = 4096 * x" "z = 4096 * y" "0 < y" by (auto elim!: dvdE)
    then have az: "a + z = 4096 * (x + y)" by simp
    have "(a + z) div 4096 = x + y" unfolding az by simp
    moreover have "a div 4096 = x" unfolding xy(1) by simp
    ultimately have e: "(a + z) div 4096 = x + y" "a div 4096 = x" by simp_all
    have "x + y - 1 \<in> {a div 4096..<(a + z) div 4096}" using xy(3) unfolding e by auto
    then have "x + y - 1 \<in> range_pages rs" using that unfolding range_pages_def by blast
    then have "x + y - 1 < k" using assms(2,3) by blast
    then have "x + y \<le> k" using xy(3) by linarith
    then show ?thesis unfolding az by simp
  qed
  then show ?thesis using assms(1) by (auto simp: ranges_ok_def list_all_iff)
qed

lemma Iterate_each:
  assumes "tracker_inv ext t" "tracker_range_ok vaddr sz"
    and "source = GpuDirty \<or> all_regions vaddr sz t"
  shows "case Iterate False (each_range ans source clear) vaddr sz t [] of
      Exit \<Rightarrow> clear \<and> may_end ans ext
    | Done (stop, t1, rs) \<Rightarrow> \<not> stop \<and> (if clear then changed ext source False (touched vaddr sz) t t1 else t1 = t) \<and>
        ranges_of (touched vaddr sz \<inter> dirty_pages source t) rs"
proof -
  let ?D = "dirty_pages source t"
  let ?I = "\<lambda>W t1 rs. tracker_inv ext t1 \<and> (if clear then changed ext source False W t t1 else t1 = t) \<and>
      (\<forall>k. mt_regions t1 k = None \<longleftrightarrow> mt_regions t k = None) \<and> range_pages rs = W \<inter> ?D \<and> ranges_ok 0 TRACKER_ADDRESS_SIZE rs"
  have "case Iterate False (each_range ans source clear) vaddr sz t [] of
      Exit \<Rightarrow> clear \<and> may_end ans ext | Done (stop, t1, rs) \<Rightarrow> if stop then False else ?I (touched vaddr sz) t1 rs"
  proof (rule Iterate_rule [where I = ?I and S = "\<lambda>_ _. False"])
    fix W r off bytes t1 rs
    assume I: "?I W t1 rs" and p: "piece_ok off bytes" and r: "r < 2 ^ 18" and T: "W \<union> piece r off bytes \<subseteq> touched vaddr sz"
      and W: "\<forall>p \<in> W. p < r * 1024"
    have ex: "source = GpuDirty \<or> mt_regions t1 r \<noteq> None"
      using assms(3) piece_region [OF p, of r vaddr sz t] T I by auto
    note V = visit_each [OF _ r p ex, where ext = ext and ans = ans and clear = clear and rs = rs]
    show "case visit False (each_range ans source clear) (r, off, bytes) t1 rs of
        Exit \<Rightarrow> clear \<and> may_end ans ext | Done (stop, t1, rs) \<Rightarrow> if stop then False else ?I (W \<union> piece r off bytes) t1 rs"
    proof (cases "visit False (each_range ans source clear) (r, off, bytes) t1 rs")
      case Exit
      then show ?thesis using V I by auto
    next
      case (Done x)
      obtain stop t2 rs2 where x: "x = (stop, t2, rs2)" by (cases x)
      have v: "\<not> stop" "if clear then changed ext source False (piece r off bytes) t1 t2 else t2 = t1"
        "\<forall>k. mt_regions t2 k = None \<longleftrightarrow> mt_regions t1 k = None"
        using V I Done x by auto
      obtain qs where qs: "rs2 = rs @ qs" "range_pages qs = dirty_pages source t1 \<inter> piece r off bytes"
        "ranges_ok (r * TRACKER_REGION_SIZE) ((r + 1) * TRACKER_REGION_SIZE) qs"
        using V I Done x by auto
      have "x \<notin> piece r off bytes" if "x \<in> W" for x
      proof
        assume "x \<in> piece r off bytes"
        then have "x = r * 1024 + x mod 1024" using piece_in [OF p, of r] by (intro page_split) auto
        then show False using W that by fastforce
      qed
      then have "W \<inter> piece r off bytes = {}" by blast
      then have "dirty_pages source t1 \<inter> piece r off bytes = ?D \<inter> piece r off bytes"
        using I by (auto simp: changed_def split: if_splits)
      then have "range_pages rs2 = (W \<union> piece r off bytes) \<inter> ?D"
        using I qs(1,2) by (auto simp: range_pages_append)
      moreover have "ranges_ok 0 TRACKER_ADDRESS_SIZE rs2" unfolding qs(1)
      proof (rule ranges_append [OF ranges_narrow])
        show "ranges_ok 0 TRACKER_ADDRESS_SIZE rs" "range_pages rs \<subseteq> W" using I by auto
        show "p < r * 1024" if "p \<in> W" for p using W that by blast
        have "(r + 1) * TRACKER_REGION_SIZE \<le> TRACKER_ADDRESS_SIZE" using r by (simp add: tracker_sizes)
        then show "ranges_ok (r * TRACKER_REGION_SIZE) TRACKER_ADDRESS_SIZE qs"
          using qs(3) by (auto simp: ranges_ok_def list_all_iff)
      qed (use r in \<open>simp_all add: tracker_sizes\<close>)
      moreover have "if clear then changed ext source False (W \<union> piece r off bytes) t t2 else t2 = t"
        using I v(2) changed_trans [of ext source False W t t1 "piece r off bytes" t2] by (auto split: if_splits)
      ultimately show ?thesis using Done x v I by (auto simp: changed_def split: if_splits)
    qed
  qed (use assms(1,2) changed_none in \<open>auto simp: range_pages_def ranges_ok_def\<close>)
  then show ?thesis by (auto simp: ranges_of_def split: outcome.splits if_splits)
qed

end
