(* ===== verification/MemoryTrackerProps.thy ===== *)
theory MemoryTrackerProps
  imports MemoryTrackerSpec
begin

text \<open>
  Properties of memory tracking: the exact effect and answer of every operation on the two sets of
  pages, and what the protection of the pages guarantees in every reachable state.
\<close>

section \<open>Lemmas on the operations\<close>

lemma covered_loop:
  assumes "off < TRACKER_REGION_SIZE"
  shows "\<exists>c. Iterate_loop False add_bytes i off n t a = Done (False, t, a + c) \<and> c \<le> n \<and>
    (c = n \<longleftrightarrow> n = 0 \<or> (\<forall>p \<in> touched (i * TRACKER_REGION_SIZE + off) n. mt_regions t (p div 1024) \<noteq> None))"
  using assms
proof (induction n arbitrary: i off a rule: less_induct)
  case (less n)
  show ?case
  proof (cases "n = 0")
    case True
    then show ?thesis by (subst Iterate_loop.simps) simp
  next
    case False
    let ?b = "min (TRACKER_REGION_SIZE - off) n"
    let ?e = "\<lambda>P. \<forall>p \<in> P. mt_regions t (p div 1024) \<noteq> None"
    have b: "piece_ok off ?b" "0 < ?b" "?b \<le> n" using False less.prems by (auto simp: piece_ok_def)
    have v: "visit False add_bytes (i, off, ?b) t a = Done (False, t, if mt_regions t i = None then a else a + ?b)"
      by (cases "mt_regions t i") (simp_all add: visit_def add_bytes_def fun_upd_idem)
    obtain c where c: "Iterate_loop False add_bytes (i + 1) 0 (n - ?b) t (if mt_regions t i = None then a else a + ?b) =
        Done (False, t, (if mt_regions t i = None then a else a + ?b) + c)" "c \<le> n - ?b"
      "c = n - ?b \<longleftrightarrow> n - ?b = 0 \<or> ?e (touched ((i + 1) * TRACKER_REGION_SIZE) (n - ?b))"
      using less.IH [of "n - ?b" 0 "i + 1" "if mt_regions t i = None then a else a + ?b"] b(2) False
      by (auto simp: TRACKER_REGION_SIZE_def)
    have u: "Iterate_loop False add_bytes i off n t a = Done (False, t, (if mt_regions t i = None then a else a + ?b) + c)"
      using False v c(1) by (subst Iterate_loop.simps) (simp add: Let_def)
    have ne: "piece i off ?b \<noteq> {}" using GetPageRange_piece(2) [OF b(1)] by (simp add: piece_def region_window_def)
    have pe: "?e (piece i off ?b) \<longleftrightarrow> mt_regions t i \<noteq> None" using piece_in [OF b(1), of i] ne by blast
    have sp: "touched (i * TRACKER_REGION_SIZE + off) n =
        piece i off ?b \<union> (if ?b = n then {} else touched ((i + 1) * TRACKER_REGION_SIZE) (n - ?b))"
      using touched_split [OF less.prems, of n i] by (auto simp: min_def piece_touched)
    have all: "?e (touched (i * TRACKER_REGION_SIZE + off) n) \<longleftrightarrow> mt_regions t i \<noteq> None \<and> c = n - ?b"
      unfolding sp c(3) using pe b(3) by (cases "?b = n") (simp_all add: ball_Un)
    show ?thesis
    proof (cases "mt_regions t i = None")
      case True
      then have "c \<noteq> n" using c(2) b(2,3) by linarith
      then show ?thesis using u True c(2) all False by (intro exI [of _ c]) auto
    next
      case ex: False
      have "?b + c = n \<longleftrightarrow> c = n - ?b" using c(2) b(3) by linarith
      then show ?thesis using u ex c(2) b(3) all False by (intro exI [of _ "?b + c"]) (simp add: add.assoc)
    qed
  qed
qed

lemma Iterate_covered:
  assumes "tracker_range_ok vaddr sz"
  shows "\<exists>c. Iterate False add_bytes vaddr sz t 0 = Done (False, t, c) \<and>
    (c = sz \<longleftrightarrow> all_regions vaddr sz t)"
proof -
  have "vaddr mod TRACKER_REGION_SIZE < TRACKER_REGION_SIZE" by (simp add: TRACKER_REGION_SIZE_def)
  from covered_loop [OF this, of "vaddr div TRACKER_REGION_SIZE" sz t 0] show ?thesis
    using assms by (auto simp: Iterate_def tracker_range_ok_def all_regions_def)
qed

lemma visit_ask_both:
  assumes "tracker_inv ext t" "mt_regions t r \<noteq> None" "piece_ok off bytes"
  shows "visit False ask_both (r, off, bytes) t () = Done ((cpu_pages t \<union> gpu_pages t) \<inter> piece r off bytes \<noteq> {}, t, ())"
proof -
  obtain rg where rg: "mt_regions t r = Some rg" using assms(2) by blast
  have "put r (rg, mt_pages t) t = t" using rg by (simp add: put_def fun_upd_idem)
  then show ?thesis
    using IsModified_piece [OF assms(1) rg assms(3)] rg
    by (auto simp: visit_def ask_both_def put_def Let_def Int_Un_distrib2)
qed

lemma Iterate_ask_both:
  assumes "tracker_inv ext t" "tracker_range_ok vaddr sz" "all_regions vaddr sz t"
  shows "Iterate False ask_both vaddr sz t () = Done (touched vaddr sz \<inter> (cpu_pages t \<union> gpu_pages t) \<noteq> {}, t, ())"
proof -
  let ?D = "cpu_pages t \<union> gpu_pages t"
  let ?S = "\<lambda>t1 (a :: unit). t1 = t \<and> touched vaddr sz \<inter> ?D \<noteq> {}"
  let ?I = "\<lambda>W t1 (a :: unit). t1 = t \<and> W \<inter> ?D = {}"
  have "case Iterate False ask_both vaddr sz t () of
      Exit \<Rightarrow> False | Done (stop, t1, a1) \<Rightarrow> if stop then ?S t1 a1 else ?I (touched vaddr sz) t1 a1"
  proof (rule Iterate_rule [where I = ?I and S = ?S])
    fix W :: "nat set" and r off bytes :: nat and t1 :: MemoryTracker and a :: unit
    assume I: "?I W t1 a" and p: "piece_ok off bytes" and T: "W \<union> piece r off bytes \<subseteq> touched vaddr sz"
    have "mt_regions t r \<noteq> None" using piece_region [OF p _ assms(3)] T by blast
    from visit_ask_both [OF assms(1) this p]
    show "case visit False ask_both (r, off, bytes) t1 a of
        Exit \<Rightarrow> False | Done (stop, t1, a1) \<Rightarrow> if stop then ?S t1 a1 else ?I (W \<union> piece r off bytes) t1 a1"
      using I T by auto
  qed (use assms(2) in auto)
  then show ?thesis by (auto split: outcome.splits if_splits)
qed

lemma Iterate_create:
  assumes "tracker_inv ext t" "tracker_range_ok vaddr sz"
  shows "\<exists>t1. Iterate True no_function vaddr sz t () = Done (False, t1, ()) \<and> same ext t t1 \<and>
    all_regions vaddr sz t1"
proof -
  let ?I = "\<lambda>W t1 (a :: unit). same ext t t1 \<and> (\<forall>p \<in> W. mt_regions t1 (p div 1024) \<noteq> None)"
  have "case Iterate True no_function vaddr sz t () of
      Exit \<Rightarrow> False | Done (stop, t1, a1) \<Rightarrow> if stop then False else ?I (touched vaddr sz) t1 a1"
  proof (rule Iterate_rule [where I = ?I and S = "\<lambda>_ _. False"])
    fix W :: "nat set" and r off bytes :: nat and t1 :: MemoryTracker and a :: unit
    assume I: "?I W t1 a" and p: "piece_ok off bytes" and r: "r < 2 ^ 18"
    have i: "tracker_inv ext t1" using I by (simp add: same_def)
    let ?t2 = "mt_GetOrCreateRegion r t1"
    have "same ext t1 ?t2" "mt_regions ?t2 r \<noteq> None" using create_same [OF i r] by auto
    moreover from this obtain rg where "mt_regions ?t2 r = Some rg" by blast
    moreover from this have "visit True no_function (r, off, bytes) t1 a = Done (False, ?t2, ())"
      by (simp add: visit_def no_function_def Let_def fun_upd_idem)
    moreover have "mt_regions ?t2 k \<noteq> None" if "mt_regions t1 k \<noteq> None" for k
      using that by (simp add: mt_GetOrCreateRegion_def)
    ultimately show "case visit True no_function (r, off, bytes) t1 a of
        Exit \<Rightarrow> False | Done (stop, t1, a1) \<Rightarrow> if stop then False else ?I (W \<union> piece r off bytes) t1 a1"
      using I piece_in [OF p, of r] by (auto simp: same_def)
  qed (use assms in \<open>auto simp: same_def\<close>)
  then show ?thesis by (auto simp: all_regions_def split: outcome.splits if_splits)
qed

section \<open>Marking\<close>

text \<open>The tracker before anything is known: every page counts as modified by the CPU.\<close>

definition new_tracker :: MemoryTracker where
  "new_tracker = \<lparr>mt_regions = (\<lambda>_. None), mt_pages = \<lparr>pg_regions = (\<lambda>_. None), pg_host = (\<lambda>_. ModeReadWrite)\<rparr>\<rparr>"

lemma new_tracker_inv: "tracker_inv (\<lambda>_. 0) new_tracker" "cpu_pages new_tracker = UNIV" "gpu_pages new_tracker = {}"
  by (simp_all add: tracker_inv_def new_tracker_def pages_ok_def counts_ok_def cpu_pages_def gpu_pages_def page_at_def
    mode_ok_def Perms_def new_page_def)

lemma new_tracker_ends [simp]: "\<not> may_end (\<lambda>_ _ _. True) (\<lambda>_. 0)"
  by (simp add: may_end_def grants_def)

text \<open>C33. Marking pages. With \<open>T\<close> the pages that the bytes touch: marking them as modified by the CPU adds them to
  the CPU's pages and is possible exactly if none of them is the GPU's, and the same for the GPU; unmarking takes them from the
  GPU's; untracking gives them to the CPU. Nothing else changes, and the watchers and the protection of all pages
  agree with the new sets. Only a refusal of the host and 127 other watchers of a page can end the process otherwise.\<close>

theorem tracker_marks:
  assumes "tracker_inv ext t" "tracker_range_ok vaddr sz"
  shows "(let T = touched vaddr sz; C = cpu_pages t; G = gpu_pages t in
    (case MarkRegionAsCpuModified ans vaddr sz t of
       Exit \<Rightarrow> may_end ans ext \<or> T \<inter> G \<noteq> {}
     | Done t1 \<Rightarrow> T \<inter> G = {} \<and> tracker_inv ext t1 \<and> cpu_pages t1 = C \<union> T \<and> gpu_pages t1 = G) \<and>
    (case MarkRegionAsGpuModified ans vaddr sz t of
       Exit \<Rightarrow> may_end ans ext \<or> T \<inter> C \<noteq> {}
     | Done t1 \<Rightarrow> T \<inter> C = {} \<and> tracker_inv ext t1 \<and> cpu_pages t1 = C \<and> gpu_pages t1 = G \<union> T) \<and>
    (case UnmarkRegionAsGpuModified ans vaddr sz t of
       Exit \<Rightarrow> may_end ans ext
     | Done t1 \<Rightarrow> tracker_inv ext t1 \<and> cpu_pages t1 = C \<and> gpu_pages t1 = G - T) \<and>
    (case UntrackMemory ans vaddr sz t of
       Exit \<Rightarrow> may_end ans ext \<or> T \<inter> G \<noteq> {}
     | Done t1 \<Rightarrow> T \<inter> G = {} \<and> tracker_inv ext t1 \<and> cpu_pages t1 = C \<union> T \<and> gpu_pages t1 = G))"
  unfolding Let_def
proof (intro conjI)
  note I = Iterate_change [OF assms, where ans = ans]
  show "case MarkRegionAsCpuModified ans vaddr sz t of
       Exit \<Rightarrow> may_end ans ext \<or> touched vaddr sz \<inter> gpu_pages t \<noteq> {}
     | Done t1 \<Rightarrow> touched vaddr sz \<inter> gpu_pages t = {} \<and> tracker_inv ext t1 \<and> cpu_pages t1 = cpu_pages t \<union> touched vaddr sz \<and> gpu_pages t1 = gpu_pages t"
    using I [of True CpuDirty True]
    by (auto simp: MarkRegionAsCpuModified_def changed_def split: outcome.splits)
  show "case MarkRegionAsGpuModified ans vaddr sz t of
       Exit \<Rightarrow> may_end ans ext \<or> touched vaddr sz \<inter> cpu_pages t \<noteq> {}
     | Done t1 \<Rightarrow> touched vaddr sz \<inter> cpu_pages t = {} \<and> tracker_inv ext t1 \<and> cpu_pages t1 = cpu_pages t \<and> gpu_pages t1 = gpu_pages t \<union> touched vaddr sz"
    using I [of True GpuDirty True]
    by (auto simp: MarkRegionAsGpuModified_def changed_def split: outcome.splits)
  show "case UnmarkRegionAsGpuModified ans vaddr sz t of
       Exit \<Rightarrow> may_end ans ext
     | Done t1 \<Rightarrow> tracker_inv ext t1 \<and> cpu_pages t1 = cpu_pages t \<and> gpu_pages t1 = gpu_pages t - touched vaddr sz"
    using I [of False GpuDirty False]
    by (auto simp: UnmarkRegionAsGpuModified_def changed_def split: outcome.splits)
  show "case UntrackMemory ans vaddr sz t of
       Exit \<Rightarrow> may_end ans ext \<or> touched vaddr sz \<inter> gpu_pages t \<noteq> {}
     | Done t1 \<Rightarrow> touched vaddr sz \<inter> gpu_pages t = {} \<and> tracker_inv ext t1 \<and> cpu_pages t1 = cpu_pages t \<union> touched vaddr sz \<and> gpu_pages t1 = gpu_pages t"
    using I [of False CpuDirty True] Iterate_ask [OF assms, of GpuDirty False]
    by (auto simp: UntrackMemory_def changed_def split: outcome.splits)
qed

lemma tracker_marks_witness:
  "(case MarkRegionAsCpuModified (\<lambda>_ _ _. True) 8192 100 new_tracker of Done t1 \<Rightarrow> cpu_pages t1 = UNIV | Exit \<Rightarrow> False) \<and>
    MarkRegionAsGpuModified (\<lambda>_ _ _. True) 8192 100 new_tracker = Exit"
proof -
  have r: "tracker_range_ok 8192 100" by (simp add: tracker_range_ok_def tracker_sizes)
  have T: "touched 8192 100 \<noteq> {}" by (simp add: touched_def)
  note M = tracker_marks [OF new_tracker_inv(1) r, of "\<lambda>_ _ _. True", unfolded Let_def new_tracker_inv(2,3)]
  show ?thesis
    using M T by (auto split: outcome.splits)
qed

section \<open>Asking\<close>

text \<open>The questions. A range is modified by the CPU, or the GPU, exactly if one of the pages that it touches is,
  and asking changes nothing that matters; a range is taken for the CPU without further work exactly if
  none of its pages is modified by anyone, and then all of them become the CPU's.\<close>

lemma tracker_queries:
  assumes "tracker_inv ext t" "tracker_range_ok vaddr sz"
  shows "(let T = touched vaddr sz; C = cpu_pages t; G = gpu_pages t in
    (\<exists>t1. IsRegionCpuModified vaddr sz t = Done (T \<inter> C \<noteq> {}, t1) \<and> tracker_inv ext t1 \<and> cpu_pages t1 = C \<and> gpu_pages t1 = G) \<and>
    IsRegionGpuModified vaddr sz t = Done (T \<inter> G \<noteq> {}, t) \<and>
    (case TryMarkCleanRegionAsCpuModified ans vaddr sz t of
       Exit \<Rightarrow> may_end ans ext
     | Done (clean, t1) \<Rightarrow> (clean \<longleftrightarrow> T \<inter> (C \<union> G) = {}) \<and>
         (if clean then tracker_inv ext t1 \<and> cpu_pages t1 = C \<union> T \<and> gpu_pages t1 = G else t1 = t)))"
  unfolding Let_def
proof (intro conjI)
  let ?T = "touched vaddr sz"
  show "\<exists>t1. IsRegionCpuModified vaddr sz t = Done (?T \<inter> cpu_pages t \<noteq> {}, t1) \<and> tracker_inv ext t1 \<and> cpu_pages t1 = cpu_pages t \<and> gpu_pages t1 = gpu_pages t"
    using Iterate_ask [OF assms, of CpuDirty True] by (auto simp: IsRegionCpuModified_def same_def)
  show "IsRegionGpuModified vaddr sz t = Done (?T \<inter> gpu_pages t \<noteq> {}, t)"
    using Iterate_ask [OF assms, of GpuDirty False] by (auto simp: IsRegionGpuModified_def)
  obtain c where c: "Iterate False add_bytes vaddr sz t 0 = Done (False, t, c)" "c = sz \<longleftrightarrow> all_regions vaddr sz t"
    using Iterate_covered [OF assms(2)] by blast
  show "case TryMarkCleanRegionAsCpuModified ans vaddr sz t of
       Exit \<Rightarrow> may_end ans ext
     | Done (clean, t1) \<Rightarrow> (clean \<longleftrightarrow> ?T \<inter> (cpu_pages t \<union> gpu_pages t) = {}) \<and>
         (if clean then tracker_inv ext t1 \<and> cpu_pages t1 = cpu_pages t \<union> ?T \<and> gpu_pages t1 = gpu_pages t else t1 = t)"
  proof (cases "all_regions vaddr sz t")
    case True
    show ?thesis
      using c True Iterate_ask_both [OF assms True] Iterate_change [OF assms, where ans = ans and create = False and source = CpuDirty and enable = True]
      by (auto simp: TryMarkCleanRegionAsCpuModified_def changed_def split: outcome.splits)
  next
    case False
    then obtain p where "p \<in> ?T" "mt_regions t (p div 1024) = None" by (auto simp: all_regions_def)
    then have "p \<in> ?T \<inter> cpu_pages t" by (simp add: cpu_pages_def)
    then show ?thesis using c False by (auto simp: TryMarkCleanRegionAsCpuModified_def)
  qed
qed

lemma tracker_queries_witness: "IsRegionGpuModified 8192 100 new_tracker = Done (False, new_tracker)"
proof -
  have r: "tracker_range_ok 8192 100" by (simp add: tracker_range_ok_def tracker_sizes)
  show ?thesis
    using tracker_queries [OF new_tracker_inv(1) r, of "\<lambda>_ _ _. True"] by (simp add: Let_def new_tracker_inv(3))
qed

section \<open>Transfers\<close>

text \<open>C34. Transfers between the CPU and the GPU. An upload passes on, in order and without overlap, ranges that
  make up exactly the touched pages that the CPU has modified; afterwards none of the touched pages is modified by the CPU, and
  all of them are by the GPU if the upload is for writing. A download passes on exactly the touched pages that the GPU has modified, to the
  first callback and to the second, and takes them from the GPU if asked to.\<close>

theorem tracker_transfers:
  assumes "tracker_inv ext t" "tracker_range_ok vaddr sz"
  shows "(let T = touched vaddr sz; C = cpu_pages t; G = gpu_pages t in
    (case ForEachUploadRange ans is_written vaddr sz t of
       Exit \<Rightarrow> may_end ans ext
     | Done (ranges, t1) \<Rightarrow> ranges_of (T \<inter> C) ranges \<and> tracker_inv ext t1 \<and>
         cpu_pages t1 = C - T \<and> gpu_pages t1 = (if is_written then G \<union> T else G)) \<and>
    (case ForEachDownloadRange ans clear vaddr sz t of
       Exit \<Rightarrow> clear \<and> may_end ans ext
     | Done (preflight, ranges, t1) \<Rightarrow> ranges_of (T \<inter> G) preflight \<and> ranges_of (T \<inter> G) ranges \<and> tracker_inv ext t1 \<and>
         cpu_pages t1 = C \<and> gpu_pages t1 = (if clear then G - T else G)))"
  unfolding Let_def
proof (rule conjI)
  let ?T = "touched vaddr sz"
  obtain t1 where t1: "Iterate True no_function vaddr sz t () = Done (False, t1, ())" "same ext t t1" "all_regions vaddr sz t1"
    using Iterate_create [OF assms] by blast
  have i1: "tracker_inv ext t1" "cpu_pages t1 = cpu_pages t" "gpu_pages t1 = gpu_pages t" using t1(2) by (simp_all add: same_def)
  show "case ForEachUploadRange ans is_written vaddr sz t of
       Exit \<Rightarrow> may_end ans ext
     | Done (ranges, t1) \<Rightarrow> ranges_of (?T \<inter> cpu_pages t) ranges \<and> tracker_inv ext t1 \<and>
         cpu_pages t1 = cpu_pages t - ?T \<and> gpu_pages t1 = (if is_written then gpu_pages t \<union> ?T else gpu_pages t)"
  proof (cases "Iterate False (each_range ans CpuDirty True) vaddr sz t1 []")
    case Exit
    then show ?thesis
      using t1(1) Iterate_each [OF i1(1) assms(2), where source = CpuDirty and ans = ans and clear = True] t1(3) by (simp add: ForEachUploadRange_def)
  next
    case (Done x)
    obtain s t2 rs where x: "x = (s, t2, rs)" by (cases x)
    have d: "changed ext CpuDirty False ?T t1 t2" "ranges_of (?T \<inter> cpu_pages t) rs"
      using Iterate_each [OF i1(1) assms(2), where source = CpuDirty and ans = ans and clear = True] t1(3) Done x i1 by auto
    then have i2: "tracker_inv ext t2" "cpu_pages t2 = cpu_pages t - ?T" "gpu_pages t2 = gpu_pages t"
      using i1 by (simp_all add: changed_def)
    have "all_regions vaddr sz t2"
      using t1(3) Iterate_regions [OF Done [unfolded x]] unfolding all_regions_def by blast
    then show ?thesis
      using Iterate_change [OF i2(1) assms(2), where create = False and source = GpuDirty and enable = True and ans = ans] t1(1) Done x d(2) i2
      by (cases is_written) (auto simp: ForEachUploadRange_def changed_def split: outcome.splits)
  qed
  note D = Iterate_each [OF assms, where source = GpuDirty and ans = ans, simplified]
  obtain rs where rs: "Iterate False (each_range ans GpuDirty False) vaddr sz t [] = Done (False, t, rs)" "ranges_of (?T \<inter> gpu_pages t) rs"
    using D [where clear = False] by (auto split: outcome.splits)
  show "case ForEachDownloadRange ans clear vaddr sz t of
       Exit \<Rightarrow> clear \<and> may_end ans ext
     | Done (preflight, ranges, t1) \<Rightarrow> ranges_of (?T \<inter> gpu_pages t) preflight \<and> ranges_of (?T \<inter> gpu_pages t) ranges \<and> tracker_inv ext t1 \<and>
         cpu_pages t1 = cpu_pages t \<and> gpu_pages t1 = (if clear then gpu_pages t - ?T else gpu_pages t)"
    using rs D [where clear = True] assms(1) by (cases clear) (auto simp: ForEachDownloadRange_def changed_def split: outcome.splits)
qed

lemma tracker_transfers_witness:
  "case ForEachUploadRange (\<lambda>_ _ _. True) True 8192 100 new_tracker of
    Done (ranges, t1) \<Rightarrow> ranges_of {2} ranges \<and> gpu_pages t1 = {2} \<and> 2 \<notin> cpu_pages t1 | Exit \<Rightarrow> False"
proof -
  have r: "tracker_range_ok 8192 100" by (simp add: tracker_range_ok_def tracker_sizes)
  have T: "touched 8192 100 = {2}" by (auto simp: touched_def)
  show ?thesis
    using conjunct1 [OF tracker_transfers [OF new_tracker_inv(1) r, of "\<lambda>_ _ _. True" True True, unfolded Let_def new_tracker_inv(2,3) T]]
    by (auto split: outcome.splits)
qed

section \<open>Invalidating\<close>

lemma update_cpu_state_exact:
  assumes "tracker_inv ext t" "tracker_range_ok vaddr sz"
  shows "case update_cpu_state ans vaddr sz t of
      Exit \<Rightarrow> touched vaddr sz \<inter> gpu_pages t = {} \<and> may_end ans ext
    | Done (retry, t1) \<Rightarrow> (retry \<longleftrightarrow> touched vaddr sz \<inter> gpu_pages t \<noteq> {}) \<and>
        (if retry then t1 = t else changed ext CpuDirty True (touched vaddr sz) t t1)"
  using Iterate_ask [OF assms, of GpuDirty False] Iterate_change [OF assms, where create = False and source = CpuDirty and enable = True and ans = ans]
  by (auto simp: update_cpu_state_def split: outcome.splits)

text \<open>Invalidating a range for a write of the CPU. If none of the pages is the GPU's, they become the CPU's at once and
  the callback is not called. Otherwise the callback gets the unchanged tracker and runs without the
  mutex, so it may leave any tracker that is well formed; if it has left a page of the range to the GPU the process ends,
  and else the pages become the CPU's, on top of what the callback has left.\<close>

lemma tracker_invalidate:
  assumes "tracker_inv ext t" "tracker_range_ok vaddr sz" "\<And>t1. on_flush t = Done t1 \<Longrightarrow> tracker_inv ext t1"
  shows "(let T = touched vaddr sz in
    case InvalidateRegion ans on_flush vaddr sz t of
      Exit \<Rightarrow> may_end ans ext \<or> (T \<inter> gpu_pages t \<noteq> {} \<and>
        (case on_flush t of Exit \<Rightarrow> True | Done t1 \<Rightarrow> T \<inter> gpu_pages t1 \<noteq> {}))
    | Done t2 \<Rightarrow> tracker_inv ext t2 \<and> T \<inter> gpu_pages t2 = {} \<and>
        (if T \<inter> gpu_pages t = {} then cpu_pages t2 = cpu_pages t \<union> T \<and> gpu_pages t2 = gpu_pages t
         else case on_flush t of Exit \<Rightarrow> False
           | Done t1 \<Rightarrow> cpu_pages t2 = cpu_pages t1 \<union> T \<and> gpu_pages t2 = gpu_pages t1))"
proof (cases "touched vaddr sz \<inter> gpu_pages t = {}")
  case True
  then show ?thesis using update_cpu_state_exact [OF assms(1,2), of ans]
    by (auto simp: InvalidateRegion_def changed_def Let_def split: outcome.splits)
next
  case False
  then have u: "update_cpu_state ans vaddr sz t = Done (True, t)"
    using update_cpu_state_exact [OF assms(1,2), of ans] by (auto split: outcome.splits)
  show ?thesis
  proof (cases "on_flush t")
    case Exit
    then show ?thesis using u False by (simp add: InvalidateRegion_def)
  next
    case (Done t1)
    note U = update_cpu_state_exact [OF assms(3) [OF Done] assms(2), of ans]
    have e: "InvalidateRegion ans on_flush vaddr sz t =
        obind (update_cpu_state ans vaddr sz t1) (\<lambda>(left, t3). if left then Exit else Done t3)"
      by (simp add: InvalidateRegion_def u Done)
    show ?thesis
    proof (cases "update_cpu_state ans vaddr sz t1")
      case Exit
      then show ?thesis using U by (simp add: e)
    next
      case ok: (Done x)
      obtain left t3 where "x = (left, t3)" by (cases x)
      then show ?thesis using U False by (cases left) (simp_all add: e ok Done changed_def Let_def)
    qed
  qed
qed

lemma tracker_invalidate_witness:
  "case InvalidateRegion (\<lambda>_ _ _. True) (\<lambda>t. Exit) 8192 100 new_tracker of
    Done t2 \<Rightarrow> cpu_pages t2 = UNIV | Exit \<Rightarrow> False"
proof -
  have r: "tracker_range_ok 8192 100" by (simp add: tracker_range_ok_def tracker_sizes)
  have f: "tracker_inv (\<lambda>_. 0) t1" if "(\<lambda>t. Exit) new_tracker = Done t1" for t1 using that by simp
  note I = tracker_invalidate [OF new_tracker_inv(1) r, where on_flush = "\<lambda>t. Exit" and ans = "\<lambda>_ _ _. True", OF f,
    unfolded Let_def new_tracker_inv(2,3)]
  show ?thesis
  proof (cases "InvalidateRegion (\<lambda>_ _ _. True) (\<lambda>t. Exit) 8192 100 new_tracker")
    case Exit
    then show ?thesis using I by simp
  next
    case (Done t2)
    then show ?thesis using I by simp
  qed
qed

section \<open>The traps\<close>

text \<open>
  The tracker and the texture cache on the same pages. A step is the work of an operation on one region, or one
  call of \<open>UpdatePageWatchers\<close> by the texture cache, which unwatches only what it watches; the second component of a state counts
  its watches of every page.
\<close>

type_synonym traced = "MemoryTracker \<times> (nat \<Rightarrow> nat)"

definition watched :: "bool \<Rightarrow> nat set \<Rightarrow> (nat \<Rightarrow> nat) \<Rightarrow> (nat \<Rightarrow> nat)" where
  "watched track P ext = (\<lambda>p. if p \<in> P then if track then ext p + 1 else ext p - 1 else ext p)"

inductive tr_step :: "protect_answer \<Rightarrow> traced \<Rightarrow> traced \<Rightarrow> bool" for ans where
  tr_create: "r < 2 ^ 18 \<Longrightarrow> tr_step ans (t, ext) (mt_GetOrCreateRegion r t, ext)"
| tr_change: "visit create (change ans source enable) (r, off, bytes) t () = Done (stop, t1, ()) \<Longrightarrow> r < 2 ^ 18 \<Longrightarrow> piece_ok off bytes \<Longrightarrow>
    tr_step ans (t, ext) (t1, ext)"
| tr_transfer: "visit False (each_range ans source clear) (r, off, bytes) t rs = Done (stop, t1, rs1) \<Longrightarrow> r < 2 ^ 18 \<Longrightarrow> piece_ok off bytes \<Longrightarrow>
    tr_step ans (t, ext) (t1, ext)"
| tr_watch: "UpdatePageWatchers ans track vaddr sz (mt_pages t) = Done pm \<Longrightarrow> 0 < sz \<Longrightarrow>
    (\<And>p. \<not> track \<Longrightarrow> p \<in> touched vaddr sz \<Longrightarrow> 0 < ext p) \<Longrightarrow>
    tr_step ans (t, ext) (t\<lparr>mt_pages := pm\<rparr>, watched track (touched vaddr sz) ext)"

definition tr_start :: "traced \<Rightarrow> bool" where
  "tr_start s \<longleftrightarrow> mt_regions (fst s) = (\<lambda>_. None) \<and> pg_regions (mt_pages (fst s)) = (\<lambda>_. None) \<and> snd s = (\<lambda>_. 0) \<and>
    (\<forall>p. pg_host (mt_pages (fst s)) p \<in> {ModeReadWrite, ModeExecuteReadWrite})"

abbreviation tr_inv :: "traced \<Rightarrow> bool" where
  "tr_inv s \<equiv> tracker_inv (snd s) (fst s)"

lemma watched_counts:
  assumes "counts_ok ext C G pm" "watch_done track False P pm pm1" "\<And>p. \<not> track \<Longrightarrow> p \<in> P \<Longrightarrow> 0 < ext p"
  shows "counts_ok (watched track P ext) C G pm1"
  unfolding counts_ok_def
proof
  fix p
  have c: "unat (write_watchers (page_at pm p)) = ext p + of_bool (p \<notin> C)" "(access_watchers (page_at pm p) \<noteq> 0) = (p \<in> G)"
    using assms(1) by (simp_all add: counts_ok_def)
  have d: "page_at pm1 p = (if p \<in> P then shifted track False (page_at pm p) else page_at pm p)"
    "p \<in> P \<Longrightarrow> shift_ok track False (page_at pm p)"
    using assms(2) by (simp_all add: watch_done_def)
  show "unat (write_watchers (page_at pm1 p)) = watched track P ext p + of_bool (p \<notin> C) \<and> (access_watchers (page_at pm1 p) \<noteq> 0) = (p \<in> G)"
  proof (cases "p \<in> P")
    case True
    then show ?thesis using c d write_shift [OF d(2) [OF True]] assms(3) [OF _ True] by (cases track) (auto simp: watched_def)
  next
    case False
    then show ?thesis using c d(1) by (simp add: watched_def)
  qed
qed

lemma tracker_inv_step: "tr_step ans s s1 \<Longrightarrow> tr_inv s \<Longrightarrow> tr_inv s1"
proof (induction rule: tr_step.induct)
  case (tr_create r t ext)
  then show ?case using create_same [of ext t r] by (simp add: same_def)
next
  case (tr_change create source enable r off bytes t stop t1 ext)
  then have "tracker_inv ext t" by simp
  from visit_change [OF this tr_change(2,3), where create = create and ans = ans and source = source and enable = enable] tr_change(1)
  show ?case by (auto simp: same_def changed_def split: if_splits)
next
  case (tr_transfer source clear r off bytes t rs stop t1 rs1 ext)
  then have i: "tracker_inv ext t" by simp
  show ?case
  proof (cases "source = GpuDirty \<or> mt_regions t r \<noteq> None")
    case True
    then show ?thesis
      using visit_each [OF i tr_transfer(2,3) True, where ans = ans and clear = clear and rs = rs] tr_transfer(1) i
      by (auto simp: changed_def split: if_splits)
  next
    case False
    then show ?thesis using tr_transfer(1) i by (simp add: visit_def)
  qed
next
  case (tr_watch track vaddr sz t pm ext)
  then have i: "tracker_inv ext t" by simp
  then have ok: "pages_ok (mt_pages t)" "counts_ok ext (cpu_pages t) (gpu_pages t) (mt_pages t)" by (simp_all add: tracker_inv_def)
  have "Impl_UpdatePageWatchers ans track False vaddr sz (mt_pages t) = Done pm"
    using tr_watch(1) by (auto simp: UpdatePageWatchers_def split: if_splits)
  from Impl_UpdatePageWatchers_ok [OF ok(1) this]
  have w: "watch_done track False (touched vaddr sz) (mt_pages t) pm"
  proof -
    have "(vaddr + sz - 1) div 4096 + 1 = (vaddr + sz - 1 + 4096) div 4096" by simp
    also have "\<dots> = (vaddr + sz + 4095) div 4096" using tr_watch(2) by (simp add: ac_simps)
    finally show ?thesis using \<open>watch_done _ _ _ _ _\<close> by (simp add: touched_def)
  qed
  have c: "counts_ok (watched track (touched vaddr sz) ext) (cpu_pages t) (gpu_pages t) pm"
    by (rule watched_counts [OF ok(2) w]) (use tr_watch(3) in blast)
  have "cpu_pages (t\<lparr>mt_pages := pm\<rparr>) = cpu_pages t" "gpu_pages (t\<lparr>mt_pages := pm\<rparr>) = gpu_pages t"
    by (simp_all add: cpu_pages_def gpu_pages_def)
  then show ?case using i w c by (simp add: tracker_inv_def watch_done_def)
qed

lemma tracker_inv_start: "tr_start s \<Longrightarrow> tr_inv s"
  by (auto simp: tr_start_def tracker_inv_def pages_ok_def counts_ok_def cpu_pages_def gpu_pages_def page_at_def
    mode_ok_def Perms_def new_page_def)

interpretation tr: kept tr_start "tr_step ans" tr_inv for ans
  by unfold_locales (auto dest: tracker_inv_start intro: tracker_inv_step)

text \<open>Every operation consists of such steps.\<close>

lemma Iterate_reach:
  assumes "\<And>r off bytes t a stop t1 a1. visit create f (r, off, bytes) t a = Done (stop, t1, a1) \<Longrightarrow> r < 2 ^ 18 \<Longrightarrow> piece_ok off bytes \<Longrightarrow>
      tr_step ans (t, ext) (t1, ext)"
    and "tracker_range_ok vaddr sz" "Iterate create f vaddr sz t a = Done (stop, t1, a1)" "reach tr_start (tr_step ans) (t, ext)"
  shows "reach tr_start (tr_step ans) (t1, ext)"
proof -
  have "case Iterate create f vaddr sz t a of Exit \<Rightarrow> True
      | Done (stop, t1, a1) \<Rightarrow> if stop then reach tr_start (tr_step ans) (t1, ext) else reach tr_start (tr_step ans) (t1, ext)"
  proof (rule Iterate_rule [where I = "\<lambda>W t1 a. reach tr_start (tr_step ans) (t1, ext)" and S = "\<lambda>t1 a. reach tr_start (tr_step ans) (t1, ext)"])
    fix W :: "nat set" and r off bytes :: nat and t1 :: MemoryTracker and a
    assume "reach tr_start (tr_step ans) (t1, ext)" "piece_ok off bytes" "r < 2 ^ 18"
    then show "case visit create f (r, off, bytes) t1 a of Exit \<Rightarrow> True
      | Done (stop, t1, a1) \<Rightarrow> if stop then reach tr_start (tr_step ans) (t1, ext) else reach tr_start (tr_step ans) (t1, ext)"
      using assms(1) [of r off bytes t1 a] by (auto intro: reach_step split: outcome.splits)
  qed (use assms in auto)
  then show ?thesis using assms(3) by auto
qed

lemma inv_modes:
  assumes "tracker_inv ext t"
  shows "cpu_pages t \<inter> gpu_pages t = {} \<and> (\<forall>p. (pg_host (mt_pages t) p = ModeNoAccess) = (p \<in> gpu_pages t) \<and>
    (pg_host (mt_pages t) p \<in> {ModeReadWrite, ModeExecuteReadWrite}) = (p \<in> cpu_pages t \<and> ext p = 0))"
proof -
  have d: "p \<notin> gpu_pages t" if p: "p \<in> cpu_pages t" for p
  proof (cases "mt_regions t (p div 1024)")
    case (Some rg)
    then have "region_ok (p div 1024) rg" using assms by (simp add: tracker_inv_def)
    then show ?thesis using p Some by (auto simp: region_ok_def cpu_pages_def gpu_pages_def)
  qed (simp add: gpu_pages_def)
  have "(pg_host (mt_pages t) p = ModeNoAccess) = (p \<in> gpu_pages t) \<and>
    (pg_host (mt_pages t) p \<in> {ModeReadWrite, ModeExecuteReadWrite}) = (p \<in> cpu_pages t \<and> ext p = 0)" for p
  proof -
    let ?s = "page_at (mt_pages t) p"
    have m: "mode_ok (pg_host (mt_pages t) p) (Perms ?s)" using assms by (simp add: tracker_inv_def pages_ok_def)
    have c: "unat (write_watchers ?s) = ext p + of_bool (p \<notin> cpu_pages t)" "(access_watchers ?s \<noteq> 0) = (p \<in> gpu_pages t)"
      using assms by (simp_all add: tracker_inv_def counts_ok_def)
    have "write_watchers ?s = 0 \<longleftrightarrow> p \<in> cpu_pages t \<and> ext p = 0"
      using c(1) by (auto simp: unat_eq_0 [symmetric])
    then show ?thesis using m c(2) d [of p] by (auto simp: mode_ok_def Perms_def split: if_splits)
  qed
  then show ?thesis using d by blast
qed

text \<open>C32. What the guest's accesses meet, in every state that operations of the tracker, region by region, and of the texture cache
  can lead to: no page is modified by both sides; a page admits no access exactly if the GPU has modified it, so that
  the CPU cannot read what has not been downloaded; and a page can be written without a trap exactly if it is already the CPU's and the
  texture cache does not watch it, so that no write goes unnoticed.\<close>

theorem tracker_traps:
  assumes "reach tr_start (tr_step ans) (t, ext)"
  shows "cpu_pages t \<inter> gpu_pages t = {} \<and> (\<forall>p. (pg_host (mt_pages t) p = ModeNoAccess) = (p \<in> gpu_pages t) \<and>
    (pg_host (mt_pages t) p \<in> {ModeReadWrite, ModeExecuteReadWrite}) = (p \<in> cpu_pages t \<and> ext p = 0))"
  using tr.reach_inv [OF assms] by (intro inv_modes) simp

lemma tracker_traps_witness:
  "case MarkRegionAsCpuModified (\<lambda>_ _ _. True) 8192 100 new_tracker of
    Done t \<Rightarrow> pg_host (mt_pages t) 2 \<in> {ModeReadWrite, ModeExecuteReadWrite} | Exit \<Rightarrow> False"
proof -
  let ?a = "\<lambda>_ _ _. True"
  have r: "tracker_range_ok 8192 100" by (simp add: tracker_range_ok_def tracker_sizes)
  note I = Iterate_change [OF new_tracker_inv(1) r, where create = True and source = CpuDirty and enable = True and ans = ?a]
  obtain t1 where t1: "Iterate True (change ?a CpuDirty True) 8192 100 new_tracker () = Done (False, t1, ())" "cpu_pages t1 = UNIV"
    using I new_tracker_inv(2,3) by (auto simp: changed_def split: outcome.splits)
  have "reach tr_start (tr_step ?a) (new_tracker, \<lambda>_. 0)" by (rule reach_start) (simp add: tr_start_def new_tracker_def)
  then have "reach tr_start (tr_step ?a) (t1, \<lambda>_. 0)"
    by (rule Iterate_reach [OF _ r t1(1), rotated]) (auto intro: tr_change)
  from tracker_traps [OF this] show ?thesis using t1 by (simp add: MarkRegionAsCpuModified_def)
qed

end
