(* ===== verification/X64Emulator.thy ===== *)
theory X64Emulator
  imports Prelude
begin

text \<open>
  Instructions that the host lacks, \<open>src/loader/x64InstructionEmulator.cpp\<close> in its Linux branch: the SSE4a bit
  fields, the SHA extensions, and \<open>MONITORX\<close> with \<open>MWAITX\<close>. The signal context is a record of the registers, and memory a
  function from addresses to bytes. Addresses wrap at 64 bits as the pointers of the source do.
\<close>

section \<open>Bit fields\<close>

definition ExtractBitField :: "u64 \<Rightarrow> u32 \<Rightarrow> u32 \<Rightarrow> u64" where
  "ExtractBitField value len index =
    (let l = unat (len AND 0x3f); i = unat (index AND 0x3f); l = (if l = 0 then 64 else l)
     in if 64 \<le> i then 0
        else
          let available = 64 - i; l = (if available < l then available else l);
              msk = (if l = 64 then UINT64_MAX else push_bit l 1 - 1)
          in drop_bit i value AND msk)"

definition InsertBitField :: "u64 \<Rightarrow> u64 \<Rightarrow> u32 \<Rightarrow> u32 \<Rightarrow> u64" where
  "InsertBitField dst src len index =
    (let l = unat (len AND 0x3f); i = unat (index AND 0x3f); l = (if l = 0 then 64 else l)
     in if 64 \<le> i then dst
        else
          let available = 64 - i; l = (if available < l then available else l);
              msk = (if l = 64 then UINT64_MAX else push_bit l 1 - 1);
              shifted = (if i = 0 then msk else push_bit i msk); src_shifted = push_bit i (src AND msk)
          in (dst AND NOT shifted) OR src_shifted)"

section \<open>The SHA extensions\<close>

text \<open>A vector register, its words from the lowest to the highest.\<close>

record XmmWords =
  w0 :: u32
  w1 :: u32
  w2 :: u32
  w3 :: u32

text \<open>The rotations are only called with amounts from 1 to 31.\<close>

definition Rol32 :: "u32 \<Rightarrow> nat \<Rightarrow> u32" where
  "Rol32 value shift = (let s = shift mod 32 in push_bit s value OR drop_bit (32 - s) value)"

definition Rotr32 :: "u32 \<Rightarrow> nat \<Rightarrow> u32" where
  "Rotr32 value shift = (let s = shift mod 32 in drop_bit s value OR push_bit (32 - s) value)"

definition Sha1Msg1 :: "XmmWords \<Rightarrow> XmmWords \<Rightarrow> XmmWords" where
  "Sha1Msg1 dest src2 =
    \<lparr>w0 = w2 src2 XOR w0 dest, w1 = w3 src2 XOR w1 dest, w2 = w0 dest XOR w2 dest, w3 = w1 dest XOR w3 dest\<rparr>"

definition Sha1Msg2 :: "XmmWords \<Rightarrow> XmmWords \<Rightarrow> XmmWords" where
  "Sha1Msg2 dest src2 =
    (let w16 = Rol32 (w3 dest XOR w2 src2) 1;
         w17 = Rol32 (w2 dest XOR w1 src2) 1;
         w18 = Rol32 (w1 dest XOR w0 src2) 1;
         w19 = Rol32 (w0 dest XOR w16) 1
     in \<lparr>w0 = w19, w1 = w18, w2 = w17, w3 = w16\<rparr>)"

definition Sha1Nexte :: "XmmWords \<Rightarrow> XmmWords \<Rightarrow> XmmWords" where
  "Sha1Nexte dest src2 = \<lparr>w0 = w0 src2, w1 = w1 src2, w2 = w2 src2, w3 = w3 src2 + Rol32 (w3 dest) 30\<rparr>"

definition Sha1RoundFunc :: "u8 \<Rightarrow> u32 \<Rightarrow> u32 \<Rightarrow> u32 \<Rightarrow> u32" where
  "Sha1RoundFunc grp b c d =
    (let g = grp AND 3
     in if g = 0 then (b AND c) XOR (NOT b AND d)
        else if g = 1 then b XOR c XOR d
        else if g = 2 then (b AND c) XOR (b AND d) XOR (c AND d)
        else b XOR c XOR d)"

definition Sha1RoundConstant :: "u8 \<Rightarrow> u32" where
  "Sha1RoundConstant grp =
    (let g = grp AND 3
     in if g = 0 then 0x5a827999 else if g = 1 then 0x6ed9eba1 else if g = 2 then 0x8f1bbcdc else 0xca62c1d6)"

text \<open>One pass of the loop of \<open>Sha1Rnds4\<close>; only the first leaves out \<open>e\<close>.\<close>

type_synonym sha1_vars = "u32 \<times> u32 \<times> u32 \<times> u32 \<times> u32"

fun sha1_pass :: "u8 \<Rightarrow> nat \<times> u32 \<Rightarrow> sha1_vars \<Rightarrow> sha1_vars" where
  "sha1_pass grp (rnd, w) (a, b, c, d, e) =
    (let trm = Sha1RoundFunc grp b c d + Rol32 a 5 + w + Sha1RoundConstant grp;
         trm = (if rnd > 0 then trm + e else trm)
     in (trm, a, Rol32 b 30, c, d))"

definition Sha1Rnds4 :: "XmmWords \<Rightarrow> XmmWords \<Rightarrow> u8 \<Rightarrow> XmmWords" where
  "Sha1Rnds4 dest src2 imm8 =
    (let grp = imm8 AND 3
     in case fold (sha1_pass grp) (enumerate 0 [w3 src2, w2 src2, w1 src2, w0 src2]) (w3 dest, w2 dest, w1 dest, w0 dest, 0) of
          (a, b, c, d, e) \<Rightarrow> \<lparr>w0 = d, w1 = c, w2 = b, w3 = a\<rparr>)"

definition Sha256Sigma0 :: "u32 \<Rightarrow> u32" where
  "Sha256Sigma0 x = Rotr32 x 7 XOR Rotr32 x 18 XOR drop_bit 3 x"

definition Sha256Sigma1 :: "u32 \<Rightarrow> u32" where
  "Sha256Sigma1 x = Rotr32 x 17 XOR Rotr32 x 19 XOR drop_bit 10 x"

definition Sha256Sum0 :: "u32 \<Rightarrow> u32" where
  "Sha256Sum0 x = Rotr32 x 2 XOR Rotr32 x 13 XOR Rotr32 x 22"

definition Sha256Sum1 :: "u32 \<Rightarrow> u32" where
  "Sha256Sum1 x = Rotr32 x 6 XOR Rotr32 x 11 XOR Rotr32 x 25"

definition Sha256Ch :: "u32 \<Rightarrow> u32 \<Rightarrow> u32 \<Rightarrow> u32" where
  "Sha256Ch e f g = (e AND f) XOR (NOT e AND g)"

definition Sha256Maj :: "u32 \<Rightarrow> u32 \<Rightarrow> u32 \<Rightarrow> u32" where
  "Sha256Maj a b c = (a AND b) XOR (a AND c) XOR (b AND c)"

definition Sha256Msg1 :: "XmmWords \<Rightarrow> XmmWords \<Rightarrow> XmmWords" where
  "Sha256Msg1 dest src2 =
    \<lparr>w0 = w0 dest + Sha256Sigma0 (w1 dest), w1 = w1 dest + Sha256Sigma0 (w2 dest),
     w2 = w2 dest + Sha256Sigma0 (w3 dest), w3 = w3 dest + Sha256Sigma0 (w0 src2)\<rparr>"

definition Sha256Msg2 :: "XmmWords \<Rightarrow> XmmWords \<Rightarrow> XmmWords" where
  "Sha256Msg2 dest src2 =
    (let w16 = w0 dest + Sha256Sigma1 (w2 src2);
         w17 = w1 dest + Sha256Sigma1 (w3 src2);
         w18 = w2 dest + Sha256Sigma1 w16;
         w19 = w3 dest + Sha256Sigma1 w17
     in \<lparr>w0 = w16, w1 = w17, w2 = w18, w3 = w19\<rparr>)"

type_synonym sha256_vars = "u32 \<times> u32 \<times> u32 \<times> u32 \<times> u32 \<times> u32 \<times> u32 \<times> u32"

fun sha256_pass :: "u32 \<Rightarrow> sha256_vars \<Rightarrow> sha256_vars" where
  "sha256_pass wk (a, b, c, d, e, f, g, h) =
    (let t1 = Sha256Ch e f g + Sha256Sum1 e + wk + h;
         t2 = Sha256Maj a b c + Sha256Sum0 a
     in (t1 + t2, a, b, c, t1 + d, e, f, g))"

definition Sha256Rnds2 :: "XmmWords \<Rightarrow> XmmWords \<Rightarrow> XmmWords \<Rightarrow> XmmWords" where
  "Sha256Rnds2 dest src2 xmm0 =
    (case fold sha256_pass [w0 xmm0, w1 xmm0] (w3 src2, w2 src2, w3 dest, w2 dest, w1 src2, w0 src2, w1 dest, w0 dest) of
       (a, b, c, d, e, f, g, h) \<Rightarrow> \<lparr>w0 = f, w1 = e, w2 = b, w3 = a\<rparr>)"

section \<open>Decoding\<close>

text \<open>The bytes at the instruction pointer, by their distance from it.\<close>

type_synonym code = "nat \<Rightarrow> u8"

record ShaNiInsn =
  escape :: u8
  opcode :: u8
  imm8 :: u8
  rex :: u8
  modrm_offset :: nat
  insn_length :: nat

text \<open>The prefix that both decoders look for, and how far it reaches.\<close>

definition rex_prefix :: "code \<Rightarrow> nat \<Rightarrow> u8 \<times> nat" where
  "rex_prefix rip offset = (if rip offset AND 0xf0 = 0x40 then (rip offset, offset + 1) else (0, offset))"

text \<open>The end of the operands.\<close>

definition operand_end :: "code \<Rightarrow> nat \<Rightarrow> nat" where
  "operand_end rip modrm_at =
    (let modrm = rip modrm_at; md = drop_bit 6 modrm; rm = modrm AND 7; end_at = modrm_at + 1
     in if md = 3 then end_at
        else
          let (sib_base, end_at) = (if rm = 4 then (rip end_at AND 7, end_at + 1) else (0xff, end_at))
          in if md = 0 \<and> (rm = 5 \<or> (rm = 4 \<and> sib_base = 5)) then end_at + 4
             else if md = 1 then end_at + 1
             else if md = 2 then end_at + 4
             else end_at)"

definition DecodeShaNiInsn :: "code \<Rightarrow> ShaNiInsn option" where
  "DecodeShaNiInsn rip =
    (let (rx, offset) = rex_prefix rip 0
     in if rip offset \<noteq> 0x0f then None
        else
          let head =
            (if rip (offset + 1) = 0x38 then
               let op = rip (offset + 2)
               in if op \<noteq> 0xc8 \<and> op \<noteq> 0xc9 \<and> op \<noteq> 0xca \<and> op \<noteq> 0xcb \<and> op \<noteq> 0xcc \<and> op \<noteq> 0xcd then None else Some (0x38, op)
             else if rip (offset + 1) = 0x3a \<and> rip (offset + 2) = 0xcc then Some (0x3a, 0xcc)
             else None)
          in case head of
               None \<Rightarrow> None
             | Some (esc, op) \<Rightarrow>
                 let modrm_at = offset + 3; end_at = operand_end rip modrm_at;
                     (imm, end_at) = (if esc = 0x3a then (rip end_at, end_at + 1) else (0, end_at))
                 in Some \<lparr>escape = esc, opcode = op, imm8 = imm, rex = rx, modrm_offset = modrm_at, insn_length = end_at\<rparr>)"

definition ShaNiModrmIsRegister :: "u8 \<Rightarrow> bool" where
  "ShaNiModrmIsRegister modrm \<longleftrightarrow> modrm AND 0xc0 = 0xc0"

definition ShaNiRegIndex :: "u8 \<Rightarrow> u8 \<Rightarrow> bool \<Rightarrow> u8" where
  "ShaNiRegIndex modrm rx reg_field =
    (if reg_field then (drop_bit 3 modrm AND 7) OR push_bit 1 (rx AND 4) else (modrm AND 7) OR push_bit 3 (rx AND 1))"

text \<open>\<open>memcpy\<close> of a displacement, and its sign extension.\<close>

definition le32 :: "u8 \<Rightarrow> u8 \<Rightarrow> u8 \<Rightarrow> u8 \<Rightarrow> u32" where
  "le32 b0 b1 b2 b3 = ucast b0 OR push_bit 8 (ucast b1) OR push_bit 16 (ucast b2) OR push_bit 24 (ucast b3)"

definition int32_at :: "code \<Rightarrow> nat \<Rightarrow> u32" where
  "int32_at rip offset = le32 (rip offset) (rip (offset + 1)) (rip (offset + 2)) (rip (offset + 3))"

definition base_value :: "u8 \<Rightarrow> u8 \<Rightarrow> u64 list \<Rightarrow> u64" where
  "base_value rx base_low gprs = gprs ! unat (base_low OR push_bit 3 (rx AND 1))"

definition index_value :: "u8 \<Rightarrow> u8 \<Rightarrow> u64 list \<Rightarrow> u64" where
  "index_value rx sib gprs =
    (let scl = unat (drop_bit 6 sib); index_low = drop_bit 3 sib AND 7
     in if index_low \<noteq> 4 \<or> rx AND 2 \<noteq> 0 then push_bit scl (gprs ! unat (index_low OR push_bit 2 (rx AND 2))) else 0)"

definition ResolveShaNiMemoryAddress :: "u64 \<Rightarrow> code \<Rightarrow> ShaNiInsn \<Rightarrow> u64 list \<Rightarrow> u64 option" where
  "ResolveShaNiMemoryAddress rip_address rip insn gprs =
    (let modrm = rip (modrm_offset insn); md = drop_bit 6 modrm; rm = modrm AND 7; offset = modrm_offset insn + 1
     in if md = 3 then None
        else
          let (result, offset) =
            (if rm = 4 then
               let sib = rip offset; offset = offset + 1; base_low = sib AND 7; has_base = (md \<noteq> 0 \<or> base_low \<noteq> 5);
                   result = (if has_base then base_value (rex insn) base_low gprs else 0) + index_value (rex insn) sib gprs
               in if \<not> has_base then (result + scast (int32_at rip offset), offset + 4) else (result, offset)
             else if md = 0 \<and> rm = 5 then
               (rip_address + of_nat (insn_length insn) + scast (int32_at rip offset), offset + 4)
             else (base_value (rex insn) rm gprs, offset))
          in Some (if md = 1 then result + scast (rip offset)
                   else if md = 2 then result + scast (int32_at rip offset)
                   else result))"

definition ExecuteShaNiInsn :: "ShaNiInsn \<Rightarrow> XmmWords \<Rightarrow> XmmWords \<Rightarrow> XmmWords \<Rightarrow> XmmWords option" where
  "ExecuteShaNiInsn insn src2 xmm0 dest =
    (if escape insn = 0x3a \<and> opcode insn = 0xcc then Some (Sha1Rnds4 dest src2 (imm8 insn))
     else if opcode insn = 0xc8 then Some (Sha1Nexte dest src2)
     else if opcode insn = 0xc9 then Some (Sha1Msg1 dest src2)
     else if opcode insn = 0xca then Some (Sha1Msg2 dest src2)
     else if opcode insn = 0xcb then Some (Sha256Rnds2 dest src2 xmm0)
     else if opcode insn = 0xcc then Some (Sha256Msg1 dest src2)
     else if opcode insn = 0xcd then Some (Sha256Msg2 dest src2)
     else None)"

section \<open>Emulating\<close>

text \<open>The signal context. \<open>None\<close> is the answer that the instruction is not emulated, and leaves the context alone.\<close>

record cpu_context =
  cpu_rip :: u64
  cpu_gprs :: "u64 list"
  cpu_xmm :: "XmmWords list"

type_synonym memory = "u64 \<Rightarrow> u8"

definition code_at :: "memory \<Rightarrow> u64 \<Rightarrow> code" where
  "code_at mem rip = (\<lambda>n. mem (rip + of_nat n))"

definition GetContextXmm :: "cpu_context \<Rightarrow> u8 \<Rightarrow> XmmWords option" where
  "GetContextXmm cpu index = (if 16 \<le> index then None else Some (cpu_xmm cpu ! unat index))"

definition set_xmm :: "u8 \<Rightarrow> XmmWords \<Rightarrow> cpu_context \<Rightarrow> cpu_context" where
  "set_xmm index x cpu = cpu\<lparr>cpu_xmm := (cpu_xmm cpu)[unat index := x]\<rparr>"

definition advance :: "nat \<Rightarrow> cpu_context \<Rightarrow> cpu_context" where
  "advance n cpu = cpu\<lparr>cpu_rip := cpu_rip cpu + of_nat n\<rparr>"

definition word_at :: "memory \<Rightarrow> u64 \<Rightarrow> u32" where
  "word_at mem a = le32 (mem a) (mem (a + 1)) (mem (a + 2)) (mem (a + 3))"

definition xmm_at :: "memory \<Rightarrow> u64 \<Rightarrow> XmmWords" where
  "xmm_at mem a = \<lparr>w0 = word_at mem a, w1 = word_at mem (a + 4), w2 = word_at mem (a + 8), w3 = word_at mem (a + 12)\<rparr>"

definition TryEmulateShaNi :: "memory \<Rightarrow> cpu_context \<Rightarrow> cpu_context option" where
  "TryEmulateShaNi mem cpu =
    (let rip = code_at mem (cpu_rip cpu)
     in case DecodeShaNiInsn rip of
          None \<Rightarrow> None
        | Some insn \<Rightarrow>
            let modrm = rip (modrm_offset insn); dest_index = ShaNiRegIndex modrm (rex insn) True
            in case (GetContextXmm cpu dest_index, GetContextXmm cpu 0) of
                 (Some dest, Some xmm0) \<Rightarrow>
                   (case (if ShaNiModrmIsRegister modrm then GetContextXmm cpu (ShaNiRegIndex modrm (rex insn) False)
                          else map_option (xmm_at mem) (ResolveShaNiMemoryAddress (cpu_rip cpu) rip insn (cpu_gprs cpu))) of
                      None \<Rightarrow> None
                    | Some src2 \<Rightarrow>
                        (case ExecuteShaNiInsn insn src2 xmm0 dest of
                           None \<Rightarrow> None
                         | Some result \<Rightarrow> Some (advance (insn_length insn) (set_xmm dest_index result cpu))))
               | _ \<Rightarrow> None)"

definition GetXmmLow :: "XmmWords \<Rightarrow> u64" where
  "GetXmmLow x = ucast (w0 x) OR push_bit 32 (ucast (w1 x))"

definition SetXmmLow :: "u64 \<Rightarrow> XmmWords \<Rightarrow> XmmWords" where
  "SetXmmLow value x = x\<lparr>w0 := ucast value, w1 := ucast (drop_bit 32 value)\<rparr>"

definition SetXmmHigh :: "u64 \<Rightarrow> XmmWords \<Rightarrow> XmmWords" where
  "SetXmmHigh value x = x\<lparr>w2 := ucast value, w3 := ucast (drop_bit 32 value)\<rparr>"

definition TryEmulateSse4a :: "memory \<Rightarrow> cpu_context \<Rightarrow> cpu_context option" where
  "TryEmulateSse4a mem cpu =
    (let rip = code_at mem (cpu_rip cpu); prefix = rip 0
     in if prefix \<noteq> 0x66 \<and> prefix \<noteq> 0xf2 then None
        else
          let (rx, offset) = rex_prefix rip 1
          in if rip offset \<noteq> 0x0f \<or> rip (offset + 1) \<noteq> 0x78 then None
             else
               let modrm = rip (offset + 2)
               in if modrm AND 0xc0 \<noteq> 0xc0 then None
                  else
                    let reg = ShaNiRegIndex modrm rx True; rm = ShaNiRegIndex modrm rx False;
                        len = ucast (rip (offset + 3)); index = ucast (rip (offset + 4))
                    in if prefix = 0x66 then
                         (case GetContextXmm cpu rm of
                            None \<Rightarrow> None
                          | Some dst \<Rightarrow>
                              Some (advance (offset + 5)
                                (set_xmm rm (SetXmmHigh 0 (SetXmmLow (ExtractBitField (GetXmmLow dst) len index) dst)) cpu)))
                       else
                         (case (GetContextXmm cpu reg, GetContextXmm cpu rm) of
                            (Some dst, Some src) \<Rightarrow>
                              Some (advance (offset + 5)
                                (set_xmm reg (SetXmmLow (InsertBitField (GetXmmLow dst) (GetXmmLow src) len index) dst) cpu))
                          | _ \<Rightarrow> None))"

definition TryEmulateMonitorxMwaitx :: "memory \<Rightarrow> cpu_context \<Rightarrow> cpu_context option" where
  "TryEmulateMonitorxMwaitx mem cpu =
    (let rip = code_at mem (cpu_rip cpu)
     in if rip 0 \<noteq> 0x0f \<or> rip 1 \<noteq> 0x01 \<or> (rip 2 \<noteq> 0xfa \<and> rip 2 \<noteq> 0xfb) then None else Some (advance 3 cpu))"

definition TryEmulate :: "memory \<Rightarrow> cpu_context \<Rightarrow> cpu_context option" where
  "TryEmulate mem cpu =
    (case TryEmulateMonitorxMwaitx mem cpu of
       Some cpu1 \<Rightarrow> Some cpu1
     | None \<Rightarrow> (case TryEmulateSse4a mem cpu of Some cpu1 \<Rightarrow> Some cpu1 | None \<Rightarrow> TryEmulateShaNi mem cpu))"

end
