(* ===== verification/X64EmulatorProps.thy ===== *)
theory X64EmulatorProps
  imports X64Emulator
begin

text \<open>
  Properties of the emulated instructions: they compute what the hash standard and the processor manuals
  say, the decoder reads every encoding back, and nothing but the destination and the instruction pointer changes.
\<close>

section \<open>SHA-256\<close>

text \<open>The functions of FIPS 180-4, with the rotations of the library.\<close>

definition spec_Sum0 :: "u32 \<Rightarrow> u32" where
  "spec_Sum0 x = word_rotr 2 x XOR word_rotr 13 x XOR word_rotr 22 x"

definition spec_Sum1 :: "u32 \<Rightarrow> u32" where
  "spec_Sum1 x = word_rotr 6 x XOR word_rotr 11 x XOR word_rotr 25 x"

definition spec_sigma0 :: "u32 \<Rightarrow> u32" where
  "spec_sigma0 x = word_rotr 7 x XOR word_rotr 18 x XOR drop_bit 3 x"

definition spec_sigma1 :: "u32 \<Rightarrow> u32" where
  "spec_sigma1 x = word_rotr 17 x XOR word_rotr 19 x XOR drop_bit 10 x"

definition spec_Ch :: "u32 \<Rightarrow> u32 \<Rightarrow> u32 \<Rightarrow> u32" where
  "spec_Ch x y z = (x AND y) XOR (NOT x AND z)"

definition spec_Parity :: "u32 \<Rightarrow> u32 \<Rightarrow> u32 \<Rightarrow> u32" where
  "spec_Parity x y z = x XOR y XOR z"

definition spec_Maj :: "u32 \<Rightarrow> u32 \<Rightarrow> u32 \<Rightarrow> u32" where
  "spec_Maj x y z = (x AND y) XOR (x AND z) XOR (y AND z)"

text \<open>One round; \<open>kw\<close> is the sum of the round constant and the word of the schedule.\<close>

fun spec_sha256_round :: "u32 \<Rightarrow> sha256_vars \<Rightarrow> sha256_vars" where
  "spec_sha256_round kw (a, b, c, d, e, f, g, h) =
    (let t1 = h + spec_Sum1 e + spec_Ch e f g + kw; t2 = spec_Sum0 a + spec_Maj a b c
     in (t1 + t2, a, b, c, d + t1, e, f, g))"

fun spec_sha256_W :: "u32 list \<Rightarrow> nat \<Rightarrow> u32" where
  "spec_sha256_W M t = (if t < 16 then M ! t else
    spec_sigma1 (spec_sha256_W M (t - 2)) + spec_sha256_W M (t - 7) + spec_sigma0 (spec_sha256_W M (t - 15)) + spec_sha256_W M (t - 16))"

declare spec_sha256_W.simps [simp del]

lemma Rotr32_rotr: "0 < n \<Longrightarrow> n < 32 \<Longrightarrow> Rotr32 x n = word_rotr n x"
proof (rule bit_word_eqI)
  fix i assume n: "0 < n" "n < 32" and "i < LENGTH(32)"
  then have i: "i < 32" by simp
  show "bit (Rotr32 x n) i = bit (word_rotr n x) i"
  proof (cases "i + n < 32")
    case True
    then show ?thesis using n i by (auto simp: Rotr32_def Let_def bit_or_iff bit_drop_bit_eq bit_push_bit_iff bit_word_rotr_iff add.commute)
  next
    case False
    then have "(i + n) mod 32 = i - (32 - n)" using n i by (simp add: mod_if)
    moreover have "\<not> bit x (n + i)" using False by (auto dest: bit_imp_le_length)
    ultimately show ?thesis using n i False by (auto simp: Rotr32_def Let_def bit_or_iff bit_drop_bit_eq bit_push_bit_iff bit_word_rotr_iff)
  qed
qed

lemma Rol32_rotl: "0 < n \<Longrightarrow> n < 32 \<Longrightarrow> Rol32 x n = word_rotl n x"
proof -
  assume n: "0 < n" "n < 32"
  then have "Rol32 x n = Rotr32 x (32 - n)" by (simp add: Rol32_def Rotr32_def Let_def or.commute)
  also have "\<dots> = word_rotr (32 - n) x" using n by (intro Rotr32_rotr) simp_all
  also have "\<dots> = word_rotl n x" using n by (simp add: word_rotl_eq_word_rotr)
  finally show ?thesis .
qed

lemma sha256_functions: "Sha256Sum0 = spec_Sum0" "Sha256Sum1 = spec_Sum1" "Sha256Sigma0 = spec_sigma0" "Sha256Sigma1 = spec_sigma1"
    "Sha256Ch = spec_Ch" "Sha256Maj = spec_Maj"
  by (simp_all add: fun_eq_iff Sha256Sum0_def spec_Sum0_def Sha256Sum1_def spec_Sum1_def Sha256Sigma0_def spec_sigma0_def
    Sha256Sigma1_def spec_sigma1_def Sha256Ch_def spec_Ch_def Sha256Maj_def spec_Maj_def Rotr32_rotr)

text \<open>The registers in which a program keeps the variables, and its loop over pairs of rounds.\<close>

fun reg_abef :: "sha256_vars \<Rightarrow> XmmWords" where
  "reg_abef (a, b, c, d, e, f, g, h) = \<lparr>w0 = f, w1 = e, w2 = b, w3 = a\<rparr>"

fun reg_cdgh :: "sha256_vars \<Rightarrow> XmmWords" where
  "reg_cdgh (a, b, c, d, e, f, g, h) = \<lparr>w0 = h, w1 = g, w2 = d, w3 = c\<rparr>"

definition rounds_step :: "u32 \<times> u32 \<Rightarrow> XmmWords \<times> XmmWords \<Rightarrow> XmmWords \<times> XmmWords" where
  "rounds_step kw s = (snd s, Sha256Rnds2 (fst s) (snd s) \<lparr>w0 = fst kw, w1 = snd kw, w2 = 0, w3 = 0\<rparr>)"

lemma vars8: obtains a b c d e f g h where "v = (a, b, c, d, e, f, g, h)"
  by (cases v rule: prod_cases7) (metis prod.collapse)

lemma sha256_pass_spec: "sha256_pass kw v = spec_sha256_round kw v"
proof (rule vars8 [of v])
  fix a b c d e f g h assume v: "v = (a, b, c, d, e, f, g, h)"
  have "Sha256Ch e f g + Sha256Sum1 e + kw + h = h + spec_Sum1 e + spec_Ch e f g + kw"
    "Sha256Maj a b c + Sha256Sum0 a = spec_Sum0 a + spec_Maj a b c"
    by (simp_all add: sha256_functions)
  then show ?thesis unfolding v sha256_pass.simps spec_sha256_round.simps Let_def by (simp only: add.commute [of d])
qed

lemma Rnds2_spec: "Sha256Rnds2 (reg_cdgh v) (reg_abef v) x = reg_abef (spec_sha256_round (w1 x) (spec_sha256_round (w0 x) v))"
  and rounds_cdgh: "reg_cdgh (spec_sha256_round k2 (spec_sha256_round k1 v)) = reg_abef v"
proof -
  obtain a b c d e f g h where v: "v = (a, b, c, d, e, f, g, h)" by (rule vars8)
  obtain a' b' c' d' e' f' g' h' where r: "spec_sha256_round (w1 x) (spec_sha256_round (w0 x) v) = (a', b', c', d', e', f', g', h')" by (rule vars8)
  show "Sha256Rnds2 (reg_cdgh v) (reg_abef v) x = reg_abef (spec_sha256_round (w1 x) (spec_sha256_round (w0 x) v))"
    unfolding Sha256Rnds2_def sha256_pass_spec fold_simps r using r by (simp add: v fold_simps sha256_pass_spec del: spec_sha256_round.simps)
  show "reg_cdgh (spec_sha256_round k2 (spec_sha256_round k1 v)) = reg_abef v" by (simp add: v Let_def)
qed

text \<open>Four words of a schedule in a register, and the sum of registers word by word.\<close>

definition quad :: "(nat \<Rightarrow> u32) \<Rightarrow> nat \<Rightarrow> XmmWords" where
  "quad W t = \<lparr>w0 = W t, w1 = W (t + 1), w2 = W (t + 2), w3 = W (t + 3)\<rparr>"

definition add_words :: "XmmWords \<Rightarrow> XmmWords \<Rightarrow> XmmWords" where
  "add_words x y = \<lparr>w0 = w0 x + w0 y, w1 = w1 x + w1 y, w2 = w2 x + w2 y, w3 = w3 x + w3 y\<rparr>"

lemma sha256_msg: "Sha256Msg2 (add_words (Sha256Msg1 \<lparr>w0 = x0, w1 = x1, w2 = x2, w3 = x3\<rparr> \<lparr>w0 = x4, w1 = x5, w2 = x6, w3 = x7\<rparr>)
      \<lparr>w0 = x9, w1 = x10, w2 = x11, w3 = x12\<rparr>) \<lparr>w0 = x12', w1 = x13, w2 = x14, w3 = x15\<rparr> =
    (let x16 = spec_sigma1 x14 + x9 + spec_sigma0 x1 + x0; x17 = spec_sigma1 x15 + x10 + spec_sigma0 x2 + x1
     in \<lparr>w0 = x16, w1 = x17, w2 = spec_sigma1 x16 + x11 + spec_sigma0 x3 + x2, w3 = spec_sigma1 x17 + x12 + spec_sigma0 x4 + x3\<rparr>)"
  unfolding Sha256Msg1_def Sha256Msg2_def add_words_def sha256_functions XmmWords.simps Let_def
  by (simp only: ac_simps)

text \<open>C14. The SHA-256 instructions hash. The usual loop, which keeps the eight variables in two registers and gives each pair of rounds to
  \<open>SHA256RNDS2\<close>, computes the rounds of FIPS 180-4 for any number of pairs; and \<open>SHA256MSG1\<close> and \<open>SHA256MSG2\<close>
  extend the message schedule of any block by four words at a time.\<close>

theorem sha256_exact:
  "(let final = fold spec_sha256_round (concat (map (\<lambda>(k1, k2). [k1, k2]) kws)) v
    in fold rounds_step kws (reg_cdgh v, reg_abef v) = (reg_cdgh final, reg_abef final)) \<and>
  (let W = spec_sha256_W M
   in Sha256Msg2 (add_words (Sha256Msg1 (quad W t) (quad W (t + 4))) (quad W (t + 9))) (quad W (t + 12)) = quad W (t + 16))"
proof (intro conjI)
  show "let final = fold spec_sha256_round (concat (map (\<lambda>(k1, k2). [k1, k2]) kws)) v
    in fold rounds_step kws (reg_cdgh v, reg_abef v) = (reg_cdgh final, reg_abef final)"
  proof (induction kws arbitrary: v)
    case (Cons kw kws)
    obtain k1 k2 where "kw = (k1, k2)" by (cases kw)
    then show ?case using Cons.IH [of "spec_sha256_round k2 (spec_sha256_round k1 v)"]
      by (simp add: rounds_step_def Rnds2_spec rounds_cdgh Let_def del: spec_sha256_round.simps)
  qed simp
  have q:
    "quad W t = \<lparr>w0 = W t, w1 = W (t + 1), w2 = W (t + 2), w3 = W (t + 3)\<rparr>"
    "quad W (t + 4) = \<lparr>w0 = W (t + 4), w1 = W (t + 5), w2 = W (t + 6), w3 = W (t + 7)\<rparr>"
    "quad W (t + 9) = \<lparr>w0 = W (t + 9), w1 = W (t + 10), w2 = W (t + 11), w3 = W (t + 12)\<rparr>"
    "quad W (t + 12) = \<lparr>w0 = W (t + 12), w1 = W (t + 13), w2 = W (t + 14), w3 = W (t + 15)\<rparr>"
    "quad W (t + 16) = \<lparr>w0 = W (t + 16), w1 = W (t + 17), w2 = W (t + 18), w3 = W (t + 19)\<rparr>" for W
    by (simp_all add: quad_def add.assoc add.commute)
  have W:
    "spec_sha256_W M (t + 16) = spec_sigma1 (spec_sha256_W M (t + 14)) + spec_sha256_W M (t + 9) + spec_sigma0 (spec_sha256_W M (t + 1)) + spec_sha256_W M t"
    "spec_sha256_W M (t + 17) = spec_sigma1 (spec_sha256_W M (t + 15)) + spec_sha256_W M (t + 10) + spec_sigma0 (spec_sha256_W M (t + 2)) + spec_sha256_W M (t + 1)"
    "spec_sha256_W M (t + 18) = spec_sigma1 (spec_sha256_W M (t + 16)) + spec_sha256_W M (t + 11) + spec_sigma0 (spec_sha256_W M (t + 3)) + spec_sha256_W M (t + 2)"
    "spec_sha256_W M (t + 19) = spec_sigma1 (spec_sha256_W M (t + 17)) + spec_sha256_W M (t + 12) + spec_sigma0 (spec_sha256_W M (t + 4)) + spec_sha256_W M (t + 3)"
    by (subst spec_sha256_W.simps; simp add: add.commute [of _ t])+
  show "let W = spec_sha256_W M
   in Sha256Msg2 (add_words (Sha256Msg1 (quad W t) (quad W (t + 4))) (quad W (t + 9))) (quad W (t + 12)) = quad W (t + 16)"
    by (simp only: q sha256_msg Let_def W)
qed

section \<open>SHA-1\<close>

text \<open>Rounds of one of the four groups, with the functions and the constants of the standard.\<close>

definition spec_sha1_f :: "nat \<Rightarrow> u32 \<Rightarrow> u32 \<Rightarrow> u32 \<Rightarrow> u32" where
  "spec_sha1_f q = (if q = 0 then spec_Ch else if q = 2 then spec_Maj else spec_Parity)"

definition spec_sha1_K :: "nat \<Rightarrow> u32" where
  "spec_sha1_K q = (if q = 0 then 0x5a827999 else if q = 1 then 0x6ed9eba1 else if q = 2 then 0x8f1bbcdc else 0xca62c1d6)"

fun spec_sha1_round :: "nat \<times> u32 \<Rightarrow> sha1_vars \<Rightarrow> sha1_vars" where
  "spec_sha1_round (q, w) (a, b, c, d, e) =
    (word_rotl 5 a + spec_sha1_f q b c d + e + spec_sha1_K q + w, a, word_rotl 30 b, c, d)"

fun spec_sha1_W :: "u32 list \<Rightarrow> nat \<Rightarrow> u32" where
  "spec_sha1_W M t = (if t < 16 then M ! t else
    word_rotl 1 (spec_sha1_W M (t - 3) XOR spec_sha1_W M (t - 8) XOR spec_sha1_W M (t - 14) XOR spec_sha1_W M (t - 16)))"

declare spec_sha1_W.simps [simp del]

fun reg_abcd :: "sha1_vars \<Rightarrow> XmmWords" where
  "reg_abcd (a, b, c, d, e) = \<lparr>w0 = d, w1 = c, w2 = b, w3 = a\<rparr>"

definition rev_quad :: "(nat \<Rightarrow> u32) \<Rightarrow> nat \<Rightarrow> XmmWords" where
  "rev_quad W t = \<lparr>w0 = W (t + 3), w1 = W (t + 2), w2 = W (t + 1), w3 = W t\<rparr>"

definition xor_words :: "XmmWords \<Rightarrow> XmmWords \<Rightarrow> XmmWords" where
  "xor_words x y = \<lparr>w0 = w0 x XOR w0 y, w1 = w1 x XOR w1 y, w2 = w2 x XOR w2 y, w3 = w3 x XOR w3 y\<rparr>"

text \<open>Four rounds of the group \<open>q\<close>: the registers before and the message, the registers after. The variable \<open>e\<close> is
  a rotation of what was \<open>a\<close> four rounds before.\<close>

definition rounds4_step :: "2 word \<times> XmmWords \<Rightarrow> XmmWords \<times> XmmWords \<Rightarrow> XmmWords \<times> XmmWords" where
  "rounds4_step m s = (Sha1Rnds4 (fst s) (Sha1Nexte (snd s) (snd m)) (ucast (fst m)), fst s)"

definition four_rounds :: "2 word \<times> XmmWords \<Rightarrow> (nat \<times> u32) list" where
  "four_rounds m = map (Pair (unat (fst m))) [w3 (snd m), w2 (snd m), w1 (snd m), w0 (snd m)]"

lemma sha1_functions:
  "Sha1RoundFunc (ucast q AND 3) = spec_sha1_f (unat q)" "Sha1RoundConstant (ucast q AND 3) = spec_sha1_K (unat q)" for q :: "2 word"
proof -
  have "unat q < 4" using unsigned_less [of q, where 'a = nat] by simp
  then have "unat q = 0 \<or> unat q = 1 \<or> unat q = 2 \<or> unat q = 3" by linarith
  then have "q = 0 \<or> q = 1 \<or> q = 2 \<or> q = 3" by (simp add: word_unat_eq_iff)
  then show "Sha1RoundFunc (ucast q AND 3) = spec_sha1_f (unat q)" "Sha1RoundConstant (ucast q AND 3) = spec_sha1_K (unat q)"
    by (elim disjE; simp add: fun_eq_iff Sha1RoundFunc_def Sha1RoundConstant_def spec_Ch_def spec_Parity_def spec_Maj_def spec_sha1_K_def
      spec_sha1_f_def)+
qed

lemma Rnds4_spec:
  assumes "e = word_rotl 30 (w3 prev)"
  shows "Sha1Rnds4 (reg_abcd (a, b, c, d, e)) (Sha1Nexte prev m) (ucast q) = reg_abcd (fold spec_sha1_round (four_rounds (q, m)) (a, b, c, d, e))"
    and "\<exists>a' b' c' d'. fold spec_sha1_round (four_rounds (q, m)) (a, b, c, d, e) = (a', b', c', d', word_rotl 30 a)"
  by (simp_all add: Sha1Rnds4_def Sha1Nexte_def four_rounds_def sha1_functions Rol32_rotl assms Let_def ac_simps)

lemma sha1_msg: "Sha1Msg2 (xor_words (Sha1Msg1 \<lparr>w0 = x3, w1 = x2, w2 = x1, w3 = x0\<rparr> \<lparr>w0 = x7, w1 = x6, w2 = x5, w3 = x4\<rparr>)
      \<lparr>w0 = x11, w1 = x10, w2 = x9, w3 = x8\<rparr>) \<lparr>w0 = x15, w1 = x14, w2 = x13, w3 = x12\<rparr> =
    (let x16 = word_rotl 1 (x13 XOR x8 XOR x2 XOR x0)
     in \<lparr>w0 = word_rotl 1 (x16 XOR x11 XOR x5 XOR x3), w1 = word_rotl 1 (x15 XOR x10 XOR x4 XOR x2),
         w2 = word_rotl 1 (x14 XOR x9 XOR x3 XOR x1), w3 = x16\<rparr>)"
proof -
  have r: "Rol32 x 1 = word_rotl 1 x" for x by (simp add: Rol32_rotl)
  show ?thesis
    unfolding Sha1Msg1_def Sha1Msg2_def xor_words_def r XmmWords.simps Let_def by (simp only: ac_simps)
qed

text \<open>The SHA-1 instructions hash. A loop over groups of four rounds with \<open>SHA1NEXTE\<close> and \<open>SHA1RNDS4\<close> computes the rounds of
  FIPS 180-4, of any groups and for any number of them; and \<open>SHA1MSG1\<close> and \<open>SHA1MSG2\<close> with an exclusive or extend
  the message schedule by four words at a time.\<close>

lemma sha1_exact:
  "(let final = fold spec_sha1_round (concat (map four_rounds ms)) (a, b, c, d, word_rotl 30 (w3 prev))
    in \<exists>prev'. fold rounds4_step ms (reg_abcd (a, b, c, d, e), prev) = (reg_abcd final, prev') \<and>
      snd (snd (snd (snd final))) = word_rotl 30 (w3 prev')) \<and>
    (let W = spec_sha1_W M
     in Sha1Msg2 (xor_words (Sha1Msg1 (rev_quad W t) (rev_quad W (t + 4))) (rev_quad W (t + 8))) (rev_quad W (t + 12)) = rev_quad W (t + 16))"
proof (rule conjI)
  show "let final = fold spec_sha1_round (concat (map four_rounds ms)) (a, b, c, d, word_rotl 30 (w3 prev))
    in \<exists>prev'. fold rounds4_step ms (reg_abcd (a, b, c, d, e), prev) = (reg_abcd final, prev') \<and>
      snd (snd (snd (snd final))) = word_rotl 30 (w3 prev')"
  proof (induction ms arbitrary: a b c d e prev)
    case (Cons m ms)
    obtain q x where m: "m = (q, x)" by (cases m)
    let ?v = "(a, b, c, d, word_rotl 30 (w3 prev))"
    note R = Rnds4_spec [OF refl, where q = q and prev = prev and a = a and b = b and c = c and d = d and m = x]
    obtain a' b' c' d' where n: "fold spec_sha1_round (four_rounds (q, x)) ?v = (a', b', c', d', word_rotl 30 a)" using R(2) by blast
    have w: "w3 (reg_abcd ?v) = a" by simp
    show ?case
      using Cons.IH [where a = a' and b = b' and c = c' and d = d' and e = "word_rotl 30 a" and prev = "reg_abcd ?v"] R(1)
      unfolding m n by (simp add: rounds4_step_def n w del: spec_sha1_round.simps)
  qed simp
  have q:
    "rev_quad W t = \<lparr>w0 = W (t + 3), w1 = W (t + 2), w2 = W (t + 1), w3 = W t\<rparr>"
    "rev_quad W (t + 4) = \<lparr>w0 = W (t + 7), w1 = W (t + 6), w2 = W (t + 5), w3 = W (t + 4)\<rparr>"
    "rev_quad W (t + 8) = \<lparr>w0 = W (t + 11), w1 = W (t + 10), w2 = W (t + 9), w3 = W (t + 8)\<rparr>"
    "rev_quad W (t + 12) = \<lparr>w0 = W (t + 15), w1 = W (t + 14), w2 = W (t + 13), w3 = W (t + 12)\<rparr>"
    "rev_quad W (t + 16) = \<lparr>w0 = W (t + 19), w1 = W (t + 18), w2 = W (t + 17), w3 = W (t + 16)\<rparr>" for W
    by (simp_all add: rev_quad_def add.assoc add.commute)
  have W:
    "spec_sha1_W M (t + 16) = word_rotl 1 (spec_sha1_W M (t + 13) XOR spec_sha1_W M (t + 8) XOR spec_sha1_W M (t + 2) XOR spec_sha1_W M t)"
    "spec_sha1_W M (t + 17) = word_rotl 1 (spec_sha1_W M (t + 14) XOR spec_sha1_W M (t + 9) XOR spec_sha1_W M (t + 3) XOR spec_sha1_W M (t + 1))"
    "spec_sha1_W M (t + 18) = word_rotl 1 (spec_sha1_W M (t + 15) XOR spec_sha1_W M (t + 10) XOR spec_sha1_W M (t + 4) XOR spec_sha1_W M (t + 2))"
    "spec_sha1_W M (t + 19) = word_rotl 1 (spec_sha1_W M (t + 16) XOR spec_sha1_W M (t + 11) XOR spec_sha1_W M (t + 5) XOR spec_sha1_W M (t + 3))"
    by (subst spec_sha1_W.simps; simp add: add.commute [of _ t])+
  show "let W = spec_sha1_W M
     in Sha1Msg2 (xor_words (Sha1Msg1 (rev_quad W t) (rev_quad W (t + 4))) (rev_quad W (t + 8))) (rev_quad W (t + 12)) = rev_quad W (t + 16)"
    by (simp only: q sha1_msg Let_def W)
qed

section \<open>Bit fields\<close>

text \<open>Where a field begins and how wide it is, with both immediates taken modulo 64 and a length of zero standing for 64.\<close>

definition field_at :: "u32 \<Rightarrow> nat" where
  "field_at index = unat index mod 64"

definition field_width :: "u32 \<Rightarrow> u32 \<Rightarrow> nat" where
  "field_width len index = min (if field_at len = 0 then 64 else field_at len) (64 - field_at index)"

lemma six_bits: "unat (x AND 0x3f) = unat x mod 64" for x :: u32
proof -
  have "x AND 0x3f = take_bit 6 x" by (simp add: take_bit_eq_mask mask_eq_exp_minus_1)
  moreover have "unat (take_bit 6 x) = take_bit 6 (unat x)" by (rule unsigned_take_bit_eq)
  moreover have "take_bit 6 (unat x) = unat x mod 64" by (simp add: take_bit_eq_mod)
  ultimately show ?thesis by (simp only:)
qed

lemma ones_bit: "bit ((if l = 64 then UINT64_MAX else push_bit l 1 - 1) :: u64) n \<longleftrightarrow> n < l \<and> n < 64" if "l \<le> 64"
proof -
  have "((if l = 64 then UINT64_MAX else push_bit l 1 - 1) :: u64) = mask l"
    by (auto simp: mask_eq_exp_minus_1 push_bit_eq_mult)
  then show ?thesis by (simp add: bit_mask_iff) blast
qed

lemma field_bounds: "field_at index < 64" "field_width len index \<le> 64 - field_at index" "0 < field_width len index"
  by (auto simp: field_at_def field_width_def)

lemma field_width_if: "(if 64 - field_at index < (if field_at len = 0 then 64 else field_at len) then 64 - field_at index
    else if field_at len = 0 then 64 else field_at len) = field_width len index"
  by (simp add: field_width_def min_def)

lemma no_field_beyond: "(64 \<le> field_at index) = False"
  using field_bounds(1) [of index] by simp

abbreviation field_ones :: "u32 \<Rightarrow> u32 \<Rightarrow> u64" where
  "field_ones len index \<equiv> if field_width len index = 64 then UINT64_MAX else push_bit (field_width len index) 1 - 1"

lemma Extract_field: "ExtractBitField value len index = drop_bit (field_at index) value AND field_ones len index"
  unfolding ExtractBitField_def Let_def six_bits field_at_def [symmetric] no_field_beyond if_False field_width_if ..

lemma Insert_field: "InsertBitField dst src len index =
    (dst AND NOT (push_bit (field_at index) (field_ones len index))) OR push_bit (field_at index) (src AND field_ones len index)"
proof -
  have "(if field_at index = 0 then field_ones len index else push_bit (field_at index) (field_ones len index)) =
      push_bit (field_at index) (field_ones len index)" by simp
  then show ?thesis
    unfolding InsertBitField_def Let_def six_bits field_at_def [symmetric] no_field_beyond if_False field_width_if by (simp only:)
qed

lemma Extract_bit: "bit (ExtractBitField value len index) n \<longleftrightarrow> n < field_width len index \<and> bit value (field_at index + n)"
proof -
  have b: "field_width len index \<le> 64" using field_bounds(2) [of len index] by linarith
  show ?thesis unfolding Extract_field bit_and_iff bit_drop_bit_eq comp_def ones_bit [OF b] using b by auto
qed

lemma Insert_bit: "bit (InsertBitField dst src len index) n \<longleftrightarrow>
    (if field_at index \<le> n \<and> n < field_at index + field_width len index then bit src (n - field_at index) else bit dst n)"
proof -
  let ?i = "field_at index" and ?l = "field_width len index"
  have b: "?i < 64" "?l \<le> 64 - ?i" "?l \<le> 64" using field_bounds(1) [of index] field_bounds(2) [of len index] by auto
  show ?thesis
  proof (cases "n < 64")
    case True
    then show ?thesis unfolding Insert_field bit_or_iff bit_and_iff bit_not_iff bit_push_bit_iff ones_bit [OF b(3)] using b by auto
  next
    case False
    then show ?thesis using b by (auto dest: bit_imp_le_length)
  qed
qed

text \<open>The bit-field instructions. \<open>EXTRQ\<close> gives the bits of the field, from the lowest on, and zeros above; \<open>INSERTQ\<close> puts the low
  bits of the source into the field and leaves every other bit; extracting what was inserted gives back the low
  bits of the source, and inserting what was extracted changes nothing. This holds for all immediates: those whose field would reach
  beyond bit 63, for which the manual leaves the result open, are cut off there.\<close>

lemma bit_fields_exact:
  "(\<forall>n. bit (ExtractBitField value len index) n = (n < field_width len index \<and> bit value (field_at index + n))) \<and>
  (\<forall>n. bit (InsertBitField dst src len index) n =
    (if field_at index \<le> n \<and> n < field_at index + field_width len index then bit src (n - field_at index) else bit dst n)) \<and>
  ExtractBitField (InsertBitField dst src len index) len index = take_bit (field_width len index) src \<and>
  InsertBitField dst (ExtractBitField dst len index) len index = dst"
proof (intro conjI allI)
  show "ExtractBitField (InsertBitField dst src len index) len index = take_bit (field_width len index) src"
    by (rule bit_word_eqI) (auto simp: Extract_bit Insert_bit bit_take_bit_iff)
  show "InsertBitField dst (ExtractBitField dst len index) len index = dst"
    by (rule bit_word_eqI) (auto simp: Extract_bit Insert_bit)
qed (rule Extract_bit Insert_bit)+

end
