(* ===== verification/X64DecodeProps.thy ===== *)
theory X64DecodeProps
  imports X64Emulator
begin

text \<open>
  Properties of decoding: instructions and operands as the processor manual has them, their encoding as bytes,
  and what the emulator makes of such bytes.
\<close>

section \<open>Instructions of the manual\<close>

text \<open>An operand: a register, or memory at a register, at scaled sums, or relative to the next instruction.\<close>

datatype displacement = NoDisp | Disp8 u8 | Disp32 u32

datatype operand =
  Reg nat
| Base nat displacement
| Sib "nat option" "(nat \<times> nat) option" displacement
| RipRel u32

datatype sha_op = SHA1NEXTE | SHA1MSG1 | SHA1MSG2 | SHA256RNDS2 | SHA256MSG1 | SHA256MSG2 | SHA1RNDS4 u8

text \<open>Which operands have an encoding: \<open>rsp\<close> and \<open>r12\<close> as a base need the longer form, \<open>rbp\<close> and \<open>r13\<close> a displacement, \<open>rsp\<close> is no index,
  and without a base there is a displacement of 32 bits.\<close>

fun operand_ok :: "operand \<Rightarrow> bool" where
  "operand_ok (Reg r) = (r < 16)"
| "operand_ok (Base r d) = (r < 16 \<and> r mod 8 \<noteq> 4 \<and> (d = NoDisp \<longrightarrow> r mod 8 \<noteq> 5))"
| "operand_ok (Sib b i d) =
    ((case b of None \<Rightarrow> (case d of Disp32 _ \<Rightarrow> True | _ \<Rightarrow> False) | Some r \<Rightarrow> r < 16 \<and> (d = NoDisp \<longrightarrow> r mod 8 \<noteq> 5)) \<and>
     (case i of None \<Rightarrow> True | Some (r, s) \<Rightarrow> r < 16 \<and> r \<noteq> 4 \<and> s < 4))"
| "operand_ok (RipRel d) = True"

fun disp_value :: "displacement \<Rightarrow> u64" where
  "disp_value NoDisp = 0"
| "disp_value (Disp8 d) = scast d"
| "disp_value (Disp32 d) = scast d"

text \<open>The address of a memory operand.\<close>

fun address_of :: "u64 \<Rightarrow> u64 list \<Rightarrow> operand \<Rightarrow> u64 option" where
  "address_of next_insn gprs (Reg r) = None"
| "address_of next_insn gprs (Base r d) = Some (gprs ! r + disp_value d)"
| "address_of next_insn gprs (Sib b i d) =
    Some ((case b of None \<Rightarrow> 0 | Some r \<Rightarrow> gprs ! r) + (case i of None \<Rightarrow> 0 | Some (r, s) \<Rightarrow> gprs ! r * 2 ^ s) + disp_value d)"
| "address_of next_insn gprs (RipRel d) = Some (next_insn + scast d)"

section \<open>Their bytes\<close>

definition three_fields :: "nat \<Rightarrow> nat \<Rightarrow> nat \<Rightarrow> u8" where
  "three_fields hi mid lo = of_nat (hi * 64 + mid * 8 + lo)"

fun disp_mode :: "displacement \<Rightarrow> nat" where
  "disp_mode NoDisp = 0"
| "disp_mode (Disp8 _) = 1"
| "disp_mode (Disp32 _) = 2"

definition le_bytes :: "u32 \<Rightarrow> u8 list" where
  "le_bytes d = [ucast d, ucast (drop_bit 8 d), ucast (drop_bit 16 d), ucast (drop_bit 24 d)]"

fun disp_bytes :: "displacement \<Rightarrow> u8 list" where
  "disp_bytes NoDisp = []"
| "disp_bytes (Disp8 d) = [d]"
| "disp_bytes (Disp32 d) = le_bytes d"

definition sib_byte :: "nat option \<Rightarrow> (nat \<times> nat) option \<Rightarrow> u8" where
  "sib_byte b i = (case i of None \<Rightarrow> three_fields 0 4 | Some (r, s) \<Rightarrow> three_fields s (r mod 8)) (case b of None \<Rightarrow> 5 | Some r \<Rightarrow> r mod 8)"

fun operand_bytes :: "nat \<Rightarrow> operand \<Rightarrow> u8 list" where
  "operand_bytes g (Reg r) = [three_fields 3 g (r mod 8)]"
| "operand_bytes g (Base r d) = three_fields (disp_mode d) g (r mod 8) # disp_bytes d"
| "operand_bytes g (Sib b i d) =
    three_fields (if b = None then 0 else disp_mode d) g 4 # sib_byte b i # disp_bytes d"
| "operand_bytes g (RipRel d) = three_fields 0 g 5 # le_bytes d"

text \<open>The bits of the prefix that extend the base and the index.\<close>

fun ext_base :: "operand \<Rightarrow> nat" where
  "ext_base (Reg r) = r div 8"
| "ext_base (Base r d) = r div 8"
| "ext_base (Sib b i d) = (case b of None \<Rightarrow> 0 | Some r \<Rightarrow> r div 8)"
| "ext_base (RipRel d) = 0"

fun ext_index :: "operand \<Rightarrow> nat" where
  "ext_index (Sib b (Some (r, s)) d) = r div 8"
| "ext_index _ = 0"

text \<open>The prefix is needed when a register is extended, and allowed otherwise; its bit W has no meaning here.\<close>

definition prefix_ok :: "bool option \<Rightarrow> nat \<Rightarrow> operand \<Rightarrow> bool" where
  "prefix_ok p dst op \<longleftrightarrow> p \<noteq> None \<or> (dst div 8 = 0 \<and> ext_base op = 0 \<and> ext_index op = 0)"

definition prefix_bytes :: "bool option \<Rightarrow> nat \<Rightarrow> operand \<Rightarrow> u8 list" where
  "prefix_bytes p dst op = (case p of None \<Rightarrow> [] | Some w \<Rightarrow> [of_nat (64 + 8 * of_bool w + 4 * (dst div 8) + 2 * ext_index op + ext_base op)])"

fun op_bytes :: "sha_op \<Rightarrow> u8 list" where
  "op_bytes SHA1NEXTE = [0x38, 0xc8]"
| "op_bytes SHA1MSG1 = [0x38, 0xc9]"
| "op_bytes SHA1MSG2 = [0x38, 0xca]"
| "op_bytes SHA256RNDS2 = [0x38, 0xcb]"
| "op_bytes SHA256MSG1 = [0x38, 0xcc]"
| "op_bytes SHA256MSG2 = [0x38, 0xcd]"
| "op_bytes (SHA1RNDS4 i) = [0x3a, 0xcc]"

fun imm_bytes :: "sha_op \<Rightarrow> u8 list" where
  "imm_bytes (SHA1RNDS4 i) = [i]"
| "imm_bytes _ = []"

definition insn_bytes :: "bool option \<Rightarrow> sha_op \<Rightarrow> nat \<Rightarrow> operand \<Rightarrow> u8 list" where
  "insn_bytes p i dst op = prefix_bytes p dst op @ 0x0f # op_bytes i @ operand_bytes (dst mod 8) op @ imm_bytes i"

definition operation :: "sha_op \<Rightarrow> XmmWords \<Rightarrow> XmmWords \<Rightarrow> XmmWords \<Rightarrow> XmmWords" where
  "operation i dest src2 xmm0 = (case i of SHA1NEXTE \<Rightarrow> Sha1Nexte dest src2 | SHA1MSG1 \<Rightarrow> Sha1Msg1 dest src2 | SHA1MSG2 \<Rightarrow> Sha1Msg2 dest src2
    | SHA256RNDS2 \<Rightarrow> Sha256Rnds2 dest src2 xmm0 | SHA256MSG1 \<Rightarrow> Sha256Msg1 dest src2 | SHA256MSG2 \<Rightarrow> Sha256Msg2 dest src2
    | SHA1RNDS4 k \<Rightarrow> Sha1Rnds4 dest src2 k)"

section \<open>Bits of bytes\<close>

lemma byte_eq: "m < 256 \<Longrightarrow> n < 256 \<Longrightarrow> (of_nat m :: u8) = of_nat n \<longleftrightarrow> m = n"
  by (simp add: word_unat_eq_iff unat_of_nat)

lemma fields_split:
  assumes "hi < 4" "mid < 8" "lo < 8"
  shows "drop_bit 6 (three_fields hi mid lo) = of_nat hi" "drop_bit 3 (three_fields hi mid lo) AND 7 = of_nat mid"
    "three_fields hi mid lo AND 7 = of_nat lo"
proof -
  have "hi * 64 + mid * 8 + lo < 2 ^ LENGTH(8)" using assms by simp
  then have u: "unat (three_fields hi mid lo) = hi * 64 + mid * 8 + lo" unfolding three_fields_def unat_of_nat by (rule mod_less)
  have t: "take_bit LENGTH(8) (hi * 64 + mid * 8 + lo) = hi * 64 + mid * 8 + lo" using assms by (intro take_bit_nat_eq_self) simp
  have a: "x AND 7 = take_bit 3 x" for x :: u8 by (simp add: take_bit_eq_mask mask_eq_exp_minus_1)
  have d: "(hi * 64 + mid * 8 + lo) div 64 = hi" "(hi * 64 + mid * 8 + lo) div 8 = hi * 8 + mid" "(hi * 64 + mid * 8 + lo) mod 8 = lo"
    "(hi * 8 + mid) mod 8 = mid"
    using assms by (auto, presburger)
  show "drop_bit 6 (three_fields hi mid lo) = of_nat hi"
    unfolding word_unat_eq_iff unsigned_drop_bit_eq u t using assms d(1) by (simp add: unat_of_nat drop_bit_eq_div)
  show "drop_bit 3 (three_fields hi mid lo) AND 7 = of_nat mid"
    unfolding a word_unat_eq_iff unsigned_take_bit_eq unsigned_drop_bit_eq u t using assms d(2,4)
    by (simp add: unat_of_nat drop_bit_eq_div take_bit_eq_mod)
  show "three_fields hi mid lo AND 7 = of_nat lo"
    unfolding a word_unat_eq_iff unsigned_take_bit_eq u using assms d(3) by (simp add: unat_of_nat take_bit_eq_mod)
qed

lemma below_2: "n < 2 \<longleftrightarrow> n = 0 \<or> n = 1" for n :: nat by auto

lemma prefix_split:
  assumes "r < 2" "x < 2" "b < 2"
  shows "(of_nat (64 + 8 * of_bool w + 4 * r + 2 * x + b) :: u8) AND 0xf0 = 0x40"
    "(of_nat (64 + 8 * of_bool w + 4 * r + 2 * x + b) :: u8) AND 4 = of_nat (4 * r)"
    "(of_nat (64 + 8 * of_bool w + 4 * r + 2 * x + b) :: u8) AND 2 = of_nat (2 * x)"
    "(of_nat (64 + 8 * of_bool w + 4 * r + 2 * x + b) :: u8) AND 1 = of_nat b"
  using assms unfolding below_2 by (cases w; elim disjE; simp)+

lemma le32_bytes: "le32 (ucast d) (ucast (drop_bit 8 d)) (ucast (drop_bit 16 d)) (ucast (drop_bit 24 d)) = d"
proof (rule bit_word_eqI)
  fix n assume "n < LENGTH(32)"
  then consider "n < 8" | "8 \<le> n" "n < 16" | "16 \<le> n" "n < 24" | "24 \<le> n" "n < 32" by fastforce
  then show "bit (le32 (ucast d) (ucast (drop_bit 8 d)) (ucast (drop_bit 16 d)) (ucast (drop_bit 24 d))) n = bit d n"
    by cases (auto simp: le32_def bit_or_iff bit_push_bit_iff bit_unsigned_iff bit_drop_bit_eq)
qed

lemma register_join: "r < 16 \<Longrightarrow> unat (of_nat (r mod 8) OR push_bit 3 (of_nat (r div 8)) :: u8) = r"
  and register_join2: "r < 16 \<Longrightarrow> unat (of_nat (r mod 8) OR push_bit 2 (of_nat (2 * (r div 8))) :: u8) = r"
  and register_join1: "r < 16 \<Longrightarrow> unat (of_nat (r mod 8) OR push_bit 1 (of_nat (4 * (r div 8))) :: u8) = r"
proof -
  assume "r < 16"
  then have "r \<in> {0, 1, 2, 3, 4, 5, 6, 7, 8, 9, 10, 11, 12, 13, 14, 15}" by (auto simp: numeral_eq_Suc less_Suc_eq)
  then show "unat (of_nat (r mod 8) OR push_bit 3 (of_nat (r div 8)) :: u8) = r"
    "unat (of_nat (r mod 8) OR push_bit 2 (of_nat (2 * (r div 8))) :: u8) = r"
    "unat (of_nat (r mod 8) OR push_bit 1 (of_nat (4 * (r div 8))) :: u8) = r"
    unfolding insert_iff empty_iff by (elim disjE; simp)+
qed

section \<open>Reading the bytes back\<close>

fun bytes_at :: "code \<Rightarrow> nat \<Rightarrow> u8 list \<Rightarrow> bool" where
  "bytes_at rip n [] = True"
| "bytes_at rip n (b # bs) = (rip n = b \<and> bytes_at rip (n + 1) bs)"

lemma bytes_at_append: "bytes_at rip n (as @ bs) \<longleftrightarrow> bytes_at rip n as \<and> bytes_at rip (n + length as) bs"
  by (induction as arbitrary: n) simp_all

lemma bytes_at_int32: "bytes_at rip n (le_bytes d) \<Longrightarrow> int32_at rip n = d"
proof -
  have n: "n + 2 = n + 1 + 1" "n + 3 = n + 1 + 1 + 1" by simp_all
  assume "bytes_at rip n (le_bytes d)"
  then show ?thesis unfolding int32_at_def le_bytes_def bytes_at.simps n by (simp only: le32_bytes)
qed

lemma length_le_bytes [simp]: "length (le_bytes d) = 4"
  by (simp add: le_bytes_def)

lemma byte_is:
  "n < 8 \<Longrightarrow> (of_nat n :: u8) = 4 \<longleftrightarrow> n = 4" "n < 8 \<Longrightarrow> (of_nat n :: u8) = 5 \<longleftrightarrow> n = 5" "n < 8 \<Longrightarrow> (of_nat n :: u8) = 3 \<longleftrightarrow> n = 3"
  using byte_eq [of n 4] byte_eq [of n 5] byte_eq [of n 3] by simp_all

lemmas field_simps' = fields_split byte_is

lemma disp_mode_4 [simp]: "disp_mode d < 4" "disp_mode d \<noteq> 3"
  by (cases d; simp)+

lemma operand_end_bytes:
  assumes "operand_ok op" "g < 8" "bytes_at rip n (operand_bytes g op)"
  shows "operand_end rip n = n + length (operand_bytes g op)"
proof (cases op)
  case (Reg r)
  then show ?thesis using assms by (simp add: operand_end_def field_simps')
next
  case (Base r d)
  then show ?thesis using assms by (cases d) (simp_all add: operand_end_def field_simps' Let_def)
next
  case (Sib b i d)
  have s: "sib_byte b i AND 7 = of_nat (case b of None \<Rightarrow> 5 | Some r \<Rightarrow> r mod 8)"
    using assms(1) unfolding Sib sib_byte_def by (cases b; cases i) (auto simp: fields_split)
  show ?thesis
  proof (cases b)
    case None
    then show ?thesis using assms s Sib by (cases d) (simp_all add: operand_end_def field_simps' Let_def)
  next
    case (Some r)
    then show ?thesis using assms s Sib by (cases d) (simp_all add: operand_end_def field_simps' Let_def)
  qed
next
  case (RipRel d)
  then show ?thesis using assms by (simp add: operand_end_def field_simps' Let_def)
qed

lemma byte_bits: "a = b \<longleftrightarrow> (\<forall>n \<in> {0, 1, 2, 3, 4, 5, 6, 7}. bit a n = bit b n)" for a b :: u8
proof
  assume e: "\<forall>n \<in> {0, 1, 2, 3, 4, 5, 6, 7}. bit a n = bit b n"
  show "a = b"
  proof (rule bit_word_eqI)
    fix n assume "n < LENGTH(8)"
    then have "n \<in> {0, 1, 2, 3, 4, 5, 6, 7}" by (auto simp: numeral_eq_Suc less_Suc_eq)
    then show "bit a n = bit b n" using e by blast
  qed
qed simp

lemma register_mode: "x AND 0xc0 = 0xc0 \<longleftrightarrow> drop_bit 6 x = 3" for x :: u8
proof -
  have "bit x n = False" if "8 \<le> n" for n using that by (auto dest: bit_imp_le_length)
  then show ?thesis unfolding byte_bits by (simp add: bit_and_iff bit_drop_bit_eq)
qed

lemma head_fields:
  assumes "operand_ok op" "g < 8" "bytes_at rip n (operand_bytes g op)"
  shows "drop_bit 3 (rip n) AND 7 = of_nat g" "ShaNiModrmIsRegister (rip n) \<longleftrightarrow> (\<exists>r. op = Reg r)" "op = Reg r \<Longrightarrow> rip n AND 7 = of_nat (r mod 8)"
proof -
  obtain md lo where h: "rip n = three_fields md g lo" "md < 4" "lo < 8" "md = 3 \<longleftrightarrow> (\<exists>r. op = Reg r)"
    "op = Reg r \<Longrightarrow> lo = r mod 8"
    using assms(3) by (cases op) (auto split: if_splits)
  then show "drop_bit 3 (rip n) AND 7 = of_nat g" "op = Reg r \<Longrightarrow> rip n AND 7 = of_nat (r mod 8)"
    using assms(2) by (simp_all add: fields_split)
  show "ShaNiModrmIsRegister (rip n) \<longleftrightarrow> (\<exists>r. op = Reg r)"
    using h assms(2) by (simp add: ShaNiModrmIsRegister_def register_mode fields_split byte_is)
qed

lemma base_value_of: "r < 16 \<Longrightarrow> rx AND 1 = of_nat (r div 8) \<Longrightarrow> base_value rx (of_nat (r mod 8)) gprs = gprs ! r"
  by (simp add: base_value_def register_join)

lemma sib_fields:
  assumes "operand_ok (Sib b i d)"
  shows "sib_byte b i AND 7 = of_nat (case b of None \<Rightarrow> 5 | Some r \<Rightarrow> r mod 8)"
    "drop_bit 3 (sib_byte b i) AND 7 = of_nat (case i of None \<Rightarrow> 4 | Some (r, s) \<Rightarrow> r mod 8)"
    "drop_bit 6 (sib_byte b i) = of_nat (case i of None \<Rightarrow> 0 | Some (r, s) \<Rightarrow> s)"
  using assms unfolding sib_byte_def by (cases b; cases i; auto simp: fields_split)+

lemma index_value_of:
  assumes "operand_ok (Sib b i d)" "rx AND 2 = of_nat (2 * ext_index (Sib b i d))"
  shows "index_value rx (sib_byte b i) gprs = (case i of None \<Rightarrow> 0 | Some (r, s) \<Rightarrow> gprs ! r * 2 ^ s)"
proof (cases i)
  case None
  then show ?thesis using sib_fields [OF assms(1)] assms(2) by (simp add: index_value_def)
next
  case (Some rs)
  obtain r k where i: "i = Some (r, k)" using Some by (cases rs) auto
  have rk: "r < 16" "r \<noteq> 4" "k < 4" using assms(1) by (auto simp: i)
  have f: "drop_bit 3 (sib_byte b i) AND 7 = of_nat (r mod 8)" "drop_bit 6 (sib_byte b i) = of_nat k" "rx AND 2 = of_nat (2 * (r div 8))"
    using sib_fields [OF assms(1)] assms(2) by (simp_all add: i)
  have u: "unat (of_nat k :: u8) = k" using rk(3) by (simp add: unat_of_nat)
  have "(of_nat (r mod 8) :: u8) \<noteq> 4 \<or> (of_nat (2 * (r div 8)) :: u8) \<noteq> 0"
  proof (cases "r mod 8 = 4")
    case True
    then have "r div 8 = 1" using rk(1,2) by presburger
    then show ?thesis by simp
  qed (simp add: byte_is)
  then show ?thesis unfolding index_value_def Let_def f register_join2 [OF rk(1)] u by (simp add: i push_bit_eq_mult)
qed

lemma resolve_bytes:
  assumes "operand_ok op" "g < 8" "bytes_at rip (modrm_offset insn) (operand_bytes g op)"
    and "rex insn AND 1 = of_nat (ext_base op)" "rex insn AND 2 = of_nat (2 * ext_index op)"
  shows "ResolveShaNiMemoryAddress a rip insn gprs = address_of (a + of_nat (insn_length insn)) gprs op"
proof (cases op)
  case (Reg r)
  then show ?thesis using assms by (simp add: ResolveShaNiMemoryAddress_def field_simps')
next
  case (Base r d)
  then show ?thesis using assms
    by (cases d) (auto simp: ResolveShaNiMemoryAddress_def field_simps' Let_def base_value_of dest: bytes_at_int32)
next
  case (Sib b i d)
  have ok: "operand_ok (Sib b i d)" using assms(1) by (simp add: Sib)
  have x: "index_value (rex insn) (sib_byte b i) gprs = (case i of None \<Rightarrow> 0 | Some (r, s) \<Rightarrow> gprs ! r * 2 ^ s)"
    using index_value_of [OF ok] assms(5) by (simp add: Sib)
  note s = sib_fields(1) [OF ok]
  show ?thesis
  proof (cases b)
    case None
    then obtain v where d: "d = Disp32 v" using ok by (cases d) auto
    show ?thesis using assms(2,3) s x unfolding Sib None d
      by (auto simp: ResolveShaNiMemoryAddress_def field_simps' Let_def dest: bytes_at_int32)
  next
    case (Some q)
    have q: "q < 16" using ok by (simp add: Some)
    have v: "base_value (rex insn) (of_nat (q mod 8)) gprs = gprs ! q" using assms(4) by (intro base_value_of q) (simp add: Sib Some)
    show ?thesis using assms(2,3) s x ok v unfolding Sib Some
      by (cases d) (auto simp: ResolveShaNiMemoryAddress_def field_simps' Let_def dest: bytes_at_int32)
  qed
next
  case (RipRel d)
  then show ?thesis using assms by (auto simp: ResolveShaNiMemoryAddress_def field_simps' Let_def dest: bytes_at_int32)
qed

section \<open>Whole instructions\<close>

lemma ext_small: "operand_ok op \<Longrightarrow> ext_base op < 2 \<and> ext_index op < 2"
  by (cases op) (auto split: option.splits elim!: ext_index.elims)

lemma prefix_read:
  assumes "operand_ok op" "dst < 16" "prefix_ok p dst op" "bytes_at rip n (prefix_bytes p dst op @ b # bs)" "b AND 0xf0 \<noteq> 0x40"
  obtains rx where "rex_prefix rip n = (rx, n + length (prefix_bytes p dst op))" "rx AND 4 = of_nat (4 * (dst div 8))"
    "rx AND 2 = of_nat (2 * ext_index op)" "rx AND 1 = of_nat (ext_base op)"
    "rip n \<in> (case p of None \<Rightarrow> {b} | Some _ \<Rightarrow> {x. x AND 0xf0 = 0x40})"
proof (cases p)
  case None
  then have "dst div 8 = 0" "ext_base op = 0" "ext_index op = 0" using assms(3) by (simp_all add: prefix_ok_def)
  then show ?thesis using that [of 0] None assms(4,5) by (simp add: rex_prefix_def prefix_bytes_def)
next
  case (Some w)
  let ?rx = "of_nat (64 + 8 * of_bool w + 4 * (dst div 8) + 2 * ext_index op + ext_base op) :: u8"
  have r: "rip n = ?rx" using assms(4) Some by (simp add: prefix_bytes_def)
  have "dst div 8 < 2" using assms(2) by auto
  note P = prefix_split [OF this conjunct2 [OF ext_small [OF assms(1)]] conjunct1 [OF ext_small [OF assms(1)]], of w]
  have "rex_prefix rip n = (?rx, n + length (prefix_bytes p dst op))"
    unfolding rex_prefix_def r using P(1) Some by (simp add: prefix_bytes_def)
  then show ?thesis using that [of ?rx] P r Some by simp
qed

lemma destination: "dst < 16 \<Longrightarrow> drop_bit 3 m AND 7 = of_nat (dst mod 8) \<Longrightarrow> rx AND 4 = of_nat (4 * (dst div 8)) \<Longrightarrow>
    unat (ShaNiRegIndex m rx True) = dst"
  by (simp only: ShaNiRegIndex_def if_True register_join1)

lemma source: "r < 16 \<Longrightarrow> m AND 7 = of_nat (r mod 8) \<Longrightarrow> rx AND 1 = of_nat (r div 8) \<Longrightarrow>
    unat (ShaNiRegIndex m rx False) = r"
  by (simp only: ShaNiRegIndex_def if_False register_join)

lemma GetContextXmm_at: "unat i < 16 \<Longrightarrow> GetContextXmm cpu i = Some (cpu_xmm cpu ! unat i)"
  by (simp add: GetContextXmm_def word_le_nat_alt not_le)

definition sha_opcode :: "sha_op \<Rightarrow> u8" where
  "sha_opcode i = op_bytes i ! 1"

definition sha_escape :: "sha_op \<Rightarrow> u8" where
  "sha_escape i = op_bytes i ! 0"

lemma op_bytes_eq: "op_bytes i = [sha_escape i, sha_opcode i]"
  by (cases i) (simp_all add: sha_opcode_def sha_escape_def)

lemma decode_bytes:
  assumes "operand_ok op" "dst < 16" "prefix_ok p dst op" "bytes_at rip 0 (insn_bytes p i dst op)"
  obtains insn where "DecodeShaNiInsn rip = Some insn" "insn_length insn = length (insn_bytes p i dst op)"
    "bytes_at rip (modrm_offset insn) (operand_bytes (dst mod 8) op)" "rex insn AND 4 = of_nat (4 * (dst div 8))"
    "rex insn AND 2 = of_nat (2 * ext_index op)" "rex insn AND 1 = of_nat (ext_base op)"
    "\<forall>src2 xmm0 dest. ExecuteShaNiInsn insn src2 xmm0 dest = Some (operation i dest src2 xmm0)"
    "rip 0 \<in> (case p of None \<Rightarrow> {0x0f} | Some _ \<Rightarrow> {x. x AND 0xf0 = 0x40})" "p = None \<longrightarrow> rip 1 \<noteq> 1"
proof -
  let ?L = "length (prefix_bytes p dst op)" and ?o = "operand_bytes (dst mod 8) op"
  have g: "dst mod 8 < 8" by simp
  obtain rx where rx: "rex_prefix rip 0 = (rx, ?L)" "rx AND 4 = of_nat (4 * (dst div 8))"
    "rx AND 2 = of_nat (2 * ext_index op)" "rx AND 1 = of_nat (ext_base op)"
    "rip 0 \<in> (case p of None \<Rightarrow> {0x0f} | Some _ \<Rightarrow> {x. x AND 0xf0 = 0x40})"
    using prefix_read [OF assms(1-3) assms(4) [unfolded insn_bytes_def]] by auto
  have B: "bytes_at rip 0 (prefix_bytes p dst op @ 0x0f # sha_escape i # sha_opcode i # ?o @ imm_bytes i)"
    using assms(4) unfolding insn_bytes_def op_bytes_eq append_Cons append_Nil .
  have n: "?L + 2 = ?L + 1 + 1" "?L + 3 = ?L + 1 + 1 + 1" by simp_all
  have b: "rip ?L = 0x0f" "rip (?L + 1) = sha_escape i" "rip (?L + 2) = sha_opcode i" "bytes_at rip (?L + 3) ?o"
    "bytes_at rip (?L + 3 + length ?o) (imm_bytes i)"
    using B unfolding bytes_at_append bytes_at.simps add_0 n by blast+
  have e: "operand_end rip (?L + 3) = ?L + 3 + length ?o" by (rule operand_end_bytes [OF assms(1) g b(4)])
  let ?imm = "case i of SHA1RNDS4 k \<Rightarrow> k | _ \<Rightarrow> 0"
  let ?insn = "\<lparr>escape = sha_escape i, opcode = sha_opcode i, imm8 = ?imm, rex = rx, modrm_offset = ?L + 3,
      insn_length = ?L + 3 + length ?o + length (imm_bytes i)\<rparr>"
  have "DecodeShaNiInsn rip = Some ?insn"
    unfolding DecodeShaNiInsn_def rx(1) Let_def prod.case b(1-3) e
    using b(5) by (cases i) (simp_all add: sha_opcode_def sha_escape_def)
  moreover have "length (insn_bytes p i dst op) = ?L + 3 + length ?o + length (imm_bytes i)"
    unfolding insn_bytes_def op_bytes_eq by simp
  moreover have "ExecuteShaNiInsn ?insn src2 xmm0 dest = Some (operation i dest src2 xmm0)" for src2 xmm0 dest
    by (cases i) (simp_all add: ExecuteShaNiInsn_def operation_def sha_opcode_def sha_escape_def)
  moreover have "p = None \<longrightarrow> rip 1 \<noteq> 1"
    using b(2) by (cases i) (auto simp: prefix_bytes_def sha_escape_def)
  ultimately show ?thesis using that [of ?insn] b(4) rx by simp
qed

lemma not_monitorx: "rip 0 \<noteq> 0x0f \<or> rip 1 \<noteq> 1 \<Longrightarrow> rip = code_at mem (cpu_rip cpu) \<Longrightarrow> TryEmulateMonitorxMwaitx mem cpu = None"
  by (auto simp: TryEmulateMonitorxMwaitx_def Let_def)

lemma not_sse4a: "rip 0 \<noteq> 0x66 \<Longrightarrow> rip 0 \<noteq> 0xf2 \<Longrightarrow> rip = code_at mem (cpu_rip cpu) \<Longrightarrow> TryEmulateSse4a mem cpu = None"
  by (auto simp: TryEmulateSse4a_def Let_def)

text \<open>C13. SHA instructions. If the bytes at the instruction pointer are an encoding of one of the seven instructions, with any destination, any
  operand (a register, or memory at a base, at scaled sums, or relative to the next instruction) and with or without a prefix,
  then the emulator computes that instruction on the destination, the operand and \<open>xmm0\<close>, stores
  the result in the destination, and moves the instruction pointer exactly past the bytes. Nothing else changes.\<close>

theorem sha_instruction_exact:
  assumes "operand_ok op" "dst < 16" "prefix_ok p dst op" "bytes_at (code_at mem (cpu_rip cpu)) 0 (insn_bytes p i dst op)"
  shows "TryEmulate mem cpu =
    (let next_insn = cpu_rip cpu + of_nat (length (insn_bytes p i dst op));
         src2 = (case address_of next_insn (cpu_gprs cpu) op of Some a \<Rightarrow> xmm_at mem a | None \<Rightarrow> cpu_xmm cpu ! (case op of Reg r \<Rightarrow> r))
     in Some (cpu\<lparr>cpu_rip := next_insn,
         cpu_xmm := (cpu_xmm cpu)[dst := operation i (cpu_xmm cpu ! dst) src2 (cpu_xmm cpu ! 0)]\<rparr>))"
proof -
  let ?rip = "code_at mem (cpu_rip cpu)" and ?n = "cpu_rip cpu + of_nat (length (insn_bytes p i dst op))"
  have g: "dst mod 8 < 8" by simp
  obtain insn where D: "DecodeShaNiInsn ?rip = Some insn" "insn_length insn = length (insn_bytes p i dst op)"
    "bytes_at ?rip (modrm_offset insn) (operand_bytes (dst mod 8) op)" "rex insn AND 4 = of_nat (4 * (dst div 8))"
    "rex insn AND 2 = of_nat (2 * ext_index op)" "rex insn AND 1 = of_nat (ext_base op)"
    "\<forall>src2 xmm0 dest. ExecuteShaNiInsn insn src2 xmm0 dest = Some (operation i dest src2 xmm0)"
    "?rip 0 \<in> (case p of None \<Rightarrow> {0x0f} | Some _ \<Rightarrow> {x. x AND 0xf0 = 0x40})" "p = None \<longrightarrow> ?rip 1 \<noteq> 1"
    by (rule decode_bytes [OF assms])
  note H = head_fields [OF assms(1) g D(3)]
  have dst: "unat (ShaNiRegIndex (?rip (modrm_offset insn)) (rex insn) True) = dst" by (rule destination [OF assms(2) H(1) D(4)])
  have ad: "ResolveShaNiMemoryAddress (cpu_rip cpu) ?rip insn (cpu_gprs cpu) = address_of ?n (cpu_gprs cpu) op"
    using resolve_bytes [OF assms(1) g D(3) D(6) D(5)] D(2) by simp
  let ?src = "if ShaNiModrmIsRegister (?rip (modrm_offset insn))
      then GetContextXmm cpu (ShaNiRegIndex (?rip (modrm_offset insn)) (rex insn) False)
      else map_option (xmm_at mem) (ResolveShaNiMemoryAddress (cpu_rip cpu) ?rip insn (cpu_gprs cpu))"
  have src: "?src = Some (case address_of ?n (cpu_gprs cpu) op of Some a \<Rightarrow> xmm_at mem a | None \<Rightarrow> cpu_xmm cpu ! (case op of Reg r \<Rightarrow> r))"
  proof (cases "\<exists>r. op = Reg r")
    case True
    then obtain r where r: "op = Reg r" by blast
    have "unat (ShaNiRegIndex (?rip (modrm_offset insn)) (rex insn) False) = r"
      using source [OF _ H(3) [OF r]] D(6) assms(1) r by simp
    then show ?thesis using H(2) True GetContextXmm_at [of "ShaNiRegIndex (?rip (modrm_offset insn)) (rex insn) False" cpu] assms(1) r by simp
  next
    case False
    then have "address_of ?n (cpu_gprs cpu) op \<noteq> None" by (cases op) auto
    then show ?thesis using H(2) False ad by auto
  qed
  have "?rip 0 \<noteq> 0x66 \<and> ?rip 0 \<noteq> 0xf2 \<and> (?rip 0 \<noteq> 0x0f \<or> ?rip 1 \<noteq> 1)" using D(8,9) by (cases p) auto
  then have n: "TryEmulateMonitorxMwaitx mem cpu = None" "TryEmulateSse4a mem cpu = None"
    using not_monitorx [OF _ refl] not_sse4a [OF _ _ refl] by blast+
  have "GetContextXmm cpu (ShaNiRegIndex (?rip (modrm_offset insn)) (rex insn) True) = Some (cpu_xmm cpu ! dst)"
    "GetContextXmm cpu 0 = Some (cpu_xmm cpu ! 0)"
    using GetContextXmm_at [of "ShaNiRegIndex (?rip (modrm_offset insn)) (rex insn) True" cpu] GetContextXmm_at [of 0 cpu] dst assms(2) by simp_all
  then show ?thesis
    unfolding TryEmulate_def n option.case TryEmulateShaNi_def Let_def D(1) prod.case src D(7) [rule_format] advance_def set_xmm_def dst D(2) by simp
qed

text \<open>A memory that holds the given bytes.\<close>

definition mem_with :: "u64 \<Rightarrow> u8 list \<Rightarrow> memory" where
  "mem_with start bs = (\<lambda>a. let n = unat (a - start) in if n < length bs then bs ! n else 0)"

lemma bytes_mem_with: "length bs < 2 ^ 64 \<Longrightarrow> bytes_at (code_at (mem_with start bs) start) 0 bs"
proof -
  assume l: "length bs < 2 ^ 64"
  have "bytes_at (code_at (mem_with start (as @ bs)) start) (length as) bs" if "length (as @ bs) < 2 ^ 64" for as bs
    using that
  proof (induction bs arbitrary: as)
    case (Cons b bs)
    have "length as < 2 ^ LENGTH(64)" using Cons.prems by simp
    then have "unat (of_nat (length as) :: u64) = length as" unfolding unat_of_nat by (rule mod_less)
    then have "code_at (mem_with start (as @ b # bs)) start (length as) = b"
      by (simp add: code_at_def mem_with_def Let_def nth_append)
    then show ?case using Cons.IH [of "as @ [b]"] Cons.prems by simp
  qed simp
  from this [of "[]" bs] show ?thesis using l by simp
qed

lemma sha_instruction_exact_witness:
  "let cpu = \<lparr>cpu_rip = 4096, cpu_gprs = replicate 16 0, cpu_xmm = replicate 16 \<lparr>w0 = 1, w1 = 2, w2 = 3, w3 = 4\<rparr>\<rparr>
    in map_option cpu_rip (TryEmulate (mem_with 4096 (insn_bytes None SHA256MSG1 1 (Reg 2))) cpu) = Some 4100"
proof -
  let ?cpu = "\<lparr>cpu_rip = 4096, cpu_gprs = replicate 16 0, cpu_xmm = replicate 16 \<lparr>w0 = 1, w1 = 2, w2 = 3, w3 = 4\<rparr>\<rparr> :: cpu_context"
  let ?bs = "insn_bytes None SHA256MSG1 1 (Reg 2)"
  have l: "length ?bs = 4" by (simp add: insn_bytes_def prefix_bytes_def)
  then have b: "bytes_at (code_at (mem_with 4096 ?bs) (cpu_rip ?cpu)) 0 ?bs"
    using bytes_mem_with [of ?bs 4096] by simp
  have o: "operand_ok (Reg 2)" "(1 :: nat) < 16" "prefix_ok None 1 (Reg 2)" by (simp_all add: prefix_ok_def)
  show ?thesis using sha_instruction_exact [OF o b] l by (simp add: Let_def)
qed

section \<open>Bit-field instructions\<close>

text \<open>SSE4a instructions. The bytes of \<open>EXTRQ\<close> and \<open>INSERTQ\<close> with immediates, for any registers and with or without a prefix, are
  emulated as extracting a field of the low half of the register and clearing the high half, and as inserting the low
  half of one register into that of the other, whose high half stays. The instruction pointer moves past the bytes, and nothing else changes.\<close>

lemma sse4a_instruction_exact:
  assumes "dst < 16" "src < 16" "prefix_ok p dst (Reg src)"
    and "bytes_at (code_at mem (cpu_rip cpu)) 0
      ((if ins then 0xf2 else 0x66) # prefix_bytes p dst (Reg src) @ [0x0f, 0x78, three_fields 3 (dst mod 8) (src mod 8), l, i])"
  shows "TryEmulate mem cpu = Some (cpu\<lparr>
      cpu_rip := cpu_rip cpu + of_nat (6 + length (prefix_bytes p dst (Reg src))),
      cpu_xmm :=
        (if ins then (cpu_xmm cpu)[dst := SetXmmLow
            (InsertBitField (GetXmmLow (cpu_xmm cpu ! dst)) (GetXmmLow (cpu_xmm cpu ! src)) (ucast l) (ucast i)) (cpu_xmm cpu ! dst)]
         else (cpu_xmm cpu)[src := SetXmmHigh 0
            (SetXmmLow (ExtractBitField (GetXmmLow (cpu_xmm cpu ! src)) (ucast l) (ucast i)) (cpu_xmm cpu ! src))])\<rparr>) \<and>
    GetXmmLow (SetXmmLow value x) = value"
proof (rule conjI)
  let ?rip = "code_at mem (cpu_rip cpu)" and ?L = "length (prefix_bytes p dst (Reg src))" and ?m = "three_fields 3 (dst mod 8) (src mod 8)"
  have ok: "operand_ok (Reg src)" using assms(2) by simp
  have r0: "?rip 0 = (if ins then 0xf2 else 0x66)" and bs: "bytes_at ?rip 1 (prefix_bytes p dst (Reg src) @ 0x0f # [0x78, ?m, l, i])"
    using assms(4) by simp_all
  obtain rx where rx: "rex_prefix ?rip 1 = (rx, 1 + ?L)" "rx AND 4 = of_nat (4 * (dst div 8))" "rx AND 1 = of_nat (src div 8)"
    using prefix_read [OF ok assms(1,3) bs] by auto
  have b: "?rip (1 + ?L) = 0x0f" "?rip (1 + ?L + 1) = 0x78" "?rip (1 + ?L + 2) = ?m" "?rip (1 + ?L + 3) = l" "?rip (1 + ?L + 4) = i"
  proof -
    have n: "1 + ?L + 2 = 1 + ?L + 1 + 1" "1 + ?L + 3 = 1 + ?L + 1 + 1 + 1" "1 + ?L + 4 = 1 + ?L + 1 + 1 + 1 + 1" by simp_all
    show "?rip (1 + ?L) = 0x0f" "?rip (1 + ?L + 1) = 0x78" "?rip (1 + ?L + 2) = ?m" "?rip (1 + ?L + 3) = l" "?rip (1 + ?L + 4) = i"
      using bs unfolding bytes_at_append bytes_at.simps n by blast+
  qed
  have f: "drop_bit 3 ?m AND 7 = of_nat (dst mod 8)" "?m AND 7 = of_nat (src mod 8)" "?m AND 0xc0 = 0xc0"
    by (simp_all add: fields_split register_mode)
  have u: "unat (ShaNiRegIndex ?m rx True) = dst" "unat (ShaNiRegIndex ?m rx False) = src"
    using destination [OF assms(1) f(1) rx(2)] source [OF assms(2) f(2) rx(3)] by simp_all
  have x: "GetContextXmm cpu (ShaNiRegIndex ?m rx True) = Some (cpu_xmm cpu ! dst)" "GetContextXmm cpu (ShaNiRegIndex ?m rx False) = Some (cpu_xmm cpu ! src)"
    using GetContextXmm_at [of "ShaNiRegIndex ?m rx True" cpu] GetContextXmm_at [of "ShaNiRegIndex ?m rx False" cpu] u assms(1,2) by simp_all
  have ne: "(0x66 :: u8) \<noteq> 0x66 \<and> (0x66 :: u8) \<noteq> 0xf2 \<longleftrightarrow> False" "(0xf2 :: u8) \<noteq> 0x66 \<and> (0xf2 :: u8) \<noteq> 0xf2 \<longleftrightarrow> False"
    "((0xf2 :: u8) = 0x66) = False" by simp_all
  have n: "TryEmulateMonitorxMwaitx mem cpu = None" using not_monitorx [OF _ refl, of mem cpu] r0 by (cases ins) simp_all
  show "TryEmulate mem cpu = Some (cpu\<lparr>
      cpu_rip := cpu_rip cpu + of_nat (6 + ?L),
      cpu_xmm :=
        (if ins then (cpu_xmm cpu)[dst := SetXmmLow
            (InsertBitField (GetXmmLow (cpu_xmm cpu ! dst)) (GetXmmLow (cpu_xmm cpu ! src)) (ucast l) (ucast i)) (cpu_xmm cpu ! dst)]
         else (cpu_xmm cpu)[src := SetXmmHigh 0
            (SetXmmLow (ExtractBitField (GetXmmLow (cpu_xmm cpu ! src)) (ucast l) (ucast i)) (cpu_xmm cpu ! src))])\<rparr>)"
    unfolding TryEmulate_def n option.case TryEmulateSse4a_def Let_def r0 rx(1) prod.case b f(3) x advance_def set_xmm_def u
    using ne by (cases ins) (simp_all only: if_True if_False, simp_all)
  show "GetXmmLow (SetXmmLow value x) = value"
  proof (rule bit_word_eqI)
    fix n assume "n < LENGTH(64)"
    then consider "n < 32" | "32 \<le> n" "n < 64" by fastforce
    then show "bit (GetXmmLow (SetXmmLow value x)) n = bit value n"
      by cases (auto simp: GetXmmLow_def SetXmmLow_def bit_or_iff bit_push_bit_iff bit_unsigned_iff bit_drop_bit_eq)
  qed
qed

lemma sse4a_instruction_exact_witness:
  "let cpu = \<lparr>cpu_rip = 4096, cpu_gprs = replicate 16 0, cpu_xmm = replicate 16 \<lparr>w0 = 1, w1 = 2, w2 = 3, w3 = 4\<rparr>\<rparr>
    in map_option cpu_rip (TryEmulate (mem_with 4096 [0x66, 0x0f, 0x78, three_fields 3 0 2, 8, 4]) cpu) = Some 4102"
proof -
  let ?cpu = "\<lparr>cpu_rip = 4096, cpu_gprs = replicate 16 0, cpu_xmm = replicate 16 \<lparr>w0 = 1, w1 = 2, w2 = 3, w3 = 4\<rparr>\<rparr> :: cpu_context"
  let ?bs = "[0x66, 0x0f, 0x78, three_fields 3 0 2, 8, 4] :: u8 list"
  have b: "bytes_at (code_at (mem_with 4096 ?bs) (cpu_rip ?cpu)) 0
      ((if False then 0xf2 else 0x66) # prefix_bytes None 0 (Reg 2) @ [0x0f, 0x78, three_fields 3 (0 mod 8) (2 mod 8), 8, 4])"
    using bytes_mem_with [of ?bs 4096] by (simp add: prefix_bytes_def)
  have o: "(0 :: nat) < 16" "(2 :: nat) < 16" "prefix_ok None 0 (Reg 2)" by (simp_all add: prefix_ok_def)
  show ?thesis using sse4a_instruction_exact [OF o b] by (simp add: Let_def prefix_bytes_def)
qed

section \<open>Any bytes\<close>

lemma operand_end_bounds: "n < operand_end rip n \<and> operand_end rip n \<le> n + 6"
  by (simp add: operand_end_def Let_def)

lemma rex_bounds: "rex_prefix rip n = (rx, m) \<Longrightarrow> m = n \<or> m = n + 1"
  by (auto simp: rex_prefix_def split: if_splits)

lemma decode_bounds: "DecodeShaNiInsn rip = Some insn \<Longrightarrow> 4 \<le> insn_length insn \<and> insn_length insn \<le> 11"
proof -
  assume d: "DecodeShaNiInsn rip = Some insn"
  obtain rx m where r: "rex_prefix rip 0 = (rx, m)" by (cases "rex_prefix rip 0")
  have m: "m \<le> 1" using rex_bounds [OF r] by auto
  show ?thesis using d operand_end_bounds [of "m + 3" rip] m
    by (auto simp: DecodeShaNiInsn_def r Let_def split: if_splits)
qed

definition framed :: "cpu_context \<Rightarrow> cpu_context \<Rightarrow> bool" where
  "framed cpu cpu1 \<longleftrightarrow> cpu_gprs cpu1 = cpu_gprs cpu \<and>
    (\<exists>n. 3 \<le> n \<and> n \<le> 11 \<and> cpu_rip cpu1 = cpu_rip cpu + of_nat n) \<and>
    (\<exists>i < 16. \<exists>x. cpu_xmm cpu1 = (cpu_xmm cpu)[i := x])"

lemma framedI: "3 \<le> n \<Longrightarrow> n \<le> 11 \<Longrightarrow> GetContextXmm cpu i = Some y \<Longrightarrow> framed cpu (advance n (set_xmm i x cpu))"
  unfolding framed_def by (auto simp: advance_def set_xmm_def GetContextXmm_def word_le_nat_alt not_le split: if_splits)

lemma monitorx_framed: "TryEmulateMonitorxMwaitx mem cpu = Some cpu1 \<Longrightarrow> framed cpu cpu1"
proof -
  assume "TryEmulateMonitorxMwaitx mem cpu = Some cpu1"
  then have c: "cpu1 = advance 3 cpu" by (simp add: TryEmulateMonitorxMwaitx_def Let_def split: if_splits)
  have "cpu_xmm cpu1 = (cpu_xmm cpu)[0 := cpu_xmm cpu ! 0]" by (simp add: c advance_def)
  moreover have "cpu_rip cpu1 = cpu_rip cpu + of_nat 3" "cpu_gprs cpu1 = cpu_gprs cpu" by (simp_all add: c advance_def)
  moreover have "3 \<le> (3 :: nat)" "(3 :: nat) \<le> 11" "(0 :: nat) < 16" by simp_all
  ultimately show ?thesis unfolding framed_def by blast
qed

lemma sse4a_framed: "TryEmulateSse4a mem cpu = Some cpu1 \<Longrightarrow> framed cpu cpu1"
proof -
  assume e: "TryEmulateSse4a mem cpu = Some cpu1"
  obtain rx m where r: "rex_prefix (code_at mem (cpu_rip cpu)) 1 = (rx, m)" by (cases "rex_prefix (code_at mem (cpu_rip cpu)) 1")
  have m: "3 \<le> m + 5" "m + 5 \<le> 11" using rex_bounds [OF r] by auto
  show ?thesis using e by (auto simp: TryEmulateSse4a_def r Let_def simp del: One_nat_def intro!: framedI [OF m] split: if_splits option.splits)
qed

lemma sha_framed: "TryEmulateShaNi mem cpu = Some cpu1 \<Longrightarrow> framed cpu cpu1"
proof -
  assume e: "TryEmulateShaNi mem cpu = Some cpu1"
  then obtain insn where d: "DecodeShaNiInsn (code_at mem (cpu_rip cpu)) = Some insn"
    by (auto simp: TryEmulateShaNi_def Let_def split: option.splits)
  have n: "3 \<le> insn_length insn" "insn_length insn \<le> 11" using decode_bounds [OF d] by auto
  show ?thesis using e by (auto simp: TryEmulateShaNi_def d Let_def intro!: framedI [OF n] split: if_splits option.splits)
qed

text \<open>C15. Whatever bytes the instruction pointer meets, at most one of the three recognisers accepts them, so that their order does not matter.
  If one does, the general registers stay, the instruction pointer moves on by 3 to 11 bytes, and at most one vector register changes.\<close>

theorem emulation_framed:
  "(TryEmulateMonitorxMwaitx mem cpu = None \<or> TryEmulateSse4a mem cpu = None) \<and>
   (TryEmulateMonitorxMwaitx mem cpu = None \<or> TryEmulateShaNi mem cpu = None) \<and>
   (TryEmulateSse4a mem cpu = None \<or> TryEmulateShaNi mem cpu = None) \<and>
   (case TryEmulate mem cpu of None \<Rightarrow> True | Some cpu1 \<Rightarrow> framed cpu cpu1)"
proof (intro conjI)
  let ?rip = "code_at mem (cpu_rip cpu)"
  have m: "?rip 0 = 0x0f \<and> ?rip 1 = 1" if "TryEmulateMonitorxMwaitx mem cpu \<noteq> None"
    using that by (auto simp: TryEmulateMonitorxMwaitx_def Let_def split: if_splits)
  have s: "?rip 0 = 0x66 \<or> ?rip 0 = 0xf2" if "TryEmulateSse4a mem cpu \<noteq> None"
    using that by (auto simp: TryEmulateSse4a_def Let_def split: if_splits)
  have h: "?rip 0 AND 0xf0 = 0x40 \<or> (?rip 0 = 0x0f \<and> ?rip 1 \<noteq> 1)" if "TryEmulateShaNi mem cpu \<noteq> None"
  proof -
    have "DecodeShaNiInsn ?rip \<noteq> None" using that by (auto simp: TryEmulateShaNi_def Let_def split: option.splits)
    then show ?thesis by (auto simp: DecodeShaNiInsn_def rex_prefix_def Let_def split: if_splits)
  qed
  show "TryEmulateMonitorxMwaitx mem cpu = None \<or> TryEmulateSse4a mem cpu = None" using m s by fastforce
  show "TryEmulateMonitorxMwaitx mem cpu = None \<or> TryEmulateShaNi mem cpu = None" using m h by fastforce
  show "TryEmulateSse4a mem cpu = None \<or> TryEmulateShaNi mem cpu = None" using s h by fastforce
  show "case TryEmulate mem cpu of None \<Rightarrow> True | Some cpu1 \<Rightarrow> framed cpu cpu1"
    unfolding TryEmulate_def using monitorx_framed sse4a_framed sha_framed by (auto split: option.splits)
qed

end
