(* ===== verification/EventQueue.thy ===== *)
theory EventQueue
  imports Machine
begin

text \<open>
  Event queues, \<open>src/kernel/eventQueue.cpp\<close>, with the functions that the graphics driver and the video output give to
  them (\<open>src/graphics/host_gpu/renderer/sync.cpp\<close>, \<open>src/graphics/presentation/videoOut.cpp\<close>). A function pointer is one of the constructors below;
  the opaque pointers in a filter and the names of queues, which only the log shows, are left out. Times and the time stamp counter are
  arguments. The functions for deletion change other components, so an operation returns the events for which they are called.
\<close>

section \<open>Events\<close>

definition EV_ADD :: u16 where "EV_ADD = 0x01"
definition EV_ONESHOT :: u16 where "EV_ONESHOT = 0x10"
definition EV_CLEAR :: u16 where "EV_CLEAR = 0x20"
definition EV_ERROR :: u16 where "EV_ERROR = 0x4000"

definition KERNEL_EVFILT_READ :: int where "KERNEL_EVFILT_READ = -1"
definition KERNEL_EVFILT_WRITE :: int where "KERNEL_EVFILT_WRITE = -2"
definition KERNEL_EVFILT_USER :: int where "KERNEL_EVFILT_USER = -11"
definition KERNEL_EVFILT_HRTIMER :: int where "KERNEL_EVFILT_HRTIMER = -15"

record KernelEvent =
  ev_ident :: u64
  ev_filter :: int
  ev_flags :: u16
  ev_fflags :: u32
  ev_data :: u64
  ev_udata :: u64

datatype trigger_func = UserEventTriggerFunc | AmprEventTriggerFunc | FdReadyTriggerFunc | EopEventTriggerFunc | TriggerVideoOutEvent
datatype reset_func = UserEventResetFunc | FdReadyResetFunc | EopEventResetFunc | ResetVideoOutEvent
datatype delete_func = EopEventDeleteFunc | RemoveVideoOutEventQueue

record KernelEqueueEvent =
  ke_triggered :: bool
  ke_deadline_ns :: u64
  ke_event :: KernelEvent
  ke_trigger_func :: "trigger_func option"
  ke_reset_func :: "reset_func option"
  ke_delete_func :: "delete_func option"
  ke_pending :: "KernelEvent list"

definition has_flag :: "u16 \<Rightarrow> KernelEvent \<Rightarrow> bool" where
  "has_flag f ev \<longleftrightarrow> ev_flags ev AND f \<noteq> 0"

definition clear_event :: "KernelEqueueEvent \<Rightarrow> KernelEqueueEvent" where
  "clear_event e = e\<lparr>ke_triggered := False, ke_event := (ke_event e)\<lparr>ev_fflags := 0, ev_data := 0\<rparr>\<rparr>"

text \<open>Triggering: the function of the filter, with the value that it is given and the counter.\<close>

definition queue_event :: "KernelEvent \<Rightarrow> KernelEqueueEvent \<Rightarrow> KernelEqueueEvent" where
  "queue_event ev e = (if ke_triggered e then e\<lparr>ke_pending := ke_pending e @ [ev]\<rparr> else e\<lparr>ke_event := ev, ke_triggered := True\<rparr>)"

definition AccumulateVideoOutEvent :: "u32 \<Rightarrow> u64 \<Rightarrow> u64 \<Rightarrow> u32 \<times> u64" where
  "AccumulateVideoOutEvent occurrence_count payload timestamp =
    (let n = (if occurrence_count < 0xf then occurrence_count + 1 else occurrence_count)
     in (n, (timestamp AND 0xfff) OR push_bit 12 (ucast n) OR push_bit 16 (payload AND 0x0000ffffffffffff)))"

fun call_trigger :: "u64 \<Rightarrow> trigger_func \<Rightarrow> u64 \<Rightarrow> KernelEqueueEvent \<Rightarrow> KernelEqueueEvent" where
  "call_trigger tsc UserEventTriggerFunc data e =
    e\<lparr>ke_triggered := True, ke_event := (ke_event e)\<lparr>ev_data := data, ev_udata := data\<rparr>\<rparr>"
| "call_trigger tsc AmprEventTriggerFunc data e = queue_event ((ke_event e)\<lparr>ev_data := data\<rparr>) e"
| "call_trigger tsc FdReadyTriggerFunc data e = e\<lparr>ke_triggered := True, ke_event := (ke_event e)\<lparr>ev_data := data\<rparr>\<rparr>"
| "call_trigger tsc EopEventTriggerFunc data e =
    queue_event ((ke_event e)\<lparr>ev_fflags := ev_fflags (ke_event e) + 1, ev_data := data\<rparr>) e"
| "call_trigger tsc TriggerVideoOutEvent data e =
    (case AccumulateVideoOutEvent (ev_fflags (ke_event e)) data tsc of
       (n, encoded) \<Rightarrow> e\<lparr>ke_triggered := True, ke_event := (ke_event e)\<lparr>ev_fflags := n, ev_data := encoded\<rparr>\<rparr>)"

text \<open>Resetting, as \<open>GetTriggeredEvents\<close> does it with or without a function.\<close>

definition reset_event :: "KernelEqueueEvent \<Rightarrow> KernelEqueueEvent" where
  "reset_event e =
    (case ke_reset_func e of
       Some UserEventResetFunc \<Rightarrow> if has_flag EV_CLEAR (ke_event e) then clear_event e else e
     | Some FdReadyResetFunc \<Rightarrow> e\<lparr>ke_triggered := False\<rparr>
     | Some EopEventResetFunc \<Rightarrow> clear_event e
     | Some ResetVideoOutEvent \<Rightarrow> clear_event e
     | None \<Rightarrow> if has_flag EV_CLEAR (ke_event e) then clear_event e else e)"

lemma reset_pending [simp]: "ke_pending (reset_event e) = ke_pending e"
  by (auto simp: reset_event_def clear_event_def split: option.splits reset_func.splits)

section \<open>A queue\<close>

record KernelEqueuePrivate =
  eq_events :: "KernelEqueueEvent list"
  eq_closed :: bool

definition same_event :: "u64 \<Rightarrow> int \<Rightarrow> KernelEqueueEvent \<Rightarrow> bool" where
  "same_event ident filt e \<longleftrightarrow> ev_ident (ke_event e) = ident \<and> ev_filter (ke_event e) = filt"

text \<open>The events for which the functions for deletion are called.\<close>

definition deleted :: "KernelEqueueEvent list \<Rightarrow> KernelEqueueEvent list" where
  "deleted es = filter (\<lambda>e. ke_delete_func e \<noteq> None) es"

definition Close :: "KernelEqueuePrivate \<Rightarrow> KernelEqueueEvent list \<times> KernelEqueuePrivate" where
  "Close q = (if eq_closed q then ([], q) else (deleted (eq_events q), q\<lparr>eq_closed := True, eq_events := []\<rparr>))"

definition expire :: "u64 \<Rightarrow> KernelEqueueEvent \<Rightarrow> KernelEqueueEvent" where
  "expire now_ns e = (if \<not> ke_triggered e \<and> ke_deadline_ns e \<noteq> 0 \<and> ke_deadline_ns e \<le> now_ns then e\<lparr>ke_triggered := True\<rparr> else e)"

definition TriggerExpiredTimers :: "u64 \<Rightarrow> KernelEqueuePrivate \<Rightarrow> KernelEqueuePrivate" where
  "TriggerExpiredTimers now_ns q = q\<lparr>eq_events := map (expire now_ns) (eq_events q)\<rparr>"

text \<open>
  The inner loop of \<open>GetTriggeredEvents\<close>, with the number of results for which there is room: the results, whether the event is to be erased,
  and the event.
\<close>

function take_event :: "nat \<Rightarrow> KernelEqueueEvent \<Rightarrow> KernelEvent list \<times> bool \<times> KernelEqueueEvent" where
  "take_event room e =
    (if \<not> ke_triggered e then ([], False, e)
     else if has_flag EV_ONESHOT (ke_event e) then ([ke_event e], True, e)
     else
       let e1 = reset_event e
       in case ke_pending e1 of
            p # ps \<Rightarrow>
              let e2 = e1\<lparr>ke_event := p, ke_pending := ps, ke_triggered := True\<rparr>
              in if room \<le> 1 then ([ke_event e], False, e2)
                 else (case take_event (room - 1) e2 of (evs, erase, e3) \<Rightarrow> (ke_event e # evs, erase, e3))
          | [] \<Rightarrow> ([ke_event e], False, e1))"
  by pat_completeness auto

termination
  by (relation "measure (\<lambda>(room, e). length (ke_pending e))") auto

declare take_event.simps [simp del]

fun take_events :: "nat \<Rightarrow> KernelEqueueEvent list \<Rightarrow> KernelEvent list \<times> KernelEqueueEvent list" where
  "take_events room [] = ([], [])"
| "take_events room (e # es) =
    (case take_event room e of
       (evs, erase, e1) \<Rightarrow>
         (case (if room \<le> length evs then ([], es) else take_events (room - length evs) es) of
            (evs', es') \<Rightarrow> (evs @ evs', (if erase then es' else e1 # es'))))"

definition GetTriggeredEvents :: "u64 \<Rightarrow> nat \<Rightarrow> KernelEqueuePrivate \<Rightarrow> (int \<times> KernelEvent list \<times> KernelEqueuePrivate) outcome" where
  "GetTriggeredEvents now_ns num q =
    (if num < 1 then Exit
     else if eq_closed q then Done (KERNEL_ERROR_EBADF, [], q)
     else
       case take_events num (eq_events (TriggerExpiredTimers now_ns q)) of
         (evs, es) \<Rightarrow> Done (int (length evs), evs, q\<lparr>eq_events := es\<rparr>))"

definition wait_max :: u64 where "wait_max = 0xffffffff"

definition nearest_deadline :: "KernelEqueueEvent list \<Rightarrow> u64" where
  "nearest_deadline es =
    fold (\<lambda>e n. if \<not> ke_triggered e \<and> ke_deadline_ns e \<noteq> 0 then min n (ke_deadline_ns e) else n) es UINT64_MAX"

definition GetNextTimerWaitMicros :: "u64 \<Rightarrow> KernelEqueuePrivate \<Rightarrow> u64 option" where
  "GetNextTimerWaitMicros now_ns q =
    (let nearest = nearest_deadline (eq_events q)
     in if nearest = UINT64_MAX then None
        else
          let remaining_ns = (if now_ns < nearest then nearest - now_ns else 0);
              rounded_us = max 1 ((remaining_ns + 999) div 1000)
          in Some (min rounded_us wait_max))"

text \<open>
  One pass of the loop of \<open>WaitForEvents\<close>: the result, or how long to wait on the condition variable, without limit or
  in microseconds. The clock is read once for the timers and once for the wait.
\<close>

datatype wait_pass = Return int "KernelEvent list" | Sleep "u64 option"

definition WaitForEvents_pass ::
  "u64 \<Rightarrow> u64 \<Rightarrow> u32 \<Rightarrow> nat \<Rightarrow> u32 \<Rightarrow> KernelEqueuePrivate \<Rightarrow> (wait_pass \<times> KernelEqueuePrivate) outcome" where
  "WaitForEvents_pass now_ns now_ns' elapsed num micros q =
    obind (GetTriggeredEvents now_ns num q) (\<lambda>(ret, evs, q1).
      if ret \<noteq> 0 \<or> (micros \<le> elapsed \<and> micros \<noteq> 0) then Done (Return ret evs, q1)
      else
        let timer_wait = GetNextTimerWaitMicros now_ns' q1
        in Done
             (if micros = 0 \<and> timer_wait = None then (Sleep None, q1)
              else
                let external_wait = (if micros \<noteq> 0 then ucast (micros - elapsed) else wait_max)
                in (Sleep (Some (case timer_wait of Some w \<Rightarrow> min external_wait w | None \<Rightarrow> external_wait)), q1)))"

text \<open>Replacing the first event with the given identity.\<close>

fun update_first :: "('a \<Rightarrow> bool) \<Rightarrow> ('a \<Rightarrow> 'a) \<Rightarrow> 'a list \<Rightarrow> 'a list" where
  "update_first P f [] = []"
| "update_first P f (x # xs) = (if P x then f x # xs else x # update_first P f xs)"

fun erase_first :: "('a \<Rightarrow> bool) \<Rightarrow> 'a list \<Rightarrow> 'a list" where
  "erase_first P [] = []"
| "erase_first P (x # xs) = (if P x then xs else x # erase_first P xs)"

definition readd_event :: "KernelEqueueEvent \<Rightarrow> KernelEqueueEvent \<Rightarrow> KernelEqueueEvent" where
  "readd_event event e =
    e\<lparr>ke_deadline_ns := ke_deadline_ns event, ke_event := (ke_event e)\<lparr>ev_udata := ev_udata (ke_event event)\<rparr>,
      ke_pending := map (\<lambda>p. p\<lparr>ev_udata := ev_udata (ke_event event)\<rparr>) (ke_pending e)\<rparr>"

definition AddEvent :: "KernelEqueueEvent \<Rightarrow> KernelEqueuePrivate \<Rightarrow> int \<times> KernelEqueuePrivate" where
  "AddEvent event q =
    (let same = same_event (ev_ident (ke_event event)) (ev_filter (ke_event event))
     in if eq_closed q then (KERNEL_ERROR_EBADF, q)
        else if find same (eq_events q) \<noteq> None then (OK, q\<lparr>eq_events := update_first same (readd_event event) (eq_events q)\<rparr>)
        else (OK, q\<lparr>eq_events := eq_events q @ [event]\<rparr>))"

definition trigger_event :: "u64 \<Rightarrow> u64 \<Rightarrow> KernelEqueueEvent \<Rightarrow> KernelEqueueEvent" where
  "trigger_event tsc data e =
    (case ke_trigger_func e of Some f \<Rightarrow> call_trigger tsc f data e | None \<Rightarrow> e\<lparr>ke_triggered := True\<rparr>)"

definition TriggerEvent :: "u64 \<Rightarrow> u64 \<Rightarrow> int \<Rightarrow> u64 \<Rightarrow> KernelEqueuePrivate \<Rightarrow> int \<times> KernelEqueuePrivate" where
  "TriggerEvent tsc ident filt data q =
    (if eq_closed q then (KERNEL_ERROR_EBADF, q)
     else if find (same_event ident filt) (eq_events q) \<noteq> None
     then (OK, q\<lparr>eq_events := update_first (same_event ident filt) (trigger_event tsc data) (eq_events q)\<rparr>)
     else (KERNEL_ERROR_ENOENT, q))"

definition DeleteEvent :: "u64 \<Rightarrow> int \<Rightarrow> KernelEqueuePrivate \<Rightarrow> int \<times> KernelEqueueEvent list \<times> KernelEqueuePrivate" where
  "DeleteEvent ident filt q =
    (if eq_closed q then (KERNEL_ERROR_EBADF, [], q)
     else case find (same_event ident filt) (eq_events q) of
            Some e \<Rightarrow> (OK, deleted [e], q\<lparr>eq_events := erase_first (same_event ident filt) (eq_events q)\<rparr>)
          | None \<Rightarrow> (KERNEL_ERROR_ENOENT, [], q))"

section \<open>The queues of the process\<close>

record Equeues =
  g_equeues :: "nat \<Rightarrow> KernelEqueuePrivate option"
  g_next_equeue :: nat

definition KERNEL_EQUEUE_INVALID :: nat where "KERNEL_EQUEUE_INVALID = 0"

definition KernelPinEqueue :: "nat \<Rightarrow> Equeues \<Rightarrow> KernelEqueuePrivate option" where
  "KernelPinEqueue eq g = (if eq = KERNEL_EQUEUE_INVALID then None else g_equeues g eq)"

text \<open>\<open>eq\<close> and \<open>name\<close> of \<open>KernelCreateEqueue\<close> may be null.\<close>

definition KernelCreateEqueue :: "bool \<Rightarrow> bool \<Rightarrow> Equeues \<Rightarrow> (int \<times> nat option \<times> Equeues) outcome" where
  "KernelCreateEqueue eq_null name_null g =
    (if eq_null \<or> name_null then Done (KERNEL_ERROR_EINVAL, None, g)
     else if 2 ^ 63 - 1 < g_next_equeue g then Exit
     else
       Done (OK, Some (g_next_equeue g),
         g\<lparr>g_equeues := (g_equeues g)(g_next_equeue g := Some \<lparr>eq_events = [], eq_closed = False\<rparr>), g_next_equeue := g_next_equeue g + 1\<rparr>))"

definition put_queue :: "nat \<Rightarrow> KernelEqueuePrivate \<Rightarrow> Equeues \<Rightarrow> Equeues" where
  "put_queue eq q g = g\<lparr>g_equeues := (g_equeues g)(eq := Some q)\<rparr>"

definition KernelAddEvent :: "nat \<Rightarrow> KernelEqueueEvent \<Rightarrow> Equeues \<Rightarrow> int \<times> Equeues" where
  "KernelAddEvent eq event g =
    (case KernelPinEqueue eq g of
       None \<Rightarrow> (KERNEL_ERROR_EBADF, g)
     | Some owner \<Rightarrow> (case AddEvent event owner of (ret, q) \<Rightarrow> (ret, put_queue eq q g)))"

definition KernelTriggerEvent :: "u64 \<Rightarrow> nat \<Rightarrow> u64 \<Rightarrow> int \<Rightarrow> u64 \<Rightarrow> Equeues \<Rightarrow> int \<times> Equeues" where
  "KernelTriggerEvent tsc eq ident filt data g =
    (case KernelPinEqueue eq g of
       None \<Rightarrow> (KERNEL_ERROR_EBADF, g)
     | Some owner \<Rightarrow> (case TriggerEvent tsc ident filt data owner of (ret, q) \<Rightarrow> (ret, put_queue eq q g)))"

definition KernelDeleteEvent :: "nat \<Rightarrow> u64 \<Rightarrow> int \<Rightarrow> Equeues \<Rightarrow> int \<times> KernelEqueueEvent list \<times> Equeues" where
  "KernelDeleteEvent eq ident filt g =
    (case KernelPinEqueue eq g of
       None \<Rightarrow> (KERNEL_ERROR_EBADF, [], g)
     | Some owner \<Rightarrow> (case DeleteEvent ident filt owner of (ret, del, q) \<Rightarrow> (ret, del, put_queue eq q g)))"

definition KernelDeleteEqueue :: "nat \<Rightarrow> Equeues \<Rightarrow> int \<times> KernelEqueueEvent list \<times> Equeues" where
  "KernelDeleteEqueue eq g =
    (case g_equeues g eq of
       None \<Rightarrow> (KERNEL_ERROR_EBADF, [], g)
     | Some owner \<Rightarrow> (OK, fst (Close owner), g\<lparr>g_equeues := (g_equeues g)(eq := None)\<rparr>))"

text \<open>The checks of \<open>KernelWaitEqueue\<close> before it waits, what it waits for, and what it makes of the result.\<close>

datatype wait_start = Refused int | Poll | Wait u32

definition KernelWaitEqueue_start :: "nat \<Rightarrow> bool \<Rightarrow> int \<Rightarrow> u32 option \<Rightarrow> Equeues \<Rightarrow> wait_start" where
  "KernelWaitEqueue_start eq ev_null num timo g =
    (if KernelPinEqueue eq g = None then Refused KERNEL_ERROR_EBADF
     else if ev_null then Refused KERNEL_ERROR_EFAULT
     else if num < 1 then Refused KERNEL_ERROR_EINVAL
     else case timo of None \<Rightarrow> Wait 0 | Some t \<Rightarrow> if t = 0 then Poll else Wait t)"

definition KernelWaitEqueue_result :: "int \<Rightarrow> int" where
  "KernelWaitEqueue_result out =
    (if out = KERNEL_ERROR_EBADF then KERNEL_ERROR_EBADF else if out = 0 then KERNEL_ERROR_ETIMEDOUT else OK)"

section \<open>The kinds of events\<close>

definition ident_of :: "i32 \<Rightarrow> u64" where
  "ident_of i = scast i"

definition new_event :: "i32 \<Rightarrow> int \<Rightarrow> u16 \<Rightarrow> u64 \<Rightarrow> u64 \<Rightarrow> trigger_func option \<Rightarrow> reset_func option \<Rightarrow> KernelEqueueEvent" where
  "new_event i filt flags data udata trig reset =
    \<lparr>ke_triggered = False, ke_deadline_ns = 0,
     ke_event = \<lparr>ev_ident = ident_of i, ev_filter = filt, ev_flags = flags, ev_fflags = 0, ev_data = data, ev_udata = udata\<rparr>,
     ke_trigger_func = trig, ke_reset_func = reset, ke_delete_func = None, ke_pending = []\<rparr>"

definition KernelAddUserEvent :: "nat \<Rightarrow> i32 \<Rightarrow> Equeues \<Rightarrow> int \<times> Equeues" where
  "KernelAddUserEvent eq i g =
    KernelAddEvent eq (new_event i KERNEL_EVFILT_USER EV_ADD 0 0 (Some UserEventTriggerFunc) (Some UserEventResetFunc)) g"

definition KernelAddUserEventEdge :: "nat \<Rightarrow> i32 \<Rightarrow> Equeues \<Rightarrow> int \<times> Equeues" where
  "KernelAddUserEventEdge eq i g =
    KernelAddEvent eq (new_event i KERNEL_EVFILT_USER (EV_ADD OR EV_CLEAR) 0 0 (Some UserEventTriggerFunc) (Some UserEventResetFunc)) g"

definition KernelTriggerUserEvent :: "u64 \<Rightarrow> nat \<Rightarrow> i32 \<Rightarrow> u64 \<Rightarrow> Equeues \<Rightarrow> int \<times> Equeues" where
  "KernelTriggerUserEvent tsc eq i udata g = KernelTriggerEvent tsc eq (ident_of i) KERNEL_EVFILT_USER udata g"

text \<open>All queues are triggered; whether one of them had the event decides the answer. The given handles are all that there are.\<close>

definition KernelTriggerUserEventForAll :: "u64 \<Rightarrow> nat list \<Rightarrow> i32 \<Rightarrow> u64 \<Rightarrow> Equeues \<Rightarrow> int \<times> Equeues" where
  "KernelTriggerUserEventForAll tsc handles i udata g =
    (case fold (\<lambda>eq (triggered, g). case KernelTriggerEvent tsc eq (ident_of i) KERNEL_EVFILT_USER udata g of
            (ret, g1) \<Rightarrow> (if ret = OK then triggered + 1 else triggered, g1)) handles (0 :: nat, g) of
       (triggered, g1) \<Rightarrow> (if 0 < triggered then OK else KERNEL_ERROR_ENOENT, g1))"

definition KernelDeleteUserEvent :: "nat \<Rightarrow> i32 \<Rightarrow> Equeues \<Rightarrow> int \<times> KernelEqueueEvent list \<times> Equeues" where
  "KernelDeleteUserEvent eq i g = KernelDeleteEvent eq (ident_of i) KERNEL_EVFILT_USER g"

definition KernelAddFdEvent :: "u64 \<Rightarrow> nat \<Rightarrow> i32 \<Rightarrow> u64 \<Rightarrow> u64 \<Rightarrow> int \<Rightarrow> Equeues \<Rightarrow> int \<times> Equeues" where
  "KernelAddFdEvent tsc eq fd sz udata filt g =
    (case KernelAddEvent eq (new_event fd filt EV_ADD sz udata (Some FdReadyTriggerFunc) (Some FdReadyResetFunc)) g of
       (result, g1) \<Rightarrow> if result \<noteq> OK then (result, g1) else (OK, snd (KernelTriggerEvent tsc eq (ident_of fd) filt udata g1)))"

definition KernelAddReadEvent :: "u64 \<Rightarrow> nat \<Rightarrow> i32 \<Rightarrow> u64 \<Rightarrow> u64 \<Rightarrow> Equeues \<Rightarrow> int \<times> Equeues" where
  "KernelAddReadEvent tsc eq fd sz udata g = KernelAddFdEvent tsc eq fd sz udata KERNEL_EVFILT_READ g"

definition KernelDeleteReadEvent :: "nat \<Rightarrow> i32 \<Rightarrow> Equeues \<Rightarrow> int \<times> KernelEqueueEvent list \<times> Equeues" where
  "KernelDeleteReadEvent eq fd g = KernelDeleteEvent eq (ident_of fd) KERNEL_EVFILT_READ g"

definition KernelAddWriteEvent :: "u64 \<Rightarrow> nat \<Rightarrow> i32 \<Rightarrow> u64 \<Rightarrow> u64 \<Rightarrow> Equeues \<Rightarrow> int \<times> Equeues" where
  "KernelAddWriteEvent tsc eq fd sz udata g = KernelAddFdEvent tsc eq fd sz udata KERNEL_EVFILT_WRITE g"

definition KernelDeleteWriteEvent :: "nat \<Rightarrow> i32 \<Rightarrow> Equeues \<Rightarrow> int \<times> KernelEqueueEvent list \<times> Equeues" where
  "KernelDeleteWriteEvent eq fd g = KernelDeleteEvent eq (ident_of fd) KERNEL_EVFILT_WRITE g"

text \<open>The time of a timer, seconds and nanoseconds, or none for a null pointer.\<close>

definition KernelAddHRTimerEvent :: "u64 \<Rightarrow> nat \<Rightarrow> i32 \<Rightarrow> (int \<times> int) option \<Rightarrow> u64 \<Rightarrow> Equeues \<Rightarrow> int \<times> Equeues" where
  "KernelAddHRTimerEvent now_ns eq i ts udata g =
    (case ts of
       None \<Rightarrow> (KERNEL_ERROR_EFAULT, g)
     | Some (tv_sec, tv_nsec) \<Rightarrow>
         if tv_sec < 0 \<or> tv_nsec < 0 \<or> 1000000000 \<le> tv_nsec \<or> (UINT64_MAX - of_int tv_nsec) div 1000000000 < of_int tv_sec
         then (KERNEL_ERROR_EINVAL, g)
         else
           let delay_ns = of_int tv_sec * 1000000000 + of_int tv_nsec;
               event = (new_event i KERNEL_EVFILT_HRTIMER (EV_ADD OR EV_ONESHOT) 0 udata None None)
                 \<lparr>ke_deadline_ns := (if delay_ns \<le> UINT64_MAX - now_ns then now_ns + delay_ns else UINT64_MAX)\<rparr>
           in KernelAddEvent eq event g)"

definition KernelDeleteHRTimerEvent :: "nat \<Rightarrow> i32 \<Rightarrow> Equeues \<Rightarrow> int \<times> KernelEqueueEvent list \<times> Equeues" where
  "KernelDeleteHRTimerEvent eq i g = KernelDeleteEvent eq (ident_of i) KERNEL_EVFILT_HRTIMER g"

definition KernelAddAmprEvent :: "nat \<Rightarrow> i32 \<Rightarrow> u64 \<Rightarrow> Equeues \<Rightarrow> int \<times> Equeues" where
  "KernelAddAmprEvent eq i udata g =
    (OK, if eq \<noteq> KERNEL_EQUEUE_INVALID
         then snd (KernelAddEvent eq (new_event i KERNEL_EVFILT_USER (EV_ADD OR EV_CLEAR) 0 udata (Some AmprEventTriggerFunc) (Some UserEventResetFunc)) g)
         else g)"

definition KernelDeleteAmprEvent :: "nat \<Rightarrow> i32 \<Rightarrow> Equeues \<Rightarrow> int \<times> KernelEqueueEvent list \<times> Equeues" where
  "KernelDeleteAmprEvent eq i g =
    (if eq \<noteq> KERNEL_EQUEUE_INVALID then (OK, snd (KernelDeleteEvent eq (ident_of i) KERNEL_EVFILT_USER g)) else (OK, [], g))"

section \<open>Reading an event\<close>

definition KernelGetEventData :: "KernelEvent option \<Rightarrow> u64" where
  "KernelGetEventData ev = (case ev of Some e \<Rightarrow> ev_data e | None \<Rightarrow> 0)"

definition KernelGetEventFflags :: "KernelEvent option \<Rightarrow> u64" where
  "KernelGetEventFflags ev = (case ev of Some e \<Rightarrow> ucast (ev_fflags e) | None \<Rightarrow> 0)"

definition KernelGetEventFilter :: "KernelEvent option \<Rightarrow> int" where
  "KernelGetEventFilter ev = (case ev of Some e \<Rightarrow> ev_filter e | None \<Rightarrow> 0)"

definition KernelGetEventId :: "KernelEvent option \<Rightarrow> u64" where
  "KernelGetEventId ev = (case ev of Some e \<Rightarrow> ev_ident e | None \<Rightarrow> 0)"

definition KernelGetEventUserData :: "KernelEvent option \<Rightarrow> u64" where
  "KernelGetEventUserData ev = (case ev of Some e \<Rightarrow> ev_udata e | None \<Rightarrow> 0)"

definition KernelGetEventError :: "KernelEvent option \<Rightarrow> i32" where
  "KernelGetEventError ev = (case ev of Some e \<Rightarrow> if has_flag EV_ERROR e then ucast (ev_data e) else 0 | None \<Rightarrow> 0)"

end
