(* ===== verification/EventQueueProps.thy ===== *)
theory EventQueueProps
  imports EventQueue
begin

text \<open>
  Properties of event queues. A registered event stands for a list of occurrences that have happened and have not been
  handed out; waiting hands out the occurrences of all events in order, as many as fit. A lone waiter never misses
  one; with two waiters a timer can be missed.
\<close>

section \<open>Occurrences\<close>

definition occurrences :: "KernelEqueueEvent \<Rightarrow> KernelEvent list" where
  "occurrences e = (if \<not> ke_triggered e then [] else if has_flag EV_ONESHOT (ke_event e) then [ke_event e] else ke_event e # ke_pending e)"

text \<open>Events that a wait consumes, in contrast to those that stay triggered.\<close>

definition consumed :: "KernelEqueueEvent \<Rightarrow> bool" where
  "consumed e \<longleftrightarrow> has_flag EV_ONESHOT (ke_event e) \<or> has_flag EV_CLEAR (ke_event e) \<or>
    ke_reset_func e \<in> {Some FdReadyResetFunc, Some EopEventResetFunc, Some ResetVideoOutEvent}"

definition identity :: "KernelEvent \<Rightarrow> u64 \<times> int \<times> u16" where
  "identity ev = (ev_ident ev, ev_filter ev, ev_flags ev)"

text \<open>Only an event that a wait consumes may queue occurrences.\<close>

definition entry_ok :: "KernelEqueueEvent \<Rightarrow> bool" where
  "entry_ok e \<longleftrightarrow> (ke_pending e \<noteq> [] \<longrightarrow> ke_triggered e \<and> consumed e) \<and> (\<forall>p \<in> set (ke_pending e). identity p = identity (ke_event e)) \<and>
    (ke_trigger_func e \<in> {Some AmprEventTriggerFunc, Some EopEventTriggerFunc} \<longrightarrow> consumed e)"

definition key :: "KernelEqueueEvent \<Rightarrow> u64 \<times> int" where
  "key e = (ev_ident (ke_event e), ev_filter (ke_event e))"

definition queue_ok :: "KernelEqueuePrivate \<Rightarrow> bool" where
  "queue_ok q \<longleftrightarrow> (\<forall>e \<in> set (eq_events q). entry_ok e) \<and> distinct (map key (eq_events q)) \<and> (eq_closed q \<longrightarrow> eq_events q = [])"

lemma reset_facts:
  "identity (ke_event (reset_event e)) = identity (ke_event e)"
  "consumed e \<Longrightarrow> \<not> has_flag EV_ONESHOT (ke_event e) \<Longrightarrow> \<not> ke_triggered (reset_event e)"
  "\<not> consumed e \<Longrightarrow> reset_event e = e"
  "ke_reset_func (reset_event e) = ke_reset_func e" "ke_trigger_func (reset_event e) = ke_trigger_func e"
  by (auto simp: reset_event_def clear_event_def identity_def consumed_def has_flag_def split: option.splits reset_func.splits)

lemma flag_identity: "identity ev = identity ev' \<Longrightarrow> has_flag f ev = has_flag f ev'"
  by (simp add: identity_def has_flag_def)

lemma key_identity: "identity (ke_event e) = identity (ke_event e') \<Longrightarrow> key e = key e'"
  by (simp add: identity_def key_def)

lemma consumed_identity:
  "identity (ke_event e) = identity (ke_event e') \<Longrightarrow> ke_reset_func e = ke_reset_func e' \<Longrightarrow> consumed e = consumed e'"
  unfolding consumed_def by (metis flag_identity)

lemma take_event_spec:
  assumes "entry_ok e" "1 \<le> room"
  shows "case take_event room e of (evs, erase, e1) \<Rightarrow> evs = take room (occurrences e) \<and> entry_ok e1 \<and>
    key e1 = key e \<and> consumed e1 = consumed e \<and> (erase \<longrightarrow> consumed e \<and> drop room (occurrences e) = []) \<and>
    (consumed e \<longrightarrow> \<not> erase \<longrightarrow> occurrences e1 = drop room (occurrences e)) \<and> (\<not> consumed e \<longrightarrow> e1 = e)"
  using assms
proof (induction room e rule: take_event.induct)
  case (1 room e)
  show ?case
  proof (cases "ke_triggered e \<and> \<not> has_flag EV_ONESHOT (ke_event e)")
    case False
    then show ?thesis using "1.prems" by (subst take_event.simps) (auto simp: occurrences_def consumed_def)
  next
    case t: True
    note R = reset_facts [of e]
    have o: "occurrences e = ke_event e # ke_pending e" using t by (simp add: occurrences_def)
    have c: "consumed (reset_event e) = consumed e" using consumed_identity R(1,4) by blast
    have f: "has_flag EV_ONESHOT (ke_event (reset_event e)) = has_flag EV_ONESHOT (ke_event e)" using flag_identity R(1) by blast
    show ?thesis
    proof (cases "ke_pending e")
      case Nil
      have "consumed e \<Longrightarrow> occurrences (reset_event e) = []" using R(2) t by (simp add: occurrences_def)
      moreover have "entry_ok (reset_event e)" using "1.prems"(1) Nil R(5) c by (simp add: entry_ok_def)
      ultimately show ?thesis using t Nil o c R(3) key_identity [OF R(1)] "1.prems"(2) by (subst take_event.simps) (simp add: Let_def)
    next
      case (Cons p ps)
      let ?e2 = "(reset_event e)\<lparr>ke_event := p, ke_pending := ps, ke_triggered := True\<rparr>"
      have p: "identity p = identity (ke_event e)" "\<And>x. x \<in> set ps \<Longrightarrow> identity x = identity (ke_event e)" "consumed e"
        using "1.prems"(1) Cons by (simp_all add: entry_ok_def)
      have c2: "consumed ?e2" using consumed_identity [of ?e2 e] p R(4) by simp
      have "\<not> has_flag EV_ONESHOT p" using t flag_identity [OF p(1)] by simp
      then have e2: "entry_ok ?e2" "occurrences ?e2 = ke_pending e" "key ?e2 = key e"
        using p c2 Cons key_identity [of ?e2 e] by (simp_all add: entry_ok_def occurrences_def)
      show ?thesis
      proof (cases "room \<le> 1")
        case True
        then have "room = 1" using "1.prems"(2) by simp
        then show ?thesis using t Cons o e2 p(3) c2 by (subst take_event.simps) (simp add: Let_def)
      next
        case False
        obtain evs erase e3 where x: "take_event (room - 1) ?e2 = (evs, erase, e3)" by (cases "take_event (room - 1) ?e2")
        have "case take_event (room - 1) ?e2 of (evs, erase, e1) \<Rightarrow> evs = take (room - 1) (occurrences ?e2) \<and> entry_ok e1 \<and>
            key e1 = key ?e2 \<and> consumed e1 = consumed ?e2 \<and> (erase \<longrightarrow> consumed ?e2 \<and> drop (room - 1) (occurrences ?e2) = []) \<and>
            (consumed ?e2 \<longrightarrow> \<not> erase \<longrightarrow> occurrences e1 = drop (room - 1) (occurrences ?e2)) \<and> (\<not> consumed ?e2 \<longrightarrow> e1 = ?e2)"
          by (rule "1.IH" [OF _ _ refl _ refl]) (use t Cons False e2(1) in auto)
        note I = this [unfolded x prod.case]
        have "take_event room e = (ke_event e # evs, erase, e3)" using t Cons False x by (subst take_event.simps) (simp add: Let_def)
        moreover have "take room (occurrences e) = ke_event e # take (room - 1) (ke_pending e)"
          "drop room (occurrences e) = drop (room - 1) (ke_pending e)" using o False by (simp_all add: take_Cons' drop_Cons')
        ultimately show ?thesis using I e2 p(3) c2 by simp
      qed
    qed
  qed
qed

text \<open>The occurrences of all events in order, each with the mark whether a wait consumes it.\<close>

definition all_occurrences :: "KernelEqueueEvent list \<Rightarrow> (bool \<times> KernelEvent) list" where
  "all_occurrences es = concat (map (\<lambda>e. map (Pair (consumed e)) (occurrences e)) es)"

lemma all_occurrences_simps [simp]:
  "all_occurrences [] = []" "all_occurrences (e # es) = map (Pair (consumed e)) (occurrences e) @ all_occurrences es"
  by (simp_all add: all_occurrences_def)

definition consumables :: "KernelEqueueEvent list \<Rightarrow> KernelEvent list" where
  "consumables es = concat (map occurrences (filter consumed es))"

lemma consumables_simps [simp]:
  "consumables [] = []" "consumables (e # es) = (if consumed e then occurrences e else []) @ consumables es"
  by (simp_all add: consumables_def)

lemma consumables_marked: "map snd (filter fst (all_occurrences es)) = consumables es"
  by (induction es) (simp_all add: comp_def filter_map)

definition taken_ok :: "nat \<Rightarrow> KernelEqueueEvent list \<Rightarrow> KernelEvent list \<Rightarrow> KernelEqueueEvent list \<Rightarrow> bool" where
  "taken_ok room es evs es1 \<longleftrightarrow> evs = map snd (take room (all_occurrences es)) \<and>
    consumables es1 = map snd (filter fst (drop room (all_occurrences es))) \<and>
    filter (\<lambda>e. \<not> consumed e) es1 = filter (\<lambda>e. \<not> consumed e) es \<and>
    (\<forall>e \<in> set es1. entry_ok e) \<and> key ` set es1 \<subseteq> key ` set es \<and> (distinct (map key es) \<longrightarrow> distinct (map key es1))"

lemma taken_ok_step:
  assumes r: "if room \<le> length evs then evs' = [] \<and> es' = es else taken_ok (room - length evs) es evs' es'"
    and "\<forall>x \<in> set es. entry_ok x" "1 \<le> room" and T: "evs = take room (occurrences e)" "entry_ok e1" "key e1 = key e" "consumed e1 = consumed e"
      "erase \<longrightarrow> consumed e \<and> drop room (occurrences e) = []" "consumed e \<longrightarrow> \<not> erase \<longrightarrow> occurrences e1 = drop room (occurrences e)"
      "\<not> consumed e \<longrightarrow> e1 = e"
  shows "taken_ok room (e # es) (evs @ evs') (if erase then es' else e1 # es')"
proof -
  let ?A = "all_occurrences es" and ?f = "map (Pair (consumed e)) (occurrences e)"
  have x: "map snd (take room (?f @ ?A)) = evs @ evs'" "consumables es' = map snd (filter fst (drop (room - length (occurrences e)) ?A))"
    "filter (\<lambda>e. \<not> consumed e) es' = filter (\<lambda>e. \<not> consumed e) es" "\<forall>e \<in> set es'. entry_ok e" "key ` set es' \<subseteq> key ` set es"
    "distinct (map key es) \<longrightarrow> distinct (map key es')"
  proof -
    have f: "map snd (take room (?f @ ?A)) = evs @ map snd (take (room - length (occurrences e)) ?A)"
      unfolding take_append map_append by (simp add: T(1) take_map comp_def)
    have "map snd (take room (?f @ ?A)) = evs @ evs' \<and> consumables es' = map snd (filter fst (drop (room - length (occurrences e)) ?A)) \<and>
      filter (\<lambda>e. \<not> consumed e) es' = filter (\<lambda>e. \<not> consumed e) es \<and> (\<forall>e \<in> set es'. entry_ok e) \<and> key ` set es' \<subseteq> key ` set es \<and>
      (distinct (map key es) \<longrightarrow> distinct (map key es'))"
    proof (cases "room \<le> length evs")
      case True
      then have "room - length (occurrences e) = 0" "evs' = []" "es' = es" using r T(1) by simp_all
      then show ?thesis unfolding f using assms(2) consumables_marked [of es] by simp
    next
      case False
      then have l: "length (occurrences e) = length evs" using T(1) by simp
      have "taken_ok (room - length evs) es evs' es'" using r False by simp
      then show ?thesis unfolding f l taken_ok_def by blast
    qed
    then show "map snd (take room (?f @ ?A)) = evs @ evs'" "consumables es' = map snd (filter fst (drop (room - length (occurrences e)) ?A))"
      "filter (\<lambda>e. \<not> consumed e) es' = filter (\<lambda>e. \<not> consumed e) es" "\<forall>e \<in> set es'. entry_ok e" "key ` set es' \<subseteq> key ` set es"
      "distinct (map key es) \<longrightarrow> distinct (map key es')" by blast+
  qed
  have y: "map snd (filter fst (drop room (?f @ ?A))) =
    (if consumed e then drop room (occurrences e) else []) @ map snd (filter fst (drop (room - length (occurrences e)) ?A))"
    by (simp add: drop_map filter_map comp_def)
  show ?thesis unfolding taken_ok_def all_occurrences_simps
  proof (intro conjI impI)
    show "consumables (if erase then es' else e1 # es') = map snd (filter fst (drop room (?f @ ?A)))"
      using x(2) y T(4-6) by (cases erase) auto
    show "filter (\<lambda>e. \<not> consumed e) (if erase then es' else e1 # es') = filter (\<lambda>e. \<not> consumed e) (e # es)"
      using x(3) T(4,5,7) by (cases erase) auto
    show "key ` set (if erase then es' else e1 # es') \<subseteq> key ` set (e # es)" using x(5) T(3) by auto
    show "distinct (map key (if erase then es' else e1 # es'))" if "distinct (map key (e # es))" using that x(5,6) T(3) by (cases erase) auto
  qed (use x(1,4) T(2) in simp_all)
qed

lemma take_events_spec:
  assumes "\<forall>e \<in> set es. entry_ok e" "1 \<le> room"
  shows "case take_events room es of (evs, es1) \<Rightarrow> taken_ok room es evs es1"
  using assms
proof (induction es arbitrary: room)
  case Nil
  then show ?case by (simp add: taken_ok_def)
next
  case (Cons e es)
  obtain evs erase e1 where t: "take_event room e = (evs, erase, e1)" by (cases "take_event room e")
  have ok: "entry_ok e" "\<forall>x \<in> set es. entry_ok x" using Cons.prems(1) by simp_all
  note T = take_event_spec [OF ok(1) Cons.prems(2), unfolded t prod.case]
  obtain evs' es' where r: "(if room \<le> length evs then ([], es) else take_events (room - length evs) es) = (evs', es')" by fastforce
  have e: "take_events room (e # es) = (evs @ evs', if erase then es' else e1 # es')" using t r by simp
  have "if room \<le> length evs then evs' = [] \<and> es' = es else taken_ok (room - length evs) es evs' es'"
    using r Cons.IH [OF ok(2), of "room - length evs"] by (cases "room \<le> length evs") simp_all
  then show ?case unfolding e prod.case by (rule taken_ok_step [OF _ ok(2) Cons.prems(2)]) (use T in simp_all)
qed

section \<open>Every operation keeps the queue in order\<close>

lemma expire_facts: "key (expire now e) = key e" "entry_ok e \<Longrightarrow> entry_ok (expire now e)" "consumed (expire now e) = consumed e"
  by (auto simp: expire_def key_def entry_ok_def consumed_def)

lemma trigger_facts:
  assumes "entry_ok e"
  shows "entry_ok (trigger_event tsc data e)" "key (trigger_event tsc data e) = key e" "consumed (trigger_event tsc data e) = consumed e"
    "ke_triggered (trigger_event tsc data e)"
proof -
  show "entry_ok (trigger_event tsc data e)" "key (trigger_event tsc data e) = key e" "consumed (trigger_event tsc data e) = consumed e"
    "ke_triggered (trigger_event tsc data e)"
    using assms by (cases "ke_trigger_func e"; cases "the (ke_trigger_func e)";
      auto simp: trigger_event_def queue_event_def entry_ok_def identity_def key_def consumed_def has_flag_def split: prod.splits)+
qed

lemma readd_facts: "entry_ok e \<Longrightarrow> entry_ok (readd_event x e)" "key (readd_event x e) = key e" "consumed (readd_event x e) = consumed e"
  by (auto simp: readd_event_def entry_ok_def identity_def key_def consumed_def has_flag_def)

lemma update_first_facts:
  assumes "\<forall>e \<in> set es. entry_ok e" "\<And>e. entry_ok e \<Longrightarrow> entry_ok (f e)" "\<And>e. entry_ok e \<Longrightarrow> key (f e) = key e"
  shows "\<forall>e \<in> set (update_first P f es). entry_ok e" "map key (update_first P f es) = map key es"
  using assms by (induction es) auto

lemma erase_first_facts: "set (erase_first P es) \<subseteq> set es" "distinct (map key es) \<Longrightarrow> distinct (map key (erase_first P es))"
  by (induction es) auto

lemma same_key: "same_event i f e \<longleftrightarrow> key e = (i, f)"
  by (auto simp: same_event_def key_def)

lemma queue_ok_ops:
  assumes "queue_ok q"
  shows "queue_ok (snd (Close q))"
    and "GetTriggeredEvents now num q = Done (n, evs, q1) \<Longrightarrow> queue_ok q1"
    and "entry_ok e \<Longrightarrow> queue_ok (snd (AddEvent e q))"
    and "queue_ok (snd (TriggerEvent tsc i f data q))"
    and "queue_ok (snd (snd (DeleteEvent i f q)))"
proof -
  show "queue_ok (snd (Close q))" using assms by (simp add: Close_def queue_ok_def)
  show "queue_ok q1" if g: "GetTriggeredEvents now num q = Done (n, evs, q1)"
  proof (cases "eq_closed q")
    case True
    then show ?thesis using g assms by (simp add: GetTriggeredEvents_def split: if_splits)
  next
    case False
    obtain evs' es' where t: "take_events num (map (expire now) (eq_events q)) = (evs', es')" by (cases "take_events num (map (expire now) (eq_events q))")
    have k: "distinct (map key (map (expire now) (eq_events q)))" using assms by (simp add: expire_facts queue_ok_def comp_def)
    have "\<forall>e \<in> set (map (expire now) (eq_events q)). entry_ok e" using assms expire_facts(2) by (auto simp: queue_ok_def)
    moreover have "1 \<le> num" using g by (auto simp: GetTriggeredEvents_def split: if_splits)
    ultimately have "taken_ok num (map (expire now) (eq_events q)) evs' es'"
      using take_events_spec [of "map (expire now) (eq_events q)" num] unfolding t prod.case by blast
    then have "\<forall>e \<in> set es'. entry_ok e" "distinct (map key es')" using k by (simp_all add: taken_ok_def)
    then show ?thesis using g False t by (auto simp: GetTriggeredEvents_def TriggerExpiredTimers_def queue_ok_def split: if_splits)
  qed
  have ok: "\<forall>e \<in> set (eq_events q). entry_ok e" and d: "distinct (map key (eq_events q))" using assms by (simp_all add: queue_ok_def)
  show "queue_ok (snd (AddEvent e q))" if e: "entry_ok e"
  proof -
    have "key e \<notin> key ` set (eq_events q)" if "find (same_event (ev_ident (ke_event e)) (ev_filter (ke_event e))) (eq_events q) = None"
      using that by (auto simp: find_None_iff same_key) (metis key_def)
    then show ?thesis
      using assms e update_first_facts [OF ok readd_facts(1) readd_facts(2)] by (auto simp: AddEvent_def queue_ok_def Let_def)
  qed
  show "queue_ok (snd (TriggerEvent tsc i f data q))"
    using assms update_first_facts [OF ok trigger_facts(1) trigger_facts(2)] by (auto simp: TriggerEvent_def queue_ok_def)
  show "queue_ok (snd (snd (DeleteEvent i f q)))"
    using assms erase_first_facts [where es = "eq_events q"] by (fastforce simp: DeleteEvent_def queue_ok_def split: option.splits)
qed

lemma triggered_events:
  assumes "queue_ok q" "\<not> eq_closed q" "1 \<le> num"
  obtains evs es1 where "GetTriggeredEvents now num q = Done (int (length evs), evs, q\<lparr>eq_events := es1\<rparr>)"
    "taken_ok num (map (expire now) (eq_events q)) evs es1"
proof -
  obtain evs es1 where t: "take_events num (map (expire now) (eq_events q)) = (evs, es1)" by (cases "take_events num (map (expire now) (eq_events q))")
  have "\<forall>e \<in> set (map (expire now) (eq_events q)). entry_ok e" using assms(1) expire_facts(2) by (auto simp: queue_ok_def)
  from take_events_spec [OF this assms(3)] have "taken_ok num (map (expire now) (eq_events q)) evs es1" unfolding t prod.case .
  moreover have "GetTriggeredEvents now num q = Done (int (length evs), evs, q\<lparr>eq_events := es1\<rparr>)"
    using assms t by (simp add: GetTriggeredEvents_def TriggerExpiredTimers_def)
  ultimately show thesis using that by blast
qed

text \<open>C27. Waiting hands out the occurrences of all events, in the order of the events and of each event's queue, as many as fit; of
  those that a wait consumes exactly the ones that did not fit are left, and events that stay triggered are unchanged.
\<close>

theorem events_delivered_exact:
  assumes "queue_ok q" "\<not> eq_closed q" "1 \<le> num"
  shows "\<exists>q1. GetTriggeredEvents now num q =
      Done (int (min num (length (all_occurrences (map (expire now) (eq_events q))))), map snd (take num (all_occurrences (map (expire now) (eq_events q)))), q1) \<and>
    consumables (eq_events q1) = map snd (filter fst (drop num (all_occurrences (map (expire now) (eq_events q))))) \<and>
    filter (\<lambda>e. \<not> consumed e) (eq_events q1) = filter (\<lambda>e. \<not> consumed e) (map (expire now) (eq_events q)) \<and>
    queue_ok q1 \<and> \<not> eq_closed q1"
proof -
  obtain evs es1 where t: "GetTriggeredEvents now num q = Done (int (length evs), evs, q\<lparr>eq_events := es1\<rparr>)"
    "taken_ok num (map (expire now) (eq_events q)) evs es1"
    using triggered_events [OF assms] by blast
  have "queue_ok (q\<lparr>eq_events := es1\<rparr>)" by (rule queue_ok_ops(2) [OF assms(1) t(1)])
  then show ?thesis using t assms(2) by (auto simp: taken_ok_def min.commute)
qed

definition ampr_example :: KernelEqueuePrivate where
  "ampr_example =
    (let q = snd (AddEvent (new_event 7 KERNEL_EVFILT_USER (EV_ADD OR EV_CLEAR) 0 5 (Some AmprEventTriggerFunc) (Some UserEventResetFunc))
          \<lparr>eq_events = [], eq_closed = False\<rparr>)
     in snd (TriggerEvent 0 7 KERNEL_EVFILT_USER 12 (snd (TriggerEvent 0 7 KERNEL_EVFILT_USER 11 q))))"

lemmas event_eval = ampr_example_def AddEvent_def TriggerEvent_def new_event_def ident_of_def same_event_def trigger_event_def queue_event_def
  KERNEL_EVFILT_USER_def EV_ADD_def EV_CLEAR_def EV_ONESHOT_def Let_def

lemma ampr_example_ok: "queue_ok ampr_example" "\<not> eq_closed ampr_example"
  by (simp_all add: event_eval queue_ok_def entry_ok_def consumed_def has_flag_def identity_def)

theorem events_delivered_exact_witness:
  "\<exists>q1. GetTriggeredEvents 0 1 ampr_example =
      Done (1, [\<lparr>ev_ident = 7, ev_filter = KERNEL_EVFILT_USER, ev_flags = 0x21, ev_fflags = 0, ev_data = 11, ev_udata = 5\<rparr>], q1) \<and>
    consumables (eq_events q1) = [\<lparr>ev_ident = 7, ev_filter = KERNEL_EVFILT_USER, ev_flags = 0x21, ev_fflags = 0, ev_data = 12, ev_udata = 5\<rparr>]"
proof -
  have "all_occurrences (map (expire 0) (eq_events ampr_example)) =
    map (\<lambda>n. (True, \<lparr>ev_ident = 7, ev_filter = KERNEL_EVFILT_USER, ev_flags = 0x21, ev_fflags = 0, ev_data = n, ev_udata = 5\<rparr>)) [11, 12]"
    by (simp add: event_eval occurrences_def expire_def consumed_def has_flag_def)
  then show ?thesis using events_delivered_exact [OF ampr_example_ok, of 1 0] by auto
qed

section \<open>Triggering\<close>

lemma update_first_key:
  assumes "distinct (map key (pre @ e # post))"
  shows "update_first (same_event (fst (key e)) (snd (key e))) f (pre @ e # post) = pre @ f e # post"
    and "find (same_event (fst (key e)) (snd (key e))) (pre @ e # post) = Some e"
  using assms by (induction pre) (auto simp: same_key)

lemma update_first_new:
  assumes "\<forall>x \<in> set pre. \<not> P x" "P e"
  shows "update_first P f (pre @ [e]) = pre @ [f e]" "find P (pre @ [e]) = Some e"
  using assms by (induction pre) auto

lemma ampr_trigger:
  assumes "entry_ok e" "ke_trigger_func e = Some AmprEventTriggerFunc" "\<not> has_flag EV_ONESHOT (ke_event e)"
  shows "occurrences (trigger_event tsc d e) = occurrences e @ [(ke_event e)\<lparr>ev_data := d\<rparr>]"
    "ke_trigger_func (trigger_event tsc d e) = Some AmprEventTriggerFunc"
    "(ke_event (trigger_event tsc d e))\<lparr>ev_data := x\<rparr> = (ke_event e)\<lparr>ev_data := x\<rparr>"
    "has_flag f (ke_event (trigger_event tsc d e)) = has_flag f (ke_event e)"
  using assms by (auto simp: trigger_event_def queue_event_def occurrences_def has_flag_def entry_ok_def)

definition TriggerEvents :: "u64 \<Rightarrow> u64 \<Rightarrow> int \<Rightarrow> u64 list \<Rightarrow> KernelEqueuePrivate \<Rightarrow> KernelEqueuePrivate" where
  "TriggerEvents tsc i f ds q = fold (\<lambda>d q. snd (TriggerEvent tsc i f d q)) ds q"

text \<open>
  Triggering an event of the AMPR kind any number of times before anyone waits loses none: each time adds one occurrence with
  the given data, in order, and touches no other event.
\<close>

lemma ampr_triggers_queued:
  assumes "queue_ok q" "eq_events q = pre @ e # post" "key e = (i, f)"
    "ke_trigger_func e = Some AmprEventTriggerFunc" "\<not> has_flag EV_ONESHOT (ke_event e)"
  shows "\<exists>e'. eq_events (TriggerEvents tsc i f ds q) = pre @ e' # post \<and> key e' = (i, f) \<and> consumed e' = consumed e \<and>
    occurrences e' = occurrences e @ map (\<lambda>d. (ke_event e)\<lparr>ev_data := d\<rparr>) ds \<and> queue_ok (TriggerEvents tsc i f ds q)"
  using assms
proof (induction ds arbitrary: q e)
  case Nil
  then show ?case by (simp add: TriggerEvents_def)
next
  case (Cons d ds)
  let ?q = "snd (TriggerEvent tsc i f d q)" and ?e = "trigger_event tsc d e"
  have ok: "queue_ok ?q" using Cons.prems(1) by (rule queue_ok_ops(4))
  have c: "entry_ok e" "\<not> eq_closed q" "distinct (map key (pre @ e # post))" using Cons.prems(1,2) by (auto simp: queue_ok_def)
  have e: "eq_events ?q = pre @ ?e # post"
    using update_first_key(1) [OF c(3), of "trigger_event tsc d"] update_first_key(2) [OF c(3)] c(2) Cons.prems(2,3) by (simp add: TriggerEvent_def)
  have k: "key ?e = (i, f)" "consumed ?e = consumed e" using trigger_facts(2,3) [OF c(1)] Cons.prems(3) by simp_all
  note A = ampr_trigger [OF c(1) Cons.prems(4,5)]
  have "TriggerEvents tsc i f (d # ds) q = TriggerEvents tsc i f ds ?q" by (simp add: TriggerEvents_def)
  then show ?case using Cons.IH [OF ok e k(1)] A Cons.prems(5) k by simp
qed

lemma ampr_triggers_queued_example:
  "\<exists>e'. eq_events (TriggerEvents 0 7 KERNEL_EVFILT_USER [13, 14] ampr_example) = [e'] \<and> map ev_data (occurrences e') = [11, 12, 13, 14]"
proof -
  define e where "e = hd (eq_events ampr_example)"
  have e: "eq_events ampr_example = [] @ e # []" "key e = (7, KERNEL_EVFILT_USER)" "ke_trigger_func e = Some AmprEventTriggerFunc"
    "\<not> has_flag EV_ONESHOT (ke_event e)" "map ev_data (occurrences e) = [11, 12]"
    by (simp_all add: e_def event_eval key_def has_flag_def occurrences_def)
  from ampr_triggers_queued [OF ampr_example_ok(1) this(1-4), of 0 "[13, 14]"] show ?thesis using e(5) by auto
qed

section \<open>All queues of the process\<close>

inductive eq_step :: "Equeues \<Rightarrow> Equeues \<Rightarrow> bool" where
  eq_create: "KernelCreateEqueue eq_null name_null g = Done (ret, h, g1) \<Longrightarrow> eq_step g g1"
| eq_add: "entry_ok event \<Longrightarrow> eq_step g (snd (KernelAddEvent eq event g))"
| eq_trigger: "eq_step g (snd (KernelTriggerEvent tsc eq ident filt data g))"
| eq_delete: "eq_step g (snd (snd (KernelDeleteEvent eq ident filt g)))"
| eq_wait: "KernelPinEqueue eq g = Some q \<Longrightarrow> WaitForEvents_pass now now' elapsed num micros q = Done (pass, q1) \<Longrightarrow> eq_step g (put_queue eq q1 g)"
| eq_poll: "KernelPinEqueue eq g = Some q \<Longrightarrow> GetTriggeredEvents now num q = Done (n, evs, q1) \<Longrightarrow> eq_step g (put_queue eq q1 g)"
| eq_destroy: "eq_step g (snd (snd (KernelDeleteEqueue eq g)))"

definition eq_start :: "Equeues \<Rightarrow> bool" where
  "eq_start g \<longleftrightarrow> g = \<lparr>g_equeues = (\<lambda>_. None), g_next_equeue = 1\<rparr>"

definition eq_inv :: "Equeues \<Rightarrow> bool" where
  "eq_inv g \<longleftrightarrow> (\<forall>h q. g_equeues g h = Some q \<longrightarrow> queue_ok q \<and> \<not> eq_closed q \<and> h \<noteq> KERNEL_EQUEUE_INVALID \<and> h < g_next_equeue g) \<and> 1 \<le> g_next_equeue g"

text \<open>A handle that was given out and has no queue any more.\<close>

definition stale :: "nat \<Rightarrow> Equeues \<Rightarrow> bool" where
  "stale h g \<longleftrightarrow> h < g_next_equeue g \<and> g_equeues g h = None"

lemma open_kept:
  "\<not> eq_closed q \<Longrightarrow> \<not> eq_closed (snd (AddEvent e q)) \<and> \<not> eq_closed (snd (TriggerEvent tsc i f data q)) \<and> \<not> eq_closed (snd (snd (DeleteEvent i f q)))"
  "GetTriggeredEvents now num q = Done (n, evs, q1) \<Longrightarrow> \<not> eq_closed q \<Longrightarrow> \<not> eq_closed q1"
  by (auto simp: AddEvent_def TriggerEvent_def DeleteEvent_def GetTriggeredEvents_def Let_def split: option.splits if_splits prod.splits)

lemma pass_queue: "WaitForEvents_pass now now' elapsed num micros q = Done (pass, q1) \<Longrightarrow> \<exists>n evs. GetTriggeredEvents now num q = Done (n, evs, q1)"
  by (cases "GetTriggeredEvents now num q") (auto simp: WaitForEvents_pass_def Let_def split: if_splits)

lemma pin_cases: "KernelPinEqueue eq g = Some q \<longleftrightarrow> eq \<noteq> KERNEL_EQUEUE_INVALID \<and> g_equeues g eq = Some q"
  by (simp add: KernelPinEqueue_def)

lemma put_kept:
  assumes "KernelPinEqueue eq g = Some q" "eq_inv g" "queue_ok q \<Longrightarrow> \<not> eq_closed q \<Longrightarrow> queue_ok q' \<and> \<not> eq_closed q'"
  shows "eq_inv (put_queue eq q' g) \<and> (\<forall>h. stale h g \<longrightarrow> stale h (put_queue eq q' g))"
  using assms by (auto simp: eq_inv_def put_queue_def stale_def pin_cases)

lemma eq_step_kept: "eq_step g g1 \<Longrightarrow> eq_inv g \<Longrightarrow> eq_inv g1 \<and> (\<forall>h. stale h g \<longrightarrow> stale h g1)"
proof (induction rule: eq_step.induct)
  case (eq_create eq_null name_null g ret h g1)
  then show ?case
    by (auto simp: KernelCreateEqueue_def eq_inv_def stale_def queue_ok_def KERNEL_EQUEUE_INVALID_def less_Suc_eq split: if_splits)
next
  case (eq_add event g eq)
  then show ?case
    using put_kept [where q' = "snd (AddEvent event _)"] queue_ok_ops(3) open_kept(1)
    by (cases "KernelPinEqueue eq g") (simp_all add: KernelAddEvent_def split_beta)
next
  case (eq_trigger g tsc eq ident filt data)
  then show ?case
    using put_kept [where q' = "snd (TriggerEvent tsc ident filt data _)"] queue_ok_ops(4) open_kept(1)
    by (cases "KernelPinEqueue eq g") (simp_all add: KernelTriggerEvent_def split_beta)
next
  case (eq_delete g eq ident filt)
  then show ?case
    using put_kept [where q' = "snd (snd (DeleteEvent ident filt _))"] queue_ok_ops(5) open_kept(1)
    by (cases "KernelPinEqueue eq g") (simp_all add: KernelDeleteEvent_def split_beta)
next
  case (eq_wait eq g q now now' elapsed num micros pass q1)
  then obtain n evs where "GetTriggeredEvents now num q = Done (n, evs, q1)" using pass_queue by blast
  then show ?case using put_kept [OF eq_wait(1,3)] queue_ok_ops(2) open_kept(2) by blast
next
  case (eq_poll eq g q now num n evs q1)
  then show ?case using put_kept [OF eq_poll(1,3)] queue_ok_ops(2) open_kept(2) by blast
next
  case (eq_destroy g eq)
  then show ?case
    by (auto simp: KernelDeleteEqueue_def eq_inv_def stale_def split: option.splits)
qed

interpretation eqs: kept eq_start eq_step eq_inv
  by unfold_locales (simp add: eq_start_def eq_inv_def, use eq_step_kept in blast)

lemma stale_steps: "eq_step\<^sup>*\<^sup>* g g1 \<Longrightarrow> eq_inv g \<Longrightarrow> stale h g \<Longrightarrow> stale h g1"
proof (induction rule: rtranclp_induct)
  case (step y z)
  then show ?case using eq_step_kept [of y z] eqs.steps_inv [of g y] by blast
qed

lemma create_fresh: "eq_inv g \<Longrightarrow> KernelCreateEqueue n m g = Done (ret, Some h, g1) \<Longrightarrow> h = g_next_equeue g \<and> g_equeues g h = None"
  by (auto simp: KernelCreateEqueue_def eq_inv_def split: if_splits) (meson less_irrefl_nat not_Some_eq)

lemma next_grows: "eq_step g g1 \<Longrightarrow> g_next_equeue g \<le> g_next_equeue g1"
  by (induction rule: eq_step.induct)
    (auto simp: KernelCreateEqueue_def KernelAddEvent_def KernelTriggerEvent_def KernelDeleteEvent_def KernelDeleteEqueue_def put_queue_def
      split: if_splits option.splits prod.splits)

lemma next_grows_steps: "eq_step\<^sup>*\<^sup>* g g1 \<Longrightarrow> g_next_equeue g \<le> g_next_equeue g1"
  by (induction rule: rtranclp_induct) (auto dest: next_grows)

text \<open>The events that the functions of the library add are such as a step may add.\<close>

lemma library_steps:
  "eq_step g (snd (KernelAddUserEvent eq i g))" "eq_step g (snd (KernelAddUserEventEdge eq i g))"
  "eq_step g (snd (KernelTriggerUserEvent tsc eq i udata g))" "eq_step g (snd (snd (KernelDeleteUserEvent eq i g)))"
  "eq_step\<^sup>*\<^sup>* g (snd (KernelAddReadEvent tsc eq fd sz udata g))" "eq_step\<^sup>*\<^sup>* g (snd (KernelAddWriteEvent tsc eq fd sz udata g))"
  "eq_step\<^sup>*\<^sup>* g (snd (KernelAddHRTimerEvent now eq i ts udata g))" "eq_step\<^sup>*\<^sup>* g (snd (KernelAddAmprEvent eq i udata g))"
proof -
  have ok: "entry_ok (new_event i filt flags data udata (Some UserEventTriggerFunc) (Some UserEventResetFunc))"
    "entry_ok (new_event i filt flags data udata (Some FdReadyTriggerFunc) (Some FdReadyResetFunc))"
    "entry_ok ((new_event i filt flags data udata None None)\<lparr>ke_deadline_ns := d\<rparr>)"
    "entry_ok (new_event i filt (EV_ADD OR EV_CLEAR) data udata (Some AmprEventTriggerFunc) (Some UserEventResetFunc))" for i filt flags data udata d
    by (simp_all add: new_event_def entry_ok_def consumed_def has_flag_def EV_ADD_def EV_CLEAR_def)
  note add = eq_add [OF ok(1)] eq_add [OF ok(2)] eq_add [OF ok(3)] eq_add [OF ok(4)]
  show "eq_step g (snd (KernelAddUserEvent eq i g))" "eq_step g (snd (KernelAddUserEventEdge eq i g))"
    unfolding KernelAddUserEvent_def KernelAddUserEventEdge_def by (rule add)+
  show "eq_step g (snd (KernelTriggerUserEvent tsc eq i udata g))" "eq_step g (snd (snd (KernelDeleteUserEvent eq i g)))"
    unfolding KernelTriggerUserEvent_def KernelDeleteUserEvent_def by (rule eq_trigger eq_delete)+
  have fd: "eq_step\<^sup>*\<^sup>* g (snd (KernelAddFdEvent tsc eq fd sz udata filt g))" for filt
  proof -
    obtain r g1 where a: "KernelAddEvent eq (new_event fd filt EV_ADD sz udata (Some FdReadyTriggerFunc) (Some FdReadyResetFunc)) g = (r, g1)" by fastforce
    then have "eq_step g g1" using add(2) [of g eq fd filt EV_ADD sz udata] by simp
    then show ?thesis using a eq_trigger [of g1 tsc eq "ident_of fd" filt udata]
      by (auto simp: KernelAddFdEvent_def)
  qed
  show "eq_step\<^sup>*\<^sup>* g (snd (KernelAddReadEvent tsc eq fd sz udata g))" "eq_step\<^sup>*\<^sup>* g (snd (KernelAddWriteEvent tsc eq fd sz udata g))"
    unfolding KernelAddReadEvent_def KernelAddWriteEvent_def by (rule fd)+
  show "eq_step\<^sup>*\<^sup>* g (snd (KernelAddHRTimerEvent now eq i ts udata g))"
    by (auto simp: KernelAddHRTimerEvent_def Let_def split: option.splits intro!: r_into_rtranclp add(3))
  show "eq_step\<^sup>*\<^sup>* g (snd (KernelAddAmprEvent eq i udata g))"
    by (auto simp: KernelAddAmprEvent_def intro!: r_into_rtranclp add(4))
qed

text \<open>C28. In every reachable state the queues are open and in order: no two events of a queue have the same identity, and only
  triggered events queue occurrences, all under the identity of the event. A handle whose queue was deleted finds no queue ever after, because a new queue
  never gets a handle that was given out before.
\<close>

theorem equeues_invariant:
  assumes "reach eq_start eq_step g" "eq_step\<^sup>*\<^sup>* g g1"
  shows "(KernelPinEqueue h g = Some q \<longrightarrow> queue_ok q \<and> \<not> eq_closed q) \<and>
    (h < g_next_equeue g \<longrightarrow> KernelPinEqueue h g = None \<longrightarrow> KernelPinEqueue h g1 = None) \<and>
    (KernelCreateEqueue eq_null name_null g1 = Done (ret, Some h', g2) \<longrightarrow> h' \<noteq> KERNEL_EQUEUE_INVALID \<and> KernelPinEqueue h' g = None \<and> KernelPinEqueue h' g1 = None)"
proof (intro conjI impI)
  have inv: "eq_inv g" "eq_inv g1" using eqs.reach_inv [OF assms(1)] eqs.steps_inv [OF assms(2)] by blast+
  show "queue_ok q" "\<not> eq_closed q" if "KernelPinEqueue h g = Some q" using that inv(1) by (auto simp: eq_inv_def pin_cases)
  show "KernelPinEqueue h g1 = None" if "h < g_next_equeue g" "KernelPinEqueue h g = None"
    using that stale_steps [OF assms(2) inv(1), of h] by (auto simp: stale_def KernelPinEqueue_def split: if_splits)
  assume c: "KernelCreateEqueue eq_null name_null g1 = Done (ret, Some h', g2)"
  note f = create_fresh [OF inv(2) c]
  show "h' \<noteq> KERNEL_EQUEUE_INVALID" using f inv(2) by (auto simp: eq_inv_def KERNEL_EQUEUE_INVALID_def)
  show "KernelPinEqueue h' g1 = None" unfolding KernelPinEqueue_def using f by argo
  have "g_equeues g h' = None"
  proof (rule ccontr)
    assume "g_equeues g h' \<noteq> None"
    then have "h' < g_next_equeue g" using inv(1) by (auto simp: eq_inv_def)
    then show False using f next_grows_steps [OF assms(2)] by simp
  qed
  then show "KernelPinEqueue h' g = None" by (simp add: KernelPinEqueue_def)
qed

definition two_queues :: Equeues where
  "two_queues = \<lparr>g_equeues = [2 \<mapsto> \<lparr>eq_events = [], eq_closed = False\<rparr>], g_next_equeue = 3\<rparr>"

theorem equeues_invariant_witness:
  "KernelPinEqueue 1 (snd (KernelAddUserEvent 2 7 two_queues)) = None \<and> queue_ok \<lparr>eq_events = [], eq_closed = False\<rparr>"
proof -
  let ?q = "\<lparr>eq_events = [], eq_closed = False\<rparr>"
  have "reach eq_start eq_step \<lparr>g_equeues = (\<lambda>_. None), g_next_equeue = 1\<rparr>" by (rule reach_start) (simp add: eq_start_def)
  then have "reach eq_start eq_step \<lparr>g_equeues = [1 \<mapsto> ?q], g_next_equeue = 2\<rparr>"
    by (rule reach_step) (rule eq_create [of False False _ OK "Some 1"], simp add: KernelCreateEqueue_def)
  then have "reach eq_start eq_step \<lparr>g_equeues = [1 \<mapsto> ?q, 2 \<mapsto> ?q], g_next_equeue = 3\<rparr>"
    by (rule reach_step) (rule eq_create [of False False _ OK "Some 2"], simp add: KernelCreateEqueue_def)
  moreover have "eq_step \<lparr>g_equeues = [1 \<mapsto> ?q, 2 \<mapsto> ?q], g_next_equeue = 3\<rparr> two_queues"
    using eq_destroy [of "\<lparr>g_equeues = [1 \<mapsto> ?q, 2 \<mapsto> ?q], g_next_equeue = 3\<rparr>" 1]
    by (simp add: KernelDeleteEqueue_def two_queues_def fun_upd_twist)
  ultimately have r: "reach eq_start eq_step two_queues" by (rule reach_step)
  have "eq_step\<^sup>*\<^sup>* two_queues (snd (KernelAddUserEvent 2 7 two_queues))" using library_steps(1) by blast
  from equeues_invariant [OF r this, of 1] equeues_invariant [OF r this, of 2 ?q] show ?thesis
    by (simp add: two_queues_def KernelPinEqueue_def KERNEL_EQUEUE_INVALID_def)
qed

section \<open>Timers and readiness\<close>

lemma add_new:
  assumes "KernelPinEqueue eq g = Some q" "\<not> eq_closed q" "\<forall>x \<in> set (eq_events q). key x \<noteq> key e"
  shows "KernelAddEvent eq e g = (OK, put_queue eq (q\<lparr>eq_events := eq_events q @ [e]\<rparr>) g)"
proof -
  have "find (same_event (ev_ident (ke_event e)) (ev_filter (ke_event e))) (eq_events q) = None"
    using assms(3) by (auto simp: find_None_iff same_key key_def)
  then show ?thesis using assms(1,2) by (simp add: KernelAddEvent_def AddEvent_def)
qed

definition timer_of :: "u64 \<Rightarrow> i32 \<Rightarrow> u64 \<Rightarrow> KernelEqueueEvent" where
  "timer_of deadline i udata = (new_event i KERNEL_EVFILT_HRTIMER (EV_ADD OR EV_ONESHOT) 0 udata None None)\<lparr>ke_deadline_ns := deadline\<rparr>"

definition timer_deadline :: "u64 \<Rightarrow> int \<Rightarrow> int \<Rightarrow> int" where
  "timer_deadline now tv_sec tv_nsec = min (uint now + tv_sec * 1000000000 + tv_nsec) (2 ^ 64 - 1)"

lemma uint_max: "uint UINT64_MAX = 2 ^ 64 - 1"
  by (simp add: unsigned_minus_1_eq_mask mask_eq_exp_minus_1)

lemma uint_numeral_billion: "uint (1000000000 :: u64) = 1000000000"
  by simp

lemma timer_arith:
  assumes "0 \<le> tv_sec" "0 \<le> tv_nsec" "tv_nsec < 1000000000" "tv_sec < 2 ^ 63"
  shows "(UINT64_MAX - of_int tv_nsec) div 1000000000 < (of_int tv_sec :: u64) \<longleftrightarrow> 2 ^ 64 \<le> tv_sec * 1000000000 + tv_nsec"
    and "tv_sec * 1000000000 + tv_nsec < 2 ^ 64 \<Longrightarrow> uint (of_int tv_sec * 1000000000 + of_int tv_nsec :: u64) = tv_sec * 1000000000 + tv_nsec"
proof -
  have n: "uint (of_int tv_nsec :: u64) = tv_nsec" "uint (of_int tv_sec :: u64) = tv_sec"
    using assms by (simp_all add: uint_word_of_int_eq take_bit_int_eq_self)
  have m: "uint (UINT64_MAX - of_int tv_nsec) = 2 ^ 64 - 1 - tv_nsec"
    using assms n(1) by (simp add: uint_sub_if' uint_max)
  show "(UINT64_MAX - of_int tv_nsec) div 1000000000 < (of_int tv_sec :: u64) \<longleftrightarrow> 2 ^ 64 \<le> tv_sec * 1000000000 + tv_nsec"
    unfolding word_less_def uint_div m n uint_numeral_billion using div_mult_mod_eq [of "2 ^ 64 - 1 - tv_nsec" 1000000000]
      pos_mod_sign [of 1000000000 "2 ^ 64 - 1 - tv_nsec"] pos_mod_bound [of 1000000000 "2 ^ 64 - 1 - tv_nsec"] by linarith
  show "uint (of_int tv_sec * 1000000000 + of_int tv_nsec :: u64) = tv_sec * 1000000000 + tv_nsec" if "tv_sec * 1000000000 + tv_nsec < 2 ^ 64"
    using that assms by (simp add: uint_word_ariths n)
qed

text \<open>C29. A timer is refused iff its time is out of range, and else fires exactly when the clock reaches the sum of the time of the call and the
  delay, or the last instant if the sum is beyond it.
\<close>

theorem timer_exact:
  assumes "KernelPinEqueue eq g = Some q" "\<not> eq_closed q" "\<forall>x \<in> set (eq_events q). key x \<noteq> (ident_of i, KERNEL_EVFILT_HRTIMER)" "tv_sec < 2 ^ 63"
  shows "if tv_sec < 0 \<or> tv_nsec < 0 \<or> 1000000000 \<le> tv_nsec \<or> 2 ^ 64 \<le> tv_sec * 1000000000 + tv_nsec
    then KernelAddHRTimerEvent now eq i (Some (tv_sec, tv_nsec)) udata g = (KERNEL_ERROR_EINVAL, g)
    else \<exists>e. KernelAddHRTimerEvent now eq i (Some (tv_sec, tv_nsec)) udata g = (OK, put_queue eq (q\<lparr>eq_events := eq_events q @ [e]\<rparr>) g) \<and>
      key e = (ident_of i, KERNEL_EVFILT_HRTIMER) \<and> ev_udata (ke_event e) = udata \<and> has_flag EV_ONESHOT (ke_event e) \<and>
      (0 < timer_deadline now tv_sec tv_nsec \<longrightarrow>
        (\<forall>t. occurrences (expire t e) = (if timer_deadline now tv_sec tv_nsec \<le> uint t then [ke_event e] else [])))"
proof (cases "tv_sec < 0 \<or> tv_nsec < 0 \<or> 1000000000 \<le> tv_nsec \<or> 2 ^ 64 \<le> tv_sec * 1000000000 + tv_nsec")
  case True
  have "tv_sec < 0 \<or> tv_nsec < 0 \<or> 1000000000 \<le> tv_nsec \<or> (UINT64_MAX - of_int tv_nsec) div 1000000000 < (of_int tv_sec :: u64)"
    using True timer_arith(1) [of tv_sec tv_nsec] assms(4) by linarith
  then have "KernelAddHRTimerEvent now eq i (Some (tv_sec, tv_nsec)) udata g = (KERNEL_ERROR_EINVAL, g)"
    unfolding KernelAddHRTimerEvent_def by simp
  then show ?thesis using True by simp
next
  case False
  then have r: "0 \<le> tv_sec" "0 \<le> tv_nsec" "tv_nsec < 1000000000" "tv_sec * 1000000000 + tv_nsec < 2 ^ 64" by simp_all
  define delay :: u64 where "delay = of_int tv_sec * 1000000000 + of_int tv_nsec"
  define d where "d = (if delay \<le> UINT64_MAX - now then now + delay else UINT64_MAX)"
  have u: "uint delay = tv_sec * 1000000000 + tv_nsec" unfolding delay_def using r assms(4) by (intro timer_arith(2)) simp_all
  have m: "uint (UINT64_MAX - now) = 2 ^ 64 - 1 - uint now" using uint_lt2p [of now] by (simp add: uint_sub_if' uint_max)
  have d: "uint d = timer_deadline now tv_sec tv_nsec"
    using m u uint_add_lem [of now delay] uint_max by (auto simp: d_def timer_deadline_def word_le_def)
  define e where "e = timer_of d i udata"
  have "\<not> (tv_sec < 0 \<or> tv_nsec < 0 \<or> 1000000000 \<le> tv_nsec \<or> (UINT64_MAX - of_int tv_nsec) div 1000000000 < (of_int tv_sec :: u64))"
    using False timer_arith(1) [of tv_sec tv_nsec] assms(4) by linarith
  then have a: "KernelAddHRTimerEvent now eq i (Some (tv_sec, tv_nsec)) udata g = KernelAddEvent eq e g"
    unfolding KernelAddHRTimerEvent_def e_def timer_of_def d_def delay_def by (simp add: Let_def)
  have k: "key e = (ident_of i, KERNEL_EVFILT_HRTIMER)" "has_flag EV_ONESHOT (ke_event e)" "ev_udata (ke_event e) = udata" "ke_deadline_ns e = d" "\<not> ke_triggered e"
    by (simp_all add: e_def timer_of_def new_event_def key_def has_flag_def EV_ADD_def EV_ONESHOT_def)
  have "occurrences (expire t e) = (if timer_deadline now tv_sec tv_nsec \<le> uint t then [ke_event e] else [])" if "0 < timer_deadline now tv_sec tv_nsec" for t
  proof -
    have "d \<noteq> 0" using that d by auto
    then show ?thesis using k(2,4,5) d by (simp add: expire_def occurrences_def word_le_def)
  qed
  moreover have "KernelAddHRTimerEvent now eq i (Some (tv_sec, tv_nsec)) udata g = (OK, put_queue eq (q\<lparr>eq_events := eq_events q @ [e]\<rparr>) g)"
    unfolding a by (rule add_new [OF assms(1,2)]) (use assms(3) k(1) in simp)
  ultimately show ?thesis unfolding if_not_P [OF False] using k(1-3) by blast
qed

theorem timer_exact_witness:
  "\<exists>e. KernelAddHRTimerEvent 100 2 7 (Some (1, 5)) 3 two_queues = (OK, put_queue 2 \<lparr>eq_events = [e], eq_closed = False\<rparr> two_queues) \<and>
    occurrences (expire 1000000104 e) = [] \<and> occurrences (expire 1000000105 e) = [ke_event e]"
proof -
  have "KernelPinEqueue 2 two_queues = Some \<lparr>eq_events = [], eq_closed = False\<rparr>" by (simp add: KernelPinEqueue_def two_queues_def KERNEL_EQUEUE_INVALID_def)
  from timer_exact [OF this, of 7 1 5 100 3] show ?thesis by (auto simp: timer_deadline_def)
qed

text \<open>
  A file is ready as soon as it is registered, but with the pointer of the caller as its data: the size that the call gives is lost.
\<close>

lemma fd_event_loses_size:
  assumes "KernelPinEqueue eq g = Some q" "\<not> eq_closed q" "\<forall>x \<in> set (eq_events q). key x \<noteq> (ident_of fd, KERNEL_EVFILT_READ)"
  shows "\<exists>e. KernelAddReadEvent tsc eq fd sz udata g = (OK, put_queue eq (q\<lparr>eq_events := eq_events q @ [e]\<rparr>) g) \<and>
    key e = (ident_of fd, KERNEL_EVFILT_READ) \<and> occurrences e = [ke_event e] \<and> ev_data (ke_event e) = udata \<and> ev_udata (ke_event e) = udata"
proof -
  define e where "e = new_event fd KERNEL_EVFILT_READ EV_ADD sz udata (Some FdReadyTriggerFunc) (Some FdReadyResetFunc)"
  define e1 where "e1 = trigger_event tsc udata e"
  let ?same = "same_event (ident_of fd) KERNEL_EVFILT_READ"
  have k: "key e = (ident_of fd, KERNEL_EVFILT_READ)" by (simp add: e_def new_event_def key_def)
  have a: "KernelAddEvent eq e g = (OK, put_queue eq (q\<lparr>eq_events := eq_events q @ [e]\<rparr>) g)"
    by (rule add_new [OF assms(1,2)]) (use assms(3) k in simp)
  have f: "update_first ?same (trigger_event tsc udata) (eq_events q @ [e]) = eq_events q @ [e1]" "find ?same (eq_events q @ [e]) = Some e"
    using update_first_new [of "eq_events q" ?same e] assms(3) k by (simp_all add: same_key e1_def)
  have "snd (KernelTriggerEvent tsc eq (ident_of fd) KERNEL_EVFILT_READ udata (put_queue eq (q\<lparr>eq_events := eq_events q @ [e]\<rparr>) g))
    = put_queue eq (q\<lparr>eq_events := eq_events q @ [e1]\<rparr>) g"
    using assms(1,2) f by (simp add: KernelTriggerEvent_def TriggerEvent_def pin_cases put_queue_def KernelPinEqueue_def split: if_splits)
  then have "KernelAddReadEvent tsc eq fd sz udata g = (OK, put_queue eq (q\<lparr>eq_events := eq_events q @ [e1]\<rparr>) g)"
    using a by (simp add: KernelAddReadEvent_def KernelAddFdEvent_def e_def)
  moreover have "key e1 = (ident_of fd, KERNEL_EVFILT_READ) \<and> occurrences e1 = [ke_event e1] \<and> ev_data (ke_event e1) = udata \<and> ev_udata (ke_event e1) = udata"
    by (simp add: e1_def e_def trigger_event_def new_event_def key_def occurrences_def)
  ultimately show ?thesis by blast
qed

lemma fd_event_loses_size_example:
  "\<exists>e. KernelAddReadEvent 0 2 5 4096 9 two_queues = (OK, put_queue 2 \<lparr>eq_events = [e], eq_closed = False\<rparr> two_queues) \<and> ev_data (ke_event e) = 9"
proof -
  have "KernelPinEqueue 2 two_queues = Some \<lparr>eq_events = [], eq_closed = False\<rparr>" by (simp add: KernelPinEqueue_def two_queues_def KERNEL_EQUEUE_INVALID_def)
  from fd_event_loses_size [OF this, of 5 0 4096 9] show ?thesis by auto
qed

end
