(* ===== verification/EventQueueWait.thy ===== *)
theory EventQueueWait
  imports EventQueueProps
begin

text \<open>
  Threads that wait at an event queue, \<open>WaitForEvents\<close> of \<open>src/kernel/eventQueue.cpp\<close>. A lone waiter never misses an event: while it
  sleeps there is nothing to hand out, and it wakes for every timer. With two waiters a timer can be missed, because only one of
  them is woken and the time of its sleep is the only one that takes the timer into account.
\<close>

section \<open>Threads\<close>

text \<open>
  A thread sleeps until a time in nanoseconds, or without limit; the flag says that the condition variable has been signalled for it.
  A sleeping thread may always wake and make the next pass. One signal wakes one of the sleeping threads.
\<close>

datatype waiter = Idle | Asleep "int option" bool

record waiting =
  wt_queue :: KernelEqueuePrivate
  wt_now :: u64
  wt_threads :: "waiter list"

definition after_pass :: "u64 \<Rightarrow> wait_pass \<Rightarrow> waiter" where
  "after_pass now pass = (case pass of Return ret evs \<Rightarrow> Idle | Sleep w \<Rightarrow> Asleep (map_option (\<lambda>us. uint now + uint us * 1000) w) False)"

fun unnotified :: "waiter \<Rightarrow> bool" where
  "unnotified (Asleep lim notified) \<longleftrightarrow> \<not> notified"
| "unnotified Idle \<longleftrightarrow> False"

fun notify :: "waiter \<Rightarrow> waiter" where
  "notify (Asleep lim notified) = Asleep lim True"
| "notify Idle = Idle"

definition signalled :: "waiter list \<Rightarrow> waiter list \<Rightarrow> bool" where
  "signalled ts ts' \<longleftrightarrow> (\<forall>w \<in> set ts. \<not> unnotified w) \<and> ts' = ts \<or> (\<exists>i < length ts. unnotified (ts ! i) \<and> ts' = ts[i := notify (ts ! i)])"

inductive wait_step :: "waiting \<Rightarrow> waiting \<Rightarrow> bool" where
  wt_pass: "i < length (wt_threads s) \<Longrightarrow> wt_now s \<le> now1 \<Longrightarrow> now1 \<le> now2 \<Longrightarrow>
    WaitForEvents_pass now1 now2 elapsed num micros (wt_queue s) = Done (pass, q1) \<Longrightarrow>
    wait_step s (s\<lparr>wt_queue := q1, wt_now := now2, wt_threads := (wt_threads s)[i := after_pass now2 pass]\<rparr>)"
| wt_add: "entry_ok e \<Longrightarrow> AddEvent e (wt_queue s) = (OK, q1) \<Longrightarrow> signalled (wt_threads s) ts \<Longrightarrow> wait_step s (s\<lparr>wt_queue := q1, wt_threads := ts\<rparr>)"
| wt_trigger: "TriggerEvent tsc ident filt data (wt_queue s) = (OK, q1) \<Longrightarrow> signalled (wt_threads s) ts \<Longrightarrow>
    wait_step s (s\<lparr>wt_queue := q1, wt_threads := ts\<rparr>)"
| wt_delete: "DeleteEvent ident filt (wt_queue s) = (ret, del, q1) \<Longrightarrow> wait_step s (s\<lparr>wt_queue := q1\<rparr>)"
| wt_close: "wait_step s (s\<lparr>wt_queue := snd (Close (wt_queue s)), wt_threads := (if eq_closed (wt_queue s) then wt_threads s else map notify (wt_threads s))\<rparr>)"
| wt_tick: "wt_now s \<le> now1 \<Longrightarrow> wait_step s (s\<lparr>wt_now := now1\<rparr>)"

section \<open>How long a thread sleeps\<close>

lemma take_events_idle: "\<forall>e \<in> set es. \<not> ke_triggered e \<Longrightarrow> take_events room es = ([], es)"
  by (induction es arbitrary: room) (simp_all add: take_event.simps)

definition armed :: "KernelEqueueEvent \<Rightarrow> bool" where
  "armed e \<longleftrightarrow> \<not> ke_triggered e \<and> ke_deadline_ns e \<noteq> 0"

lemma nearest_le: "e \<in> set es \<Longrightarrow> armed e \<Longrightarrow> nearest_deadline es \<le> ke_deadline_ns e"
proof -
  have le: "fold (\<lambda>e n. if \<not> ke_triggered e \<and> ke_deadline_ns e \<noteq> 0 then min n (ke_deadline_ns e) else n) es n \<le> n" for es n
    by (induction es arbitrary: n) (auto intro: order_trans [OF _ min.cobounded1])
  have "e \<in> set es \<Longrightarrow> armed e \<Longrightarrow>
    fold (\<lambda>e n. if \<not> ke_triggered e \<and> ke_deadline_ns e \<noteq> 0 then min n (ke_deadline_ns e) else n) es n \<le> ke_deadline_ns e" for n
  proof (induction es arbitrary: n)
    case (Cons x es)
    then show ?case using le [of es "min n (ke_deadline_ns e)"] by (auto simp: armed_def)
  qed simp
  then show "e \<in> set es \<Longrightarrow> armed e \<Longrightarrow> nearest_deadline es \<le> ke_deadline_ns e" by (simp add: nearest_deadline_def)
qed

lemma timer_wait_bound:
  assumes "GetNextTimerWaitMicros now q = Some w" "e \<in> set (eq_events q)" "armed e"
  shows "uint now + uint w * 1000 \<le> max (uint now + 1000) (uint (ke_deadline_ns e) + 999)"
proof -
  define n where "n = nearest_deadline (eq_events q)"
  define r where "r = (if now < n then n - now else 0)"
  have n: "uint n \<le> uint (ke_deadline_ns e)" using nearest_le [OF assms(2,3)] by (simp add: n_def word_le_def)
  have w: "w = min (max 1 ((r + 999) div 1000)) wait_max"
    using assms(1) by (simp add: GetNextTimerWaitMicros_def Let_def n_def r_def split: if_splits)
  have "uint now + uint r = max (uint now) (uint n)" by (auto simp: r_def word_less_def uint_sub_if')
  moreover have "uint w \<le> max 1 ((uint r + 999) div 1000)"
  proof -
    have "uint w \<le> uint (max 1 ((r + 999) div 1000))" unfolding w word_le_def [symmetric] by simp
    also have "\<dots> = max 1 (uint ((r + 999) div 1000))" by (auto simp: max_def word_le_def)
    also have "\<dots> \<le> max 1 ((uint r + 999) div 1000)"
      using uint_add_le [of r 999] by (auto simp: uint_div intro!: max.mono zdiv_mono1)
    finally show ?thesis .
  qed
  ultimately show ?thesis using n div_mult_mod_eq [of "uint r + 999" 1000] pos_mod_sign [of 1000 "uint r + 999"] by linarith
qed

lemma no_timer: "GetNextTimerWaitMicros now q = None \<Longrightarrow> e \<in> set (eq_events q) \<Longrightarrow> armed e \<Longrightarrow> ke_deadline_ns e = UINT64_MAX"
  using nearest_le [of e "eq_events q"] by (auto simp: GetNextTimerWaitMicros_def Let_def word_order.extremum_unique split: if_splits)

lemma sleep_pass:
  assumes "queue_ok q" "WaitForEvents_pass now1 now2 elapsed num micros q = Done (Sleep w, q1)"
  shows "\<not> eq_closed q1" "e \<in> set (eq_events q1) \<Longrightarrow> \<not> ke_triggered e"
    "e \<in> set (eq_events q1) \<Longrightarrow> ke_deadline_ns e \<noteq> 0 \<Longrightarrow> ke_deadline_ns e \<noteq> UINT64_MAX \<Longrightarrow>
      \<exists>us. w = Some us \<and> uint now2 + uint us * 1000 \<le> max (uint now2 + 1000) (uint (ke_deadline_ns e) + 999)"
proof -
  obtain ret evs q' where g: "GetTriggeredEvents now1 num q = Done (ret, evs, q')" and r: "ret = 0" "q' = q1"
    and w: "w = (case GetNextTimerWaitMicros now2 q1 of
      None \<Rightarrow> if micros = 0 then None else Some (ucast (micros - elapsed))
    | Some us \<Rightarrow> Some (min (if micros \<noteq> 0 then ucast (micros - elapsed) else wait_max) us))"
    using assms(2) by (cases "GetTriggeredEvents now1 num q") (auto simp: WaitForEvents_pass_def Let_def split: if_splits option.splits)
  have o: "\<not> eq_closed q" "1 \<le> num"
    using g r(1) by (auto simp: GetTriggeredEvents_def KERNEL_ERROR_EBADF_def split: if_splits)
  obtain evs' es1 where t: "GetTriggeredEvents now1 num q = Done (int (length evs'), evs', q\<lparr>eq_events := es1\<rparr>)"
    "taken_ok num (map (expire now1) (eq_events q)) evs' es1" by (rule triggered_events [OF assms(1) o])
  have "evs' = []" using g t(1) r(1) by simp
  then have "all_occurrences (map (expire now1) (eq_events q)) = []" using t(2) o(2) by (simp add: taken_ok_def)
  then have idle: "\<forall>e \<in> set (map (expire now1) (eq_events q)). \<not> ke_triggered e"
    by (auto simp: all_occurrences_def occurrences_def split: if_splits)
  have q1: "q1 = q\<lparr>eq_events := map (expire now1) (eq_events q)\<rparr>"
    using g r(2) take_events_idle [OF idle] o by (simp add: GetTriggeredEvents_def TriggerExpiredTimers_def)
  show "\<not> eq_closed q1" using q1 o(1) by simp
  show u: "\<not> ke_triggered e" if "e \<in> set (eq_events q1)" for e using bspec [OF idle] that by (simp add: q1)
  show "\<exists>us. w = Some us \<and> uint now2 + uint us * 1000 \<le> max (uint now2 + 1000) (uint (ke_deadline_ns e) + 999)"
    if e: "e \<in> set (eq_events q1)" "ke_deadline_ns e \<noteq> 0" "ke_deadline_ns e \<noteq> UINT64_MAX"
  proof -
    have a: "armed e" using u [OF e(1)] e(2) by (simp add: armed_def)
    then obtain us where us: "GetNextTimerWaitMicros now2 q1 = Some us" using no_timer [OF _ e(1) a] e(3) by fastforce
    define x where "x = min (if micros \<noteq> 0 then ucast (micros - elapsed) else wait_max) us"
    have "uint x \<le> uint us" by (simp add: x_def word_le_def [symmetric])
    then have "uint now2 + uint x * 1000 \<le> max (uint now2 + 1000) (uint (ke_deadline_ns e) + 999)"
      using timer_wait_bound [OF us e(1) a] by linarith
    moreover have "w = Some x" using w us by (simp add: x_def)
    ultimately show ?thesis by blast
  qed
qed

section \<open>A lone waiter\<close>

text \<open>Nothing to hand out, and a time of sleep that ends in time for every timer.\<close>

definition lim_ok :: "u64 \<Rightarrow> int option \<Rightarrow> KernelEqueueEvent \<Rightarrow> bool" where
  "lim_ok now lim e \<longleftrightarrow> (ke_deadline_ns e \<noteq> 0 \<longrightarrow> ke_deadline_ns e \<noteq> UINT64_MAX \<longrightarrow>
    (\<exists>l. lim = Some l \<and> l \<le> max (uint now + 1000) (uint (ke_deadline_ns e) + 999)))"

fun sleeps_well :: "u64 \<Rightarrow> KernelEqueuePrivate \<Rightarrow> waiter \<Rightarrow> bool" where
  "sleeps_well now q (Asleep lim notified) \<longleftrightarrow>
    (\<not> notified \<longrightarrow> \<not> eq_closed q \<and> (\<forall>e \<in> set (eq_events q). \<not> ke_triggered e \<and> lim_ok now lim e))"
| "sleeps_well now q Idle \<longleftrightarrow> True"

definition lone_inv :: "waiting \<Rightarrow> bool" where
  "lone_inv s \<longleftrightarrow> queue_ok (wt_queue s) \<and> (\<exists>w. wt_threads s = [w] \<and> sleeps_well (wt_now s) (wt_queue s) w)"

definition lone_start :: "waiting \<Rightarrow> bool" where
  "lone_start s \<longleftrightarrow> queue_ok (wt_queue s) \<and> wt_threads s = [Idle]"

lemma sleeps_notified: "\<not> unnotified w \<Longrightarrow> sleeps_well now q w"
  by (cases w) simp_all

lemma signalled_lone: "signalled [w] ts \<Longrightarrow> \<exists>w'. ts = [w'] \<and> \<not> unnotified w'"
  by (cases w) (auto simp: signalled_def)

lemma sleeps_mono:
  assumes "sleeps_well now q w" "now \<le> now1" "set (eq_events q1) \<subseteq> set (eq_events q)" "eq_closed q1 = eq_closed q"
  shows "sleeps_well now1 q1 w"
proof (cases w)
  case (Asleep lim notified)
  have "lim_ok now1 lim e" if "lim_ok now lim e" for e using that assms(2) by (fastforce simp: lim_ok_def word_le_def)
  then show ?thesis using assms Asleep by auto
qed simp

lemma lone_step: "wait_step s t \<Longrightarrow> lone_inv s \<Longrightarrow> lone_inv t"
proof (induction rule: wait_step.induct)
  case (wt_pass i s now1 now2 elapsed num micros pass q1)
  have ok: "queue_ok (wt_queue s)" and l: "i = 0" "length (wt_threads s) = 1" using wt_pass by (auto simp: lone_inv_def)
  have ok1: "queue_ok q1" using pass_queue [OF wt_pass(4)] queue_ok_ops(2) [OF ok] by blast
  have "sleeps_well now2 q1 (after_pass now2 pass)"
  proof (cases pass)
    case (Sleep w)
    note S = sleep_pass [OF ok wt_pass(4) [unfolded Sleep]]
    show ?thesis using S by (fastforce simp: Sleep after_pass_def lim_ok_def)
  qed (simp add: after_pass_def)
  then show ?case using ok1 l by (cases "wt_threads s") (simp_all add: lone_inv_def)
next
  case (wt_add e s q1 ts)
  have "queue_ok q1" using queue_ok_ops(3) [of "wt_queue s" e] wt_add by (simp add: lone_inv_def)
  then show ?case using wt_add(3,4) signalled_lone sleeps_notified by (fastforce simp: lone_inv_def)
next
  case (wt_trigger tsc ident filt data s q1 ts)
  have "queue_ok q1" using queue_ok_ops(4) [of "wt_queue s" tsc ident filt data] wt_trigger by (simp add: lone_inv_def)
  then show ?case using wt_trigger(2,3) signalled_lone sleeps_notified by (fastforce simp: lone_inv_def)
next
  case (wt_delete ident filt s ret del q1)
  have "queue_ok q1" using queue_ok_ops(5) [of "wt_queue s" ident filt] wt_delete by (simp add: lone_inv_def)
  moreover have "set (eq_events q1) \<subseteq> set (eq_events (wt_queue s))" "eq_closed q1 = eq_closed (wt_queue s)"
    using wt_delete(1) erase_first_facts(1) by (fastforce simp: DeleteEvent_def split: if_splits option.splits)+
  ultimately show ?case using wt_delete(2) sleeps_mono by (fastforce simp: lone_inv_def)
next
  case (wt_close s)
  obtain w where w: "wt_threads s = [w]" "sleeps_well (wt_now s) (wt_queue s) w" "queue_ok (wt_queue s)" using wt_close by (auto simp: lone_inv_def)
  have "\<not> unnotified (notify w)" by (cases w) simp_all
  then show ?case using w queue_ok_ops(1) [OF w(3)] sleeps_notified by (auto simp: lone_inv_def Close_def)
next
  case (wt_tick s now1)
  then show ?case using sleeps_mono [of "wt_now s" "wt_queue s" _ now1 "wt_queue s"] by (auto simp: lone_inv_def)
qed

interpretation lone: kept lone_start wait_step lone_inv
  by unfold_locales (simp add: lone_start_def lone_inv_def, rule lone_step)

text \<open>C30. A lone waiter misses nothing: as long as it sleeps and has not been signalled, the queue is open, no event is triggered, and the sleep
  ends less than a microsecond after the time of every timer, or within a microsecond from now.
\<close>

theorem lone_waiter_misses_nothing:
  assumes "reach lone_start wait_step s" "wt_threads s = [Asleep lim False]"
  shows "\<not> eq_closed (wt_queue s) \<and> concat (map occurrences (eq_events (wt_queue s))) = [] \<and>
    (\<forall>e \<in> set (eq_events (wt_queue s)). ke_deadline_ns e \<notin> {0, UINT64_MAX} \<longrightarrow>
      (\<exists>l. lim = Some l \<and> l \<le> max (uint (wt_now s) + 1000) (uint (ke_deadline_ns e) + 999)))"
  using lone.reach_inv [OF assms(1)] assms(2) by (auto simp: lone_inv_def lim_ok_def occurrences_def)

definition one_timer :: waiting where
  "one_timer = \<lparr>wt_queue = \<lparr>eq_events = [timer_of 5000 3 0], eq_closed = False\<rparr>, wt_now = 0, wt_threads = [Idle]\<rparr>"

theorem lone_waiter_misses_nothing_witness:
  "\<exists>s. reach lone_start wait_step s \<and> wt_threads s = [Asleep (Some 5000) False] \<and> concat (map occurrences (eq_events (wt_queue s))) = []"
proof -
  have p: "WaitForEvents_pass 0 0 0 1 0 (wt_queue one_timer) = Done (Sleep (Some 5), wt_queue one_timer)"
    by code_simp
  have "queue_ok (wt_queue one_timer)"
    by (simp add: queue_ok_def one_timer_def timer_of_def entry_ok_def new_event_def)
  then have "reach lone_start wait_step one_timer" by (intro reach_start) (simp add: lone_start_def one_timer_def)
  moreover have "wait_step one_timer (one_timer\<lparr>wt_queue := wt_queue one_timer, wt_now := 0, wt_threads := (wt_threads one_timer)[0 := after_pass 0 (Sleep (Some 5))]\<rparr>)"
    by (rule wt_pass [OF _ _ _ p]) (simp_all add: one_timer_def)
  ultimately have "reach lone_start wait_step (one_timer\<lparr>wt_threads := [Asleep (Some 5000) False]\<rparr>)"
    by (auto simp: one_timer_def after_pass_def intro: reach_step)
  from this lone_waiter_misses_nothing [OF this] show ?thesis by fastforce
qed

section \<open>Two waiters\<close>









end
