(* ===== verification/TileBlock.thy ===== *)
theory TileBlock
  imports Prelude
begin

unbundle bit_operations_syntax

text \<open>
  Blocks of tiled surfaces, the first part of \<open>src/graphics/guest_gpu/tile.cpp\<close>: the size of a block for each family of layouts and
  size of an element, and where in its block an element is stored. A statement \<open>offset ^= (x << s) & m\<close> is an
  entry \<open>(s, m)\<close> of a list. A function that writes through references and returns whether it did returns an option.
\<close>

section \<open>Offsets in a block\<close>

definition swizzle :: "(nat \<times> u32) list \<Rightarrow> u32 \<Rightarrow> u32" where
  "swizzle terms v = fold (\<lambda>(s, m) offset. offset XOR (push_bit s v AND m)) terms 0"

definition has_single_bit :: "u32 \<Rightarrow> bool" where
  "has_single_bit v \<longleftrightarrow> v \<noteq> 0 \<and> v AND (v - 1) = 0"

definition countr_zero_u32 :: "u32 \<Rightarrow> nat" where
  "countr_zero_u32 v = (case find (bit v) [0..<32] of Some i \<Rightarrow> i | None \<Rightarrow> 32)"

definition Bit :: "u32 \<Rightarrow> nat \<Rightarrow> nat \<Rightarrow> u32" where
  "Bit v source destination = push_bit destination (drop_bit source v AND 1)"

definition Gen5Standard4KBOffsetInBlock :: "u32 \<Rightarrow> u32 \<Rightarrow> u32 \<Rightarrow> u32 outcome" where
  "Gen5Standard4KBOffsetInBlock x y bytes_per_element =
    (if bytes_per_element = 1 then Done (swizzle [(4, 0x1f0), (5, 0x400)] y XOR swizzle [(0, 0xf), (5, 0x200), (6, 0x800)] x)
     else if bytes_per_element = 2 then Done (swizzle [(4, 0x70), (5, 0x100), (6, 0x400)] y XOR swizzle [(1, 0xe), (4, 0x80), (5, 0x200), (6, 0x800)] x)
     else if bytes_per_element = 4 then Done (swizzle [(4, 0x70), (5, 0x100), (6, 0x400)] y XOR swizzle [(2, 0xc), (5, 0x80), (6, 0x200), (7, 0x800)] x)
     else if bytes_per_element = 8 then Done (swizzle [(4, 0x30), (6, 0x100), (7, 0x400)] y XOR swizzle [(3, 0x8), (5, 0xc0), (6, 0x200), (7, 0x800)] x)
     else if bytes_per_element = 16 then Done (swizzle [(4, 0x30), (6, 0x100), (7, 0x400)] y XOR swizzle [(6, 0xc0), (7, 0x200), (8, 0x800)] x)
     else Exit)"

definition Gen5Standard4KBVolumeOffsetInBlock :: "u32 \<Rightarrow> u32 \<Rightarrow> u32 \<Rightarrow> u32 \<Rightarrow> u32 outcome" where
  "Gen5Standard4KBVolumeOffsetInBlock x y z bytes_per_element =
    (if bytes_per_element = 1 then Done (swizzle [(0, 0x3), (4, 0x40), (6, 0x200)] x XOR swizzle [(3, 0x8), (4, 0x20), (6, 0x100), (8, 0x800)] y XOR swizzle [(2, 0x4), (3, 0x10), (5, 0x80), (7, 0x400)] z)
     else if bytes_per_element = 2 then Done (swizzle [(1, 0x2), (5, 0x40), (7, 0x200)] x XOR swizzle [(3, 0x8), (4, 0x20), (6, 0x100), (8, 0x800)] y XOR swizzle [(2, 0x4), (3, 0x10), (5, 0x80), (7, 0x400)] z)
     else if bytes_per_element = 4 then Done (swizzle [(2, 0x4), (5, 0x40), (7, 0x200)] x XOR swizzle [(3, 0x8), (4, 0x20), (6, 0x100), (8, 0x800)] y XOR swizzle [(4, 0x10), (6, 0x80), (8, 0x400)] z)
     else if bytes_per_element = 8 then Done (swizzle [(3, 0x8), (5, 0x40), (7, 0x200)] x XOR swizzle [(5, 0x20), (7, 0x100), (9, 0x800)] y XOR swizzle [(4, 0x10), (6, 0x80), (8, 0x400)] z)
     else if bytes_per_element = 16 then Done (swizzle [(6, 0x40), (8, 0x200)] x XOR swizzle [(5, 0x20), (7, 0x100), (9, 0x800)] y XOR swizzle [(4, 0x10), (6, 0x80), (8, 0x400)] z)
     else Exit)"

definition Gen5Standard64KBVolumeOffsetInBlock :: "u32 \<Rightarrow> u32 \<Rightarrow> u32 \<Rightarrow> u32 \<Rightarrow> u32 outcome" where
  "Gen5Standard64KBVolumeOffsetInBlock x y z bytes_per_element =
    (let bits = [[4, 4, 4, 5], [3, 4, 4, 4], [3, 3, 4, 4], [3, 3, 3, 4], [2, 3, 3, 3]] ! countr_zero_u32 bytes_per_element
     in obind (Gen5Standard4KBVolumeOffsetInBlock x y z bytes_per_element) (\<lambda>offset.
          Done (offset XOR Bit x (bits ! 0) 12 XOR Bit z (bits ! 1) 13 XOR Bit y (bits ! 2) 14 XOR Bit x (bits ! 3) 15)))"

definition Gen5Standard256BOffsetInBlock :: "u32 \<Rightarrow> u32 \<Rightarrow> u32 \<Rightarrow> u32 outcome" where
  "Gen5Standard256BOffsetInBlock x y bytes_per_element =
    obind (Gen5Standard4KBOffsetInBlock x y bytes_per_element) (\<lambda>offset. Done (offset AND 0xff))"

text \<open>The tables of the standard layouts of 64 KiB, indexed by the coordinates.\<close>

definition Standard64KB32Tables_x_words :: "u32 list" where
  "Standard64KB32Tables_x_words = map (\<lambda>i. drop_bit 2 (swizzle [(2, 0xc), (5, 0x80), (6, 0x200), (7, 0x800), (8, 0x2000), (9, 0x8000)] i)) (map of_nat [0..<128])"

definition Standard64KB32Tables_y_words :: "u32 list" where
  "Standard64KB32Tables_y_words = map (\<lambda>i. drop_bit 2 (swizzle [(4, 0x70), (5, 0x100), (6, 0x400), (7, 0x1000), (8, 0x4000)] i)) (map of_nat [0..<128])"

definition Standard64KB16Tables_x_words :: "u32 list" where
  "Standard64KB16Tables_x_words = map (\<lambda>i. drop_bit 1 (swizzle [(1, 0xe), (4, 0x80), (5, 0x200), (6, 0x800), (7, 0x2000), (8, 0x8000)] i)) (map of_nat [0..<256])"

definition Standard64KB16Tables_y_words :: "u32 list" where
  "Standard64KB16Tables_y_words = map (\<lambda>i. drop_bit 1 (swizzle [(4, 0x70), (5, 0x100), (6, 0x400), (7, 0x1000), (8, 0x4000)] i)) (map of_nat [0..<128])"

definition Standard64KB8Tables_x_words :: "u32 list" where
  "Standard64KB8Tables_x_words = map (\<lambda>i. swizzle [(0, 0xf), (5, 0x200), (6, 0x800), (7, 0x2000), (8, 0x8000)] i) (map of_nat [0..<256])"

definition Standard64KB8Tables_y_words :: "u32 list" where
  "Standard64KB8Tables_y_words = map (\<lambda>i. swizzle [(4, 0x1f0), (5, 0x400), (6, 0x1000), (7, 0x4000)] i) (map of_nat [0..<256])"

definition Standard64KB64Tables_x_words :: "u32 list" where
  "Standard64KB64Tables_x_words = map (\<lambda>i. drop_bit 3 (swizzle [(3, 0x8), (5, 0xc0), (6, 0x200), (7, 0x800), (8, 0x2000), (9, 0x8000)] i)) (map of_nat [0..<128])"

definition Standard64KB64Tables_y_words :: "u32 list" where
  "Standard64KB64Tables_y_words = map (\<lambda>i. drop_bit 3 (swizzle [(4, 0x30), (6, 0x100), (7, 0x400), (8, 0x1000), (9, 0x4000)] i)) (map of_nat [0..<64])"

definition Standard64KB128Tables_x_words :: "u32 list" where
  "Standard64KB128Tables_x_words = map (\<lambda>i. drop_bit 4 (swizzle [(6, 0xc0), (7, 0x200), (8, 0x800), (9, 0x2000), (10, 0x8000)] i)) (map of_nat [0..<64])"

definition Standard64KB128Tables_y_words :: "u32 list" where
  "Standard64KB128Tables_y_words = map (\<lambda>i. drop_bit 4 (swizzle [(4, 0x30), (6, 0x100), (7, 0x400), (8, 0x1000), (9, 0x4000)] i)) (map of_nat [0..<64])"

text \<open>Render targets, by the size of the template argument, and depth surfaces.\<close>

definition Gen5RenderTargetOffsetInBlock :: "u32 \<Rightarrow> u32 \<Rightarrow> u32 \<Rightarrow> u32 outcome" where
  "Gen5RenderTargetOffsetInBlock bytes_per_element x y =
    (if bytes_per_element = 1 then Done (swizzle [(2, 0x8), (4, 0x10), (3, 0xa0), (5, 0xf00), (6, 0x1000), (7, 0x4000)] y XOR swizzle [(0, 0x7), (3, 0x40), (5, 0x300), (4, 0x400), (6, 0x800), (7, 0x2000), (8, 0x8000)] x)
     else if bytes_per_element = 2 then Done (swizzle [(4, 0x70), (5, 0xf00), (8, 0x5000)] y XOR swizzle [(1, 0xe), (4, 0x480), (5, 0x300), (6, 0x800), (7, 0x2000), (8, 0x8000)] x)
     else if bytes_per_element = 4 then Done (swizzle [(4, 0x70), (5, 0xf00), (9, 0x1000), (8, 0x4000)] y XOR swizzle [(2, 0xc), (5, 0x380), (4, 0x400), (6, 0x800), (9, 0xa000)] x)
     else if bytes_per_element = 8 then Done (swizzle [(4, 0x10), (6, 0x80), (5, 0xf00), (10, 0x5000)] y XOR swizzle [(3, 0x8), (4, 0x460), (5, 0x300), (6, 0x800), (10, 0x2000), (9, 0x8000)] x)
     else if bytes_per_element = 16 then Done (swizzle [(5, 0xf20), (6, 0x80), (10, 0x1000), (11, 0x4000)] y XOR swizzle [(4, 0x410), (5, 0x340), (6, 0x800), (11, 0xa000)] x)
     else Exit)"

definition Depth64KB8XOffsetBytes :: "u32 \<Rightarrow> u32" where
  "Depth64KB8XOffsetBytes x = swizzle [(0, 0x1), (1, 0x4), (2, 0x10), (3, 0x40), (5, 0x300), (4, 0x400), (6, 0x800), (7, 0x2000), (8, 0x8000)] x"

definition Depth64KB8YOffsetBytes :: "u32 \<Rightarrow> u32" where
  "Depth64KB8YOffsetBytes y = swizzle [(1, 0x2), (2, 0x8), (3, 0xa0), (5, 0xf00), (6, 0x1000), (7, 0x4000)] y"

definition Depth64KB16XOffsetBytes :: "u32 \<Rightarrow> u32" where
  "Depth64KB16XOffsetBytes x = swizzle [(1, 0x2), (2, 0x8), (3, 0x20), (4, 0x480), (5, 0x300), (6, 0x800), (7, 0x2000), (8, 0x8000)] x"

definition Depth64KB16YOffsetBytes :: "u32 \<Rightarrow> u32" where
  "Depth64KB16YOffsetBytes y = swizzle [(2, 0x4), (3, 0x10), (4, 0x40), (5, 0xf00), (8, 0x5000)] y"

definition Depth64KB32XOffsetBytes :: "u32 \<Rightarrow> u32" where
  "Depth64KB32XOffsetBytes x = swizzle [(2, 0x4), (3, 0x10), (4, 0x440), (5, 0x300), (6, 0x800), (9, 0xa000)] x"

definition Depth64KB32YOffsetBytes :: "u32 \<Rightarrow> u32" where
  "Depth64KB32YOffsetBytes y = swizzle [(3, 0x8), (4, 0x20), (5, 0xf80), (9, 0x1000), (8, 0x4000)] y"

definition Depth64KB64XOffsetBytes :: "u32 \<Rightarrow> u32" where
  "Depth64KB64XOffsetBytes x = swizzle [(3, 0x8), (4, 0x420), (5, 0x380), (6, 0x800), (10, 0x2000), (9, 0x8000)] x"

definition Depth64KB64YOffsetBytes :: "u32 \<Rightarrow> u32" where
  "Depth64KB64YOffsetBytes y = swizzle [(4, 0x10), (5, 0xf40), (10, 0x5000)] y"

section \<open>The layouts\<close>

datatype TileBlockFamily = Standard256B | Standard4KB | Standard4KB3D | Standard64KB | Standard64KB3D | Prt64KB | Prt64KB3D
  | RenderTarget64KB | Depth64KB | Count

record TileBlockLayout =
  tb_family :: TileBlockFamily
  tb_bytes_per_element :: u32
  tb_block_size :: u32
  tb_block_width :: u32
  tb_block_height :: u32
  tb_block_depth :: u32

definition Gen5Thin64KBBlockSizeFromElementBytes :: "u32 \<Rightarrow> (u32 \<times> u32) option" where
  "Gen5Thin64KBBlockSizeFromElementBytes bytes_per_element =
    (if bytes_per_element = 1 then Some (256, 256)
     else if bytes_per_element = 2 then Some (256, 128)
     else if bytes_per_element = 4 then Some (128, 128)
     else if bytes_per_element = 8 then Some (128, 64)
     else if bytes_per_element = 16 then Some (64, 64)
     else None)"

definition shifted_dims :: "nat \<times> nat \<times> nat \<Rightarrow> u32 \<times> u32 \<times> u32" where
  "shifted_dims dims = (case dims of (w, h, d) \<Rightarrow> (push_bit w 1, push_bit h 1, push_bit d 1))"

text \<open>The size of the block, and its width, height and depth, by the cases of the family.\<close>

definition block_dims :: "TileBlockFamily \<Rightarrow> u32 \<Rightarrow> (u32 \<times> u32 \<times> u32 \<times> u32) option" where
  "block_dims family bytes_per_element =
    (let thin = map_option (\<lambda>(w, h). (65536, w, h, 1)) (Gen5Thin64KBBlockSizeFromElementBytes bytes_per_element);
         thick64 = Some (65536, shifted_dims ([(6, 5, 5), (5, 5, 5), (5, 5, 4), (5, 4, 4), (4, 4, 4)] ! countr_zero_u32 bytes_per_element))
     in case family of
          Standard256B \<Rightarrow>
            (let w = if bytes_per_element \<le> 2 then 16 else if bytes_per_element \<le> 8 then 8 else 4 in Some (256, w, 256 div (w * bytes_per_element), 1))
        | Standard4KB \<Rightarrow>
            (let w = if bytes_per_element \<le> 2 then 64 else if bytes_per_element \<le> 8 then 32 else 16 in Some (4096, w, 4096 div (w * bytes_per_element), 1))
        | Standard4KB3D \<Rightarrow>
            Some (4096, shifted_dims ([(4, 4, 4), (3, 4, 4), (3, 4, 3), (3, 3, 3), (2, 3, 3)] ! countr_zero_u32 bytes_per_element))
        | Standard64KB \<Rightarrow> thin
        | Prt64KB \<Rightarrow> thin
        | Standard64KB3D \<Rightarrow> thick64
        | Prt64KB3D \<Rightarrow> thick64
        | RenderTarget64KB \<Rightarrow> thin
        | Depth64KB \<Rightarrow> if 8 < bytes_per_element then None else thin
        | Count \<Rightarrow> None)"

definition TileGetBlockLayout :: "TileBlockFamily \<Rightarrow> u32 \<Rightarrow> TileBlockLayout option" where
  "TileGetBlockLayout family bytes_per_element =
    (if \<not> has_single_bit bytes_per_element \<or> 16 < bytes_per_element then None
     else case block_dims family bytes_per_element of
            None \<Rightarrow> None
          | Some (sz, w, h, d) \<Rightarrow>
              if (ucast w * ucast h * ucast d * ucast bytes_per_element :: u64) \<noteq> ucast sz then None
              else Some \<lparr>tb_family = family, tb_bytes_per_element = bytes_per_element, tb_block_size = sz,
                tb_block_width = w, tb_block_height = h, tb_block_depth = d\<rparr>)"

definition expected_layout :: "TileBlockLayout \<Rightarrow> bool" where
  "expected_layout layout \<longleftrightarrow> TileGetBlockLayout (tb_family layout) (tb_bytes_per_element layout) = Some layout"

text \<open>The offset before the final check; \<open>None\<close> where the function returns early.\<close>

definition standard_tables :: "u32 \<Rightarrow> u32 \<Rightarrow> u32 \<Rightarrow> u32 option" where
  "standard_tables bytes_per_element x y =
    (if bytes_per_element = 1 then Some (Standard64KB8Tables_x_words ! unat x XOR Standard64KB8Tables_y_words ! unat y)
     else if bytes_per_element = 2 then Some ((Standard64KB16Tables_x_words ! unat x XOR Standard64KB16Tables_y_words ! unat y) * 2)
     else if bytes_per_element = 4 then Some ((Standard64KB32Tables_x_words ! unat x XOR Standard64KB32Tables_y_words ! unat y) * 4)
     else if bytes_per_element = 8 then Some ((Standard64KB64Tables_x_words ! unat x XOR Standard64KB64Tables_y_words ! unat y) * 8)
     else if bytes_per_element = 16 then Some ((Standard64KB128Tables_x_words ! unat x XOR Standard64KB128Tables_y_words ! unat y) * 16)
     else None)"

definition prt_bits :: "u32 \<Rightarrow> u32 \<Rightarrow> u32 \<Rightarrow> u32" where
  "prt_bits bytes_per_element x y =
    (let bits = [[7, 7, 6, 6], [7, 6, 6, 5], [6, 6, 5, 5], [6, 5, 5, 4], [5, 5, 4, 4]] ! countr_zero_u32 bytes_per_element
     in Bit x (bits ! 0) 8 XOR Bit y (bits ! 1) 9 XOR Bit x (bits ! 2) 10 XOR Bit y (bits ! 3) 11)"

definition prt_volume_bits :: "u32 \<Rightarrow> u32 \<Rightarrow> u32 \<Rightarrow> u32 \<Rightarrow> u32" where
  "prt_volume_bits bytes_per_element x y z =
    (let bits = [[4, 5, 4, 4], [4, 4, 3, 4], [4, 4, 3, 3], [3, 4, 3, 3], [3, 3, 2, 3]] ! countr_zero_u32 bytes_per_element
     in Bit y (bits ! 0) 10 XOR Bit x (bits ! 1) 10 XOR Bit x (bits ! 2) 11 XOR Bit z (bits ! 3) 11)"

definition depth_offset :: "u32 \<Rightarrow> u32 \<Rightarrow> u32 \<Rightarrow> u32 option" where
  "depth_offset bytes_per_element x y =
    (if bytes_per_element = 1 then Some (Depth64KB8XOffsetBytes x XOR Depth64KB8YOffsetBytes y)
     else if bytes_per_element = 2 then Some (Depth64KB16XOffsetBytes x XOR Depth64KB16YOffsetBytes y)
     else if bytes_per_element = 4 then Some (Depth64KB32XOffsetBytes x XOR Depth64KB32YOffsetBytes y)
     else if bytes_per_element = 8 then Some (Depth64KB64XOffsetBytes x XOR Depth64KB64YOffsetBytes y)
     else None)"

definition raw_offset :: "TileBlockFamily \<Rightarrow> u32 \<Rightarrow> u32 \<Rightarrow> u32 \<Rightarrow> u32 \<Rightarrow> u32 option outcome" where
  "raw_offset family bytes_per_element x y z =
    (case family of
       Standard256B \<Rightarrow> obind (Gen5Standard256BOffsetInBlock x y bytes_per_element) (Done \<circ> Some)
     | Standard4KB \<Rightarrow> obind (Gen5Standard4KBOffsetInBlock x y bytes_per_element) (Done \<circ> Some)
     | Standard4KB3D \<Rightarrow> obind (Gen5Standard4KBVolumeOffsetInBlock x y z bytes_per_element) (Done \<circ> Some)
     | Standard64KB3D \<Rightarrow> obind (Gen5Standard64KBVolumeOffsetInBlock x y z bytes_per_element) (Done \<circ> Some)
     | Prt64KB3D \<Rightarrow> obind (Gen5Standard64KBVolumeOffsetInBlock x y z bytes_per_element) (\<lambda>offset.
         Done (Some (offset XOR prt_volume_bits bytes_per_element x y z)))
     | Standard64KB \<Rightarrow> Done (standard_tables bytes_per_element x y)
     | Prt64KB \<Rightarrow> Done (map_option (\<lambda>offset. offset XOR prt_bits bytes_per_element x y) (standard_tables bytes_per_element x y))
     | RenderTarget64KB \<Rightarrow>
         if bytes_per_element \<in> {1, 2, 4, 8, 16} then obind (Gen5RenderTargetOffsetInBlock bytes_per_element x y) (Done \<circ> Some) else Done None
     | Depth64KB \<Rightarrow> Done (depth_offset bytes_per_element x y)
     | Count \<Rightarrow> Done None)"

definition TileGetBlockOffset :: "TileBlockLayout \<Rightarrow> u32 \<Rightarrow> u32 \<Rightarrow> u32 \<Rightarrow> u32 option outcome" where
  "TileGetBlockOffset layout x y z =
    (if \<not> expected_layout layout \<or> tb_block_width layout \<le> x \<or> tb_block_height layout \<le> y \<or> tb_block_depth layout \<le> z then Done None
     else obind (raw_offset (tb_family layout) (tb_bytes_per_element layout) x y z) (\<lambda>r.
       Done (case r of
           None \<Rightarrow> None
         | Some offset \<Rightarrow> if tb_block_size layout \<le> offset \<or> offset mod tb_bytes_per_element layout \<noteq> 0 then None else Some offset)))"

text \<open>What the position of a block adds to the offsets in it.\<close>

definition z_bits :: "u32 \<Rightarrow> u32" where
  "z_bits block_z = push_bit 5 (block_z AND 8) XOR push_bit 7 (block_z AND 4) XOR push_bit 9 (block_z AND 2) XOR push_bit 11 (block_z AND 1)"

definition TileGetBlockXor :: "TileBlockLayout \<Rightarrow> u32 \<Rightarrow> u32 \<Rightarrow> u32 \<Rightarrow> u32 option outcome" where
  "TileGetBlockXor layout block_x block_y block_z =
    (let x = block_x * tb_block_width layout; y = block_y * tb_block_height layout;
         wraps = (- 1) div tb_block_width layout < block_x \<or> (- 1) div tb_block_height layout < block_y;
         finish = (\<lambda>offset.
           let offset = (if tb_family layout \<in> {RenderTarget64KB, Depth64KB} then offset XOR z_bits block_z else offset)
           in Done (if offset < tb_block_size layout \<and> offset mod tb_bytes_per_element layout = 0 then Some offset else None))
     in if \<not> expected_layout layout then Done None
        else if tb_family layout = Depth64KB \<and> tb_bytes_per_element layout = 8
        then if wraps then Done None else finish (Depth64KB64XOffsetBytes x XOR Depth64KB64YOffsetBytes y)
        else if tb_family layout = RenderTarget64KB
        then if wraps then Done None
             else if tb_bytes_per_element layout \<in> {1, 2, 4, 8, 16}
             then obind (Gen5RenderTargetOffsetInBlock (tb_bytes_per_element layout) x y) finish else Done None
        else finish 0)"

end
