(* ===== verification/TileBlockProps.thy ===== *)
theory TileBlockProps
  imports TileBlock
begin

unbundle bit_operations_syntax

text \<open>
  The offsets in a block are a bijection between the coordinates of the elements and the aligned offsets, for every family of
  layouts and size of an element. An offset is a linear function of the bits of the coordinates over the field of two elements, so
  it is enough to check that its columns are independent; the check is an elimination that is proved correct once and evaluated for every layout.
\<close>

section \<open>Linear functions of bits\<close>

named_theorems xor_linear

fun comb :: "bool list \<Rightarrow> u32 list \<Rightarrow> u32" where
  "comb (b # bs) (c # cs) = (if b then c else 0) XOR comb bs cs"
| "comb _ _ = 0"

lemma comb_append: "length bs = length cs \<Longrightarrow> comb (bs @ bs') (cs @ cs') = comb bs cs XOR comb bs' cs'"
  by (induction bs cs rule: list_induct2) (simp_all add: xor.assoc)

lemma comb_xor: "length bs = length bs' \<Longrightarrow> length bs' = length cs \<Longrightarrow> comb bs cs XOR comb bs' cs = comb (map2 (\<noteq>) bs bs') cs"
  by (induction bs bs' cs rule: list_induct3) (auto simp: xor.assoc xor.commute xor.left_commute)

lemma comb_mask: "\<forall>c \<in> set cs. c AND m = 0 \<Longrightarrow> comb bs cs AND m = 0"
  by (induction bs cs rule: comb.induct) (simp_all add: bit.conj_xor_distrib2)

text \<open>Independence by elimination: the first column must have a bit, which the others are freed of.\<close>

function indep :: "u32 list \<Rightarrow> bool" where
  "indep [] \<longleftrightarrow> True"
| "indep (c # cs) \<longleftrightarrow> (case find (bit c) [0..<16] of None \<Rightarrow> False | Some p \<Rightarrow> indep (map (\<lambda>d. if bit d p then d XOR c else d) cs))"
  by pat_completeness auto
termination by (relation "measure length") auto

lemma comb_eliminate:
  assumes "length bs = length cs"
  shows "\<exists>k. comb bs cs = (if k then c else 0) XOR comb bs (map (\<lambda>d. if bit d p then d XOR c else d) cs)"
  using assms
proof (induction bs cs rule: list_induct2)
  case (Cons b bs d cs)
  then obtain k where k: "comb bs cs = (if k then c else 0) XOR comb bs (map (\<lambda>d. if bit d p then d XOR c else d) cs)" by blast
  show ?case
    by (rule exI [of _ "k \<noteq> (b \<and> bit d p)"]) (auto simp: k xor.assoc xor.commute xor.left_commute)
qed (auto intro: exI [of _ False])

lemma comb_no_bit: "\<forall>c \<in> set cs. \<not> bit c p \<Longrightarrow> \<not> bit (comb bs cs) p"
  by (induction bs cs rule: comb.induct) (auto simp: bit_xor_iff)

lemma indep_comb:
  assumes "indep cs" "length bs = length cs" "comb bs cs = 0"
  shows "True \<notin> set bs"
  using assms
proof (induction cs arbitrary: bs rule: indep.induct)
  case (2 c cs)
  obtain p where p: "find (bit c) [0..<16] = Some p" and i: "indep (map (\<lambda>d. if bit d p then d XOR c else d) cs)"
    using "2.prems"(1) by (auto split: option.splits)
  obtain b bs' where bs: "bs = b # bs'" "length bs' = length cs" using "2.prems"(2) by (cases bs) auto
  have c: "bit c p" using p by (auto simp: find_Some_iff)
  let ?cs = "map (\<lambda>d. if bit d p then d XOR c else d) cs"
  obtain k where k: "comb bs' cs = (if k then c else 0) XOR comb bs' ?cs" using comb_eliminate [OF bs(2)] by blast
  have n: "\<not> bit (comb bs' ?cs) p" by (rule comb_no_bit) (auto simp: bit_xor_iff c)
  have z: "(if b then c else 0) XOR ((if k then c else 0) XOR comb bs' ?cs) = 0" using "2.prems"(3) bs k by simp
  have "bit ((if b then c else 0) XOR ((if k then c else 0) XOR comb bs' ?cs)) p = bit (0 :: u32) p" by (simp only: z)
  then have "b = k" using n c unfolding bit_xor_iff by (cases b; cases k; simp)
  then have "comb bs' ?cs = 0" using z by (cases k) (simp_all add: xor.assoc [symmetric])
  then have f: "True \<notin> set bs'" using "2.IH" [OF p i, of bs'] bs(2) by simp
  have "comb bs' cs = 0"
  proof -
    have "True \<notin> set bs \<Longrightarrow> comb bs cs = 0" for bs cs by (induction bs cs rule: comb.induct) auto
    then show ?thesis using f .
  qed
  then have "\<not> b" using "2.prems"(3) bs(1) c by (cases b) auto
  then show ?case using f bs by simp
qed simp

text \<open>The bits of a coordinate, and the columns of a function.\<close>

definition low_bits :: "nat \<Rightarrow> u32 \<Rightarrow> bool list" where
  "low_bits n x = map (bit x) [0..<n]"

definition columns :: "(u32 \<Rightarrow> u32) \<Rightarrow> nat \<Rightarrow> u32 list" where
  "columns f n = map (\<lambda>i. f (push_bit i 1)) [0..<n]"

definition linear :: "(u32 \<Rightarrow> u32) \<Rightarrow> bool" where
  "linear f \<longleftrightarrow> (\<forall>v w. f (v XOR w) = f v XOR f w)"

lemma linear_zero: "linear f \<Longrightarrow> f 0 = 0"
  unfolding linear_def by (metis xor_self_eq)

lemma linear_columns: "linear f \<Longrightarrow> f (take_bit n x) = comb (low_bits n x) (columns f n)"
proof (induction n)
  case 0
  then show ?case by (simp add: linear_zero low_bits_def columns_def)
next
  case (Suc n)
  have "take_bit (Suc n) x = take_bit n x XOR (if bit x n then push_bit n 1 else 0)"
    by (rule bit_word_eqI) (auto simp: bit_simps less_Suc_eq)
  then have "f (take_bit (Suc n) x) = f (take_bit n x) XOR (if bit x n then f (push_bit n 1) else 0)"
    using Suc.prems linear_zero [OF Suc.prems] by (simp add: linear_def)
  then show ?case using Suc by (simp add: low_bits_def columns_def comb_append)
qed

lemma low_bits_eq: "low_bits n x = low_bits n y \<Longrightarrow> take_bit n x = take_bit n y"
  by (rule bit_word_eqI) (auto simp: low_bits_def bit_take_bit_iff)

lemma low_bits_diff: "length xs = length ys \<Longrightarrow> True \<notin> set (map2 (\<noteq>) xs ys) \<Longrightarrow> xs = ys"
  by (induction xs ys rule: list_induct2) auto

definition linear3 :: "(u32 \<Rightarrow> u32 \<Rightarrow> u32 \<Rightarrow> u32) \<Rightarrow> bool" where
  "linear3 F \<longleftrightarrow> (\<forall>x y z x' y' z'. F (x XOR x') (y XOR y') (z XOR z') = F x y z XOR F x' y' z')"

definition columns3 :: "(u32 \<Rightarrow> u32 \<Rightarrow> u32 \<Rightarrow> u32) \<Rightarrow> nat \<times> nat \<times> nat \<Rightarrow> u32 list" where
  "columns3 F dims = (case dims of (a, b, c) \<Rightarrow> columns (\<lambda>x. F x 0 0) a @ columns (\<lambda>y. F 0 y 0) b @ columns (\<lambda>z. F 0 0 z) c)"

lemma linear3_comb:
  assumes "linear3 F" "x = take_bit a x" "y = take_bit b y" "z = take_bit c z"
  shows "F x y z = comb (low_bits a x @ low_bits b y @ low_bits c z) (columns3 F (a, b, c))"
proof -
  have L: "F (x XOR x') (y XOR y') (z XOR z') = F x y z XOR F x' y' z'" for x y z x' y' z' using assms(1) by (simp add: linear3_def)
  have l: "linear (\<lambda>x. F x 0 0)" "linear (\<lambda>y. F 0 y 0)" "linear (\<lambda>z. F 0 0 z)"
    using L [of _ _ 0 0 0 0] L [of 0 0 _ _ 0 0] L [of 0 0 0 0 _ _] by (simp_all add: linear_def)
  have "F x y z = F x 0 0 XOR F 0 y 0 XOR F 0 0 z" using L [of x 0 0 y 0 0] L [of x 0 y 0 0 z] by (simp add: xor.assoc)
  also have "\<dots> = F (take_bit a x) 0 0 XOR F 0 (take_bit b y) 0 XOR F 0 0 (take_bit c z)" using assms(2-4) by simp
  also have "\<dots> = comb (low_bits a x @ low_bits b y @ low_bits c z) (columns3 F (a, b, c))"
    using linear_columns [OF l(1), of a x] linear_columns [OF l(2), of b y] linear_columns [OF l(3), of c z]
    by (simp add: columns3_def comb_append low_bits_def columns_def xor.assoc)
  finally show ?thesis .
qed

lemma linear3_inj:
  assumes "linear3 F" "indep (columns3 F (a, b, c))" "F x y z = F x' y' z'"
    "x = take_bit a x" "y = take_bit b y" "z = take_bit c z" "x' = take_bit a x'" "y' = take_bit b y'" "z' = take_bit c z'"
  shows "x = x' \<and> y = y' \<and> z = z'"
proof -
  let ?b = "low_bits a x @ low_bits b y @ low_bits c z" and ?b' = "low_bits a x' @ low_bits b y' @ low_bits c z'"
  have l: "length ?b = length ?b'" "length ?b' = length (columns3 F (a, b, c))" by (simp_all add: low_bits_def columns3_def columns_def)
  have "comb (map2 (\<noteq>) ?b ?b') (columns3 F (a, b, c)) = 0"
    unfolding comb_xor [OF l, symmetric] using linear3_comb [OF assms(1,4-6)] linear3_comb [OF assms(1,7-9)] assms(3) by simp
  then have "True \<notin> set (map2 (\<noteq>) ?b ?b')" by (rule indep_comb [OF assms(2), rotated]) (use l in simp)
  then have "?b = ?b'" by (rule low_bits_diff [OF l(1)])
  then have "low_bits a x = low_bits a x'" "low_bits b y = low_bits b y'" "low_bits c z = low_bits c z'" by (simp_all add: low_bits_def)
  from this [THEN low_bits_eq] show ?thesis using assms(4-9) by argo
qed

lemma fold_xor: "fold (\<lambda>(s, m) offset. offset XOR (push_bit s v AND m)) ts u = u XOR swizzle ts v"
proof (induction ts arbitrary: u)
  case (Cons t ts)
  obtain s m where t: "t = (s, m)" by fastforce
  have "swizzle (t # ts) v = fold (\<lambda>(s, m) offset. offset XOR (push_bit s v AND m)) ts (push_bit s v AND m)" by (simp add: swizzle_def t)
  also have "\<dots> = (push_bit s v AND m) XOR swizzle ts v" by (rule Cons.IH)
  finally have c: "swizzle (t # ts) v = (push_bit s v AND m) XOR swizzle ts v" .
  show ?case unfolding c by (simp add: t Cons.IH xor.assoc)
qed (simp add: swizzle_def)

lemma swizzle_Cons: "swizzle ((s, m) # ts) v = (push_bit s v AND m) XOR swizzle ts v"
  using fold_xor [of v ts "push_bit s v AND m"] by (simp add: swizzle_def)

lemma swizzle_xor [xor_linear]: "swizzle ts (v XOR w) = swizzle ts v XOR swizzle ts w"
proof (induction ts)
  case (Cons t ts)
  have "push_bit s (v XOR w) AND m = (push_bit s v AND m) XOR (push_bit s w AND m)" for s m
    by (simp add: push_bit_xor bit.conj_xor_distrib2)
  then show ?case using Cons by (cases t) (simp add: swizzle_Cons xor.assoc xor.commute xor.left_commute)
qed (simp add: swizzle_def)

lemma Bit_xor [xor_linear]: "Bit (v XOR w) s d = Bit v s d XOR Bit w s d"
  by (simp add: Bit_def drop_bit_xor push_bit_xor bit.conj_xor_distrib2)

lemmas [xor_linear] = push_bit_xor drop_bit_xor bit.conj_xor_distrib2

section \<open>The layouts\<close>

text \<open>The offset as a function of all coordinates, where the tables are the functions that they are filled with.\<close>

definition table_offset :: "u32 \<Rightarrow> u32 \<Rightarrow> u32 \<Rightarrow> u32" where
  "table_offset b x y =
    (if b = 1 then swizzle [(0, 0xf), (5, 0x200), (6, 0x800), (7, 0x2000), (8, 0x8000)] x XOR swizzle [(4, 0x1f0), (5, 0x400), (6, 0x1000), (7, 0x4000)] y
     else if b = 2 then push_bit 1 (drop_bit 1 (swizzle [(1, 0xe), (4, 0x80), (5, 0x200), (6, 0x800), (7, 0x2000), (8, 0x8000)] x) XOR
       drop_bit 1 (swizzle [(4, 0x70), (5, 0x100), (6, 0x400), (7, 0x1000), (8, 0x4000)] y))
     else if b = 4 then push_bit 2 (drop_bit 2 (swizzle [(2, 0xc), (5, 0x80), (6, 0x200), (7, 0x800), (8, 0x2000), (9, 0x8000)] x) XOR
       drop_bit 2 (swizzle [(4, 0x70), (5, 0x100), (6, 0x400), (7, 0x1000), (8, 0x4000)] y))
     else if b = 8 then push_bit 3 (drop_bit 3 (swizzle [(3, 0x8), (5, 0xc0), (6, 0x200), (7, 0x800), (8, 0x2000), (9, 0x8000)] x) XOR
       drop_bit 3 (swizzle [(4, 0x30), (6, 0x100), (7, 0x400), (8, 0x1000), (9, 0x4000)] y))
     else push_bit 4 (drop_bit 4 (swizzle [(6, 0xc0), (7, 0x200), (8, 0x800), (9, 0x2000), (10, 0x8000)] x) XOR
       drop_bit 4 (swizzle [(4, 0x30), (6, 0x100), (7, 0x400), (8, 0x1000), (9, 0x4000)] y)))"

definition result_of :: "u32 option outcome \<Rightarrow> u32" where
  "result_of r = (case r of Done (Some offset) \<Rightarrow> offset | _ \<Rightarrow> 0)"

definition block_offset :: "TileBlockFamily \<Rightarrow> u32 \<Rightarrow> u32 \<Rightarrow> u32 \<Rightarrow> u32 \<Rightarrow> u32" where
  "block_offset family b x y z =
    (case family of
       Standard64KB \<Rightarrow> table_offset b x y
     | Prt64KB \<Rightarrow> table_offset b x y XOR prt_bits b x y
     | _ \<Rightarrow> result_of (raw_offset family b x y z))"

definition element_sizes :: "u32 list" where
  "element_sizes = [1, 2, 4, 8, 16]"

lemma single_bit_sizes: "has_single_bit b \<Longrightarrow> b \<le> 16 \<Longrightarrow> b \<in> set element_sizes"
proof -
  have "\<forall>n \<in> set [0..<17]. has_single_bit (of_nat n) \<longrightarrow> (of_nat n :: u32) \<in> set element_sizes" by code_simp
  moreover assume "has_single_bit b" "b \<le> 16"
  moreover have "b = of_nat (unat b)" "unat b < 17" using \<open>b \<le> 16\<close> by (simp_all add: word_le_nat_alt)
  ultimately show ?thesis by (metis atLeastLessThan_iff atLeast_upt set_upt zero_le)
qed

definition layout_dims :: "TileBlockLayout \<Rightarrow> nat \<times> nat \<times> nat" where
  "layout_dims l = (countr_zero_u32 (tb_block_width l), countr_zero_u32 (tb_block_height l), countr_zero_u32 (tb_block_depth l))"

definition columns_checked :: "u32 \<Rightarrow> u32 list \<Rightarrow> bool" where
  "columns_checked msk cs \<longleftrightarrow> indep cs \<and> (\<forall>c \<in> set cs. c AND msk = 0)"

definition layout_checked :: "TileBlockLayout \<Rightarrow> bool" where
  "layout_checked l \<longleftrightarrow>
    (case layout_dims l of (a, b, c) \<Rightarrow>
       tb_block_width l = push_bit a 1 \<and> tb_block_height l = push_bit b 1 \<and> tb_block_depth l = push_bit c 1 \<and> a \<le> 8 \<and> b \<le> 8 \<and> c \<le> 8 \<and>
       tb_block_size l = push_bit (a + b + c) 1 * tb_bytes_per_element l \<and> a + b + c \<le> 16) \<and>
    columns_checked (NOT (tb_block_size l - tb_bytes_per_element l)) (columns3 (block_offset (tb_family l) (tb_bytes_per_element l)) (layout_dims l))"

lemmas layout_eval = TileGetBlockLayout_def has_single_bit_def block_dims_def Gen5Thin64KBBlockSizeFromElementBytes_def shifted_dims_def Let_def
  layout_checked_def columns_checked_def layout_dims_def countr_zero_u32_def columns3_def columns_def upt_rec block_offset_def result_of_def
  element_sizes_def raw_offset_def swizzle_def Bit_def

definition family_checked :: "TileBlockFamily \<Rightarrow> bool" where
  "family_checked family \<longleftrightarrow> (\<forall>b \<in> set element_sizes. case TileGetBlockLayout family b of None \<Rightarrow> True | Some l \<Rightarrow> layout_checked l)"

lemma checked_rt: "family_checked RenderTarget64KB"
  by (simp add: family_checked_def layout_eval Gen5RenderTargetOffsetInBlock_def)

lemma checked_256: "family_checked Standard256B"
  by (simp add: family_checked_def layout_eval Gen5Standard256BOffsetInBlock_def Gen5Standard4KBOffsetInBlock_def)

lemma checked_4: "family_checked Standard4KB"
  by (simp add: family_checked_def layout_eval Gen5Standard4KBOffsetInBlock_def)

lemma checked_4_3d: "family_checked Standard4KB3D"
  by (simp add: family_checked_def layout_eval Gen5Standard4KBVolumeOffsetInBlock_def)

lemma checked_64_3d: "family_checked Standard64KB3D"
  by (simp add: family_checked_def layout_eval Gen5Standard4KBVolumeOffsetInBlock_def Gen5Standard64KBVolumeOffsetInBlock_def)

lemma checked_prt_3d: "family_checked Prt64KB3D"
  by (simp add: family_checked_def layout_eval Gen5Standard4KBVolumeOffsetInBlock_def Gen5Standard64KBVolumeOffsetInBlock_def prt_volume_bits_def)

lemma checked_64: "family_checked Standard64KB"
  by (simp add: family_checked_def layout_eval table_offset_def)

lemma checked_prt: "family_checked Prt64KB"
  by (simp add: family_checked_def layout_eval table_offset_def prt_bits_def)

lemma checked_depth: "family_checked Depth64KB"
  by (simp add: family_checked_def layout_eval depth_offset_def Depth64KB8XOffsetBytes_def Depth64KB8YOffsetBytes_def Depth64KB16XOffsetBytes_def
    Depth64KB16YOffsetBytes_def Depth64KB32XOffsetBytes_def Depth64KB32YOffsetBytes_def Depth64KB64XOffsetBytes_def Depth64KB64YOffsetBytes_def)

lemmas xor_ac = xor.assoc xor.commute xor.left_commute

lemma table_linear: "table_offset b (x XOR x') (y XOR y') = table_offset b x y XOR table_offset b x' y'"
  by (simp add: table_offset_def xor_linear xor_ac)

lemma offset_linear: "b \<in> set element_sizes \<Longrightarrow> linear3 (block_offset family b)"
  unfolding linear3_def block_offset_def
proof (intro allI, cases family)
qed (auto simp: element_sizes_def table_linear prt_bits_def prt_volume_bits_def raw_offset_def result_of_def Let_def xor_linear xor_ac
   Gen5Standard256BOffsetInBlock_def Gen5Standard4KBOffsetInBlock_def Gen5Standard4KBVolumeOffsetInBlock_def Gen5Standard64KBVolumeOffsetInBlock_def
   Gen5RenderTargetOffsetInBlock_def depth_offset_def Depth64KB8XOffsetBytes_def Depth64KB8YOffsetBytes_def Depth64KB16XOffsetBytes_def
    Depth64KB16YOffsetBytes_def Depth64KB32XOffsetBytes_def Depth64KB32YOffsetBytes_def Depth64KB64XOffsetBytes_def Depth64KB64YOffsetBytes_def)

lemma word_nth: "unat x < n \<Longrightarrow> map (f \<circ> word_of_nat) [0..<n] ! unat x = f (x :: u32)"
  by simp

lemma table_lookup:
  assumes "Gen5Thin64KBBlockSizeFromElementBytes b = Some (w, h)" "x < w" "y < h"
  shows "standard_tables b x y = Some (table_offset b x y)"
proof -
  have "b = 1 \<and> w = 256 \<and> h = 256 \<or> b = 2 \<and> w = 256 \<and> h = 128 \<or> b = 4 \<and> w = 128 \<and> h = 128 \<or> b = 8 \<and> w = 128 \<and> h = 64 \<or> b = 16 \<and> w = 64 \<and> h = 64"
    using assms(1) by (auto simp: Gen5Thin64KBBlockSizeFromElementBytes_def split: if_splits)
  then show ?thesis using assms(2,3)
    by (elim disjE conjE) (simp_all add: standard_tables_def table_offset_def push_bit_eq_mult word_nth word_less_nat_alt
      Standard64KB32Tables_x_words_def Standard64KB32Tables_y_words_def Standard64KB16Tables_x_words_def Standard64KB16Tables_y_words_def
      Standard64KB8Tables_x_words_def Standard64KB8Tables_y_words_def Standard64KB64Tables_x_words_def Standard64KB64Tables_y_words_def
      Standard64KB128Tables_x_words_def Standard64KB128Tables_y_words_def mult.commute)
qed

lemma layout_fields:
  assumes "TileGetBlockLayout family b = Some l"
  shows "tb_family l = family" "tb_bytes_per_element l = b" "b \<in> set element_sizes" "family \<noteq> Count" "layout_checked l"
    "family \<in> {Standard64KB, Prt64KB} \<Longrightarrow> Gen5Thin64KBBlockSizeFromElementBytes b = Some (tb_block_width l, tb_block_height l)"
    "family = Depth64KB \<Longrightarrow> b \<noteq> 16" "expected_layout l"
proof -
  show f: "tb_family l = family" "tb_bytes_per_element l = b"
    using assms by (auto simp: TileGetBlockLayout_def split: if_splits option.splits prod.splits)
  show b: "b \<in> set element_sizes" using assms single_bit_sizes by (auto simp: TileGetBlockLayout_def not_less split: if_splits)
  show n: "family \<noteq> Count" using assms by (auto simp: TileGetBlockLayout_def block_dims_def Let_def split: if_splits)
  have "family_checked family"
    using n checked_rt checked_256 checked_4 checked_4_3d checked_64_3d checked_prt_3d checked_64 checked_prt checked_depth by (cases family) auto
  then show "layout_checked l" using assms b by (fastforce simp: family_checked_def)
  have "block_dims Depth64KB 16 = None" by (simp add: block_dims_def)
  then show "family = Depth64KB \<Longrightarrow> b \<noteq> 16" using assms by (auto simp: TileGetBlockLayout_def split: if_splits)
  show "family \<in> {Standard64KB, Prt64KB} \<Longrightarrow> Gen5Thin64KBBlockSizeFromElementBytes b = Some (tb_block_width l, tb_block_height l)"
    using assms by (auto simp: TileGetBlockLayout_def block_dims_def Let_def split: if_splits option.splits prod.splits)
  show "expected_layout l" using assms f by (simp add: expected_layout_def)
qed

lemma raw_in_range:
  assumes "TileGetBlockLayout family b = Some l" "x < tb_block_width l" "y < tb_block_height l"
  shows "raw_offset family b x y z = Done (Some (block_offset family b x y z))"
proof -
  note F = layout_fields [OF assms(1)]
  have t: "family \<in> {Standard64KB, Prt64KB} \<Longrightarrow> standard_tables b x y = Some (table_offset b x y)"
    using table_lookup [OF F(6) assms(2,3)] .
  have b: "b = 1 \<or> b = 2 \<or> b = 4 \<or> b = 8 \<or> b = 16" using F(3) by (simp add: element_sizes_def)
  show ?thesis
    using b t F(4,7) by (cases family; elim disjE) (simp_all add: raw_offset_def block_offset_def result_of_def Let_def Gen5Standard256BOffsetInBlock_def
      Gen5Standard4KBOffsetInBlock_def Gen5Standard4KBVolumeOffsetInBlock_def Gen5Standard64KBVolumeOffsetInBlock_def
      Gen5RenderTargetOffsetInBlock_def depth_offset_def)
qed

section \<open>A bijection\<close>

lemma unat_pow: "j < 32 \<Longrightarrow> unat (2 ^ j :: u32) = 2 ^ j"
  using unat_of_nat [of "2 ^ j", where 'a = 32] power_strict_increasing [of j 32 "2 :: nat"] by simp

lemma below_take_bit: "x < push_bit n (1 :: u32) \<Longrightarrow> n < 32 \<Longrightarrow> x = take_bit n x"
  by (simp add: word_unat_eq_iff unsigned_take_bit_eq word_less_nat_alt push_bit_eq_mult unat_pow take_bit_nat_eq_self)

lemma card_below: "card {..<w :: u32} = unat w"
proof -
  have "{..<w} = word_of_nat ` {..<unat w}"
  proof (intro set_eqI iffI)
    fix x :: u32 assume "x \<in> {..<w}"
    then show "x \<in> word_of_nat ` {..<unat w}" by (intro image_eqI [of _ _ "unat x"]) (simp_all add: word_less_nat_alt)
  next
    fix x :: u32 assume "x \<in> word_of_nat ` {..<unat w}"
    then show "x \<in> {..<w}" using unsigned_less [of w, where 'a = nat]
      by (auto simp: word_less_nat_alt unat_of_nat take_bit_nat_eq_self)
  qed
  moreover have "inj_on (word_of_nat :: nat \<Rightarrow> u32) {..<unat w}"
    using unsigned_less [of w, where 'a = nat]
    by (intro inj_onI) (simp add: word_unat_eq_iff unat_of_nat take_bit_nat_eq_self)
  ultimately show ?thesis by (simp add: card_image)
qed

text \<open>The offsets at which elements can be stored.\<close>

definition element_places :: "u32 \<Rightarrow> u32 \<Rightarrow> u32 set" where
  "element_places sz b = {offset. offset < sz \<and> offset mod b = 0}"

lemma element_power: "b \<in> set element_sizes \<Longrightarrow> \<exists>k \<le> 4. b = 2 ^ k"
  by (auto simp: element_sizes_def intro: exI [of _ 0] exI [of _ 1] exI [of _ 2] exI [of _ 3] exI [of _ 4])

lemma masked_aligned:
  assumes "b \<in> set element_sizes" "sz = push_bit n 1 * b" "n \<le> 16" "offset AND NOT (sz - b) = 0"
  shows "offset \<in> element_places sz b"
proof -
  obtain k where k: "k \<le> 4" "b = 2 ^ k" using element_power [OF assms(1)] by blast
  have o: "offset = offset AND (sz - b)"
  proof (rule bit_word_eqI)
    fix i assume "i < LENGTH(32)"
    have "bit (offset AND NOT (sz - b)) i = bit (0 :: u32) i" by (simp only: assms(4))
    with \<open>i < LENGTH(32)\<close> show "bit offset i = bit (offset AND (sz - b)) i" by (auto simp: bit_and_iff bit_not_iff)
  qed
  have sz: "sz = 2 ^ (n + k)" using assms(2) k by (simp add: push_bit_eq_mult power_add)
  have "b \<le> sz" using k sz assms(3) by (simp add: word_le_nat_alt unat_pow)
  moreover have "b \<noteq> 0" using k unat_pow [of k] by (auto simp: word_unat_eq_iff)
  ultimately have "sz - b < sz" using unat_sub [of b sz] by (auto simp: word_less_nat_alt word_le_nat_alt word_unat_eq_iff)
  moreover have "offset \<le> sz - b" using o word_and_le1 by metis
  ultimately have l: "offset < sz" by simp
  have "take_bit k (sz - b) = 0"
  proof -
    have "sz - b = push_bit k (push_bit n 1 - 1)" by (simp add: assms(2) k push_bit_eq_mult algebra_simps)
    then show ?thesis by (simp add: take_bit_push_bit)
  qed
  then have "take_bit k offset = 0" using o by (metis take_bit_and and.right_idem and_zero_eq)
  then have "offset mod b = 0" using k by (simp add: take_bit_eq_mod)
  then show ?thesis using l by (simp add: element_places_def)
qed

lemma card_aligned:
  assumes "b \<in> set element_sizes" "sz = push_bit n 1 * b" "n \<le> 16"
  shows "card (element_places sz b) \<le> 2 ^ n" and "finite (element_places sz b)"
proof -
  obtain k where k: "k \<le> 4" "b = 2 ^ k" using element_power [OF assms(1)] by blast
  have sz: "unat sz = 2 ^ n * 2 ^ k" using assms(2,3) k unat_pow [of "n + k"] by (simp add: push_bit_eq_mult power_add)
  have b: "unat b = 2 ^ k" using k by (simp add: unat_pow)
  have m: "unat p = unat p div 2 ^ k * 2 ^ k" if "p \<in> element_places sz b" for p
  proof -
    have "p mod b = 0" using that by (simp add: element_places_def)
    then have "unat p mod 2 ^ k = 0" using unat_mod_distrib [of p b] b by simp
    then show ?thesis using div_mult_mod_eq [of "unat p" "2 ^ k"] by simp
  qed
  have inj: "inj_on (\<lambda>p. unat p div 2 ^ k) (element_places sz b)"
    by (rule inj_onI) (metis m word_unat_eq_iff)
  have img: "(\<lambda>p. unat p div 2 ^ k) ` element_places sz b \<subseteq> {..<2 ^ n}"
    using sz by (auto simp: element_places_def word_less_nat_alt less_mult_imp_div_less)
  show "card (element_places sz b) \<le> 2 ^ n" using card_inj_on_le [OF inj img] by simp
  show "finite (element_places sz b)" using inj_on_finite [OF inj img] by simp
qed

lemma block_places:
  assumes "TileGetBlockLayout family bytes_per_element = Some l"
  shows "\<exists>place. bij_betw place ({..<tb_block_width l} \<times> {..<tb_block_height l} \<times> {..<tb_block_depth l})
      {offset. offset < tb_block_size l \<and> offset mod bytes_per_element = 0} \<and>
    (\<forall>x y z. TileGetBlockOffset l x y z =
      Done (if x < tb_block_width l \<and> y < tb_block_height l \<and> z < tb_block_depth l then Some (place (x, y, z)) else None))"
proof (intro exI conjI allI)
  note F = layout_fields [OF assms]
  let ?off = "block_offset family bytes_per_element" and ?place = "\<lambda>(x, y, z). block_offset family bytes_per_element x y z"
  let ?D = "{..<tb_block_width l} \<times> {..<tb_block_height l} \<times> {..<tb_block_depth l}"
  obtain a b c where d: "layout_dims l = (a, b, c)" by (cases "layout_dims l")
  have l: "tb_block_width l = push_bit a 1" "tb_block_height l = push_bit b 1" "tb_block_depth l = push_bit c 1" "a \<le> 8" "b \<le> 8" "c \<le> 8"
    "tb_block_size l = push_bit (a + b + c) 1 * bytes_per_element" "a + b + c \<le> 16"
    and ind: "indep (columns3 ?off (a, b, c))"
    and msk: "\<forall>v \<in> set (columns3 ?off (a, b, c)). v AND NOT (tb_block_size l - bytes_per_element) = 0"
    using F(5) [unfolded layout_checked_def columns_checked_def d prod.case F(1,2)] by blast+
  have lin: "linear3 ?off" by (rule offset_linear [OF F(3)])
  have tb: "x = take_bit a x" "y = take_bit b y" "z = take_bit c z" if "(x, y, z) \<in> ?D" for x y z
    using that l(1-6) below_take_bit [of x a] below_take_bit [of y b] below_take_bit [of z c] by simp_all
  have al: "?off x y z \<in> element_places (tb_block_size l) bytes_per_element" if "(x, y, z) \<in> ?D" for x y z
    unfolding linear3_comb [OF lin tb [OF that]] by (rule masked_aligned [OF F(3) l(7,8)], rule comb_mask, rule msk)
  have inj: "inj_on ?place ?D"
  proof (rule inj_onI)
    fix p q assume pq: "p \<in> ?D" "q \<in> ?D" "?place p = ?place q"
    obtain x y z x' y' z' where e: "p = (x, y, z)" "q = (x', y', z')" by (cases p; cases q) auto
    have "x = x' \<and> y = y' \<and> z = z'"
      by (rule linear3_inj [OF lin ind _ tb [OF pq(1) [unfolded e]] tb [OF pq(2) [unfolded e]]]) (use pq(3) in \<open>simp add: e\<close>)
    then show "p = q" by (simp add: e)
  qed
  have u: "unat (push_bit n 1 :: u32) = 2 ^ n" if "n \<le> 8" for n using that by (simp add: push_bit_eq_mult unat_pow)
  have "card (?place ` ?D) = card ?D" by (rule card_image [OF inj])
  also have "\<dots> = 2 ^ (a + b + c)"
    unfolding card_cartesian_product card_below l(1-3) u [OF l(4)] u [OF l(5)] u [OF l(6)] by (simp add: power_add)
  finally have "card (element_places (tb_block_size l) bytes_per_element) \<le> card (?place ` ?D)" using card_aligned(1) [OF F(3) l(7,8)] by simp
  moreover have "?place ` ?D \<subseteq> element_places (tb_block_size l) bytes_per_element" using al by auto
  ultimately have "?place ` ?D = element_places (tb_block_size l) bytes_per_element" by (intro card_seteq card_aligned(2) [OF F(3) l(7,8)])
  then show "bij_betw ?place ?D {offset. offset < tb_block_size l \<and> offset mod bytes_per_element = 0}"
    using inj by (simp add: bij_betw_def element_places_def)
  show "TileGetBlockOffset l x y z = Done (if x < tb_block_width l \<and> y < tb_block_height l \<and> z < tb_block_depth l then Some (?place (x, y, z)) else None)" for x y z
  proof (cases "(x, y, z) \<in> ?D")
    case True
    then show ?thesis using raw_in_range [OF assms, of x y z] al [OF True] F(1,2,8) by (simp add: TileGetBlockOffset_def element_places_def not_le)
  next
    case False
    then show ?thesis by (auto simp: TileGetBlockOffset_def)
  qed
qed

text \<open>C39. For every layout that the program knows, the function gives each element of a block a place of its own, no place is left over, and
  every place is aligned to the size of the element. Coordinates outside the block are refused, and the process is never ended.\<close>

theorem tile_block_bijective:
  assumes "TileGetBlockLayout family bytes_per_element = Some l"
  shows "\<exists>place. bij_betw place ({..<tb_block_width l} \<times> {..<tb_block_height l} \<times> {..<tb_block_depth l})
      {offset. offset < tb_block_size l \<and> offset mod bytes_per_element = 0} \<and>
    (\<forall>x y z. TileGetBlockOffset l x y z =
      Done (if x < tb_block_width l \<and> y < tb_block_height l \<and> z < tb_block_depth l then Some (place (x, y, z)) else None))"
  using assms by (rule block_places)

theorem tile_block_bijective_witness:
  "\<exists>l place. TileGetBlockLayout Prt64KB3D 8 = Some l \<and>
    bij_betw place ({..<32 :: u32} \<times> {..<16 :: u32} \<times> {..<16 :: u32}) {offset. offset < 65536 \<and> offset mod 8 = (0 :: u32)} \<and>
    TileGetBlockOffset l 31 15 15 = Done (Some (place (31, 15, 15))) \<and> TileGetBlockOffset l 32 0 0 = Done None"
proof -
  have l: "TileGetBlockLayout Prt64KB3D 8 = Some \<lparr>tb_family = Prt64KB3D, tb_bytes_per_element = 8, tb_block_size = 65536,
    tb_block_width = 32, tb_block_height = 16, tb_block_depth = 16\<rparr>" by code_simp
  from tile_block_bijective [OF l] show ?thesis unfolding l by auto
qed

section \<open>The position of a block\<close>

lemma aligned_mask:
  assumes "b \<in> set element_sizes" "sz = push_bit n 1 * b" "n \<le> 16"
  shows "offset \<in> element_places sz b \<longleftrightarrow> offset AND NOT (sz - b) = 0"
proof
  assume o: "offset \<in> element_places sz b"
  obtain k where k: "k \<le> 4" "b = 2 ^ k" using element_power [OF assms(1)] by blast
  have m: "sz - b = push_bit k (mask n)" by (simp add: assms(2) k push_bit_eq_mult mask_eq_exp_minus_1 algebra_simps)
  have "offset < push_bit (n + k) 1" using o k assms(2) by (simp add: element_places_def push_bit_eq_mult power_add)
  then have h: "offset = take_bit (n + k) offset" by (rule below_take_bit) (use k assms(3) in simp)
  have "take_bit k offset = 0" using o k by (simp add: element_places_def take_bit_eq_mod)
  then have l: "\<not> bit offset i" if "i < k" for i using that by (metis bit_take_bit_iff bit_0_eq bot_apply bot_bool_def)
  show "offset AND NOT (sz - b) = 0"
  proof (rule bit_word_eqI)
    fix i :: nat
    have "bit offset i \<Longrightarrow> i < n + k \<and> \<not> i < k" using h l by (metis bit_take_bit_iff)
    then show "bit (offset AND NOT (sz - b)) i = bit (0 :: u32) i"
      unfolding m by (auto simp: bit_simps)
  qed
qed (rule masked_aligned [OF assms])

lemma swizzle_mask: "\<forall>(s, m) \<in> set ts. m AND q = 0 \<Longrightarrow> swizzle ts v AND q = 0"
proof (induction ts)
  case (Cons t ts)
  obtain s m where t: "t = (s, m)" by fastforce
  have "m AND q = 0" using Cons.prems t by simp
  then have "push_bit s v AND m AND q = 0" by simp
  then show ?case using Cons by (simp add: t swizzle_Cons bit.conj_xor_distrib2 and.assoc)
qed (simp add: swizzle_def)

lemma z_bits_swizzle: "z_bits z = swizzle [(5, 0x100), (7, 0x200), (9, 0x400), (11, 0x800)] z"
  by (simp add: z_bits_def swizzle_def push_bit_and xor.assoc)

lemma xor_permutes:
  assumes "b \<in> set element_sizes" "sz = push_bit n 1 * b" "n \<le> 16" "k \<in> element_places sz b"
  shows "bij_betw (\<lambda>offset. offset XOR k) (element_places sz b) (element_places sz b)"
proof -
  have c: "offset XOR k \<in> element_places sz b" if "offset \<in> element_places sz b" for offset
    using that assms(4) unfolding aligned_mask [OF assms(1-3)] by (simp add: bit.conj_xor_distrib2)
  show ?thesis by (rule bij_betw_byWitness [where f' = "\<lambda>offset. offset XOR k"]) (use c in \<open>auto simp: xor.assoc\<close>)
qed

lemma wraps_iff: "w \<noteq> 0 \<Longrightarrow> (- 1) div w < (x :: u32) \<longleftrightarrow> 2 ^ 32 \<le> unat x * unat w"
proof -
  assume "w \<noteq> 0"
  then have w: "0 < unat w" by (simp add: unat_gt_0)
  have "unat (- 1 :: u32) = 2 ^ 32 - 1" by (simp add: unsigned_minus_1_eq_mask mask_eq_exp_minus_1)
  then have "(- 1) div w < x \<longleftrightarrow> (2 ^ 32 - 1) div unat w < unat x" by (simp add: word_less_nat_alt unat_div_distrib)
  also have "\<dots> \<longleftrightarrow> 2 ^ 32 - 1 < unat x * unat w" by (rule div_less_iff_less_mult [OF w])
  also have "2 ^ 32 - 1 < m \<longleftrightarrow> 2 ^ 32 \<le> m" for m :: nat by simp presburger
  finally show ?thesis .
qed

lemma swizzle_aligned:
  assumes "b \<in> set element_sizes" "sz = push_bit n 1 * b" "n \<le> 16"
    "\<forall>(s, m) \<in> set ts. m AND NOT (sz - b) = 0" "\<forall>(s, m) \<in> set ts'. m AND NOT (sz - b) = 0"
  shows "swizzle ts x XOR swizzle ts' y \<in> element_places sz b"
  unfolding aligned_mask [OF assms(1-3)] using swizzle_mask [OF assms(4)] swizzle_mask [OF assms(5)]
  by (simp add: bit.conj_xor_distrib2)

text \<open>The families whose blocks are permuted by their position, and the offsets of the position.\<close>

definition positioned :: "TileBlockFamily \<Rightarrow> u32 \<Rightarrow> bool" where
  "positioned family b \<longleftrightarrow> family = RenderTarget64KB \<or> family = Depth64KB \<and> b = 8"

lemma size_64: "b \<in> set element_sizes \<Longrightarrow> \<exists>n \<le> 16. (65536 :: u32) = push_bit n 1 * b"
  by (auto simp: element_sizes_def intro: exI [of _ 16] exI [of _ 15] exI [of _ 14] exI [of _ 13] exI [of _ 12])

lemma swizzle_aligned_64:
  assumes "b \<in> set element_sizes" "\<forall>(s, m) \<in> set ts. m AND NOT (65536 - b) = 0" "\<forall>(s, m) \<in> set ts'. m AND NOT (65536 - b) = 0"
  shows "swizzle ts x XOR swizzle ts' y \<in> element_places 65536 b"
proof -
  obtain n where n: "n \<le> 16" "(65536 :: u32) = push_bit n 1 * b" using size_64 [OF assms(1)] by blast
  show ?thesis by (rule swizzle_aligned [OF assms(1) n(2,1) assms(2,3)])
qed

lemma render_target_aligned:
  assumes "b \<in> set element_sizes"
  shows "\<exists>v \<in> element_places 65536 b. Gen5RenderTargetOffsetInBlock b x y = Done v"
proof -
  have "b = 1 \<or> b = 2 \<or> b = 4 \<or> b = 8 \<or> b = 16" using assms by (simp add: element_sizes_def)
  then show ?thesis unfolding Gen5RenderTargetOffsetInBlock_def
    by (elim disjE) (simp, rule swizzle_aligned_64; simp add: element_sizes_def)+
qed

lemma z_bits_aligned:
  assumes "b \<in> set element_sizes" "v \<in> element_places 65536 b"
  shows "v XOR z_bits z \<in> element_places 65536 b"
proof -
  obtain n where n: "n \<le> 16" "(65536 :: u32) = push_bit n 1 * b" using size_64 [OF assms(1)] by blast
  have "swizzle [(5, 0x100), (7, 0x200), (9, 0x400), (11, 0x800)] z AND NOT (65536 - b) = 0"
    by (rule swizzle_mask) (use assms(1) in \<open>auto simp: element_sizes_def\<close>)
  then show ?thesis using assms(2) unfolding aligned_mask [OF assms(1) n(2,1)] by (simp add: bit.conj_xor_distrib2 z_bits_swizzle)
qed

lemma depth_aligned: "Depth64KB64XOffsetBytes x XOR Depth64KB64YOffsetBytes y \<in> element_places 65536 8"
  unfolding Depth64KB64XOffsetBytes_def Depth64KB64YOffsetBytes_def
  by (rule swizzle_aligned [where n = 13]) (simp_all add: element_sizes_def)

lemma unit_nonzero: "n \<le> 8 \<Longrightarrow> push_bit n (1 :: u32) \<noteq> 0"
  using unat_pow [of n] by (auto simp: push_bit_eq_mult word_unat_eq_iff)

text \<open>The position of a block permutes the places in it: the offset that it gives is combined with every place by exclusive or, which maps the
  places of elements to themselves one to one. It is refused exactly when the coordinates of the block's first element leave 32 bits,
  and only for the families that depend on them.\<close>

lemma tile_block_xor_permutes:
  assumes "TileGetBlockLayout family bytes_per_element = Some l"
  shows "if positioned family bytes_per_element \<and>
      (2 ^ 32 \<le> unat block_x * unat (tb_block_width l) \<or> 2 ^ 32 \<le> unat block_y * unat (tb_block_height l))
    then TileGetBlockXor l block_x block_y block_z = Done None
    else \<exists>k. TileGetBlockXor l block_x block_y block_z = Done (Some k) \<and>
      bij_betw (\<lambda>offset. offset XOR k) {offset. offset < tb_block_size l \<and> offset mod bytes_per_element = 0}
        {offset. offset < tb_block_size l \<and> offset mod bytes_per_element = 0}"
proof -
  note F = layout_fields [OF assms]
  let ?k = "\<lambda>v. if family \<in> {RenderTarget64KB, Depth64KB} then v XOR z_bits block_z else v"
  have nz: "tb_block_width l \<noteq> 0" "tb_block_height l \<noteq> 0" and sz: "\<exists>n \<le> 16. tb_block_size l = push_bit n 1 * bytes_per_element"
    using F(5) F(2) unit_nonzero by (auto simp: layout_checked_def split: prod.splits)
  obtain n where n: "n \<le> 16" "tb_block_size l = push_bit n 1 * bytes_per_element" using sz by blast
  have s64: "tb_block_size l = 65536" if "family \<in> {RenderTarget64KB, Depth64KB}"
    using assms that by (auto simp: TileGetBlockLayout_def block_dims_def Let_def split: if_splits option.splits prod.splits)
  have fin: "\<exists>k. Done (if ?k v < tb_block_size l \<and> ?k v mod bytes_per_element = 0 then Some (?k v) else None) = Done (Some k) \<and>
      bij_betw (\<lambda>offset. offset XOR k) (element_places (tb_block_size l) bytes_per_element) (element_places (tb_block_size l) bytes_per_element)"
    if v: "v \<in> element_places (tb_block_size l) bytes_per_element" for v
  proof -
    have "?k v \<in> element_places (tb_block_size l) bytes_per_element" using v z_bits_aligned [OF F(3)] s64 by auto
    then show ?thesis using xor_permutes [OF F(3) n(2,1)] by (simp add: element_places_def)
  qed
  have zero: "0 \<in> element_places (tb_block_size l) bytes_per_element" unfolding aligned_mask [OF F(3) n(2,1)] by simp
  let ?wraps = "2 ^ 32 \<le> unat block_x * unat (tb_block_width l) \<or> 2 ^ 32 \<le> unat block_y * unat (tb_block_height l)"
  note w = wraps_iff [OF nz(1), of block_x] wraps_iff [OF nz(2), of block_y]
  show ?thesis
  proof (cases "positioned family bytes_per_element")
    case False
    then have "TileGetBlockXor l block_x block_y block_z =
      Done (if ?k 0 < tb_block_size l \<and> ?k 0 mod bytes_per_element = 0 then Some (?k 0) else None)"
      using F(1,2,8) unfolding TileGetBlockXor_def Let_def positioned_def by simp
    then show ?thesis using fin [OF zero] False unfolding element_places_def by simp
  next
    case True
    then consider "family = RenderTarget64KB" | "family = Depth64KB" "bytes_per_element = 8" by (auto simp: positioned_def)
    then show ?thesis
    proof cases
      case 1
      obtain v where v: "v \<in> element_places 65536 bytes_per_element"
        "Gen5RenderTargetOffsetInBlock bytes_per_element (block_x * tb_block_width l) (block_y * tb_block_height l) = Done v"
        using render_target_aligned [OF F(3)] by blast
      have "bytes_per_element \<in> {1, 2, 4, 8, 16}" using F(3) by (simp add: element_sizes_def)
      then have e: "TileGetBlockXor l block_x block_y block_z = (if ?wraps then Done None
          else Done (if ?k v < tb_block_size l \<and> ?k v mod bytes_per_element = 0 then Some (?k v) else None))"
        using v(2) F(1,2,8) 1 unfolding TileGetBlockXor_def Let_def w by simp
      have "v \<in> element_places (tb_block_size l) bytes_per_element" using v(1) s64 1 by simp
      from fin [OF this] show ?thesis using True unfolding e element_places_def by simp
    next
      case 2
      let ?v = "Depth64KB64XOffsetBytes (block_x * tb_block_width l) XOR Depth64KB64YOffsetBytes (block_y * tb_block_height l)"
      have e: "TileGetBlockXor l block_x block_y block_z = (if ?wraps then Done None
          else Done (if ?k ?v < tb_block_size l \<and> ?k ?v mod bytes_per_element = 0 then Some (?k ?v) else None))"
        using F(1,2,8) 2 unfolding TileGetBlockXor_def Let_def w by simp
      have "?v \<in> element_places (tb_block_size l) bytes_per_element" using depth_aligned s64 2 by simp
      from fin [OF this] show ?thesis using True unfolding e element_places_def by simp
    qed
  qed
qed

lemma tile_block_xor_permutes_witness:
  "\<exists>l k. TileGetBlockLayout RenderTarget64KB 4 = Some l \<and> TileGetBlockXor l 1 0 3 = Done (Some k) \<and> TileGetBlockXor l 0x2000000 0 0 = Done None \<and>
    bij_betw (\<lambda>offset. offset XOR k) {offset. offset < 65536 \<and> offset mod 4 = (0 :: u32)} {offset. offset < 65536 \<and> offset mod 4 = 0}"
proof -
  have l: "TileGetBlockLayout RenderTarget64KB 4 = Some \<lparr>tb_family = RenderTarget64KB, tb_bytes_per_element = 4, tb_block_size = 65536,
    tb_block_width = 128, tb_block_height = 128, tb_block_depth = 1\<rparr>" by code_simp
  from tile_block_xor_permutes [OF l, of 1 0 3] tile_block_xor_permutes [OF l, of "0x2000000" 0 0] show ?thesis unfolding l
    by (auto simp: positioned_def)
qed

end
