(* ===== verification/TileSurface.thy ===== *)
theory TileSurface
  imports TileBlock
begin

unbundle bit_operations_syntax

text \<open>
  Sizes of surfaces and the places of their mip levels, the second part of \<open>src/graphics/guest_gpu/tile.cpp\<close>, and the table of formats of
  \<open>src/graphics/guest_gpu/gpu_format.cpp\<close>. Formats are the numbers that \<open>BufferFormat\<close> gives them. An array that is filled for each level is a list.
  Arithmetic is in 32 bits unless the source widens it.
\<close>

section \<open>Formats\<close>

text \<open>The number of the format, the bytes per element, per compressed block and per element of a render target, whether it can be sampled, and
  whether it is an unsigned integer format.\<close>

type_synonym format_info = "u32 \<times> u32 \<times> u32 \<times> u32 \<times> bool \<times> bool"

definition kFormatInfo :: "format_info list" where
  "kFormatInfo =
    [(1, 1, 0, 1, True, False), (2, 0, 0, 1, False, False), (5, 1, 0, 1, True, True), (7, 2, 0, 2, True, False), 
     (8, 2, 0, 2, True, False), (11, 2, 0, 2, True, True), (12, 2, 0, 2, False, False), (13, 2, 0, 2, True, False), 
     (14, 2, 0, 2, True, False), (15, 2, 0, 2, True, False), (18, 2, 0, 2, True, True), (19, 2, 0, 2, False, False), 
     (20, 4, 0, 4, True, True), (21, 4, 0, 4, False, False), (22, 4, 0, 4, True, False), (23, 4, 0, 4, True, False), 
     (24, 4, 0, 4, True, False), (27, 4, 0, 4, True, True), (28, 4, 0, 4, False, False), (29, 4, 0, 4, True, False), 
     (36, 4, 0, 4, True, False), (50, 4, 0, 4, True, False), (54, 4, 0, 4, True, True), (56, 4, 0, 4, True, False), 
     (57, 4, 0, 4, True, False), (60, 4, 0, 4, True, True), (61, 4, 0, 4, False, False), (62, 8, 0, 8, True, True), 
     (63, 8, 0, 8, False, False), (64, 8, 0, 8, True, False), (65, 8, 0, 8, True, False), (66, 8, 0, 8, True, False), 
     (69, 8, 0, 8, True, True), (70, 8, 0, 8, False, False), (71, 8, 0, 8, True, False), (72, 12, 0, 12, True, True), 
     (73, 12, 0, 12, False, False), (74, 12, 0, 12, True, False), (75, 16, 0, 16, True, True), (76, 16, 0, 16, False, False), 
     (77, 16, 0, 16, True, False), (128, 1, 0, 0, True, False), (129, 2, 0, 0, True, False), (130, 4, 0, 4, True, False), 
     (132, 4, 0, 0, True, False), (133, 2, 0, 2, True, False), (134, 2, 0, 2, True, False), (136, 2, 0, 2, True, False), 
     (161, 1, 0, 1, True, False), (169, 0, 8, 0, True, False), (170, 0, 8, 0, True, False), (171, 0, 16, 0, True, False), 
     (172, 0, 16, 0, True, False), (173, 0, 16, 0, True, False), (174, 0, 16, 0, True, False), (175, 0, 8, 0, True, False), 
     (176, 0, 8, 0, True, False), (177, 0, 16, 0, True, False), (178, 0, 16, 0, True, False), (179, 0, 16, 0, True, False), 
     (180, 0, 16, 0, True, False), (181, 0, 16, 0, True, False), (182, 0, 16, 0, True, False)]"

definition FindFormatInfo :: "u32 \<Rightarrow> format_info option" where
  "FindFormatInfo format = find (\<lambda>info. fst info = format) kFormatInfo"

definition NumBytesPerElement :: "u32 \<Rightarrow> u32" where
  "NumBytesPerElement format = (case FindFormatInfo format of Some (_, bytes, _) \<Rightarrow> bytes | None \<Rightarrow> 0)"

definition BlockCompressedBytesPerBlock :: "u32 \<Rightarrow> u32" where
  "BlockCompressedBytesPerBlock format = (case FindFormatInfo format of Some (_, _, bc, _) \<Rightarrow> bc | None \<Rightarrow> 0)"

definition RenderTargetBytesPerElement :: "u32 \<Rightarrow> u32" where
  "RenderTargetBytesPerElement format = (case FindFormatInfo format of Some (_, _, _, rt, _) \<Rightarrow> rt | None \<Rightarrow> 0)"

definition IsSupportedTextureFormat :: "u32 \<Rightarrow> bool" where
  "IsSupportedTextureFormat format = (case FindFormatInfo format of Some (_, _, _, _, supported, _) \<Rightarrow> supported | None \<Rightarrow> False)"

definition IsUintTextureFormat :: "u32 \<Rightarrow> bool" where
  "IsUintTextureFormat format = (case FindFormatInfo format of Some (_, _, _, _, _, unsigned_integer) \<Rightarrow> unsigned_integer | None \<Rightarrow> False)"

definition IsFmaskTextureFormat :: "u32 \<Rightarrow> bool" where
  "IsFmaskTextureFormat format \<longleftrightarrow> format = 161"

section \<open>Blocks of a texture\<close>

definition tile_AlignUp :: "u32 \<Rightarrow> u32 \<Rightarrow> u32" where
  "tile_AlignUp v alignment = (v + alignment - 1) AND NOT (alignment - 1)"

definition ShiftCeil :: "u32 \<Rightarrow> nat \<Rightarrow> u32" where
  "ShiftCeil v shift = ucast (drop_bit shift (ucast v + push_bit shift 1 - 1 :: u64))"

definition CalcLinearBlockWidth :: "u32 \<Rightarrow> u32" where
  "CalcLinearBlockWidth bytes_per_element = max 1 (256 div bytes_per_element)"

text \<open>Bytes per element, texels per element in width and height, and the logarithms of the size of a block.\<close>

type_synonym element_layout = "u32 \<times> u32 \<times> u32 \<times> nat \<times> nat"

definition Gen5Standard4KBLayout :: "u32 \<Rightarrow> element_layout option" where
  "Gen5Standard4KBLayout format =
    (let bytes = NumBytesPerElement format; bc = BlockCompressedBytesPerBlock format
     in if bytes = 1 then Some (1, 1, 1, 6, 6)
        else if bytes = 2 then Some (2, 1, 1, 6, 5)
        else if bytes = 4 then Some (4, 1, 1, 5, 5)
        else if bytes = 8 then Some (8, 1, 1, 5, 4)
        else if bytes = 16 then Some (16, 1, 1, 4, 4)
        else if bc = 8 then Some (8, 4, 4, 5, 4)
        else if bc = 16 then Some (16, 4, 4, 4, 4)
        else None)"

definition Gen5Standard256BLayout :: "u32 \<Rightarrow> element_layout option" where
  "Gen5Standard256BLayout format =
    (let bytes = NumBytesPerElement format; bc = BlockCompressedBytesPerBlock format
     in if bytes = 1 then Some (1, 1, 1, 4, 4)
        else if bytes = 2 then Some (2, 1, 1, 4, 3)
        else if bytes = 4 then Some (4, 1, 1, 3, 3)
        else if bytes = 8 then Some (8, 1, 1, 3, 2)
        else if bytes = 16 then Some (16, 1, 1, 2, 2)
        else if bc = 8 then Some (8, 4, 4, 3, 2)
        else if bc = 16 then Some (16, 4, 4, 2, 2)
        else None)"

definition Gen5Standard64KBLayout :: "u32 \<Rightarrow> element_layout option" where
  "Gen5Standard64KBLayout format =
    (let bytes = NumBytesPerElement format; bc = BlockCompressedBytesPerBlock format
     in if bytes = 1 then Some (1, 1, 1, 8, 8)
        else if bytes = 2 then Some (2, 1, 1, 8, 7)
        else if bytes = 4 then Some (4, 1, 1, 7, 7)
        else if bytes = 8 then Some (8, 1, 1, 7, 6)
        else if bytes = 16 then Some (16, 1, 1, 6, 6)
        else if bc = 8 then Some (8, 4, 4, 7, 6)
        else if bc = 16 then Some (16, 4, 4, 6, 6)
        else None)"

definition TileIsStandard256BTextureSupported :: "u32 \<Rightarrow> bool" where
  "TileIsStandard256BTextureSupported format \<longleftrightarrow> Gen5Standard256BLayout format \<noteq> None"

definition TileIsStandard4KBTextureSupported :: "u32 \<Rightarrow> bool" where
  "TileIsStandard4KBTextureSupported format \<longleftrightarrow> Gen5Standard4KBLayout format \<noteq> None"

definition TileIsStandard64KBTextureSupported :: "u32 \<Rightarrow> bool" where
  "TileIsStandard64KBTextureSupported format \<longleftrightarrow> Gen5Standard64KBLayout format \<noteq> None"

definition LOG2_BLOCK :: "(nat \<times> nat) list list" where
  "LOG2_BLOCK =
    [[(8, 8), (8, 7), (7, 7), (7, 6), (6, 6)],
     [(7, 8), (7, 7), (6, 7), (6, 6), (5, 6)],
     [(7, 7), (7, 6), (6, 6), (6, 5), (5, 5)],
     [(6, 7), (6, 6), (5, 6), (5, 5), (4, 5)]]"

definition Gen5Msaa64KBBlockSizeFromElementBytes :: "u32 \<Rightarrow> u32 \<Rightarrow> (u32 \<times> u32) option" where
  "Gen5Msaa64KBBlockSizeFromElementBytes bytes_per_element num_fragments_log2 =
    (if num_fragments_log2 = 0 then Gen5Thin64KBBlockSizeFromElementBytes bytes_per_element
     else if 3 < num_fragments_log2 \<or> \<not> has_single_bit bytes_per_element \<or> 16 < bytes_per_element then None
     else case LOG2_BLOCK ! unat num_fragments_log2 ! countr_zero_u32 bytes_per_element of (w, h) \<Rightarrow> Some (push_bit w 1, push_bit h 1))"

record TextureBlockLayout =
  bl_bytes :: u32
  bl_texel_width :: u32
  bl_texel_height :: u32
  bl_block_width :: u32
  bl_block_height :: u32
  bl_block_size :: u32

definition standard_block :: "element_layout \<Rightarrow> u32 \<Rightarrow> TextureBlockLayout" where
  "standard_block e sz =
    (case e of (bytes, tw, th, width_log2, height_log2) \<Rightarrow>
       \<lparr>bl_bytes = bytes, bl_texel_width = tw, bl_texel_height = th, bl_block_width = push_bit width_log2 1, bl_block_height = push_bit height_log2 1,
        bl_block_size = sz\<rparr>)"

definition GetTextureBlockLayout :: "u32 \<Rightarrow> u32 \<Rightarrow> TextureBlockLayout option" where
  "GetTextureBlockLayout format tile =
    (if tile = 1 then map_option (\<lambda>e. standard_block e 256) (Gen5Standard256BLayout format)
     else if tile = 5 then map_option (\<lambda>e. standard_block e 4096) (Gen5Standard4KBLayout format)
     else if tile = 9 \<or> tile = 17 then map_option (\<lambda>e. standard_block e 65536) (Gen5Standard64KBLayout format)
     else if tile = 24 \<or> tile = 27
     then let bytes = NumBytesPerElement format
          in if bytes = 0 \<or> (tile = 24 \<and> 8 < bytes) then None
             else map_option (\<lambda>(w, h). \<lparr>bl_bytes = bytes, bl_texel_width = 1, bl_texel_height = 1, bl_block_width = w, bl_block_height = h,
                    bl_block_size = 65536\<rparr>) (Gen5Thin64KBBlockSizeFromElementBytes bytes)
     else None)"

section \<open>Mip levels\<close>

record TileSizeAlign =
  sz_size :: u32
  sz_align :: u32

record TileSizeOffset =
  lv_size :: u32
  lv_offset :: u32
  lv_src_size :: u32
  lv_src_offset :: u32
  lv_x :: u32
  lv_y :: u32

type_synonym TilePaddedSize = "u32 \<times> u32"

text \<open>What \<open>TileGetTextureSize\<close> writes: the total size and, for each level, its place and its padded size.\<close>

record tile_layout =
  tl_total :: TileSizeAlign
  tl_levels :: "TileSizeOffset list"
  tl_padded :: "TilePaddedSize list"

text \<open>The loops from the last level to the first: the smallest level comes first. The result is the offsets of the levels and the end.\<close>

fun chain :: "'a :: plus \<Rightarrow> 'a list \<Rightarrow> 'a list \<times> 'a" where
  "chain init [] = ([], init)"
| "chain init (sz # szs) = (case chain init szs of (offsets, offset) \<Rightarrow> (offset # offsets, offset + sz))"

definition CalcLinearAlignedLevelPitch :: "u32 \<Rightarrow> u32 \<Rightarrow> nat \<Rightarrow> u32 \<Rightarrow> (u32 \<times> u32 \<times> u32) outcome" where
  "CalcLinearAlignedLevelPitch base_width base_height level bytes_per_element =
    (let level_width = ShiftCeil base_width level; level_height = ShiftCeil base_height level;
         padded_width = tile_AlignUp (max level_width 1) (CalcLinearBlockWidth bytes_per_element);
         sz = ucast padded_width * ucast (max level_height 1) * ucast bytes_per_element :: u64
     in if 0xffffffff < sz then Exit else Done (padded_width, max level_height 1, ucast sz))"

definition SetLinearMipChainLayout :: "(u32 \<times> u32 \<times> u32) list \<Rightarrow> tile_layout" where
  "SetLinearMipChainLayout mips =
    (case chain 0 (map (\<lambda>(_, _, sz). sz) mips) of (offsets, offset) \<Rightarrow>
       \<lparr>tl_total = \<lparr>sz_size = tile_AlignUp offset 256, sz_align = 256\<rparr>,
        tl_levels = map2 (\<lambda>(_, _, sz) off. \<lparr>lv_size = sz, lv_offset = off, lv_src_size = 0, lv_src_offset = 0, lv_x = 0, lv_y = 0\<rparr>) mips offsets,
        tl_padded = map (\<lambda>(pitch, height, _). (pitch, height)) mips\<rparr>)"

text \<open>The padded size of a level of a tiled texture, in elements.\<close>

definition elements :: "u32 \<Rightarrow> u32 \<Rightarrow> u32" where
  "elements texels per_element = (texels + per_element - 1) div per_element"

definition padded_level :: "TextureBlockLayout \<Rightarrow> u32 \<Rightarrow> u32 \<Rightarrow> nat \<Rightarrow> u32 \<times> u32" where
  "padded_level block width0 height0 level =
    (tile_AlignUp (max (ShiftCeil width0 level) 1) (bl_block_width block), tile_AlignUp (max (ShiftCeil height0 level) 1) (bl_block_height block))"

definition level_bytes :: "TextureBlockLayout \<Rightarrow> u32 \<times> u32 \<Rightarrow> u32" where
  "level_bytes block padded = (case padded of (w, h) \<Rightarrow> w * h * bl_bytes block)"

definition texels_of :: "TextureBlockLayout \<Rightarrow> u32 \<times> u32 \<Rightarrow> TilePaddedSize" where
  "texels_of block padded = (case padded of (w, h) \<Rightarrow> (w * bl_texel_width block, h * bl_texel_height block))"

definition SetMicroMipLayout :: "TextureBlockLayout \<Rightarrow> u32 \<Rightarrow> u32 \<Rightarrow> nat \<Rightarrow> tile_layout" where
  "SetMicroMipLayout block width height levels =
    (let padded = map (padded_level block (elements width (bl_texel_width block)) (elements height (bl_texel_height block))) [0..<levels]
     in case chain 0 (map (level_bytes block) padded) of (offsets, offset) \<Rightarrow>
          \<lparr>tl_total = \<lparr>sz_size = offset, sz_align = bl_block_size block\<rparr>,
           tl_levels = map2 (\<lambda>p off. \<lparr>lv_size = level_bytes block p, lv_offset = off, lv_src_size = 0, lv_src_offset = 0, lv_x = 0, lv_y = 0\<rparr>)
             padded offsets,
           tl_padded = map (texels_of block) padded\<rparr>)"

definition GEN5_MIP_TAIL_LOCATIONS_THIN_4KB :: "(u32 \<times> u32) list list" where
  "GEN5_MIP_TAIL_LOCATIONS_THIN_4KB =
    [[(32, 0), (16, 32), (0, 48), (0, 32), (16, 16), (16, 0), (0, 16), (0, 0)],
     [(32, 0), (16, 16), (0, 24), (0, 16), (16, 8), (16, 0), (0, 8), (0, 0)],
     [(16, 0), (8, 16), (0, 24), (0, 16), (8, 8), (8, 0), (0, 8), (0, 0)],
     [(16, 0), (8, 8), (0, 12), (0, 8), (8, 4), (8, 0), (0, 4), (0, 0)],
     [(8, 0), (4, 8), (0, 12), (0, 8), (4, 4), (4, 0), (0, 4), (0, 0)]]"

definition GEN5_MIP_TAIL_LOCATIONS_THIN_64KB :: "(u32 \<times> u32) list list" where
  "GEN5_MIP_TAIL_LOCATIONS_THIN_64KB =
    [[(128, 0), (0, 128), (64, 0), (0, 64), (32, 0), (16, 32), (0, 48), (0, 32), (16, 16), (16, 0), (0, 16), (0, 0)],
     [(128, 0), (0, 64), (64, 0), (0, 32), (32, 0), (16, 16), (0, 24), (0, 16), (16, 8), (16, 0), (0, 8), (0, 0)],
     [(64, 0), (0, 64), (32, 0), (0, 32), (16, 0), (8, 16), (0, 24), (0, 16), (8, 8), (8, 0), (0, 8), (0, 0)],
     [(64, 0), (0, 32), (32, 0), (0, 16), (16, 0), (8, 8), (0, 12), (0, 8), (8, 4), (8, 0), (0, 4), (0, 0)],
     [(32, 0), (0, 32), (16, 0), (0, 16), (8, 0), (4, 8), (0, 12), (0, 8), (4, 4), (4, 0), (0, 4), (0, 0)]]"

definition GEN5_MIP_TAIL_LOCATIONS_THICK_64KB :: "(u32 \<times> u32) list list" where
  "GEN5_MIP_TAIL_LOCATIONS_THICK_64KB =
    [[(32, 0), (0, 16), (16, 0), (8, 8), (0, 12), (0, 8), (8, 4), (8, 0), (0, 4), (0, 0)],
     [(16, 0), (0, 16), (8, 0), (4, 8), (0, 12), (0, 8), (4, 4), (4, 0), (0, 4), (0, 0)],
     [(16, 0), (0, 16), (8, 0), (4, 8), (0, 12), (0, 8), (4, 4), (4, 0), (0, 4), (0, 0)],
     [(16, 0), (0, 8), (8, 0), (4, 4), (0, 6), (0, 4), (4, 2), (4, 0), (0, 2), (0, 0)],
     [(8, 0), (0, 8), (4, 0), (2, 4), (0, 6), (0, 4), (2, 2), (2, 0), (0, 2), (0, 0)]]"

definition GEN5_MIP_TAIL_LOCATIONS_THICK_4KB :: "(u32 \<times> u32) list list" where
  "GEN5_MIP_TAIL_LOCATIONS_THICK_4KB =
    [[(0, 8), (8, 4), (8, 0), (0, 4), (0, 0)],
     [(0, 8), (4, 4), (4, 0), (0, 4), (0, 0)],
     [(0, 8), (4, 4), (4, 0), (0, 4), (0, 0)],
     [(0, 4), (4, 2), (4, 0), (0, 2), (0, 0)],
     [(0, 4), (2, 2), (2, 0), (0, 2), (0, 0)]]"

text \<open>The first level of the mip tail, or the number of levels if there is no tail.\<close>

definition tail_start :: "u32 \<Rightarrow> u32 \<Rightarrow> u32 \<Rightarrow> u32 \<Rightarrow> nat \<Rightarrow> nat \<Rightarrow> nat" where
  "tail_start width0 height0 tail_width tail_height max_tail levels =
    (if 1 < levels
     then case find (\<lambda>level. ShiftCeil width0 level \<le> tail_width \<and> ShiftCeil height0 level \<le> tail_height \<and> levels - level \<le> max_tail) [0..<levels] of
            Some level \<Rightarrow> level
          | None \<Rightarrow> levels
     else levels)"

definition tail_limits :: "TextureBlockLayout \<Rightarrow> u32 \<Rightarrow> u32 \<times> u32" where
  "tail_limits block tile =
    (if tile = 24 \<and> bl_bytes block < 4 then (64, 128) else (drop_bit 1 (bl_block_width block), bl_block_height block))"

definition max_tail_levels :: "TextureBlockLayout \<Rightarrow> nat" where
  "max_tail_levels block = (if bl_block_size block = 4096 then 8 else 12)"

definition tail_locations :: "TextureBlockLayout \<Rightarrow> (u32 \<times> u32) list" where
  "tail_locations block =
    (if bl_block_size block = 4096 then GEN5_MIP_TAIL_LOCATIONS_THIN_4KB else GEN5_MIP_TAIL_LOCATIONS_THIN_64KB) ! countr_zero_u32 (bl_bytes block)"

definition mip_elements :: "u32 \<Rightarrow> u32 \<Rightarrow> nat \<Rightarrow> u32" where
  "mip_elements texels per_element level = max (elements (drop_bit level texels) per_element) 1"

fun tail_levels :: "TextureBlockLayout \<Rightarrow> u32 \<Rightarrow> u32 \<Rightarrow> u32 \<Rightarrow> (nat \<times> u32 \<times> u32) list \<Rightarrow> TileSizeOffset list" where
  "tail_levels block width height linear_offset [] = []"
| "tail_levels block width height linear_offset ((level, x, y) # rest) =
    (let sz = mip_elements width (bl_texel_width block) level * mip_elements height (bl_texel_height block) level * bl_bytes block
     in \<lparr>lv_size = sz, lv_offset = linear_offset, lv_src_size = bl_block_size block, lv_src_offset = 0, lv_x = x, lv_y = y\<rparr>
          # tail_levels block width height (linear_offset + sz) rest)"

definition SetMacroMipLayout :: "TextureBlockLayout \<Rightarrow> u32 \<Rightarrow> u32 \<Rightarrow> u32 \<Rightarrow> nat \<Rightarrow> tile_layout" where
  "SetMacroMipLayout block tile width height levels =
    (let width0 = elements width (bl_texel_width block); height0 = elements height (bl_texel_height block);
         first_tail = (case tail_limits block tile of (tw, th) \<Rightarrow> tail_start width0 height0 tw th (max_tail_levels block) levels);
         padded = map (padded_level block width0 height0) [0..<first_tail]
     in case chain (if first_tail < levels then bl_block_size block else 0) (map (level_bytes block) padded) of (offsets, offset) \<Rightarrow>
          \<lparr>tl_total = \<lparr>sz_size = offset, sz_align = bl_block_size block\<rparr>,
           tl_levels = map2 (\<lambda>p off. \<lparr>lv_size = level_bytes block p, lv_offset = off, lv_src_size = level_bytes block p, lv_src_offset = off,
               lv_x = 0, lv_y = 0\<rparr>) padded offsets
             @ tail_levels block width height 0 (zip [first_tail..<levels] (tail_locations block)),
           tl_padded = map (texels_of block) padded
             @ replicate (levels - first_tail) (texels_of block (bl_block_width block, bl_block_height block))\<rparr>)"

section \<open>Volumes\<close>

record TileVolumeLayout =
  vl_family :: TileBlockFamily
  vl_bytes_per_element :: u32
  vl_texel_width :: u32
  vl_texel_height :: u32
  vl_first_tail_level :: nat
  vl_block_depth :: u32
  vl_block_slice_size :: u64
  vl_total_size :: u64
  vl_level_offsets :: "u64 list"
  vl_level_sizes :: "u64 list"
  vl_tail :: "(u32 \<times> u32) list"
  vl_level_dims :: "(u32 \<times> u32) list"

definition volume_family :: "u32 \<Rightarrow> TileBlockFamily option" where
  "volume_family tile =
    (if tile = 5 then Some Standard4KB3D
     else if tile = 9 then Some Standard64KB3D
     else if tile = 17 then Some Prt64KB3D
     else if tile = 24 then Some Depth64KB
     else if tile = 27 then Some RenderTarget64KB
     else None)"

definition thick64_families :: "TileBlockFamily set" where
  "thick64_families = {Standard64KB3D, Prt64KB3D}"

definition volume_tail_limits :: "TileBlockLayout \<Rightarrow> u32 \<times> u32 \<times> nat" where
  "volume_tail_limits block =
    (let thick4 = tb_family block = Standard4KB3D;
         max_tail = if thick4 then 5 else if tb_family block \<in> thick64_families then 10 else 12;
         tw = if thick4 then tb_block_width block else drop_bit 1 (tb_block_width block);
         th = if thick4 then drop_bit 1 (tb_block_height block) else tb_block_height block
     in if tb_family block = Depth64KB \<and> tb_bytes_per_element block < 4 then (64, 128, max_tail) else (tw, th, max_tail))"

definition volume_tail_start :: "TileBlockLayout \<Rightarrow> u32 \<Rightarrow> u32 \<Rightarrow> nat \<Rightarrow> nat" where
  "volume_tail_start block width0 height0 levels =
    (case volume_tail_limits block of (tail_width, tail_height, max_tail) \<Rightarrow>
       case find (\<lambda>level. 1 < levels \<and> max (ShiftCeil width0 level) 1 \<le> tail_width \<and> max (ShiftCeil height0 level) 1 \<le> tail_height \<and>
           levels - level \<le> max_tail) [0..<levels] of
         Some level \<Rightarrow> level
       | None \<Rightarrow> levels)"

definition volume_level :: "TileBlockLayout \<Rightarrow> u32 \<Rightarrow> u32 \<Rightarrow> nat \<Rightarrow> u32 \<times> u32" where
  "volume_level block width0 height0 level =
    (tile_AlignUp (max (ShiftCeil width0 level) 1) (tb_block_width block), tile_AlignUp (max (ShiftCeil height0 level) 1) (tb_block_height block))"

definition volume_level_size :: "TileBlockLayout \<Rightarrow> u32 \<times> u32 \<Rightarrow> u64" where
  "volume_level_size block dims =
    (case dims of (w, h) \<Rightarrow> ucast (tb_block_depth block) * ucast w * ucast h * ucast (tb_bytes_per_element block))"

definition volume_tail_locations :: "TileBlockLayout \<Rightarrow> (u32 \<times> u32) list" where
  "volume_tail_locations block =
    (if tb_family block = Standard4KB3D then GEN5_MIP_TAIL_LOCATIONS_THICK_4KB
     else if tb_family block \<in> thick64_families then GEN5_MIP_TAIL_LOCATIONS_THICK_64KB
     else GEN5_MIP_TAIL_LOCATIONS_THIN_64KB) ! countr_zero_u32 (tb_bytes_per_element block)"

definition volume_layout :: "TextureBlockLayout \<Rightarrow> TileBlockLayout \<Rightarrow> u32 \<Rightarrow> u32 \<Rightarrow> u32 \<Rightarrow> nat \<Rightarrow> TileVolumeLayout option" where
  "volume_layout element block width height depth levels =
    (let width0 = elements width (bl_texel_width element); height0 = elements height (bl_texel_height element);
         first_tail = volume_tail_start block width0 height0 levels;
         dims = map (volume_level block width0 height0) [0..<first_tail];
         sizes = map (volume_level_size block) dims;
         tail_size = (if first_tail < levels then ucast (tb_block_size block) else 0);
         slice = fold (\<lambda>sz n. n + sz) sizes 0 + tail_size
     in case chain tail_size sizes of (offsets, offset) \<Rightarrow>
          if offset \<noteq> slice then None
          else Some \<lparr>vl_family = tb_family block, vl_bytes_per_element = bl_bytes element, vl_texel_width = bl_texel_width element,
            vl_texel_height = bl_texel_height element, vl_first_tail_level = first_tail, vl_block_depth = tb_block_depth block,
            vl_block_slice_size = slice, vl_total_size = slice * ucast (ShiftCeil depth (countr_zero_u32 (tb_block_depth block))),
            vl_level_offsets = offsets @ replicate (levels - first_tail) 0,
            vl_level_sizes = sizes @ replicate (levels - first_tail) (ucast (tb_block_size block)),
            vl_tail = replicate first_tail (0, 0) @ take (levels - first_tail) (volume_tail_locations block),
            vl_level_dims = dims @ replicate (levels - first_tail) (tb_block_width block, tb_block_height block)\<rparr>)"

definition TileGetTextureVolumeLayout :: "u32 \<Rightarrow> u32 \<Rightarrow> u32 \<Rightarrow> u32 \<Rightarrow> nat \<Rightarrow> u32 \<Rightarrow> TileVolumeLayout option" where
  "TileGetTextureVolumeLayout format width height depth levels tile =
    (if width = 0 \<or> height = 0 \<or> depth = 0 \<or> levels = 0 \<or> 16 < levels then None
     else case GetTextureBlockLayout format tile of
            None \<Rightarrow> None
          | Some element \<Rightarrow>
              (case volume_family tile of
                 None \<Rightarrow> None
               | Some family \<Rightarrow>
                   (case TileGetBlockLayout family (bl_bytes element) of
                      None \<Rightarrow> None
                    | Some block \<Rightarrow> volume_layout element block width height depth levels)))"

section \<open>Render targets and depth surfaces\<close>

definition TileGetHtileSize :: "u32 \<Rightarrow> u32 \<Rightarrow> TileSizeAlign option" where
  "TileGetHtileSize width height =
    (if width = 0 \<or> 16384 < width \<or> height = 0 \<or> 16384 < height then None
     else
       let sz = ucast (tile_AlignUp width 1024 div 1024) * ucast (tile_AlignUp height 512 div 512) * 32768 :: u64
       in if sz = 0 \<or> 0xffffffff < sz then None else Some \<lparr>sz_size = ucast sz, sz_align = 32768\<rparr>)"

definition no_size :: TileSizeAlign where
  "no_size = \<lparr>sz_size = 0, sz_align = 0\<rparr>"

text \<open>The sizes of stencil, HTile and depth; \<open>None\<close> where the function sets all to zero and returns false.\<close>

definition TileGetDepthSize ::
  "u32 \<Rightarrow> u32 \<Rightarrow> u32 \<Rightarrow> u32 \<Rightarrow> u32 \<Rightarrow> bool \<Rightarrow> u32 \<Rightarrow> (TileSizeAlign \<times> TileSizeAlign \<times> TileSizeAlign) option outcome" where
  "TileGetDepthSize width height pitch z_format stencil_format htile num_fragments_log2 =
    (if pitch \<noteq> 0 then Exit
     else Done (
       if 0 < width \<and> width \<le> 16384 \<and> 0 < height \<and> height \<le> 16384 \<and> (z_format = 1 \<or> z_format = 3) \<and> stencil_format \<le> 1 \<and>
         num_fragments_log2 \<le> 3
       then
         let depth_bytes = if z_format = 1 then 2 else 4;
             depth_block = Gen5Msaa64KBBlockSizeFromElementBytes depth_bytes num_fragments_log2;
             stencil_block = (if stencil_format = 0 then Some (0, 0) else Gen5Msaa64KBBlockSizeFromElementBytes 1 num_fragments_log2);
             fragments = push_bit (unat num_fragments_log2) 1 :: u32;
             (depth_total, stencil_total) = (case (depth_block, stencil_block) of
                 (Some (dw, dh), Some (sw, sh)) \<Rightarrow>
                   (ucast (tile_AlignUp width dw) * ucast (tile_AlignUp height dh) * ucast depth_bytes * ucast fragments :: u64,
                    if stencil_format = 1 then ucast (tile_AlignUp width sw) * ucast (tile_AlignUp height sh) * ucast fragments else 0 :: u64)
               | _ \<Rightarrow> (0, 0));
             htile_size = (if htile then TileGetHtileSize width height else Some no_size)
         in case htile_size of
              Some ht \<Rightarrow>
                if depth_total \<le> 0xffffffff \<and> stencil_total \<le> 0xffffffff
                then Some (if stencil_format = 1 then \<lparr>sz_size = ucast stencil_total, sz_align = 65536\<rparr> else no_size, ht,
                  \<lparr>sz_size = ucast depth_total, sz_align = 65536\<rparr>)
                else None
            | None \<Rightarrow> None
       else None))"

definition TileGetRenderTargetPitch :: "u32 \<Rightarrow> u32 \<Rightarrow> u32 \<Rightarrow> u32" where
  "TileGetRenderTargetPitch width bytes_per_element num_fragments_log2 =
    (if width = 0 then 0
     else case Gen5Msaa64KBBlockSizeFromElementBytes bytes_per_element num_fragments_log2 of
            None \<Rightarrow> 0
          | Some (block_width, _) \<Rightarrow>
              let pitch = (ucast width + ucast block_width - 1) AND NOT (ucast (block_width - 1)) :: u64
              in if pitch \<le> 0xffffffff then ucast pitch else 0)"

definition TileIsRenderTargetPitchValid :: "u32 \<Rightarrow> u32 \<Rightarrow> u32 \<Rightarrow> u32 \<Rightarrow> bool" where
  "TileIsRenderTargetPitchValid width pitch bytes_per_element num_fragments_log2 \<longleftrightarrow>
    width \<noteq> 0 \<and> width \<le> pitch \<and> pitch \<le> 16384 \<and>
    (case Gen5Msaa64KBBlockSizeFromElementBytes bytes_per_element num_fragments_log2 of
       None \<Rightarrow> False
     | Some (block_width, _) \<Rightarrow> pitch AND (block_width - 1) = 0)"

definition TileResolveRenderTargetPitch :: "u32 \<Rightarrow> u32 \<Rightarrow> u32 \<Rightarrow> u32 \<Rightarrow> u32" where
  "TileResolveRenderTargetPitch width requested_pitch bytes_per_element num_fragments_log2 =
    (let pitch = if requested_pitch \<noteq> 0 then requested_pitch else TileGetRenderTargetPitch width bytes_per_element num_fragments_log2
     in if TileIsRenderTargetPitchValid width pitch bytes_per_element num_fragments_log2 then pitch else 0)"

definition TileGetDepthPitch :: "u32 \<Rightarrow> u32 \<Rightarrow> u32 \<Rightarrow> u32" where
  "TileGetDepthPitch width bytes_per_element num_fragments_log2 = TileGetRenderTargetPitch width bytes_per_element num_fragments_log2"

definition TileGetRenderTargetSize :: "u32 \<Rightarrow> u32 \<Rightarrow> u32 \<Rightarrow> u32 \<Rightarrow> u32 \<Rightarrow> TileSizeAlign option" where
  "TileGetRenderTargetSize width height pitch bytes_per_element num_fragments_log2 =
    (case Gen5Msaa64KBBlockSizeFromElementBytes bytes_per_element num_fragments_log2 of
       None \<Rightarrow> None
     | Some (_, block_height) \<Rightarrow>
         if height = 0 \<or> \<not> TileIsRenderTargetPitchValid width pitch bytes_per_element num_fragments_log2 then None
         else
           let padded_height = (ucast height + ucast block_height - 1) AND NOT (ucast (block_height - 1)) :: u64;
               sz = ucast pitch * padded_height * ucast bytes_per_element * push_bit (unat num_fragments_log2) 1
           in if sz = 0 \<or> 0xffffffff < sz then None else Some \<lparr>sz_size = ucast sz, sz_align = 65536\<rparr>)"

section \<open>Textures\<close>

text \<open>
  What the calls write. \<open>TileGetTextureSize\<close> ends the process for a format without a layout if it is to compute a total that is still zero, and
  else writes nothing; \<open>total_in\<close> is the total that it is given, if any.
\<close>

definition mip_outcomes :: "'a outcome list \<Rightarrow> 'a list outcome" where
  "mip_outcomes rs = foldr (\<lambda>r acc. obind r (\<lambda>x. obind acc (\<lambda>xs. Done (x # xs)))) rs (Done [])"

definition linear_layout :: "u32 \<Rightarrow> u32 \<Rightarrow> u32 \<Rightarrow> nat \<Rightarrow> tile_layout outcome" where
  "linear_layout width height bytes_per_element levels =
    obind (mip_outcomes (map (\<lambda>l. CalcLinearAlignedLevelPitch width height l bytes_per_element) [0..<levels])) (Done \<circ> SetLinearMipChainLayout)"

definition linear_block_layout :: "u32 \<Rightarrow> u32 \<Rightarrow> u32 \<Rightarrow> nat \<Rightarrow> tile_layout outcome" where
  "linear_block_layout width height bytes_per_block levels =
    (let blocks_w0 = max ((width + 3) div 4) 1; blocks_h0 = max ((height + 3) div 4) 1
     in obind (mip_outcomes (map (\<lambda>l. CalcLinearAlignedLevelPitch blocks_w0 blocks_h0 l bytes_per_block) [0..<levels]))
          (Done \<circ> SetLinearMipChainLayout \<circ> map (\<lambda>(aligned_w, padded_h, sz). (max (aligned_w * 4) 32, max (padded_h * 4) 32, sz))))"

definition no_level :: TileSizeOffset where
  "no_level = \<lparr>lv_size = 0, lv_offset = 0, lv_src_size = 0, lv_src_offset = 0, lv_x = 0, lv_y = 0\<rparr>"

definition tiled_layout :: "TextureBlockLayout \<Rightarrow> u32 \<Rightarrow> u32 \<Rightarrow> u32 \<Rightarrow> nat \<Rightarrow> u32 \<Rightarrow> tile_layout" where
  "tiled_layout block width height pitch levels tile =
    (if tile = 1 then SetMicroMipLayout block width height levels
     else
       let explicit_render_target = (tile = 27 \<and> levels = 1)
       in if explicit_render_target \<and> \<not> TileIsRenderTargetPitchValid width pitch (bl_bytes block) 0
          then \<lparr>tl_total = no_size, tl_levels = [no_level], tl_padded = [(0, 0)]\<rparr>
          else SetMacroMipLayout block tile (if explicit_render_target then pitch else width) height levels)"

definition TileGetTextureSize :: "u32 \<Rightarrow> u32 \<Rightarrow> u32 \<Rightarrow> u32 \<Rightarrow> nat \<Rightarrow> u32 \<Rightarrow> u32 option \<Rightarrow> tile_layout option outcome" where
  "TileGetTextureSize format width height pitch levels tile total_in =
    (if levels = 0 \<or> 16 < levels then Exit
     else if NumBytesPerElement format \<noteq> 0 \<and> tile = 0
     then obind (linear_layout width height (NumBytesPerElement format) levels) (Done \<circ> Some)
     else case GetTextureBlockLayout format tile of
            Some block \<Rightarrow> Done (Some (tiled_layout block width height pitch levels tile))
          | None \<Rightarrow>
              if BlockCompressedBytesPerBlock format \<noteq> 0 \<and> tile = 0
              then obind (linear_block_layout width height (BlockCompressedBytesPerBlock format) levels) (Done \<circ> Some)
              else if total_in = Some 0 then Exit
              else Done None)"

definition TileGetTextureTotalSize :: "u32 \<Rightarrow> u32 \<Rightarrow> u32 \<Rightarrow> u32 \<Rightarrow> u32 \<Rightarrow> nat \<Rightarrow> u32 \<Rightarrow> bool \<Rightarrow> TileSizeAlign outcome" where
  "TileGetTextureTotalSize format width height depth pitch levels tile volume_texture =
    (if depth = 0 then Exit
     else case (if volume_texture then TileGetTextureVolumeLayout format width height depth levels tile else None) of
            Some volume \<Rightarrow>
              if 0xffffffff < vl_total_size volume then Exit
              else Done \<lparr>sz_size = ucast (vl_total_size volume), sz_align = (if tile = 5 then 4096 else 65536)\<rparr>
          | None \<Rightarrow>
              obind (TileGetTextureSize format width height pitch levels tile (Some 0)) (\<lambda>r.
                let slice = (case r of Some l \<Rightarrow> tl_total l | None \<Rightarrow> no_size); total = ucast (sz_size slice) * ucast depth :: u64
                in if 0xffffffff < total then Exit else Done (slice\<lparr>sz_size := ucast total\<rparr>)))"

definition render_target_format :: "u32 \<Rightarrow> u32 option" where
  "render_target_format bytes_per_element =
    (if bytes_per_element = 1 then Some 1
     else if bytes_per_element = 2 then Some 7
     else if bytes_per_element = 4 then Some 22
     else if bytes_per_element = 8 then Some 71
     else if bytes_per_element = 16 then Some 77
     else None)"

function mip_count :: "u32 \<Rightarrow> nat" where
  "mip_count max_dimension = (if 1 < max_dimension then mip_count (drop_bit 1 max_dimension) + 1 else 1)"
  by pat_completeness auto
termination
proof (relation "measure unat")
  fix v :: u32 assume "1 < v"
  then have "unat v div 2 < unat v" by (simp add: word_less_nat_alt)
  then show "(drop_bit 1 v, v) \<in> measure unat" by (simp add: unat_div_distrib drop_bit_Suc)
qed simp

declare mip_count.simps [simp del]

definition TileGetRenderTargetMipLayout :: "u32 \<Rightarrow> u32 \<Rightarrow> u32 \<Rightarrow> u32 \<Rightarrow> nat \<Rightarrow> tile_layout option outcome" where
  "TileGetRenderTargetMipLayout width height pitch bytes_per_element levels =
    (if width = 0 \<or> height = 0 \<or> levels = 0 \<or> 16 < levels \<or> pitch \<noteq> TileGetRenderTargetPitch width bytes_per_element 0 \<or>
       mip_count (max width height) < levels
     then Done None
     else case render_target_format bytes_per_element of
            None \<Rightarrow> Done None
          | Some format \<Rightarrow>
              obind (TileGetTextureSize format width height pitch levels 27 (Some 0)) (\<lambda>r.
                Done (case r of
                    Some l \<Rightarrow> if sz_size (tl_total l) \<noteq> 0 \<and> sz_align (tl_total l) = 65536 then Some l else None
                  | None \<Rightarrow> None)))"

text \<open>The pitch of a texture: each of the four conditions of the source may replace it.\<close>

definition TileGetTexturePitch :: "u32 \<Rightarrow> u32 \<Rightarrow> u32 \<Rightarrow> u32 \<Rightarrow> u32 outcome" where
  "TileGetTexturePitch format width levels tile =
    (let bytes = NumBytesPerElement format; bc = BlockCompressedBytesPerBlock format
     in if tile = 27
        then if bytes = 0 then Done width
             else (case Gen5Thin64KBBlockSizeFromElementBytes bytes of None \<Rightarrow> Exit | Some (block_width, _) \<Rightarrow> Done (tile_AlignUp width block_width))
        else if tile = 0
        then if bytes \<noteq> 0 then Done (tile_AlignUp (width * bytes) 256 div bytes)
             else if bc \<noteq> 0
             then let block_pitch = tile_AlignUp (ShiftCeil width 2) (CalcLinearBlockWidth bc)
                  in if 0xffffffff div 4 < block_pitch then Exit else Done (block_pitch * 4)
             else Done width
        else if tile = 9 \<or> tile = 17
        then (case Gen5Standard64KBLayout format of
                Some (_, texels_wide, _, width_log2, _) \<Rightarrow> Done (tile_AlignUp width (push_bit width_log2 1 * texels_wide))
              | None \<Rightarrow> Done width)
        else if tile = 24
        then (case (if bytes \<le> 8 then Gen5Thin64KBBlockSizeFromElementBytes bytes else None) of
                Some (block_width, _) \<Rightarrow> Done (tile_AlignUp width block_width)
              | None \<Rightarrow> Done width)
        else Done width)"

section \<open>Uploads\<close>

text \<open>From \<open>src/graphics/host_gpu/renderer/image/textureCommon.cpp\<close>: the family of a tiled texture that is uploaded, and where its levels are
  read; \<open>Count\<close> ends the process there. A level lies in the mip tail if its source is larger than the level.\<close>

definition upload_family :: "u32 \<Rightarrow> u32 \<Rightarrow> bool \<Rightarrow> TileBlockFamily" where
  "upload_family fmt tile allow_depth_tile =
    (if tile = 1 \<and> TileIsStandard256BTextureSupported fmt then Standard256B
     else if tile = 5 \<and> TileIsStandard4KBTextureSupported fmt then Standard4KB
     else if tile = 9 \<and> TileIsStandard64KBTextureSupported fmt then Standard64KB
     else if tile = 17 \<and> TileIsStandard64KBTextureSupported fmt then Prt64KB
     else if tile = 27 \<and> RenderTargetBytesPerElement fmt \<noteq> 0 then RenderTarget64KB
     else if tile = 24 \<and> allow_depth_tile \<and> RenderTargetBytesPerElement fmt \<noteq> 0 then Depth64KB
     else Count)"

definition GetLevelSrcOffset :: "TileSizeOffset \<Rightarrow> u32" where
  "GetLevelSrcOffset level_size = (if lv_src_size level_size \<noteq> 0 then lv_src_offset level_size else lv_offset level_size)"

definition GetLevelSrcSize :: "TileSizeOffset \<Rightarrow> u32" where
  "GetLevelSrcSize level_size = (if lv_src_size level_size \<noteq> 0 then lv_src_size level_size else lv_size level_size)"

definition in_tail :: "TileSizeOffset \<Rightarrow> bool" where
  "in_tail level_size \<longleftrightarrow> lv_size level_size < lv_src_size level_size"

end
