(* ===== verification/TileSurfaceProps.thy ===== *)
theory TileSurfaceProps
  imports TileBlockProps TileSurface
begin
unbundle bit_operations_syntax

section \<open>Rounding\<close>

definition ceil_div :: "nat \<Rightarrow> nat \<Rightarrow> nat" where
  "ceil_div v n = (v + n - 1) div n"

lemma ceil_div_le: "0 < n \<Longrightarrow> ceil_div v n \<le> k \<longleftrightarrow> v \<le> k * n"
proof -
  assume n: "0 < n"
  have "ceil_div v n \<le> k \<longleftrightarrow> v + n - 1 < (k + 1) * n"
    unfolding ceil_div_def using div_less_iff_less_mult [OF n, of "v + n - 1" "k + 1"] by linarith
  also have "\<dots> \<longleftrightarrow> v \<le> k * n" using n by auto
  finally show ?thesis .
qed

lemma ceil_div_bound: "0 < n \<Longrightarrow> v \<le> m \<Longrightarrow> ceil_div v n \<le> m"
  using ceil_div_le [of n v m] by (cases n) auto

lemma ceil_div_ge: "0 < n \<Longrightarrow> v \<le> ceil_div v n * n"
  using ceil_div_le [of n v "ceil_div v n"] by simp

lemma ceil_div_pos: "0 < n \<Longrightarrow> 0 < v \<Longrightarrow> 0 < ceil_div v n"
  using ceil_div_ge [of n v] by (cases "ceil_div v n") auto

lemma unat_plus_pred:
  fixes v n :: "'a :: len word"
  assumes "1 \<le> unat n" "unat v + unat n \<le> 2 ^ LENGTH('a)"
  shows "unat (v + n - 1) = unat v + unat n - 1"
proof -
  have n: "unat (n - 1) = unat n - 1" using assms(1) by (simp add: unat_sub word_le_nat_alt)
  then have "unat v + unat (n - 1) < 2 ^ LENGTH('a)" using assms by linarith
  then have "unat (v + (n - 1)) = unat v + unat (n - 1)" by (rule unat_add_lem [THEN iffD1])
  moreover have "v + n - 1 = v + (n - 1)" by simp
  ultimately show ?thesis using n assms(1) by (metis Nat.add_diff_assoc)
qed

lemma unat_AlignUp:
  assumes "unat v + 2 ^ k \<le> 2 ^ 32" "k < 32"
  shows "unat (tile_AlignUp v (push_bit k 1)) = ceil_div (unat v) (2 ^ k) * 2 ^ k"
proof -
  let ?a = "push_bit k 1 :: u32"
  have a: "unat ?a = 2 ^ k" using assms(2) by (simp add: push_bit_eq_mult unat_pow)
  have n: "?a - 1 = mask k" by (simp add: push_bit_eq_mult mask_eq_exp_minus_1)
  have s: "unat (v + ?a - 1) = unat v + 2 ^ k - 1" using unat_plus_pred [of ?a v] a assms(1) by simp
  have "tile_AlignUp v ?a = push_bit k (drop_bit k (v + ?a - 1))"
    unfolding tile_AlignUp_def n by (rule bit_word_eqI) (auto simp: bit_simps n)
  also have "\<dots> = drop_bit k (v + ?a - 1) * 2 ^ k" by (simp add: push_bit_eq_mult)
  finally have e: "tile_AlignUp v ?a = drop_bit k (v + ?a - 1) * 2 ^ k" .
  have d: "unat (drop_bit k (v + ?a - 1)) = ceil_div (unat v) (2 ^ k)"
    unfolding ceil_div_def s [symmetric] by (simp add: unat_div_distrib drop_bit_eq_div unat_pow assms(2))
  have "ceil_div (unat v) (2 ^ k) * 2 ^ k < 2 ^ 32"
  proof -
    have "ceil_div (unat v) (2 ^ k) * 2 ^ k \<le> unat v + 2 ^ k - 1" unfolding ceil_div_def by simp
    moreover have "0 < (2 :: nat) ^ k" by simp
    ultimately show ?thesis using assms(1) by linarith
  qed
  then show ?thesis unfolding e using unat_mult_lem [of "drop_bit k (v + ?a - 1)" "2 ^ k"] d by (simp add: unat_pow assms(2))
qed

lemma unat_ShiftCeil:
  assumes "s < 32"
  shows "unat (ShiftCeil v s) = ceil_div (unat v) (2 ^ s)"
proof -
  let ?c = "ucast v :: u64"
  have p: "unat (2 ^ s :: u64) = 2 ^ s" using assms by (simp add: unat_power)
  have b: "unat v < 2 ^ 32" using unsigned_less [of v, where 'a = nat] by simp
  have c: "unat ?c = unat v" using b by (simp add: unsigned_ucast_eq take_bit_nat_eq_self)
  have q: "(2 :: nat) ^ s < 2 ^ 32" using assms by (intro power_strict_increasing) simp_all
  have s: "unat (?c + 2 ^ s - 1) = unat v + 2 ^ s - 1" using unat_plus_pred [of "2 ^ s" ?c] p b c q by simp
  have d: "unat (drop_bit s (?c + 2 ^ s - 1)) = ceil_div (unat v) (2 ^ s)"
    unfolding ceil_div_def s [symmetric] by (simp add: unat_div_distrib drop_bit_eq_div p)
  have "ceil_div (unat v) (2 ^ s) < 2 ^ 32" using ceil_div_bound [of "2 ^ s" "unat v" "2 ^ 32 - 1"] b by simp
  then show ?thesis unfolding ShiftCeil_def using d by (simp add: push_bit_eq_mult unsigned_ucast_eq take_bit_nat_eq_self)
qed

lemma unat_elements:
  assumes "unat v + unat n \<le> 2 ^ 32" "n \<noteq> 0"
  shows "unat (elements v n) = ceil_div (unat v) (unat n)"
proof -
  have n: "1 \<le> unat n" using assms(2) by (simp add: unat_gt_0 Suc_le_eq)
  then have "unat (v + n - 1) = unat v + unat n - 1" using unat_plus_pred [of n v] assms(1) by simp
  then show ?thesis by (simp add: elements_def ceil_div_def unat_div_distrib)
qed

section \<open>Blocks of a texture\<close>

text \<open>The layout of the places in a block that belongs to the tile mode of a texture.\<close>

definition tile_family :: "u32 \<Rightarrow> TileBlockFamily" where
  "tile_family tile =
    (if tile = 1 then Standard256B else if tile = 5 then Standard4KB else if tile = 9 then Standard64KB else if tile = 17 then Prt64KB
     else if tile = 24 then Depth64KB else if tile = 27 then RenderTarget64KB else Count)"

lemma upload_family_tile: "upload_family fmt tile d \<noteq> Count \<Longrightarrow> upload_family fmt tile d = tile_family tile"
  by (auto simp: upload_family_def tile_family_def split: if_splits)

definition same_block :: "TextureBlockLayout \<Rightarrow> TileBlockLayout \<Rightarrow> bool" where
  "same_block e b \<longleftrightarrow> tb_bytes_per_element b = bl_bytes e \<and> tb_block_size b = bl_block_size e \<and> tb_block_width b = bl_block_width e \<and>
    tb_block_height b = bl_block_height e \<and> tb_block_depth b = 1"

definition tile_modes :: "u32 list" where
  "tile_modes = [1, 5, 9, 17, 24, 27]"

text \<open>The blocks that occur, by tile mode and logarithm of the bytes per element.\<close>

definition wh_log :: "u32 \<Rightarrow> (nat \<times> nat) list" where
  "wh_log tile =
    (if tile = 1 then [(4, 4), (4, 3), (3, 3), (3, 2), (2, 2)]
     else if tile = 5 then [(6, 6), (6, 5), (5, 5), (5, 4), (4, 4)]
     else [(8, 8), (8, 7), (7, 7), (7, 6), (6, 6)])"

definition size_log :: "u32 \<Rightarrow> nat" where
  "size_log tile = (if tile = 1 then 8 else if tile = 5 then 12 else 16)"

definition block_ok :: "u32 \<Rightarrow> TextureBlockLayout \<Rightarrow> nat \<Rightarrow> bool" where
  "block_ok tile e k \<longleftrightarrow> k < (if tile = 24 then 4 else 5) \<and> bl_bytes e = push_bit k 1 \<and> bl_block_size e = push_bit (size_log tile) 1 \<and>
    bl_block_width e = push_bit (fst (wh_log tile ! k)) 1 \<and> bl_block_height e = push_bit (snd (wh_log tile ! k)) 1 \<and>
    (bl_texel_width e, bl_texel_height e) \<in> {(1, 1), (4, 4)}"

lemma standard_layouts:
  "Gen5Standard256BLayout format = Some e \<Longrightarrow> e \<in> {(1, 1, 1, 4, 4), (2, 1, 1, 4, 3), (4, 1, 1, 3, 3), (8, 1, 1, 3, 2), (16, 1, 1, 2, 2), (8, 4, 4, 3, 2), (16, 4, 4, 2, 2)}"
  "Gen5Standard4KBLayout format = Some e \<Longrightarrow> e \<in> {(1, 1, 1, 6, 6), (2, 1, 1, 6, 5), (4, 1, 1, 5, 5), (8, 1, 1, 5, 4), (16, 1, 1, 4, 4), (8, 4, 4, 5, 4), (16, 4, 4, 4, 4)}"
  "Gen5Standard64KBLayout format = Some e \<Longrightarrow> e \<in> {(1, 1, 1, 8, 8), (2, 1, 1, 8, 7), (4, 1, 1, 7, 7), (8, 1, 1, 7, 6), (16, 1, 1, 6, 6), (8, 4, 4, 7, 6), (16, 4, 4, 6, 6)}"
  unfolding Gen5Standard256BLayout_def Gen5Standard4KBLayout_def Gen5Standard64KBLayout_def Let_def by (simp_all split: if_splits)

lemma thin_sizes:
  "Gen5Thin64KBBlockSizeFromElementBytes b = Some (w, h) \<Longrightarrow> (b, w, h) \<in> {(1, 256, 256), (2, 256, 128), (4, 128, 128), (8, 128, 64), (16, 64, 64)}"
  unfolding Gen5Thin64KBBlockSizeFromElementBytes_def by (simp split: if_splits)

lemma block_ok_intro:
  "k \<in> {0, 1, 2, 3, 4} \<Longrightarrow> tile = 24 \<longrightarrow> k \<noteq> 4 \<Longrightarrow> bl_bytes e = push_bit k 1 \<Longrightarrow> bl_block_size e = push_bit (size_log tile) 1 \<Longrightarrow>
    bl_block_width e = push_bit (fst (wh_log tile ! k)) 1 \<Longrightarrow> bl_block_height e = push_bit (snd (wh_log tile ! k)) 1 \<Longrightarrow>
    (bl_texel_width e, bl_texel_height e) \<in> {(1, 1), (4, 4)} \<Longrightarrow> \<exists>k. block_ok tile e k"
  unfolding block_ok_def by (rule exI [of _ k]) auto

lemma texture_block_cases:
  assumes "GetTextureBlockLayout format tile = Some e"
  shows "tile \<in> set tile_modes" "\<exists>k. block_ok tile e k"
proof -
  show t: "tile \<in> set tile_modes" using assms by (auto simp: GetTextureBlockLayout_def tile_modes_def split: if_splits)
  note I = block_ok_intro [of 0] block_ok_intro [of 1] block_ok_intro [of 2] block_ok_intro [of 3] block_ok_intro [of 4]
  note D = standard_block_def wh_log_def size_log_def
  consider "tile = 1" | "tile = 5" | "tile = 9 \<or> tile = 17" | "tile = 24 \<or> tile = 27" using t by (auto simp: tile_modes_def)
  then show "\<exists>k. block_ok tile e k"
  proof cases
    case 1
    then obtain x where x: "Gen5Standard256BLayout format = Some x" "e = standard_block x 256" using assms by (auto simp: GetTextureBlockLayout_def)
    then show ?thesis using 1 standard_layouts(1) [OF x(1)] by (fastforce simp: D intro: I)
  next
    case 2
    then obtain x where x: "Gen5Standard4KBLayout format = Some x" "e = standard_block x 4096" using assms by (auto simp: GetTextureBlockLayout_def)
    then show ?thesis using 2 standard_layouts(2) [OF x(1)] by (fastforce simp: D intro: I)
  next
    case 3
    then obtain x where x: "Gen5Standard64KBLayout format = Some x" "e = standard_block x 65536" using assms by (auto simp: GetTextureBlockLayout_def)
    then show ?thesis using 3 standard_layouts(3) [OF x(1)] by (fastforce simp: D intro: I)
  next
    case 4
    let ?b = "NumBytesPerElement format"
    obtain w h where x: "Gen5Thin64KBBlockSizeFromElementBytes ?b = Some (w, h)"
      "e = \<lparr>bl_bytes = ?b, bl_texel_width = 1, bl_texel_height = 1, bl_block_width = w, bl_block_height = h, bl_block_size = 65536\<rparr>"
      "tile = 24 \<longrightarrow> ?b \<le> 8"
      using assms 4 by (auto simp: GetTextureBlockLayout_def Let_def not_less split: if_splits)
    then show ?thesis using 4 thin_sizes [OF x(1)] by (fastforce simp: D intro: I)
  qed
qed

lemma block_of_tile:
  assumes "tile \<in> set tile_modes" "block_ok tile e k"
  shows "\<exists>b. TileGetBlockLayout (tile_family tile) (bl_bytes e) = Some b \<and> same_block e b"
proof -
  have k: "k = 0 \<or> k = 1 \<or> k = 2 \<or> k = 3 \<or> k = 4" "tile = 24 \<longrightarrow> k \<noteq> 4" using assms(2) by (auto simp: block_ok_def split: if_splits)
  have "\<forall>t \<in> set tile_modes. \<forall>k \<in> set [0..<(if t = 24 then 4 else 5)]. TileGetBlockLayout (tile_family t) (push_bit k 1) = Some
      \<lparr>tb_family = tile_family t, tb_bytes_per_element = push_bit k 1, tb_block_size = push_bit (size_log t) 1,
        tb_block_width = push_bit (fst (wh_log t ! k)) 1, tb_block_height = push_bit (snd (wh_log t ! k)) 1, tb_block_depth = 1\<rparr>"
    by code_simp
  moreover have "k \<in> set [0..<(if tile = 24 then 4 else 5)]" using assms(2) by (simp add: block_ok_def)
  ultimately have "TileGetBlockLayout (tile_family tile) (push_bit k 1) = Some
      \<lparr>tb_family = tile_family tile, tb_bytes_per_element = push_bit k 1, tb_block_size = push_bit (size_log tile) 1,
        tb_block_width = push_bit (fst (wh_log tile ! k)) 1, tb_block_height = push_bit (snd (wh_log tile ! k)) 1, tb_block_depth = 1\<rparr>"
    using assms(1) by blast
  then show ?thesis using assms(2) by (simp add: block_ok_def same_block_def)
qed

section \<open>The mip tail\<close>

type_synonym rect = "int \<times> int \<times> int \<times> int"

definition rects_apart :: "rect \<Rightarrow> rect \<Rightarrow> bool" where
  "rects_apart r r' = (case (r, r') of ((x, y, w, h), (x', y', w', h')) \<Rightarrow> x + w \<le> x' \<or> x' + w' \<le> x \<or> y + h \<le> y' \<or> y' + h' \<le> y)"

definition rect_inside :: "int \<Rightarrow> int \<Rightarrow> rect \<Rightarrow> bool" where
  "rect_inside bw bh r = (case r of (x, y, w, h) \<Rightarrow> x + w \<le> bw \<and> y + h \<le> bh)"

fun rects :: "int \<Rightarrow> int \<Rightarrow> (u32 \<times> u32) list \<Rightarrow> rect list" where
  "rects tw th [] = []"
| "rects tw th ((x, y) # ls) = (uint x, uint y, max tw 1, max th 1) # rects (tw div 2) (th div 2) ls"

definition tail_ok :: "int \<Rightarrow> int \<Rightarrow> (u32 \<times> u32) list \<Rightarrow> bool" where
  "tail_ok bw bh ls \<longleftrightarrow> sorted_wrt rects_apart (rects (bw div 2) bh ls) \<and> (\<forall>r \<in> set (rects (bw div 2) bh ls). rect_inside bw bh r)"

lemma tails_4: "\<forall>(k, bw, bh) \<in> set [(0, 64, 64), (1, 64, 32), (2, 32, 32), (3, 32, 16), (4, 16, 16)].
    tail_ok bw bh (GEN5_MIP_TAIL_LOCATIONS_THIN_4KB ! k) \<and> length (GEN5_MIP_TAIL_LOCATIONS_THIN_4KB ! k) = 8"
  by code_simp

lemma tails_64: "\<forall>(k, bw, bh) \<in> set [(0, 256, 256), (1, 256, 128), (2, 128, 128), (3, 128, 64), (4, 64, 64)].
    tail_ok bw bh (GEN5_MIP_TAIL_LOCATIONS_THIN_64KB ! k) \<and> length (GEN5_MIP_TAIL_LOCATIONS_THIN_64KB ! k) = 12"
  by code_simp

lemma rects_nth: "i < length ls \<Longrightarrow> rects tw th ls ! i = (uint (fst (ls ! i)), uint (snd (ls ! i)), max (tw div 2 ^ i) 1, max (th div 2 ^ i) 1)"
proof (induction tw th ls arbitrary: i rule: rects.induct)
  case (2 tw th x y ls)
  then show ?case by (cases i) (simp_all add: zdiv_zmult2_eq)
qed simp

lemma length_rects [simp]: "length (rects tw th ls) = length ls"
  by (induction tw th ls rule: rects.induct) simp_all

lemma tail_facts:
  assumes "tile \<in> set tile_modes" "tile \<noteq> 1" "block_ok tile e k"
  shows "tail_ok (uint (bl_block_width e)) (uint (bl_block_height e)) (tail_locations e)" "length (tail_locations e) = max_tail_levels e"
proof -
  have c: "countr_zero_u32 (push_bit k 1) = k" if "k \<in> set [0..<5]" for k
  proof -
    have "\<forall>k \<in> set [0..<5]. countr_zero_u32 (push_bit k 1) = k" by code_simp
    then show ?thesis using that by blast
  qed
  have k: "k = 0 \<or> k = 1 \<or> k = 2 \<or> k = 3 \<or> k = 4" using assms(3) by (auto simp: block_ok_def split: if_splits)
  then have z: "countr_zero_u32 (bl_bytes e) = k" using c [of k] assms(3) by (auto simp: block_ok_def)
  have sz: "bl_block_size e = (if tile = 5 then 4096 else 65536)" using assms by (simp add: block_ok_def size_log_def)
  have wh: "(k, uint (bl_block_width e), uint (bl_block_height e)) \<in>
    set (if tile = 5 then [(0, 64, 64), (1, 64, 32), (2, 32, 32), (3, 32, 16), (4, 16, 16)]
     else [(0, 256, 256), (1, 256, 128), (2, 128, 128), (3, 128, 64), (4, 64, 64)])"
    using k assms(2,3) by (elim disjE) (simp_all add: block_ok_def wh_log_def)
  show "tail_ok (uint (bl_block_width e)) (uint (bl_block_height e)) (tail_locations e)" "length (tail_locations e) = max_tail_levels e"
    using wh tails_4 tails_64 z sz by (cases "tile = 5"; fastforce simp: tail_locations_def max_tail_levels_def)+
qed

end
