(* ===== verification/TileMipProps.thy ===== *)
theory TileMipProps
  imports TileSurfaceProps
begin

text \<open>
  The mip levels of a tiled texture: they follow each other without wrapping around, the levels of the tail share one block, and no two levels
  share a byte. What a level of the tail occupies is stated through the offsets of its elements in the block.
\<close>

section \<open>Sizes without wrap-around\<close>

definition side :: "u32 \<Rightarrow> u32 \<Rightarrow> u32 \<Rightarrow> nat \<Rightarrow> nat" where
  "side texels per_element block level =
    ceil_div (max (ceil_div (ceil_div (unat texels) (unat per_element)) (2 ^ level)) 1) (unat block) * unat block"

definition level_size :: "TextureBlockLayout \<Rightarrow> u32 \<Rightarrow> u32 \<Rightarrow> nat \<Rightarrow> nat" where
  "level_size e width height level =
    side width (bl_texel_width e) (bl_block_width e) level * side height (bl_texel_height e) (bl_block_height e) level * unat (bl_bytes e)"

lemma unat_max: "unat (max a b) = max (unat a) (unat (b :: u32))"
  by (simp add: max_def word_le_nat_alt)

lemma padded_side:
  assumes "unat texels \<le> 2 ^ 14" "per_element \<in> {1, 4}" "block = push_bit k 1" "k \<le> 8" "level < 16"
  shows "unat (tile_AlignUp (max (ShiftCeil (elements texels per_element) level) 1) block) = side texels per_element block level"
proof -
  have e: "unat (elements texels per_element) = ceil_div (unat texels) (unat per_element)"
    using unat_elements [of texels per_element] assms(1,2) by auto
  have p: "0 < unat per_element" using assms(2) by auto
  let ?m = "max (ceil_div (ceil_div (unat texels) (unat per_element)) (2 ^ level)) 1"
  have s: "unat (max (ShiftCeil (elements texels per_element) level) 1) = ?m"
    using assms(5) by (simp add: unat_max unat_ShiftCeil e)
  have "ceil_div (unat texels) (unat per_element) \<le> 2 ^ 14" using ceil_div_bound [OF p assms(1)] .
  then have "?m \<le> 2 ^ 14" using ceil_div_bound [of "2 ^ level" "ceil_div (unat texels) (unat per_element)" "2 ^ 14"] by simp
  moreover have "(2 :: nat) ^ k \<le> 2 ^ 8" using assms(4) by (intro power_increasing) simp_all
  ultimately have "unat (max (ShiftCeil (elements texels per_element) level) 1) + 2 ^ k \<le> 2 ^ 32" unfolding s by simp
  then have "unat (tile_AlignUp (max (ShiftCeil (elements texels per_element) level) 1) block) = ceil_div ?m (2 ^ k) * 2 ^ k"
    unfolding assms(3) s [symmetric] by (rule unat_AlignUp) (use assms(4) in simp)
  moreover have "unat block = 2 ^ k" using assms(3,4) by (simp add: push_bit_eq_mult unat_pow)
  ultimately show ?thesis by (simp add: side_def)
qed

lemma block_facts_tile:
  assumes "block_ok tile e k" "tile \<in> set tile_modes"
  shows "\<exists>a b. bl_block_width e = push_bit a 1 \<and> a \<le> 8 \<and> bl_block_height e = push_bit b 1 \<and> b \<le> 8 \<and> (tile \<noteq> 1 \<longrightarrow> 1 \<le> a)"
    "bl_texel_width e \<in> {1, 4}" "bl_texel_height e \<in> {1, 4}" "bl_bytes e \<in> set element_sizes"
    "unat (bl_block_size e) = unat (bl_block_width e) * unat (bl_block_height e) * unat (bl_bytes e)"
proof -
  have k: "k = 0 \<or> k = 1 \<or> k = 2 \<or> k = 3 \<or> k = 4" using assms(1) by (auto simp: block_ok_def split: if_splits)
  show "bl_texel_width e \<in> {1, 4}" "bl_texel_height e \<in> {1, 4}" using assms(1) by (auto simp: block_ok_def)
  show "bl_bytes e \<in> set element_sizes" using assms(1) k by (elim disjE) (simp_all add: block_ok_def element_sizes_def)
  have w: "fst (wh_log tile ! k) \<le> 8" "snd (wh_log tile ! k) \<le> 8" "tile \<noteq> 1 \<longrightarrow> 1 \<le> fst (wh_log tile ! k)"
    using k by (elim disjE; simp add: wh_log_def)+
  then show "\<exists>a b. bl_block_width e = push_bit a 1 \<and> a \<le> 8 \<and> bl_block_height e = push_bit b 1 \<and> b \<le> 8 \<and> (tile \<noteq> 1 \<longrightarrow> 1 \<le> a)"
    using assms(1) unfolding block_ok_def by blast
  have "fst (wh_log tile ! k) + snd (wh_log tile ! k) + k = size_log tile"
    using k by (elim disjE) (simp_all add: wh_log_def size_log_def)
  moreover have "size_log tile \<le> 16" by (simp add: size_log_def)
  moreover have "k \<le> 8" using k by auto
  ultimately show "unat (bl_block_size e) = unat (bl_block_width e) * unat (bl_block_height e) * unat (bl_bytes e)"
    using assms(1) w by (simp add: block_ok_def push_bit_eq_mult unat_pow flip: power_add)
qed

lemma level_bytes_exact:
  assumes "block_ok tile e k" "tile \<in> set tile_modes" "unat width \<le> 2 ^ 14" "unat height \<le> 2 ^ 14" "level < 16" "level_size e width height level < 2 ^ 32"
  shows "unat (level_bytes e (padded_level e (elements width (bl_texel_width e)) (elements height (bl_texel_height e)) level)) = level_size e width height level"
proof -
  obtain a b where ab: "bl_block_width e = push_bit a 1" "a \<le> 8" "bl_block_height e = push_bit b 1" "b \<le> 8"
    using block_facts_tile(1) [OF assms(1,2)] by blast
  obtain w h where p: "padded_level e (elements width (bl_texel_width e)) (elements height (bl_texel_height e)) level = (w, h)" by fastforce
  have w: "unat w = side width (bl_texel_width e) (bl_block_width e) level" "unat h = side height (bl_texel_height e) (bl_block_height e) level"
    using p padded_side [OF assms(3) block_facts_tile(2) [OF assms(1,2)] ab(1,2) assms(5)]
      padded_side [OF assms(4) block_facts_tile(3) [OF assms(1,2)] ab(3,4) assms(5)] by (auto simp: padded_level_def)
  have f: "unat w * unat h * unat (bl_bytes e) < 2 ^ 32" using assms(6) w by (simp add: level_size_def)
  have "unat (bl_bytes e) \<noteq> 0" using block_facts_tile(4) [OF assms(1,2)] by (auto simp: element_sizes_def)
  then have "unat w * unat h < 2 ^ 32" using f by (metis One_nat_def Suc_leI le_less_trans mult.right_neutral mult_le_mono2 neq0_conv)
  then have "unat (w * h) = unat w * unat h" using unat_mult_lem [of w h] by simp
  then have "unat (w * h * bl_bytes e) = unat w * unat h * unat (bl_bytes e)" using unat_mult_lem [of "w * h" "bl_bytes e"] f by simp
  then show ?thesis using p w by (simp add: level_bytes_def level_size_def)
qed

section \<open>The chain of levels\<close>

lemma chain_exact:
  assumes "unat init + sum_list (map unat szs) < 2 ^ 32"
  shows "case chain init szs of (offs, end) \<Rightarrow> length offs = length szs \<and> unat end = unat (init :: u32) + sum_list (map unat szs) \<and>
    (\<forall>i < length szs. unat (offs ! i) = unat init + sum_list (map unat (drop (Suc i) szs)))"
  using assms
proof (induction szs)
  case (Cons sz szs)
  obtain offs off where c: "chain init szs = (offs, off)" by fastforce
  have I: "length offs = length szs" "unat off = unat init + sum_list (map unat szs)"
    "\<forall>i < length szs. unat (offs ! i) = unat init + sum_list (map unat (drop (Suc i) szs))"
    using Cons c by simp_all
  have "unat (off + sz) = unat off + unat sz" using I(2) Cons.prems unat_add_lem [of off sz] by simp
  then show ?case using c I by (auto simp: nth_Cons split: nat.splits)
qed simp

lemma chain_order:
  assumes "unat init + sum_list (map unat szs) < 2 ^ 32" "chain init szs = (offs, end)" "i < length szs"
  shows "unat (init :: u32) \<le> unat (offs ! i)" "unat (offs ! i) + unat (szs ! i) \<le> unat end"
    "j < i \<Longrightarrow> unat (offs ! i) + unat (szs ! i) \<le> unat (offs ! j)"
proof -
  let ?t = "\<lambda>i. sum_list (map unat (drop i szs))"
  have C: "unat end = unat init + ?t 0" "\<forall>i < length szs. unat (offs ! i) = unat init + ?t (Suc i)"
    using chain_exact [OF assms(1)] assms(2) by simp_all
  have step: "?t i = unat (szs ! i) + ?t (Suc i)" if "i < length szs" for i
    using that by (simp add: Cons_nth_drop_Suc [symmetric])
  have mono: "?t (Suc n + d) \<le> ?t (Suc n)" for n d
  proof (induction d)
    case (Suc d)
    then show ?case using step [of "Suc n + d"] by (cases "Suc n + d < length szs") simp_all
  qed simp
  show "unat init \<le> unat (offs ! i)" using C(2) assms(3) by simp
  have "?t i \<le> ?t 0"
  proof (cases i)
    case (Suc n)
    then have "?t i \<le> ?t (Suc 0)" using mono [of 0 n] by simp
    also have "\<dots> \<le> ?t 0" using step [of 0] assms(3) by (cases szs) simp_all
    finally show ?thesis .
  qed simp
  then show "unat (offs ! i) + unat (szs ! i) \<le> unat end" using C assms(3) step [OF assms(3)] by simp
  assume j: "j < i"
  then have "?t i \<le> ?t (Suc j)" using mono [of j "i - Suc j"] by simp
  then show "unat (offs ! i) + unat (szs ! i) \<le> unat (offs ! j)" using C(2) assms(3) j step [OF assms(3)] by simp
qed

section \<open>The levels of the tail\<close>

lemma ceil_div_twice: "0 < m \<Longrightarrow> 0 < n \<Longrightarrow> ceil_div v (m * n) \<le> ceil_div (ceil_div v m) n"
  using ceil_div_ge [of m v] ceil_div_ge [of n "ceil_div v m"] by (simp add: ceil_div_le mult_le_mono algebra_simps)

lemma ceil_div_mono: "0 < n \<Longrightarrow> v \<le> w \<Longrightarrow> ceil_div v n \<le> ceil_div w n"
  using ceil_div_le ceil_div_ge le_trans by metis

lemma mip_elements_le:
  assumes "0 < unat texels" "unat texels \<le> 2 ^ 14" "per_element \<in> {1, 4}" "level < 16"
  shows "unat (mip_elements texels per_element level) \<le> ceil_div (ceil_div (unat texels) (unat per_element)) (2 ^ level)"
    and "0 < unat (mip_elements texels per_element level)"
proof -
  let ?t = "unat per_element" and ?w = "unat texels"
  let ?K = "ceil_div (ceil_div ?w ?t) (2 ^ level)"
  have t: "0 < ?t" "per_element \<noteq> 0" "?t \<le> 4" using assms(3) by auto
  have d: "unat (drop_bit level texels) = ?w div 2 ^ level"
    using assms(4) by (simp add: unat_div_distrib drop_bit_eq_div unat_pow)
  have "?w div 2 ^ level + ?t \<le> 2 ^ 14 + 4" using assms(2) t(3) div_le_dividend [of ?w "2 ^ level"] by linarith
  also have "\<dots> \<le> 2 ^ 32" by simp
  finally have "?w div 2 ^ level + ?t \<le> 2 ^ 32" .
  then have e: "unat (elements (drop_bit level texels) per_element) = ceil_div (?w div 2 ^ level) ?t"
    using unat_elements [of "drop_bit level texels" per_element] t(2) d by simp
  have "?w \<le> ceil_div ?w ?t * ?t" using ceil_div_ge [OF t(1)] .
  also have "\<dots> \<le> (?K * 2 ^ level) * ?t" using ceil_div_ge [of "2 ^ level" "ceil_div ?w ?t"] by (intro mult_le_mono1) simp
  finally have "?w div 2 ^ level \<le> ?K * ?t"
    using div_le_mono [of ?w "(?K * 2 ^ level) * ?t" "2 ^ level"] by (simp add: mult.assoc mult.left_commute)
  then have "ceil_div (?w div 2 ^ level) ?t \<le> ?K" using ceil_div_le [OF t(1)] by simp
  moreover have "1 \<le> ?K" using ceil_div_pos [OF _ ceil_div_pos [OF t(1) assms(1)], of "2 ^ level"] by (simp add: Suc_le_eq)
  ultimately show "unat (mip_elements texels per_element level) \<le> ?K" by (simp add: mip_elements_def unat_max e)
  show "0 < unat (mip_elements texels per_element level)" by (simp add: mip_elements_def unat_max)
qed

lemma ceil_div_power: "ceil_div (2 ^ a) (2 ^ i) = max (2 ^ a div 2 ^ i) 1"
proof (cases "i \<le> a")
  case True
  then have e: "(2 :: nat) ^ a = 2 ^ (a - i) * 2 ^ i" by (simp flip: power_add)
  then have "2 ^ (a - i) * 2 ^ i \<le> ceil_div (2 ^ a) (2 ^ i) * (2 :: nat) ^ i" using ceil_div_ge [of "2 ^ i" "2 ^ a"] by simp
  then have "2 ^ (a - i) \<le> ceil_div (2 ^ a) (2 ^ i)" by simp
  moreover have "ceil_div (2 ^ a) (2 ^ i) \<le> 2 ^ (a - i)" using ceil_div_le [of "2 ^ i" "2 ^ a" "2 ^ (a - i)"] e by simp
  moreover have "(2 :: nat) ^ a div 2 ^ i = 2 ^ (a - i)" using True by (simp add: power_diff)
  moreover have "(1 :: nat) \<le> 2 ^ (a - i)" by simp
  ultimately show ?thesis by linarith
next
  case False
  then have "(2 :: nat) ^ a < 2 ^ i" by (intro power_strict_increasing) simp_all
  then show ?thesis using ceil_div_le [of "2 ^ i" "2 ^ a" 1] ceil_div_pos [of "2 ^ i" "2 ^ a"] by (simp add: max_def)
qed

text \<open>A level of the tail is no larger than the rectangle that the table has for it.\<close>

lemma tail_level_fits:
  assumes "0 < unat texels" "unat texels \<le> 2 ^ 14" "per_element \<in> {1, 4}" "first + i < 16"
    "ShiftCeil (elements texels per_element) first \<le> limit" "unat limit \<le> 2 ^ a"
  shows "unat (mip_elements texels per_element (first + i)) \<le> max (2 ^ a div 2 ^ i) 1"
proof -
  have e: "unat (elements texels per_element) = ceil_div (unat texels) (unat per_element)"
    using unat_elements [of texels per_element] assms(2,3) by auto
  let ?W = "ceil_div (unat texels) (unat per_element)"
  have f: "ceil_div ?W (2 ^ first) \<le> 2 ^ a"
    using assms(4-6) by (simp add: word_le_nat_alt unat_ShiftCeil e)
  have "unat (mip_elements texels per_element (first + i)) \<le> ceil_div ?W (2 ^ first * 2 ^ i)"
    using mip_elements_le(1) [OF assms(1-4)] by (simp add: power_add)
  also have "\<dots> \<le> ceil_div (ceil_div ?W (2 ^ first)) (2 ^ i)" by (rule ceil_div_twice) simp_all
  also have "\<dots> \<le> ceil_div (2 ^ a) (2 ^ i)" using f by (intro ceil_div_mono) simp_all
  finally show ?thesis by (simp add: ceil_div_power)
qed

lemma tail_start_facts:
  assumes "tail_start w h tw th m levels = first"
  shows "first \<le> levels" "first < levels \<Longrightarrow> ShiftCeil w first \<le> tw" "first < levels \<Longrightarrow> ShiftCeil h first \<le> th" "levels - first \<le> m"
  using assms unfolding tail_start_def by (auto simp: find_Some_iff2 find_Some_iff split: if_splits option.splits)

lemma tail_levels_nth:
  assumes "i < length ps" "ps ! i = (level, x, y)" "L = tail_levels e width height off ps ! i"
  shows "lv_size L = mip_elements width (bl_texel_width e) level * mip_elements height (bl_texel_height e) level * bl_bytes e"
    "lv_src_size L = bl_block_size e" "lv_src_offset L = 0" "lv_x L = x" "lv_y L = y"
proof -
  have "lv_size L = mip_elements width (bl_texel_width e) level * mip_elements height (bl_texel_height e) level * bl_bytes e \<and>
    lv_src_size L = bl_block_size e \<and> lv_src_offset L = 0 \<and> lv_x L = x \<and> lv_y L = y"
    using assms
  proof (induction ps arbitrary: i off)
    case (Cons p ps)
    obtain l a b where p: "p = (l, a, b)" by (cases p)
    show ?case using Cons p by (cases i) (simp_all add: Let_def)
  qed simp
  then show "lv_size L = mip_elements width (bl_texel_width e) level * mip_elements height (bl_texel_height e) level * bl_bytes e"
    "lv_src_size L = bl_block_size e" "lv_src_offset L = 0" "lv_x L = x" "lv_y L = y" by blast+
qed

lemma length_tail_levels [simp]: "length (tail_levels e width height off ps) = length ps"
  by (induction ps arbitrary: off) (auto simp: Let_def)

section \<open>The bytes of a level\<close>

text \<open>The elements of a level of the tail, by their coordinates in the block.\<close>

definition cells :: "TileSizeOffset \<Rightarrow> u32 \<Rightarrow> u32 \<Rightarrow> (u32 \<times> u32) set" where
  "cells L w h = (\<lambda>(a, b). (lv_x L + a, lv_y L + b)) ` ({..<w} \<times> {..<h})"

definition footprint :: "TileBlockLayout \<Rightarrow> u32 \<Rightarrow> u32 \<Rightarrow> TileSizeOffset \<Rightarrow> nat set" where
  "footprint block w h L =
    (if in_tail L
     then \<Union>(x, y) \<in> cells L w h. case TileGetBlockOffset block x y 0 of
         Done (Some offset) \<Rightarrow> {unat (GetLevelSrcOffset L) + unat offset..<unat (GetLevelSrcOffset L) + unat offset + unat (tb_bytes_per_element block)}
       | _ \<Rightarrow> {}
     else {unat (GetLevelSrcOffset L)..<unat (GetLevelSrcOffset L) + unat (GetLevelSrcSize L)})"

lemma cells_in_rect:
  assumes "(x, y) \<in> cells L w h" "uint w \<le> rw" "uint h \<le> rh" "uint (lv_x L) + rw \<le> 2 ^ 16" "uint (lv_y L) + rh \<le> 2 ^ 16"
  shows "uint (lv_x L) \<le> uint x" "uint x < uint (lv_x L) + rw" "uint (lv_y L) \<le> uint y" "uint y < uint (lv_y L) + rh"
proof -
  obtain a b where ab: "a < w" "b < h" "x = lv_x L + a" "y = lv_y L + b" using assms(1) by (auto simp: cells_def)
  have "uint a < uint w" "uint b < uint h" using ab by (simp_all add: word_less_def)
  moreover have "uint (lv_x L + a) = uint (lv_x L) + uint a" "uint (lv_y L + b) = uint (lv_y L) + uint b"
    using calculation assms by (simp_all add: uint_add_lem [THEN iffD1])
  ultimately show "uint (lv_x L) \<le> uint x" "uint x < uint (lv_x L) + rw" "uint (lv_y L) \<le> uint y" "uint y < uint (lv_y L) + rh"
    using ab assms by simp_all
qed

lemma aligned_ranges:
  assumes "p mod b = 0" "q mod b = 0" "(p :: nat) \<noteq> q"
  shows "{p..<p + b} \<inter> {q..<q + b} = {}"
proof -
  obtain m n where e: "p = b * m" "q = b * n" using assms(1,2) by (auto simp: mod_eq_0_iff_dvd dvd_def)
  have "m < n \<or> n < m" using e assms(3) by auto
  then have "Suc m \<le> n \<or> Suc n \<le> m" by auto
  then have "b * Suc m \<le> b * n \<or> b * Suc n \<le> b * m" by (metis mult_le_mono2)
  then show ?thesis using e by auto
qed

section \<open>The two parts of the levels\<close>

lemma tail_limits_le:
  assumes "block_ok tile e k" "tile \<in> set tile_modes" "tile \<noteq> 1"
    "bl_block_width e = push_bit a 1" "a \<le> 8" "bl_block_height e = push_bit b 1" "b \<le> 8" "tail_limits e tile = (tw, th)"
  shows "unat tw \<le> 2 ^ (a - 1)" "unat th \<le> 2 ^ b"
proof -
  have ua: "unat (bl_block_width e) = 2 ^ a" "unat (bl_block_height e) = 2 ^ b"
    using assms(4-7) by (simp_all add: push_bit_eq_mult unat_pow)
  have "unat tw \<le> 2 ^ (a - 1) \<and> unat th \<le> 2 ^ b"
  proof (cases "tile = 24 \<and> bl_bytes e < 4")
    case True
    then have "k = 0 \<or> k = 1 \<or> k = 2 \<or> k = 3" using assms(1) by (auto simp: block_ok_def)
    then have "k = 0 \<or> k = 1" using True assms(1) by (elim disjE) (simp_all add: block_ok_def)
    then have w: "unat (bl_block_width e) = 2 ^ 8" "128 \<le> unat (bl_block_height e)" using True assms(1)
      by (auto simp: block_ok_def wh_log_def)
    then have "a = 8" using ua(1) power_inject_exp [of "2 :: nat" a 8] by simp
    then show ?thesis using True assms(8) w ua by (simp add: tail_limits_def)
  next
    case False
    then have e: "tw = drop_bit 1 (push_bit a 1)" "th = push_bit b 1" using assms(4,6,8) by (auto simp: tail_limits_def)
    have "unat tw = unat (push_bit a 1 :: u32) div 2" unfolding e by (simp add: unat_div_distrib drop_bit_Suc)
    also have "\<dots> = 2 ^ a div 2" using ua(1) assms(4) by simp
    also have "\<dots> \<le> 2 ^ (a - 1)" by (cases a) simp_all
    finally show ?thesis using ua(2) assms(6) e by simp
  qed
  then show "unat tw \<le> 2 ^ (a - 1)" "unat th \<le> 2 ^ b" by blast+
qed

definition first_tail :: "TextureBlockLayout \<Rightarrow> u32 \<Rightarrow> u32 \<Rightarrow> u32 \<Rightarrow> nat \<Rightarrow> nat" where
  "first_tail e tile width height levels =
    (case tail_limits e tile of (tw, th) \<Rightarrow>
      tail_start (elements width (bl_texel_width e)) (elements height (bl_texel_height e)) tw th (max_tail_levels e) levels)"

lemma uint_max_le:
  assumes "unat v \<le> max (2 ^ a div 2 ^ i) 1"
  shows "uint (v :: u32) \<le> max (int (2 ^ a) div 2 ^ i) 1"
proof -
  have "int (unat v) \<le> int (max (2 ^ a div 2 ^ i) 1)" using assms by (simp only: of_nat_le_iff)
  then show ?thesis by (simp add: of_nat_max zdiv_int)
qed

lemma tail_geometry:
  assumes "block_ok tile e k" "tile \<in> set tile_modes" "tile \<noteq> 1" "0 < width" "unat width \<le> 2 ^ 14" "0 < height" "unat height \<le> 2 ^ 14"
    "levels \<le> 16" "i < levels - first_tail e tile width height levels"
  shows "uint (mip_elements width (bl_texel_width e) (first_tail e tile width height levels + i)) \<le> max (uint (bl_block_width e) div 2 div 2 ^ i) 1"
    "uint (mip_elements height (bl_texel_height e) (first_tail e tile width height levels + i)) \<le> max (uint (bl_block_height e) div 2 ^ i) 1"
proof -
  let ?f = "first_tail e tile width height levels"
  obtain a b where ab: "bl_block_width e = push_bit a 1" "a \<le> 8" "bl_block_height e = push_bit b 1" "b \<le> 8" "1 \<le> a"
    using block_facts_tile(1) [OF assms(1,2)] assms(3) by blast
  obtain tw th where t: "tail_limits e tile = (tw, th)" by fastforce
  note lim = tail_limits_le [OF assms(1-3) ab(1-4) t]
  have f: "tail_start (elements width (bl_texel_width e)) (elements height (bl_texel_height e)) tw th (max_tail_levels e) levels = ?f"
    by (simp add: first_tail_def t)
  have lt: "?f + i < 16" "?f < levels" using assms(8,9) by simp_all
  have p: "0 < unat width" "0 < unat height" using assms(4,6) by (simp_all add: unat_gt_0)
  have W: "unat (mip_elements width (bl_texel_width e) (?f + i)) \<le> max (2 ^ (a - 1) div 2 ^ i) 1"
    by (rule tail_level_fits [OF p(1) assms(5) block_facts_tile(2) [OF assms(1,2)] lt(1) tail_start_facts(2) [OF f lt(2)] lim(1)])
  have H: "unat (mip_elements height (bl_texel_height e) (?f + i)) \<le> max (2 ^ b div 2 ^ i) 1"
    by (rule tail_level_fits [OF p(2) assms(7) block_facts_tile(3) [OF assms(1,2)] lt(1) tail_start_facts(3) [OF f lt(2)] lim(2)])
  have ub: "uint (bl_block_width e) = int (2 ^ a)" "uint (bl_block_height e) = int (2 ^ b)"
    using ab unfolding uint_nat by (simp_all add: push_bit_eq_mult unat_pow)
  have "uint (bl_block_width e) div 2 = int (2 ^ (a - 1))" using ub(1) ab(5) by (cases a) simp_all
  then show "uint (mip_elements width (bl_texel_width e) (?f + i)) \<le> max (uint (bl_block_width e) div 2 div 2 ^ i) 1"
    using uint_max_le [OF W] by simp
  show "uint (mip_elements height (bl_texel_height e) (?f + i)) \<le> max (uint (bl_block_height e) div 2 ^ i) 1"
    using uint_max_le [OF H] ub(2) by simp
qed


lemma sum_list_sizes:
  assumes "block_ok tile e k" "tile \<in> set tile_modes" "unat width \<le> 2 ^ 14" "unat height \<le> 2 ^ 14" "n \<le> 16"
    "(\<Sum>l<n. level_size e width height l) < 2 ^ 32"
  shows "sum_list (map unat (map (level_bytes e) (map (padded_level e (elements width (bl_texel_width e)) (elements height (bl_texel_height e))) [0..<n]))) =
    (\<Sum>l<n. level_size e width height l)"
proof -
  have "level_size e width height l < 2 ^ 32" if "l < n" for l
    using member_le_sum [of l "{..<n}" "level_size e width height"] that assms(6) by simp
  then have "unat (level_bytes e (padded_level e (elements width (bl_texel_width e)) (elements height (bl_texel_height e)) l)) = level_size e width height l"
    if "l < n" for l using level_bytes_exact [OF assms(1-4)] that assms(5) by simp
  then show ?thesis by (simp add: sum_list_sum_nth atLeast0LessThan)
qed

text \<open>The levels before the tail: their sizes and that they follow each other behind the block of the tail.\<close>

lemma macro_levels:
  assumes "block_ok tile e k" "tile \<in> set tile_modes" "tile \<noteq> 1" "unat width \<le> 2 ^ 14" "unat height \<le> 2 ^ 14" "levels \<le> 16"
    "unat (bl_block_size e) + (\<Sum>l<levels. level_size e width height l) < 2 ^ 32"
  defines "L \<equiv> SetMacroMipLayout e tile width height levels" and "f \<equiv> first_tail e tile width height levels"
  shows "length (tl_levels L) = levels"
    and "l < f \<Longrightarrow> \<not> in_tail (tl_levels L ! l)"
    and "l < f \<Longrightarrow> (if f < levels then unat (bl_block_size e) else 0) \<le> unat (GetLevelSrcOffset (tl_levels L ! l))"
    and "l < f \<Longrightarrow> unat (GetLevelSrcOffset (tl_levels L ! l)) + unat (GetLevelSrcSize (tl_levels L ! l)) \<le> unat (sz_size (tl_total L))"
    and "l < f \<Longrightarrow> m < l \<Longrightarrow> unat (GetLevelSrcOffset (tl_levels L ! l)) + unat (GetLevelSrcSize (tl_levels L ! l)) \<le> unat (GetLevelSrcOffset (tl_levels L ! m))"
    and "f < levels \<Longrightarrow> unat (bl_block_size e) \<le> unat (sz_size (tl_total L))"
    and "f \<le> levels" "levels - f \<le> length (tail_locations e)"
    and "f \<le> l \<Longrightarrow> l < levels \<Longrightarrow> tl_levels L ! l = tail_levels e width height 0 (zip [f..<levels] (tail_locations e)) ! (l - f)"
proof -
  let ?padded = "map (padded_level e (elements width (bl_texel_width e)) (elements height (bl_texel_height e))) [0..<f]"
  let ?szs = "map (level_bytes e) ?padded"
  obtain tw th where t: "tail_limits e tile = (tw, th)" by fastforce
  have f: "tail_start (elements width (bl_texel_width e)) (elements height (bl_texel_height e)) tw th (max_tail_levels e) levels = f"
    by (simp add: f_def first_tail_def t)
  show le: "f \<le> levels" and tl: "levels - f \<le> length (tail_locations e)"
    using tail_start_facts(1,4) [OF f] tail_facts(2) [OF assms(2,3,1)] by simp_all
  define init where "init = (if f < levels then bl_block_size e else 0)"
  obtain offs off where c: "chain init ?szs = (offs, off)" by fastforce
  have "(\<Sum>l<f. level_size e width height l) \<le> (\<Sum>l<levels. level_size e width height l)" using le by (intro sum_mono2) auto
  then have "unat init + (\<Sum>l<f. level_size e width height l) < 2 ^ 32" "(\<Sum>l<f. level_size e width height l) < 2 ^ 32"
    using assms(7) by (simp_all add: init_def)
  then have b: "unat init + sum_list (map unat ?szs) < 2 ^ 32"
    using sum_list_sizes [OF assms(1,2,4,5), of f] le assms(6) by simp
  have len: "length offs = f" and e: "unat off = unat init + sum_list (map unat ?szs)" using chain_exact [OF b] c by simp_all
  have L: "tl_total L = \<lparr>sz_size = off, sz_align = bl_block_size e\<rparr>"
    "tl_levels L = map2 (\<lambda>p off. \<lparr>lv_size = level_bytes e p, lv_offset = off, lv_src_size = level_bytes e p, lv_src_offset = off,
        lv_x = 0, lv_y = 0\<rparr>) ?padded offs @ tail_levels e width height 0 (zip [f..<levels] (tail_locations e))"
    unfolding L_def SetMacroMipLayout_def Let_def t prod.case f using c unfolding init_def by simp_all
  show "length (tl_levels L) = levels" using L(2) le tl len by simp
  have g: "GetLevelSrcOffset (tl_levels L ! l) = offs ! l" "GetLevelSrcSize (tl_levels L ! l) = ?szs ! l" "\<not> in_tail (tl_levels L ! l)" if "l < f" for l
    using that len by (simp_all add: L(2) nth_append GetLevelSrcOffset_def GetLevelSrcSize_def in_tail_def)
  note C = chain_order [OF b c]
  show "\<not> in_tail (tl_levels L ! l)" if "l < f" using g(3) that by simp
  show "(if f < levels then unat (bl_block_size e) else 0) \<le> unat (GetLevelSrcOffset (tl_levels L ! l))" if "l < f"
    using C(1) [of l] that unfolding g(1) [OF that] by (simp add: init_def split: if_splits)
  show "unat (GetLevelSrcOffset (tl_levels L ! l)) + unat (GetLevelSrcSize (tl_levels L ! l)) \<le> unat (sz_size (tl_total L))" if "l < f"
    using C(2) [of l] that unfolding g(1,2) [OF that] L(1) by simp
  show "unat (GetLevelSrcOffset (tl_levels L ! l)) + unat (GetLevelSrcSize (tl_levels L ! l)) \<le> unat (GetLevelSrcOffset (tl_levels L ! m))"
    if "l < f" "m < l"
    using C(3) [of l m] that g(1) [of m] unfolding g(1,2) [OF that(1)] by simp
  show "unat (bl_block_size e) \<le> unat (sz_size (tl_total L))" if "f < levels" using that e L(1) by (simp add: init_def)
  show "tl_levels L ! l = tail_levels e width height 0 (zip [f..<levels] (tail_locations e)) ! (l - f)" if "f \<le> l" "l < levels"
    using that len by (simp add: L(2) nth_append)
qed

lemma product_le: "unat (v * w * b) \<le> unat v * unat w * unat (b :: u32)"
proof -
  have "unat (v * w * b) \<le> unat (v * w) * unat b" by (simp add: unat_word_ariths)
  moreover have "unat (v * w) \<le> unat v * unat w" by (simp add: unat_word_ariths)
  ultimately show ?thesis by (meson le_trans mult_le_mono1)
qed

lemma half_product:
  assumes "2 * v \<le> w" "p \<le> q" "(n :: nat) \<le> v * p * b"
  shows "2 * n \<le> w * q * b"
proof -
  have "2 * n \<le> (2 * v) * p * b" using assms(3) by simp
  also have "\<dots> \<le> w * q * b" using assms(1,2) by (intro mult_le_mono) simp_all
  finally show ?thesis .
qed

text \<open>The levels of the tail: their elements lie in the block, in rectangles of their own.\<close>

lemma tail_cells:
  assumes "block_ok tile e k" "tile \<in> set tile_modes" "tile \<noteq> 1" "0 < width" "unat width \<le> 2 ^ 14" "0 < height" "unat height \<le> 2 ^ 14"
    "levels \<le> 16" "f = first_tail e tile width height levels" "f \<le> levels" "levels - f \<le> length (tail_locations e)"
    "\<And>l. f \<le> l \<Longrightarrow> l < levels \<Longrightarrow> T l = tail_levels e width height 0 (zip [f..<levels] (tail_locations e)) ! (l - f)"
    "\<And>l. C l = cells (T l) (mip_elements width (bl_texel_width e) l) (mip_elements height (bl_texel_height e) l)"
    "f \<le> l" "l < levels"
  shows "in_tail (T l)" "GetLevelSrcOffset (T l) = 0" "C l \<subseteq> {..<bl_block_width e} \<times> {..<bl_block_height e}"
    "f \<le> m \<Longrightarrow> m < l \<Longrightarrow> C l \<inter> C m = {}"
proof -
  let ?bw = "uint (bl_block_width e)" and ?bh = "uint (bl_block_height e)"
  let ?r = "rects (?bw div 2) ?bh (tail_locations e)"
  let ?w = "\<lambda>l. mip_elements width (bl_texel_width e) l" and ?h = "\<lambda>l. mip_elements height (bl_texel_height e) l"
  obtain a b where ab: "bl_block_width e = push_bit a 1" "a \<le> 8" "bl_block_height e = push_bit b 1" "b \<le> 8" "1 \<le> a"
    using block_facts_tile(1) [OF assms(1,2)] assms(3) by blast
  have ub: "unat (bl_block_width e) = 2 ^ a" "unat (bl_block_height e) = 2 ^ b" using ab by (simp_all add: push_bit_eq_mult unat_pow)
  have "(2 :: nat) ^ a \<le> 2 ^ 8" "(2 :: nat) ^ b \<le> 2 ^ 8" "(2 :: nat) \<le> 2 ^ a"
    using ab power_increasing [of a 8 "2 :: nat"] power_increasing [of b 8 "2 :: nat"] power_increasing [of 1 a "2 :: nat"] by simp_all
  then have "unat (bl_block_width e) \<le> 256" "unat (bl_block_height e) \<le> 256" "2 \<le> unat (bl_block_width e)" "1 \<le> unat (bl_block_height e)"
    unfolding ub by simp_all
  then have small: "?bw \<le> 256" "?bh \<le> 256" "2 \<le> ?bw" "1 \<le> ?bh" unfolding uint_nat by linarith+
  define rw where "rw l = max (?bw div 2 div 2 ^ (l - f)) 1" for l
  define rh where "rh l = max (?bh div 2 ^ (l - f)) 1" for l
  have T: "lv_size (T l) = ?w l * ?h l * bl_bytes e" "lv_src_size (T l) = bl_block_size e" "lv_src_offset (T l) = 0"
    "?r ! (l - f) = (uint (lv_x (T l)), uint (lv_y (T l)), rw l, rh l)"
    "rect_inside ?bw ?bh (?r ! (l - f))" "l - f < length ?r"
    "uint (?w l) \<le> rw l" "uint (?h l) \<le> rh l"
    if "f \<le> l" "l < levels" for l
  proof -
    let ?i = "l - f"
    have i: "?i < length (tail_locations e)" "?i < levels - f" using that assms(11) by simp_all
    obtain x y where xy: "tail_locations e ! ?i = (x, y)" by fastforce
    have z: "zip [f..<levels] (tail_locations e) ! ?i = (l, x, y)" using i that xy by simp
    have n: "?i < length (zip [f..<levels] (tail_locations e))" using i by simp
    note N = tail_levels_nth [OF n z assms(12) [OF that]]
    show "lv_size (T l) = ?w l * ?h l * bl_bytes e" "lv_src_size (T l) = bl_block_size e" "lv_src_offset (T l) = 0" by (rule N)+
    show "?r ! ?i = (uint (lv_x (T l)), uint (lv_y (T l)), rw l, rh l)"
      unfolding rw_def rh_def using rects_nth [OF i(1)] xy N(4,5) by simp
    show l: "?i < length ?r" using i(1) by simp
    show "rect_inside ?bw ?bh (?r ! ?i)" using tail_facts(1) [OF assms(2,3,1)] nth_mem [OF l] unfolding tail_ok_def by blast
    show "uint (?w l) \<le> rw l" "uint (?h l) \<le> rh l"
      unfolding rw_def rh_def using tail_geometry [OF assms(1-8), of ?i] i(2) that unfolding assms(9) by simp_all
  qed
  have bound: "rw l \<le> ?bw div 2" "rh l \<le> ?bh" for l
    unfolding rw_def rh_def using small zdiv_mono2 [of "?bw div 2" 1 "2 ^ (l - f)"] zdiv_mono2 [of ?bh 1 "2 ^ (l - f)"] by simp_all
  have inside: "uint (lv_x (T l)) + rw l \<le> ?bw" "uint (lv_y (T l)) + rh l \<le> ?bh"
    if "f \<le> l" "l < levels" for l
    using T(5) [OF that] unfolding T(4) [OF that] rect_inside_def by simp_all
  have R: "uint (lv_x (T l)) \<le> uint x" "uint x < uint (lv_x (T l)) + rw l"
    "uint (lv_y (T l)) \<le> uint y" "uint y < uint (lv_y (T l)) + rh l"
    if "f \<le> l" "l < levels" "(x, y) \<in> C l" for l x y
    using cells_in_rect [OF that(3) [unfolded assms(13)] T(7,8) [OF that(1,2)]] inside [OF that(1,2)] small by simp_all
  show "C l \<subseteq> {..<bl_block_width e} \<times> {..<bl_block_height e}"
  proof (rule subrelI)
    fix x y assume "(x, y) \<in> C l"
    from R [OF assms(14,15) this] inside [OF assms(14,15)] have "uint x < ?bw" "uint y < ?bh" by linarith+
    then show "(x, y) \<in> {..<bl_block_width e} \<times> {..<bl_block_height e}" by (simp add: word_less_def)
  qed
  show "C l \<inter> C m = {}" if "f \<le> m" "m < l"
  proof -
    have m: "m < levels" using that(2) assms(15) by simp
    have "sorted_wrt rects_apart ?r" using tail_facts(1) [OF assms(2,3,1)] unfolding tail_ok_def by blast
    then have "rects_apart (?r ! (m - f)) (?r ! (l - f))"
      using sorted_wrt_nth_less [of rects_apart ?r "m - f" "l - f"] that T(6) [OF assms(14,15)] by simp
    then have A: "rects_apart (uint (lv_x (T m)), uint (lv_y (T m)), rw m, rh m)
        (uint (lv_x (T l)), uint (lv_y (T l)), rw l, rh l)"
      unfolding T(4) [OF assms(14,15)] T(4) [of m, OF that(1) m] .
    have "False" if p: "(x, y) \<in> C l" "(x, y) \<in> C m" for x y
      using A R [OF assms(14,15) p(1)] R [OF \<open>f \<le> m\<close> m p(2)] unfolding rects_apart_def prod.case by linarith
    then show ?thesis by auto
  qed
  have "2 * uint (?w l) \<le> ?bw" "uint (?h l) \<le> ?bh"
    using T(7,8) [OF assms(14,15)] bound [of l] by linarith+
  then have "2 * unat (?w l) \<le> unat (bl_block_width e)" "unat (?h l) \<le> unat (bl_block_height e)" unfolding uint_nat by linarith+
  moreover have "unat (lv_size (T l)) \<le> unat (?w l) * unat (?h l) * unat (bl_bytes e)"
    unfolding T(1) [OF assms(14,15)] by (rule product_le)
  ultimately have "2 * unat (lv_size (T l)) \<le> unat (bl_block_size e)"
    unfolding block_facts_tile(5) [OF assms(1,2)] by (rule half_product)
  moreover have "bl_block_size e \<noteq> 0" using assms(1) by (simp add: block_ok_def size_log_def)
  then have "0 < unat (bl_block_size e)" by (simp add: unat_gt_0)
  ultimately show "in_tail (T l)" by (simp add: in_tail_def word_less_nat_alt T(2) [OF assms(14,15)])
  show "GetLevelSrcOffset (T l) = 0" using T(2,3) [OF assms(14,15)] \<open>bl_block_size e \<noteq> 0\<close> by (simp add: GetLevelSrcOffset_def)
qed

section \<open>No two levels share a byte\<close>

text \<open>The bytes of a level of the tail, through the bijection between the elements and the places of a block.\<close>

lemma tail_footprint:
  assumes "TileGetBlockLayout family (bl_bytes e) = Some block" "same_block e block"
    "unat (bl_block_size e) = n * unat (bl_bytes e)" "bl_bytes e \<noteq> 0"
  shows "\<exists>F. (\<forall>w h L. in_tail L \<longrightarrow> GetLevelSrcOffset L = 0 \<longrightarrow> cells L w h \<subseteq> {..<bl_block_width e} \<times> {..<bl_block_height e} \<longrightarrow>
      footprint block w h L = (\<Union>c \<in> cells L w h. F c) \<and> (\<forall>(x, y) \<in> cells L w h. \<exists>offset. TileGetBlockOffset block x y 0 = Done (Some offset))) \<and>
    (\<forall>c \<in> {..<bl_block_width e} \<times> {..<bl_block_height e}. F c \<subseteq> {..<unat (bl_block_size e)} \<and>
      (\<forall>d \<in> {..<bl_block_width e} \<times> {..<bl_block_height e}. c \<noteq> d \<longrightarrow> F c \<inter> F d = {}))"
proof -
  let ?D = "{..<bl_block_width e} \<times> {..<bl_block_height e}" and ?b = "unat (bl_bytes e)"
  note S = assms(2) [unfolded same_block_def]
  obtain place where P: "bij_betw place ({..<bl_block_width e} \<times> {..<bl_block_height e} \<times> {..<1})
      {offset. offset < bl_block_size e \<and> offset mod bl_bytes e = 0}"
    "\<And>x y z. TileGetBlockOffset block x y z =
      Done (if x < bl_block_width e \<and> y < bl_block_height e \<and> z < 1 then Some (place (x, y, z)) else None)"
    using block_places [OF assms(1)] S by auto
  let ?p = "\<lambda>(x, y). unat (place (x, y, 0))"
  let ?F = "\<lambda>c. {?p c..<?p c + ?b}"
  have p: "?p c mod ?b = 0" "?p c + ?b \<le> unat (bl_block_size e)" if c: "c \<in> ?D" for c
  proof -
    obtain x y where xy: "c = (x, y)" by (cases c)
    have m: "place (x, y, 0) < bl_block_size e" "place (x, y, 0) mod bl_bytes e = 0"
      using bij_betwE [OF P(1)] c xy by fastforce+
    then show d: "?p c mod ?b = 0" using xy unat_mod_distrib [of "place (x, y, 0)" "bl_bytes e"] by simp
    define k where "k = ?p c div ?b"
    have k: "?p c = k * ?b" using d div_mult_mod_eq [of "?p c" ?b] by (simp add: k_def)
    have "k * ?b < n * ?b" using m(1) k xy assms(3) by (simp add: word_less_nat_alt)
    then have "Suc k \<le> n" by simp
    then have "Suc k * ?b \<le> n * ?b" by (rule mult_le_mono1)
    then show "?p c + ?b \<le> unat (bl_block_size e)" using k assms(3) by simp
  qed
  have inj: "?p c \<noteq> ?p d" if "c \<in> ?D" "d \<in> ?D" "c \<noteq> d" for c d
  proof -
    obtain x y x' y' where e: "c = (x, y)" "d = (x', y')" by (cases c; cases d) auto
    have "place (x, y, 0) \<noteq> place (x', y', 0)" using inj_onD [OF bij_betw_imp_inj_on [OF P(1)], of "(x, y, 0)" "(x', y', 0)"] that e by auto
    then show ?thesis by (simp add: e word_unat_eq_iff)
  qed
  show ?thesis
  proof (rule exI [of _ ?F], intro conjI allI impI ballI)
    fix w h L assume L: "in_tail L" "GetLevelSrcOffset L = 0" "cells L w h \<subseteq> ?D"
    have o: "TileGetBlockOffset block x y 0 = Done (Some (place (x, y, 0)))" if "(x, y) \<in> cells L w h" for x y
      using that L(3) P(2) by auto
    then show "case c of (x, y) \<Rightarrow> \<exists>offset. TileGetBlockOffset block x y 0 = Done (Some offset)" if "c \<in> cells L w h" for c
      using that by (cases c) simp
    have "(case c of (x, y) \<Rightarrow> case TileGetBlockOffset block x y 0 of
         Done (Some offset) \<Rightarrow> {unat (GetLevelSrcOffset L) + unat offset..<unat (GetLevelSrcOffset L) + unat offset + unat (tb_bytes_per_element block)}
       | _ \<Rightarrow> {}) = ?F c" if "c \<in> cells L w h" for c
      using that o L(2) S by (cases c) simp
    then show "footprint block w h L = (\<Union>c \<in> cells L w h. ?F c)" unfolding footprint_def if_P [OF L(1)] by (intro SUP_cong refl)
  next
    fix c assume c: "c \<in> ?D"
    show "?F c \<subseteq> {..<unat (bl_block_size e)}" using p(2) [OF c] by auto
    show "?F c \<inter> ?F d = {}" if "d \<in> ?D" "c \<noteq> d" for d
      by (rule aligned_ranges [OF p(1) [OF c] p(1) [OF that(1)] inj [OF c that]])
  qed
qed


text \<open>What the tiled layouts share: every level has bytes of its own.\<close>

definition levels_apart :: "TileBlockLayout \<Rightarrow> (nat \<Rightarrow> u32) \<Rightarrow> (nat \<Rightarrow> u32) \<Rightarrow> nat \<Rightarrow> tile_layout \<Rightarrow> bool" where
  "levels_apart block w h levels L \<longleftrightarrow> length (tl_levels L) = levels \<and>
    (\<forall>l < levels. in_tail (tl_levels L ! l) \<longrightarrow>
      (\<forall>(x, y) \<in> cells (tl_levels L ! l) (w l) (h l). \<exists>offset. TileGetBlockOffset block x y 0 = Done (Some offset))) \<and>
    (\<forall>l < levels. footprint block (w l) (h l) (tl_levels L ! l) \<subseteq> {..<unat (sz_size (tl_total L))}) \<and>
    (\<forall>l < levels. \<forall>m < l. footprint block (w l) (h l) (tl_levels L ! l) \<inter> footprint block (w m) (h m) (tl_levels L ! m) = {})"

lemma micro_apart:
  assumes "block_ok 1 e k" "unat width \<le> 2 ^ 14" "unat height \<le> 2 ^ 14" "levels \<le> 16" "(\<Sum>l<levels. level_size e width height l) < 2 ^ 32"
  shows "levels_apart block w h levels (SetMicroMipLayout e width height levels)"
proof -
  let ?L = "SetMicroMipLayout e width height levels"
  let ?padded = "map (padded_level e (elements width (bl_texel_width e)) (elements height (bl_texel_height e))) [0..<levels]"
  let ?szs = "map (level_bytes e) ?padded"
  obtain offs off where c: "chain 0 ?szs = (offs, off)" by fastforce
  have b: "unat 0 + sum_list (map unat ?szs) < 2 ^ 32"
    using sum_list_sizes [OF assms(1) _ assms(2-5)] assms(5) by (simp add: tile_modes_def)
  have len: "length offs = levels" using chain_exact [OF b] c by simp
  have L: "tl_total ?L = \<lparr>sz_size = off, sz_align = bl_block_size e\<rparr>"
    "tl_levels ?L = map2 (\<lambda>p off. \<lparr>lv_size = level_bytes e p, lv_offset = off, lv_src_size = 0, lv_src_offset = 0, lv_x = 0, lv_y = 0\<rparr>) ?padded offs"
    unfolding SetMicroMipLayout_def Let_def using c by simp_all
  have g: "footprint block (w l) (h l) (tl_levels ?L ! l) = {unat (offs ! l)..<unat (offs ! l) + unat (?szs ! l)}" "\<not> in_tail (tl_levels ?L ! l)" if "l < levels" for l
    using that len by (simp_all add: L(2) footprint_def GetLevelSrcOffset_def GetLevelSrcSize_def in_tail_def)
  have "footprint block (w l) (h l) (tl_levels ?L ! l) \<subseteq> {..<unat (sz_size (tl_total ?L))}" if "l < levels" for l
    using chain_order(2) [OF b c, of l] that unfolding g(1) [OF that] L(1) by auto
  moreover have "footprint block (w l) (h l) (tl_levels ?L ! l) \<inter> footprint block (w m) (h m) (tl_levels ?L ! m) = {}" if "l < levels" "m < l" for l m
    using chain_order(3) [OF b c, of l m] that g(1) [of m] unfolding g(1) [OF that(1)] by auto
  ultimately show ?thesis using g(2) L(2) len unfolding levels_apart_def by simp
qed

lemma macro_apart:
  assumes "block_ok tile e k" "tile \<in> set tile_modes" "tile \<noteq> 1" "0 < width" "unat width \<le> 2 ^ 14" "0 < height" "unat height \<le> 2 ^ 14" "levels \<le> 16"
    "unat (bl_block_size e) + (\<Sum>l<levels. level_size e width height l) < 2 ^ 32"
    "TileGetBlockLayout (tile_family tile) (bl_bytes e) = Some block" "same_block e block"
  shows "levels_apart block (mip_elements width (bl_texel_width e)) (mip_elements height (bl_texel_height e)) levels
    (SetMacroMipLayout e tile width height levels)"
proof -
  let ?L = "SetMacroMipLayout e tile width height levels" and ?f = "first_tail e tile width height levels"
  let ?T = "\<lambda>l. tl_levels ?L ! l" and ?w = "mip_elements width (bl_texel_width e)" and ?h = "mip_elements height (bl_texel_height e)"
  let ?D = "{..<bl_block_width e} \<times> {..<bl_block_height e}"
  note M = macro_levels [OF assms(1-3,5,7-9)]
  have "bl_bytes e \<noteq> 0" using block_facts_tile(4) [OF assms(1,2)] by (auto simp: element_sizes_def)
  then have "\<exists>F. (\<forall>w h L. in_tail L \<longrightarrow> GetLevelSrcOffset L = 0 \<longrightarrow> cells L w h \<subseteq> ?D \<longrightarrow>
      footprint block w h L = (\<Union>c \<in> cells L w h. F c) \<and> (\<forall>(x, y) \<in> cells L w h. \<exists>offset. TileGetBlockOffset block x y 0 = Done (Some offset))) \<and>
    (\<forall>c \<in> ?D. F c \<subseteq> {..<unat (bl_block_size e)} \<and> (\<forall>d \<in> ?D. c \<noteq> d \<longrightarrow> F c \<inter> F d = {}))"
    by (rule tail_footprint [OF assms(10,11) block_facts_tile(5) [OF assms(1,2)]])
  then obtain F where A: "\<forall>w h L. in_tail L \<longrightarrow> GetLevelSrcOffset L = 0 \<longrightarrow> cells L w h \<subseteq> ?D \<longrightarrow>
      footprint block w h L = (\<Union>c \<in> cells L w h. F c) \<and> (\<forall>(x, y) \<in> cells L w h. \<exists>offset. TileGetBlockOffset block x y 0 = Done (Some offset))"
    and B: "\<forall>c \<in> ?D. F c \<subseteq> {..<unat (bl_block_size e)} \<and> (\<forall>d \<in> ?D. c \<noteq> d \<longrightarrow> F c \<inter> F d = {})"
    by (elim exE conjE)
  note F = A [rule_format] B [rule_format, THEN conjunct1] B [rule_format, THEN conjunct2, rule_format]
  note tc = tail_cells [OF assms(1-8) refl M(7,8), where T = ?T and C = "\<lambda>l. cells (?T l) (?w l) (?h l)"]
  have tail: "in_tail (?T l)" "GetLevelSrcOffset (?T l) = 0" "cells (?T l) (?w l) (?h l) \<subseteq> ?D"
    "?f \<le> m \<Longrightarrow> m < l \<Longrightarrow> cells (?T l) (?w l) (?h l) \<inter> cells (?T m) (?w m) (?h m) = {}" if "?f \<le> l" "l < levels" for l m
    by (rule tc(1), erule (1) M(9), rule refl, (rule that)+)
      (rule tc(2), erule (1) M(9), rule refl, (rule that)+, rule tc(3), erule (1) M(9), rule refl, (rule that)+,
        rule tc(4), erule (1) M(9), rule refl, (rule that)+)
  have t: "footprint block (?w l) (?h l) (?T l) = (\<Union>c \<in> cells (?T l) (?w l) (?h l). F c)"
    "\<forall>(x, y) \<in> cells (?T l) (?w l) (?h l). \<exists>offset. TileGetBlockOffset block x y 0 = Done (Some offset)"
    "footprint block (?w l) (?h l) (?T l) \<subseteq> {..<unat (bl_block_size e)}" if "?f \<le> l" "l < levels" for l
  proof -
    show e: "footprint block (?w l) (?h l) (?T l) = (\<Union>c \<in> cells (?T l) (?w l) (?h l). F c)"
      and "\<forall>(x, y) \<in> cells (?T l) (?w l) (?h l). \<exists>offset. TileGetBlockOffset block x y 0 = Done (Some offset)"
      by (rule F(1) [OF tail(1-3) [OF that], THEN conjunct1], rule F(1) [OF tail(1-3) [OF that], THEN conjunct2])
    show "footprint block (?w l) (?h l) (?T l) \<subseteq> {..<unat (bl_block_size e)}"
      unfolding e by (rule UN_least, rule F(2), rule subsetD [OF tail(3) [OF that]])
  qed
  have n: "footprint block (?w l) (?h l) (?T l) = {unat (GetLevelSrcOffset (?T l))..<unat (GetLevelSrcOffset (?T l)) + unat (GetLevelSrcSize (?T l))}"
    if "l < ?f" for l using M(2) [OF that] by (simp add: footprint_def)
  have total: "footprint block (?w l) (?h l) (?T l) \<subseteq> {..<unat (sz_size (tl_total ?L))}" if "l < levels" for l
  proof (cases "l < ?f")
    case True
    then show ?thesis using M(4) [OF True] n [OF True] by auto
  next
    case False
    then show ?thesis using t(3) [of l] M(6) that by auto
  qed
  have apart: "footprint block (?w l) (?h l) (?T l) \<inter> footprint block (?w m) (?h m) (?T m) = {}" if "l < levels" "m < l" for l m
  proof -
    consider "l < ?f" | "?f \<le> l" "m < ?f" | "?f \<le> m" by linarith
    then show ?thesis
    proof cases
      case 1
      then show ?thesis using M(5) [OF 1 that(2)] n [OF 1] n [of m] that(2) by auto
    next
      case 2
      then show ?thesis using M(3) [OF 2(2)] n [OF 2(2)] t(3) [OF 2(1) that(1)] that(1) by auto
    next
      case 3
      have l: "?f \<le> l" and m: "m < levels" using 3 that by simp_all
      have "F c \<inter> F d = {}" if cd: "c \<in> cells (?T l) (?w l) (?h l)" "d \<in> cells (?T m) (?w m) (?h m)" for c d
      proof -
        have "c \<noteq> d" using tail(4) [OF l \<open>l < levels\<close> 3 \<open>m < l\<close>] cd by auto
        moreover have "c \<in> ?D" "d \<in> ?D" using tail(3) [OF l \<open>l < levels\<close>] tail(3) [OF 3 m] cd by (simp_all only: subsetD)
        ultimately show ?thesis by (intro F(3))
      qed
      then show ?thesis unfolding t(1) [OF l that(1)] t(1) [OF 3 m] by blast
    qed
  qed
  have acc: "\<forall>(x, y) \<in> cells (?T l) (?w l) (?h l). \<exists>offset. TileGetBlockOffset block x y 0 = Done (Some offset)" if "l < levels" "in_tail (?T l)" for l
  proof (rule t(2) [OF _ that(1)])
    show "?f \<le> l" using M(2) [of l] that(2) by (cases "l < ?f") simp_all
  qed
  show ?thesis unfolding levels_apart_def by (intro conjI allI impI M(1) acc total apart)
qed

text \<open>C40. A tiled texture of at most 16384 by 16384 texels whose padded levels fit in 32 bits is laid out without wrapping around: every level,
  those packed in the mip tail included, lies within the total size, every element of a level of the tail has a place in the block, and no two
  levels share a byte.\<close>

theorem mip_levels_apart:
  assumes "GetTextureBlockLayout format tile = Some e" "1 \<le> levels" "levels \<le> 16" "0 < width" "width \<le> 16384" "0 < height" "height \<le> 16384"
    "tile = 27 \<and> levels = 1 \<longrightarrow> TileIsRenderTargetPitchValid width pitch (bl_bytes e) 0"
    "base = (if tile = 27 \<and> levels = 1 then pitch else width)"
    "unat (bl_block_size e) + (\<Sum>l<levels. level_size e base height l) < 2 ^ 32"
  shows "\<exists>block L. TileGetBlockLayout (tile_family tile) (bl_bytes e) = Some block \<and>
    TileGetTextureSize format width height pitch levels tile total_in = Done (Some L) \<and>
    levels_apart block (mip_elements base (bl_texel_width e)) (mip_elements height (bl_texel_height e)) levels L"
proof -
  note t = texture_block_cases(1) [OF assms(1)]
  obtain k where k: "block_ok tile e k" using texture_block_cases(2) [OF assms(1)] by blast
  obtain block where b: "TileGetBlockLayout (tile_family tile) (bl_bytes e) = Some block" "same_block e block" using block_of_tile [OF t k] by blast
  have "width \<le> base" and base: "unat base \<le> 2 ^ 14" "unat height \<le> 2 ^ 14"
    using assms(4-9) by (auto simp: TileIsRenderTargetPitchValid_def word_le_nat_alt split: if_splits)
  from assms(4) \<open>width \<le> base\<close> have pos: "0 < base" by (rule less_le_trans)
  let ?L = "if tile = 1 then SetMicroMipLayout e width height levels else SetMacroMipLayout e tile base height levels"
  have "tile \<noteq> 0" using t by (auto simp: tile_modes_def)
  then have "TileGetTextureSize format width height pitch levels tile total_in = Done (Some ?L)"
    using assms(1-3,8,9) by (auto simp: TileGetTextureSize_def tiled_layout_def Let_def)
  moreover have "levels_apart block (mip_elements base (bl_texel_width e)) (mip_elements height (bl_texel_height e)) levels ?L"
  proof (cases "tile = 1")
    case True
    then show ?thesis using micro_apart [of e k width height levels] k assms(3,9,10) base by simp
  next
    case False
    then show ?thesis using macro_apart [OF k t False pos base(1) assms(6) base(2) assms(3,10) b] by simp
  qed
  ultimately show ?thesis using b(1) by blast
qed

theorem mip_levels_apart_witness:
  "\<exists>block L. TileGetBlockLayout Standard64KB 4 = Some block \<and> TileGetTextureSize 56 512 256 512 10 9 None = Done (Some L) \<and>
    levels_apart block (mip_elements 512 1) (mip_elements 256 1) 10 L"
proof -
  let ?e = "\<lparr>bl_bytes = 4, bl_texel_width = 1, bl_texel_height = 1, bl_block_width = 128, bl_block_height = 128, bl_block_size = 65536\<rparr>"
  have e: "GetTextureBlockLayout 56 9 = Some ?e" by code_simp
  have s: "(\<Sum>l<(10 :: nat). level_size ?e 512 256 l) \<le> (\<Sum>l<(10 :: nat). 524288)"
  proof (rule sum_mono)
    fix l :: nat assume "l \<in> {..<10}"
    then have "l = 0 \<or> l = 1 \<or> l = 2 \<or> l = 3 \<or> l = 4 \<or> l = 5 \<or> l = 6 \<or> l = 7 \<or> l = 8 \<or> l = 9" by auto
    then show "level_size ?e 512 256 l \<le> 524288" by (elim disjE) (simp_all add: level_size_def side_def ceil_div_def)
  qed
  show ?thesis using mip_levels_apart [OF e, of 10 512 256 512 512 None] s by (simp add: tile_family_def)
qed

text \<open>
  The bound is needed: the sum is not checked as that of a linear texture is, and a texture of 16384 by 16384 elements of 16 bytes is given the size
  zero.
\<close>

lemma mip_total_wraps:
  "case TileGetTextureSize 77 16384 16384 16384 1 9 (Some 0) of Done (Some L) \<Rightarrow> tl_total L = \<lparr>sz_size = 0, sz_align = 65536\<rparr> | _ \<Rightarrow> False"
  by code_simp

end
