(* ===== verification/Spec2Isabelle.thy ===== *)
theory Spec2Isabelle
  imports VirtualRangesProps PhysicalMemoryProps GuestSpaceProps FlexibleMemoryProps PooledMemoryProps LinkerBoundsProps
    EventFlagProps SemaphoreProps PosixSemaphoreProps DateTimeProps RangeSetProps BitArrayProps
    PthreadSyncProps PthreadRwlockProps PthreadAttr PthreadKeys MemoryTrackerProps X64EmulatorProps X64DecodeProps
    EventQueueWait TileMipProps
begin

text \<open>
  Verification of the core of Prosperismo, a PlayStation 5 emulator in C++. The program loads a guest
  executable, gives it an address space and the kernel services it calls, and translates its graphics
  commands to Vulkan. The development models the parts that decide what the guest can observe and that
  are plain algorithms over state. All paths are below \<open>src/src/\<close>.

  \<^bold>\<open>Conventions.\<close> A \<open>w\<close>-bit unsigned integer is a word of that width, so every wrap-around of the source is one of
  the model; \<open>int\<close> and \<open>int64_t\<close> values are \<open>int\<close> where no operation can leave the range, and otherwise the
  overflow is written out. Error codes are integers. A function that may call the macro \<open>EXIT\<close>, which ends the process, returns an
  \<open>outcome\<close>: \<open>Done\<close> a value, or \<open>Exit\<close>. Output parameters are components of the result, so the null-pointer
  checks on them have no counterpart. A \<open>std::map\<close> keyed by addresses is a sorted association list, a \<open>std::vector\<close> a list.
  What the host's operating system answers is an argument of the definitions, and
  the properties hold for every answer. A mutex makes its critical section one step.

  \<^bold>\<open>Shared theories.\<close> \<open>Prelude\<close> has the integer types, error codes, outcomes and list lemmas; \<open>Spans\<close> containers of
  address ranges, with the locale \<open>free_space\<close> for the four free lists of the program; \<open>Regions\<close> lists of address regions with
  attributes, with the locale \<open>regions\<close>; \<open>Machine\<close> threads that share an object, with the locales for invariants kept by
  every step and for phases in which a number of threads drains.

  \<^bold>\<open>Guest memory\<close> (\<open>kernel/memory.cpp\<close>, \<open>kernel/memoryAddressSpace.inc\<close>, \<open>common/virtualMemory.h\<close>).
  \<^item> \<open>VirtualRanges\<close>, \<open>VirtualRangesSpec\<close>, \<open>VirtualRangesProps\<close>: the class \<open>VirtualRanges\<close>, the guest's view of what is mapped where.
    Its list refines a map from addresses to attributes; adding, removing and editing are
    pointwise updates of that map, and ranges stay sorted, disjoint and non-empty.
  \<^item> \<open>PhysicalMemory\<close>, \<open>PhysicalMappings\<close>, \<open>PhysicalMemorySpec\<close>, \<open>PhysicalMemoryProps\<close>: the class \<open>PhysicalMemory\<close>, direct memory. Free
    ranges and allocated blocks partition the store; allocation takes the least fitting address, release takes back exactly
    the span, mappings refer to allocated memory.
  \<^item> \<open>GuestSpace\<close>, \<open>GuestSpaceSpec\<close>, \<open>GuestAddressSpec\<close>, \<open>GuestBackingSpec\<close>, \<open>GuestSpaceProps\<close>: the classes \<open>GuestBackingStore\<close> and
    \<open>GuestAddressSpace\<close> in their Linux branches, with the results of \<open>mmap\<close> and \<open>mprotect\<close> as arguments. Unmapping is all or nothing whatever the
    host does. The recursion of \<open>UnmapOne\<close> is at most two deep, because the second call meets no mapped neighbour; the model unrolls it.
  \<^item> \<open>FlexibleMemory\<close>, \<open>FlexibleMemorySpec\<close>, \<open>FlexibleMemoryEdit\<close>, \<open>FlexibleMemoryProps\<close>: the class \<open>FlexibleMemory\<close> on top of the guest
    space. Snapshot and restore are inverse.
  \<^item> \<open>PooledMemory\<close>, \<open>PooledMemorySpec\<close>, \<open>PooledMemoryRelease\<close>, \<open>PooledMemoryProps\<close>: the class \<open>PooledMemory\<close>, its transactional unmapping, and the
    search \<open>FindGuestFreeRange\<close> for guest addresses.

  \<^bold>\<open>Loader\<close> (\<open>loader/runtimeLinkerBounds.h\<close>, \<open>loader/runtimeLinkerLifecycle.h\<close>). \<open>LinkerBounds\<close>, \<open>LinkerBoundsProps\<close>: the checks of untrusted ELF metadata. The
  properties say over numbers without bound that an accepted table or relocation lies in its segment, although the checks compute in 64 bits.

  \<^bold>\<open>Instruction emulation\<close> (\<open>loader/x64InstructionEmulator.cpp\<close>, Linux branch). \<open>X64Emulator\<close> has the decoders and the instructions on a signal context.
  \<open>X64EmulatorProps\<close> states FIPS 180-4 and shows that the SHA instructions compute its rounds and schedules, and describes the bit
  fields bit by bit. \<open>X64DecodeProps\<close> has the encodings of the processor manual, shows that each is read back and executed, and that arbitrary bytes
  change at most one vector register and the instruction pointer.

  \<^bold>\<open>Synchronisation objects of the kernel\<close> (\<open>kernel/eventFlag.cpp\<close>, \<open>semaphore.cpp\<close>, \<open>pthread.cpp\<close>). Every object is a record, every critical
  section a function, and a step of the relation is one critical section of one of any number of threads. Properties about all
  reachable states are proved by an invariant that every step keeps. \<open>wait_for\<close> may return at any time, and whether a time limit has passed is an argument.
  \<^item> \<open>EventFlag\<close>, \<open>EventFlagProps\<close>: event flags with their named registry. Cancelling and deleting wait for the sleepers to leave; they always can.
  \<^item> \<open>Semaphore\<close>, \<open>SemaphoreProps\<close>, \<open>PosixSemaphore\<close>, \<open>PosixSemaphoreProps\<close>: kernel and POSIX semaphores.
  \<^item> \<open>PthreadSync\<close>, \<open>PthreadSyncProps\<close>: mutexes and condition variables. The configuration carries the history variable \<open>cf_depth\<close>, the
    number of successful locking calls not yet undone, so that exclusion speaks of what the calls returned. \<open>pt_run\<close> is the step relation
    without steps that wrap a 64-bit wake-up sequence.
  \<^item> \<open>PthreadRwlock\<close>, \<open>PthreadRwlockProps\<close>: read-write locks, with the history variables \<open>rc_reads\<close> and \<open>rc_writes\<close>. \<open>rw_run\<close> is the step relation
    without steps that wrap a 32-bit reader count.
  \<^item> \<open>PthreadAttr\<close>, \<open>PthreadKeys\<close>: thread attributes, and thread-specific data with its destructors, whose passes are four at most.

  \<^bold>\<open>Event queues\<close> (\<open>kernel/eventQueue.cpp\<close>, with the trigger functions of \<open>graphics/host_gpu/renderer/sync.cpp\<close> and \<open>graphics/presentation/videoOut.cpp\<close>).
  \<open>EventQueue\<close> has the queues and the table of the process; \<open>EventQueueProps\<close> reads a queue as a list of occurrences, shows that waiting hands out
  a prefix of it, and that handles are never used again. \<open>EventQueueWait\<close> has the threads that wait: each pass of the loop of \<open>WaitForEvents\<close> is a step. A lone waiter
  misses nothing; two can miss a timer.

  \<^bold>\<open>Common and graphics containers.\<close> \<open>DateTime\<close>, \<open>DateTimeProps\<close> (\<open>common/dateTime.cpp\<close>): calendar conversion is a round trip and keeps
  the order. \<open>RangeSet\<close>, \<open>RangeSetProps\<close> (\<open>graphics/host_gpu/rangeSet.h\<close>): sets of GPU addresses. \<open>BitArray\<close>,
  \<open>BitArrayProps\<close> (\<open>common/bitArray.h\<close>): word-at-a-time operations equal bit-by-bit ones; the iteration has the number of bits as fuel, which is
  enough because every step passes at least one bit.

  \<^bold>\<open>GPU page tracking\<close> (\<open>graphics/host_gpu/pageManager.cpp\<close>, \<open>regionManager.h\<close>, \<open>memoryTracker.h\<close>, \<open>memoryTracker.cpp\<close>).
  \<^item> \<open>PageManager\<close>, \<open>PageManagerProps\<close>: the watch counts of pages and the protection that the host has for them. The loop that merges
    calls to the host over a mask of pages equals counting page by page.
  \<^item> \<open>MemoryTracker\<close>, \<open>MemoryTrackerSpec\<close>, \<open>MemoryTrackerProps\<close>: the dirty bits of the CPU and the GPU. The tracker refines two sets of pages;
    \<open>Iterate_rule\<close> is the one induction over the loop \<open>Iterate\<close>. In every reachable state of tracker and texture cache
    a page is inaccessible exactly if the GPU has modified it, and writable exactly if the CPU has and the texture cache does not watch it.

  \<^bold>\<open>Surface tiling\<close> (\<open>graphics/guest_gpu/tile.cpp\<close>, \<open>gpu_format.cpp\<close>). The code consists of shifts and masks, written as lists of pairs.
  \<^item> \<open>TileBlock\<close>, \<open>TileBlockProps\<close>: the offset of an element in a block. The offsets are linear over exclusive or, so that they are a bijection iff their columns
    are independent, which is decided by elimination for every family and size of element.
  \<^item> \<open>TileSurface\<close>, \<open>TileSurfaceProps\<close>, \<open>TileMipProps\<close>: formats, pitches, and the sizes and mip levels of surfaces. No two levels of a tiled texture share
    a byte, provided that the total fits in 32 bits; the code does not check this.

  \<^bold>\<open>Not modelled.\<close> The contents of guest memory other than what an operation reads; the host back ends for files, threads, windows and virtual memory; thread creation
  and cancellation, which run guest code on host threads; the shader translator's SPIR-V output and the Vulkan renderer, whose meaning is given by the driver; audio and
  video decoding, which external libraries do; the library entry points that only forward to these; and the user interfaces.
\<close>

end
